(* ===== verification/Prelude.thy ===== *)
theory Prelude
  imports Main "HOL-Library.Monad_Syntax" "HOL-Library.Sublist"
begin

text \<open>
  Shared vocabulary of the development: result codes, the C string routines the loader
  calls (\<^verbatim>\<open>tolower\<close>, \<^verbatim>\<open>strtok_r\<close>, \<^verbatim>\<open>strtol\<close>, \<^verbatim>\<open>strtoul\<close>, \<^verbatim>\<open>strncpy\<close>), generic
  lemmas on lists, and the collections of rewrite rules the component theories fill.

  A C string is the list of its characters before the terminating zero.  A computation
  that may touch memory it must not touch has an \<open>option\<close> result, and \<open>None\<close> is that
  undefined behaviour; error codes are ordinary values.
\<close>

named_theorems list_defs \<open>unfolding rules of the container operations\<close>
named_theorems wf_intros \<open>introduction rules of container invariants\<close>

datatype VkResult =
    VK_SUCCESS
  | VK_NOT_READY
  | VK_INCOMPLETE
  | VK_ERROR_OUT_OF_HOST_MEMORY
  | VK_ERROR_INITIALIZATION_FAILED
  | VK_ERROR_LAYER_NOT_PRESENT
  | VK_ERROR_EXTENSION_NOT_PRESENT
  | VK_ERROR_FEATURE_NOT_PRESENT
  | VK_ERROR_INCOMPATIBLE_DRIVER
  | VK_ERROR_UNKNOWN

section \<open>Characters and strings of the C library\<close>

text \<open>\<^verbatim>\<open>tolower\<close> in the C locale.\<close>

definition tolower :: "char \<Rightarrow> char" where
  "tolower c = (let n = of_char c :: nat in
     if 65 \<le> n \<and> n \<le> 90 then char_of (n + 32) else c)"

definition isspace :: "char \<Rightarrow> bool" where
  "isspace c = (let n = of_char c :: nat in n = 32 \<or> (9 \<le> n \<and> n \<le> 13))"

definition isdigit :: "char \<Rightarrow> bool" where
  "isdigit c = (let n = of_char c :: nat in 48 \<le> n \<and> n \<le> 57)"

text \<open>The value of a digit in bases up to sixteen, as \<^verbatim>\<open>strtoul\<close> reads it.\<close>

definition digit_val :: "char \<Rightarrow> nat option" where
  "digit_val c = (let n = of_char c :: nat in
     if 48 \<le> n \<and> n \<le> 57 then Some (n - 48)
     else if 97 \<le> n \<and> n \<le> 102 then Some (n - 87)
     else if 65 \<le> n \<and> n \<le> 70 then Some (n - 55)
     else None)"

fun read_digits :: "nat \<Rightarrow> nat \<Rightarrow> string \<Rightarrow> nat \<times> string" where
  "read_digits base acc [] = (acc, [])"
| "read_digits base acc (c # cs) =
     (case digit_val c of
        Some d \<Rightarrow> if d < base then read_digits base (acc * base + d) cs else (acc, c # cs)
      | None \<Rightarrow> (acc, c # cs))"

text \<open>
  \<^verbatim>\<open>strtok_r\<close>: skip leading delimiters, return the token up to the next delimiter and
  the text after that delimiter, or no token when only delimiters are left.
\<close>

definition strtok_r :: "char list \<Rightarrow> string \<Rightarrow> (string \<times> string) option" where
  "strtok_r delim s =
     (let s' = dropWhile (\<lambda>c. c \<in> set delim) s in
      if s' = [] then None
      else Some (takeWhile (\<lambda>c. c \<notin> set delim) s',
                 drop 1 (dropWhile (\<lambda>c. c \<notin> set delim) s')))"

text \<open>\<^verbatim>\<open>strncpy\<close> into a large enough zero-filled buffer: at most \<open>n\<close> characters.\<close>

definition strncpy :: "string \<Rightarrow> nat \<Rightarrow> string" where
  "strncpy src n = take n src"

section \<open>Lists\<close>

lemma those_Some: "those xs = Some ys \<longleftrightarrow> xs = map Some ys"
proof (induction xs arbitrary: ys)
  case (Cons x xs)
  then show ?case by (cases ys) (auto split: option.splits)
qed auto

lemma strtok_r_shorter [termination_simp]:
  assumes "strtok_r delim s = Some (tok, rest)"
  shows "length rest < length s"
proof -
  let ?s = "dropWhile (\<lambda>c. c \<in> set delim) s"
  from assms have ne: "?s \<noteq> []" and rest: "rest = drop 1 (dropWhile (\<lambda>c. c \<notin> set delim) ?s)"
    by (auto simp: strtok_r_def Let_def split: if_splits)
  have "length rest \<le> length ?s - 1"
    unfolding rest by (simp add: diff_le_mono length_dropWhile_le)
  moreover have "0 < length ?s" using ne by simp
  moreover have "length ?s \<le> length s" by (rule length_dropWhile_le)
  ultimately show ?thesis by linarith
qed

lemma strtok_r_token:
  assumes "strtok_r delim s = Some (tok, rest)"
  shows "tok \<noteq> []" and "set tok \<inter> set delim = {}" and "set tok \<subseteq> set s" and "set rest \<subseteq> set s"
proof -
  let ?s = "dropWhile (\<lambda>c. c \<in> set delim) s"
  from assms have ne: "?s \<noteq> []" and tok: "tok = takeWhile (\<lambda>c. c \<notin> set delim) ?s"
    and rest: "rest = drop 1 (dropWhile (\<lambda>c. c \<notin> set delim) ?s)"
    by (auto simp: strtok_r_def Let_def split: if_splits)
  show "tok \<noteq> []"
    using ne hd_dropWhile [OF ne] by (cases ?s) (auto simp: tok)
  show "set tok \<inter> set delim = {}"
    unfolding tok by (auto dest: set_takeWhileD)
  show "set tok \<subseteq> set s"
    unfolding tok by (meson set_dropWhileD set_takeWhileD subsetI)
  show "set rest \<subseteq> set s"
    unfolding rest by (meson in_set_dropD set_dropWhileD subsetI)
qed

lemma of_char_tolower:
  "(of_char (tolower c) :: nat) = (if 65 \<le> (of_char c :: nat) \<and> (of_char c :: nat) \<le> 90 then of_char c + 32 else of_char c)"
  by (simp add: tolower_def Let_def take_bit_eq_mod)

lemma tolower_eq_iff:
  assumes "\<not> (97 \<le> (of_char d :: nat) \<and> (of_char d :: nat) \<le> 122)"
    and "\<not> (65 \<le> (of_char d :: nat) \<and> (of_char d :: nat) \<le> 90)"
  shows "tolower c = d \<longleftrightarrow> c = d"
proof -
  have "tolower c = d \<longleftrightarrow> (of_char (tolower c) :: nat) = of_char d" by (simp only: of_char_eq_iff)
  also have "\<dots> \<longleftrightarrow> (of_char c :: nat) = of_char d" using assms by (auto simp: of_char_tolower)
  also have "\<dots> \<longleftrightarrow> c = d" by (simp only: of_char_eq_iff)
  finally show ?thesis .
qed

lemma take_Suc_update:
  "n < length xs \<Longrightarrow> take (Suc n) (xs[n := x]) = take n xs @ [x]"
  by (simp add: take_Suc_conv_app_nth)

lemma map_the_Some [simp]: "map the (map Some xs) = xs"
  by (induction xs) auto

lemma list_ex_iff_nth: "(\<exists>i<length xs. P (xs ! i)) \<longleftrightarrow> (\<exists>x\<in>set xs. P x)"
  by (force simp: in_set_conv_nth)


text \<open>All the tokens successive calls of \<^verbatim>\<open>strtok_r\<close> return.\<close>

fun tokens :: "char list \<Rightarrow> string \<Rightarrow> string list" where
  "tokens delim s = (case strtok_r delim s of None \<Rightarrow> [] | Some (tok, rest) \<Rightarrow> tok # tokens delim rest)"

declare tokens.simps [simp del]

lemma tokens_None: "strtok_r delim s = None \<Longrightarrow> tokens delim s = []"
  by (simp add: tokens.simps)

lemma tokens_Nil [simp]: "tokens delim [] = []"
  by (rule tokens_None) (simp add: strtok_r_def)

lemma tokens_Some: "strtok_r delim s = Some (tok, rest) \<Longrightarrow> tokens delim s = tok # tokens delim rest"
  by (simp add: tokens.simps [of delim s])

lemma tokens_nonempty: "tok \<in> set (tokens delim s) \<Longrightarrow> tok \<noteq> [] \<and> set tok \<inter> set delim = {} \<and> set tok \<subseteq> set s"
proof (induction delim s rule: tokens.induct)
  case (1 delim s)
  show ?case
  proof (cases "strtok_r delim s")
    case None
    with "1.prems" show ?thesis by (simp add: tokens_None)
  next
    case (Some tr)
    obtain t r where tr: "tr = (t, r)" by (cases tr)
    with Some have st: "strtok_r delim s = Some (t, r)" by simp
    from "1.prems" consider "tok = t" | "tok \<in> set (tokens delim r)"
      by (auto simp: tokens_Some [OF st])
    then show ?thesis
    proof cases
      case 1
      with strtok_r_token [OF st] show ?thesis by simp
    next
      case 2
      with "1.IH" [OF Some tr [symmetric]] strtok_r_token [OF st] show ?thesis by blast
    qed
  qed
qed

lemma dropWhile_count_le: "length (filter P (dropWhile Q s)) \<le> length (filter P s)"
  by (induction s) auto

lemma length_tokens_le: "length (tokens delim s) \<le> Suc (length (filter (\<lambda>c. c \<in> set delim) s))"
proof (induction delim s rule: tokens.induct)
  case (1 delim s)
  show ?case
  proof (cases "strtok_r delim s")
    case None
    then show ?thesis by (simp add: tokens_None)
  next
    case (Some tr)
    obtain t r where tr: "tr = (t, r)" by (cases tr)
    with Some have st: "strtok_r delim s = Some (t, r)" by simp
    let ?D = "\<lambda>c. c \<in> set delim"
    let ?rest = "dropWhile (\<lambda>c. c \<notin> set delim) (dropWhile ?D s)"
    have r: "r = drop 1 ?rest" using st by (auto simp: strtok_r_def Let_def split: if_splits)
    have le: "length (filter ?D ?rest) \<le> length (filter ?D s)"
      by (rule le_trans [OF dropWhile_count_le dropWhile_count_le])
    show ?thesis
    proof (cases ?rest)
      case Nil
      have "r = []" unfolding r Nil by simp
      then show ?thesis by (simp add: tokens_Some [OF st])
    next
      case (Cons c cs)
      have "c \<in> set delim"
        using hd_dropWhile [of "\<lambda>c. c \<notin> set delim" "dropWhile ?D s"] Cons by auto
      moreover have "r = cs" unfolding r Cons by simp
      ultimately have "Suc (length (filter ?D r)) \<le> length (filter ?D s)" using le Cons by simp
      with "1.IH" [OF Some tr [symmetric]] show ?thesis by (simp add: tokens_Some [OF st])
    qed
  qed
qed

end
