(* ===== verification/Allocation.thy ===== *)
theory Allocation
  imports Prelude
begin

text \<open>
  The allocation wrappers of \<^verbatim>\<open>src/loader/allocation.c\<close>.  The heap records the outcome of
  every allocation attempt (\<open>outcomes\<close>, indexed by the number of attempts made so far, so that
  any pattern of failures is covered) and the number of blocks that are live, so that leaks
  show.  A pointer to an array is a \<open>buf\<close>: the null pointer, a pointer to freed memory, or a
  block with its cells.  An access through a null or dangling pointer, or outside the cells, is
  undefined behaviour, the result \<open>None\<close>.
\<close>

datatype 'a buf = NULL | Freed | Buf "'a list"

record heap =
  outcomes :: "nat \<Rightarrow> bool"
  clock :: nat
  live :: int

text \<open>Which of the application's callbacks are present; \<open>None\<close> is a null \<^verbatim>\<open>pAllocator\<close>.\<close>

record VkAllocationCallbacks =
  pfnAllocation :: bool
  pfnReallocation :: bool
  pfnFree :: bool

type_synonym allocator = "VkAllocationCallbacks option"

definition succeeds :: "heap \<Rightarrow> bool" where
  "succeeds h = outcomes h (clock h)"

definition tick :: "heap \<Rightarrow> heap" where
  "tick h = h\<lparr>clock := clock h + 1\<rparr>"

definition add_live :: "int \<Rightarrow> heap \<Rightarrow> heap" where
  "add_live d h = h\<lparr>live := live h + d\<rparr>"

section \<open>Access to cells\<close>

fun buf_read :: "'a buf \<Rightarrow> nat \<Rightarrow> 'a option" where
  "buf_read (Buf xs) i = (if i < length xs then Some (xs ! i) else None)"
| "buf_read _ i = None"

fun buf_write :: "'a buf \<Rightarrow> nat \<Rightarrow> 'a \<Rightarrow> 'a buf option" where
  "buf_write (Buf xs) i x = (if i < length xs then Some (Buf (xs[i := x])) else None)"
| "buf_write _ i x = None"

section \<open>The wrappers\<close>

text \<open>
  \<^verbatim>\<open>loader_alloc\<close>: either the callback or \<^verbatim>\<open>malloc\<close> is asked; the cells hold whatever was there
  (\<open>junk\<close>).
\<close>

definition loader_alloc :: "allocator \<Rightarrow> 'a \<Rightarrow> nat \<Rightarrow> heap \<Rightarrow> 'a buf \<times> heap" where
  "loader_alloc pAllocator junk sz h =
     (if succeeds h then (Buf (replicate sz junk), add_live 1 (tick h)) else (NULL, tick h))"

text \<open>\<^verbatim>\<open>loader_calloc\<close> clears the block on both paths.\<close>

definition loader_calloc :: "allocator \<Rightarrow> 'a \<Rightarrow> nat \<Rightarrow> heap \<Rightarrow> 'a buf \<times> heap" where
  "loader_calloc pAllocator zero sz h =
     (if succeeds h then (Buf (replicate sz zero), add_live 1 (tick h)) else (NULL, tick h))"

fun loader_free :: "allocator \<Rightarrow> 'a buf \<Rightarrow> heap \<Rightarrow> heap option" where
  "loader_free pAllocator NULL h = Some h"
| "loader_free pAllocator Freed h = None"
| "loader_free pAllocator (Buf xs) h = Some (add_live (- 1) h)"

text \<open>
  \<^verbatim>\<open>loader_realloc\<close>.  The result is the returned pointer, what the caller's old pointer is
  afterwards, and the heap.  Only the \<^verbatim>\<open>realloc\<close> path clears the new tail; a reallocation
  callback leaves it as it was.
\<close>

definition resized :: "'a \<Rightarrow> nat \<Rightarrow> 'a list \<Rightarrow> 'a list" where
  "resized fill sz xs = take sz xs @ replicate (sz - length xs) fill"

fun loader_realloc ::
  "allocator \<Rightarrow> 'a \<Rightarrow> 'a \<Rightarrow> 'a buf \<Rightarrow> nat \<Rightarrow> nat \<Rightarrow> heap \<Rightarrow> ('a buf \<times> 'a buf \<times> heap) option"
where
  "loader_realloc pAllocator zero junk NULL os sz h =
     (case loader_alloc pAllocator junk sz h of (p, h') \<Rightarrow> Some (p, NULL, h'))"
| "loader_realloc pAllocator zero junk Freed os sz h = None"
| "loader_realloc pAllocator zero junk (Buf xs) os sz h =
     (if os = 0 then
        (case loader_alloc pAllocator junk sz h of (p, h') \<Rightarrow> Some (p, Buf xs, h'))
      else if sz = 0 then
        (case loader_free pAllocator (Buf xs) h of
           None \<Rightarrow> None | Some h' \<Rightarrow> Some (NULL, Freed, h'))
      else if \<not> succeeds h then Some (NULL, Buf xs, tick h)
      else if (case pAllocator of None \<Rightarrow> False | Some cb \<Rightarrow> pfnReallocation cb)
        then Some (Buf (resized junk sz xs), Freed, tick h)
      else Some (Buf (resized zero sz xs), Freed, tick h))"

text \<open>Freeing a heap string the caller owns.\<close>

definition free_str :: "allocator \<Rightarrow> string option \<Rightarrow> heap \<Rightarrow> heap" where
  "free_str pAllocator s h = (case s of None \<Rightarrow> h | Some _ \<Rightarrow> add_live (- 1) h)"

section \<open>Lemmas\<close>

lemma live_simps [simp]:
  "live (tick h) = live h" "live (add_live d h) = live h + d"
  "live (free_str a None h) = live h" "live (free_str a (Some s) h) = live h - 1"
  by (simp_all add: tick_def add_live_def free_str_def)

lemma succeeds_simps [simp]:
  "outcomes (tick h) = outcomes h" "outcomes (add_live d h) = outcomes h"
  "clock (tick h) = Suc (clock h)" "clock (add_live d h) = clock h"
  by (simp_all add: tick_def add_live_def)

lemma length_resized [simp]: "length (resized f n xs) = n"
  by (simp add: resized_def)

lemma take_resized [simp]: "m \<le> length xs \<Longrightarrow> m \<le> n \<Longrightarrow> take m (resized f n xs) = take m xs"
  by (simp add: resized_def)

lemma nth_resized_old: "i < length xs \<Longrightarrow> i < n \<Longrightarrow> resized f n xs ! i = xs ! i"
  by (simp add: resized_def nth_append)

lemma nth_resized_new: "length xs \<le> i \<Longrightarrow> i < n \<Longrightarrow> resized f n xs ! i = f"
  by (simp add: resized_def nth_append)

lemma buf_read_Some [simp]:
  "buf_read p i = Some x \<longleftrightarrow> (\<exists>xs. p = Buf xs \<and> i < length xs \<and> xs ! i = x)"
  by (cases p) auto

lemma buf_write_Some [simp]:
  "buf_write p i x = Some q \<longleftrightarrow> (\<exists>xs. p = Buf xs \<and> i < length xs \<and> q = Buf (xs[i := x]))"
  by (cases p) auto

text \<open>
  Reallocation never loses a live block silently: whatever happens, the number of live blocks is
  that of the pointers the caller is left with.
\<close>

fun blocks :: "'a buf \<Rightarrow> int" where
  "blocks (Buf xs) = 1"
| "blocks _ = 0"

lemma loader_realloc_accounts:
  assumes "loader_realloc a z j p os n h = Some (q, p', h')"
  shows "live h' - live h = blocks q + blocks p' - blocks p"
  using assms
  by (cases p) (auto simp: loader_alloc_def split: if_splits prod.splits)

lemma loader_realloc_grow:
  assumes "loader_realloc a z j (Buf xs) os n h = Some (q, p', h')"
    and "0 < os" and "0 < n"
  shows "(q = NULL \<and> p' = Buf xs) \<or>
         (\<exists>ys. q = Buf ys \<and> length ys = n \<and> p' = Freed \<and>
               (\<forall>m\<le>length xs. m \<le> n \<longrightarrow> take m ys = take m xs))"
  using assms by (auto split: if_splits)

lemma loader_realloc_defined:
  "p \<noteq> Freed \<Longrightarrow> \<exists>q p' h'. loader_realloc a z j p os n h = Some (q, p', h')"
  by (cases p) (auto simp: loader_alloc_def)

end
