(* ===== verification/StringList.thy ===== *)
theory StringList
  imports Allocation
begin

text \<open>
  The growable array of owned strings, \<^verbatim>\<open>struct loader_string_list\<close> (\<^verbatim>\<open>loader_common.h\<close>) and its
  operations in \<^verbatim>\<open>loader.c\<close>.  A cell holds a \<^verbatim>\<open>char *\<close>, null or a string.  Every operation is
  total memory-safe on well-formed lists, keeps its contents on failure, and never leaks: the
  change in the number of live blocks is the change in what the list owns.  The interface
  \<open>append_container\<close> at the start is the contract the loader's growable arrays share.
\<close>

section \<open>The contract of a growable array\<close>

locale append_container =
  fixes append :: "'l \<Rightarrow> 'e \<Rightarrow> heap \<Rightarrow> (VkResult \<times> 'l \<times> heap) option"
    and contents :: "'l \<Rightarrow> 'e list"
    and invar :: "'l \<Rightarrow> bool"
    and bound :: nat
  assumes append_defined: "invar l \<Longrightarrow> length (contents l) < bound \<Longrightarrow> \<exists>r l' h'. append l e h = Some (r, l', h')"
    and append_results: "invar l \<Longrightarrow> length (contents l) < bound \<Longrightarrow> append l e h = Some (r, l', h') \<Longrightarrow>
          r = VK_SUCCESS \<or> r = VK_ERROR_OUT_OF_HOST_MEMORY"
    and append_success: "invar l \<Longrightarrow> length (contents l) < bound \<Longrightarrow> append l e h = Some (VK_SUCCESS, l', h') \<Longrightarrow>
          invar l' \<and> contents l' = contents l @ [e]"
    and append_failure: "invar l \<Longrightarrow> length (contents l) < bound \<Longrightarrow>
          append l e h = Some (VK_ERROR_OUT_OF_HOST_MEMORY, l', h') \<Longrightarrow> contents l' = contents l"
begin

text \<open>A loop that appends until the first failure, as the loader's callers do.\<close>

fun append_all :: "'l \<Rightarrow> 'e list \<Rightarrow> heap \<Rightarrow> (VkResult \<times> 'l \<times> heap) option" where
  "append_all l [] h = Some (VK_SUCCESS, l, h)"
| "append_all l (e # es) h = do {
     (r, l', h') \<leftarrow> append l e h;
     (if r = VK_SUCCESS then append_all l' es h' else Some (r, l', h'))
   }"

lemma append_all_defined:
  assumes "invar l" and "length (contents l) + length es \<le> bound"
  shows "\<exists>r l' h'. append_all l es h = Some (r, l', h') \<and>
           (\<exists>n\<le>length es. contents l' = contents l @ take n es \<and>
              (if r = VK_SUCCESS then n = length es \<and> invar l' else r = VK_ERROR_OUT_OF_HOST_MEMORY))"
  using assms
proof (induction es arbitrary: l h)
  case Nil
  then show ?case by simp
next
  case (Cons e es)
  then have room: "length (contents l) < bound" by simp
  obtain r l1 h1 where a: "append l e h = Some (r, l1, h1)"
    using append_defined [OF Cons.prems(1) room] by blast
  show ?case
  proof (cases "r = VK_SUCCESS")
    case True
    with append_success [OF Cons.prems(1) room] a
    have inv: "invar l1" and c: "contents l1 = contents l @ [e]" by auto
    from Cons.prems(2) c have "length (contents l1) + length es \<le> bound" by simp
    from Cons.IH [OF inv this, of h1] obtain r2 l2 h2 n where
      rec: "append_all l1 es h1 = Some (r2, l2, h2)" and n: "n \<le> length es"
      and c2: "contents l2 = contents l1 @ take n es"
      and s: "if r2 = VK_SUCCESS then n = length es \<and> invar l2 else r2 = VK_ERROR_OUT_OF_HOST_MEMORY"
      by blast
    with c have "contents l2 = contents l @ take (Suc n) (e # es)" and "Suc n \<le> length (e # es)" by simp_all
    with True a rec s show ?thesis by auto
  next
    case False
    with append_results [OF Cons.prems(1) room a] have r: "r = VK_ERROR_OUT_OF_HOST_MEMORY" by simp
    with append_failure [OF Cons.prems(1) room] a have "contents l1 = contents l" by blast
    with r a show ?thesis by (auto intro: exI [of _ 0])
  qed
qed

end

section \<open>String lists\<close>

record loader_string_list =
  sl_allocated_count :: nat
  sl_count :: nat
  sl_list :: "string option buf"

definition empty_string_list :: loader_string_list where
  "empty_string_list = \<lparr>sl_allocated_count = 0, sl_count = 0, sl_list = NULL\<rparr>"

text \<open>The scan of \<^verbatim>\<open>is_string_in_string_list\<close>, from index \<open>i\<close> over the \<open>n\<close> cells left.\<close>

fun string_scan :: "string option buf \<Rightarrow> string \<Rightarrow> nat \<Rightarrow> nat \<Rightarrow> bool option" where
  "string_scan cells str i 0 = Some False"
| "string_scan cells str i (Suc n) = do {
     cell \<leftarrow> buf_read cells i;
     s \<leftarrow> cell;
     (if s = str then Some True else string_scan cells str (Suc i) n)
   }"

definition is_string_in_string_list :: "loader_string_list \<Rightarrow> string \<Rightarrow> bool option" where
  "is_string_in_string_list sl str = string_scan (sl_list sl) str 0 (sl_count sl)"

text \<open>\<^verbatim>\<open>loader_copy_to_new_str\<close>: \<open>None\<close> as the string is the null pointer left by a failed allocation.\<close>

definition loader_copy_to_new_str :: "allocator \<Rightarrow> string \<Rightarrow> heap \<Rightarrow> VkResult \<times> string option \<times> heap" where
  "loader_copy_to_new_str a source_str h =
     (if succeeds h then (VK_SUCCESS, Some (strncpy source_str (length source_str + 1)), add_live 1 (tick h))
      else (VK_ERROR_OUT_OF_HOST_MEMORY, None, tick h))"

definition create_string_list ::
  "allocator \<Rightarrow> nat \<Rightarrow> loader_string_list \<Rightarrow> heap \<Rightarrow> VkResult \<times> loader_string_list \<times> heap" where
  "create_string_list a allocated_count sl h =
     (case loader_calloc a None allocated_count h of
        (NULL, h') \<Rightarrow> (VK_ERROR_OUT_OF_HOST_MEMORY, sl\<lparr>sl_list := NULL\<rparr>, h')
      | (p, h') \<Rightarrow> (VK_SUCCESS, sl\<lparr>sl_list := p, sl_allocated_count := allocated_count, sl_count := 0\<rparr>, h'))"

text \<open>
  \<^verbatim>\<open>allocated_count\<close> is written before the allocation is checked.  Doubling is \<^verbatim>\<open>uint32_t\<close>
  arithmetic; a doubling that wraps to zero asks \<^verbatim>\<open>loader_realloc\<close> for no bytes.
\<close>

definition increase_str_capacity_by_at_least_one ::
  "allocator \<Rightarrow> loader_string_list \<Rightarrow> heap \<Rightarrow> (VkResult \<times> loader_string_list \<times> heap) option" where
  "increase_str_capacity_by_at_least_one a sl h =
     (if sl_allocated_count sl = 0 then
        (case loader_calloc a None 32 h of
           (NULL, h') \<Rightarrow> Some (VK_ERROR_OUT_OF_HOST_MEMORY, sl\<lparr>sl_allocated_count := 32, sl_list := NULL\<rparr>, h')
         | (p, h') \<Rightarrow> Some (VK_SUCCESS, sl\<lparr>sl_allocated_count := 32, sl_list := p\<rparr>, h'))
      else if (sl_count sl + 1) mod 2 ^ 32 > sl_allocated_count sl then
        (let new_allocated_count = (sl_allocated_count sl * 2) mod 2 ^ 32 in
         do {
           (new_ptr, old, h') \<leftarrow>
             loader_realloc a None None (sl_list sl) (sl_allocated_count sl) new_allocated_count h;
           (if new_ptr = NULL then Some (VK_ERROR_OUT_OF_HOST_MEMORY, sl\<lparr>sl_list := old\<rparr>, h')
            else Some (VK_SUCCESS, sl\<lparr>sl_list := new_ptr, sl_allocated_count := new_allocated_count\<rparr>, h'))
         })
      else Some (VK_SUCCESS, sl, h))"

definition append_str_to_string_list ::
  "allocator \<Rightarrow> loader_string_list \<Rightarrow> string \<Rightarrow> heap \<Rightarrow> (VkResult \<times> loader_string_list \<times> heap) option" where
  "append_str_to_string_list a sl str h = do {
     (res, sl', h') \<leftarrow> increase_str_capacity_by_at_least_one a sl h;
     (if res = VK_ERROR_OUT_OF_HOST_MEMORY then Some (res, sl', free_str a (Some str) h')
      else do {
        cells \<leftarrow> buf_write (sl_list sl') (sl_count sl') (Some str);
        Some (VK_SUCCESS, sl'\<lparr>sl_list := cells, sl_count := (sl_count sl' + 1) mod 2 ^ 32\<rparr>, h')
      })
   }"

definition append_str_to_string_list_if_unique ::
  "allocator \<Rightarrow> loader_string_list \<Rightarrow> string \<Rightarrow> heap \<Rightarrow> (VkResult \<times> loader_string_list \<times> heap) option" where
  "append_str_to_string_list_if_unique a sl str h = do {
     found \<leftarrow> is_string_in_string_list sl str;
     (if found then Some (VK_SUCCESS, sl, free_str a (Some str) h)
      else append_str_to_string_list a sl str h)
   }"

text \<open>The \<^verbatim>\<open>memmove\<close> of \<open>n\<close> cells one place up.\<close>

fun shift_up :: "'a buf \<Rightarrow> nat \<Rightarrow> 'a buf option" where
  "shift_up (Buf xs) n = (if n < length xs then Some (Buf (take 1 xs @ take n xs @ drop (n + 1) xs)) else None)"
| "shift_up _ n = None"

definition prepend_str_to_string_list ::
  "allocator \<Rightarrow> loader_string_list \<Rightarrow> string \<Rightarrow> heap \<Rightarrow> (VkResult \<times> loader_string_list \<times> heap) option" where
  "prepend_str_to_string_list a sl str h = do {
     (res, sl', h') \<leftarrow> increase_str_capacity_by_at_least_one a sl h;
     (if res = VK_ERROR_OUT_OF_HOST_MEMORY then Some (res, sl', free_str a (Some str) h')
      else do {
        shifted \<leftarrow> shift_up (sl_list sl') (sl_count sl');
        cells \<leftarrow> buf_write shifted 0 (Some str);
        Some (VK_SUCCESS, sl'\<lparr>sl_list := cells, sl_count := (sl_count sl' + 1) mod 2 ^ 32\<rparr>, h')
      })
   }"

definition copy_str_to_string_list ::
  "allocator \<Rightarrow> loader_string_list \<Rightarrow> string \<Rightarrow> nat \<Rightarrow> heap \<Rightarrow> (VkResult \<times> loader_string_list \<times> heap) option" where
  "copy_str_to_string_list a sl str str_len h =
     (if succeeds h then append_str_to_string_list a sl (strncpy str str_len) (add_live 1 (tick h))
      else Some (VK_ERROR_OUT_OF_HOST_MEMORY, sl, tick h))"

definition copy_str_to_string_list_if_unique ::
  "allocator \<Rightarrow> loader_string_list \<Rightarrow> string \<Rightarrow> nat \<Rightarrow> heap \<Rightarrow> (VkResult \<times> loader_string_list \<times> heap) option" where
  "copy_str_to_string_list_if_unique a sl str str_len h = do {
     found \<leftarrow> is_string_in_string_list sl str;
     (if found then Some (VK_SUCCESS, sl, h) else copy_str_to_string_list a sl str str_len h)
   }"

definition copy_str_to_start_of_string_list ::
  "allocator \<Rightarrow> loader_string_list \<Rightarrow> string \<Rightarrow> nat \<Rightarrow> heap \<Rightarrow> (VkResult \<times> loader_string_list \<times> heap) option" where
  "copy_str_to_start_of_string_list a sl str str_len h =
     (if succeeds h then prepend_str_to_string_list a sl (strncpy str str_len) (add_live 1 (tick h))
      else Some (VK_ERROR_OUT_OF_HOST_MEMORY, sl, tick h))"

fun free_cells :: "allocator \<Rightarrow> string option buf \<Rightarrow> nat \<Rightarrow> nat \<Rightarrow> heap \<Rightarrow> heap option" where
  "free_cells a cells i 0 h = Some h"
| "free_cells a cells i (Suc n) h = do {
     cell \<leftarrow> buf_read cells i;
     free_cells a cells (Suc i) n (free_str a cell h)
   }"

definition free_string_list ::
  "allocator \<Rightarrow> loader_string_list \<Rightarrow> heap \<Rightarrow> (loader_string_list \<times> heap) option" where
  "free_string_list a sl h =
     (if sl_list sl = NULL then Some (empty_string_list, h)
      else do {
        h' \<leftarrow> free_cells a (sl_list sl) 0 (sl_count sl) h;
        h'' \<leftarrow> loader_free a (sl_list sl) h';
        Some (empty_string_list, h'')
      })"

section \<open>Invariant and abstraction\<close>

definition wf_string_list :: "loader_string_list \<Rightarrow> bool" where
  "wf_string_list sl =
     (case sl_list sl of
        NULL \<Rightarrow> sl_allocated_count sl = 0 \<and> sl_count sl = 0
      | Freed \<Rightarrow> False
      | Buf xs \<Rightarrow> length xs = sl_allocated_count sl \<and> 0 < sl_allocated_count sl \<and> sl_count sl \<le> length xs \<and>
          list_all (\<lambda>c. c \<noteq> None) (take (sl_count sl) xs))"

definition sl_strings :: "loader_string_list \<Rightarrow> string list" where
  "sl_strings sl = (case sl_list sl of Buf xs \<Rightarrow> map the (take (sl_count sl) xs) | _ \<Rightarrow> [])"

definition sl_owned :: "loader_string_list \<Rightarrow> int" where
  "sl_owned sl = blocks (sl_list sl) + int (length (sl_strings sl))"

text \<open>Fewer than \<open>2\<^sup>31\<close> strings: the doubling of \<^verbatim>\<open>allocated_count\<close> does not wrap.\<close>

definition sl_room :: "loader_string_list \<Rightarrow> bool" where
  "sl_room sl = (sl_count sl < 2 ^ 31)"

lemma wf_empty_string_list [simp, wf_intros]: "wf_string_list empty_string_list"
  by (simp add: wf_string_list_def empty_string_list_def)

lemma sl_strings_empty [simp]: "sl_strings empty_string_list = []" "sl_owned empty_string_list = 0"
  by (simp_all add: sl_strings_def sl_owned_def empty_string_list_def)

lemma length_sl_strings: "wf_string_list sl \<Longrightarrow> length (sl_strings sl) = sl_count sl"
  by (auto simp: wf_string_list_def sl_strings_def split: buf.splits)

text \<open>What the capacity check leaves behind, on success and on failure.\<close>

definition grown :: "loader_string_list \<Rightarrow> heap \<Rightarrow> loader_string_list \<Rightarrow> heap \<Rightarrow> bool" where
  "grown sl h sl' h' =
     (\<exists>xs. sl_list sl' = Buf xs \<and> length xs = sl_allocated_count sl' \<and> sl_count sl' = sl_count sl \<and>
        sl_count sl < length xs \<and> list_all (\<lambda>c. c \<noteq> None) (take (sl_count sl) xs) \<and>
        map the (take (sl_count sl) xs) = sl_strings sl \<and>
        live h' - live h = 1 - blocks (sl_list sl))"

lemma increase_first:
  assumes "wf_string_list sl" and "sl_list sl = NULL"
  shows "(if succeeds h
          then \<exists>sl' h'. increase_str_capacity_by_at_least_one a sl h = Some (VK_SUCCESS, sl', h') \<and> grown sl h sl' h'
          else increase_str_capacity_by_at_least_one a sl h =
                 Some (VK_ERROR_OUT_OF_HOST_MEMORY, sl\<lparr>sl_allocated_count := 32, sl_list := NULL\<rparr>, tick h))"
  using assms
  by (auto simp: increase_str_capacity_by_at_least_one_def loader_calloc_def sl_strings_def
      wf_string_list_def grown_def)

lemma increase_full:
  assumes "wf_string_list sl" and "sl_room sl" and "sl_list sl = Buf ys" and "sl_count sl = length ys"
  shows "increase_str_capacity_by_at_least_one a sl h = Some (VK_ERROR_OUT_OF_HOST_MEMORY, sl, tick h) \<or>
         (\<exists>sl' h'. increase_str_capacity_by_at_least_one a sl h = Some (VK_SUCCESS, sl', h') \<and> grown sl h sl' h')"
proof -
  from assms have wf: "length ys = sl_allocated_count sl" "0 < sl_allocated_count sl"
      "list_all (\<lambda>c. c \<noteq> None) ys" and small: "sl_allocated_count sl < 2147483648"
    by (auto simp: wf_string_list_def sl_room_def)
  let ?n = "sl_allocated_count sl * 2"
  have n: "?n mod 4294967296 = ?n" "(sl_allocated_count sl + 1) mod 4294967296 = sl_allocated_count sl + 1"
    using small by auto
  have str: "sl_strings sl = map the ys" using assms by (simp add: sl_strings_def)
  show ?thesis
  proof (cases "succeeds h")
    case False
    then show ?thesis
      using wf n assms by (simp add: increase_str_capacity_by_at_least_one_def Let_def)
  next
    case True
    let ?zs = "resized None ?n ys"
    have "increase_str_capacity_by_at_least_one a sl h =
        Some (VK_SUCCESS, sl\<lparr>sl_list := Buf ?zs, sl_allocated_count := ?n\<rparr>, tick h)"
      using True wf n assms
      by (auto simp: increase_str_capacity_by_at_least_one_def Let_def split: option.split)
    moreover have "take (length ys) ?zs = ys" by (simp add: wf)
    ultimately show ?thesis
      using wf str assms by (auto simp: grown_def)
  qed
qed

lemma increase_cases:
  assumes "wf_string_list sl" and "sl_room sl"
  obtains (success) sl' h' where
      "increase_str_capacity_by_at_least_one a sl h = Some (VK_SUCCESS, sl', h')" "grown sl h sl' h'"
  | (first) "sl_list sl = NULL"
      "increase_str_capacity_by_at_least_one a sl h =
         Some (VK_ERROR_OUT_OF_HOST_MEMORY, sl\<lparr>sl_allocated_count := 32, sl_list := NULL\<rparr>, tick h)"
  | (full) "sl_list sl \<noteq> NULL"
      "increase_str_capacity_by_at_least_one a sl h = Some (VK_ERROR_OUT_OF_HOST_MEMORY, sl, tick h)"
proof (cases "sl_list sl")
  case NULL
  then show thesis
    using increase_first [OF assms(1) NULL, of h a] first success by (metis (full_types))
next
  case Freed
  with assms show thesis by (simp add: wf_string_list_def)
next
  case (Buf ys)
  show thesis
  proof (cases "sl_count sl = length ys")
    case True
    from Buf have "sl_list sl \<noteq> NULL" by simp
    with increase_full [OF assms Buf True, of a h] full success show thesis by blast
  next
    case False
    with assms Buf have "increase_str_capacity_by_at_least_one a sl h = Some (VK_SUCCESS, sl, h)"
      and "grown sl h sl h"
      by (auto simp: increase_str_capacity_by_at_least_one_def wf_string_list_def sl_room_def
          grown_def sl_strings_def)
    then show thesis by (rule success)
  qed
qed


section \<open>Contracts of the operations\<close>

text \<open>
  The outcome of an insertion whose string the callee takes over.  In both outcomes the blocks
  the list owns and the blocks that are live move together, less the one string handed in.
\<close>

definition takes_over ::
  "(string list \<Rightarrow> string list) \<Rightarrow> loader_string_list \<Rightarrow> heap \<Rightarrow> VkResult \<Rightarrow> loader_string_list \<Rightarrow> heap \<Rightarrow> bool" where
  "takes_over f sl h r sl' h' =
     (live h' - sl_owned sl' = live h - sl_owned sl - 1 \<and>
      (r = VK_SUCCESS \<and> wf_string_list sl' \<and> sl_strings sl' = f (sl_strings sl) \<and>
         sl_count sl' = length (f (sl_strings sl)) \<or>
       r = VK_ERROR_OUT_OF_HOST_MEMORY \<and> sl_strings sl' = sl_strings sl))"

lemma takes_over_failure:
  assumes "wf_string_list sl"
  shows "takes_over f sl h VK_ERROR_OUT_OF_HOST_MEMORY sl (free_str a (Some s) (tick h))"
    and "sl_list sl = NULL \<Longrightarrow>
      takes_over f sl h VK_ERROR_OUT_OF_HOST_MEMORY (sl\<lparr>sl_allocated_count := 32, sl_list := NULL\<rparr>)
        (free_str a (Some s) (tick h))"
  by (auto simp: takes_over_def sl_owned_def sl_strings_def)

lemma append_str_takes_over:
  assumes "wf_string_list sl" and "sl_room sl"
  shows "\<exists>r sl' h'. append_str_to_string_list a sl str h = Some (r, sl', h') \<and>
           takes_over (\<lambda>ss. ss @ [str]) sl h r sl' h'"
  using assms
proof (cases rule: increase_cases [where a = a and h = h])
  case (success sl1 h1)
  then obtain xs where g: "sl_list sl1 = Buf xs" "length xs = sl_allocated_count sl1"
    "sl_count sl1 = sl_count sl" "sl_count sl < length xs"
    "list_all (\<lambda>c. c \<noteq> None) (take (sl_count sl) xs)"
    "map the (take (sl_count sl) xs) = sl_strings sl" "live h1 - live h = 1 - blocks (sl_list sl)"
    by (auto simp: grown_def)
  let ?sl = "sl1\<lparr>sl_list := Buf (xs[sl_count sl := Some str]), sl_count := Suc (sl_count sl)\<rparr>"
  have m: "(sl_count sl + 1) mod 4294967296 = Suc (sl_count sl)" using assms by (simp add: sl_room_def)
  have ap: "append_str_to_string_list a sl str h = Some (VK_SUCCESS, ?sl, h1)"
    using success g m by (simp add: append_str_to_string_list_def)
  have st: "sl_strings ?sl = sl_strings sl @ [str]"
    using g by (simp add: sl_strings_def take_Suc_update)
  have "wf_string_list ?sl"
    using g by (auto simp: wf_string_list_def take_Suc_update)
  moreover have "live h1 - sl_owned ?sl = live h - sl_owned sl - 1"
    using g st by (simp add: sl_owned_def)
  ultimately show ?thesis
    using ap st length_sl_strings [OF assms(1)] by (auto simp: takes_over_def)
qed (auto simp: append_str_to_string_list_def assms intro: takes_over_failure)

lemma shift_up_head:
  assumes "n < length xs"
  shows "\<exists>ys. shift_up (Buf xs) n = Some (Buf ys) \<and> length ys = length xs \<and>
           take (Suc n) (ys[0 := x]) = x # take n xs"
proof -
  from assms obtain y zs where xs: "xs = y # zs" by (cases xs) auto
  show ?thesis using assms by (auto simp: xs take_Cons' min_def)
qed

lemma prepend_str_takes_over:
  assumes "wf_string_list sl" and "sl_room sl"
  shows "\<exists>r sl' h'. prepend_str_to_string_list a sl str h = Some (r, sl', h') \<and>
           takes_over (\<lambda>ss. str # ss) sl h r sl' h'"
  using assms
proof (cases rule: increase_cases [where a = a and h = h])
  case (success sl1 h1)
  then obtain xs where g: "sl_list sl1 = Buf xs" "length xs = sl_allocated_count sl1"
    "sl_count sl1 = sl_count sl" "sl_count sl < length xs"
    "list_all (\<lambda>c. c \<noteq> None) (take (sl_count sl) xs)"
    "map the (take (sl_count sl) xs) = sl_strings sl" "live h1 - live h = 1 - blocks (sl_list sl)"
    by (auto simp: grown_def)
  from shift_up_head [OF g(4), of "Some str"] obtain ys where ys: "shift_up (Buf xs) (sl_count sl) = Some (Buf ys)"
    "length ys = length xs" "take (Suc (sl_count sl)) (ys[0 := Some str]) = Some str # take (sl_count sl) xs"
    by blast
  let ?sl = "sl1\<lparr>sl_list := Buf (ys[0 := Some str]), sl_count := Suc (sl_count sl)\<rparr>"
  have m: "(sl_count sl + 1) mod 4294967296 = Suc (sl_count sl)" using assms by (simp add: sl_room_def)
  have pos: "0 < length ys" using ys g by linarith
  have ap: "prepend_str_to_string_list a sl str h = Some (VK_SUCCESS, ?sl, h1)"
    using success g m ys pos by (simp add: prepend_str_to_string_list_def)
  have st: "sl_strings ?sl = str # sl_strings sl"
    using g ys by (simp add: sl_strings_def)
  have "wf_string_list ?sl"
    using g ys pos by (auto simp: wf_string_list_def)
  moreover have "live h1 - sl_owned ?sl = live h - sl_owned sl - 1"
    using g st by (simp add: sl_owned_def)
  ultimately show ?thesis
    using ap st length_sl_strings [OF assms(1)] by (auto simp: takes_over_def)
qed (auto simp: prepend_str_to_string_list_def assms intro: takes_over_failure)


lemma string_scan_correct:
  assumes "i + n \<le> length xs" and "\<forall>j<n. xs ! (i + j) \<noteq> None"
  shows "string_scan (Buf xs) str i n = Some (str \<in> set (map the (take n (drop i xs))))"
  using assms
proof (induction n arbitrary: i)
  case 0
  then show ?case by simp
next
  case (Suc n)
  from Suc.prems(2) have "xs ! i \<noteq> None" by auto
  then obtain s where s: "xs ! i = Some s" by blast
  have "\<forall>j<n. xs ! (Suc i + j) \<noteq> None"
    using Suc.prems(2) by (metis Suc_less_eq add_Suc_shift)
  with Suc.IH [of "Suc i"] Suc.prems(1)
  have IH: "string_scan (Buf xs) str (Suc i) n = Some (str \<in> set (map the (take n (drop (Suc i) xs))))"
    by simp
  have "drop i xs = Some s # drop (Suc i) xs"
    using Suc.prems(1) s by (simp add: Cons_nth_drop_Suc [symmetric])
  with IH s Suc.prems(1) show ?case by auto
qed

lemma is_string_in_string_list_correct:
  assumes "wf_string_list sl"
  shows "is_string_in_string_list sl str = Some (str \<in> set (sl_strings sl))"
proof (cases "sl_list sl")
  case (Buf xs)
  with assms have wf: "sl_count sl \<le> length xs" "list_all (\<lambda>c. c \<noteq> None) (take (sl_count sl) xs)"
    by (auto simp: wf_string_list_def)
  have "\<forall>j<sl_count sl. xs ! (0 + j) \<noteq> None"
    using wf by (simp add: list_all_length)
  with string_scan_correct [of 0 "sl_count sl" xs str] wf Buf show ?thesis
    by (simp add: is_string_in_string_list_def sl_strings_def)
qed (use assms in \<open>auto simp: wf_string_list_def is_string_in_string_list_def sl_strings_def\<close>)

lemma append_if_unique_takes_over:
  assumes "wf_string_list sl" and "sl_room sl"
  shows "\<exists>r sl' h'. append_str_to_string_list_if_unique a sl str h = Some (r, sl', h') \<and>
           takes_over (\<lambda>ss. if str \<in> set ss then ss else ss @ [str]) sl h r sl' h'"
proof (cases "str \<in> set (sl_strings sl)")
  case True
  then have "append_str_to_string_list_if_unique a sl str h = Some (VK_SUCCESS, sl, free_str a (Some str) h)"
    by (simp add: append_str_to_string_list_if_unique_def is_string_in_string_list_correct assms)
  moreover have "takes_over (\<lambda>ss. if str \<in> set ss then ss else ss @ [str]) sl h VK_SUCCESS sl (free_str a (Some str) h)"
    using assms True by (auto simp: takes_over_def length_sl_strings)
  ultimately show ?thesis by blast
next
  case False
  with append_str_takes_over [OF assms, of a str h] show ?thesis
    by (auto simp: append_str_to_string_list_if_unique_def is_string_in_string_list_correct assms takes_over_def)
qed

lemma free_cells_correct:
  assumes "i + n \<le> length xs" and "\<forall>j<n. xs ! (i + j) \<noteq> None"
  shows "\<exists>h'. free_cells a (Buf xs) i n h = Some h' \<and> live h' = live h - int n"
  using assms
proof (induction n arbitrary: i h)
  case 0
  then show ?case by simp
next
  case (Suc n)
  from Suc.prems(2) have "xs ! i \<noteq> None" by auto
  then obtain s where s: "xs ! i = Some s" by blast
  have "\<forall>j<n. xs ! (Suc i + j) \<noteq> None"
    using Suc.prems(2) by (metis Suc_less_eq add_Suc_shift)
  with Suc.IH [of "Suc i" "free_str a (Some s) h"] Suc.prems(1) obtain h' where
    "free_cells a (Buf xs) (Suc i) n (free_str a (Some s) h) = Some h'" "live h' = live h - 1 - int n"
    by auto
  with s Suc.prems(1) show ?case by auto
qed

lemma free_string_list_releases:
  assumes "wf_string_list sl"
  shows "\<exists>h'. free_string_list a sl h = Some (empty_string_list, h') \<and> live h' = live h - sl_owned sl"
proof (cases "sl_list sl")
  case NULL
  then show ?thesis by (simp add: free_string_list_def sl_owned_def sl_strings_def)
next
  case Freed
  with assms show ?thesis by (simp add: wf_string_list_def)
next
  case (Buf xs)
  with assms have wf: "sl_count sl \<le> length xs" "list_all (\<lambda>c. c \<noteq> None) (take (sl_count sl) xs)"
    by (auto simp: wf_string_list_def)
  then have "\<forall>j<sl_count sl. xs ! (0 + j) \<noteq> None" by (simp add: list_all_length)
  with free_cells_correct [of 0 "sl_count sl" xs a h] wf obtain h1 where
    "free_cells a (Buf xs) 0 (sl_count sl) h = Some h1" "live h1 = live h - int (sl_count sl)" by auto
  with Buf wf show ?thesis
    by (simp add: free_string_list_def sl_owned_def sl_strings_def)
qed

text \<open>The string list implements the growable array.\<close>

interpretation strings: append_container "append_str_to_string_list a" sl_strings wf_string_list "2 ^ 31" for a
proof
  fix l e h
  assume wf1: "wf_string_list l" and "length (sl_strings l) < 2 ^ 31"
  then have wf: "wf_string_list l" "sl_room l" by (simp_all add: sl_room_def length_sl_strings)
  from append_str_takes_over [OF wf, of a e h] obtain r l' h' where
    ap: "append_str_to_string_list a l e h = Some (r, l', h')"
    and t: "takes_over (\<lambda>ss. ss @ [e]) l h r l' h'" by blast
  show "\<exists>r l' h'. append_str_to_string_list a l e h = Some (r, l', h')" using ap by blast
  fix r1 l1 h1
  { assume "append_str_to_string_list a l e h = Some (r1, l1, h1)"
    with ap t show "r1 = VK_SUCCESS \<or> r1 = VK_ERROR_OUT_OF_HOST_MEMORY" by (auto simp: takes_over_def) }
  { assume "append_str_to_string_list a l e h = Some (VK_SUCCESS, l1, h1)"
    with ap t show "wf_string_list l1 \<and> sl_strings l1 = sl_strings l @ [e]" by (auto simp: takes_over_def) }
  { assume "append_str_to_string_list a l e h = Some (VK_ERROR_OUT_OF_HOST_MEMORY, l1, h1)"
    with ap t show "sl_strings l1 = sl_strings l" by (auto simp: takes_over_def) }
qed


section \<open>Properties\<close>

abbreviation sample_heap :: "bool \<Rightarrow> heap" where
  "sample_heap ok \<equiv> \<lparr>outcomes = (\<lambda>_. ok), clock = 0, live = 1\<rparr>"

text \<open>C15: appending an owned string to a well-formed list is memory-safe whatever the allocator
  answers; it succeeds with the string at the end and the invariant kept, or reports
  \<open>VK_ERROR_OUT_OF_HOST_MEMORY\<close> with the strings unchanged, and on both paths the string is
  accounted for: live blocks and owned blocks differ by exactly the string handed over.\<close>

theorem append_str_contract:
  assumes "wf_string_list sl" and "sl_count sl < 2 ^ 31"
  shows "\<exists>r sl' h'. append_str_to_string_list a sl str h = Some (r, sl', h') \<and>
           live h' - sl_owned sl' = live h - sl_owned sl - 1 \<and>
           (r = VK_SUCCESS \<and> wf_string_list sl' \<and> sl_strings sl' = sl_strings sl @ [str] \<or>
            r = VK_ERROR_OUT_OF_HOST_MEMORY \<and> sl_strings sl' = sl_strings sl)"
  using append_str_takes_over [of sl a str h] assms by (auto simp: sl_room_def takes_over_def)

theorem append_str_contract_witness:
  "wf_string_list empty_string_list \<and> sl_count empty_string_list < 2 ^ 31 \<and>
   (\<exists>r sl' h'. append_str_to_string_list None empty_string_list ''a'' (sample_heap True) = Some (r, sl', h') \<and>
      live h' - sl_owned sl' = 0 \<and>
      (r = VK_SUCCESS \<and> wf_string_list sl' \<and> sl_strings sl' = [''a''] \<or>
       r = VK_ERROR_OUT_OF_HOST_MEMORY \<and> sl_strings sl' = []))"
  using append_str_contract [of empty_string_list None "''a''" "sample_heap True"]
  by (simp add: empty_string_list_def [THEN arg_cong [of _ _ sl_count]])

text \<open>prepending moves every stored string up one place and writes the new one in front,
  under the same memory-safety, error and ownership contract.\<close>

theorem prepend_str_contract:
  assumes "wf_string_list sl" and "sl_count sl < 2 ^ 31"
  shows "\<exists>r sl' h'. prepend_str_to_string_list a sl str h = Some (r, sl', h') \<and>
           live h' - sl_owned sl' = live h - sl_owned sl - 1 \<and>
           (r = VK_SUCCESS \<and> wf_string_list sl' \<and> sl_strings sl' = str # sl_strings sl \<or>
            r = VK_ERROR_OUT_OF_HOST_MEMORY \<and> sl_strings sl' = sl_strings sl)"
  using prepend_str_takes_over [of sl a str h] assms by (auto simp: sl_room_def takes_over_def)

theorem prepend_str_contract_witness:
  "wf_string_list empty_string_list \<and> sl_count empty_string_list < 2 ^ 31 \<and>
   (\<exists>r sl' h'. prepend_str_to_string_list None empty_string_list ''a'' (sample_heap True) = Some (r, sl', h') \<and>
      live h' - sl_owned sl' = 0 \<and>
      (r = VK_SUCCESS \<and> wf_string_list sl' \<and> sl_strings sl' = [''a''] \<or>
       r = VK_ERROR_OUT_OF_HOST_MEMORY \<and> sl_strings sl' = []))"
  using prepend_str_contract [of empty_string_list None "''a''" "sample_heap True"]
  by (simp add: empty_string_list_def [THEN arg_cong [of _ _ sl_count]])

text \<open>the unique append never stores a string twice and never leaks the string it was given,
  also when it turns out to be a duplicate.\<close>

theorem append_if_unique_distinct:
  assumes "wf_string_list sl" and "sl_count sl < 2 ^ 31" and "distinct (sl_strings sl)"
  shows "\<exists>r sl' h'. append_str_to_string_list_if_unique a sl str h = Some (r, sl', h') \<and>
           distinct (sl_strings sl') \<and> (r = VK_SUCCESS \<longrightarrow> str \<in> set (sl_strings sl')) \<and>
           live h' - sl_owned sl' = live h - sl_owned sl - 1"
  using append_if_unique_takes_over [of sl a str h] assms
  by (auto simp: sl_room_def takes_over_def split: if_splits)

theorem append_if_unique_distinct_witness:
  "wf_string_list empty_string_list \<and> sl_count empty_string_list < 2 ^ 31 \<and>
   distinct (sl_strings empty_string_list) \<and>
   (\<exists>r sl' h'. append_str_to_string_list_if_unique None empty_string_list ''a'' (sample_heap False) = Some (r, sl', h') \<and>
      distinct (sl_strings sl') \<and> (r = VK_SUCCESS \<longrightarrow> ''a'' \<in> set (sl_strings sl')) \<and>
      live h' - sl_owned sl' = 0)"
  using append_if_unique_distinct [of empty_string_list None "''a''" "sample_heap False"]
  by (simp add: empty_string_list_def [THEN arg_cong [of _ _ sl_count]])

text \<open>freeing a well-formed list is memory-safe, leaves the zeroed list, and releases exactly
  the blocks it owned: every string and the array.\<close>

theorem free_string_list_contract:
  assumes "wf_string_list sl"
  shows "\<exists>h'. free_string_list a sl h = Some (empty_string_list, h') \<and>
           live h' = live h - (blocks (sl_list sl) + int (sl_count sl))"
  using free_string_list_releases [OF assms, of a h] assms
  by (simp add: sl_owned_def length_sl_strings)

theorem free_string_list_contract_witness:
  "wf_string_list \<lparr>sl_allocated_count = 2, sl_count = 1, sl_list = Buf [Some ''a'', None]\<rparr> \<and>
   (\<exists>h'. free_string_list None \<lparr>sl_allocated_count = 2, sl_count = 1, sl_list = Buf [Some ''a'', None]\<rparr>
           (sample_heap True) = Some (empty_string_list, h') \<and> live h' = - 1)"
proof -
  have wf: "wf_string_list \<lparr>sl_allocated_count = 2, sl_count = 1, sl_list = Buf [Some ''a'', None]\<rparr>"
    by (simp add: wf_string_list_def)
  show ?thesis using wf free_string_list_contract [OF wf, of None "sample_heap True"] by simp
qed

text \<open>a failed first allocation leaves \<^verbatim>\<open>allocated_count\<close> at 32 with a null array, so the next
  append to the same list, if any, writes through the null pointer.\<close>

theorem append_after_failed_first_alloc:
  assumes "append_str_to_string_list a empty_string_list str h = Some (VK_ERROR_OUT_OF_HOST_MEMORY, sl', h')"
  shows "sl_allocated_count sl' = 32 \<and> sl_list sl' = NULL \<and>
         append_str_to_string_list a sl' str2 h2 = None"
  using assms
  by (auto simp: append_str_to_string_list_def increase_str_capacity_by_at_least_one_def
      loader_calloc_def empty_string_list_def split: if_splits)

theorem append_after_failed_first_alloc_witness:
  "\<exists>sl' h'. append_str_to_string_list None empty_string_list ''a'' (sample_heap False) =
              Some (VK_ERROR_OUT_OF_HOST_MEMORY, sl', h') \<and>
            append_str_to_string_list None sl' ''b'' (sample_heap True) = None"
proof -
  let ?sl = "\<lparr>sl_allocated_count = 32, sl_count = 0, sl_list = NULL\<rparr>"
  have fail: "append_str_to_string_list None empty_string_list ''a'' (sample_heap False) =
      Some (VK_ERROR_OUT_OF_HOST_MEMORY, ?sl, free_str None (Some ''a'') (tick (sample_heap False)))"
    by (simp add: append_str_to_string_list_def increase_str_capacity_by_at_least_one_def
        loader_calloc_def empty_string_list_def succeeds_def)
  from append_after_failed_first_alloc [OF fail] fail show ?thesis by blast
qed

end
