(* ===== verification/GenericList.thy ===== *)
theory GenericList
  imports StringList
begin

text \<open>
  The dynamic arrays behind \<^verbatim>\<open>struct loader_generic_list\<close> (\<^verbatim>\<open>loader_common.h\<close>): capacity in bytes,
  a count and an untyped array that every typed list of the loader is cast to.  The theory holds
  the three generic operations of \<^verbatim>\<open>loader.c\<close>, the store-at-the-end step the typed lists share,
  their invariant, and the table of used objects whose free slots are handed out as indices.
\<close>

record 'a generic_list =
  gl_capacity :: nat
  gl_count :: nat
  gl_list :: "'a buf"

definition empty_generic_list :: "'a generic_list" where
  "empty_generic_list = \<lparr>gl_capacity = 0, gl_count = 0, gl_list = NULL\<rparr>"

definition loader_init_generic_list ::
  "allocator \<Rightarrow> nat \<Rightarrow> 'a \<Rightarrow> 'a generic_list \<Rightarrow> heap \<Rightarrow> VkResult \<times> 'a generic_list \<times> heap" where
  "loader_init_generic_list a element_size zero l h =
     (let capacity = 32 * element_size;
          (p, h') = loader_calloc a zero (capacity div element_size) h;
          l' = l\<lparr>gl_count := 0, gl_capacity := 0, gl_list := p\<rparr>
      in if p = NULL then (VK_ERROR_OUT_OF_HOST_MEMORY, l', h')
         else (VK_SUCCESS, l'\<lparr>gl_capacity := capacity\<rparr>, h'))"

text \<open>Doubling is \<^verbatim>\<open>size_t\<close> arithmetic.\<close>

definition doubled :: "nat \<Rightarrow> nat" where
  "doubled capacity = (capacity * 2) mod 2 ^ 64"

definition loader_resize_generic_list ::
  "allocator \<Rightarrow> nat \<Rightarrow> 'a \<Rightarrow> 'a \<Rightarrow> 'a generic_list \<Rightarrow> heap \<Rightarrow> (VkResult \<times> 'a generic_list \<times> heap) option" where
  "loader_resize_generic_list a element_size zero junk l h = do {
     (new_ptr, old, h') \<leftarrow>
       loader_realloc a zero junk (gl_list l) (gl_capacity l) (doubled (gl_capacity l) div element_size) h;
     (if new_ptr = NULL then Some (VK_ERROR_OUT_OF_HOST_MEMORY, l\<lparr>gl_list := old\<rparr>, h')
      else Some (VK_SUCCESS, l\<lparr>gl_list := new_ptr, gl_capacity := doubled (gl_capacity l)\<rparr>, h'))
   }"

definition loader_destroy_generic_list ::
  "allocator \<Rightarrow> 'a generic_list \<Rightarrow> heap \<Rightarrow> ('a generic_list \<times> heap) option" where
  "loader_destroy_generic_list a l h = do {
     h' \<leftarrow> loader_free a (gl_list l) h;
     Some (empty_generic_list, h')
   }"

text \<open>
  The step every typed list writes out: grow by \<^verbatim>\<open>realloc\<close> when the list is \<open>full\<close> (each list has
  its own test), write the cell at index \<^verbatim>\<open>count\<close>, increment \<^verbatim>\<open>count\<close>.  \<open>upd\<close> is what is written over
  the old cell.
\<close>

definition store_at_end ::
  "allocator \<Rightarrow> nat \<Rightarrow> 'a \<Rightarrow> 'a \<Rightarrow> bool \<Rightarrow> 'a generic_list \<Rightarrow> ('a \<Rightarrow> 'a) \<Rightarrow> heap \<Rightarrow>
     (VkResult \<times> 'a generic_list \<times> heap) option" where
  "store_at_end a element_size zero junk full l upd h = do {
     (res, l', h') \<leftarrow> (if full then loader_resize_generic_list a element_size zero junk l h else Some (VK_SUCCESS, l, h));
     (if res \<noteq> VK_SUCCESS then Some (res, l', h')
      else do {
        cell \<leftarrow> buf_read (gl_list l') (gl_count l');
        cells \<leftarrow> buf_write (gl_list l') (gl_count l') (upd cell);
        Some (VK_SUCCESS, l'\<lparr>gl_list := cells, gl_count := (gl_count l' + 1) mod 2 ^ 32\<rparr>, h')
      })
   }"

section \<open>Invariant\<close>

definition wf_generic_list :: "nat \<Rightarrow> 'a generic_list \<Rightarrow> bool" where
  "wf_generic_list element_size l =
     (case gl_list l of
        NULL \<Rightarrow> gl_capacity l = 0 \<and> gl_count l = 0
      | Freed \<Rightarrow> False
      | Buf xs \<Rightarrow> gl_capacity l = element_size * length xs \<and> 0 < gl_capacity l \<and> gl_count l \<le> length xs)"

definition gl_items :: "'a generic_list \<Rightarrow> 'a list" where
  "gl_items l = (case gl_list l of Buf xs \<Rightarrow> take (gl_count l) xs | _ \<Rightarrow> [])"

text \<open>No capacity can be doubled past the address space: fewer than \<open>2\<^sup>63\<close> bytes in the array, and the
  32-bit count does not wrap.\<close>

definition gl_room :: "'a generic_list \<Rightarrow> bool" where
  "gl_room l = (gl_capacity l < 2 ^ 63 \<and> gl_count l < 2 ^ 31)"

lemma wf_empty_generic [simp, wf_intros]: "wf_generic_list es empty_generic_list"
  and gl_empty_simps [simp]: "gl_items empty_generic_list = []" "gl_room empty_generic_list"
    "gl_list empty_generic_list = NULL" "gl_count empty_generic_list = 0" "gl_capacity empty_generic_list = 0"
  by (simp_all add: wf_generic_list_def empty_generic_list_def gl_items_def gl_room_def)

lemma length_gl_items: "wf_generic_list es l \<Longrightarrow> length (gl_items l) = gl_count l"
  by (auto simp: wf_generic_list_def gl_items_def split: buf.splits)

lemma gl_items_NULL: "gl_list l = NULL \<Longrightarrow> gl_items l = []"
  by (simp add: gl_items_def)

lemma wf_generic_capacity: "wf_generic_list es l \<Longrightarrow> gl_capacity l = 0 \<longleftrightarrow> gl_list l = NULL"
  by (auto simp: wf_generic_list_def split: buf.splits)

lemma init_generic_list_cases:
  assumes "0 < es"
  shows "(succeeds h \<and> loader_init_generic_list a es z l h =
            (VK_SUCCESS, l\<lparr>gl_count := 0, gl_capacity := 32 * es, gl_list := Buf (replicate 32 z)\<rparr>, add_live 1 (tick h))) \<or>
         (\<not> succeeds h \<and> loader_init_generic_list a es z l h =
            (VK_ERROR_OUT_OF_HOST_MEMORY, l\<lparr>gl_count := 0, gl_capacity := 0, gl_list := NULL\<rparr>, tick h))"
  using assms by (cases "succeeds h") (simp_all add: loader_init_generic_list_def loader_calloc_def Let_def)

lemma doubled_room: "c < 2 ^ 63 \<Longrightarrow> doubled c = c * 2"
  by (simp add: doubled_def)

text \<open>Doubling a well-formed list keeps its cells or fails without any change.\<close>

lemma resize_generic_list_cases:
  assumes "wf_generic_list es l" and "gl_list l = Buf xs" and "gl_capacity l < 2 ^ 63"
  shows "\<exists>h'. live h' = live h \<and>
          (loader_resize_generic_list a es z j l h = Some (VK_ERROR_OUT_OF_HOST_MEMORY, l, h') \<or>
           (\<exists>f. f \<in> {z, j} \<and> loader_resize_generic_list a es z j l h =
              Some (VK_SUCCESS, l\<lparr>gl_list := Buf (xs @ replicate (length xs) f), gl_capacity := gl_capacity l * 2\<rparr>, h')))"
proof -
  from assms have cap: "gl_capacity l = es * length xs" and pos: "0 < es * length xs" and room: "gl_capacity l < 2 ^ 63"
    by (auto simp: wf_generic_list_def)
  have dbl: "doubled (es * length xs) = es * length xs * 2" using room cap by (simp add: doubled_room)
  have cells: "es * length xs * 2 div es = length xs * 2" using pos by simp
  have rsz: "resized f (length xs * 2) xs = xs @ replicate (length xs) f" for f
    by (simp add: resized_def mult_2_right)
  show ?thesis
    using pos assms(2)
    by (auto simp: loader_resize_generic_list_def cap dbl cells rsz split: option.splits intro!: exI [of _ "tick h"])
qed

lemma store_at_end_cases:
  assumes "wf_generic_list es l" and "gl_list l = Buf xs" and "gl_room l" and "\<not> full \<Longrightarrow> gl_count l < length xs"
  shows "\<exists>h'. live h' = live h \<and>
          (store_at_end a es z j full l upd h = Some (VK_ERROR_OUT_OF_HOST_MEMORY, l, h') \<or>
           (\<exists>l' c. store_at_end a es z j full l upd h = Some (VK_SUCCESS, l', h') \<and> wf_generic_list es l' \<and>
                 gl_items l' = gl_items l @ [upd c] \<and> gl_list l' \<noteq> NULL \<and> gl_count l' = gl_count l + 1 \<and>
                 gl_capacity l' = (if full then gl_capacity l * 2 else gl_capacity l)))"
proof -
  from assms have cap: "gl_capacity l = es * length xs" and pos: "0 < es * length xs" and cnt: "gl_count l \<le> length xs"
    and wrap: "(gl_count l + 1) mod 2 ^ 32 = gl_count l + 1" and room: "gl_capacity l < 2 ^ 63"
    by (auto simp: wf_generic_list_def gl_room_def)
  show ?thesis
  proof (cases full)
    case False
    then have "gl_count l < length xs" by (rule assms(4))
    with False assms(2) cap pos wrap show ?thesis
      by (auto simp: store_at_end_def wf_generic_list_def gl_items_def take_Suc_update intro!: exI [of _ h])
  next
    case True
    from resize_generic_list_cases [OF assms(1,2) room, of h a z j] obtain h' where h': "live h' = live h"
      and r: "loader_resize_generic_list a es z j l h = Some (VK_ERROR_OUT_OF_HOST_MEMORY, l, h') \<or>
        (\<exists>f. loader_resize_generic_list a es z j l h =
          Some (VK_SUCCESS, l\<lparr>gl_list := Buf (xs @ replicate (length xs) f), gl_capacity := gl_capacity l * 2\<rparr>, h'))"
      by auto
    have lt: "gl_count l < length (xs @ replicate (length xs) f)" for f using cnt pos by (cases xs) auto
    have items: "take (Suc (gl_count l)) ((xs @ replicate (length xs) f)[gl_count l := x]) = take (gl_count l) xs @ [x]" for f x
      using take_Suc_update [OF lt [of f], of x] cnt by simp
    from r show ?thesis
    proof
      assume "loader_resize_generic_list a es z j l h = Some (VK_ERROR_OUT_OF_HOST_MEMORY, l, h')"
      with True h' show ?thesis by (auto simp: store_at_end_def)
    next
      assume "\<exists>f. loader_resize_generic_list a es z j l h =
          Some (VK_SUCCESS, l\<lparr>gl_list := Buf (xs @ replicate (length xs) f), gl_capacity := gl_capacity l * 2\<rparr>, h')"
      then obtain f where "loader_resize_generic_list a es z j l h =
          Some (VK_SUCCESS, l\<lparr>gl_list := Buf (xs @ replicate (length xs) f), gl_capacity := gl_capacity l * 2\<rparr>, h')" ..
      with True h' lt [of f] items [of f] wrap cap pos assms(2) show ?thesis
        by (intro exI [of _ h'] conjI disjI2)
           (auto simp: store_at_end_def wf_generic_list_def gl_items_def simp del: take_append)
    qed
  qed
qed

text \<open>The exact cells: what fills the new half depends on the reallocation callback.\<close>

definition realloc_fill :: "allocator \<Rightarrow> 'a \<Rightarrow> 'a \<Rightarrow> 'a" where
  "realloc_fill a zero junk = (case a of None \<Rightarrow> zero | Some cb \<Rightarrow> if pfnReallocation cb then junk else zero)"

lemma store_at_end_exact:
  fixes a :: allocator and z j :: 'a
  assumes "wf_generic_list es l" and "gl_list l = Buf xs" and "gl_room l" and "\<not> full \<Longrightarrow> gl_count l < length xs"
  defines "ys \<equiv> (if full then xs @ replicate (length xs) (realloc_fill a z j) else xs)"
  shows "store_at_end a es z j full l upd h =
    (if full \<and> \<not> succeeds h then Some (VK_ERROR_OUT_OF_HOST_MEMORY, l, tick h)
     else Some (VK_SUCCESS, l\<lparr>gl_list := Buf (ys[gl_count l := upd (ys ! gl_count l)]), gl_count := gl_count l + 1,
                  gl_capacity := (if full then gl_capacity l * 2 else gl_capacity l)\<rparr>, if full then tick h else h))"
proof -
  from assms have cap: "gl_capacity l = es * length xs" and pos: "0 < es * length xs" and cnt: "gl_count l \<le> length xs"
    and wrap: "(gl_count l + 1) mod 2 ^ 32 = gl_count l + 1" and room: "gl_capacity l < 2 ^ 63"
    by (auto simp: wf_generic_list_def gl_room_def)
  have dbl: "doubled (es * length xs) = es * length xs * 2" using room cap by (simp add: doubled_room)
  have cells: "es * length xs * 2 div es = length xs * 2" using pos by simp
  have rsz: "resized f (length xs * 2) xs = xs @ replicate (length xs) f" for f
    by (simp add: resized_def mult_2_right)
  have lt: "gl_count l < length xs + length xs" using cnt pos by (cases xs) auto
  show ?thesis
  proof (cases full)
    case False
    then show ?thesis using assms(2,4) wrap unfolding ys_def by (simp add: store_at_end_def)
  next
    case True
    then show ?thesis using assms(2) wrap pos lt unfolding ys_def
      by (auto simp: store_at_end_def loader_resize_generic_list_def cap dbl cells rsz realloc_fill_def split: option.splits)
  qed
qed

lemma destroy_generic_list_releases:
  "wf_generic_list es l \<Longrightarrow> \<exists>h'. loader_destroy_generic_list a l h = Some (empty_generic_list, h') \<and>
     live h' = live h - blocks (gl_list l)"
  by (cases "gl_list l") (auto simp: loader_destroy_generic_list_def wf_generic_list_def)


section \<open>Containers with unique keys\<close>

text \<open>
  The contract of the lists that refuse duplicates: an element is appended unless its key is
  there, failure changes nothing, and the operation is always defined below the \<open>bound\<close>.
\<close>

fun merge_keyed :: "('e \<Rightarrow> 'k) \<Rightarrow> 'e list \<Rightarrow> 'e list \<Rightarrow> 'e list" where
  "merge_keyed key xs [] = xs"
| "merge_keyed key xs (e # es) =
     (if key e \<in> key ` set xs then merge_keyed key xs es else merge_keyed key (xs @ [e]) es)"

lemma distinct_merge_keyed: "distinct (map key xs) \<Longrightarrow> distinct (map key (merge_keyed key xs es))"
  by (induction es arbitrary: xs) auto

lemma keys_merge_keyed: "key ` set (merge_keyed key xs es) = key ` set xs \<union> key ` set es"
  by (induction es arbitrary: xs) auto

lemma merge_keyed_extends: "\<exists>ys. merge_keyed key xs es = xs @ ys \<and> set ys \<subseteq> set es"
proof (induction es arbitrary: xs)
  case (Cons e es)
  then obtain ys zs where "merge_keyed key xs es = xs @ ys \<and> set ys \<subseteq> set es"
    "merge_keyed key (xs @ [e]) es = (xs @ [e]) @ zs \<and> set zs \<subseteq> set es" by metis
  then show ?case by (cases "key e \<in> key ` set xs") (auto intro!: exI [of _ "e # zs"])
qed simp

locale keyed_container =
  fixes add :: "'l \<Rightarrow> 'e \<Rightarrow> heap \<Rightarrow> (VkResult \<times> 'l \<times> heap) option"
    and contents :: "'l \<Rightarrow> 'e list"
    and key :: "'e \<Rightarrow> 'k"
    and invar :: "'l \<Rightarrow> bool"
    and owned :: "'l \<Rightarrow> int"
    and bound :: nat
  assumes add_cases: "invar l \<Longrightarrow> length (contents l) < bound \<Longrightarrow>
    \<exists>r l' h'. add l e h = Some (r, l', h') \<and> invar l' \<and> live h' - owned l' = live h - owned l \<and>
      (r = VK_SUCCESS \<and> contents l' = merge_keyed key (contents l) [e] \<or>
       r = VK_ERROR_OUT_OF_HOST_MEMORY \<and> contents l' = contents l)"
begin

fun add_all :: "'l \<Rightarrow> 'e list \<Rightarrow> heap \<Rightarrow> (VkResult \<times> 'l \<times> heap) option" where
  "add_all l [] h = Some (VK_SUCCESS, l, h)"
| "add_all l (e # es) h = do {
     (r, l', h') \<leftarrow> add l e h;
     (if r \<noteq> VK_SUCCESS then Some (r, l', h') else add_all l' es h')
   }"

lemma add_all_cases:
  assumes "invar l" and "length (contents l) + length es \<le> bound"
  shows "\<exists>r l' h' n. add_all l es h = Some (r, l', h') \<and> invar l' \<and> live h' - owned l' = live h - owned l \<and> n \<le> length es \<and>
           contents l' = merge_keyed key (contents l) (take n es) \<and>
           (r = VK_SUCCESS \<and> n = length es \<or> r = VK_ERROR_OUT_OF_HOST_MEMORY)"
  using assms
proof (induction es arbitrary: l h)
  case Nil
  then show ?case by simp
next
  case (Cons e es)
  then have room: "length (contents l) < bound" by simp
  from add_cases [OF Cons.prems(1) room, of e h] obtain r l1 h1 where
    a: "add l e h = Some (r, l1, h1)" "invar l1" "live h1 - owned l1 = live h - owned l" and
    c: "r = VK_SUCCESS \<and> contents l1 = merge_keyed key (contents l) [e] \<or>
        r = VK_ERROR_OUT_OF_HOST_MEMORY \<and> contents l1 = contents l" by blast
  from c show ?case
  proof
    assume s: "r = VK_SUCCESS \<and> contents l1 = merge_keyed key (contents l) [e]"
    then have "length (contents l1) + length es \<le> bound" using Cons.prems(2) by (auto split: if_splits)
    from Cons.IH [OF a(2) this, of h1] obtain r2 l2 h2 n where
      "add_all l1 es h1 = Some (r2, l2, h2)" "invar l2" "live h2 - owned l2 = live h1 - owned l1" "n \<le> length es"
      "contents l2 = merge_keyed key (contents l1) (take n es)"
      "r2 = VK_SUCCESS \<and> n = length es \<or> r2 = VK_ERROR_OUT_OF_HOST_MEMORY" by blast
    moreover have "merge_keyed key (contents l1) ys = merge_keyed key (contents l) (e # ys)" for ys using s by simp
    ultimately show ?thesis using a s
      by (intro exI [of _ r2] exI [of _ l2] exI [of _ h2] exI [of _ "Suc n"]) auto
  next
    assume "r = VK_ERROR_OUT_OF_HOST_MEMORY \<and> contents l1 = contents l"
    with a show ?thesis by (intro exI [of _ r] exI [of _ l1] exI [of _ h1] exI [of _ 0]) auto
  qed
qed

end

section \<open>Tables of slots\<close>

text \<open>
  What the clients of the used-object table rely on (surfaces, debug messengers and debug report
  callbacks store the index they get in their handle): an acquired index was free, stays theirs
  until they release it, and failure changes nothing.
\<close>

locale slot_table =
  fixes acquire :: "'c \<Rightarrow> 'l \<Rightarrow> heap \<Rightarrow> (VkResult \<times> nat \<times> 'l \<times> heap) option"
    and release :: "'l \<Rightarrow> nat \<Rightarrow> 'l option"
    and used :: "'l \<Rightarrow> nat set"
    and invar :: "'l \<Rightarrow> bool"
    and room :: "'l \<Rightarrow> bool"
    and fresh :: 'l
  assumes fresh: "invar fresh" "used fresh = {}"
    and acquire_defined: "invar l \<Longrightarrow> room l \<Longrightarrow> \<exists>r i l' h'. acquire c l h = Some (r, i, l', h')"
    and acquire_success: "invar l \<Longrightarrow> room l \<Longrightarrow> acquire c l h = Some (VK_SUCCESS, i, l', h') \<Longrightarrow>
          invar l' \<and> i \<notin> used l \<and> used l' = insert i (used l)"
    and acquire_failure: "invar l \<Longrightarrow> room l \<Longrightarrow> acquire c l h = Some (r, i, l', h') \<Longrightarrow> r \<noteq> VK_SUCCESS \<Longrightarrow>
          r = VK_ERROR_OUT_OF_HOST_MEMORY \<and> invar l' \<and> used l' = used l"
    and release_ok: "invar l \<Longrightarrow> \<exists>l'. release l i = Some l' \<and> invar l' \<and> used l' = used l - {i}"
begin

text \<open>
  The clients' view: the table together with the indices that are out.  Each step is one call, with
  any allocator outcome.
\<close>

inductive run :: "'l \<Rightarrow> nat list \<Rightarrow> bool" where
  start: "run fresh []"
| acquired: "run l out \<Longrightarrow> room l \<Longrightarrow> acquire c l h = Some (VK_SUCCESS, i, l', h') \<Longrightarrow> run l' (i # out)"
| failed: "run l out \<Longrightarrow> room l \<Longrightarrow> acquire c l h = Some (r, i, l', h') \<Longrightarrow> r \<noteq> VK_SUCCESS \<Longrightarrow> run l' out"
| released: "run l out \<Longrightarrow> i \<in> set out \<Longrightarrow> release l i = Some l' \<Longrightarrow> run l' (remove1 i out)"

lemma run_invariant: "run l out \<Longrightarrow> invar l \<and> distinct out \<and> set out = used l"
proof (induction rule: run.induct)
  case start
  then show ?case using fresh by simp
next
  case (acquired l out c h i l' h')
  then show ?case using acquire_success [of l c h i l' h'] by auto
next
  case (failed l out c h r i l' h')
  then show ?case using acquire_failure [of l c h r i l' h'] by auto
next
  case (released l out i l')
  then show ?case using release_ok [of l i] by auto
qed

lemma handed_out_index_is_free: "run l out \<Longrightarrow> room l \<Longrightarrow> acquire c l h = Some (VK_SUCCESS, i, l', h') \<Longrightarrow> i \<notin> set out"
  using run_invariant acquire_success by metis

lemma run_not_stuck: "run l out \<Longrightarrow> room l \<Longrightarrow> \<exists>r i l' h'. acquire c l h = Some (r, i, l', h')"
  using run_invariant acquire_defined by blast

end

section \<open>Used objects\<close>

record loader_used_object_status =
  uo_status :: bool
  uo_allocation_callbacks :: VkAllocationCallbacks

type_synonym loader_used_object_list = "loader_used_object_status generic_list"

definition zero_callbacks :: VkAllocationCallbacks where
  "zero_callbacks = \<lparr>pfnAllocation = False, pfnReallocation = False, pfnFree = False\<rparr>"

definition zero_object :: loader_used_object_status where
  "zero_object = \<lparr>uo_status = False, uo_allocation_callbacks = zero_callbacks\<rparr>"

text \<open>Whatever a reallocation callback leaves in the new half: taken as in use.\<close>

definition junk_object :: loader_used_object_status where
  "junk_object = \<lparr>uo_status = True, uo_allocation_callbacks = zero_callbacks\<rparr>"

text \<open>\<^verbatim>\<open>sizeof(struct loader_used_object_status)\<close> on a 64-bit target: a \<^verbatim>\<open>VkBool32\<close> and six pointers.\<close>

definition used_object_size :: nat where "used_object_size = 56"

definition mark_used :: "VkAllocationCallbacks option \<Rightarrow> loader_used_object_status" where
  "mark_used pAllocator = \<lparr>uo_status = True,
     uo_allocation_callbacks = (case pAllocator of Some cb \<Rightarrow> cb | None \<Rightarrow> zero_callbacks)\<rparr>"

text \<open>The scan for a free slot over the \<open>n\<close> slots from \<open>i\<close> on.\<close>

fun first_free :: "loader_used_object_status buf \<Rightarrow> nat \<Rightarrow> nat \<Rightarrow> nat option option" where
  "first_free cells i 0 = Some None"
| "first_free cells i (Suc n) = do {
     c \<leftarrow> buf_read cells i;
     (if \<not> uo_status c then Some (Some i) else first_free cells (Suc i) n)
   }"

text \<open>\<^verbatim>\<open>memset\<close> of \<open>n\<close> cells from \<open>i\<close> on.\<close>

fun buf_fill :: "'a buf \<Rightarrow> nat \<Rightarrow> nat \<Rightarrow> 'a \<Rightarrow> 'a buf option" where
  "buf_fill (Buf xs) i n z = (if i + n \<le> length xs then Some (Buf (take i xs @ replicate n z @ drop (i + n) xs)) else None)"
| "buf_fill _ i n z = None"

definition loader_get_next_available_entry ::
  "allocator \<Rightarrow> VkAllocationCallbacks option \<Rightarrow> loader_used_object_list \<Rightarrow> heap \<Rightarrow>
     (VkResult \<times> nat \<times> loader_used_object_list \<times> heap) option" where
  "loader_get_next_available_entry a pAllocator l h =
     (let (res, l, h) = (if gl_list l = NULL then loader_init_generic_list a used_object_size zero_object l h
                         else (VK_SUCCESS, l, h))
      in if res \<noteq> VK_SUCCESS then Some (res, 0, l, h)
         else do {
           found \<leftarrow> first_free (gl_list l) 0 (gl_capacity l div used_object_size);
           (case found of
              Some i \<Rightarrow> do {
                cells \<leftarrow> buf_write (gl_list l) i (mark_used pAllocator);
                Some (VK_SUCCESS, i, l\<lparr>gl_list := cells\<rparr>, h)
              }
            | None \<Rightarrow> do {
                let old_capacity = gl_capacity l;
                (res, l, h) \<leftarrow> loader_resize_generic_list a used_object_size zero_object junk_object l h;
                (if res \<noteq> VK_SUCCESS then Some (res, 0, l, h)
                 else do {
                   let new_index = (old_capacity div used_object_size) mod 2 ^ 32;
                   cells \<leftarrow> buf_fill (gl_list l) new_index (old_capacity div used_object_size) zero_object;
                   cells \<leftarrow> buf_write cells new_index (mark_used pAllocator);
                   Some (VK_SUCCESS, new_index, l\<lparr>gl_list := cells\<rparr>, h)
                 })
              })
         })"

definition loader_release_object_from_list :: "loader_used_object_list \<Rightarrow> nat \<Rightarrow> loader_used_object_list option" where
  "loader_release_object_from_list l index_to_free =
     (if gl_list l \<noteq> NULL \<and> gl_capacity l > index_to_free * used_object_size then do {
        cells \<leftarrow> buf_write (gl_list l) index_to_free zero_object;
        Some (l\<lparr>gl_list := cells\<rparr>)
      }
      else Some l)"

definition used_slots :: "loader_used_object_list \<Rightarrow> nat set" where
  "used_slots l = (case gl_list l of Buf xs \<Rightarrow> {i. i < length xs \<and> uo_status (xs ! i)} | _ \<Rightarrow> {})"

text \<open>The table fits 32-bit indices.\<close>

definition slots_room :: "loader_used_object_list \<Rightarrow> bool" where
  "slots_room l = (gl_capacity l < 56 * 2 ^ 31)"

lemma first_free_spec:
  assumes "i + n \<le> length xs"
  shows "(\<exists>k. first_free (Buf xs) i n = Some (Some k) \<and> i \<le> k \<and> k < i + n \<and> \<not> uo_status (xs ! k)) \<or>
         (first_free (Buf xs) i n = Some None \<and> (\<forall>k. i \<le> k \<longrightarrow> k < i + n \<longrightarrow> uo_status (xs ! k)))"
  using assms
proof (induction n arbitrary: i)
  case (Suc n)
  then have i: "i < length xs" and n: "Suc i + n \<le> length xs" by simp_all
  show ?case
  proof (cases "uo_status (xs ! i)")
    case True
    then have "\<And>k. i \<le> k \<Longrightarrow> k < i + Suc n \<Longrightarrow> (\<forall>k'. Suc i \<le> k' \<longrightarrow> k' < Suc i + n \<longrightarrow> uo_status (xs ! k')) \<Longrightarrow> uo_status (xs ! k)"
      by (metis Suc_leI add_Suc_shift le_neq_implies_less)
    with Suc.IH [OF n] True i show ?thesis by fastforce
  next
    case False
    with i show ?thesis by auto
  qed
qed simp


text \<open>Every slot below the index handed out is in use.\<close>

lemma first_free_minimal:
  "first_free (Buf xs) i n = Some (Some k) \<Longrightarrow> i \<le> j \<Longrightarrow> j < k \<Longrightarrow> uo_status (xs ! j)"
proof (induction n arbitrary: i)
  case (Suc n)
  show ?case
  proof (cases "i = j")
    case True
    with Suc.prems show ?thesis by (auto split: if_splits)
  next
    case False
    with Suc show ?thesis by (auto split: if_splits)
  qed
qed simp

text \<open>The three outcomes on a table with an array.\<close>

lemma next_available_cases:
  assumes "wf_generic_list used_object_size l" and "gl_list l = Buf xs" and "slots_room l"
  shows "\<exists>h'. live h' = live h \<and>
     ((\<exists>i<length xs. \<not> uo_status (xs ! i) \<and> loader_get_next_available_entry a pA l h =
         Some (VK_SUCCESS, i, l\<lparr>gl_list := Buf (xs[i := mark_used pA])\<rparr>, h')) \<or>
      (\<forall>i<length xs. uo_status (xs ! i)) \<and>
       (loader_get_next_available_entry a pA l h = Some (VK_ERROR_OUT_OF_HOST_MEMORY, 0, l, h') \<or>
        loader_get_next_available_entry a pA l h =
          Some (VK_SUCCESS, length xs,
            l\<lparr>gl_list := Buf (xs @ mark_used pA # replicate (length xs - 1) zero_object), gl_capacity := gl_capacity l * 2\<rparr>, h')))"
proof -
  from assms have cap: "gl_capacity l = used_object_size * length xs" and pos: "0 < length xs" and small: "length xs < 2 ^ 31"
    and room: "gl_capacity l < 2 ^ 63"
    by (auto simp: wf_generic_list_def slots_room_def used_object_size_def)
  have n: "gl_capacity l div used_object_size = length xs" by (simp add: cap used_object_size_def)
  have idx: "length xs mod 4294967296 = length xs" using small by simp
  from first_free_spec [of 0 "length xs" xs]
  consider k where "first_free (Buf xs) 0 (length xs) = Some (Some k)" "k < length xs" "\<not> uo_status (xs ! k)"
    | "first_free (Buf xs) 0 (length xs) = Some None" "\<forall>k<length xs. uo_status (xs ! k)" by auto
  then show ?thesis
  proof cases
    case 1
    with assms(2) n show ?thesis
      by (intro exI [of _ h]) (auto simp: loader_get_next_available_entry_def)
  next
    case 2
    have fill: "buf_fill (Buf (xs @ replicate (length xs) f)) (length xs) (length xs) zero_object =
        Some (Buf (xs @ replicate (length xs) zero_object))" for f by simp
    have upd: "(xs @ replicate (length xs) zero_object)[length xs := mark_used pA] =
        xs @ mark_used pA # replicate (length xs - 1) zero_object"
      using pos by (cases "length xs") (auto simp: list_update_append)
    from resize_generic_list_cases [OF assms(1,2) room, of h a zero_object junk_object]
    obtain h' where h': "live h' = live h" and r:
      "loader_resize_generic_list a used_object_size zero_object junk_object l h = Some (VK_ERROR_OUT_OF_HOST_MEMORY, l, h') \<or>
       (\<exists>f. loader_resize_generic_list a used_object_size zero_object junk_object l h =
           Some (VK_SUCCESS, l\<lparr>gl_list := Buf (xs @ replicate (length xs) f), gl_capacity := gl_capacity l * 2\<rparr>, h'))"
      by blast
    from r show ?thesis
    proof
      assume "loader_resize_generic_list a used_object_size zero_object junk_object l h = Some (VK_ERROR_OUT_OF_HOST_MEMORY, l, h')"
      with 2 h' assms(2) n show ?thesis
        by (intro exI [of _ h']) (auto simp: loader_get_next_available_entry_def)
    next
      assume "\<exists>f. loader_resize_generic_list a used_object_size zero_object junk_object l h =
           Some (VK_SUCCESS, l\<lparr>gl_list := Buf (xs @ replicate (length xs) f), gl_capacity := gl_capacity l * 2\<rparr>, h')"
      then obtain f where f: "loader_resize_generic_list a used_object_size zero_object junk_object l h =
           Some (VK_SUCCESS, l\<lparr>gl_list := Buf (xs @ replicate (length xs) f), gl_capacity := gl_capacity l * 2\<rparr>, h')"
        by blast
      from 2 h' assms(2) pos show ?thesis
        by (intro exI [of _ h'])
           (simp add: loader_get_next_available_entry_def n f idx fill upd Let_def del: buf_fill.simps)
    qed
  qed
qed

lemma next_available_first:
  assumes "gl_list l = NULL"
  shows "loader_get_next_available_entry a pA l h =
    (if succeeds h then Some (VK_SUCCESS, 0,
        l\<lparr>gl_count := 0, gl_capacity := 32 * used_object_size, gl_list := Buf (mark_used pA # replicate 31 zero_object)\<rparr>,
        add_live 1 (tick h))
     else Some (VK_ERROR_OUT_OF_HOST_MEMORY, 0, l\<lparr>gl_count := 0, gl_capacity := 0, gl_list := NULL\<rparr>, tick h))"
proof -
  have r: "replicate 32 zero_object = zero_object # replicate 31 zero_object"
    using replicate_Suc [of 31 zero_object] by simp
  have f: "first_free (Buf (zero_object # replicate 31 zero_object)) 0 32 = Some (Some 0)"
    using first_free.simps(2) [of "Buf (zero_object # replicate 31 zero_object)" 0 31] by (simp add: zero_object_def)
  show ?thesis
    using assms init_generic_list_cases [of used_object_size h a zero_object l]
    by (auto simp: loader_get_next_available_entry_def used_object_size_def r f)
qed


lemma wf_mark:
  "wf_generic_list es l \<Longrightarrow> gl_list l = Buf xs \<Longrightarrow> length ys = length xs \<Longrightarrow> wf_generic_list es (l\<lparr>gl_list := Buf ys\<rparr>)"
  by (auto simp: wf_generic_list_def)

lemma used_slots_Buf: "gl_list l = Buf xs \<Longrightarrow> used_slots l = {i. i < length xs \<and> uo_status (xs ! i)}"
  by (simp add: used_slots_def)

lemma acquire_slot:
  assumes "wf_generic_list used_object_size l" and "slots_room l"
  shows "\<exists>r i l' h'. loader_get_next_available_entry a pA l h = Some (r, i, l', h') \<and>
          wf_generic_list used_object_size l' \<and>
          live h' - blocks (gl_list l') = live h - blocks (gl_list l) \<and>
          (r = VK_SUCCESS \<and> i \<notin> used_slots l \<and> used_slots l' = insert i (used_slots l) \<or>
           r = VK_ERROR_OUT_OF_HOST_MEMORY \<and> used_slots l' = used_slots l)"
proof (cases "gl_list l")
  case NULL
  have "\<And>i. (mark_used pA # replicate 31 zero_object) ! i = (if i = 0 then mark_used pA else replicate 31 zero_object ! (i - 1))"
    by (simp add: nth_Cons')
  then show ?thesis
    using NULL by (auto simp: next_available_first [OF NULL] wf_generic_list_def used_object_size_def used_slots_def
        mark_used_def zero_object_def nth_Cons')
next
  case Freed
  with assms(1) show ?thesis by (simp add: wf_generic_list_def)
next
  case (Buf xs)
  note used = used_slots_Buf [OF Buf]
  have pos: "0 < length xs" and cap: "gl_capacity l = used_object_size * length xs" using assms(1) Buf by (auto simp: wf_generic_list_def)
  from next_available_cases [OF assms(1) Buf assms(2), of h a pA] obtain h' where h': "live h' = live h"
    and "(\<exists>i<length xs. \<not> uo_status (xs ! i) \<and> loader_get_next_available_entry a pA l h =
         Some (VK_SUCCESS, i, l\<lparr>gl_list := Buf (xs[i := mark_used pA])\<rparr>, h')) \<or>
      (\<forall>i<length xs. uo_status (xs ! i)) \<and>
       (loader_get_next_available_entry a pA l h = Some (VK_ERROR_OUT_OF_HOST_MEMORY, 0, l, h') \<or>
        loader_get_next_available_entry a pA l h =
          Some (VK_SUCCESS, length xs,
            l\<lparr>gl_list := Buf (xs @ mark_used pA # replicate (length xs - 1) zero_object), gl_capacity := gl_capacity l * 2\<rparr>, h'))"
    by blast
  then consider
      i where "i < length xs" "\<not> uo_status (xs ! i)" "loader_get_next_available_entry a pA l h =
         Some (VK_SUCCESS, i, l\<lparr>gl_list := Buf (xs[i := mark_used pA])\<rparr>, h')"
    | "loader_get_next_available_entry a pA l h = Some (VK_ERROR_OUT_OF_HOST_MEMORY, 0, l, h')"
    | "loader_get_next_available_entry a pA l h = Some (VK_SUCCESS, length xs,
         l\<lparr>gl_list := Buf (xs @ mark_used pA # replicate (length xs - 1) zero_object), gl_capacity := gl_capacity l * 2\<rparr>, h')"
    by blast
  then show ?thesis
  proof cases
    case 1
    with h' Buf assms(1) show ?thesis
      by (auto simp: used wf_mark used_slots_def mark_used_def nth_list_update)
  next
    case 2
    with h' assms(1) show ?thesis by simp
  next
    case 3
    let ?ys = "xs @ mark_used pA # replicate (length xs - 1) zero_object"
    have "i < length ?ys \<and> uo_status (?ys ! i) \<longleftrightarrow> i = length xs \<or> i < length xs \<and> uo_status (xs ! i)" for i
      using pos by (cases i "length xs" rule: linorder_cases)
        (auto simp: nth_append nth_Cons' mark_used_def zero_object_def)
    then have "{i. i < length ?ys \<and> uo_status (?ys ! i)} = insert (length xs) (used_slots l)"
      unfolding used by blast
    moreover have "wf_generic_list used_object_size (l\<lparr>gl_list := Buf ?ys, gl_capacity := gl_capacity l * 2\<rparr>)"
      using assms(1) Buf pos by (auto simp: wf_generic_list_def)
    ultimately show ?thesis using 3 h' Buf by (auto simp: used_slots_def)
  qed
qed

text \<open>The index handed out is the lowest free one.\<close>

lemma acquire_slot_minimal:
  assumes "wf_generic_list used_object_size l" and "slots_room l"
    and r: "loader_get_next_available_entry a pA l h = Some (VK_SUCCESS, i, l', h')"
  shows "{..<i} \<subseteq> used_slots l \<and> i < 2 ^ 31"
proof (cases "gl_list l")
  case NULL
  with r show ?thesis by (simp add: next_available_first split: if_splits)
next
  case Freed
  with assms(1) show ?thesis by (simp add: wf_generic_list_def)
next
  case (Buf xs)
  have n: "gl_capacity l div used_object_size = length xs" and small: "length xs < 2 ^ 31"
    using assms(1,2) Buf by (auto simp: wf_generic_list_def slots_room_def used_object_size_def)
  show ?thesis
  proof (cases "first_free (Buf xs) 0 (length xs)")
    case None
    with first_free_spec [of 0 "length xs" xs] show ?thesis by auto
  next
    case (Some found)
    show ?thesis
    proof (cases found)
      case None
      with Some first_free_spec [of 0 "length xs" xs] have "\<forall>k<length xs. uo_status (xs ! k)" by auto
      moreover from r Buf n Some None small have "i = length xs"
        by (auto simp: loader_get_next_available_entry_def Let_def bind_eq_Some_conv split: if_splits)
      ultimately show ?thesis using small by (auto simp: used_slots_Buf [OF Buf])
    next
      case (Some k)
      with \<open>first_free (Buf xs) 0 (length xs) = Some found\<close> r Buf n have i: "i = k"
        by (auto simp: loader_get_next_available_entry_def split: if_splits)
      have f: "first_free (Buf xs) 0 (length xs) = Some (Some k)" using Some \<open>first_free _ _ _ = Some found\<close> by simp
      with first_free_spec [of 0 "length xs" xs] have "k < length xs" by auto
      with first_free_minimal [OF f] small show ?thesis by (auto simp: i used_slots_Buf [OF Buf])
    qed
  qed
qed

lemma release_slot:
  assumes "wf_generic_list used_object_size l"
  shows "\<exists>l'. loader_release_object_from_list l i = Some l' \<and> wf_generic_list used_object_size l' \<and>
           used_slots l' = used_slots l - {i}"
  using assms
  by (cases "gl_list l")
     (auto simp: loader_release_object_from_list_def wf_generic_list_def used_slots_def zero_object_def
        used_object_size_def nth_list_update)

interpretation used_objects: slot_table "loader_get_next_available_entry a" loader_release_object_from_list
  used_slots "wf_generic_list used_object_size" slots_room empty_generic_list for a
proof unfold_locales
  show "wf_generic_list used_object_size empty_generic_list" by simp
  show "used_slots empty_generic_list = {}" by (simp add: used_slots_def)
next
  fix l c h assume "wf_generic_list used_object_size l" "slots_room l"
  from acquire_slot [OF this, of a c h] show "\<exists>r i l' h'. loader_get_next_available_entry a c l h = Some (r, i, l', h')"
    by blast
next
  fix l c h i l' h' assume "wf_generic_list used_object_size l" "slots_room l"
    "loader_get_next_available_entry a c l h = Some (VK_SUCCESS, i, l', h')"
  with acquire_slot [of l a c h]
  show "wf_generic_list used_object_size l' \<and> i \<notin> used_slots l \<and> used_slots l' = insert i (used_slots l)" by auto
next
  fix l c h r i l' h' assume "wf_generic_list used_object_size l" "slots_room l"
    "loader_get_next_available_entry a c l h = Some (r, i, l', h')" "r \<noteq> VK_SUCCESS"
  with acquire_slot [of l a c h]
  show "r = VK_ERROR_OUT_OF_HOST_MEMORY \<and> wf_generic_list used_object_size l' \<and> used_slots l' = used_slots l" by auto
next
  fix l :: loader_used_object_list and i assume "wf_generic_list used_object_size l"
  then show "\<exists>l'. loader_release_object_from_list l i = Some l' \<and> wf_generic_list used_object_size l' \<and>
      used_slots l' = used_slots l - {i}" by (rule release_slot)
qed


section \<open>Property\<close>

text \<open>C19: over any history of acquisitions, failed acquisitions and releases, with every pattern of
  allocation failures, the indices that are out are pairwise different, the next acquisition is
  memory-safe, and it either reports out-of-memory or hands out an index nobody holds.\<close>

theorem used_object_indices_exclusive:
  assumes "used_objects.run a l out" and "slots_room l"
  shows "distinct out \<and> used_slots l = set out \<and>
         (\<exists>r i l' h'. loader_get_next_available_entry a pAllocator l h = Some (r, i, l', h') \<and>
            (r = VK_SUCCESS \<and> i \<notin> set out \<and> used_slots l' = insert i (set out) \<or>
             r = VK_ERROR_OUT_OF_HOST_MEMORY \<and> used_slots l' = set out))"
  using used_objects.run_invariant [OF assms(1)] acquire_slot [OF _ assms(2), of a pAllocator h] by auto

theorem used_object_indices_exclusive_witness:
  "\<exists>l. used_objects.run None l [0] \<and> slots_room l \<and>
     (\<exists>r i l' h'. loader_get_next_available_entry None None l (sample_heap True) = Some (r, i, l', h') \<and>
        (r = VK_SUCCESS \<and> i \<notin> {0} \<and> used_slots l' = {i, 0} \<or> r = VK_ERROR_OUT_OF_HOST_MEMORY))"
proof -
  let ?l = "\<lparr>gl_capacity = 32 * used_object_size, gl_count = 0, gl_list = Buf (mark_used None # replicate 31 zero_object)\<rparr>"
  have "loader_get_next_available_entry None None empty_generic_list (sample_heap True) =
      Some (VK_SUCCESS, 0, ?l, add_live 1 (tick (sample_heap True)))"
    by (simp add: next_available_first succeeds_def empty_generic_list_def)
  then have run: "used_objects.run None ?l [0]"
    by (rule used_objects.run.acquired [OF used_objects.run.start, rotated]) (simp add: slots_room_def)
  moreover have room: "slots_room ?l" by (simp add: slots_room_def used_object_size_def)
  ultimately show ?thesis
    using used_object_indices_exclusive [OF run room, of None "sample_heap True"] by auto
qed

end
