(* ===== verification/ExtList.thy ===== *)
theory ExtList
  imports GenericList
begin

text \<open>
  Lists of extensions (\<^verbatim>\<open>loader.c\<close>): instance extension lists, device extension lists with their
  entry points, and collecting extensions from drivers and layers.  A driver's enumeration
  function is code outside the loader: it is represented by what its two calls return.
\<close>

record VkExtensionProperties =
  extensionName :: string
  specVersion :: nat

definition zero_extension :: VkExtensionProperties where
  "zero_extension = \<lparr>extensionName = [], specVersion = 0\<rparr>"

definition sizeof_VkExtensionProperties :: nat where "sizeof_VkExtensionProperties = 260"

type_synonym loader_extension_list = "VkExtensionProperties generic_list"

definition compare_vk_extension_properties :: "VkExtensionProperties \<Rightarrow> VkExtensionProperties \<Rightarrow> bool" where
  "compare_vk_extension_properties op1 op2 = (extensionName op1 = extensionName op2)"

text \<open>The scan of the first \<open>n\<close> cells from \<open>i\<close> on; reading outside the array is undefined.\<close>

fun scan_cells :: "('a \<Rightarrow> bool) \<Rightarrow> 'a buf \<Rightarrow> nat \<Rightarrow> nat \<Rightarrow> bool option" where
  "scan_cells p cells i 0 = Some False"
| "scan_cells p cells i (Suc n) = do {
     c \<leftarrow> buf_read cells i;
     (if p c then Some True else scan_cells p cells (Suc i) n)
   }"

definition has_vk_extension_property_array ::
  "VkExtensionProperties \<Rightarrow> nat \<Rightarrow> VkExtensionProperties buf \<Rightarrow> bool option" where
  "has_vk_extension_property_array vk_ext_prop count ext_array =
     scan_cells (\<lambda>e. compare_vk_extension_properties vk_ext_prop e) ext_array 0 count"

definition has_vk_extension_property :: "VkExtensionProperties \<Rightarrow> loader_extension_list \<Rightarrow> bool option" where
  "has_vk_extension_property vk_ext_prop ext_list =
     scan_cells (\<lambda>e. compare_vk_extension_properties e vk_ext_prop) (gl_list ext_list) 0 (gl_count ext_list)"

text \<open>The loop of \<^verbatim>\<open>loader_add_to_ext_list\<close>.\<close>

fun add_exts :: "allocator \<Rightarrow> loader_extension_list \<Rightarrow> VkExtensionProperties list \<Rightarrow> heap \<Rightarrow>
    (VkResult \<times> loader_extension_list \<times> heap) option" where
  "add_exts a ext_list [] h = Some (VK_SUCCESS, ext_list, h)"
| "add_exts a ext_list (cur_ext # props) h = do {
     dup \<leftarrow> has_vk_extension_property cur_ext ext_list;
     (if dup then add_exts a ext_list props h
      else do {
        (res, ext_list, h) \<leftarrow> store_at_end a sizeof_VkExtensionProperties zero_extension zero_extension
           (gl_count ext_list * sizeof_VkExtensionProperties \<ge> gl_capacity ext_list) ext_list (\<lambda>_. cur_ext) h;
        (if res \<noteq> VK_SUCCESS then Some (res, ext_list, h) else add_exts a ext_list props h)
      })
   }"

definition loader_add_to_ext_list ::
  "allocator \<Rightarrow> loader_extension_list \<Rightarrow> VkExtensionProperties list \<Rightarrow> heap \<Rightarrow>
     (VkResult \<times> loader_extension_list \<times> heap) option" where
  "loader_add_to_ext_list a ext_list props h =
     (let (res, ext_list, h) =
            (if gl_list ext_list = NULL \<or> gl_capacity ext_list = 0
             then loader_init_generic_list a sizeof_VkExtensionProperties zero_extension ext_list h
             else (VK_SUCCESS, ext_list, h))
      in if res \<noteq> VK_SUCCESS then Some (res, ext_list, h) else add_exts a ext_list props h)"

section \<open>Device extensions\<close>

record loader_dev_ext_props =
  de_props :: VkExtensionProperties
  de_entrypoints :: loader_string_list

type_synonym loader_device_extension_list = "loader_dev_ext_props generic_list"

definition sizeof_loader_dev_ext_props :: nat where "sizeof_loader_dev_ext_props = 280"

definition zero_dev_ext :: loader_dev_ext_props where
  "zero_dev_ext = \<lparr>de_props = zero_extension, de_entrypoints = empty_string_list\<rparr>"

definition has_vk_dev_ext_property :: "VkExtensionProperties \<Rightarrow> loader_device_extension_list \<Rightarrow> bool option" where
  "has_vk_dev_ext_property ext_prop ext_list =
     scan_cells (\<lambda>e. compare_vk_extension_properties (de_props e) ext_prop) (gl_list ext_list) 0 (gl_count ext_list)"

text \<open>What a reallocation callback may leave in a new cell: entry points that claim to hold a string.\<close>

definition junk_dev_ext :: loader_dev_ext_props where
  "junk_dev_ext = \<lparr>de_props = zero_extension,
     de_entrypoints = \<lparr>sl_allocated_count = 1, sl_count = 1, sl_list = Freed\<rparr>\<rparr>"

text \<open>
  \<open>entrys\<close> is \<open>None\<close> for a null pointer.  A stored entry keeps the entry points already in the cell
  when none are given; the cells past \<^verbatim>\<open>count\<close> are zero or as \<^verbatim>\<open>realloc\<close> left them.  The result also
  carries what becomes of the caller's list.
\<close>

definition dispose_entrys ::
  "allocator \<Rightarrow> loader_string_list option \<Rightarrow> VkResult \<Rightarrow> loader_device_extension_list \<Rightarrow> heap \<Rightarrow>
     (VkResult \<times> loader_device_extension_list \<times> loader_string_list option \<times> heap) option" where
  "dispose_entrys a entrys res ext_list h =
     (case entrys of
        None \<Rightarrow> Some (res, ext_list, None, h)
      | Some sl \<Rightarrow> do { (sl', h') \<leftarrow> free_string_list a sl h; Some (res, ext_list, Some sl', h') })"

definition loader_add_to_dev_ext_list ::
  "allocator \<Rightarrow> loader_device_extension_list \<Rightarrow> VkExtensionProperties \<Rightarrow> loader_string_list option \<Rightarrow> heap \<Rightarrow>
     (VkResult \<times> loader_device_extension_list \<times> loader_string_list option \<times> heap) option" where
  "loader_add_to_dev_ext_list a ext_list props entrys h =
     (let (res, ext_list, h) =
            (if gl_list ext_list = NULL \<or> gl_capacity ext_list = 0
             then loader_init_generic_list a sizeof_loader_dev_ext_props zero_dev_ext ext_list h
             else (VK_SUCCESS, ext_list, h))
      in if res \<noteq> VK_SUCCESS then dispose_entrys a entrys res ext_list h
         else do {
           dup \<leftarrow> has_vk_dev_ext_property props ext_list;
           (if dup then dispose_entrys a entrys res ext_list h
            else do {
              (res, ext_list, h) \<leftarrow> store_at_end a sizeof_loader_dev_ext_props zero_dev_ext junk_dev_ext
                 (gl_count ext_list * sizeof_loader_dev_ext_props \<ge> gl_capacity ext_list) ext_list
                 (\<lambda>cell. \<lparr>de_props = props, de_entrypoints = (case entrys of Some sl \<Rightarrow> sl | None \<Rightarrow> de_entrypoints cell)\<rparr>) h;
              (if res \<noteq> VK_SUCCESS then dispose_entrys a entrys res ext_list h else Some (res, ext_list, entrys, h))
            })
         })"


section \<open>Lemmas\<close>

lemma scan_cells_from:
  "i + n \<le> length xs \<Longrightarrow> scan_cells p (Buf xs) i n = Some (\<exists>x\<in>set (take n (drop i xs)). p x)"
proof (induction n arbitrary: i)
  case (Suc n)
  then have "take (Suc n) (drop i xs) = xs ! i # take n (drop (Suc i) xs)"
    using Cons_nth_drop_Suc [of i xs, symmetric] by simp
  with Suc show ?case by auto
qed simp

lemma scan_list:
  "wf_generic_list es l \<Longrightarrow> scan_cells p (gl_list l) 0 (gl_count l) = Some (\<exists>x\<in>set (gl_items l). p x)"
  by (cases "gl_list l") (auto simp: wf_generic_list_def gl_items_def scan_cells_from)

text \<open>Lists that only grow: the array is at most 32 cells or twice what is in use.\<close>

definition tight :: "nat \<Rightarrow> 'a generic_list \<Rightarrow> bool" where
  "tight es l = (gl_capacity l \<le> 32 * es \<or> gl_capacity l \<le> 2 * es * gl_count l)"

definition ok_list :: "nat \<Rightarrow> 'a generic_list \<Rightarrow> bool" where
  "ok_list es l = (wf_generic_list es l \<and> tight es l)"

lemma ok_empty [simp]: "ok_list es empty_generic_list"
  by (simp add: ok_list_def tight_def)

lemma tight_room:
  assumes "ok_list es l" "gl_count l < 2 ^ 31" "es \<le> 2 ^ 20"
  shows "gl_room l"
proof -
  have "2 * es * gl_count l \<le> 2 * 2 ^ 20 * 2 ^ 31" using assms(2,3) by (intro mult_le_mono) simp_all
  moreover have "32 * es \<le> 2 * 2 ^ 20 * 2 ^ 31" using assms(3) by simp
  ultimately have "gl_capacity l \<le> 2 * 2 ^ 20 * 2 ^ 31"
    using assms(1) by (auto simp: ok_list_def tight_def)
  then show ?thesis using assms(2) by (simp add: gl_room_def)
qed

text \<open>Storing with the test \<^verbatim>\<open>count * size >= capacity\<close> that both extension lists use.\<close>

lemma store_ok:
  assumes "ok_list es l" and "gl_list l = Buf xs" and "gl_count l < 2 ^ 31" and "0 < es" and "es \<le> 2 ^ 20"
  shows "\<exists>h'. live h' = live h \<and>
    (store_at_end a es z j (gl_count l * es \<ge> gl_capacity l) l upd h = Some (VK_ERROR_OUT_OF_HOST_MEMORY, l, h') \<or>
     (\<exists>l' c. store_at_end a es z j (gl_count l * es \<ge> gl_capacity l) l upd h = Some (VK_SUCCESS, l', h') \<and> ok_list es l' \<and>
        gl_items l' = gl_items l @ [upd c] \<and> blocks (gl_list l') = 1 \<and> gl_list l' \<noteq> NULL \<and> gl_capacity l' \<noteq> 0))"
proof -
  from assms have wf: "wf_generic_list es l" and cap: "gl_capacity l = es * length xs" and cnt: "gl_count l \<le> length xs"
    by (auto simp: ok_list_def wf_generic_list_def)
  have full: "gl_count l * es \<ge> gl_capacity l \<longleftrightarrow> gl_count l = length xs"
    using cnt assms(4) by (auto simp: cap mult.commute)
  have tight: "tight es l" using assms(1) by (simp add: ok_list_def)
  from store_at_end_cases [OF wf assms(2) tight_room [OF assms(1,3,5)], of "gl_count l * es \<ge> gl_capacity l" h a z j upd]
    full cnt obtain h' where h': "live h' = live h" and
    r: "store_at_end a es z j (gl_count l * es \<ge> gl_capacity l) l upd h = Some (VK_ERROR_OUT_OF_HOST_MEMORY, l, h') \<or>
     (\<exists>l' c. store_at_end a es z j (gl_count l * es \<ge> gl_capacity l) l upd h = Some (VK_SUCCESS, l', h') \<and> wf_generic_list es l' \<and>
        gl_items l' = gl_items l @ [upd c] \<and> gl_list l' \<noteq> NULL \<and> gl_count l' = gl_count l + 1 \<and>
        gl_capacity l' = (if gl_count l * es \<ge> gl_capacity l then gl_capacity l * 2 else gl_capacity l))"
    by auto
  have tight': "tight es l'" if "gl_count l' = gl_count l + 1"
    "gl_capacity l' = (if gl_count l * es \<ge> gl_capacity l then gl_capacity l * 2 else gl_capacity l)" for l' :: "'a generic_list"
  proof (cases "gl_count l = length xs")
    case True
    then show ?thesis using that full cap by (simp add: tight_def)
  next
    case False
    then have "gl_capacity l' = gl_capacity l" using that full by simp
    then show ?thesis using tight that(1) by (auto simp: tight_def)
  qed
  from r show ?thesis
  proof
    assume "\<exists>l' c. store_at_end a es z j (gl_count l * es \<ge> gl_capacity l) l upd h = Some (VK_SUCCESS, l', h') \<and> wf_generic_list es l' \<and>
        gl_items l' = gl_items l @ [upd c] \<and> gl_list l' \<noteq> NULL \<and> gl_count l' = gl_count l + 1 \<and>
        gl_capacity l' = (if gl_count l * es \<ge> gl_capacity l then gl_capacity l * 2 else gl_capacity l)"
    then obtain l' c where l': "store_at_end a es z j (gl_count l * es \<ge> gl_capacity l) l upd h = Some (VK_SUCCESS, l', h')"
      "wf_generic_list es l'" "gl_items l' = gl_items l @ [upd c]" "gl_list l' \<noteq> NULL" and t: "tight es l'"
      using tight' by blast
    then have "blocks (gl_list l') = 1" "gl_capacity l' \<noteq> 0" by (cases "gl_list l'"; simp add: wf_generic_list_def)+
    with l' t h' show ?thesis by (auto simp: ok_list_def)
  qed (use h' in auto)
qed


lemma init_ok:
  assumes "0 < es" "wf_generic_list es l"
  shows "\<exists>r l' h'. (if gl_list l = NULL \<or> gl_capacity l = 0 then loader_init_generic_list a es z l h else (VK_SUCCESS, l, h)) = (r, l', h') \<and>
     gl_items l' = gl_items l \<and> live h' - blocks (gl_list l') = live h - blocks (gl_list l) \<and>
     (r = VK_SUCCESS \<and> gl_list l' \<noteq> NULL \<and> gl_capacity l' \<noteq> 0 \<and> (ok_list es l \<longrightarrow> ok_list es l') \<or>
      r = VK_ERROR_OUT_OF_HOST_MEMORY \<and> gl_list l' = NULL \<and> ok_list es l')"
proof (cases "gl_list l = NULL")
  case True
  with assms have "gl_items l = []" by (simp add: gl_items_def)
  with True assms init_generic_list_cases [OF assms(1), of h a z l] show ?thesis
    by (auto simp: ok_list_def wf_generic_list_def tight_def gl_items_def)
next
  case False
  with assms(2) wf_generic_capacity [OF assms(2)] show ?thesis by auto
qed

lemmas size_bounds = sizeof_VkExtensionProperties_def sizeof_loader_dev_ext_props_def

lemma has_ext:
  "wf_generic_list es l \<Longrightarrow> has_vk_extension_property e l = Some (extensionName e \<in> extensionName ` set (gl_items l))"
  by (simp add: has_vk_extension_property_def scan_list compare_vk_extension_properties_def image_iff eq_commute)

definition ok_exts :: "loader_extension_list \<Rightarrow> bool" where
  "ok_exts l = ok_list sizeof_VkExtensionProperties l"

lemma ok_exts_wf: "ok_exts l \<Longrightarrow> wf_generic_list sizeof_VkExtensionProperties l"
  by (simp add: ok_exts_def ok_list_def)

lemma length_ok_exts: "ok_exts l \<Longrightarrow> length (gl_items l) = gl_count l"
  by (rule length_gl_items [OF ok_exts_wf])

lemma add_one_ext:
  assumes "ok_exts l" "gl_list l \<noteq> NULL" "gl_count l < 2 ^ 31"
  shows "\<exists>r l' h'. add_exts a l [e] h = Some (r, l', h') \<and> ok_exts l' \<and> gl_list l' \<noteq> NULL \<and>
     live h' - blocks (gl_list l') = live h - blocks (gl_list l) \<and>
     (r = VK_SUCCESS \<and> gl_items l' = merge_keyed extensionName (gl_items l) [e] \<or>
      r = VK_ERROR_OUT_OF_HOST_MEMORY \<and> gl_items l' = gl_items l)"
proof -
  note wf = ok_exts_wf [OF assms(1)]
  obtain xs where xs: "gl_list l = Buf xs" using assms(2) wf by (cases "gl_list l") (auto simp: wf_generic_list_def)
  show ?thesis
  proof (cases "extensionName e \<in> extensionName ` set (gl_items l)")
    case True
    with assms show ?thesis by (simp add: has_ext [OF wf])
  next
    case False
    have "0 < sizeof_VkExtensionProperties" "sizeof_VkExtensionProperties \<le> 2 ^ 20" by (simp_all add: size_bounds)
    from store_ok [OF assms(1) [unfolded ok_exts_def] xs assms(3) this, of h a zero_extension zero_extension "\<lambda>_. e"] False
    show ?thesis using assms(1,2) xs by (auto simp: has_ext [OF wf] ok_exts_def)
  qed
qed

lemma add_exts_Cons:
  assumes "ok_exts l" "gl_list l \<noteq> NULL"
  shows "add_exts a l (e # es) h = do {
     (r, l', h') \<leftarrow> add_exts a l [e] h;
     (if r \<noteq> VK_SUCCESS then Some (r, l', h') else add_exts a l' es h')
   }"
  by (auto simp: has_ext [OF ok_exts_wf [OF assms(1)]] bind_eq_None_conv split: option.splits bind_splits)

lemma add_to_ext_list_one:
  assumes "ok_exts l" "gl_count l < 2 ^ 31"
  shows "\<exists>r l' h'. loader_add_to_ext_list a l [e] h = Some (r, l', h') \<and> ok_exts l' \<and>
     live h' - blocks (gl_list l') = live h - blocks (gl_list l) \<and>
     (r = VK_SUCCESS \<and> gl_items l' = merge_keyed extensionName (gl_items l) [e] \<and> gl_list l' \<noteq> NULL \<or>
      r = VK_ERROR_OUT_OF_HOST_MEMORY \<and> gl_items l' = gl_items l)"
proof -
  have "0 < sizeof_VkExtensionProperties" by (simp add: size_bounds)
  from init_ok [OF this ok_exts_wf [OF assms(1)], of a zero_extension h] obtain r l1 h1 where
    i: "(if gl_list l = NULL \<or> gl_capacity l = 0 then loader_init_generic_list a sizeof_VkExtensionProperties zero_extension l h
         else (VK_SUCCESS, l, h)) = (r, l1, h1)" "gl_items l1 = gl_items l"
      "live h1 - blocks (gl_list l1) = live h - blocks (gl_list l)"
    and c: "r = VK_SUCCESS \<and> gl_list l1 \<noteq> NULL \<and> ok_exts l1 \<or> r = VK_ERROR_OUT_OF_HOST_MEMORY \<and> ok_exts l1"
    using assms(1) by (auto simp: ok_exts_def)
  from c show ?thesis
  proof
    assume s: "r = VK_SUCCESS \<and> gl_list l1 \<noteq> NULL \<and> ok_exts l1"
    have "gl_count l1 < 2 ^ 31" using s i(2) assms length_ok_exts [of l1] length_ok_exts [of l] by simp
    from add_one_ext [OF _ _ this, of a e h1] s show ?thesis
      using i by (auto simp: loader_add_to_ext_list_def simp del: add_exts.simps)
  next
    assume "r = VK_ERROR_OUT_OF_HOST_MEMORY \<and> ok_exts l1"
    with i show ?thesis by (simp add: loader_add_to_ext_list_def)
  qed
qed


interpretation exts: keyed_container "\<lambda>l e h. loader_add_to_ext_list a l [e] h" gl_items extensionName ok_exts
  "\<lambda>l. blocks (gl_list l)" "2 ^ 31" for a
proof unfold_locales
  fix l e h assume ok: "ok_exts l" and len: "length (gl_items l) < 2 ^ 31"
  from len have "gl_count l < 2 ^ 31" by (simp add: length_ok_exts [OF ok])
  from add_to_ext_list_one [OF ok this, of a e h]
  show "\<exists>r l' h'. loader_add_to_ext_list a l [e] h = Some (r, l', h') \<and> ok_exts l' \<and>
     live h' - blocks (gl_list l') = live h - blocks (gl_list l) \<and>
     (r = VK_SUCCESS \<and> gl_items l' = merge_keyed extensionName (gl_items l) [e] \<or>
      r = VK_ERROR_OUT_OF_HOST_MEMORY \<and> gl_items l' = gl_items l)" by blast
qed

text \<open>A call with several properties is the same as adding them one by one.\<close>

lemma add_to_ext_list_loop:
  assumes "ok_exts l" "gl_list l \<noteq> NULL" "length (gl_items l) + length es \<le> 2 ^ 31"
  shows "loader_add_to_ext_list a l es h = exts.add_all a l es h"
  using assms
proof (induction es arbitrary: l h)
  case Nil
  then have "gl_capacity l \<noteq> 0" using wf_generic_capacity [OF ok_exts_wf] by blast
  with Nil show ?case by (simp add: loader_add_to_ext_list_def [of a l "[]"])
next
  case (Cons e es)
  have cap: "gl_capacity l \<noteq> 0" using Cons.prems wf_generic_capacity [OF ok_exts_wf] by blast
  have cnt: "gl_count l < 2 ^ 31" using Cons.prems length_ok_exts by simp
  from add_one_ext [OF Cons.prems(1,2) cnt, of a e h] obtain r l1 h1 where
    one: "add_exts a l [e] h = Some (r, l1, h1)" and ok: "ok_exts l1" "gl_list l1 \<noteq> NULL"
    and c: "r = VK_SUCCESS \<and> gl_items l1 = merge_keyed extensionName (gl_items l) [e] \<or>
      r = VK_ERROR_OUT_OF_HOST_MEMORY \<and> gl_items l1 = gl_items l" by blast
  have one': "loader_add_to_ext_list a l [e] h = Some (r, l1, h1)"
    using Cons.prems(2) cap one by (simp add: loader_add_to_ext_list_def del: add_exts.simps)
  have "loader_add_to_ext_list a l (e # es) h =
      (if r \<noteq> VK_SUCCESS then Some (r, l1, h1) else loader_add_to_ext_list a l1 es h1)"
    using Cons.prems(2) cap ok wf_generic_capacity [OF ok_exts_wf [OF ok(1)]]
    by (simp add: loader_add_to_ext_list_def add_exts_Cons [OF Cons.prems(1,2), of a e es h] one del: add_exts.simps)
  moreover have "r = VK_SUCCESS \<Longrightarrow> length (gl_items l1) + length es \<le> 2 ^ 31"
    using c Cons.prems(3) by (auto split: if_splits)
  ultimately show ?case using Cons.IH [OF ok] one' by simp
qed

lemma add_to_ext_list_all:
  assumes "ok_exts l" "length (gl_items l) + length es \<le> 2 ^ 31"
  shows "\<exists>r l' h' n. loader_add_to_ext_list a l es h = Some (r, l', h') \<and> ok_exts l' \<and>
     live h' - blocks (gl_list l') = live h - blocks (gl_list l) \<and> n \<le> length es \<and>
     gl_items l' = merge_keyed extensionName (gl_items l) (take n es) \<and>
     (r = VK_SUCCESS \<and> n = length es \<or> r = VK_ERROR_OUT_OF_HOST_MEMORY)"
proof -
  have "0 < sizeof_VkExtensionProperties" by (simp add: size_bounds)
  from init_ok [OF this ok_exts_wf [OF assms(1)], of a zero_extension h] obtain r l1 h1 where
    i: "(if gl_list l = NULL \<or> gl_capacity l = 0 then loader_init_generic_list a sizeof_VkExtensionProperties zero_extension l h
         else (VK_SUCCESS, l, h)) = (r, l1, h1)" "gl_items l1 = gl_items l"
      "live h1 - blocks (gl_list l1) = live h - blocks (gl_list l)"
    and c: "r = VK_SUCCESS \<and> gl_list l1 \<noteq> NULL \<and> gl_capacity l1 \<noteq> 0 \<and> ok_exts l1 \<or> r = VK_ERROR_OUT_OF_HOST_MEMORY \<and> ok_exts l1"
    using assms(1) by (auto simp: ok_exts_def)
  from c show ?thesis
  proof
    assume s: "r = VK_SUCCESS \<and> gl_list l1 \<noteq> NULL \<and> gl_capacity l1 \<noteq> 0 \<and> ok_exts l1"
    have eq: "loader_add_to_ext_list a l es h = loader_add_to_ext_list a l1 es h1"
      using i(1) s by (simp add: loader_add_to_ext_list_def)
    have loop: "loader_add_to_ext_list a l1 es h1 = exts.add_all a l1 es h1"
      using add_to_ext_list_loop s assms(2) i(2) by simp
    show ?thesis
      unfolding eq loop using exts.add_all_cases [of l1 es a h1] s assms(2) i(2,3) by simp
  next
    assume "r = VK_ERROR_OUT_OF_HOST_MEMORY \<and> ok_exts l1"
    with i show ?thesis by (intro exI [of _ r] exI [of _ l1] exI [of _ h1] exI [of _ 0]) (simp add: loader_add_to_ext_list_def)
  qed
qed


section \<open>Collecting extensions\<close>

text \<open>Which window systems the loader is built for.\<close>

record wsi_build =
  use_wayland :: bool
  use_xcb :: bool
  use_xlib :: bool
  use_directfb :: bool
  use_screen_qnx :: bool

definition wsi_unsupported_instance_extension :: "wsi_build \<Rightarrow> VkExtensionProperties \<Rightarrow> bool" where
  "wsi_unsupported_instance_extension b ext_prop =
     (if \<not> use_wayland b \<and> extensionName ext_prop = ''VK_KHR_wayland_surface'' then True
      else if \<not> use_xcb b \<and> extensionName ext_prop = ''VK_KHR_xcb_surface'' then True
      else if \<not> use_xlib b \<and> extensionName ext_prop = ''VK_KHR_xlib_surface'' then True
      else if \<not> use_directfb b \<and> extensionName ext_prop = ''VK_EXT_directfb_surface'' then True
      else if \<not> use_screen_qnx b \<and> extensionName ext_prop = ''VK_QNX_screen_surface'' then True
      else False)"

text \<open>
  An enumeration function as the loader calls it: the result and count of the first call, and the
  result, the count and the properties of the second.  The second call fills the zeroed buffer of
  as many cells as the first one announced; it may report another count.
\<close>

record enumeration =
  first_result :: VkResult
  first_count :: nat
  second_result :: VkResult
  second_count :: nat
  second_props :: "VkExtensionProperties list"

definition filled_props :: "enumeration \<Rightarrow> VkExtensionProperties buf" where
  "filled_props f = Buf (take (first_count f) (second_props f @ replicate (first_count f) zero_extension))"

text \<open>The loop over \<^verbatim>\<open>i < count && i < allocated_count\<close>, with \<open>n\<close> rounds left.\<close>

fun add_enumerated ::
  "(VkExtensionProperties \<Rightarrow> bool) \<Rightarrow> allocator \<Rightarrow> loader_extension_list \<Rightarrow> VkExtensionProperties buf \<Rightarrow> nat \<Rightarrow> nat \<Rightarrow> heap \<Rightarrow>
     (VkResult \<times> loader_extension_list \<times> heap) option" where
  "add_enumerated skip a ext_list props i 0 h = Some (VK_SUCCESS, ext_list, h)"
| "add_enumerated skip a ext_list props i (Suc n) h = do {
     e \<leftarrow> buf_read props i;
     (if skip e then add_enumerated skip a ext_list props (Suc i) n h
      else do {
        (res, ext_list, h) \<leftarrow> loader_add_to_ext_list a ext_list [e] h;
        (if res \<noteq> VK_SUCCESS then Some (res, ext_list, h)
         else add_enumerated skip a ext_list props (Suc i) n h)
      })
   }"

text \<open>\<open>None\<close> is a missing function; \<open>own\<close> says that it is the loader's own entry point.\<close>

definition loader_add_instance_extensions ::
  "wsi_build \<Rightarrow> allocator \<Rightarrow> enumeration option \<Rightarrow> bool \<Rightarrow> loader_extension_list \<Rightarrow> heap \<Rightarrow>
     (VkResult \<times> loader_extension_list \<times> heap) option" where
  "loader_add_instance_extensions b a fp_get_props own ext_list h =
     (case fp_get_props of
        None \<Rightarrow> Some (VK_SUCCESS, ext_list, h)
      | Some f \<Rightarrow>
          if own then Some (VK_SUCCESS, ext_list, h)
          else if first_result f \<noteq> VK_SUCCESS then Some (first_result f, ext_list, h)
          else if first_count f = 0 then Some (VK_SUCCESS, ext_list, h)
          else if second_result f \<noteq> VK_SUCCESS then Some (second_result f, ext_list, h)
          else add_enumerated (wsi_unsupported_instance_extension b) a ext_list (filled_props f) 0
                 (min (second_count f) (first_count f)) h)"

definition loader_add_device_extensions ::
  "allocator \<Rightarrow> enumeration \<Rightarrow> loader_extension_list \<Rightarrow> heap \<Rightarrow> (VkResult \<times> loader_extension_list \<times> heap) option" where
  "loader_add_device_extensions a f ext_list h =
     (if first_result f \<noteq> VK_SUCCESS then Some (first_result f, ext_list, h)
      else if first_count f > 0 then
        (if second_result f \<noteq> VK_SUCCESS then Some (second_result f, ext_list, h)
         else add_enumerated (\<lambda>_. False) a ext_list (filled_props f) 0 (min (second_count f) (first_count f)) h)
      else Some (VK_SUCCESS, ext_list, h))"

lemma add_enumerated_is_add_all:
  "i + n \<le> length xs \<Longrightarrow>
   add_enumerated skip a l (Buf xs) i n h = exts.add_all a l (filter (\<lambda>e. \<not> skip e) (take n (drop i xs))) h"
proof (induction n arbitrary: i l h)
  case (Suc n)
  then have "take (Suc n) (drop i xs) = xs ! i # take n (drop (Suc i) xs)"
    using Cons_nth_drop_Suc [of i xs, symmetric] by simp
  with Suc show ?case by (auto split: bind_splits)
qed simp


section \<open>Device extension lists\<close>

lemma has_dev_ext:
  "wf_generic_list es l \<Longrightarrow>
   has_vk_dev_ext_property e l = Some (extensionName e \<in> (\<lambda>d. extensionName (de_props d)) ` set (gl_items l))"
  by (simp add: has_vk_dev_ext_property_def scan_list compare_vk_extension_properties_def image_iff eq_commute)

text \<open>
  Every cell of the array, used or not, has entry points that can be freed; the cells past \<^verbatim>\<open>count\<close> are
  zero.
\<close>

definition ok_dev_exts :: "loader_device_extension_list \<Rightarrow> bool" where
  "ok_dev_exts l = (ok_list sizeof_loader_dev_ext_props l \<and>
     (case gl_list l of
        Buf xs \<Rightarrow> list_all (\<lambda>d. wf_string_list (de_entrypoints d)) (take (gl_count l) xs) \<and>
                  list_all (\<lambda>d. d = zero_dev_ext) (drop (gl_count l) xs)
      | _ \<Rightarrow> True))"

text \<open>The blocks a device extension list owns: its array and all its entry points.\<close>

definition dev_ext_owned :: "loader_device_extension_list \<Rightarrow> int" where
  "dev_ext_owned l = blocks (gl_list l) + sum_list (map (\<lambda>d. sl_owned (de_entrypoints d)) (gl_items l))"

definition entrys_owned :: "loader_string_list option \<Rightarrow> int" where
  "entrys_owned e = (case e of None \<Rightarrow> 0 | Some sl \<Rightarrow> sl_owned sl)"

definition wf_entrys :: "loader_string_list option \<Rightarrow> bool" where
  "wf_entrys e = (case e of None \<Rightarrow> True | Some sl \<Rightarrow> wf_string_list sl)"

definition no_realloc_callback :: "allocator \<Rightarrow> bool" where
  "no_realloc_callback a = (case a of None \<Rightarrow> True | Some cb \<Rightarrow> \<not> pfnReallocation cb)"

lemma fill_zero: "no_realloc_callback a \<Longrightarrow> realloc_fill a z j = z"
  by (simp add: no_realloc_callback_def realloc_fill_def split: option.splits)

lemma dev_exts_Buf:
  fixes e :: VkExtensionProperties
  assumes "ok_dev_exts l" "gl_list l = Buf xs" "gl_count l < 2 ^ 31" "no_realloc_callback a"
    "wf_entrys entrys"
  defines "upd \<equiv> \<lambda>cell. \<lparr>de_props = e, de_entrypoints = (case entrys of Some sl \<Rightarrow> sl | None \<Rightarrow> de_entrypoints cell)\<rparr>"
  shows "\<exists>h'. live h' = live h \<and>
    (store_at_end a sizeof_loader_dev_ext_props zero_dev_ext junk_dev_ext
       (gl_count l * sizeof_loader_dev_ext_props \<ge> gl_capacity l) l upd h = Some (VK_ERROR_OUT_OF_HOST_MEMORY, l, h') \<or>
     (\<exists>l'. store_at_end a sizeof_loader_dev_ext_props zero_dev_ext junk_dev_ext
       (gl_count l * sizeof_loader_dev_ext_props \<ge> gl_capacity l) l upd h = Some (VK_SUCCESS, l', h') \<and> ok_dev_exts l' \<and>
       blocks (gl_list l') = 1 \<and>
       gl_items l' = gl_items l @ [\<lparr>de_props = e, de_entrypoints = (case entrys of Some sl \<Rightarrow> sl | None \<Rightarrow> empty_string_list)\<rparr>]))"
proof -
  let ?es = sizeof_loader_dev_ext_props
  let ?full = "gl_count l * ?es \<ge> gl_capacity l"
  have sz: "0 < ?es" "?es \<le> 2 ^ 20" by (simp_all add: size_bounds)
  from assms have ok: "ok_list ?es l" and wf: "wf_generic_list ?es l"
    and good: "list_all (\<lambda>d. wf_string_list (de_entrypoints d)) (take (gl_count l) xs)"
    and zero: "list_all (\<lambda>d. d = zero_dev_ext) (drop (gl_count l) xs)"
    by (simp_all add: ok_dev_exts_def ok_list_def)
  have cap: "gl_capacity l = ?es * length xs" and cnt: "gl_count l \<le> length xs" using wf assms(2) by (auto simp: wf_generic_list_def)
  have full: "?full \<longleftrightarrow> gl_count l = length xs" using cnt sz by (auto simp: cap mult.commute)
  have room: "gl_room l" by (rule tight_room [OF ok assms(3) sz(2)])
  let ?ys = "if ?full then xs @ replicate (length xs) zero_dev_ext else xs"
  from store_at_end_exact [OF wf assms(2) room, of ?full a zero_dev_ext junk_dev_ext upd h] cnt full
  have exact: "store_at_end a ?es zero_dev_ext junk_dev_ext ?full l upd h =
    (if ?full \<and> \<not> succeeds h then Some (VK_ERROR_OUT_OF_HOST_MEMORY, l, tick h)
     else Some (VK_SUCCESS, l\<lparr>gl_list := Buf (?ys[gl_count l := upd (?ys ! gl_count l)]), gl_count := gl_count l + 1,
                  gl_capacity := (if ?full then gl_capacity l * 2 else gl_capacity l)\<rparr>, if ?full then tick h else h))"
    by (auto simp: fill_zero [OF assms(4)])
  have lt: "gl_count l < length ?ys" using cnt full wf assms(2) by (cases xs) (auto simp: wf_generic_list_def)
  have cell: "?ys ! gl_count l = zero_dev_ext"
  proof (cases ?full)
    case True
    then show ?thesis using full lt by (simp add: nth_append)
  next
    case False
    with full cnt have lt': "gl_count l < length xs" by simp
    with zero have "xs ! gl_count l = zero_dev_ext" using Cons_nth_drop_Suc [OF lt', symmetric] by simp
    with False show ?thesis by simp
  qed
  have new: "upd (?ys ! gl_count l) = \<lparr>de_props = e, de_entrypoints = (case entrys of Some sl \<Rightarrow> sl | None \<Rightarrow> empty_string_list)\<rparr>"
    unfolding upd_def cell by (cases entrys) (simp_all add: zero_dev_ext_def)
  have wf_new: "wf_string_list (de_entrypoints (upd (?ys ! gl_count l)))"
    unfolding new using assms(5) by (cases entrys) (auto simp: wf_entrys_def)
  show ?thesis
  proof (cases "?full \<and> \<not> succeeds h")
    case True
    with exact show ?thesis by (intro exI [of _ "tick h"]) simp
  next
    case False
    define l' where "l' = l\<lparr>gl_list := Buf (?ys[gl_count l := upd (?ys ! gl_count l)]), gl_count := gl_count l + 1,
                  gl_capacity := (if ?full then gl_capacity l * 2 else gl_capacity l)\<rparr>"
    have st: "store_at_end a ?es zero_dev_ext junk_dev_ext ?full l upd h = Some (VK_SUCCESS, l', if ?full then tick h else h)"
      unfolding exact l'_def using False by simp
    from store_ok [OF ok assms(2,3) sz, of h a zero_dev_ext junk_dev_ext upd] st have "ok_list ?es l'" by auto
    moreover have "gl_items l' = gl_items l @ [upd (?ys ! gl_count l)]"
      unfolding l'_def gl_items_def using take_Suc_update [OF lt] cnt assms(2) by simp
    moreover have "list_all (\<lambda>d. wf_string_list (de_entrypoints d)) (gl_items l @ [upd (?ys ! gl_count l)])"
      using good wf_new assms(2) by (simp add: gl_items_def)
    moreover have "list_all (\<lambda>d. d = zero_dev_ext) (drop (gl_count l + 1) ?ys)"
      using zero full set_drop_subset_set_drop [of "gl_count l" "gl_count l + 1" xs] by (auto simp: list_all_iff dest: in_set_dropD)
    moreover have "gl_list l' = Buf (?ys[gl_count l := upd (?ys ! gl_count l)])" "gl_count l' = gl_count l + 1"
      by (simp_all add: l'_def)
    moreover have "take (gl_count l + 1) (?ys[gl_count l := upd (?ys ! gl_count l)]) = gl_items l'"
      by (simp add: l'_def gl_items_def)
    ultimately have "ok_dev_exts l'" unfolding ok_dev_exts_def by simp
    with st new \<open>gl_items l' = _\<close> \<open>gl_list l' = _\<close> show ?thesis
      by (intro exI [of _ "if ?full then tick h else h"] conjI disjI2 exI [of _ l']) auto
  qed
qed


lemma dev_ext_owned_blocks: "gl_items l' = gl_items l \<Longrightarrow> dev_ext_owned l' = dev_ext_owned l + blocks (gl_list l') - blocks (gl_list l)"
  by (simp add: dev_ext_owned_def)

text \<open>The disposal of the caller's entry points at the \<^verbatim>\<open>out\<close> label.\<close>

lemma dispose_entrys_accounts:
  assumes "wf_entrys entrys"
  obtains e' h' where "dispose_entrys a entrys r l h = Some (r, l, e', h')" and "live h' = live h - entrys_owned entrys"
proof (cases entrys)
  case None
  then show ?thesis using that [of None h] by (simp add: dispose_entrys_def entrys_owned_def)
next
  case (Some sl)
  with assms free_string_list_releases [of sl a h] that show ?thesis
    by (auto simp: dispose_entrys_def entrys_owned_def wf_entrys_def)
qed

lemma init_dev_ok:
  assumes "ok_dev_exts l"
    and "(if gl_list l = NULL \<or> gl_capacity l = 0 then loader_init_generic_list a sizeof_loader_dev_ext_props zero_dev_ext l h
          else (VK_SUCCESS, l, h)) = (r, l1, h1)" and "r = VK_SUCCESS"
  shows "ok_dev_exts l1"
proof (cases "gl_list l = NULL \<or> gl_capacity l = 0")
  case True
  have "0 < sizeof_loader_dev_ext_props" by (simp add: size_bounds)
  from init_generic_list_cases [OF this, of h a zero_dev_ext l] True assms show ?thesis
    by (auto simp: ok_dev_exts_def ok_list_def wf_generic_list_def tight_def size_bounds list_all_iff)
qed (use assms in simp)

lemma add_to_dev_ext_Buf:
  assumes "ok_dev_exts l" "gl_list l = Buf xs" "gl_count l < 2 ^ 31" "no_realloc_callback a"
    "wf_entrys entrys"
  shows "\<exists>r l' e' h'. loader_add_to_dev_ext_list a l e entrys h = Some (r, l', e', h') \<and> ok_dev_exts l' \<and>
     live h' - dev_ext_owned l' = live h - dev_ext_owned l - entrys_owned entrys \<and>
     (r = VK_SUCCESS \<and> extensionName e \<in> (\<lambda>d. extensionName (de_props d)) ` set (gl_items l) \<and> gl_items l' = gl_items l \<or>
      r = VK_SUCCESS \<and> extensionName e \<notin> (\<lambda>d. extensionName (de_props d)) ` set (gl_items l) \<and>
        gl_items l' = gl_items l @ [\<lparr>de_props = e, de_entrypoints = (case entrys of Some sl \<Rightarrow> sl | None \<Rightarrow> empty_string_list)\<rparr>] \<or>
      r = VK_ERROR_OUT_OF_HOST_MEMORY \<and> gl_items l' = gl_items l)"
proof -
  have wf: "wf_generic_list sizeof_loader_dev_ext_props l" using assms(1) by (simp add: ok_dev_exts_def ok_list_def)
  have ne: "\<not> (gl_list l = NULL \<or> gl_capacity l = 0)" using wf_generic_capacity [OF wf] assms(2) by simp
  show ?thesis
  proof (cases "extensionName e \<in> (\<lambda>d. extensionName (de_props d)) ` set (gl_items l)")
    case True
    obtain e' h' where "dispose_entrys a entrys VK_SUCCESS l h = Some (VK_SUCCESS, l, e', h')"
      "live h' = live h - entrys_owned entrys" using dispose_entrys_accounts assms(5) by blast
    with True assms(1) ne show ?thesis by (simp add: loader_add_to_dev_ext_list_def has_dev_ext [OF wf])
  next
    case False
    let ?d = "\<lparr>de_props = e, de_entrypoints = (case entrys of Some sl \<Rightarrow> sl | None \<Rightarrow> empty_string_list)\<rparr>"
    let ?store = "store_at_end a sizeof_loader_dev_ext_props zero_dev_ext junk_dev_ext
       (gl_count l * sizeof_loader_dev_ext_props \<ge> gl_capacity l) l
       (\<lambda>cell. \<lparr>de_props = e, de_entrypoints = (case entrys of Some sl \<Rightarrow> sl | None \<Rightarrow> de_entrypoints cell)\<rparr>) h"
    from dev_exts_Buf [OF assms, of h e] obtain h1 where h1: "live h1 = live h" and
      r: "?store = Some (VK_ERROR_OUT_OF_HOST_MEMORY, l, h1) \<or>
        (\<exists>l'. ?store = Some (VK_SUCCESS, l', h1) \<and> ok_dev_exts l' \<and> blocks (gl_list l') = 1 \<and> gl_items l' = gl_items l @ [?d])"
      by blast
    from r show ?thesis
    proof
      assume st: "?store = Some (VK_ERROR_OUT_OF_HOST_MEMORY, l, h1)"
      obtain e' h' where "dispose_entrys a entrys VK_ERROR_OUT_OF_HOST_MEMORY l h1 = Some (VK_ERROR_OUT_OF_HOST_MEMORY, l, e', h')"
        "live h' = live h1 - entrys_owned entrys" using dispose_entrys_accounts assms(5) by blast
      with st False assms(1) ne h1 show ?thesis by (simp add: loader_add_to_dev_ext_list_def has_dev_ext [OF wf])
    next
      assume "\<exists>l'. ?store = Some (VK_SUCCESS, l', h1) \<and> ok_dev_exts l' \<and> blocks (gl_list l') = 1 \<and> gl_items l' = gl_items l @ [?d]"
      then obtain l' where st: "?store = Some (VK_SUCCESS, l', h1)" and l': "ok_dev_exts l'" "blocks (gl_list l') = 1"
        "gl_items l' = gl_items l @ [?d]" by blast
      have "dev_ext_owned l' = dev_ext_owned l + entrys_owned entrys"
        using l' assms(2) by (cases entrys) (simp_all add: dev_ext_owned_def entrys_owned_def)
      with st l' False ne h1 show ?thesis by (simp add: loader_add_to_dev_ext_list_def has_dev_ext [OF wf])
    qed
  qed
qed

lemma add_to_dev_ext_list_cases:
  assumes "ok_dev_exts l" "gl_count l < 2 ^ 31" "no_realloc_callback a"
    "wf_entrys entrys"
  shows "\<exists>r l' e' h'. loader_add_to_dev_ext_list a l e entrys h = Some (r, l', e', h') \<and> ok_dev_exts l' \<and>
     live h' - dev_ext_owned l' = live h - dev_ext_owned l - entrys_owned entrys \<and>
     (r = VK_SUCCESS \<and> extensionName e \<in> (\<lambda>d. extensionName (de_props d)) ` set (gl_items l) \<and> gl_items l' = gl_items l \<or>
      r = VK_SUCCESS \<and> extensionName e \<notin> (\<lambda>d. extensionName (de_props d)) ` set (gl_items l) \<and>
        gl_items l' = gl_items l @ [\<lparr>de_props = e, de_entrypoints = (case entrys of Some sl \<Rightarrow> sl | None \<Rightarrow> empty_string_list)\<rparr>] \<or>
      r = VK_ERROR_OUT_OF_HOST_MEMORY \<and> gl_items l' = gl_items l)"
proof -
  let ?es = sizeof_loader_dev_ext_props
  have sz: "0 < ?es" by (simp add: size_bounds)
  have wf: "wf_generic_list ?es l" using assms(1) by (simp add: ok_dev_exts_def ok_list_def)
  from init_ok [OF sz wf, of a zero_dev_ext h] obtain r l1 h1 where
    i: "(if gl_list l = NULL \<or> gl_capacity l = 0 then loader_init_generic_list a ?es zero_dev_ext l h
         else (VK_SUCCESS, l, h)) = (r, l1, h1)" "gl_items l1 = gl_items l"
      "live h1 - blocks (gl_list l1) = live h - blocks (gl_list l)"
    and c: "r = VK_SUCCESS \<and> gl_list l1 \<noteq> NULL \<and> gl_capacity l1 \<noteq> 0 \<and> ok_list ?es l1 \<or>
            r = VK_ERROR_OUT_OF_HOST_MEMORY \<and> gl_list l1 = NULL \<and> ok_list ?es l1"
    using assms(1) by (auto simp: ok_dev_exts_def)
  have own1: "live h1 - dev_ext_owned l1 = live h - dev_ext_owned l"
    using i(3) dev_ext_owned_blocks [OF i(2)] by simp
  from c show ?thesis
  proof
    assume oom: "r = VK_ERROR_OUT_OF_HOST_MEMORY \<and> gl_list l1 = NULL \<and> ok_list ?es l1"
    then have "ok_dev_exts l1" by (simp add: ok_dev_exts_def)
    moreover obtain e' h' where "dispose_entrys a entrys r l1 h1 = Some (r, l1, e', h')"
      "live h' = live h1 - entrys_owned entrys"
      using dispose_entrys_accounts assms(4) by blast
    ultimately show ?thesis using oom i own1 by (simp add: loader_add_to_dev_ext_list_def Let_def)
  next
    assume s: "r = VK_SUCCESS \<and> gl_list l1 \<noteq> NULL \<and> gl_capacity l1 \<noteq> 0 \<and> ok_list ?es l1"
    then obtain xs where xs: "gl_list l1 = Buf xs"
      by (cases "gl_list l1") (auto simp: ok_list_def wf_generic_list_def)
    have ok1: "ok_dev_exts l1" by (rule init_dev_ok [OF assms(1) i(1)]) (use s in simp)
    then have wf1: "wf_generic_list ?es l1" by (simp add: ok_dev_exts_def ok_list_def)
    have cnt: "gl_count l1 < 2 ^ 31" using assms(2) i(2) length_gl_items [OF wf] length_gl_items [OF wf1] by simp
    have start: "loader_add_to_dev_ext_list a l e entrys h = loader_add_to_dev_ext_list a l1 e entrys h1"
      using i(1) s by (simp add: loader_add_to_dev_ext_list_def)
    show ?thesis
      unfolding start using add_to_dev_ext_Buf [OF ok1 xs cnt assms(3,4), of e h1] i(2) own1 by auto
  qed
qed


section \<open>Properties\<close>

abbreviation no_extensions :: loader_extension_list where
  "no_extensions \<equiv> empty_generic_list"

text \<open>C20: adding extensions is memory-safe for every pattern of allocation failures, keeps the names
  distinct with the first occurrence winning, adds everything on success and a prefix on
  out-of-memory, and owns exactly the array.\<close>

theorem add_to_ext_list_contract:
  assumes "ok_exts l" and "gl_count l + length props \<le> 2 ^ 31" and "distinct (map extensionName (gl_items l))"
  shows "\<exists>r l' h' n. loader_add_to_ext_list a l props h = Some (r, l', h') \<and> ok_exts l' \<and>
           live h' - blocks (gl_list l') = live h - blocks (gl_list l) \<and>
           gl_items l' = merge_keyed extensionName (gl_items l) (take n props) \<and>
           distinct (map extensionName (gl_items l')) \<and>
           (r = VK_SUCCESS \<and> extensionName ` set (gl_items l') = extensionName ` set (gl_items l) \<union> extensionName ` set props \<or>
            r = VK_ERROR_OUT_OF_HOST_MEMORY)"
proof -
  have "length (gl_items l) + length props \<le> 2 ^ 31" using assms(1,2) by (simp add: length_ok_exts)
  from add_to_ext_list_all [OF assms(1) this, of a h] obtain r l' h' n where
    "loader_add_to_ext_list a l props h = Some (r, l', h')" "ok_exts l'"
    "live h' - blocks (gl_list l') = live h - blocks (gl_list l)" "n \<le> length props"
    "gl_items l' = merge_keyed extensionName (gl_items l) (take n props)"
    "r = VK_SUCCESS \<and> n = length props \<or> r = VK_ERROR_OUT_OF_HOST_MEMORY" by blast
  then show ?thesis
    using distinct_merge_keyed [OF assms(3), of "take n props"] keys_merge_keyed [of extensionName "gl_items l" "take n props"]
    by (intro exI [of _ r] exI [of _ l'] exI [of _ h'] exI [of _ n]) auto
qed

theorem add_to_ext_list_contract_witness:
  "ok_exts no_extensions \<and> gl_count no_extensions + length [zero_extension, zero_extension] \<le> 2 ^ 31 \<and>
   distinct (map extensionName (gl_items no_extensions)) \<and>
   (\<exists>r l' h' n. loader_add_to_ext_list None no_extensions [zero_extension, zero_extension] (sample_heap True) = Some (r, l', h') \<and>
      ok_exts l' \<and> live h' - blocks (gl_list l') = live (sample_heap True) - blocks (gl_list no_extensions) \<and>
      gl_items l' = merge_keyed extensionName (gl_items no_extensions) (take n [zero_extension, zero_extension]) \<and>
      distinct (map extensionName (gl_items l')) \<and>
      (r = VK_SUCCESS \<and> extensionName ` set (gl_items l') =
          extensionName ` set (gl_items no_extensions) \<union> extensionName ` set [zero_extension, zero_extension] \<or>
       r = VK_ERROR_OUT_OF_HOST_MEMORY))"
proof -
  have ok: "ok_exts no_extensions" by (simp add: ok_exts_def)
  have b: "gl_count no_extensions + length [zero_extension, zero_extension] \<le> 2 ^ 31" by simp
  have d: "distinct (map extensionName (gl_items no_extensions))" by simp
  show ?thesis by (intro conjI ok b d add_to_ext_list_contract [OF ok b d])
qed

text \<open>collecting a driver's or layer's instance extensions never reads past the buffer, whatever
  counts the driver reports in its two calls: the list gains, without duplicates, supported
  extensions among the first \<open>min\<close> of the two counts; all of them on success.  A failing call is
  passed on with the list untouched.\<close>

theorem add_instance_extensions_contract:
  assumes "ok_exts l" and "gl_count l + first_count f \<le> 2 ^ 31"
  shows "\<exists>r l' h' n. loader_add_instance_extensions b a (Some f) own l h = Some (r, l', h') \<and> ok_exts l' \<and>
           live h' - blocks (gl_list l') = live h - blocks (gl_list l) \<and>
           (let seen = filter (\<lambda>e. \<not> wsi_unsupported_instance_extension b e)
                         (take (min (second_count f) (first_count f)) (second_props f @ replicate (first_count f) zero_extension))
            in if own \<or> first_result f \<noteq> VK_SUCCESS \<or> second_result f \<noteq> VK_SUCCESS \<and> first_count f \<noteq> 0
               then l' = l \<and> (own \<or> r \<noteq> VK_SUCCESS)
               else gl_items l' = merge_keyed extensionName (gl_items l) (take n seen) \<and>
                    (r = VK_SUCCESS \<and> n = length seen \<or> r = VK_ERROR_OUT_OF_HOST_MEMORY))"
proof -
  define seen where "seen = filter (\<lambda>e. \<not> wsi_unsupported_instance_extension b e)
     (take (min (second_count f) (first_count f)) (second_props f @ replicate (first_count f) zero_extension))"
  let ?xs = "take (first_count f) (second_props f @ replicate (first_count f) zero_extension)"
  have len: "length seen \<le> first_count f"
    unfolding seen_def by (rule le_trans [OF length_filter_le]) (simp add: min_def)
  have run: "add_enumerated (wsi_unsupported_instance_extension b) a l (filled_props f) 0 (min (second_count f) (first_count f)) h =
      exts.add_all a l seen h"
    using add_enumerated_is_add_all [of 0 "min (second_count f) (first_count f)" ?xs "wsi_unsupported_instance_extension b" a l h]
    by (simp add: filled_props_def seen_def min.absorb1 del: take_append)
  have bound: "length (gl_items l) + length seen \<le> 2 ^ 31" using assms len by (simp add: length_ok_exts)
  from exts.add_all_cases [OF assms(1) bound, of a h] obtain r l' h' n where
    all: "exts.add_all a l seen h = Some (r, l', h')" "ok_exts l'" "live h' - blocks (gl_list l') = live h - blocks (gl_list l)"
      "gl_items l' = merge_keyed extensionName (gl_items l) (take n seen)"
      "r = VK_SUCCESS \<and> n = length seen \<or> r = VK_ERROR_OUT_OF_HOST_MEMORY" by blast
  consider "own \<or> first_result f \<noteq> VK_SUCCESS \<or> second_result f \<noteq> VK_SUCCESS \<and> first_count f \<noteq> 0"
    | "\<not> own" "first_result f = VK_SUCCESS" "first_count f = 0"
    | "\<not> own" "first_result f = VK_SUCCESS" "second_result f = VK_SUCCESS" "first_count f \<noteq> 0" by blast
  then show ?thesis
  proof cases
    case 1
    then show ?thesis using assms(1) by (auto simp: loader_add_instance_extensions_def)
  next
    case 2
    then have "seen = []" using len by simp
    with 2 assms(1) show ?thesis
      unfolding Let_def seen_def [symmetric] by (auto simp: loader_add_instance_extensions_def)
  next
    case 3
    with all show ?thesis
      unfolding Let_def seen_def [symmetric]
      by (intro exI [of _ r] exI [of _ l'] exI [of _ h'] exI [of _ n]) (simp add: loader_add_instance_extensions_def run)
  qed
qed


theorem add_instance_extensions_contract_witness:
  "\<exists>f b. ok_exts empty_generic_list \<and> gl_count empty_generic_list + first_count f \<le> 2 ^ 31 \<and>
     second_count f > first_count f \<and>
     (\<exists>r l' h' n. loader_add_instance_extensions b None (Some f) False empty_generic_list (sample_heap True) = Some (r, l', h') \<and>
        ok_exts l')"
proof -
  let ?f = "\<lparr>first_result = VK_SUCCESS, first_count = 1, second_result = VK_SUCCESS, second_count = 2,
             second_props = [\<lparr>extensionName = ''VK_KHR_surface'', specVersion = 25\<rparr>]\<rparr>"
  let ?b = "\<lparr>use_wayland = True, use_xcb = True, use_xlib = True, use_directfb = False, use_screen_qnx = False\<rparr>"
  have ok: "ok_exts empty_generic_list" by (simp add: ok_exts_def)
  have b: "gl_count empty_generic_list + first_count ?f \<le> 2 ^ 31" by simp
  from add_instance_extensions_contract [OF ok b, of ?b None False "sample_heap True"] ok b
  show ?thesis by (intro exI [of _ ?f] exI [of _ ?b]) (auto simp del: gl_empty_simps)
qed

text \<open>adding a device extension is memory-safe and takes over the entry points it is given, storing
  them with a new extension or freeing them with a duplicate or on failure, so nothing leaks; all
  entry points in the list stay well-formed.  The application's allocator must have no reallocation
  callback.\<close>

theorem add_to_dev_ext_list_contract:
  assumes "ok_dev_exts l" "gl_count l < 2 ^ 31" "no_realloc_callback a" "wf_entrys entrys"
  shows "\<exists>r l' e' h'. loader_add_to_dev_ext_list a l e entrys h = Some (r, l', e', h') \<and> ok_dev_exts l' \<and>
     live h' - dev_ext_owned l' = live h - dev_ext_owned l - entrys_owned entrys \<and>
     (r = VK_SUCCESS \<and> extensionName e \<in> (\<lambda>d. extensionName (de_props d)) ` set (gl_items l) \<and> gl_items l' = gl_items l \<or>
      r = VK_SUCCESS \<and> extensionName e \<notin> (\<lambda>d. extensionName (de_props d)) ` set (gl_items l) \<and>
        gl_items l' = gl_items l @ [\<lparr>de_props = e, de_entrypoints = (case entrys of Some sl \<Rightarrow> sl | None \<Rightarrow> empty_string_list)\<rparr>] \<or>
      r = VK_ERROR_OUT_OF_HOST_MEMORY \<and> gl_items l' = gl_items l)"
  by (rule add_to_dev_ext_list_cases [OF assms])

theorem add_to_dev_ext_list_contract_witness:
  "ok_dev_exts empty_generic_list \<and> gl_count empty_generic_list < 2 ^ 31 \<and> no_realloc_callback None \<and>
   wf_entrys (Some empty_string_list) \<and>
   (\<exists>r l' e' h'. loader_add_to_dev_ext_list None empty_generic_list zero_extension (Some empty_string_list) (sample_heap True) =
      Some (r, l', e', h') \<and> ok_dev_exts l')"
proof -
  have a: "ok_dev_exts empty_generic_list" by (simp add: ok_dev_exts_def)
  have b: "gl_count empty_generic_list < 2 ^ 31" by simp
  have c: "no_realloc_callback None" by (simp add: no_realloc_callback_def)
  have d: "wf_entrys (Some empty_string_list)" by (simp add: wf_entrys_def)
  show ?thesis
    using add_to_dev_ext_list_contract [OF a b c d, of zero_extension "sample_heap True"] a b c d by blast
qed

text \<open>with a reallocation callback the new half of the array is not cleared, and an extension added
  there without entry points keeps what it finds as its entry points: freeing them is undefined
  behaviour.\<close>

theorem dev_ext_garbage_entrypoints:
  assumes "ok_dev_exts l" "gl_list l = Buf xs" "gl_count l = length xs" "gl_count l < 2 ^ 31"
    and "pfnReallocation cb" and "succeeds h"
    and "extensionName e \<notin> (\<lambda>d. extensionName (de_props d)) ` set (gl_items l)"
  shows "\<exists>l' h'. loader_add_to_dev_ext_list (Some cb) l e None h = Some (VK_SUCCESS, l', None, h') \<and>
           de_entrypoints (last (gl_items l')) = de_entrypoints junk_dev_ext \<and>
           free_string_list (Some cb) (de_entrypoints (last (gl_items l'))) h2 = None"
proof -
  let ?es = sizeof_loader_dev_ext_props
  have ok: "ok_list ?es l" and wf: "wf_generic_list ?es l" using assms(1) by (simp_all add: ok_dev_exts_def ok_list_def)
  have ne: "\<not> (gl_list l = NULL \<or> gl_capacity l = 0)" using wf_generic_capacity [OF wf] assms(2) by simp
  have full: "gl_count l * ?es \<ge> gl_capacity l" using wf assms(2,3) by (simp add: wf_generic_list_def)
  have pos: "0 < length xs" using wf assms(2) by (auto simp: wf_generic_list_def)
  have room: "gl_room l" by (rule tight_room [OF ok assms(4)]) (simp add: size_bounds)
  let ?upd = "\<lambda>cell. \<lparr>de_props = e, de_entrypoints = de_entrypoints cell\<rparr>"
  let ?ys = "xs @ replicate (length xs) junk_dev_ext"
  have fill: "realloc_fill (Some cb) zero_dev_ext junk_dev_ext = junk_dev_ext" using assms(5) by (simp add: realloc_fill_def)
  have cell: "?ys ! length xs = junk_dev_ext" using pos by (simp add: nth_append)
  define l' where "l' = l\<lparr>gl_list := Buf (?ys[length xs := ?upd junk_dev_ext]), gl_count := length xs + 1, gl_capacity := gl_capacity l * 2\<rparr>"
  have st: "store_at_end (Some cb) ?es zero_dev_ext junk_dev_ext True l ?upd h = Some (VK_SUCCESS, l', tick h)"
    using store_at_end_exact [OF wf assms(2) room, of True "Some cb" zero_dev_ext junk_dev_ext ?upd h] assms(3,6)
    by (simp add: fill cell l'_def)
  have items: "gl_items l' = xs @ [?upd junk_dev_ext]"
    using take_Suc_update [of "length xs" ?ys "?upd junk_dev_ext"] pos by (simp add: gl_items_def l'_def)
  have "loader_add_to_dev_ext_list (Some cb) l e None h = Some (VK_SUCCESS, l', None, tick h)"
    using ne assms(7) full st by (simp add: loader_add_to_dev_ext_list_def has_dev_ext [OF wf])
  moreover have "free_string_list (Some cb) (de_entrypoints junk_dev_ext) h2 = None"
    by (simp add: free_string_list_def junk_dev_ext_def)
  ultimately show ?thesis by (simp add: items)
qed

theorem dev_ext_garbage_entrypoints_witness:
  "\<exists>l xs cb. ok_dev_exts l \<and> gl_list l = Buf xs \<and> gl_count l = length xs \<and> pfnReallocation cb \<and>
     (\<exists>l' h'. loader_add_to_dev_ext_list (Some cb) l \<lparr>extensionName = ''VK_EXT_b'', specVersion = 1\<rparr> None (sample_heap True) =
        Some (VK_SUCCESS, l', None, h') \<and>
        free_string_list (Some cb) (de_entrypoints (last (gl_items l'))) (sample_heap True) = None)"
proof -
  let ?xs = "[\<lparr>de_props = \<lparr>extensionName = ''VK_EXT_a'', specVersion = 1\<rparr>, de_entrypoints = empty_string_list\<rparr>]"
  let ?l = "\<lparr>gl_capacity = 280, gl_count = 1, gl_list = Buf ?xs\<rparr>"
  let ?cb = "\<lparr>pfnAllocation = True, pfnReallocation = True, pfnFree = True\<rparr>"
  have ok: "ok_dev_exts ?l" by (simp add: ok_dev_exts_def ok_list_def wf_generic_list_def tight_def size_bounds)
  have "\<exists>l' h'. loader_add_to_dev_ext_list (Some ?cb) ?l \<lparr>extensionName = ''VK_EXT_b'', specVersion = 1\<rparr> None (sample_heap True) =
        Some (VK_SUCCESS, l', None, h') \<and> de_entrypoints (last (gl_items l')) = de_entrypoints junk_dev_ext \<and>
        free_string_list (Some ?cb) (de_entrypoints (last (gl_items l'))) (sample_heap True) = None"
    by (rule dev_ext_garbage_entrypoints [OF ok, of ?xs]) (simp_all add: gl_items_def succeeds_def)
  with ok show ?thesis by (intro exI [of _ ?l] exI [of _ ?xs] exI [of _ ?cb]) auto
qed

end
