(* ===== verification/Paths.thy ===== *)
theory Paths
  imports StringList
begin

text \<open>
  Path handling of \<^verbatim>\<open>loader.c\<close> and \<^verbatim>\<open>vk_loader_platform.h\<close> (Unix): manifest names, the search of a
  file in a list of directories, the library path of a manifest, the classification of library
  loading errors, and \<^verbatim>\<open>normalize_path\<close> in both builds.  The operating system is a parameter:
  \<^verbatim>\<open>access\<close> as \<open>file_exists\<close>, \<^verbatim>\<open>realpath\<close>, and the file name \<^verbatim>\<open>dladdr\<close> reports.
\<close>

definition DIRECTORY_SYMBOL :: char where "DIRECTORY_SYMBOL = CHR ''/''"
definition PATH_SEPARATOR :: char where "PATH_SEPARATOR = CHR '':''"

definition loader_platform_is_path :: "string \<Rightarrow> bool" where
  "loader_platform_is_path path = (DIRECTORY_SYMBOL \<in> set path)"

definition loader_platform_is_path_absolute :: "string \<Rightarrow> bool" where
  "loader_platform_is_path_absolute path = (take 1 path = ''/'')"

text \<open>\<^verbatim>\<open>loader_platform_executable_path\<close>: \<open>link\<close> is the target of \<^verbatim>\<open>/proc/self/exe\<close>, of which \<^verbatim>\<open>readlink\<close>
  stores at most \<open>sz\<close> bytes without a terminator.\<close>

definition loader_platform_executable_path :: "string option \<Rightarrow> nat \<Rightarrow> string option" where
  "loader_platform_executable_path link sz =
     (case link of
        None \<Rightarrow> None
      | Some l \<Rightarrow> (let count = length (take sz l) in
          if count = 0 then None else if count \<ge> sz then None else Some (take count l)))"

definition is_json :: "string \<Rightarrow> nat \<Rightarrow> bool" where
  "is_json path len = (if len < 5 then False else take 5 (drop (len - 5) path) = ''.json'')"

section \<open>Library loading errors\<close>

datatype loader_layer_library_status =
    LOADER_LAYER_LIB_NOT_LOADED
  | LOADER_LAYER_LIB_SUCCESS_LOADED
  | LOADER_LAYER_LIB_ERROR_WRONG_BIT_TYPE
  | LOADER_LAYER_LIB_ERROR_FAILED_TO_LOAD
  | LOADER_LAYER_LIB_ERROR_OUT_OF_MEMORY

text \<open>\<^verbatim>\<open>strstr\<close>.\<close>

fun strstr :: "string \<Rightarrow> string \<Rightarrow> bool" where
  "strstr [] needle = (needle = [])"
| "strstr (c # cs) needle = (take (length needle) (c # cs) = needle \<or> strstr cs needle)"

text \<open>The status written when \<^verbatim>\<open>lib_status\<close> is not null, and whether the message is logged as an error.\<close>

definition loader_handle_load_library_error :: "string \<Rightarrow> loader_layer_library_status \<times> bool" where
  "loader_handle_load_library_error error_message =
     (if strstr error_message ''wrong ELF class:'' \<or> strstr error_message '' with error 193''
      then (LOADER_LAYER_LIB_ERROR_WRONG_BIT_TYPE, False)
      else if strstr error_message '' with error 8'' then (LOADER_LAYER_LIB_ERROR_OUT_OF_MEMORY, True)
      else (LOADER_LAYER_LIB_ERROR_FAILED_TO_LOAD, True))"

section \<open>Search paths\<close>

text \<open>\<^verbatim>\<open>loader_get_next_path\<close> cuts the text at the first separator: the path, and what follows.\<close>

definition loader_get_next_path :: "string \<Rightarrow> string \<times> string" where
  "loader_get_next_path path =
     (takeWhile (\<lambda>c. c \<noteq> PATH_SEPARATOR) path, drop 1 (dropWhile (\<lambda>c. c \<noteq> PATH_SEPARATOR) path))"

lemma loader_get_next_path_shorter [termination_simp]:
  "path \<noteq> [] \<Longrightarrow> (dir, next_dir) = loader_get_next_path path \<Longrightarrow> length next_dir < length path"
  using length_dropWhile_le [of "\<lambda>c. c \<noteq> PATH_SEPARATOR" path]
  by (cases path) (auto simp: loader_get_next_path_def split: if_splits)

text \<open>\<^verbatim>\<open>snprintf\<close> into a buffer of \<open>out_size\<close> bytes keeps all but the last byte for text.\<close>

definition snprintf :: "nat \<Rightarrow> string \<Rightarrow> string" where
  "snprintf out_size s = take (out_size - 1) s"

text \<open>The directory loop of \<^verbatim>\<open>loader_get_fullpath\<close>: it ends at the end of the text and at an
  empty directory.\<close>

fun search_dirs :: "(string \<Rightarrow> bool) \<Rightarrow> string \<Rightarrow> nat \<Rightarrow> string \<Rightarrow> string option" where
  "search_dirs file_exists file out_size dirs =
     (if dirs = [] then None
      else (case loader_get_next_path dirs of (dir, next_dir) \<Rightarrow>
        if dir = [] then None
        else (let out_fullpath = snprintf out_size (dir @ [DIRECTORY_SYMBOL] @ file) in
          if file_exists out_fullpath then Some out_fullpath
          else search_dirs file_exists file out_size next_dir)))"

declare search_dirs.simps [simp del]

definition loader_get_fullpath :: "(string \<Rightarrow> bool) \<Rightarrow> string \<Rightarrow> string \<Rightarrow> nat \<Rightarrow> string" where
  "loader_get_fullpath file_exists file in_dirs out_size =
     (if \<not> loader_platform_is_path file \<and> in_dirs \<noteq> [] then
        (case search_dirs file_exists file out_size in_dirs of
           Some p \<Rightarrow> p | None \<Rightarrow> snprintf out_size file)
      else snprintf out_size file)"

section \<open>The library path of a manifest\<close>

text \<open>
  The copies into the zeroed buffer of \<open>new_str_len\<close> bytes, with their bounds: \<open>None\<close> is a write
  outside it.  The library path is freed when a new string was tried.
\<close>

fun last_directory_symbol :: "string \<Rightarrow> nat \<Rightarrow> nat \<Rightarrow> bool \<Rightarrow> nat \<times> bool" where
  "last_directory_symbol [] i lds found = (lds, found)"
| "last_directory_symbol (c # cs) i lds found =
     (if c = DIRECTORY_SYMBOL then last_directory_symbol cs (i + 1) (i + 1) True
      else last_directory_symbol cs (i + 1) lds found)"

definition combine_manifest_directory_and_library_path ::
  "allocator \<Rightarrow> string \<Rightarrow> string \<Rightarrow> heap \<Rightarrow> (VkResult \<times> string option \<times> heap) option" where
  "combine_manifest_directory_and_library_path a library_path manifest_file_path h =
     (if loader_platform_is_path_absolute library_path then Some (VK_SUCCESS, Some library_path, h)
      else if DIRECTORY_SYMBOL \<notin> set library_path then Some (VK_SUCCESS, Some library_path, h)
      else
        (let new_str_len = length library_path + length manifest_file_path + 1 + 1 in
         if \<not> succeeds h then
           Some (VK_ERROR_OUT_OF_HOST_MEMORY, None, free_str a (Some library_path) (tick h))
         else
           (let h = add_live 1 (tick h);
                (lds, found) = last_directory_symbol manifest_file_path 0 0 False;
                (base, cur) = (if found then (strncpy manifest_file_path lds, lds) else ([], 0));
                out = base @ strncpy library_path (length library_path);
                cur' = cur + length library_path + 1
            in if lds < new_str_len \<and> cur + length library_path < new_str_len \<and> cur' < new_str_len
               then Some (VK_SUCCESS, Some (take cur' out), free_str a (Some library_path) h)
               else None)))"

section \<open>\<^verbatim>\<open>normalize_path\<close>\<close>

text \<open>The build with \<^verbatim>\<open>realpath\<close>: the path is replaced by what \<^verbatim>\<open>realpath\<close> returns, if anything.\<close>

definition normalize_path ::
  "(string \<Rightarrow> string option) \<Rightarrow> allocator \<Rightarrow> string \<Rightarrow> heap \<Rightarrow> VkResult \<times> string \<times> heap" where
  "normalize_path realpath a passed_in_path h =
     (if \<not> succeeds h then (VK_ERROR_OUT_OF_HOST_MEMORY, passed_in_path, tick h)
      else (let h = add_live 1 (tick h) in
        case realpath passed_in_path of
          None \<Rightarrow> (VK_SUCCESS, passed_in_path, free_str a (Some []) h)
        | Some path \<Rightarrow> (VK_SUCCESS, path, free_str a (Some passed_in_path) h)))"

definition get_library_path_of_dl_handle ::
  "allocator \<Rightarrow> string option \<Rightarrow> heap \<Rightarrow> VkResult \<times> string option \<times> heap" where
  "get_library_path_of_dl_handle a dli_fname h =
     (case dli_fname of None \<Rightarrow> (VK_SUCCESS, None, h) | Some f \<Rightarrow> loader_copy_to_new_str a f h)"

definition fixup_library_binary_path ::
  "(string \<Rightarrow> string option) \<Rightarrow> allocator \<Rightarrow> string option \<Rightarrow> string \<Rightarrow> heap \<Rightarrow> VkResult \<times> string \<times> heap" where
  "fixup_library_binary_path realpath a dli_fname lib_name h =
     (let system_path = (DIRECTORY_SYMBOL \<notin> set lib_name);
          (res, lib_name, h) = (if \<not> system_path then normalize_path realpath a lib_name h else (VK_SUCCESS, lib_name, h))
      in if res = VK_ERROR_OUT_OF_HOST_MEMORY then (res, lib_name, h)
         else
           (let (res, os_name, h) = get_library_path_of_dl_handle a dli_fname h in
            if res = VK_ERROR_OUT_OF_HOST_MEMORY then (res, lib_name, h)
            else (case os_name of
                None \<Rightarrow> (res, lib_name, h)
              | Some os_determined_lib_name \<Rightarrow>
                  (let (res, os_determined_lib_name, h) = normalize_path realpath a os_determined_lib_name h in
                   if res = VK_ERROR_OUT_OF_HOST_MEMORY then (res, lib_name, free_str a (Some os_determined_lib_name) h)
                   else if os_determined_lib_name \<noteq> lib_name
                     then (res, os_determined_lib_name, free_str a (Some lib_name) h)
                   else (res, lib_name, free_str a (Some os_determined_lib_name) h)))))"

text \<open>
  The build without \<^verbatim>\<open>realpath\<close> works on the characters in place.  \<open>path\<close> includes the terminating
  zero; \<open>n\<close> is \<^verbatim>\<open>path_len - 1\<close>.
\<close>

definition NUL :: char where "NUL = CHR 0x00"

function squeeze_loop :: "string \<Rightarrow> nat \<Rightarrow> nat \<Rightarrow> nat \<Rightarrow> string \<times> nat" where
  "squeeze_loop path n i output_index =
     (if i < n then
        (if i + 1 < n + 1 \<and> path ! i = DIRECTORY_SYMBOL \<and> path ! (i + 1) = DIRECTORY_SYMBOL
         then squeeze_loop path n (i + 1) output_index
         else if i + 2 < n + 1 \<and> path ! i = DIRECTORY_SYMBOL \<and> path ! (i + 1) = CHR ''.'' \<and> path ! (i + 2) = DIRECTORY_SYMBOL
         then squeeze_loop path n (i + 2) output_index
         else squeeze_loop (path[output_index := path ! i]) n (i + 1) (output_index + 1))
      else (path, output_index))"
  by pat_completeness auto
termination by (relation "measure (\<lambda>(path, n, i, out). n - i)") auto

declare squeeze_loop.simps [simp del]

text \<open>The directory stack as the characters pushed and not popped, the last one first.\<close>

definition pop_directory :: "string \<Rightarrow> string" where
  "pop_directory stack = drop 1 (dropWhile (\<lambda>c. c \<noteq> DIRECTORY_SYMBOL) stack)"

function dotdot_loop :: "string \<Rightarrow> nat \<Rightarrow> nat \<Rightarrow> string \<Rightarrow> string option" where
  "dotdot_loop path n i stack =
     (if i < n then
        (if i + 3 < n + 1 \<and> path ! i = DIRECTORY_SYMBOL \<and> path ! (i + 1) = CHR ''.'' \<and>
            path ! (i + 2) = CHR ''.'' \<and> path ! (i + 3) = DIRECTORY_SYMBOL
         then dotdot_loop path n (i + 3) (pop_directory stack)
         else if length stack < n + 1 then dotdot_loop path n (i + 1) (path ! i # stack)
         else None)
      else if length stack < n + 1 then Some stack else None)"
  by pat_completeness auto
termination by (relation "measure (\<lambda>(path, n, i, stack). n - i)") auto

declare dotdot_loop.simps [simp del]

definition normalize_path_fallback :: "string \<Rightarrow> string option" where
  "normalize_path_fallback path =
     (let (path1, output_index) = squeeze_loop (path @ [NUL]) (length path) 0 0;
          path2 = path1[output_index := NUL]
      in map_option rev (dotdot_loop (take (output_index + 1) path2) output_index 0 []))"


section \<open>Reference definitions\<close>

text \<open>The first loop without the array.\<close>

fun squeeze :: "string \<Rightarrow> string" where
  "squeeze [] = []"
| "squeeze (c # cs) =
     (if take 2 (c # cs) = ''//'' then squeeze cs
      else if take 3 (c # cs) = ''/./'' then squeeze (tl cs)
      else c # squeeze cs)"

declare squeeze.simps(2) [simp del]

text \<open>The second loop over the characters left.\<close>

function dotdot :: "string \<Rightarrow> string \<Rightarrow> string" where
  "dotdot stack s =
     (if s = [] then stack
      else if take 4 s = ''/../'' then dotdot (pop_directory stack) (drop 3 s)
      else dotdot (hd s # stack) (tl s))"
  by pat_completeness auto
termination by (relation "measure (\<lambda>(stack, s). length s)") auto

declare dotdot.simps [simp del]

lemma dotdot_Nil [simp]: "dotdot stack [] = stack"
  by (simp add: dotdot.simps)

lemma dotdot_pop: "take 4 s = ''/../'' \<Longrightarrow> dotdot stack s = dotdot (pop_directory stack) (drop 3 s)"
  by (subst dotdot.simps) auto

lemma dotdot_push: "s \<noteq> [] \<Longrightarrow> take 4 s \<noteq> ''/../'' \<Longrightarrow> dotdot stack s = dotdot (hd s # stack) (tl s)"
  by (subst dotdot.simps) (simp only: if_False)

text \<open>
  A path as its first component and the components after each separator.  In the middle of a path,
  empty and \<^verbatim>\<open>.\<close> components vanish and \<^verbatim>\<open>..\<close> removes the component before it; the first and the
  last component are kept.
\<close>

definition path_tail :: "string list \<Rightarrow> string" where
  "path_tail cs = concat (map (\<lambda>c. DIRECTORY_SYMBOL # c) cs)"

fun parent :: "string list \<Rightarrow> string list" where
  "parent (c # c' # st) = c' # st"
| "parent st = [[]]"

fun resolve :: "string list \<Rightarrow> string list \<Rightarrow> string list" where
  "resolve st [] = st"
| "resolve st [d] = d # st"
| "resolve st (d # e # ds) =
     (if d = [] \<or> d = ''.'' then resolve st (e # ds)
      else if d = ''..'' then resolve (parent st) (e # ds)
      else resolve (d # st) (e # ds))"

definition path_of :: "string list \<Rightarrow> string" where
  "path_of cs = (case cs of [] \<Rightarrow> [] | c # cs \<Rightarrow> c @ path_tail cs)"

lemma path_tail_simps [simp]: "path_tail [] = []" "path_tail (c # cs) = DIRECTORY_SYMBOL # c @ path_tail cs"
  by (simp_all add: path_tail_def)

text \<open>Looking at the characters from position \<open>i\<close> on, within the text before the terminator.\<close>

lemma match_at:
  assumes "length path = n + 1" "path ! n = NUL" "NUL \<notin> set w"
  shows "take (length w) (take (n - i) (drop i path)) = w \<longleftrightarrow> (\<forall>k<length w. i + k \<le> n \<and> path ! (i + k) = w ! k)"
    (is "?L \<longleftrightarrow> ?R")
proof
  assume L: ?L
  have k: "i + k < n \<and> path ! (i + k) = w ! k" if "k < length w" for k
  proof -
    have "length (take (length w) (take (n - i) (drop i path))) = length w" using L by simp
    with that have "k < n - i" by simp
    moreover from L that have "take (length w) (take (n - i) (drop i path)) ! k = w ! k" by simp
    ultimately show ?thesis using that assms(1) by simp
  qed
  show ?R using k by (simp add: less_imp_le)
next
  assume R: ?R
  have k: "i + k < n" if "k < length w" for k
    using R that assms by (metis le_neq_implies_less nth_mem)
  have "length w \<le> n - i"
    using k [of "length w - 1"] by (cases w) auto
  then show ?L using R assms(1) k by (intro nth_equalityI) auto
qed

lemma match_separators:
  assumes "length path = n + 1" "path ! n = NUL" "i < n"
  shows "i + 1 < n + 1 \<and> path ! i = DIRECTORY_SYMBOL \<and> path ! (i + 1) = DIRECTORY_SYMBOL \<longleftrightarrow>
           take 2 (take (n - i) (drop i path)) = ''//''" (is ?two)
    and "i + 2 < n + 1 \<and> path ! i = DIRECTORY_SYMBOL \<and> path ! (i + 1) = CHR ''.'' \<and> path ! (i + 2) = DIRECTORY_SYMBOL \<longleftrightarrow>
           take 3 (take (n - i) (drop i path)) = ''/./''" (is ?three)
    and "i + 3 < n + 1 \<and> path ! i = DIRECTORY_SYMBOL \<and> path ! (i + 1) = CHR ''.'' \<and> path ! (i + 2) = CHR ''.'' \<and>
           path ! (i + 3) = DIRECTORY_SYMBOL \<longleftrightarrow> take 4 (take (n - i) (drop i path)) = ''/../''" (is ?four)
proof -
  note m = match_at [OF assms(1,2)]
  show ?two using m [of "''//''" i] assms(3)
    by (auto simp: All_less_Suc NUL_def DIRECTORY_SYMBOL_def numeral_2_eq_2)
  show ?three using m [of "''/./''" i] assms(3)
    by (auto simp: All_less_Suc NUL_def DIRECTORY_SYMBOL_def numeral_2_eq_2 numeral_3_eq_3)
  show ?four using m [of "''/../''" i] assms(3)
    by (auto simp: All_less_Suc NUL_def DIRECTORY_SYMBOL_def numeral_2_eq_2 numeral_3_eq_3 eval_nat_numeral)
qed

lemma squeeze_loop_correct:
  assumes "length path = n + 1" "path ! n = NUL" "out \<le> i" "i \<le> n"
  shows "\<exists>p' o'. squeeze_loop path n i out = (p', o') \<and> length p' = n + 1 \<and> o' \<le> n \<and>
           take o' p' = take out path @ squeeze (take (n - i) (drop i path))"
  using assms
proof (induction path n i out rule: squeeze_loop.induct)
  case (1 path n i out)
  show ?case
  proof (cases "i < n")
    case False
    with "1.prems" show ?thesis by (simp add: squeeze_loop.simps)
  next
    case True
    define r where "r = take (n - Suc i) (drop (Suc i) path)"
    have cur: "take (n - i) (drop i path) = path ! i # r"
      using True "1.prems" unfolding r_def
      by (metis Cons_nth_drop_Suc Suc_diff_Suc less_add_one less_trans take_Suc_Cons)
    note m = match_separators [OF "1.prems"(1,2) True, unfolded cur]
    show ?thesis
    proof (cases "take 2 (path ! i # r) = ''//''")
      case two: True
      have step: "squeeze_loop path n i out = squeeze_loop path n (i + 1) out"
        by (subst squeeze_loop.simps) (simp only: two [folded m(1)] True if_True simp_thms)
      have sq: "squeeze (path ! i # r) = squeeze r" by (simp only: squeeze.simps(2) two if_True simp_thms)
      from "1.IH"(1) [OF True two [folded m(1)]] "1.prems" True
      show ?thesis unfolding step cur sq by (simp add: r_def)
    next
      case not_two: False
      show ?thesis
      proof (cases "take 3 (path ! i # r) = ''/./''")
        case three: True
        have step: "squeeze_loop path n i out = squeeze_loop path n (i + 2) out"
          by (subst squeeze_loop.simps) (simp only: if_P [OF True] if_not_P [OF not_two [folded m(1)]] if_P [OF three [folded m(2)]])
        have sq: "squeeze (path ! i # r) = squeeze (tl r)"
          by (simp only: squeeze.simps(2) not_two three if_True if_False simp_thms)
        have tl: "tl r = take (n - (i + 2)) (drop (i + 2) path)"
          by (simp add: r_def tl_take tl_drop drop_Suc)
        from "1.IH"(2) [OF True not_two [folded m(1)] three [folded m(2)]] "1.prems" three [folded m(2)]
        show ?thesis unfolding step cur sq tl by simp
      next
        case not_three: False
        let ?p = "path[out := path ! i]"
        have tail: "take (n - (i + 1)) (drop (i + 1) ?p) = r"
          using "1.prems"(3) by (simp add: r_def)
        have nul: "?p ! n = NUL" using "1.prems" True by simp
        have front: "take (out + 1) ?p = take out path @ [path ! i]"
          using "1.prems" True by (simp add: take_Suc_update)
        note no = not_two [folded m(1)] not_three [folded m(2)]
        have step: "squeeze_loop path n i out = squeeze_loop ?p n (i + 1) (out + 1)"
          by (subst squeeze_loop.simps) (simp only: no True if_True if_False)
        have sq: "squeeze (path ! i # r) = path ! i # squeeze r" by (simp only: squeeze.simps not_two not_three if_False)
        from "1.IH"(3) [OF True no] "1.prems" True nul
        show ?thesis unfolding step tail front cur sq by simp
      qed
    qed
  qed
qed


lemma length_pop: "length (pop_directory st) \<le> length st"
  unfolding pop_directory_def using length_dropWhile_le [of "\<lambda>c. c \<noteq> DIRECTORY_SYMBOL" st] by simp

lemma dotdot_loop_correct:
  assumes "length path = n + 1" "path ! n = NUL" "i \<le> n" "length stack \<le> i"
  shows "dotdot_loop path n i stack = Some (dotdot stack (take (n - i) (drop i path)))"
  using assms
proof (induction path n i stack rule: dotdot_loop.induct)
  case (1 path n i stack)
  show ?case
  proof (cases "i < n")
    case False
    with "1.prems" show ?thesis by (simp add: dotdot_loop.simps dotdot.simps)
  next
    case True
    let ?s = "take (n - i) (drop i path)"
    have ne: "?s \<noteq> []" "hd ?s = path ! i" "tl ?s = take (n - (i + 1)) (drop (i + 1) path)"
      using True "1.prems" by (simp_all add: hd_drop_conv_nth tl_take tl_drop drop_Suc)
    note m = match_separators(3) [OF "1.prems"(1,2) True]
    show ?thesis
    proof (cases "take 4 ?s = ''/../''")
      case four: True
      note yes = four [folded m]
      have step: "dotdot_loop path n i stack = dotdot_loop path n (i + 3) (pop_directory stack)"
        by (subst dotdot_loop.simps) (simp only: True yes simp_thms if_True)
      have "dotdot stack ?s = dotdot (pop_directory stack) (drop 3 ?s)"
        by (rule dotdot_pop [OF four])
      with "1.IH"(1) [OF True yes] "1.prems" yes length_pop [of stack]
      show ?thesis unfolding step by (simp add: drop_take add.commute)
    next
      case not_four: False
      note no = not_four [folded m]
      have len: "length stack < n + 1" using "1.prems" by simp
      have step: "dotdot_loop path n i stack = dotdot_loop path n (i + 1) (path ! i # stack)"
        by (subst dotdot_loop.simps) (simp only: True no len if_True if_False)
      have "dotdot stack ?s = dotdot (path ! i # stack) (take (n - (i + 1)) (drop (i + 1) path))"
        using dotdot_push [OF ne(1) not_four] by (simp only: ne)
      with "1.IH"(2) [OF True no len] "1.prems" True show ?thesis unfolding step by simp
    qed
  qed
qed

lemma normalize_path_fallback_functional:
  "normalize_path_fallback path = Some (rev (dotdot [] (squeeze path)))"
proof -
  obtain p o' where sq: "squeeze_loop (path @ [NUL]) (length path) 0 0 = (p, o')"
    and len: "length p = length path + 1" "o' \<le> length path" and out: "take o' p = squeeze path"
    using squeeze_loop_correct [of "path @ [NUL]" "length path" 0 0] by auto
  let ?q = "take (o' + 1) (p[o' := NUL])"
  have q: "length ?q = o' + 1" "?q ! o' = NUL" "take o' ?q = squeeze path"
    using len out by (simp_all add: min_def)
  have "dotdot_loop ?q o' 0 [] = Some (dotdot [] (squeeze path))"
    using dotdot_loop_correct [OF q(1,2), of 0 "[]"] q(3) by simp
  then show ?thesis by (simp add: normalize_path_fallback_def sq)
qed

section \<open>Components\<close>

abbreviation slashfree :: "string \<Rightarrow> bool" where
  "slashfree c \<equiv> DIRECTORY_SYMBOL \<notin> set c"

lemma squeeze_component: "slashfree c \<Longrightarrow> squeeze (c @ s) = c @ squeeze s"
  by (induction c) (auto simp: squeeze.simps(2) DIRECTORY_SYMBOL_def)

lemma dotdot_component: "slashfree c \<Longrightarrow> dotdot stack (c @ s) = dotdot (rev c @ stack) s"
proof (induction c arbitrary: stack)
  case (Cons x c)
  then have "take 4 (x # c @ s) \<noteq> ''/../''" by (auto simp: DIRECTORY_SYMBOL_def)
  with Cons dotdot_push [of "x # c @ s" stack] show ?case by simp
qed simp

lemma pop_component: "slashfree c \<Longrightarrow> pop_directory (rev c @ DIRECTORY_SYMBOL # st) = st"
  "slashfree c \<Longrightarrow> pop_directory (rev c) = []"
proof -
  assume c: "slashfree c"
  show "pop_directory (rev c @ DIRECTORY_SYMBOL # st) = st"
    using c by (simp add: pop_directory_def dropWhile_append)
  have "dropWhile (\<lambda>c. c \<noteq> DIRECTORY_SYMBOL) (rev c) = []" using c by (auto simp: dropWhile_eq_Nil_conv)
  then show "pop_directory (rev c) = []" by (simp only: pop_directory_def drop_Nil)
qed

fun stack_text :: "string list \<Rightarrow> string" where
  "stack_text [] = []"
| "stack_text [c] = rev c"
| "stack_text (c # c' # st) = rev c @ DIRECTORY_SYMBOL # stack_text (c' # st)"

lemma stack_text_push: "st \<noteq> [] \<Longrightarrow> stack_text (d # st) = rev d @ DIRECTORY_SYMBOL # stack_text st"
  by (cases st) auto

lemma path_of_snoc: "xs \<noteq> [] \<Longrightarrow> path_of (xs @ [c]) = path_of xs @ DIRECTORY_SYMBOL # c"
  by (cases xs) (auto simp: path_of_def path_tail_def)

lemma stack_text_path: "st \<noteq> [] \<Longrightarrow> rev (stack_text st) = path_of (rev st)"
  by (induction st rule: stack_text.induct) (simp_all add: path_of_def [of "[_]"] path_of_snoc [of "rev _ @ [_]", simplified])

lemma pop_parent:
  "st \<noteq> [] \<Longrightarrow> list_all slashfree st \<Longrightarrow> pop_directory (stack_text st) = stack_text (parent st)"
  by (cases st rule: parent.cases) (simp_all add: pop_component)

lemma squeeze_last: "slashfree d \<Longrightarrow> squeeze (DIRECTORY_SYMBOL # d) = DIRECTORY_SYMBOL # d"
  using squeeze_component [of d "[]"]
  by (cases d; cases "tl d") (auto simp: squeeze.simps(2) DIRECTORY_SYMBOL_def numeral_2_eq_2 numeral_3_eq_3)

lemma squeeze_middle:
  assumes "slashfree d"
  shows "squeeze (DIRECTORY_SYMBOL # d @ DIRECTORY_SYMBOL # s) =
         (if d = [] \<or> d = ''.'' then squeeze (DIRECTORY_SYMBOL # s)
          else DIRECTORY_SYMBOL # d @ squeeze (DIRECTORY_SYMBOL # s))"
proof -
  let ?s = "DIRECTORY_SYMBOL # d @ DIRECTORY_SYMBOL # s"
  have two: "take 2 ?s = ''//'' \<longleftrightarrow> d = []"
    using assms by (cases d) (auto simp: DIRECTORY_SYMBOL_def numeral_2_eq_2)
  have three: "take 3 ?s = ''/./'' \<longleftrightarrow> d = ''.''"
    using assms by (cases d; cases "tl d") (auto simp: DIRECTORY_SYMBOL_def numeral_2_eq_2 numeral_3_eq_3)
  have "squeeze ?s = (if d = [] then squeeze (d @ DIRECTORY_SYMBOL # s)
      else if d = ''.'' then squeeze (tl (d @ DIRECTORY_SYMBOL # s)) else DIRECTORY_SYMBOL # squeeze (d @ DIRECTORY_SYMBOL # s))"
    by (simp only: squeeze.simps(2) two three)
  with squeeze_component [OF assms, of "DIRECTORY_SYMBOL # s"] show ?thesis by simp
qed

lemma squeeze_tail:
  assumes "list_all slashfree (d # e # ds)"
  shows "squeeze (path_tail (d # e # ds)) =
         (if d = [] \<or> d = ''.'' then squeeze (path_tail (e # ds))
          else DIRECTORY_SYMBOL # d @ squeeze (path_tail (e # ds)))"
  using assms squeeze_middle [of d "e @ path_tail ds"] by simp

lemma squeeze_starts:
  "list_all slashfree (e # ds) \<Longrightarrow> \<exists>r. squeeze (path_tail (e # ds)) = DIRECTORY_SYMBOL # r"
proof (induction ds arbitrary: e)
  case Nil
  then show ?case by (simp add: squeeze_last)
next
  case (Cons d ds)
  then show ?case using squeeze_tail [of e d ds] by (auto simp del: path_tail_simps)
qed

lemma dotdot_middle:
  assumes "slashfree d"
  shows "dotdot st (DIRECTORY_SYMBOL # d @ DIRECTORY_SYMBOL # r) =
         (if d = ''..'' then dotdot (pop_directory st) (DIRECTORY_SYMBOL # r)
          else dotdot (rev d @ DIRECTORY_SYMBOL # st) (DIRECTORY_SYMBOL # r))"
proof -
  let ?s = "DIRECTORY_SYMBOL # d @ DIRECTORY_SYMBOL # r"
  have four: "take 4 ?s = ''/../'' \<longleftrightarrow> d = ''..''"
    using assms by (cases d; cases "tl d"; cases "tl (tl d)") (auto simp: DIRECTORY_SYMBOL_def eval_nat_numeral)
  show ?thesis
  proof (cases "d = ''..''")
    case True
    then show ?thesis using dotdot_pop [of ?s st] four by (simp add: DIRECTORY_SYMBOL_def)
  next
    case False
    with four have "dotdot st ?s = dotdot (DIRECTORY_SYMBOL # st) (d @ DIRECTORY_SYMBOL # r)"
      using dotdot_push [of ?s st] by (simp only: list.sel simp_thms) simp
    with False show ?thesis by (simp add: dotdot_component [OF assms])
  qed
qed

lemma dotdot_last: "slashfree d \<Longrightarrow> dotdot st (DIRECTORY_SYMBOL # d) = rev d @ DIRECTORY_SYMBOL # st"
proof -
  assume d: "slashfree d"
  then have "take 4 (DIRECTORY_SYMBOL # d) \<noteq> ''/../''"
    by (cases d; cases "tl d"; cases "tl (tl d)") (auto simp: DIRECTORY_SYMBOL_def eval_nat_numeral)
  with dotdot_component [OF d, of "DIRECTORY_SYMBOL # st" "[]"] dotdot_push [of "DIRECTORY_SYMBOL # d" st]
  show ?thesis by simp
qed

lemma parent_ok: "st \<noteq> [] \<Longrightarrow> list_all slashfree st \<Longrightarrow> parent st \<noteq> [] \<and> list_all slashfree (parent st)"
  by (cases st rule: parent.cases) auto

lemma resolve_correct:
  assumes "st \<noteq> []" "list_all slashfree st" "list_all slashfree ds"
  shows "dotdot (stack_text st) (squeeze (path_tail ds)) = stack_text (resolve st ds) \<and> resolve st ds \<noteq> []"
  using assms
proof (induction st ds rule: resolve.induct)
  case (1 st)
  then show ?case by simp
next
  case (2 st d)
  then show ?case by (simp add: squeeze_last dotdot_last stack_text_push)
next
  case (3 st d e ds)
  from squeeze_starts [of e ds] "3.prems" obtain r where
    r: "squeeze (path_tail (e # ds)) = DIRECTORY_SYMBOL # r" by auto
  have "slashfree d" using "3.prems" by simp
  note mid = dotdot_middle [OF this, of "stack_text st" r]
  show ?case
    using 3 mid squeeze_tail [of d e ds]
    by (auto simp: r pop_parent parent_ok stack_text_push simp del: path_tail_simps)
qed

text \<open>Every text is the path of its components.\<close>

fun components :: "string \<Rightarrow> string list" where
  "components [] = [[]]"
| "components (c # s) =
     (if c = DIRECTORY_SYMBOL then [] # components s
      else (case components s of [] \<Rightarrow> [[c]] | d # ds \<Rightarrow> (c # d) # ds))"

lemma components_path: "path_of (components s) = s \<and> components s \<noteq> [] \<and> list_all slashfree (components s)"
  by (induction s) (auto simp: path_of_def split: list.splits)


text \<open>The directories of a search path.\<close>

fun path_dirs :: "string \<Rightarrow> string list" where
  "path_dirs dirs =
     (if dirs = [] then [] else (case loader_get_next_path dirs of (dir, next_dir) \<Rightarrow> dir # path_dirs next_dir))"

declare path_dirs.simps [simp del]

lemma search_dirs_find:
  "search_dirs E f sz dirs =
     find E (map (\<lambda>dir. snprintf sz (dir @ DIRECTORY_SYMBOL # f)) (takeWhile (\<lambda>dir. dir \<noteq> []) (path_dirs dirs)))"
proof (induction E f sz dirs rule: search_dirs.induct)
  case (1 E f sz dirs)
  obtain dir nx where d: "loader_get_next_path dirs = (dir, nx)" by (cases "loader_get_next_path dirs")
  note unfold = search_dirs.simps [of E f sz dirs] path_dirs.simps [of dirs]
  show ?case
    unfolding unfold using "1.IH" [OF _ d [symmetric] _ refl] by (simp add: d Let_def)
qed

lemma last_directory_symbol_correct:
  "last_directory_symbol s i l f = (l', f') \<Longrightarrow>
     (if DIRECTORY_SYMBOL \<in> set s
      then f' \<and> (\<exists>u v. s = u @ DIRECTORY_SYMBOL # v \<and> DIRECTORY_SYMBOL \<notin> set v \<and> l' = i + length u + 1)
      else f' = f \<and> l' = l)"
proof (induction s arbitrary: i l f)
  case (Cons c s)
  show ?case
  proof (cases "DIRECTORY_SYMBOL \<in> set s")
    case True
    from Cons.prems obtain l2 f2 where "last_directory_symbol s (i + 1) l2 f2 = (l', f')" by (auto split: if_splits)
    from Cons.IH [OF this] True obtain u v where "f'" "s = u @ DIRECTORY_SYMBOL # v" "DIRECTORY_SYMBOL \<notin> set v"
      "l' = i + 1 + length u + 1" by auto
    then have "f' \<and> (\<exists>u v. c # s = u @ DIRECTORY_SYMBOL # v \<and> DIRECTORY_SYMBOL \<notin> set v \<and> l' = i + length u + 1)"
      by (intro conjI exI [of _ "c # u"] exI [of _ v]) auto
    with True show ?thesis by simp
  next
    case False
    show ?thesis
    proof (cases "c = DIRECTORY_SYMBOL")
      case True
      with False Cons.prems Cons.IH [of "i + 1" "i + 1" True] show ?thesis
        by (auto intro!: exI [of _ "[]"])
    next
      case no: False
      with False Cons.prems Cons.IH [of "i + 1" l f] show ?thesis by auto
    qed
  qed
qed simp

section \<open>Properties\<close>

text \<open>C30: the in-place normalisation of a path (the build without \<^verbatim>\<open>realpath\<close>) never leaves its
  buffers and computes the component-wise resolution of the path: in the middle of the path empty
  and \<^verbatim>\<open>.\<close> components are dropped and \<^verbatim>\<open>..\<close> removes the component before it.\<close>

theorem normalize_path_fallback_resolves:
  "normalize_path_fallback path =
     Some (path_of (rev (resolve [hd (components path)] (tl (components path)))))"
proof -
  obtain c cs where comp: "components path = c # cs" using components_path [of path] by (cases "components path") auto
  with components_path [of path] have path: "path = c @ path_tail cs" and sf: "slashfree c" "list_all slashfree cs"
    by (auto simp: path_of_def)
  have "dotdot [] (squeeze path) = dotdot (stack_text [c]) (squeeze (path_tail cs))"
    unfolding path squeeze_component [OF sf(1)] by (simp add: dotdot_component [OF sf(1)])
  also have "\<dots> = stack_text (resolve [c] cs)" using resolve_correct [of "[c]" cs] sf by simp
  finally show ?thesis
    using resolve_correct [of "[c]" cs] sf stack_text_path [of "resolve [c] cs"]
    by (simp add: normalize_path_fallback_functional comp)
qed

text \<open>a relative path whose first component is cancelled becomes an absolute path: for every
  directory name, \<^verbatim>\<open>name/../rest\<close> is normalised to \<^verbatim>\<open>/rest\<close>.\<close>

theorem normalize_relative_becomes_absolute:
  assumes "DIRECTORY_SYMBOL \<notin> set name" and "DIRECTORY_SYMBOL \<notin> set rest"
  shows "normalize_path_fallback (name @ ''/../'' @ rest) = Some (CHR ''/'' # rest)"
proof -
  have "dotdot [] (squeeze (name @ ''/../'' @ rest)) = dotdot (stack_text [name]) (squeeze (path_tail [''..'', rest]))"
    using assms squeeze_component [of name "''/../'' @ rest"] dotdot_component [of name]
    by (simp add: DIRECTORY_SYMBOL_def)
  also have "\<dots> = rev rest @ ''/''"
    using resolve_correct [of "[name]" "[''..'', rest]"] assms by (simp add: DIRECTORY_SYMBOL_def)
  finally show ?thesis by (simp add: normalize_path_fallback_functional)
qed

theorem normalize_relative_becomes_absolute_witness:
  "DIRECTORY_SYMBOL \<notin> set ''a'' \<and> DIRECTORY_SYMBOL \<notin> set ''lib.so'' \<and>
   normalize_path_fallback ''a/../lib.so'' = Some ''/lib.so''"
  using normalize_relative_becomes_absolute [of "''a''" "''lib.so''"] by (simp add: DIRECTORY_SYMBOL_def)


text \<open>the search of a bare file name tries the directories of the list in order up to the first
  empty one, and returns the first candidate that exists, or the name itself; a name that is a
  path is never searched.  The result always fits the buffer.\<close>

theorem loader_get_fullpath_first_existing:
  "loader_get_fullpath file_exists fname in_dirs out_size =
     (if DIRECTORY_SYMBOL \<in> set fname then take (out_size - 1) fname
      else case find file_exists
                  (map (\<lambda>dir. take (out_size - 1) (dir @ DIRECTORY_SYMBOL # fname))
                       (takeWhile (\<lambda>dir. dir \<noteq> []) (path_dirs in_dirs))) of
             Some p \<Rightarrow> p | None \<Rightarrow> take (out_size - 1) fname)"
  by (auto simp: loader_get_fullpath_def loader_platform_is_path_def search_dirs_find snprintf_def path_dirs.simps
      split: option.splits)

text \<open>the library path of a manifest is built without leaving the allocated buffer; absolute
  and bare names are passed through, a relative path is put after the directory of the manifest.
  Ownership of the given string passes on: on success exactly one string is live for it, on
  failure none.\<close>

theorem combine_path_contract:
  "\<exists>r out h'. combine_manifest_directory_and_library_path a lib manifest h = Some (r, out, h') \<and>
     (if loader_platform_is_path lib \<and> \<not> loader_platform_is_path_absolute lib
      then r = VK_ERROR_OUT_OF_HOST_MEMORY \<and> out = None \<and> live h' = live h - 1 \<or>
           r = VK_SUCCESS \<and> live h' = live h \<and>
           (if loader_platform_is_path manifest
            then \<exists>dir base. manifest = dir @ DIRECTORY_SYMBOL # base \<and> DIRECTORY_SYMBOL \<notin> set base \<and>
                   out = Some (dir @ DIRECTORY_SYMBOL # lib)
            else out = Some lib)
      else r = VK_SUCCESS \<and> live h' = live h \<and> out = Some lib)"
proof (cases "loader_platform_is_path_absolute lib \<or> \<not> loader_platform_is_path lib")
  case True
  then show ?thesis by (auto simp: combine_manifest_directory_and_library_path_def loader_platform_is_path_def)
next
  case False
  obtain l f where lf: "last_directory_symbol manifest 0 0 False = (l, f)" by (cases "last_directory_symbol manifest 0 0 False")
  note spec = last_directory_symbol_correct [OF lf]
  show ?thesis
  proof (cases "succeeds h")
    case no: False
    with False show ?thesis
      by (auto simp: combine_manifest_directory_and_library_path_def loader_platform_is_path_def)
  next
    case ok: True
    show ?thesis
    proof (cases "DIRECTORY_SYMBOL \<in> set manifest")
      case None: False
      with spec False ok lf show ?thesis
        by (auto simp: combine_manifest_directory_and_library_path_def loader_platform_is_path_def strncpy_def)
    next
      case dir: True
      with spec obtain u v where f and m: "manifest = u @ DIRECTORY_SYMBOL # v" "DIRECTORY_SYMBOL \<notin> set v" "l = length u + 1"
        by auto
      with False ok lf dir show ?thesis
        by (auto simp: combine_manifest_directory_and_library_path_def loader_platform_is_path_def strncpy_def)
    qed
  qed
qed


text \<open>after a library is loaded its recorded name becomes the resolved name the operating
  system reports, and otherwise the resolved given name (a bare name is left as it is); on every
  path exactly one block holds the name, also when memory runs out half way.\<close>

theorem fixup_library_path_contract:
  "\<exists>r name h'. fixup_library_binary_path realpath a dli_fname lib_name h = (r, name, h') \<and> live h' = live h \<and>
     (r = VK_ERROR_OUT_OF_HOST_MEMORY \<or>
      r = VK_SUCCESS \<and>
        name = (case dli_fname of
                  Some f \<Rightarrow> (case realpath f of Some p \<Rightarrow> p | None \<Rightarrow> f)
                | None \<Rightarrow> (if DIRECTORY_SYMBOL \<in> set lib_name
                           then (case realpath lib_name of Some p \<Rightarrow> p | None \<Rightarrow> lib_name) else lib_name)))"
  by (simp add: fixup_library_binary_path_def normalize_path_def get_library_path_of_dl_handle_def
      loader_copy_to_new_str_def strncpy_def Let_def split: option.split)

end
