(* ===== verification/Version.thy ===== *)
theory Version
  imports Prelude "HOL-Library.Word" "HOL-Library.Product_Lexorder"
begin

text \<open>
  Version numbers: the packed 32-bit form of the Vulkan headers, the struct
  \<^verbatim>\<open>loader_api_version\<close> of \<^verbatim>\<open>loader_common.h\<close> and the functions of \<^verbatim>\<open>loader.c\<close> that build,
  compare and parse versions.  Packed versions are \<open>32 word\<close>s and the fields \<open>16 word\<close>s, as in
  the code.
\<close>

unbundle bit_operations_syntax

section \<open>The macros of the Vulkan headers\<close>

definition VK_MAKE_API_VERSION :: "32 word \<Rightarrow> 32 word \<Rightarrow> 32 word \<Rightarrow> 32 word \<Rightarrow> 32 word" where
  "VK_MAKE_API_VERSION variant major minor patch =
     push_bit 29 variant OR push_bit 22 major OR push_bit 12 minor OR patch"

definition VK_API_VERSION_VARIANT :: "32 word \<Rightarrow> 32 word" where
  "VK_API_VERSION_VARIANT version = drop_bit 29 version"

definition VK_API_VERSION_MAJOR :: "32 word \<Rightarrow> 32 word" where
  "VK_API_VERSION_MAJOR version = drop_bit 22 version AND 0x7F"

definition VK_API_VERSION_MINOR :: "32 word \<Rightarrow> 32 word" where
  "VK_API_VERSION_MINOR version = drop_bit 12 version AND 0x3FF"

definition VK_API_VERSION_PATCH :: "32 word \<Rightarrow> 32 word" where
  "VK_API_VERSION_PATCH version = version AND 0xFFF"

section \<open>\<^verbatim>\<open>loader_api_version\<close>\<close>

record loader_api_version =
  v_major :: "16 word"
  v_minor :: "16 word"
  v_patch :: "16 word"

definition loader_make_version :: "32 word \<Rightarrow> loader_api_version" where
  "loader_make_version version =
     \<lparr>v_major = ucast (VK_API_VERSION_MAJOR version), v_minor = ucast (VK_API_VERSION_MINOR version), v_patch = 0\<rparr>"

definition loader_make_full_version :: "32 word \<Rightarrow> loader_api_version" where
  "loader_make_full_version version =
     \<lparr>v_major = ucast (VK_API_VERSION_MAJOR version), v_minor = ucast (VK_API_VERSION_MINOR version),
      v_patch = ucast (VK_API_VERSION_PATCH version)\<rparr>"

definition loader_combine_version :: "32 word \<Rightarrow> 32 word \<Rightarrow> 32 word \<Rightarrow> loader_api_version" where
  "loader_combine_version major minor patch = \<lparr>v_major = ucast major, v_minor = ucast minor, v_patch = ucast patch\<rparr>"

definition loader_check_version_meets_required :: "loader_api_version \<Rightarrow> loader_api_version \<Rightarrow> bool" where
  "loader_check_version_meets_required required version =
     (v_major version > v_major required \<or>
      v_major version = v_major required \<and> v_minor version > v_minor required \<or>
      v_major version = v_major required \<and> v_minor version = v_minor required \<and> v_patch version \<ge> v_patch required)"

section \<open>Parsing version strings\<close>

text \<open>
  \<^verbatim>\<open>atoi\<close> of the C library: \<^verbatim>\<open>strtol\<close> in base ten, which skips white space, reads an optional
  sign and saturates at the range of \<^verbatim>\<open>long\<close>, and a conversion to the 32-bit \<^verbatim>\<open>int\<close>.
\<close>

definition strtol10 :: "string \<Rightarrow> int" where
  "strtol10 s =
     (let s1 = dropWhile isspace s;
          (neg, s2) = (if take 1 s1 = ''-'' then (True, drop 1 s1)
                       else if take 1 s1 = ''+'' then (False, drop 1 s1) else (False, s1));
          n = int (fst (read_digits 10 0 s2))
      in if neg then max (- n) (- (2 ^ 63)) else min n (2 ^ 63 - 1))"

definition atoi :: "string \<Rightarrow> 32 word" where
  "atoi s = word_of_int (strtol10 s)"

definition uint16 :: "32 word \<Rightarrow> 32 word" where
  "uint16 w = ucast (ucast w :: 16 word)"

definition version_delimiters :: "char list" where
  "version_delimiters = [CHR ''.'', CHR 0x22, CHR 0x0A, CHR 0x0D]"

definition loader_parse_version_string :: "string option \<Rightarrow> 32 word" where
  "loader_parse_version_string vers_str =
     (case vers_str of
        None \<Rightarrow> 0
      | Some s \<Rightarrow>
          (case strtok_r version_delimiters s of
             None \<Rightarrow> VK_MAKE_API_VERSION 0 0 0 0
           | Some (t1, s1) \<Rightarrow>
               let major = uint16 (atoi t1) in
               (case strtok_r version_delimiters s1 of
                  None \<Rightarrow> VK_MAKE_API_VERSION 0 major 0 0
                | Some (t2, s2) \<Rightarrow>
                    let minor = uint16 (atoi t2) in
                    (case strtok_r version_delimiters s2 of
                       None \<Rightarrow> VK_MAKE_API_VERSION 0 major minor 0
                     | Some (t3, s3) \<Rightarrow>
                         let patch = uint16 (atoi t3) in
                         (case strtok_r version_delimiters s3 of
                            None \<Rightarrow> VK_MAKE_API_VERSION 0 major minor patch
                          | Some (t4, _) \<Rightarrow> VK_MAKE_API_VERSION major minor patch (uint16 (atoi t4)))))))"

section \<open>Decimal numerals\<close>

text \<open>Specification of the text form: decimal numerals joined by dots.\<close>

fun dec :: "nat \<Rightarrow> string" where
  "dec n = (if n < 10 then [char_of (48 + n)] else dec (n div 10) @ [char_of (48 + n mod 10)])"

declare dec.simps [simp del]

definition is_dec :: "string \<Rightarrow> bool" where
  "is_dec s = (s \<noteq> [] \<and> list_all isdigit s)"

lemma digit_char: "d < 10 \<Longrightarrow> isdigit (char_of (48 + d))" "d < 10 \<Longrightarrow> digit_val (char_of (48 + d)) = Some d"
  by (simp_all add: isdigit_def digit_val_def)

lemma is_dec_dec: "is_dec (dec n)"
proof (induction n rule: dec.induct)
  case (1 n)
  then show ?case by (subst dec.simps) (auto simp: is_dec_def digit_char)
qed

lemma read_digits_append:
  assumes "list_all (\<lambda>c. \<exists>d. digit_val c = Some d \<and> d < base) s"
  shows "read_digits base acc (s @ t) = read_digits base (fst (read_digits base acc s)) t"
  using assms by (induction s arbitrary: acc) auto

lemma isdigit_digit_val: "isdigit c \<Longrightarrow> \<exists>d. digit_val c = Some d \<and> d < 10"
  by (auto simp: isdigit_def digit_val_def Let_def)

lemma read_digits_dec: "read_digits 10 0 (dec n) = (n, [])"
proof (induction n rule: dec.induct)
  case (1 n)
  show ?case
  proof (cases "n < 10")
    case True
    then show ?thesis by (subst dec.simps) (simp add: digit_char)
  next
    case False
    have all: "list_all (\<lambda>c. \<exists>d. digit_val c = Some d \<and> d < 10) (dec (n div 10))"
      using is_dec_dec [of "n div 10"] by (auto simp: is_dec_def list_all_iff isdigit_digit_val)
    have step: "dec n = dec (n div 10) @ [char_of (48 + n mod 10)]"
      using False by (subst dec.simps) simp
    have last: "digit_val (char_of (48 + n mod 10)) = Some (n mod 10)"
      by (rule digit_char) simp
    show ?thesis
      using "1.IH" [OF False] by (simp add: step read_digits_append [OF all] last)
  qed
qed

lemma isdigit_not_special: "isdigit c \<Longrightarrow> \<not> isspace c \<and> c \<noteq> CHR ''-'' \<and> c \<noteq> CHR ''+'' \<and> c \<notin> set version_delimiters"
  by (auto simp: isdigit_def isspace_def version_delimiters_def Let_def)

lemma strtol10_dec: "int n < 2 ^ 63 \<Longrightarrow> strtol10 (dec n) = int n"
proof -
  assume n: "int n < 2 ^ 63"
  obtain c cs where s: "dec n = c # cs" using is_dec_dec [of n] by (cases "dec n") (auto simp: is_dec_def)
  have c: "isdigit c" using is_dec_dec [of n] by (simp add: is_dec_def s)
  have "strtol10 (c # cs) = int n"
    using isdigit_not_special [OF c] n read_digits_dec [of n]
    by (simp add: strtol10_def s)
  then show ?thesis by (simp add: s)
qed


text \<open>A run of digits, then a delimiter or the end, is one token.\<close>

lemma strtok_r_digits_end:
  assumes "is_dec s"
  shows "strtok_r version_delimiters s = Some (s, [])"
proof -
  have *: "\<forall>c\<in>set s. c \<notin> set version_delimiters"
    using assms isdigit_not_special by (auto simp: is_dec_def list_all_iff)
  then have start: "dropWhile (\<lambda>c. c \<in> set version_delimiters) s = s"
    using assms by (cases s) (auto simp: is_dec_def)
  have whole: "dropWhile (\<lambda>c. c \<notin> set version_delimiters) s = []" "takeWhile (\<lambda>c. c \<notin> set version_delimiters) s = s"
    using * by (simp_all add: dropWhile_eq_Nil_conv takeWhile_eq_all_conv)
  show ?thesis using assms by (simp add: strtok_r_def is_dec_def start whole)
qed

lemma strtok_r_Nil [simp]: "strtok_r d [] = None"
  by (simp add: strtok_r_def)

lemma strtok_r_digits_dot:
  assumes "is_dec s"
  shows "strtok_r version_delimiters (s @ CHR ''.'' # t) = Some (s, t)"
proof -
  have *: "\<forall>c\<in>set s. c \<notin> set version_delimiters"
    using assms isdigit_not_special by (auto simp: is_dec_def list_all_iff)
  have dot: "CHR ''.'' \<in> set version_delimiters" by (simp add: version_delimiters_def)
  from * have "dropWhile (\<lambda>c. c \<in> set version_delimiters) (s @ CHR ''.'' # t) = s @ CHR ''.'' # t"
    using assms by (cases s) (auto simp: is_dec_def)
  with * dot assms show ?thesis
    by (simp add: strtok_r_def is_dec_def Let_def takeWhile_append dropWhile_append)
qed

lemma atoi_dec: "n < 2 ^ 16 \<Longrightarrow> uint16 (atoi (dec n)) = of_nat n"
proof -
  assume n: "n < 2 ^ 16"
  then have "strtol10 (dec n) = int n" by (intro strtol10_dec) simp
  then have "atoi (dec n) = of_nat n" by (simp add: atoi_def)
  moreover have "unat (of_nat n :: 32 word) = n" using n by (simp add: unat_of_nat take_bit_nat_eq_self)
  ultimately show ?thesis
    using n by (simp add: uint16_def unsigned_ucast_eq word_eq_iff_unsigned unsigned_of_nat take_bit_nat_eq_self)
qed

lemma parse_three:
  assumes "maj < 2 ^ 16" "mi < 2 ^ 16" "pa < 2 ^ 16"
  shows "loader_parse_version_string (Some (dec maj @ ''.'' @ dec mi @ ''.'' @ dec pa)) =
         VK_MAKE_API_VERSION 0 (of_nat maj) (of_nat mi) (of_nat pa)"
  using assms
  by (simp add: loader_parse_version_string_def strtok_r_digits_dot strtok_r_digits_end is_dec_dec atoi_dec Let_def)

lemma parse_four:
  assumes "va < 2 ^ 16" "maj < 2 ^ 16" "mi < 2 ^ 16" "pa < 2 ^ 16"
  shows "loader_parse_version_string (Some (dec va @ ''.'' @ dec maj @ ''.'' @ dec mi @ ''.'' @ dec pa)) =
         VK_MAKE_API_VERSION (of_nat va) (of_nat maj) (of_nat mi) (of_nat pa)"
  using assms
  by (simp add: loader_parse_version_string_def strtok_r_digits_dot strtok_r_digits_end is_dec_dec atoi_dec Let_def)


section \<open>Packing and unpacking\<close>

lemma field_masks: "(0x7F :: 32 word) = mask 7" "(0x3FF :: 32 word) = mask 10" "(0xFFF :: 32 word) = mask 12"
  by (simp_all add: mask_eq_exp_minus_1)

lemma fields_as_take_bit:
  "VK_API_VERSION_MAJOR v = take_bit 7 (drop_bit 22 v)"
  "VK_API_VERSION_MINOR v = take_bit 10 (drop_bit 12 v)"
  "VK_API_VERSION_PATCH v = take_bit 12 v"
  by (simp_all add: VK_API_VERSION_MAJOR_def VK_API_VERSION_MINOR_def VK_API_VERSION_PATCH_def field_masks take_bit_eq_mask)

lemma pack_fields:
  "VK_API_VERSION_VARIANT (VK_MAKE_API_VERSION (take_bit 3 a) (take_bit 7 b) (take_bit 10 c) (take_bit 12 d)) = take_bit 3 a"
  "VK_API_VERSION_MAJOR (VK_MAKE_API_VERSION a (take_bit 7 b) (take_bit 10 c) (take_bit 12 d)) = take_bit 7 b"
  "VK_API_VERSION_MINOR (VK_MAKE_API_VERSION a b (take_bit 10 c) (take_bit 12 d)) = take_bit 10 c"
  "VK_API_VERSION_PATCH (VK_MAKE_API_VERSION a b c (take_bit 12 d)) = take_bit 12 d"
  by (rule bit_word_eqI, auto simp: fields_as_take_bit VK_API_VERSION_VARIANT_def VK_MAKE_API_VERSION_def bit_simps)+

lemma take_bit_of_nat: "n < 2 ^ k \<Longrightarrow> take_bit k (of_nat n :: 32 word) = of_nat n"
  by (simp add: take_bit_of_nat take_bit_nat_eq_self)


lemma ucast_field: "n < 2 ^ 16 \<Longrightarrow> (ucast (of_nat n :: 32 word) :: 16 word) = of_nat n"
  by (simp add: unsigned_of_nat word_eq_iff_unsigned unsigned_ucast_eq take_bit_nat_eq_self)

lemma pack_nat_fields:
  assumes "va < 8" "maj < 128" "mi < 1024" "pa < 4096"
  shows "VK_API_VERSION_VARIANT (VK_MAKE_API_VERSION (of_nat va) (of_nat maj) (of_nat mi) (of_nat pa)) = of_nat va"
    and "loader_make_full_version (VK_MAKE_API_VERSION (of_nat va) (of_nat maj) (of_nat mi) (of_nat pa)) =
           \<lparr>v_major = of_nat maj, v_minor = of_nat mi, v_patch = of_nat pa\<rparr>"
proof -
  have t: "take_bit 3 (of_nat va :: 32 word) = of_nat va" "take_bit 7 (of_nat maj :: 32 word) = of_nat maj"
    "take_bit 10 (of_nat mi :: 32 word) = of_nat mi" "take_bit 12 (of_nat pa :: 32 word) = of_nat pa"
    using assms by (simp_all add: take_bit_of_nat)
  note p = pack_fields [of "of_nat va" "of_nat maj" "of_nat mi" "of_nat pa", unfolded t]
  show "VK_API_VERSION_VARIANT (VK_MAKE_API_VERSION (of_nat va) (of_nat maj) (of_nat mi) (of_nat pa)) = of_nat va"
    by (rule p)
  show "loader_make_full_version (VK_MAKE_API_VERSION (of_nat va) (of_nat maj) (of_nat mi) (of_nat pa)) =
           \<lparr>v_major = of_nat maj, v_minor = of_nat mi, v_patch = of_nat pa\<rparr>"
    using assms pack_fields(2) [of "of_nat va" "of_nat maj" "of_nat mi" "of_nat pa"]
      pack_fields(3) [of "of_nat va" "of_nat maj" "of_nat mi" "of_nat pa"]
      pack_fields(4) [of "of_nat va" "of_nat maj" "of_nat mi" "of_nat pa"]
    by (simp add: t loader_make_full_version_def ucast_field)
qed

section \<open>Order\<close>

text \<open>The number a packed version stands for once the variant is ignored.\<close>

lemma unat_mod_full: "unat (v :: 32 word) mod 4294967296 = unat v"
proof -
  have "unat v < 2 ^ LENGTH(32)" by (rule unsigned_less)
  then show ?thesis by simp
qed

lemma unat_fields:
  "unat (VK_API_VERSION_MAJOR v) = unat v div 4194304 mod 128"
  "unat (VK_API_VERSION_MINOR v) = unat v div 4096 mod 1024"
  "unat (VK_API_VERSION_PATCH v) = unat v mod 4096"
  "unat (take_bit 29 (v :: 32 word)) = unat v mod 536870912"
  unfolding fields_as_take_bit unsigned_take_bit_eq unsigned_drop_bit_eq
  by (simp_all add: take_bit_eq_mod drop_bit_eq_div unat_mod_full)

lemma version_digits:
  fixes v :: "32 word"
  shows "unat (take_bit 29 v) =
         unat (VK_API_VERSION_MAJOR v) * 2 ^ 22 + (unat (VK_API_VERSION_MINOR v) * 2 ^ 12 + unat (VK_API_VERSION_PATCH v))"
proof -
  have "unat v mod 536870912 =
     (unat v div 4194304 mod 128) * 4194304 + ((unat v div 4096 mod 1024) * 4096 + unat v mod 4096)"
    using mod_mult2_eq [of "unat v" 4194304 128] mod_mult2_eq [of "unat v" 4096 1024] by simp
  then show ?thesis
    by (simp add: unat_fields)
qed

lemma lex_number:
  fixes a b c a' b' c' :: nat
  assumes "b < 1024" "b' < 1024" "c < 4096" "c' < 4096"
  shows "a * 4194304 + (b * 4096 + c) \<le> a' * 4194304 + (b' * 4096 + c') \<longleftrightarrow>
         a < a' \<or> a = a' \<and> (b < b' \<or> b = b' \<and> c \<le> c')"
  using assms by linarith


lemma field_bounds:
  "unat (VK_API_VERSION_MAJOR v) < 128" "unat (VK_API_VERSION_MINOR v) < 1024" "unat (VK_API_VERSION_PATCH v) < 4096"
  by (simp_all add: unat_fields)

lemma ucast16_unat: "unat (w :: 32 word) < 65536 \<Longrightarrow> unat (ucast w :: 16 word) = unat w"
  by (simp add: unsigned_ucast_eq take_bit_nat_eq_self)

lemma full_version_fields:
  "unat (v_major (loader_make_full_version v)) = unat (VK_API_VERSION_MAJOR v)"
  "unat (v_minor (loader_make_full_version v)) = unat (VK_API_VERSION_MINOR v)"
  "unat (v_patch (loader_make_full_version v)) = unat (VK_API_VERSION_PATCH v)"
  using field_bounds [of v] by (simp_all add: loader_make_full_version_def ucast16_unat)

lemma meets_required_unat:
  "loader_check_version_meets_required r v \<longleftrightarrow>
     unat (v_major r) < unat (v_major v) \<or>
     unat (v_major r) = unat (v_major v) \<and>
       (unat (v_minor r) < unat (v_minor v) \<or>
        unat (v_minor r) = unat (v_minor v) \<and> unat (v_patch r) \<le> unat (v_patch v))"
  by (auto simp: loader_check_version_meets_required_def word_less_nat_alt word_le_nat_alt word_unat_eq_iff)

section \<open>Properties\<close>

text \<open>C29: writing a version as decimal text, three fields or four with the variant first, and
  parsing it with \<^verbatim>\<open>loader_parse_version_string\<close> gives back exactly the fields, as long as they
  fit the packed format (3, 7, 10 and 12 bits).\<close>

theorem version_string_roundtrip:
  assumes "va < 8" "maj < 128" "mi < 1024" "pa < 4096"
  shows "loader_make_full_version
           (loader_parse_version_string (Some (dec maj @ ''.'' @ dec mi @ ''.'' @ dec pa))) =
             \<lparr>v_major = of_nat maj, v_minor = of_nat mi, v_patch = of_nat pa\<rparr> \<and>
         loader_make_full_version
           (loader_parse_version_string (Some (dec va @ ''.'' @ dec maj @ ''.'' @ dec mi @ ''.'' @ dec pa))) =
             \<lparr>v_major = of_nat maj, v_minor = of_nat mi, v_patch = of_nat pa\<rparr> \<and>
         VK_API_VERSION_VARIANT
           (loader_parse_version_string (Some (dec va @ ''.'' @ dec maj @ ''.'' @ dec mi @ ''.'' @ dec pa))) = of_nat va"
proof -
  from assms have small: "va < 2 ^ 16" "maj < 2 ^ 16" "mi < 2 ^ 16" "pa < 2 ^ 16" by simp_all
  show ?thesis
    using pack_nat_fields [of 0 maj mi pa] pack_nat_fields [of va maj mi pa] assms
    by (simp only: parse_three [OF small(2-4)] parse_four [OF small]) simp
qed

theorem version_string_roundtrip_witness:
  "(0::nat) < 8 \<and> (1::nat) < 128 \<and> (3::nat) < 1024 \<and> (296::nat) < 4096 \<and>
   loader_make_full_version (loader_parse_version_string (Some ''1.3.296'')) =
     \<lparr>v_major = 1, v_minor = 3, v_patch = 296\<rparr>"
proof -
  have t: "dec 1 @ ''.'' @ dec 3 @ ''.'' @ dec 296 = ''1.3.296''" by code_simp
  show ?thesis using version_string_roundtrip [of 0 1 3 296] unfolding t by simp
qed

text \<open>C25: the field-by-field version test is the numeric order of the packed versions with the
  variant bits cleared: a total order, lexicographic in major, minor and patch.\<close>

theorem meets_required_is_numeric_order:
  "loader_check_version_meets_required (loader_make_full_version r) (loader_make_full_version v) \<longleftrightarrow>
     take_bit 29 r \<le> take_bit 29 v"
  using lex_number [of "unat (VK_API_VERSION_MINOR r)" "unat (VK_API_VERSION_MINOR v)"
      "unat (VK_API_VERSION_PATCH r)" "unat (VK_API_VERSION_PATCH v)"
      "unat (VK_API_VERSION_MAJOR r)" "unat (VK_API_VERSION_MAJOR v)"] field_bounds [of r] field_bounds [of v]
  by (simp add: meets_required_unat full_version_fields word_le_nat_alt version_digits)

end
