(* ===== verification/LayerList.thy ===== *)
theory LayerList
  imports ExtList Paths Version "HOL-Library.Multiset"
begin

text \<open>
  Layer properties and the lists that hold them (\<^verbatim>\<open>loader_common.h\<close>, \<^verbatim>\<open>loader.c\<close>): the record
  \<^verbatim>\<open>struct loader_layer_properties\<close> with everything it owns, appending, finding, removing and
  freeing, the passes that prune a list (blacklist, implicit meta-layers, duplicates), and lists of
  pointers to layers.  A read of the first \<^verbatim>\<open>count\<close> cells of a list is \<open>gl_view\<close>, which is
  undefined when the array does not have them.
\<close>

datatype loader_settings_layer_control =
    LOADER_SETTINGS_LAYER_CONTROL_DEFAULT
  | LOADER_SETTINGS_LAYER_CONTROL_ON
  | LOADER_SETTINGS_LAYER_CONTROL_OFF
  | LOADER_SETTINGS_LAYER_UNORDERED_LAYER_LOCATION

datatype loader_layer_enabled_by_what =
    ENABLED_BY_WHAT_UNSET
  | ENABLED_BY_WHAT_LOADER_SETTINGS_FILE
  | ENABLED_BY_WHAT_IMPLICIT_LAYER
  | ENABLED_BY_WHAT_VK_INSTANCE_LAYERS
  | ENABLED_BY_WHAT_VK_LOADER_LAYERS_ENABLE
  | ENABLED_BY_WHAT_IN_APPLICATION_API
  | ENABLED_BY_WHAT_META_LAYER

fun get_enabled_by_what_str :: "loader_layer_enabled_by_what \<Rightarrow> string" where
  "get_enabled_by_what_str ENABLED_BY_WHAT_UNSET = ''Unknown''"
| "get_enabled_by_what_str ENABLED_BY_WHAT_LOADER_SETTINGS_FILE = ''Loader Settings File (Vulkan Configurator)''"
| "get_enabled_by_what_str ENABLED_BY_WHAT_IMPLICIT_LAYER = ''Implicit Layer''"
| "get_enabled_by_what_str ENABLED_BY_WHAT_VK_INSTANCE_LAYERS = ''Environment Variable VK_INSTANCE_LAYERS''"
| "get_enabled_by_what_str ENABLED_BY_WHAT_VK_LOADER_LAYERS_ENABLE = ''Environment Variable VK_LOADER_LAYERS_ENABLE''"
| "get_enabled_by_what_str ENABLED_BY_WHAT_IN_APPLICATION_API = ''By the Application''"
| "get_enabled_by_what_str ENABLED_BY_WHAT_META_LAYER = ''Meta Layer (Vulkan Configurator)''"

record VkLayerProperties =
  layerName :: string
  lp_specVersion :: "32 word"
  implementationVersion :: "32 word"
  description :: string

record loader_name_value =
  nv_name :: "string option"
  nv_value :: "string option"

text \<open>The names of the functions a manifest gives; the function pointers themselves are not modelled.\<close>

record loader_layer_functions =
  str_gipa :: "string option"
  str_gdpa :: "string option"
  str_negotiate_interface :: "string option"

record pre_instance_functions =
  enumerate_instance_extension_properties :: "string option"
  enumerate_instance_layer_properties :: "string option"
  enumerate_instance_version :: "string option"

record loader_layer_properties =
  info :: VkLayerProperties
  type_flags :: nat
  settings_control_value :: loader_settings_layer_control
  interface_version :: nat
  manifest_file_name :: "string option"
  lib_name :: "string option"
  lib_status :: loader_layer_library_status
  enabled_by_what :: loader_layer_enabled_by_what
  lib_handle :: "nat option"
  layer_functions :: loader_layer_functions
  instance_extension_list :: loader_extension_list
  device_extension_list :: loader_device_extension_list
  disable_env_var :: loader_name_value
  enable_env_var :: loader_name_value
  component_layer_names :: loader_string_list
  pre_instance :: pre_instance_functions
  override_paths :: loader_string_list
  is_override :: bool
  keep :: bool
  blacklist_layer_names :: loader_string_list
  app_key_paths :: loader_string_list

definition VK_OVERRIDE_LAYER_NAME :: string where "VK_OVERRIDE_LAYER_NAME = ''VK_LAYER_LUNARG_override''"

text \<open>The bits of \<^verbatim>\<open>enum layer_type_flags\<close>.\<close>

definition flag_instance :: "loader_layer_properties \<Rightarrow> bool" where "flag_instance p = bit (type_flags p) 0"
definition flag_explicit :: "loader_layer_properties \<Rightarrow> bool" where "flag_explicit p = bit (type_flags p) 1"
definition flag_meta :: "loader_layer_properties \<Rightarrow> bool" where "flag_meta p = bit (type_flags p) 2"

abbreviation layer_name :: "loader_layer_properties \<Rightarrow> string" where
  "layer_name p \<equiv> layerName (info p)"

text \<open>\<^verbatim>\<open>memset(..., 0, sizeof(struct loader_layer_properties))\<close>.\<close>

definition zero_layer :: loader_layer_properties where
  "zero_layer = \<lparr>info = \<lparr>layerName = [], lp_specVersion = 0, implementationVersion = 0, description = []\<rparr>,
     type_flags = 0, settings_control_value = LOADER_SETTINGS_LAYER_CONTROL_DEFAULT, interface_version = 0,
     manifest_file_name = None, lib_name = None, lib_status = LOADER_LAYER_LIB_NOT_LOADED,
     enabled_by_what = ENABLED_BY_WHAT_UNSET, lib_handle = None,
     layer_functions = \<lparr>str_gipa = None, str_gdpa = None, str_negotiate_interface = None\<rparr>,
     instance_extension_list = empty_generic_list, device_extension_list = empty_generic_list,
     disable_env_var = \<lparr>nv_name = None, nv_value = None\<rparr>, enable_env_var = \<lparr>nv_name = None, nv_value = None\<rparr>,
     component_layer_names = empty_string_list,
     pre_instance = \<lparr>enumerate_instance_extension_properties = None, enumerate_instance_layer_properties = None,
       enumerate_instance_version = None\<rparr>,
     override_paths = empty_string_list, is_override = False, keep = False,
     blacklist_layer_names = empty_string_list, app_key_paths = empty_string_list\<rparr>"

type_synonym loader_layer_list = "loader_layer_properties generic_list"

definition sizeof_loader_layer_properties :: nat where "sizeof_loader_layer_properties = 800"

section \<open>Reading lists\<close>

definition gl_view :: "'a generic_list \<Rightarrow> 'a list option" where
  "gl_view l = (if gl_count l = 0 then Some []
     else (case gl_list l of Buf xs \<Rightarrow> if gl_count l \<le> length xs then Some (take (gl_count l) xs) else None | _ \<Rightarrow> None))"

lemma gl_view_wf [simp]: "wf_generic_list es l \<Longrightarrow> gl_view l = Some (gl_items l)"
  by (auto simp: gl_view_def gl_items_def wf_generic_list_def split: buf.splits)

text \<open>The strings of a string list; a null cell must not be compared.\<close>

definition sl_view :: "loader_string_list \<Rightarrow> string list option" where
  "sl_view sl = (if sl_count sl = 0 then Some []
     else (case sl_list sl of
             Buf xs \<Rightarrow> if sl_count sl \<le> length xs \<and> list_all (\<lambda>c. c \<noteq> None) (take (sl_count sl) xs)
                       then Some (map the (take (sl_count sl) xs)) else None
           | _ \<Rightarrow> None))"

lemma sl_view_wf [simp]: "wf_string_list sl \<Longrightarrow> sl_view sl = Some (sl_strings sl)"
  by (auto simp: sl_view_def sl_strings_def wf_string_list_def split: buf.splits)

section \<open>Freeing layer properties\<close>

text \<open>The entry points of the first \<open>n\<close> device extensions, from \<open>i\<close> on.\<close>

fun free_entrypoints :: "allocator \<Rightarrow> loader_dev_ext_props list \<Rightarrow> heap \<Rightarrow> heap option" where
  "free_entrypoints a [] h = Some h"
| "free_entrypoints a (d # ds) h = do {
     (_, h) \<leftarrow> free_string_list a (de_entrypoints d) h;
     free_entrypoints a ds h
   }"

definition loader_free_layer_properties ::
  "allocator \<Rightarrow> loader_layer_properties \<Rightarrow> heap \<Rightarrow> (loader_layer_properties \<times> heap) option" where
  "loader_free_layer_properties a p h = do {
     let h = free_str a (manifest_file_name p) h;
     let h = free_str a (lib_name p) h;
     let h = free_str a (str_gipa (layer_functions p)) h;
     let h = free_str a (str_gdpa (layer_functions p)) h;
     let h = free_str a (str_negotiate_interface (layer_functions p)) h;
     (_, h) \<leftarrow> loader_destroy_generic_list a (instance_extension_list p) h;
     h \<leftarrow> (if gl_capacity (device_extension_list p) > 0 \<and> gl_list (device_extension_list p) \<noteq> NULL
          then do { ds \<leftarrow> gl_view (device_extension_list p); free_entrypoints a ds h }
          else Some h);
     (_, h) \<leftarrow> loader_destroy_generic_list a (device_extension_list p) h;
     let h = free_str a (nv_name (disable_env_var p)) h;
     let h = free_str a (nv_value (disable_env_var p)) h;
     let h = free_str a (nv_name (enable_env_var p)) h;
     let h = free_str a (nv_value (enable_env_var p)) h;
     (_, h) \<leftarrow> free_string_list a (component_layer_names p) h;
     let h = free_str a (enumerate_instance_extension_properties (pre_instance p)) h;
     let h = free_str a (enumerate_instance_layer_properties (pre_instance p)) h;
     let h = free_str a (enumerate_instance_version (pre_instance p)) h;
     (_, h) \<leftarrow> free_string_list a (override_paths p) h;
     (_, h) \<leftarrow> free_string_list a (blacklist_layer_names p) h;
     (_, h) \<leftarrow> free_string_list a (app_key_paths p) h;
     Some (zero_layer, h)
   }"

section \<open>Layer lists\<close>

text \<open>The appended properties are moved into the list and cleared at the caller; on failure they are freed.\<close>

definition loader_append_layer_property ::
  "allocator \<Rightarrow> loader_layer_list \<Rightarrow> loader_layer_properties \<Rightarrow> heap \<Rightarrow>
     (VkResult \<times> loader_layer_list \<times> loader_layer_properties \<times> heap) option" where
  "loader_append_layer_property a l p h = do {
     let (res, l, h) = (if gl_capacity l = 0 then loader_init_generic_list a sizeof_loader_layer_properties zero_layer l h
                        else (VK_SUCCESS, l, h));
     (res, l, h) \<leftarrow> (if res \<noteq> VK_SUCCESS then Some (res, l, h)
       else store_at_end a sizeof_loader_layer_properties zero_layer zero_layer
              (((gl_count l + 1) mod 2 ^ 32) * sizeof_loader_layer_properties > gl_capacity l) l (\<lambda>_. p) h);
     (if res \<noteq> VK_SUCCESS then do { (p, h) \<leftarrow> loader_free_layer_properties a p h; Some (res, l, p, h) }
      else Some (res, l, zero_layer, h))
   }"

text \<open>\<^verbatim>\<open>loader_find_layer_property\<close>: the pointer into the list is its index.\<close>

fun find_index_from :: "('a \<Rightarrow> bool) \<Rightarrow> nat \<Rightarrow> 'a list \<Rightarrow> nat option" where
  "find_index_from p i [] = None"
| "find_index_from p i (x # xs) = (if p x then Some i else find_index_from p (i + 1) xs)"

definition loader_find_layer_property :: "string \<Rightarrow> loader_layer_list \<Rightarrow> nat option option" where
  "loader_find_layer_property name l = do {
     ps \<leftarrow> gl_view l;
     Some (find_index_from (\<lambda>p. name = layer_name p) 0 ps)
   }"

definition loader_find_layer_name_in_blacklist :: "string \<Rightarrow> loader_layer_properties \<Rightarrow> bool option" where
  "loader_find_layer_name_in_blacklist name meta_layer_props = do {
     names \<leftarrow> sl_view (blacklist_layer_names meta_layer_props);
     Some (list_ex (\<lambda>b. b = name) names)
   }"

text \<open>The memory move of \<open>n\<close> cells down by one, to index \<open>i\<close>.\<close>

fun shift_down :: "'a buf \<Rightarrow> nat \<Rightarrow> nat \<Rightarrow> 'a buf option" where
  "shift_down (Buf xs) i n =
     (if i + 1 + n \<le> length xs then Some (Buf (take i xs @ take n (drop (i + 1) xs) @ drop (i + n) xs)) else None)"
| "shift_down _ i n = None"

definition loader_remove_layer_in_list ::
  "allocator \<Rightarrow> loader_layer_list \<Rightarrow> nat \<Rightarrow> heap \<Rightarrow> (loader_layer_list \<times> heap) option" where
  "loader_remove_layer_in_list a l layer_to_remove h =
     (if layer_to_remove \<ge> gl_count l then Some (l, h)
      else do {
        p \<leftarrow> buf_read (gl_list l) layer_to_remove;
        (p', h) \<leftarrow> loader_free_layer_properties a p h;
        cells \<leftarrow> buf_write (gl_list l) layer_to_remove p';
        cells \<leftarrow> (if layer_to_remove + 1 \<le> gl_count l
                  then shift_down cells layer_to_remove (gl_count l - 1 - layer_to_remove) else Some cells);
        Some (l\<lparr>gl_list := cells, gl_count := gl_count l - 1\<rparr>, h)
      })"

fun free_layers :: "allocator \<Rightarrow> loader_layer_properties list \<Rightarrow> heap \<Rightarrow> heap option" where
  "free_layers a [] h = Some h"
| "free_layers a (p # ps) h = do {
     (_, h) \<leftarrow> loader_free_layer_properties a p h;
     free_layers a ps h
   }"

definition loader_delete_layer_list_and_properties ::
  "allocator \<Rightarrow> loader_layer_list \<Rightarrow> heap \<Rightarrow> (loader_layer_list \<times> heap) option" where
  "loader_delete_layer_list_and_properties a l h = do {
     ps \<leftarrow> gl_view l;
     h \<leftarrow> free_layers a ps h;
     h \<leftarrow> (if gl_capacity l > 0 then loader_free a (gl_list l) h else Some h);
     Some (empty_generic_list, h)
   }"


section \<open>Pruning passes\<close>

lemma remove_layer_count [termination_simp]:
  "loader_remove_layer_in_list a l i h = Some (l', h') \<Longrightarrow> i < gl_count l \<Longrightarrow> gl_count l' = gl_count l - 1"
  by (auto simp: loader_remove_layer_in_list_def bind_eq_Some_conv split: if_splits)

text \<open>
  The loop of \<^verbatim>\<open>loader_remove_layers_in_blacklist\<close>.  \<^verbatim>\<open>override_prop\<close> is an index into the list, looked up
  again after each removal; reading through it when the look-up failed is undefined.
\<close>

function remove_blacklisted ::
  "allocator \<Rightarrow> loader_layer_list \<Rightarrow> nat \<Rightarrow> nat option \<Rightarrow> heap \<Rightarrow> (loader_layer_list \<times> heap) option" where
  "remove_blacklisted a l j override_prop h =
     (if j < gl_count l then
        (case buf_read (gl_list l) j of
           None \<Rightarrow> None
         | Some cur \<Rightarrow>
             if layer_name cur = VK_OVERRIDE_LAYER_NAME then remove_blacklisted a l (j + 1) override_prop h
             else
               (case do { i \<leftarrow> override_prop; ov \<leftarrow> buf_read (gl_list l) i;
                          loader_find_layer_name_in_blacklist (layer_name cur) ov } of
                  None \<Rightarrow> None
                | Some False \<Rightarrow> remove_blacklisted a l (j + 1) override_prop h
                | Some True \<Rightarrow>
                    (case loader_remove_layer_in_list a l j h of
                       None \<Rightarrow> None
                     | Some (l', h') \<Rightarrow>
                         (case loader_find_layer_property VK_OVERRIDE_LAYER_NAME l' of
                            None \<Rightarrow> None
                          | Some override_prop' \<Rightarrow> remove_blacklisted a l' j override_prop' h'))))
      else Some (l, h))"
  by pat_completeness auto
termination
  by (relation "measure (\<lambda>(a, l, j, ov, h). gl_count l - j)") (auto dest!: remove_layer_count)

declare remove_blacklisted.simps [simp del]

definition loader_remove_layers_in_blacklist ::
  "allocator \<Rightarrow> loader_layer_list \<Rightarrow> heap \<Rightarrow> (loader_layer_list \<times> heap) option" where
  "loader_remove_layers_in_blacklist a l h = do {
     override_prop \<leftarrow> loader_find_layer_property VK_OVERRIDE_LAYER_NAME l;
     (if override_prop = None then Some (l, h) else remove_blacklisted a l 0 override_prop h)
   }"

text \<open>
  \<^verbatim>\<open>loader_remove_layers_not_in_implicit_meta_layers\<close>: the flags are computed over the whole list first,
  then unmarked layers are removed.
\<close>

definition component_of_other :: "loader_layer_properties list \<Rightarrow> nat \<Rightarrow> string \<Rightarrow> bool option" where
  "component_of_other ps i name =
     fold (\<lambda>j acc. do {
        found \<leftarrow> acc;
        (if i = j then Some found
         else if flag_meta (ps ! j) then do {
           names \<leftarrow> sl_view (component_layer_names (ps ! j));
           Some (found \<or> list_ex (\<lambda>c. c = name) names)
         }
         else Some found)
      }) [0..<length ps] (Some False)"

fun mark_keep_from :: "loader_layer_properties list \<Rightarrow> nat \<Rightarrow> loader_layer_properties list \<Rightarrow> loader_layer_properties list option" where
  "mark_keep_from ps i [] = Some []"
| "mark_keep_from ps i (p # rest) = do {
     k \<leftarrow> (if \<not> flag_explicit p then Some True else component_of_other ps i (layer_name p));
     rest' \<leftarrow> mark_keep_from ps (i + 1) rest;
     Some (p\<lparr>keep := k\<rparr> # rest')
   }"

fun write_prefix :: "'a buf \<Rightarrow> 'a list \<Rightarrow> 'a buf option" where
  "write_prefix (Buf xs) ys = (if length ys \<le> length xs then Some (Buf (ys @ drop (length ys) xs)) else None)"
| "write_prefix p ys = (if ys = [] then Some p else None)"

function remove_not_kept :: "allocator \<Rightarrow> loader_layer_list \<Rightarrow> nat \<Rightarrow> heap \<Rightarrow> (loader_layer_list \<times> heap) option" where
  "remove_not_kept a l i h =
     (if i < gl_count l then
        (case buf_read (gl_list l) i of
           None \<Rightarrow> None
         | Some cur \<Rightarrow>
             if keep cur then remove_not_kept a l (i + 1) h
             else (case loader_remove_layer_in_list a l i h of
                     None \<Rightarrow> None | Some (l', h') \<Rightarrow> remove_not_kept a l' i h'))
      else Some (l, h))"
  by pat_completeness auto
termination
  by (relation "measure (\<lambda>(a, l, i, h). gl_count l - i)") (auto dest!: remove_layer_count)

declare remove_not_kept.simps [simp del]

definition loader_remove_layers_not_in_implicit_meta_layers ::
  "allocator \<Rightarrow> loader_layer_list \<Rightarrow> heap \<Rightarrow> (loader_layer_list \<times> heap) option" where
  "loader_remove_layers_not_in_implicit_meta_layers a l h = do {
     ps \<leftarrow> gl_view l;
     marked \<leftarrow> mark_keep_from ps 0 ps;
     cells \<leftarrow> write_prefix (gl_list l) marked;
     remove_not_kept a (l\<lparr>gl_list := cells\<rparr>) 0 h
   }"

text \<open>\<^verbatim>\<open>loader_remove_duplicate_layers\<close>: for each index, the first later layer of the same name is removed.\<close>

function remove_duplicates_from :: "allocator \<Rightarrow> loader_layer_list \<Rightarrow> nat \<Rightarrow> heap \<Rightarrow> (loader_layer_list \<times> heap) option" where
  "remove_duplicates_from a l i h =
     (if i < gl_count l then
        (case gl_view l of
           None \<Rightarrow> None
         | Some ps \<Rightarrow>
             (case find_index_from (\<lambda>q. layer_name (ps ! i) = layer_name q) (i + 1) (drop (i + 1) ps) of
                None \<Rightarrow> remove_duplicates_from a l (i + 1) h
              | Some duplicate_index \<Rightarrow>
                  (case loader_remove_layer_in_list a l duplicate_index h of
                     None \<Rightarrow> None
                   | Some (l', h') \<Rightarrow> remove_duplicates_from a l' (i + 1) h')))
      else Some (l, h))"
  by pat_completeness auto
termination
  by (relation "measure (\<lambda>(a, l, i, h). gl_count l - i)")
     (auto simp: loader_remove_layer_in_list_def bind_eq_Some_conv split: if_splits)

declare remove_duplicates_from.simps [simp del]

definition loader_remove_duplicate_layers :: "allocator \<Rightarrow> loader_layer_list \<Rightarrow> heap \<Rightarrow> (loader_layer_list \<times> heap) option" where
  "loader_remove_duplicate_layers a l h = remove_duplicates_from a l 0 h"

section \<open>Lists of pointers to layers\<close>

text \<open>A pointer to a layer is its index in the list it lives in.\<close>

type_synonym loader_pointer_layer_list = "nat generic_list"

definition loader_init_pointer_layer_list ::
  "allocator \<Rightarrow> loader_pointer_layer_list \<Rightarrow> heap \<Rightarrow> bool \<times> loader_pointer_layer_list \<times> heap" where
  "loader_init_pointer_layer_list a l h =
     (let l = l\<lparr>gl_capacity := 32 * 8\<rparr>;
          (p, h) = loader_calloc a 0 (gl_capacity l div 8) h;
          l = l\<lparr>gl_list := p\<rparr>
      in if p = NULL then (False, l, h) else (True, l\<lparr>gl_count := 0\<rparr>, h))"

definition loader_destroy_pointer_layer_list ::
  "allocator \<Rightarrow> loader_pointer_layer_list \<Rightarrow> heap \<Rightarrow> (loader_pointer_layer_list \<times> heap) option" where
  "loader_destroy_pointer_layer_list a l h = do {
     h \<leftarrow> loader_free a (gl_list l) h;
     Some (empty_generic_list, h)
   }"

text \<open>The capacity test compares bytes of layer properties with the bytes of the pointer array.\<close>

definition loader_add_layer_properties_to_list ::
  "allocator \<Rightarrow> loader_pointer_layer_list \<Rightarrow> nat \<Rightarrow> heap \<Rightarrow> (VkResult \<times> loader_pointer_layer_list \<times> heap) option" where
  "loader_add_layer_properties_to_list a l props h =
     (let (ok, l, h) = (if gl_list l = NULL \<or> gl_capacity l = 0 then loader_init_pointer_layer_list a l h else (True, l, h))
      in if \<not> ok then Some (VK_ERROR_OUT_OF_HOST_MEMORY, l, h)
         else store_at_end a 8 0 0
                (((gl_count l + 1) mod 2 ^ 32) * sizeof_loader_layer_properties \<ge> gl_capacity l) l (\<lambda>_. props) h)"

definition loader_find_pointer_layer_property ::
  "loader_layer_properties list \<Rightarrow> string \<Rightarrow> loader_pointer_layer_list \<Rightarrow> nat option option" where
  "loader_find_pointer_layer_property layers name l = do {
     ptrs \<leftarrow> gl_view l;
     Some (map_option (\<lambda>k. ptrs ! k) (find_index_from (\<lambda>i. name = layer_name (layers ! i)) 0 ptrs))
   }"

definition loader_find_layer_name_in_list ::
  "loader_layer_properties list \<Rightarrow> string \<Rightarrow> loader_pointer_layer_list option \<Rightarrow> bool option" where
  "loader_find_layer_name_in_list layers name l =
     (case l of None \<Rightarrow> Some False | Some l \<Rightarrow> map_option (\<lambda>r. r \<noteq> None) (loader_find_pointer_layer_property layers name l))"


section \<open>Ownership and invariants\<close>

definition str_owned :: "string option \<Rightarrow> int" where
  "str_owned s = (case s of None \<Rightarrow> 0 | Some _ \<Rightarrow> 1)"

lemma live_free_str: "live (free_str a s h) = live h - str_owned s"
  by (cases s) (simp_all add: str_owned_def)

text \<open>Every string, list and array a layer owns.\<close>

definition layer_owned :: "loader_layer_properties \<Rightarrow> int" where
  "layer_owned p =
     str_owned (manifest_file_name p) + str_owned (lib_name p) +
     str_owned (str_gipa (layer_functions p)) + str_owned (str_gdpa (layer_functions p)) +
     str_owned (str_negotiate_interface (layer_functions p)) +
     blocks (gl_list (instance_extension_list p)) + dev_ext_owned (device_extension_list p) +
     str_owned (nv_name (disable_env_var p)) + str_owned (nv_value (disable_env_var p)) +
     str_owned (nv_name (enable_env_var p)) + str_owned (nv_value (enable_env_var p)) +
     sl_owned (component_layer_names p) +
     str_owned (enumerate_instance_extension_properties (pre_instance p)) +
     str_owned (enumerate_instance_layer_properties (pre_instance p)) +
     str_owned (enumerate_instance_version (pre_instance p)) +
     sl_owned (override_paths p) + sl_owned (blacklist_layer_names p) + sl_owned (app_key_paths p)"

definition wf_layer :: "loader_layer_properties \<Rightarrow> bool" where
  "wf_layer p =
     (wf_generic_list sizeof_VkExtensionProperties (instance_extension_list p) \<and>
      wf_generic_list sizeof_loader_dev_ext_props (device_extension_list p) \<and>
      list_all (\<lambda>d. wf_string_list (de_entrypoints d)) (gl_items (device_extension_list p)) \<and>
      wf_string_list (component_layer_names p) \<and> wf_string_list (override_paths p) \<and>
      wf_string_list (blacklist_layer_names p) \<and> wf_string_list (app_key_paths p))"

definition wf_layers :: "loader_layer_list \<Rightarrow> bool" where
  "wf_layers l = (wf_generic_list sizeof_loader_layer_properties l \<and> list_all wf_layer (gl_items l))"

definition layers_owned :: "loader_layer_list \<Rightarrow> int" where
  "layers_owned l = blocks (gl_list l) + sum_list (map layer_owned (gl_items l))"

lemma free_entrypoints_releases:
  "list_all (\<lambda>d. wf_string_list (de_entrypoints d)) ds \<Longrightarrow>
   \<exists>h'. free_entrypoints a ds h = Some h' \<and> live h' = live h - sum_list (map (\<lambda>d. sl_owned (de_entrypoints d)) ds)"
proof (induction ds arbitrary: h)
  case (Cons d ds)
  then have "wf_string_list (de_entrypoints d)" by simp
  from free_string_list_releases [OF this] obtain h1 where "free_string_list a (de_entrypoints d) h = Some (empty_string_list, h1)"
    "live h1 = live h - sl_owned (de_entrypoints d)" by blast
  with Cons.IH [of h1] Cons.prems show ?case by auto
qed simp

text \<open>The device part: entry points first, then the array.\<close>

lemma free_dev_exts_releases:
  assumes "wf_generic_list sizeof_loader_dev_ext_props l" "list_all (\<lambda>d. wf_string_list (de_entrypoints d)) (gl_items l)"
  shows "\<exists>h1 h2. (if gl_capacity l > 0 \<and> gl_list l \<noteq> NULL then do { ds \<leftarrow> gl_view l; free_entrypoints a ds h } else Some h) = Some h1 \<and>
     loader_destroy_generic_list a l h1 = Some (empty_generic_list, h2) \<and> live h2 = live h - dev_ext_owned l"
proof -
  obtain h1 where h1: "free_entrypoints a (gl_items l) h = Some h1"
    "live h1 = live h - sum_list (map (\<lambda>d. sl_owned (de_entrypoints d)) (gl_items l))"
    using free_entrypoints_releases [OF assms(2)] by blast
  show ?thesis
  proof (cases "gl_list l = NULL")
    case True
    with destroy_generic_list_releases [OF assms(1), of a h] show ?thesis
      by (auto simp: dev_ext_owned_def gl_items_NULL)
  next
    case False
    then have "gl_capacity l > 0" using wf_generic_capacity [OF assms(1)] by simp
    with False h1 destroy_generic_list_releases [OF assms(1), of a h1] show ?thesis
      by (auto simp: gl_view_wf [OF assms(1)] dev_ext_owned_def)
  qed
qed

lemma free_layer_releases:
  assumes "wf_layer p"
  shows "\<exists>h'. loader_free_layer_properties a p h = Some (zero_layer, h') \<and> live h' = live h - layer_owned p"
proof -
  from assms have wf: "wf_generic_list sizeof_VkExtensionProperties (instance_extension_list p)"
    "wf_generic_list sizeof_loader_dev_ext_props (device_extension_list p)"
    "list_all (\<lambda>d. wf_string_list (de_entrypoints d)) (gl_items (device_extension_list p))"
    and sl: "wf_string_list (component_layer_names p)" "wf_string_list (override_paths p)"
    "wf_string_list (blacklist_layer_names p)" "wf_string_list (app_key_paths p)"
    by (simp_all add: wf_layer_def)
  define h0 where "h0 = free_str a (str_negotiate_interface (layer_functions p)) (free_str a (str_gdpa (layer_functions p))
    (free_str a (str_gipa (layer_functions p)) (free_str a (lib_name p) (free_str a (manifest_file_name p) h))))"
  obtain h1 where h1: "loader_destroy_generic_list a (instance_extension_list p) h0 = Some (empty_generic_list, h1)"
    "live h1 = live h0 - blocks (gl_list (instance_extension_list p))"
    using destroy_generic_list_releases [OF wf(1)] by blast
  obtain h2 h3 where h2: "(if gl_capacity (device_extension_list p) > 0 \<and> gl_list (device_extension_list p) \<noteq> NULL
      then do { ds \<leftarrow> gl_view (device_extension_list p); free_entrypoints a ds h1 } else Some h1) = Some h2"
    and h3: "loader_destroy_generic_list a (device_extension_list p) h2 = Some (empty_generic_list, h3)"
      "live h3 = live h1 - dev_ext_owned (device_extension_list p)"
    using free_dev_exts_releases [OF wf(2,3)] by blast
  define h4 where "h4 = free_str a (nv_value (enable_env_var p)) (free_str a (nv_name (enable_env_var p))
    (free_str a (nv_value (disable_env_var p)) (free_str a (nv_name (disable_env_var p)) h3)))"
  obtain h5 where h5: "free_string_list a (component_layer_names p) h4 = Some (empty_string_list, h5)"
    "live h5 = live h4 - sl_owned (component_layer_names p)" using free_string_list_releases [OF sl(1)] by blast
  define h6 where "h6 = free_str a (enumerate_instance_version (pre_instance p))
    (free_str a (enumerate_instance_layer_properties (pre_instance p))
    (free_str a (enumerate_instance_extension_properties (pre_instance p)) h5))"
  obtain h7 where h7: "free_string_list a (override_paths p) h6 = Some (empty_string_list, h7)"
    "live h7 = live h6 - sl_owned (override_paths p)" using free_string_list_releases [OF sl(2)] by blast
  obtain h8 where h8: "free_string_list a (blacklist_layer_names p) h7 = Some (empty_string_list, h8)"
    "live h8 = live h7 - sl_owned (blacklist_layer_names p)" using free_string_list_releases [OF sl(3)] by blast
  obtain h9 where h9: "free_string_list a (app_key_paths p) h8 = Some (empty_string_list, h9)"
    "live h9 = live h8 - sl_owned (app_key_paths p)" using free_string_list_releases [OF sl(4)] by blast
  have "loader_free_layer_properties a p h = Some (zero_layer, h9)"
    unfolding loader_free_layer_properties_def Let_def h0_def [symmetric]
    by (simp only: h1 h2 h3 h4_def [symmetric] h5 h6_def [symmetric] h7 h8 h9 Option.bind.simps prod.case)
  moreover have "live h9 = live h - layer_owned p"
    by (simp add: h1 h3 h5 h7 h8 h9 h0_def h4_def h6_def live_free_str layer_owned_def)
  ultimately show ?thesis by blast
qed


text \<open>Removing an element is the list without it.\<close>

definition drop_nth :: "nat \<Rightarrow> 'a list \<Rightarrow> 'a list" where
  "drop_nth i xs = take i xs @ drop (i + 1) xs"

lemma sum_drop_nth: "i < length xs \<Longrightarrow> sum_list (map f (drop_nth i xs)) = sum_list (map f xs) - (f (xs ! i) :: int)"
  using arg_cong [OF id_take_nth_drop [of i xs], of "\<lambda>ys. sum_list (map f ys)"]
  by (simp add: drop_nth_def)

lemma list_all_drop_nth: "list_all P xs \<Longrightarrow> list_all P (drop_nth i xs)"
  by (auto simp: drop_nth_def list_all_iff dest: in_set_takeD in_set_dropD)

lemma remove_layer_correct:
  assumes "wf_layers l" "i < gl_count l"
  shows "\<exists>l' h'. loader_remove_layer_in_list a l i h = Some (l', h') \<and> wf_layers l' \<and>
     gl_items l' = drop_nth i (gl_items l) \<and> gl_count l' = gl_count l - 1 \<and>
     live h' - layers_owned l' = live h - layers_owned l"
proof -
  have wf: "wf_generic_list sizeof_loader_layer_properties l" and all: "list_all wf_layer (gl_items l)"
    using assms(1) by (simp_all add: wf_layers_def)
  obtain xs where xs: "gl_list l = Buf xs" and cap: "gl_capacity l = sizeof_loader_layer_properties * length xs"
    and cnt: "gl_count l \<le> length xs" and pos: "0 < gl_capacity l"
    using wf assms(2) by (cases "gl_list l") (auto simp: wf_generic_list_def)
  have items: "gl_items l = take (gl_count l) xs" by (simp add: gl_items_def xs)
  have i: "i < length xs" using assms(2) cnt by simp
  have nth: "gl_items l ! i = xs ! i" using assms(2) by (simp add: items)
  have "wf_layer (xs ! i)" using all assms(2) cnt by (auto simp: items list_all_length)
  from free_layer_releases [OF this, of a h] obtain h1 where
    h1: "loader_free_layer_properties a (xs ! i) h = Some (zero_layer, h1)" "live h1 = live h - layer_owned (xs ! i)" by blast
  define ys where "ys = take i xs @ take (gl_count l - 1 - i) (drop (i + 1) xs) @ drop (gl_count l - 1) (xs[i := zero_layer])"
  have shift: "shift_down (Buf (xs[i := zero_layer])) i (gl_count l - 1 - i) = Some (Buf ys)"
    using assms(2) cnt by (simp add: ys_def)
  define l' where "l' = l\<lparr>gl_list := Buf ys, gl_count := gl_count l - 1\<rparr>"
  have rm: "loader_remove_layer_in_list a l i h = Some (l', h1)"
    using assms(2) i xs h1(1) shift by (simp add: loader_remove_layer_in_list_def l'_def del: shift_down.simps)
  have len: "length ys = length xs" using assms(2) cnt by (simp add: ys_def)
  have "take (gl_count l - 1) ys = take i xs @ take (gl_count l - 1 - i) (drop (i + 1) xs)"
    using assms(2) cnt by (simp add: ys_def)
  also have "\<dots> = drop_nth i (gl_items l)"
    using assms(2) by (simp add: drop_nth_def items min_def drop_take)
  finally have items': "gl_items l' = drop_nth i (gl_items l)" by (simp add: gl_items_def l'_def)
  have "wf_generic_list sizeof_loader_layer_properties l'"
    using len cap pos cnt by (auto simp: wf_generic_list_def l'_def)
  then have "wf_layers l'" using all items' by (simp add: wf_layers_def list_all_drop_nth)
  moreover have "live h1 - layers_owned l' = live h - layers_owned l"
    using sum_drop_nth [of i "gl_items l" layer_owned] assms(2) nth h1(2) xs items' length_gl_items [OF wf]
    by (simp add: layers_owned_def l'_def)
  ultimately show ?thesis using rm items' by (auto simp: l'_def)
qed


section \<open>What the passes compute\<close>

lemma read_layer: "wf_layers l \<Longrightarrow> i < gl_count l \<Longrightarrow> buf_read (gl_list l) i = Some (gl_items l ! i)"
  by (cases "gl_list l") (auto simp: wf_layers_def wf_generic_list_def gl_items_def)

lemma length_layers: "wf_layers l \<Longrightarrow> length (gl_items l) = gl_count l"
  by (auto simp: wf_layers_def length_gl_items)

lemma view_layers: "wf_layers l \<Longrightarrow> gl_view l = Some (gl_items l)"
  by (auto simp: wf_layers_def)

lemma wf_layer_nth: "wf_layers l \<Longrightarrow> i < gl_count l \<Longrightarrow> wf_layer (gl_items l ! i)"
  using length_layers by (auto simp: wf_layers_def list_all_length)

lemma drop_nth_at: "i < length xs \<Longrightarrow> take i (drop_nth i xs) = take i xs \<and> drop i (drop_nth i xs) = drop (Suc i) xs"
  by (simp add: drop_nth_def)

text \<open>One round of a filtering loop: keep the element at \<open>i\<close> and go on, or drop it and look again.\<close>

lemma filter_round:
  assumes "i < length xs"
  shows "P (xs ! i) \<Longrightarrow> take (i + 1) xs @ filter P (drop (i + 1) xs) = take i xs @ filter P (drop i xs)"
    and "\<not> P (xs ! i) \<Longrightarrow> take i (drop_nth i xs) @ filter P (drop i (drop_nth i xs)) = take i xs @ filter P (drop i xs)"
  using assms Cons_nth_drop_Suc [OF assms, symmetric]
  by (simp_all add: take_Suc_conv_app_nth drop_nth_at)

lemma remove_not_kept_correct:
  assumes "wf_layers l" "i \<le> gl_count l"
  shows "\<exists>l' h'. remove_not_kept a l i h = Some (l', h') \<and> wf_layers l' \<and>
     gl_items l' = take i (gl_items l) @ filter keep (drop i (gl_items l)) \<and>
     live h' - layers_owned l' = live h - layers_owned l"
  using assms
proof (induction a l i h rule: remove_not_kept.induct)
  case (1 a l i h)
  show ?case
  proof (cases "i < gl_count l")
    case False
    with "1.prems" show ?thesis by (simp add: remove_not_kept.simps length_layers)
  next
    case True
    note read = read_layer [OF "1.prems"(1) True]
    have len: "i < length (gl_items l)" using True length_layers [OF "1.prems"(1)] by simp
    show ?thesis
    proof (cases "keep (gl_items l ! i)")
      case k: True
      from "1.IH"(1) [OF True read k "1.prems"(1)] True filter_round(1) [OF len, of keep, OF k]
      show ?thesis by (subst remove_not_kept.simps) (simp add: read k)
    next
      case k: False
      obtain l1 h1 where rm: "loader_remove_layer_in_list a l i h = Some (l1, h1)" and l1: "wf_layers l1"
        "gl_items l1 = drop_nth i (gl_items l)" "gl_count l1 = gl_count l - 1"
        "live h1 - layers_owned l1 = live h - layers_owned l"
        using remove_layer_correct [OF "1.prems"(1) True] by blast
      from "1.IH"(2) [OF True read k rm refl l1(1)] True l1 filter_round(2) [OF len, of keep, OF k]
      show ?thesis by (subst remove_not_kept.simps) (simp add: read k rm)
    qed
  qed
qed

abbreviation is_override_name :: "loader_layer_properties \<Rightarrow> bool" where
  "is_override_name p \<equiv> VK_OVERRIDE_LAYER_NAME = layer_name p"

lemma find_index_from_find:
  "find_index_from P i xs = Some k \<Longrightarrow> i \<le> k \<and> k - i < length xs \<and> find P xs = Some (xs ! (k - i))"
  by (induction xs arbitrary: i) (force split: if_splits)+

lemma find_index_from_None: "find_index_from P i xs = None \<longleftrightarrow> find P xs = None"
  by (induction xs arbitrary: i) auto

lemma find_drop_nth: "j < length xs \<Longrightarrow> \<not> P (xs ! j) \<Longrightarrow> find P (drop_nth j xs) = find P xs"
proof -
  have app: "find P (ys @ zs) = (case find P ys of None \<Rightarrow> find P zs | r \<Rightarrow> r)" for ys zs
    by (induction ys) auto
  assume j: "j < length xs" "\<not> P (xs ! j)"
  have "find P xs = find P (take j xs @ xs ! j # drop (Suc j) xs)" using id_take_nth_drop [OF j(1)] by simp
  then show ?thesis using j by (simp add: drop_nth_def app split: option.split)
qed

lemma find_layer_property_wf:
  "wf_layers l \<Longrightarrow> loader_find_layer_property name l = Some (find_index_from (\<lambda>p. name = layer_name p) 0 (gl_items l))"
  by (simp add: loader_find_layer_property_def view_layers)

lemma remove_blacklisted_correct:
  assumes "wf_layers l" "j \<le> gl_count l" "find_index_from is_override_name 0 (gl_items l) = ov"
    and "find is_override_name (gl_items l) = Some p"
  shows "\<exists>l' h'. remove_blacklisted a l j ov h = Some (l', h') \<and> wf_layers l' \<and>
     gl_items l' = take j (gl_items l) @
       filter (\<lambda>q. is_override_name q \<or> layer_name q \<notin> set (sl_strings (blacklist_layer_names p))) (drop j (gl_items l)) \<and>
     live h' - layers_owned l' = live h - layers_owned l"
  using assms
proof (induction "gl_count l - j" arbitrary: l j ov h rule: less_induct)
  case less
  note wf = less.prems(1)
  let ?P = "\<lambda>q. is_override_name q \<or> layer_name q \<notin> set (sl_strings (blacklist_layer_names p))"
  show ?case
  proof (cases "j < gl_count l")
    case False
    with less.prems show ?thesis by (simp add: remove_blacklisted.simps length_layers)
  next
    case True
    note read = read_layer [OF wf True]
    have len: "j < length (gl_items l)" using True length_layers [OF wf] by simp
    obtain k where k: "ov = Some k" using less.prems(3,4) find_index_from_None [of is_override_name 0 "gl_items l"] by (cases ov) auto
    with less.prems(3) have kk: "k < gl_count l" "find is_override_name (gl_items l) = Some (gl_items l ! k)"
      using find_index_from_find [of is_override_name 0 "gl_items l" k] length_layers [OF wf] by auto
    have p: "gl_items l ! k = p" using kk(2) less.prems(4) by simp
    have "wf_string_list (blacklist_layer_names p)" using wf_layer_nth [OF wf kk(1)] p by (simp add: wf_layer_def)
    then have bl: "do { i \<leftarrow> ov; q \<leftarrow> buf_read (gl_list l) i; loader_find_layer_name_in_blacklist (layer_name (gl_items l ! j)) q } =
        Some (layer_name (gl_items l ! j) \<in> set (sl_strings (blacklist_layer_names p)))"
      using read_layer [OF wf kk(1)] p by (simp add: k loader_find_layer_name_in_blacklist_def list_ex_iff del: buf_read_Some)
    show ?thesis
    proof (cases "?P (gl_items l ! j)")
      case keepit: True
      have step: "remove_blacklisted a l j ov h = remove_blacklisted a l (j + 1) ov h"
        using keepit True by (subst remove_blacklisted.simps) (auto simp: read bl split: if_splits)
      from less.hyps [of l "j + 1" ov h] True less.prems filter_round(1) [OF len, of ?P, OF keepit]
      show ?thesis unfolding step by simp
    next
      case out: False
      obtain l1 h1 where rm: "loader_remove_layer_in_list a l j h = Some (l1, h1)" and l1: "wf_layers l1"
        "gl_items l1 = drop_nth j (gl_items l)" "gl_count l1 = gl_count l - 1"
        "live h1 - layers_owned l1 = live h - layers_owned l"
        using remove_layer_correct [OF wf True] by blast
      define ov1 where "ov1 = find_index_from is_override_name 0 (gl_items l1)"
      have step: "remove_blacklisted a l j ov h = remove_blacklisted a l1 j ov1 h1"
        using out True by (subst remove_blacklisted.simps)
          (auto simp: read bl rm find_layer_property_wf [OF l1(1)] ov1_def)
      have "find is_override_name (gl_items l1) = Some p"
        using find_drop_nth [OF len, of is_override_name] out less.prems(4) by (simp add: l1(2))
      with less.hyps [of l1 j ov1 h1] True l1 ov1_def filter_round(2) [OF len, of ?P, OF out]
      show ?thesis unfolding step by simp
    qed
  qed
qed


text \<open>Which layers the implicit meta-layer pass keeps.\<close>

definition keep_flag :: "loader_layer_properties list \<Rightarrow> nat \<Rightarrow> bool" where
  "keep_flag ps i =
     (\<not> flag_explicit (ps ! i) \<or>
      (\<exists>j<length ps. j \<noteq> i \<and> flag_meta (ps ! j) \<and> layer_name (ps ! i) \<in> set (sl_strings (component_layer_names (ps ! j)))))"

lemma component_of_other_fold:
  assumes "\<And>j. j \<in> set js \<Longrightarrow> wf_string_list (component_layer_names (ps ! j))"
  shows "fold (\<lambda>j acc. do {
        found \<leftarrow> acc;
        (if i = j then Some found
         else if flag_meta (ps ! j) then do {
           names \<leftarrow> sl_view (component_layer_names (ps ! j));
           Some (found \<or> list_ex (\<lambda>c. c = name) names)
         }
         else Some found)
      }) js (Some b) =
     Some (b \<or> (\<exists>j\<in>set js. j \<noteq> i \<and> flag_meta (ps ! j) \<and> name \<in> set (sl_strings (component_layer_names (ps ! j)))))"
  using assms
proof (induction js arbitrary: b)
  case (Cons j js)
  have wf: "sl_view (component_layer_names (ps ! j)) = Some (sl_strings (component_layer_names (ps ! j)))"
    using Cons.prems by simp
  show ?case using Cons.IH Cons.prems by (auto simp: wf list_ex_iff)
qed simp

lemma component_of_other_correct:
  assumes "list_all wf_layer ps"
  shows "component_of_other ps i name =
     Some (\<exists>j<length ps. j \<noteq> i \<and> flag_meta (ps ! j) \<and> name \<in> set (sl_strings (component_layer_names (ps ! j))))"
  unfolding component_of_other_def using assms
  by (subst component_of_other_fold) (auto simp: list_all_length wf_layer_def)

lemma mark_keep_correct:
  assumes "list_all wf_layer ps" "i \<le> length ps"
  shows "mark_keep_from ps i (drop i ps) = Some (map (\<lambda>k. (ps ! k)\<lparr>keep := keep_flag ps k\<rparr>) [i..<length ps])"
  using assms
proof (induction "length ps - i" arbitrary: i)
  case (Suc n)
  then have i: "i < length ps" by simp
  have rest: "mark_keep_from ps (i + 1) (drop (i + 1) ps) = Some (map (\<lambda>k. (ps ! k)\<lparr>keep := keep_flag ps k\<rparr>) [i + 1..<length ps])"
    using Suc.hyps(1) [of "i + 1"] Suc.hyps(2) Suc.prems i by simp
  have k: "(if \<not> flag_explicit (ps ! i) then Some True else component_of_other ps i (layer_name (ps ! i))) = Some (keep_flag ps i)"
    by (auto simp: component_of_other_correct [OF Suc.prems(1)] keep_flag_def)
  have "mark_keep_from ps i (ps ! i # drop (Suc i) ps) =
      Some ((ps ! i)\<lparr>keep := keep_flag ps i\<rparr> # map (\<lambda>k. (ps ! k)\<lparr>keep := keep_flag ps k\<rparr>) [i + 1..<length ps])"
    unfolding mark_keep_from.simps k using rest by simp
  then show ?case using Cons_nth_drop_Suc [OF i] upt_conv_Cons [OF i] by simp
qed simp

lemma keep_update [simp]:
  "layer_owned (p\<lparr>keep := b\<rparr>) = layer_owned p" "wf_layer (p\<lparr>keep := b\<rparr>) = wf_layer p"
  by (simp_all add: layer_owned_def wf_layer_def)

lemma map_nth_upt: "map (\<lambda>k. f (xs ! k)) [0..<length xs] = map f xs"
  by (rule nth_equalityI) auto

lemma remove_not_in_meta_correct:
  assumes "wf_layers l"
  shows "\<exists>l' h'. loader_remove_layers_not_in_implicit_meta_layers a l h = Some (l', h') \<and> wf_layers l' \<and>
     gl_items l' = map (\<lambda>k. (gl_items l ! k)\<lparr>keep := True\<rparr>) (filter (keep_flag (gl_items l)) [0..<length (gl_items l)]) \<and>
     live h' - layers_owned l' = live h - layers_owned l"
proof -
  let ?ps = "gl_items l"
  define m where "m = map (\<lambda>k. (?ps ! k)\<lparr>keep := keep_flag ?ps k\<rparr>) [0..<length ?ps]"
  have all: "list_all wf_layer ?ps" and wf: "wf_generic_list sizeof_loader_layer_properties l" using assms by (simp_all add: wf_layers_def)
  have mark: "mark_keep_from ?ps 0 ?ps = Some m" using mark_keep_correct [OF all, of 0] by (simp add: m_def)
  have lm: "length m = gl_count l" by (simp add: m_def length_layers [OF assms])
  obtain cells where w: "write_prefix (gl_list l) m = Some cells"
    and wf': "wf_generic_list sizeof_loader_layer_properties (l\<lparr>gl_list := cells\<rparr>)"
    and it: "gl_items (l\<lparr>gl_list := cells\<rparr>) = m" and bl: "blocks cells = blocks (gl_list l)"
    using wf lm by (cases "gl_list l") (auto simp: wf_generic_list_def gl_items_def)
  have allm: "list_all wf_layer m" using all by (auto simp: m_def list_all_length)
  have own: "sum_list (map layer_owned m) = sum_list (map layer_owned ?ps)"
    using map_nth_upt [of layer_owned ?ps] by (simp add: m_def comp_def)
  have wfl: "wf_layers (l\<lparr>gl_list := cells\<rparr>)" using wf' it allm by (simp add: wf_layers_def)
  from remove_not_kept_correct [OF wfl, of 0 a h] obtain l' h' where
    r: "remove_not_kept a (l\<lparr>gl_list := cells\<rparr>) 0 h = Some (l', h')" "wf_layers l'" "gl_items l' = filter keep m"
      "live h' - layers_owned l' = live h - layers_owned (l\<lparr>gl_list := cells\<rparr>)" using it by auto
  have "filter keep m = map (\<lambda>k. (?ps ! k)\<lparr>keep := keep_flag ?ps k\<rparr>) (filter (keep_flag ?ps) [0..<length ?ps])"
    by (simp add: m_def filter_map comp_def)
  also have "\<dots> = map (\<lambda>k. (?ps ! k)\<lparr>keep := True\<rparr>) (filter (keep_flag ?ps) [0..<length ?ps])" by simp
  finally have "gl_items l' = map (\<lambda>k. (?ps ! k)\<lparr>keep := True\<rparr>) (filter (keep_flag ?ps) [0..<length ?ps])" using r(3) by simp
  moreover have "layers_owned (l\<lparr>gl_list := cells\<rparr>) = layers_owned l" using it own bl by (simp add: layers_owned_def)
  ultimately show ?thesis using r mark w
    by (simp add: loader_remove_layers_not_in_implicit_meta_layers_def view_layers [OF assms])
qed

section \<open>Duplicates\<close>

abbreviation names_of :: "loader_layer_list \<Rightarrow> string list" where
  "names_of l \<equiv> map layer_name (gl_items l)"

lemma mset_drop_nth: "i < length xs \<Longrightarrow> mset xs = add_mset (xs ! i) (mset (drop_nth i xs))"
  using arg_cong [OF id_take_nth_drop [of i xs], of mset] by (simp add: drop_nth_def)

lemma map_drop_nth: "map f (drop_nth i xs) = drop_nth i (map f xs)"
  by (simp add: drop_nth_def take_map drop_map)

lemma find_index_from_nth:
  "find_index_from P i xs = Some k \<Longrightarrow> i \<le> k \<and> k < i + length xs \<and> P (xs ! (k - i))"
  "find_index_from P i xs = None \<Longrightarrow> x \<in> set xs \<Longrightarrow> \<not> P x"
proof -
  show "find_index_from P i xs = Some k \<Longrightarrow> i \<le> k \<and> k < i + length xs \<and> P (xs ! (k - i))"
    by (induction xs arbitrary: i) (force split: if_splits)+
  show "find_index_from P i xs = None \<Longrightarrow> x \<in> set xs \<Longrightarrow> \<not> P x"
    by (induction xs arbitrary: i) (auto split: if_splits)
qed


lemma nth_drop_nth: "k < i \<Longrightarrow> i < length xs \<Longrightarrow> drop_nth i xs ! k = xs ! k \<and> k < length (drop_nth i xs)"
  by (simp add: drop_nth_def nth_append)

lemma count_twice:
  assumes "i < j" "j < length xs" "xs ! i = xs ! j"
  shows "2 \<le> count (mset xs) (xs ! j)"
proof -
  have "xs ! j \<in> set (drop_nth j xs)" using nth_drop_nth [OF assms(1,2)] assms(3) by (metis nth_mem)
  then have "0 < count (mset (drop_nth j xs)) (xs ! j)" by simp
  then show ?thesis using mset_drop_nth [OF assms(2)] by simp
qed

lemma count_once:
  assumes "i < length xs" "\<And>k. k < i \<Longrightarrow> count (mset xs) (xs ! k) = 1" "\<And>x. x \<in> set (drop (i + 1) xs) \<Longrightarrow> xs ! i \<noteq> x"
  shows "count (mset xs) (xs ! i) = 1"
proof -
  have "xs ! k \<noteq> xs ! i" if "k < i" for k
    using count_twice [OF that assms(1)] assms(2) [OF that] by auto
  then have "xs ! i \<notin> set (take i xs)" using assms(1) by (auto simp: in_set_conv_nth)
  moreover have "xs ! i \<notin> set (drop (i + 1) xs)" using assms(3) by blast
  ultimately have "count (mset (drop_nth i xs)) (xs ! i) = 0" by (simp add: drop_nth_def not_in_iff)
  then show ?thesis using mset_drop_nth [OF assms(1)] by simp
qed

lemma subseq_drop_nth: "subseq (drop_nth i xs) xs"
proof -
  have "subseq (drop (i + 1) xs) (drop i xs)"
    by (cases "i < length xs") (simp_all add: Cons_nth_drop_Suc [symmetric] list_emb_Cons)
  then have "subseq (take i xs @ drop (i + 1) xs) (take i xs @ drop i xs)" by (intro list_emb_append_mono) simp_all
  then show ?thesis by (simp add: drop_nth_def)
qed

text \<open>Removing the later one of two equal names keeps the set of names.\<close>

lemma drop_duplicate:
  assumes "i < j" "j < length xs" "xs ! i = xs ! j"
  shows "set (drop_nth j xs) = set xs"
    and "count (mset (drop_nth j xs)) x = count (mset xs) x - (if x = xs ! j then 1 else 0)"
proof -
  have "xs ! j \<in> set (drop_nth j xs)" using nth_drop_nth [OF assms(1,2)] assms(3) by (metis nth_mem)
  then show "set (drop_nth j xs) = set xs"
    using arg_cong [OF mset_drop_nth [OF assms(2)], of set_mset] by auto
  show "count (mset (drop_nth j xs)) x = count (mset xs) x - (if x = xs ! j then 1 else 0)"
    using mset_drop_nth [OF assms(2)] by simp
qed

lemma remove_duplicates_correct:
  assumes "wf_layers l" "i \<le> gl_count l" "\<And>k. k < i \<Longrightarrow> count (mset (names_of l)) (names_of l ! k) = 1"
    and "\<And>x. count (mset (names_of l)) x \<le> 2"
  shows "\<exists>l' h'. remove_duplicates_from a l i h = Some (l', h') \<and> wf_layers l' \<and>
     distinct (names_of l') \<and> set (names_of l') = set (names_of l) \<and> subseq (gl_items l') (gl_items l) \<and>
     live h' - layers_owned l' = live h - layers_owned l"
  using assms
proof (induction "gl_count l - i" arbitrary: l i h rule: less_induct)
  case less
  note wf = less.prems(1) and once = less.prems(3) and twice = less.prems(4)
  have len: "length (names_of l) = gl_count l" by (simp add: length_layers [OF wf])
  show ?case
  proof (cases "i < gl_count l")
    case False
    have "count (mset (names_of l)) x = (if x \<in> set (names_of l) then 1 else 0)" for x
    proof (cases "x \<in> set (names_of l)")
      case True
      then obtain k where "k < gl_count l" "x = names_of l ! k" using len by (metis in_set_conv_nth)
      with once [of k] False less.prems(2) True show ?thesis by simp
    next
      case out: False
      then show ?thesis by (simp only: if_False out count_eq_zero_iff set_mset_mset)
    qed
    then have "distinct (names_of l)" using distinct_count_atmost_1 by blast
    with wf False show ?thesis by (simp add: remove_duplicates_from.simps)
  next
    case True
    let ?n = "names_of l"
    have i: "i < length ?n" using True len by simp
    have nth: "layer_name (gl_items l ! k) = ?n ! k" if "k < gl_count l" for k using that len by simp
    define f where "f = find_index_from (\<lambda>q. layer_name (gl_items l ! i) = layer_name q) (i + 1) (drop (i + 1) (gl_items l))"
    show ?thesis
    proof (cases f)
      case None
      have "?n ! i \<noteq> x" if "x \<in> set (drop (i + 1) ?n)" for x
      proof -
        from that obtain q where "q \<in> set (drop (i + 1) (gl_items l))" "x = layer_name q" by (auto simp: drop_map)
        then show ?thesis using find_index_from_nth(2) [OF None [unfolded f_def]] nth [OF True] by metis
      qed
      from count_once [OF i once this] have one: "count (mset ?n) (?n ! i) = 1" by blast
      have "count (mset ?n) (?n ! k) = 1" if "k < i + 1" for k
        using that once one by (cases "k = i") (simp_all only: less_Suc_eq Suc_eq_plus1 [symmetric] simp_thms)
      moreover have "remove_duplicates_from a l i h = remove_duplicates_from a l (i + 1) h"
        using True None by (subst remove_duplicates_from.simps) (simp add: view_layers [OF wf] f_def)
      ultimately show ?thesis using less.hyps [of l "i + 1" h] True wf twice by simp
    next
      case (Some j)
      from find_index_from_nth(1) [OF Some [unfolded f_def]]
      have b: "i + 1 \<le> j" "j < i + 1 + length (drop (i + 1) (gl_items l))"
        and e: "layer_name (gl_items l ! i) = layer_name (drop (i + 1) (gl_items l) ! (j - (i + 1)))" by blast+
      have j: "i < j" "j < gl_count l" using b length_layers [OF wf] True by simp_all
      have "drop (i + 1) (gl_items l) ! (j - (i + 1)) = gl_items l ! j"
        using b(1) j True length_layers [OF wf] by (subst nth_drop) simp_all
      then have j3: "?n ! i = ?n ! j" using e nth [OF True] nth [OF j(2)] by simp
      note j = j j3
      obtain l1 h1 where rm: "loader_remove_layer_in_list a l j h = Some (l1, h1)" and l1: "wf_layers l1"
        "gl_items l1 = drop_nth j (gl_items l)" "gl_count l1 = gl_count l - 1"
        "live h1 - layers_owned l1 = live h - layers_owned l"
        using remove_layer_correct [OF wf j(2)] by blast
      have n1: "names_of l1 = drop_nth j ?n" by (simp only: l1(2) map_drop_nth)
      have jl: "j < length ?n" using j len by simp
      have cnt: "count (mset (names_of l1)) x = count (mset ?n) x - (if x = ?n ! j then 1 else 0)" for x
        unfolding n1 by (rule drop_duplicate(2) [OF j(1) jl j(3)])
      have two: "count (mset ?n) (?n ! j) = 2" using count_twice [OF j(1) jl j(3)] twice [of "?n ! j"] by simp
      have keep: "names_of l1 ! k = ?n ! k" if "k < j" for k unfolding n1 using nth_drop_nth [OF that jl] by blast
      have "count (mset (names_of l1)) (names_of l1 ! k) = 1" if "k < i + 1" for k
      proof (cases "k = i")
        case True
        then show ?thesis using keep [of k] cnt two j by simp
      next
        case False
        with that have k: "k < i" by simp
        with two once have "?n ! k \<noteq> ?n ! j" by (metis one_eq_numeral_iff num.distinct(1))
        then show ?thesis using keep [of k] cnt once k j(1) by simp
      qed
      moreover have "count (mset (names_of l1)) x \<le> 2" for x using cnt twice [of x] by (simp add: le_diff_conv)
      moreover have "remove_duplicates_from a l i h = remove_duplicates_from a l1 (i + 1) h1"
        using True Some by (subst remove_duplicates_from.simps) (simp add: view_layers [OF wf] f_def rm)
      moreover have "set (names_of l1) = set ?n" unfolding n1 by (rule drop_duplicate(1) [OF j(1) jl j(3)])
      moreover have "subseq (gl_items l1) (gl_items l)" unfolding l1(2) by (rule subseq_drop_nth)
      ultimately show ?thesis
        using less.hyps [of l1 "i + 1" h1] True j l1 subseq_order.order_trans by fastforce
    qed
  qed
qed


section \<open>Appending and deleting\<close>

lemma append_layer_correct:
  assumes "wf_layers l" "gl_room l" "wf_layer p"
  shows "\<exists>r l' p' h'. loader_append_layer_property a l p h = Some (r, l', p', h') \<and> wf_layers l' \<and> p' = zero_layer \<and>
     live h' - layers_owned l' = live h - layers_owned l - layer_owned p \<and>
     (r = VK_SUCCESS \<and> gl_items l' = gl_items l @ [p] \<or> r = VK_ERROR_OUT_OF_HOST_MEMORY \<and> gl_items l' = gl_items l)"
proof -
  let ?es = sizeof_loader_layer_properties
  have sz: "0 < ?es" by (simp add: sizeof_loader_layer_properties_def)
  have wf: "wf_generic_list ?es l" and all: "list_all wf_layer (gl_items l)" using assms(1) by (simp_all add: wf_layers_def)
  have null: "(gl_list l = NULL \<or> gl_capacity l = 0) \<longleftrightarrow> gl_capacity l = 0" using wf_generic_capacity [OF wf] by blast
  from init_ok [OF sz wf, of a zero_layer h] obtain r1 l1 h1 where
    i: "(if gl_capacity l = 0 then loader_init_generic_list a ?es zero_layer l h else (VK_SUCCESS, l, h)) = (r1, l1, h1)"
      "gl_items l1 = gl_items l" "live h1 - blocks (gl_list l1) = live h - blocks (gl_list l)"
    and c: "r1 = VK_SUCCESS \<and> gl_list l1 \<noteq> NULL \<or> r1 = VK_ERROR_OUT_OF_HOST_MEMORY \<and> ok_list ?es l1"
    unfolding null by blast
  have own1: "live h1 - layers_owned l1 = live h - layers_owned l" using i by (simp add: layers_owned_def)
  obtain hf where hf: "loader_free_layer_properties a p h2 = Some (zero_layer, hf h2) \<and> live (hf h2) = live h2 - layer_owned p" for h2
    using free_layer_releases [OF assms(3), of a] by metis
  from c show ?thesis
  proof
    assume "r1 = VK_ERROR_OUT_OF_HOST_MEMORY \<and> ok_list ?es l1"
    then show ?thesis using i own1 hf [of h1] all by (auto simp: loader_append_layer_property_def wf_layers_def ok_list_def)
  next
    assume s: "r1 = VK_SUCCESS \<and> gl_list l1 \<noteq> NULL"
    have wf1: "wf_generic_list ?es l1" and room1: "gl_room l1"
      using i(1) s wf assms(2) init_generic_list_cases [OF sz, of h a zero_layer l]
      by (auto simp: wf_generic_list_def gl_room_def sizeof_loader_layer_properties_def split: if_splits)
    obtain xs where xs: "gl_list l1 = Buf xs" using s wf1 by (cases "gl_list l1") (auto simp: wf_generic_list_def)
    have wrap: "(gl_count l1 + 1) mod 2 ^ 32 = gl_count l1 + 1" using room1 by (simp add: gl_room_def)
    let ?full = "((gl_count l1 + 1) mod 2 ^ 32) * ?es > gl_capacity l1"
    have nf: "\<not> ?full \<Longrightarrow> gl_count l1 < length xs"
      using wf1 xs sz unfolding wrap by (simp add: wf_generic_list_def sizeof_loader_layer_properties_def)
    from store_at_end_cases [OF wf1 xs room1, of ?full h1 a zero_layer zero_layer "\<lambda>_. p"] nf obtain h2 where h2: "live h2 = live h1" and
      r: "store_at_end a ?es zero_layer zero_layer ?full l1 (\<lambda>_. p) h1 = Some (VK_ERROR_OUT_OF_HOST_MEMORY, l1, h2) \<or>
        (\<exists>l'. store_at_end a ?es zero_layer zero_layer ?full l1 (\<lambda>_. p) h1 = Some (VK_SUCCESS, l', h2) \<and>
           wf_generic_list ?es l' \<and> gl_items l' = gl_items l1 @ [p] \<and> gl_list l' \<noteq> NULL)" by blast
    from r show ?thesis
    proof
      assume "store_at_end a ?es zero_layer zero_layer ?full l1 (\<lambda>_. p) h1 = Some (VK_ERROR_OUT_OF_HOST_MEMORY, l1, h2)"
      then show ?thesis using i s own1 h2 hf [of h2] all wf1
        by (auto simp: loader_append_layer_property_def wf_layers_def)
    next
      assume "\<exists>l'. store_at_end a ?es zero_layer zero_layer ?full l1 (\<lambda>_. p) h1 = Some (VK_SUCCESS, l', h2) \<and>
           wf_generic_list ?es l' \<and> gl_items l' = gl_items l1 @ [p] \<and> gl_list l' \<noteq> NULL"
      then obtain l' where l': "store_at_end a ?es zero_layer zero_layer ?full l1 (\<lambda>_. p) h1 = Some (VK_SUCCESS, l', h2)"
        "wf_generic_list ?es l'" "gl_items l' = gl_items l1 @ [p]" "gl_list l' \<noteq> NULL" by blast
      have "blocks (gl_list l') = 1" using l'(2,4) by (cases "gl_list l'") (auto simp: wf_generic_list_def)
      then have "live h2 - layers_owned l' = live h - layers_owned l - layer_owned p"
        using h2 own1 l'(3) xs by (simp add: layers_owned_def)
      with l' i s all assms(3) show ?thesis by (auto simp: loader_append_layer_property_def wf_layers_def)
    qed
  qed
qed

lemma free_layers_releases:
  "list_all wf_layer ps \<Longrightarrow> \<exists>h'. free_layers a ps h = Some h' \<and> live h' = live h - sum_list (map layer_owned ps)"
proof (induction ps arbitrary: h)
  case (Cons p ps)
  then have "wf_layer p" by simp
  from free_layer_releases [OF this] obtain h1 where "loader_free_layer_properties a p h = Some (zero_layer, h1)"
    "live h1 = live h - layer_owned p" by blast
  with Cons.IH [of h1] Cons.prems show ?case by auto
qed simp

lemma delete_layers_correct:
  assumes "wf_layers l"
  shows "\<exists>h'. loader_delete_layer_list_and_properties a l h = Some (empty_generic_list, h') \<and> live h' = live h - layers_owned l"
proof -
  have wf: "wf_generic_list sizeof_loader_layer_properties l" and all: "list_all wf_layer (gl_items l)"
    using assms by (simp_all add: wf_layers_def)
  obtain h1 where h1: "free_layers a (gl_items l) h = Some h1" "live h1 = live h - sum_list (map layer_owned (gl_items l))"
    using free_layers_releases [OF all] by blast
  have "\<exists>h2. (if gl_capacity l > 0 then loader_free a (gl_list l) h1 else Some h1) = Some h2 \<and> live h2 = live h1 - blocks (gl_list l)"
    using wf by (cases "gl_list l") (auto simp: wf_generic_list_def)
  then show ?thesis using h1
    by (auto simp: loader_delete_layer_list_and_properties_def view_layers [OF assms] layers_owned_def)
qed

section \<open>Pointer lists\<close>

definition ok_pointers :: "loader_pointer_layer_list \<Rightarrow> bool" where
  "ok_pointers l = (wf_generic_list 8 l \<and> (gl_capacity l \<le> 256 \<or> gl_capacity l \<le> 1600 * gl_count l))"

lemma add_pointer_correct:
  assumes "ok_pointers l" "gl_count l < 2 ^ 31"
  shows "\<exists>r l' h'. loader_add_layer_properties_to_list a l p h = Some (r, l', h') \<and>
     live h' - blocks (gl_list l') = live h - blocks (gl_list l) \<and>
     (r = VK_SUCCESS \<and> ok_pointers l' \<and> gl_items l' = gl_items l @ [p] \<or>
      r = VK_ERROR_OUT_OF_HOST_MEMORY \<and> gl_items l' = gl_items l)"
proof -
  have wf: "wf_generic_list 8 l" using assms(1) by (simp add: ok_pointers_def)
  have null: "(gl_list l = NULL \<or> gl_capacity l = 0) \<longleftrightarrow> gl_list l = NULL" using wf_generic_capacity [OF wf] by blast
  obtain ok l1 h1 where i: "(if gl_list l = NULL \<or> gl_capacity l = 0 then loader_init_pointer_layer_list a l h else (True, l, h)) = (ok, l1, h1)"
    by (metis prod_cases3)
  have items: "gl_items l1 = gl_items l" and acc: "live h1 - blocks (gl_list l1) = live h - blocks (gl_list l)"
    and good: "ok \<Longrightarrow> ok_pointers l1 \<and> gl_list l1 \<noteq> NULL \<and> gl_count l1 = gl_count l"
    using i assms(1) wf unfolding null
    by (auto simp: loader_init_pointer_layer_list_def loader_calloc_def Let_def gl_items_def ok_pointers_def wf_generic_list_def
        split: if_splits)
  show ?thesis
  proof (cases ok)
    case False
    with i items acc show ?thesis by (simp add: loader_add_layer_properties_to_list_def)
  next
    case True
    with good have ok1: "ok_pointers l1" and cnt1: "gl_count l1 < 2 ^ 31" and ne: "gl_list l1 \<noteq> NULL" using assms(2) by simp_all
    then have wf1: "wf_generic_list 8 l1" by (simp add: ok_pointers_def)
    obtain xs where xs: "gl_list l1 = Buf xs" using ne wf1 by (cases "gl_list l1") (auto simp: wf_generic_list_def)
    have room: "gl_room l1" using ok1 cnt1 by (auto simp: ok_pointers_def gl_room_def)
    have wrap: "(gl_count l1 + 1) mod 2 ^ 32 = gl_count l1 + 1" using cnt1 by simp
    let ?full = "((gl_count l1 + 1) mod 2 ^ 32) * sizeof_loader_layer_properties \<ge> gl_capacity l1"
    have nf: "\<not> ?full \<Longrightarrow> gl_count l1 < length xs"
      using wf1 xs unfolding wrap by (simp add: wf_generic_list_def sizeof_loader_layer_properties_def)
    have start: "loader_add_layer_properties_to_list a l p h = store_at_end a 8 0 0 ?full l1 (\<lambda>_. p) h1"
      using i True by (simp add: loader_add_layer_properties_to_list_def)
    from store_at_end_cases [OF wf1 xs room, of ?full h1 a 0 0 "\<lambda>_. p"] nf obtain h2 where h2: "live h2 = live h1" and
      r: "store_at_end a 8 0 0 ?full l1 (\<lambda>_. p) h1 = Some (VK_ERROR_OUT_OF_HOST_MEMORY, l1, h2) \<or>
        (\<exists>l'. store_at_end a 8 0 0 ?full l1 (\<lambda>_. p) h1 = Some (VK_SUCCESS, l', h2) \<and>
           wf_generic_list 8 l' \<and> gl_items l' = gl_items l1 @ [p] \<and> gl_list l' \<noteq> NULL \<and> gl_count l' = gl_count l1 + 1 \<and>
           gl_capacity l' = (if ?full then gl_capacity l1 * 2 else gl_capacity l1))" by blast
    from r show ?thesis
    proof
      assume "store_at_end a 8 0 0 ?full l1 (\<lambda>_. p) h1 = Some (VK_ERROR_OUT_OF_HOST_MEMORY, l1, h2)"
      then show ?thesis unfolding start using items acc h2 by simp
    next
      assume "\<exists>l'. store_at_end a 8 0 0 ?full l1 (\<lambda>_. p) h1 = Some (VK_SUCCESS, l', h2) \<and>
           wf_generic_list 8 l' \<and> gl_items l' = gl_items l1 @ [p] \<and> gl_list l' \<noteq> NULL \<and> gl_count l' = gl_count l1 + 1 \<and>
           gl_capacity l' = (if ?full then gl_capacity l1 * 2 else gl_capacity l1)"
      then obtain l' where l': "store_at_end a 8 0 0 ?full l1 (\<lambda>_. p) h1 = Some (VK_SUCCESS, l', h2)" "wf_generic_list 8 l'"
        "gl_items l' = gl_items l1 @ [p]" "gl_list l' \<noteq> NULL" "gl_count l' = gl_count l1 + 1"
        "gl_capacity l' = (if ?full then gl_capacity l1 * 2 else gl_capacity l1)" by blast
      have "blocks (gl_list l') = 1" using l'(2,4) by (cases "gl_list l'") (auto simp: wf_generic_list_def)
      moreover have "ok_pointers l'" using l'(2,5,6) ok1 unfolding wrap ok_pointers_def sizeof_loader_layer_properties_def
        by (auto split: if_splits)
      ultimately show ?thesis unfolding start using l' items acc h2 xs by simp
    qed
  qed
qed

interpretation pointers: append_container "loader_add_layer_properties_to_list a" gl_items ok_pointers "2 ^ 31" for a
proof unfold_locales
  fix l e h assume ok: "ok_pointers l" and "length (gl_items l) < 2 ^ 31"
  then have cnt: "gl_count l < 2 ^ 31" using length_gl_items [of 8 l] by (simp add: ok_pointers_def)
  note c = add_pointer_correct [OF ok cnt, of a e h]
  then show "\<exists>r l' h'. loader_add_layer_properties_to_list a l e h = Some (r, l', h')" by blast
  fix r l' h' assume "loader_add_layer_properties_to_list a l e h = Some (r, l', h')"
  with c show "r = VK_SUCCESS \<or> r = VK_ERROR_OUT_OF_HOST_MEMORY" by auto
next
  fix l e h l' h' assume ok: "ok_pointers l" and "length (gl_items l) < 2 ^ 31"
  then have cnt: "gl_count l < 2 ^ 31" using length_gl_items [of 8 l] by (simp add: ok_pointers_def)
  note c = add_pointer_correct [OF ok cnt, of a e h]
  show "loader_add_layer_properties_to_list a l e h = Some (VK_SUCCESS, l', h') \<Longrightarrow> ok_pointers l' \<and> gl_items l' = gl_items l @ [e]"
    and "loader_add_layer_properties_to_list a l e h = Some (VK_ERROR_OUT_OF_HOST_MEMORY, l', h') \<Longrightarrow> gl_items l' = gl_items l"
    using c by auto
qed


section \<open>Properties\<close>

text \<open>freeing a layer's properties is memory-safe, clears the record, and releases exactly the
  blocks it owns: all strings, all lists, all entry points of its device extensions.\<close>

theorem free_layer_properties_contract:
  assumes "wf_layer p"
  shows "\<exists>h'. loader_free_layer_properties a p h = Some (zero_layer, h') \<and> live h' = live h - layer_owned p"
  by (rule free_layer_releases [OF assms])

abbreviation sample_layer :: "string \<Rightarrow> loader_layer_properties" where
  "sample_layer name \<equiv> zero_layer\<lparr>info := (info zero_layer)\<lparr>layerName := name\<rparr>, type_flags := 3, lib_name := Some ''l.so''\<rparr>"

lemma wf_sample_layer: "wf_layer (sample_layer name)"
  by (simp add: wf_layer_def zero_layer_def)

theorem free_layer_properties_contract_witness:
  "wf_layer (sample_layer ''A'') \<and>
   (\<exists>h'. loader_free_layer_properties None (sample_layer ''A'') (sample_heap True) = Some (zero_layer, h') \<and>
         live h' = live (sample_heap True) - layer_owned (sample_layer ''A''))"
  using wf_sample_layer free_layer_properties_contract [OF wf_sample_layer] by blast

text \<open>appending a layer moves it into the list or, when memory runs out, frees it; in both cases
  the caller's record is cleared, the list stays well-formed and no block is lost.\<close>

theorem append_layer_property_contract:
  assumes "wf_layers l" and "gl_room l" and "wf_layer p"
  shows "\<exists>r l' h'. loader_append_layer_property a l p h = Some (r, l', zero_layer, h') \<and> wf_layers l' \<and>
     live h' - layers_owned l' = live h - layers_owned l - layer_owned p \<and>
     (r = VK_SUCCESS \<and> gl_items l' = gl_items l @ [p] \<or> r = VK_ERROR_OUT_OF_HOST_MEMORY \<and> gl_items l' = gl_items l)"
  using append_layer_correct [OF assms, of a h] by blast

abbreviation no_layers :: loader_layer_list where
  "no_layers \<equiv> empty_generic_list"

lemma wf_no_layers: "wf_layers no_layers"
  by (simp add: wf_layers_def)

theorem append_layer_property_contract_witness:
  "wf_layers no_layers \<and> gl_room no_layers \<and> wf_layer (sample_layer ''A'') \<and>
   (\<exists>r l' h'. loader_append_layer_property None no_layers (sample_layer ''A'') (sample_heap True) = Some (r, l', zero_layer, h') \<and>
      wf_layers l' \<and> (r = VK_SUCCESS \<and> gl_items l' = [sample_layer ''A''] \<or> r = VK_ERROR_OUT_OF_HOST_MEMORY \<and> gl_items l' = []))"
proof -
  have "gl_items no_layers = []" "gl_room no_layers" by simp_all
  then show ?thesis
    using append_layer_property_contract [OF wf_no_layers _ wf_sample_layer [of "''A''"], of None "sample_heap True"]
      wf_no_layers wf_sample_layer [of "''A''"] by fastforce
qed

text \<open>C21: with an override layer in the list, exactly the layers its blacklist names are removed (the
  override layer itself excepted), in order and without leaks.\<close>

theorem blacklist_removes_exactly:
  assumes "wf_layers l" and "find is_override_name (gl_items l) = Some ov"
  shows "\<exists>l' h'. loader_remove_layers_in_blacklist a l h = Some (l', h') \<and> wf_layers l' \<and>
     gl_items l' = filter (\<lambda>q. layer_name q = VK_OVERRIDE_LAYER_NAME \<or>
                                layer_name q \<notin> set (sl_strings (blacklist_layer_names ov))) (gl_items l) \<and>
     live h' - layers_owned l' = live h - layers_owned l"
proof -
  obtain k where idx: "find_index_from is_override_name 0 (gl_items l) = Some k"
    using assms(2) find_index_from_None [of is_override_name 0 "gl_items l"] by auto
  have P: "(\<lambda>q. is_override_name q \<or> layer_name q \<notin> set (sl_strings (blacklist_layer_names ov))) =
      (\<lambda>q. layer_name q = VK_OVERRIDE_LAYER_NAME \<or> layer_name q \<notin> set (sl_strings (blacklist_layer_names ov)))" by auto
  show ?thesis
    using remove_blacklisted_correct [OF assms(1) _ idx assms(2), of 0 a h]
    by (simp add: loader_remove_layers_in_blacklist_def find_layer_property_wf [OF assms(1)] idx P)
qed

definition list_of :: "loader_layer_properties list \<Rightarrow> loader_layer_list" where
  "list_of ps = \<lparr>gl_capacity = sizeof_loader_layer_properties * length ps, gl_count = length ps, gl_list = Buf ps\<rparr>"

lemma wf_list_of: "ps \<noteq> [] \<Longrightarrow> list_all wf_layer ps \<Longrightarrow> wf_layers (list_of ps)"
  and items_list_of [simp]: "gl_items (list_of ps) = ps"
  by (simp_all add: wf_layers_def wf_generic_list_def list_of_def gl_items_def sizeof_loader_layer_properties_def)

abbreviation sample_override :: loader_layer_properties where
  "sample_override \<equiv> (sample_layer VK_OVERRIDE_LAYER_NAME)
     \<lparr>blacklist_layer_names := \<lparr>sl_allocated_count = 1, sl_count = 1, sl_list = Buf [Some ''B'']\<rparr>\<rparr>"

theorem blacklist_removes_exactly_witness:
  "wf_layers (list_of [sample_layer ''A'', sample_layer ''B'', sample_override]) \<and>
   find is_override_name (gl_items (list_of [sample_layer ''A'', sample_layer ''B'', sample_override])) = Some sample_override \<and>
   (\<exists>l' h'. loader_remove_layers_in_blacklist None (list_of [sample_layer ''A'', sample_layer ''B'', sample_override])
      (sample_heap True) = Some (l', h') \<and> gl_items l' = [sample_layer ''A'', sample_override])"
proof -
  have wf: "wf_layers (list_of [sample_layer ''A'', sample_layer ''B'', sample_override])"
    by (rule wf_list_of) (simp_all add: wf_layer_def zero_layer_def wf_string_list_def empty_string_list_def)
  have f: "find is_override_name (gl_items (list_of [sample_layer ''A'', sample_layer ''B'', sample_override])) = Some sample_override"
    by (simp add: VK_OVERRIDE_LAYER_NAME_def)
  have "filter (\<lambda>q. layer_name q = VK_OVERRIDE_LAYER_NAME \<or> layer_name q \<notin> set (sl_strings (blacklist_layer_names sample_override)))
      (gl_items (list_of [sample_layer ''A'', sample_layer ''B'', sample_override])) = [sample_layer ''A'', sample_override]"
    by (simp add: VK_OVERRIDE_LAYER_NAME_def sl_strings_def)
  with wf f blacklist_removes_exactly [OF wf f, of None "sample_heap True"] show ?thesis by metis
qed

text \<open>C22: the implicit meta-layer pass keeps exactly the implicit layers and the explicit layers that
  some other meta-layer, implicit or explicit, names as a component.  (By its name, its comment and its log message it would
  remove the layers that only explicit meta-layers name; the code does not look at the type of the meta-layer.)\<close>

theorem implicit_meta_pass_keeps_exactly:
  assumes "wf_layers l"
  shows "\<exists>l' h'. loader_remove_layers_not_in_implicit_meta_layers a l h = Some (l', h') \<and> wf_layers l' \<and>
     gl_items l' = map (\<lambda>k. (gl_items l ! k)\<lparr>keep := True\<rparr>) (filter (keep_flag (gl_items l)) [0..<length (gl_items l)]) \<and>
     live h' - layers_owned l' = live h - layers_owned l"
  by (rule remove_not_in_meta_correct [OF assms])

theorem implicit_meta_pass_keeps_exactly_witness:
  "wf_layers (list_of [sample_layer ''A'', (sample_layer ''I'')\<lparr>type_flags := 1\<rparr>]) \<and>
   (\<exists>l' h'. loader_remove_layers_not_in_implicit_meta_layers None
        (list_of [sample_layer ''A'', (sample_layer ''I'')\<lparr>type_flags := 1\<rparr>]) (sample_heap True) = Some (l', h') \<and>
      gl_items l' = [(sample_layer ''I'')\<lparr>type_flags := 1, keep := True\<rparr>])"
proof -
  let ?ps = "[sample_layer ''A'', (sample_layer ''I'')\<lparr>type_flags := 1\<rparr>]"
  have wf: "wf_layers (list_of ?ps)"
    by (rule wf_list_of) (simp_all add: wf_layer_def zero_layer_def)
  have k: "keep_flag ?ps 0 = False" "keep_flag ?ps 1 = True"
    by (auto simp: keep_flag_def flag_explicit_def flag_meta_def less_Suc_eq bit_iff_odd)
  have "map (\<lambda>k. (?ps ! k)\<lparr>keep := True\<rparr>) (filter (keep_flag ?ps) [0..<length ?ps]) =
      [(sample_layer ''I'')\<lparr>type_flags := 1, keep := True\<rparr>]"
    using k by (simp add: upt_rec numeral_2_eq_2)
  with wf implicit_meta_pass_keeps_exactly [OF wf, of None "sample_heap True"] show ?thesis
    unfolding items_list_of by metis
qed

text \<open>when no layer name occurs more than twice, duplicate removal leaves each name once, keeps
  every name and the order, and leaks nothing.\<close>

theorem remove_duplicates_up_to_two:
  assumes "wf_layers l" and "\<And>x. count (mset (map layer_name (gl_items l))) x \<le> 2"
  shows "\<exists>l' h'. loader_remove_duplicate_layers a l h = Some (l', h') \<and> wf_layers l' \<and>
     distinct (map layer_name (gl_items l')) \<and>
     set (map layer_name (gl_items l')) = set (map layer_name (gl_items l)) \<and> subseq (gl_items l') (gl_items l) \<and>
     live h' - layers_owned l' = live h - layers_owned l"
  unfolding loader_remove_duplicate_layers_def
  using remove_duplicates_correct [OF assms(1) _ _ assms(2), of 0 a h] by simp


theorem remove_duplicates_up_to_two_witness:
  "wf_layers (list_of [sample_layer ''A'', sample_layer ''A'']) \<and>
   (\<forall>x. count (mset (map layer_name (gl_items (list_of [sample_layer ''A'', sample_layer ''A''])))) x \<le> 2) \<and>
   (\<exists>l' h'. loader_remove_duplicate_layers None (list_of [sample_layer ''A'', sample_layer ''A'']) (sample_heap True) = Some (l', h') \<and>
      distinct (map layer_name (gl_items l')) \<and> set (map layer_name (gl_items l')) = {''A''})"
proof -
  have wf: "wf_layers (list_of [sample_layer ''A'', sample_layer ''A''])"
    by (rule wf_list_of) (simp_all add: wf_layer_def zero_layer_def)
  have c: "\<And>x. count (mset (map layer_name (gl_items (list_of [sample_layer ''A'', sample_layer ''A''])))) x \<le> 2"
    by simp
  from remove_duplicates_up_to_two [OF wf c, of None "sample_heap True"] wf c show ?thesis by auto
qed

text \<open>three layers of the same name are not reduced to one: each index removes at most one later
  duplicate, so the first and the third survive.\<close>

theorem remove_duplicates_leaves_third_copy:
  assumes "wf_layers l" and "gl_items l = [p, q, r]" and "layer_name q = layer_name p" and "layer_name r = layer_name p"
  shows "\<exists>l' h'. loader_remove_duplicate_layers a l h = Some (l', h') \<and> gl_items l' = [p, r]"
proof -
  have n: "gl_count l = 3" using length_layers [OF assms(1)] assms(2) by simp
  obtain l1 h1 where rm: "loader_remove_layer_in_list a l 1 h = Some (l1, h1)" and l1: "wf_layers l1" "gl_items l1 = [p, r]" "gl_count l1 = 2"
    using remove_layer_correct [OF assms(1), of 1 a h] n assms(2) by (auto simp: drop_nth_def)
  have "remove_duplicates_from a l 0 h = remove_duplicates_from a l1 1 h1"
    using n assms(2,3) rm by (subst remove_duplicates_from.simps) (simp add: view_layers [OF assms(1)])
  also have "\<dots> = remove_duplicates_from a l1 2 h1"
    using l1 by (subst remove_duplicates_from.simps) (simp add: view_layers numeral_2_eq_2)
  also have "\<dots> = Some (l1, h1)" using l1 by (subst remove_duplicates_from.simps) simp
  finally show ?thesis using l1(2) by (simp add: loader_remove_duplicate_layers_def)
qed

theorem remove_duplicates_leaves_third_copy_witness:
  "wf_layers (list_of [sample_layer ''A'', sample_layer ''A'', sample_layer ''A'']) \<and>
   (\<exists>l' h'. loader_remove_duplicate_layers None (list_of [sample_layer ''A'', sample_layer ''A'', sample_layer ''A'']) (sample_heap True) =
      Some (l', h') \<and> gl_items l' = [sample_layer ''A'', sample_layer ''A''])"
proof -
  have wf: "wf_layers (list_of [sample_layer ''A'', sample_layer ''A'', sample_layer ''A''])"
    by (rule wf_list_of) (simp_all add: wf_layer_def zero_layer_def)
  from remove_duplicates_leaves_third_copy [OF wf, of "sample_layer ''A''" "sample_layer ''A''" "sample_layer ''A''" None "sample_heap True"] wf
  show ?thesis by simp
qed

text \<open>adding a pointer to a list of layers is memory-safe although its capacity test mixes the size
  of a layer with the size of a pointer: the array always has the cell that is written.\<close>

theorem add_layer_pointer_contract:
  assumes "ok_pointers l" and "gl_count l < 2 ^ 31"
  shows "\<exists>r l' h'. loader_add_layer_properties_to_list a l p h = Some (r, l', h') \<and>
     live h' - blocks (gl_list l') = live h - blocks (gl_list l) \<and>
     (r = VK_SUCCESS \<and> ok_pointers l' \<and> gl_items l' = gl_items l @ [p] \<or>
      r = VK_ERROR_OUT_OF_HOST_MEMORY \<and> gl_items l' = gl_items l)"
  by (rule add_pointer_correct [OF assms])

abbreviation no_pointers :: loader_pointer_layer_list where
  "no_pointers \<equiv> empty_generic_list"

theorem add_layer_pointer_contract_witness:
  "ok_pointers no_pointers \<and> gl_count no_pointers < 2 ^ 31 \<and>
   (\<exists>r l' h'. loader_add_layer_properties_to_list None no_pointers 7 (sample_heap True) = Some (r, l', h') \<and>
      live h' - blocks (gl_list l') = live (sample_heap True) - blocks (gl_list no_pointers) \<and>
      (r = VK_SUCCESS \<and> ok_pointers l' \<and> gl_items l' = gl_items no_pointers @ [7] \<or>
       r = VK_ERROR_OUT_OF_HOST_MEMORY \<and> gl_items l' = gl_items no_pointers))"
proof -
  have a: "ok_pointers no_pointers" by (simp add: ok_pointers_def)
  have b: "gl_count no_pointers < 2 ^ 31" by simp
  show ?thesis by (intro conjI a b add_layer_pointer_contract [OF a b])
qed

end
