(* ===== verification/EnvFilter.thy ===== *)
theory EnvFilter
  imports Allocation
begin

text \<open>
  The environment-variable filters of \<^verbatim>\<open>src/loader/loader_environment.c\<close> (Linux build with
  \<^verbatim>\<open>secure_getenv\<close>): reading variables, classifying filter strings, parsing the enable,
  disable and allow lists into the fixed arrays of \<^verbatim>\<open>struct loader_envvar_filter\<close>, matching names
  against them, and the numeric id filters.  Reads past the end of a string or of an array are
  undefined behaviour, \<open>None\<close>.
\<close>

section \<open>Reading the environment\<close>

record process =
  proc_env :: "string \<Rightarrow> string option"
  proc_secure_mode :: bool \<comment> \<open>the process gained privileges (\<^verbatim>\<open>AT_SECURE\<close>)\<close>

definition loader_getenv :: "process \<Rightarrow> string option \<Rightarrow> string option" where
  "loader_getenv p name = (case name of None \<Rightarrow> None | Some n \<Rightarrow> proc_env p n)"

definition loader_secure_getenv :: "process \<Rightarrow> string \<Rightarrow> string option" where
  "loader_secure_getenv p name = (if proc_secure_mode p then None else proc_env p name)"

definition VK_LAYERS_ENABLE_ENV_VAR :: string where "VK_LAYERS_ENABLE_ENV_VAR = ''VK_LOADER_LAYERS_ENABLE''"
definition VK_LAYERS_DISABLE_ENV_VAR :: string where "VK_LAYERS_DISABLE_ENV_VAR = ''VK_LOADER_LAYERS_DISABLE''"
definition VK_LAYERS_ALLOW_ENV_VAR :: string where "VK_LAYERS_ALLOW_ENV_VAR = ''VK_LOADER_LAYERS_ALLOW''"

definition DISABLE_ALL_VARS :: "string list" where
  "DISABLE_ALL_VARS = [''~all~'', ''*'', ''**'']"

section \<open>Filter strings\<close>

datatype loader_filter_string_type =
    FILTER_STRING_FULLNAME
  | FILTER_STRING_SUBSTRING
  | FILTER_STRING_PREFIX
  | FILTER_STRING_SUFFIX
  | FILTER_STRING_SPECIAL

record loader_envvar_filter_value =
  fv_value :: string
  fv_length :: nat
  fv_type :: loader_filter_string_type

text \<open>The array of \<^verbatim>\<open>MAX_ADDITIONAL_FILTERS\<close> entries, of which the first \<^verbatim>\<open>count\<close> are in use.\<close>

type_synonym loader_envvar_filter = "loader_envvar_filter_value list"

definition MAX_ADDITIONAL_FILTERS :: nat where "MAX_ADDITIONAL_FILTERS = 16"
definition VK_MAX_EXTENSION_NAME_SIZE :: nat where "VK_MAX_EXTENSION_NAME_SIZE = 256"

record loader_envvar_disable_layers_filter =
  additional_filters :: loader_envvar_filter
  disable_all :: bool
  disable_all_implicit :: bool
  disable_all_explicit :: bool

record loader_envvar_all_filters =
  enable_filter :: loader_envvar_filter
  disable_filter :: loader_envvar_disable_layers_filter
  allow_filter :: loader_envvar_filter

text \<open>
  \<^verbatim>\<open>determine_filter_type\<close>: the type, the offset of \<^verbatim>\<open>new_start\<close> and \<^verbatim>\<open>new_length\<close>.  The code
  assigns the special type first (\<open>out1\<close>, \<open>out2\<close>) and then always enters one branch of the
  final chain, which assigns again.  An empty string makes it read before the string.
\<close>

definition determine_filter_type :: "string \<Rightarrow> (loader_filter_string_type \<times> nat \<times> nat) option" where
  "determine_filter_type s =
     (let n = length s in
      if n = 0 then None
      else if s ! 0 = CHR ''~'' then Some (FILTER_STRING_SPECIAL, 0, n)
      else
        (let (out1 :: (loader_filter_string_type \<times> nat \<times> nat) option, star_begin) =
               (if s ! 0 = CHR ''*''
                then (if n = 1 then (Some (FILTER_STRING_SPECIAL, 0, n), False) else (None, True))
                else (None, False));
             (out2, star_end) =
               (if s ! (n - 1) = CHR ''*''
                then (if n = 2 then (Some (FILTER_STRING_SPECIAL, 0, n), False) else (out1, True))
                else (out1, False))
         in if star_begin \<and> star_end then Some (FILTER_STRING_SUBSTRING, 1, n - 2)
            else if star_begin then Some (FILTER_STRING_SUFFIX, 1, n - 1)
            else if star_end then Some (FILTER_STRING_PREFIX, 0, n - 1)
            else Some (FILTER_STRING_FULLNAME, 0, n)))"

text \<open>Storing one filter: the length is clamped to the buffer, the array has sixteen slots.\<close>

definition stored_filter ::
  "string \<Rightarrow> loader_filter_string_type \<Rightarrow> nat \<Rightarrow> nat \<Rightarrow> loader_envvar_filter_value" where
  "stored_filter tok ftype start actual_len =
     (let stored_len = (if actual_len < VK_MAX_EXTENSION_NAME_SIZE - 1 then actual_len
                        else VK_MAX_EXTENSION_NAME_SIZE - 1)
      in \<lparr>fv_value = strncpy (drop start tok) stored_len, fv_length = stored_len, fv_type = ftype\<rparr>)"

definition store_filter ::
  "loader_envvar_filter \<Rightarrow> loader_envvar_filter_value \<Rightarrow> loader_envvar_filter option" where
  "store_filter fs f = (if length fs < MAX_ADDITIONAL_FILTERS then Some (fs @ [f]) else None)"

text \<open>The token loop of \<^verbatim>\<open>parse_generic_filter_environment_var\<close>.\<close>

fun parse_generic_tokens :: "loader_envvar_filter \<Rightarrow> string \<Rightarrow> loader_envvar_filter option" where
  "parse_generic_tokens fs s =
     (case strtok_r '','' s of
        None \<Rightarrow> Some fs
      | Some (tok, rest) \<Rightarrow>
          (case determine_filter_type tok of
             None \<Rightarrow> None
           | Some (ftype, start, actual_len) \<Rightarrow>
               (case store_filter fs (stored_filter tok ftype start actual_len) of
                  None \<Rightarrow> None
                | Some fs' \<Rightarrow>
                    if length fs' \<ge> MAX_ADDITIONAL_FILTERS then Some fs'
                    else parse_generic_tokens fs' rest)))"

declare parse_generic_tokens.simps [simp del]

definition parse_generic_filter_environment_var ::
  "process \<Rightarrow> allocator \<Rightarrow> string \<Rightarrow> heap \<Rightarrow> (VkResult \<times> loader_envvar_filter \<times> heap) option" where
  "parse_generic_filter_environment_var p a env_var_name h =
     (case loader_secure_getenv p env_var_name of
        None \<Rightarrow> Some (VK_SUCCESS, [], h)
      | Some env_var_value \<Rightarrow>
          if length env_var_value = 0 then Some (VK_SUCCESS, [], h)
          else if \<not> succeeds h then Some (VK_ERROR_OUT_OF_HOST_MEMORY, [], tick h)
          else do {
            fs \<leftarrow> parse_generic_tokens [] (map tolower env_var_value);
            Some (VK_SUCCESS, fs, add_live (- 1) (add_live 1 (tick h)))
          })"

text \<open>The token loop of \<^verbatim>\<open>parse_layers_disable_filter_environment_var\<close>.\<close>

definition empty_disable_filter :: loader_envvar_disable_layers_filter where
  "empty_disable_filter = \<lparr>additional_filters = [], disable_all = False,
     disable_all_implicit = False, disable_all_explicit = False\<rparr>"

fun parse_disable_tokens ::
  "loader_envvar_disable_layers_filter \<Rightarrow> string \<Rightarrow> loader_envvar_disable_layers_filter option" where
  "parse_disable_tokens d s =
     (case strtok_r '','' s of
        None \<Rightarrow> Some d
      | Some (tok, rest) \<Rightarrow>
          (case determine_filter_type tok of
             None \<Rightarrow> None
           | Some (ftype, start, actual_len) \<Rightarrow>
               if ftype = FILTER_STRING_SPECIAL then
                 parse_disable_tokens
                   (if tok \<in> set DISABLE_ALL_VARS then d\<lparr>disable_all := True\<rparr>
                    else if tok = ''~implicit~'' then d\<lparr>disable_all_implicit := True\<rparr>
                    else if tok = ''~explicit~'' then d\<lparr>disable_all_explicit := True\<rparr>
                    else d) rest
               else
                 (case store_filter (additional_filters d) (stored_filter tok ftype start actual_len) of
                    None \<Rightarrow> None
                  | Some fs' \<Rightarrow>
                      if length fs' \<ge> MAX_ADDITIONAL_FILTERS then Some (d\<lparr>additional_filters := fs'\<rparr>)
                      else parse_disable_tokens (d\<lparr>additional_filters := fs'\<rparr>) rest)))"

declare parse_disable_tokens.simps [simp del]

definition parse_layers_disable_filter_environment_var ::
  "process \<Rightarrow> allocator \<Rightarrow> heap \<Rightarrow> (VkResult \<times> loader_envvar_disable_layers_filter \<times> heap) option" where
  "parse_layers_disable_filter_environment_var p a h =
     (case loader_secure_getenv p VK_LAYERS_DISABLE_ENV_VAR of
        None \<Rightarrow> Some (VK_SUCCESS, empty_disable_filter, h)
      | Some env_var_value \<Rightarrow>
          if length env_var_value = 0 then Some (VK_SUCCESS, empty_disable_filter, h)
          else if \<not> succeeds h then Some (VK_ERROR_OUT_OF_HOST_MEMORY, empty_disable_filter, tick h)
          else do {
            d \<leftarrow> parse_disable_tokens empty_disable_filter (map tolower env_var_value);
            Some (VK_SUCCESS, d, add_live (- 1) (add_live 1 (tick h)))
          })"

definition parse_layer_environment_var_filters ::
  "process \<Rightarrow> allocator \<Rightarrow> loader_envvar_all_filters \<Rightarrow> heap \<Rightarrow>
     (VkResult \<times> loader_envvar_all_filters \<times> heap) option" where
  "parse_layer_environment_var_filters p a layer_filters h = do {
     (res, enable, h) \<leftarrow> parse_generic_filter_environment_var p a VK_LAYERS_ENABLE_ENV_VAR h;
     let layer_filters = layer_filters\<lparr>enable_filter := enable\<rparr>;
     (if res \<noteq> VK_SUCCESS then Some (res, layer_filters, h)
      else do {
        (res, disable, h) \<leftarrow> parse_layers_disable_filter_environment_var p a h;
        let layer_filters = layer_filters\<lparr>disable_filter := disable\<rparr>;
        (if res \<noteq> VK_SUCCESS then Some (res, layer_filters, h)
         else do {
           (res, allow, h) \<leftarrow> parse_generic_filter_environment_var p a VK_LAYERS_ALLOW_ENV_VAR h;
           Some (res, layer_filters\<lparr>allow_filter := allow\<rparr>, h)
         })
      })
   }"

section \<open>Matching names\<close>

fun name_segment_matches_filter_value :: "string \<Rightarrow> string \<Rightarrow> nat \<Rightarrow> bool option" where
  "name_segment_matches_filter_value name_segment lowercase_filter_value 0 = Some True"
| "name_segment_matches_filter_value (c # cs) (v # vs) (Suc n) =
     (if tolower c \<noteq> v then Some False else name_segment_matches_filter_value cs vs n)"
| "name_segment_matches_filter_value _ _ (Suc n) = None"

function slide_filter :: "string \<Rightarrow> loader_envvar_filter_value \<Rightarrow> nat \<Rightarrow> bool option" where
  "slide_filter name f start =
     (if start + fv_length f \<le> length name then
        (case name_segment_matches_filter_value (drop start name) (fv_value f) (fv_length f) of
           None \<Rightarrow> None
         | Some m \<Rightarrow> if m then Some True else slide_filter name f (start + 1))
      else Some False)"
  by pat_completeness auto
termination
  by (relation "measure (\<lambda>(name, f, start). Suc (length name) - start)") auto

declare slide_filter.simps [simp del]

definition check_one_filter :: "string \<Rightarrow> loader_envvar_filter_value \<Rightarrow> bool option" where
  "check_one_filter name f =
     (case fv_type f of
        FILTER_STRING_SPECIAL \<Rightarrow> Some (fv_value f \<in> set DISABLE_ALL_VARS)
      | FILTER_STRING_SUBSTRING \<Rightarrow> slide_filter name f 0
      | FILTER_STRING_SUFFIX \<Rightarrow>
          name_segment_matches_filter_value (drop (length name - fv_length f) name) (fv_value f) (fv_length f)
      | FILTER_STRING_PREFIX \<Rightarrow> name_segment_matches_filter_value name (fv_value f) (fv_length f)
      | FILTER_STRING_FULLNAME \<Rightarrow>
          (if length name = fv_length f
           then name_segment_matches_filter_value name (fv_value f) (fv_length f) else Some False))"

fun check_name_matches_filter_environment_var :: "string \<Rightarrow> loader_envvar_filter \<Rightarrow> bool option" where
  "check_name_matches_filter_environment_var name [] = Some False"
| "check_name_matches_filter_environment_var name (f # fs) =
     (if fv_length f > length name then check_name_matches_filter_environment_var name fs
      else do {
        ret_value \<leftarrow> check_one_filter name f;
        (if ret_value then Some True else check_name_matches_filter_environment_var name fs)
      })"


section \<open>Numeric id filters\<close>

text \<open>\<^verbatim>\<open>strtoul\<close> with base 0 and a 64-bit \<^verbatim>\<open>unsigned long\<close>: the value and the text from \<^verbatim>\<open>pEnd\<close> on.\<close>

definition strtoul_base :: "string \<Rightarrow> nat \<times> string" where
  "strtoul_base s =
     (case s of
        a # b # cs \<Rightarrow>
          (if a = CHR ''0'' \<and> (b = CHR ''x'' \<or> b = CHR ''X'') \<and>
              (case cs of d # _ \<Rightarrow> digit_val d \<noteq> None | [] \<Rightarrow> False) then (16, cs)
           else if a = CHR ''0'' then (8, s) else (10, s))
      | _ \<Rightarrow> (10, s))"

definition strtoul :: "string \<Rightarrow> nat \<times> string" where
  "strtoul s =
     (let s1 = dropWhile isspace s;
          neg = (s1 \<noteq> [] \<and> hd s1 = CHR ''-'');
          s2 = (if s1 \<noteq> [] \<and> (hd s1 = CHR ''-'' \<or> hd s1 = CHR ''+'') then tl s1 else s1);
          (base, s3) = strtoul_base s2
      in case s3 of
           [] \<Rightarrow> (0, s)
         | c # _ \<Rightarrow>
             (case digit_val c of
                None \<Rightarrow> (0, s)
              | Some d \<Rightarrow>
                  if d < base then
                    (case read_digits base 0 s3 of (v, rest) \<Rightarrow>
                       (if v \<ge> 2 ^ 64 then 2 ^ 64 - 1
                        else if neg then (2 ^ 64 - v) mod 2 ^ 64 else v, rest))
                  else (0, s)))"

record loader_envvar_id_filter_value =
  id_begin :: nat
  id_end :: nat

record loader_envvar_id_filter =
  idf_count :: nat
  idf_filters :: "loader_envvar_id_filter_value buf"

definition id_filter_of :: "string \<Rightarrow> loader_envvar_id_filter_value" where
  "id_filter_of tok =
     (case strtoul tok of (v, pEnd) \<Rightarrow>
        \<lparr>id_begin = v mod 2 ^ 32,
         id_end = (case pEnd of [] \<Rightarrow> v mod 2 ^ 32 | _ # pEnd' \<Rightarrow> fst (strtoul pEnd') mod 2 ^ 32)\<rparr>)"

fun parse_id_tokens :: "loader_envvar_id_filter \<Rightarrow> string \<Rightarrow> loader_envvar_id_filter option" where
  "parse_id_tokens f s =
     (case strtok_r '','' s of
        None \<Rightarrow> Some f
      | Some (tok, rest) \<Rightarrow>
          (case buf_write (idf_filters f) (idf_count f) (id_filter_of tok) of
             None \<Rightarrow> None
           | Some cells \<Rightarrow>
               parse_id_tokens \<lparr>idf_count = idf_count f + 1, idf_filters = cells\<rparr> rest))"

declare parse_id_tokens.simps [simp del]

text \<open>The result of the array allocation is not checked by the code.\<close>

definition parse_id_filter_environment_var ::
  "process \<Rightarrow> allocator \<Rightarrow> loader_envvar_id_filter_value \<Rightarrow> string \<Rightarrow> heap \<Rightarrow>
     (loader_envvar_id_filter \<times> heap) option" where
  "parse_id_filter_environment_var p a junk env_var_name h =
     (case loader_secure_getenv p env_var_name of
        None \<Rightarrow> Some (\<lparr>idf_count = 0, idf_filters = NULL\<rparr>, h)
      | Some env_var_value \<Rightarrow>
          if length env_var_value = 0 then Some (\<lparr>idf_count = 0, idf_filters = NULL\<rparr>, h)
          else
            (let num_commas = length (filter (\<lambda>c. c = CHR '','') env_var_value);
                 (cells, h') = loader_alloc a junk (num_commas + 1) h
             in do {
               f \<leftarrow> parse_id_tokens \<lparr>idf_count = 0, idf_filters = cells\<rparr> (map tolower env_var_value);
               Some (f, h')
             }))"

fun check_id_from :: "nat \<Rightarrow> loader_envvar_id_filter_value buf \<Rightarrow> nat \<Rightarrow> nat \<Rightarrow> bool option" where
  "check_id_from ident cells i 0 = Some False"
| "check_id_from ident cells i (Suc n) = do {
     f \<leftarrow> buf_read cells i;
     (if id_begin f \<le> ident \<and> ident \<le> id_end f then Some True else check_id_from ident cells (Suc i) n)
   }"

definition check_id_matches_filter_environment_var :: "nat \<Rightarrow> loader_envvar_id_filter \<Rightarrow> bool option" where
  "check_id_matches_filter_environment_var ident f = check_id_from ident (idf_filters f) 0 (idf_count f)"

definition free_id_filters :: "allocator \<Rightarrow> loader_envvar_id_filter \<Rightarrow> heap \<Rightarrow> heap option" where
  "free_id_filters a f h = (if idf_filters f = NULL then Some h else loader_free a (idf_filters f) h)"


section \<open>Lemmas on parsing\<close>

lemma determine_filter_type_nonempty:
  assumes "s \<noteq> []"
  shows "\<exists>t start len. determine_filter_type s = Some (t, start, len) \<and> start + len \<le> length s"
  using assms by (cases s) (auto simp: determine_filter_type_def Let_def)

definition filter_of :: "string \<Rightarrow> loader_envvar_filter_value" where
  "filter_of tok = (case determine_filter_type tok of
     Some (t, start, len) \<Rightarrow> stored_filter tok t start len
   | None \<Rightarrow> \<lparr>fv_value = [], fv_length = 0, fv_type = FILTER_STRING_SPECIAL\<rparr>)"

definition wf_filter :: "loader_envvar_filter_value \<Rightarrow> bool" where
  "wf_filter f = (length (fv_value f) = fv_length f \<and> fv_length f < VK_MAX_EXTENSION_NAME_SIZE)"

lemma wf_filter_of: "tok \<noteq> [] \<Longrightarrow> wf_filter (filter_of tok)"
  using determine_filter_type_nonempty [of tok]
  by (auto simp: filter_of_def stored_filter_def wf_filter_def VK_MAX_EXTENSION_NAME_SIZE_def
      Let_def strncpy_def)

lemma parse_generic_tokens_step:
  assumes "strtok_r '','' s = Some (tok, rest)" and "length fs < MAX_ADDITIONAL_FILTERS"
  shows "parse_generic_tokens fs s =
     (if Suc (length fs) \<ge> MAX_ADDITIONAL_FILTERS then Some (fs @ [filter_of tok])
      else parse_generic_tokens (fs @ [filter_of tok]) rest)"
  using strtok_r_token(1) [OF assms(1)] determine_filter_type_nonempty [of tok] assms
  by (auto simp: parse_generic_tokens.simps [of fs s] filter_of_def store_filter_def)

lemma parse_generic_tokens_correct:
  assumes "length fs < MAX_ADDITIONAL_FILTERS"
  shows "parse_generic_tokens fs s =
     Some (fs @ map filter_of (take (MAX_ADDITIONAL_FILTERS - length fs) (tokens '','' s)))"
  using assms
proof (induction "length s" arbitrary: fs s rule: less_induct)
  case less
  show ?case
  proof (cases "strtok_r '','' s")
    case None
    then show ?thesis by (simp add: parse_generic_tokens.simps [of fs s] tokens_None)
  next
    case (Some tr)
    then obtain t r where st: "strtok_r '','' s = Some (t, r)" by (cases tr) auto
    note step = parse_generic_tokens_step [OF st less.prems]
    show ?thesis
    proof (cases "Suc (length fs) \<ge> MAX_ADDITIONAL_FILTERS")
      case True
      with less.prems have "MAX_ADDITIONAL_FILTERS - length fs = 1" by simp
      with True show ?thesis by (simp add: step tokens_Some [OF st])
    next
      case False
      with less.hyps [OF strtok_r_shorter [OF st], of "fs @ [filter_of t]"]
      have "parse_generic_tokens (fs @ [filter_of t]) r =
        Some ((fs @ [filter_of t]) @ map filter_of (take (MAX_ADDITIONAL_FILTERS - Suc (length fs)) (tokens '','' r)))"
        by simp
      moreover have "MAX_ADDITIONAL_FILTERS - length fs = Suc (MAX_ADDITIONAL_FILTERS - Suc (length fs))"
        using False by simp
      ultimately show ?thesis using False by (simp add: step tokens_Some [OF st])
    qed
  qed
qed

section \<open>Lemmas on matching\<close>

lemma segment_matches_correct:
  assumes "n \<le> length name" and "n \<le> length v"
  shows "name_segment_matches_filter_value name v n = Some (map tolower (take n name) = take n v)"
  using assms
proof (induction n arbitrary: name v)
  case 0
  then show ?case by simp
next
  case (Suc n)
  then obtain c cs w ws where "name = c # cs" "v = w # ws" by (metis Suc_le_length_iff)
  with Suc show ?case by auto
qed

lemma slide_filter_correct:
  assumes "wf_filter f"
  shows "slide_filter name f start =
    Some (\<exists>k\<ge>start. k + fv_length f \<le> length name \<and>
            map tolower (take (fv_length f) (drop k name)) = fv_value f)"
  using assms
proof (induction name f start rule: slide_filter.induct)
  case (1 name f start)
  let ?hit = "\<lambda>k. map tolower (take (fv_length f) (drop k name)) = fv_value f"
  show ?case
  proof (cases "start + fv_length f \<le> length name")
    case False
    then show ?thesis by (auto simp: slide_filter.simps [of name f start])
  next
    case True
    with "1.prems" have seg: "name_segment_matches_filter_value (drop start name) (fv_value f) (fv_length f) =
        Some (?hit start)"
      by (subst segment_matches_correct) (auto simp: wf_filter_def)
    show ?thesis
    proof (cases "?hit start")
      case hit: True
      with True seg show ?thesis by (auto simp: slide_filter.simps [of name f start])
    next
      case False
      with "1.IH" [OF True seg] "1.prems"
      have "slide_filter name f (start + 1) =
        Some (\<exists>k\<ge>start + 1. k + fv_length f \<le> length name \<and> ?hit k)" by blast
      moreover have "(\<exists>k\<ge>start + 1. k + fv_length f \<le> length name \<and> ?hit k) =
        (\<exists>k\<ge>start. k + fv_length f \<le> length name \<and> ?hit k)"
        using False by (metis Suc_eq_plus1 Suc_leD le_antisym not_less_eq_eq)
      ultimately show ?thesis using True False seg by (simp add: slide_filter.simps [of name f start])
    qed
  qed
qed

text \<open>What a stored filter means for a name, independent of how the code scans.\<close>

definition filter_matches :: "string \<Rightarrow> loader_envvar_filter_value \<Rightarrow> bool" where
  "filter_matches name f =
     (let lower = map tolower name; v = fv_value f in
      case fv_type f of
        FILTER_STRING_FULLNAME \<Rightarrow> lower = v
      | FILTER_STRING_PREFIX \<Rightarrow> prefix v lower
      | FILTER_STRING_SUFFIX \<Rightarrow> suffix v lower
      | FILTER_STRING_SUBSTRING \<Rightarrow> sublist v lower
      | FILTER_STRING_SPECIAL \<Rightarrow> v \<in> set DISABLE_ALL_VARS \<and> length v \<le> length name)"

lemma sublist_iff_take_drop:
  "sublist v l \<longleftrightarrow> (\<exists>k. k + length v \<le> length l \<and> take (length v) (drop k l) = v)"
proof
  assume "sublist v l"
  then obtain ps ss where l: "l = ps @ v @ ss" by (auto simp: sublist_def)
  then have "length ps + length v \<le> length l \<and> take (length v) (drop (length ps) l) = v" by simp
  then show "\<exists>k. k + length v \<le> length l \<and> take (length v) (drop k l) = v" by blast
next
  assume "\<exists>k. k + length v \<le> length l \<and> take (length v) (drop k l) = v"
  then obtain k where "take (length v) (drop k l) = v" by blast
  then have "l = take k l @ v @ drop (length v) (drop k l)" by (metis append_take_drop_id)
  then show "sublist v l" unfolding sublist_def by blast
qed

lemma suffix_iff_drop:
  "length v \<le> length l \<Longrightarrow> suffix v l \<longleftrightarrow> drop (length l - length v) l = v"
  by (metis append_take_drop_id length_drop diff_diff_cancel suffix_def append_eq_append_conv)

lemma prefix_iff_take: "length v \<le> length l \<Longrightarrow> prefix v l \<longleftrightarrow> take (length v) l = v"
  by (metis append_eq_conv_conj append_take_drop_id prefix_def)

lemma check_one_filter_correct:
  assumes "wf_filter f" and "fv_length f \<le> length name"
  shows "check_one_filter name f = Some (filter_matches name f)"
proof (cases "fv_type f")
  case FILTER_STRING_SUBSTRING
  with assms show ?thesis
    by (simp add: check_one_filter_def filter_matches_def slide_filter_correct sublist_iff_take_drop
        wf_filter_def take_map drop_map)
next
  case FILTER_STRING_SUFFIX
  have "map tolower (take (fv_length f) (drop (length name - fv_length f) name)) =
      drop (length name - fv_length f) (map tolower name)"
    using assms by (simp add: drop_map)
  with FILTER_STRING_SUFFIX assms show ?thesis
    by (simp add: check_one_filter_def filter_matches_def segment_matches_correct suffix_iff_drop wf_filter_def)
next
  case FILTER_STRING_PREFIX
  with assms show ?thesis
    by (simp add: check_one_filter_def filter_matches_def segment_matches_correct wf_filter_def
        prefix_iff_take take_map)
next
  case FILTER_STRING_FULLNAME
  with assms length_map [of tolower name] show ?thesis
    by (auto simp: check_one_filter_def filter_matches_def segment_matches_correct wf_filter_def
        simp del: length_map)
qed (use assms in \<open>simp add: check_one_filter_def filter_matches_def wf_filter_def\<close>)

lemma filter_matches_length: "wf_filter f \<Longrightarrow> filter_matches name f \<Longrightarrow> fv_length f \<le> length name"
  using length_map [of tolower name]
  by (cases "fv_type f") (auto simp: filter_matches_def wf_filter_def Let_def simp del: length_map
      dest: prefix_length_le suffix_length_le sublist_length_le)

lemma check_name_matches_correct:
  assumes "list_all wf_filter fs"
  shows "check_name_matches_filter_environment_var name fs = Some (\<exists>f\<in>set fs. filter_matches name f)"
  using assms
  by (induction fs) (auto simp: check_one_filter_correct dest: filter_matches_length)


text \<open>The disable list: what the tokens in front of a full array set.\<close>

definition special_tok :: "string \<Rightarrow> bool" where
  "special_tok tok = (tok \<noteq> [] \<and> hd tok = CHR ''~'')"

definition disable_of :: "string list \<Rightarrow> loader_envvar_disable_layers_filter" where
  "disable_of toks = \<lparr>additional_filters = map filter_of (filter (\<lambda>t. \<not> special_tok t) toks),
     disable_all = (''~all~'' \<in> set toks), disable_all_implicit = (''~implicit~'' \<in> set toks),
     disable_all_explicit = (''~explicit~'' \<in> set toks)\<rparr>"

definition disable_join ::
  "loader_envvar_disable_layers_filter \<Rightarrow> loader_envvar_disable_layers_filter \<Rightarrow> loader_envvar_disable_layers_filter" where
  "disable_join d e = \<lparr>additional_filters = additional_filters d @ additional_filters e,
     disable_all = (disable_all d \<or> disable_all e),
     disable_all_implicit = (disable_all_implicit d \<or> disable_all_implicit e),
     disable_all_explicit = (disable_all_explicit d \<or> disable_all_explicit e)\<rparr>"

lemma disable_join_simps [simp]:
  "disable_join empty_disable_filter d = d" "disable_join d (disable_of []) = d"
  "disable_join (disable_join d e) f = disable_join d (disable_join e f)"
  by (simp_all add: disable_join_def empty_disable_filter_def disable_of_def)

lemma disable_join_Cons: "disable_join (disable_of [t]) (disable_of ts) = disable_of (t # ts)"
  by (auto simp: disable_join_def disable_of_def)

lemma determine_special:
  "tok \<noteq> [] \<Longrightarrow> \<exists>t start len. determine_filter_type tok = Some (t, start, len) \<and>
     (t = FILTER_STRING_SPECIAL \<longleftrightarrow> special_tok tok) \<and>
     filter_of tok = stored_filter tok t start len"
  by (cases tok) (auto simp: determine_filter_type_def special_tok_def filter_of_def Let_def)

lemma parse_disable_tokens_step:
  assumes "strtok_r '','' s = Some (tok, rest)"
    and "length (additional_filters d) + (if special_tok tok then 0 else 1) < MAX_ADDITIONAL_FILTERS"
  shows "parse_disable_tokens d s = parse_disable_tokens (disable_join d (disable_of [tok])) rest"
proof -
  from strtok_r_token(1) [OF assms(1)] obtain t start len where
    d: "determine_filter_type tok = Some (t, start, len)" and sp: "(t = FILTER_STRING_SPECIAL) = special_tok tok"
    and f: "filter_of tok = stored_filter tok t start len"
    using determine_special by blast
  show ?thesis
  proof (cases "special_tok tok")
    case True
    then have "tok \<noteq> ''*''" "tok \<noteq> ''**''" by (auto simp: special_tok_def)
    then have "(if tok \<in> set DISABLE_ALL_VARS then d\<lparr>disable_all := True\<rparr>
        else if tok = ''~implicit~'' then d\<lparr>disable_all_implicit := True\<rparr>
        else if tok = ''~explicit~'' then d\<lparr>disable_all_explicit := True\<rparr> else d) =
      disable_join d (disable_of [tok])"
      using True by (auto simp: DISABLE_ALL_VARS_def disable_join_def disable_of_def)
    with True d sp assms(1) show ?thesis by (simp add: parse_disable_tokens.simps [of d s])
  next
    case False
    then have "''~all~'' \<noteq> tok" "''~implicit~'' \<noteq> tok" "''~explicit~'' \<noteq> tok"
      by (auto simp: special_tok_def)
    with False have "d\<lparr>additional_filters := additional_filters d @ [filter_of tok]\<rparr> = disable_join d (disable_of [tok])"
      by (simp add: disable_join_def disable_of_def)
    with False d sp f assms show ?thesis
      by (simp add: parse_disable_tokens.simps [of d s] store_filter_def)
  qed
qed

lemma parse_disable_tokens_correct:
  assumes "length (additional_filters d) + length (filter (\<lambda>t. \<not> special_tok t) (tokens '','' s)) < MAX_ADDITIONAL_FILTERS"
  shows "parse_disable_tokens d s = Some (disable_join d (disable_of (tokens '','' s)))"
  using assms
proof (induction "length s" arbitrary: d s rule: less_induct)
  case less
  show ?case
  proof (cases "strtok_r '','' s")
    case None
    then show ?thesis by (simp add: parse_disable_tokens.simps [of d s] tokens_None)
  next
    case (Some tr)
    then obtain t r where st: "strtok_r '','' s = Some (t, r)" by (cases tr) auto
    note prems = less.prems [unfolded tokens_Some [OF st]]
    have step: "parse_disable_tokens d s = parse_disable_tokens (disable_join d (disable_of [t])) r"
      using prems by (intro parse_disable_tokens_step [OF st]) (auto split: if_splits)
    have "length (additional_filters (disable_join d (disable_of [t]))) +
        length (filter (\<lambda>t. \<not> special_tok t) (tokens '','' r)) < MAX_ADDITIONAL_FILTERS"
      using prems by (auto simp: disable_join_def disable_of_def split: if_splits)
    from less.hyps [OF strtok_r_shorter [OF st] this] show ?thesis
      by (simp add: step tokens_Some [OF st] disable_join_Cons)
  qed
qed

section \<open>Lemmas on id filters\<close>

lemma parse_id_tokens_correct:
  assumes "idf_filters f = Buf xs" and "idf_count f + length (tokens '','' s) \<le> length xs"
  shows "\<exists>ys. parse_id_tokens f s =
           Some \<lparr>idf_count = idf_count f + length (tokens '','' s), idf_filters = Buf ys\<rparr> \<and>
         length ys = length xs \<and>
         take (idf_count f + length (tokens '','' s)) ys =
           take (idf_count f) xs @ map id_filter_of (tokens '','' s)"
  using assms
proof (induction "length s" arbitrary: f s xs rule: less_induct)
  case less
  show ?case
  proof (cases "strtok_r '','' s")
    case None
    with less.prems show ?thesis by (cases f) (auto simp: parse_id_tokens.simps [of _ s] tokens_None)
  next
    case (Some tr)
    then obtain t r where st: "strtok_r '','' s = Some (t, r)" by (cases tr) auto
    note ts = tokens_Some [OF st]
    let ?n = "idf_count f"
    let ?f = "\<lparr>idf_count = ?n + 1, idf_filters = Buf (xs[?n := id_filter_of t])\<rparr>"
    have n: "?n < length xs" using less.prems(2) by (simp add: ts)
    have step: "parse_id_tokens f s = parse_id_tokens ?f r"
      using st less.prems(1) n by (simp add: parse_id_tokens.simps [of f s])
    have fit: "idf_count ?f + length (tokens '','' r) \<le> length (xs[?n := id_filter_of t])"
      using less.prems(2) by (simp add: ts)
    from less.hyps [OF strtok_r_shorter [OF st] _ fit] obtain ys where
      "parse_id_tokens ?f r = Some \<lparr>idf_count = ?n + 1 + length (tokens '','' r), idf_filters = Buf ys\<rparr>"
      "length ys = length xs"
      "take (Suc ?n + length (tokens '','' r)) ys =
         take (Suc ?n) (xs[?n := id_filter_of t]) @ map id_filter_of (tokens '','' r)"
      by auto
    then show ?thesis using n by (simp add: step ts take_Suc_update)
  qed
qed

lemma check_id_from_correct:
  "i + n \<le> length xs \<Longrightarrow> check_id_from ident (Buf xs) i n =
     Some (\<exists>f\<in>set (take n (drop i xs)). id_begin f \<le> ident \<and> ident \<le> id_end f)"
proof (induction n arbitrary: i)
  case 0
  then show ?case by simp
next
  case (Suc n)
  then have "drop i xs = xs ! i # drop (Suc i) xs" by (simp add: Cons_nth_drop_Suc)
  with Suc show ?case by auto
qed


section \<open>Glob patterns\<close>

text \<open>The documented meaning of a filter string: a star at either end stands for any text.\<close>

abbreviation two_char_star :: "string \<Rightarrow> bool" where
  "two_char_star pat \<equiv> length pat = 2 \<and> last pat = CHR ''*''"

definition glob_matches :: "string \<Rightarrow> string \<Rightarrow> bool" where
  "glob_matches pat l =
     (if 2 \<le> length pat \<and> hd pat = CHR ''*'' \<and> last pat = CHR ''*'' then sublist (butlast (tl pat)) l
      else if last pat = CHR ''*'' then prefix (butlast pat) l
      else if hd pat = CHR ''*'' then suffix (tl pat) l
      else pat = l)"

text \<open>The meaning of every filter string that fits the buffer: two characters that end in a star are an exception, \<open>**\<close> standing for names that end in a star and \<open>x*\<close> for itself.\<close>

definition pattern_matches :: "string \<Rightarrow> string \<Rightarrow> bool" where
  "pattern_matches pat l = (if two_char_star pat then (if hd pat = CHR ''*'' then suffix ''*'' l else pat = l) else glob_matches pat l)"

lemma filter_of_ends:
  assumes "pat \<noteq> []" and "\<not> special_tok pat" and "\<not> two_char_star pat" and "length pat < 256"
  shows "filter_of pat =
    (if length pat \<noteq> 1 \<and> hd pat = CHR ''*'' \<and> last pat = CHR ''*''
       then \<lparr>fv_value = butlast (tl pat), fv_length = length pat - 2, fv_type = FILTER_STRING_SUBSTRING\<rparr>
     else if last pat = CHR ''*''
       then \<lparr>fv_value = butlast pat, fv_length = length pat - 1, fv_type = FILTER_STRING_PREFIX\<rparr>
     else if hd pat = CHR ''*''
       then \<lparr>fv_value = tl pat, fv_length = length pat - 1, fv_type = FILTER_STRING_SUFFIX\<rparr>
     else \<lparr>fv_value = pat, fv_length = length pat, fv_type = FILTER_STRING_FULLNAME\<rparr>)"
proof -
  have h: "pat ! 0 = hd pat" and l: "pat ! (length pat - Suc 0) = last pat"
    using assms(1) by (simp_all add: hd_conv_nth last_conv_nth)
  have t: "tl pat = drop 1 pat" by (simp add: drop_Suc)
  have b: "butlast (tl pat) = take (length pat - 2) (drop 1 pat)"
    by (simp add: butlast_conv_take t numeral_2_eq_2)
  have h1: "length pat = 1 \<Longrightarrow> hd pat = last pat" using assms(1) by (cases pat) auto
  show ?thesis
    using assms h1
    by (auto simp: filter_of_def determine_filter_type_def special_tok_def Let_def h l stored_filter_def
        VK_MAX_EXTENSION_NAME_SIZE_def strncpy_def b butlast_conv_take t numeral_2_eq_2)
qed

lemma filter_of_glob:
  assumes "pat \<noteq> []" and "\<not> special_tok pat" and "\<not> two_char_star pat" and "length pat < 256"
  shows "filter_matches name (filter_of pat) = glob_matches pat (map tolower name)"
proof -
  have "2 \<le> length pat \<longleftrightarrow> length pat \<noteq> 1" using assms(1) by (cases pat) (auto simp: Suc_le_eq)
  then show ?thesis
    by (auto simp: filter_of_ends [OF assms] filter_matches_def glob_matches_def Let_def)
qed

lemma filter_of_pattern:
  assumes "pat \<noteq> []" and "\<not> special_tok pat" and "length pat < 256"
  shows "filter_matches name (filter_of pat) = pattern_matches pat (map tolower name)"
proof (cases "two_char_star pat")
  case True
  then obtain c where c: "pat = [c, CHR ''*'']" by (cases pat; cases "tl pat") auto
  show ?thesis
  proof (cases "c = CHR ''*''")
    case True
    then show ?thesis unfolding c
      by (simp add: filter_matches_def pattern_matches_def filter_of_def determine_filter_type_def stored_filter_def strncpy_def VK_MAX_EXTENSION_NAME_SIZE_def Let_def)
  next
    case False
    then show ?thesis using assms(2) unfolding c
      by (auto simp: filter_matches_def pattern_matches_def filter_of_def determine_filter_type_def stored_filter_def strncpy_def VK_MAX_EXTENSION_NAME_SIZE_def special_tok_def Let_def)
  qed
next
  case False
  show ?thesis using filter_of_glob [OF assms(1,2) False assms(3)] unfolding pattern_matches_def if_not_P [OF False] .
qed

section \<open>Numbers of identifier filters\<close>

text \<open>What an identifier filter means: decimal, octal or hexadecimal numbers of 32 bits, alone or as the two ends of a range.\<close>

inductive denotes :: "nat \<Rightarrow> string \<Rightarrow> nat \<Rightarrow> bool" where
  digit: "i < b \<Longrightarrow> i < 16 \<Longrightarrow> denotes b [''0123456789abcdef'' ! i] i"
| digits: "denotes b s v \<Longrightarrow> i < b \<Longrightarrow> i < 16 \<Longrightarrow> denotes b (s @ [''0123456789abcdef'' ! i]) (v * b + i)"

inductive id_number :: "string \<Rightarrow> nat \<Rightarrow> bool" where
  decimal: "denotes 10 s v \<Longrightarrow> hd s \<noteq> CHR ''0'' \<Longrightarrow> id_number s v"
| zero: "id_number ''0'' 0"
| octal: "denotes 8 s v \<Longrightarrow> id_number (CHR ''0'' # s) v"
| hexadecimal: "denotes 16 s v \<Longrightarrow> id_number (''0x'' @ s) v"

inductive id_range :: "string \<Rightarrow> nat \<Rightarrow> nat \<Rightarrow> bool" where
  single: "id_number s v \<Longrightarrow> v < 2 ^ 32 \<Longrightarrow> id_range s v v"
| range: "id_number s v \<Longrightarrow> v < 2 ^ 32 \<Longrightarrow> id_number s' v' \<Longrightarrow> v' < 2 ^ 32 \<Longrightarrow> id_range (s @ CHR ''-'' # s') v v'"

lemma hex_table: "i < 16 \<Longrightarrow> digit_val (''0123456789abcdef'' ! i) = Some i"
proof -
  have "\<forall>i\<in>set [0..<16]. digit_val (''0123456789abcdef'' ! i) = Some i" by code_simp
  then show "i < 16 \<Longrightarrow> digit_val (''0123456789abcdef'' ! i) = Some i" by simp
qed

lemma denotes_read: "denotes b s v \<Longrightarrow> read_digits b 0 (s @ rest) = read_digits b v rest"
  by (induction arbitrary: rest rule: denotes.induct) (simp_all add: hex_table)

lemma denotes_first: "denotes b s v \<Longrightarrow> \<exists>c r i. s = c # r \<and> digit_val c = Some i \<and> i < b"
  by (induction rule: denotes.induct) (auto simp: hex_table)

lemma digit_first: "digit_val c = Some i \<Longrightarrow> \<not> isspace c \<and> c \<noteq> CHR ''-'' \<and> c \<noteq> CHR ''+'' \<and> c \<noteq> CHR ''x'' \<and> c \<noteq> CHR ''X''"
  by (auto simp: digit_val_def isspace_def Let_def split: if_splits)

lemma strtoul_digits:
  assumes "digit_val c = Some i" "strtoul_base (c # r) = (b, d # r')" "digit_val d = Some j" "j < b" "read_digits b 0 (d # r') = (v, rest)" "v < 2 ^ 32"
  shows "strtoul (c # r) = (v, rest)"
  using assms digit_first [OF assms(1)] by (simp add: strtoul_def)

lemma strtoul_id_number:
  assumes s: "id_number s v" and v: "v < 2 ^ 32" and rest: "rest = [] \<or> hd rest = CHR ''-''"
  shows "strtoul (s @ rest) = (v, rest)"
proof -
  have stop: "read_digits b w rest = (w, rest)" for b w using rest by (cases rest) (auto simp: digit_val_def)
  have zero: "digit_val (CHR ''0'') = Some 0" by (simp add: digit_val_def)
  from s show ?thesis
  proof cases
    case decimal
    obtain c r i where c: "s = c # r" "digit_val c = Some i" "i < 10" using denotes_first [OF decimal(1)] by blast
    have "strtoul_base (c # r @ rest) = (10, c # r @ rest)" using decimal(2) c(1) by (cases "r @ rest") (auto simp: strtoul_base_def)
    then show ?thesis using strtoul_digits [OF c(2) _ c(2,3), of "r @ rest" "r @ rest" v rest] denotes_read [OF decimal(1), of rest] stop v c(1) by simp
  next
    case zero
    have "strtoul_base (CHR ''0'' # rest) = (if rest = [] then 10 else 8, CHR ''0'' # rest)" using rest by (cases rest) (auto simp: strtoul_base_def)
    then show ?thesis using strtoul_digits [of "CHR ''0''" 0 rest _ "CHR ''0''" rest 0 0 rest] stop \<open>digit_val (CHR ''0'') = Some 0\<close> zero by simp
  next
    case (octal t)
    obtain c r i where c: "t = c # r" "digit_val c = Some i" "i < 8" using denotes_first [OF octal(2)] by blast
    have "strtoul_base (CHR ''0'' # t @ rest) = (8, CHR ''0'' # t @ rest)" using digit_first [OF c(2)] c(1) by (auto simp: strtoul_base_def)
    then show ?thesis using strtoul_digits [of "CHR ''0''" 0 "t @ rest" 8 "CHR ''0''" "t @ rest" 0 v rest] denotes_read [OF octal(2), of rest] stop \<open>digit_val (CHR ''0'') = Some 0\<close> v octal(1) by simp
  next
    case (hexadecimal t)
    obtain c r i where c: "t = c # r" "digit_val c = Some i" "i < 16" using denotes_first [OF hexadecimal(2)] by blast
    have "strtoul_base (CHR ''0'' # CHR ''x'' # t @ rest) = (16, c # r @ rest)" using c by (simp add: strtoul_base_def)
    then show ?thesis
      using strtoul_digits [of "CHR ''0''" 0 "CHR ''x'' # t @ rest" 16 c "r @ rest" i v rest] denotes_read [OF hexadecimal(2), of rest] stop \<open>digit_val (CHR ''0'') = Some 0\<close> c v hexadecimal(1) by simp
  qed
qed

lemma id_range_filter:
  assumes "id_range t lo hi"
  shows "id_filter_of t = \<lparr>id_begin = lo, id_end = hi\<rparr>"
  using assms
proof cases
  case single
  then show ?thesis using strtoul_id_number [of t lo "[]"] by (simp add: id_filter_of_def)
next
  case (range s s')
  then show ?thesis using strtoul_id_number [of s lo "CHR ''-'' # s'"] strtoul_id_number [of s' hi "[]"] by (simp add: id_filter_of_def)
qed

section \<open>Properties\<close>

text \<open>C26: for every environment and every allocator behaviour, parsing an enable or allow filter is
  memory-safe, frees what it allocates, stores at most sixteen filters with their text inside the
  256-byte buffers, and its only error is \<open>VK_ERROR_OUT_OF_HOST_MEMORY\<close> with no filter stored.\<close>

theorem parse_generic_filter_safe:
  "\<exists>r fs h'. parse_generic_filter_environment_var p a name h = Some (r, fs, h') \<and>
     length fs \<le> MAX_ADDITIONAL_FILTERS \<and> list_all wf_filter fs \<and> live h' = live h \<and>
     (r = VK_SUCCESS \<or> r = VK_ERROR_OUT_OF_HOST_MEMORY \<and> fs = [])"
proof (cases "loader_secure_getenv p name")
  case None
  then show ?thesis by (simp add: parse_generic_filter_environment_var_def)
next
  case (Some v)
  have "list_all wf_filter (map filter_of (take MAX_ADDITIONAL_FILTERS (tokens '','' (map tolower v))))"
    by (auto simp: list_all_iff intro!: wf_filter_of dest!: in_set_takeD dest: tokens_nonempty)
  then show ?thesis
    using Some by (auto simp: parse_generic_filter_environment_var_def parse_generic_tokens_correct
        MAX_ADDITIONAL_FILTERS_def)
qed

text \<open>C14: for a variable of at most sixteen comma-separated patterns, each shorter than 256 bytes, none starting with a
  tilde and none of two characters with a star at the end, and with memory for the copy, parsing the variable and
  matching a name against the result is exactly: some pattern, with a star at either end standing for any text,
  matches the name, both compared in lower case.\<close>

theorem filter_parse_match_is_glob:
  assumes "loader_secure_getenv p var = Some v" and "v \<noteq> []" and "succeeds h"
    and "length (tokens '','' (map tolower v)) \<le> 16"
    and "\<And>t. t \<in> set (tokens '','' (map tolower v)) \<Longrightarrow> \<not> special_tok t \<and> \<not> two_char_star t \<and> length t < 256"
  shows "\<exists>fs h'. parse_generic_filter_environment_var p a var h = Some (VK_SUCCESS, fs, h') \<and>
           check_name_matches_filter_environment_var name fs =
             Some (\<exists>t\<in>set (tokens '','' (map tolower v)). glob_matches t (map tolower name))"
proof -
  let ?toks = "tokens '','' (map tolower v)"
  have ne: "t \<noteq> []" if "t \<in> set ?toks" for t using tokens_nonempty [OF that] by blast
  have parse: "parse_generic_filter_environment_var p a var h =
      Some (VK_SUCCESS, map filter_of ?toks, add_live (- 1) (add_live 1 (tick h)))"
    using assms(1-4) by (simp add: parse_generic_filter_environment_var_def parse_generic_tokens_correct
        MAX_ADDITIONAL_FILTERS_def)
  have "list_all wf_filter (map filter_of ?toks)" using ne by (auto simp: list_all_iff wf_filter_of)
  moreover have "filter_matches name (filter_of t) = glob_matches t (map tolower name)" if "t \<in> set ?toks" for t
    using filter_of_glob [OF ne [OF that]] assms(5) [OF that] by simp
  ultimately show ?thesis using parse by (simp add: check_name_matches_correct)
qed

abbreviation sample_process :: "string \<Rightarrow> string \<Rightarrow> process" where
  "sample_process var v \<equiv> \<lparr>proc_env = (\<lambda>n. if n = var then Some v else None), proc_secure_mode = False\<rparr>"

abbreviation good_heap :: heap where
  "good_heap \<equiv> \<lparr>outcomes = (\<lambda>_. True), clock = 0, live = 0\<rparr>"

theorem filter_parse_match_is_glob_witness:
  "\<exists>fs h'. parse_generic_filter_environment_var (sample_process ''E'' ''*Validation*,VK_L*'') None ''E'' good_heap =
      Some (VK_SUCCESS, fs, h') \<and>
      check_name_matches_filter_environment_var ''VK_LAYER_x'' fs =
        Some (\<exists>t\<in>set (tokens '','' (map tolower ''*Validation*,VK_L*'')). glob_matches t (map tolower ''VK_LAYER_x''))"
proof -
  have toks: "tokens '','' (map tolower ''*Validation*,VK_L*'') = [''*validation*'', ''vk_l*'']"
    by code_simp
  show ?thesis
    by (rule filter_parse_match_is_glob)
      (simp_all only: toks, auto simp: loader_secure_getenv_def succeeds_def special_tok_def)
qed

text \<open>two-character filter strings escape that meaning: \<open>**\<close>, documented to mean everything,
  only matches names that end in a star, and \<open>x*\<close> is no prefix filter but the literal name.\<close>

theorem two_char_filters_are_not_globs:
  "filter_of ''**'' = \<lparr>fv_value = ''*'', fv_length = 1, fv_type = FILTER_STRING_SUFFIX\<rparr> \<and>
   (\<forall>c. c \<noteq> CHR ''*'' \<longrightarrow> c \<noteq> CHR ''~'' \<longrightarrow>
      filter_of [c, CHR ''*''] = \<lparr>fv_value = [c, CHR ''*''], fv_length = 2, fv_type = FILTER_STRING_FULLNAME\<rparr>)"
  by (simp add: filter_of_def determine_filter_type_def stored_filter_def strncpy_def
      VK_MAX_EXTENSION_NAME_SIZE_def Let_def)


theorem two_char_filters_are_not_globs_witness:
  "filter_of ''v*'' = \<lparr>fv_value = ''v*'', fv_length = 2, fv_type = FILTER_STRING_FULLNAME\<rparr>"
  using two_char_filters_are_not_globs by simp

text \<open>C27: the disable list, with memory for the copy and fewer than sixteen name filters, each shorter than 256 bytes, is
  parsed into exactly this: the flag for all layers is set by the word \<open>~all~\<close> only, neither by \<open>*\<close> nor by
  \<open>**\<close>, although comments of the code say so of both; the flags for implicit and explicit layers are set by
  their words; and a name is matched by the name filters when a token that does not start with a tilde matches it, a
  star at either end standing for any text, so that \<open>*\<close> matches every name, but \<open>**\<close> only names that end in a
  star, and \<open>x*\<close> only itself.  The parse buffer is freed.\<close>

theorem parse_disable_filter_meaning:
  assumes "loader_secure_getenv p VK_LAYERS_DISABLE_ENV_VAR = Some v" and "v \<noteq> []" and "succeeds h"
    and "length (filter (\<lambda>t. \<not> special_tok t) (tokens '','' (map tolower v))) < 16"
    and "\<And>t. t \<in> set (tokens '','' (map tolower v)) \<Longrightarrow> \<not> special_tok t \<Longrightarrow> length t < 256"
  shows "\<exists>d h'. parse_layers_disable_filter_environment_var p a h = Some (VK_SUCCESS, d, h') \<and>
     live h' = live h \<and>
     disable_all d = (''~all~'' \<in> set (tokens '','' (map tolower v))) \<and>
     disable_all_implicit d = (''~implicit~'' \<in> set (tokens '','' (map tolower v))) \<and>
     disable_all_explicit d = (''~explicit~'' \<in> set (tokens '','' (map tolower v))) \<and>
     check_name_matches_filter_environment_var name (additional_filters d) =
       Some (\<exists>t\<in>set (tokens '','' (map tolower v)). \<not> special_tok t \<and> pattern_matches t (map tolower name))"
proof -
  let ?toks = "tokens '','' (map tolower v)"
  have parse: "parse_layers_disable_filter_environment_var p a h =
      Some (VK_SUCCESS, disable_of ?toks, add_live (- 1) (add_live 1 (tick h)))"
    using assms(1-4) by (simp add: parse_layers_disable_filter_environment_var_def parse_disable_tokens_correct
        MAX_ADDITIONAL_FILTERS_def empty_disable_filter_def [THEN arg_cong [of _ _ additional_filters]])
  have "list_all wf_filter (additional_filters (disable_of ?toks))"
    by (auto simp: disable_of_def list_all_iff intro!: wf_filter_of dest: tokens_nonempty)
  then have "check_name_matches_filter_environment_var name (additional_filters (disable_of ?toks)) =
       Some (\<exists>t\<in>set ?toks. \<not> special_tok t \<and> filter_matches name (filter_of t))"
    by (auto simp: check_name_matches_correct disable_of_def)
  moreover have "filter_matches name (filter_of t) = pattern_matches t (map tolower name)" if "t \<in> set ?toks" "\<not> special_tok t" for t
    using filter_of_pattern [of t name] tokens_nonempty [OF that(1)] assms(5) [OF that] that(2) by blast
  ultimately show ?thesis using parse by (simp add: disable_of_def cong: conj_cong)
qed

theorem parse_disable_filter_meaning_witness:
  "\<exists>d h'. parse_layers_disable_filter_environment_var
      (sample_process VK_LAYERS_DISABLE_ENV_VAR ''~Implicit~,foo'') None good_heap = Some (VK_SUCCESS, d, h') \<and>
     disable_all_implicit d \<and> \<not> disable_all d \<and>
     check_name_matches_filter_environment_var ''Foo'' (additional_filters d) = Some True"
proof -
  have toks: "tokens '','' (map tolower ''~Implicit~,foo'') = [''~implicit~'', ''foo'']" by code_simp
  have short: "length t < 256" if "t \<in> set [''~implicit~'', ''foo'']" for t using that by auto
  have "loader_secure_getenv (sample_process VK_LAYERS_DISABLE_ENV_VAR ''~Implicit~,foo'')
      VK_LAYERS_DISABLE_ENV_VAR = Some ''~Implicit~,foo''"
    by (simp add: loader_secure_getenv_def)
  moreover have "map tolower ''Foo'' = ''foo''" by code_simp
  ultimately show ?thesis using parse_disable_filter_meaning [of "sample_process VK_LAYERS_DISABLE_ENV_VAR ''~Implicit~,foo''" "''~Implicit~,foo''" good_heap None "''Foo''", unfolded toks, OF _ _ _ _ short]
    by (auto simp: succeeds_def special_tok_def pattern_matches_def glob_matches_def)
qed

text \<open>in a process that gained privileges no environment variable switches a layer filter on.\<close>

theorem secure_mode_ignores_filters:
  assumes "proc_secure_mode p"
  shows "parse_layer_environment_var_filters p a fs h =
     Some (VK_SUCCESS, fs\<lparr>enable_filter := [], disable_filter := empty_disable_filter, allow_filter := []\<rparr>, h)"
  using assms
  by (simp add: parse_layer_environment_var_filters_def parse_generic_filter_environment_var_def
      parse_layers_disable_filter_environment_var_def loader_secure_getenv_def)

theorem secure_mode_ignores_filters_witness:
  "parse_layer_environment_var_filters \<lparr>proc_env = (\<lambda>_. Some ''*''), proc_secure_mode = True\<rparr> None
     \<lparr>enable_filter = [], disable_filter = empty_disable_filter, allow_filter = []\<rparr> good_heap =
   Some (VK_SUCCESS, \<lparr>enable_filter = [], disable_filter = empty_disable_filter, allow_filter = []\<rparr>, good_heap)"
  using secure_mode_ignores_filters [of "\<lparr>proc_env = (\<lambda>_. Some ''*''), proc_secure_mode = True\<rparr>" None
    "\<lparr>enable_filter = [], disable_filter = empty_disable_filter, allow_filter = []\<rparr>" good_heap] by simp


lemma sample_range: "id_range ''0x10-0x20'' 16 32" "id_range ''7'' 7 7"
proof -
  have "denotes 16 ''1'' 1" "denotes 16 ''2'' 2" "denotes 10 ''7'' 7" using denotes.digit [of 1 16] denotes.digit [of 2 16] denotes.digit [of 7 10] by simp_all
  moreover from this have "denotes 16 ''10'' 16" "denotes 16 ''20'' 32" using denotes.digits [of 16 "''1''" 1 0] denotes.digits [of 16 "''2''" 2 0] by simp_all
  ultimately have n: "id_number ''0x10'' 16" "id_number ''0x20'' 32" "id_number ''7'' 7"
    using hexadecimal [of "''10''" 16] hexadecimal [of "''20''" 32] decimal [of "''7''" 7] by simp_all
  show "id_range ''0x10-0x20'' 16 32" "id_range ''7'' 7 7" using id_range.range [OF n(1) _ n(2)] single [OF n(3)] by simp_all
qed


text \<open>the result of that allocation is not checked, so a failed allocation makes the parse of any
  variable with a token write through the null pointer.\<close>

theorem id_filter_oom_null_write:
  assumes "loader_secure_getenv p var = Some v" and "tokens '','' (map tolower v) \<noteq> []" and "\<not> succeeds h"
  shows "parse_id_filter_environment_var p a junk var h = None"
proof -
  from assms(2) obtain t r where "strtok_r '','' (map tolower v) = Some (t, r)"
    by (metis option.exhaust prod.exhaust tokens_None)
  moreover from assms(2) have "v \<noteq> []" by auto
  ultimately show ?thesis
    using assms by (simp add: parse_id_filter_environment_var_def loader_alloc_def
        parse_id_tokens.simps [of _ "map tolower v"])
qed

theorem id_filter_oom_null_write_witness:
  "parse_id_filter_environment_var (sample_process ''D'' ''7'') None \<lparr>id_begin = 0, id_end = 0\<rparr> ''D''
     \<lparr>outcomes = (\<lambda>_. False), clock = 0, live = 0\<rparr> = None"
proof (rule id_filter_oom_null_write)
  have "tokens '','' (map tolower ''7'') = [''7'']" by code_simp
  then show "tokens '','' (map tolower ''7'') \<noteq> []" by simp
qed (simp_all add: loader_secure_getenv_def succeeds_def)

end
