(* ===== verification/LayerSelect.thy ===== *)
theory LayerSelect
  imports LayerList EnvFilter
begin

text \<open>
  Which layers are activated (\<^verbatim>\<open>loader.c\<close>, \<^verbatim>\<open>loader_environment.c\<close>): availability under the environment
  filters, implicit layers, meta-layers with their components, layers from the environment and
  from the application, and the order in which \<^verbatim>\<open>loader_enable_instance_layers\<close> adds them.

  The source list is a list of layers (its string lists by their strings, as \<open>wf_layer\<close>
  guarantees), a pointer into it an index, and a pointer list the list of its pointers; adding
  to one succeeds or reports out-of-memory as the heap decides, which is what
  \<open>add_layer_pointer_contract\<close> shows of the array code.  The field \<^verbatim>\<open>enabled_by_what\<close> of the layers is
  kept beside the list.  The recursion of \<^verbatim>\<open>loader_add_meta_layer\<close> has no bound in the code: its
  definition takes the depth the C stack allows, and running out of it is undefined behaviour,
  \<open>None\<close>, like reading through a null pointer.
\<close>

record loader_instance_info =
  override_layer_present :: bool
  instance_layer_list :: "loader_layer_properties list"

text \<open>What stays fixed during selection: the process, the instance (null before it exists), the filters
  and the source list.\<close>

record selection_context =
  cx_process :: process
  cx_inst :: "loader_instance_info option"
  cx_filters :: loader_envvar_all_filters
  cx_source :: "loader_layer_properties list"

text \<open>What changes: the lists of pointers and the reasons recorded in the layers.\<close>

record selection =
  sel_target :: "nat list"
  sel_expanded :: "nat list option"
  sel_enabled :: "nat \<Rightarrow> loader_layer_enabled_by_what"
  sel_heap :: heap

section \<open>Availability\<close>

definition loader_layer_is_available :: "loader_envvar_all_filters \<Rightarrow> loader_layer_properties \<Rightarrow> bool option" where
  "loader_layer_is_available filters prop = do {
     let name = layer_name prop;
     let d = disable_filter filters;
     let disabled_by_type = (if \<not> flag_explicit prop then disable_all_implicit d else disable_all_explicit d);
     m_disable \<leftarrow> (if disable_all d \<or> disabled_by_type then Some True
                   else check_name_matches_filter_environment_var name (additional_filters d));
     m_allow \<leftarrow> (if m_disable then check_name_matches_filter_environment_var name (allow_filter filters) else Some False);
     let available = \<not> (m_disable \<and> \<not> m_allow);
     m_enable \<leftarrow> check_name_matches_filter_environment_var name (enable_filter filters);
     Some (if m_enable then True else available)
   }"

text \<open>\<^verbatim>\<open>loader_implicit_layer_is_enabled\<close>; comparing a missing \<^verbatim>\<open>enable_env_var.value\<close> is undefined.\<close>

definition loader_implicit_layer_is_enabled ::
  "process \<Rightarrow> loader_instance_info option \<Rightarrow> loader_envvar_all_filters \<Rightarrow> loader_layer_properties \<Rightarrow> bool option" where
  "loader_implicit_layer_is_enabled p inst filters prop = do {
     let name = layer_name prop;
     let d = disable_filter filters;
     m_disable \<leftarrow> (if disable_all d \<or> disable_all_implicit d then Some True
                   else check_name_matches_filter_environment_var name (additional_filters d));
     m_allow \<leftarrow> (if m_disable then check_name_matches_filter_environment_var name (allow_filter filters) else Some False);
     let forced_disabled = (m_disable \<and> \<not> m_allow);
     forced_enabled \<leftarrow> check_name_matches_filter_environment_var name (enable_filter filters);
     enable \<leftarrow> (case nv_name (enable_env_var prop) of
                 None \<Rightarrow> Some True
               | Some n \<Rightarrow> (case loader_getenv p (Some n) of
                     None \<Rightarrow> Some False
                   | Some env_value \<Rightarrow> map_option (\<lambda>v. v = env_value) (nv_value (enable_env_var prop))));
     (if \<not> forced_enabled \<and> enable \<and> forced_disabled then Some False
      else do {
        let enable = (forced_enabled \<or> enable);
        let enable = (if nv_name (disable_env_var prop) \<noteq> None \<and> loader_getenv p (nv_name (disable_env_var prop)) \<noteq> None
                      then False else enable);
        Some (case inst of
            None \<Rightarrow> enable
          | Some i \<Rightarrow>
              if override_layer_present i then
                (case find (\<lambda>q. layer_name q = VK_OVERRIDE_LAYER_NAME) (instance_layer_list i) of
                   None \<Rightarrow> enable
                 | Some ov \<Rightarrow> if name \<in> set (sl_strings (component_layer_names ov)) then True else enable)
              else enable)
      })
   }"

section \<open>Adding layers\<close>

definition find_layer :: "string \<Rightarrow> loader_layer_properties list \<Rightarrow> nat option" where
  "find_layer name ls = find_index_from (\<lambda>q. name = layer_name q) 0 ls"

text \<open>Adding one pointer.\<close>

definition add_pointer :: "nat list \<Rightarrow> nat \<Rightarrow> heap \<Rightarrow> VkResult \<times> nat list \<times> heap" where
  "add_pointer l p h = (if succeeds h then (VK_SUCCESS, l @ [p], tick h) else (VK_ERROR_OUT_OF_HOST_MEMORY, l, tick h))"

definition add_to_target :: "nat \<Rightarrow> selection \<Rightarrow> VkResult \<times> selection" where
  "add_to_target p s = (case add_pointer (sel_target s) p (sel_heap s) of
     (r, l, h) \<Rightarrow> (r, s\<lparr>sel_target := l, sel_heap := h\<rparr>))"

definition add_to_expanded :: "nat \<Rightarrow> selection \<Rightarrow> VkResult \<times> selection" where
  "add_to_expanded p s = (case sel_expanded s of
       None \<Rightarrow> (VK_SUCCESS, s)
     | Some e \<Rightarrow> (case add_pointer e p (sel_heap s) of
         (r, l, h) \<Rightarrow> (r, s\<lparr>sel_expanded := Some l, sel_heap := h\<rparr>)))"

definition set_enabled :: "nat \<Rightarrow> loader_layer_enabled_by_what \<Rightarrow> selection \<Rightarrow> selection" where
  "set_enabled p why s = s\<lparr>sel_enabled := (sel_enabled s)(p := why)\<rparr>"

text \<open>The pattern of every ordinary layer: record why, add to the target list, then to the expanded one.\<close>

definition add_layer :: "nat \<Rightarrow> loader_layer_enabled_by_what \<Rightarrow> selection \<Rightarrow> VkResult \<times> selection" where
  "add_layer p why s =
     (let (r, s) = add_to_target p (set_enabled p why s) in
      if r = VK_ERROR_OUT_OF_HOST_MEMORY then (r, s) else add_to_expanded p s)"

definition in_target :: "loader_layer_properties list \<Rightarrow> string \<Rightarrow> selection \<Rightarrow> bool" where
  "in_target ls name s = (\<exists>p\<in>set (sel_target s). layer_name (ls ! p) = name)"

text \<open>
  \<^verbatim>\<open>loader_add_meta_layer\<close>, its loop over the components and \<^verbatim>\<open>loader_add_implicit_layer\<close>.  \<open>out\<close> is the
  variable \<^verbatim>\<open>out_found_all_component_layers\<close> points to, if any; the loop carries
  \<^verbatim>\<open>found_all_component_layers\<close> and the last \<^verbatim>\<open>result\<close>.
\<close>

function (sequential) loader_add_meta_layer ::
    "selection_context \<Rightarrow> nat \<Rightarrow> nat \<Rightarrow> bool option \<Rightarrow> selection \<Rightarrow> (VkResult \<times> bool option \<times> selection) option"
  and add_components ::
    "selection_context \<Rightarrow> nat \<Rightarrow> string list \<Rightarrow> bool \<Rightarrow> VkResult \<Rightarrow> selection \<Rightarrow> (VkResult \<times> bool \<times> selection) option"
  and loader_add_implicit_layer ::
    "selection_context \<Rightarrow> nat \<Rightarrow> nat \<Rightarrow> selection \<Rightarrow> (VkResult \<times> selection) option"
where
  "loader_add_meta_layer cx 0 prop out s = None"
| "loader_add_meta_layer cx (Suc d) prop out s =
     (case add_components cx d (sl_strings (component_layer_names (cx_source cx ! prop))) True VK_SUCCESS s of
        None \<Rightarrow> None
      | Some (result, found_all, s) \<Rightarrow>
          if result = VK_ERROR_OUT_OF_HOST_MEMORY then Some (result, out, s)
          else if found_all then
            (case add_to_target prop (set_enabled prop ENABLED_BY_WHAT_META_LAYER s) of (result, s) \<Rightarrow>
               if result = VK_ERROR_OUT_OF_HOST_MEMORY then Some (result, out, s)
               else Some (result, map_option (\<lambda>_. found_all) out, s))
          else Some (result, out, s))"
| "add_components cx d [] found_all result s = Some (result, found_all, s)"
| "add_components cx d (name # names) found_all result s =
     (case find_layer name (cx_source cx) of
        None \<Rightarrow> add_components cx d names False result s
      | Some search_prop \<Rightarrow>
          (case loader_layer_is_available (cx_filters cx) (cx_source cx ! search_prop) of
             None \<Rightarrow> None
           | Some available \<Rightarrow>
               if \<not> available then add_components cx d names found_all result s
               else if \<not> flag_explicit (cx_source cx ! search_prop) then
                 (case loader_add_implicit_layer cx d search_prop (set_enabled search_prop ENABLED_BY_WHAT_META_LAYER s) of
                    None \<Rightarrow> None
                  | Some (result, s) \<Rightarrow>
                      if result = VK_ERROR_OUT_OF_HOST_MEMORY then Some (result, found_all, s)
                      else add_components cx d names found_all result s)
               else if flag_meta (cx_source cx ! search_prop) then
                 (case loader_add_meta_layer cx d search_prop (Some True) (set_enabled search_prop ENABLED_BY_WHAT_META_LAYER s) of
                    None \<Rightarrow> None
                  | Some (result, found_layers_in_component_meta_layer, s) \<Rightarrow>
                      if result = VK_ERROR_OUT_OF_HOST_MEMORY then Some (result, found_all, s)
                      else add_components cx d names
                             (if found_layers_in_component_meta_layer = Some False then False else found_all) result s)
               else if \<not> in_target (cx_source cx) (layer_name (cx_source cx ! search_prop)) s then
                 (case add_layer search_prop ENABLED_BY_WHAT_META_LAYER s of (result, s) \<Rightarrow>
                    if result = VK_ERROR_OUT_OF_HOST_MEMORY then Some (result, found_all, s)
                    else add_components cx d names found_all result s)
               else add_components cx d names found_all result s))"
| "loader_add_implicit_layer cx d prop s =
     (case loader_implicit_layer_is_enabled (cx_process cx) (cx_inst cx) (cx_filters cx) (cx_source cx ! prop) of
        None \<Rightarrow> None
      | Some enabled \<Rightarrow>
          if enabled then
            (if \<not> flag_meta (cx_source cx ! prop) then
               (if in_target (cx_source cx) (layer_name (cx_source cx ! prop)) s then Some (VK_SUCCESS, s)
                else Some (add_layer prop ENABLED_BY_WHAT_IMPLICIT_LAYER s))
             else (case loader_add_meta_layer cx d prop None s of
                     None \<Rightarrow> None | Some (result, _, s) \<Rightarrow> Some (result, s)))
          else Some (VK_SUCCESS, s))"
  by pat_completeness auto
termination
  by (relation "measures [
        case_sum (\<lambda>(cx, d, _). d) (case_sum (\<lambda>(cx, d, _). d) (\<lambda>(cx, d, _). d)),
        case_sum (\<lambda>_. 0) (case_sum (\<lambda>_. 2) (\<lambda>_. 1)),
        case_sum (\<lambda>_. 0) (case_sum (\<lambda>(cx, d, names, _). length names) (\<lambda>_. 0))]") auto

declare loader_add_meta_layer.simps [simp del] add_components.simps [simp del] loader_add_implicit_layer.simps [simp del]


text \<open>\<^verbatim>\<open>loader_add_layer_names_to_list\<close>: a name that is not found sets \<^verbatim>\<open>err\<close> and the loop goes on.\<close>

fun add_names :: "selection_context \<Rightarrow> nat \<Rightarrow> string list \<Rightarrow> VkResult \<Rightarrow> selection \<Rightarrow> (VkResult \<times> selection) option" where
  "add_names cx d [] err s = Some (err, s)"
| "add_names cx d (source_name # names) err s =
     (case find_layer source_name (cx_source cx) of
        None \<Rightarrow> add_names cx d names VK_ERROR_LAYER_NOT_PRESENT s
      | Some p \<Rightarrow>
          if in_target (cx_source cx) source_name s then add_names cx d names err s
          else
            (case loader_layer_is_available (cx_filters cx) (cx_source cx ! p) of
               None \<Rightarrow> None
             | Some available \<Rightarrow>
                 if \<not> available then add_names cx d names err s
                 else if \<not> flag_meta (cx_source cx ! p) then
                   (case add_layer p ENABLED_BY_WHAT_IN_APPLICATION_API s of (err, s) \<Rightarrow>
                      if err = VK_ERROR_OUT_OF_HOST_MEMORY then Some (err, s) else add_names cx d names err s)
                 else
                   (case loader_add_meta_layer cx d p None s of
                      None \<Rightarrow> None
                    | Some (err, _, s) \<Rightarrow>
                        if err = VK_ERROR_OUT_OF_HOST_MEMORY then Some (err, s) else add_names cx d names err s)))"

definition loader_add_layer_names_to_list ::
  "selection_context \<Rightarrow> nat \<Rightarrow> string list \<Rightarrow> selection \<Rightarrow> (VkResult \<times> selection) option" where
  "loader_add_layer_names_to_list cx d names s = add_names cx d names VK_SUCCESS s"

text \<open>\<^verbatim>\<open>loader_add_implicit_layers\<close>: the loop over the source list.\<close>

fun add_implicits :: "selection_context \<Rightarrow> nat \<Rightarrow> string option \<Rightarrow> nat list \<Rightarrow> selection \<Rightarrow> (VkResult \<times> selection) option" where
  "add_implicits cx d enabled_layers_env [] s = Some (VK_SUCCESS, s)"
| "add_implicits cx d enabled_layers_env (i # is) s =
     (if \<not> flag_explicit (cx_source cx ! i) \<and>
         (case enabled_layers_env of None \<Rightarrow> True | Some e \<Rightarrow> \<not> strstr e (layer_name (cx_source cx ! i)))
      then (case loader_add_implicit_layer cx d i s of
              None \<Rightarrow> None
            | Some (result, s) \<Rightarrow>
                if result = VK_ERROR_OUT_OF_HOST_MEMORY then Some (result, s)
                else add_implicits cx d enabled_layers_env is s)
      else add_implicits cx d enabled_layers_env is s)"

definition loader_add_implicit_layers ::
  "selection_context \<Rightarrow> nat \<Rightarrow> string option \<Rightarrow> selection \<Rightarrow> (VkResult \<times> selection) option" where
  "loader_add_implicit_layers cx d enabled_layers_env s =
     add_implicits cx d enabled_layers_env [0..<length (cx_source cx)] s"

text \<open>
  \<^verbatim>\<open>loader_add_environment_layers\<close>.  For each name of the variable, the source list is scanned for layers
  of that name; the first one whose name is not in the target list yet is added.
\<close>

fun add_env_name :: "selection_context \<Rightarrow> nat \<Rightarrow> string \<Rightarrow> nat list \<Rightarrow> VkResult \<Rightarrow> selection \<Rightarrow> (VkResult \<times> selection) option" where
  "add_env_name cx d name [] res s = Some (res, s)"
| "add_env_name cx d name (i # is) res s =
     (if name = layer_name (cx_source cx ! i) \<and> \<not> in_target (cx_source cx) (layer_name (cx_source cx ! i)) s then
        (if \<not> flag_meta (cx_source cx ! i) then Some (add_layer i ENABLED_BY_WHAT_VK_INSTANCE_LAYERS s)
         else (case loader_add_meta_layer cx d i None s of None \<Rightarrow> None | Some (res, _, s) \<Rightarrow> Some (res, s)))
      else add_env_name cx d name is res s)"

fun add_env_names :: "selection_context \<Rightarrow> nat \<Rightarrow> string list \<Rightarrow> VkResult \<Rightarrow> selection \<Rightarrow> (VkResult \<times> selection) option" where
  "add_env_names cx d [] res s = Some (res, s)"
| "add_env_names cx d (name # names) res s =
     (if name = [] then add_env_names cx d names res s
      else (case add_env_name cx d name [0..<length (cx_source cx)] res s of
              None \<Rightarrow> None
            | Some (res, s) \<Rightarrow>
                if res = VK_ERROR_OUT_OF_HOST_MEMORY then Some (res, s) else add_env_names cx d names res s))"

text \<open>The second loop: explicit layers that match the enable filter and are not in the list.  The
  outcome of the disable filter is computed and then overwritten in both branches.\<close>

fun add_env_filtered :: "selection_context \<Rightarrow> nat \<Rightarrow> nat list \<Rightarrow> VkResult \<Rightarrow> selection \<Rightarrow> (VkResult \<times> selection) option" where
  "add_env_filtered cx d [] res s = Some (res, s)"
| "add_env_filtered cx d (i # is) res s =
     (let p = cx_source cx ! i; name = layer_name p; f = cx_filters cx; df = disable_filter f in
      if \<not> flag_explicit p then add_env_filtered cx d is res s
      else
        (case do {
            m_disable \<leftarrow> (if disable_all df \<or> disable_all_explicit df then Some True
                          else check_name_matches_filter_environment_var name (additional_filters df));
            _ \<leftarrow> (if m_disable then check_name_matches_filter_environment_var name (allow_filter f) else Some False);
            m_enable \<leftarrow> check_name_matches_filter_environment_var name (enable_filter f);
            Some (m_enable \<and> \<not> in_target (cx_source cx) name s)
          } of
           None \<Rightarrow> None
         | Some adding \<Rightarrow>
             if \<not> adding then add_env_filtered cx d is res s
             else if \<not> flag_meta p then
               (case add_layer i ENABLED_BY_WHAT_VK_LOADER_LAYERS_ENABLE s of (res, s) \<Rightarrow>
                  if res = VK_ERROR_OUT_OF_HOST_MEMORY then Some (res, s) else add_env_filtered cx d is res s)
             else
               (case loader_add_meta_layer cx d i None s of
                  None \<Rightarrow> None
                | Some (res, _, s) \<Rightarrow>
                    if res = VK_ERROR_OUT_OF_HOST_MEMORY then Some (res, s) else add_env_filtered cx d is res s)))"

definition loader_add_environment_layers ::
  "selection_context \<Rightarrow> nat \<Rightarrow> string option \<Rightarrow> selection \<Rightarrow> (VkResult \<times> selection) option" where
  "loader_add_environment_layers cx d enabled_layers_env s =
     (case (case enabled_layers_env of
              None \<Rightarrow> Some (VK_SUCCESS, s)
            | Some e \<Rightarrow> add_env_names cx d (path_dirs e) VK_SUCCESS s) of
        None \<Rightarrow> None
      | Some (res, s) \<Rightarrow>
          if res = VK_ERROR_OUT_OF_HOST_MEMORY then Some (res, s)
          else add_env_filtered cx d [0..<length (cx_source cx)] res s)"

definition ENABLED_LAYERS_ENV :: string where "ENABLED_LAYERS_ENV = ''VK_INSTANCE_LAYERS''"

text \<open>
  \<^verbatim>\<open>enable_correct_layers_from_settings\<close> (\<^verbatim>\<open>settings.c\<close>): first why one layer of the list is enabled, if it is,
  then the loop.  Nothing here looks whether the layer is in the target list already.
\<close>

definition settings_reason ::
  "selection_context \<Rightarrow> string option \<Rightarrow> string list \<Rightarrow> loader_layer_properties \<Rightarrow> loader_layer_enabled_by_what option option" where
  "settings_reason cx vk_instance_layers_env app_enabled_names props =
     (let name = layer_name props; f = cx_filters cx; d = disable_filter f in
      if settings_control_value props = LOADER_SETTINGS_LAYER_UNORDERED_LAYER_LOCATION then Some None
      else if settings_control_value props = LOADER_SETTINGS_LAYER_CONTROL_OFF then Some None
      else if settings_control_value props = LOADER_SETTINGS_LAYER_CONTROL_ON
        then Some (Some ENABLED_BY_WHAT_LOADER_SETTINGS_FILE)
      else do {
        m_disable \<leftarrow> (if disable_all d \<or> disable_all_implicit d then Some True
                      else check_name_matches_filter_environment_var name (additional_filters d));
        m_allow \<leftarrow> (if m_disable then check_name_matches_filter_environment_var name (allow_filter f) else Some False);
        (if m_disable \<and> \<not> m_allow then Some None
         else do {
           m_enable \<leftarrow> check_name_matches_filter_environment_var name (enable_filter f);
           (if m_enable then Some (Some ENABLED_BY_WHAT_VK_LOADER_LAYERS_ENABLE)
            else if (case vk_instance_layers_env of None \<Rightarrow> False | Some e \<Rightarrow> list_ex (\<lambda>n. n = name) (path_dirs e))
              then Some (Some ENABLED_BY_WHAT_VK_INSTANCE_LAYERS)
            else if list_ex (\<lambda>n. name = n) app_enabled_names then Some (Some ENABLED_BY_WHAT_IN_APPLICATION_API)
            else if \<not> flag_explicit props then do {
              e \<leftarrow> loader_implicit_layer_is_enabled (cx_process cx) (cx_inst cx) f props;
              Some (if e then Some ENABLED_BY_WHAT_IMPLICIT_LAYER else None)
            }
            else Some None)
         })
      })"

fun enable_settings_layers ::
  "selection_context \<Rightarrow> nat \<Rightarrow> string option \<Rightarrow> string list \<Rightarrow> nat list \<Rightarrow> VkResult \<Rightarrow> selection \<Rightarrow> (VkResult \<times> selection) option" where
  "enable_settings_layers cx d env app [] res s = Some (res, s)"
| "enable_settings_layers cx d env app (i # is) res s =
     (case settings_reason cx env app (cx_source cx ! i) of
        None \<Rightarrow> None
      | Some None \<Rightarrow> enable_settings_layers cx d env app is res s
      | Some (Some why) \<Rightarrow>
          if flag_meta (cx_source cx ! i) then
            (case loader_add_meta_layer cx d i None (set_enabled i why s) of
               None \<Rightarrow> None
             | Some (res, _, s) \<Rightarrow>
                 if res = VK_ERROR_OUT_OF_HOST_MEMORY then Some (res, s)
                 else enable_settings_layers cx d env app is res s)
          else
            (case add_layer i why s of (res, s) \<Rightarrow>
               if res \<noteq> VK_SUCCESS then Some (res, s) else enable_settings_layers cx d env app is res s))"

definition enable_correct_layers_from_settings ::
  "selection_context \<Rightarrow> nat \<Rightarrow> string list \<Rightarrow> selection \<Rightarrow> (VkResult \<times> selection) option" where
  "enable_correct_layers_from_settings cx d app_enabled_names s =
     enable_settings_layers cx d (loader_getenv (cx_process cx) (Some ENABLED_LAYERS_ENV)) app_enabled_names
       [0..<length (cx_source cx)] VK_SUCCESS s"

text \<open>
  \<^verbatim>\<open>loader_enable_instance_layers\<close>: two fresh pointer lists; with active layer settings the settings
  decide, otherwise implicit layers, layers of the environment and layers of the application are
  added in this order.
\<close>

definition empty_selection :: "heap \<Rightarrow> selection" where
  "empty_selection h = \<lparr>sel_target = [], sel_expanded = Some [], sel_enabled = (\<lambda>_. ENABLED_BY_WHAT_UNSET), sel_heap = h\<rparr>"

definition loader_enable_instance_layers ::
  "selection_context \<Rightarrow> nat \<Rightarrow> bool \<Rightarrow> string list \<Rightarrow> heap \<Rightarrow> (VkResult \<times> selection) option" where
  "loader_enable_instance_layers cx d settings_active app_names h =
     (if \<not> succeeds h then Some (VK_ERROR_OUT_OF_HOST_MEMORY, empty_selection (tick h))
      else (let h = add_live 1 (tick h) in
        if \<not> succeeds h then Some (VK_ERROR_OUT_OF_HOST_MEMORY, empty_selection (tick h))
        else (let s = empty_selection (add_live 1 (tick h));
                  enabled_layers_env = loader_getenv (cx_process cx) (Some ENABLED_LAYERS_ENV)
              in if settings_active then enable_correct_layers_from_settings cx d app_names s
                 else (case loader_add_implicit_layers cx d enabled_layers_env s of
                   None \<Rightarrow> None
                 | Some (res, s) \<Rightarrow>
                     if res \<noteq> VK_SUCCESS then Some (res, s)
                     else (case loader_add_environment_layers cx d enabled_layers_env s of
                             None \<Rightarrow> None
                           | Some (res, s) \<Rightarrow>
                               if res \<noteq> VK_SUCCESS then Some (res, s)
                               else loader_add_layer_names_to_list cx d app_names s)))))"


section \<open>What the checks decide\<close>

definition matches :: "loader_envvar_filter \<Rightarrow> string \<Rightarrow> bool" where
  "matches fs name = (\<exists>f\<in>set fs. filter_matches name f)"

definition wf_filters :: "loader_envvar_all_filters \<Rightarrow> bool" where
  "wf_filters f = (list_all wf_filter (enable_filter f) \<and> list_all wf_filter (additional_filters (disable_filter f)) \<and>
     list_all wf_filter (allow_filter f))"

lemma matches_check: "list_all wf_filter fs \<Longrightarrow> check_name_matches_filter_environment_var name fs = Some (matches fs name)"
  by (simp add: check_name_matches_correct matches_def)

definition available :: "loader_envvar_all_filters \<Rightarrow> loader_layer_properties \<Rightarrow> bool" where
  "available f p =
     (let d = disable_filter f;
          disabled = (disable_all d \<or> (if flag_explicit p then disable_all_explicit d else disable_all_implicit d) \<or>
                      matches (additional_filters d) (layer_name p))
      in matches (enable_filter f) (layer_name p) \<or> matches (allow_filter f) (layer_name p) \<or> \<not> disabled)"

lemma layer_is_available: "wf_filters f \<Longrightarrow> loader_layer_is_available f p = Some (available f p)"
  by (auto simp: loader_layer_is_available_def available_def wf_filters_def matches_check Let_def)

text \<open>The reference reading of the implicit layer rules.\<close>

definition env_requests :: "process \<Rightarrow> loader_layer_properties \<Rightarrow> bool" where
  "env_requests p prop = (case nv_name (enable_env_var prop) of
       None \<Rightarrow> True | Some n \<Rightarrow> (\<exists>v. loader_getenv p (Some n) = Some v \<and> nv_value (enable_env_var prop) = Some v))"

definition env_forbids :: "process \<Rightarrow> loader_layer_properties \<Rightarrow> bool" where
  "env_forbids p prop = (case nv_name (disable_env_var prop) of None \<Rightarrow> False | Some n \<Rightarrow> loader_getenv p (Some n) \<noteq> None)"

definition override_component :: "loader_instance_info option \<Rightarrow> string \<Rightarrow> bool" where
  "override_component inst name = (case inst of None \<Rightarrow> False
     | Some i \<Rightarrow> override_layer_present i \<and>
         (case find (\<lambda>q. layer_name q = VK_OVERRIDE_LAYER_NAME) (instance_layer_list i) of
            None \<Rightarrow> False | Some ov \<Rightarrow> name \<in> set (sl_strings (component_layer_names ov))))"

definition implicitly_enabled :: "process \<Rightarrow> loader_instance_info option \<Rightarrow> loader_envvar_all_filters \<Rightarrow> loader_layer_properties \<Rightarrow> bool" where
  "implicitly_enabled p inst f prop =
     (let d = disable_filter f; name = layer_name prop;
          forced_on = matches (enable_filter f) name;
          forced_off = ((disable_all d \<or> disable_all_implicit d \<or> matches (additional_filters d) name) \<and>
                        \<not> matches (allow_filter f) name)
      in if env_requests p prop \<and> forced_off \<and> \<not> forced_on then False
         else (forced_on \<or> env_requests p prop) \<and> \<not> env_forbids p prop \<or> override_component inst name)"

definition wf_enable_env :: "loader_layer_properties \<Rightarrow> bool" where
  "wf_enable_env p = (nv_name (enable_env_var p) = None \<or> nv_value (enable_env_var p) \<noteq> None)"

lemma implicit_layer_is_enabled:
  assumes "wf_filters f" "wf_enable_env prop"
  shows "loader_implicit_layer_is_enabled p inst f prop = Some (implicitly_enabled p inst f prop)"
proof -
  have env: "(case nv_name (enable_env_var prop) of
                 None \<Rightarrow> Some True
               | Some n \<Rightarrow> (case loader_getenv p (Some n) of
                     None \<Rightarrow> Some False
                   | Some env_value \<Rightarrow> map_option (\<lambda>v. v = env_value) (nv_value (enable_env_var prop)))) =
       Some (env_requests p prop)"
    using assms(2) by (auto simp: env_requests_def wf_enable_env_def split: option.splits)
  have off: "(nv_name (disable_env_var prop) \<noteq> None \<and> loader_getenv p (nv_name (disable_env_var prop)) \<noteq> None) = env_forbids p prop"
    by (auto simp: env_forbids_def split: option.splits)
  have ov: "(case inst of None \<Rightarrow> e
        | Some i \<Rightarrow> if override_layer_present i then
              (case find (\<lambda>q. layer_name q = VK_OVERRIDE_LAYER_NAME) (instance_layer_list i) of
                 None \<Rightarrow> e | Some ov \<Rightarrow> if name \<in> set (sl_strings (component_layer_names ov)) then True else e)
            else e) = (e \<or> override_component inst name)" for e name
    by (auto simp: override_component_def split: option.splits)
  show ?thesis
    using assms(1)
    unfolding loader_implicit_layer_is_enabled_def Let_def env off ov implicitly_enabled_def
    by (auto simp: wf_filters_def matches_check)
qed

section \<open>No layer twice\<close>

abbreviation ordinary :: "loader_layer_properties list \<Rightarrow> nat \<Rightarrow> bool" where
  "ordinary ls p \<equiv> \<not> flag_meta (ls ! p)"

definition target_ok :: "loader_layer_properties list \<Rightarrow> selection \<Rightarrow> bool" where
  "target_ok ls s = (sel_expanded s \<noteq> None \<and> (\<forall>p\<in>set (sel_target s). p < length ls) \<and>
     distinct (map (\<lambda>p. layer_name (ls ! p)) (filter (ordinary ls) (sel_target s))))"

text \<open>Between calls the expanded list is exactly the ordinary layers of the target list.\<close>

definition selected :: "loader_layer_properties list \<Rightarrow> selection \<Rightarrow> bool" where
  "selected ls s = (target_ok ls s \<and>
     (case sel_expanded s of None \<Rightarrow> True | Some e \<Rightarrow> e = filter (ordinary ls) (sel_target s)))"

text \<open>After running out of memory the last ordinary layer may be missing from the expanded list.\<close>

definition cut_short :: "loader_layer_properties list \<Rightarrow> selection \<Rightarrow> bool" where
  "cut_short ls s = (target_ok ls s \<and>
     (case sel_expanded s of None \<Rightarrow> True
      | Some e \<Rightarrow> prefix e (filter (ordinary ls) (sel_target s))))"

definition outcome :: "loader_layer_properties list \<Rightarrow> VkResult \<Rightarrow> selection \<Rightarrow> bool" where
  "outcome ls r s = (if r = VK_ERROR_OUT_OF_HOST_MEMORY then cut_short ls s else selected ls s)"

lemma selected_cut_short: "selected ls s \<Longrightarrow> cut_short ls s"
  by (auto simp: selected_def cut_short_def split: option.splits)

lemma selected_set_enabled [simp]: "selected ls (set_enabled p w s) = selected ls s" "cut_short ls (set_enabled p w s) = cut_short ls s"
  by (simp_all add: selected_def cut_short_def target_ok_def set_enabled_def split: option.split)

lemma add_meta_outcome:
  assumes "selected ls s" "p < length ls" "flag_meta (ls ! p)" "add_to_target p s = (r, s')"
  shows "outcome ls r s'" and "r = VK_SUCCESS \<or> r = VK_ERROR_OUT_OF_HOST_MEMORY"
  using assms selected_cut_short [OF assms(1)]
  by (auto simp: add_to_target_def add_pointer_def outcome_def selected_def cut_short_def target_ok_def split: if_splits option.splits)

lemma add_layer_outcome:
  assumes "selected ls s" "p < length ls" "ordinary ls p" "\<not> in_target ls (layer_name (ls ! p)) s"
    and "add_layer p why s = (r, s')"
  shows "outcome ls r s'" and "r = VK_SUCCESS \<or> r = VK_ERROR_OUT_OF_HOST_MEMORY"
proof -
  have "layer_name (ls ! p) \<notin> (\<lambda>q. layer_name (ls ! q)) ` set (filter (ordinary ls) (sel_target s))"
    using assms(4) by (auto simp: in_target_def)
  with assms selected_cut_short [OF assms(1)] show "outcome ls r s'" and "r = VK_SUCCESS \<or> r = VK_ERROR_OUT_OF_HOST_MEMORY"
    by (auto simp: add_layer_def add_to_target_def add_to_expanded_def add_pointer_def set_enabled_def outcome_def
        selected_def cut_short_def target_ok_def Let_def split: if_splits option.splits)
qed

lemma find_layer_Some: "find_layer name ls = Some p \<Longrightarrow> p < length ls \<and> layer_name (ls ! p) = name"
  using find_index_from_nth(1) [of "\<lambda>q. name = layer_name q" 0 ls p] by (simp add: find_layer_def)


text \<open>The results of the mutually recursive functions.\<close>

definition ok_result :: "VkResult \<Rightarrow> bool" where
  "ok_result r = (r = VK_SUCCESS \<or> r = VK_ERROR_OUT_OF_HOST_MEMORY)"

lemma outcome_selected: "outcome ls r s \<Longrightarrow> r \<noteq> VK_ERROR_OUT_OF_HOST_MEMORY \<Longrightarrow> selected ls s"
  by (simp add: outcome_def)

lemma selected_outcome: "selected ls s \<Longrightarrow> outcome ls r s"
  by (simp add: outcome_def selected_cut_short)

lemma add_mutual_outcome:
  "loader_add_meta_layer cx d pr out s = Some (r, out', s') \<Longrightarrow> selected (cx_source cx) s \<Longrightarrow>
     pr < length (cx_source cx) \<Longrightarrow> flag_meta (cx_source cx ! pr) \<Longrightarrow> outcome (cx_source cx) r s' \<and> ok_result r"
  "add_components cx d names fa r0 s = Some (r, fa', s') \<Longrightarrow> selected (cx_source cx) s \<Longrightarrow> r0 = VK_SUCCESS \<Longrightarrow>
     outcome (cx_source cx) r s' \<and> ok_result r"
  "loader_add_implicit_layer cx d pr s = Some (r, s') \<Longrightarrow> selected (cx_source cx) s \<Longrightarrow>
     pr < length (cx_source cx) \<Longrightarrow> outcome (cx_source cx) r s' \<and> ok_result r"
proof (induction cx d pr out s and cx d names fa r0 s and cx d pr s
    arbitrary: r out' s' and r fa' s' and r s' rule: loader_add_meta_layer_add_components_loader_add_implicit_layer.induct)
  case (1 cx pr out s)
  then show ?case by (simp add: loader_add_meta_layer.simps)
next
  case (2 cx d pr out s)
  from "2.prems"(1) obtain r1 fa s1 where
    c: "add_components cx d (sl_strings (component_layer_names (cx_source cx ! pr))) True VK_SUCCESS s = Some (r1, fa, s1)"
    by (auto simp: loader_add_meta_layer.simps split: option.splits)
  have o1: "outcome (cx_source cx) r1 s1" "ok_result r1" using "2.IH" [OF c "2.prems"(2) refl] by auto
  obtain r2 s2 where t: "add_to_target pr (set_enabled pr ENABLED_BY_WHAT_META_LAYER s1) = (r2, s2)" by fastforce
  show ?case
  proof (cases "r1 = VK_ERROR_OUT_OF_HOST_MEMORY")
    case True
    with "2.prems"(1) c o1 show ?thesis by (auto simp: loader_add_meta_layer.simps)
  next
    case False
    then have "selected (cx_source cx) (set_enabled pr ENABLED_BY_WHAT_META_LAYER s1)" using o1 outcome_selected by simp
    from add_meta_outcome [OF this "2.prems"(3,4) t] False "2.prems"(1) c o1 t show ?thesis
      by (auto simp: loader_add_meta_layer.simps ok_result_def split: if_splits)
  qed
next
  case (3 cx d fa r0 s)
  then show ?case by (simp add: add_components.simps selected_outcome ok_result_def)
next
  case (4 cx d name names fa r0 s)
  show ?case
  proof (cases "find_layer name (cx_source cx)")
    case None
    with "4.IH"(1) [OF None] "4.prems" show ?thesis by (auto simp: add_components.simps(2))
  next
    case (Some p)
    note p = find_layer_Some [OF Some]
    let ?p = "cx_source cx ! p"
    obtain av where av: "loader_layer_is_available (cx_filters cx) ?p = Some av"
      using "4.prems"(1) Some by (auto simp: add_components.simps(2) split: option.splits)
    note step = add_components.simps(2)
    consider (off) "\<not> av" | (implicit) "av" "\<not> flag_explicit ?p" | (meta) "av" "flag_explicit ?p" "flag_meta ?p"
      | (new) "av" "flag_explicit ?p" "\<not> flag_meta ?p" "\<not> in_target (cx_source cx) (layer_name ?p) s"
      | (there) "av" "flag_explicit ?p" "\<not> flag_meta ?p" "in_target (cx_source cx) (layer_name ?p) s" by blast
    then show ?thesis
    proof cases
      case off
      with "4.IH"(2) [OF Some av] "4.prems" Some av show ?thesis by (auto simp: step)
    next
      case implicit
      then obtain r1 s1 where c: "loader_add_implicit_layer cx d p (set_enabled p ENABLED_BY_WHAT_META_LAYER s) = Some (r1, s1)"
        using "4.prems"(1) Some av by (auto simp: step split: option.splits)
      have o1: "outcome (cx_source cx) r1 s1" "ok_result r1"
        using "4.IH"(3) [OF Some av] implicit c "4.prems" p by auto
      show ?thesis
      proof (cases "r1 = VK_ERROR_OUT_OF_HOST_MEMORY")
        case True
        with "4.prems"(1) Some av implicit c o1 show ?thesis by (auto simp: step)
      next
        case False
        with o1 have "selected (cx_source cx) s1" "r1 = VK_SUCCESS" by (auto simp: outcome_selected ok_result_def)
        with "4.IH"(4) [OF Some av _ _ c] "4.prems" Some av implicit c False show ?thesis by (auto simp: step)
      qed
    next
      case meta
      then obtain r1 f1 s1 where c: "loader_add_meta_layer cx d p (Some True) (set_enabled p ENABLED_BY_WHAT_META_LAYER s) = Some (r1, f1, s1)"
        using "4.prems"(1) Some av by (auto simp: step split: option.splits)
      have o1: "outcome (cx_source cx) r1 s1" "ok_result r1"
        using "4.IH"(5) [OF Some av] meta c "4.prems" p by auto
      show ?thesis
      proof (cases "r1 = VK_ERROR_OUT_OF_HOST_MEMORY")
        case True
        with "4.prems"(1) Some av meta c o1 show ?thesis by (auto simp: step)
      next
        case False
        with o1 have "selected (cx_source cx) s1" "r1 = VK_SUCCESS" by (auto simp: outcome_selected ok_result_def)
        with "4.IH"(6) [OF Some av _ _ _ c] "4.prems" Some av meta c False show ?thesis by (auto simp: step)
      qed
    next
      case new
      obtain r1 s1 where c: "add_layer p ENABLED_BY_WHAT_META_LAYER s = (r1, s1)" by fastforce
      have o1: "outcome (cx_source cx) r1 s1" "r1 = VK_SUCCESS \<or> r1 = VK_ERROR_OUT_OF_HOST_MEMORY"
        using add_layer_outcome [OF "4.prems"(2) _ _ new(4) c] p new by auto
      show ?thesis
      proof (cases "r1 = VK_ERROR_OUT_OF_HOST_MEMORY")
        case True
        with "4.prems"(1) Some av new c o1 show ?thesis by (auto simp: step ok_result_def)
      next
        case False
        with o1 have "selected (cx_source cx) s1" "r1 = VK_SUCCESS" by (auto simp: outcome_selected)
        with "4.IH"(7) [OF Some av _ _ _ _ c [symmetric]] "4.prems" Some av new c False show ?thesis by (auto simp: step)
      qed
    next
      case there
      with "4.IH"(8) [OF Some av] "4.prems" Some av show ?thesis by (auto simp: step)
    qed
  qed
next
  case (5 cx d pr s)
  note step = loader_add_implicit_layer.simps [of cx d pr s]
  obtain e where e: "loader_implicit_layer_is_enabled (cx_process cx) (cx_inst cx) (cx_filters cx) (cx_source cx ! pr) = Some e"
    using "5.prems"(1) by (auto simp: step split: option.splits)
  consider (off) "\<not> e \<or> \<not> flag_meta (cx_source cx ! pr) \<and> in_target (cx_source cx) (layer_name (cx_source cx ! pr)) s"
    | (new) "e" "\<not> flag_meta (cx_source cx ! pr)" "\<not> in_target (cx_source cx) (layer_name (cx_source cx ! pr)) s"
    | (meta) "e" "flag_meta (cx_source cx ! pr)" by blast
  then show ?case
  proof cases
    case off
    with "5.prems" e show ?thesis by (auto simp: step selected_outcome ok_result_def split: if_splits)
  next
    case new
    with add_layer_outcome [OF "5.prems"(2,3) new(2,3)] "5.prems"(1) e show ?thesis
      by (auto simp: step ok_result_def)
  next
    case meta
    then obtain o1 where "loader_add_meta_layer cx d pr None s = Some (r, o1, s')"
      using "5.prems"(1) e by (auto simp: step split: option.splits)
    with "5.IH" [OF e] meta "5.prems" show ?thesis by auto
  qed
qed


lemmas add_meta_layer_outcome = add_mutual_outcome(1)
lemmas add_implicit_layer_outcome = add_mutual_outcome(3)

lemma add_names_outcome:
  "add_names cx d names err s = Some (r, s') \<Longrightarrow> selected (cx_source cx) s \<Longrightarrow> err \<noteq> VK_ERROR_OUT_OF_HOST_MEMORY \<Longrightarrow>
   outcome (cx_source cx) r s'"
proof (induction cx d names err s arbitrary: r s' rule: add_names.induct)
  case (1 cx d err s)
  then show ?case by (simp add: selected_outcome)
next
  case (2 cx d name names err s)
  show ?case
  proof (cases "find_layer name (cx_source cx)")
    case None
    with "2.IH"(1) [OF None] "2.prems" show ?thesis by auto
  next
    case (Some p)
    note p = find_layer_Some [OF Some]
    show ?thesis
    proof (cases "in_target (cx_source cx) name s")
      case True
      with "2.IH"(2) [OF Some True] "2.prems" Some show ?thesis by auto
    next
      case new: False
      obtain av where av: "loader_layer_is_available (cx_filters cx) (cx_source cx ! p) = Some av"
        using "2.prems"(1) Some new by (auto split: option.splits)
      consider "\<not> av" | "av" "\<not> flag_meta (cx_source cx ! p)" | "av" "flag_meta (cx_source cx ! p)" by blast
      then show ?thesis
      proof cases
        case 1
        with "2.IH"(3) [OF Some new av] "2.prems" Some new av show ?thesis by auto
      next
        case 2
        obtain r1 s1 where c: "add_layer p ENABLED_BY_WHAT_IN_APPLICATION_API s = (r1, s1)" by fastforce
        have "outcome (cx_source cx) r1 s1" using add_layer_outcome(1) [OF "2.prems"(2) _ 2(2) _ c] p new by auto
        with "2.IH"(4) [OF Some new av _ 2(2) c [symmetric]] 2 "2.prems" Some new av c show ?thesis
          by (auto simp: outcome_selected split: if_splits)
      next
        case 3
        then obtain r1 o1 s1 where c: "loader_add_meta_layer cx d p None s = Some (r1, o1, s1)"
          using "2.prems"(1) Some new av by (auto split: option.splits)
        have "outcome (cx_source cx) r1 s1" using add_meta_layer_outcome [OF c "2.prems"(2)] p 3 by auto
        with "2.IH"(5) [OF Some new av _ _ c] 3 "2.prems" Some new av c show ?thesis
          by (auto simp: outcome_selected split: if_splits)
      qed
    qed
  qed
qed

lemma add_implicits_outcome:
  "add_implicits cx d env is s = Some (r, s') \<Longrightarrow> selected (cx_source cx) s \<Longrightarrow> \<forall>i\<in>set is. i < length (cx_source cx) \<Longrightarrow>
   outcome (cx_source cx) r s' \<and> ok_result r"
proof (induction "is" arbitrary: s)
  case Nil
  then show ?case by (simp add: selected_outcome ok_result_def)
next
  case (Cons i "is")
  let ?c = "\<not> flag_explicit (cx_source cx ! i) \<and>
         (case env of None \<Rightarrow> True | Some e \<Rightarrow> \<not> strstr e (layer_name (cx_source cx ! i)))"
  show ?case
  proof (cases ?c)
    case False
    then have "add_implicits cx d env (i # is) s = add_implicits cx d env is s" by (simp only: add_implicits.simps if_False)
    with Cons show ?thesis by auto
  next
    case True
    then obtain r1 s1 where c: "loader_add_implicit_layer cx d i s = Some (r1, s1)"
      using Cons.prems(1) by (auto split: option.splits)
    have step: "add_implicits cx d env (i # is) s =
        (if r1 = VK_ERROR_OUT_OF_HOST_MEMORY then Some (r1, s1) else add_implicits cx d env is s1)"
      using c by (simp only: add_implicits.simps True if_True) simp
    have "outcome (cx_source cx) r1 s1 \<and> ok_result r1" using add_implicit_layer_outcome [OF c Cons.prems(2)] Cons.prems(3) by simp
    with Cons step show ?thesis by (auto simp: outcome_selected split: if_splits)
  qed
qed

lemma add_env_name_outcome:
  "add_env_name cx d name is r0 s = Some (r, s') \<Longrightarrow> selected (cx_source cx) s \<Longrightarrow> r0 \<noteq> VK_ERROR_OUT_OF_HOST_MEMORY \<Longrightarrow>
   \<forall>i\<in>set is. i < length (cx_source cx) \<Longrightarrow> outcome (cx_source cx) r s'"
proof (induction "is" arbitrary: s)
  case (Cons i "is")
  let ?c = "name = layer_name (cx_source cx ! i) \<and> \<not> in_target (cx_source cx) (layer_name (cx_source cx ! i)) s"
  consider "\<not> ?c" | "?c" "\<not> flag_meta (cx_source cx ! i)" | "?c" "flag_meta (cx_source cx ! i)" by blast
  then show ?case
  proof cases
    case 1
    then have "add_env_name cx d name (i # is) r0 s = add_env_name cx d name is r0 s" by (simp only: add_env_name.simps if_False)
    with Cons show ?thesis by auto
  next
    case 2
    with Cons.prems add_layer_outcome(1) [OF Cons.prems(2) _ 2(2)] show ?thesis by auto
  next
    case 3
    then obtain o1 where "loader_add_meta_layer cx d i None s = Some (r, o1, s')"
      using Cons.prems(1) by (auto split: option.splits)
    from add_meta_layer_outcome [OF this Cons.prems(2)] 3 Cons.prems(4) show ?thesis by auto
  qed
qed (simp add: selected_outcome)

lemma add_env_names_outcome:
  "add_env_names cx d names r0 s = Some (r, s') \<Longrightarrow> selected (cx_source cx) s \<Longrightarrow> r0 \<noteq> VK_ERROR_OUT_OF_HOST_MEMORY \<Longrightarrow>
   outcome (cx_source cx) r s'"
proof (induction names arbitrary: r0 s)
  case (Cons name names)
  show ?case
  proof (cases "name = []")
    case True
    with Cons show ?thesis by simp
  next
    case False
    then obtain r1 s1 where c: "add_env_name cx d name [0..<length (cx_source cx)] r0 s = Some (r1, s1)"
      using Cons.prems(1) by (auto split: option.splits)
    have "outcome (cx_source cx) r1 s1" using add_env_name_outcome [OF c Cons.prems(2,3)] by simp
    with Cons False c show ?thesis by (auto simp: outcome_selected split: if_splits)
  qed
qed (simp add: selected_outcome)

lemma add_env_filtered_outcome:
  "add_env_filtered cx d is r0 s = Some (r, s') \<Longrightarrow> selected (cx_source cx) s \<Longrightarrow> r0 \<noteq> VK_ERROR_OUT_OF_HOST_MEMORY \<Longrightarrow>
   \<forall>i\<in>set is. i < length (cx_source cx) \<Longrightarrow> wf_filters (cx_filters cx) \<Longrightarrow> outcome (cx_source cx) r s'"
proof (induction "is" arbitrary: r0 s)
  case (Cons i "is")
  let ?p = "cx_source cx ! i"
  let ?add = "matches (enable_filter (cx_filters cx)) (layer_name ?p) \<and> \<not> in_target (cx_source cx) (layer_name ?p) s"
  have checks: "do {
            m_disable \<leftarrow> (if disable_all (disable_filter (cx_filters cx)) \<or> disable_all_explicit (disable_filter (cx_filters cx)) then Some True
                          else check_name_matches_filter_environment_var (layer_name ?p) (additional_filters (disable_filter (cx_filters cx))));
            _ \<leftarrow> (if m_disable then check_name_matches_filter_environment_var (layer_name ?p) (allow_filter (cx_filters cx)) else Some False);
            m_enable \<leftarrow> check_name_matches_filter_environment_var (layer_name ?p) (enable_filter (cx_filters cx));
            Some (m_enable \<and> \<not> in_target (cx_source cx) (layer_name ?p) s)
          } = Some ?add"
    using Cons.prems(5) by (simp add: wf_filters_def matches_check)
  note step = add_env_filtered.simps(2) [of cx d i "is" r0 s, unfolded Let_def checks option.case]
  consider (skip) "\<not> flag_explicit ?p \<or> \<not> ?add" | (plain) "flag_explicit ?p" "?add" "\<not> flag_meta ?p"
    | (meta) "flag_explicit ?p" "?add" "flag_meta ?p" by blast
  then show ?case
  proof cases
    case skip
    then have "add_env_filtered cx d (i # is) r0 s = add_env_filtered cx d is r0 s" unfolding step by auto
    with Cons show ?thesis by auto
  next
    case plain
    obtain r1 s1 where c: "add_layer i ENABLED_BY_WHAT_VK_LOADER_LAYERS_ENABLE s = (r1, s1)" by fastforce
    have o1: "outcome (cx_source cx) r1 s1" using add_layer_outcome(1) [OF Cons.prems(2) _ plain(3) _ c] Cons.prems(4) plain by auto
    have "add_env_filtered cx d (i # is) r0 s =
        (if r1 = VK_ERROR_OUT_OF_HOST_MEMORY then Some (r1, s1) else add_env_filtered cx d is r1 s1)"
      unfolding step using plain c by simp
    with Cons o1 show ?thesis by (auto simp: outcome_selected split: if_splits)
  next
    case meta
    then obtain r1 o1 s1 where c: "loader_add_meta_layer cx d i None s = Some (r1, o1, s1)"
      using Cons.prems(1) unfolding step by (auto split: option.splits)
    have o1: "outcome (cx_source cx) r1 s1" using add_meta_layer_outcome [OF c Cons.prems(2)] meta Cons.prems(4) by auto
    have "add_env_filtered cx d (i # is) r0 s =
        (if r1 = VK_ERROR_OUT_OF_HOST_MEMORY then Some (r1, s1) else add_env_filtered cx d is r1 s1)"
      unfolding step using meta c by simp
    with Cons o1 show ?thesis by (auto simp: outcome_selected split: if_splits)
  qed
qed (simp add: selected_outcome)


lemma add_environment_outcome:
  assumes "loader_add_environment_layers cx d env s = Some (r, s')" "selected (cx_source cx) s" "wf_filters (cx_filters cx)"
  shows "outcome (cx_source cx) r s'"
proof -
  obtain r1 s1 where a: "(case env of None \<Rightarrow> Some (VK_SUCCESS, s) | Some e \<Rightarrow> add_env_names cx d (path_dirs e) VK_SUCCESS s) = Some (r1, s1)"
    using assms(1) unfolding loader_add_environment_layers_def by (fastforce split: option.splits)
  have o1: "outcome (cx_source cx) r1 s1"
    using a add_env_names_outcome [OF _ assms(2)] assms(2) by (cases env) (auto simp: selected_outcome)
  show ?thesis
    using assms(1) o1 add_env_filtered_outcome [of cx d _ r1 s1 r s'] assms(3)
    unfolding loader_add_environment_layers_def a by (auto simp: outcome_def split: if_splits)
qed

lemma enable_instance_layers_outcome:
  assumes "wf_filters (cx_filters cx)" "loader_enable_instance_layers cx d False names h = Some (r, s)"
  shows "outcome (cx_source cx) r s"
proof -
  let ?env = "loader_getenv (cx_process cx) (Some ENABLED_LAYERS_ENV)"
  have start: "selected (cx_source cx) (empty_selection h0)" for h0
    by (simp add: selected_def target_ok_def empty_selection_def)
  note def = loader_enable_instance_layers_def [of cx d False names h, unfolded Let_def if_False]
  let ?h1 = "add_live 1 (tick h)"
  let ?s0 = "empty_selection (add_live 1 (tick ?h1))"
  show ?thesis
  proof (cases "succeeds h \<and> succeeds ?h1")
    case False
    with assms(2) start show ?thesis unfolding def by (auto simp: selected_outcome split: if_splits)
  next
    case True
    then obtain r1 s1 where a: "loader_add_implicit_layers cx d ?env ?s0 = Some (r1, s1)"
      using assms(2) unfolding def by (auto split: option.splits)
    have o1: "outcome (cx_source cx) r1 s1"
      using add_implicits_outcome [OF a [unfolded loader_add_implicit_layers_def] start] by simp
    show ?thesis
    proof (cases "r1 = VK_SUCCESS")
      case False
      with assms(2) True a o1 show ?thesis unfolding def by simp
    next
      case r1: True
      then have sel1: "selected (cx_source cx) s1" using o1 by (simp add: outcome_def)
      obtain r2 s2 where b: "loader_add_environment_layers cx d ?env s1 = Some (r2, s2)"
        using assms(2) True a r1 unfolding def by (auto split: option.splits)
      have o2: "outcome (cx_source cx) r2 s2" using add_environment_outcome [OF b sel1 assms(1)] .
      show ?thesis
      proof (cases "r2 = VK_SUCCESS")
        case False
        with assms(2) True a b r1 o2 show ?thesis unfolding def by simp
      next
        case r2: True
        then have "selected (cx_source cx) s2" using o2 by (simp add: outcome_def)
        with assms(2) True a b r1 r2 add_names_outcome show ?thesis
          unfolding def loader_add_layer_names_to_list_def by fastforce
      qed
    qed
  qed
qed

section \<open>Properties\<close>

text \<open>Small inputs: a string list, a layer with given flags and components, no filters, a context.\<close>

definition strings_of :: "string list \<Rightarrow> loader_string_list" where
  "strings_of xs = (if xs = [] then empty_string_list
     else \<lparr>sl_allocated_count = length xs, sl_count = length xs, sl_list = Buf (map Some xs)\<rparr>)"

lemma sl_strings_strings_of [simp]: "sl_strings (strings_of xs) = xs"
  by (simp add: sl_strings_def strings_of_def empty_string_list_def)

definition a_layer :: "string \<Rightarrow> nat \<Rightarrow> string list \<Rightarrow> loader_layer_properties" where
  "a_layer name flags comps = zero_layer\<lparr>info := (info zero_layer)\<lparr>layerName := name\<rparr>, type_flags := flags,
     component_layer_names := strings_of comps\<rparr>"

lemma a_layer_simps [simp]:
  "layer_name (a_layer name flags comps) = name" "lp_specVersion (info (a_layer name flags comps)) = 0"
  "component_layer_names (a_layer name flags comps) = strings_of comps"
  "enable_env_var (a_layer name flags comps) = \<lparr>nv_name = None, nv_value = None\<rparr>"
  "disable_env_var (a_layer name flags comps) = \<lparr>nv_name = None, nv_value = None\<rparr>"
  "settings_control_value (a_layer name flags comps) = LOADER_SETTINGS_LAYER_CONTROL_DEFAULT"
  "app_key_paths (a_layer name flags comps) = empty_string_list"
  by (simp_all add: a_layer_def zero_layer_def)

lemma a_layer_flags [simp]:
  "\<not> flag_explicit (a_layer name (Suc 0) comps)" "\<not> flag_meta (a_layer name (Suc 0) comps)"
  "flag_explicit (a_layer name 3 comps)" "\<not> flag_meta (a_layer name 3 comps)"
  "flag_explicit (a_layer name 7 comps)" "flag_meta (a_layer name 7 comps)"
  "flag_explicit (p\<lparr>settings_control_value := c\<rparr>) = flag_explicit p" "flag_meta (p\<lparr>settings_control_value := c\<rparr>) = flag_meta p"
  by (simp_all add: a_layer_def flag_explicit_def flag_meta_def bit_iff_odd)

definition no_filters :: loader_envvar_all_filters where
  "no_filters = \<lparr>enable_filter = [], disable_filter = empty_disable_filter, allow_filter = []\<rparr>"

lemma wf_no_filters [simp]: "wf_filters no_filters"
  by (simp add: wf_filters_def no_filters_def empty_disable_filter_def)

lemma no_filters_match [simp]:
  "available no_filters p" "implicitly_enabled pr None no_filters p \<longleftrightarrow> env_requests pr p \<and> \<not> env_forbids pr p"
  by (simp_all add: available_def implicitly_enabled_def no_filters_def empty_disable_filter_def matches_def override_component_def)

abbreviation a_context :: "(string \<Rightarrow> string option) \<Rightarrow> loader_layer_properties list \<Rightarrow> selection_context" where
  "a_context env ls \<equiv> \<lparr>cx_process = \<lparr>proc_env = env, proc_secure_mode = False\<rparr>, cx_inst = None, cx_filters = no_filters, cx_source = ls\<rparr>"

lemmas evaluate_selection = wf_enable_env_def env_requests_def env_forbids_def find_layer_def add_layer_def add_to_target_def add_to_expanded_def add_pointer_def set_enabled_def in_target_def succeeds_def
  empty_selection_def layer_is_available implicit_layer_is_enabled loader_getenv_def

text \<open>An implicit layer is enabled exactly by the documented rules: forced on or requested by its variable,
  not switched off by its own disabling variable, or a component of the active override layer;
  and never when a disabling filter matches, no allowing one does, and it is not forced on.\<close>

theorem implicit_layer_rules:
  assumes "wf_filters f" and "wf_enable_env prop"
  shows "loader_implicit_layer_is_enabled p inst f prop = Some (implicitly_enabled p inst f prop)"
  by (rule implicit_layer_is_enabled [OF assms])

theorem implicit_layer_rules_witness:
  "wf_filters no_filters \<and> wf_enable_env (a_layer ''I'' 1 []) \<and>
   loader_implicit_layer_is_enabled \<lparr>proc_env = (\<lambda>_. None), proc_secure_mode = False\<rparr> None no_filters (a_layer ''I'' 1 []) = Some True"
proof -
  have wf: "wf_enable_env (a_layer ''I'' 1 [])" by (simp add: wf_enable_env_def)
  from implicit_layer_rules [OF wf_no_filters wf, of "\<lparr>proc_env = (\<lambda>_. None), proc_secure_mode = False\<rparr>" None] wf show ?thesis
    by (simp add: env_requests_def env_forbids_def)
qed

abbreviation substring_context :: selection_context where
  "substring_context \<equiv> a_context (\<lambda>n. if n = ENABLED_LAYERS_ENV then Some ''VK_AB'' else None) [a_layer ''VK_A'' 1 [], a_layer ''VK_AB'' 3 []]"

text \<open>An implicit layer whose name is part of a longer name in \<^verbatim>\<open>VK_INSTANCE_LAYERS\<close> is left out: the implicit pass
  skips it because \<^verbatim>\<open>strstr\<close> finds its name, and the environment pass, which compares whole names, does
  not add it either, although it is enabled.\<close>

theorem implicit_layer_hidden_by_substring:
  "loader_implicit_layer_is_enabled (cx_process substring_context) None no_filters (a_layer ''VK_A'' 1 []) = Some True \<and>
   map_option (\<lambda>(r, s). (r, sel_target s)) (loader_enable_instance_layers substring_context d False [] (sample_heap True)) =
     Some (VK_SUCCESS, [1])"
proof
  show "loader_implicit_layer_is_enabled (cx_process substring_context) None no_filters (a_layer ''VK_A'' 1 []) = Some True"
    by (simp add: evaluate_selection ENABLED_LAYERS_ENV_def)
  have dirs: "path_dirs ''VK_AB'' = [''VK_AB'']"
    by (simp add: path_dirs.simps loader_get_next_path_def PATH_SEPARATOR_def)
  show "map_option (\<lambda>(r, s). (r, sel_target s)) (loader_enable_instance_layers substring_context d False [] (sample_heap True)) =
     Some (VK_SUCCESS, [1])"
    by (simp add: loader_enable_instance_layers_def loader_add_implicit_layers_def loader_add_environment_layers_def
        loader_add_layer_names_to_list_def dirs upt_rec evaluate_selection no_filters_def empty_disable_filter_def Let_def)
qed

abbreviation settings_context :: selection_context where
  "settings_context \<equiv> a_context (\<lambda>_. None)
     [(a_layer ''M'' 7 [''A''])\<lparr>settings_control_value := LOADER_SETTINGS_LAYER_CONTROL_ON\<rparr>,
      (a_layer ''A'' 3 [])\<lparr>settings_control_value := LOADER_SETTINGS_LAYER_CONTROL_ON\<rparr>]"

text \<open>With an active settings file the same layer can be activated twice: once as a component of a
  meta-layer and once by itself, since the settings path never looks into the target list.\<close>

theorem settings_activate_layer_twice:
  "map_option (\<lambda>(r, s). (r, sel_target s, sel_expanded s))
     (loader_enable_instance_layers settings_context (Suc d) True [] (sample_heap True)) =
   Some (VK_SUCCESS, [1, 0, 1], Some [1, 1])"
  by (simp add: loader_enable_instance_layers_def enable_correct_layers_from_settings_def settings_reason_def upt_rec
      evaluate_selection loader_add_meta_layer.simps add_components.simps)

end
