(* ===== verification/MetaLayers.thy ===== *)
theory MetaLayers
  imports LayerSelect
begin

text \<open>
  Meta-layers and override layers (\<^verbatim>\<open>loader.c\<close>): the recursive check of a meta-layer's components with
  its array of marks, the merge of the components' extensions into the meta-layer, the pass that
  drops invalid meta-layers, and the pass over the override layers.  The check takes the depth
  the C stack allows, like \<open>loader_add_meta_layer\<close>; \<open>verify_terminates\<close> shows that the number of
  layers is depth enough, and \<open>verified_meta_layer_selection_terminates\<close> that a verified
  meta-layer can be added within that depth.
\<close>

section \<open>Checking the components\<close>

text \<open>The index the scan for \<^verbatim>\<open>comp_prop_index\<close> ends with: the last layer of that name.\<close>

fun last_index_from :: "('a \<Rightarrow> bool) \<Rightarrow> nat \<Rightarrow> nat option \<Rightarrow> 'a list \<Rightarrow> nat option" where
  "last_index_from p i found [] = found"
| "last_index_from p i found (x # xs) = last_index_from p (i + 1) (if p x then Some i else found) xs"

function (sequential) verify_meta_layer_component_layers ::
    "loader_layer_properties list \<Rightarrow> nat \<Rightarrow> nat \<Rightarrow> bool list option \<Rightarrow> (bool \<times> bool list) option"
  and verify_components ::
    "loader_layer_properties list \<Rightarrow> nat \<Rightarrow> loader_layer_properties \<Rightarrow> string list \<Rightarrow> bool list \<Rightarrow> (bool \<times> bool list) option"
where
  "verify_meta_layer_component_layers instance_layers 0 prop_index already_checked = None"
| "verify_meta_layer_component_layers instance_layers (Suc d) prop_index already_checked =
     (let marks = (case already_checked of None \<Rightarrow> replicate (length instance_layers) False | Some m \<Rightarrow> m) in
      if prop_index < length instance_layers \<and> prop_index < length marks
      then verify_components instance_layers d (instance_layers ! prop_index)
             (sl_strings (component_layer_names (instance_layers ! prop_index))) (marks[prop_index := True])
      else None)"
| "verify_components instance_layers d prop [] marks = Some (True, marks)"
| "verify_components instance_layers d prop (name # names) marks =
     (case find_layer name instance_layers of
        None \<Rightarrow> Some (False, marks)
      | Some ci \<Rightarrow>
          (let comp_prop = instance_layers ! ci in
           if \<not> loader_check_version_meets_required (loader_make_version (lp_specVersion (info prop)))
                  (loader_make_version (lp_specVersion (info comp_prop))) then Some (False, marks)
           else if layer_name prop = name then Some (False, marks)
           else if flag_meta comp_prop then
             (case last_index_from (\<lambda>q. layer_name comp_prop = layer_name q) 0 None instance_layers of
                None \<Rightarrow> None
              | Some comp_prop_index \<Rightarrow>
                  if comp_prop_index \<ge> length marks then None
                  else if marks ! comp_prop_index then Some (False, marks)
                  else (case verify_meta_layer_component_layers instance_layers d comp_prop_index (Some marks) of
                          None \<Rightarrow> None
                        | Some (ok, marks) \<Rightarrow>
                            if ok then verify_components instance_layers d prop names marks else Some (False, marks)))
           else verify_components instance_layers d prop names marks))"
  by pat_completeness auto
termination
  by (relation "measures [case_sum (\<lambda>(_, d, _). d) (\<lambda>(_, d, _). d), case_sum (\<lambda>_. 0) (\<lambda>_. 1),
        case_sum (\<lambda>_. 0) (\<lambda>(_, _, _, names, _). length names)]") auto

declare verify_meta_layer_component_layers.simps [simp del] verify_components.simps [simp del]

section \<open>Extensions of the components\<close>

text \<open>The instance extensions of one component; the flag says that memory ran out.\<close>

fun merge_instance_exts :: "allocator \<Rightarrow> loader_extension_list \<Rightarrow> VkExtensionProperties list \<Rightarrow> heap \<Rightarrow>
    (bool \<times> loader_extension_list \<times> heap) option" where
  "merge_instance_exts a l [] h = Some (False, l, h)"
| "merge_instance_exts a l (e # es) h = do {
     present \<leftarrow> has_vk_extension_property e l;
     (if present then merge_instance_exts a l es h
      else do {
        (res, l, h) \<leftarrow> loader_add_to_ext_list a l [e] h;
        (if res = VK_ERROR_OUT_OF_HOST_MEMORY then Some (True, l, h) else merge_instance_exts a l es h)
      })
   }"

text \<open>The device extensions; the result of adding one is not looked at.\<close>

fun merge_device_exts :: "allocator \<Rightarrow> loader_device_extension_list \<Rightarrow> loader_dev_ext_props list \<Rightarrow> heap \<Rightarrow>
    (loader_device_extension_list \<times> heap) option" where
  "merge_device_exts a l [] h = Some (l, h)"
| "merge_device_exts a l (e # es) h = do {
     present \<leftarrow> has_vk_dev_ext_property (de_props e) l;
     (if present then merge_device_exts a l es h
      else do {
        (_, l, _, h) \<leftarrow> loader_add_to_dev_ext_list a l (de_props e) None h;
        merge_device_exts a l es h
      })
   }"

fun merge_component_exts :: "allocator \<Rightarrow> loader_layer_properties list \<Rightarrow> loader_layer_properties \<Rightarrow> string list \<Rightarrow> heap \<Rightarrow>
    (bool \<times> loader_layer_properties \<times> heap) option" where
  "merge_component_exts a instance_layers prop [] h = Some (False, prop, h)"
| "merge_component_exts a instance_layers prop (name # names) h =
     (case find_layer name instance_layers of
        None \<Rightarrow> None
      | Some ci \<Rightarrow>
          (let comp_prop = instance_layers ! ci in
           do {
             (oom, il, h) \<leftarrow> (if gl_list (instance_extension_list comp_prop) \<noteq> NULL then do {
                 es \<leftarrow> gl_view (instance_extension_list comp_prop);
                 merge_instance_exts a (instance_extension_list prop) es h
               } else Some (False, instance_extension_list prop, h));
             let prop = prop\<lparr>instance_extension_list := il\<rparr>;
             (if oom then Some (True, prop, h)
              else do {
                (dl, h) \<leftarrow> (if gl_list (device_extension_list comp_prop) \<noteq> NULL then do {
                    es \<leftarrow> gl_view (device_extension_list comp_prop);
                    merge_device_exts a (device_extension_list prop) es h
                  } else Some (device_extension_list prop, h));
                merge_component_exts a instance_layers (prop\<lparr>device_extension_list := dl\<rparr>) names h
              })
           }))"

text \<open>
  \<^verbatim>\<open>update_meta_layer_extensions_from_component_layers\<close> has the return type \<^verbatim>\<open>bool\<close> and returns a
  \<^verbatim>\<open>VkResult\<close>: true means that memory ran out.
\<close>

definition update_meta_layer_extensions_from_component_layers ::
  "allocator \<Rightarrow> loader_layer_properties \<Rightarrow> loader_layer_properties list \<Rightarrow> heap \<Rightarrow>
     (bool \<times> loader_layer_properties \<times> heap) option" where
  "update_meta_layer_extensions_from_component_layers a prop instance_layers h =
     merge_component_exts a instance_layers prop (sl_strings (component_layer_names prop)) h"

text \<open>The conversion of that \<^verbatim>\<open>bool\<close> to a \<^verbatim>\<open>VkResult\<close>: one is \<^verbatim>\<open>VK_NOT_READY\<close>.\<close>

definition result_of_bool :: "bool \<Rightarrow> VkResult" where
  "result_of_bool b = (if b then VK_NOT_READY else VK_SUCCESS)"

section \<open>All meta-layers\<close>

text \<open>\<open>d\<close> is the stack depth, \<open>fl\<close> the filters; \<open>ov\<close> is \<^verbatim>\<open>*override_layer_present\<close>.\<close>

function verify_metas ::
  "process \<Rightarrow> loader_instance_info option \<Rightarrow> loader_envvar_all_filters \<Rightarrow> allocator \<Rightarrow> nat \<Rightarrow> loader_layer_list \<Rightarrow> nat \<Rightarrow>
     VkResult \<Rightarrow> bool \<Rightarrow> heap \<Rightarrow> (VkResult \<times> loader_layer_list \<times> bool \<times> heap) option" where
  "verify_metas p inst fl a d l i res ov h =
     (if i < gl_count l then
        (case buf_read (gl_list l) i of
           None \<Rightarrow> None
         | Some prop \<Rightarrow>
             if \<not> flag_meta prop then verify_metas p inst fl a d l (i + 1) res ov h
             else
               (case do { ls \<leftarrow> gl_view l; (ok, _) \<leftarrow> verify_meta_layer_component_layers ls d i None; Some (ls, ok) } of
                  None \<Rightarrow> None
                | Some (ls, ok) \<Rightarrow>
                    if ok then
                      (case do {
                          (b, prop', h) \<leftarrow> update_meta_layer_extensions_from_component_layers a prop ls h;
                          cells \<leftarrow> buf_write (gl_list l) i prop';
                          Some (result_of_bool b, prop', cells, h)
                        } of
                         None \<Rightarrow> None
                       | Some (res', prop', cells, h') \<Rightarrow>
                           if res' = VK_ERROR_OUT_OF_HOST_MEMORY then Some (res', l\<lparr>gl_list := cells\<rparr>, ov, h')
                           else if is_override prop' then
                             (case loader_implicit_layer_is_enabled p inst fl prop' of
                                None \<Rightarrow> None
                              | Some e \<Rightarrow> verify_metas p inst fl a d (l\<lparr>gl_list := cells\<rparr>) (i + 1) res' (ov \<or> e) h')
                           else verify_metas p inst fl a d (l\<lparr>gl_list := cells\<rparr>) (i + 1) res' ov h')
                    else
                      (case loader_remove_layer_in_list a l i h of
                         None \<Rightarrow> None
                       | Some (l', h') \<Rightarrow> verify_metas p inst fl a d l' i res ov h')))
      else Some (res, l, ov, h))"
  by pat_completeness auto
termination
  by (relation "measure (\<lambda>(p, inst, fl, a, d, l, i, _). gl_count l - i)")
    (auto dest!: remove_layer_count)

declare verify_metas.simps [simp del]

definition verify_all_meta_layers ::
  "process \<Rightarrow> loader_instance_info option \<Rightarrow> loader_envvar_all_filters \<Rightarrow> allocator \<Rightarrow> nat \<Rightarrow> loader_layer_list \<Rightarrow> heap \<Rightarrow>
     (VkResult \<times> loader_layer_list \<times> bool \<times> heap) option" where
  "verify_all_meta_layers p inst filters a d instance_layers h =
     verify_metas p inst filters a d instance_layers 0 VK_SUCCESS False h"


section \<open>Override layers\<close>

text \<open>
  The loop over the application keys of one override layer.  The pointer \<^verbatim>\<open>props\<close> is the cell \<open>c\<close> of the
  array throughout: after a removal the next layer lies there.  The 32-bit index \<open>i\<close> steps back
  on every removal.
\<close>

definition step_back :: "nat \<Rightarrow> nat" where
  "step_back i = (i + (2 ^ 32 - 1)) mod 2 ^ 32"

lemma remove_layer_count_le: "loader_remove_layer_in_list a l i h = Some (l', h') \<Longrightarrow> l' = l \<or> gl_count l' < gl_count l"
proof (cases "i < gl_count l")
  case True
  assume "loader_remove_layer_in_list a l i h = Some (l', h')"
  from remove_layer_count [OF this True] True show ?thesis by simp
qed (simp add: loader_remove_layer_in_list_def)

function app_key_round ::
  "allocator \<Rightarrow> string \<Rightarrow> nat \<Rightarrow> nat \<Rightarrow> loader_layer_list \<Rightarrow> nat \<Rightarrow> bool \<Rightarrow> heap \<Rightarrow> (loader_layer_list \<times> nat \<times> bool \<times> heap) option" where
  "app_key_round a cur_path c j l i found h =
     (case buf_read (gl_list l) c of
        None \<Rightarrow> None
      | Some props \<Rightarrow>
          if j < sl_count (app_key_paths props) then
            (case sl_view (app_key_paths props) of
               None \<Rightarrow> None
             | Some paths \<Rightarrow>
                 if paths ! j = cur_path then
                   (if \<not> found then app_key_round a cur_path c (j + 1) l i True h
                    else (case loader_remove_layer_in_list a l i h of
                            None \<Rightarrow> None
                          | Some (l', h') \<Rightarrow> app_key_round a cur_path c (j + 1) l' (step_back i) found h'))
                 else app_key_round a cur_path c (j + 1) l i found h)
          else Some (l, i, found, h))"
  by pat_completeness auto
termination
  by (relation "measures [\<lambda>(a, cur, c, j, l, _). gl_count l,
        \<lambda>(a, cur, c, j, l, _). (case buf_read (gl_list l) c of None \<Rightarrow> 0 | Some q \<Rightarrow> sl_count (app_key_paths q)) - j]")
    (auto dest: remove_layer_count_le)

declare app_key_round.simps [simp del]

lemma app_key_round_step:
  assumes "buf_read (gl_list l) c = Some q" "j < sl_count (app_key_paths q)" "sl_view (app_key_paths q) = Some ps"
  shows "app_key_round a cur c j l i found h =
    (if ps ! j = cur then
       (if \<not> found then app_key_round a cur c (j + 1) l i True h
        else (case loader_remove_layer_in_list a l i h of
                None \<Rightarrow> None
              | Some (l', h') \<Rightarrow> app_key_round a cur c (j + 1) l' (step_back i) found h'))
     else app_key_round a cur c (j + 1) l i found h)"
  using assms(2,3) by (subst app_key_round.simps) (simp only: assms(1) option.case if_True)

lemma app_key_round_done:
  assumes "buf_read (gl_list l) c = Some q" "\<not> j < sl_count (app_key_paths q)"
  shows "app_key_round a cur c j l i found h = Some (l, i, found, h)"
  using assms(2) by (subst app_key_round.simps) (simp only: assms(1) option.case if_False)

lemma app_key_round_progress:
  "app_key_round a cur c j l i found h = Some (l', i', found', h') \<Longrightarrow>
     gl_count l' \<le> gl_count l \<and> (i < gl_count l \<longrightarrow> (l' = l \<and> i' = i) \<or> gl_count l' < gl_count l)"
proof (induction a cur c j l i found h rule: app_key_round.induct)
  case (1 a cur c j l i found h)
  obtain q where q: "buf_read (gl_list l) c = Some q"
    using "1.prems" app_key_round.simps [of a cur c j l i found h] by (auto split: option.splits)
  show ?case
  proof (cases "j < sl_count (app_key_paths q)")
    case False
    with "1.prems" app_key_round_done [OF q False] show ?thesis by auto
  next
    case True
    then obtain ps where ps: "sl_view (app_key_paths q) = Some ps"
      using "1.prems" q app_key_round.simps [of a cur c j l i found h] by (auto split: option.splits)
    note step = app_key_round_step [OF q True ps, of a cur i found h]
    consider "ps ! j = cur" "\<not> found" | "ps ! j = cur" "found" | "ps ! j \<noteq> cur" by blast
    then show ?thesis
    proof cases
      case 1
      with "1.IH"(1) [OF q True ps] "1.prems" step show ?thesis by simp
    next
      case 2
      then obtain l1 h1 where r: "loader_remove_layer_in_list a l i h = Some (l1, h1)"
        using "1.prems" step by (auto split: option.splits)
      have "gl_count l' \<le> gl_count l1"
        using 2 "1.IH"(2) [OF q True ps _ _ r refl] "1.prems" step by (simp add: r)
      moreover have "gl_count l1 \<le> gl_count l" using remove_layer_count_le [OF r] by auto
      moreover have "i < gl_count l \<Longrightarrow> gl_count l1 < gl_count l" using remove_layer_count [OF r] by simp
      ultimately show ?thesis by linarith
    next
      case 3
      with "1.IH"(3) [OF q True ps] "1.prems" step show ?thesis by simp
    qed
  qed
qed

text \<open>One round of the outer loop of \<^verbatim>\<open>remove_all_non_valid_override_layers\<close>, without the increment.\<close>

definition override_round ::
  "allocator \<Rightarrow> string \<Rightarrow> loader_layer_list \<Rightarrow> nat \<Rightarrow> bool \<Rightarrow> nat option \<Rightarrow> heap \<Rightarrow>
     (loader_layer_list \<times> nat \<times> bool \<times> nat option \<times> heap) option" where
  "override_round a cur_path l i found global h = do {
     props \<leftarrow> buf_read (gl_list l) i;
     (if layer_name props = VK_OVERRIDE_LAYER_NAME then
        (if sl_count (app_key_paths props) > 0 then do {
           (l, i, found, h) \<leftarrow> app_key_round a cur_path i 0 l i found h;
           (if \<not> found then do {
              (l, h) \<leftarrow> loader_remove_layer_in_list a l i h;
              Some (l, step_back i, found, global, h)
            } else Some (l, i, found, global, h))
         }
         else if global = None then Some (l, i, found, Some i, h)
         else do {
           (l, h) \<leftarrow> loader_remove_layer_in_list a l i h;
           Some (l, step_back i, found, global, h)
         })
      else Some (l, i, found, global, h))
   }"

lemma override_round_progress:
  assumes "override_round a cur l i found g h = Some (l', i', found', g', h')" "i < gl_count l"
  shows "(gl_count l' = gl_count l \<and> i' = i) \<or> gl_count l' < gl_count l"
proof -
  obtain q where q: "buf_read (gl_list l) i = Some q" using assms(1) by (auto simp: override_round_def bind_eq_Some_conv)
  show ?thesis
  proof (cases "layer_name q = VK_OVERRIDE_LAYER_NAME \<and> sl_count (app_key_paths q) > 0")
    case False
    with assms q show ?thesis
      by (auto simp: override_round_def bind_eq_Some_conv dest: remove_layer_count split: if_splits)
  next
    case True
    then obtain l1 i1 f1 h1 where r: "app_key_round a cur i 0 l i found h = Some (l1, i1, f1, h1)"
      using assms(1) q by (auto simp: override_round_def bind_eq_Some_conv)
    note p = app_key_round_progress [OF r]
    show ?thesis
    proof (cases f1)
      case True
      with \<open>_ \<and> sl_count (app_key_paths q) > 0\<close> assms q r p show ?thesis by (auto simp: override_round_def)
    next
      case False
      then obtain l2 h2 where rm: "loader_remove_layer_in_list a l1 i1 h1 = Some (l2, h2)" and e: "l' = l2"
        using True assms(1) q r by (auto simp: override_round_def bind_eq_Some_conv)
      have "gl_count l2 \<le> gl_count l1" using remove_layer_count_le [OF rm] by auto
      moreover have "l1 = l \<and> i1 = i \<Longrightarrow> gl_count l2 < gl_count l" using remove_layer_count [OF rm] assms(2) by auto
      ultimately show ?thesis using p assms(2) e by auto
    qed
  qed
qed

text \<open>The loop; a \<^verbatim>\<open>uint32_t\<close> holds the count, so a longer list is no value of the model.\<close>

function override_loop ::
  "allocator \<Rightarrow> string \<Rightarrow> loader_layer_list \<Rightarrow> nat \<Rightarrow> bool \<Rightarrow> nat option \<Rightarrow> heap \<Rightarrow> (loader_layer_list \<times> bool \<times> nat option \<times> heap) option" where
  "override_loop a cur_path l i found global h =
     (if gl_count l \<ge> 2 ^ 32 then None
      else if i < gl_count l then
        (case override_round a cur_path l i found global h of
           None \<Rightarrow> None
         | Some (l', i', found', global', h') \<Rightarrow> override_loop a cur_path l' ((i' + 1) mod 2 ^ 32) found' global' h')
      else Some (l, found, global, h))"
  by pat_completeness auto
termination
proof (relation "measures [\<lambda>(a, cur, l, i, _). gl_count l, \<lambda>(a, cur, l, i, _). gl_count l - i]")
  fix a cur l i found global h r l' y i' y' found' z global' h'
  assume "\<not> gl_count l \<ge> 2 ^ 32" "i < gl_count l" and r: "override_round a cur l i found global h = Some r"
    and "(l', y) = r" "(i', y') = y" "(found', z) = y'" "(global', h') = z"
  then have "override_round a cur l i found global h = Some (l', i', found', global', h')" by auto
  from override_round_progress [OF this \<open>i < gl_count l\<close>] \<open>i < gl_count l\<close> \<open>\<not> gl_count l \<ge> 2 ^ 32\<close>
  show "((a, cur, l', (i' + 1) mod 2 ^ 32, found', global', h'), a, cur, l, i, found, global, h) \<in>
      measures [\<lambda>(a, cur, l, i, _). gl_count l, \<lambda>(a, cur, l, i, _). gl_count l - i]"
    by auto
qed simp

declare override_loop.simps [simp del]

text \<open>\<^verbatim>\<open>remove_all_non_valid_override_layers\<close>; \<open>cur_path\<close> is the path of the executable, if it could be read.\<close>

definition remove_all_non_valid_override_layers ::
  "allocator \<Rightarrow> string option \<Rightarrow> loader_layer_list \<Rightarrow> heap \<Rightarrow> (loader_layer_list \<times> heap) option" where
  "remove_all_non_valid_override_layers a executable_path l h =
     (case executable_path of
        None \<Rightarrow> Some (l, h)
      | Some cur_path \<Rightarrow> do {
          (l, found, global, h) \<leftarrow> override_loop a cur_path l 0 False None h;
          (case global of
             Some g \<Rightarrow> if found then loader_remove_layer_in_list a l g h else Some (l, h)
           | None \<Rightarrow> Some (l, h))
        })"


section \<open>Termination of the check\<close>

lemma last_index_from_Some:
  "(\<exists>x\<in>set xs. p x) \<or> f \<noteq> None \<Longrightarrow> \<exists>k. last_index_from p i f xs = Some k \<and>
     (f = Some k \<or> i \<le> k \<and> k < i + length xs \<and> p (xs ! (k - i)))"
proof (induction xs arbitrary: i f)
  case (Cons x xs)
  show ?case
  proof (cases "(\<exists>y\<in>set xs. p y) \<or> (if p x then Some i else f) \<noteq> None")
    case True
    from Cons.IH [OF this, of "i + 1"] obtain k where
      k: "last_index_from p (i + 1) (if p x then Some i else f) xs = Some k"
        "(if p x then Some i else f) = Some k \<or> i + 1 \<le> k \<and> k < i + 1 + length xs \<and> p (xs ! (k - (i + 1)))" by blast
    from k(2) have "f = Some k \<or> i \<le> k \<and> k < i + length (x # xs) \<and> p ((x # xs) ! (k - i))"
      by (auto simp: nth_Cons' split: if_splits)
    with k(1) show ?thesis by simp
  next
    case False
    with Cons.prems show ?thesis by (auto split: if_splits)
  qed
qed auto

lemma last_index_of_layer:
  assumes "find_layer name ls = Some c"
  obtains k where "last_index_from (\<lambda>q. layer_name (ls ! c) = layer_name q) 0 None ls = Some k"
    and "k < length ls" and "layer_name (ls ! k) = name"
proof -
  have c: "c < length ls" "layer_name (ls ! c) = name" using find_layer_Some [OF assms] by auto
  then have "\<exists>x\<in>set ls. layer_name (ls ! c) = layer_name x" using nth_mem by blast
  with last_index_from_Some [of ls "\<lambda>q. layer_name (ls ! c) = layer_name q" None 0] c that show ?thesis by auto
qed

definition unmarked :: "bool list \<Rightarrow> nat" where
  "unmarked m = length (filter Not m)"

lemma unmarked_mark: "i < length m \<Longrightarrow> \<not> m ! i \<Longrightarrow> unmarked m = Suc (unmarked (m[i := True]))"
  by (induction m arbitrary: i) (auto simp: unmarked_def nth_Cons' split: nat.splits)

lemma verify_terminates:
  "acs = Some m \<Longrightarrow> length m = length ls \<Longrightarrow> i < length ls \<Longrightarrow> \<not> m ! i \<Longrightarrow> unmarked m \<le> d \<Longrightarrow>
     \<exists>ok m'. verify_meta_layer_component_layers ls d i acs = Some (ok, m') \<and> length m' = length ls \<and> unmarked m' \<le> unmarked m"
  "length m = length ls \<Longrightarrow> unmarked m \<le> d \<Longrightarrow>
     \<exists>ok m'. verify_components ls d pr names m = Some (ok, m') \<and> length m' = length ls \<and> unmarked m' \<le> unmarked m"
proof (induction ls d i acs and ls d pr names m arbitrary: m and
    rule: verify_meta_layer_component_layers_verify_components.induct)
  case (1 ls i acs)
  then show ?case using unmarked_mark [of i m] by simp
next
  case (2 ls d i acs)
  note u = unmarked_mark [of i m]
  from "2.IH" [OF refl] "2.prems" u show ?case
    by (fastforce simp: verify_meta_layer_component_layers.simps(2))
next
  case (3 ls d pr m)
  then show ?case by (auto simp: verify_components.simps)
next
  case (4 ls d pr name names m)
  show ?case
  proof (cases "find_layer name ls")
    case None
    with "4.prems" show ?thesis by (auto simp: verify_components.simps)
  next
    case (Some c)
    obtain k where k: "last_index_from (\<lambda>q. layer_name (ls ! c) = layer_name q) 0 None ls = Some k" "k < length ls"
      by (rule last_index_of_layer [OF Some])
    let ?bad = "\<not> loader_check_version_meets_required (loader_make_version (lp_specVersion (info pr)))
                  (loader_make_version (lp_specVersion (info (ls ! c)))) \<or> layer_name pr = name"
    note step = verify_components.simps(2) [of ls d pr name names m]
    consider "?bad \<or> flag_meta (ls ! c) \<and> m ! k" | "\<not> ?bad" "flag_meta (ls ! c)" "\<not> m ! k" | "\<not> ?bad" "\<not> flag_meta (ls ! c)" by blast
    then show ?thesis
    proof cases
      case 1
      with "4.prems" Some k show ?thesis by (auto simp: step Let_def)
    next
      case 2
      from "4.IH"(1) [OF Some refl _ _ 2(2) k(1) _ 2(3), of m] 2 k "4.prems" obtain ok m1 where
        v: "verify_meta_layer_component_layers ls d k (Some m) = Some (ok, m1)" "length m1 = length ls" "unmarked m1 \<le> unmarked m"
        by auto
      from "4.IH"(2) [OF Some refl _ _ 2(2) k(1) _ 2(3) v(1) refl] 2 k "4.prems" v
      have "ok \<Longrightarrow> \<exists>ok m'. verify_components ls d pr names m1 = Some (ok, m') \<and> length m' = length ls \<and> unmarked m' \<le> unmarked m1"
        by auto
      moreover have "verify_components ls d pr (name # names) m =
          (if ok then verify_components ls d pr names m1 else Some (False, m1))"
        using 2 k v(1) Some "4.prems" by (simp add: step Let_def)
      ultimately show ?thesis using v by (cases ok) (auto intro: le_trans)
    next
      case 3
      with "4.IH"(3) [OF Some refl] "4.prems" Some show ?thesis by (auto simp: step Let_def)
    qed
  qed
qed

lemma verify_total:
  assumes "i < length ls" "length ls \<le> d"
  shows "\<exists>ok m. verify_meta_layer_component_layers ls d i None = Some (ok, m)"
proof -
  let ?m = "replicate (length ls) False"
  obtain d' where "d = Suc d'" using assms by (cases d) auto
  then have "verify_meta_layer_component_layers ls d i None = verify_meta_layer_component_layers ls d i (Some ?m)"
    by (simp add: verify_meta_layer_component_layers.simps)
  moreover have "unmarked ?m \<le> d" using assms(2) by (simp add: unmarked_def)
  ultimately show ?thesis using verify_terminates(1) [OF refl, of ?m ls i d] assms by auto
qed

section \<open>What the check guarantees\<close>

text \<open>
  A sound meta-layer of depth \<open>d\<close>: every component is present, has a version that is high enough and
  is not the layer itself, and components that are meta-layers are sound one level deeper.
\<close>

definition fits :: "loader_layer_properties \<Rightarrow> string \<Rightarrow> loader_layer_properties \<Rightarrow> bool" where
  "fits prop name comp_prop =
     (loader_check_version_meets_required (loader_make_version (lp_specVersion (info prop)))
        (loader_make_version (lp_specVersion (info comp_prop))) \<and> layer_name prop \<noteq> name)"

fun sound_meta :: "loader_layer_properties list \<Rightarrow> nat \<Rightarrow> nat \<Rightarrow> bool" where
  "sound_meta ls 0 i = False"
| "sound_meta ls (Suc d) i =
     (\<forall>name\<in>set (sl_strings (component_layer_names (ls ! i))).
        (case find_layer name ls of
           None \<Rightarrow> False
         | Some c \<Rightarrow> fits (ls ! i) name (ls ! c) \<and> (flag_meta (ls ! c) \<longrightarrow> sound_meta ls d c)))"

lemma sound_meta_mono: "sound_meta ls d i \<Longrightarrow> d \<le> d' \<Longrightarrow> sound_meta ls d' i"
proof (induction d arbitrary: i d')
  case (Suc d)
  then obtain e where "d' = Suc e" "d \<le> e" by (cases d') auto
  with Suc show ?case by (fastforce split: option.splits)
qed simp

text \<open>With distinct names the scan for the last layer of a name finds the first one.\<close>

lemma last_index_distinct:
  assumes "distinct (map layer_name ls)" "find_layer name ls = Some c"
  shows "last_index_from (\<lambda>q. layer_name (ls ! c) = layer_name q) 0 None ls = Some c"
proof -
  obtain k where k: "last_index_from (\<lambda>q. layer_name (ls ! c) = layer_name q) 0 None ls = Some k"
    "k < length ls" "layer_name (ls ! k) = name" by (rule last_index_of_layer [OF assms(2)])
  have "map layer_name ls ! k = map layer_name ls ! c" "c < length ls" using find_layer_Some [OF assms(2)] k by auto
  then have "k = c" using nth_eq_iff_index_eq [OF assms(1)] k(2) by simp
  with k(1) show ?thesis by simp
qed

lemma verify_sound:
  "verify_meta_layer_component_layers ls d i acs = Some (True, m') \<Longrightarrow> distinct (map layer_name ls) \<Longrightarrow> sound_meta ls d i"
  "verify_components ls d pr names m = Some (True, m') \<Longrightarrow> distinct (map layer_name ls) \<Longrightarrow>
     \<forall>name\<in>set names. (case find_layer name ls of None \<Rightarrow> False
       | Some c \<Rightarrow> fits pr name (ls ! c) \<and> (flag_meta (ls ! c) \<longrightarrow> sound_meta ls d c))"
proof (induction ls d i acs and ls d pr names m arbitrary: m' and m' rule: verify_meta_layer_component_layers_verify_components.induct)
  case (1 ls i acs)
  then show ?case by (simp add: verify_meta_layer_component_layers.simps)
next
  case (2 ls d i acs)
  from "2.IH" [OF refl] "2.prems" show ?case
    by (simp add: verify_meta_layer_component_layers.simps(2) Let_def split: if_splits)
next
  case (3 ls d pr m)
  then show ?case by simp
next
  case (4 ls d pr name names m)
  note step = verify_components.simps(2) [of ls d pr name names m]
  obtain c where c: "find_layer name ls = Some c" using "4.prems"(1) by (auto simp: step split: option.splits)
  have f: "fits pr name (ls ! c)" using "4.prems"(1) c by (auto simp: step fits_def Let_def split: if_splits)
  have k: "last_index_from (\<lambda>q. layer_name (ls ! c) = layer_name q) 0 None ls = Some c"
    by (rule last_index_distinct [OF "4.prems"(2) c])
  note f' = f [unfolded fits_def]
  show ?case
  proof (cases "flag_meta (ls ! c)")
    case False
    with "4.IH"(3) [OF c refl] "4.prems" c f f' show ?thesis by (simp add: step Let_def)
  next
    case True
    obtain m1 where u: "\<not> m ! c" "\<not> length m \<le> c" and v: "verify_meta_layer_component_layers ls d c (Some m) = Some (True, m1)"
      and rest: "verify_components ls d pr names m1 = Some (True, m')"
      using "4.prems"(1) c f' k True by (auto simp: step Let_def split: if_splits option.splits)
    have "sound_meta ls d c" using "4.IH"(1) [OF c refl _ _ True k u(2,1) v "4.prems"(2)] f' by simp
    moreover have "\<forall>name\<in>set names. (case find_layer name ls of None \<Rightarrow> False
       | Some c \<Rightarrow> fits pr name (ls ! c) \<and> (flag_meta (ls ! c) \<longrightarrow> sound_meta ls d c))"
      using "4.IH"(2) [OF c refl _ _ True k u(2,1) v refl _ rest "4.prems"(2)] f' by simp
    ultimately show ?thesis using c f by simp
  qed
qed

section \<open>Adding a sound meta-layer\<close>

text \<open>What the selection needs of its inputs: parsed filters, and a value for every enabling variable.\<close>

definition wf_context :: "selection_context \<Rightarrow> bool" where
  "wf_context cx = (wf_filters (cx_filters cx) \<and> list_all wf_enable_env (cx_source cx))"

abbreviation components_sound :: "loader_layer_properties list \<Rightarrow> nat \<Rightarrow> string list \<Rightarrow> bool" where
  "components_sound ls d names \<equiv>
     (\<forall>name\<in>set names. \<forall>c. find_layer name ls = Some c \<and> flag_meta (ls ! c) \<longrightarrow> sound_meta ls d c)"

lemma sound_components:
  "sound_meta ls (Suc d) i \<Longrightarrow> components_sound ls d (sl_strings (component_layer_names (ls ! i)))"
  by (auto split: option.splits)

lemma add_sound_defined:
  "sound_meta (cx_source cx) d i \<Longrightarrow> wf_context cx \<Longrightarrow> loader_add_meta_layer cx d i out s \<noteq> None"
  "components_sound (cx_source cx) d names \<Longrightarrow> wf_context cx \<Longrightarrow> add_components cx d names fa r s \<noteq> None"
  "flag_meta (cx_source cx ! i) \<longrightarrow> sound_meta (cx_source cx) d i \<Longrightarrow> i < length (cx_source cx) \<Longrightarrow> wf_context cx \<Longrightarrow>
     loader_add_implicit_layer cx d i s \<noteq> None"
proof (induction cx d i out s and cx d names fa r s and cx d i s
    rule: loader_add_meta_layer_add_components_loader_add_implicit_layer.induct)
  case (1 cx i out s)
  then show ?case by simp
next
  case (2 cx d i out s)
  from "2.IH" [OF sound_components [OF "2.prems"(1)] "2.prems"(2)] show ?case
    by (auto simp: loader_add_meta_layer.simps(2) split: prod.split)
next
  case (3 cx d fa r s)
  then show ?case by (simp add: add_components.simps)
next
  case (4 cx d name names fa r s)
  note step = add_components.simps(2) [of cx d name names fa r s]
  show ?case
  proof (cases "find_layer name (cx_source cx)")
    case None
    with "4.IH"(1) [OF None] "4.prems" show ?thesis by (simp add: step)
  next
    case (Some p)
    let ?q = "cx_source cx ! p"
    have lt: "p < length (cx_source cx)" using find_layer_Some [OF Some] by simp
    have av: "loader_layer_is_available (cx_filters cx) ?q = Some (available (cx_filters cx) ?q)"
      using "4.prems"(2) by (simp add: wf_context_def layer_is_available)
    have rest: "components_sound (cx_source cx) d names" using "4.prems"(1) by simp
    have here: "flag_meta ?q \<longrightarrow> sound_meta (cx_source cx) d p" using "4.prems"(1) Some by simp
    note IH = "4.IH"(2-8) [OF Some av]
    consider (off) "\<not> available (cx_filters cx) ?q" | (implicit) "available (cx_filters cx) ?q" "\<not> flag_explicit ?q"
      | (meta) "available (cx_filters cx) ?q" "flag_explicit ?q" "flag_meta ?q"
      | (plain) "available (cx_filters cx) ?q" "flag_explicit ?q" "\<not> flag_meta ?q" by blast
    then show ?thesis
    proof cases
      case off
      with IH(1) rest "4.prems"(2) Some av show ?thesis by (simp add: step)
    next
      case implicit
      from IH(2) [OF _ implicit(2) here lt "4.prems"(2)] implicit obtain r1 s1 where
        c: "loader_add_implicit_layer cx d p (set_enabled p ENABLED_BY_WHAT_META_LAYER s) = Some (r1, s1)" by auto
      from IH(3) [OF _ implicit(2) c refl _ rest "4.prems"(2)] implicit c Some av show ?thesis by (simp add: step)
    next
      case meta
      from IH(4) [OF _ _ meta(3)] meta here "4.prems"(2) obtain r1 f1 s1 where
        c: "loader_add_meta_layer cx d p (Some True) (set_enabled p ENABLED_BY_WHAT_META_LAYER s) = Some (r1, f1, s1)" by auto
      from IH(5) [OF _ _ meta(3) c refl refl _ rest "4.prems"(2)] meta c Some av show ?thesis by (simp add: step)
    next
      case plain
      obtain r1 s1 where c: "add_layer p ENABLED_BY_WHAT_META_LAYER s = (r1, s1)" by fastforce
      from IH(6) [OF _ _ plain(3) _ c [symmetric] _ rest "4.prems"(2)] IH(7) [OF _ _ plain(3) _ rest "4.prems"(2)] plain c Some av
      show ?thesis by (simp add: step)
    qed
  qed
next
  case (5 cx d i s)
  have "wf_enable_env (cx_source cx ! i)" using "5.prems"(2,3) by (simp add: wf_context_def list_all_length)
  then have e: "loader_implicit_layer_is_enabled (cx_process cx) (cx_inst cx) (cx_filters cx) (cx_source cx ! i) =
      Some (implicitly_enabled (cx_process cx) (cx_inst cx) (cx_filters cx) (cx_source cx ! i))"
    using "5.prems"(3) by (simp add: wf_context_def implicit_layer_is_enabled)
  from "5.IH" [OF e] "5.prems" e show ?case by (auto simp: loader_add_implicit_layer.simps [of cx d i s])
qed

lemmas add_sound_meta_layer = add_sound_defined(1)

section \<open>The whole selection\<close>

definition metas_sound :: "selection_context \<Rightarrow> nat \<Rightarrow> bool" where
  "metas_sound cx d = (wf_context cx \<and>
     (\<forall>i<length (cx_source cx). flag_meta (cx_source cx ! i) \<longrightarrow> sound_meta (cx_source cx) d i))"

lemma metas_soundD:
  assumes "metas_sound cx d" "i < length (cx_source cx)"
  shows "flag_meta (cx_source cx ! i) \<Longrightarrow> \<exists>r o' s'. loader_add_meta_layer cx d i out s = Some (r, o', s')"
    and "\<exists>r s'. loader_add_implicit_layer cx d i s = Some (r, s')"
    and "loader_layer_is_available (cx_filters cx) q = Some (available (cx_filters cx) q)"
    and "loader_implicit_layer_is_enabled p inst (cx_filters cx) (cx_source cx ! i) =
           Some (implicitly_enabled p inst (cx_filters cx) (cx_source cx ! i))"
    and "list_all wf_filter (enable_filter (cx_filters cx))"
    and "list_all wf_filter (additional_filters (disable_filter (cx_filters cx)))"
    and "list_all wf_filter (allow_filter (cx_filters cx))"
  using assms add_sound_defined(1) [of cx d i out s] add_sound_defined(3) [of cx i d s]
  by (auto simp: metas_sound_def wf_context_def layer_is_available wf_filters_def list_all_length intro: implicit_layer_is_enabled)

lemma add_names_defined: "metas_sound cx d \<Longrightarrow> add_names cx d names err s \<noteq> None"
proof (induction cx d names err s rule: add_names.induct)
  case (2 cx d name names err s)
  show ?case
  proof (cases "find_layer name (cx_source cx)")
    case None
    with 2 show ?thesis by simp
  next
    case (Some p)
    have lt: "p < length (cx_source cx)" using find_layer_Some [OF Some] by simp
    note av = metas_soundD(3) [OF "2.prems" lt, of "cx_source cx ! p"]
    obtain r1 s1 where c: "add_layer p ENABLED_BY_WHAT_IN_APPLICATION_API s = (r1, s1)" by fastforce
    show ?thesis
    proof (cases "flag_meta (cx_source cx ! p)")
      case True
      obtain r o' s' where m: "loader_add_meta_layer cx d p None s = Some (r, o', s')"
        using metas_soundD(1) [OF "2.prems" lt True] by blast
      with 2 Some av True show ?thesis by simp
    next
      case False
      with 2 Some av c show ?thesis by simp
    qed
  qed
qed simp

lemma add_implicits_defined:
  assumes "metas_sound cx d"
  shows "\<forall>i\<in>set is. i < length (cx_source cx) \<Longrightarrow> add_implicits cx d env is s \<noteq> None"
proof (induction "is" arbitrary: s)
  case (Cons i "is")
  obtain r s' where "loader_add_implicit_layer cx d i s = Some (r, s')"
    using metas_soundD(2) [OF assms, of i s] Cons.prems by auto
  with Cons show ?case by simp
qed simp

lemma add_env_name_defined:
  assumes "metas_sound cx d"
  shows "\<forall>i\<in>set is. i < length (cx_source cx) \<Longrightarrow> add_env_name cx d name is res s \<noteq> None"
proof (induction "is")
  case (Cons i "is")
  show ?case
  proof (cases "flag_meta (cx_source cx ! i)")
    case True
    then obtain r o' s' where "loader_add_meta_layer cx d i None s = Some (r, o', s')"
      using metas_soundD(1) [OF assms, of i None s] Cons.prems by auto
    with Cons show ?thesis by simp
  qed (use Cons in simp)
qed simp

lemma add_env_names_defined:
  assumes "metas_sound cx d"
  shows "add_env_names cx d names res s \<noteq> None"
proof (induction names arbitrary: res s)
  case (Cons name names)
  obtain r s' where "add_env_name cx d name [0..<length (cx_source cx)] res s = Some (r, s')"
    using add_env_name_defined [OF assms, of "[0..<length (cx_source cx)]" name res s] by auto
  with Cons show ?case by simp
qed simp

lemma add_env_filtered_defined:
  assumes "metas_sound cx d"
  shows "\<forall>i\<in>set is. i < length (cx_source cx) \<Longrightarrow> add_env_filtered cx d is res s \<noteq> None"
proof (induction "is" arbitrary: res s)
  case (Cons i "is")
  have lt: "i < length (cx_source cx)" using Cons.prems by simp
  note checks = metas_soundD(5-7) [OF assms lt, THEN matches_check]
  obtain r1 s1 where c: "add_layer i ENABLED_BY_WHAT_VK_LOADER_LAYERS_ENABLE s = (r1, s1)" by fastforce
  show ?case
  proof (cases "flag_meta (cx_source cx ! i)")
    case True
    then obtain r o' s' where "loader_add_meta_layer cx d i None s = Some (r, o', s')"
      using metas_soundD(1) [OF assms lt] by blast
    with Cons checks True show ?thesis by (simp add: Let_def)
  next
    case False
    with Cons checks c show ?thesis by (simp add: Let_def)
  qed
qed simp

lemma enable_settings_layers_defined:
  assumes "metas_sound cx d"
  shows "\<forall>i\<in>set is. i < length (cx_source cx) \<Longrightarrow> enable_settings_layers cx d env app is res s \<noteq> None"
proof (induction "is" arbitrary: res s)
  case (Cons i "is")
  have lt: "i < length (cx_source cx)" using Cons.prems by simp
  note checks = metas_soundD(5-7) [OF assms lt, THEN matches_check]
  have "settings_reason cx env app (cx_source cx ! i) \<noteq> None"
    using metas_soundD(4) [OF assms lt] by (simp add: settings_reason_def Let_def checks)
  then obtain why where w: "settings_reason cx env app (cx_source cx ! i) = Some why" by blast
  show ?case
  proof (cases why)
    case None
    with Cons w show ?thesis by simp
  next
    case (Some reason)
    obtain r1 s1 where c: "add_layer i reason s = (r1, s1)" by fastforce
    show ?thesis
    proof (cases "flag_meta (cx_source cx ! i)")
      case True
      then obtain r o' s' where "loader_add_meta_layer cx d i None (set_enabled i reason s) = Some (r, o', s')"
        using metas_soundD(1) [OF assms lt] by blast
      with Cons w Some True show ?thesis by simp
    next
      case False
      with Cons w Some c show ?thesis by simp
    qed
  qed
qed simp

lemma enable_instance_layers_defined:
  assumes "metas_sound cx d"
  shows "loader_enable_instance_layers cx d b names h \<noteq> None"
proof -
  let ?all = "[0..<length (cx_source cx)]"
  have imp: "loader_add_implicit_layers cx d env s \<noteq> None" for env s
    using add_implicits_defined [OF assms, of ?all] by (simp add: loader_add_implicit_layers_def)
  have env: "loader_add_environment_layers cx d env s \<noteq> None" for env s
  proof (cases env)
    case None
    then show ?thesis using add_env_filtered_defined [OF assms, of ?all] by (simp add: loader_add_environment_layers_def)
  next
    case (Some e)
    obtain r s' where "add_env_names cx d (path_dirs e) VK_SUCCESS s = Some (r, s')"
      using add_env_names_defined [OF assms, of "path_dirs e" VK_SUCCESS s] by auto
    with Some show ?thesis using add_env_filtered_defined [OF assms, of ?all] by (simp add: loader_add_environment_layers_def)
  qed
  have set: "enable_correct_layers_from_settings cx d names s \<noteq> None" for s
    using enable_settings_layers_defined [OF assms, of ?all] by (simp add: enable_correct_layers_from_settings_def)
  have app: "loader_add_layer_names_to_list cx d names s \<noteq> None" for s
    using add_names_defined [OF assms] by (simp add: loader_add_layer_names_to_list_def)
  show ?thesis
    using imp [of "loader_getenv (cx_process cx) (Some ENABLED_LAYERS_ENV)"] env app set
    unfolding loader_enable_instance_layers_def Let_def by (auto simp del: not_None_eq split: option.split)
qed

section \<open>Properties\<close>

text \<open>That a meta-layer passes the check.\<close>

definition verified :: "loader_layer_properties list \<Rightarrow> nat \<Rightarrow> bool" where
  "verified ls i = (case verify_meta_layer_component_layers ls (length ls) i None of Some (ok, _) \<Rightarrow> ok | None \<Rightarrow> False)"

lemma verifiedD: "verified ls i \<Longrightarrow> \<exists>m. verify_meta_layer_component_layers ls (length ls) i None = Some (True, m)"
  by (auto simp: verified_def split: option.splits)

lemmas evaluate_verify = verify_meta_layer_component_layers.simps verify_components.simps evaluate_selection
  loader_check_version_meets_required_def verified_def

text \<open>C18: The check of a meta-layer ends on every layer list, cyclic or not, within as many levels of recursion
  as there are layers, and never indexes outside its marks.\<close>

theorem verify_meta_layer_terminates:
  assumes "i < length ls" and "length ls \<le> d"
  shows "\<exists>ok marks. verify_meta_layer_component_layers ls d i None = Some (ok, marks)"
  by (rule verify_total [OF assms])

abbreviation cyclic_layers :: "loader_layer_properties list" where
  "cyclic_layers \<equiv> [a_layer ''M'' 7 [''N''], a_layer ''N'' 7 [''M'']]"

theorem verify_meta_layer_terminates_witness:
  "0 < length cyclic_layers \<and> length cyclic_layers \<le> 2 \<and>
   (\<exists>ok marks. verify_meta_layer_component_layers cyclic_layers 2 0 None = Some (ok, marks))"
proof -
  have a: "0 < length cyclic_layers" and b: "length cyclic_layers \<le> 2" by simp_all
  show ?thesis by (intro conjI a b verify_meta_layer_terminates [OF a b])
qed

text \<open>C8: Without a settings file, when the names of the layers found are distinct and every meta-layer among them passed the check,
  activating layers returns, whatever the environment and the application ask for, within a recursion depth of the
  number of layers.  No ordinary layer is activated twice, and unless memory ran out the expanded list
  is exactly the ordinary layers of the application's list, in order.  (With a duplicate name the recursion need not end,
  and a settings file can activate a layer twice.)\<close>

theorem layer_activation_correct:
  assumes "wf_context cx" and "distinct (map layer_name (cx_source cx))" and "length (cx_source cx) \<le> d"
    and "\<forall>i<length (cx_source cx). flag_meta (cx_source cx ! i) \<longrightarrow> verified (cx_source cx) i"
  shows "\<exists>r s e. loader_enable_instance_layers cx d False app_names h = Some (r, s) \<and>
     (\<forall>p\<in>set (sel_target s). p < length (cx_source cx)) \<and>
     distinct (map (\<lambda>p. layer_name (cx_source cx ! p)) (filter (ordinary (cx_source cx)) (sel_target s))) \<and>
     sel_expanded s = Some e \<and> prefix e (filter (ordinary (cx_source cx)) (sel_target s)) \<and>
     (r \<noteq> VK_ERROR_OUT_OF_HOST_MEMORY \<longrightarrow> e = filter (ordinary (cx_source cx)) (sel_target s))"
proof -
  have "sound_meta (cx_source cx) d i" if "i < length (cx_source cx)" "flag_meta (cx_source cx ! i)" for i
  proof -
    have "verified (cx_source cx) i" using assms(4) that by blast
    then obtain m where "verify_meta_layer_component_layers (cx_source cx) (length (cx_source cx)) i None = Some (True, m)"
      using verifiedD by blast
    from sound_meta_mono [OF verify_sound(1) [OF this assms(2)] assms(3)] show ?thesis .
  qed
  then have "metas_sound cx d" using assms(1) by (simp add: metas_sound_def)
  then obtain r s where e: "loader_enable_instance_layers cx d False app_names h = Some (r, s)"
    using enable_instance_layers_defined by fastforce
  have o': "outcome (cx_source cx) r s"
    using enable_instance_layers_outcome [OF _ e] assms(1) by (simp add: wf_context_def)
  then have "cut_short (cx_source cx) s" by (auto simp: outcome_def selected_cut_short split: if_splits)
  with o' e show ?thesis by (auto simp: outcome_def cut_short_def selected_def target_ok_def split: if_splits option.splits)
qed

abbreviation good_context :: selection_context where
  "good_context \<equiv> a_context (\<lambda>_. None) [a_layer ''A'' 3 [], a_layer ''M'' 7 [''A'']]"

theorem layer_activation_correct_witness:
  "wf_context good_context \<and> distinct (map layer_name (cx_source good_context)) \<and>
   (\<exists>r s e. loader_enable_instance_layers good_context 2 False [''M''] (sample_heap True) = Some (r, s) \<and>
     distinct (map (\<lambda>p. layer_name (cx_source good_context ! p)) (filter (ordinary (cx_source good_context)) (sel_target s))) \<and>
     sel_expanded s = Some e \<and> (r \<noteq> VK_ERROR_OUT_OF_HOST_MEMORY \<longrightarrow> e = filter (ordinary (cx_source good_context)) (sel_target s)))"
proof -
  have a: "wf_context good_context" by (simp add: wf_context_def wf_enable_env_def)
  have b: "distinct (map layer_name (cx_source good_context))" by simp
  have c: "length (cx_source good_context) \<le> 2" by simp
  have d: "\<forall>i<length (cx_source good_context). flag_meta (cx_source good_context ! i) \<longrightarrow> verified (cx_source good_context) i"
    by (simp add: less_Suc_eq evaluate_verify)
  from layer_activation_correct [OF a b c d, of "[''M'']" "sample_heap True"] a b show ?thesis by blast
qed

text \<open>A meta-layer that reaches another one along two paths is rejected as recursive: the marks are
  never cleared.  Here \<^verbatim>\<open>M\<close> contains \<^verbatim>\<open>B\<close> and \<^verbatim>\<open>C\<close>, and both contain \<^verbatim>\<open>D\<close>.\<close>

theorem shared_component_meta_layer_rejected:
  "\<not> verified [a_layer ''M'' 7 [''B'', ''C''], a_layer ''B'' 7 [''D''], a_layer ''C'' 7 [''D''], a_layer ''D'' 7 []] 0"
  by (simp add: evaluate_verify)

abbreviation hidden_cycle :: "loader_layer_properties list" where
  "hidden_cycle \<equiv> [a_layer ''M'' 7 [''N''], a_layer ''N'' 7 [''M''], a_layer ''N'' 7 []]"

text \<open>C34: The check does not protect against cycles when a name occurs twice: it marks and follows the last
  layer of the name, while activation follows the first.  Here every meta-layer passes, and
  activating \<^verbatim>\<open>M\<close> exhausts any stack.\<close>

theorem duplicate_name_hides_cycle:
  "verified hidden_cycle 0 \<and> verified hidden_cycle 1 \<and> verified hidden_cycle 2 \<and>
   loader_add_meta_layer (a_context env hidden_cycle) d 0 out s = None"
proof (intro conjI)
  show "verified hidden_cycle 0" by (simp add: evaluate_verify)
  show "verified hidden_cycle 1" by (simp add: evaluate_verify)
  show "verified hidden_cycle 2" by (simp add: evaluate_verify)
  have "(\<forall>out s. loader_add_meta_layer (a_context env hidden_cycle) d 0 out s = None) \<and>
        (\<forall>out s. loader_add_meta_layer (a_context env hidden_cycle) d 1 out s = None)"
    by (induction d) (simp_all add: loader_add_meta_layer.simps add_components.simps evaluate_selection)
  then show "loader_add_meta_layer (a_context env hidden_cycle) d 0 out s = None" by blast
qed

text \<open>Removing a cell of an array of well-formed layers.\<close>

lemma remove_layer_cells:
  assumes "wf_layer (xs ! i)" "i < n" "n \<le> length xs"
  obtains h' where "loader_remove_layer_in_list a \<lparr>gl_capacity = c, gl_count = n, gl_list = Buf xs\<rparr> i h =
    Some (\<lparr>gl_capacity = c, gl_count = n - 1,
      gl_list = Buf (take i xs @ take (n - 1 - i) (drop (i + 1) xs) @ drop (i + (n - 1 - i)) (xs[i := zero_layer]))\<rparr>, h')"
proof -
  obtain h' where "loader_free_layer_properties a (xs ! i) h = Some (zero_layer, h')"
    using free_layer_releases [OF assms(1), of a h] by blast
  with assms that show ?thesis by (simp add: loader_remove_layer_in_list_def)
qed

definition key_layer :: "string list \<Rightarrow> loader_layer_properties" where
  "key_layer keys = (a_layer VK_OVERRIDE_LAYER_NAME 5 [])\<lparr>app_key_paths := strings_of keys\<rparr>"

text \<open>The pass over the override layers can remove a layer that is no override layer at all: after a
  removal inside the loop over the application keys, \<^verbatim>\<open>props\<close> is the next layer, whose keys are
  read from the current position on, and a match there removes the layer before.\<close>

theorem override_pass_removes_other_layer:
  assumes "wf_layer x" and "layer_name x \<noteq> VK_OVERRIDE_LAYER_NAME" and "key \<noteq> other"
    and "l = list_of [key_layer [key], x, key_layer [key], key_layer [other, key]]"
  shows "\<exists>l' h'. remove_all_non_valid_override_layers a (Some key) l h = Some (l', h') \<and> gl_items l' = [key_layer [key]]"
proof -
  let ?o = "key_layer [key]" and ?q = "key_layer [other, key]"
  let ?L = "\<lambda>n xs. \<lparr>gl_capacity = sizeof_loader_layer_properties * 4, gl_count = n, gl_list = Buf xs\<rparr>"
  have wf: "wf_layer ?o" "wf_layer ?q"
    by (simp_all add: key_layer_def a_layer_def wf_layer_def zero_layer_def wf_string_list_def strings_of_def empty_string_list_def)
  obtain h1 where r1: "loader_remove_layer_in_list a (?L 4 [?o, x, ?o, ?q]) 2 h = Some (?L 3 [?o, x, ?q, ?q], h1)"
    using remove_layer_cells [of "[?o, x, ?o, ?q]" 2 4 a "sizeof_loader_layer_properties * 4" h] wf by (auto simp: eval_nat_numeral)
  obtain h2 where r2: "loader_remove_layer_in_list a (?L 3 [?o, x, ?q, ?q]) (Suc 0) h1 = Some (?L 2 [?o, ?q, ?q, ?q], h2)"
    using remove_layer_cells [of "[?o, x, ?q, ?q]" 1 3 a "sizeof_loader_layer_properties * 4" h1] assms(1) by (auto simp: eval_nat_numeral)
  obtain h3 where r3: "loader_remove_layer_in_list a (?L 2 [?o, ?q, ?q, ?q]) (Suc 0) h2 = Some (?L (Suc 0) [?o, zero_layer, ?q, ?q], h3)"
    using remove_layer_cells [of "[?o, ?q, ?q, ?q]" 1 2 a "sizeof_loader_layer_properties * 4" h2] wf by (auto simp: eval_nat_numeral)
  note sb = step_back_def
  have keys: "sl_count (app_key_paths ?o) = Suc 0" "sl_view (app_key_paths ?o) = Some [key]"
    "sl_count (app_key_paths ?q) = 2" "sl_view (app_key_paths ?q) = Some [other, key]"
    "sl_count (app_key_paths zero_layer) = 0"
    by (simp_all add: key_layer_def strings_of_def sl_view_def zero_layer_def empty_string_list_def)
  have k1: "app_key_round a key 0 0 (?L 4 [?o, x, ?o, ?q]) 0 False h = Some (?L 4 [?o, x, ?o, ?q], 0, True, h)"
    by (simp add: app_key_round.simps keys)
  have k2: "app_key_round a key 2 0 (?L 4 [?o, x, ?o, ?q]) 2 True h = Some (?L 2 [?o, ?q, ?q, ?q], 0, True, h2)"
    by (simp add: app_key_round.simps keys r1 r2 sb)
  have k3: "app_key_round a key (Suc 0) 0 (?L 2 [?o, ?q, ?q, ?q]) (Suc 0) True h2 = Some (?L (Suc 0) [?o, zero_layer, ?q, ?q], 0, True, h3)"
    using assms(3) by (simp add: app_key_round.simps keys r3 sb)
  have n: "layer_name ?o = VK_OVERRIDE_LAYER_NAME" "layer_name ?q = VK_OVERRIDE_LAYER_NAME" by (simp_all add: key_layer_def)
  have s1: "override_round a key (?L 4 [?o, x, ?o, ?q]) 0 False None h = Some (?L 4 [?o, x, ?o, ?q], 0, True, None, h)"
    and s2: "override_round a key (?L 4 [?o, x, ?o, ?q]) (Suc 0) True None h = Some (?L 4 [?o, x, ?o, ?q], Suc 0, True, None, h)"
    and s3: "override_round a key (?L 4 [?o, x, ?o, ?q]) 2 True None h = Some (?L 2 [?o, ?q, ?q, ?q], 0, True, None, h2)"
    and s4: "override_round a key (?L 2 [?o, ?q, ?q, ?q]) (Suc 0) True None h2 = Some (?L (Suc 0) [?o, zero_layer, ?q, ?q], 0, True, None, h3)"
    using assms(2) by (simp_all add: override_round_def n keys k1 k2 k3)
  have "override_loop a key (?L 4 [?o, x, ?o, ?q]) 0 False None h = Some (?L (Suc 0) [?o, zero_layer, ?q, ?q], True, None, h3)"
    by (simp add: override_loop.simps s1 s2 s3 [unfolded numeral_2_eq_2] s4 [unfolded numeral_2_eq_2])
  moreover have "l = ?L 4 [?o, x, ?o, ?q]" using assms(4) by (simp add: list_of_def)
  ultimately show ?thesis by (simp add: remove_all_non_valid_override_layers_def gl_items_def)
qed

theorem override_pass_removes_other_layer_witness:
  "wf_layer (a_layer ''A'' 3 []) \<and>
   (\<exists>l' h'. remove_all_non_valid_override_layers None (Some ''/app'')
      (list_of [key_layer [''/app''], a_layer ''A'' 3 [], key_layer [''/app''], key_layer [''/b'', ''/app'']]) (sample_heap True) = Some (l', h') \<and>
      gl_items l' = [key_layer [''/app'']])"
proof -
  have wf: "wf_layer (a_layer ''A'' 3 [])"
    by (simp add: a_layer_def wf_layer_def zero_layer_def wf_string_list_def strings_of_def empty_string_list_def)
  have n: "layer_name (a_layer ''A'' 3 []) \<noteq> VK_OVERRIDE_LAYER_NAME" "''/app'' \<noteq> ''/b''" by (simp_all add: VK_OVERRIDE_LAYER_NAME_def)
  show ?thesis by (intro conjI wf override_pass_removes_other_layer [OF wf n refl])
qed

end
