(* ===== verification/DeviceSort.thy ===== *)
theory DeviceSort
  imports ExtList EnvFilter Version "HOL-Library.Product_Lexorder" "HOL-Library.Multiset"
begin

unbundle bit_operations_syntax

text \<open>
  Ordering of physical devices and device groups on Linux (\<^verbatim>\<open>loader_linux.c\<close>): the comparison functions,
  the default device of \<^verbatim>\<open>VK_LOADER_DEVICE_SELECT\<close>, gathering the properties of every device and writing
  the sorted terminator objects.  The drivers are a parameter (\<open>driver\<close>: the entry points a driver's dispatch
  table holds, handles are numbers), and so is \<^verbatim>\<open>qsort\<close>, whose contract \<open>qsort_contract\<close> is that of the C standard:
  for a comparison that is consistent on the elements of the array the result is a sorted permutation;
  otherwise nothing is known.  The stack allocation of the extension array does not fail.
\<close>

datatype VkPhysicalDeviceType =
    VK_PHYSICAL_DEVICE_TYPE_OTHER
  | VK_PHYSICAL_DEVICE_TYPE_INTEGRATED_GPU
  | VK_PHYSICAL_DEVICE_TYPE_DISCRETE_GPU
  | VK_PHYSICAL_DEVICE_TYPE_VIRTUAL_GPU
  | VK_PHYSICAL_DEVICE_TYPE_CPU
  | VK_PHYSICAL_DEVICE_TYPE_MAX_ENUM

record LinuxSortedDeviceInfo =
  physical_device :: nat
  default_device :: bool
  icd_term :: nat
  device_type :: VkPhysicalDeviceType
  device_name :: string
  vendor_id :: "32 word"
  device_id :: "32 word"
  has_pci_bus_info :: bool
  pci_domain :: "32 word"
  pci_bus :: "32 word"
  pci_device :: "32 word"
  pci_function :: "32 word"

fun determine_priority_type_value :: "VkPhysicalDeviceType \<Rightarrow> nat" where
  "determine_priority_type_value VK_PHYSICAL_DEVICE_TYPE_DISCRETE_GPU = 10"
| "determine_priority_type_value VK_PHYSICAL_DEVICE_TYPE_INTEGRATED_GPU = 5"
| "determine_priority_type_value VK_PHYSICAL_DEVICE_TYPE_VIRTUAL_GPU = 3"
| "determine_priority_type_value VK_PHYSICAL_DEVICE_TYPE_OTHER = 2"
| "determine_priority_type_value VK_PHYSICAL_DEVICE_TYPE_CPU = 1"
| "determine_priority_type_value VK_PHYSICAL_DEVICE_TYPE_MAX_ENUM = 0"

definition device_type_compare :: "VkPhysicalDeviceType \<Rightarrow> VkPhysicalDeviceType \<Rightarrow> int" where
  "device_type_compare a b =
     (let a_value = determine_priority_type_value a; b_value = determine_priority_type_value b in
      if a_value > b_value then - 1 else if b_value > a_value then 1 else 0)"

definition compare_devices :: "LinuxSortedDeviceInfo \<Rightarrow> LinuxSortedDeviceInfo \<Rightarrow> int" where
  "compare_devices left right =
     (if default_device left then - 1
      else if default_device right then 1
      else
        (let dev_type_comp = device_type_compare (device_type left) (device_type right);
             both = (has_pci_bus_info left \<and> has_pci_bus_info right);
             left_xord_dev_vend = device_id left XOR vendor_id left;
             right_xord_dev_vend = device_id right XOR vendor_id right
         in
         if dev_type_comp \<noteq> 0 then dev_type_comp
         else if has_pci_bus_info left \<and> \<not> has_pci_bus_info right then - 1
         else if \<not> has_pci_bus_info left \<and> has_pci_bus_info right then 1
         else if both \<and> pci_domain left < pci_domain right then - 1
         else if both \<and> pci_domain left > pci_domain right then 1
         else if both \<and> pci_bus left < pci_bus right then - 1
         else if both \<and> pci_bus left > pci_bus right then 1
         else if both \<and> pci_device left < pci_device right then - 1
         else if both \<and> pci_device left > pci_device right then 1
         else if both \<and> pci_function left < pci_function right then - 1
         else if both \<and> pci_function left > pci_function right then 1
         else if left_xord_dev_vend < right_xord_dev_vend then - 1
         else if right_xord_dev_vend < left_xord_dev_vend then 1
         else 0))"

record loader_physical_device_group_term =
  grp_icd_term :: nat
  physicalDeviceCount :: nat
  physicalDevices :: "nat list"
  internal_device_info :: "LinuxSortedDeviceInfo list"

text \<open>The comparison of groups is written out once more in the source, on the first device of each group.\<close>

definition compare_device_groups :: "loader_physical_device_group_term \<Rightarrow> loader_physical_device_group_term \<Rightarrow> int" where
  "compare_device_groups grp_a grp_b =
     (let left = internal_device_info grp_a ! 0; right = internal_device_info grp_b ! 0 in
      if default_device left then - 1
      else if default_device right then 1
      else
        (let dev_type_comp = device_type_compare (device_type left) (device_type right);
             both = (has_pci_bus_info left \<and> has_pci_bus_info right);
             left_xord_dev_vend = device_id left XOR vendor_id left;
             right_xord_dev_vend = device_id right XOR vendor_id right
         in
         if dev_type_comp \<noteq> 0 then dev_type_comp
         else if has_pci_bus_info left \<and> \<not> has_pci_bus_info right then - 1
         else if \<not> has_pci_bus_info left \<and> has_pci_bus_info right then 1
         else if both \<and> pci_domain left < pci_domain right then - 1
         else if both \<and> pci_domain left > pci_domain right then 1
         else if both \<and> pci_bus left < pci_bus right then - 1
         else if both \<and> pci_bus left > pci_bus right then 1
         else if both \<and> pci_device left < pci_device right then - 1
         else if both \<and> pci_device left > pci_device right then 1
         else if both \<and> pci_function left < pci_function right then - 1
         else if both \<and> pci_function left > pci_function right then 1
         else if left_xord_dev_vend < right_xord_dev_vend then - 1
         else if right_xord_dev_vend < left_xord_dev_vend then 1
         else 0))"

section \<open>The default device\<close>

text \<open>One \<^verbatim>\<open>%x\<close> of \<^verbatim>\<open>sscanf\<close>: blanks, a sign, an optional \<^verbatim>\<open>0x\<close>, and at least one hexadecimal digit.\<close>

definition scan_hex :: "string \<Rightarrow> (32 word \<times> string) option" where
  "scan_hex s =
     (let s1 = dropWhile isspace s;
          neg = (take 1 s1 = ''-'');
          s2 = (if take 1 s1 = ''-'' \<or> take 1 s1 = ''+'' then drop 1 s1 else s1);
          s3 = (if take 2 s2 = ''0x'' \<or> take 2 s2 = ''0X'' then drop 2 s2 else s2)
      in case read_digits 16 0 s3 of (v, rest) \<Rightarrow>
           if rest = s3 then None
           else Some (of_nat (if v \<ge> 2 ^ 64 then 2 ^ 64 - 1 else if neg then (2 ^ 64 - v) mod 2 ^ 64 else v), rest))"

text \<open>\<^verbatim>\<open>sscanf(selection, "%x:%x", ...) == 2\<close>.\<close>

definition scan_device_select :: "string \<Rightarrow> (32 word \<times> 32 word) option" where
  "scan_device_select s = do {
     (vendor, rest) \<leftarrow> scan_hex s;
     (if take 1 rest = '':'' then do { (device, _) \<leftarrow> scan_hex (drop 1 rest); Some (vendor, device) } else None)
   }"

fun mark_default :: "32 word \<Rightarrow> 32 word \<Rightarrow> LinuxSortedDeviceInfo list \<Rightarrow> LinuxSortedDeviceInfo list" where
  "mark_default vendor device [] = []"
| "mark_default vendor device (i # is) =
     (if vendor_id i = vendor \<and> device_id i = device then i\<lparr>default_device := True\<rparr> # is
      else i # mark_default vendor device is)"

definition linux_env_var_default_device :: "process \<Rightarrow> LinuxSortedDeviceInfo list \<Rightarrow> LinuxSortedDeviceInfo list" where
  "linux_env_var_default_device p sorted_device_info =
     (case loader_getenv p (Some ''VK_LOADER_DEVICE_SELECT'') of
        None \<Rightarrow> sorted_device_info
      | Some selection \<Rightarrow>
          (case scan_device_select selection of
             None \<Rightarrow> sorted_device_info
           | Some (vendor, device) \<Rightarrow> mark_default vendor device sorted_device_info))"

section \<open>Reading the devices\<close>

record VkPhysicalDeviceProperties =
  pd_apiVersion :: "32 word"
  pd_vendorID :: "32 word"
  pd_deviceID :: "32 word"
  pd_deviceType :: VkPhysicalDeviceType
  pd_deviceName :: string

record VkPhysicalDevicePCIBusInfoPropertiesEXT =
  pciDomain :: "32 word"
  pciBus :: "32 word"
  pciDevice :: "32 word"
  pciFunction :: "32 word"

record driver =
  GetPhysicalDeviceProperties :: "nat \<Rightarrow> VkPhysicalDeviceProperties"
  EnumerateDeviceExtensionProperties :: "nat \<Rightarrow> enumeration"
  GetPhysicalDeviceProperties2 :: "(nat \<Rightarrow> VkPhysicalDevicePCIBusInfoPropertiesEXT) option"
  GetPhysicalDeviceProperties2KHR :: "(nat \<Rightarrow> VkPhysicalDevicePCIBusInfoPropertiesEXT) option"

definition VK_EXT_PCI_BUS_INFO_EXTENSION_NAME :: string where
  "VK_EXT_PCI_BUS_INFO_EXTENSION_NAME = ''VK_EXT_pci_bus_info''"

definition LOADER_VERSION_1_1_0 :: loader_api_version where
  "LOADER_VERSION_1_1_0 = loader_combine_version 1 1 0"

text \<open>What both functions do for one device: \<open>i\<close> is the cell before.\<close>

definition read_device_info ::
  "driver \<Rightarrow> bool \<Rightarrow> nat \<Rightarrow> LinuxSortedDeviceInfo \<Rightarrow> LinuxSortedDeviceInfo option" where
  "read_device_info drv app_is_vulkan_1_1 phys_dev i =
     (let dev_props = GetPhysicalDeviceProperties drv phys_dev;
          exts = EnumerateDeviceExtensionProperties drv phys_dev;
          device_is_1_1_capable = loader_check_version_meets_required LOADER_VERSION_1_1_0 (loader_make_version (pd_apiVersion dev_props));
          i = i\<lparr>physical_device := phys_dev, device_type := pd_deviceType dev_props,
                device_name := take 255 (pd_deviceName dev_props),
                vendor_id := pd_vendorID dev_props, device_id := pd_deviceID dev_props\<rparr>
      in do {
        has_pci \<leftarrow> (if first_count exts > 0
                    then scan_cells (\<lambda>e. extensionName e = VK_EXT_PCI_BUS_INFO_EXTENSION_NAME) (filled_props exts) 0
                           (min (second_count exts) (first_count exts))
                    else Some False);
        Some (if has_pci then
                (case (if app_is_vulkan_1_1 \<and> device_is_1_1_capable then GetPhysicalDeviceProperties2 drv
                       else GetPhysicalDeviceProperties2KHR drv) of
                   Some props2 \<Rightarrow> i\<lparr>has_pci_bus_info := True, pci_domain := pciDomain (props2 phys_dev), pci_bus := pciBus (props2 phys_dev),
                                    pci_device := pciDevice (props2 phys_dev), pci_function := pciFunction (props2 phys_dev)\<rparr>
                 | None \<Rightarrow> i\<lparr>has_pci_bus_info := False\<rparr>)
              else i\<lparr>has_pci_bus_info := False\<rparr>)
      })"

record loader_icd_physical_devices =
  icd_device_count :: nat
  icd_physical_devices :: "nat buf"
  icd_of_devices :: nat

record loader_physical_device_term =
  pdt_disp :: nat
  this_icd_term :: nat
  phys_dev :: nat

definition zero_device_info :: LinuxSortedDeviceInfo where
  "zero_device_info = \<lparr>physical_device = 0, default_device = False, icd_term = 0, device_type = VK_PHYSICAL_DEVICE_TYPE_OTHER,
     device_name = [], vendor_id = 0, device_id = 0, has_pci_bus_info = False, pci_domain = 0, pci_bus = 0, pci_device = 0, pci_function = 0\<rparr>"

text \<open>The two nested loops that fill the array, \<open>n\<close> devices of the current driver to go.\<close>

fun read_icd_devices ::
  "(nat \<Rightarrow> driver) \<Rightarrow> bool \<Rightarrow> loader_icd_physical_devices \<Rightarrow> nat \<Rightarrow> nat \<Rightarrow> LinuxSortedDeviceInfo buf \<Rightarrow> nat \<Rightarrow>
     (LinuxSortedDeviceInfo buf \<times> nat) option" where
  "read_icd_devices drivers app11 icd k 0 cells index = Some (cells, index)"
| "read_icd_devices drivers app11 icd k (Suc n) cells index = do {
     i \<leftarrow> buf_read cells index;
     pd \<leftarrow> buf_read (icd_physical_devices icd) k;
     i \<leftarrow> read_device_info (drivers (icd_of_devices icd)) app11 pd (i\<lparr>icd_term := icd_of_devices icd\<rparr>);
     cells \<leftarrow> buf_write cells index i;
     read_icd_devices drivers app11 icd (k + 1) n cells (index + 1)
   }"

fun read_all_devices ::
  "(nat \<Rightarrow> driver) \<Rightarrow> bool \<Rightarrow> loader_icd_physical_devices list \<Rightarrow> LinuxSortedDeviceInfo buf \<Rightarrow> nat \<Rightarrow>
     (LinuxSortedDeviceInfo buf \<times> nat) option" where
  "read_all_devices drivers app11 [] cells index = Some (cells, index)"
| "read_all_devices drivers app11 (icd # icds) cells index = do {
     (cells, index) \<leftarrow> read_icd_devices drivers app11 icd 0 (icd_device_count icd) cells index;
     read_all_devices drivers app11 icds cells index
   }"

text \<open>The loop that writes the sorted devices into the caller's objects.\<close>

fun write_terms :: "nat \<Rightarrow> LinuxSortedDeviceInfo list \<Rightarrow> loader_physical_device_term list \<Rightarrow> loader_physical_device_term list option" where
  "write_terms disp [] ts = Some ts"
| "write_terms disp (i # is) [] = None"
| "write_terms disp (i # is) (t # ts) =
     map_option ((#) \<lparr>pdt_disp = disp, this_icd_term = icd_term i, phys_dev = physical_device i\<rparr>) (write_terms disp is ts)"

definition linux_read_sorted_physical_devices ::
  "((LinuxSortedDeviceInfo \<Rightarrow> LinuxSortedDeviceInfo \<Rightarrow> int) \<Rightarrow> LinuxSortedDeviceInfo list \<Rightarrow> LinuxSortedDeviceInfo list) \<Rightarrow>
     process \<Rightarrow> allocator \<Rightarrow> (nat \<Rightarrow> driver) \<Rightarrow> loader_api_version \<Rightarrow> nat \<Rightarrow> loader_icd_physical_devices list \<Rightarrow> nat \<Rightarrow>
     loader_physical_device_term list \<Rightarrow> heap \<Rightarrow> (VkResult \<times> loader_physical_device_term list \<times> heap) option" where
  "linux_read_sorted_physical_devices qs p a drivers app_api_version disp icd_devices phys_dev_count sorted_device_term h =
     (let app11 = loader_check_version_meets_required LOADER_VERSION_1_1_0 app_api_version in
      case loader_calloc a zero_device_info phys_dev_count h of
        (NULL, h) \<Rightarrow> Some (VK_ERROR_OUT_OF_HOST_MEMORY, sorted_device_term, h)
      | (cells, h) \<Rightarrow> do {
          (cells, _) \<leftarrow> read_all_devices drivers app11 icd_devices cells 0;
          infos \<leftarrow> (case cells of Buf xs \<Rightarrow> Some xs | _ \<Rightarrow> None);
          let infos = qs compare_devices (linux_env_var_default_device p infos);
          terms \<leftarrow> write_terms disp infos sorted_device_term;
          h \<leftarrow> loader_free a (Buf infos) h;
          Some (VK_SUCCESS, terms, h)
        })"

text \<open>One group: read its devices, mark the default, sort, and copy the handles back.\<close>

fun read_group_devices :: "driver \<Rightarrow> bool \<Rightarrow> nat list \<Rightarrow> nat \<Rightarrow> nat \<Rightarrow> LinuxSortedDeviceInfo list \<Rightarrow> LinuxSortedDeviceInfo list option" where
  "read_group_devices drv app11 pds k 0 infos = Some infos"
| "read_group_devices drv app11 pds k (Suc n) infos =
     (if k < length pds \<and> k < length infos then do {
        i \<leftarrow> read_device_info drv app11 (pds ! k) (infos ! k);
        read_group_devices drv app11 pds (k + 1) n (infos[k := i])
      } else None)"

definition sort_group ::
  "((LinuxSortedDeviceInfo \<Rightarrow> LinuxSortedDeviceInfo \<Rightarrow> int) \<Rightarrow> LinuxSortedDeviceInfo list \<Rightarrow> LinuxSortedDeviceInfo list) \<Rightarrow>
     process \<Rightarrow> (nat \<Rightarrow> driver) \<Rightarrow> bool \<Rightarrow> loader_physical_device_group_term \<Rightarrow> loader_physical_device_group_term option" where
  "sort_group qs p drivers app11 g = do {
     let n = physicalDeviceCount g;
     infos \<leftarrow> read_group_devices (drivers (grp_icd_term g)) app11 (physicalDevices g) 0 n (internal_device_info g);
     let sorted = qs compare_devices (linux_env_var_default_device p (take n infos));
     Some (g\<lparr>internal_device_info := sorted @ drop n infos,
             physicalDevices := map physical_device sorted @ drop n (physicalDevices g)\<rparr>)
   }"

fun sort_groups_each ::
  "((LinuxSortedDeviceInfo \<Rightarrow> LinuxSortedDeviceInfo \<Rightarrow> int) \<Rightarrow> LinuxSortedDeviceInfo list \<Rightarrow> LinuxSortedDeviceInfo list) \<Rightarrow>
     process \<Rightarrow> (nat \<Rightarrow> driver) \<Rightarrow> bool \<Rightarrow> loader_physical_device_group_term list \<Rightarrow> loader_physical_device_group_term list option" where
  "sort_groups_each qs p drivers app11 [] = Some []"
| "sort_groups_each qs p drivers app11 (g # gs) = do {
     g \<leftarrow> sort_group qs p drivers app11 g;
     gs \<leftarrow> sort_groups_each qs p drivers app11 gs;
     Some (g # gs)
   }"

definition linux_sort_physical_device_groups ::
  "((LinuxSortedDeviceInfo \<Rightarrow> LinuxSortedDeviceInfo \<Rightarrow> int) \<Rightarrow> LinuxSortedDeviceInfo list \<Rightarrow> LinuxSortedDeviceInfo list) \<Rightarrow>
     ((loader_physical_device_group_term \<Rightarrow> loader_physical_device_group_term \<Rightarrow> int) \<Rightarrow>
        loader_physical_device_group_term list \<Rightarrow> loader_physical_device_group_term list) \<Rightarrow>
     process \<Rightarrow> (nat \<Rightarrow> driver) \<Rightarrow> loader_api_version \<Rightarrow> loader_physical_device_group_term list \<Rightarrow>
     (VkResult \<times> loader_physical_device_group_term list) option" where
  "linux_sort_physical_device_groups qs qsg p drivers app_api_version sorted_group_term = do {
     let app11 = loader_check_version_meets_required LOADER_VERSION_1_1_0 app_api_version;
     gs \<leftarrow> sort_groups_each qs p drivers app11 sorted_group_term;
     Some (VK_SUCCESS, qsg compare_device_groups gs)
   }"

section \<open>The order\<close>

text \<open>The order the comparison implements: lexicographic in these keys.\<close>

type_synonym device_key = "bool \<times> nat \<times> bool \<times> (32 word \<times> 32 word \<times> 32 word \<times> 32 word) \<times> 32 word"

definition device_key :: "LinuxSortedDeviceInfo \<Rightarrow> device_key" where
  "device_key d = (\<not> default_device d, 10 - determine_priority_type_value (device_type d), \<not> has_pci_bus_info d,
     if has_pci_bus_info d then (pci_domain d, pci_bus d, pci_device d, pci_function d) else (0, 0, 0, 0),
     device_id d XOR vendor_id d)"

lemma priority_le: "determine_priority_type_value t \<le> 10"
  by (cases t) simp_all

lemma device_type_compare_key:
  "device_type_compare a b =
     (if 10 - determine_priority_type_value a < 10 - determine_priority_type_value b then - 1
      else if 10 - determine_priority_type_value b < 10 - determine_priority_type_value a then 1 else 0)"
  using priority_le [of a] priority_le [of b] by (auto simp: device_type_compare_def Let_def)

text \<open>A three-way comparison of pairs compares the components in turn.\<close>

lemma compare_pair:
  fixes a c :: "'a::linorder" and b d :: "'b::linorder"
  shows "(if (a, b) < (c, d) then u else if (c, d) < (a, b) then v else w) =
         (if a < c then u else if c < a then v else if b < d then u else if d < b then v else w)"
  by (auto simp: less_prod_simp)

lemma compare_devices_key:
  assumes "\<not> (default_device x \<and> default_device y)"
  shows "compare_devices x y = (if device_key x < device_key y then - 1 else if device_key y < device_key x then 1 else 0)"
proof (cases "default_device x \<or> default_device y")
  case True
  with assms show ?thesis by (auto simp: compare_devices_def device_key_def less_prod_simp)
next
  case False
  then show ?thesis
    unfolding compare_devices_def device_key_def device_type_compare_key Let_def compare_pair
    by (cases "has_pci_bus_info x"; cases "has_pci_bus_info y") (simp_all add: compare_pair)
qed

lemma compare_groups_devices:
  "compare_device_groups g g' = compare_devices (internal_device_info g ! 0) (internal_device_info g' ! 0)"
  by (simp add: compare_device_groups_def compare_devices_def Let_def)

section \<open>Sorting\<close>

text \<open>What the C standard asks of a comparison function, for the elements of one array.\<close>

definition consistent_cmp :: "('a \<Rightarrow> 'a \<Rightarrow> int) \<Rightarrow> 'a list \<Rightarrow> bool" where
  "consistent_cmp cmp xs =
     ((\<forall>x y. {#x, y#} \<subseteq># mset xs \<longrightarrow> sgn (cmp x y) = - sgn (cmp y x)) \<and>
      (\<forall>x y z. {#x, y, z#} \<subseteq># mset xs \<longrightarrow> cmp x y \<le> 0 \<longrightarrow> cmp y z \<le> 0 \<longrightarrow> cmp x z \<le> 0))"

definition qsort_contract :: "(('a \<Rightarrow> 'a \<Rightarrow> int) \<Rightarrow> 'a list \<Rightarrow> 'a list) \<Rightarrow> bool" where
  "qsort_contract qs = (\<forall>cmp xs. consistent_cmp cmp xs \<longrightarrow>
     mset (qs cmp xs) = mset xs \<and> sorted_wrt (\<lambda>x y. cmp x y \<le> 0) (qs cmp xs))"

definition at_most_one_default :: "LinuxSortedDeviceInfo list \<Rightarrow> bool" where
  "at_most_one_default ds = (length (filter default_device ds) \<le> 1)"

lemma pair_not_both_default:
  assumes "at_most_one_default ds" "{#x, y#} \<subseteq># mset ds"
  shows "\<not> (default_device x \<and> default_device y)"
proof
  assume "default_device x \<and> default_device y"
  then have "filter_mset default_device {#x, y#} = {#x, y#}" by simp
  then have "{#x, y#} \<subseteq># filter_mset default_device (mset ds)"
    using multiset_filter_mono [OF assms(2), of default_device] by simp
  then have "2 \<le> size (mset (filter default_device ds))" using size_mset_mono by fastforce
  with assms(1) show False by (simp only: at_most_one_default_def size_mset)
qed

lemma subset_pairs:
  assumes "{#x, y, z#} \<subseteq># M"
  shows "{#x, y#} \<subseteq># M" "{#y, z#} \<subseteq># M" "{#x, z#} \<subseteq># M"
proof -
  have "{#x, y#} \<subseteq># {#x, y#} + {#z#}" "{#y, z#} \<subseteq># {#y, z#} + {#x#}" "{#x, z#} \<subseteq># {#x, z#} + {#y#}"
    by (rule mset_subset_eq_add_left)+
  then have "{#x, y#} \<subseteq># {#x, y, z#}" "{#y, z#} \<subseteq># {#x, y, z#}" "{#x, z#} \<subseteq># {#x, y, z#}"
    by (simp_all add: add_mset_commute)
  from this [THEN subset_mset.order_trans, OF assms]
  show "{#x, y#} \<subseteq># M" "{#y, z#} \<subseteq># M" "{#x, z#} \<subseteq># M" .
qed

lemma compare_devices_consistent:
  assumes "at_most_one_default ds"
  shows "consistent_cmp compare_devices ds"
  unfolding consistent_cmp_def
proof (intro conjI allI impI)
  fix x y assume "{#x, y#} \<subseteq># mset ds"
  from pair_not_both_default [OF assms this] show "sgn (compare_devices x y) = - sgn (compare_devices y x)"
    by (subst (1 2) compare_devices_key) auto
next
  fix x y z assume sub: "{#x, y, z#} \<subseteq># mset ds" and le: "compare_devices x y \<le> 0" "compare_devices y z \<le> 0"
  note pairs = subset_pairs [OF sub, THEN pair_not_both_default [OF assms]]
  have "\<not> device_key y < device_key x" "\<not> device_key z < device_key y"
    using le pairs(1,2) by (auto simp: compare_devices_key split: if_splits)
  then show "compare_devices x z \<le> 0" using pairs(3) by (auto simp: compare_devices_key)
qed

text \<open>Sorting devices: a permutation in the order of the keys.\<close>

lemma sort_devices:
  assumes "qsort_contract qs" "at_most_one_default ds"
  shows "mset (qs compare_devices ds) = mset ds" and "sorted (map device_key (qs compare_devices ds))"
proof -
  from assms compare_devices_consistent show m: "mset (qs compare_devices ds) = mset ds"
    by (auto simp: qsort_contract_def)
  have s: "sorted_wrt (\<lambda>x y. compare_devices x y \<le> 0) (qs compare_devices ds)"
    using assms compare_devices_consistent by (auto simp: qsort_contract_def)
  show "sorted (map device_key (qs compare_devices ds))"
    unfolding sorted_map
  proof (rule sorted_wrt_mono_rel [OF _ s])
    fix x y assume mem: "x \<in> set (qs compare_devices ds)" "y \<in> set (qs compare_devices ds)" and le: "compare_devices x y \<le> 0"
    show "device_key x \<le> device_key y"
    proof (cases "default_device x \<and> default_device y")
      case False
      with le show ?thesis by (auto simp: compare_devices_key split: if_splits)
    next
      case True
      with mem have "x \<in> set (filter default_device ds)" "y \<in> set (filter default_device ds)"
        using m [THEN mset_eq_setD] by auto
      moreover have "length (filter default_device ds) \<le> Suc 0" using assms(2) by (simp add: at_most_one_default_def)
      ultimately have "x = y" by (cases "filter default_device ds") auto
      then show ?thesis by simp
    qed
  qed
qed

section \<open>Gathering\<close>

lemma read_device_info_defined: "read_device_info drv b pd i \<noteq> None"
proof -
  let ?x = "EnumerateDeviceExtensionProperties drv pd"
  have scan: "scan_cells P (filled_props ?x) 0 (min (second_count ?x) (first_count ?x)) =
      Some (\<exists>e\<in>set (take (min (second_count ?x) (first_count ?x)) (take (first_count ?x)
        (second_props ?x @ replicate (first_count ?x) zero_extension))). P e)" for P
    by (simp add: filled_props_def scan_cells_from)
  show ?thesis by (simp add: read_device_info_def Let_def scan)
qed

definition device_info :: "(nat \<Rightarrow> driver) \<Rightarrow> bool \<Rightarrow> nat \<times> nat \<Rightarrow> LinuxSortedDeviceInfo" where
  "device_info drivers app11 d = the (read_device_info (drivers (fst d)) app11 (snd d) (zero_device_info\<lparr>icd_term := fst d\<rparr>))"

lemma read_device_info_fresh:
  "read_device_info (drivers t) app11 pd (zero_device_info\<lparr>icd_term := t\<rparr>) = Some (device_info drivers app11 (t, pd))"
  using read_device_info_defined by (simp add: device_info_def)

lemma read_device_info_keeps:
  "read_device_info drv b pd i = Some i' \<Longrightarrow>
     default_device i' = default_device i \<and> icd_term i' = icd_term i \<and> physical_device i' = pd"
  by (auto simp: read_device_info_def Let_def bind_eq_Some_conv split: option.splits if_splits)

lemma device_info_keeps [simp]:
  "\<not> default_device (device_info drivers app11 d)" "icd_term (device_info drivers app11 d) = fst d"
  "physical_device (device_info drivers app11 d) = snd d"
  using read_device_info_keeps [OF read_device_info_fresh [of drivers "fst d" app11 "snd d"]] by (simp_all add: zero_device_info_def)

definition icd_handles :: "loader_icd_physical_devices \<Rightarrow> nat list" where
  "icd_handles icd = (case icd_physical_devices icd of Buf xs \<Rightarrow> take (icd_device_count icd) xs | _ \<Rightarrow> [])"

definition wf_icd_devices :: "loader_icd_physical_devices \<Rightarrow> bool" where
  "wf_icd_devices icd = (length (icd_handles icd) = icd_device_count icd)"

text \<open>Every device with the driver it belongs to.\<close>

definition all_devices :: "loader_icd_physical_devices list \<Rightarrow> (nat \<times> nat) list" where
  "all_devices icds = concat (map (\<lambda>icd. map (Pair (icd_of_devices icd)) (icd_handles icd)) icds)"

lemma read_icd_devices_correct:
  assumes "icd_physical_devices icd = Buf xs"
  shows "k + n \<le> length xs \<Longrightarrow>
    read_icd_devices drivers app11 icd k n (Buf (ds @ replicate (n + m) zero_device_info)) (length ds) =
      Some (Buf (ds @ map (\<lambda>pd. device_info drivers app11 (icd_of_devices icd, pd)) (take n (drop k xs)) @ replicate m zero_device_info),
            length ds + n)"
proof (induction n arbitrary: k ds)
  case (Suc n)
  let ?i = "device_info drivers app11 (icd_of_devices icd, xs ! k)"
  have w: "buf_write (Buf (ds @ replicate (Suc n + m) zero_device_info)) (length ds) ?i =
      Some (Buf ((ds @ [?i]) @ replicate (n + m) zero_device_info))"
    by (simp add: list_update_append)
  have r: "buf_read (Buf (ds @ replicate (Suc n + m) zero_device_info)) (length ds) = Some zero_device_info" by (simp add: nth_append)
  have pd: "buf_read (icd_physical_devices icd) k = Some (xs ! k)" using assms Suc.prems by simp
  have "take (Suc n) (drop k xs) = xs ! k # take n (drop (Suc k) xs)"
    using Suc.prems by (simp add: Cons_nth_drop_Suc [symmetric])
  with Suc.IH [of "Suc k" "ds @ [?i]"] Suc.prems show ?case
    unfolding read_icd_devices.simps r pd bind.simps(2) read_device_info_fresh w by simp
qed simp

lemma read_icd_devices_wf:
  assumes "wf_icd_devices icd"
  shows "read_icd_devices drivers app11 icd 0 (icd_device_count icd) (Buf (ds @ replicate (icd_device_count icd + m) zero_device_info)) (length ds) =
      Some (Buf (ds @ map (device_info drivers app11) (map (Pair (icd_of_devices icd)) (icd_handles icd)) @ replicate m zero_device_info),
            length ds + icd_device_count icd)"
proof (cases "icd_physical_devices icd")
  case (Buf xs)
  with assms have "icd_device_count icd \<le> length xs" "icd_handles icd = take (icd_device_count icd) xs"
    by (auto simp: wf_icd_devices_def icd_handles_def)
  with read_icd_devices_correct [OF Buf, of 0 "icd_device_count icd"] show ?thesis by (simp add: comp_def)
qed (use assms in \<open>simp_all add: wf_icd_devices_def icd_handles_def\<close>)

lemma read_all_devices_correct:
  "list_all wf_icd_devices icds \<Longrightarrow>
     read_all_devices drivers app11 icds (Buf (ds @ replicate (sum_list (map icd_device_count icds)) zero_device_info)) (length ds) =
       Some (Buf (ds @ map (device_info drivers app11) (all_devices icds)), length ds + sum_list (map icd_device_count icds))"
proof (induction icds arbitrary: ds)
  case (Cons icd icds)
  let ?new = "map (device_info drivers app11) (map (Pair (icd_of_devices icd)) (icd_handles icd))"
  have len: "length ?new = icd_device_count icd" using Cons.prems by (simp add: wf_icd_devices_def)
  have "read_icd_devices drivers app11 icd 0 (icd_device_count icd)
      (Buf (ds @ replicate (icd_device_count icd + sum_list (map icd_device_count icds)) zero_device_info)) (length ds) =
      Some (Buf (ds @ ?new @ replicate (sum_list (map icd_device_count icds)) zero_device_info), length ds + icd_device_count icd)"
    using read_icd_devices_wf [of icd drivers app11 ds "sum_list (map icd_device_count icds)"] Cons.prems by simp
  with Cons.IH [of "ds @ ?new"] Cons.prems len show ?case by (simp add: all_devices_def)
qed (simp add: all_devices_def)

lemma mark_default_at_most_one: "list_all (\<lambda>d. \<not> default_device d) ds \<Longrightarrow> at_most_one_default (mark_default v d ds)"
  by (induction ds) (auto simp: at_most_one_default_def list_all_iff filter_empty_conv)

lemma env_default_at_most_one:
  assumes "list_all (\<lambda>d. \<not> default_device d) ds"
  shows "at_most_one_default (linux_env_var_default_device p ds)"
proof -
  have "at_most_one_default ds" using assms by (simp add: at_most_one_default_def list_all_iff filter_empty_conv)
  then show ?thesis
    using mark_default_at_most_one [OF assms] by (simp add: linux_env_var_default_device_def split: option.split)
qed

lemma mark_default_length [simp]: "length (mark_default v d ds) = length ds"
  by (induction ds) auto

lemma env_default_length [simp]: "length (linux_env_var_default_device p ds) = length ds"
  by (auto simp: linux_env_var_default_device_def split: option.split)

lemma mark_default_same [simp]: "map icd_term (mark_default v d ds) = map icd_term ds"
  "map physical_device (mark_default v d ds) = map physical_device ds"
  by (induction ds) auto

lemma write_terms_correct:
  "length is = length ts \<Longrightarrow>
     write_terms disp is ts = Some (map (\<lambda>i. \<lparr>pdt_disp = disp, this_icd_term = icd_term i, phys_dev = physical_device i\<rparr>) is)"
  by (induction disp "is" ts rule: write_terms.induct) auto

lemma env_default_same:
  "map (\<lambda>d. (icd_term d, physical_device d)) (linux_env_var_default_device p ds) = map (\<lambda>d. (icd_term d, physical_device d)) ds"
proof -
  have "map (\<lambda>d. (icd_term d, physical_device d)) (mark_default v d ds) = map (\<lambda>d. (icd_term d, physical_device d)) ds" for v d
    by (induction ds) auto
  then show ?thesis by (simp add: linux_env_var_default_device_def split: option.split)
qed

lemma read_sorted_spec:
  assumes "qsort_contract qs" and "list_all wf_icd_devices icds"
    and "sum_list (map icd_device_count icds) = length terms"
  shows "\<exists>r terms' h'.
     linux_read_sorted_physical_devices qs p a drivers ver disp icds (length terms) terms h = Some (r, terms', h') \<and>
     live h' = live h \<and>
     (r = VK_ERROR_OUT_OF_HOST_MEMORY \<and> terms' = terms \<or>
      r = VK_SUCCESS \<and>
      mset (map (\<lambda>t. (this_icd_term t, phys_dev t)) terms') = mset (all_devices icds) \<and>
      (\<exists>ds. map (\<lambda>t. (this_icd_term t, phys_dev t)) terms' = map (\<lambda>d. (icd_term d, physical_device d)) ds \<and>
            sorted (map device_key ds) \<and>
            mset ds = mset (linux_env_var_default_device p
              (map (device_info drivers (loader_check_version_meets_required LOADER_VERSION_1_1_0 ver)) (all_devices icds)))))"
proof (cases "succeeds h")
  case False
  then show ?thesis by (simp add: linux_read_sorted_physical_devices_def loader_calloc_def)
next
  case True
  let ?app11 = "loader_check_version_meets_required LOADER_VERSION_1_1_0 ver"
  let ?infos = "map (device_info drivers ?app11) (all_devices icds)"
  let ?ds = "qs compare_devices (linux_env_var_default_device p ?infos)"
  have read: "read_all_devices drivers ?app11 icds (Buf (replicate (length terms) zero_device_info)) 0 = Some (Buf ?infos, length terms)"
    using read_all_devices_correct [OF assms(2), of drivers ?app11 "[]"] assms(3) by simp
  have "at_most_one_default (linux_env_var_default_device p ?infos)"
    by (rule env_default_at_most_one) (simp add: list_all_iff)
  note sorted = sort_devices [OF assms(1) this]
  have "length (all_devices icds) = sum_list (map icd_device_count icds)"
    using assms(2) by (induction icds) (auto simp: all_devices_def wf_icd_devices_def)
  then have "length ?ds = length terms" using sorted(1) [THEN mset_eq_length] assms(3) by simp
  note w = write_terms_correct [OF this, of disp]
  have "mset (map (\<lambda>d. (icd_term d, physical_device d)) ?ds) = mset (map (\<lambda>d. (icd_term d, physical_device d)) ?infos)"
    using sorted(1) env_default_same [of p ?infos] by (metis mset_map)
  then have m: "mset (map (\<lambda>d. (icd_term d, physical_device d)) ?ds) = mset (all_devices icds)"
    by (simp add: comp_def)
  define T where "T = map (\<lambda>i. \<lparr>pdt_disp = disp, this_icd_term = icd_term i, phys_dev = physical_device i\<rparr>) ?ds"
  have T: "map (\<lambda>t. (this_icd_term t, phys_dev t)) T = map (\<lambda>d. (icd_term d, physical_device d)) ?ds"
    by (simp add: T_def)
  obtain h' where "linux_read_sorted_physical_devices qs p a drivers ver disp icds (length terms) terms h = Some (VK_SUCCESS, T, h')"
    and "live h' = live h"
    using True read w by (simp add: linux_read_sorted_physical_devices_def loader_calloc_def T_def)
  with sorted m T show ?thesis
    by (intro exI [of _ VK_SUCCESS] exI [of _ T] exI [of _ h'] conjI disjI2 exI [of _ ?ds]) simp_all
qed

section \<open>Properties\<close>

text \<open>C11: Reading and sorting the physical devices is memory-safe and leaves nothing allocated.  Unless memory
  runs out, the terminator objects afterwards are a permutation of all devices of all drivers,
  in the order of the device keys: the selected default device first, then by type, by PCI
  address, and by the combined identifiers.\<close>

theorem sorted_physical_devices_correct:
  assumes "qsort_contract qs" and "list_all wf_icd_devices icds"
    and "sum_list (map icd_device_count icds) = length terms"
  shows "\<exists>r terms' h'.
     linux_read_sorted_physical_devices qs p a drivers ver disp icds (length terms) terms h = Some (r, terms', h') \<and>
     live h' = live h \<and>
     (r = VK_ERROR_OUT_OF_HOST_MEMORY \<and> terms' = terms \<or>
      r = VK_SUCCESS \<and>
      mset (map (\<lambda>t. (this_icd_term t, phys_dev t)) terms') = mset (all_devices icds) \<and>
      (\<exists>ds. map (\<lambda>t. (this_icd_term t, phys_dev t)) terms' = map (\<lambda>d. (icd_term d, physical_device d)) ds \<and>
            sorted (map device_key ds) \<and>
            mset ds = mset (linux_env_var_default_device p
              (map (device_info drivers (loader_check_version_meets_required LOADER_VERSION_1_1_0 ver)) (all_devices icds)))))"
  using assms by (rule read_sorted_spec)

text \<open>An implementation of \<^verbatim>\<open>qsort\<close>, for concrete inputs.\<close>

fun insert_by :: "('a \<Rightarrow> 'a \<Rightarrow> int) \<Rightarrow> 'a \<Rightarrow> 'a list \<Rightarrow> 'a list" where
  "insert_by cmp x [] = [x]"
| "insert_by cmp x (y # ys) = (if cmp x y \<le> 0 then x # y # ys else y # insert_by cmp x ys)"

definition insertion_sort :: "('a \<Rightarrow> 'a \<Rightarrow> int) \<Rightarrow> 'a list \<Rightarrow> 'a list" where
  "insertion_sort cmp xs = foldr (insert_by cmp) xs []"

lemma mset_insert_by [simp]: "mset (insert_by cmp x ys) = add_mset x (mset ys)"
  by (induction ys) auto

lemma consistent_antisym: "consistent_cmp cmp xs \<Longrightarrow> {#x, y#} \<subseteq># mset xs \<Longrightarrow> sgn (cmp x y) = - sgn (cmp y x)"
  by (simp add: consistent_cmp_def)

lemma consistent_trans:
  "consistent_cmp cmp xs \<Longrightarrow> {#x, y, z#} \<subseteq># mset xs \<Longrightarrow> cmp x y \<le> 0 \<Longrightarrow> cmp y z \<le> 0 \<Longrightarrow> cmp x z \<le> 0"
  unfolding consistent_cmp_def by blast

lemma consistent_subset: "consistent_cmp cmp xs \<Longrightarrow> mset ys \<subseteq># mset xs \<Longrightarrow> consistent_cmp cmp ys"
  unfolding consistent_cmp_def by (meson subset_mset.order_trans)

lemma consistent_tail: "consistent_cmp cmp (x # xs) \<Longrightarrow> consistent_cmp cmp xs"
  by (erule consistent_subset) simp

lemma consistent_mset: "mset xs = mset ys \<Longrightarrow> consistent_cmp cmp xs = consistent_cmp cmp ys"
  by (simp add: consistent_cmp_def)

lemma sorted_insert_by:
  "consistent_cmp cmp (x # ys) \<Longrightarrow> sorted_wrt (\<lambda>x y. cmp x y \<le> 0) ys \<Longrightarrow> sorted_wrt (\<lambda>x y. cmp x y \<le> 0) (insert_by cmp x ys)"
proof (induction ys)
  case (Cons y ys)
  have swap: "consistent_cmp cmp (x # ys)"
    using Cons.prems(1) consistent_tail [of cmp y "x # ys"] consistent_mset [of "x # y # ys" "y # x # ys"] by simp
  show ?case
  proof (cases "cmp x y \<le> 0")
    case True
    have "cmp x z \<le> 0" if "z \<in> set ys" for z
    proof -
      have "{#x, y, z#} \<subseteq># mset (x # y # ys)" using that by simp
      moreover have "cmp y z \<le> 0" using Cons.prems(2) that by simp
      ultimately show ?thesis using consistent_trans [OF Cons.prems(1)] True by blast
    qed
    with True Cons.prems(2) show ?thesis by simp
  next
    case False
    have "sgn (cmp y x) = - sgn (cmp x y)" using consistent_antisym [OF Cons.prems(1), of y x] by (simp add: add_mset_commute)
    with False have "cmp y x \<le> 0" by (auto simp: sgn_if split: if_splits)
    moreover have "set (insert_by cmp x ys) = insert x (set ys)" by (metis mset_insert_by set_mset_add_mset_insert set_mset_mset)
    ultimately show ?thesis using False Cons.IH [OF swap] Cons.prems(2) by simp
  qed
qed simp

lemma insertion_sort_contract: "qsort_contract insertion_sort"
  unfolding qsort_contract_def
proof (intro allI impI)
  fix cmp and xs :: "'a list" assume "consistent_cmp cmp xs"
  then show "mset (insertion_sort cmp xs) = mset xs \<and> sorted_wrt (\<lambda>x y. cmp x y \<le> 0) (insertion_sort cmp xs)"
  proof (induction xs)
    case (Cons x xs)
    note IH = Cons.IH [OF consistent_tail [OF Cons.prems]]
    have "consistent_cmp cmp (x # insertion_sort cmp xs)"
      using Cons.prems consistent_mset [of "x # insertion_sort cmp xs" "x # xs"] IH by simp
    from sorted_insert_by [OF this] IH show ?case by (simp add: insertion_sort_def)
  qed (simp add: insertion_sort_def)
qed

text \<open>Two devices of one driver that differ in their type.\<close>

abbreviation sample_driver :: "nat \<Rightarrow> driver" where
  "sample_driver \<equiv> (\<lambda>_. \<lparr>GetPhysicalDeviceProperties = (\<lambda>d. \<lparr>pd_apiVersion = 0, pd_vendorID = 5, pd_deviceID = 7,
       pd_deviceType = (if d = 1 then VK_PHYSICAL_DEVICE_TYPE_CPU else VK_PHYSICAL_DEVICE_TYPE_DISCRETE_GPU), pd_deviceName = ''GPU''\<rparr>),
     EnumerateDeviceExtensionProperties = (\<lambda>_. \<lparr>first_result = VK_SUCCESS, first_count = 0, second_result = VK_SUCCESS,
       second_count = 0, second_props = []\<rparr>),
     GetPhysicalDeviceProperties2 = None, GetPhysicalDeviceProperties2KHR = None\<rparr>)"

abbreviation sample_icds :: "loader_icd_physical_devices list" where
  "sample_icds \<equiv> [\<lparr>icd_device_count = 2, icd_physical_devices = Buf [1, 2], icd_of_devices = 9\<rparr>]"

abbreviation sample_terms :: "loader_physical_device_term list" where
  "sample_terms \<equiv> replicate 2 \<lparr>pdt_disp = 0, this_icd_term = 0, phys_dev = 0\<rparr>"

abbreviation no_env :: process where
  "no_env \<equiv> \<lparr>proc_env = (\<lambda>_. None), proc_secure_mode = False\<rparr>"

theorem sorted_physical_devices_correct_witness:
  "qsort_contract (insertion_sort :: (LinuxSortedDeviceInfo \<Rightarrow> LinuxSortedDeviceInfo \<Rightarrow> int) \<Rightarrow> _) \<and> list_all wf_icd_devices sample_icds \<and>
   sum_list (map icd_device_count sample_icds) = length sample_terms \<and>
   (\<exists>r terms' h'. linux_read_sorted_physical_devices insertion_sort no_env None sample_driver LOADER_VERSION_1_1_0 3 sample_icds
       (length sample_terms) sample_terms (sample_heap True) = Some (r, terms', h') \<and> live h' = live (sample_heap True) \<and>
     (r = VK_ERROR_OUT_OF_HOST_MEMORY \<and> terms' = sample_terms \<or>
      r = VK_SUCCESS \<and> mset (map (\<lambda>t. (this_icd_term t, phys_dev t)) terms') = mset (all_devices sample_icds)))"
proof -
  have wf: "list_all wf_icd_devices sample_icds" by (simp add: wf_icd_devices_def icd_handles_def)
  have n: "sum_list (map icd_device_count sample_icds) = length sample_terms" by simp
  from sorted_physical_devices_correct [OF insertion_sort_contract wf n, of no_env None sample_driver LOADER_VERSION_1_1_0 3 "sample_heap True"]
    insertion_sort_contract wf n
  show ?thesis by blast
qed

text \<open>The comparison is the lexicographic order of the keys unless both devices are the default one.\<close>

theorem compare_devices_is_key_order:
  assumes "\<not> (default_device x \<and> default_device y)"
  shows "compare_devices x y = (if device_key x < device_key y then - 1 else if device_key y < device_key x then 1 else 0)"
  by (rule compare_devices_key [OF assms])

theorem compare_devices_is_key_order_witness:
  "\<not> (default_device zero_device_info \<and> default_device (zero_device_info\<lparr>default_device := True\<rparr>)) \<and>
   compare_devices zero_device_info (zero_device_info\<lparr>default_device := True\<rparr>) = 1"
proof -
  have a: "\<not> (default_device zero_device_info \<and> default_device (zero_device_info\<lparr>default_device := True\<rparr>))"
    by (simp add: zero_device_info_def)
  from compare_devices_is_key_order [OF a] a show ?thesis
    by (simp add: device_key_def zero_device_info_def less_prod_simp)
qed

abbreviation sample_group :: "nat \<Rightarrow> loader_physical_device_group_term" where
  "sample_group d \<equiv> \<lparr>grp_icd_term = 0, physicalDeviceCount = 1, physicalDevices = [d], internal_device_info = [zero_device_info]\<rparr>"

abbreviation select_env :: process where
  "select_env \<equiv> \<lparr>proc_env = (\<lambda>_. Some ''5:7''), proc_secure_mode = False\<rparr>"

text \<open>The default device is looked up in every group separately.  When two groups contain a device with
  the selected identifiers, both groups claim to come before the other, and the comparison that is
  handed to \<^verbatim>\<open>qsort\<close> is inconsistent, which the C standard leaves undefined.\<close>

theorem default_device_in_two_groups:
  assumes "qsort_contract qs"
  shows "\<exists>gs. sort_groups_each qs select_env sample_driver False [sample_group 2, sample_group 3] = Some gs \<and>
     \<not> consistent_cmp compare_device_groups gs"
proof -
  have scan: "scan_device_select ''5:7'' = Some (5, 7)"
    by (simp add: scan_device_select_def scan_hex_def isspace_def digit_val_def)
  have single: "qs compare_devices [x] = [x]" for x
  proof -
    have "consistent_cmp compare_devices [x]" by (rule compare_devices_consistent) (simp add: at_most_one_default_def)
    then have "mset (qs compare_devices [x]) = mset [x]" using assms by (simp add: qsort_contract_def)
    then show ?thesis by simp
  qed
  have grp: "\<exists>g'. sort_group qs select_env sample_driver False (sample_group d) = Some g' \<and> default_device (internal_device_info g' ! 0)" for d
    by (simp add: sort_group_def read_device_info_def single linux_env_var_default_device_def loader_getenv_def scan Let_def)
  obtain g1 g2 where g: "sort_group qs select_env sample_driver False (sample_group 2) = Some g1"
      "sort_group qs select_env sample_driver False (sample_group 3) = Some g2"
    and d: "default_device (internal_device_info g1 ! 0)" "default_device (internal_device_info g2 ! 0)"
    using grp by meson
  have "compare_device_groups g1 g2 = - 1" "compare_device_groups g2 g1 = - 1"
    using d by (simp_all add: compare_groups_devices compare_devices_def)
  then have "\<not> consistent_cmp compare_device_groups [g1, g2]"
    using consistent_antisym [of compare_device_groups "[g1, g2]" g1 g2] by auto
  with g show ?thesis by simp
qed

theorem default_device_in_two_groups_witness:
  "qsort_contract (insertion_sort :: (LinuxSortedDeviceInfo \<Rightarrow> LinuxSortedDeviceInfo \<Rightarrow> int) \<Rightarrow> _) \<and>
   (\<exists>gs. sort_groups_each insertion_sort select_env sample_driver False [sample_group 2, sample_group 3] = Some gs \<and>
     \<not> consistent_cmp compare_device_groups gs)"
  using insertion_sort_contract default_device_in_two_groups [OF insertion_sort_contract] by blast

end
