(* ===== verification/UnknownFunctions.thy ===== *)
theory UnknownFunctions
  imports Allocation "HOL-Library.Sublist"
begin

text \<open>
  Functions the loader does not know (\<^verbatim>\<open>unknown_function_handling.c\<close>, \<^verbatim>\<open>dev_ext_trampoline.c\<close>, \<^verbatim>\<open>phys_dev_ext.c\<close>): the two
  tables of function names of an instance, the numbered trampolines and terminators handed out for
  them, and the dispatch tables of devices and drivers they jump through.  The entry points of drivers
  and layers are fields of their records, functions from names to code addresses: what is behind
  them is not part of the loader.  Linked lists of drivers and devices are lists.
\<close>

definition MAX_NUM_UNKNOWN_EXTS :: nat where "MAX_NUM_UNKNOWN_EXTS = 250"

definition MIN_PHYS_DEV_EXTENSION_ICD_INTERFACE_VERSION :: nat where "MIN_PHYS_DEV_EXTENSION_ICD_INTERFACE_VERSION = 4"

text \<open>Addresses: the numbered functions of the loader, and code of drivers and layers.\<close>

datatype entry_point = vkdev_ext nat | vkPhysDevExtTramp nat | vkPhysDevExtTermin nat | Code nat

definition loader_get_dev_ext_trampoline :: "nat \<Rightarrow> entry_point option" where
  "loader_get_dev_ext_trampoline index = (if index < 250 then Some (vkdev_ext index) else None)"

definition loader_get_phys_dev_ext_tramp :: "nat \<Rightarrow> entry_point option" where
  "loader_get_phys_dev_ext_tramp index = (if index < 250 then Some (vkPhysDevExtTramp index) else None)"

definition loader_get_phys_dev_ext_termin :: "nat \<Rightarrow> entry_point option" where
  "loader_get_phys_dev_ext_termin index = (if index < 250 then Some (vkPhysDevExtTermin index) else None)"

record loader_device =
  dev_gdpa :: "string \<Rightarrow> entry_point option" \<comment> \<open>\<^verbatim>\<open>GetDeviceProcAddr\<close> on the device's chain\<close>
  ext_dispatch :: "entry_point option list"

record loader_icd_term =
  icd_gipa :: "string \<Rightarrow> entry_point option"
  icd_interface_version :: nat
  icd_gpdpa :: "(string \<Rightarrow> entry_point option) option"
  logical_device_list :: "loader_device list"
  icd_phys_dev_ext :: "entry_point option list"

record activated_layer =
  ly_entrypoints :: "string list list" \<comment> \<open>of each device extension\<close>
  ly_interface_version :: nat
  ly_gipa :: "(string \<Rightarrow> entry_point option) option"
  ly_gpdpa :: "(string \<Rightarrow> entry_point option) option"

record loader_instance =
  icd_terms :: "loader_icd_term list"
  expanded_activated_layer_list :: "activated_layer list"
  dev_ext_disp_functions :: "string option list"
  dev_ext_disp_function_count :: nat
  phys_dev_ext_disp_functions :: "string option list"
  phys_dev_ext_disp_function_count :: nat
  disp_phys_dev_ext :: "entry_point option list"
  inst_heap :: heap

text \<open>A write to a fixed array of the instance or a dispatch table.\<close>

definition set_cell :: "'a list \<Rightarrow> nat \<Rightarrow> 'a \<Rightarrow> 'a list option" where
  "set_cell xs i x = (if i < length xs then Some (xs[i := x]) else None)"

section \<open>Device functions\<close>

definition init_dev_entry :: "nat \<Rightarrow> string \<Rightarrow> loader_device \<Rightarrow> loader_device option" where
  "init_dev_entry idx funcName dev =
     (case dev_gdpa dev funcName of
        None \<Rightarrow> Some dev
      | Some f \<Rightarrow> map_option (\<lambda>t. dev\<lparr>ext_dispatch := t\<rparr>) (set_cell (ext_dispatch dev) idx (Some f)))"

fun init_devs :: "nat \<Rightarrow> string \<Rightarrow> loader_device list \<Rightarrow> loader_device list option" where
  "init_devs idx funcName [] = Some []"
| "init_devs idx funcName (d # ds) = do {
     d \<leftarrow> init_dev_entry idx funcName d;
     ds \<leftarrow> init_devs idx funcName ds;
     Some (d # ds)
   }"

fun init_icds :: "nat \<Rightarrow> string \<Rightarrow> loader_icd_term list \<Rightarrow> loader_icd_term list option" where
  "init_icds idx funcName [] = Some []"
| "init_icds idx funcName (icd # icds) = do {
     ds \<leftarrow> init_devs idx funcName (logical_device_list icd);
     icds \<leftarrow> init_icds idx funcName icds;
     Some (icd\<lparr>logical_device_list := ds\<rparr> # icds)
   }"

text \<open>\<^verbatim>\<open>loader_init_dispatch_dev_ext_entry\<close> with a device is \<open>init_dev_entry\<close>; without one, it goes over all devices.\<close>

definition loader_init_dispatch_dev_ext_entry :: "loader_instance \<Rightarrow> nat \<Rightarrow> string \<Rightarrow> loader_instance option" where
  "loader_init_dispatch_dev_ext_entry inst idx funcName =
     map_option (\<lambda>icds. inst\<lparr>icd_terms := icds\<rparr>) (init_icds idx funcName (icd_terms inst))"

text \<open>The loop over the name table, for a device that was just created.\<close>

fun init_dispatch_from :: "nat \<Rightarrow> string option list \<Rightarrow> loader_device \<Rightarrow> loader_device option" where
  "init_dispatch_from i [] dev = Some dev"
| "init_dispatch_from i (f # fs) dev = do {
     dev \<leftarrow> (case f of None \<Rightarrow> Some dev | Some name \<Rightarrow> init_dev_entry i name dev);
     init_dispatch_from (i + 1) fs dev
   }"

definition loader_init_dispatch_dev_ext :: "loader_instance \<Rightarrow> loader_device \<Rightarrow> loader_device option" where
  "loader_init_dispatch_dev_ext inst dev = init_dispatch_from 0 (dev_ext_disp_functions inst) dev"

definition loader_check_icds_for_dev_ext_address :: "loader_instance \<Rightarrow> string \<Rightarrow> bool" where
  "loader_check_icds_for_dev_ext_address inst funcName = list_ex (\<lambda>icd. icd_gipa icd funcName \<noteq> None) (icd_terms inst)"

definition loader_check_layer_list_for_dev_ext_address :: "loader_instance \<Rightarrow> string \<Rightarrow> bool" where
  "loader_check_layer_list_for_dev_ext_address inst funcName =
     (if list_ex (\<lambda>ly. list_ex (list_ex (\<lambda>e. e = funcName)) (ly_entrypoints ly)) (expanded_activated_layer_list inst) then True
      else (case expanded_activated_layer_list inst of
              [] \<Rightarrow> False
            | ly # _ \<Rightarrow> (case ly_gipa ly of None \<Rightarrow> False | Some gipa \<Rightarrow> gipa funcName \<noteq> None)))"

fun free_names :: "allocator \<Rightarrow> string option list \<Rightarrow> heap \<Rightarrow> heap" where
  "free_names a [] h = h"
| "free_names a (f # fs) h = free_names a fs (free_str a f h)"

text \<open>The count is not reset.\<close>

definition loader_free_dev_ext_table :: "allocator \<Rightarrow> loader_instance \<Rightarrow> loader_instance option" where
  "loader_free_dev_ext_table a inst =
     (if dev_ext_disp_function_count inst \<le> length (dev_ext_disp_functions inst)
      then Some (inst\<lparr>inst_heap := free_names a (take (dev_ext_disp_function_count inst) (dev_ext_disp_functions inst)) (inst_heap inst),
                      dev_ext_disp_functions := replicate (length (dev_ext_disp_functions inst)) None\<rparr>)
      else None)"

text \<open>The linear search both tables use.\<close>

fun find_name :: "string \<Rightarrow> nat \<Rightarrow> string option list \<Rightarrow> nat option" where
  "find_name funcName i [] = None"
| "find_name funcName i (f # fs) = (if f = Some funcName then Some i else find_name funcName (i + 1) fs)"

definition loader_dev_ext_gpa_impl ::
  "allocator \<Rightarrow> loader_instance \<Rightarrow> string \<Rightarrow> bool \<Rightarrow> (entry_point option \<times> loader_instance) option" where
  "loader_dev_ext_gpa_impl a inst funcName is_tramp =
     (let count = dev_ext_disp_function_count inst in
      if count > length (dev_ext_disp_functions inst) then None
      else (case find_name funcName 0 (take count (dev_ext_disp_functions inst)) of
        Some i \<Rightarrow> Some (loader_get_dev_ext_trampoline i, inst)
      | None \<Rightarrow>
          if \<not> loader_check_icds_for_dev_ext_address inst funcName \<and>
             (\<not> is_tramp \<or> \<not> loader_check_layer_list_for_dev_ext_address inst funcName) then Some (None, inst)
          else if count \<ge> MAX_NUM_UNKNOWN_EXTS then Some (None, inst)
          else if \<not> succeeds (inst_heap inst) then
            do {
              fs \<leftarrow> set_cell (dev_ext_disp_functions inst) count None;
              Some (None, inst\<lparr>dev_ext_disp_functions := fs, inst_heap := tick (inst_heap inst)\<rparr>)
            }
          else do {
            fs \<leftarrow> set_cell (dev_ext_disp_functions inst) count (Some funcName);
            inst \<leftarrow> loader_init_dispatch_dev_ext_entry
                     (inst\<lparr>dev_ext_disp_functions := fs, inst_heap := add_live 1 (tick (inst_heap inst))\<rparr>) count funcName;
            Some (loader_get_dev_ext_trampoline count, inst\<lparr>dev_ext_disp_function_count := count + 1\<rparr>)
          }))"

definition loader_dev_ext_gpa_tramp :: "allocator \<Rightarrow> loader_instance \<Rightarrow> string \<Rightarrow> (entry_point option \<times> loader_instance) option" where
  "loader_dev_ext_gpa_tramp a inst funcName = loader_dev_ext_gpa_impl a inst funcName True"

definition loader_dev_ext_gpa_term :: "allocator \<Rightarrow> loader_instance \<Rightarrow> string \<Rightarrow> (entry_point option \<times> loader_instance) option" where
  "loader_dev_ext_gpa_term a inst funcName = loader_dev_ext_gpa_impl a inst funcName False"

section \<open>Physical device functions\<close>

text \<open>What a driver offers for a name, if its interface is new enough.\<close>

definition icd_phys_function :: "loader_icd_term \<Rightarrow> string \<Rightarrow> entry_point option" where
  "icd_phys_function icd funcName =
     (if icd_interface_version icd \<ge> MIN_PHYS_DEV_EXTENSION_ICD_INTERFACE_VERSION
      then (case icd_gpdpa icd of None \<Rightarrow> None | Some gpdpa \<Rightarrow> gpdpa funcName) else None)"

definition loader_check_icds_for_phys_dev_ext_address :: "loader_instance \<Rightarrow> string \<Rightarrow> bool" where
  "loader_check_icds_for_phys_dev_ext_address inst funcName = list_ex (\<lambda>icd. icd_phys_function icd funcName \<noteq> None) (icd_terms inst)"

text \<open>Only the first layer with the entry point is asked.\<close>

fun first_layer_supports :: "activated_layer list \<Rightarrow> string \<Rightarrow> bool" where
  "first_layer_supports [] funcName = False"
| "first_layer_supports (ly # lys) funcName =
     (if ly_interface_version ly > 1 then
        (case ly_gpdpa ly of Some gpdpa \<Rightarrow> gpdpa funcName \<noteq> None | None \<Rightarrow> first_layer_supports lys funcName)
      else first_layer_supports lys funcName)"

definition loader_check_layer_list_for_phys_dev_ext_address :: "loader_instance \<Rightarrow> string \<Rightarrow> bool" where
  "loader_check_layer_list_for_phys_dev_ext_address inst funcName = first_layer_supports (expanded_activated_layer_list inst) funcName"

definition loader_free_phys_dev_ext_table :: "allocator \<Rightarrow> loader_instance \<Rightarrow> loader_instance" where
  "loader_free_phys_dev_ext_table a inst =
     inst\<lparr>inst_heap := free_names a (phys_dev_ext_disp_functions inst) (inst_heap inst),
          phys_dev_ext_disp_functions := replicate (length (phys_dev_ext_disp_functions inst)) None\<rparr>"

text \<open>The loop over the drivers: their tables, and the instance's dispatch entry when one of them has the function.\<close>

fun setup_icd_functions ::
  "nat \<Rightarrow> string \<Rightarrow> loader_icd_term list \<Rightarrow> entry_point option list \<Rightarrow> (loader_icd_term list \<times> entry_point option list) option" where
  "setup_icd_functions idx funcName [] disp = Some ([], disp)"
| "setup_icd_functions idx funcName (icd # icds) disp = do {
     t \<leftarrow> set_cell (icd_phys_dev_ext icd) idx (icd_phys_function icd funcName);
     disp \<leftarrow> (if icd_phys_function icd funcName \<noteq> None then set_cell disp idx (loader_get_phys_dev_ext_termin idx) else Some disp);
     (icds, disp) \<leftarrow> setup_icd_functions idx funcName icds disp;
     Some (icd\<lparr>icd_phys_dev_ext := t\<rparr> # icds, disp)
   }"

fun first_layer_function :: "activated_layer list \<Rightarrow> string \<Rightarrow> entry_point option" where
  "first_layer_function [] funcName = None"
| "first_layer_function (ly # lys) funcName =
     (case (if ly_interface_version ly > 1 then (case ly_gpdpa ly of None \<Rightarrow> None | Some gpdpa \<Rightarrow> gpdpa funcName) else None) of
        Some f \<Rightarrow> Some f
      | None \<Rightarrow> first_layer_function lys funcName)"

text \<open>From a name with its index on: fill the tables and return the numbered function.\<close>

definition setup_phys_dev_ext ::
  "loader_instance \<Rightarrow> string \<Rightarrow> bool \<Rightarrow> nat \<Rightarrow> (entry_point option \<times> loader_instance) option" where
  "setup_phys_dev_ext inst funcName is_tramp idx = do {
     (icds, disp) \<leftarrow> setup_icd_functions idx funcName (icd_terms inst) (disp_phys_dev_ext inst);
     disp \<leftarrow> (if is_tramp
             then (case first_layer_function (expanded_activated_layer_list inst) funcName of
                     None \<Rightarrow> Some disp | Some f \<Rightarrow> set_cell disp idx (Some f))
             else Some disp);
     Some (if is_tramp then loader_get_phys_dev_ext_tramp idx else loader_get_phys_dev_ext_termin idx,
           inst\<lparr>icd_terms := icds, disp_phys_dev_ext := disp\<rparr>)
   }"

definition loader_phys_dev_ext_gpa_impl ::
  "allocator \<Rightarrow> loader_instance \<Rightarrow> string \<Rightarrow> bool \<Rightarrow> (entry_point option \<times> loader_instance) option" where
  "loader_phys_dev_ext_gpa_impl a inst funcName is_tramp =
     (let count = phys_dev_ext_disp_function_count inst in
      if \<not> loader_check_icds_for_phys_dev_ext_address inst funcName \<and>
         (\<not> is_tramp \<or> \<not> loader_check_layer_list_for_phys_dev_ext_address inst funcName) then Some (None, inst)
      else if count > length (phys_dev_ext_disp_functions inst) then None
      else (case find_name funcName 0 (take count (phys_dev_ext_disp_functions inst)) of
        Some i \<Rightarrow> setup_phys_dev_ext inst funcName is_tramp i
      | None \<Rightarrow>
          if count \<ge> MAX_NUM_UNKNOWN_EXTS then Some (None, inst)
          else if \<not> succeeds (inst_heap inst) then
            do {
              fs \<leftarrow> set_cell (phys_dev_ext_disp_functions inst) count None;
              Some (None, inst\<lparr>phys_dev_ext_disp_functions := fs, inst_heap := tick (inst_heap inst)\<rparr>)
            }
          else do {
            fs \<leftarrow> set_cell (phys_dev_ext_disp_functions inst) count (Some funcName);
            setup_phys_dev_ext
              (inst\<lparr>phys_dev_ext_disp_functions := fs, phys_dev_ext_disp_function_count := count + 1,
                    inst_heap := add_live 1 (tick (inst_heap inst))\<rparr>) funcName is_tramp count
          }))"

definition loader_phys_dev_ext_gpa_tramp :: "allocator \<Rightarrow> loader_instance \<Rightarrow> string \<Rightarrow> (entry_point option \<times> loader_instance) option" where
  "loader_phys_dev_ext_gpa_tramp a inst funcName = loader_phys_dev_ext_gpa_impl a inst funcName True"

definition loader_phys_dev_ext_gpa_term :: "allocator \<Rightarrow> loader_instance \<Rightarrow> string \<Rightarrow> (entry_point option \<times> loader_instance) option" where
  "loader_phys_dev_ext_gpa_term a inst funcName = loader_phys_dev_ext_gpa_impl a inst funcName False"

section \<open>The numbered functions\<close>

text \<open>The assembly stubs: a trampoline jumps through the device's table, a terminator through its driver's.\<close>

definition call_vkdev_ext :: "nat \<Rightarrow> loader_device \<Rightarrow> entry_point option" where
  "call_vkdev_ext n dev = ext_dispatch dev ! n"

definition call_vkPhysDevExtTermin :: "nat \<Rightarrow> loader_icd_term \<Rightarrow> entry_point option" where
  "call_vkPhysDevExtTermin n icd = icd_phys_dev_ext icd ! n"

section \<open>The interface of a table of names\<close>

text \<open>
  What both tables promise: names are only ever added at the end, at most 250 of them and none twice,
  so that a name keeps its number.
\<close>

locale name_registry =
  fixes ok :: "'s \<Rightarrow> bool" and names :: "'s \<Rightarrow> string list" and step :: "'s \<Rightarrow> 's \<Rightarrow> bool"
  assumes step_ok: "ok s \<Longrightarrow> step s s' \<Longrightarrow> ok s'"
    and step_extends: "ok s \<Longrightarrow> step s s' \<Longrightarrow> prefix (names s) (names s')"
    and names_distinct: "ok s \<Longrightarrow> distinct (names s)"
    and names_bounded: "ok s \<Longrightarrow> length (names s) \<le> MAX_NUM_UNKNOWN_EXTS"
begin

lemma steps_extend: "step\<^sup>*\<^sup>* s s' \<Longrightarrow> ok s \<Longrightarrow> ok s' \<and> prefix (names s) (names s')"
proof (induction rule: rtranclp_induct)
  case (step t u)
  then have "ok t" "prefix (names s) (names t)" by auto
  with step step_ok step_extends show ?case by (metis prefix_order.trans)
qed simp

lemma number_kept:
  assumes "step\<^sup>*\<^sup>* s s'" "ok s" "i < length (names s)"
  shows "i < length (names s')" and "names s' ! i = names s ! i" and "i < 250"
proof -
  have p: "prefix (names s) (names s')" and "ok s'" using steps_extend [OF assms(1,2)] by auto
  then obtain xs where "names s' = names s @ xs" by (auto simp: prefix_def)
  with assms(3) show "i < length (names s')" "names s' ! i = names s ! i" by (auto simp: nth_append)
  show "i < 250" using names_bounded [OF assms(2)] assms(3) by (simp add: MAX_NUM_UNKNOWN_EXTS_def)
qed

lemma number_unique:
  assumes "ok s" "i < length (names s)" "j < length (names s)" "names s ! i = names s ! j"
  shows "i = j"
  using nth_eq_iff_index_eq [OF names_distinct [OF assms(1)] assms(2,3)] assms(4) by simp

end

section \<open>Invariant\<close>

definition table_ok :: "string option list \<Rightarrow> nat \<Rightarrow> bool" where
  "table_ok fs count = (length fs = MAX_NUM_UNKNOWN_EXTS \<and> count \<le> MAX_NUM_UNKNOWN_EXTS \<and>
     list_all (\<lambda>f. f \<noteq> None) (take count fs) \<and> list_all (\<lambda>f. f = None) (drop count fs) \<and> distinct (take count fs))"

definition registered :: "string option list \<Rightarrow> nat \<Rightarrow> string list" where
  "registered fs count = map the (take count fs)"

lemma find_name_Some: "find_name n i fs = Some k \<Longrightarrow> i \<le> k \<and> k < i + length fs \<and> fs ! (k - i) = Some n"
proof (induction fs arbitrary: i)
  case (Cons f fs)
  show ?case
  proof (cases "f = Some n")
    case False
    with Cons.prems Cons.IH [of "i + 1"] show ?thesis by (auto simp: nth_Cons')
  qed (use Cons.prems in auto)
qed simp

lemma find_name_None: "find_name n i fs = None \<Longrightarrow> Some n \<notin> set fs"
  by (induction fs arbitrary: i) (auto split: if_splits)

lemma registered_nth: "table_ok fs count \<Longrightarrow> i < count \<Longrightarrow> fs ! i = Some (registered fs count ! i)"
  by (auto simp: table_ok_def registered_def list_all_length)

lemma length_registered: "table_ok fs count \<Longrightarrow> length (registered fs count) = count"
  by (simp add: table_ok_def registered_def)

lemma registered_found:
  assumes "table_ok fs count" "find_name n 0 (take count fs) = Some i"
  shows "i < count" and "registered fs count ! i = n"
  using find_name_Some [OF assms(2)] assms(1) by (auto simp: table_ok_def registered_def)

lemma registered_distinct:
  assumes "table_ok fs count"
  shows "distinct (registered fs count)"
  unfolding registered_def distinct_map
proof
  show "distinct (take count fs)" using assms by (simp add: table_ok_def)
  show "inj_on the (set (take count fs))"
    using assms unfolding inj_on_def table_ok_def list_all_iff by (metis option.expand)
qed

lemma table_add:
  assumes "table_ok fs count" "count < MAX_NUM_UNKNOWN_EXTS" "find_name n 0 (take count fs) = None"
  shows "table_ok (fs[count := Some n]) (count + 1)" and "registered (fs[count := Some n]) (count + 1) = registered fs count @ [n]"
proof -
  have lt: "count < length fs" using assms(1,2) by (simp add: table_ok_def)
  note t = take_Suc_conv_app_nth [of count "fs[count := Some n]"]
  have d: "list_all (\<lambda>f. f = None) (drop (count + 1) (fs[count := Some n]))"
    using assms(1) lt by (auto simp: table_ok_def list_all_iff Cons_nth_drop_Suc [symmetric])
  show "table_ok (fs[count := Some n]) (count + 1)"
    using assms lt t d find_name_None [OF assms(3)] by (simp add: table_ok_def)
  show "registered (fs[count := Some n]) (count + 1) = registered fs count @ [n]"
    using lt t by (simp add: registered_def)
qed

lemma table_retry:
  assumes "table_ok fs count" "count < MAX_NUM_UNKNOWN_EXTS"
  shows "fs[count := None] = fs"
proof -
  have "count < length fs" using assms by (simp add: table_ok_def)
  then have "fs ! count = None" using assms(1) by (auto simp: table_ok_def Cons_nth_drop_Suc [symmetric])
  then show ?thesis by (metis list_update_id)
qed

text \<open>The table of one device holds what its chain returns for each registered name, and nothing else.\<close>

definition dev_ok :: "string list \<Rightarrow> loader_device \<Rightarrow> bool" where
  "dev_ok ns dev = (length (ext_dispatch dev) = MAX_NUM_UNKNOWN_EXTS \<and>
     (\<forall>i<MAX_NUM_UNKNOWN_EXTS. ext_dispatch dev ! i = (if i < length ns then dev_gdpa dev (ns ! i) else None)))"

definition icd_ok :: "string list \<Rightarrow> string list \<Rightarrow> loader_icd_term \<Rightarrow> bool" where
  "icd_ok ns ps icd = (list_all (dev_ok ns) (logical_device_list icd) \<and> length (icd_phys_dev_ext icd) = MAX_NUM_UNKNOWN_EXTS \<and>
     (\<forall>i<length ps. icd_phys_dev_ext icd ! i = icd_phys_function icd (ps ! i)))"

abbreviation dev_names :: "loader_instance \<Rightarrow> string list" where
  "dev_names s \<equiv> registered (dev_ext_disp_functions s) (dev_ext_disp_function_count s)"

abbreviation phys_names :: "loader_instance \<Rightarrow> string list" where
  "phys_names s \<equiv> registered (phys_dev_ext_disp_functions s) (phys_dev_ext_disp_function_count s)"

definition inst_ok :: "loader_instance \<Rightarrow> bool" where
  "inst_ok s = (table_ok (dev_ext_disp_functions s) (dev_ext_disp_function_count s) \<and>
     table_ok (phys_dev_ext_disp_functions s) (phys_dev_ext_disp_function_count s) \<and>
     list_all (icd_ok (dev_names s) (phys_names s)) (icd_terms s) \<and> length (disp_phys_dev_ext s) = MAX_NUM_UNKNOWN_EXTS)"

lemma init_dev_entry_ok:
  assumes "dev_ok ns dev" "length ns < MAX_NUM_UNKNOWN_EXTS"
  obtains dev' where "init_dev_entry (length ns) n dev = Some dev'" and "dev_ok (ns @ [n]) dev'"
proof (cases "dev_gdpa dev n")
  case None
  have "init_dev_entry (length ns) n dev = Some dev" using None by (simp add: init_dev_entry_def)
  moreover have "dev_ok (ns @ [n]) dev" using assms None by (auto simp: dev_ok_def nth_append)
  ultimately show ?thesis by (rule that)
next
  case (Some f)
  let ?d = "dev\<lparr>ext_dispatch := (ext_dispatch dev)[length ns := Some f]\<rparr>"
  have "init_dev_entry (length ns) n dev = Some ?d" using Some assms by (simp add: init_dev_entry_def set_cell_def dev_ok_def)
  moreover have "dev_ok (ns @ [n]) ?d" using assms Some by (auto simp: dev_ok_def nth_append nth_list_update)
  ultimately show ?thesis by (rule that)
qed

lemma init_devs_ok:
  assumes "length ns < MAX_NUM_UNKNOWN_EXTS"
  shows "list_all (dev_ok ns) ds \<Longrightarrow> \<exists>ds'. init_devs (length ns) n ds = Some ds' \<and> list_all (dev_ok (ns @ [n])) ds'"
proof (induction ds)
  case (Cons d ds)
  obtain d' where "init_dev_entry (length ns) n d = Some d'" "dev_ok (ns @ [n]) d'"
    using init_dev_entry_ok [of ns d n] Cons.prems assms by auto
  with Cons show ?case by fastforce
qed simp

lemma init_icds_ok:
  assumes "length ns < MAX_NUM_UNKNOWN_EXTS"
  shows "list_all (icd_ok ns ps) icds \<Longrightarrow>
    \<exists>icds'. init_icds (length ns) n icds = Some icds' \<and> list_all (icd_ok (ns @ [n]) ps) icds'"
proof (induction icds)
  case (Cons icd icds)
  obtain ds where d: "init_devs (length ns) n (logical_device_list icd) = Some ds" "list_all (dev_ok (ns @ [n])) ds"
    using init_devs_ok [OF assms, of "logical_device_list icd" n] Cons.prems by (auto simp: icd_ok_def)
  have "icd_ok (ns @ [n]) ps (icd\<lparr>logical_device_list := ds\<rparr>)"
    using Cons.prems d by (simp add: icd_ok_def icd_phys_function_def)
  with Cons d show ?case by fastforce
qed simp

lemma dev_gpa_ok:
  assumes "inst_ok s"
  shows "\<exists>r s'. loader_dev_ext_gpa_impl a s n t = Some (r, s') \<and> inst_ok s' \<and> prefix (dev_names s) (dev_names s') \<and>
    phys_names s' = phys_names s \<and> (\<forall>e. r = Some e \<longrightarrow> (\<exists>i<length (dev_names s'). e = vkdev_ext i \<and> dev_names s' ! i = n))"
proof -
  let ?fs = "dev_ext_disp_functions s" and ?c = "dev_ext_disp_function_count s"
  have t: "table_ok ?fs ?c" using assms by (simp add: inst_ok_def)
  have le: "\<not> ?c > length ?fs" using t by (simp add: table_ok_def)
  note def = loader_dev_ext_gpa_impl_def [of a s n t, unfolded Let_def if_not_P [OF le]]
  show ?thesis
  proof (cases "find_name n 0 (take ?c ?fs)")
    case (Some i)
    note found = registered_found [OF t Some]
    then have "i < 250" using t by (simp add: table_ok_def MAX_NUM_UNKNOWN_EXTS_def)
    with found Some assms show ?thesis
      unfolding def by (auto simp: loader_get_dev_ext_trampoline_def length_registered [OF t])
  next
    case None
    let ?no = "\<not> loader_check_icds_for_dev_ext_address s n \<and> (\<not> t \<or> \<not> loader_check_layer_list_for_dev_ext_address s n) \<or> ?c \<ge> MAX_NUM_UNKNOWN_EXTS"
    show ?thesis
    proof (cases ?no)
      case True
      with None assms show ?thesis unfolding def by auto
    next
      case False
      then have lt: "?c < MAX_NUM_UNKNOWN_EXTS" and lt': "?c < length ?fs" using t by (auto simp: table_ok_def)
      show ?thesis
      proof (cases "succeeds (inst_heap s)")
        case False
        with None \<open>\<not> ?no\<close> assms lt' show ?thesis
          unfolding def by (auto simp: set_cell_def table_retry [OF t lt] inst_ok_def)
      next
        case True
        let ?ns = "dev_names s"
        have len: "length ?ns = ?c" by (rule length_registered [OF t])
        obtain icds where icds: "init_icds ?c n (icd_terms s) = Some icds" "list_all (icd_ok (?ns @ [n]) (phys_names s)) icds"
          using init_icds_ok [of ?ns "phys_names s" "icd_terms s" n] assms len lt by (auto simp: inst_ok_def)
        let ?s = "s\<lparr>dev_ext_disp_functions := ?fs[?c := Some n], dev_ext_disp_function_count := ?c + 1,
                    icd_terms := icds, inst_heap := add_live 1 (tick (inst_heap s))\<rparr>"
        have "loader_dev_ext_gpa_impl a s n t = Some (Some (vkdev_ext ?c), ?s)"
          unfolding def using None \<open>\<not> ?no\<close> True lt' lt icds
          by (auto simp: set_cell_def loader_init_dispatch_dev_ext_entry_def loader_get_dev_ext_trampoline_def MAX_NUM_UNKNOWN_EXTS_def)
        moreover have names: "dev_names ?s = ?ns @ [n]" using table_add(2) [OF t lt None] by simp
        moreover have "inst_ok ?s"
          using assms icds table_add(1) [OF t lt None] by (simp only: inst_ok_def names) simp
        ultimately show ?thesis using len by (intro exI [of _ "Some (vkdev_ext ?c)"] exI [of _ ?s]) (auto simp: nth_append)
      qed
    qed
  qed
qed

lemma setup_icd_functions_ok:
  assumes "idx < MAX_NUM_UNKNOWN_EXTS" "ps ! idx = n"
  shows "list_all (\<lambda>icd. list_all (dev_ok ns) (logical_device_list icd) \<and> length (icd_phys_dev_ext icd) = MAX_NUM_UNKNOWN_EXTS \<and>
      (\<forall>i<length ps. i \<noteq> idx \<longrightarrow> icd_phys_dev_ext icd ! i = icd_phys_function icd (ps ! i))) icds \<Longrightarrow>
    length disp = MAX_NUM_UNKNOWN_EXTS \<Longrightarrow>
    \<exists>icds' disp'. setup_icd_functions idx n icds disp = Some (icds', disp') \<and> list_all (icd_ok ns ps) icds' \<and>
      length disp' = MAX_NUM_UNKNOWN_EXTS"
proof (induction icds arbitrary: disp)
  case (Cons icd icds)
  let ?t = "(icd_phys_dev_ext icd)[idx := icd_phys_function icd n]"
  let ?disp = "if icd_phys_function icd n \<noteq> None then disp[idx := loader_get_phys_dev_ext_termin idx] else disp"
  have ok: "icd_ok ns ps (icd\<lparr>icd_phys_dev_ext := ?t\<rparr>)"
    using Cons.prems(1) assms by (auto simp: icd_ok_def nth_list_update icd_phys_function_def)
  have len: "length ?disp = MAX_NUM_UNKNOWN_EXTS" using Cons.prems(2) by simp
  from Cons.IH [OF _ len] Cons.prems(1) obtain icds' disp' where
    "setup_icd_functions idx n icds ?disp = Some (icds', disp')" "list_all (icd_ok ns ps) icds'" "length disp' = MAX_NUM_UNKNOWN_EXTS"
    by auto
  with ok Cons.prems assms(1) show ?case by (auto simp: set_cell_def)
qed simp

lemma setup_phys_dev_ext_ok:
  assumes "table_ok (dev_ext_disp_functions s) (dev_ext_disp_function_count s)"
    and "table_ok (phys_dev_ext_disp_functions s) (phys_dev_ext_disp_function_count s)"
    and "length (disp_phys_dev_ext s) = MAX_NUM_UNKNOWN_EXTS" and "idx < length (phys_names s)" and "phys_names s ! idx = n"
    and "list_all (\<lambda>icd. list_all (dev_ok (dev_names s)) (logical_device_list icd) \<and> length (icd_phys_dev_ext icd) = MAX_NUM_UNKNOWN_EXTS \<and>
      (\<forall>i<length (phys_names s). i \<noteq> idx \<longrightarrow> icd_phys_dev_ext icd ! i = icd_phys_function icd (phys_names s ! i))) (icd_terms s)"
  shows "\<exists>s'. setup_phys_dev_ext s n t idx = Some (Some (if t then vkPhysDevExtTramp idx else vkPhysDevExtTermin idx), s') \<and> inst_ok s' \<and>
    dev_names s' = dev_names s \<and> phys_names s' = phys_names s"
proof -
  have lt: "idx < MAX_NUM_UNKNOWN_EXTS" using assms(2,4) length_registered [OF assms(2)] by (simp add: table_ok_def)
  from setup_icd_functions_ok [OF lt assms(5) assms(6) assms(3)] obtain icds disp where
    i: "setup_icd_functions idx n (icd_terms s) (disp_phys_dev_ext s) = Some (icds, disp)"
      "list_all (icd_ok (dev_names s) (phys_names s)) icds" "length disp = MAX_NUM_UNKNOWN_EXTS" by blast
  define disp' where "disp' = (case (if t then first_layer_function (expanded_activated_layer_list s) n else None) of
    None \<Rightarrow> disp | Some f \<Rightarrow> disp[idx := Some f])"
  have "setup_phys_dev_ext s n t idx = Some (Some (if t then vkPhysDevExtTramp idx else vkPhysDevExtTermin idx),
      s\<lparr>icd_terms := icds, disp_phys_dev_ext := disp'\<rparr>)"
    using i lt by (auto simp: setup_phys_dev_ext_def disp'_def set_cell_def loader_get_phys_dev_ext_tramp_def
        loader_get_phys_dev_ext_termin_def MAX_NUM_UNKNOWN_EXTS_def split: option.split)
  moreover have "length disp' = MAX_NUM_UNKNOWN_EXTS" using i(3) by (auto simp: disp'_def split: option.split)
  ultimately show ?thesis using assms i by (auto simp: inst_ok_def)
qed

lemma phys_gpa_ok:
  assumes "inst_ok s"
  shows "\<exists>r s'. loader_phys_dev_ext_gpa_impl a s n t = Some (r, s') \<and> inst_ok s' \<and> prefix (phys_names s) (phys_names s') \<and>
    dev_names s' = dev_names s \<and>
    (\<forall>e. r = Some e \<longrightarrow> (\<exists>i<length (phys_names s'). e = (if t then vkPhysDevExtTramp i else vkPhysDevExtTermin i) \<and> phys_names s' ! i = n))"
proof -
  let ?fs = "phys_dev_ext_disp_functions s" and ?c = "phys_dev_ext_disp_function_count s"
  have t: "table_ok ?fs ?c" and td: "table_ok (dev_ext_disp_functions s) (dev_ext_disp_function_count s)"
    and len: "length (phys_names s) = ?c" and disp: "length (disp_phys_dev_ext s) = MAX_NUM_UNKNOWN_EXTS"
    and icds: "list_all (icd_ok (dev_names s) (phys_names s)) (icd_terms s)"
    using assms length_registered by (auto simp: inst_ok_def)
  have le: "\<not> ?c > length ?fs" using t by (simp add: table_ok_def)
  note def = loader_phys_dev_ext_gpa_impl_def [of a s n t, unfolded Let_def if_not_P [OF le]]
  let ?no = "\<not> loader_check_icds_for_phys_dev_ext_address s n \<and> (\<not> t \<or> \<not> loader_check_layer_list_for_phys_dev_ext_address s n)"
  show ?thesis
  proof (cases ?no)
    case True
    with assms show ?thesis unfolding def by auto
  next
    case supported: False
    show ?thesis
    proof (cases "find_name n 0 (take ?c ?fs)")
      case (Some i)
      note found = registered_found [OF t Some]
      have "list_all (\<lambda>icd. list_all (dev_ok (dev_names s)) (logical_device_list icd) \<and> length (icd_phys_dev_ext icd) = MAX_NUM_UNKNOWN_EXTS \<and>
          (\<forall>k<length (phys_names s). k \<noteq> i \<longrightarrow> icd_phys_dev_ext icd ! k = icd_phys_function icd (phys_names s ! k))) (icd_terms s)"
        using icds by (auto simp: icd_ok_def list_all_iff)
      from setup_phys_dev_ext_ok [OF td t disp _ _ this, of n t] found len obtain s' where
        "setup_phys_dev_ext s n t i = Some (Some (if t then vkPhysDevExtTramp i else vkPhysDevExtTermin i), s')" "inst_ok s'"
        "dev_names s' = dev_names s" "phys_names s' = phys_names s" by auto
      moreover have "loader_phys_dev_ext_gpa_impl a s n t = setup_phys_dev_ext s n t i"
        unfolding def using supported Some by auto
      ultimately show ?thesis using found len
        by (intro exI [of _ "Some (if t then vkPhysDevExtTramp i else vkPhysDevExtTermin i)"] exI [of _ s']) auto
    next
      case None
      show ?thesis
      proof (cases "?c < MAX_NUM_UNKNOWN_EXTS")
        case False
        with supported None assms show ?thesis unfolding def by auto
      next
        case lt: True
        then have lt': "?c < length ?fs" using t by (auto simp: table_ok_def)
        show ?thesis
        proof (cases "succeeds (inst_heap s)")
          case False
          with supported None assms lt lt' show ?thesis
            unfolding def by (auto simp: set_cell_def table_retry [OF t lt] inst_ok_def)
        next
          case True
          let ?s = "s\<lparr>phys_dev_ext_disp_functions := ?fs[?c := Some n], phys_dev_ext_disp_function_count := ?c + 1,
                    inst_heap := add_live 1 (tick (inst_heap s))\<rparr>"
          have names: "phys_names ?s = phys_names s @ [n]" using table_add(2) [OF t lt None] by simp
          have "list_all (\<lambda>icd. list_all (dev_ok (dev_names ?s)) (logical_device_list icd) \<and> length (icd_phys_dev_ext icd) = MAX_NUM_UNKNOWN_EXTS \<and>
              (\<forall>k<length (phys_names ?s). k \<noteq> ?c \<longrightarrow> icd_phys_dev_ext icd ! k = icd_phys_function icd (phys_names ?s ! k))) (icd_terms ?s)"
            using icds len unfolding names by (auto simp: icd_ok_def list_all_iff nth_append)
          from setup_phys_dev_ext_ok [OF _ _ _ _ _ this, of n t] td table_add(1) [OF t lt None] disp len names obtain s' where
            r: "setup_phys_dev_ext ?s n t ?c = Some (Some (if t then vkPhysDevExtTramp ?c else vkPhysDevExtTermin ?c), s')" "inst_ok s'"
            "dev_names s' = dev_names s" "phys_names s' = phys_names s @ [n]" by (auto simp: nth_append)
          moreover have "loader_phys_dev_ext_gpa_impl a s n t = setup_phys_dev_ext ?s n t ?c"
            unfolding def using supported None True lt lt' by (auto simp: set_cell_def)
          ultimately show ?thesis using len
            by (intro exI [of _ "Some (if t then vkPhysDevExtTramp ?c else vkPhysDevExtTermin ?c)"] exI [of _ s']) (auto simp: nth_append)
        qed
      qed
    qed
  qed
qed

text \<open>A new device: an empty table, filled from the names.\<close>

definition new_device :: "(string \<Rightarrow> entry_point option) \<Rightarrow> loader_device" where
  "new_device gdpa = \<lparr>dev_gdpa = gdpa, ext_dispatch = replicate MAX_NUM_UNKNOWN_EXTS None\<rparr>"

lemma init_dispatch_None: "list_all (\<lambda>f. f = None) fs \<Longrightarrow> init_dispatch_from i fs dev = Some dev"
  by (induction fs arbitrary: i) auto

lemma init_dispatch_names:
  assumes "list_all (\<lambda>f. f = None) rest"
  shows "dev_ok ns dev \<Longrightarrow> length ns + length ms \<le> MAX_NUM_UNKNOWN_EXTS \<Longrightarrow>
    \<exists>dev'. init_dispatch_from (length ns) (map Some ms @ rest) dev = Some dev' \<and> dev_ok (ns @ ms) dev'"
proof (induction ms arbitrary: ns dev)
  case Nil
  with init_dispatch_None [OF assms] show ?case by simp
next
  case (Cons m ms)
  obtain d where "init_dev_entry (length ns) m dev = Some d" "dev_ok (ns @ [m]) d"
    using init_dev_entry_ok [of ns dev m] Cons.prems by auto
  with Cons.IH [of "ns @ [m]" d] Cons.prems show ?case by auto
qed

lemma new_device_ok:
  assumes "inst_ok s"
  obtains dev where "loader_init_dispatch_dev_ext s (new_device gdpa) = Some dev" and "dev_ok (dev_names s) dev"
proof -
  let ?fs = "dev_ext_disp_functions s" and ?c = "dev_ext_disp_function_count s"
  have t: "table_ok ?fs ?c" using assms by (simp add: inst_ok_def)
  have "take ?c ?fs = map Some (dev_names s)"
    using t by (auto simp: registered_def table_ok_def list_all_iff intro!: map_idI [symmetric])
  then have fs: "?fs = map Some (dev_names s) @ drop ?c ?fs" by (metis append_take_drop_id)
  have rest: "list_all (\<lambda>f. f = None) (drop ?c ?fs)" using t by (simp add: table_ok_def)
  have "dev_ok [] (new_device gdpa)" by (simp add: dev_ok_def new_device_def)
  with init_dispatch_names [OF rest, of "[]" "new_device gdpa" "dev_names s"] length_registered [OF t] t
  obtain dev where "init_dispatch_from 0 (map Some (dev_names s) @ drop ?c ?fs) (new_device gdpa) = Some dev" "dev_ok (dev_names s) dev"
    by (auto simp: table_ok_def)
  with fs that show ?thesis by (auto simp: loader_init_dispatch_dev_ext_def)
qed

section \<open>Histories\<close>

text \<open>What happens to an instance: queries for unknown functions, devices created and destroyed.\<close>

inductive inst_step :: "loader_instance \<Rightarrow> loader_instance \<Rightarrow> bool" where
  query_device: "loader_dev_ext_gpa_impl a s n t = Some (r, s') \<Longrightarrow> inst_step s s'"
| query_physical: "loader_phys_dev_ext_gpa_impl a s n t = Some (r, s') \<Longrightarrow> inst_step s s'"
| create_device: "k < length (icd_terms s) \<Longrightarrow> loader_init_dispatch_dev_ext s (new_device gdpa) = Some dev \<Longrightarrow>
    inst_step s (s\<lparr>icd_terms := (icd_terms s)[k := (icd_terms s ! k)\<lparr>logical_device_list := dev # logical_device_list (icd_terms s ! k)\<rparr>]\<rparr>)"
| destroy_device: "k < length (icd_terms s) \<Longrightarrow> logical_device_list (icd_terms s ! k) = ds @ dev # ds' \<Longrightarrow>
    inst_step s (s\<lparr>icd_terms := (icd_terms s)[k := (icd_terms s ! k)\<lparr>logical_device_list := ds @ ds'\<rparr>]\<rparr>)"

lemma icd_update_ok:
  assumes "inst_ok s" "k < length (icd_terms s)" "list_all (dev_ok (dev_names s)) ds"
  shows "inst_ok (s\<lparr>icd_terms := (icd_terms s)[k := (icd_terms s ! k)\<lparr>logical_device_list := ds\<rparr>]\<rparr>)"
proof -
  have icds: "list_all (icd_ok (dev_names s) (phys_names s)) (icd_terms s)" using assms(1) by (simp add: inst_ok_def)
  then have "icd_ok (dev_names s) (phys_names s) (icd_terms s ! k)" using assms(2) by (simp add: list_all_length)
  with assms(3) have "icd_ok (dev_names s) (phys_names s) ((icd_terms s ! k)\<lparr>logical_device_list := ds\<rparr>)"
    by (simp add: icd_ok_def icd_phys_function_def)
  with icds have "list_all (icd_ok (dev_names s) (phys_names s)) ((icd_terms s)[k := (icd_terms s ! k)\<lparr>logical_device_list := ds\<rparr>])"
    using set_update_subset_insert [of "icd_terms s" k] by (fastforce simp: list_all_iff)
  with assms(1) show ?thesis by (simp add: inst_ok_def)
qed

lemma inst_step_ok:
  assumes "inst_step s s'" "inst_ok s"
  shows "inst_ok s' \<and> prefix (dev_names s) (dev_names s') \<and> prefix (phys_names s) (phys_names s')"
  using assms(1)
proof cases
  case (query_device a n t r)
  with dev_gpa_ok [OF assms(2), of a n t] show ?thesis by auto
next
  case (query_physical a n t r)
  with phys_gpa_ok [OF assms(2), of a n t] show ?thesis by auto
next
  case (create_device k gdpa dev)
  obtain dev' where "loader_init_dispatch_dev_ext s (new_device gdpa) = Some dev'" "dev_ok (dev_names s) dev'"
    by (rule new_device_ok [OF assms(2)])
  moreover have "list_all (dev_ok (dev_names s)) (logical_device_list (icd_terms s ! k))"
    using assms(2) create_device(2) by (simp add: inst_ok_def icd_ok_def list_all_length)
  ultimately show ?thesis using create_device icd_update_ok [OF assms(2) create_device(2)] by simp
next
  case (destroy_device k ds dev ds')
  have "list_all (dev_ok (dev_names s)) (logical_device_list (icd_terms s ! k))"
    using assms(2) destroy_device(2) by (simp add: inst_ok_def icd_ok_def list_all_length)
  then show ?thesis using destroy_device icd_update_ok [OF assms(2) destroy_device(2), of "ds @ ds'"] by simp
qed

interpretation dev_registry: name_registry inst_ok dev_names inst_step
proof
  fix s s' assume "inst_ok s"
  then show "distinct (dev_names s)" "length (dev_names s) \<le> MAX_NUM_UNKNOWN_EXTS"
    using registered_distinct length_registered by (auto simp: inst_ok_def table_ok_def)
  assume "inst_step s s'"
  with \<open>inst_ok s\<close> show "inst_ok s'" "prefix (dev_names s) (dev_names s')" using inst_step_ok by blast+
qed

interpretation phys_registry: name_registry inst_ok phys_names inst_step
proof
  fix s s' assume "inst_ok s"
  then show "distinct (phys_names s)" "length (phys_names s) \<le> MAX_NUM_UNKNOWN_EXTS"
    using registered_distinct length_registered by (auto simp: inst_ok_def table_ok_def)
  assume "inst_step s s'"
  with \<open>inst_ok s\<close> show "inst_ok s'" "prefix (phys_names s) (phys_names s')" using inst_step_ok by blast+
qed

section \<open>Properties\<close>

lemma dev_ok_call: "inst_ok s \<Longrightarrow> icd \<in> set (icd_terms s) \<Longrightarrow> dev \<in> set (logical_device_list icd) \<Longrightarrow> i < length (dev_names s) \<Longrightarrow>
    call_vkdev_ext i dev = dev_gdpa dev (dev_names s ! i)"
  using dev_registry.names_bounded [of s] by (force simp: inst_ok_def icd_ok_def list_all_iff dev_ok_def call_vkdev_ext_def)

lemma icd_ok_call: "inst_ok s \<Longrightarrow> icd \<in> set (icd_terms s) \<Longrightarrow> i < length (phys_names s) \<Longrightarrow>
    call_vkPhysDevExtTermin i icd = icd_phys_function icd (phys_names s ! i)"
  by (simp add: inst_ok_def icd_ok_def list_all_iff call_vkPhysDevExtTermin_def)

text \<open>C10: Asking for an unknown device function never leaves the tables.  If it returns an address, that is one
  of the 250 trampolines, and from then on, whatever is queried, created or destroyed, calling that
  trampoline on any device of the instance jumps to what the device's own chain returns for the
  name that was asked for.\<close>

theorem device_trampoline_dispatch:
  assumes "inst_ok s"
  shows "\<exists>r s'. loader_dev_ext_gpa_impl a s n is_tramp = Some (r, s') \<and> inst_ok s' \<and>
     (\<forall>e s''. r = Some e \<and> inst_step\<^sup>*\<^sup>* s' s'' \<longrightarrow>
        (\<exists>i<250. e = vkdev_ext i \<and>
           (\<forall>icd\<in>set (icd_terms s''). \<forall>dev\<in>set (logical_device_list icd). call_vkdev_ext i dev = dev_gdpa dev n)))"
proof -
  from dev_gpa_ok [OF assms, of a n is_tramp] obtain r s' where
    g: "loader_dev_ext_gpa_impl a s n is_tramp = Some (r, s')" "inst_ok s'"
    and e: "\<And>e. r = Some e \<Longrightarrow> \<exists>i<length (dev_names s'). e = vkdev_ext i \<and> dev_names s' ! i = n" by blast
  have "\<exists>i<250. e = vkdev_ext i \<and>
      (\<forall>icd\<in>set (icd_terms s''). \<forall>dev\<in>set (logical_device_list icd). call_vkdev_ext i dev = dev_gdpa dev n)"
    if r: "r = Some e" and steps: "inst_step\<^sup>*\<^sup>* s' s''" for e s''
  proof -
    obtain i where i: "i < length (dev_names s')" "e = vkdev_ext i" "dev_names s' ! i = n" using e [OF r] by blast
    note kept = dev_registry.number_kept [OF steps g(2) i(1)]
    have "inst_ok s''" using dev_registry.steps_extend [OF steps g(2)] by simp
    with kept i show ?thesis by (auto simp: dev_ok_call)
  qed
  with g show ?thesis by blast
qed

text \<open>An instance with one driver that has one device and knows \<^verbatim>\<open>vkFoo\<close>.\<close>

abbreviation foo_functions :: "string \<Rightarrow> entry_point option" where
  "foo_functions \<equiv> (\<lambda>n. if n = ''vkFoo'' then Some (Code 1) else None)"

abbreviation empty_table :: "'a option list" where
  "empty_table \<equiv> replicate 250 None"

definition sample_instance :: loader_instance where
  "sample_instance = \<lparr>icd_terms = [\<lparr>icd_gipa = foo_functions, icd_interface_version = 5, icd_gpdpa = Some foo_functions,
       logical_device_list = [new_device foo_functions], icd_phys_dev_ext = empty_table\<rparr>],
     expanded_activated_layer_list = [\<lparr>ly_entrypoints = [], ly_interface_version = 2, ly_gipa = None,
       ly_gpdpa = Some (\<lambda>n. if n = ''vkFoo'' then Some (Code 2) else None)\<rparr>],
     dev_ext_disp_functions = empty_table, dev_ext_disp_function_count = 0,
     phys_dev_ext_disp_functions = empty_table, phys_dev_ext_disp_function_count = 0,
     disp_phys_dev_ext = empty_table, inst_heap = \<lparr>outcomes = (\<lambda>_. True), clock = 0, live = 0\<rparr>\<rparr>"

lemma sample_instance_ok: "inst_ok sample_instance"
  by (simp add: inst_ok_def sample_instance_def table_ok_def registered_def icd_ok_def dev_ok_def new_device_def MAX_NUM_UNKNOWN_EXTS_def
      list_all_iff)

theorem device_trampoline_dispatch_witness:
  "inst_ok sample_instance \<and>
   (\<exists>r s'. loader_dev_ext_gpa_impl None sample_instance ''vkFoo'' True = Some (r, s') \<and> inst_ok s' \<and>
     (\<forall>e s''. r = Some e \<and> inst_step\<^sup>*\<^sup>* s' s'' \<longrightarrow>
        (\<exists>i<250. e = vkdev_ext i \<and>
           (\<forall>icd\<in>set (icd_terms s''). \<forall>dev\<in>set (logical_device_list icd). call_vkdev_ext i dev = dev_gdpa dev ''vkFoo''))))"
  by (intro conjI sample_instance_ok device_trampoline_dispatch [OF sample_instance_ok])

text \<open>C16: The same for physical device functions: the terminator of the returned number calls, for every
  driver, what that driver returns for the name, at any later time.\<close>

theorem physical_device_terminator_dispatch:
  assumes "inst_ok s"
  shows "\<exists>r s'. loader_phys_dev_ext_gpa_impl a s n is_tramp = Some (r, s') \<and> inst_ok s' \<and>
     (\<forall>e s''. r = Some e \<and> inst_step\<^sup>*\<^sup>* s' s'' \<longrightarrow>
        (\<exists>i<250. e = (if is_tramp then vkPhysDevExtTramp i else vkPhysDevExtTermin i) \<and>
           (\<forall>icd\<in>set (icd_terms s''). call_vkPhysDevExtTermin i icd = icd_phys_function icd n)))"
proof -
  from phys_gpa_ok [OF assms, of a n is_tramp] obtain r s' where
    g: "loader_phys_dev_ext_gpa_impl a s n is_tramp = Some (r, s')" "inst_ok s'"
    and e: "\<And>e. r = Some e \<Longrightarrow> \<exists>i<length (phys_names s'). e = (if is_tramp then vkPhysDevExtTramp i else vkPhysDevExtTermin i) \<and>
      phys_names s' ! i = n" by blast
  have "\<exists>i<250. e = (if is_tramp then vkPhysDevExtTramp i else vkPhysDevExtTermin i) \<and>
      (\<forall>icd\<in>set (icd_terms s''). call_vkPhysDevExtTermin i icd = icd_phys_function icd n)"
    if r: "r = Some e" and steps: "inst_step\<^sup>*\<^sup>* s' s''" for e s''
  proof -
    obtain i where i: "i < length (phys_names s')" "e = (if is_tramp then vkPhysDevExtTramp i else vkPhysDevExtTermin i)"
      "phys_names s' ! i = n" using e [OF r] by blast
    note kept = phys_registry.number_kept [OF steps g(2) i(1)]
    have "inst_ok s''" using phys_registry.steps_extend [OF steps g(2)] by simp
    with kept i show ?thesis by (auto simp: icd_ok_call)
  qed
  with g show ?thesis by blast
qed

theorem physical_device_terminator_dispatch_witness:
  "inst_ok sample_instance \<and>
   (\<exists>r s'. loader_phys_dev_ext_gpa_impl None sample_instance ''vkFoo'' False = Some (r, s') \<and> inst_ok s' \<and>
     (\<forall>e s''. r = Some e \<and> inst_step\<^sup>*\<^sup>* s' s'' \<longrightarrow>
        (\<exists>i<250. e = (if False then vkPhysDevExtTramp i else vkPhysDevExtTermin i) \<and>
           (\<forall>icd\<in>set (icd_terms s''). call_vkPhysDevExtTermin i icd = icd_phys_function icd ''vkFoo''))))"
  by (intro conjI sample_instance_ok physical_device_terminator_dispatch [OF sample_instance_ok])

text \<open>A query from the end of the chain undoes the layers: after the application asked for a physical device
  function, the instance's dispatch entry is the layer's function; once a layer asks for the same name
  at the terminator, the entry is the loader's terminator, and calls of the application go past
  the layer.\<close>

theorem terminator_query_bypasses_layer:
  "\<exists>s1 s2. loader_phys_dev_ext_gpa_tramp a sample_instance ''vkFoo'' = Some (Some (vkPhysDevExtTramp 0), s1) \<and>
     disp_phys_dev_ext s1 ! 0 = Some (Code 2) \<and>
     loader_phys_dev_ext_gpa_term a s1 ''vkFoo'' = Some (Some (vkPhysDevExtTermin 0), s2) \<and>
     disp_phys_dev_ext s2 ! 0 = Some (vkPhysDevExtTermin 0)"
proof -
  have fs: "find_name ''vkFoo'' 0 (take 0 empty_table) = None" by simp
  have len: "take (Suc 0) ((replicate 250 None)[0 := Some ''vkFoo'']) = [Some ''vkFoo'']"
    by (simp add: take_update_swap)
  show ?thesis
    by (simp add: loader_phys_dev_ext_gpa_tramp_def loader_phys_dev_ext_gpa_term_def loader_phys_dev_ext_gpa_impl_def sample_instance_def
        loader_check_icds_for_phys_dev_ext_address_def icd_phys_function_def MIN_PHYS_DEV_EXTENSION_ICD_INTERFACE_VERSION_def
        MAX_NUM_UNKNOWN_EXTS_def succeeds_def set_cell_def setup_phys_dev_ext_def loader_get_phys_dev_ext_tramp_def
        loader_get_phys_dev_ext_termin_def len Let_def)
qed

end
