(* ===== verification/DebugConversions.thy ===== *)
theory DebugConversions
  imports Prelude "HOL-Library.Word"
begin

text \<open>
  Conversions between the two debug extensions: message flags (\<^verbatim>\<open>debug_utils.c\<close>, 32-bit words with the
  bits of the Vulkan headers) and object types (\<^verbatim>\<open>generated/vk_object_types.h\<close>).  An output pointer is the
  value it points to, \<open>None\<close> when it is null.
\<close>

unbundle bit_operations_syntax

section \<open>Message flags\<close>

abbreviation VK_DEBUG_REPORT_INFORMATION_BIT_EXT :: "32 word" where "VK_DEBUG_REPORT_INFORMATION_BIT_EXT \<equiv> 0x1"
abbreviation VK_DEBUG_REPORT_WARNING_BIT_EXT :: "32 word" where "VK_DEBUG_REPORT_WARNING_BIT_EXT \<equiv> 0x2"
abbreviation VK_DEBUG_REPORT_PERFORMANCE_WARNING_BIT_EXT :: "32 word" where
  "VK_DEBUG_REPORT_PERFORMANCE_WARNING_BIT_EXT \<equiv> 0x4"
abbreviation VK_DEBUG_REPORT_ERROR_BIT_EXT :: "32 word" where "VK_DEBUG_REPORT_ERROR_BIT_EXT \<equiv> 0x8"
abbreviation VK_DEBUG_REPORT_DEBUG_BIT_EXT :: "32 word" where "VK_DEBUG_REPORT_DEBUG_BIT_EXT \<equiv> 0x10"
abbreviation VK_DEBUG_UTILS_MESSAGE_SEVERITY_VERBOSE_BIT_EXT :: "32 word" where
  "VK_DEBUG_UTILS_MESSAGE_SEVERITY_VERBOSE_BIT_EXT \<equiv> 0x1"
abbreviation VK_DEBUG_UTILS_MESSAGE_SEVERITY_INFO_BIT_EXT :: "32 word" where
  "VK_DEBUG_UTILS_MESSAGE_SEVERITY_INFO_BIT_EXT \<equiv> 0x10"
abbreviation VK_DEBUG_UTILS_MESSAGE_SEVERITY_WARNING_BIT_EXT :: "32 word" where
  "VK_DEBUG_UTILS_MESSAGE_SEVERITY_WARNING_BIT_EXT \<equiv> 0x100"
abbreviation VK_DEBUG_UTILS_MESSAGE_SEVERITY_ERROR_BIT_EXT :: "32 word" where
  "VK_DEBUG_UTILS_MESSAGE_SEVERITY_ERROR_BIT_EXT \<equiv> 0x1000"
abbreviation VK_DEBUG_UTILS_MESSAGE_TYPE_GENERAL_BIT_EXT :: "32 word" where
  "VK_DEBUG_UTILS_MESSAGE_TYPE_GENERAL_BIT_EXT \<equiv> 0x1"
abbreviation VK_DEBUG_UTILS_MESSAGE_TYPE_VALIDATION_BIT_EXT :: "32 word" where
  "VK_DEBUG_UTILS_MESSAGE_TYPE_VALIDATION_BIT_EXT \<equiv> 0x2"
abbreviation VK_DEBUG_UTILS_MESSAGE_TYPE_PERFORMANCE_BIT_EXT :: "32 word" where
  "VK_DEBUG_UTILS_MESSAGE_TYPE_PERFORMANCE_BIT_EXT \<equiv> 0x4"

definition debug_utils_ReportFlagsToAnnotFlags ::
  "32 word \<Rightarrow> bool \<Rightarrow> 32 word option \<Rightarrow> 32 word option \<Rightarrow> bool \<times> 32 word option \<times> 32 word option" where
  "debug_utils_ReportFlagsToAnnotFlags dr_flags default_flag_is_spec da_severity da_type =
     (if da_severity = None \<or> da_type = None then (False, da_severity, da_type)
      else
        let (severity, ty, type_set) =
              (if dr_flags AND VK_DEBUG_REPORT_INFORMATION_BIT_EXT \<noteq> 0
               then (VK_DEBUG_UTILS_MESSAGE_SEVERITY_INFO_BIT_EXT, 0 OR VK_DEBUG_UTILS_MESSAGE_TYPE_GENERAL_BIT_EXT, True)
               else if dr_flags AND (VK_DEBUG_REPORT_WARNING_BIT_EXT OR VK_DEBUG_REPORT_PERFORMANCE_WARNING_BIT_EXT) \<noteq> 0
               then (VK_DEBUG_UTILS_MESSAGE_SEVERITY_WARNING_BIT_EXT, 0, False)
               else if dr_flags AND VK_DEBUG_REPORT_ERROR_BIT_EXT \<noteq> 0
               then (VK_DEBUG_UTILS_MESSAGE_SEVERITY_ERROR_BIT_EXT, 0, False)
               else if dr_flags AND VK_DEBUG_REPORT_DEBUG_BIT_EXT \<noteq> 0
               then (VK_DEBUG_UTILS_MESSAGE_SEVERITY_VERBOSE_BIT_EXT, 0 OR VK_DEBUG_UTILS_MESSAGE_TYPE_GENERAL_BIT_EXT, True)
               else (0, 0, False));
            ty' = (if dr_flags AND VK_DEBUG_REPORT_PERFORMANCE_WARNING_BIT_EXT \<noteq> 0
                     then ty OR VK_DEBUG_UTILS_MESSAGE_TYPE_PERFORMANCE_BIT_EXT
                   else if \<not> type_set then
                     (if default_flag_is_spec then ty OR VK_DEBUG_UTILS_MESSAGE_TYPE_VALIDATION_BIT_EXT
                      else ty OR VK_DEBUG_UTILS_MESSAGE_TYPE_GENERAL_BIT_EXT)
                   else ty)
        in (True, Some severity, Some ty'))"

definition debug_utils_AnnotFlagsToReportFlags ::
  "32 word \<Rightarrow> 32 word \<Rightarrow> 32 word option \<Rightarrow> bool \<times> 32 word option" where
  "debug_utils_AnnotFlagsToReportFlags da_severity da_type dr_flags =
     (if dr_flags = None then (False, None)
      else
        (True, Some
          (if da_severity AND VK_DEBUG_UTILS_MESSAGE_SEVERITY_ERROR_BIT_EXT \<noteq> 0 then 0 OR VK_DEBUG_REPORT_ERROR_BIT_EXT
           else if da_severity AND VK_DEBUG_UTILS_MESSAGE_SEVERITY_WARNING_BIT_EXT \<noteq> 0 then
             (if da_type AND VK_DEBUG_UTILS_MESSAGE_TYPE_PERFORMANCE_BIT_EXT \<noteq> 0
              then 0 OR VK_DEBUG_REPORT_PERFORMANCE_WARNING_BIT_EXT
              else 0 OR VK_DEBUG_REPORT_WARNING_BIT_EXT)
           else if da_severity AND VK_DEBUG_UTILS_MESSAGE_SEVERITY_INFO_BIT_EXT \<noteq> 0 then 0 OR VK_DEBUG_REPORT_INFORMATION_BIT_EXT
           else if da_severity AND VK_DEBUG_UTILS_MESSAGE_SEVERITY_VERBOSE_BIT_EXT \<noteq> 0 then 0 OR VK_DEBUG_REPORT_DEBUG_BIT_EXT
           else 0)))"

section \<open>Object types\<close>

text \<open>The enumerators the conversions name; every other value of the enumeration is \<open>other_\<close> with its number.\<close>

datatype VkDebugReportObjectTypeEXT =
    VK_DEBUG_REPORT_OBJECT_TYPE_UNKNOWN_EXT
  | VK_DEBUG_REPORT_OBJECT_TYPE_INSTANCE_EXT
  | VK_DEBUG_REPORT_OBJECT_TYPE_PHYSICAL_DEVICE_EXT
  | VK_DEBUG_REPORT_OBJECT_TYPE_DEVICE_EXT
  | VK_DEBUG_REPORT_OBJECT_TYPE_QUEUE_EXT
  | VK_DEBUG_REPORT_OBJECT_TYPE_SEMAPHORE_EXT
  | VK_DEBUG_REPORT_OBJECT_TYPE_COMMAND_BUFFER_EXT
  | VK_DEBUG_REPORT_OBJECT_TYPE_FENCE_EXT
  | VK_DEBUG_REPORT_OBJECT_TYPE_DEVICE_MEMORY_EXT
  | VK_DEBUG_REPORT_OBJECT_TYPE_BUFFER_EXT
  | VK_DEBUG_REPORT_OBJECT_TYPE_IMAGE_EXT
  | VK_DEBUG_REPORT_OBJECT_TYPE_EVENT_EXT
  | VK_DEBUG_REPORT_OBJECT_TYPE_QUERY_POOL_EXT
  | VK_DEBUG_REPORT_OBJECT_TYPE_BUFFER_VIEW_EXT
  | VK_DEBUG_REPORT_OBJECT_TYPE_IMAGE_VIEW_EXT
  | VK_DEBUG_REPORT_OBJECT_TYPE_SHADER_MODULE_EXT
  | VK_DEBUG_REPORT_OBJECT_TYPE_PIPELINE_CACHE_EXT
  | VK_DEBUG_REPORT_OBJECT_TYPE_PIPELINE_LAYOUT_EXT
  | VK_DEBUG_REPORT_OBJECT_TYPE_RENDER_PASS_EXT
  | VK_DEBUG_REPORT_OBJECT_TYPE_PIPELINE_EXT
  | VK_DEBUG_REPORT_OBJECT_TYPE_DESCRIPTOR_SET_LAYOUT_EXT
  | VK_DEBUG_REPORT_OBJECT_TYPE_SAMPLER_EXT
  | VK_DEBUG_REPORT_OBJECT_TYPE_DESCRIPTOR_POOL_EXT
  | VK_DEBUG_REPORT_OBJECT_TYPE_DESCRIPTOR_SET_EXT
  | VK_DEBUG_REPORT_OBJECT_TYPE_FRAMEBUFFER_EXT
  | VK_DEBUG_REPORT_OBJECT_TYPE_COMMAND_POOL_EXT
  | VK_DEBUG_REPORT_OBJECT_TYPE_DESCRIPTOR_UPDATE_TEMPLATE_EXT
  | VK_DEBUG_REPORT_OBJECT_TYPE_SAMPLER_YCBCR_CONVERSION_EXT
  | VK_DEBUG_REPORT_OBJECT_TYPE_SURFACE_KHR_EXT
  | VK_DEBUG_REPORT_OBJECT_TYPE_SWAPCHAIN_KHR_EXT
  | VK_DEBUG_REPORT_OBJECT_TYPE_DISPLAY_KHR_EXT
  | VK_DEBUG_REPORT_OBJECT_TYPE_DISPLAY_MODE_KHR_EXT
  | VK_DEBUG_REPORT_OBJECT_TYPE_DEBUG_REPORT_CALLBACK_EXT_EXT
  | VK_DEBUG_REPORT_OBJECT_TYPE_CU_MODULE_NVX_EXT
  | VK_DEBUG_REPORT_OBJECT_TYPE_CU_FUNCTION_NVX_EXT
  | VK_DEBUG_REPORT_OBJECT_TYPE_ACCELERATION_STRUCTURE_KHR_EXT
  | VK_DEBUG_REPORT_OBJECT_TYPE_VALIDATION_CACHE_EXT_EXT
  | VK_DEBUG_REPORT_OBJECT_TYPE_ACCELERATION_STRUCTURE_NV_EXT
  | VK_DEBUG_REPORT_OBJECT_TYPE_CUDA_MODULE_NV_EXT
  | VK_DEBUG_REPORT_OBJECT_TYPE_CUDA_FUNCTION_NV_EXT
  | VK_DEBUG_REPORT_OBJECT_TYPE_BUFFER_COLLECTION_FUCHSIA_EXT
  | other_debug_report_object nat

datatype VkObjectType =
    VK_OBJECT_TYPE_UNKNOWN
  | VK_OBJECT_TYPE_INSTANCE
  | VK_OBJECT_TYPE_PHYSICAL_DEVICE
  | VK_OBJECT_TYPE_DEVICE
  | VK_OBJECT_TYPE_QUEUE
  | VK_OBJECT_TYPE_SEMAPHORE
  | VK_OBJECT_TYPE_COMMAND_BUFFER
  | VK_OBJECT_TYPE_FENCE
  | VK_OBJECT_TYPE_DEVICE_MEMORY
  | VK_OBJECT_TYPE_BUFFER
  | VK_OBJECT_TYPE_IMAGE
  | VK_OBJECT_TYPE_EVENT
  | VK_OBJECT_TYPE_QUERY_POOL
  | VK_OBJECT_TYPE_BUFFER_VIEW
  | VK_OBJECT_TYPE_IMAGE_VIEW
  | VK_OBJECT_TYPE_SHADER_MODULE
  | VK_OBJECT_TYPE_PIPELINE_CACHE
  | VK_OBJECT_TYPE_PIPELINE_LAYOUT
  | VK_OBJECT_TYPE_RENDER_PASS
  | VK_OBJECT_TYPE_PIPELINE
  | VK_OBJECT_TYPE_DESCRIPTOR_SET_LAYOUT
  | VK_OBJECT_TYPE_SAMPLER
  | VK_OBJECT_TYPE_DESCRIPTOR_POOL
  | VK_OBJECT_TYPE_DESCRIPTOR_SET
  | VK_OBJECT_TYPE_FRAMEBUFFER
  | VK_OBJECT_TYPE_COMMAND_POOL
  | VK_OBJECT_TYPE_DESCRIPTOR_UPDATE_TEMPLATE
  | VK_OBJECT_TYPE_SAMPLER_YCBCR_CONVERSION
  | VK_OBJECT_TYPE_SURFACE_KHR
  | VK_OBJECT_TYPE_SWAPCHAIN_KHR
  | VK_OBJECT_TYPE_DISPLAY_KHR
  | VK_OBJECT_TYPE_DISPLAY_MODE_KHR
  | VK_OBJECT_TYPE_DEBUG_REPORT_CALLBACK_EXT
  | VK_OBJECT_TYPE_CU_MODULE_NVX
  | VK_OBJECT_TYPE_CU_FUNCTION_NVX
  | VK_OBJECT_TYPE_ACCELERATION_STRUCTURE_KHR
  | VK_OBJECT_TYPE_VALIDATION_CACHE_EXT
  | VK_OBJECT_TYPE_ACCELERATION_STRUCTURE_NV
  | VK_OBJECT_TYPE_CUDA_MODULE_NV
  | VK_OBJECT_TYPE_CUDA_FUNCTION_NV
  | VK_OBJECT_TYPE_BUFFER_COLLECTION_FUCHSIA
  | other_object nat

fun convertDebugReportObjectToCoreObject :: "VkDebugReportObjectTypeEXT \<Rightarrow> VkObjectType" where
  "convertDebugReportObjectToCoreObject VK_DEBUG_REPORT_OBJECT_TYPE_UNKNOWN_EXT = VK_OBJECT_TYPE_UNKNOWN"
| "convertDebugReportObjectToCoreObject VK_DEBUG_REPORT_OBJECT_TYPE_INSTANCE_EXT = VK_OBJECT_TYPE_INSTANCE"
| "convertDebugReportObjectToCoreObject VK_DEBUG_REPORT_OBJECT_TYPE_PHYSICAL_DEVICE_EXT = VK_OBJECT_TYPE_PHYSICAL_DEVICE"
| "convertDebugReportObjectToCoreObject VK_DEBUG_REPORT_OBJECT_TYPE_DEVICE_EXT = VK_OBJECT_TYPE_DEVICE"
| "convertDebugReportObjectToCoreObject VK_DEBUG_REPORT_OBJECT_TYPE_QUEUE_EXT = VK_OBJECT_TYPE_QUEUE"
| "convertDebugReportObjectToCoreObject VK_DEBUG_REPORT_OBJECT_TYPE_SEMAPHORE_EXT = VK_OBJECT_TYPE_SEMAPHORE"
| "convertDebugReportObjectToCoreObject VK_DEBUG_REPORT_OBJECT_TYPE_COMMAND_BUFFER_EXT = VK_OBJECT_TYPE_COMMAND_BUFFER"
| "convertDebugReportObjectToCoreObject VK_DEBUG_REPORT_OBJECT_TYPE_FENCE_EXT = VK_OBJECT_TYPE_FENCE"
| "convertDebugReportObjectToCoreObject VK_DEBUG_REPORT_OBJECT_TYPE_DEVICE_MEMORY_EXT = VK_OBJECT_TYPE_DEVICE_MEMORY"
| "convertDebugReportObjectToCoreObject VK_DEBUG_REPORT_OBJECT_TYPE_BUFFER_EXT = VK_OBJECT_TYPE_BUFFER"
| "convertDebugReportObjectToCoreObject VK_DEBUG_REPORT_OBJECT_TYPE_IMAGE_EXT = VK_OBJECT_TYPE_IMAGE"
| "convertDebugReportObjectToCoreObject VK_DEBUG_REPORT_OBJECT_TYPE_EVENT_EXT = VK_OBJECT_TYPE_EVENT"
| "convertDebugReportObjectToCoreObject VK_DEBUG_REPORT_OBJECT_TYPE_QUERY_POOL_EXT = VK_OBJECT_TYPE_QUERY_POOL"
| "convertDebugReportObjectToCoreObject VK_DEBUG_REPORT_OBJECT_TYPE_BUFFER_VIEW_EXT = VK_OBJECT_TYPE_BUFFER_VIEW"
| "convertDebugReportObjectToCoreObject VK_DEBUG_REPORT_OBJECT_TYPE_IMAGE_VIEW_EXT = VK_OBJECT_TYPE_IMAGE_VIEW"
| "convertDebugReportObjectToCoreObject VK_DEBUG_REPORT_OBJECT_TYPE_SHADER_MODULE_EXT = VK_OBJECT_TYPE_SHADER_MODULE"
| "convertDebugReportObjectToCoreObject VK_DEBUG_REPORT_OBJECT_TYPE_PIPELINE_CACHE_EXT = VK_OBJECT_TYPE_PIPELINE_CACHE"
| "convertDebugReportObjectToCoreObject VK_DEBUG_REPORT_OBJECT_TYPE_PIPELINE_LAYOUT_EXT = VK_OBJECT_TYPE_PIPELINE_LAYOUT"
| "convertDebugReportObjectToCoreObject VK_DEBUG_REPORT_OBJECT_TYPE_RENDER_PASS_EXT = VK_OBJECT_TYPE_RENDER_PASS"
| "convertDebugReportObjectToCoreObject VK_DEBUG_REPORT_OBJECT_TYPE_PIPELINE_EXT = VK_OBJECT_TYPE_PIPELINE"
| "convertDebugReportObjectToCoreObject VK_DEBUG_REPORT_OBJECT_TYPE_DESCRIPTOR_SET_LAYOUT_EXT = VK_OBJECT_TYPE_DESCRIPTOR_SET_LAYOUT"
| "convertDebugReportObjectToCoreObject VK_DEBUG_REPORT_OBJECT_TYPE_SAMPLER_EXT = VK_OBJECT_TYPE_SAMPLER"
| "convertDebugReportObjectToCoreObject VK_DEBUG_REPORT_OBJECT_TYPE_DESCRIPTOR_POOL_EXT = VK_OBJECT_TYPE_DESCRIPTOR_POOL"
| "convertDebugReportObjectToCoreObject VK_DEBUG_REPORT_OBJECT_TYPE_DESCRIPTOR_SET_EXT = VK_OBJECT_TYPE_DESCRIPTOR_SET"
| "convertDebugReportObjectToCoreObject VK_DEBUG_REPORT_OBJECT_TYPE_FRAMEBUFFER_EXT = VK_OBJECT_TYPE_FRAMEBUFFER"
| "convertDebugReportObjectToCoreObject VK_DEBUG_REPORT_OBJECT_TYPE_COMMAND_POOL_EXT = VK_OBJECT_TYPE_COMMAND_POOL"
| "convertDebugReportObjectToCoreObject VK_DEBUG_REPORT_OBJECT_TYPE_DESCRIPTOR_UPDATE_TEMPLATE_EXT = VK_OBJECT_TYPE_DESCRIPTOR_UPDATE_TEMPLATE"
| "convertDebugReportObjectToCoreObject VK_DEBUG_REPORT_OBJECT_TYPE_SAMPLER_YCBCR_CONVERSION_EXT = VK_OBJECT_TYPE_SAMPLER_YCBCR_CONVERSION"
| "convertDebugReportObjectToCoreObject VK_DEBUG_REPORT_OBJECT_TYPE_SURFACE_KHR_EXT = VK_OBJECT_TYPE_SURFACE_KHR"
| "convertDebugReportObjectToCoreObject VK_DEBUG_REPORT_OBJECT_TYPE_SWAPCHAIN_KHR_EXT = VK_OBJECT_TYPE_SWAPCHAIN_KHR"
| "convertDebugReportObjectToCoreObject VK_DEBUG_REPORT_OBJECT_TYPE_DISPLAY_KHR_EXT = VK_OBJECT_TYPE_DISPLAY_KHR"
| "convertDebugReportObjectToCoreObject VK_DEBUG_REPORT_OBJECT_TYPE_DISPLAY_MODE_KHR_EXT = VK_OBJECT_TYPE_DISPLAY_MODE_KHR"
| "convertDebugReportObjectToCoreObject VK_DEBUG_REPORT_OBJECT_TYPE_DEBUG_REPORT_CALLBACK_EXT_EXT = VK_OBJECT_TYPE_DEBUG_REPORT_CALLBACK_EXT"
| "convertDebugReportObjectToCoreObject VK_DEBUG_REPORT_OBJECT_TYPE_CU_MODULE_NVX_EXT = VK_OBJECT_TYPE_CU_MODULE_NVX"
| "convertDebugReportObjectToCoreObject VK_DEBUG_REPORT_OBJECT_TYPE_CU_FUNCTION_NVX_EXT = VK_OBJECT_TYPE_CU_FUNCTION_NVX"
| "convertDebugReportObjectToCoreObject VK_DEBUG_REPORT_OBJECT_TYPE_ACCELERATION_STRUCTURE_KHR_EXT = VK_OBJECT_TYPE_ACCELERATION_STRUCTURE_KHR"
| "convertDebugReportObjectToCoreObject VK_DEBUG_REPORT_OBJECT_TYPE_VALIDATION_CACHE_EXT_EXT = VK_OBJECT_TYPE_VALIDATION_CACHE_EXT"
| "convertDebugReportObjectToCoreObject VK_DEBUG_REPORT_OBJECT_TYPE_ACCELERATION_STRUCTURE_NV_EXT = VK_OBJECT_TYPE_ACCELERATION_STRUCTURE_NV"
| "convertDebugReportObjectToCoreObject VK_DEBUG_REPORT_OBJECT_TYPE_CUDA_MODULE_NV_EXT = VK_OBJECT_TYPE_CUDA_MODULE_NV"
| "convertDebugReportObjectToCoreObject VK_DEBUG_REPORT_OBJECT_TYPE_CUDA_FUNCTION_NV_EXT = VK_OBJECT_TYPE_CUDA_FUNCTION_NV"
| "convertDebugReportObjectToCoreObject VK_DEBUG_REPORT_OBJECT_TYPE_BUFFER_COLLECTION_FUCHSIA_EXT = VK_OBJECT_TYPE_BUFFER_COLLECTION_FUCHSIA"
| "convertDebugReportObjectToCoreObject (other_debug_report_object n) = VK_OBJECT_TYPE_UNKNOWN"

fun convertCoreObjectToDebugReportObject :: "VkObjectType \<Rightarrow> VkDebugReportObjectTypeEXT" where
  "convertCoreObjectToDebugReportObject VK_OBJECT_TYPE_UNKNOWN = VK_DEBUG_REPORT_OBJECT_TYPE_UNKNOWN_EXT"
| "convertCoreObjectToDebugReportObject VK_OBJECT_TYPE_INSTANCE = VK_DEBUG_REPORT_OBJECT_TYPE_INSTANCE_EXT"
| "convertCoreObjectToDebugReportObject VK_OBJECT_TYPE_PHYSICAL_DEVICE = VK_DEBUG_REPORT_OBJECT_TYPE_PHYSICAL_DEVICE_EXT"
| "convertCoreObjectToDebugReportObject VK_OBJECT_TYPE_DEVICE = VK_DEBUG_REPORT_OBJECT_TYPE_DEVICE_EXT"
| "convertCoreObjectToDebugReportObject VK_OBJECT_TYPE_QUEUE = VK_DEBUG_REPORT_OBJECT_TYPE_QUEUE_EXT"
| "convertCoreObjectToDebugReportObject VK_OBJECT_TYPE_SEMAPHORE = VK_DEBUG_REPORT_OBJECT_TYPE_SEMAPHORE_EXT"
| "convertCoreObjectToDebugReportObject VK_OBJECT_TYPE_COMMAND_BUFFER = VK_DEBUG_REPORT_OBJECT_TYPE_COMMAND_BUFFER_EXT"
| "convertCoreObjectToDebugReportObject VK_OBJECT_TYPE_FENCE = VK_DEBUG_REPORT_OBJECT_TYPE_FENCE_EXT"
| "convertCoreObjectToDebugReportObject VK_OBJECT_TYPE_DEVICE_MEMORY = VK_DEBUG_REPORT_OBJECT_TYPE_DEVICE_MEMORY_EXT"
| "convertCoreObjectToDebugReportObject VK_OBJECT_TYPE_BUFFER = VK_DEBUG_REPORT_OBJECT_TYPE_BUFFER_EXT"
| "convertCoreObjectToDebugReportObject VK_OBJECT_TYPE_IMAGE = VK_DEBUG_REPORT_OBJECT_TYPE_IMAGE_EXT"
| "convertCoreObjectToDebugReportObject VK_OBJECT_TYPE_EVENT = VK_DEBUG_REPORT_OBJECT_TYPE_EVENT_EXT"
| "convertCoreObjectToDebugReportObject VK_OBJECT_TYPE_QUERY_POOL = VK_DEBUG_REPORT_OBJECT_TYPE_QUERY_POOL_EXT"
| "convertCoreObjectToDebugReportObject VK_OBJECT_TYPE_BUFFER_VIEW = VK_DEBUG_REPORT_OBJECT_TYPE_BUFFER_VIEW_EXT"
| "convertCoreObjectToDebugReportObject VK_OBJECT_TYPE_IMAGE_VIEW = VK_DEBUG_REPORT_OBJECT_TYPE_IMAGE_VIEW_EXT"
| "convertCoreObjectToDebugReportObject VK_OBJECT_TYPE_SHADER_MODULE = VK_DEBUG_REPORT_OBJECT_TYPE_SHADER_MODULE_EXT"
| "convertCoreObjectToDebugReportObject VK_OBJECT_TYPE_PIPELINE_CACHE = VK_DEBUG_REPORT_OBJECT_TYPE_PIPELINE_CACHE_EXT"
| "convertCoreObjectToDebugReportObject VK_OBJECT_TYPE_PIPELINE_LAYOUT = VK_DEBUG_REPORT_OBJECT_TYPE_PIPELINE_LAYOUT_EXT"
| "convertCoreObjectToDebugReportObject VK_OBJECT_TYPE_RENDER_PASS = VK_DEBUG_REPORT_OBJECT_TYPE_RENDER_PASS_EXT"
| "convertCoreObjectToDebugReportObject VK_OBJECT_TYPE_PIPELINE = VK_DEBUG_REPORT_OBJECT_TYPE_PIPELINE_EXT"
| "convertCoreObjectToDebugReportObject VK_OBJECT_TYPE_DESCRIPTOR_SET_LAYOUT = VK_DEBUG_REPORT_OBJECT_TYPE_DESCRIPTOR_SET_LAYOUT_EXT"
| "convertCoreObjectToDebugReportObject VK_OBJECT_TYPE_SAMPLER = VK_DEBUG_REPORT_OBJECT_TYPE_SAMPLER_EXT"
| "convertCoreObjectToDebugReportObject VK_OBJECT_TYPE_DESCRIPTOR_POOL = VK_DEBUG_REPORT_OBJECT_TYPE_DESCRIPTOR_POOL_EXT"
| "convertCoreObjectToDebugReportObject VK_OBJECT_TYPE_DESCRIPTOR_SET = VK_DEBUG_REPORT_OBJECT_TYPE_DESCRIPTOR_SET_EXT"
| "convertCoreObjectToDebugReportObject VK_OBJECT_TYPE_FRAMEBUFFER = VK_DEBUG_REPORT_OBJECT_TYPE_FRAMEBUFFER_EXT"
| "convertCoreObjectToDebugReportObject VK_OBJECT_TYPE_COMMAND_POOL = VK_DEBUG_REPORT_OBJECT_TYPE_COMMAND_POOL_EXT"
| "convertCoreObjectToDebugReportObject VK_OBJECT_TYPE_DESCRIPTOR_UPDATE_TEMPLATE = VK_DEBUG_REPORT_OBJECT_TYPE_DESCRIPTOR_UPDATE_TEMPLATE_EXT"
| "convertCoreObjectToDebugReportObject VK_OBJECT_TYPE_SAMPLER_YCBCR_CONVERSION = VK_DEBUG_REPORT_OBJECT_TYPE_SAMPLER_YCBCR_CONVERSION_EXT"
| "convertCoreObjectToDebugReportObject VK_OBJECT_TYPE_SURFACE_KHR = VK_DEBUG_REPORT_OBJECT_TYPE_SURFACE_KHR_EXT"
| "convertCoreObjectToDebugReportObject VK_OBJECT_TYPE_SWAPCHAIN_KHR = VK_DEBUG_REPORT_OBJECT_TYPE_SWAPCHAIN_KHR_EXT"
| "convertCoreObjectToDebugReportObject VK_OBJECT_TYPE_DISPLAY_KHR = VK_DEBUG_REPORT_OBJECT_TYPE_DISPLAY_KHR_EXT"
| "convertCoreObjectToDebugReportObject VK_OBJECT_TYPE_DISPLAY_MODE_KHR = VK_DEBUG_REPORT_OBJECT_TYPE_DISPLAY_MODE_KHR_EXT"
| "convertCoreObjectToDebugReportObject VK_OBJECT_TYPE_DEBUG_REPORT_CALLBACK_EXT = VK_DEBUG_REPORT_OBJECT_TYPE_DEBUG_REPORT_CALLBACK_EXT_EXT"
| "convertCoreObjectToDebugReportObject VK_OBJECT_TYPE_CU_MODULE_NVX = VK_DEBUG_REPORT_OBJECT_TYPE_CU_MODULE_NVX_EXT"
| "convertCoreObjectToDebugReportObject VK_OBJECT_TYPE_CU_FUNCTION_NVX = VK_DEBUG_REPORT_OBJECT_TYPE_CU_FUNCTION_NVX_EXT"
| "convertCoreObjectToDebugReportObject VK_OBJECT_TYPE_ACCELERATION_STRUCTURE_KHR = VK_DEBUG_REPORT_OBJECT_TYPE_ACCELERATION_STRUCTURE_KHR_EXT"
| "convertCoreObjectToDebugReportObject VK_OBJECT_TYPE_VALIDATION_CACHE_EXT = VK_DEBUG_REPORT_OBJECT_TYPE_VALIDATION_CACHE_EXT_EXT"
| "convertCoreObjectToDebugReportObject VK_OBJECT_TYPE_ACCELERATION_STRUCTURE_NV = VK_DEBUG_REPORT_OBJECT_TYPE_ACCELERATION_STRUCTURE_NV_EXT"
| "convertCoreObjectToDebugReportObject VK_OBJECT_TYPE_CUDA_MODULE_NV = VK_DEBUG_REPORT_OBJECT_TYPE_CUDA_MODULE_NV_EXT"
| "convertCoreObjectToDebugReportObject VK_OBJECT_TYPE_CUDA_FUNCTION_NV = VK_DEBUG_REPORT_OBJECT_TYPE_CUDA_FUNCTION_NV_EXT"
| "convertCoreObjectToDebugReportObject VK_OBJECT_TYPE_BUFFER_COLLECTION_FUCHSIA = VK_DEBUG_REPORT_OBJECT_TYPE_BUFFER_COLLECTION_FUCHSIA_EXT"
| "convertCoreObjectToDebugReportObject (other_object n) = VK_DEBUG_REPORT_OBJECT_TYPE_UNKNOWN_EXT"

text \<open>\<^verbatim>\<open>VkDebugUtilsObjectNameInfoEXT\<close> without its constant structure type and null chain; the name is
  always null here.\<close>

record VkDebugUtilsObjectNameInfoEXT =
  objectType :: VkObjectType
  objectHandle :: "64 word"

definition debug_utils_ReportObjectToAnnotObject ::
  "VkDebugReportObjectTypeEXT \<Rightarrow> 64 word \<Rightarrow> VkDebugUtilsObjectNameInfoEXT option \<Rightarrow>
     bool \<times> VkDebugUtilsObjectNameInfoEXT option" where
  "debug_utils_ReportObjectToAnnotObject dr_object_type object_handle da_object_name_info =
     (if da_object_name_info = None then (False, None)
      else (True, Some \<lparr>objectType = convertDebugReportObjectToCoreObject dr_object_type, objectHandle = object_handle\<rparr>))"

definition debug_utils_AnnotObjectToDebugReportObject ::
  "VkDebugUtilsObjectNameInfoEXT option \<Rightarrow> VkDebugReportObjectTypeEXT option \<Rightarrow> 64 word option \<Rightarrow>
     bool \<times> VkDebugReportObjectTypeEXT option \<times> 64 word option" where
  "debug_utils_AnnotObjectToDebugReportObject da_object_name_info dr_object_type dr_object_handle =
     (case da_object_name_info of
        None \<Rightarrow> (False, dr_object_type, dr_object_handle)
      | Some info \<Rightarrow>
          if dr_object_type = None \<or> dr_object_handle = None then (False, dr_object_type, dr_object_handle)
          else (True, Some (convertCoreObjectToDebugReportObject (objectType info)), Some (objectHandle info)))"

section \<open>Properties\<close>

text \<open>What the severities and types mean for a report: the single flag a message with these flags is
  reported under.\<close>

definition leading_flag :: "32 word \<Rightarrow> 32 word" where
  "leading_flag f =
     (if bit f 0 then VK_DEBUG_REPORT_INFORMATION_BIT_EXT
      else if bit f 2 then VK_DEBUG_REPORT_PERFORMANCE_WARNING_BIT_EXT
      else if bit f 1 then VK_DEBUG_REPORT_WARNING_BIT_EXT
      else if bit f 3 then VK_DEBUG_REPORT_ERROR_BIT_EXT
      else if bit f 4 then VK_DEBUG_REPORT_DEBUG_BIT_EXT
      else 0)"

lemma and_power_nonzero: "(f AND 2 ^ n \<noteq> 0) = bit f n" for f :: "32 word"
  by (simp add: and_exp_eq_0_iff_not_bit)

lemmas and_flag_bits =
  and_power_nonzero [of _ 0, simplified] and_power_nonzero [of _ 1, simplified] and_power_nonzero [of _ 2, simplified]
  and_power_nonzero [of _ 3, simplified] and_power_nonzero [of _ 4, simplified]

lemma and_warning_bits: "(f AND 6 \<noteq> 0) = (bit f 1 \<or> bit f 2)" for f :: "32 word"
proof -
  have "f AND 6 = (f AND 2) OR (f AND 4)" by (simp flip: bit.conj_disj_distrib)
  then show ?thesis using and_flag_bits by (auto simp: or_eq_0_iff)
qed

text \<open>C31: Flags of a report converted to severity and types and back are reduced to the leading
  flag in the order information, performance warning, warning, error, debug, for every word; so each
  single flag is kept.  The object of a report converted to an object of a messenger and back keeps its
  handle and every type both extensions know, and only unknown numbers become the unknown type.\<close>

theorem debug_conversions_roundtrip:
  "(case debug_utils_ReportFlagsToAnnotFlags f spec (Some s0) (Some t0) of
      (ok, Some s, Some t) \<Rightarrow> ok \<and> debug_utils_AnnotFlagsToReportFlags s t (Some r0) = (True, Some (leading_flag f))
    | _ \<Rightarrow> False) \<and>
   (case debug_utils_ReportObjectToAnnotObject ty handle (Some i0) of (ok, info) \<Rightarrow>
      ok \<and> debug_utils_AnnotObjectToDebugReportObject info (Some ty0) (Some h0) =
        (True, Some (case ty of other_debug_report_object n \<Rightarrow> VK_DEBUG_REPORT_OBJECT_TYPE_UNKNOWN_EXT | _ \<Rightarrow> ty), Some handle))"
proof
  show "case debug_utils_ReportFlagsToAnnotFlags f spec (Some s0) (Some t0) of
      (ok, Some s, Some t) \<Rightarrow> ok \<and> debug_utils_AnnotFlagsToReportFlags s t (Some r0) = (True, Some (leading_flag f))
    | _ \<Rightarrow> False"
    by (auto simp: debug_utils_ReportFlagsToAnnotFlags_def debug_utils_AnnotFlagsToReportFlags_def leading_flag_def
        and_warning_bits and_flag_bits Let_def)
next
  show "case debug_utils_ReportObjectToAnnotObject ty handle (Some i0) of (ok, info) \<Rightarrow>
      ok \<and> debug_utils_AnnotObjectToDebugReportObject info (Some ty0) (Some h0) =
        (True, Some (case ty of other_debug_report_object n \<Rightarrow> VK_DEBUG_REPORT_OBJECT_TYPE_UNKNOWN_EXT | _ \<Rightarrow> ty), Some handle)"
    by (cases ty) (simp_all add: debug_utils_ReportObjectToAnnotObject_def debug_utils_AnnotObjectToDebugReportObject_def)
qed

text \<open>A report flagged as an error and also as information has the severity of an information
  message: the error bit of the messenger's severity mask is not set.\<close>

theorem error_report_becomes_information:
  "debug_utils_ReportFlagsToAnnotFlags (VK_DEBUG_REPORT_ERROR_BIT_EXT OR VK_DEBUG_REPORT_INFORMATION_BIT_EXT) spec (Some 0) (Some 0) =
     (True, Some VK_DEBUG_UTILS_MESSAGE_SEVERITY_INFO_BIT_EXT, Some VK_DEBUG_UTILS_MESSAGE_TYPE_GENERAL_BIT_EXT)"
  by (simp add: debug_utils_ReportFlagsToAnnotFlags_def)

end
