(* ===== verification/DriverObjects.thy ===== *)
theory DriverObjects
  imports Allocation "HOL-Library.Multiset"
begin

text \<open>
  The objects of a driver, seen from the calls it receives: a call that creates one (with the result and the handle
  written), one that destroys a handle, one that uses a handle, or a message.  \<open>'k\<close> distinguishes kinds of
  objects.  Replaying the calls gives the handles that are alive, and \<open>None\<close> when a handle was used or destroyed that was not.
  Drivers are numbered by their position in the list of an instance.
\<close>

datatype 'k driver_call =
    CreateCall 'k nat VkResult "nat option"
  | DestroyCall 'k nat nat
  | UseCall 'k nat nat
  | MessageCall nat

fun driver_step :: "'k \<Rightarrow> nat \<Rightarrow> nat multiset option \<Rightarrow> 'k driver_call \<Rightarrow> nat multiset option" where
  "driver_step k j None c = None"
| "driver_step k j (Some M) (CreateCall k' j' res w) =
     (if k' = k \<and> j' = j \<and> res = VK_SUCCESS then (case w of None \<Rightarrow> Some M | Some x \<Rightarrow> Some (add_mset x M)) else Some M)"
| "driver_step k j (Some M) (DestroyCall k' j' x) =
     (if k' = k \<and> j' = j then (if x \<in># M then Some (M - {#x#}) else None) else Some M)"
| "driver_step k j (Some M) (UseCall k' j' x) = (if k' = k \<and> j' = j \<and> x \<notin># M then None else Some M)"
| "driver_step k j (Some M) (MessageCall j') = Some M"

definition driver_objects :: "'k \<Rightarrow> nat \<Rightarrow> 'k driver_call list \<Rightarrow> nat multiset option" where
  "driver_objects k j cs = foldl (driver_step k j) (Some {#}) cs"

lemma driver_objects_simps [simp]:
  "driver_objects k j [] = Some {#}" "driver_objects k j (cs @ [c]) = driver_step k j (driver_objects k j cs) c"
  by (simp_all add: driver_objects_def)

lemma driver_step_other:
  "(k', j') \<noteq> (k, j) \<Longrightarrow> driver_step k j M (CreateCall k' j' res w) = M"
  "(k', j') \<noteq> (k, j) \<Longrightarrow> driver_step k j M (DestroyCall k' j' x) = M"
  "(k', j') \<noteq> (k, j) \<Longrightarrow> driver_step k j M (UseCall k' j' x) = M"
  by (cases M; auto)+

text \<open>Positions in a list of drivers that starts at number \<open>j\<close>.\<close>

lemma nth_shift: "j < i \<Longrightarrow> (x # xs) ! (i - j) = xs ! (i - Suc j)"
  by (simp add: nth_Cons')

end
