(* ===== verification/HandleLists.thy ===== *)
theory HandleLists
  imports GenericList DriverObjects
begin

text \<open>
  The list of handles a driver keeps for the loader's objects, indexed by the index of the used-object table
  (\<^verbatim>\<open>surface_list\<close>, \<^verbatim>\<open>debug_utils_messenger_list\<close>, \<^verbatim>\<open>debug_report_callback_list\<close>): the code that makes room for an index, which the
  terminators of all three share, and when it is enough.  A null handle is 0.
\<close>

definition handle_size :: nat where "handle_size = 8"

definition make_handle_room ::
  "allocator \<Rightarrow> nat \<Rightarrow> nat generic_list \<Rightarrow> heap \<Rightarrow> (VkResult \<times> nat generic_list \<times> heap) option" where
  "make_handle_room a next_index l h =
     (if gl_list l = NULL then Some (loader_init_generic_list a handle_size 0 l h)
      else if gl_capacity l \<le> next_index * handle_size then loader_resize_generic_list a handle_size 0 1 l h
      else Some (VK_SUCCESS, l, h))"

text \<open>The list has a cell for every index in \<open>U\<close>; without an array no index is in use.\<close>

definition covers :: "nat set \<Rightarrow> nat generic_list \<Rightarrow> bool" where
  "covers U l =
     (case gl_list l of
        NULL \<Rightarrow> U = {}
      | Freed \<Rightarrow> False
      | Buf xs \<Rightarrow> gl_capacity l = handle_size * length xs \<and> 32 \<le> length xs \<and> gl_count l = 0 \<and> U \<subseteq> {..<length xs})"

definition cells :: "nat generic_list \<Rightarrow> nat list" where
  "cells l = (case gl_list l of Buf xs \<Rightarrow> xs | _ \<Rightarrow> [])"

lemma covers_Buf:
  "gl_list l = Buf xs \<Longrightarrow> covers U l \<longleftrightarrow>
     gl_capacity l = handle_size * length xs \<and> 32 \<le> length xs \<and> gl_count l = 0 \<and> U \<subseteq> {..<length xs}"
  by (simp add: covers_def)

lemma covers_write:
  assumes "gl_list l = Buf ys" and "covers U l" and "length zs = length ys" and "V \<subseteq> {..<length ys}"
  shows "covers V (l\<lparr>gl_list := Buf zs\<rparr>)"
  using assms by (simp add: covers_def)

text \<open>Making room for the lowest index that is not in use succeeds with a cell for it and every old cell kept, or changes nothing.\<close>

lemma make_handle_room_cases:
  assumes "covers U l" and "{..<idx} \<subseteq> U" and "idx < 2 ^ 31"
  shows "\<exists>res l' h'. make_handle_room a idx l h = Some (res, l', h') \<and>
     (res = VK_SUCCESS \<longrightarrow> (\<exists>n. gl_list l' = Buf (cells l @ replicate n (if cells l = [] then 0 else realloc_fill a 0 1)) \<and>
         covers (insert idx U) l')) \<and>
     (res \<noteq> VK_SUCCESS \<longrightarrow> gl_list l' = gl_list l \<and> covers U l')"
proof (cases "gl_list l")
  case NULL
  with assms have "U = {}" "idx = 0" by (auto simp: covers_def)
  then show ?thesis using NULL init_generic_list_cases [of handle_size h a 0 l]
    by (auto simp: make_handle_room_def handle_size_def covers_def cells_def)
next
  case Freed
  with assms(1) show ?thesis by (simp add: covers_def)
next
  case (Buf xs)
  with assms(1) have xs: "gl_capacity l = handle_size * length xs" "32 \<le> length xs" "gl_count l = 0" "U \<subseteq> {..<length xs}"
    by (auto simp: covers_def)
  have c: "cells l = xs" by (simp add: cells_def Buf)
  show ?thesis
  proof (cases "gl_capacity l \<le> idx * handle_size")
    case False
    with Buf xs c show ?thesis by (auto simp: make_handle_room_def handle_size_def covers_def intro!: exI [of _ 0])
  next
    case True
    with xs have len: "length xs \<le> idx" by (simp add: handle_size_def)
    have "idx \<le> length xs"
    proof (rule ccontr)
      assume "\<not> idx \<le> length xs"
      then have "length xs \<in> U" using assms(2) by auto
      with xs show False by auto
    qed
    with len have idx: "idx = length xs" by simp
    have dbl: "doubled (handle_size * length xs) = handle_size * length xs * 2"
      using idx assms(3) by (intro doubled_room) (simp add: handle_size_def)
    have div2: "handle_size * length xs * 2 div handle_size = length xs * 2" and pos: "0 < handle_size" by (simp_all add: handle_size_def)
    have rsz: "resized f (length xs * 2) xs = xs @ replicate (length xs) f" for f :: nat
      by (simp add: resized_def mult_2_right)
    have r: "loader_resize_generic_list a handle_size 0 1 l h =
        (if succeeds h then Some (VK_SUCCESS, l\<lparr>gl_list := Buf (xs @ replicate (length xs) (realloc_fill a 0 1)),
            gl_capacity := handle_size * length xs * 2\<rparr>, tick h)
         else Some (VK_ERROR_OUT_OF_HOST_MEMORY, l, tick h))"
      using Buf xs(2) pos by (auto simp: loader_resize_generic_list_def xs(1) dbl div2 rsz realloc_fill_def split: option.splits)
    have "covers (insert idx U) (l\<lparr>gl_list := Buf (xs @ replicate (length xs) f), gl_capacity := handle_size * length xs * 2\<rparr>)" for f
      using xs idx by (auto simp: covers_def)
    then show ?thesis using True Buf r assms(1) xs(2) c by (auto simp: make_handle_room_def)
  qed
qed

text \<open>The cells that are in use keep their handles.\<close>

lemma nth_append_covers: "covers U l \<Longrightarrow> i \<in> U \<Longrightarrow> (cells l @ ys) ! i = cells l ! i"
  by (auto simp: covers_def cells_def nth_append split: buf.splits)

section \<open>Releasing an index\<close>

text \<open>How the terminators mark an index as free again; the callbacks of the caller are recorded.\<close>

definition clear_status :: "VkAllocationCallbacks option \<Rightarrow> nat \<Rightarrow> loader_used_object_list \<Rightarrow> loader_used_object_list option" where
  "clear_status pAllocator index l =
     (if gl_list l \<noteq> NULL \<and> gl_capacity l > index * used_object_size then do {
        cell \<leftarrow> buf_read (gl_list l) index;
        cells \<leftarrow> buf_write (gl_list l) index
          (cell\<lparr>uo_status := False,
             uo_allocation_callbacks := (case pAllocator of None \<Rightarrow> uo_allocation_callbacks cell | Some cb \<Rightarrow> cb)\<rparr>);
        Some (l\<lparr>gl_list := cells\<rparr>)
      }
      else Some l)"

lemma clear_status_releases:
  assumes "wf_generic_list used_object_size l"
  shows "\<exists>l'. clear_status pA i l = Some l' \<and> wf_generic_list used_object_size l' \<and> used_slots l' = used_slots l - {i}"
  using assms
  by (cases "gl_list l")
     (auto simp: clear_status_def wf_generic_list_def used_slots_def used_object_size_def nth_list_update)

section \<open>Full tables\<close>

lemma replicate_32: "replicate 32 z = z # replicate 31 z"
  using replicate_Suc [of 31 z] by simp

lemma mark_used_status: "uo_status (mark_used pA)"
  by (simp add: mark_used_def)

lemma first_free_full: "n \<le> m \<Longrightarrow> i + n \<le> 32 \<Longrightarrow> first_free (Buf (replicate 32 (mark_used None))) i n = Some None"
proof (induction n arbitrary: i)
  case (Suc n)
  then have "buf_read (Buf (replicate 32 (mark_used None))) i = Some (mark_used None)" by simp
  with Suc show ?case by (simp add: mark_used_def del: buf_read.simps buf_read_Some)
qed simp

lemma full_reservation:
  fixes a :: allocator
  defines "l \<equiv> \<lparr>gl_capacity = 32 * used_object_size, gl_count = 0, gl_list = Buf (replicate 32 (mark_used None))\<rparr>"
  shows "loader_get_next_available_entry a None l h =
    (if succeeds h then Some (VK_SUCCESS, 32, l\<lparr>gl_list := Buf (replicate 32 (mark_used None) @ mark_used None # replicate 31 zero_object),
        gl_capacity := 64 * used_object_size\<rparr>, tick h)
     else Some (VK_ERROR_OUT_OF_HOST_MEMORY, 0, l, tick h))"
proof -
  have full: "first_free (Buf (replicate 32 (mark_used None))) 0 32 = Some None" by (rule first_free_full [of 32 32]) simp_all
  have upd: "(replicate 32 (mark_used None) @ replicate 32 zero_object)[32 := mark_used None] =
      replicate 32 (mark_used None) @ mark_used None # replicate 31 zero_object"
    by (simp add: list_update_append replicate_32 [of zero_object])
  have "loader_resize_generic_list a used_object_size zero_object junk_object l h =
      (if succeeds h then Some (VK_SUCCESS, l\<lparr>gl_list := Buf (replicate 32 (mark_used None) @ replicate 32 (realloc_fill a zero_object junk_object)),
         gl_capacity := 64 * used_object_size\<rparr>, tick h) else Some (VK_ERROR_OUT_OF_HOST_MEMORY, l, tick h))"
    by (simp add: loader_resize_generic_list_def l_def doubled_def used_object_size_def resized_def realloc_fill_def split: option.split)
  then show ?thesis
    by (simp add: loader_get_next_available_entry_def Let_def l_def used_object_size_def full upd del: list_update_append)
qed

text \<open>The first \<open>n\<close> slots in use.\<close>

definition slots_taken :: "nat \<Rightarrow> loader_used_object_list" where
  "slots_taken n = \<lparr>gl_capacity = 32 * used_object_size, gl_count = 0,
     gl_list = Buf (replicate n (mark_used None) @ replicate (32 - n) zero_object)\<rparr>"

lemma next_reservation:
  assumes "n < 32"
  shows "loader_get_next_available_entry None None (slots_taken n) h = Some (VK_SUCCESS, n, slots_taken (Suc n), h)"
proof -
  let ?xs = "replicate n (mark_used None) @ replicate (32 - n) zero_object"
  have nth: "uo_status (?xs ! k) \<longleftrightarrow> k < n" if "k < 32" for k
    using that by (simp add: nth_append mark_used_def zero_object_def)
  have "first_free (Buf ?xs) 0 32 = Some (Some n)"
  proof -
    from first_free_spec [of 0 32 ?xs] assms nth obtain k where
      k: "first_free (Buf ?xs) 0 32 = Some (Some k)" "k < 32" "\<not> uo_status (?xs ! k)" by auto
    moreover have "\<not> n < k" using first_free_minimal [OF k(1), of n] nth [of n] assms by blast
    ultimately show ?thesis using nth [of k] by simp
  qed
  moreover have "?xs[n := mark_used None] = replicate (Suc n) (mark_used None) @ replicate (32 - Suc n) zero_object"
    using assms by (simp add: list_update_append Suc_diff_Suc [symmetric] replicate_append_same del: Suc_diff_Suc)
  ultimately show ?thesis
    using assms by (simp add: loader_get_next_available_entry_def slots_taken_def used_object_size_def)
qed

end
