(* ===== verification/DebugUtils.thy ===== *)
theory DebugUtils
  imports ExtList DebugConversions HandleLists
begin

text \<open>
  Debug messengers and debug report callbacks (\<^verbatim>\<open>debug_utils.c\<close>, \<^verbatim>\<open>trampoline.c\<close>, \<^verbatim>\<open>vk_loader_layer.h\<close>): the
  linked chain of callback nodes with its two heads, the messages that walk it, and the terminators that create
  and destroy one object per driver under an index of the used-object table.

  Nodes and index blocks live in a store of addresses, with 0 the null pointer; an address is never
  given out twice, so that every access to a freed block shows, as \<open>None\<close>.  A walk along a chain that does not
  end is \<open>None\<close> too.  The two extensions have the same code for their own fields: a field they both
  have is a function of the \<open>dbg_kind\<close>.  Drivers are a parameter: what their creation functions answer, with
  the calls they receive recorded in order.
\<close>

section \<open>State\<close>

record VkDebugReportContent =
  msgCallback :: nat
  pfnMsgCallback :: nat
  msgFlags :: "32 word"

record VkDebugUtilsMessengerContent =
  messenger :: nat
  messageSeverity :: "32 word"
  messageType :: "32 word"
  pfnUserCallback :: nat

text \<open>The union with its tag \<^verbatim>\<open>is_messenger\<close>.\<close>

datatype dbg_content = report VkDebugReportContent | is_messenger VkDebugUtilsMessengerContent

record VkLayerDbgFunctionNode =
  content :: dbg_content
  pUserData :: nat
  pNext :: nat

datatype dbg_kind = Messenger | Report

text \<open>The part of \<^verbatim>\<open>struct loader_icd_term\<close> used here: its lists of handles and its dispatch entries.  The creation
  entry answers by the number of driver calls made so far.\<close>

record dbg_icd_term =
  dbg_list :: "dbg_kind \<Rightarrow> nat generic_list"
  dispatch_Create :: "dbg_kind \<Rightarrow> (nat \<Rightarrow> VkResult \<times> nat option) option"
  dispatch_Destroy :: "dbg_kind \<Rightarrow> bool"
  dispatch_DebugReportMessageEXT :: bool

record dbg_instance =
  nodes :: "nat \<rightharpoonup> VkLayerDbgFunctionNode"
  indices :: "nat \<rightharpoonup> nat"
  next_addr :: nat
  current_dbg_function_head :: nat
  instance_only_dbg_function_head :: nat
  used_list :: "dbg_kind \<Rightarrow> loader_used_object_list"
  dbg_icds :: "dbg_icd_term list"
  calls :: "dbg_kind driver_call list"
  dbg_heap :: heap

section \<open>Blocks\<close>

definition alloc_block :: "dbg_instance \<Rightarrow> nat \<times> dbg_instance" where
  "alloc_block st =
     (if succeeds (dbg_heap st)
      then (next_addr st, st\<lparr>next_addr := next_addr st + 1, dbg_heap := add_live 1 (tick (dbg_heap st))\<rparr>)
      else (0, st\<lparr>dbg_heap := tick (dbg_heap st)\<rparr>))"

definition free_node :: "nat \<Rightarrow> dbg_instance \<Rightarrow> dbg_instance option" where
  "free_node p st =
     (if p = 0 then Some st
      else case nodes st p of
        None \<Rightarrow> None
      | Some _ \<Rightarrow> Some (st\<lparr>nodes := (nodes st)(p := None), dbg_heap := add_live (- 1) (dbg_heap st)\<rparr>))"

definition free_index :: "nat \<Rightarrow> dbg_instance \<Rightarrow> dbg_instance option" where
  "free_index p st =
     (if p = 0 then Some st
      else case indices st p of
        None \<Rightarrow> None
      | Some _ \<Rightarrow> Some (st\<lparr>indices := (indices st)(p := None), dbg_heap := add_live (- 1) (dbg_heap st)\<rparr>))"

section \<open>Callbacks of the instance itself\<close>

record VkDebugUtilsMessengerCreateInfoEXT =
  mi_messageSeverity :: "32 word"
  mi_messageType :: "32 word"
  mi_pfnUserCallback :: nat
  mi_pUserData :: nat

record VkDebugReportCallbackCreateInfoEXT =
  ri_flags :: "32 word"
  ri_pfnCallback :: nat
  ri_pUserData :: nat

definition messenger_content :: "VkDebugUtilsMessengerCreateInfoEXT \<Rightarrow> nat \<Rightarrow> dbg_content" where
  "messenger_content info handle = is_messenger \<lparr>messenger = handle, messageSeverity = mi_messageSeverity info,
     messageType = mi_messageType info, pfnUserCallback = mi_pfnUserCallback info\<rparr>"

definition report_content :: "VkDebugReportCallbackCreateInfoEXT \<Rightarrow> nat \<Rightarrow> dbg_content" where
  "report_content info handle = report \<lparr>msgCallback = handle, pfnMsgCallback = ri_pfnCallback info, msgFlags = ri_flags info\<rparr>"

text \<open>What both creation functions do with the node.\<close>

definition push_instance_only :: "dbg_content \<Rightarrow> nat \<Rightarrow> dbg_instance \<Rightarrow> VkResult \<times> dbg_instance" where
  "push_instance_only c user st =
     (case alloc_block st of (new_dbg_function_node, st1) \<Rightarrow>
        if new_dbg_function_node = 0 then (VK_ERROR_OUT_OF_HOST_MEMORY, st1)
        else (VK_SUCCESS, st1\<lparr>
          nodes := (nodes st1)(new_dbg_function_node \<mapsto>
            \<lparr>content = c, pUserData = user, pNext = instance_only_dbg_function_head st1\<rparr>),
          instance_only_dbg_function_head := new_dbg_function_node,
          current_dbg_function_head := new_dbg_function_node\<rparr>))"

definition util_CreateDebugUtilsMessenger ::
  "VkDebugUtilsMessengerCreateInfoEXT \<Rightarrow> nat \<Rightarrow> dbg_instance \<Rightarrow> VkResult \<times> dbg_instance" where
  "util_CreateDebugUtilsMessenger pCreateInfo handle st =
     push_instance_only (messenger_content pCreateInfo handle) (mi_pUserData pCreateInfo) st"

definition util_CreateDebugReportCallback ::
  "VkDebugReportCallbackCreateInfoEXT \<Rightarrow> nat \<Rightarrow> dbg_instance \<Rightarrow> VkResult \<times> dbg_instance" where
  "util_CreateDebugReportCallback pCreateInfo callback st =
     push_instance_only (report_content pCreateInfo callback) (ri_pUserData pCreateInfo) st"

text \<open>The chain of structures after \<^verbatim>\<open>VkInstanceCreateInfo\<close>, each with its address, which serves as the handle.\<close>

datatype in_structure =
    DEBUG_UTILS_MESSENGER_CREATE_INFO VkDebugUtilsMessengerCreateInfoEXT
  | DEBUG_REPORT_CREATE_INFO VkDebugReportCallbackCreateInfoEXT
  | other_structure

fun util_CreateDebugUtilsMessengers :: "(nat \<times> in_structure) list \<Rightarrow> dbg_instance \<Rightarrow> VkResult \<times> dbg_instance" where
  "util_CreateDebugUtilsMessengers [] st = (VK_SUCCESS, st)"
| "util_CreateDebugUtilsMessengers ((address, s) # chain) st =
     (case s of
        DEBUG_UTILS_MESSENGER_CREATE_INFO info \<Rightarrow>
          (case util_CreateDebugUtilsMessenger info address st of (ret, st') \<Rightarrow>
             if ret \<noteq> VK_SUCCESS then (ret, st') else util_CreateDebugUtilsMessengers chain st')
      | _ \<Rightarrow> util_CreateDebugUtilsMessengers chain st)"

fun util_CreateDebugReportCallbacks :: "(nat \<times> in_structure) list \<Rightarrow> dbg_instance \<Rightarrow> VkResult \<times> dbg_instance" where
  "util_CreateDebugReportCallbacks [] st = (VK_SUCCESS, st)"
| "util_CreateDebugReportCallbacks ((address, s) # chain) st =
     (case s of
        DEBUG_REPORT_CREATE_INFO info \<Rightarrow>
          (case util_CreateDebugReportCallback info address st of (ret, st') \<Rightarrow>
             if ret \<noteq> VK_SUCCESS then (ret, st') else util_CreateDebugReportCallbacks chain st')
      | _ \<Rightarrow> util_CreateDebugReportCallbacks chain st)"

text \<open>Swapping the callbacks of the instance in and out (\<^verbatim>\<open>trampoline.c\<close>).\<close>

partial_function (option) attach_loop :: "nat \<Rightarrow> dbg_instance \<Rightarrow> dbg_instance option" where
  "attach_loop cur_node st =
     (if cur_node = 0 then Some st
      else if cur_node = instance_only_dbg_function_head st then Some st
      else case nodes st cur_node of
        None \<Rightarrow> None
      | Some n \<Rightarrow>
          let st' = (if pNext n = 0
                     then st\<lparr>nodes := (nodes st)(cur_node \<mapsto> n\<lparr>pNext := instance_only_dbg_function_head st\<rparr>)\<rparr> else st)
          in attach_loop (if pNext n = 0 then instance_only_dbg_function_head st else pNext n) st')"

definition loader_add_instance_only_debug_funcs :: "dbg_instance \<Rightarrow> dbg_instance option" where
  "loader_add_instance_only_debug_funcs st =
     (if current_dbg_function_head st = 0
      then Some (st\<lparr>current_dbg_function_head := instance_only_dbg_function_head st\<rparr>)
      else attach_loop (current_dbg_function_head st) st)"

partial_function (option) detach_loop :: "nat \<Rightarrow> dbg_instance \<Rightarrow> dbg_instance option" where
  "detach_loop cur_node st =
     (if cur_node = 0 then Some st
      else case nodes st cur_node of
        None \<Rightarrow> None
      | Some n \<Rightarrow>
          if pNext n = instance_only_dbg_function_head st then Some (st\<lparr>nodes := (nodes st)(cur_node \<mapsto> n\<lparr>pNext := 0\<rparr>)\<rparr>)
          else detach_loop (pNext n) st)"

definition loader_remove_instance_only_debug_funcs :: "dbg_instance \<Rightarrow> dbg_instance option" where
  "loader_remove_instance_only_debug_funcs st =
     (let cur_node = current_dbg_function_head st
      in detach_loop cur_node
           (if cur_node = instance_only_dbg_function_head st then st\<lparr>current_dbg_function_head := 0\<rparr> else st))"

text \<open>Freeing the whole chain.\<close>

partial_function (option) free_chain :: "nat \<Rightarrow> dbg_instance \<Rightarrow> dbg_instance option" where
  "free_chain pTrav st =
     (if pTrav = 0 then Some st
      else case nodes st pTrav of
        None \<Rightarrow> None
      | Some n \<Rightarrow> (case free_node pTrav st of None \<Rightarrow> None | Some st' \<Rightarrow> free_chain (pNext n) st'))"

definition destroy_debug_callbacks_chain :: "dbg_instance \<Rightarrow> dbg_instance option" where
  "destroy_debug_callbacks_chain st = do {
     st' \<leftarrow> free_chain (current_dbg_function_head st) st;
     Some (st'\<lparr>current_dbg_function_head := 0\<rparr>)
   }"

section \<open>Messages\<close>

record VkDebugUtilsMessengerCallbackDataEXT =
  pMessageIdName :: string
  messageIdNumber :: int
  pMessage :: string
  pObjects :: "VkDebugUtilsObjectNameInfoEXT list"

text \<open>A call of the application's function, with its address first and the user data last.\<close>

datatype dbg_call =
    UserCallback nat "32 word" "32 word" VkDebugUtilsMessengerCallbackDataEXT nat
  | MsgCallback nat "32 word" VkDebugReportObjectTypeEXT "64 word" nat int string string nat

text \<open>The loop of both message functions: \<open>deliver\<close> is the call a node gives rise to, \<open>answer\<close> what the
  application returns.\<close>

partial_function (option) message_loop ::
  "(VkLayerDbgFunctionNode \<Rightarrow> dbg_call option) \<Rightarrow> (dbg_call \<Rightarrow> bool) \<Rightarrow> (nat \<rightharpoonup> VkLayerDbgFunctionNode) \<Rightarrow> nat \<Rightarrow> bool \<Rightarrow>
     dbg_call list \<Rightarrow> (bool \<times> dbg_call list) option" where
  "message_loop deliver answer ns pTrav bail made =
     (if pTrav = 0 then Some (bail, made)
      else case ns pTrav of
        None \<Rightarrow> None
      | Some n \<Rightarrow>
          (case deliver n of
             None \<Rightarrow> message_loop deliver answer ns (pNext n) bail made
           | Some c \<Rightarrow> message_loop deliver answer ns (pNext n) (bail \<or> answer c) (made @ [c])))"

definition deliver_message ::
  "32 word \<Rightarrow> 32 word \<Rightarrow> VkDebugUtilsMessengerCallbackDataEXT \<Rightarrow> VkLayerDbgFunctionNode \<Rightarrow> dbg_call option" where
  "deliver_message severity types data n =
     (let (_, flags) = debug_utils_AnnotFlagsToReportFlags severity types (Some 0);
          (ty, handle) = (if 0 < length (pObjects data)
             then snd (debug_utils_AnnotObjectToDebugReportObject (Some (pObjects data ! 0))
                         (Some VK_DEBUG_REPORT_OBJECT_TYPE_UNKNOWN_EXT) (Some 0))
             else (Some VK_DEBUG_REPORT_OBJECT_TYPE_UNKNOWN_EXT, Some 0))
      in case content n of
           is_messenger m \<Rightarrow>
             if messageSeverity m AND severity \<noteq> 0 \<and> messageType m AND types \<noteq> 0
             then Some (UserCallback (pfnUserCallback m) severity types data (pUserData n)) else None
         | report r \<Rightarrow>
             if msgFlags r AND the flags \<noteq> 0
             then Some (MsgCallback (pfnMsgCallback r) (the flags) (the ty) (the handle) 0 (messageIdNumber data)
                          (pMessageIdName data) (pMessage data) (pUserData n)) else None)"

text \<open>\<open>None\<close> for the data is the null pointer.\<close>

definition util_SubmitDebugUtilsMessageEXT ::
  "(dbg_call \<Rightarrow> bool) \<Rightarrow> dbg_instance \<Rightarrow> 32 word \<Rightarrow> 32 word \<Rightarrow> VkDebugUtilsMessengerCallbackDataEXT option \<Rightarrow>
     (bool \<times> dbg_call list) option" where
  "util_SubmitDebugUtilsMessageEXT answer st severity types pCallbackData =
     (case pCallbackData of
        None \<Rightarrow> Some (False, [])
      | Some data \<Rightarrow>
          message_loop (deliver_message severity types data) answer (nodes st) (current_dbg_function_head st) False [])"

definition deliver_report ::
  "32 word \<Rightarrow> VkDebugReportObjectTypeEXT \<Rightarrow> 64 word \<Rightarrow> nat \<Rightarrow> int \<Rightarrow> string \<Rightarrow> string \<Rightarrow> VkLayerDbgFunctionNode \<Rightarrow> dbg_call option" where
  "deliver_report flags objectTy srcObject location msgCode pLayerPrefix pMsg n =
     (let (_, severity, types) = debug_utils_ReportFlagsToAnnotFlags flags False (Some 0) (Some 0);
          (_, object_name) = debug_utils_ReportObjectToAnnotObject objectTy srcObject
                               (Some \<lparr>objectType = VK_OBJECT_TYPE_UNKNOWN, objectHandle = 0\<rparr>);
          callback_data = \<lparr>pMessageIdName = pLayerPrefix, messageIdNumber = msgCode, pMessage = pMsg, pObjects = [the object_name]\<rparr>
      in case content n of
           report r \<Rightarrow>
             if msgFlags r AND flags \<noteq> 0
             then Some (MsgCallback (pfnMsgCallback r) flags objectTy srcObject location msgCode pLayerPrefix pMsg (pUserData n)) else None
         | is_messenger m \<Rightarrow>
             if messageSeverity m AND the severity \<noteq> 0 \<and> messageType m AND the types \<noteq> 0
             then Some (UserCallback (pfnUserCallback m) (the severity) (the types) callback_data (pUserData n)) else None)"

definition util_DebugReportMessage ::
  "(dbg_call \<Rightarrow> bool) \<Rightarrow> dbg_instance \<Rightarrow> 32 word \<Rightarrow> VkDebugReportObjectTypeEXT \<Rightarrow> 64 word \<Rightarrow> nat \<Rightarrow> int \<Rightarrow> string \<Rightarrow> string \<Rightarrow>
     (bool \<times> dbg_call list) option" where
  "util_DebugReportMessage answer st flags objectTy srcObject location msgCode pLayerPrefix pMsg =
     message_loop (deliver_report flags objectTy srcObject location msgCode pLayerPrefix pMsg) answer
       (nodes st) (current_dbg_function_head st) False []"

section \<open>Removing a callback\<close>

fun node_key :: "dbg_content \<Rightarrow> dbg_kind \<times> nat" where
  "node_key (is_messenger m) = (Messenger, messenger m)"
| "node_key (report r) = (Report, msgCallback r)"

partial_function (option) unlink_loop :: "dbg_kind \<times> nat \<Rightarrow> nat \<Rightarrow> nat \<Rightarrow> dbg_instance \<Rightarrow> dbg_instance option" where
  "unlink_loop key pPrev pTrav st =
     (if pTrav = 0 then Some st
      else case nodes st pTrav of
        None \<Rightarrow> None
      | Some n \<Rightarrow>
          if node_key (content n) = key then
            (case nodes st pPrev of
               None \<Rightarrow> None
             | Some prev \<Rightarrow>
                 free_node pTrav (st\<lparr>
                   nodes := (nodes st)(pPrev \<mapsto> prev\<lparr>pNext := pNext n\<rparr>),
                   current_dbg_function_head :=
                     (if current_dbg_function_head st = pTrav then pNext n else current_dbg_function_head st),
                   instance_only_dbg_function_head :=
                     (if instance_only_dbg_function_head st = pTrav then pNext n else instance_only_dbg_function_head st)\<rparr>))
          else unlink_loop key pTrav (pNext n) st)"

definition util_DestroyDebugUtilsMessenger :: "dbg_instance \<Rightarrow> nat \<Rightarrow> dbg_instance option" where
  "util_DestroyDebugUtilsMessenger st handle =
     unlink_loop (Messenger, handle) (current_dbg_function_head st) (current_dbg_function_head st) st"

definition util_DestroyDebugReportCallback :: "dbg_instance \<Rightarrow> nat \<Rightarrow> dbg_instance option" where
  "util_DestroyDebugReportCallback st callback =
     unlink_loop (Report, callback) (current_dbg_function_head st) (current_dbg_function_head st) st"

section \<open>Terminators\<close>

text \<open>The loop over the drivers in the creation terminators, from driver number \<open>j\<close> on: make room for the index, call the driver's
  creation function with the address of the cell.\<close>

fun create_in_drivers ::
  "allocator \<Rightarrow> dbg_kind \<Rightarrow> nat \<Rightarrow> nat \<Rightarrow> dbg_icd_term list \<Rightarrow> dbg_kind driver_call list \<Rightarrow> heap \<Rightarrow>
     (VkResult \<times> dbg_icd_term list \<times> dbg_kind driver_call list \<times> heap) option" where
  "create_in_drivers a k next_index j [] cs h = Some (VK_SUCCESS, [], cs, h)"
| "create_in_drivers a k next_index j (icd_term # rest) cs h = do {
     (res, l, h) \<leftarrow> make_handle_room a next_index (dbg_list icd_term k) h;
     let icd_term = icd_term\<lparr>dbg_list := (dbg_list icd_term)(k := l)\<rparr>;
     (if res \<noteq> VK_SUCCESS then Some (res, icd_term # rest, cs, h)
      else case dispatch_Create icd_term k of
        None \<Rightarrow> do {
          (res, rest, cs, h) \<leftarrow> create_in_drivers a k next_index (j + 1) rest cs h;
          Some (res, icd_term # rest, cs, h)
        }
      | Some create \<Rightarrow>
          (case create (length cs) of (res, written) \<Rightarrow> do {
             cells \<leftarrow> (case written of None \<Rightarrow> Some (gl_list l) | Some w \<Rightarrow> buf_write (gl_list l) next_index w);
             let icd_term = icd_term\<lparr>dbg_list := (dbg_list icd_term)(k := l\<lparr>gl_list := cells\<rparr>)\<rparr>;
             let cs = cs @ [CreateCall k j res written];
             (if res \<noteq> VK_SUCCESS then Some (res, icd_term # rest, cs, h)
              else do {
                (res, rest, cs, h) \<leftarrow> create_in_drivers a k next_index (j + 1) rest cs h;
                Some (res, icd_term # rest, cs, h)
              })
           }))
   }"

text \<open>The loop that destroys the drivers' objects, in the roll back and in the destruction terminators.\<close>

fun destroy_in_drivers :: "dbg_kind \<Rightarrow> nat \<Rightarrow> nat \<Rightarrow> dbg_icd_term list \<Rightarrow> dbg_kind driver_call list option" where
  "destroy_in_drivers k index j [] = Some []"
| "destroy_in_drivers k index j (icd_term # rest) = do {
     here \<leftarrow> (if gl_list (dbg_list icd_term k) = NULL then Some []
              else do {
                handle \<leftarrow> buf_read (gl_list (dbg_list icd_term k)) index;
                Some (if handle \<noteq> 0 \<and> dispatch_Destroy icd_term k then [DestroyCall k j handle] else [])
              });
     later \<leftarrow> destroy_in_drivers k index (j + 1) rest;
     Some (here @ later)
   }"

definition roll_back ::
  "dbg_kind \<Rightarrow> VkAllocationCallbacks option \<Rightarrow> nat \<Rightarrow> nat \<Rightarrow> bool \<Rightarrow> dbg_instance \<Rightarrow> dbg_instance option" where
  "roll_back k pAllocator pNextIndex next_index index_reserved st = do {
     cs \<leftarrow> (if pNextIndex \<noteq> 0 then destroy_in_drivers k next_index 0 (dbg_icds st) else Some []);
     l \<leftarrow> (if index_reserved then clear_status pAllocator next_index (used_list st k) else Some (used_list st k));
     free_index pNextIndex (st\<lparr>calls := calls st @ cs, used_list := (used_list st)(k := l)\<rparr>)
   }"

text \<open>The creation terminators; \<open>c\<close> is the content of the node for a handle.  The result is the code and the handle written.\<close>

definition terminator_create ::
  "dbg_kind \<Rightarrow> (nat \<Rightarrow> dbg_content) \<Rightarrow> nat \<Rightarrow> allocator \<Rightarrow> VkAllocationCallbacks option \<Rightarrow> dbg_instance \<Rightarrow>
     (VkResult \<times> nat option \<times> dbg_instance) option" where
  "terminator_create k c user a pAllocator st =
     (case alloc_block st of (pNextIndex, st) \<Rightarrow>
        if pNextIndex = 0 then
          map_option (\<lambda>st. (VK_ERROR_OUT_OF_HOST_MEMORY, None, st)) (roll_back k pAllocator 0 0 False st)
        else do {
          let st = st\<lparr>indices := (indices st)(pNextIndex \<mapsto> 0)\<rparr>;
          (res, next_index, l, h) \<leftarrow> loader_get_next_available_entry a pAllocator (used_list st k) (dbg_heap st);
          let st = st\<lparr>used_list := (used_list st)(k := l), dbg_heap := h\<rparr>;
          (if res \<noteq> VK_SUCCESS then
             map_option (\<lambda>st. (res, None, st)) (roll_back k pAllocator pNextIndex next_index False st)
           else do {
             (res, icds, cs, h) \<leftarrow> create_in_drivers a k next_index 0 (dbg_icds st) (calls st) (dbg_heap st);
             let st = st\<lparr>dbg_icds := icds, calls := cs, dbg_heap := h\<rparr>;
             (if res \<noteq> VK_SUCCESS then
                map_option (\<lambda>st. (res, None, st)) (roll_back k pAllocator pNextIndex next_index True st)
              else (case alloc_block st of (new_dbg_func_node, st) \<Rightarrow>
                if new_dbg_func_node = 0 then
                  map_option (\<lambda>st. (VK_ERROR_OUT_OF_HOST_MEMORY, None, st))
                    (roll_back k pAllocator pNextIndex next_index True st)
                else Some (VK_SUCCESS, Some pNextIndex, st\<lparr>
                  nodes := (nodes st)(new_dbg_func_node \<mapsto>
                    \<lparr>content = c pNextIndex, pUserData = user, pNext = current_dbg_function_head st\<rparr>),
                  current_dbg_function_head := new_dbg_func_node,
                  indices := (indices st)(pNextIndex \<mapsto> next_index)\<rparr>)))
           })
        })"

definition terminator_CreateDebugUtilsMessengerEXT ::
  "allocator \<Rightarrow> VkDebugUtilsMessengerCreateInfoEXT \<Rightarrow> VkAllocationCallbacks option \<Rightarrow> dbg_instance \<Rightarrow>
     (VkResult \<times> nat option \<times> dbg_instance) option" where
  "terminator_CreateDebugUtilsMessengerEXT a pCreateInfo pAllocator st =
     terminator_create Messenger (messenger_content pCreateInfo) (mi_pUserData pCreateInfo) a pAllocator st"

definition terminator_CreateDebugReportCallbackEXT ::
  "allocator \<Rightarrow> VkDebugReportCallbackCreateInfoEXT \<Rightarrow> VkAllocationCallbacks option \<Rightarrow> dbg_instance \<Rightarrow>
     (VkResult \<times> nat option \<times> dbg_instance) option" where
  "terminator_CreateDebugReportCallbackEXT a pCreateInfo pAllocator st =
     terminator_create Report (report_content pCreateInfo) (ri_pUserData pCreateInfo) a pAllocator st"

definition terminator_destroy ::
  "dbg_kind \<Rightarrow> (dbg_instance \<Rightarrow> nat \<Rightarrow> dbg_instance option) \<Rightarrow> nat \<Rightarrow> VkAllocationCallbacks option \<Rightarrow> dbg_instance \<Rightarrow> dbg_instance option" where
  "terminator_destroy k util_destroy handle pAllocator st =
     (if handle = 0 then Some st
      else do {
        index \<leftarrow> indices st handle;
        cs \<leftarrow> destroy_in_drivers k index 0 (dbg_icds st);
        st \<leftarrow> util_destroy (st\<lparr>calls := calls st @ cs\<rparr>) handle;
        l \<leftarrow> clear_status pAllocator index (used_list st k);
        free_index handle (st\<lparr>used_list := (used_list st)(k := l)\<rparr>)
      })"

definition terminator_DestroyDebugUtilsMessengerEXT ::
  "nat \<Rightarrow> VkAllocationCallbacks option \<Rightarrow> dbg_instance \<Rightarrow> dbg_instance option" where
  "terminator_DestroyDebugUtilsMessengerEXT = terminator_destroy Messenger util_DestroyDebugUtilsMessenger"

definition terminator_DestroyDebugReportCallbackEXT ::
  "nat \<Rightarrow> VkAllocationCallbacks option \<Rightarrow> dbg_instance \<Rightarrow> dbg_instance option" where
  "terminator_DestroyDebugReportCallbackEXT = terminator_destroy Report util_DestroyDebugReportCallback"

definition terminator_SubmitDebugUtilsMessageEXT ::
  "(dbg_call \<Rightarrow> bool) \<Rightarrow> dbg_instance \<Rightarrow> 32 word \<Rightarrow> 32 word \<Rightarrow> VkDebugUtilsMessengerCallbackDataEXT option \<Rightarrow>
     dbg_call list option" where
  "terminator_SubmitDebugUtilsMessageEXT answer st severity types pCallbackData =
     map_option snd (util_SubmitDebugUtilsMessageEXT answer st severity types pCallbackData)"

text \<open>Every driver that has the entry sees a report first, then the callbacks.\<close>

definition terminator_DebugReportMessageEXT ::
  "(dbg_call \<Rightarrow> bool) \<Rightarrow> dbg_instance \<Rightarrow> 32 word \<Rightarrow> VkDebugReportObjectTypeEXT \<Rightarrow> 64 word \<Rightarrow> nat \<Rightarrow> int \<Rightarrow> string \<Rightarrow> string \<Rightarrow>
     (dbg_instance \<times> dbg_call list) option" where
  "terminator_DebugReportMessageEXT answer st flags objType obj location msgCode pLayerPrefix pMsg =
     (let st' = st\<lparr>calls := calls st @ map (\<lambda>(j, d). MessageCall j)
                    (filter (\<lambda>(j, d). dispatch_DebugReportMessageEXT d) (enumerate 0 (dbg_icds st)))\<rparr>
      in map_option (\<lambda>(bail, made). (st', made))
           (util_DebugReportMessage answer st' flags objType obj location msgCode pLayerPrefix pMsg))"

section \<open>The extensions of the loader\<close>

definition debug_utils_extension_info :: "VkExtensionProperties list" where
  "debug_utils_extension_info =
     [\<lparr>extensionName = ''VK_EXT_debug_report'', specVersion = 10\<rparr>,
      \<lparr>extensionName = ''VK_EXT_debug_utils'', specVersion = 2\<rparr>]"

definition add_debug_extensions_to_ext_list ::
  "allocator \<Rightarrow> loader_extension_list \<Rightarrow> heap \<Rightarrow> (VkResult \<times> loader_extension_list \<times> heap) option" where
  "add_debug_extensions_to_ext_list a ext_list h = loader_add_to_ext_list a ext_list debug_utils_extension_info h"

datatype debug_entry =
    debug_utils_CreateDebugReportCallbackEXT | debug_utils_DestroyDebugReportCallbackEXT | debug_utils_DebugReportMessageEXT
  | debug_utils_CreateDebugUtilsMessengerEXT | debug_utils_DestroyDebugUtilsMessengerEXT | debug_utils_SubmitDebugUtilsMessageEXT

text \<open>The result of \<^verbatim>\<open>debug_extensions_InstanceGpa\<close>: whether the name is handled, and the address.\<close>

definition debug_extensions_InstanceGpa :: "bool \<Rightarrow> bool \<Rightarrow> string \<Rightarrow> bool \<times> debug_entry option" where
  "debug_extensions_InstanceGpa ext_debug_report ext_debug_utils name =
     (if name = ''vkCreateDebugReportCallbackEXT'' then
        (True, if ext_debug_report then Some debug_utils_CreateDebugReportCallbackEXT else None)
      else if name = ''vkDestroyDebugReportCallbackEXT'' then
        (True, if ext_debug_report then Some debug_utils_DestroyDebugReportCallbackEXT else None)
      else if name = ''vkDebugReportMessageEXT'' then
        (True, if ext_debug_report then Some debug_utils_DebugReportMessageEXT else None)
      else if name = ''vkCreateDebugUtilsMessengerEXT'' then
        (True, if ext_debug_utils then Some debug_utils_CreateDebugUtilsMessengerEXT else None)
      else if name = ''vkDestroyDebugUtilsMessengerEXT'' then
        (True, if ext_debug_utils then Some debug_utils_DestroyDebugUtilsMessengerEXT else None)
      else if name = ''vkSubmitDebugUtilsMessageEXT'' then
        (True, if ext_debug_utils then Some debug_utils_SubmitDebugUtilsMessageEXT else None)
      else (False, None))"

section \<open>Chains\<close>

text \<open>The nodes \<open>ps\<close> lead from pointer \<open>p\<close> to pointer \<open>q\<close>.\<close>

fun dbg_path :: "(nat \<rightharpoonup> VkLayerDbgFunctionNode) \<Rightarrow> nat \<Rightarrow> nat list \<Rightarrow> nat \<Rightarrow> bool" where
  "dbg_path ns p [] q = (p = q)"
| "dbg_path ns p (a # ps) q = (p = a \<and> a \<noteq> 0 \<and> (\<exists>n. ns a = Some n \<and> dbg_path ns (pNext n) ps q))"

text \<open>Which node follows is all that matters of a node in a path.\<close>

lemma dbg_path_cong:
  assumes "\<And>a. a \<in> set ps \<Longrightarrow> map_option pNext (ns' a) = map_option pNext (ns a)"
  shows "dbg_path ns' p ps q = dbg_path ns p ps q"
  using assms
proof (induction ps arbitrary: p)
  case (Cons a ps)
  then have "map_option pNext (ns' a) = map_option pNext (ns a)" by simp
  with Cons show ?case by (cases "ns a"; cases "ns' a") auto
qed simp

lemma dbg_path_upd [simp]: "a \<notin> set ps \<Longrightarrow> dbg_path (ns(a := x)) p ps q = dbg_path ns p ps q"
  by (rule dbg_path_cong) auto

lemma dbg_path_append: "dbg_path ns p (ps @ qs) r = (\<exists>q. dbg_path ns p ps q \<and> dbg_path ns q qs r)"
  by (induction ps arbitrary: p) auto

lemma dbg_path_dom: "dbg_path ns p ps q \<Longrightarrow> set ps \<subseteq> dom ns \<and> 0 \<notin> set ps"
  by (induction ps arbitrary: p) auto

text \<open>The last link of a path can be redirected.\<close>

lemma dbg_path_redirect:
  assumes "dbg_path ns p (ps @ [a]) q" and "ns a = Some n" and "distinct (ps @ [a])"
  shows "dbg_path (ns(a \<mapsto> n\<lparr>pNext := r\<rparr>)) p (ps @ [a]) r"
  using assms by (auto simp: dbg_path_append)

section \<open>The loops on chains\<close>

lemma message_loop_path:
  assumes "dbg_path ns p ps 0"
  shows "message_loop deliver answer ns p bail made =
    (let cs = List.map_filter (\<lambda>a. deliver (the (ns a))) ps in Some (bail \<or> list_ex answer cs, made @ cs))"
  using assms
proof (induction ps arbitrary: p bail made)
  case Nil
  then show ?case by (simp add: message_loop.simps List.map_filter_def)
next
  case (Cons a ps)
  then show ?case
    by (subst message_loop.simps) (auto simp: List.map_filter_def Let_def split: option.splits)
qed

lemma free_chain_path:
  assumes "dbg_path (nodes st) p ps 0" and "distinct ps"
  shows "\<exists>h. free_chain p st = Some (st\<lparr>nodes := (nodes st) |` (- set ps), dbg_heap := h\<rparr>) \<and>
           live h = live (dbg_heap st) - int (length ps)"
  using assms
proof (induction ps arbitrary: p st)
  case Nil
  then show ?case by (subst free_chain.simps) (auto simp: restrict_map_def intro!: exI [of _ "dbg_heap st"])
next
  case (Cons a ps)
  then obtain n where a: "p = a" "a \<noteq> 0" "nodes st a = Some n" and path: "dbg_path (nodes st) (pNext n) ps 0"
    and d: "a \<notin> set ps" "distinct ps" by auto
  let ?st = "st\<lparr>nodes := (nodes st)(a := None), dbg_heap := add_live (- 1) (dbg_heap st)\<rparr>"
  from d path have "dbg_path (nodes ?st) (pNext n) ps 0" by simp
  from Cons.IH [OF this d(2)] obtain h where
    h: "free_chain (pNext n) ?st = Some (?st\<lparr>nodes := (nodes ?st) |` (- set ps), dbg_heap := h\<rparr>)"
    "live h = live (dbg_heap ?st) - int (length ps)" by blast
  have "(nodes st)(a := None) |` (- set ps) = (nodes st) |` (- set (a # ps))"
    by (auto simp: restrict_map_def fun_eq_iff)
  with h a show ?case by (subst free_chain.simps) (auto simp: free_node_def intro!: exI [of _ h])
qed

lemma attach_loop_path:
  assumes "dbg_path (nodes st) p (ps @ [a]) 0" and "distinct (ps @ [a])" and "nodes st a = Some n"
    and "instance_only_dbg_function_head st \<notin> set (ps @ [a])"
  shows "attach_loop p st = Some (st\<lparr>nodes := (nodes st)(a \<mapsto> n\<lparr>pNext := instance_only_dbg_function_head st\<rparr>)\<rparr>)"
  using assms
proof (induction ps arbitrary: p)
  case Nil
  have stop: "attach_loop (instance_only_dbg_function_head st') st' = Some st'" for st' :: dbg_instance
    by (subst attach_loop.simps) simp
  let ?st = "st\<lparr>nodes := (nodes st)(a \<mapsto> n\<lparr>pNext := instance_only_dbg_function_head st\<rparr>)\<rparr>"
  from Nil have "attach_loop p st = attach_loop (instance_only_dbg_function_head st) ?st"
    by (subst attach_loop.simps) auto
  also have "\<dots> = Some ?st" using stop [of ?st] by simp
  finally show ?case .
next
  case (Cons b ps)
  then obtain m where b: "p = b" "b \<noteq> 0" "nodes st b = Some m" and path: "dbg_path (nodes st) (pNext m) (ps @ [a]) 0" by auto
  have "pNext m \<noteq> 0" using path by (cases ps) auto
  then have "attach_loop p st = attach_loop (pNext m) st"
    using b Cons.prems(4) by (subst attach_loop.simps) (auto simp: Let_def)
  with Cons.IH [OF path] Cons.prems show ?case by simp
qed

lemma detach_loop_path:
  assumes "dbg_path (nodes st) p (ps @ [a]) (instance_only_dbg_function_head st)" and "distinct (ps @ [a])"
    and "nodes st a = Some n" and "instance_only_dbg_function_head st \<notin> set (ps @ [a])"
  shows "detach_loop p st = Some (st\<lparr>nodes := (nodes st)(a \<mapsto> n\<lparr>pNext := 0\<rparr>)\<rparr>)"
  using assms
proof (induction ps arbitrary: p)
  case Nil
  then show ?case by (subst detach_loop.simps) auto
next
  case (Cons b ps)
  then obtain m where b: "p = b" "b \<noteq> 0" "nodes st b = Some m"
    and path: "dbg_path (nodes st) (pNext m) (ps @ [a]) (instance_only_dbg_function_head st)" by auto
  have "pNext m \<noteq> instance_only_dbg_function_head st" using path Cons.prems(4) by (cases ps) auto
  then have "detach_loop p st = detach_loop (pNext m) st"
    using b by (subst detach_loop.simps) simp
  with Cons.IH [OF path] Cons.prems show ?case by simp
qed

text \<open>A chain that never leads to the head searched for ends the loop without a change.\<close>

lemma detach_loop_none:
  assumes "dbg_path (nodes st) p ps 0" and "instance_only_dbg_function_head st \<noteq> 0"
    and "instance_only_dbg_function_head st \<notin> set (tl ps)"
  shows "detach_loop p st = Some st"
  using assms
proof (induction ps arbitrary: p)
  case Nil
  then show ?case by (subst detach_loop.simps) simp
next
  case (Cons b ps)
  then obtain m where b: "p = b" "b \<noteq> 0" "nodes st b = Some m" and path: "dbg_path (nodes st) (pNext m) ps 0" by auto
  have "pNext m \<noteq> instance_only_dbg_function_head st" using path Cons.prems by (cases ps) auto
  moreover have "instance_only_dbg_function_head st \<notin> set (tl ps)" using Cons.prems(3) by (cases ps) auto
  ultimately show ?case using b Cons.IH [OF path Cons.prems(2)] by (subst detach_loop.simps) simp
qed

lemma unlink_loop_found:
  assumes "dbg_path (nodes st) p (ps @ a # qs) r" and "nodes st a = Some n" and "node_key (content n) = key"
    and "\<forall>b\<in>set ps. node_key (content (the (nodes st b))) \<noteq> key" and "nodes st (last (pPrev # ps)) = Some prev"
  shows "unlink_loop key pPrev p st = free_node a (st\<lparr>
     nodes := (nodes st)(last (pPrev # ps) \<mapsto> prev\<lparr>pNext := pNext n\<rparr>),
     current_dbg_function_head := (if current_dbg_function_head st = a then pNext n else current_dbg_function_head st),
     instance_only_dbg_function_head :=
       (if instance_only_dbg_function_head st = a then pNext n else instance_only_dbg_function_head st)\<rparr>)"
  using assms
proof (induction ps arbitrary: p pPrev)
  case Nil
  then show ?case by (subst unlink_loop.simps) auto
next
  case (Cons b ps)
  then obtain m where b: "p = b" "b \<noteq> 0" "nodes st b = Some m" and path: "dbg_path (nodes st) (pNext m) (ps @ a # qs) r" by auto
  from b Cons.prems(4) have "unlink_loop key pPrev p st = unlink_loop key b (pNext m) st"
    by (subst unlink_loop.simps) auto
  with Cons.IH [OF path Cons.prems(2,3), of b] Cons.prems(4,5) show ?case by simp
qed

lemma unlink_loop_absent:
  assumes "dbg_path (nodes st) p ps 0" and "\<forall>b\<in>set ps. node_key (content (the (nodes st b))) \<noteq> key"
  shows "unlink_loop key pPrev p st = Some st"
  using assms
proof (induction ps arbitrary: p pPrev)
  case Nil
  then show ?case by (subst unlink_loop.simps) simp
next
  case (Cons b ps)
  then show ?case by (subst unlink_loop.simps) auto
qed

section \<open>The two chains of an instance\<close>

text \<open>
  \<open>xs\<close> are the nodes of the application's and the layers' callbacks, \<open>ys\<close> those made at instance creation, which
  are attached behind \<open>xs\<close> or not.  No other node is allocated.
\<close>

definition chains :: "bool \<Rightarrow> nat list \<Rightarrow> nat list \<Rightarrow> dbg_instance \<Rightarrow> bool" where
  "chains attached xs ys st \<longleftrightarrow>
     dbg_path (nodes st) (current_dbg_function_head st) xs (if attached then instance_only_dbg_function_head st else 0) \<and>
     dbg_path (nodes st) (instance_only_dbg_function_head st) ys 0 \<and>
     distinct (xs @ ys) \<and> dom (nodes st) = set (xs @ ys) \<and>
     (\<forall>a \<in> dom (nodes st) \<union> dom (indices st). a < next_addr st) \<and> 0 < next_addr st"

lemma chains_path: "chains attached xs ys st \<Longrightarrow>
   dbg_path (nodes st) (current_dbg_function_head st) (xs @ (if attached then ys else [])) 0"
  by (auto simp: chains_def dbg_path_append)

lemma instance_only_head_not_in: "chains attached xs ys st \<Longrightarrow> instance_only_dbg_function_head st \<notin> set xs"
  by (cases ys) (auto simp: chains_def dest: dbg_path_dom)

lemma chains_fresh:
  assumes "chains attached xs ys st"
  shows "next_addr st \<notin> set xs \<union> set ys" "nodes st (next_addr st) = None" "indices st (next_addr st) = None" "next_addr st \<noteq> 0"
  using assms unfolding chains_def by (force simp: dom_def)+

lemma chains_node: "chains attached xs ys st \<Longrightarrow> a \<in> set xs \<union> set ys \<Longrightarrow> \<exists>n. nodes st a = Some n"
  unfolding chains_def by (metis domD set_append)

lemma chains_push_instance_only:
  assumes "chains True [] ys st"
  shows "(\<exists>st'. push_instance_only c user st = (VK_ERROR_OUT_OF_HOST_MEMORY, st') \<and> chains True [] ys st' \<and> nodes st' = nodes st) \<or>
         (\<exists>st' p n. push_instance_only c user st = (VK_SUCCESS, st') \<and> chains True [] (p # ys) st' \<and> nodes st p = None \<and>
            nodes st' = (nodes st)(p \<mapsto> n) \<and> content n = c \<and> pUserData n = user)"
  using assms chains_fresh [OF assms]
  by (cases "succeeds (dbg_heap st)")
     (auto simp: push_instance_only_def alloc_block_def chains_def less_Suc_eq)

lemma chains_attach:
  assumes "chains False xs ys st"
  shows "\<exists>st'. loader_add_instance_only_debug_funcs st = Some st' \<and> chains True xs ys st' \<and>
           (\<forall>a. map_option content (nodes st' a) = map_option content (nodes st a)) \<and>
           st' = st\<lparr>nodes := nodes st', current_dbg_function_head := current_dbg_function_head st'\<rparr>"
proof (cases xs rule: rev_exhaust)
  case Nil
  with assms show ?thesis by (auto simp: loader_add_instance_only_debug_funcs_def chains_def)
next
  case (snoc ps a)
  then obtain n where n: "nodes st a = Some n" using chains_node [OF assms, of a] by auto
  from assms snoc have path: "dbg_path (nodes st) (current_dbg_function_head st) (ps @ [a]) 0" and d: "distinct (ps @ [a])"
    and io: "dbg_path (nodes st) (instance_only_dbg_function_head st) ys 0" and a: "a \<notin> set ys"
    by (auto simp: chains_def)
  have head: "current_dbg_function_head st \<noteq> 0" using path by (cases ps) auto
  let ?st = "st\<lparr>nodes := (nodes st)(a \<mapsto> n\<lparr>pNext := instance_only_dbg_function_head st\<rparr>)\<rparr>"
  have "loader_add_instance_only_debug_funcs st = Some ?st"
    using attach_loop_path [OF path d n] instance_only_head_not_in [OF assms] head snoc
    by (simp add: loader_add_instance_only_debug_funcs_def)
  moreover have "chains True xs ys ?st"
    using assms snoc a io n dbg_path_redirect [OF path n d] by (auto simp: chains_def)
  ultimately show ?thesis using n by auto
qed

lemma chains_detach:
  assumes "chains True xs ys st"
  shows "\<exists>st'. loader_remove_instance_only_debug_funcs st = Some st' \<and> chains False xs ys st' \<and>
           (\<forall>a. map_option content (nodes st' a) = map_option content (nodes st a)) \<and>
           st' = st\<lparr>nodes := nodes st', current_dbg_function_head := current_dbg_function_head st'\<rparr>"
proof (cases xs rule: rev_exhaust)
  case Nil
  let ?st = "st\<lparr>current_dbg_function_head := 0\<rparr>"
  from assms Nil have c: "current_dbg_function_head st = instance_only_dbg_function_head st"
    and io: "dbg_path (nodes ?st) (instance_only_dbg_function_head ?st) ys 0" and d: "distinct ys" by (auto simp: chains_def)
  have "detach_loop (current_dbg_function_head st) ?st = Some ?st"
  proof (cases "instance_only_dbg_function_head st = 0")
    case True
    then show ?thesis by (subst detach_loop.simps) (simp add: c)
  next
    case False
    with io d have "instance_only_dbg_function_head ?st \<notin> set (tl ys)" by (cases ys) auto
    with detach_loop_none [OF io] False c show ?thesis by simp
  qed
  moreover have "chains False xs ys ?st" using assms Nil io by (auto simp: chains_def)
  ultimately show ?thesis using c by (auto simp: loader_remove_instance_only_debug_funcs_def Let_def)
next
  case (snoc ps a)
  then obtain n where n: "nodes st a = Some n" using chains_node [OF assms, of a] by auto
  from assms snoc have path: "dbg_path (nodes st) (current_dbg_function_head st) (ps @ [a]) (instance_only_dbg_function_head st)"
    and d: "distinct (ps @ [a])" and io: "dbg_path (nodes st) (instance_only_dbg_function_head st) ys 0" and a: "a \<notin> set ys"
    by (auto simp: chains_def)
  note notin = instance_only_head_not_in [OF assms, unfolded snoc]
  have head: "current_dbg_function_head st \<noteq> instance_only_dbg_function_head st" using path notin by (cases ps) auto
  let ?st = "st\<lparr>nodes := (nodes st)(a \<mapsto> n\<lparr>pNext := 0\<rparr>)\<rparr>"
  have "loader_remove_instance_only_debug_funcs st = Some ?st"
    using detach_loop_path [OF path d n notin] head by (simp add: loader_remove_instance_only_debug_funcs_def Let_def)
  moreover have "chains False xs ys ?st"
    using assms snoc a io n dbg_path_redirect [OF path n d] by (auto simp: chains_def)
  ultimately show ?thesis using n by auto
qed

lemma chains_destroy_chain:
  assumes "chains attached xs ys st"
  shows "\<exists>h. destroy_debug_callbacks_chain st =
           Some (st\<lparr>nodes := (nodes st) |` (- set (xs @ (if attached then ys else []))), current_dbg_function_head := 0, dbg_heap := h\<rparr>) \<and>
         live h = live (dbg_heap st) - int (length (xs @ (if attached then ys else [])))"
proof -
  have "distinct (xs @ (if attached then ys else []))" using assms by (simp add: chains_def)
  from free_chain_path [OF chains_path [OF assms] this] obtain h where
    "free_chain (current_dbg_function_head st) st = Some (st\<lparr>nodes := (nodes st) |` (- set (xs @ (if attached then ys else []))), dbg_heap := h\<rparr>)"
    "live h = live (dbg_heap st) - int (length (xs @ (if attached then ys else [])))" by blast
  then show ?thesis by (intro exI [of _ h]) (simp add: destroy_debug_callbacks_chain_def)
qed

lemma chains_destroy_detached:
  assumes "chains False xs ys st"
  shows "\<exists>st'. destroy_debug_callbacks_chain st = Some st' \<and> chains False [] ys st' \<and>
           (\<forall>a\<in>set ys. nodes st' a = nodes st a) \<and> live (dbg_heap st') = live (dbg_heap st) - int (length xs)"
proof -
  from chains_destroy_chain [OF assms] obtain h where
    r: "destroy_debug_callbacks_chain st = Some (st\<lparr>nodes := (nodes st) |` (- set xs), current_dbg_function_head := 0, dbg_heap := h\<rparr>)"
    "live h = live (dbg_heap st) - int (length xs)" by auto
  have "dbg_path ((nodes st) |` (- set xs)) (instance_only_dbg_function_head st) ys 0"
    using assms by (subst dbg_path_cong [of ys _ "nodes st"]) (auto simp: chains_def restrict_map_def)
  moreover have "\<forall>a\<in>set ys. (nodes st |` (- set xs)) a = nodes st a" using assms by (auto simp: chains_def restrict_map_def)
  ultimately show ?thesis using assms r by (auto simp: chains_def)
qed

text \<open>A node is put in front of the chain.\<close>

lemma chains_insert:
  assumes "chains attached xs ys st" and "nodes st p = None" and "p \<noteq> 0" and "p < next_addr st"
    and "nodes st' = (nodes st)(p \<mapsto> \<lparr>content = c, pUserData = u, pNext = current_dbg_function_head st\<rparr>)"
    and "current_dbg_function_head st' = p" and "next_addr st' = next_addr st"
    and "instance_only_dbg_function_head st' = instance_only_dbg_function_head st"
    and "\<forall>a\<in>dom (indices st'). a < next_addr st'"
  shows "chains attached (p # xs) ys st'"
proof -
  have "p \<notin> set (xs @ ys)" using assms(1,2) unfolding chains_def by (metis domIff)
  with assms show ?thesis by (auto simp: chains_def)
qed

text \<open>A node is taken out, wherever it is; a key that no node has changes nothing.\<close>

definition node_keys :: "dbg_instance \<Rightarrow> nat list \<Rightarrow> (dbg_kind \<times> nat) list" where
  "node_keys st ps = map (\<lambda>a. node_key (content (the (nodes st a)))) ps"

lemma chains_unlink:
  assumes "chains False (ps @ a # qs) ys st" and "node_key (content (the (nodes st a))) = key" and "key \<notin> set (node_keys st ps)"
  shows "\<exists>st'. unlink_loop key (current_dbg_function_head st) (current_dbg_function_head st) st = Some st' \<and>
          chains False (ps @ qs) ys st' \<and> (\<forall>b. b \<noteq> a \<longrightarrow> map_option content (nodes st' b) = map_option content (nodes st b)) \<and>
          (\<forall>b. b \<noteq> a \<longrightarrow> map_option pUserData (nodes st' b) = map_option pUserData (nodes st b)) \<and>
          live (dbg_heap st') = live (dbg_heap st) - 1 \<and>
          st' = st\<lparr>nodes := nodes st', current_dbg_function_head := current_dbg_function_head st', dbg_heap := dbg_heap st'\<rparr>"
proof -
  from chains_node [OF assms(1), of a] obtain n where n: "nodes st a = Some n" by auto
  from assms(1) have path: "dbg_path (nodes st) (current_dbg_function_head st) (ps @ a # qs) 0"
    and d: "distinct (ps @ a # qs)" and io: "dbg_path (nodes st) (instance_only_dbg_function_head st) ys 0"
    and dy: "set (ps @ a # qs) \<inter> set ys = {}" by (auto simp: chains_def)
  have a0: "a \<noteq> 0" using path dbg_path_dom by fastforce
  have nio: "instance_only_dbg_function_head st \<noteq> a" using instance_only_head_not_in [OF assms(1)] by auto
  have keys: "\<forall>b\<in>set ps. node_key (content (the (nodes st b))) \<noteq> key" using assms(3) by (auto simp: node_keys_def)
  have head: "current_dbg_function_head st = (if ps = [] then a else hd ps)" using path by (cases ps) auto
  have tail: "dbg_path (nodes st) (pNext n) qs 0" using path n by (auto simp: dbg_path_append)
  show ?thesis
  proof (cases ps rule: rev_exhaust)
    case Nil
    from unlink_loop_found [OF path n _ keys, of "current_dbg_function_head st" n] assms(2) n Nil head a0 nio
    have "unlink_loop key (current_dbg_function_head st) (current_dbg_function_head st) st =
        Some (st\<lparr>nodes := (nodes st)(a := None), current_dbg_function_head := pNext n, dbg_heap := add_live (- 1) (dbg_heap st)\<rparr>)"
      by (simp add: free_node_def)
    moreover have "chains False qs ys (st\<lparr>nodes := (nodes st)(a := None), current_dbg_function_head := pNext n,
        dbg_heap := add_live (- 1) (dbg_heap st)\<rparr>)"
      using assms(1) Nil tail io d dy by (auto simp: chains_def)
    ultimately show ?thesis using Nil by auto
  next
    case (snoc ps' b)
    then obtain m where m: "nodes st b = Some m" using chains_node [OF assms(1), of b] by auto
    have b: "b \<noteq> a" "current_dbg_function_head st \<noteq> a" "last (current_dbg_function_head st # ps) = b" using d head snoc by (auto simp: hd_append)
    let ?ns = "(nodes st)(b \<mapsto> m\<lparr>pNext := pNext n\<rparr>)"
    from path snoc have p1: "dbg_path (nodes st) (current_dbg_function_head st) (ps' @ [b]) a" by (auto simp: dbg_path_append)
    have p2: "dbg_path ?ns (current_dbg_function_head st) ps (pNext n)"
      using dbg_path_redirect [OF p1 m] d snoc by auto
    have p3: "dbg_path ?ns (pNext n) qs 0" using tail d snoc by simp
    have "dbg_path (?ns(a := None)) (current_dbg_function_head st) (ps @ qs) 0"
      using p2 p3 d by (subst dbg_path_upd) (auto simp: dbg_path_append)
    moreover have "dbg_path (?ns(a := None)) (instance_only_dbg_function_head st) ys 0" using io dy snoc by simp
    moreover have dm: "dom (?ns(a := None)) = set ((ps @ qs) @ ys)" using assms(1) d dy snoc m by (auto simp: chains_def)
    moreover have "\<forall>b\<in>dom (?ns(a := None)) \<union> dom (indices st). b < next_addr st"
      unfolding dm using assms(1) by (auto simp: chains_def)
    ultimately have "chains False (ps @ qs) ys (st\<lparr>nodes := ?ns(a := None), dbg_heap := add_live (- 1) (dbg_heap st)\<rparr>)"
      unfolding chains_def using assms(1) by (simp add: chains_def)
    moreover from unlink_loop_found [OF path n _ keys, of "current_dbg_function_head st" m] assms(2) n m b a0 nio
    have "unlink_loop key (current_dbg_function_head st) (current_dbg_function_head st) st =
        Some (st\<lparr>nodes := ?ns(a := None), dbg_heap := add_live (- 1) (dbg_heap st)\<rparr>)"
      by (simp add: free_node_def)
    ultimately show ?thesis using m by auto
  qed
qed

section \<open>Life of the callbacks of an instance\<close>

definition messenger_structures :: "(nat \<times> in_structure) list \<Rightarrow> (dbg_kind \<times> nat) list" where
  "messenger_structures chain =
     [(Messenger, p). (p, s) \<leftarrow> chain, case s of DEBUG_UTILS_MESSENGER_CREATE_INFO i \<Rightarrow> True | _ \<Rightarrow> False]"

definition report_structures :: "(nat \<times> in_structure) list \<Rightarrow> (dbg_kind \<times> nat) list" where
  "report_structures chain =
     [(Report, p). (p, s) \<leftarrow> chain, case s of DEBUG_REPORT_CREATE_INFO i \<Rightarrow> True | _ \<Rightarrow> False]"

lemma node_keys_new:
  assumes "nodes st' = (nodes st)(p \<mapsto> n)" and "p \<notin> set ys"
  shows "node_keys st' (p # ys) = node_key (content n) # node_keys st ys"
  using assms by (auto simp: node_keys_def)

lemma push_instance_only_keys:
  assumes "chains True [] ys st" and "push_instance_only c user st = (r, st')"
  shows "(r = VK_SUCCESS \<and> (\<exists>p. chains True [] (p # ys) st' \<and> node_keys st' (p # ys) = node_key c # node_keys st ys)) \<or>
         (r = VK_ERROR_OUT_OF_HOST_MEMORY \<and> chains True [] ys st' \<and> node_keys st' ys = node_keys st ys)"
  using chains_push_instance_only [OF assms(1), of c user] assms(2)
proof (elim disjE exE conjE)
  fix st1 p n
  assume a: "push_instance_only c user st = (VK_SUCCESS, st1)" "chains True [] (p # ys) st1" "nodes st1 = (nodes st)(p \<mapsto> n)" "content n = c"
  then have "p \<notin> set ys" by (simp add: chains_def)
  with a assms(2) show ?thesis by (auto dest: node_keys_new [of st1 st p n ys])
qed (auto simp: node_keys_def)

text \<open>A chain of structures adds one node for each of the structures of its kind, or stops with out-of-memory.\<close>

lemma util_CreateDebugUtilsMessengers_keys:
  assumes "chains True [] ys st" and "util_CreateDebugUtilsMessengers chain st = (r, st')"
  shows "(r = VK_SUCCESS \<or> r = VK_ERROR_OUT_OF_HOST_MEMORY) \<and> (\<exists>ys'. chains True [] ys' st' \<and>
           (r = VK_SUCCESS \<longrightarrow> node_keys st' ys' = rev (messenger_structures chain) @ node_keys st ys))"
  using assms
proof (induction chain arbitrary: ys st)
  case Nil
  then show ?case by (auto simp: messenger_structures_def)
next
  case (Cons x chain)
  obtain p s where x: "x = (p, s)" by force
  show ?case
  proof (cases "\<exists>i. s = DEBUG_UTILS_MESSENGER_CREATE_INFO i")
    case False
    then show ?thesis using Cons x by (auto simp: messenger_structures_def split: in_structure.splits)
  next
    case True
    then obtain i where s: "s = DEBUG_UTILS_MESSENGER_CREATE_INFO i" ..
    obtain r1 st1 where c: "util_CreateDebugUtilsMessenger i p st = (r1, st1)" by force
    have key: "node_key (messenger_content i p) = (Messenger, p)" by (simp add: messenger_content_def)
    have strs: "rev (messenger_structures (x # chain)) = rev (messenger_structures chain) @ [(Messenger, p)]" by (simp add: messenger_structures_def x s)
    from push_instance_only_keys [OF Cons.prems(1) c [unfolded util_CreateDebugUtilsMessenger_def]]
    show ?thesis
    proof (elim disjE exE conjE)
      fix q
      assume q: "r1 = VK_SUCCESS" "chains True [] (q # ys) st1" "node_keys st1 (q # ys) = node_key (messenger_content i p) # node_keys st ys"
      then have "util_CreateDebugUtilsMessengers chain st1 = (r, st')" using Cons.prems(2) c x s by simp
      from Cons.IH [OF q(2) this] show ?thesis unfolding strs q(3) key by simp
    next
      assume q: "r1 = VK_ERROR_OUT_OF_HOST_MEMORY" "chains True [] ys st1"
      then have "r = VK_ERROR_OUT_OF_HOST_MEMORY" "st' = st1" using Cons.prems(2) c x s by simp_all
      with q show ?thesis by auto
    qed
  qed
qed

lemma util_CreateDebugReportCallbacks_keys:
  assumes "chains True [] ys st" and "util_CreateDebugReportCallbacks chain st = (r, st')"
  shows "(r = VK_SUCCESS \<or> r = VK_ERROR_OUT_OF_HOST_MEMORY) \<and> (\<exists>ys'. chains True [] ys' st' \<and>
           (r = VK_SUCCESS \<longrightarrow> node_keys st' ys' = rev (report_structures chain) @ node_keys st ys))"
  using assms
proof (induction chain arbitrary: ys st)
  case Nil
  then show ?case by (auto simp: report_structures_def)
next
  case (Cons x chain)
  obtain p s where x: "x = (p, s)" by force
  show ?case
  proof (cases "\<exists>i. s = DEBUG_REPORT_CREATE_INFO i")
    case False
    then show ?thesis using Cons x by (auto simp: report_structures_def split: in_structure.splits)
  next
    case True
    then obtain i where s: "s = DEBUG_REPORT_CREATE_INFO i" ..
    obtain r1 st1 where c: "util_CreateDebugReportCallback i p st = (r1, st1)" by force
    have key: "node_key (report_content i p) = (Report, p)" by (simp add: report_content_def)
    have strs: "rev (report_structures (x # chain)) = rev (report_structures chain) @ [(Report, p)]" by (simp add: report_structures_def x s)
    from push_instance_only_keys [OF Cons.prems(1) c [unfolded util_CreateDebugReportCallback_def]]
    show ?thesis
    proof (elim disjE exE conjE)
      fix q
      assume q: "r1 = VK_SUCCESS" "chains True [] (q # ys) st1" "node_keys st1 (q # ys) = node_key (report_content i p) # node_keys st ys"
      then have "util_CreateDebugReportCallbacks chain st1 = (r, st')" using Cons.prems(2) c x s by simp
      from Cons.IH [OF q(2) this] show ?thesis unfolding strs q(3) key by simp
    next
      assume q: "r1 = VK_ERROR_OUT_OF_HOST_MEMORY" "chains True [] ys st1"
      then have "r = VK_ERROR_OUT_OF_HOST_MEMORY" "st' = st1" using Cons.prems(2) c x s by simp_all
      with q show ?thesis by auto
    qed
  qed
qed

lemma restrict_all: "dom ns \<subseteq> A \<Longrightarrow> ns |` (- A) = Map.empty"
  by (auto simp: restrict_map_def fun_eq_iff)

text \<open>The order of \<^verbatim>\<open>vkDestroyInstance\<close>: the callbacks that are left are freed, those of the instance attached and, at the end, freed.\<close>

lemma destroy_instance_callbacks:
  assumes "chains False xs ys st"
  shows "\<exists>s1 s2 s3. destroy_debug_callbacks_chain st = Some s1 \<and> loader_add_instance_only_debug_funcs s1 = Some s2 \<and>
           dbg_path (nodes s2) (current_dbg_function_head s2) ys 0 \<and> node_keys s2 ys = node_keys st ys \<and>
           destroy_debug_callbacks_chain s2 = Some s3 \<and> nodes s3 = Map.empty \<and>
           live (dbg_heap s3) = live (dbg_heap st) - int (length xs) - int (length ys)"
proof -
  from chains_destroy_detached [OF assms] obtain s1 where
    s1: "destroy_debug_callbacks_chain st = Some s1" "chains False [] ys s1" "\<forall>a\<in>set ys. nodes s1 a = nodes st a"
    "live (dbg_heap s1) = live (dbg_heap st) - int (length xs)" by blast
  from s1(2) have s2: "loader_add_instance_only_debug_funcs s1 = Some (s1\<lparr>current_dbg_function_head := instance_only_dbg_function_head s1\<rparr>)"
    and ch2: "chains True [] ys (s1\<lparr>current_dbg_function_head := instance_only_dbg_function_head s1\<rparr>)"
    by (auto simp: loader_add_instance_only_debug_funcs_def chains_def)
  from chains_destroy_chain [OF ch2] obtain h where
    "destroy_debug_callbacks_chain (s1\<lparr>current_dbg_function_head := instance_only_dbg_function_head s1\<rparr>) =
       Some (s1\<lparr>nodes := nodes s1 |` (- set ys), current_dbg_function_head := 0, dbg_heap := h\<rparr>)"
    "live h = live (dbg_heap s1) - int (length ys)" by auto
  moreover have "nodes s1 |` (- set ys) = Map.empty" using s1(2) by (intro restrict_all) (simp add: chains_def)
  moreover have "node_keys s1 ys = node_keys st ys" using s1(3) by (simp add: node_keys_def)
  ultimately show ?thesis using s1 s2 chains_path [OF ch2]
    by (auto simp: node_keys_def)
qed

definition sample_instance :: "dbg_icd_term list \<Rightarrow> dbg_instance" where
  "sample_instance icds = \<lparr>nodes = Map.empty, indices = Map.empty, next_addr = 1, current_dbg_function_head = 0,
     instance_only_dbg_function_head = 0, used_list = \<lambda>k. empty_generic_list, dbg_icds = icds, calls = [], dbg_heap = sample_heap True\<rparr>"

definition sample_info :: VkDebugUtilsMessengerCreateInfoEXT where
  "sample_info = \<lparr>mi_messageSeverity = 0x1000, mi_messageType = 7, mi_pfnUserCallback = 5, mi_pUserData = 6\<rparr>"

text \<open>C17: The debug structures chained to \<^verbatim>\<open>VkInstanceCreateInfo\<close> become the active callbacks of the instance creation, one for each structure;
  they are inactive afterwards; and whatever callbacks the application still has at \<^verbatim>\<open>vkDestroyInstance\<close>, these are freed, the
  callbacks of the instance become active again, and in the end no node is left.\<close>

theorem instance_callbacks_lifecycle:
  assumes "chains True [] [] st" and "util_CreateDebugUtilsMessengers chain st = (VK_SUCCESS, st1)"
    and "util_CreateDebugReportCallbacks chain st1 = (VK_SUCCESS, st2)"
  shows "\<exists>ys st3. dbg_path (nodes st2) (current_dbg_function_head st2) ys 0 \<and>
           node_keys st2 ys = rev (messenger_structures chain @ report_structures chain) \<and>
           loader_remove_instance_only_debug_funcs st2 = Some st3 \<and> current_dbg_function_head st3 = 0 \<and> chains False [] ys st3 \<and>
           (\<forall>xs st4. chains False xs ys st4 \<longrightarrow>
              (\<exists>s5 s6 s7. destroy_debug_callbacks_chain st4 = Some s5 \<and> loader_add_instance_only_debug_funcs s5 = Some s6 \<and>
                 dbg_path (nodes s6) (current_dbg_function_head s6) ys 0 \<and> destroy_debug_callbacks_chain s6 = Some s7 \<and>
                 nodes s7 = Map.empty \<and>
                 live (dbg_heap s7) = live (dbg_heap st4) - int (length xs) - int (length ys)))"
proof -
  from util_CreateDebugUtilsMessengers_keys [OF assms(1,2)] obtain ys1 where
    y1: "chains True [] ys1 st1" "node_keys st1 ys1 = rev (messenger_structures chain)" by (auto simp: node_keys_def)
  from util_CreateDebugReportCallbacks_keys [OF y1(1) assms(3)] obtain ys where
    y: "chains True [] ys st2" "node_keys st2 ys = rev (report_structures chain) @ rev (messenger_structures chain)" by (auto simp: y1)
  from chains_detach [OF y(1)] obtain st3 where
    st3: "loader_remove_instance_only_debug_funcs st2 = Some st3" "chains False [] ys st3" by blast
  then have "current_dbg_function_head st3 = 0" by (simp add: chains_def)
  moreover have "dbg_path (nodes st2) (current_dbg_function_head st2) ys 0" using chains_path [OF y(1)] by simp
  moreover have "\<forall>xs st4. chains False xs ys st4 \<longrightarrow>
      (\<exists>s5 s6 s7. destroy_debug_callbacks_chain st4 = Some s5 \<and> loader_add_instance_only_debug_funcs s5 = Some s6 \<and>
         dbg_path (nodes s6) (current_dbg_function_head s6) ys 0 \<and> destroy_debug_callbacks_chain s6 = Some s7 \<and>
         nodes s7 = Map.empty \<and> live (dbg_heap s7) = live (dbg_heap st4) - int (length xs) - int (length ys))"
    using destroy_instance_callbacks by blast
  moreover have "node_keys st2 ys = rev (messenger_structures chain @ report_structures chain)" using y by simp
  ultimately show ?thesis using st3 by blast
qed

theorem instance_callbacks_lifecycle_witness:
  "\<exists>st1 st2 st3 ys. chains True [] [] (sample_instance []) \<and>
     util_CreateDebugUtilsMessengers [(10, DEBUG_UTILS_MESSENGER_CREATE_INFO sample_info)] (sample_instance []) = (VK_SUCCESS, st1) \<and>
     util_CreateDebugReportCallbacks [(10, DEBUG_UTILS_MESSENGER_CREATE_INFO sample_info)] st1 = (VK_SUCCESS, st2) \<and>
     node_keys st2 ys = [(Messenger, 10)] \<and>
     loader_remove_instance_only_debug_funcs st2 = Some st3 \<and> chains False [] ys st3"
proof -
  let ?chain = "[(10, DEBUG_UTILS_MESSENGER_CREATE_INFO sample_info)]"
  have a: "chains True [] [] (sample_instance [])" by (simp add: sample_instance_def chains_def)
  obtain st1 where b: "util_CreateDebugUtilsMessengers ?chain (sample_instance []) = (VK_SUCCESS, st1)"
    by (simp add: util_CreateDebugUtilsMessenger_def push_instance_only_def alloc_block_def sample_instance_def succeeds_def)
  have c: "util_CreateDebugReportCallbacks ?chain st1 = (VK_SUCCESS, st1)" by simp
  have keys: "rev (messenger_structures ?chain @ report_structures ?chain) = [(Messenger, 10)]"
    by (simp add: messenger_structures_def report_structures_def)
  from instance_callbacks_lifecycle [OF a b c] obtain ys st3 where
    "node_keys st1 ys = [(Messenger, 10)]" "loader_remove_instance_only_debug_funcs st1 = Some st3" "chains False [] ys st3"
    unfolding keys by blast
  with a b c show ?thesis by blast
qed

end
