(* ===== verification/DebugHistory.thy ===== *)
theory DebugHistory
  imports DebugUtils
begin

text \<open>
  What the debug terminators guarantee over a whole history of creations and destructions: the chain of
  callbacks is the list of handles that are out, and every driver holds exactly one object per handle.  And
  what the roll back of a failed creation does not guarantee.
\<close>

section \<open>Objects of the drivers\<close>

text \<open>What the loader relies on of a driver: it has both entries or none, and a successful creation returns a handle.\<close>

definition driver_ok :: "dbg_icd_term \<Rightarrow> bool" where
  "driver_ok d \<longleftrightarrow> (\<forall>k. (dispatch_Create d k \<noteq> None) = dispatch_Destroy d k \<and>
     (\<forall>create n w. dispatch_Create d k = Some create \<longrightarrow> create n = (VK_SUCCESS, w) \<longrightarrow> (\<exists>x. w = Some x \<and> x \<noteq> 0)))"

text \<open>The cell of a driver's list for an index, and its invariant for the indices \<open>U\<close> in use.\<close>

definition cell :: "dbg_icd_term \<Rightarrow> dbg_kind \<Rightarrow> nat \<Rightarrow> nat" where
  "cell d k i = cells (dbg_list d k) ! i"

definition list_covers :: "dbg_kind \<Rightarrow> nat set \<Rightarrow> dbg_icd_term \<Rightarrow> bool" where
  "list_covers k U d = covers U (dbg_list d k)"

definition same_driver :: "dbg_kind \<Rightarrow> dbg_icd_term \<Rightarrow> dbg_icd_term \<Rightarrow> bool" where
  "same_driver k d d' \<longleftrightarrow> dispatch_Create d' = dispatch_Create d \<and> dispatch_Destroy d' = dispatch_Destroy d \<and>
     (\<forall>k'. k' \<noteq> k \<longrightarrow> dbg_list d' k' = dbg_list d k')"

text \<open>The loop over the drivers never goes wrong.  When it succeeds every list covers the index too, the cells of the other indices are
  kept, and each driver that can has one new object, whose handle is in the cell.\<close>

definition created_one :: "dbg_kind \<Rightarrow> nat set \<Rightarrow> nat \<Rightarrow> dbg_icd_term \<Rightarrow> dbg_icd_term \<Rightarrow> bool" where
  "created_one k U idx d d' \<longleftrightarrow> same_driver k d d' \<and> list_covers k (insert idx U) d' \<and> (\<forall>i\<in>U. cell d' k i = cell d k i) \<and>
     (dispatch_Create d k \<noteq> None \<longrightarrow> cell d' k idx \<noteq> 0)"

definition created_objects :: "dbg_kind \<Rightarrow> nat \<Rightarrow> nat \<Rightarrow> dbg_icd_term list \<Rightarrow> dbg_kind driver_call list \<Rightarrow> dbg_kind driver_call list \<Rightarrow> bool" where
  "created_objects k idx j icds' cs cs' \<longleftrightarrow> (\<forall>k' i. driver_objects k' i cs' =
     (if k' = k \<and> j \<le> i \<and> i < j + length icds' \<and> dispatch_Create (icds' ! (i - j)) k \<noteq> None
      then map_option (add_mset (cell (icds' ! (i - j)) k idx)) (driver_objects k' i cs)
      else driver_objects k' i cs))"

lemma created_objects_Nil: "created_objects k idx j [] cs cs"
  by (auto simp: created_objects_def)

lemma created_objects_skip:
  assumes "created_objects k idx (j + 1) icds cs cs'" and "dispatch_Create d k = None"
  shows "created_objects k idx j (d # icds) cs cs'"
  unfolding created_objects_def
proof (intro allI)
  fix k' i
  show "driver_objects k' i cs' = (if k' = k \<and> j \<le> i \<and> i < j + length (d # icds) \<and> dispatch_Create ((d # icds) ! (i - j)) k \<noteq> None
      then map_option (add_mset (cell ((d # icds) ! (i - j)) k idx)) (driver_objects k' i cs) else driver_objects k' i cs)"
    using assms by (cases i j rule: linorder_cases) (auto simp: created_objects_def nth_shift)
qed

lemma created_objects_call:
  assumes "created_objects k idx (j + 1) icds (cs @ [CreateCall k j VK_SUCCESS (Some x)]) cs'"
    and "dispatch_Create d k \<noteq> None" and "cell d k idx = x"
  shows "created_objects k idx j (d # icds) cs cs'"
  unfolding created_objects_def
proof (intro allI)
  fix k' i
  show "driver_objects k' i cs' = (if k' = k \<and> j \<le> i \<and> i < j + length (d # icds) \<and> dispatch_Create ((d # icds) ! (i - j)) k \<noteq> None
      then map_option (add_mset (cell ((d # icds) ! (i - j)) k idx)) (driver_objects k' i cs) else driver_objects k' i cs)"
  proof (cases "k' = k \<and> i = j")
    case True
    with assms show ?thesis by (cases "driver_objects k' i cs") (auto simp: created_objects_def)
  next
    case False
    with assms show ?thesis
      by (cases i j rule: linorder_cases) (auto simp: created_objects_def nth_shift driver_step_other)
  qed
qed

lemma create_in_drivers_spec:
  assumes "\<forall>d\<in>set icds. list_covers k U d \<and> driver_ok d" and "{..<idx} \<subseteq> U" and "idx \<notin> U" and "idx < 2 ^ 31"
  shows "\<exists>res icds' cs' h'. create_in_drivers a k idx j icds cs h = Some (res, icds', cs', h') \<and>
    (res = VK_SUCCESS \<longrightarrow> list_all2 (created_one k U idx) icds icds' \<and> created_objects k idx j icds' cs cs')"
  using assms(1)
proof (induction icds arbitrary: j cs h)
  case Nil
  show ?case by (simp add: created_objects_Nil)
next
  case (Cons d icds)
  then have d: "list_covers k U d" "driver_ok d" and rest: "\<forall>d\<in>set icds. list_covers k U d \<and> driver_ok d" by auto
  let ?l = "dbg_list d k"
  from make_handle_room_cases [OF d(1) [unfolded list_covers_def] assms(2,4), of a h] obtain res l h1 where
    room: "make_handle_room a idx ?l h = Some (res, l, h1)"
    and ok: "res = VK_SUCCESS \<Longrightarrow> \<exists>ys. gl_list l = Buf (cells ?l @ ys) \<and> covers (insert idx U) l" by blast
  show ?case
  proof (cases "res = VK_SUCCESS")
    case False
    then show ?thesis by (simp add: room)
  next
    case True
    with ok obtain zs where "gl_list l = Buf (cells ?l @ zs)" and cov: "covers (insert idx U) l" by blast
    then obtain ys where ys: "gl_list l = Buf ys" and old: "\<forall>i\<in>U. ys ! i = cell d k i"
      using nth_append_covers [OF d(1) [unfolded list_covers_def]] by (auto simp: cell_def)
    have idx: "idx < length ys" using cov by (simp add: covers_Buf [OF ys])
    let ?d = "\<lambda>zs. d\<lparr>dbg_list := (dbg_list d)(k := l\<lparr>gl_list := Buf zs\<rparr>)\<rparr>"
    have l: "l\<lparr>gl_list := Buf ys\<rparr> = l" using ys by simp
    have covers: "list_covers k (insert idx U) (?d zs)" if "length zs = length ys" for zs
      using covers_write [OF ys cov that] cov by (simp add: list_covers_def covers_Buf [OF ys])
    show ?thesis
    proof (cases "dispatch_Create d k")
      case None
      from Cons.IH [OF rest, of "j + 1" cs h1] obtain r icds' cs' h' where
        r: "create_in_drivers a k idx (j + 1) icds cs h1 = Some (r, icds', cs', h')" and
        IH: "r = VK_SUCCESS \<Longrightarrow> list_all2 (created_one k U idx) icds icds' \<and> created_objects k idx (j + 1) icds' cs cs'" by blast
      have "create_in_drivers a k idx j (d # icds) cs h = Some (r, ?d ys # icds', cs', h')"
        using True None r l by (simp add: room)
      moreover have "created_one k U idx d (?d ys)"
        using None covers [of ys] old by (simp add: created_one_def same_driver_def cell_def cells_def)
      ultimately show ?thesis using IH created_objects_skip [of k idx j icds' cs cs' "?d ys"] None by auto
    next
      case (Some create)
      obtain r1 w where answer: "create (length cs) = (r1, w)" by force
      let ?cs = "cs @ [CreateCall k j r1 w]"
      show ?thesis
      proof (cases "r1 = VK_SUCCESS")
        case False
        then show ?thesis using True Some answer ys idx by (auto simp: room split: option.split)
      next
        case r1: True
        with d(2) Some answer obtain x where x: "w = Some x" "x \<noteq> 0" unfolding driver_ok_def by blast
        from Cons.IH [OF rest, of "j + 1" ?cs h1] obtain r icds' cs' h' where
          r: "create_in_drivers a k idx (j + 1) icds ?cs h1 = Some (r, icds', cs', h')" and
          IH: "r = VK_SUCCESS \<Longrightarrow> list_all2 (created_one k U idx) icds icds' \<and> created_objects k idx (j + 1) icds' ?cs cs'" by blast
        have "create_in_drivers a k idx j (d # icds) cs h = Some (r, ?d (ys[idx := x]) # icds', cs', h')"
          using True Some answer r1 x r ys idx by (simp add: room)
        moreover have "created_one k U idx d (?d (ys[idx := x]))"
          using x covers [of "ys[idx := x]"] idx old assms(3) by (auto simp: created_one_def same_driver_def cell_def cells_def nth_list_update)
        moreover have "cell (?d (ys[idx := x])) k idx = x" using idx by (simp add: cell_def cells_def)
        ultimately show ?thesis
          using IH created_objects_call [of k idx j icds' cs x cs' "?d (ys[idx := x])"] Some r1 x(1) by auto
      qed
    qed
  qed
qed

text \<open>Destruction: the object in the cell of every driver that has one goes away.\<close>

definition removed_objects :: "dbg_kind \<Rightarrow> nat \<Rightarrow> nat \<Rightarrow> dbg_icd_term list \<Rightarrow> dbg_kind driver_call list \<Rightarrow> dbg_kind driver_call list \<Rightarrow> bool" where
  "removed_objects k idx j icds cs cs' \<longleftrightarrow> (\<forall>k' i. driver_objects k' i cs' =
     (if k' = k \<and> j \<le> i \<and> i < j + length icds \<and> dispatch_Create (icds ! (i - j)) k \<noteq> None
      then map_option (\<lambda>M. M - {#cell (icds ! (i - j)) k idx#}) (driver_objects k' i cs)
      else driver_objects k' i cs))"

lemma destroy_in_drivers_spec:
  assumes "\<forall>d\<in>set icds. list_covers k U d \<and> driver_ok d \<and> (dispatch_Create d k \<noteq> None \<longrightarrow> cell d k idx \<noteq> 0)" and "idx \<in> U"
    and "\<forall>i<length icds. dispatch_Create (icds ! i) k \<noteq> None \<longrightarrow>
      (\<exists>M. driver_objects k (j + i) cs = Some M \<and> cell (icds ! i) k idx \<in># M)"
  shows "\<exists>new. destroy_in_drivers k idx j icds = Some new \<and> removed_objects k idx j icds cs (cs @ new)"
  using assms(1,3)
proof (induction icds arbitrary: j cs)
  case Nil
  show ?case by (auto simp: removed_objects_def)
next
  case (Cons d icds)
  then have d: "list_covers k U d" "driver_ok d" "dispatch_Create d k \<noteq> None \<Longrightarrow> cell d k idx \<noteq> 0"
    and rest: "\<forall>d\<in>set icds. list_covers k U d \<and> driver_ok d \<and> (dispatch_Create d k \<noteq> None \<longrightarrow> cell d k idx \<noteq> 0)" by auto
  from d(1) assms(2) obtain ys where ys: "gl_list (dbg_list d k) = Buf ys" "idx < length ys"
    by (auto simp: list_covers_def covers_def split: buf.splits)
  let ?here = "if dispatch_Create d k \<noteq> None then [DestroyCall k j (cell d k idx)] else []"
  have disp: "dispatch_Destroy d k = (dispatch_Create d k \<noteq> None)" using d(2) by (auto simp: driver_ok_def)
  have objs: "driver_objects k' i (cs @ ?here) =
      (if k' = k \<and> i = j \<and> dispatch_Create d k \<noteq> None then map_option (\<lambda>M. M - {#cell d k idx#}) (driver_objects k' i cs)
       else driver_objects k' i cs)" for k' i
    using Cons.prems(2) [rule_format, of 0] by (auto simp: driver_step_other)
  have "\<forall>i<length icds. dispatch_Create (icds ! i) k \<noteq> None \<longrightarrow>
      (\<exists>M. driver_objects k (j + 1 + i) (cs @ ?here) = Some M \<and> cell (icds ! i) k idx \<in># M)"
    using Cons.prems(2) [rule_format, of "Suc _"] unfolding objs by auto
  from Cons.IH [OF rest this] obtain new where
    new: "destroy_in_drivers k idx (j + 1) icds = Some new"
    "removed_objects k idx (j + 1) icds (cs @ ?here) ((cs @ ?here) @ new)" by blast
  have "destroy_in_drivers k idx j (d # icds) = Some (?here @ new)"
    using new(1) ys d(3) disp by (auto simp: cell_def cells_def)
  moreover have "removed_objects k idx j (d # icds) cs (cs @ ?here @ new)"
    unfolding removed_objects_def
  proof (intro allI)
    fix k' i
    from new(2) have "driver_objects k' i (cs @ ?here @ new) =
       (if k' = k \<and> j + 1 \<le> i \<and> i < j + 1 + length icds \<and> dispatch_Create (icds ! (i - (j + 1))) k \<noteq> None
        then map_option (\<lambda>M. M - {#cell (icds ! (i - (j + 1))) k idx#}) (driver_objects k' i (cs @ ?here))
        else driver_objects k' i (cs @ ?here))" unfolding removed_objects_def by simp
    then show "driver_objects k' i (cs @ ?here @ new) =
       (if k' = k \<and> j \<le> i \<and> i < j + length (d # icds) \<and> dispatch_Create ((d # icds) ! (i - j)) k \<noteq> None
        then map_option (\<lambda>M. M - {#cell ((d # icds) ! (i - j)) k idx#}) (driver_objects k' i cs)
        else driver_objects k' i cs)"
      unfolding objs by (cases i j rule: linorder_cases) (auto simp: nth_shift)
  qed
  ultimately show ?case by blast
qed

section \<open>The invariant of the terminators\<close>

definition drivers_inv :: "dbg_kind \<Rightarrow> dbg_instance \<Rightarrow> bool" where
  "drivers_inv k st \<longleftrightarrow> wf_generic_list used_object_size (used_list st k) \<and>
     (\<forall>d\<in>set (dbg_icds st). list_covers k (used_slots (used_list st k)) d \<and> driver_ok d \<and>
        (dispatch_Create d k \<noteq> None \<longrightarrow> (\<forall>i\<in>used_slots (used_list st k). cell d k i \<noteq> 0))) \<and>
     (\<forall>j<length (dbg_icds st). driver_objects k j (calls st) =
        Some (if dispatch_Create (dbg_icds st ! j) k \<noteq> None
              then image_mset (cell (dbg_icds st ! j) k) (mset_set (used_slots (used_list st k))) else {#}))"

text \<open>\<open>out\<close> are the handles that are out, the latest first.\<close>

definition handles_of :: "dbg_kind \<Rightarrow> (dbg_kind \<times> nat) list \<Rightarrow> nat set" where
  "handles_of k out = {p. (k, p) \<in> set out}"

definition dbg_inv :: "nat list \<Rightarrow> dbg_instance \<Rightarrow> (dbg_kind \<times> nat) list \<Rightarrow> bool" where
  "dbg_inv ys st out \<longleftrightarrow> (\<exists>xs. chains False xs ys st \<and> node_keys st xs = out) \<and> distinct (map snd out) \<and>
     dom (indices st) = snd ` set out \<and> indices st 0 = None \<and>
     (\<forall>k. drivers_inv k st \<and> bij_betw (\<lambda>p. the (indices st p)) (handles_of k out) (used_slots (used_list st k)))"

lemma finite_used_slots: "finite (used_slots l)"
  by (auto simp: used_slots_def split: buf.splits)

lemma terminator_create_success:
  assumes "terminator_create k c user a pA st = Some (VK_SUCCESS, handle, st')"
  shows "handle = Some (next_addr st) \<and>
    (\<exists>idx l h1 icds cs h2. loader_get_next_available_entry a pA (used_list st k) (add_live 1 (tick (dbg_heap st))) = Some (VK_SUCCESS, idx, l, h1) \<and>
      create_in_drivers a k idx 0 (dbg_icds st) (calls st) h1 = Some (VK_SUCCESS, icds, cs, h2) \<and>
      used_list st' = (used_list st)(k := l) \<and> dbg_icds st' = icds \<and> calls st' = cs \<and> next_addr st' = next_addr st + 2 \<and>
      nodes st' = (nodes st)(next_addr st + 1 \<mapsto>
                     \<lparr>content = c (next_addr st), pUserData = user, pNext = current_dbg_function_head st\<rparr>) \<and>
      current_dbg_function_head st' = next_addr st + 1 \<and>
      instance_only_dbg_function_head st' = instance_only_dbg_function_head st \<and>
      indices st' = (indices st)(next_addr st \<mapsto> idx))"
  using assms unfolding terminator_create_def alloc_block_def
  by (auto simp: bind_eq_Some_conv Let_def split: if_splits)

text \<open>The kind that is not concerned keeps its invariant.\<close>

lemma drivers_inv_other:
  assumes "drivers_inv k' st" and "k' \<noteq> k" and "list_all2 (same_driver k) (dbg_icds st) (dbg_icds st')"
    and "\<And>j. driver_objects k' j (calls st') = driver_objects k' j (calls st)" and "used_list st' k' = used_list st k'"
  shows "drivers_inv k' st'"
proof -
  have same: "list_covers k' U d' = list_covers k' U d \<and> cell d' k' = cell d k' \<and> driver_ok d' = driver_ok d \<and>
      dispatch_Create d' k' = dispatch_Create d k'" if "same_driver k d d'" for d d' U
  proof -
    from that assms(2) have eq: "dbg_list d' k' = dbg_list d k'" by (simp add: same_driver_def)
    show ?thesis using that unfolding list_covers_def cell_def eq by (simp add: same_driver_def driver_ok_def fun_eq_iff)
  qed
  have len: "length (dbg_icds st') = length (dbg_icds st)" using assms(3) by (simp add: list_all2_lengthD)
  have nth: "same_driver k (dbg_icds st ! j) (dbg_icds st' ! j)" if "j < length (dbg_icds st)" for j
    using assms(3) that by (rule list_all2_nthD)
  show ?thesis
    unfolding drivers_inv_def
  proof (intro conjI ballI allI impI)
    show "wf_generic_list used_object_size (used_list st' k')" using assms by (simp add: drivers_inv_def)
  next
    fix d' assume "d' \<in> set (dbg_icds st')"
    then obtain j where j: "j < length (dbg_icds st)" "d' = dbg_icds st' ! j" by (auto simp: in_set_conv_nth len)
    then have d: "dbg_icds st ! j \<in> set (dbg_icds st)" by simp
    note s = same [OF nth [OF j(1)]]
    with d assms(1) show "list_covers k' (used_slots (used_list st' k')) d'" "driver_ok d'"
      unfolding drivers_inv_def j(2) assms(5) by blast+
    fix i assume "dispatch_Create d' k' \<noteq> None" "i \<in> used_slots (used_list st' k')"
    with d s assms(1) show "cell d' k' i \<noteq> 0" unfolding drivers_inv_def j(2) assms(5) by metis
  next
    fix j assume "j < length (dbg_icds st')"
    then have j: "j < length (dbg_icds st)" by (simp add: len)
    from same [OF nth [OF j]] j assms(1)
    show "driver_objects k' j (calls st') = Some (if dispatch_Create (dbg_icds st' ! j) k' \<noteq> None
        then image_mset (cell (dbg_icds st' ! j) k') (mset_set (used_slots (used_list st' k'))) else {#})"
      unfolding assms(4,5) by (simp add: drivers_inv_def)
  qed
qed

lemma drivers_inv_created:
  assumes "drivers_inv k st" and "list_all2 (created_one k (used_slots (used_list st k)) idx) (dbg_icds st) (dbg_icds st')"
    and "created_objects k idx 0 (dbg_icds st') (calls st) (calls st')" and "idx \<notin> used_slots (used_list st k)"
    and "wf_generic_list used_object_size (used_list st' k)" and "used_slots (used_list st' k) = insert idx (used_slots (used_list st k))"
  shows "drivers_inv k st'"
proof -
  let ?U = "used_slots (used_list st k)"
  have len: "length (dbg_icds st') = length (dbg_icds st)" using assms(2) by (simp add: list_all2_lengthD)
  have nth: "created_one k ?U idx (dbg_icds st ! j) (dbg_icds st' ! j)" if "j < length (dbg_icds st)" for j
    using assms(2) that by (rule list_all2_nthD)
  have old: "list_covers k ?U (dbg_icds st ! j) \<and> driver_ok (dbg_icds st ! j) \<and>
      (dispatch_Create (dbg_icds st ! j) k \<noteq> None \<longrightarrow> (\<forall>i\<in>?U. cell (dbg_icds st ! j) k i \<noteq> 0))"
    if "j < length (dbg_icds st)" for j using assms(1) that by (simp add: drivers_inv_def)
  show ?thesis
    unfolding drivers_inv_def assms(6)
  proof (intro conjI ballI allI impI)
    show "wf_generic_list used_object_size (used_list st' k)" by (rule assms(5))
  next
    fix d' assume "d' \<in> set (dbg_icds st')"
    then obtain j where j: "j < length (dbg_icds st)" "d' = dbg_icds st' ! j" by (auto simp: in_set_conv_nth len)
    note n = nth [OF j(1)] and o = old [OF j(1)]
    from n show "list_covers k (insert idx ?U) d'" by (simp add: created_one_def j(2))
    from n o show "driver_ok d'" by (auto simp: created_one_def same_driver_def driver_ok_def j(2))
    fix i assume "dispatch_Create d' k \<noteq> None" "i \<in> insert idx ?U"
    with n o show "cell d' k i \<noteq> 0" by (auto simp: created_one_def same_driver_def j(2))
  next
    fix j assume "j < length (dbg_icds st')"
    then have j: "j < length (dbg_icds st)" by (simp add: len)
    note n = nth [OF j]
    have disp: "dispatch_Create (dbg_icds st' ! j) k = dispatch_Create (dbg_icds st ! j) k"
      using n by (simp add: created_one_def same_driver_def)
    have "image_mset (cell (dbg_icds st' ! j) k) (mset_set ?U) = image_mset (cell (dbg_icds st ! j) k) (mset_set ?U)"
      using n finite_used_slots by (intro image_mset_cong) (auto simp: created_one_def)
    moreover have "driver_objects k j (calls st) = Some (if dispatch_Create (dbg_icds st ! j) k \<noteq> None
        then image_mset (cell (dbg_icds st ! j) k) (mset_set ?U) else {#})" using assms(1) j by (simp add: drivers_inv_def)
    ultimately show "driver_objects k j (calls st') = Some (if dispatch_Create (dbg_icds st' ! j) k \<noteq> None
        then image_mset (cell (dbg_icds st' ! j) k) (mset_set (insert idx ?U)) else {#})"
      using assms(3,4) j finite_used_slots by (simp add: created_objects_def disp len)
  qed
qed

lemma drivers_inv_removed:
  assumes "drivers_inv k st" and "dbg_icds st' = dbg_icds st" and "idx \<in> used_slots (used_list st k)"
    and "removed_objects k idx 0 (dbg_icds st) (calls st) (calls st')"
    and "wf_generic_list used_object_size (used_list st' k)" and "used_slots (used_list st' k) = used_slots (used_list st k) - {idx}"
  shows "drivers_inv k st'"
proof -
  let ?U = "used_slots (used_list st k)"
  have sub: "list_covers k (?U - {idx}) d" if "list_covers k ?U d" for d
    using that by (auto simp: list_covers_def covers_def split: buf.splits)
  have "image_mset f (mset_set ?U) - {#f idx#} = image_mset f (mset_set (?U - {idx}))" for f :: "nat \<Rightarrow> nat"
    using assms(3) finite_used_slots [of "used_list st k"] by (simp add: mset_set.remove)
  then show ?thesis
    using assms sub unfolding drivers_inv_def by (auto simp: removed_objects_def)
qed

lemma chains_grow:
  assumes "chains att xs ys st"
  shows "chains att xs ys (st\<lparr>next_addr := next_addr st + n\<rparr>)"
proof -
  have "\<forall>a\<in>dom (nodes st) \<union> dom (indices st). a < next_addr st + n"
    using assms unfolding chains_def by (meson trans_less_add1)
  with assms show ?thesis by (auto simp: chains_def)
qed

text \<open>A successful creation adds a handle, an index and one object per driver.\<close>

lemma dbg_inv_create:
  assumes inv: "dbg_inv ys st out" and room: "slots_room (used_list st k)" and c: "\<And>p. node_key (c p) = (k, p)"
    and r: "terminator_create k c user a pA st = Some (VK_SUCCESS, handle, st')"
  shows "\<exists>p. handle = Some p \<and> p \<notin> snd ` set out \<and> dbg_inv ys st' ((k, p) # out)"
proof -
  let ?p = "next_addr st" and ?U = "used_slots (used_list st k)"
  from inv obtain xs where ch: "chains False xs ys st" and keys: "node_keys st xs = out"
    and dist: "distinct (map snd out)" and dm: "dom (indices st) = snd ` set out" and z: "indices st 0 = None"
    and drv: "\<And>k. drivers_inv k st" and bij: "\<And>k. bij_betw (\<lambda>p. the (indices st p)) (handles_of k out) (used_slots (used_list st k))"
    by (auto simp: dbg_inv_def)
  from terminator_create_success [OF r] obtain idx l h1 icds cs h2 where
    acq: "loader_get_next_available_entry a pA (used_list st k) (add_live 1 (tick (dbg_heap st))) = Some (VK_SUCCESS, idx, l, h1)"
    and crt: "create_in_drivers a k idx 0 (dbg_icds st) (calls st) h1 = Some (VK_SUCCESS, icds, cs, h2)"
    and st': "handle = Some ?p" "used_list st' = (used_list st)(k := l)" "dbg_icds st' = icds" "calls st' = cs" "next_addr st' = ?p + 2"
      "nodes st' = (nodes st)(?p + 1 \<mapsto> \<lparr>content = c ?p, pUserData = user, pNext = current_dbg_function_head st\<rparr>)"
      "current_dbg_function_head st' = ?p + 1" "instance_only_dbg_function_head st' = instance_only_dbg_function_head st"
      "indices st' = (indices st)(?p \<mapsto> idx)" by blast
  have wf: "wf_generic_list used_object_size (used_list st k)" using drv by (simp add: drivers_inv_def)
  from used_objects.acquire_success [OF wf room acq]
  have l: "wf_generic_list used_object_size l" "idx \<notin> ?U" "used_slots l = insert idx ?U" by auto
  from acquire_slot_minimal [OF wf room acq] have low: "{..<idx} \<subseteq> ?U" "idx < 2 ^ 31" by auto
  have "\<forall>d\<in>set (dbg_icds st). list_covers k ?U d \<and> driver_ok d" using drv [of k] by (simp add: drivers_inv_def)
  from create_in_drivers_spec [OF this low(1) l(2) low(2), of a 0 "calls st" h1] crt
  have new: "list_all2 (created_one k ?U idx) (dbg_icds st) icds" "created_objects k idx 0 icds (calls st) cs" by auto
  have p: "?p \<notin> snd ` set out" using chains_fresh(3) [OF ch] dm by (metis domIff)
  have "nodes st (?p + 1) = None" using ch unfolding chains_def by (metis Un_iff domIff add_lessD1 less_irrefl)
  moreover have "q < ?p + 2" if "indices st q = Some i" for q i
    using ch that unfolding chains_def by (meson UnI2 domI trans_less_add1)
  then have "\<forall>q\<in>dom (indices st'). q < next_addr st'" using st'(5,9) by (auto split: if_splits)
  moreover have "chains False xs ys (st\<lparr>next_addr := ?p + 2\<rparr>)" by (rule chains_grow [OF ch])
  ultimately have ch': "chains False ((?p + 1) # xs) ys st'"
    using st' by (intro chains_insert [of False xs ys "st\<lparr>next_addr := ?p + 2\<rparr>" "?p + 1"]) auto
  have "?p + 1 \<notin> set xs" using ch' by (simp add: chains_def)
  then have keys': "node_keys st' ((?p + 1) # xs) = (k, ?p) # out" using keys c st'(6) by (auto simp: node_keys_def)
  have drv': "drivers_inv k' st'" for k'
  proof (cases "k' = k")
    case True
    show ?thesis unfolding True
      by (rule drivers_inv_created [OF drv [of k], of idx]) (use new l st' in simp_all)
  next
    case False
    have "list_all2 (same_driver k) (dbg_icds st) icds"
      using new(1) by (rule list_all2_mono) (simp add: created_one_def)
    moreover have "driver_objects k' j cs = driver_objects k' j (calls st)" for j
      using new(2) False by (simp add: created_objects_def)
    ultimately show ?thesis by (intro drivers_inv_other [OF drv False]) (use st' False in simp_all)
  qed
  have bij': "bij_betw (\<lambda>q. the (indices st' q)) (handles_of k' ((k, ?p) # out)) (used_slots (used_list st' k'))" for k'
  proof -
    have old: "bij_betw (\<lambda>q. the (indices st' q)) (handles_of k' out) (used_slots (used_list st k'))"
      using bij [of k'] by (rule bij_betw_cong [THEN iffD1, rotated]) (use p st' in \<open>force simp: handles_of_def\<close>)
    show ?thesis
    proof (cases "k' = k")
      case True
      have "?p \<notin> handles_of k out" using p by (force simp: handles_of_def)
      moreover have "handles_of k ((k, ?p) # out) = handles_of k out \<union> {?p}" by (auto simp: handles_of_def)
      ultimately show ?thesis
        using notIn_Un_bij_betw [of ?p "handles_of k out" "\<lambda>q. the (indices st' q)" ?U] old l st' True by simp
    next
      case False
      then have "handles_of k' ((k, ?p) # out) = handles_of k' out" by (auto simp: handles_of_def)
      with old False st' show ?thesis by simp
    qed
  qed
  have "dbg_inv ys st' ((k, ?p) # out)"
    unfolding dbg_inv_def using ch' keys' drv' bij' dist p dm st'(9) z chains_fresh(4) [OF ch] by (intro conjI exI [of _ "(?p + 1) # xs"]) auto
  with st'(1) p show ?thesis by blast
qed

lemma heap_irrelevant [simp]:
  "chains att xs ys (st\<lparr>dbg_heap := h\<rparr>) = chains att xs ys st" "node_keys (st\<lparr>dbg_heap := h\<rparr>) xs = node_keys st xs"
  "drivers_inv k (st\<lparr>dbg_heap := h\<rparr>) = drivers_inv k st"
  "chains att xs ys (st\<lparr>calls := cs\<rparr>) = chains att xs ys st" "node_keys (st\<lparr>calls := cs\<rparr>) xs = node_keys st xs"
  by (simp_all add: chains_def node_keys_def drivers_inv_def)

text \<open>Creation that cannot even allocate the handle changes nothing.\<close>

lemma dbg_inv_create_no_handle:
  assumes "dbg_inv ys st out" and "\<not> succeeds (dbg_heap st)"
  shows "\<exists>st'. terminator_create k c user a pA st = Some (VK_ERROR_OUT_OF_HOST_MEMORY, None, st') \<and> dbg_inv ys st' out"
proof -
  have "terminator_create k c user a pA st = Some (VK_ERROR_OUT_OF_HOST_MEMORY, None, st\<lparr>dbg_heap := tick (dbg_heap st)\<rparr>)"
    using assms(2) by (simp add: terminator_create_def alloc_block_def roll_back_def free_index_def)
  moreover have "dbg_inv ys (st\<lparr>dbg_heap := tick (dbg_heap st)\<rparr>) out"
    using assms(1) by (simp add: dbg_inv_def)
  ultimately show ?thesis by blast
qed

text \<open>A destruction takes one handle, its index and one object of every driver away.\<close>

lemma terminator_destroy_steps:
  assumes "handle \<noteq> 0" and "indices st handle = Some idx" and "destroy_in_drivers k idx 0 (dbg_icds st) = Some cs"
    and "util_destroy (st\<lparr>calls := calls st @ cs\<rparr>) handle = Some st1" and "indices st1 handle = Some idx"
    and "clear_status pA idx (used_list st1 k) = Some l"
  shows "terminator_destroy k util_destroy handle pA st =
    Some (st1\<lparr>used_list := (used_list st1)(k := l), indices := (indices st1)(handle := None), dbg_heap := add_live (- 1) (dbg_heap st1)\<rparr>)"
  using assms by (simp add: terminator_destroy_def free_index_def)

lemma dbg_inv_destroy:
  assumes inv: "dbg_inv ys st out" and mem: "(k, p) \<in> set out"
    and util: "\<And>st. util_destroy st p = unlink_loop (k, p) (current_dbg_function_head st) (current_dbg_function_head st) st"
  shows "\<exists>st'. terminator_destroy k util_destroy p pA st = Some st' \<and> dbg_inv ys st' (remove1 (k, p) out)"
proof -
  let ?U = "used_slots (used_list st k)" and ?ix = "\<lambda>q. the (indices st q)"
  from inv obtain xs where ch: "chains False xs ys st" and keys: "node_keys st xs = out"
    and dist: "distinct (map snd out)" and dm: "dom (indices st) = snd ` set out" and z: "indices st 0 = None"
    and drv: "\<And>k. drivers_inv k st" and bij: "\<And>k. bij_betw ?ix (handles_of k out) (used_slots (used_list st k))"
    by (auto simp: dbg_inv_def)
  from mem dm obtain idx where idx: "indices st p = Some idx" by force
  have p: "p \<in> handles_of k out" using mem by (simp add: handles_of_def)
  have idxU: "idx \<in> ?U" using bij_betwE [OF bij [of k]] p idx by force
  have p0: "p \<noteq> 0" using idx z by (metis option.distinct(1))
  obtain us vs where out: "out = us @ (k, p) # vs" and us: "(k, p) \<notin> set us" using mem by (meson split_list_first)
  then obtain ps q qs where xs: "xs = ps @ q # qs" and psqs: "node_keys st ps = us" "node_keys st qs = vs"
      "node_key (content (the (nodes st q))) = (k, p)"
    using keys unfolding node_keys_def by (auto simp: map_eq_append_conv)
  have "\<forall>d\<in>set (dbg_icds st). list_covers k ?U d \<and> driver_ok d \<and> (dispatch_Create d k \<noteq> None \<longrightarrow> cell d k idx \<noteq> 0)"
    using drv [of k] idxU unfolding drivers_inv_def by blast
  moreover have "\<forall>i<length (dbg_icds st). dispatch_Create (dbg_icds st ! i) k \<noteq> None \<longrightarrow>
      (\<exists>M. driver_objects k (0 + i) (calls st) = Some M \<and> cell (dbg_icds st ! i) k idx \<in># M)"
    using drv [of k] idxU finite_used_slots by (auto simp: drivers_inv_def)
  ultimately obtain cs where cs: "destroy_in_drivers k idx 0 (dbg_icds st) = Some cs"
    and rem: "removed_objects k idx 0 (dbg_icds st) (calls st) (calls st @ cs)"
    using destroy_in_drivers_spec idxU by blast
  let ?st = "st\<lparr>calls := calls st @ cs\<rparr>"
  have "chains False (ps @ q # qs) ys ?st" "node_key (content (the (nodes ?st q))) = (k, p)" "(k, p) \<notin> set (node_keys ?st ps)"
    using ch xs psqs us by simp_all
  from chains_unlink [OF this] obtain st1 where
    un: "util_destroy ?st p = Some st1" and ch1: "chains False (ps @ qs) ys st1"
    and same: "\<And>b. b \<noteq> q \<Longrightarrow> map_option content (nodes st1 b) = map_option content (nodes st b)"
    and st1: "st1 = ?st\<lparr>nodes := nodes st1, current_dbg_function_head := current_dbg_function_head st1, dbg_heap := dbg_heap st1\<rparr>"
    unfolding util by (auto simp: util)
  have f1: "indices st1 = indices st" "used_list st1 = used_list st" "dbg_icds st1 = dbg_icds st" "calls st1 = calls st @ cs"
    by (subst st1; simp)+
  have wf: "wf_generic_list used_object_size (used_list st1 k)" using drv f1 by (simp add: drivers_inv_def)
  from clear_status_releases [OF wf, of pA idx] obtain l where l: "clear_status pA idx (used_list st1 k) = Some l"
    "wf_generic_list used_object_size l" "used_slots l = ?U - {idx}" by (auto simp: f1)
  let ?st' = "st1\<lparr>used_list := (used_list st1)(k := l), indices := (indices st1)(p := None), dbg_heap := add_live (- 1) (dbg_heap st1)\<rparr>"
  have r: "terminator_destroy k util_destroy p pA st = Some ?st'"
    by (rule terminator_destroy_steps [where idx = idx and cs = cs]) (use p0 idx cs un f1 l in simp_all)
  have ch': "chains False (ps @ qs) ys ?st'" using ch1 by (auto simp: chains_def)
  have q: "q \<notin> set (ps @ qs)" using ch xs by (auto simp: chains_def)
  have "content (the (nodes st1 b)) = content (the (nodes st b))" if "b \<in> set (ps @ qs)" for b
    using that q same [of b] chains_node [OF ch1, of b] chains_node [OF ch, of b] xs by fastforce
  then have keys': "node_keys ?st' (ps @ qs) = us @ vs" unfolding psqs(1,2) [symmetric] by (simp add: node_keys_def)
  have rm: "remove1 (k, p) out = us @ vs" using us by (simp add: out remove1_append)
  have dist': "distinct (map snd (us @ vs))" and pn: "p \<notin> snd ` set (us @ vs)" using dist by (auto simp: out)
  have dm': "dom (indices ?st') = snd ` set (us @ vs)" using dm pn by (auto simp: f1 out)
  have drv': "drivers_inv k' ?st'" for k'
  proof (cases "k' = k")
    case True
    show ?thesis unfolding True
      by (rule drivers_inv_removed [OF drv [of k] _ idxU]) (use rem l f1 in simp_all)
  next
    case False
    have "list_all2 (same_driver k) (dbg_icds st) (dbg_icds ?st')" by (simp add: f1 list_all2_same same_driver_def)
    then show ?thesis
      by (rule drivers_inv_other [OF drv False]) (use rem f1 False in \<open>simp_all add: removed_objects_def\<close>)
  qed
  have bij': "bij_betw (\<lambda>q. the (indices ?st' q)) (handles_of k' (us @ vs)) (used_slots (used_list ?st' k'))" for k'
  proof -
    have "p \<notin> handles_of k' (us @ vs)" using pn by (force simp: handles_of_def)
    then have cong: "bij_betw (\<lambda>q. the (indices ?st' q)) (handles_of k' (us @ vs)) V = bij_betw ?ix (handles_of k' (us @ vs)) V" for V
      by (intro bij_betw_cong) (auto simp: f1)
    show ?thesis
    proof (cases "k' = k")
      case True
      have "handles_of k (us @ vs) = handles_of k out - {p}" using \<open>p \<notin> handles_of k' (us @ vs)\<close> True by (auto simp: handles_of_def out)
      moreover have "bij_betw ?ix (handles_of k out - {p}) (?U - {idx})"
        using bij_betw_DiffI [OF bij [of k], of "{p}" "{idx}"] p idx idxU by (simp add: bij_betw_def)
      ultimately show ?thesis unfolding cong using True l(3) by simp
    next
      case False
      then have "handles_of k' (us @ vs) = handles_of k' out" by (auto simp: handles_of_def out)
      with bij [of k'] False show ?thesis unfolding cong by (simp add: f1)
    qed
  qed
  have "dbg_inv ys ?st' (us @ vs)"
    unfolding dbg_inv_def using ch' keys' drv' bij' dist' dm' z f1(1) by (intro conjI exI [of _ "ps @ qs"] allI) auto
  with r rm show ?thesis by auto
qed

section \<open>Histories\<close>

definition fresh_debug_instance :: "nat list \<Rightarrow> dbg_instance \<Rightarrow> bool" where
  "fresh_debug_instance ys st \<longleftrightarrow> chains False [] ys st \<and> indices st = Map.empty \<and> calls st = [] \<and>
     (\<forall>k. used_list st k = empty_generic_list) \<and>
     (\<forall>d\<in>set (dbg_icds st). driver_ok d \<and> (\<forall>k. dbg_list d k = empty_generic_list))"

text \<open>The calls an application makes after \<^verbatim>\<open>vkCreateInstance\<close>, with any outcome of the allocations in a successful creation, or none
  at all; \<open>out\<close> collects the handles it holds.\<close>

inductive dbg_run :: "allocator \<Rightarrow> nat list \<Rightarrow> dbg_instance \<Rightarrow> (dbg_kind \<times> nat) list \<Rightarrow> bool" for a ys where
  start: "fresh_debug_instance ys st \<Longrightarrow> dbg_run a ys st []"
| messenger_created: "dbg_run a ys st out \<Longrightarrow> slots_room (used_list st Messenger) \<Longrightarrow>
    terminator_CreateDebugUtilsMessengerEXT a info pA st = Some (VK_SUCCESS, Some p, st') \<Longrightarrow> dbg_run a ys st' ((Messenger, p) # out)"
| report_created: "dbg_run a ys st out \<Longrightarrow> slots_room (used_list st Report) \<Longrightarrow>
    terminator_CreateDebugReportCallbackEXT a rinfo pA st = Some (VK_SUCCESS, Some p, st') \<Longrightarrow> dbg_run a ys st' ((Report, p) # out)"
| messenger_failed: "dbg_run a ys st out \<Longrightarrow> \<not> succeeds (dbg_heap st) \<Longrightarrow>
    terminator_CreateDebugUtilsMessengerEXT a info pA st = Some (r, w, st') \<Longrightarrow> dbg_run a ys st' out"
| report_failed: "dbg_run a ys st out \<Longrightarrow> \<not> succeeds (dbg_heap st) \<Longrightarrow>
    terminator_CreateDebugReportCallbackEXT a rinfo pA st = Some (r, w, st') \<Longrightarrow> dbg_run a ys st' out"
| messenger_destroyed: "dbg_run a ys st out \<Longrightarrow> (Messenger, p) \<in> set out \<Longrightarrow>
    terminator_DestroyDebugUtilsMessengerEXT p pA st = Some st' \<Longrightarrow> dbg_run a ys st' (remove1 (Messenger, p) out)"
| report_destroyed: "dbg_run a ys st out \<Longrightarrow> (Report, p) \<in> set out \<Longrightarrow>
    terminator_DestroyDebugReportCallbackEXT p pA st = Some st' \<Longrightarrow> dbg_run a ys st' (remove1 (Report, p) out)"

lemma node_key_content [simp]:
  "node_key (messenger_content info p) = (Messenger, p)" "node_key (report_content rinfo p) = (Report, p)"
  by (simp_all add: messenger_content_def report_content_def)

lemma fresh_dbg_inv: "fresh_debug_instance ys st \<Longrightarrow> dbg_inv ys st []"
  by (auto simp: fresh_debug_instance_def dbg_inv_def node_keys_def drivers_inv_def list_covers_def covers_def used_slots_def
      handles_of_def bij_betw_def)

lemmas destroy_defs = terminator_DestroyDebugUtilsMessengerEXT_def terminator_DestroyDebugReportCallbackEXT_def

lemma dbg_run_inv: "dbg_run a ys st out \<Longrightarrow> dbg_inv ys st out"
proof (induction rule: dbg_run.induct)
  case (start st)
  then show ?case by (rule fresh_dbg_inv)
next
  case (messenger_created st out info pA p st')
  then show ?case
    using dbg_inv_create [of ys st out Messenger "messenger_content info"]
    by (fastforce simp: terminator_CreateDebugUtilsMessengerEXT_def)
next
  case (report_created st out rinfo pA p st')
  then show ?case
    using dbg_inv_create [of ys st out Report "report_content rinfo"]
    by (fastforce simp: terminator_CreateDebugReportCallbackEXT_def)
next
  case (messenger_failed st out info pA r w st')
  then show ?case
    using dbg_inv_create_no_handle [of ys st out Messenger "messenger_content info" "mi_pUserData info" a pA]
    by (auto simp: terminator_CreateDebugUtilsMessengerEXT_def)
next
  case (report_failed st out rinfo pA r w st')
  then show ?case
    using dbg_inv_create_no_handle [of ys st out Report "report_content rinfo" "ri_pUserData rinfo" a pA]
    by (auto simp: terminator_CreateDebugReportCallbackEXT_def)
next
  case (messenger_destroyed st out p pA st')
  then show ?case
    using dbg_inv_destroy [of ys st out Messenger p util_DestroyDebugUtilsMessenger pA]
    by (auto simp: destroy_defs util_DestroyDebugUtilsMessenger_def)
next
  case (report_destroyed st out p pA st')
  then show ?case
    using dbg_inv_destroy [of ys st out Report p util_DestroyDebugReportCallback pA]
    by (auto simp: destroy_defs util_DestroyDebugReportCallback_def)
qed

text \<open>Number of objects a driver has: one for each handle of the kind.\<close>

lemma driver_object_count:
  assumes "dbg_inv ys st out" and "j < length (dbg_icds st)"
  shows "\<exists>M. driver_objects k j (calls st) = Some M \<and>
           size M = (if dispatch_Create (dbg_icds st ! j) k \<noteq> None then card (handles_of k out) else 0)"
proof -
  have "card (handles_of k out) = card (used_slots (used_list st k))"
    using assms(1) by (auto simp: dbg_inv_def intro: bij_betw_same_card)
  then show ?thesis using assms finite_used_slots by (auto simp: dbg_inv_def drivers_inv_def)
qed

text \<open>C12: After any sequence of creations of messengers and report callbacks that succeed or whose first allocation fails, and of destructions,
  the chain in memory is exactly the handles that are out, the latest first, and a message is delivered to exactly the matching callbacks
  among them in that order; every driver with the entry points has exactly one live object per handle and was never asked to
  destroy an object that is not alive; and every handle that is out can be destroyed safely.  (Creations that fail later, at a driver or at a later allocation, are not part of
  these sequences: their roll back can destroy an object that is not alive.)\<close>

theorem debug_objects_history:
  assumes "dbg_run a ys st out"
  shows "(\<exists>xs. node_keys st xs = out \<and>
            (\<forall>answer severity types data. util_SubmitDebugUtilsMessageEXT answer st severity types (Some data) =
               (let cs = List.map_filter (\<lambda>p. deliver_message severity types data (the (nodes st p))) xs
                in Some (list_ex answer cs, cs)))) \<and>
         (\<forall>k j. j < length (dbg_icds st) \<longrightarrow> (\<exists>M. driver_objects k j (calls st) = Some M \<and>
            size M = (if dispatch_Create (dbg_icds st ! j) k \<noteq> None then card {p. (k, p) \<in> set out} else 0))) \<and>
         (\<forall>p. (Messenger, p) \<in> set out \<longrightarrow> (\<exists>st'. terminator_DestroyDebugUtilsMessengerEXT p pA st = Some st')) \<and>
         (\<forall>p. (Report, p) \<in> set out \<longrightarrow> (\<exists>st'. terminator_DestroyDebugReportCallbackEXT p pA st = Some st'))"
proof -
  have inv: "dbg_inv ys st out" by (rule dbg_run_inv [OF assms])
  then obtain xs where ch: "chains False xs ys st" and keys: "node_keys st xs = out" by (auto simp: dbg_inv_def)
  have path: "dbg_path (nodes st) (current_dbg_function_head st) xs 0" using ch by (simp add: chains_def)
  have "\<forall>answer severity types data. util_SubmitDebugUtilsMessageEXT answer st severity types (Some data) =
      (let cs = List.map_filter (\<lambda>p. deliver_message severity types data (the (nodes st p))) xs in Some (list_ex answer cs, cs))"
    by (simp add: util_SubmitDebugUtilsMessageEXT_def message_loop_path [OF path])
  with keys have "\<exists>xs. node_keys st xs = out \<and>
            (\<forall>answer severity types data. util_SubmitDebugUtilsMessageEXT answer st severity types (Some data) =
               (let cs = List.map_filter (\<lambda>p. deliver_message severity types data (the (nodes st p))) xs
                in Some (list_ex answer cs, cs)))" by blast
  moreover have "\<exists>st'. terminator_DestroyDebugUtilsMessengerEXT p pA st = Some st'" if "(Messenger, p) \<in> set out" for p
    using dbg_inv_destroy [OF inv that, of util_DestroyDebugUtilsMessenger pA]
    by (auto simp: destroy_defs util_DestroyDebugUtilsMessenger_def)
  moreover have "\<exists>st'. terminator_DestroyDebugReportCallbackEXT p pA st = Some st'" if "(Report, p) \<in> set out" for p
    using dbg_inv_destroy [OF inv that, of util_DestroyDebugReportCallback pA]
    by (auto simp: destroy_defs util_DestroyDebugReportCallback_def)
  ultimately show ?thesis using driver_object_count [OF inv] unfolding handles_of_def by blast
qed

section \<open>Concrete instances\<close>

definition sample_driver :: "(nat \<Rightarrow> VkResult \<times> nat option) \<Rightarrow> dbg_icd_term" where
  "sample_driver answers = \<lparr>dbg_list = \<lambda>k. empty_generic_list, dispatch_Create = \<lambda>k. Some answers, dispatch_Destroy = \<lambda>k. True,
     dispatch_DebugReportMessageEXT = False\<rparr>"

lemma fresh_sample: "\<forall>d\<in>set icds. driver_ok d \<and> (\<forall>k. dbg_list d k = empty_generic_list) \<Longrightarrow> fresh_debug_instance [] (sample_instance icds)"
  by (simp add: fresh_debug_instance_def sample_instance_def chains_def)

text \<open>The first creation with one driver that answers with a handle.\<close>

definition after_first_creation :: "(nat \<Rightarrow> VkResult \<times> nat option) \<Rightarrow> nat \<Rightarrow> dbg_instance" where
  "after_first_creation answers x = (sample_instance [])\<lparr>
     used_list := (\<lambda>k. empty_generic_list)(Messenger := \<lparr>gl_capacity = 32 * used_object_size, gl_count = 0,
       gl_list = Buf (mark_used None # replicate 31 zero_object)\<rparr>),
     dbg_icds := [(sample_driver answers)\<lparr>dbg_list := (\<lambda>k. empty_generic_list)(Messenger :=
       \<lparr>gl_capacity = 256, gl_count = 0, gl_list = Buf (x # replicate 31 0)\<rparr>)\<rparr>],
     calls := [CreateCall Messenger 0 VK_SUCCESS (Some x)], next_addr := 3,
     dbg_heap := \<lparr>outcomes = \<lambda>_. True, clock = 4, live = 5\<rparr>,
     nodes := [2 \<mapsto> \<lparr>content = messenger_content sample_info 1, pUserData = 6, pNext = 0\<rparr>],
     current_dbg_function_head := 2, indices := [1 \<mapsto> 0]\<rparr>"

lemma first_creation:
  assumes "answers 0 = (VK_SUCCESS, Some x)"
  shows "terminator_CreateDebugUtilsMessengerEXT None sample_info None (sample_instance [sample_driver answers]) =
     Some (VK_SUCCESS, Some 1, after_first_creation answers x)"
  using assms
  by (simp add: terminator_CreateDebugUtilsMessengerEXT_def terminator_create_def alloc_block_def sample_instance_def sample_driver_def
      succeeds_def tick_def add_live_def next_available_first empty_generic_list_def handle_size_def
      make_handle_room_def loader_init_generic_list_def loader_calloc_def Let_def replicate_32 after_first_creation_def sample_info_def fun_eq_iff)

text \<open>And its destruction: the driver's handle stays in its list.\<close>

lemma first_destruction:
  assumes "x \<noteq> 0"
  shows "\<exists>h. terminator_DestroyDebugUtilsMessengerEXT 1 None (after_first_creation answers x) =
    Some ((after_first_creation answers x)\<lparr>nodes := Map.empty, current_dbg_function_head := 0, indices := Map.empty,
       used_list := (\<lambda>k. empty_generic_list)(Messenger := \<lparr>gl_capacity = 32 * used_object_size, gl_count = 0,
         gl_list = Buf (replicate 32 zero_object)\<rparr>),
       calls := [CreateCall Messenger 0 VK_SUCCESS (Some x), DestroyCall Messenger 0 x], dbg_heap := h\<rparr>) \<and>
    outcomes h = (\<lambda>_. True)"
proof -
  let ?st = "(after_first_creation answers x)\<lparr>calls := [CreateCall Messenger 0 VK_SUCCESS (Some x), DestroyCall Messenger 0 x]\<rparr>"
  have "unlink_loop (Messenger, 1) 2 2 ?st = Some (?st\<lparr>nodes := Map.empty, current_dbg_function_head := 0,
      dbg_heap := add_live (- 1) (dbg_heap ?st)\<rparr>)"
    by (subst unlink_loop.simps) (simp add: after_first_creation_def free_node_def sample_instance_def messenger_content_def)
  then show ?thesis
    using assms
    by (simp add: terminator_DestroyDebugUtilsMessengerEXT_def terminator_destroy_def util_DestroyDebugUtilsMessenger_def
        after_first_creation_def sample_instance_def sample_driver_def clear_status_def used_object_size_def free_index_def
        mark_used_def zero_object_def zero_callbacks_def replicate_32 fun_eq_iff)
qed

definition good_answers :: "nat \<Rightarrow> VkResult \<times> nat option" where
  "good_answers n = (VK_SUCCESS, Some (n + 7))"

definition then_failing :: "nat \<Rightarrow> VkResult \<times> nat option" where
  "then_failing n = (if n = 0 then (VK_SUCCESS, Some 7) else (VK_ERROR_OUT_OF_HOST_MEMORY, None))"

theorem debug_objects_history_witness:
  "dbg_run None [] (after_first_creation good_answers 7) [(Messenger, 1)] \<and>
   (\<exists>M. driver_objects Messenger 0 (calls (after_first_creation good_answers 7)) = Some M \<and> size M = 1) \<and>
   (\<exists>st'. terminator_DestroyDebugUtilsMessengerEXT 1 None (after_first_creation good_answers 7) = Some st')"
proof -
  have "fresh_debug_instance [] (sample_instance [sample_driver good_answers])"
    by (rule fresh_sample) (simp add: driver_ok_def sample_driver_def good_answers_def)
  then have "dbg_run None [] (sample_instance [sample_driver good_answers]) []" by (rule dbg_run.start)
  moreover have "slots_room (used_list (sample_instance [sample_driver good_answers]) Messenger)"
    by (simp add: sample_instance_def slots_room_def)
  moreover have "good_answers 0 = (VK_SUCCESS, Some 7)" by (simp add: good_answers_def)
  ultimately have run: "dbg_run None [] (after_first_creation good_answers 7) [(Messenger, 1)]"
    by (rule dbg_run.messenger_created [OF _ _ first_creation])
  note props = debug_objects_history [OF run, of None]
  from props have "\<exists>M. driver_objects Messenger 0 (calls (after_first_creation good_answers 7)) = Some M \<and>
        size M = (if dispatch_Create (dbg_icds (after_first_creation good_answers 7) ! 0) Messenger \<noteq> None
                  then card {p. (Messenger, p) \<in> set [(Messenger, 1::nat)]} else 0)"
    by (elim conjE) (simp add: after_first_creation_def)
  moreover have "\<exists>st'. terminator_DestroyDebugUtilsMessengerEXT 1 None (after_first_creation good_answers 7) = Some st'"
    using props by (elim conjE) simp
  ultimately show ?thesis using run by (simp add: after_first_creation_def sample_driver_def)
qed

section \<open>Rolling back\<close>

text \<open>C35: After one messenger was created and destroyed, a creation that the driver refuses
  destroys the driver's first object a second time: the list of the driver still holds its handle at the reused index.\<close>

theorem failed_creation_destroys_dead_object:
  "\<exists>st1 st2 st3. terminator_CreateDebugUtilsMessengerEXT None sample_info None (sample_instance [sample_driver then_failing]) =
       Some (VK_SUCCESS, Some 1, st1) \<and>
     terminator_DestroyDebugUtilsMessengerEXT 1 None st1 = Some st2 \<and>
     driver_objects Messenger 0 (calls st2) = Some {#} \<and>
     terminator_CreateDebugUtilsMessengerEXT None sample_info None st2 = Some (VK_ERROR_OUT_OF_HOST_MEMORY, None, st3) \<and>
     calls st3 = calls st2 @ [CreateCall Messenger 0 VK_ERROR_OUT_OF_HOST_MEMORY None, DestroyCall Messenger 0 7] \<and>
     driver_objects Messenger 0 (calls st3) = None"
proof -
  have first: "terminator_CreateDebugUtilsMessengerEXT None sample_info None (sample_instance [sample_driver then_failing]) =
       Some (VK_SUCCESS, Some 1, after_first_creation then_failing 7)"
    by (rule first_creation) (simp add: then_failing_def)
  from first_destruction [of 7 then_failing] obtain h where
    second: "terminator_DestroyDebugUtilsMessengerEXT 1 None (after_first_creation then_failing 7) =
      Some ((after_first_creation then_failing 7)\<lparr>nodes := Map.empty, current_dbg_function_head := 0, indices := Map.empty,
         used_list := (\<lambda>k. empty_generic_list)(Messenger := \<lparr>gl_capacity = 32 * used_object_size, gl_count = 0,
           gl_list = Buf (replicate 32 zero_object)\<rparr>),
         calls := [CreateCall Messenger 0 VK_SUCCESS (Some 7), DestroyCall Messenger 0 7], dbg_heap := h\<rparr>)"
      (is "_ = Some ?st2") and ok: "outcomes h = (\<lambda>_. True)" by auto
  have free: "first_free (Buf (zero_object # xs)) 0 32 = Some (Some 0)" for xs
    using first_free.simps(2) [of "Buf (zero_object # xs)" 0 31] by (simp add: zero_object_def)
  have "\<exists>st3. terminator_CreateDebugUtilsMessengerEXT None sample_info None ?st2 = Some (VK_ERROR_OUT_OF_HOST_MEMORY, None, st3) \<and>
      calls st3 = [CreateCall Messenger 0 VK_SUCCESS (Some 7), DestroyCall Messenger 0 7,
        CreateCall Messenger 0 VK_ERROR_OUT_OF_HOST_MEMORY None, DestroyCall Messenger 0 7]"
    using ok
    by (simp add: terminator_CreateDebugUtilsMessengerEXT_def terminator_create_def alloc_block_def after_first_creation_def
        sample_instance_def sample_driver_def succeeds_def loader_get_next_available_entry_def used_object_size_def free replicate_32
        make_handle_room_def handle_size_def then_failing_def roll_back_def clear_status_def free_index_def Let_def)
  then obtain st3 where third: "terminator_CreateDebugUtilsMessengerEXT None sample_info None ?st2 = Some (VK_ERROR_OUT_OF_HOST_MEMORY, None, st3)"
    and c3: "calls st3 = [CreateCall Messenger 0 VK_SUCCESS (Some 7), DestroyCall Messenger 0 7,
        CreateCall Messenger 0 VK_ERROR_OUT_OF_HOST_MEMORY None, DestroyCall Messenger 0 7]" by blast
  have "driver_objects Messenger 0 (calls ?st2) = Some {#}" "driver_objects Messenger 0 (calls st3) = None"
    by (simp_all add: c3 driver_objects_def)
  with first second third c3 show ?thesis
    by (intro exI [of _ "after_first_creation then_failing 7"] exI [of _ ?st2] exI [of _ st3]) simp
qed

text \<open>An instance with 32 messengers, all indices of the first table in use, and the lists of its drivers full.\<close>

definition full_instance :: "(nat \<Rightarrow> VkResult \<times> nat option) list \<Rightarrow> (nat \<Rightarrow> bool) \<Rightarrow> dbg_instance" where
  "full_instance drivers allocations = (sample_instance [])\<lparr>
     used_list := (\<lambda>k. empty_generic_list)(Messenger := \<lparr>gl_capacity = 32 * used_object_size, gl_count = 0,
       gl_list = Buf (replicate 32 (mark_used None))\<rparr>),
     dbg_icds := map (\<lambda>answers. (sample_driver answers)\<lparr>dbg_list := (\<lambda>k. empty_generic_list)(Messenger :=
       \<lparr>gl_capacity = 256, gl_count = 0, gl_list = Buf (map ((+) 7) [0..<32])\<rparr>)\<rparr>) drivers,
     next_addr := 100, dbg_heap := \<lparr>outcomes = allocations, clock = 0, live = 0\<rparr>\<rparr>"

lemmas evaluate_creation = terminator_CreateDebugUtilsMessengerEXT_def terminator_create_def alloc_block_def full_instance_def
  sample_instance_def sample_driver_def full_reservation roll_back_def make_handle_room_def

text \<open>When the table and the lists have to grow and the first of two drivers refuses, the roll back
  reads the list of the second driver, which has not grown, one cell past its end.\<close>

theorem failed_creation_reads_out_of_bounds:
  "terminator_CreateDebugUtilsMessengerEXT None sample_info None
     (full_instance [\<lambda>n. (VK_ERROR_OUT_OF_HOST_MEMORY, None), good_answers] (\<lambda>_. True)) = None"
  by (simp add: evaluate_creation succeeds_def loader_resize_generic_list_def doubled_def handle_size_def resized_def Let_def)

text \<open>When no index can be reserved the roll back uses index 0 and destroys the drivers' objects of the messenger that holds
  index 0 and stays in use.\<close>

theorem failed_reservation_destroys_first_messenger:
  "\<exists>st'. terminator_CreateDebugUtilsMessengerEXT None sample_info None
       (full_instance [good_answers] (\<lambda>n. n = 0)) = Some (VK_ERROR_OUT_OF_HOST_MEMORY, None, st') \<and>
     calls st' = [DestroyCall Messenger 0 7] \<and> 0 \<in> used_slots (used_list st' Messenger)"
  by (simp add: evaluate_creation succeeds_def free_index_def used_slots_def mark_used_status Let_def)

end
