(* ===== verification/Surfaces.thy ===== *)
theory Surfaces
  imports HandleLists
begin

text \<open>
  Window surfaces (\<^verbatim>\<open>wsi.c\<close>, \<^verbatim>\<open>wsi.h\<close>): the loader's surface object with the copy of its creation structures, the surface each driver
  creates the first time it needs one, and their destruction.  A \<^verbatim>\<open>VkSurfaceKHR\<close> is the address of a surface object, 0 the null handle; an
  address is never given out twice.  The platforms a build supports are a function; drivers answer their creation
  functions by the number of driver calls made so far.  The two surface structures without an index (Android and
  iOS) are made by functions that are not modelled.  A read through a null or stale pointer or outside a list is \<open>None\<close>; a
  call of \<^verbatim>\<open>abort\<close> is a value.
\<close>

section \<open>State\<close>

datatype VkIcdWsiPlatform =
    VK_ICD_WSI_PLATFORM_MIR
  | VK_ICD_WSI_PLATFORM_WAYLAND
  | VK_ICD_WSI_PLATFORM_WIN32
  | VK_ICD_WSI_PLATFORM_XCB
  | VK_ICD_WSI_PLATFORM_XLIB
  | VK_ICD_WSI_PLATFORM_ANDROID
  | VK_ICD_WSI_PLATFORM_MACOS
  | VK_ICD_WSI_PLATFORM_IOS
  | VK_ICD_WSI_PLATFORM_DISPLAY
  | VK_ICD_WSI_PLATFORM_HEADLESS
  | VK_ICD_WSI_PLATFORM_METAL
  | VK_ICD_WSI_PLATFORM_DIRECTFB
  | VK_ICD_WSI_PLATFORM_VI
  | VK_ICD_WSI_PLATFORM_GGP
  | VK_ICD_WSI_PLATFORM_SCREEN
  | VK_ICD_WSI_PLATFORM_FUCHSIA

text \<open>A structure of the creation chain: its type and its other fields, by name.\<close>

record chain_structure =
  sType :: string
  in_fields :: "(string \<times> nat) list"

text \<open>The members of the union before the index are what drivers of interface version 2 read; \<open>platform_fields\<close> are those that come from the
  creation structure.  \<open>create_info\<close> is the copied chain, each structure with its offset in the block.\<close>

record VkIcdSurface =
  platform :: VkIcdWsiPlatform
  platform_fields :: "(string \<times> nat) list"
  surface_index :: nat
  create_info :: "(nat \<times> chain_structure) list option"
  callbacks_valid :: bool
  callbacks :: VkAllocationCallbacks

record surface_icd_term =
  surface_list :: "nat generic_list"
  ext_khr_surface :: bool
  interface_version :: nat
  ext_platform :: "VkIcdWsiPlatform \<Rightarrow> bool"
  dispatch_CreateSurface :: "VkIcdWsiPlatform \<Rightarrow> (nat \<Rightarrow> VkResult \<times> nat option) option"
  dispatch_DestroySurfaceKHR :: bool

record surface_instance =
  surfaces :: "nat \<rightharpoonup> VkIcdSurface"
  next_surface :: nat
  surfaces_list :: loader_used_object_list
  surface_icds :: "surface_icd_term list"
  surface_calls :: "unit driver_call list"
  surface_heap :: heap

text \<open>What is fixed: the platforms compiled in, the extensions of the instance, and the sizes of the creation structures in the Vulkan
  headers.\<close>

record wsi_config =
  built :: "VkIcdWsiPlatform \<Rightarrow> bool"
  enabled_khr_surface :: bool
  enabled_platform :: "VkIcdWsiPlatform \<Rightarrow> bool"
  sizeof_struct :: "string \<Rightarrow> nat"

definition ICD_VER_SUPPORTS_ICD_SURFACE_KHR :: nat where "ICD_VER_SUPPORTS_ICD_SURFACE_KHR = 3"

definition set_icd :: "nat \<Rightarrow> surface_icd_term \<Rightarrow> surface_instance \<Rightarrow> surface_instance" where
  "set_icd j d st = st\<lparr>surface_icds := (surface_icds st)[j := d]\<rparr>"

section \<open>The driver's own surface\<close>

text \<open>The cases of the \<^verbatim>\<open>switch\<close> that are compiled in.\<close>

definition platform_case :: "wsi_config \<Rightarrow> VkIcdWsiPlatform \<Rightarrow> bool" where
  "platform_case cfg p =
     (p = VK_ICD_WSI_PLATFORM_DISPLAY \<or> p = VK_ICD_WSI_PLATFORM_HEADLESS \<or>
      built cfg p \<and> p \<noteq> VK_ICD_WSI_PLATFORM_MIR \<and> p \<noteq> VK_ICD_WSI_PLATFORM_ANDROID \<and> p \<noteq> VK_ICD_WSI_PLATFORM_IOS)"

definition create_icd_surface :: "wsi_config \<Rightarrow> nat \<Rightarrow> VkIcdSurface \<Rightarrow> surface_instance \<Rightarrow> (VkResult \<times> surface_instance) option" where
  "create_icd_surface cfg j icd_surface st =
     (let icd_term = surface_icds st ! j in
      if platform_case cfg (platform icd_surface) \<and> dispatch_CreateSurface icd_term (platform icd_surface) \<noteq> None \<and>
         ext_platform icd_term (platform icd_surface)
      then (case the (dispatch_CreateSurface icd_term (platform icd_surface)) (length (surface_calls st)) of (res, written) \<Rightarrow> do {
        list \<leftarrow> (case written of None \<Rightarrow> Some (gl_list (surface_list icd_term))
                  | Some w \<Rightarrow> buf_write (gl_list (surface_list icd_term)) (surface_index icd_surface) w);
        Some (res, (set_icd j (icd_term\<lparr>surface_list := (surface_list icd_term)\<lparr>gl_list := list\<rparr>\<rparr>) st)
                     \<lparr>surface_calls := surface_calls st @ [CreateCall () j res written]\<rparr>)
      })
      else Some (VK_ERROR_EXTENSION_NOT_PRESENT, st))"

text \<open>Surfaces of the platforms without an index are passed on as they are.\<close>

definition is_plain_surface :: "wsi_config \<Rightarrow> VkIcdSurface \<Rightarrow> bool" where
  "is_plain_surface cfg icd_surface =
     (built cfg VK_ICD_WSI_PLATFORM_ANDROID \<and> platform icd_surface = VK_ICD_WSI_PLATFORM_ANDROID \<or>
      built cfg VK_ICD_WSI_PLATFORM_MACOS \<and> platform icd_surface = VK_ICD_WSI_PLATFORM_IOS)"

definition checks_plain_surface :: "wsi_config \<Rightarrow> bool" where
  "checks_plain_surface cfg = (built cfg VK_ICD_WSI_PLATFORM_ANDROID \<or> built cfg VK_ICD_WSI_PLATFORM_MACOS)"

text \<open>The result is the code, the handle that replaces the argument, and the state.\<close>

definition wsi_unwrap_icd_surface ::
  "wsi_config \<Rightarrow> nat \<Rightarrow> nat \<Rightarrow> surface_instance \<Rightarrow> (VkResult \<times> nat \<times> surface_instance) option" where
  "wsi_unwrap_icd_surface cfg j surface st =
     (if j \<ge> length (surface_icds st) then None
      else do {
        let icd_term = surface_icds st ! j;
        let l = surface_list icd_term;
        plain \<leftarrow> (if checks_plain_surface cfg then map_option (is_plain_surface cfg) (surfaces st surface) else Some False);
        (if plain then Some (VK_SUCCESS, surface, st)
         else if gl_list l = NULL then Some (VK_SUCCESS, surface, st)
         else do {
           icd_surface \<leftarrow> surfaces st surface;
           (if gl_capacity l \<le> surface_index icd_surface * handle_size then Some (VK_SUCCESS, surface, st)
            else if interface_version icd_term \<ge> ICD_VER_SUPPORTS_ICD_SURFACE_KHR then do {
              handle \<leftarrow> buf_read (gl_list l) (surface_index icd_surface);
              (result, st) \<leftarrow> (if handle = 0 then create_icd_surface cfg j icd_surface st else Some (VK_SUCCESS, st));
              handle \<leftarrow> buf_read (gl_list (surface_list (surface_icds st ! j))) (surface_index icd_surface);
              Some (result, handle, st)
            }
            else Some (VK_SUCCESS, surface, st))
         })
      })"

section \<open>Creation\<close>

fun make_surface_room ::
  "allocator \<Rightarrow> nat \<Rightarrow> surface_icd_term list \<Rightarrow> heap \<Rightarrow> (VkResult \<times> surface_icd_term list \<times> heap) option" where
  "make_surface_room a next_index [] h = Some (VK_SUCCESS, [], h)"
| "make_surface_room a next_index (icd_term # rest) h =
     (if ext_khr_surface icd_term \<and> interface_version icd_term \<ge> ICD_VER_SUPPORTS_ICD_SURFACE_KHR then do {
        (res, l, h) \<leftarrow> make_handle_room a next_index (surface_list icd_term) h;
        let icd_term = icd_term\<lparr>surface_list := l\<rparr>;
        (if res \<noteq> VK_SUCCESS then Some (res, icd_term # rest, h)
         else do {
           (res, rest, h) \<leftarrow> make_surface_room a next_index rest h;
           Some (res, icd_term # rest, h)
         })
      }
      else do {
        (res, rest, h) \<leftarrow> make_surface_room a next_index rest h;
        Some (res, icd_term # rest, h)
      })"

text \<open>\<^verbatim>\<open>calloc\<close> gives a zeroed structure: platform 0 is \<^verbatim>\<open>VK_ICD_WSI_PLATFORM_MIR\<close>.  The result has the address of the structure, 0 on failure, when
  \<^verbatim>\<open>*out_icd_surface\<close> keeps the caller's null pointer.\<close>

definition allocate_icd_surface_struct ::
  "allocator \<Rightarrow> VkAllocationCallbacks option \<Rightarrow> surface_instance \<Rightarrow> (VkResult \<times> nat \<times> surface_instance) option" where
  "allocate_icd_surface_struct a pAllocator st = do {
     (res, next_index, l, h) \<leftarrow> loader_get_next_available_entry a pAllocator (surfaces_list st) (surface_heap st);
     let st = st\<lparr>surfaces_list := l, surface_heap := h\<rparr>;
     (if res \<noteq> VK_SUCCESS then Some (res, 0, st)
      else if \<not> succeeds (surface_heap st) then Some (VK_ERROR_OUT_OF_HOST_MEMORY, 0, st\<lparr>surface_heap := tick (surface_heap st)\<rparr>)
      else do {
        let icd_surface = next_surface st;
        let st = st\<lparr>next_surface := icd_surface + 1, surface_heap := add_live 1 (tick (surface_heap st))\<rparr>;
        (res, icds, h) \<leftarrow> make_surface_room a next_index (surface_icds st) (surface_heap st);
        let st = st\<lparr>surface_icds := icds, surface_heap := h\<rparr>;
        (if res \<noteq> VK_SUCCESS then Some (res, 0, st\<lparr>surface_heap := add_live (- 1) (surface_heap st)\<rparr>)
         else Some (VK_SUCCESS, icd_surface, st\<lparr>surfaces := (surfaces st)(icd_surface \<mapsto>
           \<lparr>platform = VK_ICD_WSI_PLATFORM_MIR, platform_fields = [], surface_index = next_index, create_info = None,
            callbacks_valid = False, callbacks = zero_callbacks\<rparr>)\<rparr>))
      })
   }"

text \<open>\<^verbatim>\<open>loader_aligned_size\<close>.\<close>

definition loader_aligned_size :: "nat \<Rightarrow> nat" where
  "loader_aligned_size x = ((x + 8 - 1) div 8) * 8"

text \<open>The size of the block for a chain, given the structure types that are known; \<open>None\<close> when one is not.\<close>

fun chain_size :: "(string \<times> nat) list \<Rightarrow> chain_structure list \<Rightarrow> nat \<Rightarrow> nat option" where
  "chain_size types [] sz = Some sz"
| "chain_size types (s # chain) sz =
     (case map_of types (sType s) of
        None \<Rightarrow> None
      | Some n \<Rightarrow> chain_size types chain (sz + loader_aligned_size n))"

text \<open>Copying into the block of \<open>sz\<close> bytes from offset \<open>dst\<close> on; a copy past its end is undefined.\<close>

fun copy_chain :: "(string \<times> nat) list \<Rightarrow> nat \<Rightarrow> nat \<Rightarrow> chain_structure list \<Rightarrow> (nat \<times> chain_structure) list option" where
  "copy_chain types sz dst [] = Some []"
| "copy_chain types sz dst (s # chain) =
     (case map_of types (sType s) of
        None \<Rightarrow> None
      | Some n \<Rightarrow>
          if dst + n > sz then None
          else map_option (\<lambda>copied. (dst, s) # copied) (copy_chain types sz (dst + loader_aligned_size n) chain))"

definition copy_surface_create_info ::
  "VkAllocationCallbacks option \<Rightarrow> (string \<times> nat) list \<Rightarrow> chain_structure list \<Rightarrow> nat \<Rightarrow> surface_instance \<Rightarrow>
     (VkResult \<times> surface_instance) option" where
  "copy_surface_create_info pAllocator struct_type_info chain icd_surface st =
     (case chain_size struct_type_info chain 0 of
        None \<Rightarrow> Some (VK_ERROR_EXTENSION_NOT_PRESENT, st)
      | Some create_info_total_size \<Rightarrow>
          if \<not> succeeds (surface_heap st) then Some (VK_ERROR_OUT_OF_HOST_MEMORY, st\<lparr>surface_heap := tick (surface_heap st)\<rparr>)
          else do {
            s \<leftarrow> surfaces st icd_surface;
            copied \<leftarrow> copy_chain struct_type_info create_info_total_size 0 chain;
            let s = s\<lparr>create_info := Some copied\<rparr>;
            let s = (case pAllocator of None \<Rightarrow> s | Some cb \<Rightarrow> s\<lparr>callbacks_valid := True, callbacks := cb\<rparr>);
            Some (VK_SUCCESS, st\<lparr>surfaces := (surfaces st)(icd_surface \<mapsto> s), surface_heap := add_live 1 (tick (surface_heap st))\<rparr>)
          })"

text \<open>Freeing a surface structure with the copy it owns.\<close>

definition free_surface :: "nat \<Rightarrow> surface_instance \<Rightarrow> surface_instance option" where
  "free_surface p st = do {
     s \<leftarrow> surfaces st p;
     Some (st\<lparr>surfaces := (surfaces st)(p := None),
              surface_heap := add_live (if create_info s = None then - 1 else - 2) (surface_heap st)\<rparr>)
   }"

fun cleanup_drivers :: "nat \<Rightarrow> nat \<Rightarrow> surface_icd_term list \<Rightarrow> unit driver_call list option" where
  "cleanup_drivers index j [] = Some []"
| "cleanup_drivers index j (icd_term # rest) = do {
     here \<leftarrow> (if ext_khr_surface icd_term \<and> gl_list (surface_list icd_term) \<noteq> NULL \<and>
                gl_capacity (surface_list icd_term) > index * handle_size then do {
                handle \<leftarrow> buf_read (gl_list (surface_list icd_term)) index;
                Some (if handle \<noteq> 0 \<and> dispatch_DestroySurfaceKHR icd_term then [DestroyCall () j handle] else [])
              }
              else Some []);
     later \<leftarrow> cleanup_drivers index (j + 1) rest;
     Some (here @ later)
   }"

definition cleanup_surface_creation ::
  "VkResult \<Rightarrow> nat \<Rightarrow> VkAllocationCallbacks option \<Rightarrow> surface_instance \<Rightarrow> surface_instance option" where
  "cleanup_surface_creation result icd_surface pAllocator st =
     (if result \<noteq> VK_SUCCESS \<and> icd_surface \<noteq> 0 then do {
        s \<leftarrow> surfaces st icd_surface;
        cs \<leftarrow> cleanup_drivers (surface_index s) 0 (surface_icds st);
        l \<leftarrow> clear_status pAllocator (surface_index s) (surfaces_list st);
        free_surface icd_surface (st\<lparr>surface_calls := surface_calls st @ cs, surfaces_list := l\<rparr>)
      }
      else Some st)"

text \<open>
  The creation terminators.  They differ in the platform, the fields kept in the surface object, the structures they know, and what they do when the extension of
  the platform is not enabled: refuse with a result, or only log and go on.
\<close>

datatype when_disabled = Refuse VkResult | Proceed

type_synonym surface_creation =
  "wsi_config \<Rightarrow> allocator \<Rightarrow> VkAllocationCallbacks option \<Rightarrow> chain_structure list \<Rightarrow> surface_instance \<Rightarrow>
     (VkResult \<times> nat option \<times> surface_instance) option"

text \<open>The middle result is what is written to \<^verbatim>\<open>*pSurface\<close>, \<open>None\<close> when nothing is.\<close>

definition create_surface_enabled ::
  "wsi_config \<Rightarrow> VkIcdWsiPlatform \<Rightarrow> string list \<Rightarrow> string list \<Rightarrow> allocator \<Rightarrow> VkAllocationCallbacks option \<Rightarrow> chain_structure list \<Rightarrow>
     surface_instance \<Rightarrow> (VkResult \<times> nat option \<times> surface_instance) option" where
  "create_surface_enabled cfg p captured ci_types a pAllocator pCreateInfo st = do {
     (result, icd_surface, st) \<leftarrow> allocate_icd_surface_struct a pAllocator st;
     (if result \<noteq> VK_SUCCESS then
        map_option (\<lambda>st. (result, None, st)) (cleanup_surface_creation result icd_surface pAllocator st)
      else do {
        s \<leftarrow> surfaces st icd_surface;
        (case pCreateInfo of
           [] \<Rightarrow> None
         | info # _ \<Rightarrow> do {
             let st = st\<lparr>surfaces := (surfaces st)(icd_surface \<mapsto> s\<lparr>platform := p, platform_fields := filter (\<lambda>(f, _). f \<in> set captured) (in_fields info)\<rparr>)\<rparr>;
             (result, st) \<leftarrow> copy_surface_create_info pAllocator (map (\<lambda>t. (t, sizeof_struct cfg t)) ci_types) pCreateInfo icd_surface st;
             (if result \<noteq> VK_SUCCESS then
                map_option (\<lambda>st. (result, None, st)) (cleanup_surface_creation result icd_surface pAllocator st)
              else Some (VK_SUCCESS, Some icd_surface, st))
           })
      })
   }"

definition create_surface :: "wsi_config \<Rightarrow> VkIcdWsiPlatform \<Rightarrow> when_disabled \<Rightarrow> string list \<Rightarrow> string list \<Rightarrow> allocator \<Rightarrow>
    VkAllocationCallbacks option \<Rightarrow> chain_structure list \<Rightarrow> surface_instance \<Rightarrow> (VkResult \<times> nat option \<times> surface_instance) option" where
  "create_surface cfg p disabled captured ci_types a pAllocator pCreateInfo st =
     (case (enabled_platform cfg p, disabled) of
        (False, Refuse result) \<Rightarrow> Some (result, None, st)
      | _ \<Rightarrow> create_surface_enabled cfg p captured ci_types a pAllocator pCreateInfo st)"

text \<open>Two of them first write the null handle.\<close>

definition null_on_failure :: "VkResult \<times> nat option \<times> surface_instance \<Rightarrow> VkResult \<times> nat option \<times> surface_instance" where
  "null_on_failure r = (case r of (result, written, st) \<Rightarrow> (result, Some (case written of None \<Rightarrow> 0 | Some p \<Rightarrow> p), st))"

definition terminator_CreateWin32SurfaceKHR :: surface_creation where
  "terminator_CreateWin32SurfaceKHR cfg a pAllocator pCreateInfo st =
     map_option null_on_failure (create_surface cfg VK_ICD_WSI_PLATFORM_WIN32 (Refuse VK_ERROR_EXTENSION_NOT_PRESENT)
     [''hinstance'', ''hwnd''] [''WIN32_SURFACE_CREATE_INFO_KHR''] a pAllocator pCreateInfo st)"

definition terminator_CreateWaylandSurfaceKHR :: surface_creation where
  "terminator_CreateWaylandSurfaceKHR cfg = create_surface cfg VK_ICD_WSI_PLATFORM_WAYLAND (Refuse VK_ERROR_EXTENSION_NOT_PRESENT)
     [''display'', ''surface''] [''WAYLAND_SURFACE_CREATE_INFO_KHR'']"

definition terminator_CreateXcbSurfaceKHR :: surface_creation where
  "terminator_CreateXcbSurfaceKHR cfg = create_surface cfg VK_ICD_WSI_PLATFORM_XCB (Refuse VK_ERROR_EXTENSION_NOT_PRESENT)
     [''connection'', ''window''] [''XCB_SURFACE_CREATE_INFO_KHR'']"

definition terminator_CreateXlibSurfaceKHR :: surface_creation where
  "terminator_CreateXlibSurfaceKHR cfg = create_surface cfg VK_ICD_WSI_PLATFORM_XLIB (Refuse VK_ERROR_EXTENSION_NOT_PRESENT)
     [''dpy'', ''window''] [''XLIB_SURFACE_CREATE_INFO_KHR'']"

definition terminator_CreateDirectFBSurfaceEXT :: surface_creation where
  "terminator_CreateDirectFBSurfaceEXT cfg = create_surface cfg VK_ICD_WSI_PLATFORM_DIRECTFB (Refuse VK_ERROR_EXTENSION_NOT_PRESENT)
     [''dfb'', ''surface''] [''DIRECTFB_SURFACE_CREATE_INFO_EXT'']"

definition terminator_CreateHeadlessSurfaceEXT :: surface_creation where
  "terminator_CreateHeadlessSurfaceEXT cfg = create_surface cfg VK_ICD_WSI_PLATFORM_HEADLESS (Refuse VK_SUCCESS)
     [] [''HEADLESS_SURFACE_CREATE_INFO_EXT'']"

definition terminator_CreateMacOSSurfaceMVK :: surface_creation where
  "terminator_CreateMacOSSurfaceMVK cfg = create_surface cfg VK_ICD_WSI_PLATFORM_MACOS (Refuse VK_ERROR_EXTENSION_NOT_PRESENT)
     [''pView''] [''MACOS_SURFACE_CREATE_INFO_MVK'']"

definition terminator_CreateStreamDescriptorSurfaceGGP :: surface_creation where
  "terminator_CreateStreamDescriptorSurfaceGGP cfg = create_surface cfg VK_ICD_WSI_PLATFORM_GGP (Refuse VK_ERROR_EXTENSION_NOT_PRESENT)
     [''streamDescriptor''] [''STREAM_DESCRIPTOR_SURFACE_CREATE_INFO_GGP'']"

definition terminator_CreateMetalSurfaceEXT :: surface_creation where
  "terminator_CreateMetalSurfaceEXT cfg = create_surface cfg VK_ICD_WSI_PLATFORM_METAL (Proceed)
     [''pLayer''] [''METAL_SURFACE_CREATE_INFO_EXT'']"

definition terminator_CreateScreenSurfaceQNX :: surface_creation where
  "terminator_CreateScreenSurfaceQNX cfg = create_surface cfg VK_ICD_WSI_PLATFORM_SCREEN (Refuse VK_ERROR_EXTENSION_NOT_PRESENT)
     [''context'', ''window''] [''SCREEN_SURFACE_CREATE_INFO_QNX'']"

definition terminator_CreateViSurfaceNN :: surface_creation where
  "terminator_CreateViSurfaceNN cfg = create_surface cfg VK_ICD_WSI_PLATFORM_VI (Refuse VK_ERROR_EXTENSION_NOT_PRESENT)
     [''window''] [''VI_SURFACE_CREATE_INFO_NN'']"

definition terminator_CreateDisplayPlaneSurfaceKHR :: surface_creation where
  "terminator_CreateDisplayPlaneSurfaceKHR cfg = create_surface cfg VK_ICD_WSI_PLATFORM_DISPLAY (Refuse VK_ERROR_EXTENSION_NOT_PRESENT)
     [''displayMode'', ''planeIndex'', ''planeStackIndex'', ''transform'', ''globalAlpha'', ''alphaMode'', ''imageExtent''] [''DISPLAY_SURFACE_CREATE_INFO_KHR'', ''DISPLAY_SURFACE_STEREO_CREATE_INFO_NV'']"

definition terminator_CreateImagePipeSurfaceFUCHSIA :: surface_creation where
  "terminator_CreateImagePipeSurfaceFUCHSIA cfg a pAllocator pCreateInfo st =
     map_option null_on_failure (create_surface cfg VK_ICD_WSI_PLATFORM_FUCHSIA (Refuse VK_ERROR_EXTENSION_NOT_PRESENT)
     [] [''IMAGEPIPE_SURFACE_CREATE_INFO_FUCHSIA''] a pAllocator pCreateInfo st)"

section \<open>Destruction\<close>

text \<open>The loop over the drivers; the assertion in its \<^verbatim>\<open>else\<close> branch is not part of a release build.\<close>

fun destroy_icd_surfaces :: "nat \<Rightarrow> nat \<Rightarrow> surface_icd_term list \<Rightarrow> (surface_icd_term list \<times> unit driver_call list) option" where
  "destroy_icd_surfaces index j [] = Some ([], [])"
| "destroy_icd_surfaces index j (icd_term # rest) = do {
     (icd_term, here) \<leftarrow>
       (if ext_khr_surface icd_term \<and> interface_version icd_term \<ge> ICD_VER_SUPPORTS_ICD_SURFACE_KHR \<and> dispatch_DestroySurfaceKHR icd_term then do {
          handle \<leftarrow> buf_read (gl_list (surface_list icd_term)) index;
          (if handle \<noteq> 0 then do {
             list \<leftarrow> buf_write (gl_list (surface_list icd_term)) index 0;
             Some (icd_term\<lparr>surface_list := (surface_list icd_term)\<lparr>gl_list := list\<rparr>\<rparr>, [DestroyCall () j handle])
           }
           else Some (icd_term, []))
        }
        else Some (icd_term, []));
     (rest, later) \<leftarrow> destroy_icd_surfaces index (j + 1) rest;
     Some (icd_term # rest, here @ later)
   }"

definition terminator_DestroySurfaceKHR :: "wsi_config \<Rightarrow> nat \<Rightarrow> surface_instance \<Rightarrow> surface_instance option" where
  "terminator_DestroySurfaceKHR cfg surface st =
     (if surface = 0 then Some st
      else do {
        icd_surface \<leftarrow> surfaces st surface;
        (if is_plain_surface cfg icd_surface then free_surface surface st
         else do {
           (icds, cs) \<leftarrow> destroy_icd_surfaces (surface_index icd_surface) 0 (surface_icds st);
           l \<leftarrow> loader_release_object_from_list (surfaces_list st) (surface_index icd_surface);
           free_surface surface (st\<lparr>surface_icds := icds, surface_calls := surface_calls st @ cs, surfaces_list := l\<rparr>)
         })
      })"

section \<open>Queries and swapchains\<close>

text \<open>The result of a function that may call \<^verbatim>\<open>abort\<close>; \<open>'o\<close> is what it writes through its output pointer.\<close>

datatype 'o outcome = Aborted | Returned VkResult 'o

text \<open>The driver is called with a handle: its own surface from interface version 3 on, otherwise the loader's structure.  A null handle is no
  surface.\<close>

definition call_driver :: "nat \<Rightarrow> nat \<Rightarrow> surface_instance \<Rightarrow> surface_instance" where
  "call_driver j handle st = st\<lparr>surface_calls := surface_calls st @
     [if handle \<noteq> 0 \<and> interface_version (surface_icds st ! j) \<ge> ICD_VER_SUPPORTS_ICD_SURFACE_KHR then UseCall () j handle
      else MessageCall j]\<rparr>"

text \<open>Unwrap, then call the entry \<open>f\<close> of the driver; \<open>failed\<close> is the result when unwrapping fails.\<close>

definition unwrap_and_call ::
  "wsi_config \<Rightarrow> nat \<Rightarrow> nat \<Rightarrow> (VkResult \<Rightarrow> 'o outcome) \<Rightarrow> (nat \<Rightarrow> VkResult \<times> 'o) \<Rightarrow> surface_instance \<Rightarrow> ('o outcome \<times> surface_instance) option" where
  "unwrap_and_call cfg j surface failed f st = do {
     (res, surface, st) \<leftarrow> wsi_unwrap_icd_surface cfg j surface st;
     (if res \<noteq> VK_SUCCESS then Some (failed res, st)
      else (case f surface of (r, out) \<Rightarrow> Some (Returned r out, call_driver j surface st)))
   }"

text \<open>The four queries of \<^verbatim>\<open>VK_KHR_surface\<close>: \<open>out\<close> is the value behind the output pointer, \<open>None\<close> when it is null; \<open>f\<close> the driver's entry.\<close>

definition terminator_GetPhysicalDeviceSurfaceSupportKHR ::
  "wsi_config \<Rightarrow> nat \<Rightarrow> (nat \<Rightarrow> VkResult \<times> bool) option \<Rightarrow> nat \<Rightarrow> bool option \<Rightarrow> surface_instance \<Rightarrow>
     (bool option outcome \<times> surface_instance) option" where
  "terminator_GetPhysicalDeviceSurfaceSupportKHR cfg j f surface pSupported st =
     (if \<not> enabled_khr_surface cfg then Some (Returned VK_SUCCESS pSupported, st)
      else if pSupported = None then Some (Aborted, st)
      else (case f of
        None \<Rightarrow> Some (Returned VK_SUCCESS (Some False), st)
      | Some g \<Rightarrow> unwrap_and_call cfg j surface (\<lambda>res. Returned VK_SUCCESS (Some False)) (\<lambda>s. map_prod id Some (g s)) st))"

definition terminator_GetPhysicalDeviceSurfaceCapabilitiesKHR ::
  "wsi_config \<Rightarrow> nat \<Rightarrow> (nat \<Rightarrow> VkResult \<times> nat list) option \<Rightarrow> nat \<Rightarrow> nat list option \<Rightarrow> surface_instance \<Rightarrow>
     (nat list option outcome \<times> surface_instance) option" where
  "terminator_GetPhysicalDeviceSurfaceCapabilitiesKHR cfg j f surface pSurfaceCapabilities st =
     (if \<not> enabled_khr_surface cfg then Some (Returned VK_SUCCESS pSurfaceCapabilities, st)
      else (case pSurfaceCapabilities of
        None \<Rightarrow> Some (Aborted, st)
      | Some caps \<Rightarrow>
          (case f of
             None \<Rightarrow> Some (Returned VK_SUCCESS (Some (map (\<lambda>_. 0) caps)), st)
           | Some g \<Rightarrow> unwrap_and_call cfg j surface (\<lambda>res. Returned res pSurfaceCapabilities) (\<lambda>s. map_prod id Some (g s)) st)))"

text \<open>Formats and present modes accept the null surface.  \<open>g\<close> has the count and the array as its output.\<close>

definition query_list ::
  "wsi_config \<Rightarrow> nat \<Rightarrow> (nat \<Rightarrow> VkResult \<times> nat \<times> 'e list) option \<Rightarrow> nat \<Rightarrow> nat option \<Rightarrow> 'e list \<Rightarrow> surface_instance \<Rightarrow>
     ((nat option \<times> 'e list) outcome \<times> surface_instance) option" where
  "query_list cfg j f surface pCount pElements st =
     (if \<not> enabled_khr_surface cfg then Some (Returned VK_SUCCESS (pCount, pElements), st)
      else if pCount = None then Some (Aborted, st)
      else (case f of
        None \<Rightarrow> Some (Returned VK_SUCCESS (Some 0, pElements), st)
      | Some g \<Rightarrow>
          if surface \<noteq> 0 then
            unwrap_and_call cfg j surface (\<lambda>res. Returned res (pCount, pElements)) (\<lambda>s. map_prod id (map_prod Some id) (g s)) st
          else (case g 0 of (r, n, es) \<Rightarrow> Some (Returned r (Some n, es), call_driver j 0 st))))"

definition terminator_GetPhysicalDeviceSurfaceFormatsKHR ::
  "wsi_config \<Rightarrow> nat \<Rightarrow> (nat \<Rightarrow> VkResult \<times> nat \<times> nat list) option \<Rightarrow> nat \<Rightarrow> nat option \<Rightarrow> nat list \<Rightarrow> surface_instance \<Rightarrow>
     ((nat option \<times> nat list) outcome \<times> surface_instance) option" where
  "terminator_GetPhysicalDeviceSurfaceFormatsKHR = query_list"

definition terminator_GetPhysicalDeviceSurfacePresentModesKHR ::
  "wsi_config \<Rightarrow> nat \<Rightarrow> (nat \<Rightarrow> VkResult \<times> nat \<times> nat list) option \<Rightarrow> nat \<Rightarrow> nat option \<Rightarrow> nat list \<Rightarrow> surface_instance \<Rightarrow>
     ((nat option \<times> nat list) outcome \<times> surface_instance) option" where
  "terminator_GetPhysicalDeviceSurfacePresentModesKHR = query_list"

text \<open>Swapchains: the surface in a copy of the creation structure is unwrapped; \<open>j\<close> is the driver of the device, \<open>None\<close> when the device is not one of
  the loader's.  The driver's entry is called once, after all surfaces are unwrapped; here it is recorded once per surface it is given.\<close>

definition terminator_CreateSwapchainKHR ::
  "wsi_config \<Rightarrow> nat option \<Rightarrow> (nat \<Rightarrow> VkResult \<times> nat option) option \<Rightarrow> nat option \<Rightarrow> surface_instance \<Rightarrow>
     (nat option outcome \<times> surface_instance) option" where
  "terminator_CreateSwapchainKHR cfg device f pCreateInfo st =
     (case device of
        None \<Rightarrow> Some (Aborted, st)
      | Some j \<Rightarrow>
          (case pCreateInfo of
             None \<Rightarrow> Some (Aborted, st)
           | Some surface \<Rightarrow>
               (case f of
                  None \<Rightarrow> Some (Returned VK_SUCCESS None, st)
                | Some g \<Rightarrow> unwrap_and_call cfg j surface (\<lambda>res. Returned res None) g st)))"

fun unwrap_all :: "wsi_config \<Rightarrow> nat \<Rightarrow> nat list \<Rightarrow> surface_instance \<Rightarrow> (VkResult \<times> nat list \<times> surface_instance) option" where
  "unwrap_all cfg j [] st = Some (VK_SUCCESS, [], st)"
| "unwrap_all cfg j (surface # rest) st = do {
     (res, handle, st) \<leftarrow> wsi_unwrap_icd_surface cfg j surface st;
     (if res \<noteq> VK_SUCCESS then Some (res, [], st)
      else do {
        (res, handles, st) \<leftarrow> unwrap_all cfg j rest st;
        Some (res, handle # handles, st)
      })
   }"

definition terminator_CreateSharedSwapchainsKHR ::
  "wsi_config \<Rightarrow> nat option \<Rightarrow> (nat list \<Rightarrow> VkResult \<times> nat list) option \<Rightarrow> nat list \<Rightarrow> surface_instance \<Rightarrow>
     (nat list outcome \<times> surface_instance) option" where
  "terminator_CreateSharedSwapchainsKHR cfg device f pCreateInfos st =
     (case device of
        None \<Rightarrow> Some (Aborted, st)
      | Some j \<Rightarrow>
          (case f of
             None \<Rightarrow> Some (Returned VK_SUCCESS [], st)
           | Some g \<Rightarrow> do {
               (res, handles, st) \<leftarrow> unwrap_all cfg j pCreateInfos st;
               (if res \<noteq> VK_SUCCESS then Some (Returned res [], st)
                else (case g handles of (r, out) \<Rightarrow> Some (Returned r out, fold (call_driver j) handles st)))
             }))"

end
