(* ===== verification/SurfaceHistory.thy ===== *)
theory SurfaceHistory
  imports Surfaces
begin

text \<open>
  What the surface terminators guarantee over a whole history: the copy of the creation structures is complete and stays in its
  block, a driver creates its surface at most once and only ever sees its own live handles, and destruction
  releases all of them.  And where they fall short.
\<close>

section \<open>The copied chain\<close>

lemma loader_aligned_size_ge: "n \<le> loader_aligned_size n"
  unfolding loader_aligned_size_def by presburger

lemma chain_size_mono: "chain_size types chain sz = Some n \<Longrightarrow> sz \<le> n"
proof (induction chain arbitrary: sz)
  case (Cons s chain)
  then obtain m where "chain_size types chain (sz + m) = Some n" by (auto split: option.splits)
  from Cons.IH [OF this] show ?case by simp
qed simp

lemma copy_chain_fits:
  "chain_size types chain dst = Some sz \<Longrightarrow>
     \<exists>copied. copy_chain types sz dst chain = Some copied \<and> map snd copied = chain"
proof (induction chain arbitrary: dst)
  case (Cons s chain)
  then obtain n where n: "map_of types (sType s) = Some n" and rest: "chain_size types chain (dst + loader_aligned_size n) = Some sz"
    by (auto split: option.splits)
  from chain_size_mono [OF rest] loader_aligned_size_ge [of n] have fits: "dst + n \<le> sz" by linarith
  from Cons.IH [OF rest] n fits show ?case by auto
qed simp

lemma copy_surface_create_info_cases:
  assumes "surfaces st p = Some s"
  shows "(\<exists>h. copy_surface_create_info pA types chain p st = Some (VK_ERROR_EXTENSION_NOT_PRESENT, st) \<or>
            copy_surface_create_info pA types chain p st = Some (VK_ERROR_OUT_OF_HOST_MEMORY, st\<lparr>surface_heap := h\<rparr>)) \<or>
         (\<exists>s' h. copy_surface_create_info pA types chain p st =
             Some (VK_SUCCESS, st\<lparr>surfaces := (surfaces st)(p \<mapsto> s'), surface_heap := h\<rparr>) \<and>
           surface_index s' = surface_index s \<and> platform s' = platform s \<and> map_option (map snd) (create_info s') = Some chain)"
proof (cases "chain_size types chain 0")
  case None
  then show ?thesis by (simp add: copy_surface_create_info_def)
next
  case (Some sz)
  from copy_chain_fits [OF this] obtain copied where c: "copy_chain types sz 0 chain = Some copied" "map snd copied = chain" by blast
  let ?s = "case pA of None \<Rightarrow> s\<lparr>create_info := Some copied\<rparr>
    | Some cb \<Rightarrow> s\<lparr>create_info := Some copied, callbacks_valid := True, callbacks := cb\<rparr>"
  show ?thesis
  proof (cases "succeeds (surface_heap st)")
    case True
    with Some c assms show ?thesis
      by (intro disjI2 exI [of _ ?s] exI [of _ "add_live 1 (tick (surface_heap st))"])
         (simp add: copy_surface_create_info_def Let_def split: option.split)
  next
    case False
    with Some show ?thesis by (auto simp: copy_surface_create_info_def)
  qed
qed

section \<open>Drivers\<close>

definition eligible :: "surface_icd_term \<Rightarrow> bool" where
  "eligible d \<longleftrightarrow> ext_khr_surface d \<and> interface_version d \<ge> ICD_VER_SUPPORTS_ICD_SURFACE_KHR"

text \<open>What the loader relies on: a driver with the surface extension can destroy surfaces, a successful creation returns a
  handle, a failed one leaves the null handle.  The last is not promised by the Vulkan specification, which leaves output parameters undefined on errors, but the loader passes the
  cell of its list as the output parameter and takes every cell that is not null for a live surface.\<close>

definition surface_driver_ok :: "surface_icd_term \<Rightarrow> bool" where
  "surface_driver_ok d \<longleftrightarrow> (eligible d \<longrightarrow> dispatch_DestroySurfaceKHR d) \<and>
     (\<forall>p create n r w. dispatch_CreateSurface d p = Some create \<longrightarrow> create n = (r, w) \<longrightarrow>
        (if r = VK_SUCCESS then \<exists>x. w = Some x \<and> x \<noteq> 0 else w = None \<or> w = Some 0))"

definition surface_cell :: "surface_icd_term \<Rightarrow> nat \<Rightarrow> nat" where
  "surface_cell d i = cells (surface_list d) ! i"

text \<open>The indices \<open>U\<close> in use have cells; every other cell is null.\<close>

definition icd_inv :: "nat set \<Rightarrow> surface_icd_term \<Rightarrow> bool" where
  "icd_inv U d \<longleftrightarrow> surface_driver_ok d \<and>
     (if eligible d then covers U (surface_list d) \<and> (\<forall>i<length (cells (surface_list d)). i \<notin> U \<longrightarrow> surface_cell d i = 0)
      else gl_list (surface_list d) = NULL)"

definition icd_objects :: "nat set \<Rightarrow> surface_icd_term \<Rightarrow> nat multiset" where
  "icd_objects U d = (if eligible d then filter_mset (\<lambda>x. x \<noteq> 0) (image_mset (surface_cell d) (mset_set U)) else {#})"

lemma icd_objects_cong:
  "eligible d' = eligible d \<Longrightarrow> (\<And>i. i \<in> U \<Longrightarrow> surface_cell d' i = surface_cell d i) \<Longrightarrow> finite U \<Longrightarrow> icd_objects U d' = icd_objects U d"
  by (auto simp: icd_objects_def intro!: arg_cong [of _ _ "filter_mset _"] image_mset_cong)

lemma icd_objects_insert:
  "finite U \<Longrightarrow> i \<notin> U \<Longrightarrow> surface_cell d i = 0 \<Longrightarrow> icd_objects (insert i U) d = icd_objects U d"
  by (simp add: icd_objects_def)

lemma icd_objects_split:
  assumes "finite U" and "i \<in> U" and "eligible d"
  shows "icd_objects U d = (if surface_cell d i = 0 then {#} else {#surface_cell d i#}) + icd_objects (U - {i}) d"
  using assms by (simp add: icd_objects_def mset_set.remove)

lemma eligible_list [simp]: "eligible (d\<lparr>surface_list := l\<rparr>) = eligible d"
  "surface_driver_ok (d\<lparr>surface_list := l\<rparr>) = surface_driver_ok d"
  by (simp_all add: eligible_def surface_driver_ok_def)

lemma covers_cells: "covers U l \<Longrightarrow> i \<in> U \<Longrightarrow> gl_list l = Buf (cells l) \<and> i < length (cells l)"
  by (auto simp: covers_def cells_def split: buf.splits)

text \<open>Writing a cell in use.\<close>

lemma icd_write:
  fixes x :: nat
  assumes "icd_inv U d" and "eligible d" and "i \<in> U" and "finite U"
  defines "d' \<equiv> d\<lparr>surface_list := (surface_list d)\<lparr>gl_list := Buf ((cells (surface_list d))[i := x])\<rparr>\<rparr>"
  shows "icd_inv U d'" and "icd_objects U d' = (if x = 0 then {#} else {#x#}) + icd_objects (U - {i}) d"
    and "surface_cell d' i = x"
proof -
  from assms have cov: "covers U (surface_list d)" and zero: "\<forall>k<length (cells (surface_list d)). k \<notin> U \<longrightarrow> surface_cell d k = 0"
    and ok: "surface_driver_ok d" by (simp_all add: icd_inv_def)
  from covers_cells [OF cov assms(3)] have buf: "gl_list (surface_list d) = Buf (cells (surface_list d))"
    and i: "i < length (cells (surface_list d))" by auto
  have "covers U (surface_list d')"
    using covers_write [OF buf cov, of "(cells (surface_list d))[i := x]" U] cov by (simp add: d'_def covers_Buf [OF buf])
  moreover have el: "eligible d'" and "surface_driver_ok d'" using assms(2) ok by (simp_all add: d'_def)
  moreover have cells': "surface_cell d' k = (if k = i then x else surface_cell d k)" for k
    using i by (simp add: surface_cell_def d'_def cells_def nth_list_update)
  moreover have "length (cells (surface_list d')) = length (cells (surface_list d))" by (simp add: d'_def cells_def)
  ultimately show "icd_inv U d'" using zero assms(3) by (auto simp: icd_inv_def)
  show "surface_cell d' i = x" by (simp add: cells')
  have "icd_objects (U - {i}) d' = icd_objects (U - {i}) d"
    using assms(4) el assms(2) by (intro icd_objects_cong) (auto simp: cells')
  then show "icd_objects U d' = (if x = 0 then {#} else {#x#}) + icd_objects (U - {i}) d"
    unfolding icd_objects_split [OF assms(4,3) el] by (simp add: cells')
qed

text \<open>Releasing an index whose cell is null.\<close>

lemma icd_release:
  assumes "icd_inv U d" and "i \<in> U" and "eligible d \<Longrightarrow> surface_cell d i = 0" and "finite U"
  shows "icd_inv (U - {i}) d" and "icd_objects (U - {i}) d = icd_objects U d"
proof -
  show "icd_inv (U - {i}) d"
    using assms(1,3) by (auto simp: icd_inv_def covers_def split: buf.splits if_splits)
  show "icd_objects (U - {i}) d = icd_objects U d"
  proof (cases "eligible d")
    case True
    with icd_objects_split [OF assms(4,2) True] assms(3) show ?thesis by simp
  next
    case False
    then show ?thesis by (simp add: icd_objects_def)
  qed
qed

section \<open>Making room\<close>

text \<open>An allocator without a reallocation callback clears what it adds to a block.\<close>

definition clears_new_memory :: "allocator \<Rightarrow> bool" where
  "clears_new_memory a = (case a of None \<Rightarrow> True | Some cb \<Rightarrow> \<not> pfnReallocation cb)"

lemma realloc_fill_clears: "clears_new_memory a \<Longrightarrow> realloc_fill a z j = z"
  by (simp add: clears_new_memory_def realloc_fill_def split: option.splits)

definition roomy :: "nat set \<Rightarrow> nat \<Rightarrow> surface_icd_term \<Rightarrow> surface_icd_term \<Rightarrow> bool" where
  "roomy U idx d d' \<longleftrightarrow> eligible d' = eligible d \<and> icd_inv (insert idx U) d' \<and> (eligible d \<longrightarrow> surface_cell d' idx = 0) \<and>
     (\<forall>i\<in>U. eligible d \<longrightarrow> surface_cell d' i = surface_cell d i)"

lemma make_surface_room_spec:
  assumes "\<forall>d\<in>set icds. icd_inv U d" and "{..<idx} \<subseteq> U" and "idx \<notin> U" and "idx < 2 ^ 31" and "clears_new_memory a"
  shows "\<exists>res icds' h'. make_surface_room a idx icds h = Some (res, icds', h') \<and>
           (res = VK_SUCCESS \<longrightarrow> list_all2 (roomy U idx) icds icds')"
  using assms(1)
proof (induction icds arbitrary: h)
  case (Cons d icds)
  then have d: "icd_inv U d" and rest: "\<forall>d\<in>set icds. icd_inv U d" by auto
  show ?case
  proof (cases "eligible d")
    case False
    then have "roomy U idx d d" using d by (simp add: roomy_def icd_inv_def)
    with Cons.IH [OF rest, of h] False show ?thesis by (auto simp: eligible_def)
  next
    case True
    with d have cov: "covers U (surface_list d)" and zero: "\<forall>i<length (cells (surface_list d)). i \<notin> U \<longrightarrow> surface_cell d i = 0"
      and ok: "surface_driver_ok d" by (simp_all add: icd_inv_def)
    have fill: "(if cells (surface_list d) = [] then 0 else realloc_fill a 0 1) = (0::nat)"
      by (simp only: realloc_fill_clears [OF assms(5)] if_cancel)
    from make_handle_room_cases [OF cov assms(2,4), of a h, unfolded fill]
    obtain res l h1 where r: "make_handle_room a idx (surface_list d) h = Some (res, l, h1)"
      and s: "res = VK_SUCCESS \<Longrightarrow> \<exists>n. gl_list l = Buf (cells (surface_list d) @ replicate n 0) \<and> covers (insert idx U) l" by blast
    show ?thesis
    proof (cases "res = VK_SUCCESS")
      case False
      then show ?thesis using True r by (auto simp: eligible_def)
    next
      case succ: True
      then obtain n where n: "gl_list l = Buf (cells (surface_list d) @ replicate n 0)" and cov': "covers (insert idx U) l" using s by blast
      have nth: "surface_cell (d\<lparr>surface_list := l\<rparr>) i = (if i < length (cells (surface_list d)) then surface_cell d i else 0)"
        if "i < length (cells l)" for i using that n by (auto simp: surface_cell_def cells_def nth_append)
      have inU: "i < length (cells l)" if "i \<in> insert idx U" for i using covers_cells [OF cov' that] by simp
      have "roomy U idx d (d\<lparr>surface_list := l\<rparr>)"
        unfolding roomy_def
      proof (intro conjI impI ballI)
        show "icd_inv (insert idx U) (d\<lparr>surface_list := l\<rparr>)"
          using True ok cov' zero nth by (auto simp: icd_inv_def)
        show "surface_cell (d\<lparr>surface_list := l\<rparr>) idx = 0" using nth [OF inU [of idx]] zero assms(3) by simp
      next
        fix i assume "i \<in> U"
        then show "surface_cell (d\<lparr>surface_list := l\<rparr>) i = surface_cell d i"
          using nth [OF inU [of i]] covers_cells [OF cov] by simp
      qed simp
      with Cons.IH [OF rest, of h1] True r succ show ?thesis by (auto simp: eligible_def)
    qed
  qed
qed simp

section \<open>The invariant\<close>

abbreviation index_of :: "surface_instance \<Rightarrow> nat \<Rightarrow> nat" where
  "index_of st p \<equiv> surface_index (the (surfaces st p))"

definition drivers_hold :: "nat set \<Rightarrow> surface_icd_term list \<Rightarrow> unit driver_call list \<Rightarrow> bool" where
  "drivers_hold U icds cs \<longleftrightarrow> (\<forall>d\<in>set icds. icd_inv U d) \<and>
     (\<forall>j<length icds. driver_objects () j cs = Some (icd_objects U (icds ! j)))"

definition surf_inv :: "surface_instance \<Rightarrow> nat list \<Rightarrow> bool" where
  "surf_inv st out \<longleftrightarrow> distinct out \<and> dom (surfaces st) = set out \<and> 0 \<notin> set out \<and> 0 < next_surface st \<and>
     (\<forall>p\<in>set out. p < next_surface st) \<and> wf_generic_list used_object_size (surfaces_list st) \<and>
     bij_betw (index_of st) (set out) (used_slots (surfaces_list st)) \<and>
     drivers_hold (used_slots (surfaces_list st)) (surface_icds st) (surface_calls st)"

lemma finite_slots [simp]: "finite (used_slots l)"
  by (auto simp: used_slots_def split: buf.splits)

lemma surf_inv_heap [simp]: "surf_inv (st\<lparr>surface_heap := h\<rparr>) out = surf_inv st out"
  by (simp add: surf_inv_def)

lemma index_in_use: "surf_inv st out \<Longrightarrow> p \<in> set out \<Longrightarrow> index_of st p \<in> used_slots (surfaces_list st)"
  unfolding surf_inv_def by (meson bij_betwE)

text \<open>Reserving an index with room in every list.\<close>

lemma drivers_hold_room:
  assumes "drivers_hold U icds cs" and "list_all2 (roomy U idx) icds icds'" and "idx \<notin> U" and "finite U"
  shows "drivers_hold (insert idx U) icds' cs"
  unfolding drivers_hold_def
proof (intro conjI ballI allI impI)
  have len: "length icds' = length icds" using assms(2) by (simp add: list_all2_lengthD)
  have nth: "roomy U idx (icds ! j) (icds' ! j)" if "j < length icds" for j using assms(2) that by (rule list_all2_nthD)
  fix d' assume "d' \<in> set icds'"
  then obtain j where "j < length icds" "d' = icds' ! j" by (auto simp: in_set_conv_nth len)
  with nth show "icd_inv (insert idx U) d'" by (auto simp: roomy_def)
next
  have len: "length icds' = length icds" using assms(2) by (simp add: list_all2_lengthD)
  fix j assume "j < length icds'"
  then have j: "j < length icds" by (simp add: len)
  with assms(2) have r: "roomy U idx (icds ! j) (icds' ! j)" by (rule list_all2_nthD)
  have "icd_objects (insert idx U) (icds' ! j) = icd_objects U (icds ! j)"
  proof (cases "eligible (icds ! j)")
    case True
    then have "icd_objects (insert idx U) (icds' ! j) = icd_objects U (icds' ! j)"
      using r assms(3,4) by (intro icd_objects_insert) (auto simp: roomy_def)
    also have "\<dots> = icd_objects U (icds ! j)" using r True assms(4) by (intro icd_objects_cong) (auto simp: roomy_def)
    finally show ?thesis .
  next
    case False
    with r show ?thesis by (simp add: roomy_def icd_objects_def)
  qed
  with assms(1) j show "driver_objects () j cs = Some (icd_objects (insert idx U) (icds' ! j))" by (simp add: drivers_hold_def)
qed

text \<open>Allocation: success reserves a fresh index, every cell of which is null; without a leaked index failure changes nothing that matters.\<close>

lemma allocate_icd_surface_struct_spec:
  assumes inv: "surf_inv st out" and room: "slots_room (surfaces_list st)" and clr: "clears_new_memory a"
  shows "\<exists>r p st'. allocate_icd_surface_struct a pA st = Some (r, p, st') \<and>
     (r \<noteq> VK_SUCCESS \<longrightarrow> p = 0 \<and> (used_slots (surfaces_list st') = used_slots (surfaces_list st) \<longrightarrow> surf_inv st' out)) \<and>
     (r = VK_SUCCESS \<longrightarrow> p \<notin> set out \<and> p \<noteq> 0 \<and> surf_inv st' (p # out) \<and>
        (\<exists>s. surfaces st' p = Some s \<and> (\<forall>d\<in>set (surface_icds st'). eligible d \<longrightarrow> surface_cell d (surface_index s) = 0)))"
proof -
  let ?U = "used_slots (surfaces_list st)"
  from inv have wf: "wf_generic_list used_object_size (surfaces_list st)"
    and hold: "drivers_hold ?U (surface_icds st) (surface_calls st)" by (simp_all add: surf_inv_def)
  from acquire_slot [OF wf room, of a pA "surface_heap st"] obtain r idx l h where
    acq: "loader_get_next_available_entry a pA (surfaces_list st) (surface_heap st) = Some (r, idx, l, h)"
    and wfl: "wf_generic_list used_object_size l"
    and c: "r = VK_SUCCESS \<and> idx \<notin> ?U \<and> used_slots l = insert idx ?U \<or> r = VK_ERROR_OUT_OF_HOST_MEMORY \<and> used_slots l = ?U" by blast
  show ?thesis
  proof (cases "r = VK_SUCCESS")
    case False
    with c have "used_slots l = ?U" by auto
    with inv wfl have "surf_inv (st\<lparr>surfaces_list := l, surface_heap := h\<rparr>) out" by (simp add: surf_inv_def)
    with False acq show ?thesis by (simp add: allocate_icd_surface_struct_def)
  next
    case r: True
    with c have l: "idx \<notin> ?U" "used_slots l = insert idx ?U" by auto
    from acquire_slot_minimal [OF wf room acq [unfolded r]] have low: "{..<idx} \<subseteq> ?U" "idx < 2 ^ 31" by auto
    show ?thesis
    proof (cases "succeeds h")
      case False
      with r acq l show ?thesis by (simp add: allocate_icd_surface_struct_def Let_def) blast
    next
      case succ: True
      let ?h = "add_live 1 (tick h)" and ?p = "next_surface st"
      have "\<forall>d\<in>set (surface_icds st). icd_inv ?U d" using hold by (simp add: drivers_hold_def)
      from make_surface_room_spec [OF this low(1) l(1) low(2) clr, of ?h] obtain res icds h' where
        mk: "make_surface_room a idx (surface_icds st) ?h = Some (res, icds, h')"
        and rm: "res = VK_SUCCESS \<Longrightarrow> list_all2 (roomy ?U idx) (surface_icds st) icds" by blast
      show ?thesis
      proof (cases "res = VK_SUCCESS")
        case False
        with r acq succ mk l show ?thesis by (simp add: allocate_icd_surface_struct_def Let_def) blast
      next
        case res: True
        let ?s = "\<lparr>platform = VK_ICD_WSI_PLATFORM_MIR, platform_fields = [], surface_index = idx, create_info = None,
            callbacks_valid = False, callbacks = zero_callbacks\<rparr>"
        let ?st = "st\<lparr>surfaces_list := l, next_surface := ?p + 1, surface_icds := icds, surface_heap := h', surfaces := (surfaces st)(?p \<mapsto> ?s)\<rparr>"
        have run: "allocate_icd_surface_struct a pA st = Some (VK_SUCCESS, ?p, ?st)"
          using r acq succ mk res by (simp add: allocate_icd_surface_struct_def Let_def)
        have p: "?p \<notin> set out" "?p \<noteq> 0" using inv by (auto simp: surf_inv_def)
        have hold': "drivers_hold (insert idx ?U) icds (surface_calls st)"
          by (rule drivers_hold_room [OF hold rm [OF res] l(1)]) simp
        have "bij_betw (index_of ?st) (set out) ?U"
          using inv p by (subst bij_betw_cong [of _ _ "index_of st"]) (auto simp: surf_inv_def)
        then have "bij_betw (index_of ?st) (set out \<union> {?p}) (?U \<union> {index_of ?st ?p})"
          using p l by (intro notIn_Un_bij_betw) auto
        then have "surf_inv ?st (?p # out)"
          using inv p hold' wfl l by (auto simp: surf_inv_def less_Suc_eq)
        moreover have "\<forall>d\<in>set icds. eligible d \<longrightarrow> surface_cell d idx = 0"
          using rm [OF res] by (auto simp: list_all2_conv_all_nth in_set_conv_nth roomy_def)
        ultimately show ?thesis using run p by auto
      qed
    qed
  qed
qed

text \<open>Forgetting a surface.\<close>

lemma surf_inv_remove:
  assumes inv: "surf_inv st out" and p: "p \<in> set out" and hold: "drivers_hold (used_slots (surfaces_list st) - {index_of st p}) icds cs"
    and l: "wf_generic_list used_object_size l" "used_slots l = used_slots (surfaces_list st) - {index_of st p}"
    and st': "surfaces st' = (surfaces st)(p := None)" "surfaces_list st' = l" "surface_icds st' = icds" "surface_calls st' = cs"
      "next_surface st' = next_surface st"
  shows "surf_inv st' (remove1 p out)"
proof -
  have d: "distinct out" and dm: "dom (surfaces st) = set out" using inv by (simp_all add: surf_inv_def)
  have set: "set (remove1 p out) = set out - {p}" using d by simp
  have "bij_betw (index_of st) (set out - {p}) (used_slots (surfaces_list st) - {index_of st p})"
    using inv p by (intro bij_betw_DiffI [of _ "set out"]) (auto simp: surf_inv_def bij_betw_def)
  moreover have "bij_betw (index_of st') (set out - {p}) V = bij_betw (index_of st) (set out - {p}) V" for V
    by (intro bij_betw_cong) (simp add: st')
  moreover have "distinct (remove1 p out)" "0 \<notin> set (remove1 p out)" "\<forall>q\<in>set out - {p}. q < next_surface st"
    using inv set by (auto simp: surf_inv_def)
  ultimately show ?thesis using inv l hold set st' dm unfolding surf_inv_def by simp
qed

lemma cleanup_drivers_null:
  assumes "\<forall>d\<in>set icds. icd_inv U d \<and> (eligible d \<longrightarrow> surface_cell d i = 0)" and "i \<in> U"
  shows "cleanup_drivers i j icds = Some []"
  using assms(1)
proof (induction icds arbitrary: j)
  case (Cons d icds)
  show ?case
  proof (cases "eligible d")
    case True
    with Cons.prems have "covers U (surface_list d)" "surface_cell d i = 0" by (auto simp: icd_inv_def)
    with covers_cells [OF _ assms(2), of "surface_list d"] Cons show ?thesis by (auto simp: surface_cell_def)
  next
    case False
    with Cons have "gl_list (surface_list d) = NULL" by (simp add: icd_inv_def)
    with Cons show ?thesis by simp
  qed
qed simp

lemma drivers_hold_release:
  assumes "drivers_hold U icds cs" and "i \<in> U" and "\<forall>d\<in>set icds. eligible d \<longrightarrow> surface_cell d i = 0" and "finite U"
  shows "drivers_hold (U - {i}) icds cs"
  using assms icd_release [of U _ i] by (auto simp: drivers_hold_def)

text \<open>A creation that fails after the allocation is undone.\<close>

lemma cleanup_surface_creation_spec:
  assumes inv: "surf_inv st out" and p: "p \<in> set out" and s: "surfaces st p = Some s"
    and null: "\<forall>d\<in>set (surface_icds st). eligible d \<longrightarrow> surface_cell d (surface_index s) = 0" and r: "r \<noteq> VK_SUCCESS"
  shows "\<exists>st'. cleanup_surface_creation r p pA st = Some st' \<and> surf_inv st' (remove1 p out) \<and>
           used_slots (surfaces_list st') = used_slots (surfaces_list st) - {surface_index s}"
proof -
  let ?U = "used_slots (surfaces_list st)"
  have idx: "index_of st p = surface_index s" using s by simp
  have iU: "surface_index s \<in> ?U" using index_in_use [OF inv p] idx by simp
  have hold: "drivers_hold ?U (surface_icds st) (surface_calls st)" and p0: "p \<noteq> 0" using inv p by (auto simp: surf_inv_def)
  have "\<forall>d\<in>set (surface_icds st). icd_inv ?U d \<and> (eligible d \<longrightarrow> surface_cell d (surface_index s) = 0)"
    using hold null by (simp add: drivers_hold_def)
  note cl = cleanup_drivers_null [OF this iU, of 0]
  have "wf_generic_list used_object_size (surfaces_list st)" using inv by (simp add: surf_inv_def)
  from clear_status_releases [OF this, of pA "surface_index s"] obtain l where
    l: "clear_status pA (surface_index s) (surfaces_list st) = Some l" "wf_generic_list used_object_size l"
      "used_slots l = ?U - {surface_index s}" by blast
  let ?st = "st\<lparr>surface_calls := surface_calls st, surfaces_list := l, surfaces := (surfaces st)(p := None),
    surface_heap := add_live (if create_info s = None then - 1 else - 2) (surface_heap st)\<rparr>"
  have "cleanup_surface_creation r p pA st = Some ?st"
    using r p0 s cl l(1) by (simp add: cleanup_surface_creation_def free_surface_def)
  moreover have "surf_inv ?st (remove1 p out)"
    by (rule surf_inv_remove [OF inv p, of "surface_icds st" "surface_calls st" l])
       (use drivers_hold_release [OF hold iU null] idx l in simp_all)
  ultimately show ?thesis using l by auto
qed

section \<open>The driver's surface\<close>

text \<open>The objects of one driver change.\<close>

lemma drivers_hold_update:
  assumes "drivers_hold U icds cs" and "j < length icds" and "icd_inv U d'"
    and "\<And>i. i \<noteq> j \<Longrightarrow> driver_objects () i cs' = driver_objects () i cs"
    and "driver_objects () j cs' = Some (icd_objects U d')"
  shows "drivers_hold U (icds[j := d']) cs'"
  using assms by (auto simp: drivers_hold_def nth_list_update dest!: subsetD [OF set_update_subset_insert])

lemma wsi_unwrap_icd_surface_spec:
  assumes inv: "surf_inv st out" and p: "p \<in> set out" and j: "j < length (surface_icds st)" and cfg: "\<not> checks_plain_surface cfg"
  shows "\<exists>r handle st'. wsi_unwrap_icd_surface cfg j p st = Some (r, handle, st') \<and> surf_inv st' out \<and>
     surfaces st' = surfaces st \<and> surfaces_list st' = surfaces_list st \<and> length (surface_icds st') = length (surface_icds st) \<and>
     interface_version (surface_icds st' ! j) = interface_version (surface_icds st ! j) \<and>
     (\<not> eligible (surface_icds st ! j) \<longrightarrow> r = VK_SUCCESS \<and> handle = p \<and> st' = st) \<and>
     (eligible (surface_icds st ! j) \<longrightarrow> eligible (surface_icds st' ! j) \<and> surface_cell (surface_icds st' ! j) (index_of st p) = handle \<and>
        (r = VK_SUCCESS \<longrightarrow> handle \<noteq> 0) \<and> (surface_cell (surface_icds st ! j) (index_of st p) \<noteq> 0 \<longrightarrow> r = VK_SUCCESS \<and> st' = st))"
proof -
  let ?d = "surface_icds st ! j" and ?U = "used_slots (surfaces_list st)" and ?i = "index_of st p"
  from inv p obtain s where s: "surfaces st p = Some s" by (auto simp: surf_inv_def)
  have iU: "?i \<in> ?U" by (rule index_in_use [OF inv p])
  have hold: "drivers_hold ?U (surface_icds st) (surface_calls st)" using inv by (simp add: surf_inv_def)
  then have d: "icd_inv ?U ?d" and obj: "driver_objects () j (surface_calls st) = Some (icd_objects ?U ?d)"
    using j by (simp_all add: drivers_hold_def)
  show ?thesis
  proof (cases "eligible ?d")
    case False
    then have "gl_list (surface_list ?d) = NULL" using d by (simp add: icd_inv_def)
    then have "wsi_unwrap_icd_surface cfg j p st = Some (VK_SUCCESS, p, st)"
      using j cfg by (simp add: wsi_unwrap_icd_surface_def)
    with False inv show ?thesis by simp
  next
    case True
    then have cov: "covers ?U (surface_list ?d)" and dok: "surface_driver_ok ?d" and iv: "interface_version ?d \<ge> ICD_VER_SUPPORTS_ICD_SURFACE_KHR"
      using d by (simp_all add: icd_inv_def eligible_def)
    let ?xs = "cells (surface_list ?d)"
    from covers_cells [OF cov iU] have buf: "gl_list (surface_list ?d) = Buf ?xs" and len: "?i < length ?xs" by auto
    have cap: "\<not> gl_capacity (surface_list ?d) \<le> surface_index s * handle_size"
      using cov len s by (simp add: covers_Buf [OF buf] handle_size_def)
    have unwrap: "wsi_unwrap_icd_surface cfg j p st =
        (if surface_cell ?d ?i = 0 then do {
           (result, st) \<leftarrow> create_icd_surface cfg j s st;
           handle \<leftarrow> buf_read (gl_list (surface_list (surface_icds st ! j))) (surface_index s);
           Some (result, handle, st)
         } else Some (VK_SUCCESS, surface_cell ?d ?i, st))"
      using j cfg buf len cap iv s by (simp add: wsi_unwrap_icd_surface_def surface_cell_def)
    show ?thesis
    proof (cases "surface_cell ?d ?i = 0")
      case False
      with unwrap inv True show ?thesis by auto
    next
      case zero: True
      let ?upd = "\<lambda>x. ?d\<lparr>surface_list := (surface_list ?d)\<lparr>gl_list := Buf (?xs[?i := x])\<rparr>\<rparr>"
      note wr = icd_write [OF d True iU, simplified]
      have old: "icd_objects ?U ?d = icd_objects (?U - {?i}) ?d" using icd_objects_split [OF _ iU True] zero by simp
      consider (no) "create_icd_surface cfg j s st = Some (VK_ERROR_EXTENSION_NOT_PRESENT, st)"
        | (call) create r w where "dispatch_CreateSurface ?d (platform s) = Some create" "create (length (surface_calls st)) = (r, w)"
           "create_icd_surface cfg j s st = Some (r, (set_icd j (?upd (case w of None \<Rightarrow> 0 | Some x \<Rightarrow> x)) st)
              \<lparr>surface_calls := surface_calls st @ [CreateCall () j r w]\<rparr>)"
      proof (cases "platform_case cfg (platform s) \<and> dispatch_CreateSurface ?d (platform s) \<noteq> None \<and> ext_platform ?d (platform s)")
        case False
        then have "create_icd_surface cfg j s st = Some (VK_ERROR_EXTENSION_NOT_PRESENT, st)"
          unfolding create_icd_surface_def Let_def by (rule if_not_P)
        then show thesis by (rule that(1))
      next
        case on: True
        then obtain create where create: "dispatch_CreateSurface ?d (platform s) = Some create" by auto
        obtain r w where answer: "create (length (surface_calls st)) = (r, w)" by force
        have same: "?xs[?i := 0] = ?xs" using zero by (metis surface_cell_def list_update_id)
        have "gl_list (surface_list ?d) = Buf (?xs[?i := 0])" using buf same by simp
        then show thesis using that(2) [OF create answer] on create answer buf len s
          by (cases w) (simp_all add: create_icd_surface_def Let_def same)
      qed
      then show ?thesis
      proof cases
        case no
        with unwrap zero buf len s inv True show ?thesis by (auto simp: surface_cell_def)
      next
        case call
        let ?x = "case w of None \<Rightarrow> 0 | Some x \<Rightarrow> x"
        let ?st = "(set_icd j (?upd ?x) st)\<lparr>surface_calls := surface_calls st @ [CreateCall () j r w]\<rparr>"
        have okw: "if r = VK_SUCCESS then \<exists>x. w = Some x \<and> x \<noteq> 0 else w = None \<or> w = Some 0"
          using dok call(1,2) unfolding surface_driver_ok_def by blast
        have "driver_objects () j (surface_calls ?st) = Some (icd_objects ?U (?upd ?x))"
          using okw obj wr(2) [of ?x] old by (auto split: if_splits)
        moreover have "driver_objects () i (surface_calls ?st) = driver_objects () i (surface_calls st)" if "i \<noteq> j" for i
          using that by (simp add: driver_step_other)
        ultimately have "drivers_hold ?U ((surface_icds st)[j := ?upd ?x]) (surface_calls ?st)"
          by (intro drivers_hold_update [OF hold j wr(1)])
        then have "surf_inv ?st out" using inv by (simp add: surf_inv_def set_icd_def)
        moreover have "wsi_unwrap_icd_surface cfg j p st = Some (r, ?x, ?st)"
          using unwrap zero call(3) j len s by (simp add: set_icd_def)
        moreover have "r = VK_SUCCESS \<longrightarrow> ?x \<noteq> 0" using okw by auto
        ultimately show ?thesis using True wr(3) [of ?x] j zero by (auto simp: set_icd_def)
      qed
    qed
  qed
qed

section \<open>Creation as a whole\<close>

lemma surf_inv_same_index:
  assumes "surf_inv st out" and "surfaces st p = Some s" and "surface_index s' = surface_index s"
    and "surfaces st' = (surfaces st)(p \<mapsto> s')" and "surfaces_list st' = surfaces_list st" and "surface_icds st' = surface_icds st"
    and "surface_calls st' = surface_calls st" and "next_surface st' = next_surface st"
  shows "surf_inv st' out"
proof -
  have "dom (surfaces st') = dom (surfaces st)" using assms(2,4) by auto
  moreover have "bij_betw (index_of st') (set out) V = bij_betw (index_of st) (set out) V" for V
    using assms(2,3,4) by (intro bij_betw_cong) auto
  ultimately show ?thesis using assms unfolding surf_inv_def by simp
qed

lemma create_surface_enabled_spec:
  assumes inv: "surf_inv st out" and room: "slots_room (surfaces_list st)" and clr: "clears_new_memory a" and info: "pCreateInfo \<noteq> []"
  shows "\<exists>r w st'. create_surface_enabled cfg pl captured ci_types a pA pCreateInfo st = Some (r, w, st') \<and>
     (r = VK_SUCCESS \<longrightarrow> (\<exists>p s. w = Some p \<and> p \<notin> set out \<and> surf_inv st' (p # out) \<and> surfaces st' p = Some s \<and> platform s = pl \<and>
        map_option (map snd) (create_info s) = Some pCreateInfo)) \<and>
     (r \<noteq> VK_SUCCESS \<longrightarrow> w = None \<and> (used_slots (surfaces_list st') = used_slots (surfaces_list st) \<longrightarrow> surf_inv st' out))"
proof -
  from allocate_icd_surface_struct_spec [OF inv room clr, of pA] obtain r p st1 where
    al: "allocate_icd_surface_struct a pA st = Some (r, p, st1)"
    and f: "r \<noteq> VK_SUCCESS \<Longrightarrow> p = 0 \<and> (used_slots (surfaces_list st1) = used_slots (surfaces_list st) \<longrightarrow> surf_inv st1 out)"
    and t: "r = VK_SUCCESS \<Longrightarrow> p \<notin> set out \<and> p \<noteq> 0 \<and> surf_inv st1 (p # out) \<and>
        (\<exists>s. surfaces st1 p = Some s \<and> (\<forall>d\<in>set (surface_icds st1). eligible d \<longrightarrow> surface_cell d (surface_index s) = 0))" by blast
  show ?thesis
  proof (cases "r = VK_SUCCESS")
    case False
    with al f show ?thesis by (simp add: create_surface_enabled_def cleanup_surface_creation_def)
  next
    case True
    from t [OF True] obtain s where s: "surfaces st1 p = Some s" and p: "p \<notin> set out" and inv1: "surf_inv st1 (p # out)"
      and null: "\<forall>d\<in>set (surface_icds st1). eligible d \<longrightarrow> surface_cell d (surface_index s) = 0" by blast
    obtain i rest where ci: "pCreateInfo = i # rest" using info by (cases pCreateInfo) auto
    let ?s = "s\<lparr>platform := pl, platform_fields := filter (\<lambda>(f, _). f \<in> set captured) (in_fields i)\<rparr>"
    let ?st = "st1\<lparr>surfaces := (surfaces st1)(p \<mapsto> ?s)\<rparr>"
    have inv2: "surf_inv ?st (p # out)" by (rule surf_inv_same_index [OF inv1 s, of ?s]) simp_all
    let ?copy = "copy_surface_create_info pA (map (\<lambda>t. (t, sizeof_struct cfg t)) ci_types) pCreateInfo p ?st"
    have step: "create_surface_enabled cfg pl captured ci_types a pA pCreateInfo st = do {
        (result, st) \<leftarrow> ?copy;
        (if result \<noteq> VK_SUCCESS then map_option (\<lambda>st. (result, None, st)) (cleanup_surface_creation result p pA st)
         else Some (VK_SUCCESS, Some p, st)) }"
      using al True s by (simp add: create_surface_enabled_def ci)
    have undo: ?thesis if "?copy = Some (r2, st2)" "r2 \<noteq> VK_SUCCESS" "st2 = ?st\<lparr>surface_heap := h\<rparr>" for r2 st2 h
    proof -
      have "surf_inv st2 (p # out)" using inv2 that(3) by simp
      from cleanup_surface_creation_spec [OF this, of p ?s r2 pA] null that s
      obtain st3 where "cleanup_surface_creation r2 p pA st2 = Some st3" "surf_inv st3 out" by auto
      with step that show ?thesis by simp
    qed
    have s2: "surfaces ?st p = Some ?s" by simp
    from copy_surface_create_info_cases [OF s2, of pA "map (\<lambda>t. (t, sizeof_struct cfg t)) ci_types" pCreateInfo]
    consider (ext) "?copy = Some (VK_ERROR_EXTENSION_NOT_PRESENT, ?st)"
      | (oom) h where "?copy = Some (VK_ERROR_OUT_OF_HOST_MEMORY, ?st\<lparr>surface_heap := h\<rparr>)"
      | (ok) s' h where "?copy = Some (VK_SUCCESS, ?st\<lparr>surfaces := (surfaces ?st)(p \<mapsto> s'), surface_heap := h\<rparr>)"
          "surface_index s' = surface_index ?s" "platform s' = platform ?s" "map_option (map snd) (create_info s') = Some pCreateInfo"
      by blast
    then show ?thesis
    proof cases
      case ext
      then show ?thesis by (rule undo [where h = "surface_heap ?st"]) simp_all
    next
      case oom
      then show ?thesis by (rule undo) simp_all
    next
      case ok
      let ?st' = "?st\<lparr>surfaces := (surfaces ?st)(p \<mapsto> s'), surface_heap := h\<rparr>"
      have "surf_inv ?st' (p # out)" by (rule surf_inv_same_index [OF inv2 s2, of s']) (use ok(2) in simp_all)
      with step ok p show ?thesis by simp
    qed
  qed
qed

section \<open>Destruction as a whole\<close>

definition surface_gone :: "nat set \<Rightarrow> nat \<Rightarrow> surface_icd_term \<Rightarrow> surface_icd_term \<Rightarrow> bool" where
  "surface_gone U i d d' \<longleftrightarrow> icd_inv (U - {i}) d' \<and> icd_objects (U - {i}) d' =
     (if eligible d then icd_objects U d - (if surface_cell d i = 0 then {#} else {#surface_cell d i#}) else {#})"

definition destroyed_objects :: "nat \<Rightarrow> nat \<Rightarrow> surface_icd_term list \<Rightarrow> unit driver_call list \<Rightarrow> unit driver_call list \<Rightarrow> bool" where
  "destroyed_objects i j icds cs cs' \<longleftrightarrow> (\<forall>n. driver_objects () n cs' =
     (if j \<le> n \<and> n < j + length icds \<and> eligible (icds ! (n - j)) \<and> surface_cell (icds ! (n - j)) i \<noteq> 0
      then map_option (\<lambda>M. M - {#surface_cell (icds ! (n - j)) i#}) (driver_objects () n cs)
      else driver_objects () n cs))"

lemma destroy_icd_surfaces_spec:
  assumes "\<forall>d\<in>set icds. icd_inv U d" and "i \<in> U" and "finite U"
    and "\<forall>n<length icds. driver_objects () (j + n) cs = Some (icd_objects U (icds ! n))"
  shows "\<exists>icds' new. destroy_icd_surfaces i j icds = Some (icds', new) \<and> list_all2 (surface_gone U i) icds icds' \<and>
           destroyed_objects i j icds cs (cs @ new)"
  using assms(1,4)
proof (induction icds arbitrary: j cs)
  case Nil
  show ?case by (auto simp: destroyed_objects_def)
next
  case (Cons d icds)
  then have d: "icd_inv U d" and rest: "\<forall>d\<in>set icds. icd_inv U d" by auto
  have obj: "driver_objects () j cs = Some (icd_objects U d)" using Cons.prems(2) [rule_format, of 0] by simp
  let ?x = "surface_cell d i"
  let ?here = "if eligible d \<and> ?x \<noteq> 0 then [DestroyCall () j ?x] else []"
  have "\<exists>d'. (if ext_khr_surface d \<and> interface_version d \<ge> ICD_VER_SUPPORTS_ICD_SURFACE_KHR \<and> dispatch_DestroySurfaceKHR d then do {
          handle \<leftarrow> buf_read (gl_list (surface_list d)) i;
          (if handle \<noteq> 0 then do {
             list \<leftarrow> buf_write (gl_list (surface_list d)) i 0;
             Some (d\<lparr>surface_list := (surface_list d)\<lparr>gl_list := list\<rparr>\<rparr>, [DestroyCall () j handle])
           }
           else Some (d, []))
        }
        else Some (d, [])) = Some (d', ?here) \<and> surface_gone U i d d'"
  proof (cases "eligible d")
    case False
    then have "surface_gone U i d d" using icd_release [OF d assms(2) _ assms(3)] by (simp add: surface_gone_def icd_objects_def)
    with False show ?thesis by (auto simp: eligible_def)
  next
    case True
    then have "covers U (surface_list d)" and "dispatch_DestroySurfaceKHR d" using d by (auto simp: icd_inv_def surface_driver_ok_def)
    with covers_cells [OF _ assms(2)] have buf: "gl_list (surface_list d) = Buf (cells (surface_list d))" "i < length (cells (surface_list d))"
      and de: "dispatch_DestroySurfaceKHR d" by auto
    show ?thesis
    proof (cases "?x = 0")
      case zero: True
      then have "surface_gone U i d d" using icd_release [OF d assms(2) _ assms(3)] True by (simp add: surface_gone_def)
      with zero True buf de show ?thesis by (auto simp: eligible_def surface_cell_def)
    next
      case False
      let ?d = "d\<lparr>surface_list := (surface_list d)\<lparr>gl_list := Buf ((cells (surface_list d))[i := 0])\<rparr>\<rparr>"
      note w = icd_write [OF d True assms(2,3), of 0, simplified]
      have "surface_gone U i d ?d"
        using icd_release [OF w(1) assms(2) _ assms(3)] w(2,3) icd_objects_split [OF assms(3,2) True] False True
        by (simp add: surface_gone_def)
      with False True buf de show ?thesis by (auto simp: eligible_def surface_cell_def)
    qed
  qed
  then obtain d' where one: "(if ext_khr_surface d \<and> interface_version d \<ge> ICD_VER_SUPPORTS_ICD_SURFACE_KHR \<and> dispatch_DestroySurfaceKHR d then do {
          handle \<leftarrow> buf_read (gl_list (surface_list d)) i;
          (if handle \<noteq> 0 then do {
             list \<leftarrow> buf_write (gl_list (surface_list d)) i 0;
             Some (d\<lparr>surface_list := (surface_list d)\<lparr>gl_list := list\<rparr>\<rparr>, [DestroyCall () j handle])
           }
           else Some (d, []))
        }
        else Some (d, [])) = Some (d', ?here)" and gone: "surface_gone U i d d'" by blast
  have in_obj: "?x \<in># icd_objects U d" if "eligible d" "?x \<noteq> 0" using icd_objects_split [OF assms(3,2) that(1)] that(2) by simp
  have objs: "driver_objects () n (cs @ ?here) =
      (if n = j \<and> eligible d \<and> ?x \<noteq> 0 then map_option (\<lambda>M. M - {#?x#}) (driver_objects () n cs) else driver_objects () n cs)" for n
    using obj in_obj by (auto simp: driver_step_other)
  have "\<forall>n<length icds. driver_objects () (j + 1 + n) (cs @ ?here) = Some (icd_objects U (icds ! n))"
    using Cons.prems(2) [rule_format, of "Suc _"] unfolding objs by auto
  from Cons.IH [OF rest this] obtain icds' new where
    IH: "destroy_icd_surfaces i (j + 1) icds = Some (icds', new)" "list_all2 (surface_gone U i) icds icds'"
      "destroyed_objects i (j + 1) icds (cs @ ?here) ((cs @ ?here) @ new)" by blast
  have "destroy_icd_surfaces i j (d # icds) = Some (d' # icds', ?here @ new)"
    unfolding destroy_icd_surfaces.simps(2) one using IH(1) by simp
  moreover have "destroyed_objects i j (d # icds) cs (cs @ ?here @ new)"
    unfolding destroyed_objects_def
  proof
    fix n
    from IH(3) have "driver_objects () n (cs @ ?here @ new) =
       (if j + 1 \<le> n \<and> n < j + 1 + length icds \<and> eligible (icds ! (n - (j + 1))) \<and> surface_cell (icds ! (n - (j + 1))) i \<noteq> 0
        then map_option (\<lambda>M. M - {#surface_cell (icds ! (n - (j + 1))) i#}) (driver_objects () n (cs @ ?here))
        else driver_objects () n (cs @ ?here))" unfolding destroyed_objects_def append_assoc by blast
    then show "driver_objects () n (cs @ ?here @ new) =
       (if j \<le> n \<and> n < j + length (d # icds) \<and> eligible ((d # icds) ! (n - j)) \<and> surface_cell ((d # icds) ! (n - j)) i \<noteq> 0
        then map_option (\<lambda>M. M - {#surface_cell ((d # icds) ! (n - j)) i#}) (driver_objects () n cs)
        else driver_objects () n cs)"
      unfolding objs by (cases n j rule: linorder_cases) (simp_all add: nth_shift)
  qed
  ultimately show ?case using gone IH(2) by auto
qed

lemma drivers_hold_gone:
  assumes "drivers_hold U icds cs" and "list_all2 (surface_gone U i) icds icds'" and "destroyed_objects i 0 icds cs cs'"
  shows "drivers_hold (U - {i}) icds' cs'"
  unfolding drivers_hold_def
proof (intro conjI ballI allI impI)
  have gone: "surface_gone U i (icds ! j) (icds' ! j)" if "j < length icds" for j using assms(2) that by (rule list_all2_nthD)
  have len: "length icds' = length icds" using assms(2) by (simp add: list_all2_lengthD)
  fix d' assume "d' \<in> set icds'"
  then obtain j where "j < length icds" "d' = icds' ! j" by (auto simp: in_set_conv_nth len)
  with gone show "icd_inv (U - {i}) d'" by (auto simp: surface_gone_def)
next
  fix j assume "j < length icds'"
  then have j: "j < length icds" using assms(2) by (simp add: list_all2_lengthD)
  with assms(2) have "surface_gone U i (icds ! j) (icds' ! j)" by (rule list_all2_nthD)
  moreover have "driver_objects () j cs = Some (icd_objects U (icds ! j))" using assms(1) j by (simp add: drivers_hold_def)
  ultimately show "driver_objects () j cs' = Some (icd_objects (U - {i}) (icds' ! j))"
    using assms(3) j by (auto simp: destroyed_objects_def surface_gone_def icd_objects_def)
qed

lemma not_plain: "\<not> checks_plain_surface cfg \<Longrightarrow> \<not> is_plain_surface cfg s"
  by (auto simp: checks_plain_surface_def is_plain_surface_def)

lemma terminator_DestroySurfaceKHR_spec:
  assumes inv: "surf_inv st out" and p: "p \<in> set out" and cfg: "\<not> checks_plain_surface cfg"
  shows "\<exists>st'. terminator_DestroySurfaceKHR cfg p st = Some st' \<and> surf_inv st' (remove1 p out)"
proof -
  let ?U = "used_slots (surfaces_list st)"
  from inv p obtain s where s: "surfaces st p = Some s" and p0: "p \<noteq> 0" by (auto simp: surf_inv_def)
  have iU: "surface_index s \<in> ?U" using index_in_use [OF inv p] s by simp
  have hold: "drivers_hold ?U (surface_icds st) (surface_calls st)" and wf: "wf_generic_list used_object_size (surfaces_list st)"
    using inv by (simp_all add: surf_inv_def)
  then have "\<forall>d\<in>set (surface_icds st). icd_inv ?U d"
    and "\<forall>n<length (surface_icds st). driver_objects () (0 + n) (surface_calls st) = Some (icd_objects ?U (surface_icds st ! n))"
    by (simp_all add: drivers_hold_def)
  from destroy_icd_surfaces_spec [OF this(1) iU _ this(2)] obtain icds cs where
    de: "destroy_icd_surfaces (surface_index s) 0 (surface_icds st) = Some (icds, cs)"
    and gone: "list_all2 (surface_gone ?U (surface_index s)) (surface_icds st) icds"
    and obj: "destroyed_objects (surface_index s) 0 (surface_icds st) (surface_calls st) (surface_calls st @ cs)" by auto
  from release_slot [OF wf, of "surface_index s"] obtain l where
    l: "loader_release_object_from_list (surfaces_list st) (surface_index s) = Some l" "wf_generic_list used_object_size l"
      "used_slots l = ?U - {surface_index s}" using iU by blast
  let ?st = "st\<lparr>surface_icds := icds, surface_calls := surface_calls st @ cs, surfaces_list := l, surfaces := (surfaces st)(p := None),
    surface_heap := add_live (if create_info s = None then - 1 else - 2) (surface_heap st)\<rparr>"
  have "terminator_DestroySurfaceKHR cfg p st = Some ?st"
    using p0 s de l(1) by (simp add: terminator_DestroySurfaceKHR_def not_plain [OF cfg] free_surface_def)
  moreover have "surf_inv ?st (remove1 p out)"
    by (rule surf_inv_remove [OF inv p, of icds "surface_calls st @ cs" l])
       (use drivers_hold_gone [OF hold gone obj] s l in simp_all)
  ultimately show ?thesis by blast
qed

section \<open>Queries\<close>

definition queries_ok :: "surface_icd_term \<Rightarrow> bool" where
  "queries_ok d \<longleftrightarrow> (interface_version d \<ge> ICD_VER_SUPPORTS_ICD_SURFACE_KHR \<longrightarrow> ext_khr_surface d)"

lemma call_driver_inv:
  assumes inv: "surf_inv st out" and "p \<in> set out" and "j < length (surface_icds st)"
    and cell: "handle \<noteq> 0 \<Longrightarrow> interface_version (surface_icds st ! j) \<ge> ICD_VER_SUPPORTS_ICD_SURFACE_KHR \<Longrightarrow>
      eligible (surface_icds st ! j) \<and> surface_cell (surface_icds st ! j) (index_of st p) = handle"
  shows "surf_inv (call_driver j handle st) out"
proof -
  let ?d = "surface_icds st ! j" and ?U = "used_slots (surfaces_list st)"
  have hold: "drivers_hold ?U (surface_icds st) (surface_calls st)" using inv by (simp add: surf_inv_def)
  have iU: "index_of st p \<in> ?U" by (rule index_in_use [OF inv assms(2)])
  have "driver_objects () i (surface_calls (call_driver j handle st)) = driver_objects () i (surface_calls st)" if "i < length (surface_icds st)" for i
  proof (cases "handle \<noteq> 0 \<and> interface_version ?d \<ge> ICD_VER_SUPPORTS_ICD_SURFACE_KHR")
    case True
    with cell have "eligible ?d" "surface_cell ?d (index_of st p) = handle" by auto
    with icd_objects_split [OF _ iU] True have "handle \<in># icd_objects ?U ?d" by simp
    then show ?thesis using True hold that by (auto simp: call_driver_def drivers_hold_def)
  next
    case False
    with hold that show ?thesis by (auto simp: call_driver_def drivers_hold_def)
  qed
  with inv show ?thesis by (auto simp: surf_inv_def drivers_hold_def call_driver_def)
qed

lemma unwrap_and_call_spec:
  assumes inv: "surf_inv st out" and p: "p \<in> set out" and j: "j < length (surface_icds st)" and cfg: "\<not> checks_plain_surface cfg"
    and q: "queries_ok (surface_icds st ! j)"
  shows "\<exists>o' st'. unwrap_and_call cfg j p failed f st = Some (o', st') \<and> surf_inv st' out \<and> surfaces st' = surfaces st"
proof -
  from wsi_unwrap_icd_surface_spec [OF inv p j cfg] obtain r handle st' where
    u: "wsi_unwrap_icd_surface cfg j p st = Some (r, handle, st')" and inv': "surf_inv st' out" and s: "surfaces st' = surfaces st"
    and len: "length (surface_icds st') = length (surface_icds st)"
    and iv: "interface_version (surface_icds st' ! j) = interface_version (surface_icds st ! j)"
    and cell: "eligible (surface_icds st ! j) \<Longrightarrow> eligible (surface_icds st' ! j) \<and> surface_cell (surface_icds st' ! j) (index_of st p) = handle"
    by blast
  have "surf_inv (call_driver j handle st') out"
    by (rule call_driver_inv [OF inv' p]) (use j len iv cell s q in \<open>auto simp: queries_ok_def eligible_def\<close>)
  then show ?thesis using u inv' s by (auto simp: unwrap_and_call_def call_driver_def split: prod.split)
qed

section \<open>Histories\<close>

text \<open>An instance before its first surface.\<close>

definition fresh_surface_instance :: "surface_instance \<Rightarrow> bool" where
  "fresh_surface_instance st \<longleftrightarrow> surfaces st = Map.empty \<and> 0 < next_surface st \<and> surfaces_list st = empty_generic_list \<and>
     surface_calls st = [] \<and> (\<forall>d\<in>set (surface_icds st). surface_driver_ok d \<and> surface_list d = empty_generic_list)"

lemma fresh_surf_inv: "fresh_surface_instance st \<Longrightarrow> surf_inv st []"
  by (auto simp: fresh_surface_instance_def surf_inv_def drivers_hold_def icd_inv_def covers_def used_slots_def cells_def icd_objects_def
      bij_betw_def)

text \<open>The queries and swapchain creations of one driver, by what they do to the state.\<close>

definition surface_query :: "wsi_config \<Rightarrow> nat \<Rightarrow> nat \<Rightarrow> surface_instance \<Rightarrow> surface_instance \<Rightarrow> bool" where
  "surface_query cfg j p st st' \<longleftrightarrow>
     (\<exists>f out o'. terminator_GetPhysicalDeviceSurfaceSupportKHR cfg j f p out st = Some (o', st')) \<or>
     (\<exists>f out o'. terminator_GetPhysicalDeviceSurfaceCapabilitiesKHR cfg j f p out st = Some (o', st')) \<or>
     (\<exists>f n out o'. terminator_GetPhysicalDeviceSurfaceFormatsKHR cfg j f p n out st = Some (o', st')) \<or>
     (\<exists>f n out o'. terminator_GetPhysicalDeviceSurfacePresentModesKHR cfg j f p n out st = Some (o', st')) \<or>
     (\<exists>f o'. terminator_CreateSwapchainKHR cfg (Some j) f (Some p) st = Some (o', st'))"

text \<open>The surfaces that are out.  A creation that fails must not have lost its index.\<close>

inductive surface_run :: "wsi_config \<Rightarrow> allocator \<Rightarrow> surface_instance \<Rightarrow> nat list \<Rightarrow> bool" for cfg a where
  start: "fresh_surface_instance st \<Longrightarrow> surface_run cfg a st []"
| created: "surface_run cfg a st out \<Longrightarrow> slots_room (surfaces_list st) \<Longrightarrow> pCreateInfo \<noteq> [] \<Longrightarrow>
    create_surface cfg pl dis captured types a pA pCreateInfo st = Some (VK_SUCCESS, Some p, st') \<Longrightarrow> surface_run cfg a st' (p # out)"
| failed: "surface_run cfg a st out \<Longrightarrow> slots_room (surfaces_list st) \<Longrightarrow> pCreateInfo \<noteq> [] \<Longrightarrow>
    create_surface cfg pl dis captured types a pA pCreateInfo st = Some (r, None, st') \<Longrightarrow>
    used_slots (surfaces_list st') = used_slots (surfaces_list st) \<Longrightarrow> surface_run cfg a st' out"
| queried: "surface_run cfg a st out \<Longrightarrow> p \<in> set out \<Longrightarrow> j < length (surface_icds st) \<Longrightarrow> queries_ok (surface_icds st ! j) \<Longrightarrow>
    surface_query cfg j p st st' \<Longrightarrow> surface_run cfg a st' out"
| destroyed: "surface_run cfg a st out \<Longrightarrow> p \<in> set out \<Longrightarrow> terminator_DestroySurfaceKHR cfg p st = Some st' \<Longrightarrow>
    surface_run cfg a st' (remove1 p out)"

lemma surface_query_inv:
  assumes "surf_inv st out" and "p \<in> set out" and "j < length (surface_icds st)" and "\<not> checks_plain_surface cfg"
    and "queries_ok (surface_icds st ! j)" and "surface_query cfg j p st st'"
  shows "surf_inv st' out"
proof -
  have call: "surf_inv st' out" if "unwrap_and_call cfg j p failed f st = Some (o', st')" for failed f o'
    using unwrap_and_call_spec [OF assms(1-5), of failed f] that by auto
  have "p \<noteq> 0" using assms(1,2) by (auto simp: surf_inv_def)
  with assms(1,6) show ?thesis
    by (auto simp: surface_query_def terminator_GetPhysicalDeviceSurfaceSupportKHR_def terminator_GetPhysicalDeviceSurfaceCapabilitiesKHR_def
        terminator_GetPhysicalDeviceSurfaceFormatsKHR_def terminator_GetPhysicalDeviceSurfacePresentModesKHR_def query_list_def
        terminator_CreateSwapchainKHR_def split: if_splits option.splits dest!: call)
qed

lemma create_surface_spec:
  assumes "surf_inv st out" and "slots_room (surfaces_list st)" and "clears_new_memory a" and "pCreateInfo \<noteq> []"
  shows "\<exists>r w st'. create_surface cfg pl dis captured ci_types a pA pCreateInfo st = Some (r, w, st') \<and>
     (\<forall>p. w = Some p \<longrightarrow> (\<exists>s. r = VK_SUCCESS \<and> p \<notin> set out \<and> surf_inv st' (p # out) \<and> surfaces st' p = Some s \<and> platform s = pl \<and>
        map_option (map snd) (create_info s) = Some pCreateInfo)) \<and>
     (w = None \<and> used_slots (surfaces_list st') = used_slots (surfaces_list st) \<longrightarrow> surf_inv st' out)"
proof (cases "\<exists>r. \<not> enabled_platform cfg pl \<and> dis = Refuse r")
  case True
  with assms(1) show ?thesis by (auto simp: create_surface_def)
next
  case False
  then have "create_surface cfg pl dis captured ci_types a pA pCreateInfo st = create_surface_enabled cfg pl captured ci_types a pA pCreateInfo st"
    by (auto simp: create_surface_def split: bool.split when_disabled.split)
  with create_surface_enabled_spec [OF assms, of cfg pl captured ci_types pA] show ?thesis by fastforce
qed

lemma surface_run_inv:
  assumes "surface_run cfg a st out" and "\<not> checks_plain_surface cfg" and "clears_new_memory a"
  shows "surf_inv st out"
  using assms(1)
proof (induction rule: surface_run.induct)
  case (start st)
  then show ?case by (rule fresh_surf_inv)
next
  case (created st out pCreateInfo pl dis captured types pA p st')
  then show ?case using create_surface_spec [OF _ _ assms(3), of st out pCreateInfo cfg pl dis captured types pA] by auto
next
  case (failed st out pCreateInfo pl dis captured types pA r st')
  then show ?case using create_surface_spec [OF _ _ assms(3), of st out pCreateInfo cfg pl dis captured types pA] by auto
next
  case (queried st out p j st')
  then show ?case using surface_query_inv [OF _ _ _ assms(2)] by blast
next
  case (destroyed st out p st')
  then show ?case using terminator_DestroySurfaceKHR_spec [OF _ _ assms(2), of st out p] by auto
qed

lemma surf_inv_object_count:
  assumes "surf_inv st out" and "j < length (surface_icds st)"
  shows "\<exists>M. driver_objects () j (surface_calls st) = Some M \<and> size M \<le> length out"
proof -
  let ?U = "used_slots (surfaces_list st)" and ?d = "surface_icds st ! j"
  have "card ?U = card (set out)" using assms(1) by (auto simp: surf_inv_def dest: bij_betw_same_card)
  moreover have "size (icd_objects ?U ?d) \<le> card ?U"
    by (auto simp: icd_objects_def intro: order_trans [OF size_filter_mset_lesseq])
  moreover have "driver_objects () j (surface_calls st) = Some (icd_objects ?U ?d)" using assms by (simp add: surf_inv_def drivers_hold_def)
  ultimately show ?thesis using card_length [of out] by auto
qed

text \<open>Unwrapping gives the driver its own live surface, and the same one the next time.\<close>

lemma unwrap_stable:
  assumes inv: "surf_inv st out" and p: "p \<in> set out" and j: "j < length (surface_icds st)" and cfg: "\<not> checks_plain_surface cfg"
    and el: "eligible (surface_icds st ! j)"
  shows "\<exists>r handle st' M. wsi_unwrap_icd_surface cfg j p st = Some (r, handle, st') \<and>
     driver_objects () j (surface_calls st') = Some M \<and>
     (r = VK_SUCCESS \<longrightarrow> handle \<in># M \<and> wsi_unwrap_icd_surface cfg j p st' = Some (VK_SUCCESS, handle, st'))"
proof -
  from wsi_unwrap_icd_surface_spec [OF inv p j cfg] el obtain r handle st' where
    u: "wsi_unwrap_icd_surface cfg j p st = Some (r, handle, st')" and inv': "surf_inv st' out" and s: "surfaces st' = surfaces st"
    and len: "length (surface_icds st') = length (surface_icds st)"
    and el': "eligible (surface_icds st' ! j)" and cell: "surface_cell (surface_icds st' ! j) (index_of st p) = handle"
    and nz: "r = VK_SUCCESS \<Longrightarrow> handle \<noteq> 0" by blast
  have j': "j < length (surface_icds st')" using j len by simp
  have cell': "surface_cell (surface_icds st' ! j) (index_of st' p) = handle" using cell s by simp
  have obj: "driver_objects () j (surface_calls st') = Some (icd_objects (used_slots (surfaces_list st')) (surface_icds st' ! j))"
    using inv' j' by (simp add: surf_inv_def drivers_hold_def)
  have "handle \<in># icd_objects (used_slots (surfaces_list st')) (surface_icds st' ! j)" if "handle \<noteq> 0"
    using icd_objects_split [OF _ index_in_use [OF inv' p] el'] cell' that by simp
  moreover have "wsi_unwrap_icd_surface cfg j p st' = Some (VK_SUCCESS, handle, st')" if "handle \<noteq> 0"
    using wsi_unwrap_icd_surface_spec [OF inv' p j' cfg] el' cell' that by auto
  ultimately show ?thesis using u obj nz by blast
qed


section \<open>Concrete surfaces\<close>

definition sample_surface_driver :: surface_icd_term where
  "sample_surface_driver = \<lparr>surface_list = empty_generic_list, ext_khr_surface = True, interface_version = 5, ext_platform = \<lambda>p. True,
     dispatch_CreateSurface = \<lambda>p. Some (\<lambda>n. (VK_SUCCESS, Some (n + 70))), dispatch_DestroySurfaceKHR = True\<rparr>"

definition sample_surface_instance :: "(nat \<Rightarrow> bool) \<Rightarrow> surface_instance" where
  "sample_surface_instance allocations = \<lparr>surfaces = Map.empty, next_surface = 1, surfaces_list = empty_generic_list,
     surface_icds = [sample_surface_driver], surface_calls = [], surface_heap = \<lparr>outcomes = allocations, clock = 0, live = 0\<rparr>\<rparr>"

definition sample_wsi_config :: "bool \<Rightarrow> wsi_config" where
  "sample_wsi_config enabled = \<lparr>built = \<lambda>p. p = VK_ICD_WSI_PLATFORM_XCB, enabled_khr_surface = True, enabled_platform = \<lambda>p. enabled,
     sizeof_struct = \<lambda>t. 40\<rparr>"

definition sample_xcb_info :: "chain_structure list" where
  "sample_xcb_info = [\<lparr>sType = ''XCB_SURFACE_CREATE_INFO_KHR'', in_fields = [(''flags'', 0), (''connection'', 5), (''window'', 6)]\<rparr>]"

definition sample_surface :: "nat \<Rightarrow> VkIcdSurface" where
  "sample_surface i = \<lparr>platform = VK_ICD_WSI_PLATFORM_XCB, platform_fields = [(''connection'', 5), (''window'', 6)], surface_index = i,
     create_info = Some (map (Pair 0) sample_xcb_info), callbacks_valid = False, callbacks = zero_callbacks\<rparr>"

definition one_surface :: surface_instance where
  "one_surface = \<lparr>surfaces = [1 \<mapsto> sample_surface 0], next_surface = 2,
     surfaces_list = \<lparr>gl_capacity = 32 * used_object_size, gl_count = 0, gl_list = Buf (mark_used None # replicate 31 zero_object)\<rparr>,
     surface_icds = [sample_surface_driver\<lparr>surface_list := \<lparr>gl_capacity = 256, gl_count = 0, gl_list = Buf (replicate 32 0)\<rparr>\<rparr>],
     surface_calls = [], surface_heap = \<lparr>outcomes = \<lambda>_. True, clock = 4, live = 4\<rparr>\<rparr>"

lemmas evaluate_surface = terminator_CreateXcbSurfaceKHR_def create_surface_def create_surface_enabled_def allocate_icd_surface_struct_def
  sample_surface_driver_def sample_wsi_config_def sample_xcb_info_def ICD_VER_SUPPORTS_ICD_SURFACE_KHR_def
  make_handle_room_def handle_size_def copy_surface_create_info_def loader_aligned_size_def cleanup_surface_creation_def Let_def

lemma first_surface:
  "terminator_CreateXcbSurfaceKHR (sample_wsi_config True) None None sample_xcb_info (sample_surface_instance (\<lambda>_. True)) =
     Some (VK_SUCCESS, Some 1, one_surface)"
  by (simp add: evaluate_surface sample_surface_instance_def next_available_first succeeds_def tick_def add_live_def empty_generic_list_def
      loader_init_generic_list_def loader_calloc_def one_surface_def sample_surface_def)

lemma sample_not_plain: "\<not> checks_plain_surface (sample_wsi_config b)"
  by (simp add: checks_plain_surface_def sample_wsi_config_def)

lemma sample_fresh: "fresh_surface_instance (sample_surface_instance allocations)"
  by (simp add: fresh_surface_instance_def sample_surface_instance_def sample_surface_driver_def surface_driver_ok_def)


section \<open>Where creation falls short\<close>

text \<open>The headless terminator reports success without creating a surface, and without writing the handle, when its extension is
  not enabled.\<close>

theorem headless_reports_success_without_surface:
  "\<exists>cfg. terminator_CreateHeadlessSurfaceEXT cfg a pAllocator pCreateInfo st = Some (VK_SUCCESS, None, st)"
  by (rule exI [of _ "sample_wsi_config False"])
     (simp add: terminator_CreateHeadlessSurfaceEXT_def create_surface_def sample_wsi_config_def)

text \<open>Index loss: after the table exists, the structure cannot be allocated 32 times.\<close>

definition scarce :: "nat \<Rightarrow> bool" where "scarce n \<longleftrightarrow> n = 0 \<or> 32 < n"

definition after_losses :: "nat \<Rightarrow> surface_instance" where
  "after_losses n = (if n = 0 then sample_surface_instance scarce
     else (sample_surface_instance scarce)\<lparr>surfaces_list := slots_taken n, surface_heap := \<lparr>outcomes = scarce, clock = n + 1, live = 1\<rparr>\<rparr>)"

lemma lose_index:
  assumes "n < 32"
  shows "terminator_CreateXcbSurfaceKHR (sample_wsi_config True) None None sample_xcb_info (after_losses n) =
    Some (VK_ERROR_OUT_OF_HOST_MEMORY, None, after_losses (Suc n))"
proof (cases n)
  case 0
  then show ?thesis
    by (simp add: evaluate_surface sample_surface_instance_def next_available_first succeeds_def tick_def add_live_def empty_generic_list_def
        after_losses_def scarce_def slots_taken_def)
next
  case (Suc m)
  with assms show ?thesis
    by (simp add: evaluate_surface sample_surface_instance_def next_reservation succeeds_def tick_def after_losses_def scarce_def)
qed

lemma slots_taken_full: "slots_taken 32 = \<lparr>gl_capacity = 32 * used_object_size, gl_count = 0, gl_list = Buf (replicate 32 (mark_used None))\<rparr>"
  by (simp add: slots_taken_def)

text \<open>A number of creations that all report that memory ran out.\<close>

primrec failing_creations :: "nat \<Rightarrow> surface_instance \<Rightarrow> surface_instance option" where
  "failing_creations 0 st = Some st"
| "failing_creations (Suc n) st = do {
     st \<leftarrow> failing_creations n st;
     (r, written, st) \<leftarrow> terminator_CreateXcbSurfaceKHR (sample_wsi_config True) None None sample_xcb_info st;
     (if r = VK_ERROR_OUT_OF_HOST_MEMORY \<and> written = None then Some st else None)
   }"

lemma failing_creations_lose: "n \<le> 32 \<Longrightarrow> failing_creations n (sample_surface_instance scarce) = Some (after_losses n)"
  by (induction n) (simp_all add: lose_index, simp add: after_losses_def)

text \<open>C36: Creations that fail for want of memory keep their index: after 32 of them with no surface ever created, the next surface gets index 32, the list of
  the driver is made with 32 cells, and destroying the surface accesses it past its end.\<close>

theorem lost_indices_overflow_driver_list:
  "\<exists>st st'. failing_creations 32 (sample_surface_instance scarce) = Some st \<and>
     terminator_CreateXcbSurfaceKHR (sample_wsi_config True) None None sample_xcb_info st = Some (VK_SUCCESS, Some 1, st') \<and>
     terminator_DestroySurfaceKHR (sample_wsi_config True) 1 st' = None"
proof -
  have "\<exists>st'. terminator_CreateXcbSurfaceKHR (sample_wsi_config True) None None sample_xcb_info (after_losses 32) = Some (VK_SUCCESS, Some 1, st') \<and>
     terminator_DestroySurfaceKHR (sample_wsi_config True) 1 st' = None"
    by (simp add: evaluate_surface sample_surface_instance_def after_losses_def slots_taken_full full_reservation succeeds_def tick_def
        add_live_def scarce_def empty_generic_list_def loader_init_generic_list_def loader_calloc_def terminator_DestroySurfaceKHR_def
        is_plain_surface_def)
  then show ?thesis using failing_creations_lose [of 32] by auto
qed

text \<open>An instance with 32 surfaces, each created by the driver too.\<close>

definition full_surfaces :: surface_instance where
  "full_surfaces = \<lparr>surfaces = (\<lambda>p. if 1 \<le> p \<and> p \<le> 32 then Some (sample_surface (p - 1)) else None), next_surface = 33,
     surfaces_list = slots_taken 32,
     surface_icds = [sample_surface_driver\<lparr>surface_list := \<lparr>gl_capacity = 256, gl_count = 0, gl_list = Buf [70..<102]\<rparr>\<rparr>],
     surface_calls = map (\<lambda>x. CreateCall () 0 VK_SUCCESS (Some x)) [70..<102],
     surface_heap = \<lparr>outcomes = \<lambda>_. True, clock = 0, live = 0\<rparr>\<rparr>"

definition reallocating :: VkAllocationCallbacks where
  "reallocating = \<lparr>pfnAllocation = True, pfnReallocation = True, pfnFree = True\<rparr>"

lemma replay_creations: "driver_objects () 0 (cs @ map (\<lambda>x. CreateCall () 0 VK_SUCCESS (Some x)) xs) =
    map_option (\<lambda>M. M + mset xs) (driver_objects () 0 cs)"
proof (induction xs rule: rev_induct)
  case (snoc x xs)
  then show ?case by (cases "driver_objects () 0 cs") (simp_all flip: append_assoc)
qed (cases "driver_objects () 0 cs"; simp)

text \<open>With a reallocation callback the cells added to the list of a driver are not cleared: the surface with index 32 is
  taken to exist in the driver, no driver surface is created for it, and a query passes the driver a handle it never returned.\<close>

theorem grown_list_passes_garbage_to_driver:
  "\<exists>st st'. terminator_CreateXcbSurfaceKHR (sample_wsi_config True) (Some reallocating) None sample_xcb_info full_surfaces =
       Some (VK_SUCCESS, Some 33, st) \<and>
     wsi_unwrap_icd_surface (sample_wsi_config True) 0 33 st = Some (VK_SUCCESS, 1, st) \<and>
     driver_objects () 0 (surface_calls st) = Some (mset [70..<102]) \<and>
     terminator_GetPhysicalDeviceSurfaceSupportKHR (sample_wsi_config True) 0 (Some (\<lambda>handle. (VK_SUCCESS, True))) 33 (Some False) st =
       Some (Returned VK_SUCCESS (Some True), st') \<and>
     driver_objects () 0 (surface_calls st') = None"
proof -
  let ?st = "full_surfaces\<lparr>surfaces := (surfaces full_surfaces)(33 \<mapsto> sample_surface 32), next_surface := 34,
     surfaces_list := \<lparr>gl_capacity = 64 * used_object_size, gl_count = 0,
       gl_list = Buf (replicate 32 (mark_used None) @ mark_used None # replicate 31 zero_object)\<rparr>,
     surface_icds := [sample_surface_driver\<lparr>surface_list := \<lparr>gl_capacity = 512, gl_count = 0, gl_list = Buf ([70..<102] @ replicate 32 1)\<rparr>\<rparr>],
     surface_heap := \<lparr>outcomes = \<lambda>_. True, clock = 4, live = 2\<rparr>\<rparr>"
  have create: "terminator_CreateXcbSurfaceKHR (sample_wsi_config True) (Some reallocating) None sample_xcb_info full_surfaces = Some (VK_SUCCESS, Some 33, ?st)"
    by (simp add: evaluate_surface full_surfaces_def slots_taken_full full_reservation succeeds_def tick_def add_live_def
        loader_resize_generic_list_def doubled_def resized_def reallocating_def sample_surface_def del: upt_Suc)
  have unwrap: "wsi_unwrap_icd_surface (sample_wsi_config True) 0 33 ?st = Some (VK_SUCCESS, 1, ?st)"
    by (simp add: wsi_unwrap_icd_surface_def checks_plain_surface_def sample_wsi_config_def sample_surface_driver_def sample_surface_def
        handle_size_def ICD_VER_SUPPORTS_ICD_SURFACE_KHR_def nth_append del: upt_Suc)
  have objs: "driver_objects () 0 (surface_calls ?st) = Some (mset [70..<102])"
    using replay_creations [of "[]" "[70..<102]"] by (simp add: full_surfaces_def del: upt_Suc)
  have query: "terminator_GetPhysicalDeviceSurfaceSupportKHR (sample_wsi_config True) 0 (Some (\<lambda>handle. (VK_SUCCESS, True))) 33 (Some False) ?st =
       Some (Returned VK_SUCCESS (Some True), call_driver 0 1 ?st)"
    using unwrap by (simp add: terminator_GetPhysicalDeviceSurfaceSupportKHR_def unwrap_and_call_def sample_wsi_config_def)
  have "driver_objects () 0 (surface_calls (call_driver 0 1 ?st)) = None"
    using objs by (simp add: call_driver_def sample_surface_driver_def ICD_VER_SUPPORTS_ICD_SURFACE_KHR_def del: upt_Suc)
  with create unwrap objs query show ?thesis by blast
qed

end
