(* ===== verification/PhysDevices.thy ===== *)
theory PhysDevices
  imports DeviceSort
begin

text \<open>
  Physical devices (\<^verbatim>\<open>loader.c\<close>, \<^verbatim>\<open>trampoline.c\<close>): the terminator object the loader makes for every device a driver reports, and the
  trampoline object it hands to the application.  Both are found again on every enumeration, so that handles keep their meaning.
  Objects live in one store of addresses, 0 is the null pointer, and an address is never given out twice; reading a freed object, or an
  object of the other kind, is \<open>None\<close>.  What the drivers answer is an argument of every call.  Stack allocation
  does not fail.
\<close>

section \<open>State\<close>

record loader_physical_device_tramp =
  tr_disp :: nat
  tr_magic :: "64 word"
  tr_phys_dev :: nat

datatype pd_object = Term loader_physical_device_term | Tramp loader_physical_device_tramp

definition PHYS_TRAMP_MAGIC_NUMBER :: "64 word" where "PHYS_TRAMP_MAGIC_NUMBER = 0x10ADED020210ADED"

text \<open>\<open>icd_terms\<close> are the drivers in the order of the list, each with its \<^verbatim>\<open>physical_device_count\<close>.\<close>

record pd_instance =
  objects :: "nat \<rightharpoonup> pd_object"
  next_object :: nat
  pd_heap :: heap
  phys_devs_term :: "nat buf"
  phys_dev_count_term :: nat
  phys_devs_tramp :: "nat buf"
  phys_dev_count_tramp :: nat
  total_gpu_count :: nat
  icd_terms :: "(nat \<times> nat) list"

fun tramp_of :: "pd_object option \<Rightarrow> loader_physical_device_tramp option" where
  "tramp_of (Some (Tramp t)) = Some t"
| "tramp_of _ = None"

fun term_of :: "pd_object option \<Rightarrow> loader_physical_device_term option" where
  "term_of (Some (Term t)) = Some t"
| "term_of _ = None"

definition alloc_object :: "pd_object \<Rightarrow> pd_instance \<Rightarrow> nat \<times> pd_instance" where
  "alloc_object obj st =
     (if succeeds (pd_heap st)
      then (next_object st, st\<lparr>objects := (objects st)(next_object st \<mapsto> obj), next_object := next_object st + 1,
              pd_heap := add_live 1 (tick (pd_heap st))\<rparr>)
      else (0, st\<lparr>pd_heap := tick (pd_heap st)\<rparr>))"

definition free_object :: "nat \<Rightarrow> pd_instance \<Rightarrow> pd_instance option" where
  "free_object p st =
     (if p = 0 then Some st
      else if objects st p = None then None
      else Some (st\<lparr>objects := (objects st)(p := None), pd_heap := add_live (- 1) (pd_heap st)\<rparr>))"

text \<open>The loop that frees the objects of one array that are not in the other.\<close>

fun free_absent :: "nat list \<Rightarrow> nat list \<Rightarrow> pd_instance \<Rightarrow> pd_instance option" where
  "free_absent keep [] st = Some st"
| "free_absent keep (p # ps) st = do {
     st \<leftarrow> (if p \<in> set keep then Some st else free_object p st);
     free_absent keep ps st
   }"

text \<open>The cells of an array up to a count.\<close>

definition array_prefix :: "nat buf \<Rightarrow> nat \<Rightarrow> nat list option" where
  "array_prefix b n = (case b of Buf xs \<Rightarrow> if n \<le> length xs then Some (take n xs) else None | _ \<Rightarrow> if n = 0 then Some [] else None)"

definition free_array :: "allocator \<Rightarrow> nat buf \<Rightarrow> pd_instance \<Rightarrow> pd_instance option" where
  "free_array a b st = map_option (\<lambda>h. st\<lparr>pd_heap := h\<rparr>) (loader_free a b (pd_heap st))"

fun first_index :: "'x \<Rightarrow> 'x list \<Rightarrow> nat option" where
  "first_index x [] = None"
| "first_index x (y # ys) = (if x = y then Some 0 else map_option Suc (first_index x ys))"

section \<open>Trampoline objects\<close>

text \<open>\<^verbatim>\<open>old_to_new_index\<close>: for every old object the first position of its device in the new array, \<open>None\<close> for -1.  The other index array of
  the source is never read.\<close>

fun match_old :: "pd_instance \<Rightarrow> nat list \<Rightarrow> nat \<Rightarrow> nat \<Rightarrow> nat option list option" where
  "match_old st phys_devs cur_idx 0 = Some []"
| "match_old st phys_devs cur_idx (Suc n) = do {
     p \<leftarrow> buf_read (phys_devs_tramp st) cur_idx;
     t \<leftarrow> tramp_of (objects st p);
     rest \<leftarrow> match_old st phys_devs (cur_idx + 1) n;
     Some (first_index (tr_phys_dev t) phys_devs # rest)
   }"

text \<open>Everything is known already: replace each device by its object.\<close>

fun rewrap :: "nat buf \<Rightarrow> nat option list \<Rightarrow> nat \<Rightarrow> nat list \<Rightarrow> nat list option" where
  "rewrap old old_to_new new_idx [] = Some []"
| "rewrap old old_to_new new_idx (d # ds) = do {
     d \<leftarrow> (case first_index (Some new_idx) old_to_new of Some cur_idx \<Rightarrow> buf_read old cur_idx | None \<Rightarrow> Some d);
     ds \<leftarrow> rewrap old old_to_new (new_idx + 1) ds;
     Some (d # ds)
   }"

text \<open>Otherwise: the object of a known device is taken over, others get a new one.  The result is the cells written.\<close>

fun wrap_all :: "nat \<Rightarrow> nat buf \<Rightarrow> nat option list \<Rightarrow> nat \<Rightarrow> nat list \<Rightarrow> pd_instance \<Rightarrow> (VkResult \<times> nat list \<times> pd_instance) option" where
  "wrap_all disp old old_to_new new_idx [] st = Some (VK_SUCCESS, [], st)"
| "wrap_all disp old old_to_new new_idx (d # ds) st = do {
     (p, st) \<leftarrow> (case first_index (Some new_idx) old_to_new of
        Some cur_idx \<Rightarrow> map_option (\<lambda>p. (p, st)) (buf_read old cur_idx)
      | None \<Rightarrow> Some (alloc_object (Tramp \<lparr>tr_disp = disp, tr_magic = PHYS_TRAMP_MAGIC_NUMBER, tr_phys_dev = d\<rparr>) st));
     (if p = 0 then Some (VK_ERROR_OUT_OF_HOST_MEMORY, [], st)
      else do {
        (res, ps, st) \<leftarrow> wrap_all disp old old_to_new (new_idx + 1) ds st;
        Some (res, p # ps, st)
      })
   }"

text \<open>The remaining cells take the objects that were not asked for, as far as there is room; a cell for which none is left stays null.\<close>

fun keep_rest :: "nat buf \<Rightarrow> nat option list \<Rightarrow> nat \<Rightarrow> nat \<Rightarrow> nat list option" where
  "keep_rest old old_to_new new_idx 0 = Some []"
| "keep_rest old old_to_new new_idx (Suc n) =
     (case first_index None old_to_new of
        None \<Rightarrow> Some []
      | Some cur_idx \<Rightarrow> do {
          p \<leftarrow> buf_read old cur_idx;
          ps \<leftarrow> keep_rest old (old_to_new[cur_idx := Some new_idx]) (new_idx + 1) n;
          Some (p # ps)
        })"

text \<open>The full path: a new array with the objects for the devices asked for.  The result has the array of the caller afterwards.\<close>

definition replace_tramp_phys_devs ::
  "allocator \<Rightarrow> nat \<Rightarrow> nat \<Rightarrow> nat option list \<Rightarrow> nat list \<Rightarrow> nat \<Rightarrow> nat list \<Rightarrow> pd_instance \<Rightarrow> (VkResult \<times> nat list \<times> pd_instance) option" where
  "replace_tramp_phys_devs a disp new_count old_to_new old phys_dev_count phys_devs st =
     (case loader_calloc a 0 new_count (pd_heap st) of
        (NULL, h) \<Rightarrow> Some (VK_ERROR_OUT_OF_HOST_MEMORY, phys_devs, st\<lparr>pd_heap := h, total_gpu_count := 0\<rparr>)
      | (new_phys_devs, h) \<Rightarrow> do {
          (res, ps, st) \<leftarrow> wrap_all disp (phys_devs_tramp st) old_to_new 0 (take phys_dev_count phys_devs) (st\<lparr>pd_heap := h\<rparr>);
          (if res \<noteq> VK_SUCCESS then do {
             st \<leftarrow> free_absent old ps st;
             st \<leftarrow> free_array a new_phys_devs st;
             Some (res, ps @ drop (length ps) phys_devs, st\<lparr>total_gpu_count := 0\<rparr>)
           }
           else do {
             rest \<leftarrow> keep_rest (phys_devs_tramp st) old_to_new phys_dev_count (new_count - phys_dev_count);
             let cells = ps @ rest @ replicate (new_count - length ps - length rest) 0;
             let st = st\<lparr>total_gpu_count := max new_count (total_gpu_count st)\<rparr>;
             st \<leftarrow> (if phys_devs_tramp st \<noteq> NULL then do {
                      st \<leftarrow> free_absent cells old st;
                      free_array a (phys_devs_tramp st) st
                    }
                    else Some st);
             Some (VK_SUCCESS, ps @ drop phys_dev_count phys_devs,
               st\<lparr>phys_devs_tramp := Buf cells, phys_dev_count_tramp := length ps + length rest\<rparr>)
           })
        })"

definition setup_loader_tramp_phys_devs ::
  "allocator \<Rightarrow> nat \<Rightarrow> nat \<Rightarrow> nat list \<Rightarrow> pd_instance \<Rightarrow> (VkResult \<times> nat list \<times> pd_instance) option" where
  "setup_loader_tramp_phys_devs a disp phys_dev_count phys_devs st =
     (if phys_dev_count = 0 then Some (VK_SUCCESS, phys_devs, st)
      else if phys_dev_count > length phys_devs then None
      else do {
        let old_count = phys_dev_count_tramp st;
        let new_count = max (total_gpu_count st) phys_dev_count;
        old_to_new \<leftarrow> match_old st (take phys_dev_count phys_devs) 0 old_count;
        old \<leftarrow> array_prefix (phys_devs_tramp st) old_count;
        (if length (filter (\<lambda>i. i \<noteq> None) old_to_new) = phys_dev_count \<and> old_count \<noteq> 0 \<and> old_count = new_count then do {
           devs \<leftarrow> rewrap (phys_devs_tramp st) old_to_new 0 (take phys_dev_count phys_devs);
           Some (VK_SUCCESS, devs @ drop phys_dev_count phys_devs, st)
         }
         else replace_tramp_phys_devs a disp new_count old_to_new old phys_dev_count phys_devs st)
      })"

section \<open>Terminator objects\<close>

text \<open>What a driver answers to the two calls of its \<^verbatim>\<open>vkEnumeratePhysicalDevices\<close>; it writes at most as many handles as the first count.\<close>

record device_enumeration =
  de_first_result :: VkResult
  de_first_count :: nat
  de_second_result :: VkResult
  de_second_count :: nat
  de_devices :: "nat list"

text \<open>What is fixed for an instance.  \<open>cf_driver_ids\<close> and \<open>cf_driver_ids_khr\<close> are the driver identifiers that the two variants of \<^verbatim>\<open>vkGetPhysicalDeviceProperties2\<close> of a driver
  report, \<open>None\<close> for a missing function.\<close>

record pd_config =
  cf_qsort :: "(LinuxSortedDeviceInfo \<Rightarrow> LinuxSortedDeviceInfo \<Rightarrow> int) \<Rightarrow> LinuxSortedDeviceInfo list \<Rightarrow> LinuxSortedDeviceInfo list"
  cf_process :: process
  cf_allocator :: allocator
  cf_drivers :: "nat \<Rightarrow> driver"
  cf_app_api_version :: loader_api_version
  cf_disp :: nat
  supports_get_dev_prop_2 :: bool
  cf_driver_ids :: "nat \<Rightarrow> (nat \<Rightarrow> nat) option"
  cf_driver_ids_khr :: "nat \<Rightarrow> (nat \<Rightarrow> nat) option"
  khr_get_physical_device_properties2 :: bool

definition is_linux_sort_enabled :: "pd_config \<Rightarrow> bool" where
  "is_linux_sort_enabled cf =
     (case loader_getenv (cf_process cf) (Some ''VK_LOADER_DISABLE_SELECT'') of
        None \<Rightarrow> supports_get_dev_prop_2 cf
      | Some env_value \<Rightarrow> if atoi env_value \<noteq> 0 then False else supports_get_dev_prop_2 cf)"

fun find_from :: "(nat \<rightharpoonup> pd_object) \<Rightarrow> nat \<Rightarrow> nat buf \<Rightarrow> nat \<Rightarrow> nat \<Rightarrow> nat option option" where
  "find_from m dev phys_devs idx 0 = Some None"
| "find_from m dev phys_devs idx (Suc n) = do {
     p \<leftarrow> buf_read phys_devs idx;
     found \<leftarrow> (if p = 0 then Some False else map_option (\<lambda>t. dev = phys_dev t) (term_of (m p)));
     (if found then Some (Some idx) else find_from m dev phys_devs (idx + 1) n)
   }"

definition find_phys_dev :: "(nat \<rightharpoonup> pd_object) \<Rightarrow> nat \<Rightarrow> nat \<Rightarrow> nat buf \<Rightarrow> nat option option" where
  "find_phys_dev m dev phys_devs_count phys_devs =
     (if phys_devs = NULL then Some None else find_from m dev phys_devs 0 phys_devs_count)"

definition check_and_add_to_new_phys_devs ::
  "nat \<Rightarrow> nat \<Rightarrow> nat \<Rightarrow> nat \<Rightarrow> nat buf \<Rightarrow> pd_instance \<Rightarrow> (VkResult \<times> nat \<times> nat buf \<times> pd_instance) option" where
  "check_and_add_to_new_phys_devs disp dev icd cnt new_phys_devs st = do {
     dup \<leftarrow> find_phys_dev (objects st) dev cnt new_phys_devs;
     (if dup \<noteq> None then Some (VK_SUCCESS, cnt, new_phys_devs, st)
      else do {
        old \<leftarrow> find_phys_dev (objects st) dev (phys_dev_count_term st) (phys_devs_term st);
        (case old of
           Some out_idx \<Rightarrow> do {
             p \<leftarrow> buf_read (phys_devs_term st) out_idx;
             new_phys_devs \<leftarrow> buf_write new_phys_devs cnt p;
             Some (VK_SUCCESS, cnt + 1, new_phys_devs, st)
           }
         | None \<Rightarrow> do {
             present \<leftarrow> buf_read new_phys_devs cnt;
             (if present \<noteq> 0 then Some (VK_SUCCESS, cnt, new_phys_devs, st)
              else (case alloc_object (Term \<lparr>pdt_disp = disp, this_icd_term = icd, phys_dev = dev\<rparr>) st of
                (p, st) \<Rightarrow> do {
                  new_phys_devs \<leftarrow> buf_write new_phys_devs cnt p;
                  Some (if p = 0 then (VK_ERROR_OUT_OF_HOST_MEMORY, cnt, new_phys_devs, st)
                        else (VK_SUCCESS, cnt + 1, new_phys_devs, st))
                }))
           })
      })
   }"

text \<open>The nested loops over the devices of all drivers; \<open>res\<close> is the result so far.\<close>

fun add_icd_devices :: "nat \<Rightarrow> loader_icd_physical_devices \<Rightarrow> nat \<Rightarrow> nat \<Rightarrow> VkResult \<times> nat \<times> nat buf \<times> pd_instance \<Rightarrow>
    (VkResult \<times> nat \<times> nat buf \<times> pd_instance) option" where
  "add_icd_devices disp icd j 0 s = Some s"
| "add_icd_devices disp icd j (Suc n) (res, cnt, cells, st) = do {
     d \<leftarrow> buf_read (icd_physical_devices icd) j;
     (res, cnt, cells, st) \<leftarrow> check_and_add_to_new_phys_devs disp d (icd_of_devices icd) cnt cells st;
     (if res = VK_ERROR_OUT_OF_HOST_MEMORY then Some (res, cnt, cells, st)
      else add_icd_devices disp icd (j + 1) n (res, cnt, cells, st))
   }"

fun add_all_devices :: "nat \<Rightarrow> loader_icd_physical_devices list \<Rightarrow> VkResult \<times> nat \<times> nat buf \<times> pd_instance \<Rightarrow>
    (VkResult \<times> nat \<times> nat buf \<times> pd_instance) option" where
  "add_all_devices disp [] s = Some s"
| "add_all_devices disp (icd # icds) s = do {
     (res, cnt, cells, st) \<leftarrow> add_icd_devices disp icd 0 (icd_device_count icd) s;
     (if res = VK_ERROR_OUT_OF_HOST_MEMORY then Some (res, cnt, cells, st)
      else add_all_devices disp icds (res, cnt, cells, st))
   }"

text \<open>The sorted path: objects for all devices first; the cells allocated so far when one cannot be.\<close>

fun alloc_terms :: "nat \<Rightarrow> pd_instance \<Rightarrow> VkResult \<times> nat list \<times> pd_instance" where
  "alloc_terms 0 st = (VK_SUCCESS, [], st)"
| "alloc_terms (Suc n) st =
     (case alloc_object (Term \<lparr>pdt_disp = 0, this_icd_term = 0, phys_dev = 0\<rparr>) st of
        (p, st) \<Rightarrow> if p = 0 then (VK_ERROR_OUT_OF_HOST_MEMORY, [], st)
          else (case alloc_terms n st of (res, ps, st) \<Rightarrow> (res, p # ps, st)))"

fun find_old_term :: "(nat \<rightharpoonup> pd_object) \<Rightarrow> nat \<Rightarrow> nat list \<Rightarrow> nat option option" where
  "find_old_term m d [] = Some None"
| "find_old_term m d (p # ps) = do {
     t \<leftarrow> term_of (m p);
     (if d = phys_dev t then Some (Some p) else find_old_term m d ps)
   }"

text \<open>An old object replaces the new one for the same device.\<close>

fun keep_old_terms :: "nat list \<Rightarrow> nat list \<Rightarrow> pd_instance \<Rightarrow> (nat list \<times> pd_instance) option" where
  "keep_old_terms old [] st = Some ([], st)"
| "keep_old_terms old (p # ps) st = do {
     t \<leftarrow> term_of (objects st p);
     found \<leftarrow> find_old_term (objects st) (phys_dev t) old;
     (q, st) \<leftarrow> (case found of None \<Rightarrow> Some (p, st) | Some q \<Rightarrow> map_option (Pair q) (free_object p st));
     (qs, st) \<leftarrow> keep_old_terms old ps st;
     Some (q # qs, st)
   }"

definition old_terms :: "pd_instance \<Rightarrow> nat list option" where
  "old_terms st = (if phys_devs_term st = NULL then Some [] else array_prefix (phys_devs_term st) (phys_dev_count_term st))"

definition sorted_new_terms ::
  "pd_config \<Rightarrow> loader_icd_physical_devices list \<Rightarrow> nat \<Rightarrow> pd_instance \<Rightarrow> (VkResult \<times> nat list \<times> pd_instance) option" where
  "sorted_new_terms cf icds capacity st =
     (case alloc_terms capacity st of (res, ps, st) \<Rightarrow>
        if res \<noteq> VK_SUCCESS then Some (res, ps, st)
        else do {
          ts \<leftarrow> those (map (\<lambda>p. term_of (objects st p)) ps);
          (res, ts, h) \<leftarrow> linux_read_sorted_physical_devices (cf_qsort cf) (cf_process cf) (cf_allocator cf) (cf_drivers cf)
             (cf_app_api_version cf) (cf_disp cf) icds (length ps) ts (pd_heap st);
          let st = st\<lparr>pd_heap := h, objects := (objects st)(ps [\<mapsto>] map Term ts)\<rparr>;
          (if res = VK_ERROR_OUT_OF_HOST_MEMORY then Some (res, ps, st)
           else do {
             old \<leftarrow> array_prefix (phys_devs_term st) (phys_dev_count_term st);
             (ps, st) \<leftarrow> keep_old_terms old ps st;
             Some (res, ps, st)
           })
        })"

text \<open>The devices of every driver; the result is that of the last call.\<close>

definition read_icd_enumeration :: "nat \<Rightarrow> device_enumeration \<Rightarrow> VkResult \<times> loader_icd_physical_devices" where
  "read_icd_enumeration i e =
     (let none = \<lparr>icd_device_count = 0, icd_physical_devices = NULL, icd_of_devices = i\<rparr> in
      if de_first_result e \<noteq> VK_SUCCESS then (de_first_result e, none)
      else if de_second_result e \<noteq> VK_SUCCESS then (de_second_result e, none)
      else (VK_SUCCESS, \<lparr>icd_device_count = min (de_second_count e) (de_first_count e),
              icd_physical_devices = Buf (resized 0 (de_first_count e) (de_devices e)), icd_of_devices = i\<rparr>))"

fun read_icd_enumerations ::
  "(nat \<Rightarrow> device_enumeration) \<Rightarrow> VkResult \<Rightarrow> (nat \<times> nat) list \<Rightarrow> VkResult \<times> loader_icd_physical_devices list \<times> (nat \<times> nat) list" where
  "read_icd_enumerations enums res [] = (res, [], [])"
| "read_icd_enumerations enums res ((i, n) # rest) =
     (case read_icd_enumeration i (enums i) of (res, icd) \<Rightarrow>
        if res = VK_ERROR_OUT_OF_HOST_MEMORY then (res, [], (i, n) # rest)
        else (case read_icd_enumerations enums res rest of (res, icds, rest) \<Rightarrow> (res, icd # icds, (i, icd_device_count icd) # rest)))"

text \<open>The counts are added as 32-bit numbers.\<close>

definition device_count_sum :: "loader_icd_physical_devices list \<Rightarrow> nat" where
  "device_count_sum icds = unat (sum_list (map (\<lambda>icd. word_of_nat (icd_device_count icd) :: 32 word) icds))"

definition abort_term_phys_devs :: "allocator \<Rightarrow> nat list \<Rightarrow> pd_instance \<Rightarrow> pd_instance option" where
  "abort_term_phys_devs a cells st = do {
     old \<leftarrow> old_terms st;
     st \<leftarrow> free_absent old cells st;
     st \<leftarrow> free_array a (Buf cells) st;
     Some (st\<lparr>total_gpu_count := 0\<rparr>)
   }"

definition commit_term_phys_devs :: "allocator \<Rightarrow> nat list \<Rightarrow> nat \<Rightarrow> pd_instance \<Rightarrow> pd_instance option" where
  "commit_term_phys_devs a cells cnt st = do {
     st \<leftarrow> (if phys_devs_term st \<noteq> NULL then do {
              old \<leftarrow> old_terms st;
              st \<leftarrow> free_absent (take cnt cells) old st;
              free_array a (phys_devs_term st) st
            }
            else Some st);
     Some (st\<lparr>phys_dev_count_term := cnt, phys_devs_term := Buf cells, total_gpu_count := cnt\<rparr>)
   }"

definition setup_loader_term_phys_devs :: "pd_config \<Rightarrow> (nat \<Rightarrow> device_enumeration) \<Rightarrow> pd_instance \<Rightarrow> (VkResult \<times> pd_instance) option" where
  "setup_loader_term_phys_devs cf enums st =
     (case read_icd_enumerations enums VK_SUCCESS (icd_terms st) of (res, icds, terms) \<Rightarrow>
        let st = st\<lparr>icd_terms := terms\<rparr>;
            capacity = device_count_sum icds
        in
        if res = VK_ERROR_OUT_OF_HOST_MEMORY then Some (res, st\<lparr>total_gpu_count := 0\<rparr>)
        else if capacity = 0 then Some (VK_ERROR_INITIALIZATION_FAILED, st\<lparr>total_gpu_count := 0\<rparr>)
        else (case loader_calloc (cf_allocator cf) (0 :: nat) capacity (pd_heap st) of
          (NULL, h) \<Rightarrow> Some (VK_ERROR_OUT_OF_HOST_MEMORY, st\<lparr>pd_heap := h, total_gpu_count := 0\<rparr>)
        | (new_phys_devs, h) \<Rightarrow> do {
            let st = st\<lparr>pd_heap := h\<rparr>;
            (res, cnt, cells, st) \<leftarrow>
              (if is_linux_sort_enabled cf then do {
                 (res, ps, st) \<leftarrow> sorted_new_terms cf icds capacity st;
                 Some (res, capacity, ps @ replicate (capacity - length ps) 0, st)
               }
               else do {
                 (res, cnt, cells, st) \<leftarrow> add_all_devices (cf_disp cf) icds (res, 0, new_phys_devs, st);
                 cells \<leftarrow> array_prefix cells capacity;
                 Some (res, cnt, cells, st)
               });
            (if res \<noteq> VK_SUCCESS then map_option (Pair res) (abort_term_phys_devs (cf_allocator cf) cells st)
             else map_option (Pair res) (commit_term_phys_devs (cf_allocator cf) cells cnt st))
          }))"

text \<open>Without active device configurations of a settings file.  \<open>pPhysicalDevices\<close> is the array of the caller, \<open>None\<close> when null.\<close>

definition terminator_EnumeratePhysicalDevices ::
  "pd_config \<Rightarrow> (nat \<Rightarrow> device_enumeration) \<Rightarrow> nat \<Rightarrow> nat list option \<Rightarrow> pd_instance \<Rightarrow> (VkResult \<times> nat \<times> nat list option \<times> pd_instance) option" where
  "terminator_EnumeratePhysicalDevices cf enums pPhysicalDeviceCount pPhysicalDevices st = do {
     (res, st) \<leftarrow> setup_loader_term_phys_devs cf enums st;
     (if res \<noteq> VK_SUCCESS then Some (res, pPhysicalDeviceCount, pPhysicalDevices, st)
      else (case pPhysicalDevices of
        None \<Rightarrow> Some (VK_SUCCESS, phys_dev_count_term st, None, st)
      | Some out \<Rightarrow> do {
          let copy_count = min (phys_dev_count_term st) pPhysicalDeviceCount;
          ps \<leftarrow> array_prefix (phys_devs_term st) copy_count;
          (if copy_count > length out then None
           else Some (if phys_dev_count_term st > pPhysicalDeviceCount then VK_INCOMPLETE else VK_SUCCESS,
             copy_count, Some (ps @ drop copy_count out), st))
        }))
   }"

text \<open>Drivers without devices are taken out of the list; closing their objects and library is not part of this state.\<close>

definition unload_drivers_without_physical_devices :: "pd_instance \<Rightarrow> pd_instance" where
  "unload_drivers_without_physical_devices st = st\<lparr>icd_terms := filter (\<lambda>(i, n). n \<noteq> 0) (icd_terms st)\<rparr>"

section \<open>Identifier filters\<close>

definition get_device_driver_id :: "pd_config \<Rightarrow> pd_instance \<Rightarrow> nat \<Rightarrow> (VkResult \<times> nat) option" where
  "get_device_driver_id cf st physicalDevice = do {
     phys_dev_term \<leftarrow> term_of (objects st physicalDevice);
     let icd = this_icd_term phys_dev_term;
     let fp = (if loader_check_version_meets_required LOADER_VERSION_1_1_0 (cf_app_api_version cf) then cf_driver_ids cf icd else None);
     let fp = (if Option.is_none fp \<and> khr_get_physical_device_properties2 cf then cf_driver_ids_khr cf icd else fp);
     Some (case fp of None \<Rightarrow> (VK_ERROR_UNKNOWN, 0) | Some get \<Rightarrow> (VK_SUCCESS, get (phys_dev phys_dev_term)))
   }"

record id_filters =
  device_id_filter :: loader_envvar_id_filter
  vendor_id_filter :: loader_envvar_id_filter
  driver_id_filter :: loader_envvar_id_filter

definition id_passes :: "nat \<Rightarrow> loader_envvar_id_filter \<Rightarrow> bool option" where
  "id_passes ident f = (if idf_count f = 0 then Some True else check_id_matches_filter_environment_var ident f)"

text \<open>\<^verbatim>\<open>vkGetPhysicalDeviceProperties\<close> of the chain of layers, on a handle of the chain; the terminator is at its end.\<close>

type_synonym properties_fun = "pd_instance \<Rightarrow> nat \<Rightarrow> VkPhysicalDeviceProperties option"

definition terminator_GetPhysicalDeviceProperties :: "pd_config \<Rightarrow> properties_fun" where
  "terminator_GetPhysicalDeviceProperties cf st physicalDevice = do {
     phys_dev_term \<leftarrow> term_of (objects st physicalDevice);
     Some (GetPhysicalDeviceProperties (cf_drivers cf (this_icd_term phys_dev_term)) (phys_dev phys_dev_term))
   }"

text \<open>The checks of the loop body for one device.\<close>

definition device_passes :: "pd_config \<Rightarrow> properties_fun \<Rightarrow> id_filters \<Rightarrow> pd_instance \<Rightarrow> nat \<Rightarrow> bool option" where
  "device_passes cf props fs st d = do {
     dev_props \<leftarrow> props st d;
     ok \<leftarrow> id_passes (unat (pd_deviceID dev_props)) (device_id_filter fs);
     (if \<not> ok then Some False
      else do {
        ok \<leftarrow> id_passes (unat (pd_vendorID dev_props)) (vendor_id_filter fs);
        (if \<not> ok then Some False
         else if idf_count (driver_id_filter fs) = 0 then Some True
         else do {
           (res, driver_id) \<leftarrow> get_device_driver_id cf st d;
           (if res \<noteq> VK_SUCCESS then Some False else check_id_matches_filter_environment_var driver_id (driver_id_filter fs))
         })
      })
   }"

fun filter_devices :: "(nat \<Rightarrow> bool option) \<Rightarrow> nat \<Rightarrow> nat list \<Rightarrow> nat \<Rightarrow> nat list option \<Rightarrow> (nat \<times> nat list option) option" where
  "filter_devices passes out_count [] n out = Some (n, out)"
| "filter_devices passes out_count (d # ds) n out = do {
     ok \<leftarrow> passes d;
     (if \<not> ok then filter_devices passes out_count ds n out
      else do {
        out \<leftarrow> (case out of
            Some cells \<Rightarrow> if n < out_count then (if n < length cells then Some (Some (cells[n := d])) else None) else Some out
          | None \<Rightarrow> Some None);
        filter_devices passes out_count ds (n + 1) out
      })
   }"

definition loader_filter_enumerated_physical_devices ::
  "pd_config \<Rightarrow> properties_fun \<Rightarrow> id_filters \<Rightarrow> pd_instance \<Rightarrow> nat list \<Rightarrow> nat \<Rightarrow> nat list option \<Rightarrow> (VkResult \<times> nat \<times> nat list option) option" where
  "loader_filter_enumerated_physical_devices cf props fs st in_pPhysicalDevices out_count out = do {
     (filtered, out) \<leftarrow> filter_devices (device_passes cf props fs st) out_count in_pPhysicalDevices 0 out;
     let out_count = (if out = None \<or> filtered < out_count then filtered else out_count);
     Some (if out_count < filtered then VK_INCOMPLETE else VK_SUCCESS, out_count, out)
   }"

text \<open>The memory of the filters before it is written has unspecified contents.\<close>

definition parse_id_filters :: "pd_config \<Rightarrow> heap \<Rightarrow> (id_filters \<times> heap) option" where
  "parse_id_filters cf h = do {
     let junk = \<lparr>id_begin = 0, id_end = 0\<rparr>;
     (device, h) \<leftarrow> parse_id_filter_environment_var (cf_process cf) (cf_allocator cf) junk ''VK_LOADER_DEVICE_ID_FILTER'' h;
     (vendor, h) \<leftarrow> parse_id_filter_environment_var (cf_process cf) (cf_allocator cf) junk ''VK_LOADER_VENDOR_ID_FILTER'' h;
     (driver, h) \<leftarrow> parse_id_filter_environment_var (cf_process cf) (cf_allocator cf) junk ''VK_LOADER_DRIVER_ID_FILTER'' h;
     Some (\<lparr>device_id_filter = device, vendor_id_filter = vendor, driver_id_filter = driver\<rparr>, h)
   }"

definition no_id_filters :: "id_filters \<Rightarrow> bool" where
  "no_id_filters fs \<longleftrightarrow> idf_count (device_id_filter fs) = 0 \<and> idf_count (vendor_id_filter fs) = 0 \<and> idf_count (driver_id_filter fs) = 0"

definition free_all_id_filters :: "allocator \<Rightarrow> id_filters \<Rightarrow> heap \<Rightarrow> heap option" where
  "free_all_id_filters a fs h = do {
     h \<leftarrow> free_id_filters a (device_id_filter fs) h;
     h \<leftarrow> free_id_filters a (vendor_id_filter fs) h;
     free_id_filters a (driver_id_filter fs) h
   }"

section \<open>The exported function\<close>

text \<open>The next element of the instance chain, with the terminator at its end; it may be called twice.\<close>

type_synonym enumerate_fun = "nat \<Rightarrow> nat list option \<Rightarrow> pd_instance \<Rightarrow> (VkResult \<times> nat \<times> nat list option \<times> pd_instance) option"

text \<open>The devices of the chain, filtered: \<open>VK_SUCCESS\<close> or \<open>VK_INCOMPLETE\<close> in the last component when the result may be wrapped.\<close>

definition enumerate_filtered ::
  "pd_config \<Rightarrow> enumerate_fun \<Rightarrow> enumerate_fun \<Rightarrow> properties_fun \<Rightarrow> id_filters \<Rightarrow> nat \<Rightarrow> nat list option \<Rightarrow> pd_instance \<Rightarrow>
     (VkResult \<times> nat \<times> nat list option \<times> pd_instance \<times> bool) option" where
  "enumerate_filtered cf next1 next2 props fs cnt out st =
     (if no_id_filters fs then map_option (\<lambda>(res, cnt, out, st). (res, cnt, out, st, True)) (next1 cnt out st)
      else do {
        (res, n, _, st) \<leftarrow> next1 0 None st;
        (if res \<noteq> VK_SUCCESS then Some (res, cnt, out, st, False)
         else do {
           (res, n, devs, st) \<leftarrow> next2 n (Some (replicate n 0)) st;
           (if res \<noteq> VK_SUCCESS then Some (res, cnt, out, st, False)
            else do {
              devs \<leftarrow> devs;
              (if n > length devs then None
               else do {
                 (res, cnt, out) \<leftarrow> loader_filter_enumerated_physical_devices cf props fs st (take n devs) cnt out;
                 Some (res, cnt, out, st, True)
               })
            })
         })
      })"

definition vkEnumeratePhysicalDevices ::
  "pd_config \<Rightarrow> enumerate_fun \<Rightarrow> enumerate_fun \<Rightarrow> properties_fun \<Rightarrow> nat option \<Rightarrow> nat list option \<Rightarrow> pd_instance \<Rightarrow>
     (VkResult \<times> nat option \<times> nat list option \<times> pd_instance) option" where
  "vkEnumeratePhysicalDevices cf next1 next2 props pPhysicalDeviceCount pPhysicalDevices st =
     (case pPhysicalDeviceCount of
        None \<Rightarrow> Some (VK_ERROR_INITIALIZATION_FAILED, None, pPhysicalDevices, st)
      | Some cnt \<Rightarrow> do {
          (fs, h) \<leftarrow> parse_id_filters cf (pd_heap st);
          (res, cnt, out, st, wrap) \<leftarrow> enumerate_filtered cf next1 next2 props fs cnt pPhysicalDevices (st\<lparr>pd_heap := h\<rparr>);
          (res, out, st) \<leftarrow> (case out of
             Some devs \<Rightarrow>
               if wrap \<and> (res = VK_SUCCESS \<or> res = VK_INCOMPLETE) then do {
                 (update_res, devs, st) \<leftarrow> setup_loader_tramp_phys_devs (cf_allocator cf) (cf_disp cf) cnt devs st;
                 Some (if update_res \<noteq> VK_SUCCESS then update_res else res, Some devs, unload_drivers_without_physical_devices st)
               }
               else Some (res, out, st)
           | None \<Rightarrow> Some (res, None, st));
          h \<leftarrow> free_all_id_filters (cf_allocator cf) fs (pd_heap st);
          Some (res, Some cnt, out, st\<lparr>pd_heap := h\<rparr>)
        })"

text \<open>What every command on a device starts with; \<open>Some 0\<close> is the null handle, \<open>None\<close> a read of memory that is no such object.\<close>

definition loader_unwrap_physical_device :: "pd_instance \<Rightarrow> nat \<Rightarrow> nat option" where
  "loader_unwrap_physical_device st physicalDevice =
     (if physicalDevice = 0 then Some 0
      else do {
        phys_dev \<leftarrow> tramp_of (objects st physicalDevice);
        Some (if PHYS_TRAMP_MAGIC_NUMBER \<noteq> tr_magic phys_dev then 0 else tr_phys_dev phys_dev)
      })"

section \<open>Destruction\<close>

text \<open>The part of \<^verbatim>\<open>vkDestroyInstance\<close> that concerns devices: the terminator's, where a repeated pointer is made null first, and the trampoline's.\<close>

fun null_duplicates :: "nat list \<Rightarrow> nat list" where
  "null_duplicates [] = []"
| "null_duplicates (p # ps) = p # null_duplicates (map (\<lambda>q. if p = q then 0 else q) ps)"

definition destroy_phys_devs_term :: "allocator \<Rightarrow> pd_instance \<Rightarrow> pd_instance option" where
  "destroy_phys_devs_term a st =
     (if phys_devs_term st = NULL then Some st
      else do {
        ps \<leftarrow> array_prefix (phys_devs_term st) (phys_dev_count_term st);
        st \<leftarrow> free_absent [] (null_duplicates ps) st;
        st \<leftarrow> free_array a (phys_devs_term st) st;
        Some (st\<lparr>phys_devs_term := Freed\<rparr>)
      })"

definition destroy_phys_devs_tramp :: "allocator \<Rightarrow> pd_instance \<Rightarrow> pd_instance option" where
  "destroy_phys_devs_tramp a st =
     (if phys_devs_tramp st = NULL then Some st
      else do {
        ps \<leftarrow> array_prefix (phys_devs_tramp st) (phys_dev_count_tramp st);
        st \<leftarrow> free_absent [] ps st;
        st \<leftarrow> free_array a (phys_devs_tramp st) st;
        Some (st\<lparr>phys_devs_tramp := Freed\<rparr>)
      })"

end
