(* ===== verification/TrampDevices.thy ===== *)
theory TrampDevices
  imports PhysDevices
begin

text \<open>
  What the trampoline objects guarantee: however devices come and go, every device asked for is wrapped in exactly one object, a
  device that had an object keeps it, and nothing leaks or is freed twice.
\<close>

section \<open>Indices\<close>

lemma first_index_None: "first_index x xs = None \<longleftrightarrow> x \<notin> set xs"
  by (induction xs) auto

lemma first_index_Some: "first_index x xs = Some i \<Longrightarrow> i < length xs \<and> xs ! i = x"
  by (induction xs arbitrary: i) (auto split: if_splits simp: less_Suc_eq_0_disj)

lemma first_index_nth: "distinct xs \<Longrightarrow> i < length xs \<Longrightarrow> first_index (xs ! i) xs = Some i"
proof (induction xs arbitrary: i)
  case (Cons x xs)
  then show ?case by (cases i) auto
qed simp

lemma array_prefix_read:
  "array_prefix b n = Some xs \<Longrightarrow> i < n \<Longrightarrow> buf_read b i = Some (xs ! i) \<and> length xs = n"
  by (auto simp: array_prefix_def split: buf.splits if_splits)

lemma array_prefix_length: "array_prefix b n = Some xs \<Longrightarrow> length xs = n"
  by (auto simp: array_prefix_def split: buf.splits if_splits)

section \<open>Loops\<close>

abbreviation dev_of :: "(nat \<rightharpoonup> pd_object) \<Rightarrow> nat \<Rightarrow> nat" where
  "dev_of m p \<equiv> tr_phys_dev (the (tramp_of (m p)))"

lemma match_old_correct:
  assumes "array_prefix (phys_devs_tramp st) (length xs) = Some xs" and "\<forall>p\<in>set xs. tramp_of (objects st p) \<noteq> None"
  shows "i + n = length xs \<Longrightarrow> match_old st devs i n = Some (map (\<lambda>p. first_index (dev_of (objects st) p) devs) (drop i xs))"
proof (induction n arbitrary: i)
  case (Suc n)
  then have i: "i < length xs" and IH: "match_old st devs (i + 1) n = Some (map (\<lambda>p. first_index (dev_of (objects st) p) devs) (drop (i + 1) xs))"
    by auto
  have "buf_read (phys_devs_tramp st) i = Some (xs ! i)" using array_prefix_read [OF assms(1) i] by simp
  moreover obtain t where "tramp_of (objects st (xs ! i)) = Some t" using assms(2) i nth_mem by blast
  ultimately show ?case using IH i by (simp add: Cons_nth_drop_Suc [symmetric] del: buf_read_Some)
qed simp

text \<open>The object that wraps a device.\<close>

definition wrapper :: "(nat \<rightharpoonup> pd_object) \<Rightarrow> nat list \<Rightarrow> nat \<Rightarrow> nat option" where
  "wrapper m xs d = find (\<lambda>p. dev_of m p = d) xs"

lemma wrapper_Some: "wrapper m xs d = Some p \<Longrightarrow> p \<in> set xs \<and> dev_of m p = d"
  by (auto simp: wrapper_def find_Some_iff)

lemma wrapper_None: "wrapper m xs d = None \<longleftrightarrow> (\<forall>p\<in>set xs. dev_of m p \<noteq> d)"
  by (auto simp: wrapper_def find_None_iff)

lemma wrapper_unique: "distinct (map (dev_of m) xs) \<Longrightarrow> p \<in> set xs \<Longrightarrow> wrapper m xs (dev_of m p) = Some p"
  by (cases "wrapper m xs (dev_of m p)") (auto simp: wrapper_None distinct_map inj_on_def dest: wrapper_Some)

lemma old_of_new:
  assumes "array_prefix old (length xs) = Some xs" and "distinct devs" and "i < length devs"
  shows "(\<exists>p cur. wrapper m xs (devs ! i) = Some p \<and> buf_read old cur = Some p \<and>
            first_index (Some i) (map (\<lambda>p. first_index (dev_of m p) devs) xs) = Some cur) \<or>
         wrapper m xs (devs ! i) = None \<and> first_index (Some i) (map (\<lambda>p. first_index (dev_of m p) devs) xs) = None"
proof -
  have eq: "first_index (dev_of m p) devs = Some i \<longleftrightarrow> dev_of m p = devs ! i" for p
    using first_index_Some first_index_nth [OF assms(2,3)] by metis
  show ?thesis
  proof (cases "wrapper m xs (devs ! i)")
    case None
    then have "first_index (Some i) (map (\<lambda>p. first_index (dev_of m p) devs) xs) = None"
      unfolding first_index_None wrapper_None by (auto simp: eq [symmetric] dest: sym)
    with None show ?thesis by simp
  next
    case (Some p)
    then have "Some i \<in> set (map (\<lambda>p. first_index (dev_of m p) devs) xs)" using wrapper_Some [OF Some] eq by force
    then obtain cur where cur: "first_index (Some i) (map (\<lambda>p. first_index (dev_of m p) devs) xs) = Some cur"
      by (cases "first_index (Some i) (map (\<lambda>p. first_index (dev_of m p) devs) xs)") (simp_all only: first_index_None, blast)
    have "\<exists>k. first_index (Some i) (map (\<lambda>p. first_index (dev_of m p) devs) ys) = Some k \<and> k < length ys \<and> ys ! k = p"
      if "wrapper m ys (devs ! i) = Some p" for ys
      using that
    proof (induction ys)
      case (Cons y ys)
      then show ?case by (cases "dev_of m y = devs ! i") (auto simp: wrapper_def eq first_index_nth [OF assms(2,3)] eq_commute [of "Some i"])
    qed (simp add: wrapper_def)
    with Some cur have "cur < length xs" "xs ! cur = p" by force+
    with array_prefix_read [OF assms(1)] have "buf_read old cur = Some p" by blast
    with Some cur show ?thesis by blast
  qed
qed

lemma rewrap_correct:
  assumes "array_prefix old (length xs) = Some xs" and "distinct devs"
  shows "i \<le> length devs \<Longrightarrow> rewrap old (map (\<lambda>p. first_index (dev_of m p) devs) xs) i (drop i devs) =
     Some (map (\<lambda>d. case wrapper m xs d of Some p \<Rightarrow> p | None \<Rightarrow> d) (drop i devs))"
proof (induction "length devs - i" arbitrary: i)
  case (Suc n)
  then have i: "i < length devs" by simp
  have "rewrap old (map (\<lambda>p. first_index (dev_of m p) devs) xs) (i + 1) (drop (i + 1) devs) =
     Some (map (\<lambda>d. case wrapper m xs d of Some p \<Rightarrow> p | None \<Rightarrow> d) (drop (i + 1) devs))"
    using Suc by simp
  with i old_of_new [OF assms i, of m] show ?case
    by (elim disjE exE conjE) (simp_all add: Cons_nth_drop_Suc [symmetric] del: buf_read_Some)
qed simp

text \<open>Objects are added at the end of the store.\<close>

definition grows :: "pd_instance \<Rightarrow> pd_instance \<Rightarrow> bool" where
  "grows st st' \<longleftrightarrow> next_object st \<le> next_object st' \<and> (\<forall>p. p < next_object st \<longrightarrow> objects st' p = objects st p) \<and>
     (\<forall>p. next_object st \<le> p \<longrightarrow> (objects st' p \<noteq> None) = (p < next_object st')) \<and>
     live (pd_heap st') = live (pd_heap st) + int (next_object st' - next_object st) \<and>
     st' = st\<lparr>objects := objects st', next_object := next_object st', pd_heap := pd_heap st'\<rparr>"

lemma grows_refl: "\<forall>p. objects st p \<noteq> None \<longrightarrow> p < next_object st \<Longrightarrow> grows st (st\<lparr>pd_heap := h\<rparr>) = (live h = live (pd_heap st))"
  by (auto simp: grows_def)

lemma grows_arrays:
  assumes "grows st st'"
  shows "phys_devs_tramp st' = phys_devs_tramp st" and "phys_dev_count_tramp st' = phys_dev_count_tramp st"
    and "phys_devs_term st' = phys_devs_term st" and "phys_dev_count_term st' = phys_dev_count_term st"
    and "total_gpu_count st' = total_gpu_count st"
proof -
  have "st' = st\<lparr>objects := objects st', next_object := next_object st', pd_heap := pd_heap st'\<rparr>" using assms by (simp add: grows_def)
  then show "phys_devs_tramp st' = phys_devs_tramp st" "phys_dev_count_tramp st' = phys_dev_count_tramp st"
    "phys_devs_term st' = phys_devs_term st" "phys_dev_count_term st' = phys_dev_count_term st" "total_gpu_count st' = total_gpu_count st"
    by (metis pd_instance.ext_inject pd_instance.surjective pd_instance.update_convs(1-3))+
qed

lemma alloc_object_cases:
  assumes "\<forall>p. objects st p \<noteq> None \<longrightarrow> p < next_object st" and "0 < next_object st"
  shows "(\<exists>h. live h = live (pd_heap st) \<and> alloc_object obj st = (0, st\<lparr>pd_heap := h\<rparr>)) \<or>
     (\<exists>st'. alloc_object obj st = (next_object st, st') \<and> grows st st' \<and> next_object st' = Suc (next_object st) \<and>
        objects st' (next_object st) = Some obj \<and> (\<forall>p. objects st' p \<noteq> None \<longrightarrow> p < next_object st'))"
proof (cases "succeeds (pd_heap st)")
  case True
  with assms show ?thesis by (intro disjI2) (auto simp: alloc_object_def grows_def less_Suc_eq)
next
  case False
  then show ?thesis by (intro disjI1 exI [of _ "tick (pd_heap st)"]) (simp add: alloc_object_def)
qed

lemma grows_trans:
  assumes "grows st st1" and "grows st1 st2"
  shows "grows st st2"
proof -
  have le: "next_object st \<le> next_object st1" "next_object st1 \<le> next_object st2" using assms by (simp_all add: grows_def)
  have "st2 = st1\<lparr>objects := objects st2, next_object := next_object st2, pd_heap := pd_heap st2\<rparr>"
    and "st1 = st\<lparr>objects := objects st1, next_object := next_object st1, pd_heap := pd_heap st1\<rparr>" using assms unfolding grows_def by blast+
  then have st2: "st2 = st\<lparr>objects := objects st2, next_object := next_object st2, pd_heap := pd_heap st2\<rparr>"
    by (cases st; cases st1; cases st2) simp
  have "(objects st2 p \<noteq> None) = (p < next_object st2)" if "next_object st \<le> p" for p
    using assms that le by (cases "p < next_object st1") (auto simp: grows_def)
  moreover have "objects st2 p = objects st p" if "p < next_object st" for p using assms that le by (simp add: grows_def)
  moreover have "live (pd_heap st2) = live (pd_heap st) + int (next_object st2 - next_object st)" using assms le by (simp add: grows_def)
  ultimately show ?thesis using le st2 unfolding grows_def by (meson order_trans)
qed

text \<open>The cells for the devices \<open>ds\<close>: old objects, all below \<open>N\<close>, and the new ones in the order of their allocation.\<close>

definition wrap_result :: "(nat \<rightharpoonup> pd_object) \<Rightarrow> nat list \<Rightarrow> nat \<Rightarrow> nat list \<Rightarrow> pd_instance \<Rightarrow> VkResult \<Rightarrow> nat list \<Rightarrow> pd_instance \<Rightarrow> bool" where
  "wrap_result m xs N ds st r ps st' \<longleftrightarrow> grows st st' \<and> filter (\<lambda>p. N \<le> p) ps = [next_object st..<next_object st'] \<and>
     (\<forall>p\<in>set ps. p < N \<longrightarrow> p \<in> set xs) \<and>
     (if r = VK_SUCCESS
      then list_all2 (\<lambda>d p. case wrapper m xs d of Some q \<Rightarrow> p = q
             | None \<Rightarrow> N \<le> p \<and> tramp_of (objects st' p) \<noteq> None \<and> dev_of (objects st') p = d) ds ps
      else r = VK_ERROR_OUT_OF_HOST_MEMORY) \<and>
     (\<forall>p\<ge>next_object st. objects st' p \<noteq> None \<longrightarrow> tramp_of (objects st' p) \<noteq> None)"

lemma wrap_all_spec:
  assumes "array_prefix old (length xs) = Some xs" and "distinct devs" and "\<forall>p\<in>set xs. 0 < p \<and> p < N" and "0 < N"
  shows "i \<le> length devs \<Longrightarrow> \<forall>p. objects st p \<noteq> None \<longrightarrow> p < next_object st \<Longrightarrow> N \<le> next_object st \<Longrightarrow>
    \<exists>r ps st'. wrap_all disp old (map (\<lambda>p. first_index (dev_of m p) devs) xs) i (drop i devs) st = Some (r, ps, st') \<and>
      wrap_result m xs N (drop i devs) st r ps st'"
proof (induction "length devs - i" arbitrary: i st)
  case 0
  then show ?case by (auto simp: wrap_result_def grows_def)
next
  case (Suc n)
  then have i: "i < length devs" and n: "n = length devs - (i + 1)" and i1: "i + 1 \<le> length devs" by simp_all
  let ?o2n = "map (\<lambda>p. first_index (dev_of m p) devs) xs"
  let ?new = "Tramp \<lparr>tr_disp = disp, tr_magic = PHYS_TRAMP_MAGIC_NUMBER, tr_phys_dev = devs ! i\<rparr>"
  have dr: "drop i devs = devs ! i # drop (i + 1) devs" using i by (simp add: Cons_nth_drop_Suc)
  have unfold: "wrap_all disp old ?o2n i (drop i devs) st = do {
     (p, st) \<leftarrow> (case wrapper m xs (devs ! i) of Some p \<Rightarrow> Some (p, st) | None \<Rightarrow> Some (alloc_object ?new st));
     (if p = 0 then Some (VK_ERROR_OUT_OF_HOST_MEMORY, [], st)
      else do {
        (res, ps, st) \<leftarrow> wrap_all disp old ?o2n (i + 1) (drop (i + 1) devs) st;
        Some (res, p # ps, st)
      }) }"
    using old_of_new [OF assms(1,2) i, of m] unfolding dr
    by (elim disjE exE conjE) (simp_all del: buf_read_Some split: prod.split)
  show ?case
  proof (cases "wrapper m xs (devs ! i)")
    case (Some p)
    then have p: "p \<in> set xs" "0 < p" "p < N" using assms(3) wrapper_Some by metis+
    from Suc(1) [OF n i1 Suc(4,5)] obtain r ps st' where
      IH: "wrap_all disp old ?o2n (i + 1) (drop (i + 1) devs) st = Some (r, ps, st')" "wrap_result m xs N (drop (i + 1) devs) st r ps st'" by blast
    have "wrap_all disp old ?o2n i (drop i devs) st = Some (r, p # ps, st')" using unfold Some IH(1) p by simp
    then show ?thesis using IH(2) p Some unfolding dr by (auto simp: wrap_result_def)
  next
    case None
    from Suc(4,5) assms(4) alloc_object_cases [of st ?new] consider
      (fail) h where "live h = live (pd_heap st)" "alloc_object ?new st = (0, st\<lparr>pd_heap := h\<rparr>)"
    | (ok) st1 where "alloc_object ?new st = (next_object st, st1)" "grows st st1" "next_object st1 = Suc (next_object st)"
        "objects st1 (next_object st) = Some ?new" "\<forall>p. objects st1 p \<noteq> None \<longrightarrow> p < next_object st1" by auto
    then show ?thesis
    proof cases
      case fail
      then show ?thesis using unfold None grows_refl [OF Suc(4)] Suc(4) by (auto simp: wrap_result_def)
    next
      case ok
      have N1: "N \<le> next_object st1" using Suc(5) ok(3) by simp
      from Suc(1) [OF n i1 ok(5) N1] obtain r ps st' where
        IH: "wrap_all disp old ?o2n (i + 1) (drop (i + 1) devs) st1 = Some (r, ps, st')" "wrap_result m xs N (drop (i + 1) devs) st1 r ps st'" by blast
      have "wrap_all disp old ?o2n i (drop i devs) st = Some (r, next_object st # ps, st')" using unfold None ok(1) IH(1) Suc(5) assms(4) by simp
      moreover have "grows st st'" using grows_trans [OF ok(2)] IH(2) by (simp add: wrap_result_def)
      moreover have new: "objects st' (next_object st) = Some ?new" using IH(2) ok(3,4) by (simp add: wrap_result_def grows_def)
      moreover have "next_object st < next_object st'" using IH(2) ok(3) by (simp add: wrap_result_def grows_def)
      then have "filter (\<lambda>p. N \<le> p) (next_object st # ps) = [next_object st..<next_object st']"
        using IH(2) ok(3) Suc(5) by (simp add: wrap_result_def upt_conv_Cons)
      moreover have "\<forall>p\<ge>next_object st. objects st' p \<noteq> None \<longrightarrow> tramp_of (objects st' p) \<noteq> None"
      proof (intro allI impI)
        fix p assume "next_object st \<le> p" "objects st' p \<noteq> None"
        then show "tramp_of (objects st' p) \<noteq> None"
          using IH(2) new ok(3) by (cases "p = next_object st") (simp_all add: wrap_result_def)
      qed
      ultimately show ?thesis using IH(2) None Suc(5) unfolding dr by (auto simp: wrap_result_def)
    qed
  qed
qed

lemma free_absent_spec:
  "distinct (filter (\<lambda>p. p \<notin> set keep) ps) \<Longrightarrow> \<forall>p\<in>set ps. p \<notin> set keep \<longrightarrow> p \<noteq> 0 \<and> objects st p \<noteq> None \<Longrightarrow>
   free_absent keep ps st = Some (st\<lparr>objects := \<lambda>p. if p \<in> set ps \<and> p \<notin> set keep then None else objects st p,
     pd_heap := add_live (- int (length (filter (\<lambda>p. p \<notin> set keep) ps))) (pd_heap st)\<rparr>)"
proof (induction ps arbitrary: st)
  case Nil
  then show ?case by (simp add: add_live_def)
next
  case (Cons p ps)
  show ?case
  proof (cases "p \<in> set keep")
    case True
    with Cons show ?thesis by (auto simp: fun_eq_iff intro!: arg_cong [of _ _ "\<lambda>f. objects_update f st"])
  next
    case False
    let ?st = "st\<lparr>objects := (objects st)(p := None), pd_heap := add_live (- 1) (pd_heap st)\<rparr>"
    have "free_object p st = Some ?st" using Cons.prems False by (auto simp: free_object_def)
    moreover have "free_absent keep ps ?st = Some (?st\<lparr>objects := \<lambda>q. if q \<in> set ps \<and> q \<notin> set keep then None else objects ?st q,
        pd_heap := add_live (- int (length (filter (\<lambda>p. p \<notin> set keep) ps))) (pd_heap ?st)\<rparr>)"
      using Cons.prems False by (intro Cons.IH) auto
    ultimately show ?thesis using False by (simp add: add_live_def fun_eq_iff)
  qed
qed

lemma unmatched_step:
  "first_index None o2n = Some cur \<Longrightarrow> length o2n \<le> length xs \<Longrightarrow>
   map fst (filter (\<lambda>(p, o'). o' = None) (zip xs o2n)) =
     xs ! cur # map fst (filter (\<lambda>(p, o'). o' = None) (zip xs (o2n[cur := Some i])))"
proof (induction o2n arbitrary: xs cur)
  case (Cons o' o2n)
  then obtain x xs' where "xs = x # xs'" by (cases xs) auto
  with Cons show ?case by (cases o') auto
qed simp

lemma keep_rest_correct:
  assumes "array_prefix old (length xs) = Some xs"
  shows "length o2n = length xs \<Longrightarrow>
     keep_rest old o2n i n = Some (take n (map fst (filter (\<lambda>(p, o'). o' = None) (zip xs o2n))))"
proof (induction n arbitrary: o2n i)
  case (Suc n)
  show ?case
  proof (cases "first_index None o2n")
    case None
    then have "filter (\<lambda>(p, o'). o' = None) (zip xs o2n) = []"
      by (auto simp: first_index_None filter_empty_conv) (metis not_Some_eq set_zip_rightD)
    with None show ?thesis by simp
  next
    case (Some cur)
    then have "cur < length xs" using first_index_Some Suc.prems by fastforce
    then have "buf_read old cur = Some (xs ! cur)" using array_prefix_read [OF assms] by simp
    with Some Suc unmatched_step [OF Some, of xs i] show ?thesis by (simp del: buf_read_Some)
  qed
qed simp

lemma unmatched_map:
  "map fst (filter (\<lambda>(p, o'). o' = None) (zip xs (map (\<lambda>p. first_index (dev_of m p) devs) xs))) =
     filter (\<lambda>p. dev_of m p \<notin> set devs) xs"
  by (induction xs) (auto simp: first_index_None)

section \<open>The invariant\<close>

text \<open>\<open>xs\<close> are the objects out: the live trampoline objects, one per device.\<close>

definition tramp_ok :: "pd_instance \<Rightarrow> nat list \<Rightarrow> bool" where
  "tramp_ok st xs \<longleftrightarrow> array_prefix (phys_devs_tramp st) (phys_dev_count_tramp st) = Some xs \<and> phys_devs_tramp st \<noteq> Freed \<and>
     0 \<notin> set xs \<and> {p. tramp_of (objects st p) \<noteq> None} = set xs \<and> distinct (map (dev_of (objects st)) xs) \<and>
     0 < next_object st \<and> (\<forall>p. objects st p \<noteq> None \<longrightarrow> p < next_object st)"

text \<open>What a call may do to the rest of the store: nothing.\<close>

definition terms_kept :: "pd_instance \<Rightarrow> pd_instance \<Rightarrow> bool" where
  "terms_kept st st' \<longleftrightarrow> (\<forall>p. term_of (objects st' p) = term_of (objects st p)) \<and> phys_devs_term st' = phys_devs_term st \<and>
     phys_dev_count_term st' = phys_dev_count_term st \<and> next_object st \<le> next_object st'"

text \<open>The objects are the only blocks that are gained or lost, with the arrays.\<close>

definition tramp_blocks :: "pd_instance \<Rightarrow> nat list \<Rightarrow> int" where
  "tramp_blocks st xs = int (length xs) + blocks (phys_devs_tramp st)"

text \<open>When as many old objects are found as devices are asked for, every device has one.\<close>

lemma all_known:
  assumes "distinct devs" and "distinct (map (dev_of m) xs)"
    and "length (filter (\<lambda>i. i \<noteq> None) (map (\<lambda>p. first_index (dev_of m p) devs) xs)) = length devs"
  shows "\<forall>d\<in>set devs. wrapper m xs d \<noteq> None"
proof -
  let ?k = "filter (\<lambda>p. dev_of m p \<in> set devs) xs"
  have "(\<lambda>i. i \<noteq> None) \<circ> (\<lambda>p. first_index (dev_of m p) devs) = (\<lambda>p. dev_of m p \<in> set devs)"
    by (auto simp: fun_eq_iff first_index_None simp flip: not_None_eq)
  then have "length ?k = length devs" using assms(3) by (simp add: filter_map)
  moreover have "distinct (map (dev_of m) ?k)" using assms(2) by (rule distinct_map_filter)
  ultimately have "card (dev_of m ` set ?k) = card (set devs)"
    using assms(1) by (metis distinct_card length_map set_map)
  then have "dev_of m ` set ?k = set devs" by (intro card_subset_eq) auto
  then show ?thesis by (force simp: wrapper_None simp flip: not_None_eq)
qed

lemma wrap_result_old:
  assumes "wrap_result m xs N ds st r ps st'" and "\<forall>p\<in>set xs. p < N" and "p \<in> set ps"
  shows "p \<in> set xs \<longleftrightarrow> p < N"
  using assms by (auto simp: wrap_result_def)

lemma wrap_result_new:
  assumes "wrap_result m xs N ds st r ps st'" and "\<forall>p\<in>set xs. p < N"
  shows "filter (\<lambda>p. p \<notin> set xs) ps = [next_object st..<next_object st']"
proof -
  have "filter (\<lambda>p. p \<notin> set xs) ps = filter (\<lambda>p. N \<le> p) ps"
    using wrap_result_old [OF assms] by (intro filter_cong) auto
  then show ?thesis using assms(1) by (simp add: wrap_result_def)
qed

text \<open>Undoing the allocations.\<close>

lemma undo_wrap:
  assumes "wrap_result m xs (next_object st) ds st r ps st'" and "\<forall>p\<in>set xs. p < next_object st" and "0 < next_object st"
    and "\<forall>p. objects st p \<noteq> None \<longrightarrow> p < next_object st"
  shows "\<exists>h. free_absent xs ps st' = Some (st'\<lparr>objects := objects st, pd_heap := h\<rparr>) \<and> live h = live (pd_heap st)"
proof -
  note new = wrap_result_new [OF assms(1,2)]
  have g: "grows st st'" using assms(1) by (simp add: wrap_result_def)
  have set_new: "p \<in> set ps \<and> p \<notin> set xs \<longleftrightarrow> next_object st \<le> p \<and> p < next_object st'" for p
    using arg_cong [OF new, of "\<lambda>zs. p \<in> set zs"] by simp
  have alive: "p \<noteq> 0 \<and> objects st' p \<noteq> None" if "p \<in> set ps" "p \<notin> set xs" for p
  proof -
    from that set_new have "next_object st \<le> p" "p < next_object st'" by blast+
    with g assms(3) show ?thesis unfolding grows_def by auto
  qed
  have "free_absent xs ps st' = Some (st'\<lparr>objects := \<lambda>p. if p \<in> set ps \<and> p \<notin> set xs then None else objects st' p,
     pd_heap := add_live (- int (length (filter (\<lambda>p. p \<notin> set xs) ps))) (pd_heap st')\<rparr>)"
    using alive by (intro free_absent_spec) (simp_all add: new)
  moreover have "(\<lambda>p. if p \<in> set ps \<and> p \<notin> set xs then None else objects st' p) = objects st"
  proof
    fix p
    show "(if p \<in> set ps \<and> p \<notin> set xs then None else objects st' p) = objects st p"
      using g assms(4) unfolding set_new grows_def by (cases "next_object st \<le> p") (simp_all, metis leD not_None_eq)
  qed
  moreover have "live (pd_heap st') - int (length [next_object st..<next_object st']) = live (pd_heap st)" using g by (simp add: grows_def)
  ultimately show ?thesis
    by (intro exI [of _ "add_live (- int (length [next_object st..<next_object st'])) (pd_heap st')"]) (simp add: new)
qed

text \<open>Keeping them: the objects afterwards.\<close>

lemma commit_wrap:
  assumes w: "wrap_result (objects st) xs (next_object st) devs st VK_SUCCESS ps st1"
    and dd: "distinct devs" and dm: "distinct (map (dev_of (objects st)) xs)"
    and xs: "{p. tramp_of (objects st p) \<noteq> None} = set xs" "\<forall>p. objects st p \<noteq> None \<longrightarrow> p < next_object st"
    and keep: "\<forall>p\<in>set xs. p \<in> set keep \<longleftrightarrow> p \<in> set ps \<or> p \<in> set rest"
    and rest: "rest = take k (filter (\<lambda>p. dev_of (objects st) p \<notin> set devs) xs)"
  defines "objs \<equiv> \<lambda>p. if p \<in> set xs \<and> p \<notin> set keep then None else objects st1 p"
  shows "map (dev_of objs) (ps @ rest) = devs @ map (dev_of (objects st)) rest" and "distinct (devs @ map (dev_of (objects st)) rest)"
    and "{p. tramp_of (objs p) \<noteq> None} = set (ps @ rest)" and "term_of (objs p) = term_of (objects st p)"
    and "length (ps @ rest) + length (filter (\<lambda>p. p \<notin> set keep) xs) = length xs + (next_object st1 - next_object st)"
proof -
  let ?m = "objects st"
  have g: "grows st st1" and la: "list_all2 (\<lambda>d p. case wrapper ?m xs d of Some q \<Rightarrow> p = q
      | None \<Rightarrow> next_object st \<le> p \<and> tramp_of (objects st1 p) \<noteq> None \<and> dev_of (objects st1) p = d) devs ps"
    and newt: "\<forall>p\<ge>next_object st. objects st1 p \<noteq> None \<longrightarrow> tramp_of (objects st1 p) \<noteq> None"
    using w by (simp_all add: wrap_result_def)
  have tr: "tramp_of (?m p) \<noteq> None" if "p \<in> set xs" for p using that xs(1) by blast
  have lt: "p < next_object st" if "p \<in> set xs" for p
  proof -
    from tr [OF that] have "?m p \<noteq> None" by (cases "?m p") auto
    with xs(2) show ?thesis by blast
  qed
  have lt': "\<forall>p\<in>set xs. p < next_object st" using lt by blast
  have sub: "set rest \<subseteq> set xs" unfolding rest by (meson set_take_subset filter_is_subset order_trans)
  have old: "objs p = ?m p" if "p \<in> set xs" "p \<in> set ps \<or> p \<in> set rest" for p
    using that keep lt g by (simp add: objs_def grows_def)
  have new: "objs p = objects st1 p" if "next_object st \<le> p" for p using that lt [of p] by (auto simp: objs_def)
  have "map (dev_of objs) ps = devs"
  proof (rule nth_equalityI)
    show len: "length (map (dev_of objs) ps) = length devs" using la by (simp add: list_all2_lengthD)
    fix i assume "i < length (map (dev_of objs) ps)"
    then have i: "i < length ps" by simp
    then have in_ps: "ps ! i \<in> set ps" by simp
    from i len have "case wrapper ?m xs (devs ! i) of Some q \<Rightarrow> ps ! i = q
      | None \<Rightarrow> next_object st \<le> ps ! i \<and> tramp_of (objects st1 (ps ! i)) \<noteq> None \<and> dev_of (objects st1) (ps ! i) = devs ! i"
      using list_all2_nthD2 [OF la, of i] by simp
    then show "map (dev_of objs) ps ! i = devs ! i"
      using i in_ps new [of "ps ! i"] old [of "ps ! i"] wrapper_Some [of ?m xs "devs ! i"] by (auto split: option.splits)
  qed
  moreover have "map (dev_of objs) rest = map (dev_of ?m) rest" using sub old by auto
  ultimately show devs: "map (dev_of objs) (ps @ rest) = devs @ map (dev_of ?m) rest" by simp
  have "distinct (map (dev_of ?m) rest)" unfolding rest take_map [symmetric] by (intro distinct_take distinct_map_filter dm)
  moreover have "set (map (dev_of ?m) rest) \<inter> set devs = {}"
    unfolding rest using set_take_subset [of k "filter (\<lambda>p. dev_of ?m p \<notin> set devs) xs"] by auto
  ultimately show di: "distinct (devs @ map (dev_of ?m) rest)" using dd by auto
  have new_ps: "p \<in> set ps" if "next_object st \<le> p" "p < next_object st1" for p
    using arg_cong [OF wrap_result_new [OF w lt'], of "\<lambda>zs. p \<in> set zs"] that by simp
  show "{p. tramp_of (objs p) \<noteq> None} = set (ps @ rest)"
  proof (intro set_eqI iffI)
    fix p assume "p \<in> {p. tramp_of (objs p) \<noteq> None}"
    then have t: "tramp_of (objs p) \<noteq> None" by simp
    show "p \<in> set (ps @ rest)"
    proof (cases "next_object st \<le> p")
      case True
      with t new have "objects st1 p \<noteq> None" by (cases "objects st1 p") auto
      with True g new_ps show ?thesis by (auto simp: grows_def)
    next
      case False
      then have "objects st1 p = ?m p" using g by (simp add: grows_def)
      with t xs(1) keep show ?thesis by (auto simp: objs_def split: if_splits)
    qed
  next
    fix p assume p: "p \<in> set (ps @ rest)"
    show "p \<in> {p. tramp_of (objs p) \<noteq> None}"
    proof (cases "p \<in> set xs")
      case True
      with p old xs(1) show ?thesis by auto
    next
      case False
      with p sub have "p \<in> set ps" by auto
      with False w have "p \<in> set (filter (\<lambda>p. p \<notin> set xs) ps)" by simp
      then have "next_object st \<le> p" "p < next_object st1" unfolding wrap_result_new [OF w lt'] by auto
      with g newt new show ?thesis by (auto simp: grows_def)
    qed
  qed
  show "term_of (objs p) = term_of (?m p)"
  proof (cases "next_object st \<le> p")
    case True
    then have "?m p = None" using xs(2) by force
    moreover have "term_of (objects st1 p) = None" using newt True by (cases "objects st1 p" rule: term_of.cases) auto
    ultimately show ?thesis using new True by simp
  next
    case False
    then have "objects st1 p = ?m p" using g by (simp add: grows_def)
    moreover have "term_of (?m p) = None" if "p \<in> set xs" using tr [OF that] by (cases "?m p" rule: term_of.cases) simp_all
    ultimately show ?thesis by (auto simp: objs_def)
  qed
  have "distinct (map (dev_of objs) (ps @ rest))" unfolding devs by (rule di)
  then have dis: "distinct (ps @ rest)" by (simp only: distinct_map)
  have "set (filter (\<lambda>p. p \<notin> set xs) (ps @ rest)) = {next_object st..<next_object st1}"
    using arg_cong [OF wrap_result_new [OF w lt'], of set] sub by auto
  moreover have "set (filter (\<lambda>p. p \<in> set xs) (ps @ rest)) = set (filter (\<lambda>p. p \<in> set keep) xs)"
    using keep by auto
  moreover have "distinct xs" using dm by (simp only: distinct_map)
  ultimately have "length (filter (\<lambda>p. p \<notin> set xs) (ps @ rest)) = next_object st1 - next_object st"
    and "length (filter (\<lambda>p. p \<in> set xs) (ps @ rest)) = length (filter (\<lambda>p. p \<in> set keep) xs)"
    using distinct_card [OF distinct_filter [OF dis]] distinct_card [OF distinct_filter [of xs]]
    by (metis card_atLeastLessThan, metis)
  then show "length (ps @ rest) + length (filter (\<lambda>p. p \<notin> set keep) xs) = length xs + (next_object st1 - next_object st)"
    using sum_length_filter_compl [of "\<lambda>p. p \<in> set xs" "ps @ rest"] sum_length_filter_compl [of "\<lambda>p. p \<in> set keep" xs] by linarith
qed

lemma free_array_old:
  "b \<noteq> Freed \<Longrightarrow> \<exists>h. free_array a b st = Some (st\<lparr>pd_heap := h\<rparr>) \<and> live h = live (pd_heap st) - blocks b"
  by (cases b) (auto simp: free_array_def intro: exI [of _ "pd_heap st"])

text \<open>The outcome of a call for the devices \<open>devs\<close>.\<close>

definition tramp_outcome :: "nat list \<Rightarrow> pd_instance \<Rightarrow> nat list \<Rightarrow> VkResult \<Rightarrow> nat list \<Rightarrow> pd_instance \<Rightarrow> nat list \<Rightarrow> bool" where
  "tramp_outcome devs st xs r out st' ys \<longleftrightarrow> tramp_ok st' ys \<and> terms_kept st st' \<and>
     live (pd_heap st') - tramp_blocks st' ys = live (pd_heap st) - tramp_blocks st xs \<and>
     (if r = VK_SUCCESS
      then map (dev_of (objects st')) (take (length devs) out) = devs \<and> set (take (length devs) out) \<subseteq> set ys \<and>
        (\<forall>p\<in>set xs. dev_of (objects st) p \<in> set devs \<longrightarrow> p \<in> set ys) \<and>
        (\<forall>p\<in>set xs. p \<in> set ys \<longrightarrow> objects st' p = objects st p) \<and>
        (length devs + length (filter (\<lambda>p. dev_of (objects st) p \<notin> set devs) xs) \<le> total_gpu_count st \<longrightarrow> set xs \<subseteq> set ys)
      else r = VK_ERROR_OUT_OF_HOST_MEMORY \<and> ys = xs \<and> objects st' = objects st \<and> total_gpu_count st' = 0)"

lemma setup_tramp_quick:
  assumes inv: "tramp_ok st xs" and dd: "distinct devs"
    and all: "length (filter (\<lambda>i. i \<noteq> None) (map (\<lambda>p. first_index (dev_of (objects st) p) devs) xs)) = length devs"
  shows "\<exists>out. rewrap (phys_devs_tramp st) (map (\<lambda>p. first_index (dev_of (objects st) p) devs) xs) 0 devs = Some out \<and>
    length out = length devs \<and> tramp_outcome devs st xs VK_SUCCESS (out @ ds) st xs"
proof -
  let ?m = "objects st"
  have ar: "array_prefix (phys_devs_tramp st) (length xs) = Some xs" and dm: "distinct (map (dev_of ?m) xs)"
    using inv array_prefix_length by (auto simp: tramp_ok_def)
  let ?out = "map (\<lambda>d. case wrapper ?m xs d of Some p \<Rightarrow> p | None \<Rightarrow> d) devs"
  have "rewrap (phys_devs_tramp st) (map (\<lambda>p. first_index (dev_of ?m p) devs) xs) 0 devs = Some ?out"
    using rewrap_correct [OF ar dd, of 0 ?m] by simp
  moreover have known: "\<exists>p. wrapper ?m xs d = Some p \<and> p \<in> set xs \<and> dev_of ?m p = d" if "d \<in> set devs" for d
    using all_known [OF dd dm all] that wrapper_Some by (metis not_None_eq)
  have "map (dev_of ?m) ?out = devs" using known by (intro nth_equalityI) (auto, metis nth_mem option.simps(5))
  moreover have "set ?out \<subseteq> set xs" using known by force
  ultimately show ?thesis using inv by (auto simp: tramp_outcome_def terms_kept_def)
qed

lemma tramp_ok_facts:
  assumes "tramp_ok st xs"
  shows "array_prefix (phys_devs_tramp st) (length xs) = Some xs" and "length xs = phys_dev_count_tramp st"
    and "\<And>p. p \<in> set xs \<Longrightarrow> tramp_of (objects st p) \<noteq> None" and "\<And>p. p \<in> set xs \<Longrightarrow> objects st p \<noteq> None"
    and "\<And>p. p \<in> set xs \<Longrightarrow> 0 < p \<and> p < next_object st"
proof -
  have ar: "array_prefix (phys_devs_tramp st) (phys_dev_count_tramp st) = Some xs" using assms by (simp add: tramp_ok_def)
  show len: "length xs = phys_dev_count_tramp st" by (rule array_prefix_length [OF ar])
  show "array_prefix (phys_devs_tramp st) (length xs) = Some xs" using ar len by simp
  show tr: "tramp_of (objects st p) \<noteq> None" if "p \<in> set xs" for p using that assms unfolding tramp_ok_def by blast
  show alive: "objects st p \<noteq> None" if "p \<in> set xs" for p using tr [OF that] by (cases "objects st p") auto
  show "0 < p \<and> p < next_object st" if "p \<in> set xs" for p
    using alive [OF that] that assms unfolding tramp_ok_def by (metis gr0I)
qed

lemma replace_tramp_failure:
  assumes inv: "tramp_ok st xs" and w: "wrap_result (objects st) xs (next_object st) devs (st\<lparr>pd_heap := h\<rparr>) r ps st1" and r: "r \<noteq> VK_SUCCESS"
    and h: "live h = live (pd_heap st) + 1"
  shows "\<exists>st2 st3. free_absent xs ps st1 = Some st2 \<and> free_array a (Buf cs) st2 = Some st3 \<and>
     tramp_outcome devs st xs r out (st3\<lparr>total_gpu_count := 0\<rparr>) xs"
proof -
  let ?st = "st\<lparr>pd_heap := h\<rparr>"
  note facts = tramp_ok_facts [OF inv]
  have wf: "0 < next_object ?st" "\<forall>p. objects ?st p \<noteq> None \<longrightarrow> p < next_object ?st" using inv by (simp_all add: tramp_ok_def)
  have w': "wrap_result (objects st) xs (next_object ?st) devs ?st r ps st1" and lt: "\<forall>p\<in>set xs. p < next_object ?st"
    using w facts(5) by simp_all
  from undo_wrap [OF w' lt wf] obtain h2 where
    u: "free_absent xs ps st1 = Some (st1\<lparr>objects := objects st, pd_heap := h2\<rparr>)" "live h2 = live h" by auto
  from w have g: "st1 = st\<lparr>objects := objects st1, next_object := next_object st1, pd_heap := pd_heap st1\<rparr>"
    "next_object st \<le> next_object st1" by (auto simp: wrap_result_def grows_def)
  let ?st3 = "st\<lparr>next_object := next_object st1, pd_heap := add_live (- 1) h2\<rparr>"
  have "st1\<lparr>objects := objects st, pd_heap := h2\<rparr> = st\<lparr>next_object := next_object st1, pd_heap := h2\<rparr>"
    by (subst g(1)) simp
  then have "free_array a (Buf cs) (st1\<lparr>objects := objects st, pd_heap := h2\<rparr>) = Some ?st3" by (simp add: free_array_def)
  moreover have "tramp_outcome devs st xs r out (?st3\<lparr>total_gpu_count := 0\<rparr>) xs"
    using inv r w u(2) h g(2)
    by (auto simp: tramp_outcome_def tramp_ok_def terms_kept_def tramp_blocks_def wrap_result_def intro: less_le_trans)
  ultimately show ?thesis using u(1) by blast
qed

lemma replace_tramp_success:
  assumes inv: "tramp_ok st xs" and w: "wrap_result (objects st) xs (next_object st) devs (st\<lparr>pd_heap := h\<rparr>) VK_SUCCESS ps st1"
    and h: "live h = live (pd_heap st) + 1" and dd: "distinct devs" and nc: "new_count = max (total_gpu_count st) (length devs)"
    and rest: "rest = take (new_count - length devs) (filter (\<lambda>p. dev_of (objects st) p \<notin> set devs) xs)"
  defines "cells \<equiv> ps @ rest @ replicate (new_count - length ps - length rest) 0"
  shows "\<exists>st2. (if phys_devs_tramp st1 \<noteq> NULL then do {
             st \<leftarrow> free_absent cells xs (st1\<lparr>total_gpu_count := t\<rparr>);
             free_array a (phys_devs_tramp st) st
           } else Some (st1\<lparr>total_gpu_count := t\<rparr>)) = Some st2 \<and>
     tramp_outcome devs st xs VK_SUCCESS (ps @ out) (st2\<lparr>phys_devs_tramp := Buf cells, phys_dev_count_tramp := length ps + length rest\<rparr>) (ps @ rest)"
proof -
  let ?st = "st\<lparr>pd_heap := h\<rparr>" and ?m = "objects st"
  note facts = tramp_ok_facts [OF inv]
  have fr: "phys_devs_tramp st \<noteq> Freed" and tr: "{p. tramp_of (?m p) \<noteq> None} = set xs" and dm: "distinct (map (dev_of ?m) xs)"
    and N0: "0 < next_object st" and wf: "\<forall>p. ?m p \<noteq> None \<longrightarrow> p < next_object st" using inv by (simp_all add: tramp_ok_def)
  have w': "wrap_result (objects ?st) xs (next_object ?st) devs ?st VK_SUCCESS ps st1" using w by simp
  have g: "grows ?st st1" and lp: "length ps = length devs" and old_ps: "\<forall>p\<in>set ps. p < next_object st \<longrightarrow> p \<in> set xs"
    using w by (auto simp: wrap_result_def list_all2_lengthD)
  have g1: "st1 = st\<lparr>objects := objects st1, next_object := next_object st1, pd_heap := pd_heap st1\<rparr>" "next_object st \<le> next_object st1"
    "live (pd_heap st1) = live h + int (next_object st1 - next_object st)"
    "\<And>p. p < next_object st \<Longrightarrow> objects st1 p = ?m p" "\<And>p. objects st1 p \<noteq> None \<Longrightarrow> p < next_object st1"
    using g wf by (auto simp: grows_def) (metis le_less_linear less_le_trans option.discI)+
  have keep: "\<forall>p\<in>set xs. p \<in> set cells \<longleftrightarrow> p \<in> set ps \<or> p \<in> set rest" using facts(5) by (auto simp: cells_def)
  let ?objs = "\<lambda>p. if p \<in> set xs \<and> p \<notin> set cells then None else objects st1 p"
  have prem: "distinct (map (dev_of (objects ?st)) xs)" "{p. tramp_of (objects ?st p) \<noteq> None} = set xs"
    "\<forall>p. objects ?st p \<noteq> None \<longrightarrow> p < next_object ?st"
    "rest = take (new_count - length devs) (filter (\<lambda>p. dev_of (objects ?st) p \<notin> set devs) xs)" using dm tr wf rest by simp_all
  note c = commit_wrap [OF w' dd prem(1-3) keep prem(4)]
  let ?freed = "st1\<lparr>total_gpu_count := t, objects := ?objs,
      pd_heap := add_live (- int (length (filter (\<lambda>p. p \<notin> set cells) xs))) (pd_heap st1)\<rparr>"
  have "free_absent cells xs (st1\<lparr>total_gpu_count := t\<rparr>) = Some ((st1\<lparr>total_gpu_count := t\<rparr>)\<lparr>objects := \<lambda>p. if p \<in> set xs \<and> p \<notin> set cells then None else objects (st1\<lparr>total_gpu_count := t\<rparr>) p,
      pd_heap := add_live (- int (length (filter (\<lambda>p. p \<notin> set cells) xs))) (pd_heap (st1\<lparr>total_gpu_count := t\<rparr>))\<rparr>)"
    using facts(4,5) g1(4) dm by (intro free_absent_spec distinct_filter) (auto simp: distinct_map)
  then have fa: "free_absent cells xs (st1\<lparr>total_gpu_count := t\<rparr>) = Some ?freed" by (simp cong: if_cong)
  have arr: "phys_devs_tramp st1 = phys_devs_tramp st" "phys_devs_tramp ?freed = phys_devs_tramp st" by (subst g1(1), simp)+
  have "\<exists>h2. (if phys_devs_tramp st1 \<noteq> NULL then do {
             st \<leftarrow> free_absent cells xs (st1\<lparr>total_gpu_count := t\<rparr>);
             free_array a (phys_devs_tramp st) st
           } else Some (st1\<lparr>total_gpu_count := t\<rparr>)) = Some (?freed\<lparr>pd_heap := h2\<rparr>) \<and>
        live h2 = live (pd_heap ?freed) - blocks (phys_devs_tramp st)"
  proof (cases "phys_devs_tramp st = NULL")
    case True
    then have "xs = []" using facts(1) by (simp add: array_prefix_def split: if_splits)
    then have "?freed = st1\<lparr>total_gpu_count := t, pd_heap := add_live 0 (pd_heap st1)\<rparr>" by simp
    moreover have "add_live 0 (pd_heap st1) = pd_heap st1" by (simp add: add_live_def)
    ultimately have "?freed\<lparr>pd_heap := pd_heap st1\<rparr> = st1\<lparr>total_gpu_count := t\<rparr>" by simp
    with True arr \<open>xs = []\<close> show ?thesis by (intro exI [of _ "pd_heap st1"]) simp
  next
    case False
    with fa arr free_array_old [OF fr, of a ?freed] show ?thesis by auto
  qed
  then obtain h2 where step: "(if phys_devs_tramp st1 \<noteq> NULL then do {
             st \<leftarrow> free_absent cells xs (st1\<lparr>total_gpu_count := t\<rparr>);
             free_array a (phys_devs_tramp st) st
           } else Some (st1\<lparr>total_gpu_count := t\<rparr>)) = Some (?freed\<lparr>pd_heap := h2\<rparr>)"
    and h2: "live h2 = live (pd_heap ?freed) - blocks (phys_devs_tramp st)" by blast
  let ?st' = "(?freed\<lparr>pd_heap := h2\<rparr>)\<lparr>phys_devs_tramp := Buf cells, phys_dev_count_tramp := length ps + length rest\<rparr>"
  have objs: "objects ?st' = ?objs" by simp
  have lr: "length ps + length rest \<le> length cells" by (simp add: cells_def)
  have "set rest \<subseteq> set xs" unfolding rest by (meson set_take_subset filter_is_subset order_trans)
  then have new0: "0 \<notin> set (ps @ rest)" using facts(5) N0 old_ps by auto
  have "tramp_ok ?st' (ps @ rest)"
    unfolding tramp_ok_def
  proof (intro conjI)
    show "distinct (map (dev_of (objects ?st')) (ps @ rest))" unfolding objs c(1) by (rule c(2))
    show "{p. tramp_of (objects ?st' p) \<noteq> None} = set (ps @ rest)" unfolding objs by (rule c(3))
    show "\<forall>p. objects ?st' p \<noteq> None \<longrightarrow> p < next_object ?st'" using g1(5) by simp
    show "0 < next_object ?st'" using N0 g1(2) by simp
  qed (use new0 lr in \<open>simp_all add: array_prefix_def cells_def\<close>)
  moreover have "terms_kept st ?st'"
    using c(4) g1(2) unfolding terms_kept_def by (subst (2 3) g1(1)) simp
  moreover have "live (pd_heap ?st') - tramp_blocks ?st' (ps @ rest) = live (pd_heap st) - tramp_blocks st xs"
    using h2 h g1(3) c(5) by (simp add: tramp_blocks_def)
  moreover have "map (dev_of (objects ?st')) ps = devs" using c(1) lp by simp
  moreover have "p \<in> set (ps @ rest) \<Longrightarrow> objects ?st' p = objects st p" if "p \<in> set xs" for p
    using that keep facts(5) g1(4) by auto
  moreover have "p \<in> set (ps @ rest)" if p: "p \<in> set xs" and d: "dev_of ?m p \<in> set devs" for p
  proof -
    obtain i where i: "i < length devs" "devs ! i = dev_of ?m p" using d by (metis in_set_conv_nth)
    have "wrapper ?m xs (devs ! i) = Some p" unfolding i(2) by (rule wrapper_unique [OF dm p])
    with i w have "ps ! i = p" by (auto simp: wrap_result_def list_all2_conv_all_nth)
    with i lp show ?thesis by (metis in_set_conv_nth Un_iff set_append)
  qed
  moreover have "set xs \<subseteq> set (ps @ rest)" if "length devs + length (filter (\<lambda>p. dev_of ?m p \<notin> set devs) xs) \<le> total_gpu_count st"
    using that rest nc calculation(6) by auto
  ultimately have "tramp_outcome devs st xs VK_SUCCESS (ps @ out) ?st' (ps @ rest)" using lp by (auto simp: tramp_outcome_def)
  with step show ?thesis by blast
qed

lemma replace_tramp_spec:
  assumes inv: "tramp_ok st xs" and dd: "distinct (take n phys_devs)" and n: "n \<le> length phys_devs" and nc: "new_count = max (total_gpu_count st) n"
  shows "\<exists>r out st' ys. replace_tramp_phys_devs a disp new_count (map (\<lambda>p. first_index (dev_of (objects st) p) (take n phys_devs)) xs) xs n phys_devs st =
       Some (r, out, st') \<and> tramp_outcome (take n phys_devs) st xs r out st' ys"
proof (cases "succeeds (pd_heap st)")
  case False
  have "tramp_outcome (take n phys_devs) st xs VK_ERROR_OUT_OF_HOST_MEMORY phys_devs (st\<lparr>pd_heap := tick (pd_heap st), total_gpu_count := 0\<rparr>) xs"
    using inv by (simp add: tramp_outcome_def tramp_ok_def terms_kept_def tramp_blocks_def)
  with False show ?thesis by (auto simp: replace_tramp_phys_devs_def loader_calloc_def)
next
  case True
  let ?devs = "take n phys_devs" and ?h = "add_live 1 (tick (pd_heap st))" and ?m = "objects st"
  let ?o2n = "map (\<lambda>p. first_index (dev_of ?m p) ?devs) xs"
  note facts = tramp_ok_facts [OF inv]
  have h: "live ?h = live (pd_heap st) + 1" by simp
  have ld: "length ?devs = n" using n by simp
  have "\<forall>p\<in>set xs. 0 < p \<and> p < next_object st" and "0 < next_object st"
    and "\<forall>p. objects (st\<lparr>pd_heap := ?h\<rparr>) p \<noteq> None \<longrightarrow> p < next_object (st\<lparr>pd_heap := ?h\<rparr>)"
    using facts(5) inv by (auto simp: tramp_ok_def)
  from wrap_all_spec [OF facts(1) dd this(1,2) _ this(3), of 0 disp ?m] obtain r ps st1 where
    wa: "wrap_all disp (phys_devs_tramp st) ?o2n 0 ?devs (st\<lparr>pd_heap := ?h\<rparr>) = Some (r, ps, st1)"
    and w: "wrap_result ?m xs (next_object st) ?devs (st\<lparr>pd_heap := ?h\<rparr>) r ps st1" by auto
  let ?ca = "replicate new_count (0 :: nat)"
  show ?thesis
  proof (cases "r = VK_SUCCESS")
    case False
    from replace_tramp_failure [OF inv w False h, of a ?ca "ps @ drop (length ps) phys_devs"] obtain st2 st3 where
      "free_absent xs ps st1 = Some st2" "free_array a (Buf ?ca) st2 = Some st3"
      "tramp_outcome ?devs st xs r (ps @ drop (length ps) phys_devs) (st3\<lparr>total_gpu_count := 0\<rparr>) xs" by blast
    with False True wa show ?thesis by (auto simp: replace_tramp_phys_devs_def loader_calloc_def)
  next
    case ok: True
    let ?rest = "take (new_count - n) (filter (\<lambda>p. dev_of ?m p \<notin> set ?devs) xs)"
    let ?cells = "ps @ ?rest @ replicate (new_count - length ps - length ?rest) 0"
    let ?t = "max new_count (total_gpu_count st1)"
    have arr: "phys_devs_tramp st1 = phys_devs_tramp st" using w grows_arrays by (fastforce simp: wrap_result_def)
    have kr: "keep_rest (phys_devs_tramp st1) ?o2n n (new_count - n) = Some ?rest"
      unfolding arr using keep_rest_correct [OF facts(1), of ?o2n] by (simp add: unmatched_map)
    from replace_tramp_success [OF inv w [unfolded ok] h dd, of new_count ?rest ?t a "drop n phys_devs", unfolded ld, OF nc refl]
    obtain st2 where s2: "(if phys_devs_tramp st1 \<noteq> NULL then do {
             st \<leftarrow> free_absent ?cells xs (st1\<lparr>total_gpu_count := ?t\<rparr>);
             free_array a (phys_devs_tramp st) st
           } else Some (st1\<lparr>total_gpu_count := ?t\<rparr>)) = Some st2"
      and o2: "tramp_outcome ?devs st xs VK_SUCCESS (ps @ drop n phys_devs)
         (st2\<lparr>phys_devs_tramp := Buf ?cells, phys_dev_count_tramp := length ps + length ?rest\<rparr>) (ps @ ?rest)" by blast
    have eq: "replace_tramp_phys_devs a disp new_count ?o2n xs n phys_devs st = do {
         st \<leftarrow> (if phys_devs_tramp st1 \<noteq> NULL then do {
             st \<leftarrow> free_absent ?cells xs (st1\<lparr>total_gpu_count := ?t\<rparr>);
             free_array a (phys_devs_tramp st) st
           } else Some (st1\<lparr>total_gpu_count := ?t\<rparr>));
         Some (VK_SUCCESS, ps @ drop n phys_devs,
               st\<lparr>phys_devs_tramp := Buf ?cells, phys_dev_count_tramp := length ps + length ?rest\<rparr>)
      }"
      using True wa ok kr by (simp add: replace_tramp_phys_devs_def loader_calloc_def Let_def)
    show ?thesis unfolding eq s2 using o2 by auto
  qed
qed

lemma setup_tramp_spec:
  assumes inv: "tramp_ok st xs" and dd: "distinct (take n phys_devs)" and n: "n \<le> length phys_devs"
  shows "\<exists>r out st' ys. setup_loader_tramp_phys_devs a disp n phys_devs st = Some (r, out, st') \<and>
     tramp_outcome (take n phys_devs) st xs r out st' ys"
proof (cases "n = 0")
  case True
  then have "setup_loader_tramp_phys_devs a disp n phys_devs st = Some (VK_SUCCESS, phys_devs, st)"
    by (simp add: setup_loader_tramp_phys_devs_def)
  moreover have "tramp_outcome (take n phys_devs) st xs VK_SUCCESS phys_devs st xs"
    using inv True by (simp add: tramp_outcome_def terms_kept_def)
  ultimately show ?thesis by blast
next
  case n0: False
  let ?devs = "take n phys_devs" and ?new_count = "max (total_gpu_count st) n"
  let ?o2n = "map (\<lambda>p. first_index (dev_of (objects st) p) ?devs) xs"
  note facts = tramp_ok_facts [OF inv]
  have ar: "array_prefix (phys_devs_tramp st) (phys_dev_count_tramp st) = Some xs" using facts(1,2) by simp
  have mo: "match_old st ?devs 0 (phys_dev_count_tramp st) = Some ?o2n"
    using match_old_correct [OF facts(1), of 0 "phys_dev_count_tramp st" ?devs] facts(2,3) by auto
  have ld: "length ?devs = n" using n by simp
  show ?thesis
  proof (cases "length (filter (\<lambda>i. i \<noteq> None) ?o2n) = n \<and> phys_dev_count_tramp st \<noteq> 0 \<and> phys_dev_count_tramp st = ?new_count")
    case True
    then have all: "length (filter (\<lambda>i. i \<noteq> None) ?o2n) = length ?devs" using ld by simp
    from setup_tramp_quick [OF inv dd all, of "drop n phys_devs"] obtain out where
      o: "rewrap (phys_devs_tramp st) ?o2n 0 ?devs = Some out" "tramp_outcome ?devs st xs VK_SUCCESS (out @ drop n phys_devs) st xs" by blast
    have "setup_loader_tramp_phys_devs a disp n phys_devs st = Some (VK_SUCCESS, out @ drop n phys_devs, st)"
      using n0 n mo ar True o(1) by (simp add: setup_loader_tramp_phys_devs_def)
    with o show ?thesis by auto
  next
    case False
    then have "setup_loader_tramp_phys_devs a disp n phys_devs st = replace_tramp_phys_devs a disp ?new_count ?o2n xs n phys_devs st"
      using n0 n mo ar by (auto simp: setup_loader_tramp_phys_devs_def Let_def)
    with replace_tramp_spec [OF inv dd n refl, of a disp] show ?thesis by simp
  qed
qed

end
