(* ===== verification/TermDevices.thy ===== *)
theory TermDevices
  imports TrampDevices
begin

text \<open>
  What the terminator objects guarantee: after a successful enumeration there is exactly one object for every device a driver
  reports, in the reported or the sorted order; a device that had an object keeps it; the objects of
  vanished devices are freed; and a failure changes nothing but the count.
\<close>

abbreviation tdev :: "(nat \<rightharpoonup> pd_object) \<Rightarrow> nat \<Rightarrow> nat" where
  "tdev m p \<equiv> phys_dev (the (term_of (m p)))"

lemma old_terms_heap [simp]: "old_terms (st\<lparr>pd_heap := h\<rparr>) = old_terms st"
  by (simp add: old_terms_def)

section \<open>The invariant\<close>

text \<open>\<open>owner\<close> is the driver a device handle belongs to.\<close>

definition term_ok :: "(nat \<Rightarrow> nat) \<Rightarrow> pd_instance \<Rightarrow> nat list \<Rightarrow> bool" where
  "term_ok owner st xs \<longleftrightarrow> array_prefix (phys_devs_term st) (phys_dev_count_term st) = Some xs \<and> phys_devs_term st \<noteq> Freed \<and>
     0 \<notin> set xs \<and> {p. term_of (objects st p) \<noteq> None} = set xs \<and> distinct (map (tdev (objects st)) xs) \<and>
     (\<forall>p t. term_of (objects st p) = Some t \<longrightarrow> this_icd_term t = owner (phys_dev t)) \<and>
     0 < next_object st \<and> (\<forall>p. objects st p \<noteq> None \<longrightarrow> p < next_object st)"

lemma term_ok_facts:
  assumes "term_ok owner st xs"
  shows "array_prefix (phys_devs_term st) (length xs) = Some xs" and "length xs = phys_dev_count_term st"
    and "\<And>p. p \<in> set xs \<Longrightarrow> term_of (objects st p) \<noteq> None" and "\<And>p. p \<in> set xs \<Longrightarrow> objects st p \<noteq> None"
    and "\<And>p. p \<in> set xs \<Longrightarrow> 0 < p \<and> p < next_object st" and "old_terms st = Some xs"
proof -
  have ar: "array_prefix (phys_devs_term st) (phys_dev_count_term st) = Some xs" using assms by (simp add: term_ok_def)
  show len: "length xs = phys_dev_count_term st" by (rule array_prefix_length [OF ar])
  show "array_prefix (phys_devs_term st) (length xs) = Some xs" using ar len by simp
  show tr: "term_of (objects st p) \<noteq> None" if "p \<in> set xs" for p using that assms unfolding term_ok_def by blast
  show alive: "objects st p \<noteq> None" if "p \<in> set xs" for p using tr [OF that] by (cases "objects st p") auto
  show "0 < p \<and> p < next_object st" if "p \<in> set xs" for p
    using alive [OF that] that assms unfolding term_ok_def by (metis gr0I)
  show "old_terms st = Some xs" using ar by (auto simp: old_terms_def array_prefix_def split: if_splits)
qed

definition same_rest :: "pd_instance \<Rightarrow> pd_instance \<Rightarrow> bool" where
  "same_rest st st1 \<longleftrightarrow> phys_devs_term st1 = phys_devs_term st \<and> phys_dev_count_term st1 = phys_dev_count_term st \<and>
     phys_devs_tramp st1 = phys_devs_tramp st \<and> phys_dev_count_tramp st1 = phys_dev_count_tramp st \<and>
     total_gpu_count st1 = total_gpu_count st \<and> icd_terms st1 = icd_terms st"

text \<open>A list of cells under construction: old objects, and exactly the new ones.\<close>

definition building :: "(nat \<Rightarrow> nat) \<Rightarrow> pd_instance \<Rightarrow> nat list \<Rightarrow> nat list \<Rightarrow> pd_instance \<Rightarrow> bool" where
  "building owner st xs ps st1 \<longleftrightarrow> next_object st \<le> next_object st1 \<and> (\<forall>p<next_object st. objects st1 p = objects st p) \<and>
     (\<forall>p\<in>set ps. p < next_object st \<longrightarrow> p \<in> set xs) \<and>
     (\<forall>p\<ge>next_object st. (p \<in> set ps \<longleftrightarrow> objects st1 p \<noteq> None) \<and> (objects st1 p \<noteq> None \<longrightarrow> p < next_object st1 \<and> term_of (objects st1 p) \<noteq> None)) \<and>
     distinct (filter (\<lambda>p. next_object st \<le> p) ps) \<and>
     live (pd_heap st1) = live (pd_heap st) + int (length (filter (\<lambda>p. next_object st \<le> p) ps)) \<and>
     same_rest st st1"

lemma building_Nil: "term_ok owner st xs \<Longrightarrow> building owner st xs [] st"
  by (auto simp: building_def term_ok_def same_rest_def)

lemma building_arrays:
  assumes "building owner st xs ps st1"
  shows "phys_devs_term st1 = phys_devs_term st" and "phys_dev_count_term st1 = phys_dev_count_term st"
    and "phys_devs_tramp st1 = phys_devs_tramp st" and "phys_dev_count_tramp st1 = phys_dev_count_tramp st"
    and "old_terms st1 = old_terms st" and "icd_terms st1 = icd_terms st"
  using assms by (simp_all add: building_def same_rest_def old_terms_def)

lemma free_absent_nonzero: "free_absent keep ps st = free_absent keep (filter (\<lambda>p. p \<noteq> 0) ps) st"
  by (induction ps arbitrary: st) (auto simp: free_object_def)

section \<open>Abort and commit\<close>

lemma abort_spec:
  assumes ok: "term_ok owner st xs" and b: "building owner (st\<lparr>pd_heap := h\<rparr>) xs ps st1" and h: "live h = live (pd_heap st) + 1"
  shows "\<exists>st2. abort_term_phys_devs a (ps @ replicate k 0) st1 = Some st2 \<and> objects st2 = objects st \<and> term_ok owner st2 xs \<and>
     live (pd_heap st2) = live (pd_heap st) \<and> phys_devs_term st2 = phys_devs_term st \<and> phys_devs_tramp st2 = phys_devs_tramp st \<and>
     phys_dev_count_tramp st2 = phys_dev_count_tramp st \<and> next_object st \<le> next_object st2 \<and> total_gpu_count st2 = 0 \<and> icd_terms st2 = icd_terms st"
proof -
  let ?st = "st\<lparr>pd_heap := h\<rparr>" and ?N = "next_object st"
  note facts = term_ok_facts [OF ok]
  have ok': "term_ok owner ?st xs" using ok by (simp add: term_ok_def)
  have N0: "0 < ?N" and wf: "\<forall>p. objects st p \<noteq> None \<longrightarrow> p < ?N" using ok by (simp_all add: term_ok_def)
  have b1: "\<forall>p<?N. objects st1 p = objects st p" "\<forall>p\<in>set ps. p < ?N \<longrightarrow> p \<in> set xs"
    "\<forall>p\<ge>?N. (p \<in> set ps \<longleftrightarrow> objects st1 p \<noteq> None)" "distinct (filter (\<lambda>p. ?N \<le> p) ps)"
    "live (pd_heap st1) = live h + int (length (filter (\<lambda>p. ?N \<le> p) ps))" "?N \<le> next_object st1" using b by (auto simp: building_def)
  note arr = building_arrays [OF b]
  have new: "filter (\<lambda>p. p \<notin> set xs) (filter (\<lambda>p. p \<noteq> 0) (ps @ replicate k 0)) = filter (\<lambda>p. ?N \<le> p) ps"
    using b1(2) N0 by (auto simp: filter_filter intro!: filter_cong dest: facts(5))
  let ?objs = "\<lambda>p. if p \<in> set (filter (\<lambda>p. p \<noteq> 0) (ps @ replicate k 0)) \<and> p \<notin> set xs then None else objects st1 p"
  have fresh: "p \<in> set (filter (\<lambda>p. p \<noteq> 0) (ps @ replicate k 0)) \<and> p \<notin> set xs \<longleftrightarrow> ?N \<le> p \<and> p \<in> set ps" for p
    using arg_cong [OF new, of "\<lambda>zs. p \<in> set zs"] by (simp only: set_filter mem_Collect_eq) blast
  have "free_absent xs (filter (\<lambda>p. p \<noteq> 0) (ps @ replicate k 0)) st1 = Some (st1\<lparr>objects := ?objs,
     pd_heap := add_live (- int (length (filter (\<lambda>p. p \<notin> set xs) (filter (\<lambda>p. p \<noteq> 0) (ps @ replicate k 0))))) (pd_heap st1)\<rparr>)"
  proof (rule free_absent_spec)
    show "distinct (filter (\<lambda>p. p \<notin> set xs) (filter (\<lambda>p. p \<noteq> 0) (ps @ replicate k 0)))" unfolding new by (rule b1(4))
    show "\<forall>p\<in>set (filter (\<lambda>p. p \<noteq> 0) (ps @ replicate k 0)). p \<notin> set xs \<longrightarrow> p \<noteq> 0 \<and> objects st1 p \<noteq> None"
      using fresh b1(3) N0 by (metis leD)
  qed
  moreover have "?objs = objects st"
  proof
    fix p
    have "objects st p = None" if "?N \<le> p" using wf that by (meson leD)
    then show "?objs p = objects st p" unfolding fresh using b1(1,3) by (cases "?N \<le> p") auto
  qed
  ultimately have fa: "free_absent xs (ps @ replicate k 0) st1 = Some (st1\<lparr>objects := objects st,
     pd_heap := add_live (- int (length (filter (\<lambda>p. ?N \<le> p) ps))) (pd_heap st1)\<rparr>)" (is "_ = Some ?st2")
    unfolding new by (simp add: free_absent_nonzero [of xs "ps @ _"])
  have "abort_term_phys_devs a (ps @ replicate k 0) st1 = Some (?st2\<lparr>pd_heap := add_live (- 1) (pd_heap ?st2), total_gpu_count := 0\<rparr>)" (is "_ = Some ?st3")
    using fa arr(5) facts(6) by (simp add: abort_term_phys_devs_def free_array_def)
  moreover have "term_ok owner ?st3 xs"
    using ok arr b1(6) by (auto simp: term_ok_def intro: less_le_trans)
  ultimately show ?thesis using arr b1(5,6) h by auto
qed

lemma commit_spec:
  assumes ok: "term_ok owner st xs" and b: "building owner (st\<lparr>pd_heap := h\<rparr>) xs ps st1" and h: "live h = live (pd_heap st) + 1"
    and devs: "map (tdev (objects st1)) ps = devs" "distinct devs"
    and own: "\<forall>p\<ge>next_object st. \<forall>t. term_of (objects st1 p) = Some t \<longrightarrow> this_icd_term t = owner (phys_dev t)"
    and reuse: "\<forall>p\<in>set xs. tdev (objects st) p \<in> set devs \<longrightarrow> p \<in> set ps"
  shows "\<exists>st2. commit_term_phys_devs a (ps @ replicate k 0) (length ps) st1 = Some st2 \<and> term_ok owner st2 ps \<and>
     map (tdev (objects st2)) ps = devs \<and> (\<forall>p\<in>set xs. p \<in> set ps \<longrightarrow> objects st2 p = objects st p) \<and>
     (\<forall>p. tramp_of (objects st2 p) = tramp_of (objects st p)) \<and>
     live (pd_heap st2) - int (length ps) - 1 = live (pd_heap st) - int (length xs) - blocks (phys_devs_term st) \<and>
     phys_devs_tramp st2 = phys_devs_tramp st \<and> phys_dev_count_tramp st2 = phys_dev_count_tramp st \<and> next_object st \<le> next_object st2 \<and>
     total_gpu_count st2 = length ps \<and> icd_terms st2 = icd_terms st \<and> phys_devs_term st2 = Buf (ps @ replicate k 0)"
proof -
  let ?N = "next_object st"
  note facts = term_ok_facts [OF ok]
  have N0: "0 < ?N" and wf: "\<forall>p. objects st p \<noteq> None \<longrightarrow> p < ?N" and fr: "phys_devs_term st \<noteq> Freed"
    and tm: "{p. term_of (objects st p) \<noteq> None} = set xs" and dx: "distinct (map (tdev (objects st)) xs)"
    and ow: "\<forall>p t. term_of (objects st p) = Some t \<longrightarrow> this_icd_term t = owner (phys_dev t)" using ok by (simp_all add: term_ok_def)
  have b1: "\<And>p. p < ?N \<Longrightarrow> objects st1 p = objects st p" "\<And>p. p \<in> set ps \<Longrightarrow> p < ?N \<Longrightarrow> p \<in> set xs"
    "\<And>p. ?N \<le> p \<Longrightarrow> p \<in> set ps \<longleftrightarrow> objects st1 p \<noteq> None" "\<And>p. ?N \<le> p \<Longrightarrow> objects st1 p \<noteq> None \<Longrightarrow> p < next_object st1 \<and> term_of (objects st1 p) \<noteq> None"
    "distinct (filter (\<lambda>p. ?N \<le> p) ps)"
    "live (pd_heap st1) = live h + int (length (filter (\<lambda>p. ?N \<le> p) ps))" "?N \<le> next_object st1" using b by (auto simp: building_def)
  note arr = building_arrays [OF b, simplified]
  have dp: "distinct ps" using devs by (metis distinct_map)
  let ?freed = "filter (\<lambda>p. p \<notin> set ps) xs"
  let ?objs = "\<lambda>p. if p \<in> set xs \<and> p \<notin> set ps then None else objects st1 p"
  have dxs: "distinct xs" using dx by (metis distinct_map)
  have tk: "take (length ps) (ps @ replicate k 0) = ps" by simp
  have "\<exists>h2. (if phys_devs_term st1 \<noteq> NULL then do {
              old \<leftarrow> old_terms st1;
              st \<leftarrow> free_absent (take (length ps) (ps @ replicate k 0)) old st1;
              free_array a (phys_devs_term st) st
            } else Some st1) = Some (st1\<lparr>objects := ?objs, pd_heap := h2\<rparr>) \<and>
         live h2 = live (pd_heap st1) - int (length ?freed) - blocks (phys_devs_term st)"
  proof (cases "phys_devs_term st = NULL")
    case True
    then have "xs = []" using facts(1) by (simp add: array_prefix_def split: if_splits)
    with True arr show ?thesis by (intro exI [of _ "pd_heap st1"]) simp
  next
    case False
    have "free_absent ps xs st1 = Some (st1\<lparr>objects := ?objs, pd_heap := add_live (- int (length ?freed)) (pd_heap st1)\<rparr>)" (is "_ = Some ?st")
      using facts(4,5) b1(1) dxs by (intro free_absent_spec distinct_filter) auto
    moreover have "phys_devs_term ?st = phys_devs_term st" using arr by simp
    ultimately show ?thesis
      using False arr facts(6) free_array_old [OF fr, of a ?st] unfolding tk by auto
  qed
  then obtain h2 where step: "(if phys_devs_term st1 \<noteq> NULL then do {
              old \<leftarrow> old_terms st1;
              st \<leftarrow> free_absent (take (length ps) (ps @ replicate k 0)) old st1;
              free_array a (phys_devs_term st) st
            } else Some st1) = Some (st1\<lparr>objects := ?objs, pd_heap := h2\<rparr>)"
    and h2: "live h2 = live (pd_heap st1) - int (length ?freed) - blocks (phys_devs_term st)" by blast
  let ?st2 = "st1\<lparr>objects := ?objs, pd_heap := h2, phys_dev_count_term := length ps, phys_devs_term := Buf (ps @ replicate k 0), total_gpu_count := length ps\<rparr>"
  have run: "commit_term_phys_devs a (ps @ replicate k 0) (length ps) st1 = Some ?st2"
    unfolding commit_term_phys_devs_def step by simp
  have objs: "objects ?st2 = ?objs" by simp
  have md: "map (tdev ?objs) ps = devs" using devs(1) by auto
  have old_or_new: "p < ?N \<and> p \<in> set xs \<or> ?N \<le> p" if "p \<in> set ps" for p using b1(2) that by (meson leI)
  have terms: "{p. term_of (?objs p) \<noteq> None} = set ps"
  proof (intro set_eqI iffI)
    fix p assume "p \<in> {p. term_of (?objs p) \<noteq> None}"
    then have t: "term_of (?objs p) \<noteq> None" by simp
    then have "?objs p \<noteq> None" by (cases "?objs p") (simp_all del: if_split_asm)
    show "p \<in> set ps"
    proof (cases "?N \<le> p")
      case True
      with b1(3) \<open>?objs p \<noteq> None\<close> show ?thesis by (auto split: if_splits)
    next
      case False
      with t b1(1) tm show ?thesis by (auto split: if_splits)
    qed
  next
    fix p assume "p \<in> set ps"
    then show "p \<in> {p. term_of (?objs p) \<noteq> None}"
      using old_or_new [of p] b1(1,3,4) facts(3) by auto
  qed
  have "term_ok owner ?st2 ps"
    unfolding term_ok_def
  proof (intro conjI)
    show "{p. term_of (objects ?st2 p) \<noteq> None} = set ps" unfolding objs by (rule terms)
    show "distinct (map (tdev (objects ?st2)) ps)" unfolding objs md by (rule devs(2))
    show "\<forall>p t. term_of (objects ?st2 p) = Some t \<longrightarrow> this_icd_term t = owner (phys_dev t)"
    proof (intro allI impI)
      fix p t assume "term_of (objects ?st2 p) = Some t"
      then have "term_of (objects st1 p) = Some t" by (simp split: if_splits)
      then show "this_icd_term t = owner (phys_dev t)" using own ow b1(1) by (cases "?N \<le> p") auto
    qed
    show "0 \<notin> set ps" using old_or_new [of 0] facts(5) N0 by auto
    show "0 < next_object ?st2" using N0 b1(7) by simp
    show "\<forall>p. objects ?st2 p \<noteq> None \<longrightarrow> p < next_object ?st2"
    proof (intro allI impI)
      fix p assume "objects ?st2 p \<noteq> None"
      then have p: "objects st1 p \<noteq> None" by (simp split: if_splits)
      show "p < next_object ?st2"
      proof (cases "?N \<le> p")
        case True
        with p b1(4) show ?thesis by simp
      next
        case False
        with b1(7) show ?thesis by simp
      qed
    qed
  qed (simp_all add: array_prefix_def)
  moreover have "tramp_of (?objs p) = tramp_of (objects st p)" for p
  proof (cases "?N \<le> p")
    case True
    then have "objects st p = None" using wf by (meson leD)
    moreover have "tramp_of (objects st1 p) = None" using b1(4) [OF True] by (cases "objects st1 p" rule: tramp_of.cases) auto
    ultimately show ?thesis by simp
  next
    case False
    moreover have "tramp_of (objects st p) = None" if "p \<in> set xs" using facts(3) [OF that] by (cases "objects st p" rule: tramp_of.cases) auto
    ultimately show ?thesis using b1(1) by simp
  qed
  moreover have len: "length ps + length ?freed = length (filter (\<lambda>p. ?N \<le> p) ps) + length xs"
  proof -
    have "set (filter (\<lambda>p. \<not> ?N \<le> p) ps) = set (filter (\<lambda>p. p \<in> set ps) xs)" using b1(2) facts(5) by (auto simp: not_le)
    then have "length (filter (\<lambda>p. \<not> ?N \<le> p) ps) = length (filter (\<lambda>p. p \<in> set ps) xs)"
      using distinct_card distinct_filter [OF dp] distinct_filter [OF dxs] by metis
    then show ?thesis using sum_length_filter_compl [of "\<lambda>p. ?N \<le> p" ps] sum_length_filter_compl [of "\<lambda>p. p \<in> set ps" xs] by linarith
  qed
  moreover have "live (pd_heap ?st2) - int (length ps) - 1 = live (pd_heap st) - int (length xs) - blocks (phys_devs_term st)"
    using len h2 h b1(6) by simp
  moreover have "objects ?st2 p = objects st p" if "p \<in> set xs" "p \<in> set ps" for p using that facts(5) b1(1) by simp
  ultimately show ?thesis using run md arr b1(7) by (intro exI [of _ ?st2]) simp
qed

section \<open>Devices in the order of the drivers\<close>

lemma find_from_correct:
  assumes "array_prefix b (length ps) = Some ps" and "0 \<notin> set ps" and "\<forall>p\<in>set ps. term_of (m p) \<noteq> None"
  shows "i + n = length ps \<Longrightarrow> find_from m d b i n = Some (map_option ((+) i) (first_index d (map (tdev m) (drop i ps))))"
proof (induction n arbitrary: i)
  case (Suc n)
  then have i: "i < length ps" by simp
  then have "ps ! i \<noteq> 0" and rd: "buf_read b i = Some (ps ! i)" using assms(2) array_prefix_read [OF assms(1)] nth_mem by (metis, blast)
  moreover obtain t where "term_of (m (ps ! i)) = Some t" using assms(3) i nth_mem by blast
  moreover have "drop i ps = ps ! i # drop (Suc i) ps" using i by (simp add: Cons_nth_drop_Suc)
  moreover have "(\<lambda>x. Suc (i + x)) = (+) i \<circ> Suc" by auto
  ultimately show ?case using Suc.IH [of "Suc i"] Suc.prems by (auto simp: option.map_comp comp_def simp del: buf_read_Some)
qed simp

lemma find_phys_dev_correct:
  assumes "array_prefix b (length ps) = Some ps" and "0 \<notin> set ps" and "\<forall>p\<in>set ps. term_of (m p) \<noteq> None"
  shows "find_phys_dev m d (length ps) b = Some (first_index d (map (tdev m) ps))"
proof (cases "b = NULL")
  case True
  then have "ps = []" using assms(1) by (simp add: array_prefix_def split: if_splits)
  with True show ?thesis by (simp add: find_phys_dev_def)
next
  case False
  have "(+) (0::nat) = id" by auto
  with False find_from_correct [OF assms, of 0 "length ps" d] show ?thesis by (simp add: find_phys_dev_def option.map_id)
qed

text \<open>New objects belong to their driver and are made only for devices without an old one.\<close>

definition fresh_ok :: "(nat \<Rightarrow> nat) \<Rightarrow> pd_instance \<Rightarrow> nat list \<Rightarrow> pd_instance \<Rightarrow> bool" where
  "fresh_ok owner st xs st1 \<longleftrightarrow> (\<forall>p\<ge>next_object st. \<forall>t. term_of (objects st1 p) = Some t \<longrightarrow>
     this_icd_term t = owner (phys_dev t) \<and> phys_dev t \<notin> tdev (objects st) ` set xs)"

lemma building_cells:
  assumes "term_ok owner st xs" and "building owner st xs ps st1"
  shows "0 \<notin> set ps" and "\<forall>p\<in>set ps. term_of (objects st1 p) \<noteq> None" and "\<And>p. p \<in> set xs \<Longrightarrow> objects st1 p = objects st p"
    and "\<forall>p. objects st1 p \<noteq> None \<longrightarrow> p < next_object st1"
proof -
  note facts = term_ok_facts [OF assms(1)]
  show old: "objects st1 p = objects st p" if "p \<in> set xs" for p using assms(2) facts(5) [OF that] by (simp add: building_def)
  have N0: "0 < next_object st" using assms(1) by (simp add: term_ok_def)
  show "0 \<notin> set ps"
  proof
    assume "0 \<in> set ps"
    with N0 assms(2) have "0 \<in> set xs" by (auto simp: building_def)
    with facts(5) show False by blast
  qed
  show "\<forall>p\<in>set ps. term_of (objects st1 p) \<noteq> None"
  proof
    fix p assume p: "p \<in> set ps"
    show "term_of (objects st1 p) \<noteq> None"
    proof (cases "p < next_object st")
      case True
      with p assms(2) have "p \<in> set xs" by (simp add: building_def)
      with old facts(3) show ?thesis by simp
    next
      case False
      with p assms(2) show ?thesis by (simp add: building_def)
    qed
  qed
  show "\<forall>p. objects st1 p \<noteq> None \<longrightarrow> p < next_object st1"
  proof (intro allI impI)
    fix p assume "objects st1 p \<noteq> None"
    then show "p < next_object st1" using assms(2) by (cases "p < next_object st") (auto simp: building_def)
  qed
qed

lemma reused:
  assumes ok: "term_ok owner st xs" and b: "building owner st xs ps st1" and f: "fresh_ok owner st xs st1"
    and p: "p \<in> set xs" "tdev (objects st) p \<in> set (map (tdev (objects st1)) ps)"
  shows "p \<in> set ps"
proof -
  from p(2) obtain q where q: "q \<in> set ps" "tdev (objects st1) q = tdev (objects st) p" by auto
  show ?thesis
  proof (cases "q < next_object st")
    case True
    with q b have "q \<in> set xs" by (simp add: building_def)
    moreover from this have "tdev (objects st) q = tdev (objects st) p" using q building_cells(3) [OF ok b] by simp
    ultimately have "q = p" using ok p(1) by (auto simp: term_ok_def distinct_map inj_on_def)
    with q show ?thesis by simp
  next
    case False
    obtain t where t: "term_of (objects st1 q) = Some t" using building_cells(2) [OF ok b] q(1) by auto
    with False f have "phys_dev t \<notin> tdev (objects st) ` set xs" unfolding fresh_ok_def by (meson not_le)
    with t q(2) p(1) show ?thesis by auto
  qed
qed

lemma building_old:
  assumes "building owner st xs ps st1" and "p \<in> set xs" and "p < next_object st"
  shows "building owner st xs (ps @ [p]) st1"
  using assms by (auto simp: building_def)

lemma building_new:
  assumes ok: "term_ok owner st xs" and b: "building owner st xs ps st1" and al: "alloc_object (Term t) st1 = (q, st2)" and q: "q \<noteq> 0"
  shows "building owner st xs (ps @ [q]) st2" and "objects st2 q = Some (Term t)" and "next_object st \<le> q"
    and "\<And>p. p \<noteq> q \<Longrightarrow> objects st2 p = objects st1 p"
proof -
  note wf = building_cells(4) [OF ok b]
  from al q have st2: "q = next_object st1" "st2 = st1\<lparr>objects := (objects st1)(q \<mapsto> Term t), next_object := q + 1, pd_heap := add_live 1 (tick (pd_heap st1))\<rparr>"
    by (auto simp: alloc_object_def split: if_splits)
  have "q \<notin> set ps" using b st2(1) wf by (auto simp: building_def)
  have "next_object st \<le> next_object st1" using b by (simp add: building_def)
  with b st2 \<open>q \<notin> set ps\<close> show "building owner st xs (ps @ [q]) st2" by (auto simp: building_def same_rest_def less_Suc_eq)
qed (use al q b in \<open>auto simp: alloc_object_def building_def split: if_splits\<close>)

lemma building_tick: "building owner st xs ps st1 \<Longrightarrow> building owner st xs ps (st1\<lparr>pd_heap := tick (pd_heap st1)\<rparr>)"
  by (auto simp: building_def same_rest_def)

lemma check_and_add_spec:
  assumes ok: "term_ok owner st xs" and b: "building owner st xs ps st1" and f: "fresh_ok owner st xs st1"
    and d: "d \<notin> set (map (tdev (objects st1)) ps)" and icd: "icd = owner d"
  shows "\<exists>r ps' st2. check_and_add_to_new_phys_devs disp d icd (length ps) (Buf (ps @ replicate (Suc k) 0)) st1 =
       Some (r, length ps', Buf (ps' @ replicate (length ps + Suc k - length ps') 0), st2) \<and>
     building owner st xs ps' st2 \<and> fresh_ok owner st xs st2 \<and>
     (if r = VK_SUCCESS then map (tdev (objects st2)) ps' = map (tdev (objects st1)) ps @ [d] else r = VK_ERROR_OUT_OF_HOST_MEMORY \<and> ps' = ps)"
proof -
  note facts = term_ok_facts [OF ok] and cells = building_cells [OF ok b] and arr = building_arrays [OF b]
  have "array_prefix (Buf (ps @ replicate (Suc k) 0)) (length ps) = Some ps" by (simp add: array_prefix_def)
  from find_phys_dev_correct [OF this cells(1,2), of d] first_index_None [THEN iffD2, OF d]
  have dup: "find_phys_dev (objects st1) d (length ps) (Buf (ps @ replicate (Suc k) 0)) = Some None" by (rule trans [OF _ arg_cong])
  have ar: "array_prefix (phys_devs_term st1) (length xs) = Some xs" using facts(1) arr(1) by simp
  have "0 \<notin> set xs" "\<forall>p\<in>set xs. term_of (objects st1 p) \<noteq> None" using facts(3,5) cells(3) by (blast, simp)
  note old = find_phys_dev_correct [OF ar this, of d]
  have cnt: "phys_dev_count_term st1 = length xs" using facts(2) arr(2) by simp
  show ?thesis
  proof (cases "first_index d (map (tdev (objects st1)) xs)")
    case (Some i)
    then have i: "i < length xs" "tdev (objects st1) (xs ! i) = d" using first_index_Some by fastforce+
    then have rd: "buf_read (phys_devs_term st1) i = Some (xs ! i)" using array_prefix_read [OF ar] by blast
    have p: "xs ! i \<in> set xs" "xs ! i < next_object st" using i(1) facts(5) by auto
    have "check_and_add_to_new_phys_devs disp d icd (length ps) (Buf (ps @ replicate (Suc k) 0)) st1 =
        Some (VK_SUCCESS, length ps + 1, Buf ((ps @ replicate (Suc k) 0)[length ps := xs ! i]), st1)"
      using dup old Some rd cnt by (simp add: check_and_add_to_new_phys_devs_def del: buf_read_Some)
    moreover have "building owner st xs (ps @ [xs ! i]) st1" by (rule building_old [OF b p])
    ultimately show ?thesis using f i(2) by (intro exI [of _ VK_SUCCESS] exI [of _ "ps @ [xs ! i]"] exI [of _ st1]) simp
  next
    case None
    obtain q st2 where al: "alloc_object (Term \<lparr>pdt_disp = disp, this_icd_term = icd, phys_dev = d\<rparr>) st1 = (q, st2)" by force
    have step: "check_and_add_to_new_phys_devs disp d icd (length ps) (Buf (ps @ replicate (Suc k) 0)) st1 =
        Some (if q = 0 then (VK_ERROR_OUT_OF_HOST_MEMORY, length ps, Buf (ps @ q # replicate k 0), st2)
              else (VK_SUCCESS, length ps + 1, Buf (ps @ q # replicate k 0), st2))"
      using dup old None al cnt by (simp add: check_and_add_to_new_phys_devs_def)
    show ?thesis
    proof (cases "q = 0")
      case True
      have "0 < next_object st1" using ok b by (auto simp: term_ok_def building_def)
      with al True have "st2 = st1\<lparr>pd_heap := tick (pd_heap st1)\<rparr>" by (auto simp: alloc_object_def split: if_splits)
      then show ?thesis
        using step True building_tick [OF b] f by (intro exI [of _ VK_ERROR_OUT_OF_HOST_MEMORY] exI [of _ ps] exI [of _ st2]) (simp add: fresh_ok_def)
    next
      case False
      note new = building_new [OF ok b al False]
      have "q \<notin> set ps" using new(3) b al False cells(4) by (auto simp: building_def alloc_object_def split: if_splits)
      then have "map (tdev (objects st2)) ps = map (tdev (objects st1)) ps" by (intro map_cong refl) (metis new(4))
      moreover have "fresh_ok owner st xs st2"
        unfolding fresh_ok_def
      proof (intro allI impI)
        fix p t assume p: "next_object st \<le> p" "term_of (objects st2 p) = Some t"
        show "this_icd_term t = owner (phys_dev t) \<and> phys_dev t \<notin> tdev (objects st) ` set xs"
        proof (cases "p = q")
          case True
          with new(2) p have "t = \<lparr>pdt_disp = disp, this_icd_term = icd, phys_dev = d\<rparr>" by simp
          moreover have "d \<notin> tdev (objects st) ` set xs" using None cells(3) by (auto simp: first_index_None)
          ultimately show ?thesis using icd by simp
        next
          case False
          with f p new(4) show ?thesis unfolding fresh_ok_def by metis
        qed
      qed
      ultimately show ?thesis
        using step False new(1,2) by (intro exI [of _ VK_SUCCESS] exI [of _ "ps @ [q]"] exI [of _ st2]) simp
    qed
  qed
qed

text \<open>The nested loops as one pass over all devices.\<close>

fun add_list :: "nat \<Rightarrow> (nat \<times> nat) list \<Rightarrow> VkResult \<times> nat \<times> nat buf \<times> pd_instance \<Rightarrow> (VkResult \<times> nat \<times> nat buf \<times> pd_instance) option" where
  "add_list disp [] s = Some s"
| "add_list disp ((i, d) # ds) (res, cnt, cells, st) = do {
     (res, cnt, cells, st) \<leftarrow> check_and_add_to_new_phys_devs disp d i cnt cells st;
     (if res = VK_ERROR_OUT_OF_HOST_MEMORY then Some (res, cnt, cells, st) else add_list disp ds (res, cnt, cells, st))
   }"

lemma add_list_append:
  "fst s \<noteq> VK_ERROR_OUT_OF_HOST_MEMORY \<Longrightarrow> add_list disp (ds @ es) s = do {
     s \<leftarrow> add_list disp ds s;
     (if fst s = VK_ERROR_OUT_OF_HOST_MEMORY then Some s else add_list disp es s)
   }"
proof (induction disp ds s rule: add_list.induct)
  case (2 disp i d ds res cnt cells st)
  show ?case
  proof (cases "check_and_add_to_new_phys_devs disp d i cnt cells st")
    case (Some s)
    obtain r c b t where s: "s = (r, c, b, t)" by (cases s) auto
    with 2 Some show ?thesis by (cases "r = VK_ERROR_OUT_OF_HOST_MEMORY") auto
  qed simp
qed simp

lemma add_icd_devices_list:
  assumes "icd_physical_devices icd = Buf ds"
  shows "j + n \<le> length ds \<Longrightarrow> add_icd_devices disp icd j n s = add_list disp (map (Pair (icd_of_devices icd)) (take n (drop j ds))) s"
proof (induction n arbitrary: j s)
  case (Suc n)
  obtain r c b t where s: "s = (r, c, b, t)" by (cases s) auto
  have "take (Suc n) (drop j ds) = ds ! j # take n (drop (Suc j) ds)" using Suc.prems by (simp add: Cons_nth_drop_Suc [symmetric])
  with Suc s assms show ?case by (simp add: case_prod_beta cong: if_cong)
qed simp

lemma add_all_devices_list:
  assumes "\<forall>icd\<in>set icds. wf_icd_devices icd"
  shows "fst s \<noteq> VK_ERROR_OUT_OF_HOST_MEMORY \<Longrightarrow> add_all_devices disp icds s = add_list disp (all_devices icds) s"
  using assms
proof (induction icds arbitrary: s)
  case (Cons icd icds)
  have "add_icd_devices disp icd 0 (icd_device_count icd) s = add_list disp (map (Pair (icd_of_devices icd)) (icd_handles icd)) s"
  proof (cases "icd_physical_devices icd")
    case (Buf ds)
    then have "icd_device_count icd \<le> length ds" using Cons.prems by (auto simp: wf_icd_devices_def icd_handles_def)
    with Buf add_icd_devices_list [OF Buf, of 0 "icd_device_count icd" disp s] show ?thesis by (simp add: icd_handles_def)
  qed (use Cons.prems in \<open>auto simp: wf_icd_devices_def icd_handles_def\<close>)
  with Cons show ?case
    by (cases "add_list disp (map (Pair (icd_of_devices icd)) (icd_handles icd)) s") (auto simp: all_devices_def add_list_append)
qed (simp add: all_devices_def)

lemma add_list_spec:
  assumes ok: "term_ok owner st xs"
  shows "building owner st xs ps st1 \<Longrightarrow> fresh_ok owner st xs st1 \<Longrightarrow> distinct (map (tdev (objects st1)) ps @ map snd ds) \<Longrightarrow>
     \<forall>(i, d)\<in>set ds. i = owner d \<Longrightarrow> length ds \<le> k \<Longrightarrow>
     \<exists>r' ps' st2. add_list disp ds (r, length ps, Buf (ps @ replicate k 0), st1) =
         Some (r', length ps', Buf (ps' @ replicate (length ps + k - length ps') 0), st2) \<and>
       building owner st xs ps' st2 \<and> fresh_ok owner st xs st2 \<and> length ps' \<le> length ps + k \<and>
       (if ds = [] then r' = r else r' = VK_SUCCESS \<or> r' = VK_ERROR_OUT_OF_HOST_MEMORY) \<and>
       (r' \<noteq> VK_ERROR_OUT_OF_HOST_MEMORY \<longrightarrow> map (tdev (objects st2)) ps' = map (tdev (objects st1)) ps @ map snd ds)"
proof (induction ds arbitrary: r ps st1 k)
  case Nil
  then show ?case by (intro exI [of _ r] exI [of _ ps] exI [of _ st1]) simp
next
  case (Cons x ds)
  obtain i d where x: "x = (i, d)" by force
  obtain k' where k: "k = Suc k'" using Cons.prems(5) by (cases k) auto
  have "d \<notin> set (map (tdev (objects st1)) ps)" "i = owner d" using Cons.prems(3,4) x by auto
  from check_and_add_spec [OF ok Cons.prems(1,2) this, of disp k'] obtain r1 ps1 st2 where
    one: "check_and_add_to_new_phys_devs disp d i (length ps) (Buf (ps @ replicate k 0)) st1 =
       Some (r1, length ps1, Buf (ps1 @ replicate (length ps + k - length ps1) 0), st2)"
    "building owner st xs ps1 st2" "fresh_ok owner st xs st2"
    "if r1 = VK_SUCCESS then map (tdev (objects st2)) ps1 = map (tdev (objects st1)) ps @ [d] else r1 = VK_ERROR_OUT_OF_HOST_MEMORY \<and> ps1 = ps"
    unfolding k by blast
  show ?case
  proof (cases "r1 = VK_SUCCESS")
    case False
    with one x k show ?thesis by (intro exI [of _ r1] exI [of _ ps1] exI [of _ st2]) simp
  next
    case True
    with one(4) have map1: "map (tdev (objects st2)) ps1 = map (tdev (objects st1)) ps @ [d]" by simp
    then have len: "length ps1 = Suc (length ps)" by (metis length_append_singleton length_map)
    have "distinct (map (tdev (objects st2)) ps1 @ map snd ds)" using Cons.prems(3) x by (simp add: map1)
    moreover have "\<forall>(i, d)\<in>set ds. i = owner d" "length ds \<le> k'" using Cons.prems(4,5) k by auto
    ultimately obtain r' ps' st3 where IH:
      "add_list disp ds (r1, length ps1, Buf (ps1 @ replicate k' 0), st2) =
         Some (r', length ps', Buf (ps' @ replicate (length ps1 + k' - length ps') 0), st3)"
      "building owner st xs ps' st3" "fresh_ok owner st xs st3" "length ps' \<le> length ps1 + k'"
      "if ds = [] then r' = r1 else r' = VK_SUCCESS \<or> r' = VK_ERROR_OUT_OF_HOST_MEMORY"
      "r' \<noteq> VK_ERROR_OUT_OF_HOST_MEMORY \<longrightarrow> map (tdev (objects st3)) ps' = map (tdev (objects st2)) ps1 @ map snd ds"
      using Cons.IH [OF one(2,3), of k' r1] by blast
    have "length ps1 + k' = length ps + k" and kk: "length ps + k - length ps1 = k'" using len k by simp_all
    with IH one(1) True x k show ?thesis
      by (intro exI [of _ r'] exI [of _ ps'] exI [of _ st3]) (auto simp: map1 kk split: if_splits)
  qed
qed

section \<open>Sorted devices\<close>

lemma alloc_terms_spec:
  assumes ok: "term_ok owner st xs"
  shows "building owner st xs qs st1 \<Longrightarrow> \<exists>r ps st2. alloc_terms n st1 = (r, ps, st2) \<and> building owner st xs (qs @ ps) st2 \<and>
     (\<forall>p\<in>set ps. next_object st \<le> p) \<and> length ps \<le> n \<and> (r = VK_SUCCESS \<and> length ps = n \<or> r = VK_ERROR_OUT_OF_HOST_MEMORY)"
proof (induction n arbitrary: qs st1)
  case (Suc n)
  obtain p st2 where al: "alloc_object (Term \<lparr>pdt_disp = 0, this_icd_term = 0, phys_dev = 0\<rparr>) st1 = (p, st2)" by force
  show ?case
  proof (cases "p = 0")
    case True
    have "0 < next_object st1" using ok Suc.prems by (auto simp: term_ok_def building_def)
    with al True have "st2 = st1\<lparr>pd_heap := tick (pd_heap st1)\<rparr>" by (auto simp: alloc_object_def split: if_splits)
    with al True building_tick [OF Suc.prems] show ?thesis by simp
  next
    case False
    note new = building_new [OF ok Suc.prems al False]
    from Suc.IH [OF new(1)] obtain r ps st3 where "alloc_terms n st2 = (r, ps, st3)" "building owner st xs ((qs @ [p]) @ ps) st3"
      "\<forall>p\<in>set ps. next_object st \<le> p" "length ps \<le> n" "r = VK_SUCCESS \<and> length ps = n \<or> r = VK_ERROR_OUT_OF_HOST_MEMORY" by blast
    with al False new(3) show ?thesis by simp
  qed
qed simp

lemma map_upds_nth: "distinct ps \<Longrightarrow> length vs = length ps \<Longrightarrow> i < length ps \<Longrightarrow> (m(ps [\<mapsto>] vs)) (ps ! i) = Some (vs ! i)"
proof (induction ps arbitrary: vs m i)
  case (Cons p ps)
  then obtain v vs' where "vs = v # vs'" by (cases vs) auto
  with Cons show ?case by (cases i) auto
qed simp

lemma building_store:
  assumes b: "building owner st xs ps st1" and ps: "\<forall>p\<in>set ps. next_object st \<le> p" and ts: "length ts = length ps"
    and h: "live h = live (pd_heap st1)"
  defines "st2 \<equiv> st1\<lparr>pd_heap := h, objects := (objects st1)(ps [\<mapsto>] map Term ts)\<rparr>"
  shows "building owner st xs ps st2" and "map (\<lambda>p. term_of (objects st2 p)) ps = map Some ts"
proof -
  have "filter (\<lambda>p. next_object st \<le> p) ps = ps" using ps by (simp add: filter_id_conv)
  then have d: "distinct ps" using b by (simp add: building_def)
  show terms: "map (\<lambda>p. term_of (objects st2 p)) ps = map Some ts"
    using map_upds_nth [OF d, of "map Term ts"] ts by (intro nth_equalityI) (simp_all add: st2_def)
  have same: "objects st2 p = objects st1 p" if "p \<notin> set ps" for p using that by (simp add: st2_def map_upds_apply_nontin)
  have new: "objects st2 p \<noteq> None \<and> term_of (objects st2 p) \<noteq> None" if p: "p \<in> set ps" for p
  proof -
    have "term_of (objects st2 p) \<in> set (map Some ts)" unfolding terms [symmetric] using p by simp
    then show ?thesis by (cases "objects st2 p") auto
  qed
  have old: "p \<in> set ps \<Longrightarrow> objects st1 p \<noteq> None \<and> p < next_object st1" for p using b ps by (auto simp: building_def)
  have "(p \<in> set ps \<longleftrightarrow> objects st2 p \<noteq> None) \<and> (objects st2 p \<noteq> None \<longrightarrow> p < next_object st2 \<and> term_of (objects st2 p) \<noteq> None)" if "next_object st \<le> p" for p
  proof (cases "p \<in> set ps")
    case True
    with new old show ?thesis by (simp add: st2_def)
  next
    case False
    with same b that show ?thesis by (simp add: building_def)
  qed
  moreover have "objects st2 p = objects st p" if "p < next_object st" for p
  proof -
    have "p \<notin> set ps" using that ps by (meson leD)
    with same b that show ?thesis by (simp add: building_def)
  qed
  moreover have "next_object st2 = next_object st1" "live (pd_heap st2) = live (pd_heap st1)" "same_rest st st2 = same_rest st st1"
    using h by (simp_all add: st2_def same_rest_def)
  ultimately show "building owner st xs ps st2" using b unfolding building_def by simp
qed

lemma building_swap:
  assumes ok: "term_ok owner st xs" and b: "building owner st xs (qs @ p # ps) st1" and p: "next_object st \<le> p" and q: "q \<in> set xs"
  shows "\<exists>st2. free_object p st1 = Some st2 \<and> building owner st xs (qs @ q # ps) st2 \<and> objects st2 = (objects st1)(p := None)"
proof -
  let ?st2 = "st1\<lparr>objects := (objects st1)(p := None), pd_heap := add_live (- 1) (pd_heap st1)\<rparr>"
  have N: "0 < next_object st" and qN: "q < next_object st" using ok q term_ok_facts(5) [OF ok] by (auto simp: term_ok_def)
  have "objects st1 p \<noteq> None" using b p by (auto simp: building_def)
  with N p have "free_object p st1 = Some ?st2" by (auto simp: free_object_def)
  moreover have "p \<notin> set (qs @ ps)" using b p by (auto simp: building_def)
  then have "building owner st xs (qs @ q # ps) ?st2" using b p q qN by (auto simp: building_def same_rest_def)
  ultimately show ?thesis by simp
qed

lemma find_old_term_correct:
  "\<forall>p\<in>set xs. term_of (m p) \<noteq> None \<Longrightarrow> find_old_term m d xs = Some (find (\<lambda>p. d = tdev m p) xs)"
  by (induction xs) auto

lemma keep_old_terms_spec:
  assumes ok: "term_ok owner st xs"
  shows "building owner st xs (qs @ ps) st1 \<Longrightarrow> \<forall>p\<in>set ps. next_object st \<le> p \<Longrightarrow>
     \<exists>ps' st2. keep_old_terms xs ps st1 = Some (ps', st2) \<and> building owner st xs (qs @ ps') st2 \<and>
       map (tdev (objects st2)) ps' = map (tdev (objects st1)) ps \<and> (\<forall>p\<in>set qs. objects st2 p = objects st1 p) \<and>
       (\<forall>p\<in>set ps'. next_object st \<le> p \<longrightarrow> p \<in> set ps \<and> objects st2 p = objects st1 p \<and> tdev (objects st1) p \<notin> tdev (objects st) ` set xs)"
proof (induction ps arbitrary: qs st1)
  case (Cons p ps)
  note b = Cons.prems(1)
  note cells = building_cells [OF ok b]
  have p: "next_object st \<le> p" using Cons.prems(2) by simp
  obtain t where t: "term_of (objects st1 p) = Some t" using cells(2) by auto
  have dist: "p \<notin> set (qs @ ps)" using b p by (auto simp: building_def)
  have xsN: "\<And>q. q \<in> set xs \<Longrightarrow> q < next_object st" and xst: "\<forall>q\<in>set xs. term_of (objects st1 q) \<noteq> None"
    using term_ok_facts(3,5) [OF ok] cells(3) by auto
  note found = find_old_term_correct [OF xst, of "phys_dev t"]
  show ?case
  proof (cases "find (\<lambda>q. phys_dev t = tdev (objects st1) q) xs")
    case None
    from Cons.IH [of "qs @ [p]" st1] b Cons.prems(2) obtain ps' st2 where IH:
      "keep_old_terms xs ps st1 = Some (ps', st2)" "building owner st xs ((qs @ [p]) @ ps') st2"
      "map (tdev (objects st2)) ps' = map (tdev (objects st1)) ps" "\<forall>q\<in>set (qs @ [p]). objects st2 q = objects st1 q"
      "\<forall>q\<in>set ps'. next_object st \<le> q \<longrightarrow> q \<in> set ps \<and> objects st2 q = objects st1 q \<and> tdev (objects st1) q \<notin> tdev (objects st) ` set xs" by auto
    have "phys_dev t \<notin> tdev (objects st) ` set xs" using None cells(3) by (auto simp: find_None_iff)
    moreover have "keep_old_terms xs (p # ps) st1 = Some (p # ps', st2)" using t found None IH(1) by simp
    ultimately show ?thesis using IH t by (intro exI [of _ "p # ps'"] exI [of _ st2]) auto
  next
    case (Some q)
    then have q: "q \<in> set xs" "phys_dev t = tdev (objects st1) q" by (auto simp: find_Some_iff)
    from building_swap [OF ok b p q(1)] obtain st2 where
      sw: "free_object p st1 = Some st2" "building owner st xs ((qs @ [q]) @ ps) st2" "objects st2 = (objects st1)(p := None)" by auto
    from Cons.IH [OF sw(2)] Cons.prems(2) obtain ps' st3 where IH:
      "keep_old_terms xs ps st2 = Some (ps', st3)" "building owner st xs ((qs @ [q]) @ ps') st3"
      "map (tdev (objects st3)) ps' = map (tdev (objects st2)) ps" "\<forall>p\<in>set (qs @ [q]). objects st3 p = objects st2 p"
      "\<forall>p\<in>set ps'. next_object st \<le> p \<longrightarrow> p \<in> set ps \<and> objects st3 p = objects st2 p \<and> tdev (objects st2) p \<notin> tdev (objects st) ` set xs" by auto
    have same: "objects st2 r = objects st1 r" if "r \<noteq> p" for r using that sw(3) by simp
    have "q \<noteq> p" using xsN [OF q(1)] p by simp
    have "map (tdev (objects st2)) ps = map (tdev (objects st1)) ps" using dist by (intro map_cong refl) (auto simp: sw(3))
    then have "map (tdev (objects st3)) (q # ps') = map (tdev (objects st1)) (p # ps)"
      using IH(3,4) same [OF \<open>q \<noteq> p\<close>] q(2) t by simp
    moreover have "keep_old_terms xs (p # ps) st1 = Some (q # ps', st3)" using t found Some sw(1) IH(1) by simp
    moreover have "objects st3 r = objects st1 r" if "r \<in> set qs" for r using that IH(4) same [of r] dist by auto
    moreover have "r \<in> set ps \<and> objects st3 r = objects st1 r \<and> tdev (objects st1) r \<notin> tdev (objects st) ` set xs"
      if "r \<in> set ps'" "next_object st \<le> r" for r
    proof -
      from IH(5) that have r: "r \<in> set ps" "objects st3 r = objects st2 r" "tdev (objects st2) r \<notin> tdev (objects st) ` set xs" by blast+
      moreover have "r \<noteq> p" using r(1) dist by auto
      ultimately show ?thesis using same by simp
    qed
    ultimately show ?thesis using IH(2) xsN [OF q(1)] by (intro exI [of _ "q # ps'"] exI [of _ st3]) auto
  qed
qed simp

text \<open>The order in which devices are reported.\<close>

definition device_order :: "pd_config \<Rightarrow> (nat \<times> nat) list \<Rightarrow> nat list \<Rightarrow> bool" where
  "device_order cf devices devs \<longleftrightarrow>
     (if is_linux_sort_enabled cf
      then \<exists>ds. devs = map physical_device ds \<and> sorted (map device_key ds) \<and>
             mset ds = mset (linux_env_var_default_device (cf_process cf)
               (map (device_info (cf_drivers cf) (loader_check_version_meets_required LOADER_VERSION_1_1_0 (cf_app_api_version cf))) devices))
      else devs = map snd devices)"

lemma alloc_terms_read:
  assumes "term_ok owner st xs" and "building owner st xs ps st1"
  shows "those (map (\<lambda>p. term_of (objects st1 p)) ps) = Some (map (\<lambda>p. the (term_of (objects st1 p))) ps)"
  using building_cells(2) [OF assms] by (auto simp: those_Some)

lemma sorted_new_terms_spec:
  assumes ok: "term_ok owner st xs" and qs: "qsort_contract (cf_qsort cf)" and wf: "list_all wf_icd_devices icds"
    and cap: "sum_list (map icd_device_count icds) = capacity" and own: "\<forall>(i, d)\<in>set (all_devices icds). i = owner d"
    and sort: "is_linux_sort_enabled cf"
  shows "\<exists>r ps st1. sorted_new_terms cf icds capacity st = Some (r, ps, st1) \<and> building owner st xs ps st1 \<and> length ps \<le> capacity \<and>
     (r = VK_SUCCESS \<and> length ps = capacity \<and> fresh_ok owner st xs st1 \<and> mset (map (tdev (objects st1)) ps) = mset (map snd (all_devices icds)) \<and>
        device_order cf (all_devices icds) (map (tdev (objects st1)) ps) \<or>
      r = VK_ERROR_OUT_OF_HOST_MEMORY)"
proof -
  note facts = term_ok_facts [OF ok]
  from alloc_terms_spec [OF ok building_Nil [OF ok], of capacity] obtain r ps st1 where al: "alloc_terms capacity st = (r, ps, st1)"
    and b1: "building owner st xs ps st1" and new: "\<forall>p\<in>set ps. next_object st \<le> p" and lp: "length ps \<le> capacity"
    and r: "r = VK_SUCCESS \<and> length ps = capacity \<or> r = VK_ERROR_OUT_OF_HOST_MEMORY" by auto
  show ?thesis
  proof (cases "r = VK_SUCCESS")
    case False
    with al b1 lp r show ?thesis by (simp add: sorted_new_terms_def)
  next
    case True
    with r have len: "length ps = capacity" by auto
    let ?ts = "map (\<lambda>p. the (term_of (objects st1 p))) ps"
    have "sum_list (map icd_device_count icds) = length ?ts" using cap len by simp
    from read_sorted_spec [OF qs wf this, of "cf_process cf" "cf_allocator cf" "cf_drivers cf" "cf_app_api_version cf" "cf_disp cf" "pd_heap st1"]
    obtain r' ts h where rd: "linux_read_sorted_physical_devices (cf_qsort cf) (cf_process cf) (cf_allocator cf) (cf_drivers cf)
        (cf_app_api_version cf) (cf_disp cf) icds (length ps) ?ts (pd_heap st1) = Some (r', ts, h)" and h: "live h = live (pd_heap st1)"
      and res: "r' = VK_ERROR_OUT_OF_HOST_MEMORY \<and> ts = ?ts \<or>
        r' = VK_SUCCESS \<and> mset (map (\<lambda>t. (this_icd_term t, phys_dev t)) ts) = mset (all_devices icds) \<and>
        (\<exists>ds. map (\<lambda>t. (this_icd_term t, phys_dev t)) ts = map (\<lambda>d. (icd_term d, physical_device d)) ds \<and> sorted (map device_key ds) \<and>
           mset ds = mset (linux_env_var_default_device (cf_process cf)
             (map (device_info (cf_drivers cf) (loader_check_version_meets_required LOADER_VERSION_1_1_0 (cf_app_api_version cf))) (all_devices icds))))"
      by auto
    have "length (all_devices icds) = capacity"
      using wf cap by (induction icds arbitrary: capacity) (auto simp: all_devices_def wf_icd_devices_def)
    then have lt: "length ts = length ps" using res len by (metis length_map mset_eq_length)
    define st2 where "st2 = st1\<lparr>pd_heap := h, objects := (objects st1)(ps [\<mapsto>] map Term ts)\<rparr>"
    note store = building_store [OF b1 new lt h, folded st2_def]
    have run: "sorted_new_terms cf icds capacity st = (if r' = VK_ERROR_OUT_OF_HOST_MEMORY then Some (r', ps, st2)
       else do { old \<leftarrow> array_prefix (phys_devs_term st2) (phys_dev_count_term st2); (ps, st) \<leftarrow> keep_old_terms old ps st2; Some (r', ps, st) })"
      using al True rd alloc_terms_read [OF ok b1] by (simp add: sorted_new_terms_def st2_def)
    show ?thesis
    proof (cases "r' = VK_SUCCESS")
      case False
      with res have "r' = VK_ERROR_OUT_OF_HOST_MEMORY" by blast
      with run store(1) lp show ?thesis by auto
    next
      case ok': True
      with res obtain ds where m: "mset (map (\<lambda>t. (this_icd_term t, phys_dev t)) ts) = mset (all_devices icds)"
        and ds: "map (\<lambda>t. (this_icd_term t, phys_dev t)) ts = map (\<lambda>d. (icd_term d, physical_device d)) ds" "sorted (map device_key ds)"
          "mset ds = mset (linux_env_var_default_device (cf_process cf)
             (map (device_info (cf_drivers cf) (loader_check_version_meets_required LOADER_VERSION_1_1_0 (cf_app_api_version cf))) (all_devices icds)))"
        by (elim disjE conjE exE) (simp, blast)
      have old: "array_prefix (phys_devs_term st2) (phys_dev_count_term st2) = Some xs"
        using facts(1,2) building_arrays(1,2) [OF store(1)] by simp
      from keep_old_terms_spec [OF ok, of "[]" ps st2] store(1) new obtain ps' st3 where
        k: "keep_old_terms xs ps st2 = Some (ps', st3)" "building owner st xs ps' st3" "map (tdev (objects st3)) ps' = map (tdev (objects st2)) ps"
        "\<forall>p\<in>set ps'. next_object st \<le> p \<longrightarrow> p \<in> set ps \<and> objects st3 p = objects st2 p \<and> tdev (objects st2) p \<notin> tdev (objects st) ` set xs"
        by auto
      have "map (tdev (objects st2)) ps = map (\<lambda>x. phys_dev (the x)) (map (\<lambda>p. term_of (objects st2 p)) ps)" by simp
      also have "\<dots> = map phys_dev ts" unfolding store(2) by simp
      finally have devs: "map (tdev (objects st3)) ps' = map phys_dev ts" using k(3) by simp
      have "fresh_ok owner st xs st3"
        unfolding fresh_ok_def
      proof (intro allI impI)
        fix p t assume p: "next_object st \<le> p" "term_of (objects st3 p) = Some t"
        then have "objects st3 p \<noteq> None" by (cases "objects st3 p") auto
        with p(1) k(2) have "p \<in> set ps'" by (simp add: building_def)
        with k(4) p have q: "p \<in> set ps" "objects st3 p = objects st2 p" "tdev (objects st2) p \<notin> tdev (objects st) ` set xs" by blast+
        have "Some t \<in> set (map (\<lambda>p. term_of (objects st2 p)) ps)" using q(1,2) p(2) by (metis image_eqI set_map)
        then have "t \<in> set ts" unfolding store(2) by auto
        then have "(this_icd_term t, phys_dev t) \<in> set (all_devices icds)"
          using arg_cong [OF m, of set_mset] by auto
        with own q p(2) show "this_icd_term t = owner (phys_dev t) \<and> phys_dev t \<notin> tdev (objects st) ` set xs" by auto
      qed
      moreover have "length ps' = capacity" using devs lt len by (metis length_map)
      moreover have "mset (map phys_dev ts) = mset (map snd (all_devices icds))"
        using arg_cong [OF m, of "image_mset snd"] by (simp add: image_mset.compositionality comp_def)
      moreover have "device_order cf (all_devices icds) (map phys_dev ts)"
        using arg_cong [OF ds(1), of "map snd"] ds(2,3) sort unfolding device_order_def by (auto simp: comp_def)
      moreover have "sorted_new_terms cf icds capacity st = Some (VK_SUCCESS, ps', st3)" using run old k(1) ok' by simp
      ultimately show ?thesis using k(2) by (intro exI [of _ VK_SUCCESS] exI [of _ ps'] exI [of _ st3]) (simp add: devs del: mset_map)
    qed
  qed
qed

section \<open>What the drivers report\<close>

definition reported :: "device_enumeration \<Rightarrow> nat list" where
  "reported e = (if de_first_result e = VK_SUCCESS \<and> de_second_result e = VK_SUCCESS
     then take (de_second_count e) (resized 0 (de_first_count e) (de_devices e)) else [])"

definition devices_of :: "(nat \<Rightarrow> device_enumeration) \<Rightarrow> (nat \<times> nat) list \<Rightarrow> (nat \<times> nat) list" where
  "devices_of enums terms = concat (map (\<lambda>(i, n). map (Pair i) (reported (enums i))) terms)"

lemma read_icd_enumeration_spec:
  assumes "read_icd_enumeration i e = (r, icd)"
  shows "wf_icd_devices icd \<and> icd_of_devices icd = i \<and> icd_handles icd = reported e"
  using assms by (auto simp: read_icd_enumeration_def Let_def wf_icd_devices_def icd_handles_def reported_def resized_def min_def split: if_splits)

lemma read_icd_enumerations_spec:
  "\<exists>r' icds terms'. read_icd_enumerations enums r terms = (r', icds, terms') \<and> list_all wf_icd_devices icds \<and> map fst terms' = map fst terms \<and>
     (r' \<noteq> VK_ERROR_OUT_OF_HOST_MEMORY \<longrightarrow> all_devices icds = devices_of enums terms \<and> terms' = map (\<lambda>(i, n). (i, length (reported (enums i)))) terms)"
proof (induction terms arbitrary: r)
  case (Cons x terms)
  obtain i n where x: "x = (i, n)" by force
  obtain r1 icd where one: "read_icd_enumeration i (enums i) = (r1, icd)" by force
  note icd = read_icd_enumeration_spec [OF one]
  from Cons [of r1] obtain r' icds terms' where IH: "read_icd_enumerations enums r1 terms = (r', icds, terms')" "list_all wf_icd_devices icds"
    "map fst terms' = map fst terms" "r' \<noteq> VK_ERROR_OUT_OF_HOST_MEMORY \<longrightarrow> all_devices icds = devices_of enums terms \<and>
       terms' = map (\<lambda>(i, n). (i, length (reported (enums i)))) terms" by blast
  show ?case
  proof (cases "r1 = VK_ERROR_OUT_OF_HOST_MEMORY")
    case True
    with x one show ?thesis by simp
  next
    case False
    moreover have "icd_device_count icd = length (reported (enums i))" using icd by (auto simp: wf_icd_devices_def)
    ultimately show ?thesis using x one IH icd by (auto simp: all_devices_def devices_of_def)
  qed
qed (simp add: all_devices_def devices_of_def)

lemma length_all_devices: "list_all wf_icd_devices icds \<Longrightarrow> length (all_devices icds) = sum_list (map icd_device_count icds)"
  by (induction icds) (auto simp: all_devices_def wf_icd_devices_def)

text \<open>The cells made for all devices, on either path.\<close>

definition new_term_cells :: "pd_config \<Rightarrow> loader_icd_physical_devices list \<Rightarrow> nat \<Rightarrow> VkResult \<Rightarrow> pd_instance \<Rightarrow>
    (VkResult \<times> nat \<times> nat list \<times> pd_instance) option" where
  "new_term_cells cf icds capacity res st =
     (if is_linux_sort_enabled cf then do {
        (res, ps, st) \<leftarrow> sorted_new_terms cf icds capacity st;
        Some (res, capacity, ps @ replicate (capacity - length ps) 0, st)
      }
      else do {
        (res, cnt, cells, st) \<leftarrow> add_all_devices (cf_disp cf) icds (res, 0, Buf (replicate capacity 0), st);
        cells \<leftarrow> array_prefix cells capacity;
        Some (res, cnt, cells, st)
      })"

lemma new_term_cells_spec:
  assumes ok: "term_ok owner st xs" and qs: "qsort_contract (cf_qsort cf)" and wf: "list_all wf_icd_devices icds"
    and cap: "sum_list (map icd_device_count icds) = capacity" "0 < capacity" and own: "\<forall>(i, d)\<in>set (all_devices icds). i = owner d"
    and dd: "distinct (map snd (all_devices icds))" and r: "r \<noteq> VK_ERROR_OUT_OF_HOST_MEMORY"
  shows "\<exists>r' cnt ps st1. new_term_cells cf icds capacity r st = Some (r', cnt, ps @ replicate (capacity - length ps) 0, st1) \<and>
     building owner st xs ps st1 \<and>
     (r' = VK_SUCCESS \<and> cnt = length ps \<and> fresh_ok owner st xs st1 \<and> mset (map (tdev (objects st1)) ps) = mset (map snd (all_devices icds)) \<and>
        device_order cf (all_devices icds) (map (tdev (objects st1)) ps) \<or>
      r' = VK_ERROR_OUT_OF_HOST_MEMORY)"
proof (cases "is_linux_sort_enabled cf")
  case True
  from sorted_new_terms_spec [OF ok qs wf cap(1) own True] obtain r' ps st1 where
    "sorted_new_terms cf icds capacity st = Some (r', ps, st1)" "building owner st xs ps st1"
    "r' = VK_SUCCESS \<and> length ps = capacity \<and> fresh_ok owner st xs st1 \<and> mset (map (tdev (objects st1)) ps) = mset (map snd (all_devices icds)) \<and>
        device_order cf (all_devices icds) (map (tdev (objects st1)) ps) \<or> r' = VK_ERROR_OUT_OF_HOST_MEMORY" by blast
  with True show ?thesis
    by (intro exI [of _ r'] exI [of _ capacity] exI [of _ ps] exI [of _ st1]) (auto simp: new_term_cells_def)
next
  case False
  have fresh: "fresh_ok owner st xs st" using ok unfolding fresh_ok_def term_ok_def by (metis leD option.distinct(1) term_of.simps(2))
  have len: "length (all_devices icds) = capacity" using length_all_devices [OF wf] cap(1) by simp
  have "add_all_devices (cf_disp cf) icds (r, 0, Buf (replicate capacity 0), st) =
     add_list (cf_disp cf) (all_devices icds) (r, 0, Buf (replicate capacity 0), st)"
    using wf r by (intro add_all_devices_list) (simp_all add: list_all_iff)
  moreover from add_list_spec [OF ok building_Nil [OF ok] fresh, of "all_devices icds" capacity "cf_disp cf" r] dd own len
  obtain r' ps' st2 where a: "add_list (cf_disp cf) (all_devices icds) (r, 0, Buf (replicate capacity 0), st) =
         Some (r', length ps', Buf (ps' @ replicate (capacity - length ps') 0), st2)"
    "building owner st xs ps' st2" "fresh_ok owner st xs st2" "length ps' \<le> capacity"
    "if all_devices icds = [] then r' = r else r' = VK_SUCCESS \<or> r' = VK_ERROR_OUT_OF_HOST_MEMORY"
    "r' \<noteq> VK_ERROR_OUT_OF_HOST_MEMORY \<longrightarrow> map (tdev (objects st2)) ps' = map snd (all_devices icds)" by auto
  moreover have "array_prefix (Buf (ps' @ replicate (capacity - length ps') 0)) capacity = Some (ps' @ replicate (capacity - length ps') 0)"
    using a(4) by (simp add: array_prefix_def)
  moreover have "r' = VK_SUCCESS \<or> r' = VK_ERROR_OUT_OF_HOST_MEMORY" using a(5) len cap(2) by (auto split: if_splits)
  ultimately show ?thesis using False
    by (intro exI [of _ r'] exI [of _ "length ps'"] exI [of _ ps'] exI [of _ st2]) (auto simp: new_term_cells_def device_order_def simp del: mset_map)
qed

section \<open>The contract\<close>

definition term_blocks :: "pd_instance \<Rightarrow> nat list \<Rightarrow> int" where
  "term_blocks st xs = int (length xs) + blocks (phys_devs_term st)"

text \<open>The outcome of a call when the drivers report the devices \<open>devices\<close>, as pairs of driver and handle.\<close>

definition term_outcome :: "pd_config \<Rightarrow> (nat \<Rightarrow> nat) \<Rightarrow> (nat \<times> nat) list \<Rightarrow> pd_instance \<Rightarrow> nat list \<Rightarrow> VkResult \<Rightarrow> pd_instance \<Rightarrow> nat list \<Rightarrow> bool" where
  "term_outcome cf owner devices st xs r st' ys \<longleftrightarrow> term_ok owner st' ys \<and> (\<forall>p. tramp_of (objects st' p) = tramp_of (objects st p)) \<and>
     phys_devs_tramp st' = phys_devs_tramp st \<and> phys_dev_count_tramp st' = phys_dev_count_tramp st \<and> next_object st \<le> next_object st' \<and>
     live (pd_heap st') - term_blocks st' ys = live (pd_heap st) - term_blocks st xs \<and> map fst (icd_terms st') = map fst (icd_terms st) \<and>
     (if r = VK_SUCCESS
      then device_order cf devices (map (tdev (objects st')) ys) \<and> mset (map (tdev (objects st')) ys) = mset (map snd devices) \<and>
        (\<forall>p\<in>set xs. tdev (objects st) p \<in> snd ` set devices \<longrightarrow> p \<in> set ys \<and> objects st' p = objects st p) \<and> total_gpu_count st' = length ys \<and>
        (\<forall>(i, n)\<in>set (icd_terms st'). n = length (filter (\<lambda>(j, d). j = i) devices))
      else (r = VK_ERROR_OUT_OF_HOST_MEMORY \<or> r = VK_ERROR_INITIALIZATION_FAILED) \<and> ys = xs \<and> objects st' = objects st \<and> total_gpu_count st' = 0)"

lemma devices_of_count:
  assumes "distinct (map fst terms)" and "(i, n) \<in> set terms"
  shows "length (filter (\<lambda>(j, d). j = i) (devices_of enums terms)) = length (reported (enums i))"
  using assms
proof (induction terms)
  case (Cons x terms)
  obtain j k where x: "x = (j, k)" by force
  have "filter (\<lambda>(j', d). j' = i) (devices_of enums terms) = []" if "i \<notin> fst ` set terms"
    using that by (force simp: devices_of_def filter_empty_conv)
  with Cons x show ?case by (cases "i = j") (auto simp: devices_of_def filter_map comp_def rev_image_eqI)
qed simp

lemma device_count_sum_mod: "device_count_sum icds = sum_list (map icd_device_count icds) mod 2 ^ 32"
proof -
  have "(sum_list (map (\<lambda>icd. word_of_nat (icd_device_count icd)) icds) :: 32 word) = word_of_nat (sum_list (map icd_device_count icds))"
    by (induction icds) simp_all
  then show ?thesis by (simp add: device_count_sum_def unsigned_of_nat take_bit_eq_mod)
qed

lemma setup_loader_term_phys_devs_cells:
  "setup_loader_term_phys_devs cf enums st =
     (case read_icd_enumerations enums VK_SUCCESS (icd_terms st) of (res, icds, terms) \<Rightarrow>
        let st = st\<lparr>icd_terms := terms\<rparr>; capacity = sum_list (map icd_device_count icds) mod 2 ^ 32 in
        if res = VK_ERROR_OUT_OF_HOST_MEMORY then Some (res, st\<lparr>total_gpu_count := 0\<rparr>)
        else if capacity = 0 then Some (VK_ERROR_INITIALIZATION_FAILED, st\<lparr>total_gpu_count := 0\<rparr>)
        else if \<not> succeeds (pd_heap st) then Some (VK_ERROR_OUT_OF_HOST_MEMORY, st\<lparr>pd_heap := tick (pd_heap st), total_gpu_count := 0\<rparr>)
        else do {
            (res, cnt, cells, st) \<leftarrow> new_term_cells cf icds capacity res (st\<lparr>pd_heap := add_live 1 (tick (pd_heap st))\<rparr>);
            (if res \<noteq> VK_SUCCESS then map_option (Pair res) (abort_term_phys_devs (cf_allocator cf) cells st)
             else map_option (Pair res) (commit_term_phys_devs (cf_allocator cf) cells cnt st))
          })"
  unfolding setup_loader_term_phys_devs_def new_term_cells_def device_count_sum_mod
  by (simp add: Let_def loader_calloc_def split: prod.split)

lemma term_outcome_unchanged:
  assumes "term_ok owner st xs" and "objects st' = objects st" and "same_rest (st\<lparr>total_gpu_count := 0, icd_terms := icd_terms st'\<rparr>) st'"
    and "live (pd_heap st') = live (pd_heap st)" and "map fst (icd_terms st') = map fst (icd_terms st)" and "next_object st' = next_object st"
    and "r = VK_ERROR_OUT_OF_HOST_MEMORY \<or> r = VK_ERROR_INITIALIZATION_FAILED"
  shows "term_outcome cf owner devices st xs r st' xs"
  using assms by (auto simp: term_outcome_def term_ok_def same_rest_def term_blocks_def)

lemma setup_term_spec:
  assumes ok: "term_ok owner st xs" and qs: "qsort_contract (cf_qsort cf)"
    and dd: "distinct (map snd (devices_of enums (icd_terms st)))" and own: "\<forall>(i, d)\<in>set (devices_of enums (icd_terms st)). i = owner d"
    and small: "length (devices_of enums (icd_terms st)) < 2 ^ 32" and di: "distinct (map fst (icd_terms st))"
  shows "\<exists>r st' ys. setup_loader_term_phys_devs cf enums st = Some (r, st') \<and>
     term_outcome cf owner (devices_of enums (icd_terms st)) st xs r st' ys"
proof -
  let ?devs = "devices_of enums (icd_terms st)"
  obtain r icds terms where rd: "read_icd_enumerations enums VK_SUCCESS (icd_terms st) = (r, icds, terms)" and wf: "list_all wf_icd_devices icds"
    and fst: "map fst terms = map fst (icd_terms st)"
    and all: "r \<noteq> VK_ERROR_OUT_OF_HOST_MEMORY \<longrightarrow> all_devices icds = ?devs \<and> terms = map (\<lambda>(i, n). (i, length (reported (enums i)))) (icd_terms st)"
    using read_icd_enumerations_spec [of enums VK_SUCCESS "icd_terms st"] by blast
  let ?st = "st\<lparr>icd_terms := terms\<rparr>" and ?cap = "sum_list (map icd_device_count icds) mod 2 ^ 32"
  have ok1: "term_ok owner ?st xs" using ok by (simp add: term_ok_def)
  note run = setup_loader_term_phys_devs_cells [of cf enums st, unfolded rd prod.case Let_def]
  consider (oom) "r = VK_ERROR_OUT_OF_HOST_MEMORY" | (none) "r \<noteq> VK_ERROR_OUT_OF_HOST_MEMORY" "?cap = 0"
    | (full) "r \<noteq> VK_ERROR_OUT_OF_HOST_MEMORY" "?cap \<noteq> 0" "\<not> succeeds (pd_heap st)"
    | (go) "r \<noteq> VK_ERROR_OUT_OF_HOST_MEMORY" "?cap \<noteq> 0" "succeeds (pd_heap st)" by blast
  then show ?thesis
  proof cases
    case oom
    have "term_outcome cf owner ?devs st xs r (?st\<lparr>total_gpu_count := 0\<rparr>) xs"
      using oom by (intro term_outcome_unchanged ok) (simp_all add: same_rest_def fst)
    with run oom show ?thesis by auto
  next
    case none
    have "term_outcome cf owner ?devs st xs VK_ERROR_INITIALIZATION_FAILED (?st\<lparr>total_gpu_count := 0\<rparr>) xs"
      by (intro term_outcome_unchanged ok) (simp_all add: same_rest_def fst)
    with run none show ?thesis by auto
  next
    case full
    have "term_outcome cf owner ?devs st xs VK_ERROR_OUT_OF_HOST_MEMORY (?st\<lparr>pd_heap := tick (pd_heap st), total_gpu_count := 0\<rparr>) xs"
      by (intro term_outcome_unchanged ok) (simp_all add: same_rest_def fst)
    with run full show ?thesis by auto
  next
    case go
    let ?h = "add_live 1 (tick (pd_heap st))"
    have icds: "all_devices icds = ?devs" and terms: "terms = map (\<lambda>(i, n). (i, length (reported (enums i)))) (icd_terms st)"
      using all go(1) by blast+
    have cap: "sum_list (map icd_device_count icds) = ?cap" "0 < ?cap"
      using length_all_devices [OF wf] icds small go(2) by (simp_all del: sum_list_eq_0_iff)
    have h: "live ?h = live (pd_heap ?st) + 1" by simp
    have ok2: "term_ok owner (?st\<lparr>pd_heap := ?h\<rparr>) xs" using ok by (simp add: term_ok_def)
    from new_term_cells_spec [OF ok2 qs wf cap _ _ go(1)] dd own obtain r' cnt ps st1 where
      cells: "new_term_cells cf icds ?cap r (?st\<lparr>pd_heap := ?h\<rparr>) = Some (r', cnt, ps @ replicate (?cap - length ps) 0, st1)"
      and b: "building owner (?st\<lparr>pd_heap := ?h\<rparr>) xs ps st1"
      and res: "r' = VK_SUCCESS \<and> cnt = length ps \<and> fresh_ok owner (?st\<lparr>pd_heap := ?h\<rparr>) xs st1 \<and> mset (map (tdev (objects st1)) ps) = mset (map snd ?devs) \<and>
        device_order cf ?devs (map (tdev (objects st1)) ps) \<or> r' = VK_ERROR_OUT_OF_HOST_MEMORY" unfolding icds by blast
    show ?thesis
    proof (cases "r' = VK_SUCCESS")
      case False
      from abort_spec [OF ok1 b h, of "cf_allocator cf" "?cap - length ps"] obtain st2 where
        ab: "abort_term_phys_devs (cf_allocator cf) (ps @ replicate (?cap - length ps) 0) st1 = Some st2" and out: "objects st2 = objects st"
        "term_ok owner st2 xs" "live (pd_heap st2) = live (pd_heap st)" "phys_devs_term st2 = phys_devs_term st"
        "phys_devs_tramp st2 = phys_devs_tramp st" "phys_dev_count_tramp st2 = phys_dev_count_tramp st" "next_object st \<le> next_object st2"
        "total_gpu_count st2 = 0" "icd_terms st2 = terms" by auto
      have "term_outcome cf owner ?devs st xs r' st2 xs"
        using out res False fst by (auto simp: term_outcome_def term_blocks_def)
      with run go cells ab False show ?thesis by auto
    next
      case True
      with res have ok': "cnt = length ps" "fresh_ok owner (?st\<lparr>pd_heap := ?h\<rparr>) xs st1"
        "mset (map (tdev (objects st1)) ps) = mset (map snd ?devs)" "device_order cf ?devs (map (tdev (objects st1)) ps)" by simp_all
      have dp: "distinct (map (tdev (objects st1)) ps)" using ok'(3) dd by (metis mset_eq_imp_distinct_iff)
      have own': "\<forall>p\<ge>next_object ?st. \<forall>t. term_of (objects st1 p) = Some t \<longrightarrow> this_icd_term t = owner (phys_dev t)"
        using ok'(2) by (simp add: fresh_ok_def)
      have reuse: "\<forall>p\<in>set xs. tdev (objects ?st) p \<in> set (map (tdev (objects st1)) ps) \<longrightarrow> p \<in> set ps"
        using reused [OF ok2 b ok'(2)] by simp
      from commit_spec [OF ok1 b h refl dp own' reuse, of "cf_allocator cf" "?cap - length ps"] obtain st2 where
        co: "commit_term_phys_devs (cf_allocator cf) (ps @ replicate (?cap - length ps) 0) (length ps) st1 = Some st2" and out: "term_ok owner st2 ps"
        "map (tdev (objects st2)) ps = map (tdev (objects st1)) ps" "\<forall>p\<in>set xs. p \<in> set ps \<longrightarrow> objects st2 p = objects st p"
        "\<forall>p. tramp_of (objects st2 p) = tramp_of (objects st p)"
        "live (pd_heap st2) - int (length ps) - 1 = live (pd_heap st) - int (length xs) - blocks (phys_devs_term st)"
        "phys_devs_tramp st2 = phys_devs_tramp st" "phys_dev_count_tramp st2 = phys_dev_count_tramp st" "next_object st \<le> next_object st2"
        "total_gpu_count st2 = length ps" "icd_terms st2 = terms" "phys_devs_term st2 = Buf (ps @ replicate (?cap - length ps) 0)" by auto
      have set_devs: "set (map (tdev (objects st1)) ps) = snd ` set ?devs" using ok'(3) by (metis set_map set_mset_mset)
      have "term_outcome cf owner ?devs st xs VK_SUCCESS st2 ps"
        unfolding term_outcome_def
      proof (intro conjI)
        show "live (pd_heap st2) - term_blocks st2 ps = live (pd_heap st) - term_blocks st xs" using out(5,11) by (simp add: term_blocks_def)
        have "n = length (filter (\<lambda>(j, d). j = i) ?devs)" if "(i, n) \<in> set terms" for i n
          using that devices_of_count [OF di] terms by auto
        then show "if VK_SUCCESS = VK_SUCCESS then device_order cf ?devs (map (tdev (objects st2)) ps) \<and> mset (map (tdev (objects st2)) ps) = mset (map snd ?devs) \<and>
            (\<forall>p\<in>set xs. tdev (objects st) p \<in> snd ` set ?devs \<longrightarrow> p \<in> set ps \<and> objects st2 p = objects st p) \<and> total_gpu_count st2 = length ps \<and>
            (\<forall>(i, n)\<in>set (icd_terms st2). n = length (filter (\<lambda>(j, d). j = i) ?devs))
          else (VK_SUCCESS = VK_ERROR_OUT_OF_HOST_MEMORY \<or> VK_SUCCESS = VK_ERROR_INITIALIZATION_FAILED) \<and> ps = xs \<and> objects st2 = objects st \<and> total_gpu_count st2 = 0"
          unfolding out(2) using out(3,9,10) ok'(3,4) reuse [unfolded set_devs] by simp blast
      qed (use out fst in simp_all)
      moreover have "setup_loader_term_phys_devs cf enums st = Some (VK_SUCCESS, st2)" using run go cells True ok'(1) co by simp
      ultimately show ?thesis by blast
    qed
  qed
qed

end
