(* ===== verification/DeviceHandles.thy ===== *)
theory DeviceHandles
  imports TermDevices
begin

text \<open>
  The handles of physical devices an application holds: from the exported \<^verbatim>\<open>vkEnumeratePhysicalDevices\<close>, through identifier
  filters, trampoline and terminator objects, down to the devices of the drivers.
\<close>

section \<open>Magic numbers\<close>

definition all_magic :: "(nat \<rightharpoonup> pd_object) \<Rightarrow> bool" where
  "all_magic m \<longleftrightarrow> (\<forall>p t. tramp_of (m p) = Some t \<longrightarrow> tr_magic t = PHYS_TRAMP_MAGIC_NUMBER)"

lemma all_magic_mono:
  assumes "all_magic m" and "m' \<subseteq>\<^sub>m m"
  shows "all_magic m'"
  unfolding all_magic_def
proof (intro allI impI)
  fix p t assume t: "tramp_of (m' p) = Some t"
  then have "p \<in> dom m'" by (cases "m' p") auto
  with assms(2) have "m' p = m p" by (simp add: map_le_def)
  with t assms(1) show "tr_magic t = PHYS_TRAMP_MAGIC_NUMBER" unfolding all_magic_def by metis
qed

lemma free_object_objects: "free_object p st = Some st' \<Longrightarrow> objects st' \<subseteq>\<^sub>m objects st"
  by (auto simp: free_object_def map_le_def split: if_splits)

lemma free_absent_objects: "free_absent keep ps st = Some st' \<Longrightarrow> objects st' \<subseteq>\<^sub>m objects st"
proof (induction ps arbitrary: st)
  case (Cons p ps)
  then show ?case
    by (auto simp: bind_eq_Some_conv split: if_splits intro: map_le_trans [OF _ free_object_objects])
qed simp

lemma free_array_objects: "free_array a b st = Some st' \<Longrightarrow> objects st' = objects st"
  by (auto simp: free_array_def)

lemma wrap_all_magic:
  "wrap_all disp old o2n i ds st = Some (r, ps, st') \<Longrightarrow> all_magic (objects st) \<Longrightarrow> all_magic (objects st')"
proof (induction ds arbitrary: i st r ps st')
  case (Cons d ds)
  then obtain p st1 where one: "(case first_index (Some i) o2n of Some cur_idx \<Rightarrow> map_option (\<lambda>p. (p, st)) (buf_read old cur_idx)
      | None \<Rightarrow> Some (alloc_object (Tramp \<lparr>tr_disp = disp, tr_magic = PHYS_TRAMP_MAGIC_NUMBER, tr_phys_dev = d\<rparr>) st)) = Some (p, st1)"
    and rest: "(if p = 0 then Some (VK_ERROR_OUT_OF_HOST_MEMORY, [], st1)
      else do { (res, ps, st) \<leftarrow> wrap_all disp old o2n (i + 1) ds st1; Some (res, p # ps, st) }) = Some (r, ps, st')"
    by (auto simp: bind_eq_Some_conv simp del: buf_read_Some)
  from one Cons.prems(2) have "all_magic (objects st1)"
    by (auto simp: alloc_object_def all_magic_def split: option.splits if_splits simp del: buf_read_Some)
  with rest Cons.IH show ?case by (auto simp: bind_eq_Some_conv split: if_splits)
qed simp

lemma replace_tramp_magic:
  assumes "replace_tramp_phys_devs a disp nc o2n old n ds st = Some (r, out, st')" and "all_magic (objects st)"
  shows "all_magic (objects st')"
proof (cases "succeeds (pd_heap st)")
  case False
  with assms show ?thesis by (auto simp: replace_tramp_phys_devs_def loader_calloc_def)
next
  case True
  let ?h = "add_live 1 (tick (pd_heap st))"
  from assms(1) True obtain r1 ps st1 where w: "wrap_all disp (phys_devs_tramp st) o2n 0 (take n ds) (st\<lparr>pd_heap := ?h\<rparr>) = Some (r1, ps, st1)"
    by (auto simp: replace_tramp_phys_devs_def loader_calloc_def bind_eq_Some_conv)
  with wrap_all_magic [OF w] assms(2) have m1: "all_magic (objects st1)" by simp
  have "objects st' \<subseteq>\<^sub>m objects st1"
    using assms(1) True w unfolding replace_tramp_phys_devs_def loader_calloc_def
    by (auto simp: bind_eq_Some_conv Let_def split: if_splits dest!: free_absent_objects free_array_objects)
  with m1 show ?thesis by (rule all_magic_mono)
qed

lemma setup_tramp_magic:
  assumes "setup_loader_tramp_phys_devs a disp n ds st = Some (r, out, st')" and "all_magic (objects st)"
  shows "all_magic (objects st')"
  using assms by (auto simp: setup_loader_tramp_phys_devs_def bind_eq_Some_conv Let_def split: if_splits dest: replace_tramp_magic)

lemma free_object_icds: "free_object p st = Some st' \<Longrightarrow> icd_terms st' = icd_terms st"
  by (auto simp: free_object_def split: if_splits)

lemma free_absent_icds: "free_absent keep ps st = Some st' \<Longrightarrow> icd_terms st' = icd_terms st"
  by (induction ps arbitrary: st) (auto simp: bind_eq_Some_conv split: if_splits dest: free_object_icds)

lemma free_array_icds: "free_array a b st = Some st' \<Longrightarrow> icd_terms st' = icd_terms st"
  by (auto simp: free_array_def)

lemma wrap_all_icds: "wrap_all disp old o2n i ds st = Some (r, ps, st') \<Longrightarrow> icd_terms st' = icd_terms st"
proof (induction ds arbitrary: i st r ps st')
  case (Cons d ds)
  then show ?case
    by (auto simp: bind_eq_Some_conv alloc_object_def split: option.splits if_splits simp del: buf_read_Some)
qed simp

lemma setup_tramp_icds:
  assumes "setup_loader_tramp_phys_devs a disp n ds st = Some (r, out, st')"
  shows "icd_terms st' = icd_terms st"
proof -
  have "icd_terms st' = icd_terms st" if "replace_tramp_phys_devs a disp nc o2n old n ds st = Some (r, out, st')" for nc o2n old
    using that unfolding replace_tramp_phys_devs_def loader_calloc_def
    by (auto simp: bind_eq_Some_conv Let_def split: if_splits dest!: free_absent_icds free_array_icds wrap_all_icds)
  with assms show ?thesis by (auto simp: setup_loader_tramp_phys_devs_def bind_eq_Some_conv Let_def split: if_splits)
qed

section \<open>Handles\<close>

definition pd_ok :: "(nat \<Rightarrow> nat) \<Rightarrow> pd_instance \<Rightarrow> nat list \<Rightarrow> nat list \<Rightarrow> bool" where
  "pd_ok owner st xs ys \<longleftrightarrow> term_ok owner st xs \<and> tramp_ok st ys \<and> all_magic (objects st) \<and> distinct (map fst (icd_terms st))"

definition pd_balance :: "pd_instance \<Rightarrow> nat list \<Rightarrow> nat list \<Rightarrow> int" where
  "pd_balance st xs ys = live (pd_heap st) - term_blocks st xs - tramp_blocks st ys"

text \<open>The driver and the device a handle of the application leads to.\<close>

definition device_of_handle :: "pd_instance \<Rightarrow> nat \<Rightarrow> (nat \<times> nat) option" where
  "device_of_handle st h = do {
     p \<leftarrow> loader_unwrap_physical_device st h;
     t \<leftarrow> term_of (objects st p);
     Some (this_icd_term t, phys_dev t)
   }"

lemma device_of_handle_cong:
  "tramp_of (objects st' h) = tramp_of (objects st h) \<Longrightarrow>
   (\<And>t. tramp_of (objects st h) = Some t \<Longrightarrow> term_of (objects st' (tr_phys_dev t)) = term_of (objects st (tr_phys_dev t))) \<Longrightarrow>
   term_of (objects st' 0) = term_of (objects st 0) \<Longrightarrow> device_of_handle st' h = device_of_handle st h"
  by (cases "tramp_of (objects st h)") (auto simp: device_of_handle_def loader_unwrap_physical_device_def)

lemma pd_ok_null: "pd_ok owner st xs ys \<Longrightarrow> term_of (objects st 0) = None"
  unfolding pd_ok_def term_ok_def by blast

lemma device_of_handle_iff:
  assumes ok: "pd_ok owner st xs ys"
  shows "device_of_handle st h = Some x \<longleftrightarrow> h \<in> set ys \<and> dev_of (objects st) h \<in> set xs \<and>
     x = (owner (tdev (objects st) (dev_of (objects st) h)), tdev (objects st) (dev_of (objects st) h))"
proof -
  have xs: "p \<in> set xs \<longleftrightarrow> term_of (objects st p) \<noteq> None" and ys: "p \<in> set ys \<longleftrightarrow> tramp_of (objects st p) \<noteq> None" for p
    using ok unfolding pd_ok_def term_ok_def tramp_ok_def by blast+
  have own: "\<And>p t. term_of (objects st p) = Some t \<Longrightarrow> this_icd_term t = owner (phys_dev t)" and n0: "0 \<notin> set ys"
    and magic: "\<And>p t. tramp_of (objects st p) = Some t \<Longrightarrow> tr_magic t = PHYS_TRAMP_MAGIC_NUMBER"
    using ok unfolding pd_ok_def term_ok_def tramp_ok_def all_magic_def by blast+
  show ?thesis
  proof (cases "tramp_of (objects st h)")
    case None
    then show ?thesis using ys pd_ok_null [OF ok] by (auto simp: device_of_handle_def loader_unwrap_physical_device_def)
  next
    case (Some t)
    then have "h \<in> set ys" "h \<noteq> 0" using ys n0 by (auto intro: gr0I)
    with Some magic [OF Some] show ?thesis
      by (cases "term_of (objects st (tr_phys_dev t))") (auto simp: device_of_handle_def loader_unwrap_physical_device_def xs own)
  qed
qed

lemma term_stage:
  assumes ok: "pd_ok owner st xs ys" and out: "term_outcome cf owner devices st xs r st' xs'"
  shows "pd_ok owner st' xs' ys" and "pd_balance st' xs' ys = pd_balance st xs ys"
proof -
  have t: "term_ok owner st' xs'" "\<And>p. tramp_of (objects st' p) = tramp_of (objects st p)" "phys_devs_tramp st' = phys_devs_tramp st"
    "phys_dev_count_tramp st' = phys_dev_count_tramp st" "live (pd_heap st') - term_blocks st' xs' = live (pd_heap st) - term_blocks st xs"
    "map fst (icd_terms st') = map fst (icd_terms st)" using out by (auto simp: term_outcome_def)
  have "0 < next_object st'" "\<forall>p. objects st' p \<noteq> None \<longrightarrow> p < next_object st'" using t(1) by (simp_all add: term_ok_def)
  with t ok show "pd_ok owner st' xs' ys" by (simp add: pd_ok_def tramp_ok_def all_magic_def)
  show "pd_balance st' xs' ys = pd_balance st xs ys" using t(3,5) by (simp add: pd_balance_def tramp_blocks_def)
qed

lemma term_stage_keeps:
  assumes ok: "pd_ok owner st xs ys" and out: "term_outcome cf owner devices st xs r st' xs'" and h: "device_of_handle st h = Some (i, d)"
    and d: "r = VK_SUCCESS \<Longrightarrow> d \<in> snd ` set devices"
  shows "device_of_handle st' h = Some (i, d)"
proof -
  let ?p = "dev_of (objects st) h"
  have hp: "?p \<in> set xs" "tdev (objects st) ?p = d" using h device_of_handle_iff [OF ok] by auto
  have "objects st' ?p = objects st ?p" using out d hp by (cases "r = VK_SUCCESS") (auto simp: term_outcome_def)
  moreover have "tramp_of (objects st' q) = tramp_of (objects st q)" for q using out by (simp add: term_outcome_def)
  ultimately show ?thesis using h pd_ok_null [OF ok] pd_ok_null [OF term_stage(1) [OF ok out]]
    by (subst device_of_handle_cong) auto
qed

lemma tramp_stage:
  assumes ok: "pd_ok owner st xs ys" and run: "setup_loader_tramp_phys_devs a disp n ds st = Some (r, out, st')"
    and o: "tramp_outcome devs st ys r out st' ys'"
  shows "pd_ok owner st' xs ys'" and "pd_balance st' xs ys' = pd_balance st xs ys"
proof -
  have t: "tramp_ok st' ys'" "\<And>p. term_of (objects st' p) = term_of (objects st p)" "phys_devs_term st' = phys_devs_term st"
    "phys_dev_count_term st' = phys_dev_count_term st" "live (pd_heap st') - tramp_blocks st' ys' = live (pd_heap st) - tramp_blocks st ys"
    using o by (auto simp: tramp_outcome_def terms_kept_def)
  have "0 < next_object st'" "\<forall>p. objects st' p \<noteq> None \<longrightarrow> p < next_object st'" using t(1) by (simp_all add: tramp_ok_def)
  with t ok setup_tramp_magic [OF run] setup_tramp_icds [OF run] show "pd_ok owner st' xs ys'" by (simp add: pd_ok_def term_ok_def)
  show "pd_balance st' xs ys' = pd_balance st xs ys" using t(3,5) by (simp add: pd_balance_def term_blocks_def)
qed

lemma tramp_stage_keeps:
  assumes ok: "pd_ok owner st xs ys" and run: "setup_loader_tramp_phys_devs a disp n ds st = Some (r, out, st')"
    and o: "tramp_outcome devs st ys r out st' ys'" and h: "device_of_handle st h = Some x"
    and d: "r = VK_SUCCESS \<Longrightarrow> dev_of (objects st) h \<in> set devs"
  shows "device_of_handle st' h = Some x" and "r = VK_SUCCESS \<Longrightarrow> h \<in> set (take (length devs) out)"
proof -
  have hp: "h \<in> set ys" using h device_of_handle_iff [OF ok] by auto
  have tm: "term_of (objects st' p) = term_of (objects st p)" for p using o by (simp add: tramp_outcome_def terms_kept_def)
  have same: "objects st' h = objects st h"
  proof (cases "r = VK_SUCCESS")
    case True
    with o d hp have "h \<in> set ys'" by (auto simp: tramp_outcome_def)
    with True o hp show ?thesis by (auto simp: tramp_outcome_def)
  next
    case False
    with o show ?thesis by (auto simp: tramp_outcome_def)
  qed
  then show "device_of_handle st' h = Some x" using h tm by (subst device_of_handle_cong) auto
  assume r: "r = VK_SUCCESS"
  with o d hp have y: "h \<in> set ys'" and m: "map (dev_of (objects st')) (take (length devs) out) = devs" and sub: "set (take (length devs) out) \<subseteq> set ys'"
    by (auto simp: tramp_outcome_def)
  have "dev_of (objects st') h \<in> dev_of (objects st') ` set (take (length devs) out)" using d [OF r] same arg_cong [OF m, of set] by simp
  moreover have "inj_on (dev_of (objects st')) (set ys')" using o by (auto simp: tramp_outcome_def tramp_ok_def distinct_map)
  ultimately show "h \<in> set (take (length devs) out)" using y sub by (auto dest!: inj_onD)
qed

section \<open>Identifier filters\<close>

definition wf_id_filter :: "loader_envvar_id_filter \<Rightarrow> bool" where
  "wf_id_filter f \<longleftrightarrow> idf_filters f = NULL \<and> idf_count f = 0 \<or> (\<exists>xs. idf_filters f = Buf xs \<and> idf_count f \<le> length xs)"

lemma parse_id_tokens_wf:
  "parse_id_tokens f s = Some f' \<Longrightarrow> wf_id_filter f \<Longrightarrow> wf_id_filter f' \<and> blocks (idf_filters f') = blocks (idf_filters f)"
proof (induction "length s" arbitrary: f s rule: less_induct)
  case less
  show ?case
  proof (cases "strtok_r '','' s")
    case None
    with less.prems show ?thesis by (simp add: parse_id_tokens.simps [of f s])
  next
    case (Some tr)
    then obtain t r where st: "strtok_r '','' s = Some (t, r)" by (cases tr) auto
    then obtain cells where w: "buf_write (idf_filters f) (idf_count f) (id_filter_of t) = Some cells"
      and p: "parse_id_tokens \<lparr>idf_count = idf_count f + 1, idf_filters = cells\<rparr> r = Some f'"
      using less.prems(1) by (auto simp: parse_id_tokens.simps [of f s] split: option.splits simp del: buf_write_Some)
    have "wf_id_filter \<lparr>idf_count = idf_count f + 1, idf_filters = cells\<rparr> \<and> blocks cells = blocks (idf_filters f)"
      using w less.prems(2) by (auto simp: wf_id_filter_def)
    with less.hyps [OF strtok_r_shorter [OF st] p] show ?thesis by simp
  qed
qed

lemma parse_id_filter_wf:
  assumes "parse_id_filter_environment_var p a junk var h = Some (f, h')"
  shows "wf_id_filter f" and "live h' = live h + blocks (idf_filters f)"
proof -
  have "wf_id_filter f \<and> live h' = live h + blocks (idf_filters f)"
  proof (cases "loader_secure_getenv p var")
    case None
    with assms show ?thesis by (auto simp: parse_id_filter_environment_var_def wf_id_filter_def)
  next
    case (Some v)
    show ?thesis
    proof (cases "length v = 0")
      case True
      with Some assms show ?thesis by (auto simp: parse_id_filter_environment_var_def wf_id_filter_def)
    next
      case False
      obtain cells h1 where al: "loader_alloc a junk (length (filter (\<lambda>c. c = CHR '','') v) + 1) h = (cells, h1)" by force
      with Some False assms have p: "parse_id_tokens \<lparr>idf_count = 0, idf_filters = cells\<rparr> (map tolower v) = Some f" and "h' = h1"
        by (auto simp: parse_id_filter_environment_var_def bind_eq_Some_conv)
      moreover have "wf_id_filter \<lparr>idf_count = 0, idf_filters = cells\<rparr> \<and> live h1 = live h + blocks cells"
        using al by (auto simp: loader_alloc_def wf_id_filter_def split: if_splits)
      ultimately show ?thesis using parse_id_tokens_wf [OF p] by simp
    qed
  qed
  then show "wf_id_filter f" "live h' = live h + blocks (idf_filters f)" by simp_all
qed

lemma free_id_filters_wf: "wf_id_filter f \<Longrightarrow> \<exists>h'. free_id_filters a f h = Some h' \<and> live h' = live h - blocks (idf_filters f)"
  by (auto simp: wf_id_filter_def free_id_filters_def)

definition wf_filters :: "id_filters \<Rightarrow> bool" where
  "wf_filters fs \<longleftrightarrow> wf_id_filter (device_id_filter fs) \<and> wf_id_filter (vendor_id_filter fs) \<and> wf_id_filter (driver_id_filter fs)"

definition filters_blocks :: "id_filters \<Rightarrow> int" where
  "filters_blocks fs = blocks (idf_filters (device_id_filter fs)) + blocks (idf_filters (vendor_id_filter fs)) + blocks (idf_filters (driver_id_filter fs))"

lemma parse_id_filters_wf:
  assumes "parse_id_filters cf h = Some (fs, h')"
  shows "wf_filters fs" and "live h' = live h + filters_blocks fs"
proof -
  from assms obtain f1 h1 f2 h2 f3 where p: "parse_id_filter_environment_var (cf_process cf) (cf_allocator cf) \<lparr>id_begin = 0, id_end = 0\<rparr> ''VK_LOADER_DEVICE_ID_FILTER'' h = Some (f1, h1)"
    "parse_id_filter_environment_var (cf_process cf) (cf_allocator cf) \<lparr>id_begin = 0, id_end = 0\<rparr> ''VK_LOADER_VENDOR_ID_FILTER'' h1 = Some (f2, h2)"
    "parse_id_filter_environment_var (cf_process cf) (cf_allocator cf) \<lparr>id_begin = 0, id_end = 0\<rparr> ''VK_LOADER_DRIVER_ID_FILTER'' h2 = Some (f3, h')"
    "fs = \<lparr>device_id_filter = f1, vendor_id_filter = f2, driver_id_filter = f3\<rparr>"
    by (auto simp: parse_id_filters_def Let_def bind_eq_Some_conv)
  have "wf_filters fs \<and> live h' = live h + filters_blocks fs"
    using parse_id_filter_wf [OF p(1)] parse_id_filter_wf [OF p(2)] parse_id_filter_wf [OF p(3)] by (simp add: p(4) wf_filters_def filters_blocks_def)
  then show "wf_filters fs" "live h' = live h + filters_blocks fs" by simp_all
qed

lemma free_all_id_filters_wf:
  assumes "wf_filters fs"
  shows "\<exists>h'. free_all_id_filters a fs h = Some h' \<and> live h' = live h - filters_blocks fs"
proof -
  have wf: "wf_id_filter (device_id_filter fs)" "wf_id_filter (vendor_id_filter fs)" "wf_id_filter (driver_id_filter fs)" using assms by (simp_all add: wf_filters_def)
  obtain h1 where 1: "free_id_filters a (device_id_filter fs) h = Some h1" "live h1 = live h - blocks (idf_filters (device_id_filter fs))"
    using free_id_filters_wf [OF wf(1)] by blast
  obtain h2 where 2: "free_id_filters a (vendor_id_filter fs) h1 = Some h2" "live h2 = live h1 - blocks (idf_filters (vendor_id_filter fs))"
    using free_id_filters_wf [OF wf(2)] by blast
  obtain h3 where "free_id_filters a (driver_id_filter fs) h2 = Some h3" "live h3 = live h2 - blocks (idf_filters (driver_id_filter fs))"
    using free_id_filters_wf [OF wf(3)] by blast
  with 1 2 show ?thesis by (simp add: free_all_id_filters_def filters_blocks_def)
qed

text \<open>The meaning of a filter: unset, or the identifier is in one of the ranges.\<close>

definition id_allowed :: "loader_envvar_id_filter \<Rightarrow> nat \<Rightarrow> bool" where
  "id_allowed f ident \<longleftrightarrow> idf_count f = 0 \<or>
     (case idf_filters f of Buf xs \<Rightarrow> \<exists>v\<in>set (take (idf_count f) xs). id_begin v \<le> ident \<and> ident \<le> id_end v | _ \<Rightarrow> False)"

lemma check_id_wf: "wf_id_filter f \<Longrightarrow> idf_count f \<noteq> 0 \<Longrightarrow> check_id_matches_filter_environment_var ident f = Some (id_allowed f ident)"
  by (auto simp: wf_id_filter_def check_id_matches_filter_environment_var_def check_id_from_correct id_allowed_def)

lemma id_passes_wf: "wf_id_filter f \<Longrightarrow> id_passes ident f = Some (id_allowed f ident)"
  by (cases "idf_count f = 0") (simp_all add: id_passes_def check_id_wf id_allowed_def)

definition driver_id_of :: "pd_config \<Rightarrow> nat \<Rightarrow> nat \<Rightarrow> nat option" where
  "driver_id_of cf i d =
     (case (if loader_check_version_meets_required LOADER_VERSION_1_1_0 (cf_app_api_version cf) then cf_driver_ids cf i else None) of
        Some get \<Rightarrow> Some (get d)
      | None \<Rightarrow> if khr_get_physical_device_properties2 cf then map_option (\<lambda>get. get d) (cf_driver_ids_khr cf i) else None)"

definition filter_allows :: "pd_config \<Rightarrow> id_filters \<Rightarrow> nat \<times> nat \<Rightarrow> bool" where
  "filter_allows cf fs x \<longleftrightarrow> (case x of (i, d) \<Rightarrow>
     id_allowed (device_id_filter fs) (unat (pd_deviceID (GetPhysicalDeviceProperties (cf_drivers cf i) d))) \<and>
     id_allowed (vendor_id_filter fs) (unat (pd_vendorID (GetPhysicalDeviceProperties (cf_drivers cf i) d))) \<and>
     (idf_count (driver_id_filter fs) = 0 \<or> (case driver_id_of cf i d of Some n \<Rightarrow> id_allowed (driver_id_filter fs) n | None \<Rightarrow> False)))"

lemma filter_allows_none: "no_id_filters fs \<Longrightarrow> filter_allows cf fs x"
  by (cases x) (simp add: filter_allows_def no_id_filters_def id_allowed_def)

lemma device_passes_wf:
  assumes wf: "wf_filters fs" and t: "term_of (objects st p) = Some t"
  shows "device_passes cf (terminator_GetPhysicalDeviceProperties cf) fs st p = Some (filter_allows cf fs (this_icd_term t, phys_dev t))"
proof -
  have driver: "get_device_driver_id cf st p =
      Some (case driver_id_of cf (this_icd_term t) (phys_dev t) of None \<Rightarrow> (VK_ERROR_UNKNOWN, 0) | Some n \<Rightarrow> (VK_SUCCESS, n))"
    using t by (auto simp: get_device_driver_id_def driver_id_of_def Let_def Option.is_none_def split: option.splits)
  have f: "wf_id_filter (device_id_filter fs)" "wf_id_filter (vendor_id_filter fs)" "wf_id_filter (driver_id_filter fs)" using wf by (simp_all add: wf_filters_def)
  show ?thesis
    using t driver check_id_wf [OF f(3)]
    by (auto simp: device_passes_def terminator_GetPhysicalDeviceProperties_def id_passes_wf [OF f(1)] id_passes_wf [OF f(2)]
        filter_allows_def split: option.splits)
qed

lemma filter_devices_correct:
  "\<forall>d\<in>set ds. passes d = Some (P d) \<Longrightarrow> (\<And>cells. out = Some cells \<Longrightarrow> out_count \<le> length cells) \<Longrightarrow>
   filter_devices passes out_count ds n out = Some (n + length (filter P ds),
     map_option (\<lambda>cells. take n cells @ take (out_count - n) (filter P ds) @ drop (n + min (length (filter P ds)) (out_count - n)) cells) out)"
proof (induction ds arbitrary: n out)
  case Nil
  then show ?case by (cases out) auto
next
  case (Cons d ds)
  show ?case
  proof (cases "P d")
    case False
    with Cons show ?thesis by simp
  next
    case True
    show ?thesis
    proof (cases out)
      case None
      with True Cons.prems(1) Cons.IH [of None "Suc n"] show ?thesis by simp
    next
      case (Some cells)
      then have le: "out_count \<le> length cells" using Cons.prems(2) by blast
      show ?thesis
      proof (cases "n < out_count")
        case False
        with True Cons.prems(1) Cons.IH [of "Some cells" "Suc n"] Some le show ?thesis by simp
      next
        case lt: True
        then obtain k where k: "out_count - n = Suc k" "out_count - Suc n = k" by (metis Suc_diff_Suc)
        have n: "n < length cells" using lt le by simp
        then have "take (Suc n) (cells[n := d]) = take n cells @ [d]" by (simp add: take_Suc_conv_app_nth)
        with True lt n Cons.prems(1) Cons.IH [of "Some (cells[n := d])" "n + 1"] Some le k show ?thesis
          by (simp add: drop_update_cancel)
      qed
    qed
  qed
qed

lemma loader_filter_correct:
  fixes fs :: id_filters and cf :: pd_config and st :: pd_instance and ds :: "nat list"
  assumes wf: "wf_filters fs" and ds: "\<forall>p\<in>set ds. term_of (objects st p) \<noteq> None" and out: "\<And>cells. out = Some cells \<Longrightarrow> cnt \<le> length cells"
  defines "F \<equiv> filter (\<lambda>p. filter_allows cf fs (this_icd_term (the (term_of (objects st p))), tdev (objects st) p)) ds"
  shows "loader_filter_enumerated_physical_devices cf (terminator_GetPhysicalDeviceProperties cf) fs st ds cnt out =
     Some (if out \<noteq> None \<and> cnt < length F then VK_INCOMPLETE else VK_SUCCESS, if out = None then length F else min cnt (length F),
       map_option (\<lambda>cells. take (min cnt (length F)) F @ drop (min cnt (length F)) cells) out)"
proof -
  have "\<forall>p\<in>set ds. device_passes cf (terminator_GetPhysicalDeviceProperties cf) fs st p =
      Some (filter_allows cf fs (this_icd_term (the (term_of (objects st p))), tdev (objects st) p))"
    using ds device_passes_wf [OF wf] by force
  from filter_devices_correct [OF this, of out cnt 0] out show ?thesis
    unfolding loader_filter_enumerated_physical_devices_def F_def [symmetric] by (cases out) (auto simp: min_def Let_def)
qed

section \<open>The enumeration\<close>

text \<open>Drivers report every device once, and a device belongs to one driver.\<close>

definition report_ok :: "(nat \<Rightarrow> nat) \<Rightarrow> (nat \<times> nat) list \<Rightarrow> bool" where
  "report_ok owner devices \<longleftrightarrow> distinct (map snd devices) \<and> (\<forall>(i, d)\<in>set devices. i = owner d) \<and> length devices < 2 ^ 32"

lemma devices_of_cong: "map fst terms' = map fst terms \<Longrightarrow> devices_of enums terms' = devices_of enums terms"
proof -
  have "devices_of enums ts = concat (map (\<lambda>i. map (Pair i) (reported (enums i))) (map fst ts))" for ts
    by (simp add: devices_of_def comp_def case_prod_beta')
  then show "map fst terms' = map fst terms \<Longrightarrow> devices_of enums terms' = devices_of enums terms" by metis
qed

lemma terminator_spec:
  assumes ok: "pd_ok owner st xs ys" and qs: "qsort_contract (cf_qsort cf)" and rep: "report_ok owner (devices_of enums (icd_terms st))"
    and out: "\<And>cells. out = Some cells \<Longrightarrow> cnt \<le> length cells"
  shows "\<exists>r st' xs'. term_outcome cf owner (devices_of enums (icd_terms st)) st xs r st' xs' \<and>
     terminator_EnumeratePhysicalDevices cf enums cnt out st =
       Some (if r \<noteq> VK_SUCCESS then (r, cnt, out, st')
             else (if out \<noteq> None \<and> cnt < length xs' then VK_INCOMPLETE else VK_SUCCESS, if out = None then length xs' else min cnt (length xs'),
                   map_option (\<lambda>cells. take (min cnt (length xs')) xs' @ drop (min cnt (length xs')) cells) out, st'))"
proof -
  have t: "term_ok owner st xs" "distinct (map fst (icd_terms st))" using ok by (simp_all add: pd_ok_def)
  from setup_term_spec [OF t(1) qs _ _ _ t(2), of enums] rep obtain r st' xs' where
    s: "setup_loader_term_phys_devs cf enums st = Some (r, st')" "term_outcome cf owner (devices_of enums (icd_terms st)) st xs r st' xs'"
    by (auto simp: report_ok_def)
  have "term_ok owner st' xs'" using s(2) by (simp add: term_outcome_def)
  note f = term_ok_facts(1,2) [OF this]
  have pre: "array_prefix (phys_devs_term st') k = Some (take k xs')" if "k \<le> length xs'" for k
    using f(1) that by (auto simp: array_prefix_def min_def split: buf.splits if_splits) (metis min.absorb1 take_take)
  have "terminator_EnumeratePhysicalDevices cf enums cnt out st =
       Some (if r \<noteq> VK_SUCCESS then (r, cnt, out, st')
             else (if out \<noteq> None \<and> cnt < length xs' then VK_INCOMPLETE else VK_SUCCESS, if out = None then length xs' else min cnt (length xs'),
                   map_option (\<lambda>cells. take (min cnt (length xs')) xs' @ drop (min cnt (length xs')) cells) out, st'))"
    using s(1) f(2) out pre by (cases out) (auto simp: terminator_EnumeratePhysicalDevices_def Let_def min_def)
  with s(2) show ?thesis by blast
qed

text \<open>The devices of the chain after the filters.  \<open>first\<close> is the number of devices the first of the two calls of a filtered enumeration found: when the second finds more, its \<open>VK_INCOMPLETE\<close>
  is passed on, with nothing written.\<close>

abbreviation allowed_terms :: "pd_config \<Rightarrow> id_filters \<Rightarrow> (nat \<Rightarrow> nat) \<Rightarrow> pd_instance \<Rightarrow> nat list \<Rightarrow> nat list" where
  "allowed_terms cf fs owner st xs \<equiv> filter (\<lambda>p. filter_allows cf fs (owner (tdev (objects st) p), tdev (objects st) p)) xs"

definition chain_outcome ::
  "pd_config \<Rightarrow> id_filters \<Rightarrow> (nat \<Rightarrow> nat) \<Rightarrow> nat \<Rightarrow> (nat \<times> nat) list \<Rightarrow> nat \<Rightarrow> nat list option \<Rightarrow> VkResult \<Rightarrow> nat \<Rightarrow> nat list option \<Rightarrow>
     pd_instance \<Rightarrow> nat list \<Rightarrow> bool \<Rightarrow> bool" where
  "chain_outcome cf fs owner first devices cnt out r cnt' out' st' xs' wrap \<longleftrightarrow>
     (let F = allowed_terms cf fs owner st' xs' in
      if wrap \<and> (r = VK_SUCCESS \<or> r = VK_INCOMPLETE)
      then r = (if out \<noteq> None \<and> cnt < length F then VK_INCOMPLETE else VK_SUCCESS) \<and> cnt' = (if out = None then length F else min cnt (length F)) \<and>
        out' = map_option (\<lambda>cells. take (min cnt (length F)) F @ drop (min cnt (length F)) cells) out \<and>
        device_order cf devices (map (tdev (objects st')) xs')
      else r \<noteq> VK_SUCCESS \<and> (r = VK_INCOMPLETE \<longrightarrow> \<not> no_id_filters fs \<and> first < length devices) \<and> cnt' = cnt \<and> out' = out)"

lemma term_outcome_length: "term_outcome cf owner D st xs VK_SUCCESS st' xs' \<Longrightarrow> length xs' = length D"
  by (simp add: term_outcome_def) (metis size_image_mset size_mset)

lemma chain_outcome_success:
  assumes "allowed_terms cf fs owner st' xs' = F" and "device_order cf devices (map (tdev (objects st')) xs')"
  shows "chain_outcome cf fs owner first devices cnt out (if out \<noteq> None \<and> cnt < length F then VK_INCOMPLETE else VK_SUCCESS)
     (if out = None then length F else min cnt (length F)) (map_option (\<lambda>cells. take (min cnt (length F)) F @ drop (min cnt (length F)) cells) out) st' xs' True"
  using assms by (simp add: chain_outcome_def Let_def)

lemma chain_outcome_failure:
  "r \<noteq> VK_SUCCESS \<Longrightarrow> wrap \<longrightarrow> r \<noteq> VK_INCOMPLETE \<Longrightarrow> r = VK_INCOMPLETE \<longrightarrow> \<not> no_id_filters fs \<and> first < length devices \<Longrightarrow> chain_outcome cf fs owner first devices cnt out r cnt out st' xs' wrap"
  by (auto simp: chain_outcome_def Let_def)

lemma enumerate_filtered_spec:
  assumes ok: "pd_ok owner st xs ys" and qs: "qsort_contract (cf_qsort cf)" and wf: "wf_filters fs"
    and rep: "report_ok owner (devices_of enums1 (icd_terms st))" "report_ok owner (devices_of enums2 (icd_terms st))"
    and out: "\<And>cells. out = Some cells \<Longrightarrow> cnt \<le> length cells"
  defines "D1 \<equiv> devices_of enums1 (icd_terms st)" and "D2 \<equiv> devices_of enums2 (icd_terms st)"
  shows "\<exists>r cnt' out' st' xs' wrap.
     enumerate_filtered cf (terminator_EnumeratePhysicalDevices cf enums1) (terminator_EnumeratePhysicalDevices cf enums2)
       (terminator_GetPhysicalDeviceProperties cf) fs cnt out st = Some (r, cnt', out', st', wrap) \<and>
     pd_ok owner st' xs' ys \<and> pd_balance st' xs' ys = pd_balance st xs ys \<and>
     chain_outcome cf fs owner (length D1) (if no_id_filters fs then D1 else D2) cnt out r cnt' out' st' xs' wrap \<and>
     (\<forall>h i d. device_of_handle st h = Some (i, d) \<longrightarrow> d \<in> snd ` set D1 \<longrightarrow> (\<not> no_id_filters fs \<longrightarrow> d \<in> snd ` set D2) \<longrightarrow>
        device_of_handle st' h = Some (i, d))"
proof (cases "no_id_filters fs")
  case True
  from terminator_spec [OF ok qs rep(1) out] obtain r st' xs' where o: "term_outcome cf owner D1 st xs r st' xs'"
    and run: "terminator_EnumeratePhysicalDevices cf enums1 cnt out st =
       Some (if r \<noteq> VK_SUCCESS then (r, cnt, out, st')
             else (if out \<noteq> None \<and> cnt < length xs' then VK_INCOMPLETE else VK_SUCCESS, if out = None then length xs' else min cnt (length xs'),
                   map_option (\<lambda>cells. take (min cnt (length xs')) xs' @ drop (min cnt (length xs')) cells) out, st'))" unfolding D1_def by metis
  note st = term_stage [OF ok o]
  have F: "allowed_terms cf fs owner st' xs' = xs'" using filter_allows_none [OF True] by (simp add: filter_id_conv)
  have keep: "\<forall>h i d. device_of_handle st h = Some (i, d) \<longrightarrow> d \<in> snd ` set D1 \<longrightarrow> device_of_handle st' h = Some (i, d)"
    using term_stage_keeps [OF ok o] by blast
  show ?thesis
  proof (cases "r = VK_SUCCESS")
    case r: True
    with o have "device_order cf D1 (map (tdev (objects st')) xs')" by (simp add: term_outcome_def)
    note c = chain_outcome_success [OF F this, of "length D1" cnt out]
    show ?thesis
      by (intro exI conjI, unfold enumerate_filtered_def run, simp add: True r, rule st(1), rule st(2)) (use c True keep in simp_all)
  next
    case False
    with o have "r \<noteq> VK_INCOMPLETE" by (auto simp: term_outcome_def)
    with False have "chain_outcome cf fs owner (length D1) D1 cnt out r cnt out st' xs' True" by (intro chain_outcome_failure) simp_all
    with True False run st keep show ?thesis by (intro exI conjI) (auto simp: enumerate_filtered_def)
  qed
next
  case False
  from terminator_spec [OF ok qs rep(1), of None 0] obtain r1 st1 xs1 where o1: "term_outcome cf owner D1 st xs r1 st1 xs1"
    and run1: "terminator_EnumeratePhysicalDevices cf enums1 0 None st = Some (if r1 \<noteq> VK_SUCCESS then (r1, 0, None, st1) else (VK_SUCCESS, length xs1, None, st1))"
    unfolding D1_def by auto
  note st1 = term_stage [OF ok o1] and keep1 = term_stage_keeps [OF ok o1]
  show ?thesis
  proof (cases "r1 = VK_SUCCESS")
    case r1: False
    with run1 False have "enumerate_filtered cf (terminator_EnumeratePhysicalDevices cf enums1) (terminator_EnumeratePhysicalDevices cf enums2)
       (terminator_GetPhysicalDeviceProperties cf) fs cnt out st = Some (r1, cnt, out, st1, False)" by (simp add: enumerate_filtered_def)
    moreover have "r1 \<noteq> VK_INCOMPLETE" using o1 r1 by (auto simp: term_outcome_def)
    moreover from this have "chain_outcome cf fs owner (length D1) D2 cnt out r1 cnt out st1 xs1 False" using r1 False by (intro chain_outcome_failure) simp_all
    ultimately show ?thesis using st1 keep1 r1 False by (intro exI [of _ r1] exI [of _ cnt] exI [of _ out] exI [of _ st1] exI [of _ xs1] exI [of _ False]) simp
  next
    case r1: True
    have icds: "map fst (icd_terms st1) = map fst (icd_terms st)" using o1 by (simp add: term_outcome_def)
    have D2: "devices_of enums2 (icd_terms st1) = D2" unfolding D2_def by (rule devices_of_cong [OF icds])
    from terminator_spec [OF st1(1) qs, of enums2 "Some (replicate (length xs1) 0)" "length xs1"] rep(2) obtain r2 st2 xs2 where
      o2: "term_outcome cf owner D2 st1 xs1 r2 st2 xs2"
      and run2: "terminator_EnumeratePhysicalDevices cf enums2 (length xs1) (Some (replicate (length xs1) 0)) st1 =
        Some (if r2 \<noteq> VK_SUCCESS then (r2, length xs1, Some (replicate (length xs1) 0), st2)
          else (if length xs1 < length xs2 then VK_INCOMPLETE else VK_SUCCESS, min (length xs1) (length xs2),
             Some (take (min (length xs1) (length xs2)) xs2 @ drop (min (length xs1) (length xs2)) (replicate (length xs1) 0)), st2))"
      unfolding D2 by (auto simp: D2_def)
    note st2 = term_stage [OF st1(1) o2] and keep2 = term_stage_keeps [OF st1(1) o2]
    have keep: "\<forall>h i d. device_of_handle st h = Some (i, d) \<longrightarrow> d \<in> snd ` set D1 \<longrightarrow> d \<in> snd ` set D2 \<longrightarrow> device_of_handle st2 h = Some (i, d)"
      using keep1 keep2 by blast
    show ?thesis
    proof (cases "r2 = VK_SUCCESS \<and> \<not> length xs1 < length xs2")
      case bad: False
      have "length D2 = length xs2" if "r2 = VK_SUCCESS" using term_outcome_length o2 that by metis
      moreover have "length D1 = length xs1" using term_outcome_length o1 r1 by metis
      moreover have "r2 \<noteq> VK_INCOMPLETE" using o2 by (auto simp: term_outcome_def)
      ultimately obtain r where r: "r \<noteq> VK_SUCCESS" "r = VK_INCOMPLETE \<longrightarrow> length D1 < length D2"
        "enumerate_filtered cf (terminator_EnumeratePhysicalDevices cf enums1) (terminator_EnumeratePhysicalDevices cf enums2)
          (terminator_GetPhysicalDeviceProperties cf) fs cnt out st = Some (r, cnt, out, st2, False)"
        using bad run1 run2 r1 False by (cases "r2 = VK_SUCCESS") (auto simp: enumerate_filtered_def)
      moreover have "chain_outcome cf fs owner (length D1) D2 cnt out r cnt out st2 xs2 False" using False r(1,2) by (intro chain_outcome_failure) simp_all
      ultimately show ?thesis using r st1 st2 keep False by (intro exI [of _ r] exI [of _ cnt] exI [of _ out] exI [of _ st2] exI [of _ xs2] exI [of _ False]) simp
    next
      case good: True
      then have m: "min (length xs1) (length xs2) = length xs2" by simp
      have own: "this_icd_term (the (term_of (objects st2 p))) = owner (tdev (objects st2) p)" if "p \<in> set xs2" for p
      proof -
        have "p \<in> {p. term_of (objects st2 p) \<noteq> None}" using st2(1) that unfolding pd_ok_def term_ok_def by blast
        then obtain t where "term_of (objects st2 p) = Some t" by auto
        with st2(1) show ?thesis unfolding pd_ok_def term_ok_def by auto
      qed
      have F: "filter (\<lambda>p. filter_allows cf fs (this_icd_term (the (term_of (objects st2 p))), tdev (objects st2) p)) xs2 = allowed_terms cf fs owner st2 xs2"
        using own by (intro filter_cong) simp_all
      have "\<forall>p\<in>set xs2. term_of (objects st2 p) \<noteq> None" using st2(1) unfolding pd_ok_def term_ok_def by blast
      note fil = loader_filter_correct [OF wf this out, where cf = cf, unfolded F]
      have "device_order cf D2 (map (tdev (objects st2)) xs2)" using o2 good by (simp add: term_outcome_def)
      from chain_outcome_success [OF refl this, of fs owner "length D1" cnt out] fil obtain r cnt' out' where
        c: "chain_outcome cf fs owner (length D1) D2 cnt out r cnt' out' st2 xs2 True"
        and l: "loader_filter_enumerated_physical_devices cf (terminator_GetPhysicalDeviceProperties cf) fs st2 xs2 cnt out = Some (r, cnt', out')" by blast
      have "enumerate_filtered cf (terminator_EnumeratePhysicalDevices cf enums1) (terminator_EnumeratePhysicalDevices cf enums2)
          (terminator_GetPhysicalDeviceProperties cf) fs cnt out st = do {
            (res, cnt, out) \<leftarrow> loader_filter_enumerated_physical_devices cf (terminator_GetPhysicalDeviceProperties cf) fs st2 xs2 cnt out;
            Some (res, cnt, out, st2, True)
          }"
        using run1 run2 r1 False good m by (simp add: enumerate_filtered_def)
      also have "\<dots> = Some (r, cnt', out', st2, True)" by (simp add: l)
      finally show ?thesis using c st1 st2 keep False
        by (intro exI [of _ r] exI [of _ cnt'] exI [of _ out'] exI [of _ st2] exI [of _ xs2] exI [of _ True]) simp
    qed
  qed
qed

text \<open>The array of the application after a call: handles of the devices \<open>F\<close>, as far as there is room; who had a handle sees it again.\<close>

definition handles_given :: "(nat \<Rightarrow> nat) \<Rightarrow> pd_instance \<Rightarrow> nat list \<Rightarrow> pd_instance \<Rightarrow> nat list \<Rightarrow> bool" where
  "handles_given owner st F st' hs \<longleftrightarrow> map (device_of_handle st') hs = map (\<lambda>d. Some (owner d, d)) F \<and>
     (\<forall>h i d. device_of_handle st h = Some (i, d) \<and> d \<in> set F \<longrightarrow> device_of_handle st' h = Some (i, d) \<and> h \<in> set hs)"

lemma filter_devices_map:
  "map (tdev m) (filter (\<lambda>p. filter_allows cf fs (owner (tdev m p), tdev m p)) xs) = filter (\<lambda>d. filter_allows cf fs (owner d, d)) (map (tdev m) xs)"
  by (simp add: filter_map comp_def)

lemma tramp_stage_handles:
  assumes ok: "pd_ok owner st xs ys" and ps: "set ps \<subseteq> set xs" "distinct ps" and n: "length ps \<le> length cells" "take (length ps) cells = ps"
  shows "\<exists>r out st' ys'. setup_loader_tramp_phys_devs a disp (length ps) cells st = Some (r, out, st') \<and> pd_ok owner st' xs ys' \<and>
     pd_balance st' xs ys' = pd_balance st xs ys \<and> icd_terms st' = icd_terms st \<and>
     (r = VK_SUCCESS \<and> handles_given owner st (map (tdev (objects st)) ps) st' (take (length ps) out) \<or>
      r = VK_ERROR_OUT_OF_HOST_MEMORY \<and> (\<forall>h x. device_of_handle st h = Some x \<longrightarrow> device_of_handle st' h = Some x))"
proof -
  have t: "tramp_ok st ys" using ok by (simp add: pd_ok_def)
  from setup_tramp_spec [OF t _ n(1), of a disp] ps(2) n(2) obtain r out st' ys' where
    run: "setup_loader_tramp_phys_devs a disp (length ps) cells st = Some (r, out, st')" and o: "tramp_outcome ps st ys r out st' ys'" by auto
  note stage = tramp_stage [OF ok run o] and keeps = tramp_stage_keeps [OF ok run o]
  have tm: "term_of (objects st' p) = term_of (objects st p)" for p using o by (simp add: tramp_outcome_def terms_kept_def)
  show ?thesis
  proof (cases "r = VK_SUCCESS")
    case False
    with o have "r = VK_ERROR_OUT_OF_HOST_MEMORY" by (simp add: tramp_outcome_def)
    with run stage setup_tramp_icds [OF run] keeps(1) False show ?thesis by blast
  next
    case True
    let ?hs = "take (length ps) out"
    have m: "map (dev_of (objects st')) ?hs = ps" and sub: "set ?hs \<subseteq> set ys'" using True o by (simp_all add: tramp_outcome_def)
    have "device_of_handle st' h = Some (owner (tdev (objects st) (dev_of (objects st') h)), tdev (objects st) (dev_of (objects st') h))" if "h \<in> set ?hs" for h
    proof -
      have "dev_of (objects st') h \<in> set ps" using that arg_cong [OF m, of set] by auto
      with ps(1) that sub device_of_handle_iff [OF stage(1)] show ?thesis by (auto simp: tm)
    qed
    then have "map (device_of_handle st') ?hs = map (\<lambda>p. Some (owner (tdev (objects st) p), tdev (objects st) p)) (map (dev_of (objects st')) ?hs)" by simp
    then have "map (device_of_handle st') ?hs = map (\<lambda>d. Some (owner d, d)) (map (tdev (objects st)) ps)" unfolding m by simp
    moreover have "device_of_handle st' h = Some (i, d) \<and> h \<in> set ?hs"
      if h: "device_of_handle st h = Some (i, d)" and d: "d \<in> set (map (tdev (objects st)) ps)" for h i d
    proof -
      have hx: "dev_of (objects st) h \<in> set xs" "tdev (objects st) (dev_of (objects st) h) = d" using h device_of_handle_iff [OF ok] by auto
      have "inj_on (tdev (objects st)) (set xs)" using ok by (auto simp: pd_ok_def term_ok_def distinct_map)
      with d hx ps(1) have "dev_of (objects st) h \<in> set ps" by (auto dest!: inj_onD)
      with keeps [OF h] True show ?thesis by blast
    qed
    ultimately have "handles_given owner st (map (tdev (objects st)) ps) st' ?hs" unfolding handles_given_def by blast
    with run stage setup_tramp_icds [OF run] True show ?thesis by blast
  qed
qed

text \<open>The array after a call that may be wrapped.\<close>

lemma wrap_spec:
  assumes ok: "pd_ok owner st xs ys" and out: "out' = map_option (\<lambda>cells. take (min cnt (length F)) F @ drop (min cnt (length F)) cells) out"
    and cells: "\<And>cells. out = Some cells \<Longrightarrow> cnt \<le> length cells" and F: "F = allowed_terms cf fs owner st xs" and o: "out \<noteq> None"
  shows "\<exists>r hs st' ys'. setup_loader_tramp_phys_devs a disp (min cnt (length F)) (the out') st = Some (r, hs, st') \<and> pd_ok owner st' xs ys' \<and>
     pd_balance st' xs ys' = pd_balance st xs ys \<and> icd_terms st' = icd_terms st \<and>
     (r = VK_SUCCESS \<and> handles_given owner st (take (min cnt (length F)) (filter (\<lambda>d. filter_allows cf fs (owner d, d)) (map (tdev (objects st)) xs))) st'
          (take (min cnt (length F)) hs) \<or>
      r = VK_ERROR_OUT_OF_HOST_MEMORY \<and> (\<forall>h x. device_of_handle st h = Some x \<longrightarrow> device_of_handle st' h = Some x))"
proof -
  obtain c where c: "out = Some c" "cnt \<le> length c" using o cells by auto
  let ?ps = "take (min cnt (length F)) F"
  have len: "length ?ps = min cnt (length F)" by simp
  have sub: "set ?ps \<subseteq> set xs" unfolding F by (meson set_take_subset filter_is_subset order_trans)
  have "distinct xs" using ok by (auto simp: pd_ok_def term_ok_def distinct_map)
  then have d: "distinct ?ps" unfolding F by (intro distinct_take distinct_filter)
  have "length ?ps \<le> length (the out')" "take (length ?ps) (the out') = ?ps" using out c by simp_all
  note spec = tramp_stage_handles [OF ok sub d this, of a disp, unfolded len]
  have "map (tdev (objects st)) ?ps = take (min cnt (length F)) (filter (\<lambda>d. filter_allows cf fs (owner d, d)) (map (tdev (objects st)) xs))"
    unfolding F filter_devices_map [symmetric] by (simp only: take_map)
  with spec show ?thesis by simp
qed

lemma pd_ok_heap [simp]: "pd_ok owner (st\<lparr>pd_heap := h\<rparr>) xs ys = pd_ok owner st xs ys"
  by (simp add: pd_ok_def term_ok_def tramp_ok_def)

lemma pd_balance_heap: "pd_balance (st\<lparr>pd_heap := h\<rparr>) xs ys = pd_balance st xs ys + live h - live (pd_heap st)"
  by (simp add: pd_balance_def term_blocks_def tramp_blocks_def)

lemma device_of_handle_heap [simp]: "device_of_handle (st\<lparr>pd_heap := h\<rparr>) = device_of_handle st"
  by (simp add: fun_eq_iff device_of_handle_def loader_unwrap_physical_device_def)

lemma device_of_handle_unload [simp]: "device_of_handle (unload_drivers_without_physical_devices st) = device_of_handle st"
  by (simp add: fun_eq_iff device_of_handle_def loader_unwrap_physical_device_def unload_drivers_without_physical_devices_def)

lemma unload_stage:
  assumes "pd_ok owner st xs ys"
  shows "pd_ok owner (unload_drivers_without_physical_devices st) xs ys" and "pd_balance (unload_drivers_without_physical_devices st) xs ys = pd_balance st xs ys"
  using assms distinct_map_filter [of fst "icd_terms st"]
  by (simp_all add: unload_drivers_without_physical_devices_def pd_ok_def term_ok_def tramp_ok_def pd_balance_def term_blocks_def tramp_blocks_def)

text \<open>A listing of the devices \<open>D\<close>: those that pass the filters, in order; for each that is cut off the result is \<open>VK_INCOMPLETE\<close>; a handle
  of a device of \<open>still\<close> stays, and is listed again.\<close>

definition listing ::
  "pd_config \<Rightarrow> id_filters \<Rightarrow> (nat \<Rightarrow> nat) \<Rightarrow> (nat \<times> nat) list \<Rightarrow> nat set \<Rightarrow> nat \<Rightarrow> nat list option \<Rightarrow> pd_instance \<Rightarrow>
     VkResult \<Rightarrow> nat \<Rightarrow> nat list option \<Rightarrow> pd_instance \<Rightarrow> bool" where
  "listing cf fs owner D still cnt out st r cnt' out' st' \<longleftrightarrow>
     (\<exists>devs F. device_order cf D devs \<and> F = filter (\<lambda>d. filter_allows cf fs (owner d, d)) devs \<and>
        (r = VK_INCOMPLETE \<longleftrightarrow> out \<noteq> None \<and> cnt < length F) \<and> cnt' = (if out = None then length F else min cnt (length F)) \<and>
        (\<forall>cells. out' = Some cells \<longrightarrow> map (device_of_handle st') (take cnt' cells) = map (\<lambda>d. Some (owner d, d)) (take cnt' F) \<and>
           (\<forall>h i d. device_of_handle st h = Some (i, d) \<and> d \<in> still \<and> d \<in> set (take cnt' F) \<longrightarrow>
              device_of_handle st' h = Some (i, d) \<and> h \<in> set (take cnt' cells))))"

text \<open>The outcome of an enumeration when the drivers report \<open>D1\<close> and, if there are filters, \<open>D2\<close> when asked again: a listing, or an error, or, with filters and more devices in the second report than
  in the first, \<open>VK_INCOMPLETE\<close> with the count and the array of the application as they were.\<close>

definition enumeration_outcome ::
  "pd_config \<Rightarrow> id_filters \<Rightarrow> (nat \<Rightarrow> nat) \<Rightarrow> (nat \<times> nat) list \<Rightarrow> (nat \<times> nat) list \<Rightarrow> nat \<Rightarrow> nat list option \<Rightarrow> pd_instance \<Rightarrow>
     VkResult \<Rightarrow> nat \<Rightarrow> nat list option \<Rightarrow> pd_instance \<Rightarrow> bool" where
  "enumeration_outcome cf fs owner D1 D2 cnt out st r cnt' out' st' \<longleftrightarrow>
     (let still = {d. d \<in> snd ` set D1 \<and> (no_id_filters fs \<or> d \<in> snd ` set D2)};
          kept = (\<forall>h i d. device_of_handle st h = Some (i, d) \<and> d \<in> still \<longrightarrow> device_of_handle st' h = Some (i, d)) in
      (out = None \<longleftrightarrow> out' = None) \<and>
      (r = VK_SUCCESS \<or> r = VK_INCOMPLETE \<longrightarrow>
         listing cf fs owner (if no_id_filters fs then D1 else D2) still cnt out st r cnt' out' st' \<or>
         r = VK_INCOMPLETE \<and> \<not> no_id_filters fs \<and> length D1 < length D2 \<and> cnt' = cnt \<and> out' = out \<and> kept) \<and>
      (out = None \<or> r \<noteq> VK_SUCCESS \<and> r \<noteq> VK_INCOMPLETE \<longrightarrow> kept))"

lemma enumerate_spec:
  assumes ok: "pd_ok owner st xs ys" and qs: "qsort_contract (cf_qsort cf)"
    and rep: "report_ok owner (devices_of enums1 (icd_terms st))" "report_ok owner (devices_of enums2 (icd_terms st))"
    and fs: "parse_id_filters cf (pd_heap st) = Some (fs, h)" and out: "\<And>cells. out = Some cells \<Longrightarrow> cnt \<le> length cells"
  shows "\<exists>r cnt' out' st' xs' ys'.
     vkEnumeratePhysicalDevices cf (terminator_EnumeratePhysicalDevices cf enums1) (terminator_EnumeratePhysicalDevices cf enums2)
       (terminator_GetPhysicalDeviceProperties cf) (Some cnt) out st = Some (r, Some cnt', out', st') \<and>
     pd_ok owner st' xs' ys' \<and> pd_balance st' xs' ys' = pd_balance st xs ys \<and>
     enumeration_outcome cf fs owner (devices_of enums1 (icd_terms st)) (devices_of enums2 (icd_terms st)) cnt out st r cnt' out' st'"
proof -
  let ?D1 = "devices_of enums1 (icd_terms st)" and ?D2 = "devices_of enums2 (icd_terms st)" and ?st = "st\<lparr>pd_heap := h\<rparr>"
  let ?still = "{d. d \<in> snd ` set ?D1 \<and> (no_id_filters fs \<or> d \<in> snd ` set ?D2)}"
  note wf = parse_id_filters_wf [OF fs]
  have ok': "pd_ok owner ?st xs ys" and rep': "report_ok owner (devices_of enums1 (icd_terms ?st))" "report_ok owner (devices_of enums2 (icd_terms ?st))"
    using ok rep by simp_all
  have icds: "icd_terms ?st = icd_terms st" by simp
  from enumerate_filtered_spec [where out = out and cnt = cnt, OF ok' qs wf(1) rep' out, unfolded icds] obtain r cnt1 out1 st1 xs1 wrap where
    run: "enumerate_filtered cf (terminator_EnumeratePhysicalDevices cf enums1) (terminator_EnumeratePhysicalDevices cf enums2)
       (terminator_GetPhysicalDeviceProperties cf) fs cnt out ?st = Some (r, cnt1, out1, st1, wrap)"
    and s0: "pd_ok owner st1 xs1 ys" "pd_balance st1 xs1 ys = pd_balance ?st xs ys"
    and c: "chain_outcome cf fs owner (length ?D1) (if no_id_filters fs then ?D1 else ?D2) cnt out r cnt1 out1 st1 xs1 wrap"
    and k0: "\<forall>h i d. device_of_handle ?st h = Some (i, d) \<longrightarrow> d \<in> snd ` set ?D1 \<longrightarrow> (\<not> no_id_filters fs \<longrightarrow> d \<in> snd ` set ?D2) \<longrightarrow>
        device_of_handle st1 h = Some (i, d)" by blast
  have s1: "pd_ok owner st1 xs1 ys" "pd_balance st1 xs1 ys = pd_balance st xs ys + filters_blocks fs" using s0 wf(2) by (simp_all add: pd_balance_heap)
  have k: "device_of_handle st1 h = Some (i, d)" if "device_of_handle st h = Some (i, d)" "d \<in> ?still" for h i d
    using k0 that unfolding device_of_handle_heap mem_Collect_eq by blast
  let ?F = "allowed_terms cf fs owner st1 xs1" and ?devs = "map (tdev (objects st1)) xs1"
  let ?G = "filter (\<lambda>d. filter_allows cf fs (owner d, d)) ?devs"
  have lF: "length ?F = length ?G" using arg_cong [OF filter_devices_map [of "objects st1" cf fs owner xs1], of length] by simp
  show ?thesis
  proof (cases "wrap \<and> (r = VK_SUCCESS \<or> r = VK_INCOMPLETE) \<and> out \<noteq> None")
    case True
    with c have r: "r = (if cnt < length ?F then VK_INCOMPLETE else VK_SUCCESS)" and cnt1: "cnt1 = min cnt (length ?F)"
      and out1: "out1 = map_option (\<lambda>cells. take (min cnt (length ?F)) ?F @ drop (min cnt (length ?F)) cells) out"
      and ord: "device_order cf (if no_id_filters fs then ?D1 else ?D2) ?devs" by (simp_all add: chain_outcome_def Let_def)
    from wrap_spec [OF s1(1) out1 out refl] True obtain r2 hs st2 ys2 where
      w: "setup_loader_tramp_phys_devs (cf_allocator cf) (cf_disp cf) cnt1 (the out1) st1 = Some (r2, hs, st2)" and s2: "pd_ok owner st2 xs1 ys2"
      "pd_balance st2 xs1 ys2 = pd_balance st1 xs1 ys"
      and g: "r2 = VK_SUCCESS \<and> handles_given owner st1 (take cnt1 ?G) st2 (take cnt1 hs) \<or>
         r2 = VK_ERROR_OUT_OF_HOST_MEMORY \<and> (\<forall>h x. device_of_handle st1 h = Some x \<longrightarrow> device_of_handle st2 h = Some x)"
      unfolding cnt1 by blast
    let ?st3 = "unload_drivers_without_physical_devices st2"
    note s3 = unload_stage [OF s2(1)]
    obtain h' where fr: "free_all_id_filters (cf_allocator cf) fs (pd_heap ?st3) = Some h'" "live h' = live (pd_heap ?st3) - filters_blocks fs"
      using free_all_id_filters_wf [OF wf(1)] by blast
    let ?r = "if r2 \<noteq> VK_SUCCESS then r2 else r" and ?st4 = "?st3\<lparr>pd_heap := h'\<rparr>"
    obtain c1 where c1: "out1 = Some c1" using out1 True by auto
    have "vkEnumeratePhysicalDevices cf (terminator_EnumeratePhysicalDevices cf enums1) (terminator_EnumeratePhysicalDevices cf enums2)
       (terminator_GetPhysicalDeviceProperties cf) (Some cnt) out st = Some (?r, Some cnt1, Some hs, ?st4)"
      using fs run w True fr c1 by (simp add: vkEnumeratePhysicalDevices_def)
    moreover have "pd_ok owner ?st4 xs1 ys2" "pd_balance ?st4 xs1 ys2 = pd_balance st xs ys"
      using s1 s2 s3 fr(2) by (simp_all add: pd_balance_heap)
    moreover have "enumeration_outcome cf fs owner ?D1 ?D2 cnt out st ?r cnt1 (Some hs) ?st4"
    proof (cases "r2 = VK_SUCCESS")
      case False
      with g k True show ?thesis by (auto simp: enumeration_outcome_def Let_def)
    next
      case r2: True
      with g have hg: "handles_given owner st1 (take cnt1 ?G) st2 (take cnt1 hs)" by simp
      have "listing cf fs owner (if no_id_filters fs then ?D1 else ?D2) ?still cnt out st r cnt1 (Some hs) ?st4"
        unfolding listing_def
      proof (rule exI [of _ ?devs], rule exI [of _ ?G], intro conjI allI impI)
        fix cells assume "Some hs = Some cells"
        then have hs: "cells = hs" by simp
        show "map (device_of_handle ?st4) (take cnt1 cells) = map (\<lambda>d. Some (owner d, d)) (take cnt1 ?G)"
          using hg unfolding hs handles_given_def device_of_handle_heap device_of_handle_unload by blast
        fix h i d assume "device_of_handle st h = Some (i, d) \<and> d \<in> ?still \<and> d \<in> set (take cnt1 ?G)"
        then show "device_of_handle ?st4 h = Some (i, d)" "h \<in> set (take cnt1 cells)"
          using hg k unfolding hs handles_given_def device_of_handle_heap device_of_handle_unload by blast+
      qed (use ord r cnt1 True lF in auto)
      moreover have "r = VK_SUCCESS \<or> r = VK_INCOMPLETE" "out \<noteq> None" using True by blast+
      ultimately show ?thesis using r2 unfolding enumeration_outcome_def Let_def by auto
    qed
    ultimately show ?thesis by blast
  next
    case False
    obtain h' where fr: "free_all_id_filters (cf_allocator cf) fs (pd_heap st1) = Some h'" "live h' = live (pd_heap st1) - filters_blocks fs"
      using free_all_id_filters_wf [OF wf(1)] by blast
    have o: "out1 = None \<longleftrightarrow> out = None" using c by (auto simp: chain_outcome_def Let_def split: if_splits)
    have "vkEnumeratePhysicalDevices cf (terminator_EnumeratePhysicalDevices cf enums1) (terminator_EnumeratePhysicalDevices cf enums2)
       (terminator_GetPhysicalDeviceProperties cf) (Some cnt) out st = Some (r, Some cnt1, out1, st1\<lparr>pd_heap := h'\<rparr>)"
      using fs run fr False o by (cases out1) (auto simp: vkEnumeratePhysicalDevices_def)
    moreover have "pd_ok owner (st1\<lparr>pd_heap := h'\<rparr>) xs1 ys" "pd_balance (st1\<lparr>pd_heap := h'\<rparr>) xs1 ys = pd_balance st xs ys"
      using s1 fr(2) by (simp_all add: pd_balance_heap)
    moreover have "enumeration_outcome cf fs owner ?D1 ?D2 cnt out st r cnt1 out1 (st1\<lparr>pd_heap := h'\<rparr>)"
    proof (cases "wrap \<and> (r = VK_SUCCESS \<or> r = VK_INCOMPLETE)")
      case True
      with False have none: "out = None" by blast
      with c True have "r = VK_SUCCESS" "cnt1 = length ?G" "out1 = None" "device_order cf (if no_id_filters fs then ?D1 else ?D2) ?devs"
        by (simp_all add: chain_outcome_def Let_def lF)
      moreover from this have "listing cf fs owner (if no_id_filters fs then ?D1 else ?D2) ?still cnt out st r cnt1 out1 (st1\<lparr>pd_heap := h'\<rparr>)"
        unfolding listing_def using none by - (rule exI [of _ ?devs], rule exI [of _ ?G], simp)
      ultimately show ?thesis using none k unfolding enumeration_outcome_def Let_def by auto
    next
      case bad: False
      with c have "r \<noteq> VK_SUCCESS" "r = VK_INCOMPLETE \<longrightarrow> \<not> no_id_filters fs \<and> length ?D1 < length ?D2" "cnt1 = cnt" "out1 = out"
        by (auto simp: chain_outcome_def Let_def split: if_splits)
      with k o show ?thesis unfolding enumeration_outcome_def Let_def by auto
    qed
    ultimately show ?thesis by blast
  qed
qed

section \<open>Destruction\<close>

lemma null_duplicates_distinct: "distinct ps \<Longrightarrow> null_duplicates ps = ps"
proof (induction ps)
  case (Cons p ps)
  then have "map (\<lambda>q. if p = q then 0 else q) ps = ps" by (intro map_idI) auto
  with Cons show ?case by simp
qed simp

lemma free_all_objects:
  assumes "distinct ps" and "\<forall>p\<in>set ps. p \<noteq> 0 \<and> objects st p \<noteq> None"
  shows "free_absent [] ps st = Some (st\<lparr>objects := \<lambda>p. if p \<in> set ps then None else objects st p, pd_heap := add_live (- int (length ps)) (pd_heap st)\<rparr>)"
  using free_absent_spec [of "[]" ps st] assms by (simp cong: if_cong)

lemma destroy_spec:
  assumes ok: "pd_ok owner st xs ys"
  shows "\<exists>st1 st2. destroy_phys_devs_term a st = Some st1 \<and> destroy_phys_devs_tramp a st1 = Some st2 \<and> objects st2 = Map.empty \<and>
     live (pd_heap st2) = pd_balance st xs ys"
proof -
  have t: "term_ok owner st xs" "tramp_ok st ys" using ok by (simp_all add: pd_ok_def)
  note f = term_ok_facts [OF t(1)] and g = tramp_ok_facts [OF t(2)]
  have d: "distinct xs" "distinct ys" using t by (auto simp: term_ok_def tramp_ok_def distinct_map)
  let ?o1 = "\<lambda>p. if p \<in> set xs then None else objects st p"
  have "\<exists>st1. destroy_phys_devs_term a st = Some st1 \<and> objects st1 = ?o1 \<and> live (pd_heap st1) = live (pd_heap st) - term_blocks st xs \<and>
      phys_devs_tramp st1 = phys_devs_tramp st \<and> phys_dev_count_tramp st1 = phys_dev_count_tramp st"
  proof (cases "phys_devs_term st = NULL")
    case True
    then have "xs = []" using f(1) by (simp add: array_prefix_def split: if_splits)
    with True show ?thesis by (simp add: destroy_phys_devs_term_def term_blocks_def)
  next
    case False
    obtain cells where c: "phys_devs_term st = Buf cells" using False t(1) by (cases "phys_devs_term st") (auto simp: term_ok_def)
    have "free_absent [] (null_duplicates xs) st = Some (st\<lparr>objects := ?o1, pd_heap := add_live (- int (length xs)) (pd_heap st)\<rparr>)"
      unfolding null_duplicates_distinct [OF d(1)] using f(4,5) d(1) by (intro free_all_objects) auto
    moreover have "array_prefix (phys_devs_term st) (phys_dev_count_term st) = Some xs" using f(1,2) by simp
    ultimately show ?thesis using c by (simp add: destroy_phys_devs_term_def free_array_def term_blocks_def)
  qed
  then obtain st1 where st1: "destroy_phys_devs_term a st = Some st1" "objects st1 = ?o1" "live (pd_heap st1) = live (pd_heap st) - term_blocks st xs"
      "phys_devs_tramp st1 = phys_devs_tramp st" "phys_dev_count_tramp st1 = phys_dev_count_tramp st" by blast
  have apart: "p \<notin> set xs" if "p \<in> set ys" for p
    using f(3) [of p] g(3) [OF that] by (cases "objects st p" rule: term_of.cases) auto
  have all: "objects st p = None" if "p \<notin> set xs" "p \<notin> set ys" for p
  proof -
    have "term_of (objects st p) = None" "tramp_of (objects st p) = None" using t that unfolding term_ok_def tramp_ok_def by blast+
    then show ?thesis by (cases "objects st p" rule: term_of.cases) auto
  qed
  have "\<exists>st2. destroy_phys_devs_tramp a st1 = Some st2 \<and> objects st2 = (\<lambda>p. if p \<in> set ys then None else ?o1 p) \<and>
      live (pd_heap st2) = live (pd_heap st1) - tramp_blocks st ys"
  proof (cases "phys_devs_tramp st = NULL")
    case True
    then have "ys = []" using g(1) by (simp add: array_prefix_def split: if_splits)
    with True st1 show ?thesis by (simp add: destroy_phys_devs_tramp_def tramp_blocks_def cong: if_cong)
  next
    case False
    obtain cells where c: "phys_devs_tramp st = Buf cells" using False t(2) by (cases "phys_devs_tramp st") (auto simp: tramp_ok_def)
    have "free_absent [] ys st1 = Some (st1\<lparr>objects := \<lambda>p. if p \<in> set ys then None else objects st1 p, pd_heap := add_live (- int (length ys)) (pd_heap st1)\<rparr>)"
      using g(4,5) d(2) st1(2) apart by (intro free_all_objects) auto
    moreover have "array_prefix (phys_devs_tramp st1) (phys_dev_count_tramp st1) = Some ys" using g(1,2) st1(4,5) by simp
    ultimately show ?thesis using c st1(2,4) by (simp add: destroy_phys_devs_tramp_def free_array_def tramp_blocks_def cong: if_cong)
  qed
  then obtain st2 where st2: "destroy_phys_devs_tramp a st1 = Some st2" "objects st2 = (\<lambda>p. if p \<in> set ys then None else ?o1 p)"
      "live (pd_heap st2) = live (pd_heap st1) - tramp_blocks st ys" by blast
  moreover have "objects st2 = Map.empty" unfolding st2(2) using all by auto
  ultimately show ?thesis using st1 by (auto simp: pd_balance_def)
qed

section \<open>Histories\<close>

lemma device_order_set:
  assumes "device_order cf D devs"
  shows "set devs = snd ` set D"
proof (cases "is_linux_sort_enabled cf")
  case False
  with assms show ?thesis by (simp add: device_order_def)
next
  case True
  let ?infos = "map (device_info (cf_drivers cf) (loader_check_version_meets_required LOADER_VERSION_1_1_0 (cf_app_api_version cf))) D"
  from True assms obtain ds where ds: "devs = map physical_device ds" "mset ds = mset (linux_env_var_default_device (cf_process cf) ?infos)"
    by (auto simp: device_order_def)
  have "set devs = physical_device ` set (linux_env_var_default_device (cf_process cf) ?infos)" using ds by (metis set_map set_mset_mset)
  also have "\<dots> = set (map physical_device (linux_env_var_default_device (cf_process cf) ?infos))" by simp
  also have "map physical_device (linux_env_var_default_device (cf_process cf) ?infos) = map snd D"
    using arg_cong [OF env_default_same [of "cf_process cf" ?infos], of "map snd"] by (simp add: comp_def)
  finally show ?thesis by simp
qed

text \<open>Enumerations in any order, with any reports of the drivers.  The devices of \<open>keep\<close> are reported each time, pass the filters and are not cut off.\<close>

inductive device_run :: "pd_config \<Rightarrow> (nat \<Rightarrow> nat) \<Rightarrow> nat set \<Rightarrow> pd_instance \<Rightarrow> pd_instance \<Rightarrow> bool"
  for cf owner keep st where
  start: "device_run cf owner keep st st"
| enumerate: "device_run cf owner keep st st1 \<Longrightarrow>
    report_ok owner (devices_of enums1 (icd_terms st1)) \<Longrightarrow> report_ok owner (devices_of enums2 (icd_terms st1)) \<Longrightarrow>
    parse_id_filters cf (pd_heap st1) = Some (fs, h) \<Longrightarrow> (\<forall>cells. out = Some cells \<longrightarrow> cnt \<le> length cells) \<Longrightarrow>
    vkEnumeratePhysicalDevices cf (terminator_EnumeratePhysicalDevices cf enums1) (terminator_EnumeratePhysicalDevices cf enums2)
      (terminator_GetPhysicalDeviceProperties cf) (Some cnt) out st1 = Some (r, c, out', st2) \<Longrightarrow>
    (\<forall>d\<in>keep. d \<in> snd ` set (devices_of enums1 (icd_terms st1)) \<and> (no_id_filters fs \<or> d \<in> snd ` set (devices_of enums2 (icd_terms st1))) \<and>
       filter_allows cf fs (owner d, d)) \<Longrightarrow> keep = {} \<or> r \<noteq> VK_INCOMPLETE \<Longrightarrow> device_run cf owner keep st st2"

lemma outcome_keeps:
  assumes o: "enumeration_outcome cf fs owner D1 D2 cnt out st r cnt' out' st'" and d: "d \<in> snd ` set D1" "no_id_filters fs \<or> d \<in> snd ` set D2"
    "filter_allows cf fs (owner d, d)" and r: "r \<noteq> VK_INCOMPLETE" and h: "device_of_handle st h = Some (i, d)"
  shows "device_of_handle st' h = Some (i, d)"
proof (cases "r = VK_SUCCESS \<and> out \<noteq> None")
  case False
  with o d r h show ?thesis unfolding enumeration_outcome_def Let_def by blast
next
  case True
  let ?still = "{d. d \<in> snd ` set D1 \<and> (no_id_filters fs \<or> d \<in> snd ` set D2)}"
  from True o obtain cells where cells: "out' = Some cells" unfolding enumeration_outcome_def Let_def by blast
  from True o have "listing cf fs owner (if no_id_filters fs then D1 else D2) ?still cnt out st r cnt' out' st'"
    unfolding enumeration_outcome_def Let_def by blast
  then obtain devs F where l: "device_order cf (if no_id_filters fs then D1 else D2) devs" "F = filter (\<lambda>d. filter_allows cf fs (owner d, d)) devs"
    "r = VK_INCOMPLETE \<longleftrightarrow> out \<noteq> None \<and> cnt < length F" "cnt' = (if out = None then length F else min cnt (length F))"
    "\<forall>cells. out' = Some cells \<longrightarrow> map (device_of_handle st') (take cnt' cells) = map (\<lambda>d. Some (owner d, d)) (take cnt' F) \<and>
       (\<forall>h i d. device_of_handle st h = Some (i, d) \<and> d \<in> ?still \<and> d \<in> set (take cnt' F) \<longrightarrow> device_of_handle st' h = Some (i, d) \<and> h \<in> set (take cnt' cells))"
    unfolding listing_def by (elim exE conjE) (rule that)
  have "d \<in> set devs" using device_order_set [OF l(1)] d(1,2) by (cases "no_id_filters fs") auto
  then have "d \<in> set F" using d(3) l(2) by simp
  moreover have "take cnt' F = F" using l(3,4) True r by simp
  ultimately have "device_of_handle st h = Some (i, d) \<and> d \<in> ?still \<and> d \<in> set (take cnt' F)" using d h by simp
  with l(5) [rule_format, OF cells, THEN conjunct2] show ?thesis by (elim allE [of _ h] allE [of _ i] allE [of _ d]) (drule mp, assumption, rule conjunct1)
qed

lemma run_keeps:
  assumes "device_run cf owner keep st st'" and "pd_ok owner st xs ys" and "qsort_contract (cf_qsort cf)"
  shows "\<exists>xs' ys'. pd_ok owner st' xs' ys' \<and> pd_balance st' xs' ys' = pd_balance st xs ys \<and>
     (\<forall>h i d. device_of_handle st h = Some (i, d) \<and> d \<in> keep \<longrightarrow> device_of_handle st' h = Some (i, d))"
  using assms(1)
proof induction
  case start
  show ?case using assms(2) by blast
next
  case (enumerate st1 enums1 enums2 fs h out cnt r c out' st2)
  then obtain xs1 ys1 where ok: "pd_ok owner st1 xs1 ys1" "pd_balance st1 xs1 ys1 = pd_balance st xs ys"
    "\<forall>h i d. device_of_handle st h = Some (i, d) \<and> d \<in> keep \<longrightarrow> device_of_handle st1 h = Some (i, d)" by blast
  from enumerate_spec [where out = out and cnt = cnt, OF ok(1) assms(3) enumerate(2,3,4) enumerate(5) [rule_format]] obtain r0 cnt' out0 st0 xs' ys' where
    run: "vkEnumeratePhysicalDevices cf (terminator_EnumeratePhysicalDevices cf enums1) (terminator_EnumeratePhysicalDevices cf enums2)
      (terminator_GetPhysicalDeviceProperties cf) (Some cnt) out st1 = Some (r0, Some cnt', out0, st0)" and s0: "pd_ok owner st0 xs' ys'"
      "pd_balance st0 xs' ys' = pd_balance st1 xs1 ys1"
      "enumeration_outcome cf fs owner (devices_of enums1 (icd_terms st1)) (devices_of enums2 (icd_terms st1)) cnt out st1 r0 cnt' out0 st0" by blast
  have "r0 = r" "out0 = out'" "st0 = st2" using run enumerate(6) by simp_all
  with s0 have
    s: "pd_ok owner st2 xs' ys'" "pd_balance st2 xs' ys' = pd_balance st1 xs1 ys1"
    "enumeration_outcome cf fs owner (devices_of enums1 (icd_terms st1)) (devices_of enums2 (icd_terms st1)) cnt out st1 r cnt' out' st2" by blast+
  have "device_of_handle st2 h = Some (i, d)" if "device_of_handle st h = Some (i, d)" "d \<in> keep" for h i d
  proof (rule outcome_keeps [OF s(3)])
    show "device_of_handle st1 h = Some (i, d)" using ok(3) that by blast
    show "r \<noteq> VK_INCOMPLETE" using enumerate(8) that(2) by blast
  qed (use enumerate(7) that(2) in blast)+
  moreover have "pd_balance st2 xs' ys' = pd_balance st xs ys" using s(2) ok(2) by simp
  ultimately show ?case using s(1) by - (rule exI [of _ xs'], rule exI [of _ ys'], blast)
qed

section \<open>Properties\<close>

definition fresh_devices :: "nat list \<Rightarrow> heap \<Rightarrow> pd_instance" where
  "fresh_devices drivers h = \<lparr>objects = Map.empty, next_object = 1, pd_heap = h, phys_devs_term = NULL, phys_dev_count_term = 0,
     phys_devs_tramp = NULL, phys_dev_count_tramp = 0, total_gpu_count = 0, icd_terms = map (\<lambda>i. (i, 0)) drivers\<rparr>"

lemma fresh_devices_ok:
  assumes "distinct drivers"
  shows "pd_ok owner (fresh_devices drivers h) [] []" and "pd_balance (fresh_devices drivers h) [] [] = live h"
  using assms by (simp_all add: fresh_devices_def pd_ok_def term_ok_def tramp_ok_def all_magic_def array_prefix_def pd_balance_def
      term_blocks_def tramp_blocks_def comp_def)

text \<open>C2: The physical devices an application sees, with no layers between and no device configurations of a settings file.  Let both reports of the drivers name each device once and for one driver, let the variables with the identifier filters be parsed (memory for
  their arrays is found, without which the parser writes through a null pointer), and let the application's array have as many cells as it says.  Then \<^verbatim>\<open>vkEnumeratePhysicalDevices\<close> returns, keeps
  the objects of the instance consistent and balances its memory.  On \<open>VK_SUCCESS\<close> the handles lead, through a trampoline and a terminator object with the right magic number, to exactly the
  reported devices that pass the filters, in the order of the drivers or the sorted order, and a device that had a handle before has the same one now.  \<open>VK_INCOMPLETE\<close> comes with such a listing cut
  to the size of the array, and then some device did not fit; or, only with filters and only when the drivers report more devices the second time they are asked than the first, with the count
  and the array of the application untouched.  In this last case, when the call fails, and when it only asks for the count, every handle of a device that is still reported stays.\<close>

theorem physical_device_enumeration:
  assumes "pd_ok owner st xs ys" and "qsort_contract (cf_qsort cf)"
    and "report_ok owner (devices_of enums1 (icd_terms st))" and "report_ok owner (devices_of enums2 (icd_terms st))"
    and "parse_id_filters cf (pd_heap st) = Some (fs, h)" and "\<And>cells. out = Some cells \<Longrightarrow> cnt \<le> length cells"
  shows "\<exists>r cnt' out' st' xs' ys'.
     vkEnumeratePhysicalDevices cf (terminator_EnumeratePhysicalDevices cf enums1) (terminator_EnumeratePhysicalDevices cf enums2)
       (terminator_GetPhysicalDeviceProperties cf) (Some cnt) out st = Some (r, Some cnt', out', st') \<and>
     pd_ok owner st' xs' ys' \<and> pd_balance st' xs' ys' = pd_balance st xs ys \<and>
     enumeration_outcome cf fs owner (devices_of enums1 (icd_terms st)) (devices_of enums2 (icd_terms st)) cnt out st r cnt' out' st'"
  using assms by (rule enumerate_spec)

text \<open>Two drivers: the first has the devices 10 and 11, the second 20.\<close>

definition sample_props :: "nat \<Rightarrow> VkPhysicalDeviceProperties" where
  "sample_props d = \<lparr>pd_apiVersion = 0, pd_vendorID = 7, pd_deviceID = of_nat d, pd_deviceType = VK_PHYSICAL_DEVICE_TYPE_OTHER, pd_deviceName = ''gpu''\<rparr>"

definition sample_config :: "(string \<Rightarrow> string option) \<Rightarrow> pd_config" where
  "sample_config env = \<lparr>cf_qsort = insertion_sort, cf_process = \<lparr>proc_env = env, proc_secure_mode = False\<rparr>, cf_allocator = None,
     cf_drivers = (\<lambda>_. \<lparr>GetPhysicalDeviceProperties = sample_props, EnumerateDeviceExtensionProperties = (\<lambda>_. \<lparr>first_result = VK_SUCCESS, first_count = 0, second_result = VK_SUCCESS, second_count = 0, second_props = []\<rparr>),
       GetPhysicalDeviceProperties2 = None, GetPhysicalDeviceProperties2KHR = None\<rparr>),
     cf_app_api_version = loader_combine_version 1 0 0, cf_disp = 5, supports_get_dev_prop_2 = False,
     cf_driver_ids = (\<lambda>_. None), cf_driver_ids_khr = (\<lambda>_. None), khr_get_physical_device_properties2 = False\<rparr>"

definition answer :: "nat list \<Rightarrow> device_enumeration" where
  "answer ds = \<lparr>de_first_result = VK_SUCCESS, de_first_count = length ds, de_second_result = VK_SUCCESS, de_second_count = length ds, de_devices = ds\<rparr>"

definition sample_enums :: "nat \<Rightarrow> device_enumeration" where
  "sample_enums i = (if i = 1 then answer [10, 11] else answer [20])"

definition sample_owner :: "nat \<Rightarrow> nat" where
  "sample_owner d = (if d = 20 then 2 else 1)"

abbreviation empty_env :: "string \<Rightarrow> string option" where "empty_env \<equiv> \<lambda>_. None"

text \<open>The exported function without layers, as an application calls it.\<close>

abbreviation app_enumerate :: "pd_config \<Rightarrow> (nat \<Rightarrow> device_enumeration) \<Rightarrow> (nat \<Rightarrow> device_enumeration) \<Rightarrow> nat \<Rightarrow> nat list option \<Rightarrow> pd_instance \<Rightarrow>
    (VkResult \<times> nat option \<times> nat list option \<times> pd_instance) option" where
  "app_enumerate cf enums1 enums2 cnt out st \<equiv> vkEnumeratePhysicalDevices cf (terminator_EnumeratePhysicalDevices cf enums1)
     (terminator_EnumeratePhysicalDevices cf enums2) (terminator_GetPhysicalDeviceProperties cf) (Some cnt) out st"

lemma sample_report: "devices_of sample_enums (icd_terms (fresh_devices [1, 2] h)) = [(1, 10), (1, 11), (2, 20)]"
  by (simp add: fresh_devices_def devices_of_def sample_enums_def reported_def answer_def resized_def)

lemma sample_report_ok: "report_ok sample_owner (devices_of sample_enums (icd_terms (fresh_devices [1, 2] h)))"
  unfolding sample_report by (simp add: report_ok_def sample_owner_def)

definition no_filters :: id_filters where
  "no_filters = (let f = \<lparr>idf_count = 0, idf_filters = NULL\<rparr> in \<lparr>device_id_filter = f, vendor_id_filter = f, driver_id_filter = f\<rparr>)"

lemma sample_filters: "parse_id_filters (sample_config empty_env) h = Some (no_filters, h)"
  by (simp add: parse_id_filters_def parse_id_filter_environment_var_def loader_secure_getenv_def sample_config_def no_filters_def Let_def)

theorem physical_device_enumeration_witness:
  "\<exists>r cnt' out' st' xs' ys'.
     app_enumerate (sample_config empty_env) sample_enums sample_enums 4 (Some (replicate 5 0)) (fresh_devices [1, 2] good_heap) = Some (r, Some cnt', out', st') \<and>
     pd_ok sample_owner st' xs' ys' \<and> pd_balance st' xs' ys' = pd_balance (fresh_devices [1, 2] good_heap) [] [] \<and>
     enumeration_outcome (sample_config empty_env) no_filters sample_owner (devices_of sample_enums (icd_terms (fresh_devices [1, 2] good_heap)))
       (devices_of sample_enums (icd_terms (fresh_devices [1, 2] good_heap))) 4 (Some (replicate 5 0)) (fresh_devices [1, 2] good_heap) r cnt' out' st'"
  by (rule physical_device_enumeration [OF _ _ sample_report_ok sample_report_ok sample_filters])
    (simp_all add: fresh_devices_ok sample_config_def insertion_sort_contract)


lemma sample_run:
  "\<exists>st'. app_enumerate (sample_config empty_env) sample_enums sample_enums 4 (Some (replicate 5 0)) (fresh_devices [1, 2] good_heap) =
     Some (VK_SUCCESS, Some 3, Some [4, 5, 6, 0, 0], st') \<and> device_run (sample_config empty_env) sample_owner {10} (fresh_devices [1, 2] good_heap) st'"
proof -
  have "map_option (\<lambda>(r, c, out, st). (r, c, out)) (app_enumerate (sample_config empty_env) sample_enums sample_enums 4 (Some (replicate 5 0))
      (fresh_devices [1, 2] good_heap)) = Some (VK_SUCCESS, Some 3, Some [4, 5, 6, 0, 0])" by code_simp
  then obtain st' where e: "app_enumerate (sample_config empty_env) sample_enums sample_enums 4 (Some (replicate 5 0)) (fresh_devices [1, 2] good_heap) =
     Some (VK_SUCCESS, Some 3, Some [4, 5, 6, 0, 0], st')" by auto
  have "filter_allows (sample_config empty_env) no_filters x" for x
    by (rule filter_allows_none) (simp add: no_filters_def no_id_filters_def Let_def)
  then have "device_run (sample_config empty_env) sample_owner {10} (fresh_devices [1, 2] good_heap) st'"
    by (intro device_run.enumerate [OF device_run.start sample_report_ok sample_report_ok sample_filters _ e])
      (simp_all add: sample_report [unfolded One_nat_def] no_filters_def no_id_filters_def Let_def)
  with e show ?thesis by blast
qed


text \<open>An example of a handle that does not live on: after a device vanished, asking for fewer devices than there are frees the handle of a device
  that is still present (20, handle 6), and keeps that of the vanished device (10, handle 4).\<close>

lemma partial_listing_frees_live_handle:
  "(do {
      (_, _, handles, st) \<leftarrow> app_enumerate (sample_config empty_env) sample_enums sample_enums 3 (Some [0, 0, 0]) (fresh_devices [1, 2] good_heap);
      let before = device_of_handle st 6;
      let enums = (\<lambda>i. if i = 1 then answer [11] else answer [20]);
      (res, _, out, st) \<leftarrow> app_enumerate (sample_config empty_env) enums enums 1 (Some [0]) st;
      Some (handles, before, res, out, map_option tr_phys_dev (tramp_of (objects st 4)), loader_unwrap_physical_device st 6)
    }) = Some (Some [4, 5, 6], Some (2, 20), VK_INCOMPLETE, Some [5], Some 1, None)"
  by code_simp

text \<open>With an identifier filter set the loader asks the chain twice.  When a device appears in between, the second answer is
  \<open>VK_INCOMPLETE\<close>, which is passed on to the application together with its own count and array, untouched: it is told that as many
  handles as it has room for were written, and none was.\<close>

theorem filtered_enumeration_race:
  assumes "parse_id_filters cf (pd_heap st) = Some (fs, h)" and "\<not> no_id_filters fs"
    and "next1 0 None (st\<lparr>pd_heap := h\<rparr>) = Some (VK_SUCCESS, n, None, st1)"
    and "next2 n (Some (replicate n 0)) st1 = Some (VK_INCOMPLETE, n, Some devs, st2)"
  shows "\<exists>st'. vkEnumeratePhysicalDevices cf next1 next2 props (Some cnt) (Some out) st = Some (VK_INCOMPLETE, Some cnt, Some out, st')"
proof -
  obtain h' where "free_all_id_filters (cf_allocator cf) fs (pd_heap st2) = Some h'"
    using free_all_id_filters_wf [OF parse_id_filters_wf(1) [OF assms(1)]] by blast
  with assms show ?thesis by (simp add: vkEnumeratePhysicalDevices_def enumerate_filtered_def)
qed

definition vendor_env :: "string \<Rightarrow> string option" where
  "vendor_env v = (if v = ''VK_LOADER_VENDOR_ID_FILTER'' then Some ''7'' else None)"

lemma vendor_filters:
  "\<exists>fs. parse_id_filters (sample_config vendor_env) good_heap = Some (fs, add_live 1 (tick good_heap)) \<and> \<not> no_id_filters fs"
proof -
  have t: "strtok_r '','' ''7'' = Some (''7'', [])" "strtok_r '','' [] = None" by code_simp+
  let ?j = "\<lparr>id_begin = 0, id_end = 0\<rparr>"
  have p: "parse_id_tokens \<lparr>idf_count = 0, idf_filters = Buf [?j]\<rparr> ''7'' = Some \<lparr>idf_count = 1, idf_filters = Buf [id_filter_of ''7'']\<rparr>"
    using t by (simp add: parse_id_tokens.simps)
  have "map tolower ''7'' = ''7''" by code_simp
  with p show ?thesis
    by (simp add: parse_id_filters_def parse_id_filter_environment_var_def loader_secure_getenv_def loader_alloc_def sample_config_def vendor_env_def
        succeeds_def no_id_filters_def Let_def)
qed

theorem filtered_enumeration_race_witness:
  "\<exists>st'. app_enumerate (sample_config vendor_env) sample_enums (\<lambda>i. if i = 1 then answer [10, 11] else answer [20, 21]) 3 (Some [8, 8, 8])
     (fresh_devices [1, 2] good_heap) = Some (VK_INCOMPLETE, Some 3, Some [8, 8, 8], st')"
proof -
  let ?cf = "sample_config vendor_env" and ?st = "(fresh_devices [1, 2] good_heap)\<lparr>pd_heap := add_live 1 (tick good_heap)\<rparr>"
  let ?second = "terminator_EnumeratePhysicalDevices ?cf (\<lambda>i. if i = 1 then answer [10, 11] else answer [20, 21])"
  have "map_option (\<lambda>(r, n, out, st). (r, n, out)) (terminator_EnumeratePhysicalDevices ?cf sample_enums 0 None ?st) = Some (VK_SUCCESS, 3, None)" by code_simp
  then obtain st1 where n1: "terminator_EnumeratePhysicalDevices ?cf sample_enums 0 None ?st = Some (VK_SUCCESS, 3, None, st1)" by auto
  have "(do { (_, _, _, st1) \<leftarrow> terminator_EnumeratePhysicalDevices ?cf sample_enums 0 None ?st;
      (r, n, out, st) \<leftarrow> ?second 3 (Some (replicate 3 0)) st1; Some (r, n, out) }) = Some (VK_INCOMPLETE, 3, Some [1, 2, 3])" by code_simp
  then obtain st2 where n2: "?second 3 (Some (replicate 3 0)) st1 = Some (VK_INCOMPLETE, 3, Some [1, 2, 3], st2)" unfolding n1 by (auto simp: bind_eq_Some_conv)
  obtain fs where f: "parse_id_filters ?cf (pd_heap (fresh_devices [1, 2] good_heap)) = Some (fs, add_live 1 (tick good_heap))" "\<not> no_id_filters fs"
    using vendor_filters by (auto simp: fresh_devices_def)
  show ?thesis by (rule filtered_enumeration_race [where cf = ?cf and ?next1.0 = "terminator_EnumeratePhysicalDevices ?cf sample_enums" and ?next2.0 = ?second, OF f n1 n2])
qed

end
