(* ===== verification/LayerChains.thy ===== *)
theory LayerChains
  imports LayerList Paths
begin

text \<open>
  The chain of layers of an instance (\<^verbatim>\<open>loader.c\<close>): \<^verbatim>\<open>loader_create_instance_chain\<close> loads the activated layers from the last to the first, negotiates the
  interface version, and links each to the one below it.  Function pointers are numbers, \<open>None\<close> is null.  The dynamic linker and what layers answer are
  arguments.  Arrays on the stack have room for one entry per activated layer, and their allocation does not fail.
\<close>

section \<open>Layers with their functions\<close>

record chain_layer = loader_layer_properties +
  negotiate_layer_interface :: "nat option"
  get_instance_proc_addr :: "nat option"
  get_device_proc_addr :: "nat option"
  get_physical_device_proc_addr :: "nat option"

record VkNegotiateLayerInterface =
  loaderLayerInterfaceVersion :: nat
  pfnGetInstanceProcAddr :: "nat option"
  pfnGetDeviceProcAddr :: "nat option"
  pfnGetPhysicalDeviceProcAddr :: "nat option"

definition CURRENT_LOADER_LAYER_INTERFACE_VERSION :: nat where "CURRENT_LOADER_LAYER_INTERFACE_VERSION = 2"
definition MIN_SUPPORTED_LOADER_LAYER_INTERFACE_VERSION :: nat where "MIN_SUPPORTED_LOADER_LAYER_INTERFACE_VERSION = 1"

text \<open>What the operating system and the layers answer: opening a library gives a handle or an error message, \<open>call_negotiate f\<close> is the negotiation
  function at \<open>f\<close>, and \<open>gipa_create f n\<close> is what the function \<open>f\<close> returns for the name \<open>n\<close>.  The last fields are the addresses of the terminators.\<close>

record linker =
  open_library :: "string option \<Rightarrow> nat + string"
  get_proc_address :: "nat \<Rightarrow> string \<Rightarrow> nat option"
  dli_fname_of :: "nat option \<Rightarrow> string option"
  realpath_of :: "string \<Rightarrow> string option"
  call_negotiate :: "nat \<Rightarrow> VkNegotiateLayerInterface \<Rightarrow> VkResult \<times> VkNegotiateLayerInterface"
  gipa_create :: "nat \<Rightarrow> string \<Rightarrow> nat option"
  gpa_instance_terminator :: nat
  gpdpa_instance_terminator :: nat
  gpa_device_terminator :: nat

definition loader_names_array_has_layer_property :: "chain_layer \<Rightarrow> string list \<Rightarrow> bool" where
  "loader_names_array_has_layer_property l names = (layerName (info l) \<in> set names)"

definition loader_open_layer_file :: "linker \<Rightarrow> chain_layer \<Rightarrow> chain_layer" where
  "loader_open_layer_file lk l =
     (case open_library lk (lib_name l) of
        Inl handle \<Rightarrow> l\<lparr>lib_handle := Some handle, lib_status := LOADER_LAYER_LIB_SUCCESS_LOADED\<rparr>
      | Inr message \<Rightarrow> l\<lparr>lib_handle := None, lib_status := fst (loader_handle_load_library_error message)\<rparr>)"

definition loader_get_layer_interface_version :: "linker \<Rightarrow> nat option \<Rightarrow> bool \<times> VkNegotiateLayerInterface" where
  "loader_get_layer_interface_version lk fp =
     (let s = \<lparr>loaderLayerInterfaceVersion = 1, pfnGetInstanceProcAddr = None, pfnGetDeviceProcAddr = None, pfnGetPhysicalDeviceProcAddr = None\<rparr>;
          (res, s) = (case fp of None \<Rightarrow> (VK_SUCCESS, s)
             | Some f \<Rightarrow> call_negotiate lk f (s\<lparr>loaderLayerInterfaceVersion := CURRENT_LOADER_LAYER_INTERFACE_VERSION\<rparr>))
      in (res = VK_SUCCESS \<and> \<not> loaderLayerInterfaceVersion s < MIN_SUPPORTED_LOADER_LAYER_INTERFACE_VERSION, s))"

text \<open>A name given by a manifest, if not empty, or else the standard name.\<close>

definition function_name :: "string option \<Rightarrow> string \<Rightarrow> string" where
  "function_name given standard = (case given of None \<Rightarrow> standard | Some n \<Rightarrow> if n = [] then standard else n)"

abbreviation unnamed :: "string option \<Rightarrow> bool" where "unnamed n \<equiv> n = None \<or> n = Some []"

section \<open>The instance chain\<close>

record VkLayerInstanceLink =
  li_pNext :: "nat option"
  pfnNextGetInstanceProcAddr :: "nat option"
  pfnNextGetPhysicalDeviceProcAddr :: "nat option"

text \<open>The variables of the loop.  \<open>pLayerInfo\<close> is the index of the topmost link.\<close>

record chain_state =
  ch_layers :: "chain_layer list"
  ch_heap :: heap
  cur_gipa :: "nat option"
  cur_gdpa :: "nat option"
  cur_gpdpa :: "nat option"
  next_gipa :: "nat option"
  next_gpdpa :: "nat option"
  link_infos :: "VkLayerInstanceLink list"
  pLayerInfo :: "nat option"
  activated_layers :: "string list"

text \<open>The functions of a layer: whether they were found, the layer, and the current functions of the loop.  When the layer has negotiated before,
  the current functions are those of the layer processed before.\<close>

definition negotiate_functions ::
  "linker \<Rightarrow> nat \<Rightarrow> chain_layer \<Rightarrow> nat option \<times> nat option \<times> nat option \<Rightarrow> bool \<times> chain_layer \<times> nat option \<times> nat option \<times> nat option" where
  "negotiate_functions lk lib l cur =
     (case get_proc_address lk lib (function_name (str_negotiate_interface (layer_functions l)) ''vkNegotiateLoaderLayerInterfaceVersion'') of
        None \<Rightarrow> (False, l, cur)
      | Some f \<Rightarrow>
          (let l = l\<lparr>negotiate_layer_interface := Some f\<rparr> in
           case loader_get_layer_interface_version lk (Some f) of
             (False, _) \<Rightarrow> (False, l, cur)
           | (True, s) \<Rightarrow>
               (let l = l\<lparr>interface_version := loaderLayerInterfaceVersion s\<rparr> in
                if loaderLayerInterfaceVersion s > 1
                then (pfnGetInstanceProcAddr s \<noteq> None, l, pfnGetInstanceProcAddr s, pfnGetDeviceProcAddr s, pfnGetPhysicalDeviceProcAddr s)
                else (False, l, cur))))"

definition resolve_functions ::
  "linker \<Rightarrow> nat \<Rightarrow> chain_layer \<Rightarrow> nat option \<times> nat option \<times> nat option \<Rightarrow> bool \<times> chain_layer \<times> nat option \<times> nat option \<times> nat option" where
  "resolve_functions lk lib l cur =
     (if negotiate_layer_interface l \<noteq> None then (True, l, cur)
      else (case negotiate_functions lk lib l cur of (functions_in_interface, l, gipa, gdpa, gpdpa) \<Rightarrow>
        if functions_in_interface then (True, l, gipa, gdpa, gpdpa)
        else (case get_instance_proc_addr l of
          Some g \<Rightarrow> (True, l, Some g, gdpa, gpdpa)
        | None \<Rightarrow>
            if unnamed (str_gipa (layer_functions l))
            then (let g = get_proc_address lk lib ''vkGetInstanceProcAddr'' in (g \<noteq> None, l\<lparr>get_instance_proc_addr := g\<rparr>, g, gdpa, gpdpa))
            else (let g = get_proc_address lk lib (the (str_gipa (layer_functions l))) in (g \<noteq> None, l, g, gdpa, gpdpa)))))"

definition set_layer :: "nat \<Rightarrow> chain_layer \<Rightarrow> chain_state \<Rightarrow> chain_state" where
  "set_layer i l cs = cs\<lparr>ch_layers := (ch_layers cs)[i := l]\<rparr>"

text \<open>The links and functions of a layer whose functions were found.\<close>

definition link_layer :: "nat \<Rightarrow> chain_layer \<Rightarrow> chain_state \<Rightarrow> chain_layer \<times> chain_state" where
  "link_layer i l cs =
     (let cs = cs\<lparr>link_infos := link_infos cs @ [\<lparr>li_pNext = pLayerInfo cs, pfnNextGetInstanceProcAddr = next_gipa cs,
                    pfnNextGetPhysicalDeviceProcAddr = next_gpdpa cs\<rparr>], next_gipa := cur_gipa cs, pLayerInfo := Some (length (link_infos cs))\<rparr>;
          v2 = interface_version l > 1;
          cs = (if v2 \<and> cur_gpdpa cs \<noteq> None then cs\<lparr>next_gpdpa := cur_gpdpa cs\<rparr> else cs);
          l = (if v2 \<and> cur_gpdpa cs \<noteq> None then l\<lparr>get_physical_device_proc_addr := cur_gpdpa cs\<rparr> else l);
          l = (if v2 \<and> cur_gipa cs \<noteq> None then l\<lparr>get_instance_proc_addr := cur_gipa cs\<rparr> else l);
          l = (if v2 \<and> cur_gdpa cs \<noteq> None then l\<lparr>get_device_proc_addr := cur_gdpa cs\<rparr> else l)
      in (l, cs))"

text \<open>One pass of the loop; \<open>Some r\<close> in the result is an early return.  Reading the name of a library that is null is undefined.\<close>

definition chain_step :: "linker \<Rightarrow> allocator \<Rightarrow> nat \<Rightarrow> chain_state \<Rightarrow> (VkResult option \<times> chain_state) option" where
  "chain_step lk a i cs =
     (if i \<ge> length (ch_layers cs) then None
      else (let l = ch_layers cs ! i in
        if loader_names_array_has_layer_property l (activated_layers cs) then Some (None, cs)
        else (let l = loader_open_layer_file lk l; cs = set_layer i l cs in
          if lib_status l = LOADER_LAYER_LIB_ERROR_OUT_OF_MEMORY then Some (Some VK_ERROR_OUT_OF_HOST_MEMORY, cs)
          else (case lib_handle l of
            None \<Rightarrow> Some (None, cs)
          | Some lib \<Rightarrow>
              (case resolve_functions lk lib l (cur_gipa cs, cur_gdpa cs, cur_gpdpa cs) of (found, l, gipa, gdpa, gpdpa) \<Rightarrow>
                let cs = cs\<lparr>cur_gipa := gipa, cur_gdpa := gdpa, cur_gpdpa := gpdpa\<rparr> in
                if \<not> found then Some (None, set_layer i l cs)
                else (case link_layer i l cs of (l, cs) \<Rightarrow> do {
                  name \<leftarrow> lib_name l;
                  (case fixup_library_binary_path (realpath_of lk) a (dli_fname_of lk (cur_gipa cs)) name (ch_heap cs) of (res, name, h) \<Rightarrow>
                     let cs = set_layer i (l\<lparr>lib_name := Some name\<rparr>) (cs\<lparr>ch_heap := h\<rparr>) in
                     if res = VK_ERROR_OUT_OF_HOST_MEMORY then Some (Some res, cs)
                     else Some (None, cs\<lparr>activated_layers := activated_layers cs @ [layerName (info l)]\<rparr>))
                }))))))"

fun chain_loop :: "linker \<Rightarrow> allocator \<Rightarrow> nat list \<Rightarrow> chain_state \<Rightarrow> (VkResult option \<times> chain_state) option" where
  "chain_loop lk a [] cs = Some (None, cs)"
| "chain_loop lk a (i # is) cs = do {
     (ret, cs) \<leftarrow> chain_step lk a i cs;
     (if ret \<noteq> None then Some (ret, cs) else chain_loop lk a is cs)
   }"

definition initial_chain :: "linker \<Rightarrow> chain_layer list \<Rightarrow> heap \<Rightarrow> chain_state" where
  "initial_chain lk layers h = \<lparr>ch_layers = layers, ch_heap = h, cur_gipa = Some (gpa_instance_terminator lk), cur_gdpa = Some (gpa_device_terminator lk),
     cur_gpdpa = Some (gpdpa_instance_terminator lk), next_gipa = Some (gpa_instance_terminator lk), next_gpdpa = Some (gpdpa_instance_terminator lk),
     link_infos = [], pLayerInfo = None, activated_layers = []\<rparr>"

text \<open>The names recorded for the instance.\<close>

fun copy_names :: "allocator \<Rightarrow> string list \<Rightarrow> loader_string_list \<Rightarrow> heap \<Rightarrow> (VkResult \<times> loader_string_list \<times> heap) option" where
  "copy_names a [] sl h = Some (VK_SUCCESS, sl, h)"
| "copy_names a (n # ns) sl h = do {
     (res, sl, h) \<leftarrow> copy_str_to_string_list a sl n (length n) h;
     (if res \<noteq> VK_SUCCESS then Some (res, sl, h) else copy_names a ns sl h)
   }"

text \<open>\<open>create f head links\<close> is the call of the topmost \<^verbatim>\<open>vkCreateInstance\<close> with the links of the chain.  The result has the state of the loop and
  \<^verbatim>\<open>enabled_layer_names\<close>.  A call through a null function pointer is undefined.\<close>

definition loader_create_instance_chain ::
  "linker \<Rightarrow> allocator \<Rightarrow> (nat \<Rightarrow> nat option \<Rightarrow> VkLayerInstanceLink list \<Rightarrow> VkResult) \<Rightarrow> string list \<Rightarrow> nat list \<Rightarrow> chain_layer list \<Rightarrow> loader_string_list \<Rightarrow> heap \<Rightarrow>
     (VkResult \<times> chain_state \<times> loader_string_list) option" where
  "loader_create_instance_chain lk a create ppEnabledLayerNames expanded layers names h = do {
     (ret, cs) \<leftarrow> chain_loop lk a (rev expanded) (initial_chain lk layers h);
     (case ret of
        Some r \<Rightarrow> Some (r, cs, names)
      | None \<Rightarrow>
          if list_ex (\<lambda>i. layerName (info (ch_layers cs ! i)) \<notin> set (activated_layers cs) \<and> layerName (info (ch_layers cs ! i)) \<in> set ppEnabledLayerNames) expanded
          then Some (VK_ERROR_LAYER_NOT_PRESENT, cs, names)
          else do {
            gipa \<leftarrow> next_gipa cs;
            (case gipa_create lk gipa ''vkCreateInstance'' of
               None \<Rightarrow> Some (VK_ERROR_INITIALIZATION_FAILED, cs, names)
             | Some fpCreateInstance \<Rightarrow>
                 (let res = create fpCreateInstance (pLayerInfo cs) (link_infos cs) in
                  if res \<noteq> VK_SUCCESS \<or> ppEnabledLayerNames = [] then Some (res, cs, names)
                  else (case create_string_list a (length ppEnabledLayerNames) names (ch_heap cs) of (res, names, h) \<Rightarrow>
                    if res \<noteq> VK_SUCCESS then Some (res, cs\<lparr>ch_heap := h\<rparr>, names)
                    else do {
                      (res, names, h) \<leftarrow> copy_names a ppEnabledLayerNames names h;
                      Some (res, cs\<lparr>ch_heap := h\<rparr>, names)
                    })))
          })
   }"

section \<open>The functions of a layer, found again\<close>

text \<open>A function the layer has, or the one found by its name; the name given by a manifest is looked up again every time.\<close>

definition layer_gipa :: "linker \<Rightarrow> nat \<Rightarrow> chain_layer \<Rightarrow> nat option \<times> chain_layer" where
  "layer_gipa lk lib l =
     (case get_instance_proc_addr l of
        Some g \<Rightarrow> (Some g, l)
      | None \<Rightarrow>
          if unnamed (str_gipa (layer_functions l))
          then (let g = get_proc_address lk lib ''vkGetInstanceProcAddr'' in (g, l\<lparr>get_instance_proc_addr := g\<rparr>))
          else (get_proc_address lk lib (the (str_gipa (layer_functions l))), l))"

definition layer_gdpa :: "linker \<Rightarrow> nat \<Rightarrow> chain_layer \<Rightarrow> nat option \<times> chain_layer" where
  "layer_gdpa lk lib l =
     (case get_device_proc_addr l of
        Some g \<Rightarrow> (Some g, l)
      | None \<Rightarrow>
          if unnamed (str_gdpa (layer_functions l))
          then (let g = get_proc_address lk lib ''vkGetDeviceProcAddr'' in (g, l\<lparr>get_device_proc_addr := g\<rparr>))
          else (get_proc_address lk lib (the (str_gdpa (layer_functions l))), l))"

section \<open>Paths of calls\<close>

text \<open>How a call travels down: each layer finds the function of the next one in its link and hands on the rest of the links.\<close>

inductive call_path :: "VkLayerInstanceLink list \<Rightarrow> nat option \<Rightarrow> nat option \<Rightarrow> nat option list \<Rightarrow> bool" for links where
  bottom: "call_path links g None [g]"
| layer: "k < length links \<Longrightarrow> call_path links (pfnNextGetInstanceProcAddr (links ! k)) (li_pNext (links ! k)) gs \<Longrightarrow> call_path links g (Some k) (g # gs)"

lemma call_path_extend: "call_path links g h gs \<Longrightarrow> call_path (links @ [x]) g h gs"
  by (induction rule: call_path.induct) (auto intro!: call_path.intros simp: nth_append)

lemma call_path_add:
  assumes "call_path links n h gs"
  shows "call_path (links @ [\<lparr>li_pNext = h, pfnNextGetInstanceProcAddr = n, pfnNextGetPhysicalDeviceProcAddr = p\<rparr>]) g (Some (length links)) (g # gs)"
  using call_path_extend [OF assms] by (intro call_path.layer) simp_all

text \<open>The layers that are activated: those that can be loaded, from each name the last.\<close>

fun activated_of :: "(nat \<Rightarrow> bool) \<Rightarrow> (nat \<Rightarrow> string) \<Rightarrow> nat list \<Rightarrow> nat list" where
  "activated_of loads nm [] = []"
| "activated_of loads nm (i # is) =
     (let below = activated_of loads nm is in if loads i \<and> nm i \<notin> nm ` set below then i # below else below)"

lemma activated_of_sub: "set (activated_of loads nm is) \<subseteq> set is" and activated_of_loads: "i \<in> set (activated_of loads nm is) \<Longrightarrow> loads i"
  by (induction "is") (auto simp: Let_def split: if_splits)

lemma activated_of_names: "distinct (map nm (activated_of loads nm is))"
  by (induction "is") (auto simp: Let_def)

lemma activated_of_name_iff: "n \<in> nm ` set (activated_of loads nm is) \<longleftrightarrow> (\<exists>k\<in>set is. nm k = n \<and> loads k)"
  by (induction "is") (auto simp: Let_def)

lemma activated_of_iff:
  "distinct is \<Longrightarrow> i \<in> set (activated_of loads nm is) \<longleftrightarrow>
     (\<exists>above below. is = above @ i # below \<and> loads i \<and> (\<forall>j\<in>set below. nm j = nm i \<longrightarrow> \<not> loads j))"
proof (induction "is")
  case (Cons j js)
  show ?case
  proof (cases "i = j")
    case True
    have "(\<exists>above below. j # js = above @ j # below \<and> loads j \<and> (\<forall>k\<in>set below. nm k = nm j \<longrightarrow> \<not> loads k)) \<longleftrightarrow>
        loads j \<and> (\<forall>k\<in>set js. nm k = nm j \<longrightarrow> \<not> loads k)"
      using Cons.prems by (auto simp: Cons_eq_append_conv)
    moreover have "j \<notin> set (activated_of loads nm js)" using Cons.prems activated_of_sub [of loads nm js] by auto
    ultimately show ?thesis using True activated_of_name_iff [of "nm j" nm loads js] by (auto simp: Let_def)
  next
    case False
    then have "(\<exists>above below. j # js = above @ i # below \<and> loads i \<and> (\<forall>k\<in>set below. nm k = nm i \<longrightarrow> \<not> loads k)) \<longleftrightarrow>
        (\<exists>above below. js = above @ i # below \<and> loads i \<and> (\<forall>k\<in>set below. nm k = nm i \<longrightarrow> \<not> loads k))"
      by (auto simp: Cons_eq_append_conv)
    with Cons False show ?thesis by (auto simp: Let_def)
  qed
qed simp

section \<open>The functions of a layer\<close>

definition library_of :: "linker \<Rightarrow> chain_layer \<Rightarrow> nat option" where
  "library_of lk l = (case open_library lk (lib_name l) of Inl lib \<Rightarrow> Some lib | Inr _ \<Rightarrow> None)"

definition negotiated :: "linker \<Rightarrow> nat \<Rightarrow> chain_layer \<Rightarrow> VkNegotiateLayerInterface option" where
  "negotiated lk lib l =
     (case get_proc_address lk lib (function_name (str_negotiate_interface (layer_functions l)) ''vkNegotiateLoaderLayerInterfaceVersion'') of
        None \<Rightarrow> None
      | Some f \<Rightarrow> (case loader_get_layer_interface_version lk (Some f) of (ok, s) \<Rightarrow> if ok then Some s else None))"

text \<open>A function from the negotiation, for interface version 2, or by the name of the manifest, or by its standard name.\<close>

definition best_function :: "linker \<Rightarrow> (VkNegotiateLayerInterface \<Rightarrow> nat option) \<Rightarrow> (loader_layer_functions \<Rightarrow> string option) \<Rightarrow> string \<Rightarrow> nat \<Rightarrow> chain_layer \<Rightarrow> nat option" where
  "best_function lk pfn given standard lib l =
     (case negotiated lk lib l of
        Some s \<Rightarrow> if loaderLayerInterfaceVersion s > 1 \<and> pfn s \<noteq> None then pfn s else get_proc_address lk lib (function_name (given (layer_functions l)) standard)
      | None \<Rightarrow> get_proc_address lk lib (function_name (given (layer_functions l)) standard))"

definition best_gipa :: "linker \<Rightarrow> nat \<Rightarrow> chain_layer \<Rightarrow> nat option" where
  "best_gipa lk lib l = best_function lk pfnGetInstanceProcAddr str_gipa ''vkGetInstanceProcAddr'' lib l"

definition best_gdpa :: "linker \<Rightarrow> nat \<Rightarrow> chain_layer \<Rightarrow> nat option" where
  "best_gdpa lk lib l = best_function lk pfnGetDeviceProcAddr str_gdpa ''vkGetDeviceProcAddr'' lib l"

definition instance_gipa :: "linker \<Rightarrow> chain_layer \<Rightarrow> nat option" where
  "instance_gipa lk l = (case library_of lk l of None \<Rightarrow> None | Some lib \<Rightarrow> best_gipa lk lib l)"

definition instance_gdpa :: "linker \<Rightarrow> chain_layer \<Rightarrow> nat option" where
  "instance_gdpa lk l = (case library_of lk l of None \<Rightarrow> None | Some lib \<Rightarrow> best_gdpa lk lib l)"

text \<open>A layer as it comes out of the scan of the manifests.\<close>

definition fresh_layer :: "chain_layer \<Rightarrow> bool" where
  "fresh_layer l \<longleftrightarrow> negotiate_layer_interface l = None \<and> get_instance_proc_addr l = None \<and> get_device_proc_addr l = None \<and>
     interface_version l \<le> 1 \<and> lib_name l \<noteq> None \<and> lib_handle l = None"

text \<open>What is the same in two states of a layer.\<close>

definition same_layer :: "chain_layer \<Rightarrow> chain_layer \<Rightarrow> bool" where
  "same_layer l l' \<longleftrightarrow> info l' = info l \<and> layer_functions l' = layer_functions l"

lemma same_layer_functions:
  assumes "same_layer l l'"
  shows "best_gipa lk lib l' = best_gipa lk lib l" and "negotiated lk lib l' = negotiated lk lib l"
proof -
  have f: "layer_functions l' = layer_functions l" using assms by (simp add: same_layer_def)
  show n: "negotiated lk lib l' = negotiated lk lib l" unfolding negotiated_def f ..
  show "best_gipa lk lib l' = best_gipa lk lib l" unfolding best_gipa_def best_function_def n f ..
qed

lemma negotiate_functions_cases:
  "negotiate_functions lk lib l cur = (case negotiated lk lib l of
     Some s \<Rightarrow> if loaderLayerInterfaceVersion s > 1
       then (pfnGetInstanceProcAddr s \<noteq> None, l\<lparr>negotiate_layer_interface := get_proc_address lk lib (function_name (str_negotiate_interface (layer_functions l)) ''vkNegotiateLoaderLayerInterfaceVersion''),
              interface_version := loaderLayerInterfaceVersion s\<rparr>, pfnGetInstanceProcAddr s, pfnGetDeviceProcAddr s, pfnGetPhysicalDeviceProcAddr s)
       else (False, l\<lparr>negotiate_layer_interface := get_proc_address lk lib (function_name (str_negotiate_interface (layer_functions l)) ''vkNegotiateLoaderLayerInterfaceVersion''),
              interface_version := loaderLayerInterfaceVersion s\<rparr>, cur)
   | None \<Rightarrow> (False, case get_proc_address lk lib (function_name (str_negotiate_interface (layer_functions l)) ''vkNegotiateLoaderLayerInterfaceVersion'') of
        None \<Rightarrow> l | Some f \<Rightarrow> l\<lparr>negotiate_layer_interface := Some f\<rparr>, cur))"
  by (auto simp: negotiate_functions_def negotiated_def Let_def split: option.splits prod.splits bool.splits)

lemma function_name_unnamed [simp]: "unnamed n \<Longrightarrow> function_name n standard = standard"
  and function_name_named [simp]: "\<not> unnamed n \<Longrightarrow> function_name n standard = the n"
  by (auto simp: function_name_def split: option.splits)

lemma resolve_fresh:
  assumes "negotiate_layer_interface l = None" and "get_instance_proc_addr l = None" and "get_device_proc_addr l = None" and "interface_version l \<le> 1"
  shows "\<exists>l1 d p. resolve_functions lk lib l cur = (best_gipa lk lib l \<noteq> None, l1, best_gipa lk lib l, d, p) \<and> same_layer l l1 \<and>
     lib_name l1 = lib_name l \<and> lib_handle l1 = lib_handle l \<and> get_device_proc_addr l1 = None \<and>
     (interface_version l1 > 1 \<longrightarrow> (\<exists>s. negotiated lk lib l = Some s \<and> loaderLayerInterfaceVersion s > 1 \<and> d = pfnGetDeviceProcAddr s)) \<and>
     (interface_version l1 \<le> 1 \<longrightarrow> (\<forall>s. negotiated lk lib l = Some s \<longrightarrow> loaderLayerInterfaceVersion s \<le> 1)) \<and>
     (get_instance_proc_addr l1 = None \<or> get_instance_proc_addr l1 = best_gipa lk lib l)"
proof (cases "unnamed (str_gipa (layer_functions l))")
  case True
  then show ?thesis using assms
    by (cases cur) (auto simp: resolve_functions_def negotiate_functions_cases best_gipa_def best_function_def same_layer_def Let_def split: option.splits)
next
  case False
  then show ?thesis using assms
    by (cases cur) (auto simp: resolve_functions_def negotiate_functions_cases best_gipa_def best_function_def same_layer_def Let_def split: option.splits)
qed

text \<open>A layer in the chain, for the device chain: its functions are found again.\<close>

definition linked_layer :: "linker \<Rightarrow> chain_layer \<Rightarrow> chain_layer \<Rightarrow> bool" where
  "linked_layer lk l l' \<longleftrightarrow> (\<exists>lib. lib_handle l' = Some lib \<and> fst (layer_gipa lk lib l') = instance_gipa lk l \<and> fst (layer_gdpa lk lib l') = instance_gdpa lk l)"

definition skipped_layer :: "linker \<Rightarrow> chain_layer \<Rightarrow> bool" where
  "skipped_layer lk l' \<longleftrightarrow> (case lib_handle l' of None \<Rightarrow> True | Some lib \<Rightarrow> fst (layer_gipa lk lib l') = None)"

lemma link_layer_state:
  "snd (link_layer i l cs) = cs\<lparr>link_infos := link_infos cs @ [\<lparr>li_pNext = pLayerInfo cs, pfnNextGetInstanceProcAddr = next_gipa cs,
       pfnNextGetPhysicalDeviceProcAddr = next_gpdpa cs\<rparr>], next_gipa := cur_gipa cs, pLayerInfo := Some (length (link_infos cs)),
     next_gpdpa := if interface_version l > 1 \<and> cur_gpdpa cs \<noteq> None then cur_gpdpa cs else next_gpdpa cs\<rparr>"
  by (cases cs) (auto simp: link_layer_def Let_def)

lemma link_layer_fields:
  "info (fst (link_layer i l cs)) = info l" "layer_functions (fst (link_layer i l cs)) = layer_functions l" "lib_name (fst (link_layer i l cs)) = lib_name l"
  "lib_handle (fst (link_layer i l cs)) = lib_handle l"
  "get_instance_proc_addr (fst (link_layer i l cs)) = (if interface_version l > 1 \<and> cur_gipa cs \<noteq> None then cur_gipa cs else get_instance_proc_addr l)"
  "get_device_proc_addr (fst (link_layer i l cs)) = (if interface_version l > 1 \<and> cur_gdpa cs \<noteq> None then cur_gdpa cs else get_device_proc_addr l)"
  by (auto simp: link_layer_def Let_def)

lemma layer_gipa_fst:
  "fst (layer_gipa lk lib l) = (case get_instance_proc_addr l of Some g \<Rightarrow> Some g | None \<Rightarrow> get_proc_address lk lib (function_name (str_gipa (layer_functions l)) ''vkGetInstanceProcAddr''))"
  by (cases "unnamed (str_gipa (layer_functions l))") (auto simp: layer_gipa_def Let_def split: option.split)

lemma layer_gdpa_fst:
  "fst (layer_gdpa lk lib l) = (case get_device_proc_addr l of Some g \<Rightarrow> Some g | None \<Rightarrow> get_proc_address lk lib (function_name (str_gdpa (layer_functions l)) ''vkGetDeviceProcAddr''))"
  by (cases "unnamed (str_gdpa (layer_functions l))") (auto simp: layer_gdpa_def Let_def split: option.split)

lemma linked_layer_lib_name [simp]: "linked_layer lk l (l'\<lparr>lib_name := x\<rparr>) = linked_layer lk l l'"
  by (simp add: linked_layer_def layer_gipa_fst layer_gdpa_fst cong: option.case_cong)

lemma link_layer_linked:
  assumes lib: "library_of lk l0 = Some lib" and g: "cur_gipa cs = best_gipa lk lib l0" "best_gipa lk lib l0 \<noteq> None"
    and l: "same_layer l0 l" "lib_handle l = Some lib" "get_device_proc_addr l = None"
    and v: "interface_version l > 1 \<longrightarrow> (\<exists>s. negotiated lk lib l0 = Some s \<and> loaderLayerInterfaceVersion s > 1 \<and> cur_gdpa cs = pfnGetDeviceProcAddr s)"
      "interface_version l \<le> 1 \<longrightarrow> (\<forall>s. negotiated lk lib l0 = Some s \<longrightarrow> loaderLayerInterfaceVersion s \<le> 1)"
    and gi: "get_instance_proc_addr l = None \<or> get_instance_proc_addr l = best_gipa lk lib l0"
  shows "linked_layer lk l0 (fst (link_layer i l cs))"
proof -
  obtain f where bg: "best_gipa lk lib l0 = Some f" using g(2) by blast
  let ?l = "fst (link_layer i l cs)"
  have fs: "layer_functions ?l = layer_functions l0" using l(1) by (simp add: link_layer_fields same_layer_def)
  have "fst (layer_gipa lk lib ?l) = best_gipa lk lib l0"
  proof (cases "get_instance_proc_addr ?l")
    case None
    then have "interface_version l \<le> 1" using g bg by (auto simp: link_layer_fields split: if_splits)
    with v(2) None fs show ?thesis by (auto simp: layer_gipa_fst best_gipa_def best_function_def split: option.split)
  next
    case (Some f')
    then have "f' = f" using g(1) bg gi by (auto simp: link_layer_fields split: if_splits)
    with Some bg show ?thesis by (simp add: layer_gipa_fst)
  qed
  moreover have "fst (layer_gdpa lk lib ?l) = best_gdpa lk lib l0"
  proof (cases "interface_version l > 1")
    case True
    with v(1) obtain s where "negotiated lk lib l0 = Some s" "loaderLayerInterfaceVersion s > 1" "cur_gdpa cs = pfnGetDeviceProcAddr s" by blast
    with True fs l(3) show ?thesis by (auto simp: layer_gdpa_fst link_layer_fields best_gdpa_def best_function_def split: option.split)
  next
    case False
    with v(2) fs l(3) show ?thesis by (auto simp: layer_gdpa_fst link_layer_fields best_gdpa_def best_function_def split: option.split)
  qed
  ultimately show ?thesis using lib l(2) by (auto simp: linked_layer_def instance_gipa_def instance_gdpa_def link_layer_fields)
qed

lemma not_found_skipped:
  assumes "library_of lk l0 = Some lib" and "best_gipa lk lib l0 = None" and "same_layer l0 l" and "lib_handle l = Some lib"
    and "get_instance_proc_addr l = None \<or> get_instance_proc_addr l = best_gipa lk lib l0"
  shows "skipped_layer lk l"
  using assms by (auto simp: skipped_layer_def layer_gipa_fst best_gipa_def best_function_def same_layer_def split: option.splits if_splits)

lemma fixup_outcome:
  "\<exists>r name h'. fixup_library_binary_path realpath a dli lib h = (r, name, h') \<and> live h' = live h \<and> (r = VK_ERROR_OUT_OF_HOST_MEMORY \<or> r = VK_SUCCESS)"
  by (simp add: fixup_library_binary_path_def normalize_path_def get_library_path_of_dl_handle_def
      loader_copy_to_new_str_def strncpy_def Let_def split: option.split)

section \<open>The instance chain\<close>

abbreviation name_at :: "chain_layer list \<Rightarrow> nat \<Rightarrow> string" where "name_at L i \<equiv> layerName (info (L ! i))"

abbreviation instance_layers_of :: "linker \<Rightarrow> chain_layer list \<Rightarrow> nat list \<Rightarrow> nat list" where
  "instance_layers_of lk L is \<equiv> activated_of (\<lambda>i. instance_gipa lk (L ! i) \<noteq> None) (name_at L) is"

text \<open>The state after the layers \<open>is\<close>, from the last to the first.\<close>

definition chain_inv :: "linker \<Rightarrow> chain_layer list \<Rightarrow> int \<Rightarrow> nat list \<Rightarrow> chain_state \<Rightarrow> bool" where
  "chain_inv lk L n is cs \<longleftrightarrow> (let A = instance_layers_of lk L is in
     length (ch_layers cs) = length L \<and> (\<forall>i. i \<notin> set is \<longrightarrow> ch_layers cs ! i = L ! i) \<and> (\<forall>i<length L. same_layer (L ! i) (ch_layers cs ! i)) \<and>
     (\<forall>i\<in>set is. if i \<in> set A then linked_layer lk (L ! i) (ch_layers cs ! i) else skipped_layer lk (ch_layers cs ! i)) \<and>
     activated_layers cs = rev (map (name_at L) A) \<and> live (ch_heap cs) = n \<and>
     call_path (link_infos cs) (next_gipa cs) (pLayerInfo cs) (map (\<lambda>i. instance_gipa lk (L ! i)) A @ [Some (gpa_instance_terminator lk)]))"

lemma chain_inv_initial: "chain_inv lk L (live h) [] (initial_chain lk L h)"
  by (simp add: chain_inv_def initial_chain_def same_layer_def call_path.bottom)

lemma chain_inv_update:
  assumes inv: "chain_inv lk L n is cs" and i: "i < length L" "i \<notin> set is"
    and cs': "ch_layers cs' = (ch_layers cs)[i := l']" "live (ch_heap cs') = n"
    and A: "activated_layers cs' = rev (map (name_at L) (instance_layers_of lk L (i # is)))"
      "call_path (link_infos cs') (next_gipa cs') (pLayerInfo cs') (map (\<lambda>i. instance_gipa lk (L ! i)) (instance_layers_of lk L (i # is)) @ [Some (gpa_instance_terminator lk)])"
    and l': "same_layer (L ! i) l'" "if i \<in> set (instance_layers_of lk L (i # is)) then linked_layer lk (L ! i) l' else skipped_layer lk l'"
  shows "chain_inv lk L n (i # is) cs'"
proof -
  let ?A = "instance_layers_of lk L is" and ?B = "instance_layers_of lk L (i # is)"
  have len: "length (ch_layers cs) = length L" using inv by (simp add: chain_inv_def Let_def)
  have nth: "ch_layers cs' ! j = (if j = i then l' else ch_layers cs ! j)" for j using cs'(1) i(1) len by (cases "j = i") simp_all
  have B: "j \<in> set ?B \<longleftrightarrow> j \<in> set ?A" if "j \<noteq> i" for j using that by (simp add: Let_def)
  have "length (ch_layers cs') = length L" using cs'(1) len by simp
  moreover have "\<forall>j. j \<notin> set (i # is) \<longrightarrow> ch_layers cs' ! j = L ! j"
    using inv unfolding nth by (simp add: chain_inv_def Let_def)
  moreover have "\<forall>j<length L. same_layer (L ! j) (ch_layers cs' ! j)"
    using inv l'(1) unfolding nth by (simp add: chain_inv_def Let_def)
  moreover have "\<forall>j\<in>set (i # is). if j \<in> set ?B then linked_layer lk (L ! j) (ch_layers cs' ! j) else skipped_layer lk (ch_layers cs' ! j)"
  proof
    fix j assume j: "j \<in> set (i # is)"
    show "if j \<in> set ?B then linked_layer lk (L ! j) (ch_layers cs' ! j) else skipped_layer lk (ch_layers cs' ! j)"
    proof (cases "j = i")
      case True
      with l'(2) show ?thesis unfolding nth by simp
    next
      case False
      with j inv B [OF False] show ?thesis unfolding nth chain_inv_def Let_def by simp
    qed
  qed
  ultimately show ?thesis using A cs'(2) unfolding chain_inv_def Let_def [of ?B] by blast
qed

lemma chain_inv_skip:
  assumes inv: "chain_inv lk L n is cs" and i: "i < length L" "i \<notin> set is" and A: "instance_layers_of lk L (i # is) = instance_layers_of lk L is"
    and cs': "ch_layers cs' = (ch_layers cs)[i := l']" "activated_layers cs' = activated_layers cs" "link_infos cs' = link_infos cs"
      "next_gipa cs' = next_gipa cs" "pLayerInfo cs' = pLayerInfo cs" "live (ch_heap cs') = n"
    and l': "same_layer (L ! i) l'" "skipped_layer lk l'"
  shows "chain_inv lk L n (i # is) cs'"
proof -
  have "i \<notin> set (instance_layers_of lk L is)" using i(2) activated_of_sub by blast
  with inv cs' l' show ?thesis
    by (intro chain_inv_update [OF inv i cs'(1)]) (simp_all only: A if_False, simp_all add: chain_inv_def Let_def)
qed

lemma chain_step_spec:
  assumes inv: "chain_inv lk L n is cs" and i: "i < length L" "i \<notin> set is" and fresh: "fresh_layer (L ! i)"
  shows "\<exists>ret cs'. chain_step lk a i cs = Some (ret, cs') \<and>
     (ret = Some VK_ERROR_OUT_OF_HOST_MEMORY \<and> live (ch_heap cs') = n \<or> ret = None \<and> chain_inv lk L n (i # is) cs')"
proof -
  let ?A = "instance_layers_of lk L is" and ?l = "L ! i"
  have c: "length (ch_layers cs) = length L" "ch_layers cs ! i = ?l" "activated_layers cs = rev (map (name_at L) ?A)" "live (ch_heap cs) = n"
    and path: "call_path (link_infos cs) (next_gipa cs) (pLayerInfo cs) (map (\<lambda>i. instance_gipa lk (L ! i)) ?A @ [Some (gpa_instance_terminator lk)])"
    using inv i by (simp_all add: chain_inv_def Let_def)
  have has: "loader_names_array_has_layer_property ?l (activated_layers cs) \<longleftrightarrow> name_at L i \<in> name_at L ` set ?A"
    by (simp add: loader_names_array_has_layer_property_def c(3))
  show ?thesis
  proof (cases "name_at L i \<in> name_at L ` set ?A")
    case True
    have "chain_inv lk L n (i # is) cs"
      by (rule chain_inv_skip [OF inv i, where l' = ?l]) (use True c(4) c(2) [symmetric] fresh in \<open>simp_all add: Let_def same_layer_def skipped_layer_def fresh_layer_def\<close>)
    with True has c i show ?thesis by (auto simp: chain_step_def Let_def)
  next
    case new: False
    let ?lo = "loader_open_layer_file lk ?l" and ?co = "set_layer i (loader_open_layer_file lk ?l) cs"
    have step: "chain_step lk a i cs =
       (if lib_status ?lo = LOADER_LAYER_LIB_ERROR_OUT_OF_MEMORY then Some (Some VK_ERROR_OUT_OF_HOST_MEMORY, ?co)
        else (case lib_handle ?lo of None \<Rightarrow> Some (None, ?co)
          | Some lib \<Rightarrow>
              (case resolve_functions lk lib ?lo (cur_gipa ?co, cur_gdpa ?co, cur_gpdpa ?co) of (found, l, gipa, gdpa, gpdpa) \<Rightarrow>
                let cs = ?co\<lparr>cur_gipa := gipa, cur_gdpa := gdpa, cur_gpdpa := gpdpa\<rparr> in
                if \<not> found then Some (None, set_layer i l cs)
                else (case link_layer i l cs of (l, cs) \<Rightarrow> do {
                  name \<leftarrow> lib_name l;
                  (case fixup_library_binary_path (realpath_of lk) a (dli_fname_of lk (cur_gipa cs)) name (ch_heap cs) of (res, name, h) \<Rightarrow>
                     let cs = set_layer i (l\<lparr>lib_name := Some name\<rparr>) (cs\<lparr>ch_heap := h\<rparr>) in
                     if res = VK_ERROR_OUT_OF_HOST_MEMORY then Some (Some res, cs)
                     else Some (None, cs\<lparr>activated_layers := activated_layers cs @ [layerName (info l)]\<rparr>))
                }))))"
      using new has c i by (simp add: chain_step_def Let_def)
    show ?thesis
    proof (cases "open_library lk (lib_name ?l)")
      case (Inr message)
      have none: "library_of lk ?l = None" and lo: "lib_handle ?lo = None" "same_layer ?l ?lo"
        using Inr by (simp_all add: library_of_def loader_open_layer_file_def same_layer_def)
      have "chain_inv lk L n (i # is) ?co"
        by (rule chain_inv_skip [OF inv i, where l' = ?lo]) (use none lo c in \<open>simp_all add: Let_def instance_gipa_def skipped_layer_def set_layer_def\<close>)
      with step lo(1) c(4) show ?thesis by (auto simp: set_layer_def)
    next
      case (Inl lib)
      have lib: "library_of lk ?l = Some lib" and lo: "lib_handle ?lo = Some lib" "same_layer ?l ?lo" "lib_status ?lo \<noteq> LOADER_LAYER_LIB_ERROR_OUT_OF_MEMORY" "lib_name ?lo = lib_name ?l"
        using Inl by (simp_all add: library_of_def loader_open_layer_file_def same_layer_def)
      have best: "best_gipa lk lib ?lo = best_gipa lk lib ?l" "negotiated lk lib ?lo = negotiated lk lib ?l"
        using same_layer_functions [OF lo(2)] by simp_all
      have fr: "negotiate_layer_interface ?lo = None" "get_instance_proc_addr ?lo = None" "get_device_proc_addr ?lo = None" "interface_version ?lo \<le> 1"
        using fresh Inl by (simp_all add: fresh_layer_def loader_open_layer_file_def)
      obtain l1 d p where res: "resolve_functions lk lib ?lo (cur_gipa ?co, cur_gdpa ?co, cur_gpdpa ?co) = (best_gipa lk lib ?l \<noteq> None, l1, best_gipa lk lib ?l, d, p)"
        and l1: "same_layer ?lo l1" "lib_name l1 = lib_name ?lo" "lib_handle l1 = Some lib" "get_device_proc_addr l1 = None"
          "interface_version l1 > 1 \<longrightarrow> (\<exists>s. negotiated lk lib ?l = Some s \<and> loaderLayerInterfaceVersion s > 1 \<and> d = pfnGetDeviceProcAddr s)"
          "interface_version l1 \<le> 1 \<longrightarrow> (\<forall>s. negotiated lk lib ?l = Some s \<longrightarrow> loaderLayerInterfaceVersion s \<le> 1)"
          "get_instance_proc_addr l1 = None \<or> get_instance_proc_addr l1 = best_gipa lk lib ?l"
        using resolve_fresh [OF fr, of lk lib "(cur_gipa ?co, cur_gdpa ?co, cur_gpdpa ?co)"] lo(1) unfolding best by auto
      have same1: "same_layer ?l l1" using lo(2) l1(1) by (simp add: same_layer_def)
      let ?cr = "?co\<lparr>cur_gipa := best_gipa lk lib ?l, cur_gdpa := d, cur_gpdpa := p\<rparr>"
      show ?thesis
      proof (cases "best_gipa lk lib ?l")
        case None
        have "chain_inv lk L n (i # is) (set_layer i l1 ?cr)"
          by (rule chain_inv_skip [OF inv i, where l' = l1])
            (use None lib same1 l1 c not_found_skipped [OF lib None same1 l1(3,7)] in \<open>simp_all add: Let_def instance_gipa_def set_layer_def\<close>)
        with step res None lo show ?thesis by (auto simp: Let_def)
      next
        case (Some g)
        let ?l2 = "fst (link_layer i l1 ?cr)" and ?c2 = "snd (link_layer i l1 ?cr)"
        have linked: "linked_layer lk ?l ?l2" by (rule link_layer_linked [OF lib _ _ same1 l1(3,4)]) (use Some l1 in simp_all)
        obtain nm where nm: "lib_name ?l = Some nm" using fresh by (auto simp: fresh_layer_def)
        obtain r nm' h' where fx: "fixup_library_binary_path (realpath_of lk) a (dli_fname_of lk (cur_gipa ?c2)) nm (ch_heap ?c2) = (r, nm', h')"
          and h': "live h' = live (ch_heap ?c2)" and r: "r = VK_ERROR_OUT_OF_HOST_MEMORY \<or> r = VK_SUCCESS"
          using fixup_outcome by blast
        have hn: "live h' = n" using h' c(4) by (simp add: link_layer_state set_layer_def)
        let ?c3 = "set_layer i (?l2\<lparr>lib_name := Some nm'\<rparr>) (?c2\<lparr>ch_heap := h'\<rparr>)"
        have run: "chain_step lk a i cs = (if r = VK_ERROR_OUT_OF_HOST_MEMORY then Some (Some r, ?c3)
            else Some (None, ?c3\<lparr>activated_layers := activated_layers ?c3 @ [layerName (info ?l2)]\<rparr>))"
          using step res Some lo nm l1(2) fx by (simp add: Let_def case_prod_beta link_layer_fields)
        show ?thesis
        proof (cases "r = VK_ERROR_OUT_OF_HOST_MEMORY")
          case True
          with run hn show ?thesis by (auto simp: set_layer_def)
        next
          case False
          let ?c4 = "?c3\<lparr>activated_layers := activated_layers ?c3 @ [layerName (info ?l2)]\<rparr>"
          have B: "instance_layers_of lk L (i # is) = i # ?A" using new Some lib by (simp add: Let_def instance_gipa_def)
          have gi: "instance_gipa lk ?l = Some g" using Some lib by (simp add: instance_gipa_def)
          have "chain_inv lk L n (i # is) ?c4"
          proof (rule chain_inv_update [OF inv i, where l' = "?l2\<lparr>lib_name := Some nm'\<rparr>"])
            show "ch_layers ?c4 = (ch_layers cs)[i := ?l2\<lparr>lib_name := Some nm'\<rparr>]" by (simp add: set_layer_def link_layer_state)
            show "live (ch_heap ?c4) = n" using hn by (simp add: set_layer_def)
            show "activated_layers ?c4 = rev (map (name_at L) (instance_layers_of lk L (i # is)))"
              unfolding B using c(3) same1 by (simp add: set_layer_def link_layer_state link_layer_fields same_layer_def)
            show "call_path (link_infos ?c4) (next_gipa ?c4) (pLayerInfo ?c4) (map (\<lambda>i. instance_gipa lk (L ! i)) (instance_layers_of lk L (i # is)) @ [Some (gpa_instance_terminator lk)])"
              unfolding B using path Some gi by (simp add: set_layer_def link_layer_state call_path_add)
            show "same_layer ?l (?l2\<lparr>lib_name := Some nm'\<rparr>)" using same1 by (simp add: same_layer_def link_layer_fields)
            show "if i \<in> set (instance_layers_of lk L (i # is)) then linked_layer lk ?l (?l2\<lparr>lib_name := Some nm'\<rparr>) else skipped_layer lk (?l2\<lparr>lib_name := Some nm'\<rparr>)"
              unfolding B using linked by simp
          qed
          with run False show ?thesis by auto
        qed
      qed
    qed
  qed
qed

lemma chain_loop_spec:
  assumes "chain_inv lk L n done cs" and "distinct (todo @ done)" and "\<forall>i\<in>set todo. i < length L \<and> fresh_layer (L ! i)"
  shows "\<exists>ret cs'. chain_loop lk a (rev todo) cs = Some (ret, cs') \<and>
     (ret = Some VK_ERROR_OUT_OF_HOST_MEMORY \<and> live (ch_heap cs') = n \<or> ret = None \<and> chain_inv lk L n (todo @ done) cs')"
  using assms
proof (induction todo arbitrary: "done" cs rule: rev_induct)
  case (snoc i todo)
  obtain ret c where step: "chain_step lk a i cs = Some (ret, c)"
    and ret: "ret = Some VK_ERROR_OUT_OF_HOST_MEMORY \<and> live (ch_heap c) = n \<or> ret = None \<and> chain_inv lk L n (i # done) c"
    using chain_step_spec [OF snoc.prems(1), of i a] snoc.prems(2,3) by auto
  show ?case
  proof (cases ret)
    case None
    with ret have inv: "chain_inv lk L n (i # done) c" by simp
    show ?thesis using snoc.IH [OF inv] snoc.prems(2,3) step None by auto
  next
    case (Some r)
    with step ret show ?thesis by auto
  qed
qed simp

section \<open>The recorded names\<close>

text \<open>Copying a string to a list implements the growable array, so \<open>copy_names\<close> is its loop.\<close>

interpretation copied: append_container "\<lambda>sl e. copy_str_to_string_list a sl e (length e)" sl_strings wf_string_list "2 ^ 31" for a
proof
  fix l e h
  assume wf: "wf_string_list l" and room: "length (sl_strings l) < 2 ^ 31"
  note laws = strings.append_defined [OF wf room, of a e "add_live 1 (tick h)"] strings.append_results [OF wf room, of a e "add_live 1 (tick h)"]
    strings.append_success [OF wf room, of a e "add_live 1 (tick h)"] strings.append_failure [OF wf room, of a e "add_live 1 (tick h)"]
  show "\<exists>r l' h'. copy_str_to_string_list a l e (length e) h = Some (r, l', h')"
    using laws(1) by (simp add: copy_str_to_string_list_def strncpy_def)
  fix r l' h'
  { assume "copy_str_to_string_list a l e (length e) h = Some (r, l', h')"
    then show "r = VK_SUCCESS \<or> r = VK_ERROR_OUT_OF_HOST_MEMORY"
      using laws(2) by (auto simp: copy_str_to_string_list_def strncpy_def split: if_splits) }
  { assume "copy_str_to_string_list a l e (length e) h = Some (VK_SUCCESS, l', h')"
    then show "wf_string_list l' \<and> sl_strings l' = sl_strings l @ [e]"
      using laws(3) by (auto simp: copy_str_to_string_list_def strncpy_def split: if_splits) }
  { assume "copy_str_to_string_list a l e (length e) h = Some (VK_ERROR_OUT_OF_HOST_MEMORY, l', h')"
    then show "sl_strings l' = sl_strings l"
      using laws(4) by (auto simp: copy_str_to_string_list_def strncpy_def split: if_splits) }
qed

lemma copy_names_append_all: "copy_names a ns sl h = copied.append_all a sl ns h"
  by (induction ns arbitrary: sl h) (auto split: bind_splits)

lemma recorded_names:
  assumes "ns \<noteq> []" and "length ns \<le> 2 ^ 31"
  shows "\<exists>res sl' h'. (case create_string_list a (length ns) sl h of (res, sl, h) \<Rightarrow>
      if res \<noteq> VK_SUCCESS then Some (res, sl, h) else copy_names a ns sl h) = Some (res, sl', h') \<and>
     (res = VK_SUCCESS \<and> sl_strings sl' = ns \<or> res = VK_ERROR_OUT_OF_HOST_MEMORY)"
proof (cases "succeeds h")
  case True
  let ?sl = "sl\<lparr>sl_list := Buf (replicate (length ns) None), sl_allocated_count := length ns, sl_count := 0\<rparr>"
  have c: "create_string_list a (length ns) sl h = (VK_SUCCESS, ?sl, add_live 1 (tick h))"
    using True by (simp add: create_string_list_def loader_calloc_def)
  have "wf_string_list ?sl" and e: "sl_strings ?sl = []" using assms(1) by (simp_all add: wf_string_list_def sl_strings_def)
  then obtain r l' h' where "copied.append_all a ?sl ns (add_live 1 (tick h)) = Some (r, l', h')"
    and "\<exists>n\<le>length ns. sl_strings l' = sl_strings ?sl @ take n ns \<and> (if r = VK_SUCCESS then n = length ns \<and> wf_string_list l' else r = VK_ERROR_OUT_OF_HOST_MEMORY)"
    using copied.append_all_defined [of ?sl ns a "add_live 1 (tick h)"] assms(2) by auto
  then show ?thesis unfolding c copy_names_append_all e by (auto split: if_splits)
next
  case False
  then show ?thesis by (simp add: create_string_list_def loader_calloc_def)
qed

text \<open>An application asked for a layer of which no version can be loaded.\<close>

definition requested_missing :: "linker \<Rightarrow> chain_layer list \<Rightarrow> nat list \<Rightarrow> string list \<Rightarrow> bool" where
  "requested_missing lk L expanded pp \<longleftrightarrow>
     (\<exists>i\<in>set expanded. name_at L i \<in> set pp \<and> (\<forall>j\<in>set expanded. name_at L j = name_at L i \<longrightarrow> instance_gipa lk (L ! j) = None))"

lemma call_path_head: "call_path links g h gs \<Longrightarrow> \<exists>rest. gs = g # rest"
  by (induction rule: call_path.induct) auto

lemma chain_inv_missing:
  assumes inv: "chain_inv lk L n expanded cs" and lt: "\<forall>i\<in>set expanded. i < length L"
  shows "list_ex (\<lambda>i. layerName (info (ch_layers cs ! i)) \<notin> set (activated_layers cs) \<and> layerName (info (ch_layers cs ! i)) \<in> set pp) expanded \<longleftrightarrow>
    requested_missing lk L expanded pp"
proof -
  let ?A = "instance_layers_of lk L expanded"
  have nm: "layerName (info (ch_layers cs ! i)) = name_at L i" if "i \<in> set expanded" for i
    using inv lt that by (simp add: chain_inv_def Let_def same_layer_def)
  have "activated_layers cs = rev (map (name_at L) ?A)" using inv by (simp add: chain_inv_def Let_def)
  then have act: "set (activated_layers cs) = name_at L ` set ?A" by simp
  show ?thesis unfolding act activated_of_name_iff list_ex_iff requested_missing_def using nm by auto
qed

lemma instance_chain_spec:
  assumes "distinct expanded" and fresh: "\<forall>i\<in>set expanded. i < length L \<and> fresh_layer (L ! i)" and pp: "length pp \<le> 2 ^ 31"
  shows "\<exists>res cs names'. loader_create_instance_chain lk a create pp expanded L names h = Some (res, cs, names') \<and>
    (res = VK_ERROR_OUT_OF_HOST_MEMORY \<and> names' = names \<and> live (ch_heap cs) = live h \<or>
     chain_inv lk L (live h) expanded (cs\<lparr>ch_heap := h\<rparr>) \<and>
     (if requested_missing lk L expanded pp then res = VK_ERROR_LAYER_NOT_PRESENT
      else (case gipa_create lk (the (next_gipa cs)) ''vkCreateInstance'' of
         None \<Rightarrow> res = VK_ERROR_INITIALIZATION_FAILED
       | Some f \<Rightarrow> res = create f (pLayerInfo cs) (link_infos cs) \<and> (res = VK_SUCCESS \<longrightarrow> pp = [] \<or> sl_strings names' = pp) \<or>
           create f (pLayerInfo cs) (link_infos cs) = VK_SUCCESS \<and> res = VK_ERROR_OUT_OF_HOST_MEMORY)))"
proof -
  obtain ret cs where loop: "chain_loop lk a (rev expanded) (initial_chain lk L h) = Some (ret, cs)"
    and ret: "ret = Some VK_ERROR_OUT_OF_HOST_MEMORY \<and> live (ch_heap cs) = live h \<or> ret = None \<and> chain_inv lk L (live h) expanded cs"
    using chain_loop_spec [OF chain_inv_initial [of lk L h], of expanded a] assms by auto
  show ?thesis
  proof (cases ret)
    case (Some r)
    with ret loop show ?thesis by (auto simp: loader_create_instance_chain_def)
  next
    case None
    with ret have inv: "chain_inv lk L (live h) expanded cs" by simp
    have inv': "chain_inv lk L (live h) expanded (cs\<lparr>ch_heap := h'\<rparr>)" if "live h' = live h" for h'
      using inv that by (simp add: chain_inv_def Let_def)
    have miss: "list_ex (\<lambda>i. layerName (info (ch_layers cs ! i)) \<notin> set (activated_layers cs) \<and> layerName (info (ch_layers cs ! i)) \<in> set pp) expanded \<longleftrightarrow>
        requested_missing lk L expanded pp" by (rule chain_inv_missing [OF inv]) (use fresh in blast)
    obtain g where g: "next_gipa cs = Some g"
    proof -
      let ?A = "instance_layers_of lk L expanded"
      have "call_path (link_infos cs) (next_gipa cs) (pLayerInfo cs) (map (\<lambda>i. instance_gipa lk (L ! i)) ?A @ [Some (gpa_instance_terminator lk)])"
        using inv by (simp add: chain_inv_def Let_def)
      from call_path_head [OF this] have "next_gipa cs \<in> set (map (\<lambda>i. instance_gipa lk (L ! i)) ?A @ [Some (gpa_instance_terminator lk)])"
        by (metis list.set_intros(1))
      then have "next_gipa cs \<noteq> None" using activated_of_loads [of _ _ _ expanded] by fastforce
      with that show thesis by blast
    qed
    show ?thesis
    proof (cases "requested_missing lk L expanded pp")
      case True
      with loop None miss inv' show ?thesis by (simp add: loader_create_instance_chain_def)
    next
      case False
      show ?thesis
      proof (cases "gipa_create lk g ''vkCreateInstance''")
        case none: None
        with loop None miss False inv' g show ?thesis by (simp add: loader_create_instance_chain_def)
      next
        case (Some f)
        show ?thesis
        proof (cases "create f (pLayerInfo cs) (link_infos cs) \<noteq> VK_SUCCESS \<or> pp = []")
          case True
          with loop None miss False inv' g Some show ?thesis by (auto simp: loader_create_instance_chain_def Let_def)
        next
          case names: False
          obtain r sl h' where rec: "(case create_string_list a (length pp) names (ch_heap cs) of (res, sl, h) \<Rightarrow>
              if res \<noteq> VK_SUCCESS then Some (res, sl, h) else copy_names a pp sl h) = Some (r, sl, h')"
            and r: "r = VK_SUCCESS \<and> sl_strings sl = pp \<or> r = VK_ERROR_OUT_OF_HOST_MEMORY"
            using recorded_names [OF _ pp, of a names "ch_heap cs"] names by blast
          have "loader_create_instance_chain lk a create pp expanded L names h = Some (r, cs\<lparr>ch_heap := h'\<rparr>, sl)"
            using loop None miss False g Some names rec
            by (auto simp: loader_create_instance_chain_def Let_def split: prod.splits if_splits)
          with r inv' names Some g False show ?thesis by auto
        qed
      qed
    qed
  qed
qed

section \<open>Properties\<close>

text \<open>C1: When no layer is in the list twice, the listed layers have not been opened before and the application names at most two to the 31 layers, creating the chain of an instance has no undefined
  behaviour, whatever the libraries and layers answer.  (A layer that is listed twice can be called through a null pointer.)  Unless memory runs out, a call that
  enters the chain passes through exactly the listed layers that can be loaded, of each name the last listed, in the order of the list, and ends in the terminator of the loader.
  \<^verbatim>\<open>VK_ERROR_LAYER_NOT_PRESENT\<close> is returned exactly when the application asked for a layer of which no version can be loaded; otherwise the result is that of the
  topmost \<^verbatim>\<open>vkCreateInstance\<close>, and on success the requested names are recorded.\<close>

theorem instance_chain_correct:
  assumes "distinct expanded" and "\<forall>i\<in>set expanded. i < length L \<and> fresh_layer (L ! i)" and "length pp \<le> 2 ^ 31"
  shows "\<exists>res cs names'. loader_create_instance_chain lk a create pp expanded L names h = Some (res, cs, names') \<and>
    (res = VK_ERROR_OUT_OF_HOST_MEMORY \<and> names' = names \<and> live (ch_heap cs) = live h \<or>
     call_path (link_infos cs) (next_gipa cs) (pLayerInfo cs)
       (map (\<lambda>i. instance_gipa lk (L ! i)) (instance_layers_of lk L expanded) @ [Some (gpa_instance_terminator lk)]) \<and>
     activated_layers cs = rev (map (name_at L) (instance_layers_of lk L expanded)) \<and>
     (if requested_missing lk L expanded pp then res = VK_ERROR_LAYER_NOT_PRESENT
      else (case gipa_create lk (the (next_gipa cs)) ''vkCreateInstance'' of
         None \<Rightarrow> res = VK_ERROR_INITIALIZATION_FAILED
       | Some f \<Rightarrow> res = create f (pLayerInfo cs) (link_infos cs) \<and> (res = VK_SUCCESS \<longrightarrow> pp = [] \<or> sl_strings names' = pp) \<or>
           create f (pLayerInfo cs) (link_infos cs) = VK_SUCCESS \<and> res = VK_ERROR_OUT_OF_HOST_MEMORY)))"
proof -
  obtain res cs names' where run: "loader_create_instance_chain lk a create pp expanded L names h = Some (res, cs, names')"
    and out: "res = VK_ERROR_OUT_OF_HOST_MEMORY \<and> names' = names \<and> live (ch_heap cs) = live h \<or>
     chain_inv lk L (live h) expanded (cs\<lparr>ch_heap := h\<rparr>) \<and>
     (if requested_missing lk L expanded pp then res = VK_ERROR_LAYER_NOT_PRESENT
      else (case gipa_create lk (the (next_gipa cs)) ''vkCreateInstance'' of
         None \<Rightarrow> res = VK_ERROR_INITIALIZATION_FAILED
       | Some f \<Rightarrow> res = create f (pLayerInfo cs) (link_infos cs) \<and> (res = VK_SUCCESS \<longrightarrow> pp = [] \<or> sl_strings names' = pp) \<or>
           create f (pLayerInfo cs) (link_infos cs) = VK_SUCCESS \<and> res = VK_ERROR_OUT_OF_HOST_MEMORY))"
    using instance_chain_spec [OF assms, of lk a create names h] by blast
  have inv: "call_path (link_infos cs) (next_gipa cs) (pLayerInfo cs)
       (map (\<lambda>i. instance_gipa lk (L ! i)) (instance_layers_of lk L expanded) @ [Some (gpa_instance_terminator lk)]) \<and>
     activated_layers cs = rev (map (name_at L) (instance_layers_of lk L expanded))"
    if "chain_inv lk L (live h) expanded (cs\<lparr>ch_heap := h\<rparr>)"
    using that by (simp add: chain_inv_def Let_def)
  show ?thesis using run out inv by blast
qed

text \<open>Two layers of which one can be loaded, for the examples.\<close>

definition sample_linker :: linker where
  "sample_linker = \<lparr>open_library = (\<lambda>n. if n = Some ''a.so'' then Inl 1 else if n = Some ''b.so'' then Inl 2 else Inr ''not found''),
     get_proc_address = (\<lambda>lib n. if n = ''vkGetInstanceProcAddr'' then Some (10 * lib) else if n = ''vkGetDeviceProcAddr'' then Some (10 * lib + 1) else None),
     dli_fname_of = (\<lambda>_. None), realpath_of = (\<lambda>_. None), call_negotiate = (\<lambda>_ s. (VK_SUCCESS, s)), gipa_create = (\<lambda>f n. Some (100 + f)),
     gpa_instance_terminator = 3, gpdpa_instance_terminator = 4, gpa_device_terminator = 5\<rparr>"

definition plain_layer :: "string \<Rightarrow> string \<Rightarrow> chain_layer" where
  "plain_layer nm lib = loader_layer_properties.extend (zero_layer\<lparr>info := (info zero_layer)\<lparr>layerName := nm\<rparr>, lib_name := Some lib\<rparr>)
     (chain_layer.fields None None None None)"

definition sample_layers :: "chain_layer list" where
  "sample_layers = [plain_layer ''A'' ''a.so'', plain_layer ''C'' ''c.so'', plain_layer ''B'' ''b.so'']"

lemma sample_layers_fresh: "\<forall>i\<in>set [0, 1, 2]. i < length sample_layers \<and> fresh_layer (sample_layers ! i)"
  by (simp add: sample_layers_def plain_layer_def fresh_layer_def zero_layer_def loader_layer_properties.defs chain_layer.defs)

lemma sample_layers_all: "list_all (\<lambda>i. i < length sample_layers \<and> fresh_layer (sample_layers ! i)) [0, 1, 2]"
  using sample_layers_fresh by (simp only: list_all_iff)

lemma sample_chain: "instance_layers_of sample_linker sample_layers [0, 1, 2] = [0, 2]"
  "map (\<lambda>i. instance_gipa sample_linker (sample_layers ! i)) [0, 2] = [Some 10, Some 20]"
  "map (\<lambda>i. instance_gdpa sample_linker (sample_layers ! i)) [0, 2] = [Some 11, Some 21]"
  "\<not> requested_missing sample_linker sample_layers [0, 1, 2] [''A'']"
  by (simp_all add: sample_layers_def plain_layer_def zero_layer_def loader_layer_properties.defs chain_layer.defs sample_linker_def
      instance_gipa_def instance_gdpa_def library_of_def best_gipa_def best_gdpa_def best_function_def negotiated_def function_name_def requested_missing_def)

theorem instance_chain_correct_witness:
  "distinct [0, 1, 2 :: nat] \<and> list_all (\<lambda>i. i < length sample_layers \<and> fresh_layer (sample_layers ! i)) [0, 1, 2] \<and> length [''A''] \<le> 2 ^ 31 \<and>
   (\<exists>res cs names'. loader_create_instance_chain sample_linker None (\<lambda>_ _ _. VK_SUCCESS) [''A''] [0, 1, 2] sample_layers empty_string_list (sample_heap True) = Some (res, cs, names') \<and>
     (res = VK_ERROR_OUT_OF_HOST_MEMORY \<or> call_path (link_infos cs) (next_gipa cs) (pLayerInfo cs) [Some 10, Some 20, Some 3] \<and> activated_layers cs = [''B'', ''A'']))"
proof -
  have d: "distinct [0, 1, 2 :: nat]" and l: "length [''A''] \<le> (2 :: nat) ^ 31" by simp_all
  have nm: "rev (map (name_at sample_layers) [0, 2]) = [''B'', ''A'']"
    by (simp add: sample_layers_def plain_layer_def zero_layer_def loader_layer_properties.defs chain_layer.defs)
  have t: "[Some 10, Some 20] @ [Some (gpa_instance_terminator sample_linker)] = [Some 10, Some 20, Some 3]" by (simp add: sample_linker_def)
  show ?thesis
    using instance_chain_correct [OF d sample_layers_fresh l, of sample_linker None "\<lambda>_ _ _. VK_SUCCESS" empty_string_list "sample_heap True"] sample_layers_all d l
    unfolding sample_chain(1) sample_chain(2) nm t by blast
qed

text \<open>The second pass over a layer that is listed twice.\<close>

lemma second_pass:
  assumes i: "i < length L" and fresh: "fresh_layer (L ! i)" and gi: "instance_gipa lk (L ! i) = None"
    and lib: "library_of lk (L ! i) = Some lib" and neg: "negotiated lk lib (L ! i) \<noteq> None"
  shows "\<exists>ret cs. chain_loop lk a [i, i] (initial_chain lk L h) = Some (ret, cs) \<and>
     (ret = Some VK_ERROR_OUT_OF_HOST_MEMORY \<or> ret = None \<and> next_gipa cs = None \<and> name_at (ch_layers cs) i \<in> set (activated_layers cs))"
proof -
  let ?l = "L ! i" and ?lo = "loader_open_layer_file lk (L ! i)" and ?cs = "initial_chain lk L h"
  obtain s where s: "negotiated lk lib ?l = Some s" using neg by blast
  have op: "open_library lk (lib_name ?l) = Inl lib" using lib by (auto simp: library_of_def split: sum.splits)
  have lo: "lib_handle ?lo = Some lib" "same_layer ?l ?lo" "lib_status ?lo \<noteq> LOADER_LAYER_LIB_ERROR_OUT_OF_MEMORY" "lib_name ?lo = lib_name ?l"
    "negotiate_layer_interface ?lo = None" "get_instance_proc_addr ?lo = None" "get_device_proc_addr ?lo = None" "interface_version ?lo \<le> 1"
    using op fresh by (simp_all add: loader_open_layer_file_def same_layer_def fresh_layer_def)
  have bg: "best_gipa lk lib ?lo = None" using gi lib same_layer_functions(1) [OF lo(2)] by (simp add: instance_gipa_def)
  let ?r = "resolve_functions lk lib ?lo (cur_gipa ?cs, cur_gdpa ?cs, cur_gpdpa ?cs)"
  obtain l1 d p where r: "?r = (False, l1, None, d, p)" and l1: "same_layer ?lo l1" "lib_name l1 = lib_name ?lo"
    using resolve_fresh [OF lo(5-8), of lk lib "(cur_gipa ?cs, cur_gdpa ?cs, cur_gpdpa ?cs)"] bg by auto
  have ng: "negotiate_layer_interface l1 \<noteq> None"
  proof -
    have "negotiated lk lib ?lo = Some s" using s same_layer_functions(2) [OF lo(2)] by simp
    moreover from this obtain f where
      "get_proc_address lk lib (function_name (str_negotiate_interface (layer_functions ?lo)) ''vkNegotiateLoaderLayerInterfaceVersion'') = Some f"
      by (auto simp: negotiated_def split: option.splits)
    ultimately show ?thesis using r lo(5,6)
      by (auto simp: resolve_functions_def negotiate_functions_cases Let_def split: if_splits)
  qed
  let ?c1 = "set_layer i l1 ((set_layer i ?lo ?cs)\<lparr>cur_gipa := None, cur_gdpa := d, cur_gpdpa := p\<rparr>)"
  have first: "chain_step lk a i ?cs = Some (None, ?c1)"
    using i lo r by (simp add: chain_step_def Let_def initial_chain_def loader_names_array_has_layer_property_def set_layer_def)
  let ?lo1 = "loader_open_layer_file lk l1"
  have lo1: "lib_handle ?lo1 = Some lib" "lib_status ?lo1 \<noteq> LOADER_LAYER_LIB_ERROR_OUT_OF_MEMORY" "negotiate_layer_interface ?lo1 \<noteq> None" "lib_name ?lo1 = lib_name ?l"
    using op ng l1(2) lo(4) by (simp_all add: loader_open_layer_file_def)
  obtain nm where nm: "lib_name ?l = Some nm" using fresh by (auto simp: fresh_layer_def)
  let ?c1' = "(set_layer i ?lo1 ?c1)\<lparr>cur_gipa := None, cur_gdpa := d, cur_gpdpa := p\<rparr>"
  let ?l2 = "fst (link_layer i ?lo1 ?c1')" and ?c2 = "snd (link_layer i ?lo1 ?c1')"
  have res: "resolve_functions lk lib ?lo1 cur = (True, ?lo1, cur)" for cur using lo1(3) by (simp add: resolve_functions_def)
  obtain ret nm' h' where fx: "fixup_library_binary_path (realpath_of lk) a (dli_fname_of lk None) nm (ch_heap ?c2) = (ret, nm', h')"
    using fixup_outcome by blast
  let ?c3 = "set_layer i (?l2\<lparr>lib_name := Some nm'\<rparr>) (?c2\<lparr>ch_heap := h'\<rparr>)"
  have "chain_step lk a i ?c1 = (if ret = VK_ERROR_OUT_OF_HOST_MEMORY then Some (Some ret, ?c3)
      else Some (None, ?c3\<lparr>activated_layers := activated_layers ?c3 @ [layerName (info ?l2)]\<rparr>))"
    using i lo1 res fx nm
    by (simp add: chain_step_def Let_def case_prod_beta link_layer_fields link_layer_state set_layer_def initial_chain_def loader_names_array_has_layer_property_def)
  with first show ?thesis using i by (auto simp: link_layer_state set_layer_def initial_chain_def)
qed

text \<open>C37: A layer that is listed twice, that negotiates an interface version but has no \<^verbatim>\<open>vkGetInstanceProcAddr\<close>, is skipped the first time and linked the second
  time with a null function, because its functions are only looked up while \<^verbatim>\<open>negotiate_layer_interface\<close> is null; unless memory runs out, the loader calls through the null pointer.\<close>

theorem layer_listed_twice_calls_null:
  assumes "i < length L" and "fresh_layer (L ! i)" and "instance_gipa lk (L ! i) = None"
    and "library_of lk (L ! i) = Some lib" and "negotiated lk lib (L ! i) \<noteq> None"
  shows "loader_create_instance_chain lk a create pp [i, i] L names h = None \<or>
    (\<exists>cs. loader_create_instance_chain lk a create pp [i, i] L names h = Some (VK_ERROR_OUT_OF_HOST_MEMORY, cs, names))"
proof -
  have rv: "rev [i, i] = [i, i]" by simp
  obtain ret cs where "chain_loop lk a [i, i] (initial_chain lk L h) = Some (ret, cs)"
    and "ret = Some VK_ERROR_OUT_OF_HOST_MEMORY \<or> ret = None \<and> next_gipa cs = None \<and> name_at (ch_layers cs) i \<in> set (activated_layers cs)"
    using second_pass [OF assms, of a h] by blast
  then show ?thesis unfolding loader_create_instance_chain_def rv by (auto simp del: chain_loop.simps)
qed

definition twice_linker :: linker where
  "twice_linker = sample_linker\<lparr>get_proc_address := (\<lambda>lib n. if n = ''vkNegotiateLoaderLayerInterfaceVersion'' then Some 30 else None)\<rparr>"

theorem layer_listed_twice_calls_null_witness:
  "0 < length sample_layers \<and> fresh_layer (sample_layers ! 0) \<and> instance_gipa twice_linker (sample_layers ! 0) = None \<and>
   library_of twice_linker (sample_layers ! 0) = Some 1 \<and> negotiated twice_linker 1 (sample_layers ! 0) \<noteq> None \<and>
   (loader_create_instance_chain twice_linker None (\<lambda>_ _ _. VK_SUCCESS) [] [0, 0] sample_layers empty_string_list (sample_heap True) = None \<or>
    (\<exists>cs. loader_create_instance_chain twice_linker None (\<lambda>_ _ _. VK_SUCCESS) [] [0, 0] sample_layers empty_string_list (sample_heap True) =
       Some (VK_ERROR_OUT_OF_HOST_MEMORY, cs, empty_string_list)))"
proof -
  have h: "0 < length sample_layers" "fresh_layer (sample_layers ! 0)" using sample_layers_fresh by auto
  have l: "library_of twice_linker (sample_layers ! 0) = Some 1" and n: "negotiated twice_linker 1 (sample_layers ! 0) \<noteq> None"
    and g: "instance_gipa twice_linker (sample_layers ! 0) = None"
    by (simp_all add: sample_layers_def plain_layer_def zero_layer_def loader_layer_properties.defs chain_layer.defs sample_linker_def twice_linker_def
      instance_gipa_def library_of_def best_gipa_def best_function_def negotiated_def function_name_def loader_get_layer_interface_version_def
      CURRENT_LOADER_LAYER_INTERFACE_VERSION_def MIN_SUPPORTED_LOADER_LAYER_INTERFACE_VERSION_def)
  show ?thesis using layer_listed_twice_calls_null [OF h g l n, of None "\<lambda>_ _ _. VK_SUCCESS" "[]" empty_string_list "sample_heap True"] h l n g by blast
qed

end
