(* ===== verification/DeviceChains.thy ===== *)
theory DeviceChains
  imports LayerChains
begin

text \<open>
  The chain of layers of a device, \<^verbatim>\<open>loader_create_device_chain\<close> (\<^verbatim>\<open>loader.c\<close>), on the layers the instance chain left: the links below a calling layer,
  and the device group structure of the application, whose handles are replaced in a copy on the stack.
\<close>

section \<open>The device chain\<close>

record VkLayerDeviceLink =
  ld_pNext :: "nat option"
  ld_pfnNextGetInstanceProcAddr :: "nat option"
  ld_pfnNextGetDeviceProcAddr :: "nat option"

record device_chain_state =
  dc_layers :: "chain_layer list"
  nextGIPA :: "nat option"
  nextGDPA :: "nat option"
  dev_links :: "VkLayerDeviceLink list"
  dev_pLayerInfo :: "nat option"
  dev_activated :: "string list"
  layerNextGDPA :: "nat option"

text \<open>One pass of the loop; the first component says that the loop is left.\<close>

definition device_step :: "linker \<Rightarrow> nat option \<Rightarrow> nat \<Rightarrow> device_chain_state \<Rightarrow> (bool \<times> device_chain_state) option" where
  "device_step lk callingLayer i cs =
     (if i \<ge> length (dc_layers cs) then None
      else (let l = dc_layers cs ! i in
        if loader_names_array_has_layer_property l (dev_activated cs) then Some (False, cs)
        else (case lib_handle l of
          None \<Rightarrow> Some (False, cs)
        | Some lib \<Rightarrow>
            (case layer_gipa lk lib l of (fpGIPA, l) \<Rightarrow>
               let cs = cs\<lparr>dc_layers := (dc_layers cs)[i := l]\<rparr> in
               if fpGIPA = None then Some (False, cs)
               else if fpGIPA = callingLayer then Some (True, cs\<lparr>layerNextGDPA := nextGDPA cs\<rparr>)
               else (case layer_gdpa lk lib l of (fpGDPA, l) \<Rightarrow>
                 let cs = cs\<lparr>dc_layers := (dc_layers cs)[i := l]\<rparr> in
                 if fpGDPA = None then Some (False, cs)
                 else Some (False, cs\<lparr>dev_links := dev_links cs @ [\<lparr>ld_pNext = dev_pLayerInfo cs, ld_pfnNextGetInstanceProcAddr = nextGIPA cs,
                          ld_pfnNextGetDeviceProcAddr = nextGDPA cs\<rparr>], dev_pLayerInfo := Some (length (dev_links cs)),
                        nextGIPA := fpGIPA, nextGDPA := fpGDPA, dev_activated := dev_activated cs @ [layerName (info l)]\<rparr>))))))"

fun device_loop :: "linker \<Rightarrow> nat option \<Rightarrow> nat list \<Rightarrow> device_chain_state \<Rightarrow> device_chain_state option" where
  "device_loop lk callingLayer [] cs = Some cs"
| "device_loop lk callingLayer (i # is) cs = do {
     (leave, cs) \<leftarrow> device_step lk callingLayer i cs;
     (if leave then Some cs else device_loop lk callingLayer is cs)
   }"

definition initial_device_chain :: "linker \<Rightarrow> chain_layer list \<Rightarrow> device_chain_state" where
  "initial_device_chain lk layers = \<lparr>dc_layers = layers, nextGIPA = Some (gpa_instance_terminator lk), nextGDPA = Some (gpa_device_terminator lk),
     dev_links = [], dev_pLayerInfo = None, dev_activated = [], layerNextGDPA = None\<rparr>"

text \<open>The structures the application chained to its request: \<open>cn_devices\<close> is the array of a device group.  The request itself is copied; 0 as the predecessor is the copy.\<close>

record chain_node =
  cn_sType :: nat
  cn_pNext :: nat
  cn_devices :: "nat list option"

definition VK_STRUCTURE_TYPE_DEVICE_GROUP_DEVICE_CREATE_INFO :: nat where "VK_STRUCTURE_TYPE_DEVICE_GROUP_DEVICE_CREATE_INFO = 1000070001"

partial_function (option) find_group :: "(nat \<rightharpoonup> chain_node) \<Rightarrow> nat \<Rightarrow> nat \<Rightarrow> (nat \<times> nat) option" where
  "find_group m pPrev p =
     (if p = 0 then Some (pPrev, 0)
      else do {
        n \<leftarrow> m p;
        (if cn_sType n = VK_STRUCTURE_TYPE_DEVICE_GROUP_DEVICE_CREATE_INFO then Some (pPrev, p) else find_group m p (cn_pNext n))
      })"

definition has_devices :: "chain_node \<Rightarrow> bool" where
  "has_devices n = (case cn_devices n of None \<Rightarrow> False | Some ds \<Rightarrow> ds \<noteq> [])"

text \<open>Replace the device group by a copy at \<open>temp\<close> with unwrapped devices; the structure before it is changed.  The result has the structures, the first of them,
  and the original group.\<close>

definition replace_group :: "(nat \<Rightarrow> nat option) \<Rightarrow> nat \<Rightarrow> (nat \<rightharpoonup> chain_node) \<Rightarrow> nat \<Rightarrow> ((nat \<rightharpoonup> chain_node) \<times> nat \<times> nat) option" where
  "replace_group unwrap temp m head = do {
     (pPrev, p) \<leftarrow> find_group m 0 head;
     (if p = 0 then Some (m, head, 0)
      else do {
        n \<leftarrow> m p;
        (if \<not> has_devices n then Some (m, head, 0)
         else do {
           ds \<leftarrow> those (map unwrap (the (cn_devices n)));
           let m = m(temp \<mapsto> n\<lparr>cn_devices := Some ds\<rparr>);
           (if pPrev = 0 then Some (m, temp, p)
            else do {
              q \<leftarrow> m pPrev;
              Some (m(pPrev \<mapsto> q\<lparr>cn_pNext := temp\<rparr>), head, p)
            })
         })
      })
   }"

definition restore_group :: "(nat \<rightharpoonup> chain_node) \<Rightarrow> nat \<Rightarrow> nat \<Rightarrow> (nat \<rightharpoonup> chain_node) option" where
  "restore_group m head original = do {
     (pPrev, p) \<leftarrow> find_group m 0 head;
     (if p = 0 then Some m
      else do {
        n \<leftarrow> m p;
        (if \<not> has_devices n \<or> pPrev = 0 then Some m
         else do {
           q \<leftarrow> m pPrev;
           Some (m(pPrev \<mapsto> q\<lparr>cn_pNext := original\<rparr>))
         })
      })
   }"

text \<open>\<open>unwrap\<close> reads the device a trampoline object stands for; \<open>create f head links m p\<close> is the call of the topmost \<^verbatim>\<open>vkCreateDevice\<close>.  The copy of
  the group is on the stack: it is gone when the function returns.\<close>

definition loader_create_device_chain ::
  "linker \<Rightarrow> (nat \<Rightarrow> nat option) \<Rightarrow> nat \<Rightarrow> (nat \<Rightarrow> nat option \<Rightarrow> VkLayerDeviceLink list \<Rightarrow> (nat \<rightharpoonup> chain_node) \<Rightarrow> nat \<Rightarrow> VkResult) \<Rightarrow> nat option \<Rightarrow> nat list \<Rightarrow>
     chain_layer list \<Rightarrow> (nat \<rightharpoonup> chain_node) \<Rightarrow> nat \<Rightarrow> (VkResult \<times> device_chain_state \<times> (nat \<rightharpoonup> chain_node)) option" where
  "loader_create_device_chain lk unwrap temp create callingLayer expanded layers m pNext = do {
     (m, head, original) \<leftarrow> replace_group unwrap temp m pNext;
     cs \<leftarrow> device_loop lk callingLayer (rev expanded) (initial_device_chain lk layers);
     gipa \<leftarrow> nextGIPA cs;
     (case gipa_create lk gipa ''vkCreateDevice'' of
        None \<Rightarrow> Some (VK_ERROR_INITIALIZATION_FAILED, cs, m(temp := None))
      | Some fpCreateDevice \<Rightarrow>
          (let res = create fpCreateDevice (dev_pLayerInfo cs) (dev_links cs) m head in
           if res \<noteq> VK_SUCCESS then Some (res, cs, m(temp := None))
           else do {
             m \<leftarrow> restore_group m head original;
             Some (VK_SUCCESS, cs, m(temp := None))
           }))
   }"

section \<open>Paths of calls\<close>

inductive device_path :: "VkLayerDeviceLink list \<Rightarrow> nat option \<Rightarrow> nat option \<Rightarrow> nat option list \<Rightarrow> bool" for links where
  bottom: "device_path links g None [g]"
| layer: "k < length links \<Longrightarrow> device_path links (ld_pfnNextGetDeviceProcAddr (links ! k)) (ld_pNext (links ! k)) gs \<Longrightarrow> device_path links g (Some k) (g # gs)"

lemma device_path_extend: "device_path links g h gs \<Longrightarrow> device_path (links @ [x]) g h gs"
  by (induction rule: device_path.induct) (auto intro!: device_path.intros simp: nth_append)

lemma device_path_add:
  assumes "device_path links n h gs"
  shows "device_path (links @ [\<lparr>ld_pNext = h, ld_pfnNextGetInstanceProcAddr = p, ld_pfnNextGetDeviceProcAddr = n\<rparr>]) g (Some (length links)) (g # gs)"
  using device_path_extend [OF assms] by (intro device_path.layer) simp_all

section \<open>The device chain follows the instance chain\<close>

text \<open>What the instance chain left of layer \<open>i\<close>, when the layers of the chain are \<open>A\<close>.\<close>

definition settled :: "linker \<Rightarrow> chain_layer list \<Rightarrow> nat list \<Rightarrow> nat \<Rightarrow> chain_layer \<Rightarrow> bool" where
  "settled lk L A i l \<longleftrightarrow> layerName (info l) = name_at L i \<and> (if i \<in> set A then linked_layer lk (L ! i) l else skipped_layer lk l)"

definition device_inv :: "linker \<Rightarrow> chain_layer list \<Rightarrow> nat list \<Rightarrow> nat list \<Rightarrow> nat list \<Rightarrow> device_chain_state \<Rightarrow> bool" where
  "device_inv lk L E A D cs \<longleftrightarrow> length (dc_layers cs) = length L \<and> (\<forall>i\<in>set E. settled lk L A i (dc_layers cs ! i)) \<and>
     dev_activated cs = rev (map (name_at L) D) \<and> nextGIPA cs \<noteq> None \<and>
     device_path (dev_links cs) (nextGDPA cs) (dev_pLayerInfo cs) (map (\<lambda>i. instance_gdpa lk (L ! i)) D @ [Some (gpa_device_terminator lk)])"

lemma layer_gipa_snd:
  "info (snd (layer_gipa lk lib l)) = info l" "lib_handle (snd (layer_gipa lk lib l)) = lib_handle l"
  "fst (layer_gipa lk lib' (snd (layer_gipa lk lib l))) = (if lib' = lib then fst (layer_gipa lk lib l) else fst (layer_gipa lk lib' (snd (layer_gipa lk lib l))))"
  "fst (layer_gdpa lk lib' (snd (layer_gipa lk lib l))) = fst (layer_gdpa lk lib' l)"
  by (auto simp: layer_gipa_def layer_gdpa_def Let_def split: option.splits)

lemma layer_gdpa_snd:
  "info (snd (layer_gdpa lk lib l)) = info l" "lib_handle (snd (layer_gdpa lk lib l)) = lib_handle l"
  "fst (layer_gipa lk lib' (snd (layer_gdpa lk lib l))) = fst (layer_gipa lk lib' l)"
  "fst (layer_gdpa lk lib' (snd (layer_gdpa lk lib l))) = (if lib' = lib then fst (layer_gdpa lk lib l) else fst (layer_gdpa lk lib' (snd (layer_gdpa lk lib l))))"
  by (auto simp: layer_gipa_def layer_gdpa_def Let_def split: option.splits)

lemma settled_kept:
  assumes "settled lk L A i l" and "lib_handle l = Some lib"
  shows "settled lk L A i (snd (layer_gipa lk lib l))" and "settled lk L A i (snd (layer_gdpa lk lib l))"
  using assms layer_gipa_snd(3) [of lk lib lib l] layer_gdpa_snd(4) [of lk lib lib l]
  by (auto simp: settled_def linked_layer_def skipped_layer_def layer_gipa_snd(1,2,4) layer_gdpa_snd(1-3) split: if_splits)

lemma device_inv_layers:
  assumes "device_inv lk L E A D cs" and "settled lk L A i l" and "i < length L"
  shows "device_inv lk L E A D (cs\<lparr>dc_layers := (dc_layers cs)[i := l]\<rparr>)"
  using assms by (auto simp: device_inv_def nth_list_update)

lemma device_step_spec:
  assumes inv: "device_inv lk L E A D cs" and i: "i \<in> set E" "i < length L"
    and D: "set D \<subseteq> set A" "i \<notin> set D" and names: "inj_on (name_at L) (set A)" and loads: "\<forall>j\<in>set A. instance_gipa lk (L ! j) \<noteq> None"
  shows "\<exists>leave cs'. device_step lk calling i cs = Some (leave, cs') \<and> leave = (i \<in> set A \<and> instance_gipa lk (L ! i) = calling) \<and>
     layerNextGDPA cs' = (if leave then nextGDPA cs' else layerNextGDPA cs) \<and>
     device_inv lk L E A (if i \<in> set A \<and> \<not> leave \<and> instance_gdpa lk (L ! i) \<noteq> None then i # D else D) cs'"
proof -
  let ?l = "dc_layers cs ! i"
  have c: "length (dc_layers cs) = length L" "settled lk L A i ?l" "dev_activated cs = rev (map (name_at L) D)" using inv i by (auto simp: device_inv_def)
  show ?thesis
  proof (cases "i \<in> set A")
    case False
    then have sk: "skipped_layer lk ?l" using c(2) by (simp add: settled_def)
    show ?thesis
    proof (cases "loader_names_array_has_layer_property ?l (dev_activated cs) \<or> lib_handle ?l = None")
      case True
      with False c(1) i(2) inv show ?thesis by (auto simp: device_step_def Let_def)
    next
      case run: False
      then obtain lib where lib: "lib_handle ?l = Some lib" by blast
      have "fst (layer_gipa lk lib ?l) = None" using sk lib by (simp add: skipped_layer_def)
      then have "device_step lk calling i cs = Some (False, cs\<lparr>dc_layers := (dc_layers cs)[i := snd (layer_gipa lk lib ?l)]\<rparr>)"
        using run lib c(1) i(2) by (simp add: device_step_def Let_def case_prod_beta)
      with False device_inv_layers [OF inv settled_kept(1) [OF c(2) lib] i(2)] show ?thesis by (intro exI [of _ False]) simp
    qed
  next
    case True
    then obtain lib where lib: "lib_handle ?l = Some lib" and gi: "fst (layer_gipa lk lib ?l) = instance_gipa lk (L ! i)"
      and gd: "fst (layer_gdpa lk lib ?l) = instance_gdpa lk (L ! i)" using c(2) by (auto simp: settled_def linked_layer_def)
    let ?l1 = "snd (layer_gipa lk lib ?l)" and ?l2 = "snd (layer_gdpa lk lib (snd (layer_gipa lk lib ?l)))"
    have nm: "layerName (info ?l) = name_at L i" using c(2) by (simp add: settled_def)
    have new: "\<not> loader_names_array_has_layer_property ?l (dev_activated cs)"
      using c(3) nm D True names by (auto simp: loader_names_array_has_layer_property_def inj_on_def)
    have found: "instance_gipa lk (L ! i) \<noteq> None" using loads True by blast
    have s1: "settled lk L A i ?l1" by (rule settled_kept(1) [OF c(2) lib])
    have s2: "settled lk L A i ?l2" by (rule settled_kept(2) [OF s1]) (simp add: layer_gipa_snd lib)
    let ?c1 = "cs\<lparr>dc_layers := (dc_layers cs)[i := ?l1]\<rparr>" and ?c2 = "cs\<lparr>dc_layers := (dc_layers cs)[i := ?l2]\<rparr>"
    have gd1: "fst (layer_gdpa lk lib ?l1) = instance_gdpa lk (L ! i)" using gd by (simp add: layer_gipa_snd(4))
    have step: "device_step lk calling i cs =
        (if instance_gipa lk (L ! i) = calling then Some (True, ?c1\<lparr>layerNextGDPA := nextGDPA cs\<rparr>)
         else if instance_gdpa lk (L ! i) = None then Some (False, ?c2)
         else Some (False, ?c2\<lparr>dev_links := dev_links cs @ [\<lparr>ld_pNext = dev_pLayerInfo cs, ld_pfnNextGetInstanceProcAddr = nextGIPA cs,
                ld_pfnNextGetDeviceProcAddr = nextGDPA cs\<rparr>], dev_pLayerInfo := Some (length (dev_links cs)),
              nextGIPA := instance_gipa lk (L ! i), nextGDPA := instance_gdpa lk (L ! i), dev_activated := dev_activated cs @ [name_at L i]\<rparr>))"
      using c(1) i(2) new lib found gi gd1 nm by (auto simp: device_step_def Let_def case_prod_beta layer_gipa_snd(1) layer_gdpa_snd(1))
    consider "instance_gipa lk (L ! i) = calling" | "instance_gipa lk (L ! i) \<noteq> calling" "instance_gdpa lk (L ! i) = None"
      | "instance_gipa lk (L ! i) \<noteq> calling" "instance_gdpa lk (L ! i) \<noteq> None" by blast
    then show ?thesis
    proof cases
      case 1
      have "device_inv lk L E A D (?c1\<lparr>layerNextGDPA := nextGDPA cs\<rparr>)"
        using device_inv_layers [OF inv s1 i(2)] by (simp add: device_inv_def)
      with 1 step True show ?thesis by (intro exI [of _ True]) simp
    next
      case 2
      with step True device_inv_layers [OF inv s2 i(2)] show ?thesis by (intro exI [of _ False]) simp
    next
      case 3
      with step True device_inv_layers [OF inv s2 i(2)] found show ?thesis
        by (intro exI [of _ False]) (simp add: device_inv_def device_path_add)
    qed
  qed
qed

text \<open>The layers of a device below the calling one.\<close>

definition device_layers_of :: "linker \<Rightarrow> chain_layer list \<Rightarrow> nat option \<Rightarrow> nat list \<Rightarrow> nat list" where
  "device_layers_of lk L calling A =
     filter (\<lambda>i. instance_gdpa lk (L ! i) \<noteq> None) (rev (takeWhile (\<lambda>i. instance_gipa lk (L ! i) \<noteq> calling) (rev A)))"

lemma device_loop_spec:
  assumes "device_inv lk L E A D cs" and "set ts \<subseteq> set E" "\<forall>i\<in>set E. i < length L" "distinct ts" "set ts \<inter> set D = {}"
    and "set D \<subseteq> set A" "inj_on (name_at L) (set A)" "\<forall>j\<in>set A. instance_gipa lk (L ! j) \<noteq> None"
  shows "\<exists>cs'. device_loop lk calling ts cs = Some cs' \<and>
     layerNextGDPA cs' = (if \<exists>i\<in>set A. i \<in> set ts \<and> instance_gipa lk (L ! i) = calling then nextGDPA cs' else layerNextGDPA cs) \<and>
     device_inv lk L E A (device_layers_of lk L calling (rev (filter (\<lambda>i. i \<in> set A) ts)) @ D) cs'"
  using assms
proof (induction ts arbitrary: D cs)
  case Nil
  then show ?case by (simp add: device_layers_of_def)
next
  case (Cons i ts)
  have i: "i \<in> set E" "i < length L" "i \<notin> set D" using Cons.prems by auto
  define leave where "leave = (i \<in> set A \<and> instance_gipa lk (L ! i) = calling)"
  define D1 where "D1 = (if i \<in> set A \<and> \<not> leave \<and> instance_gdpa lk (L ! i) \<noteq> None then i # D else D)"
  obtain c where step: "device_step lk calling i cs = Some (leave, c)" and c: "layerNextGDPA c = (if leave then nextGDPA c else layerNextGDPA cs)"
    and inv: "device_inv lk L E A D1 c"
    using device_step_spec [OF Cons.prems(1) i(1,2) Cons.prems(6) i(3) Cons.prems(7,8), of calling] unfolding leave_def D1_def by blast
  show ?case
  proof (cases leave)
    case True
    then show ?thesis using step c inv unfolding D1_def by (auto simp: leave_def device_layers_of_def)
  next
    case False
    have pre: "set ts \<subseteq> set E" "distinct ts" "set ts \<inter> set D1 = {}" "set D1 \<subseteq> set A" using Cons.prems unfolding D1_def by auto
    have app: "device_layers_of lk L calling (rev (filter (\<lambda>i. i \<in> set A) (i # ts))) @ D = device_layers_of lk L calling (rev (filter (\<lambda>i. i \<in> set A) ts)) @ D1"
      using False by (auto simp: D1_def leave_def device_layers_of_def)
    obtain c' where "device_loop lk calling ts c = Some c'"
      and "layerNextGDPA c' = (if \<exists>j\<in>set A. j \<in> set ts \<and> instance_gipa lk (L ! j) = calling then nextGDPA c' else layerNextGDPA c)"
      and "device_inv lk L E A (device_layers_of lk L calling (rev (filter (\<lambda>i. i \<in> set A) ts)) @ D1) c'"
      using Cons.IH [OF inv pre(1) Cons.prems(3) pre(2-4) Cons.prems(7,8)] by blast
    with step False c show ?thesis unfolding app by (auto simp: leave_def)
  qed
qed

lemma activated_of_filter: "distinct is \<Longrightarrow> filter (\<lambda>i. i \<in> set (activated_of loads nm is)) is = activated_of loads nm is"
proof (induction "is")
  case (Cons j js)
  have j: "j \<notin> set (activated_of loads nm js)" using Cons.prems activated_of_sub [of loads nm js] by auto
  have "filter (\<lambda>i. i = j \<or> i \<in> set (activated_of loads nm js)) js = filter (\<lambda>i. i \<in> set (activated_of loads nm js)) js"
    by (rule filter_cong) (use Cons.prems in auto)
  with j Cons show ?case by (simp add: Let_def)
qed simp

lemma device_chain_spec:
  assumes inv: "chain_inv lk L n E cs" and E: "distinct E" "\<forall>i\<in>set E. i < length L"
  shows "\<exists>dc. device_loop lk calling (rev E) (initial_device_chain lk (ch_layers cs)) = Some dc \<and>
     layerNextGDPA dc = (if \<exists>i\<in>set (instance_layers_of lk L E). instance_gipa lk (L ! i) = calling then nextGDPA dc else None) \<and>
     device_inv lk L E (instance_layers_of lk L E) (device_layers_of lk L calling (instance_layers_of lk L E)) dc"
proof -
  let ?A = "instance_layers_of lk L E"
  have init: "device_inv lk L E ?A [] (initial_device_chain lk (ch_layers cs))"
    using inv E(2) by (auto simp: device_inv_def initial_device_chain_def settled_def chain_inv_def Let_def same_layer_def device_path.bottom)
  have sub: "set ?A \<subseteq> set E" by (rule activated_of_sub)
  have rv: "rev (filter (\<lambda>i. i \<in> set ?A) (rev E)) = ?A" using activated_of_filter [OF E(1)] by (simp add: rev_filter)
  have inj: "inj_on (name_at L) (set ?A)" using activated_of_names by (auto simp: distinct_map)
  have loads: "\<forall>j\<in>set ?A. instance_gipa lk (L ! j) \<noteq> None" using activated_of_loads by blast
  have ex: "(\<exists>i\<in>set ?A. i \<in> set (rev E) \<and> instance_gipa lk (L ! i) = calling) \<longleftrightarrow> (\<exists>i\<in>set ?A. instance_gipa lk (L ! i) = calling)" using sub by auto
  have init0: "layerNextGDPA (initial_device_chain lk (ch_layers cs)) = None" by (simp add: initial_device_chain_def)
  have pre: "set (rev E) \<subseteq> set E" "distinct (rev E)" "set (rev E) \<inter> set [] = {}" "set [] \<subseteq> set ?A" using E(1) by simp_all
  show ?thesis
    using device_loop_spec [OF init pre(1) E(2) pre(2-4) inj loads, of calling] unfolding rv ex init0 append_Nil2 .
qed

section \<open>The structures of the application\<close>

abbreviation is_group :: "chain_node \<Rightarrow> bool" where "is_group n \<equiv> cn_sType n = VK_STRUCTURE_TYPE_DEVICE_GROUP_DEVICE_CREATE_INFO"

text \<open>The structures \<open>ns\<close>, none of them a device group, lead from \<open>p\<close> to \<open>e\<close>.\<close>

fun leads :: "(nat \<rightharpoonup> chain_node) \<Rightarrow> nat \<Rightarrow> nat list \<Rightarrow> nat \<Rightarrow> bool" where
  "leads m p [] e \<longleftrightarrow> p = e"
| "leads m p (x # xs) e \<longleftrightarrow> p = x \<and> x \<noteq> 0 \<and> (\<exists>n. m x = Some n \<and> \<not> is_group n \<and> leads m (cn_pNext n) xs e)"

text \<open>The list ends, or there is a device group whose devices can be read.\<close>

definition group_end :: "(nat \<Rightarrow> nat option) \<Rightarrow> (nat \<rightharpoonup> chain_node) \<Rightarrow> nat \<Rightarrow> bool" where
  "group_end unwrap m e \<longleftrightarrow> e = 0 \<or> (\<exists>n. m e = Some n \<and> is_group n \<and> (\<forall>ds. cn_devices n = Some ds \<longrightarrow> those (map unwrap ds) \<noteq> None))"

definition group_devices :: "(nat \<rightharpoonup> chain_node) \<Rightarrow> nat \<Rightarrow> bool" where
  "group_devices m e \<longleftrightarrow> e \<noteq> 0 \<and> (\<exists>n. m e = Some n \<and> has_devices n)"

text \<open>What the layers and the driver see: the same structures, the group with the devices behind its handles.\<close>

definition unwrapped_view :: "(nat \<Rightarrow> nat option) \<Rightarrow> nat \<Rightarrow> (nat \<rightharpoonup> chain_node) \<Rightarrow> nat \<Rightarrow> nat list \<Rightarrow> nat \<Rightarrow> (nat \<rightharpoonup> chain_node) \<Rightarrow> nat \<Rightarrow> bool" where
  "unwrapped_view unwrap temp m p ns e m1 head \<longleftrightarrow>
     (if group_devices m e
      then leads m1 head ns temp \<and> (\<exists>n ds. m e = Some n \<and> map unwrap (the (cn_devices n)) = map Some ds \<and> m1 temp = Some (n\<lparr>cn_devices := Some ds\<rparr>)) \<and>
        (\<forall>x. x \<noteq> temp \<longrightarrow> map_option (\<lambda>n. (cn_sType n, cn_devices n)) (m1 x) = map_option (\<lambda>n. (cn_sType n, cn_devices n)) (m x))
      else m1 = m \<and> head = p)"

lemma leads_group: "leads m p ns e \<Longrightarrow> find_group m prev p = find_group m (last (prev # ns)) e"
proof (induction ns arbitrary: p prev)
  case (Cons x xs)
  then obtain n where n: "p = x" "x \<noteq> 0" "m x = Some n" "\<not> is_group n" "leads m (cn_pNext n) xs e" by auto
  then have "find_group m prev p = find_group m x (cn_pNext n)" by (subst find_group.simps) simp
  with Cons.IH [OF n(5)] show ?case by simp
qed simp

lemma find_group_end: "group_end unwrap m e \<Longrightarrow> find_group m prev e = Some (prev, e)"
  by (subst find_group.simps) (auto simp: group_end_def)

lemma leads_update:
  "leads m p ns e \<Longrightarrow> temp \<notin> set ns \<Longrightarrow> leads (m(temp := x)) p ns e"
  by (induction ns arbitrary: p) auto

lemma leads_append: "leads m p (xs @ ys) e \<longleftrightarrow> (\<exists>q. leads m p xs q \<and> leads m q ys e)"
  by (induction xs arbitrary: p) auto

lemma leads_redirect:
  assumes "leads m p (ns @ [q]) e" and "distinct (ns @ [q])" and "m q = Some n"
  shows "leads (m(q \<mapsto> n\<lparr>cn_pNext := t\<rparr>)) p (ns @ [q]) t"
  using assms leads_update [of m p ns q q "Some (n\<lparr>cn_pNext := t\<rparr>)"] by (auto simp: leads_append)

lemma those_nonempty: "those (map f ds) = Some ys \<Longrightarrow> ds \<noteq> [] \<Longrightarrow> ys \<noteq> []"
  by (auto simp: those_Some)

lemma replace_restore:
  assumes path: "leads m p ns e" "distinct ns" "group_end unwrap m e" and temp: "m temp = None" "temp \<noteq> 0"
  shows "\<exists>m1 head original. replace_group unwrap temp m p = Some (m1, head, original) \<and> unwrapped_view unwrap temp m p ns e m1 head \<and>
    (\<exists>m2. restore_group m1 head original = Some m2 \<and> m2(temp := None) = m) \<and>
    (group_devices m e \<and> ns \<noteq> [] \<longrightarrow> (\<exists>n. m1 (last ns) = Some n \<and> cn_pNext n = temp \<and> last ns \<noteq> temp))"
proof -
  have find: "find_group m 0 p = Some (last (0 # ns), e)" using leads_group [OF path(1)] find_group_end [OF path(3)] by simp
  have tns: "temp \<notin> set ns" "temp \<noteq> e" if "e \<noteq> 0"
  proof -
    have "leads m p ns e \<Longrightarrow> x \<in> set ns \<Longrightarrow> m x \<noteq> None" for x p by (induction ns arbitrary: p) auto
    with path(1) temp(1) show "temp \<notin> set ns" by blast
    show "temp \<noteq> e" using path(3) that temp(1) by (auto simp: group_end_def)
  qed
  show ?thesis
  proof (cases "group_devices m e")
    case False
    then have "replace_group unwrap temp m p = Some (m, p, 0)"
      using find path(3) by (auto simp: replace_group_def group_devices_def group_end_def)
    moreover have "restore_group m p 0 = Some m" using False find path(3) by (auto simp: restore_group_def group_devices_def group_end_def)
    ultimately show ?thesis using False temp(1) by (auto simp: unwrapped_view_def fun_upd_idem)
  next
    case True
    then obtain n where e: "e \<noteq> 0" and n: "m e = Some n" "has_devices n" by (auto simp: group_devices_def)
    then have gr: "is_group n" using path(3) by (auto simp: group_end_def)
    obtain ds0 where ds0: "cn_devices n = Some ds0" "ds0 \<noteq> []" using n(2) by (auto simp: has_devices_def split: option.splits)
    then obtain ds where ds: "those (map unwrap ds0) = Some ds" using path(3) e n(1) by (auto simp: group_end_def)
    let ?t = "n\<lparr>cn_devices := Some ds\<rparr>" and ?m = "m(temp \<mapsto> n\<lparr>cn_devices := Some ds\<rparr>)"
    have hd: "has_devices ?t" using those_nonempty [OF ds ds0(2)] by (simp add: has_devices_def)
    have view: "map unwrap (the (cn_devices n)) = map Some ds" using those_Some [THEN iffD1, OF ds] ds0(1) by simp
    show ?thesis
    proof (cases ns rule: rev_cases)
      case Nil
      have rep: "replace_group unwrap temp m p = Some (?m, temp, e)"
        using find Nil e n ds0 ds by (simp add: replace_group_def)
      have "find_group ?m 0 temp = Some (0, temp)" using temp(2) gr by (subst find_group.simps) simp
      then have "restore_group ?m temp e = Some ?m" using temp(2) by (simp add: restore_group_def)
      with rep show ?thesis using True Nil view n(1) temp(1) by (auto simp: unwrapped_view_def)
    next
      case (snoc as q)
      obtain k where k: "m q = Some k" "cn_pNext k = e" "q \<noteq> 0" "\<not> is_group k" using path(1) snoc by (auto simp: leads_append)
      have kk: "k\<lparr>cn_pNext := e\<rparr> = k" using k(2) by (cases k) simp
      let ?m1 = "?m(q \<mapsto> k\<lparr>cn_pNext := temp\<rparr>)"
      have q: "q \<noteq> temp" using tns [OF e] snoc by auto
      have rep: "replace_group unwrap temp m p = Some (?m1, p, e)"
        using find snoc e n ds0 ds k q by (simp add: replace_group_def)
      have ld: "leads ?m1 p ns temp" unfolding snoc
        by (rule leads_redirect) (use leads_update [OF path(1) tns(1) [OF e], of "Some ?t"] snoc path(2) k q in auto)
      have "find_group ?m1 q temp = Some (q, temp)" using temp(2) gr q by (subst find_group.simps) simp
      then have "find_group ?m1 0 p = Some (q, temp)" using leads_group [OF ld, of 0] snoc by simp
      then have "restore_group ?m1 p e = Some (?m(q \<mapsto> k\<lparr>cn_pNext := e\<rparr>))" using temp(2) hd k q by (simp add: restore_group_def fun_upd_twist)
      then have "restore_group ?m1 p e = Some (?m(q \<mapsto> k))" unfolding kk .
      moreover have "(?m(q \<mapsto> k))(temp := None) = m" using temp(1) k(1) q by auto
      moreover have "unwrapped_view unwrap temp m p ns e ?m1 p" using True ld view n(1) q k(1) by (auto simp: unwrapped_view_def)
      ultimately show ?thesis using rep snoc q by auto
    qed
  qed
qed

lemma device_creation_spec:
  assumes inv: "chain_inv lk L n E cs" and E: "distinct E" "\<forall>i\<in>set E. i < length L"
    and path: "leads m p ns e" "distinct ns" "group_end unwrap m e" and temp: "m temp = None" "temp \<noteq> 0"
  shows "\<exists>res dc m' m1 head. loader_create_device_chain lk unwrap temp create calling E (ch_layers cs) m p = Some (res, dc, m') \<and>
    device_inv lk L E (instance_layers_of lk L E) (device_layers_of lk L calling (instance_layers_of lk L E)) dc \<and>
    layerNextGDPA dc = (if \<exists>i\<in>set (instance_layers_of lk L E). instance_gipa lk (L ! i) = calling then nextGDPA dc else None) \<and>
    unwrapped_view unwrap temp m p ns e m1 head \<and>
    res = (case gipa_create lk (the (nextGIPA dc)) ''vkCreateDevice'' of None \<Rightarrow> VK_ERROR_INITIALIZATION_FAILED
       | Some f \<Rightarrow> create f (dev_pLayerInfo dc) (dev_links dc) m1 head) \<and>
    (if gipa_create lk (the (nextGIPA dc)) ''vkCreateDevice'' \<noteq> None \<and> res = VK_SUCCESS then m' = m
     else group_devices m e \<and> ns \<noteq> [] \<longrightarrow> m' temp = None \<and> (\<exists>n. m' (last ns) = Some n \<and> cn_pNext n = temp))"
proof -
  obtain m1 head original m2 where rep: "replace_group unwrap temp m p = Some (m1, head, original)" and view: "unwrapped_view unwrap temp m p ns e m1 head"
    and rest: "restore_group m1 head original = Some m2" "m2(temp := None) = m"
    and bad: "group_devices m e \<and> ns \<noteq> [] \<longrightarrow> (\<exists>n. m1 (last ns) = Some n \<and> cn_pNext n = temp \<and> last ns \<noteq> temp)"
    using replace_restore [OF path temp] by blast
  obtain dc where loop: "device_loop lk calling (rev E) (initial_device_chain lk (ch_layers cs)) = Some dc"
    and nx: "layerNextGDPA dc = (if \<exists>i\<in>set (instance_layers_of lk L E). instance_gipa lk (L ! i) = calling then nextGDPA dc else None)"
    and dinv: "device_inv lk L E (instance_layers_of lk L E) (device_layers_of lk L calling (instance_layers_of lk L E)) dc"
    using device_chain_spec [OF inv E] by blast
  obtain g where g: "nextGIPA dc = Some g" using dinv by (auto simp: device_inv_def)
  define res where "res = (case gipa_create lk g ''vkCreateDevice'' of None \<Rightarrow> VK_ERROR_INITIALIZATION_FAILED | Some f \<Rightarrow> create f (dev_pLayerInfo dc) (dev_links dc) m1 head)"
  have run: "loader_create_device_chain lk unwrap temp create calling E (ch_layers cs) m p = Some (res, dc,
     if gipa_create lk g ''vkCreateDevice'' \<noteq> None \<and> res = VK_SUCCESS then m else m1(temp := None))"
    using rep loop g rest by (auto simp: loader_create_device_chain_def res_def Let_def split: option.split)
  have "if gipa_create lk (the (nextGIPA dc)) ''vkCreateDevice'' \<noteq> None \<and> res = VK_SUCCESS
      then (if gipa_create lk g ''vkCreateDevice'' \<noteq> None \<and> res = VK_SUCCESS then m else m1(temp := None)) = m
      else group_devices m e \<and> ns \<noteq> [] \<longrightarrow> (if gipa_create lk g ''vkCreateDevice'' \<noteq> None \<and> res = VK_SUCCESS then m else m1(temp := None)) temp = None \<and>
        (\<exists>n. (if gipa_create lk g ''vkCreateDevice'' \<noteq> None \<and> res = VK_SUCCESS then m else m1(temp := None)) (last ns) = Some n \<and> cn_pNext n = temp)"
    using bad g by (auto split: if_splits)
  moreover have "res = (case gipa_create lk (the (nextGIPA dc)) ''vkCreateDevice'' of None \<Rightarrow> VK_ERROR_INITIALIZATION_FAILED
       | Some f \<Rightarrow> create f (dev_pLayerInfo dc) (dev_links dc) m1 head)" using g by (simp add: res_def)
  ultimately show ?thesis using run dinv nx view by blast
qed

section \<open>Properties\<close>

text \<open>An instance whose chain was created.\<close>

lemma created_instance_inv:
  assumes "distinct expanded" and "\<forall>i\<in>set expanded. i < length L \<and> fresh_layer (L ! i)" and "length pp \<le> 2 ^ 31"
    and "loader_create_instance_chain lk a create pp expanded L names h = Some (VK_SUCCESS, cs, names')"
  shows "chain_inv lk L (live h) expanded (cs\<lparr>ch_heap := h\<rparr>)"
  using instance_chain_spec [OF assms(1-3), of lk a create names h] assms(4) by auto

lemma created_device:
  assumes E: "distinct expanded" "\<forall>i\<in>set expanded. i < length L \<and> fresh_layer (L ! i)" "length pp \<le> 2 ^ 31"
      "loader_create_instance_chain lk a create pp expanded L names h = Some (VK_SUCCESS, cs, names')"
    and path: "leads m p ns e" "distinct ns" "group_end unwrap m e" and temp: "m temp = None" "temp \<noteq> 0"
  shows "\<exists>res dc m' m1 head. loader_create_device_chain lk unwrap temp createD calling expanded (ch_layers cs) m p = Some (res, dc, m') \<and>
    device_inv lk L expanded (instance_layers_of lk L expanded) (device_layers_of lk L calling (instance_layers_of lk L expanded)) dc \<and>
    layerNextGDPA dc = (if \<exists>i\<in>set (instance_layers_of lk L expanded). instance_gipa lk (L ! i) = calling then nextGDPA dc else None) \<and>
    unwrapped_view unwrap temp m p ns e m1 head \<and>
    res = (case gipa_create lk (the (nextGIPA dc)) ''vkCreateDevice'' of None \<Rightarrow> VK_ERROR_INITIALIZATION_FAILED
       | Some f \<Rightarrow> createD f (dev_pLayerInfo dc) (dev_links dc) m1 head) \<and>
    (if gipa_create lk (the (nextGIPA dc)) ''vkCreateDevice'' \<noteq> None \<and> res = VK_SUCCESS then m' = m
     else group_devices m e \<and> ns \<noteq> [] \<longrightarrow> m' temp = None \<and> (\<exists>n. m' (last ns) = Some n \<and> cn_pNext n = temp))"
proof -
  have lt: "\<forall>i\<in>set expanded. i < length L" using E(2) by blast
  have ly: "ch_layers (cs\<lparr>ch_heap := h\<rparr>) = ch_layers cs" by simp
  show ?thesis using device_creation_spec [OF created_instance_inv [OF E] E(1) lt path temp, of createD calling] unfolding ly .
qed

text \<open>C3: Creating the chain of a device of an instance whose chain was created has no undefined behaviour.  A call passes through exactly the layers of the
  instance chain that have a \<^verbatim>\<open>vkGetDeviceProcAddr\<close>, below the calling layer if a layer creates the device, and ends in the terminator; a calling layer is given the first
  function of that path.  Layers and driver see the structures of the application with the handles of a device group unwrapped, and after a successful creation the
  structures of the application are as before.\<close>

theorem device_chain_correct:
  assumes E: "distinct expanded" "\<forall>i\<in>set expanded. i < length L \<and> fresh_layer (L ! i)" "length pp \<le> 2 ^ 31"
      "loader_create_instance_chain lk a create pp expanded L names h = Some (VK_SUCCESS, cs, names')"
    and path: "leads m p ns e" "distinct ns" "group_end unwrap m e" and temp: "m temp = None" "temp \<noteq> 0"
  shows "\<exists>res dc m' m1 head. loader_create_device_chain lk unwrap temp createD calling expanded (ch_layers cs) m p = Some (res, dc, m') \<and>
    device_path (dev_links dc) (nextGDPA dc) (dev_pLayerInfo dc)
      (map (\<lambda>i. instance_gdpa lk (L ! i)) (device_layers_of lk L calling (instance_layers_of lk L expanded)) @ [Some (gpa_device_terminator lk)]) \<and>
    layerNextGDPA dc = (if \<exists>i\<in>set (instance_layers_of lk L expanded). instance_gipa lk (L ! i) = calling then nextGDPA dc else None) \<and>
    unwrapped_view unwrap temp m p ns e m1 head \<and>
    res = (case gipa_create lk (the (nextGIPA dc)) ''vkCreateDevice'' of None \<Rightarrow> VK_ERROR_INITIALIZATION_FAILED
       | Some f \<Rightarrow> createD f (dev_pLayerInfo dc) (dev_links dc) m1 head) \<and>
    (res = VK_SUCCESS \<longrightarrow> m' = m)"
proof -
  obtain res dc m' m1 head where run: "loader_create_device_chain lk unwrap temp createD calling expanded (ch_layers cs) m p = Some (res, dc, m')"
    and inv: "device_inv lk L expanded (instance_layers_of lk L expanded) (device_layers_of lk L calling (instance_layers_of lk L expanded)) dc"
    and nx: "layerNextGDPA dc = (if \<exists>i\<in>set (instance_layers_of lk L expanded). instance_gipa lk (L ! i) = calling then nextGDPA dc else None)"
    and view: "unwrapped_view unwrap temp m p ns e m1 head"
    and res: "res = (case gipa_create lk (the (nextGIPA dc)) ''vkCreateDevice'' of None \<Rightarrow> VK_ERROR_INITIALIZATION_FAILED
       | Some f \<Rightarrow> createD f (dev_pLayerInfo dc) (dev_links dc) m1 head)"
    and m': "if gipa_create lk (the (nextGIPA dc)) ''vkCreateDevice'' \<noteq> None \<and> res = VK_SUCCESS then m' = m
     else group_devices m e \<and> ns \<noteq> [] \<longrightarrow> m' temp = None \<and> (\<exists>n. m' (last ns) = Some n \<and> cn_pNext n = temp)"
    using created_device [OF E path temp, of createD calling] by blast
  have "m' = m" if "res = VK_SUCCESS" using m' res that by (cases "gipa_create lk (the (nextGIPA dc)) ''vkCreateDevice''") simp_all
  moreover have "device_path (dev_links dc) (nextGDPA dc) (dev_pLayerInfo dc)
      (map (\<lambda>i. instance_gdpa lk (L ! i)) (device_layers_of lk L calling (instance_layers_of lk L expanded)) @ [Some (gpa_device_terminator lk)])"
    using inv by (simp add: device_inv_def)
  ultimately show ?thesis using run nx view res by blast
qed

text \<open>C38: When creating a device fails and a device group stands behind another structure of the request, the structure before the group is left pointing to the
  copy on the stack, which is gone when the function returns.\<close>

theorem failed_device_leaves_dangling_pnext:
  assumes E: "distinct expanded" "\<forall>i\<in>set expanded. i < length L \<and> fresh_layer (L ! i)" "length pp \<le> 2 ^ 31"
      "loader_create_instance_chain lk a create pp expanded L names h = Some (VK_SUCCESS, cs, names')"
    and path: "leads m p ns e" "distinct ns" "group_end unwrap m e" and temp: "m temp = None" "temp \<noteq> 0"
    and group: "group_devices m e" "ns \<noteq> []" and fails: "\<forall>f head links m p. createD f head links m p \<noteq> VK_SUCCESS"
  shows "\<exists>res dc m' n. loader_create_device_chain lk unwrap temp createD calling expanded (ch_layers cs) m p = Some (res, dc, m') \<and>
    res \<noteq> VK_SUCCESS \<and> m' (last ns) = Some n \<and> cn_pNext n = temp \<and> m' temp = None"
proof -
  obtain res dc m' m1 head where run: "loader_create_device_chain lk unwrap temp createD calling expanded (ch_layers cs) m p = Some (res, dc, m')"
    and res: "res = (case gipa_create lk (the (nextGIPA dc)) ''vkCreateDevice'' of None \<Rightarrow> VK_ERROR_INITIALIZATION_FAILED
       | Some f \<Rightarrow> createD f (dev_pLayerInfo dc) (dev_links dc) m1 head)"
    and m': "if gipa_create lk (the (nextGIPA dc)) ''vkCreateDevice'' \<noteq> None \<and> res = VK_SUCCESS then m' = m
     else group_devices m e \<and> ns \<noteq> [] \<longrightarrow> m' temp = None \<and> (\<exists>n. m' (last ns) = Some n \<and> cn_pNext n = temp)"
    using created_device [OF E path temp, of createD calling] by blast
  have "res \<noteq> VK_SUCCESS" using res fails by (simp split: option.splits)
  with m' group run show ?thesis by auto
qed

text \<open>An application that asks for features and a device group of two devices.\<close>

definition sample_request :: "nat \<rightharpoonup> chain_node" where
  "sample_request = [1 \<mapsto> \<lparr>cn_sType = 7, cn_pNext = 2, cn_devices = None\<rparr>,
     2 \<mapsto> \<lparr>cn_sType = VK_STRUCTURE_TYPE_DEVICE_GROUP_DEVICE_CREATE_INFO, cn_pNext = 0, cn_devices = Some [40, 41]\<rparr>]"

lemma sample_request_path: "leads sample_request 1 [1] 2" "distinct [1 :: nat]" "group_end (\<lambda>d. Some (d + 100)) sample_request 2" "sample_request 9 = None" "(9 :: nat) \<noteq> 0"
  "group_devices sample_request 2" "[1 :: nat] \<noteq> []"
  by (simp_all add: sample_request_def VK_STRUCTURE_TYPE_DEVICE_GROUP_DEVICE_CREATE_INFO_def group_end_def group_devices_def has_devices_def)

abbreviation chained_instance :: "(VkResult \<times> chain_state \<times> loader_string_list) option" where
  "chained_instance \<equiv> loader_create_instance_chain sample_linker None (\<lambda>_ _ _. VK_SUCCESS) [] [0, 1, 2] sample_layers empty_string_list (sample_heap True)"

lemma sample_instance_created: "\<exists>cs. chained_instance = Some (VK_SUCCESS, cs, empty_string_list)"
proof -
  have "map_option fst chained_instance = Some VK_SUCCESS" by code_simp
  then show ?thesis by (auto simp: loader_create_instance_chain_def split: bind_splits option.splits if_splits)
qed

lemma sample_expanded: "distinct [0, 1, 2 :: nat]" "length ([] :: string list) \<le> 2 ^ 31" by simp_all

lemma sample_device_layers:
  "map (\<lambda>i. instance_gdpa sample_linker (sample_layers ! i)) (device_layers_of sample_linker sample_layers None (instance_layers_of sample_linker sample_layers [0, 1, 2])) @
     [Some (gpa_device_terminator sample_linker)] = [Some 11, Some 21, Some 5]"
proof -
  have "instance_gdpa sample_linker (sample_layers ! 0) = Some 11" "instance_gdpa sample_linker (sample_layers ! 2) = Some 21"
    "instance_gipa sample_linker (sample_layers ! 0) = Some 10" "instance_gipa sample_linker (sample_layers ! 2) = Some 20"
    using sample_chain(2,3) by simp_all
  then show ?thesis unfolding sample_chain(1) by (simp add: device_layers_of_def) (simp add: sample_linker_def)
qed

theorem device_chain_correct_witness:
  "distinct [0, 1, 2 :: nat] \<and> list_all (\<lambda>i. i < length sample_layers \<and> fresh_layer (sample_layers ! i)) [0, 1, 2] \<and> length ([] :: string list) \<le> 2 ^ 31 \<and>
   leads sample_request 1 [1] 2 \<and> distinct [1 :: nat] \<and> group_end (\<lambda>d. Some (d + 100)) sample_request 2 \<and> sample_request 9 = None \<and> (9 :: nat) \<noteq> 0 \<and>
   (\<exists>cs. chained_instance = Some (VK_SUCCESS, cs, empty_string_list) \<and>
     (\<exists>res dc m'. loader_create_device_chain sample_linker (\<lambda>d. Some (d + 100)) 9 (\<lambda>_ _ _ _ _. VK_SUCCESS) None [0, 1, 2] (ch_layers cs) sample_request 1 = Some (res, dc, m') \<and>
       device_path (dev_links dc) (nextGDPA dc) (dev_pLayerInfo dc) [Some 11, Some 21, Some 5] \<and> (res = VK_SUCCESS \<longrightarrow> m' = sample_request)))"
proof -
  obtain cs where cs: "chained_instance = Some (VK_SUCCESS, cs, empty_string_list)" using sample_instance_created by blast
  show ?thesis
    using device_chain_correct [OF sample_expanded(1) sample_layers_fresh sample_expanded(2) cs sample_request_path(1-5), of "\<lambda>_ _ _ _ _. VK_SUCCESS" None]
      sample_expanded sample_layers_all cs sample_request_path
    unfolding sample_device_layers by blast
qed

theorem failed_device_leaves_dangling_pnext_witness:
  "distinct [0, 1, 2 :: nat] \<and> list_all (\<lambda>i. i < length sample_layers \<and> fresh_layer (sample_layers ! i)) [0, 1, 2] \<and> length ([] :: string list) \<le> 2 ^ 31 \<and>
   leads sample_request 1 [1] 2 \<and> distinct [1 :: nat] \<and> group_end (\<lambda>d. Some (d + 100)) sample_request 2 \<and> sample_request 9 = None \<and> (9 :: nat) \<noteq> 0 \<and>
   group_devices sample_request 2 \<and> [1 :: nat] \<noteq> [] \<and>
   (\<exists>cs. chained_instance = Some (VK_SUCCESS, cs, empty_string_list) \<and>
     (\<exists>res dc m' n. loader_create_device_chain sample_linker (\<lambda>d. Some (d + 100)) 9 (\<lambda>_ _ _ _ _. VK_ERROR_INITIALIZATION_FAILED) None [0, 1, 2] (ch_layers cs) sample_request 1 =
         Some (res, dc, m') \<and> res \<noteq> VK_SUCCESS \<and> m' (last [1]) = Some n \<and> cn_pNext n = 9 \<and> m' 9 = None))"
proof -
  obtain cs where cs: "chained_instance = Some (VK_SUCCESS, cs, empty_string_list)" using sample_instance_created by blast
  have "\<forall>f head links m p. (\<lambda>_ _ _ _ _. VK_ERROR_INITIALIZATION_FAILED) f head links m p \<noteq> VK_SUCCESS" by simp
  from failed_device_leaves_dangling_pnext [OF sample_expanded(1) sample_layers_fresh sample_expanded(2) cs sample_request_path this, of None]
  show ?thesis using sample_expanded sample_layers_all cs sample_request_path by blast
qed

end
