(* ===== verification/DriverInstances.thy ===== *)
theory DriverInstances
  imports ExtList Version DriverObjects
begin

text \<open>
  Creating the instances of the drivers, \<^verbatim>\<open>terminator_CreateInstance\<close> (\<^verbatim>\<open>loader.c\<close>), the bottom of the instance chain: every driver that was found is asked for its
  extensions and version and gets a request of its own.  Drivers are arguments; what they are called with and what they answer is recorded.  While an instance is
  being created the lists of objects of a driver are empty.  The sorting of devices is compiled in (\<^verbatim>\<open>LOADER_ENABLE_LINUX_SORT\<close>).
\<close>

unbundle bit_operations_syntax

section \<open>Requests and drivers\<close>

record VkApplicationInfo =
  pApplicationName :: "string option"
  applicationVersion :: "32 word"
  pEngineName :: "string option"
  engineVersion :: "32 word"
  apiVersion :: "32 word"

definition zero_application_info :: VkApplicationInfo where
  "zero_application_info = \<lparr>pApplicationName = None, applicationVersion = 0, pEngineName = None, engineVersion = 0, apiVersion = 0\<rparr>"

record VkInstanceCreateInfo =
  ci_flags :: "32 word"
  pApplicationInfo :: "VkApplicationInfo option"
  ppEnabledLayerNames :: "string list"
  ppEnabledExtensionNames :: "string list"

text \<open>A driver that was found: what its manifest and its functions say.  \<open>version_query\<close> is the answer of \<^verbatim>\<open>vkEnumerateInstanceVersion\<close>, if the driver has it, and
  \<open>entries_found\<close> the result of looking up its functions (\<^verbatim>\<open>loader_icd_init_entries\<close>, generated).  A creation returns a result and the handle it wrote, if any.\<close>

record loader_scanned_icd =
  api_version :: "32 word"
  EnumerateInstanceExtensionProperties :: "enumeration option"
  version_query :: "(VkResult \<times> 32 word) option"
  CreateInstance :: "VkInstanceCreateInfo \<Rightarrow> VkResult \<times> nat option"
  entries_found :: bool

record created_icd_term =
  scanned_icd :: nat
  icd_instance :: nat
  dispatch_filled :: bool
  enabled_instance_extensions :: "string set"

record term_instance =
  ti_heap :: heap
  app_api_version :: loader_api_version
  supports_get_dev_prop_2 :: bool
  ti_icd_terms :: "created_icd_term list"
  icd_terms_count :: int
  enabled_extensions :: "string set"
  create_terminator_invalid_extension :: bool
  has_device_configurations :: bool
  ti_calls :: "unit driver_call list"
  ti_requests :: "(nat \<times> VkInstanceCreateInfo) list"

definition VK_API_VERSION_1_0 :: "32 word" where "VK_API_VERSION_1_0 = VK_MAKE_API_VERSION 0 1 0 0"
definition VK_API_VERSION_1_1 :: "32 word" where "VK_API_VERSION_1_1 = VK_MAKE_API_VERSION 0 1 1 0"

definition GPDP2 :: string where "GPDP2 = ''VK_KHR_get_physical_device_properties2''"
definition PORTABILITY :: string where "PORTABILITY = ''VK_KHR_portability_enumeration''"

text \<open>The extensions that have a flag in \<^verbatim>\<open>struct loader_instance_extension_enable_list\<close> in a Linux build with Xlib, XCB, Wayland and XRandR.\<close>

definition known_instance_extensions :: "string list" where
  "known_instance_extensions = [''VK_KHR_surface'', ''VK_KHR_display'', ''VK_KHR_xlib_surface'', ''VK_KHR_xcb_surface'', ''VK_KHR_wayland_surface'',
     GPDP2, ''VK_KHR_device_group_creation'', ''VK_KHR_external_memory_capabilities'', ''VK_KHR_external_semaphore_capabilities'',
     ''VK_KHR_external_fence_capabilities'', ''VK_KHR_get_surface_capabilities2'', ''VK_KHR_get_display_properties2'', ''VK_KHR_surface_protected_capabilities'',
     PORTABILITY, ''VK_KHR_surface_maintenance1'', ''VK_EXT_debug_report'', ''VK_NV_external_memory_capabilities'', ''VK_EXT_validation_flags'',
     ''VK_EXT_direct_mode_display'', ''VK_EXT_acquire_xlib_display'', ''VK_EXT_display_surface_counter'', ''VK_EXT_swapchain_colorspace'',
     ''VK_EXT_debug_utils'', ''VK_EXT_validation_features'', ''VK_EXT_headless_surface'', ''VK_EXT_surface_maintenance1'', ''VK_EXT_acquire_drm_display'',
     ''VK_GOOGLE_surfaceless_query'', ''VK_LUNARG_direct_driver_loading'', ''VK_EXT_layer_settings'', ''VK_NV_display_stereo'']"

definition fill_out_enabled_instance_extensions :: "string list \<Rightarrow> string set \<Rightarrow> string set" where
  "fill_out_enabled_instance_extensions names enables = enables \<union> set (filter (\<lambda>n. n \<in> set known_instance_extensions) names)"

section \<open>The list of drivers of an instance\<close>

text \<open>\<open>False\<close> is a null result.\<close>

definition loader_icd_add :: "nat \<Rightarrow> term_instance \<Rightarrow> bool \<times> term_instance" where
  "loader_icd_add i st =
     (if succeeds (ti_heap st)
      then (True, st\<lparr>ti_heap := add_live 1 (tick (ti_heap st)), icd_terms_count := icd_terms_count st + 1,
              ti_icd_terms := \<lparr>scanned_icd = i, icd_instance = 0, dispatch_filled = False, enabled_instance_extensions = {}\<rparr> # ti_icd_terms st\<rparr>)
      else (False, st\<lparr>ti_heap := tick (ti_heap st)\<rparr>))"

definition loader_icd_destroy :: "term_instance \<Rightarrow> term_instance" where
  "loader_icd_destroy st = st\<lparr>icd_terms_count := icd_terms_count st - 1, ti_heap := add_live (- 1) (ti_heap st)\<rparr>"

text \<open>Unlinking the newest driver and freeing it.\<close>

definition drop_newest :: "term_instance \<Rightarrow> term_instance" where
  "drop_newest st = loader_icd_destroy (st\<lparr>ti_icd_terms := tl (ti_icd_terms st)\<rparr>)"

definition get_extension_property :: "string \<Rightarrow> loader_extension_list \<Rightarrow> bool option" where
  "get_extension_property name list = scan_cells (\<lambda>e. name = extensionName e) (gl_list list) 0 (gl_count list)"

text \<open>The requested names the driver has, written to the array from index \<open>n\<close>.\<close>

fun filter_extension_names :: "loader_extension_list \<Rightarrow> string list \<Rightarrow> string buf \<Rightarrow> nat \<Rightarrow> (string buf \<times> nat) option" where
  "filter_extension_names icd_exts [] cells n = Some (cells, n)"
| "filter_extension_names icd_exts (name # names) cells n = do {
     found \<leftarrow> get_extension_property name icd_exts;
     (if found then do {
        cells \<leftarrow> buf_write cells n name;
        filter_extension_names icd_exts names cells (n + 1)
      } else filter_extension_names icd_exts names cells n)
   }"

definition version_is_1_0 :: "term_instance \<Rightarrow> loader_scanned_icd \<Rightarrow> bool" where
  "version_is_1_0 st d \<longleftrightarrow> v_major (app_api_version st) = 1 \<and> v_minor (app_api_version st) = 0 \<or>
     VK_API_VERSION_MAJOR (api_version d) = 1 \<and> VK_API_VERSION_MINOR (api_version d) = 0"

definition icd_version_of :: "loader_scanned_icd \<Rightarrow> 32 word" where
  "icd_version_of d =
     (if api_version d \<ge> VK_API_VERSION_1_1
      then (case version_query d of None \<Rightarrow> VK_API_VERSION_1_0 | Some (r, v) \<Rightarrow> if r \<noteq> VK_SUCCESS then VK_API_VERSION_1_0 else v)
      else VK_API_VERSION_1_0)"

definition icd_flags :: "32 word \<Rightarrow> string list \<Rightarrow> 32 word" where
  "icd_flags flags names = (if flags AND 1 = 1 then (if PORTABILITY \<in> set names then flags else flags AND NOT 1) else flags)"

definition icd_application_info :: "bool \<Rightarrow> VkApplicationInfo option \<Rightarrow> 32 word \<Rightarrow> VkApplicationInfo option" where
  "icd_application_info configurations app icd_version =
     (let given = (case app of None \<Rightarrow> zero_application_info | Some i \<Rightarrow> i);
          icd_version_nopatch = VK_MAKE_API_VERSION 0 (VK_API_VERSION_MAJOR icd_version) (VK_API_VERSION_MINOR icd_version) 0;
          requested_version = (case app of None \<Rightarrow> VK_API_VERSION_1_0 | Some i \<Rightarrow> apiVersion i);
          info = (if requested_version \<noteq> 0 \<and> icd_version_nopatch = VK_API_VERSION_1_0 then Some (given\<lparr>apiVersion := icd_version\<rparr>) else app)
      in if configurations \<and> icd_version \<ge> VK_API_VERSION_1_1 \<and> requested_version < VK_API_VERSION_1_1
         then Some (given\<lparr>apiVersion := VK_API_VERSION_1_1\<rparr>) else info)"

section \<open>\<^verbatim>\<open>terminator_CreateInstance\<close>\<close>

record create_loop =
  cl_res :: VkResult
  one_icd_successful :: bool
  filtered_extension_names :: "string buf"
  cl_inst :: term_instance

abbreviation set_newest :: "(created_icd_term \<Rightarrow> created_icd_term) \<Rightarrow> term_instance \<Rightarrow> term_instance" where
  "set_newest f st \<equiv> st\<lparr>ti_icd_terms := (case ti_icd_terms st of [] \<Rightarrow> [] | t # ts \<Rightarrow> f t # ts)\<rparr>"

text \<open>From the creation of the driver's instance on, with the number of extension names in the array.  The first component says that the loop is left.\<close>

definition create_icd_instance :: "VkInstanceCreateInfo \<Rightarrow> nat \<Rightarrow> loader_scanned_icd \<Rightarrow> nat \<Rightarrow> create_loop \<Rightarrow> (bool \<times> create_loop) option" where
  "create_icd_instance ci i d n s =
     (let names = (case filtered_extension_names s of Buf xs \<Rightarrow> take n xs | _ \<Rightarrow> []); st = cl_inst s;
          info = \<lparr>ci_flags = icd_flags (ci_flags ci) names,
             pApplicationInfo = icd_application_info (has_device_configurations st) (pApplicationInfo ci) (icd_version_of d),
             ppEnabledLayerNames = [], ppEnabledExtensionNames = names\<rparr>;
          (icd_result, w) = CreateInstance d info;
          st = set_newest (\<lambda>t. t\<lparr>icd_instance := case w of None \<Rightarrow> icd_instance t | Some x \<Rightarrow> x\<rparr>)
             (st\<lparr>ti_calls := ti_calls st @ [CreateCall () i icd_result w], ti_requests := ti_requests st @ [(i, info)]\<rparr>)
      in if icd_result = VK_ERROR_OUT_OF_HOST_MEMORY then Some (True, s\<lparr>cl_inst := st, cl_res := VK_ERROR_OUT_OF_HOST_MEMORY\<rparr>)
         else if icd_result \<noteq> VK_SUCCESS then Some (False, s\<lparr>cl_inst := drop_newest st\<rparr>)
         else if \<not> entries_found d then Some (False, s\<lparr>cl_inst := drop_newest st\<rparr>)
         else Some (False, s\<lparr>cl_inst := set_newest (\<lambda>t. t\<lparr>dispatch_filled := True\<rparr>) st, one_icd_successful := True\<rparr>))"

text \<open>The names for one driver, with the one the loader adds for itself.\<close>

definition icd_extension_names :: "VkInstanceCreateInfo \<Rightarrow> loader_scanned_icd \<Rightarrow> loader_extension_list \<Rightarrow> create_loop \<Rightarrow> (nat \<times> create_loop) option" where
  "icd_extension_names ci d icd_exts s = do {
     (cells, n) \<leftarrow> filter_extension_names icd_exts (ppEnabledExtensionNames ci) (filtered_extension_names s) 0;
     found \<leftarrow> (if version_is_1_0 (cl_inst s) d then get_extension_property GPDP2 icd_exts else Some False);
     (if found then do {
        cells \<leftarrow> buf_write cells n GPDP2;
        Some (n + 1, s\<lparr>filtered_extension_names := cells, cl_inst := (cl_inst s)\<lparr>supports_get_dev_prop_2 := True\<rparr>\<rparr>)
      } else Some (n, s\<lparr>filtered_extension_names := cells\<rparr>))
   }"

definition icd_step :: "wsi_build \<Rightarrow> allocator \<Rightarrow> VkInstanceCreateInfo \<Rightarrow> nat \<Rightarrow> loader_scanned_icd \<Rightarrow> create_loop \<Rightarrow> (bool \<times> create_loop) option" where
  "icd_step b a ci i d s =
     (case loader_icd_add i (cl_inst s) of
        (False, st) \<Rightarrow> Some (True, s\<lparr>cl_inst := st, cl_res := VK_ERROR_OUT_OF_HOST_MEMORY\<rparr>)
      | (True, st) \<Rightarrow>
          (case loader_init_generic_list a sizeof_VkExtensionProperties zero_extension empty_generic_list (ti_heap st) of (res, icd_exts, h) \<Rightarrow>
             let s = s\<lparr>cl_inst := st\<lparr>ti_heap := h\<rparr>, cl_res := res\<rparr> in
             if res = VK_ERROR_OUT_OF_HOST_MEMORY then Some (True, s)
             else if res \<noteq> VK_SUCCESS then Some (False, s\<lparr>cl_inst := drop_newest (cl_inst s)\<rparr>)
             else do {
               (res, icd_exts, h) \<leftarrow> loader_add_instance_extensions b a (EnumerateInstanceExtensionProperties d) False icd_exts (ti_heap (cl_inst s));
               let s = s\<lparr>cl_inst := (cl_inst s)\<lparr>ti_heap := h\<rparr>, cl_res := res\<rparr>;
               (if res \<noteq> VK_SUCCESS then do {
                  (_, h) \<leftarrow> loader_destroy_generic_list a icd_exts (ti_heap (cl_inst s));
                  let s = s\<lparr>cl_inst := (cl_inst s)\<lparr>ti_heap := h\<rparr>\<rparr>;
                  (if res = VK_ERROR_OUT_OF_HOST_MEMORY then Some (True, s) else Some (False, s\<lparr>cl_inst := drop_newest (cl_inst s)\<rparr>))
                } else do {
                  (n, s) \<leftarrow> icd_extension_names ci d icd_exts s;
                  names \<leftarrow> (case filtered_extension_names s of Buf xs \<Rightarrow> Some (take n xs) | _ \<Rightarrow> None);
                  (_, h) \<leftarrow> loader_destroy_generic_list a icd_exts (ti_heap (cl_inst s));
                  let st = set_newest (\<lambda>t. t\<lparr>enabled_instance_extensions :=
                     fill_out_enabled_instance_extensions names (if api_version d \<ge> VK_API_VERSION_1_1 then {GPDP2} else {})\<rparr>) (cl_inst s);
                  create_icd_instance ci i d n (s\<lparr>cl_inst := st\<lparr>ti_heap := h\<rparr>\<rparr>)
                })
             }))"

fun icd_loop :: "wsi_build \<Rightarrow> allocator \<Rightarrow> VkInstanceCreateInfo \<Rightarrow> nat \<Rightarrow> loader_scanned_icd list \<Rightarrow> create_loop \<Rightarrow> (bool \<times> create_loop) option" where
  "icd_loop b a ci i [] s = Some (False, s)"
| "icd_loop b a ci i (d # ds) s = do {
     (leave, s) \<leftarrow> icd_step b a ci i d s;
     (if leave then Some (True, s) else icd_loop b a ci (Suc i) ds s)
   }"

text \<open>Destroying all drivers after a failure; calling \<^verbatim>\<open>vkDestroyInstance\<close> of a driver whose functions were not looked up is a null call.\<close>

fun destroy_icd_terms :: "created_icd_term list \<Rightarrow> term_instance \<Rightarrow> term_instance option" where
  "destroy_icd_terms [] st = Some (st\<lparr>ti_icd_terms := []\<rparr>)"
| "destroy_icd_terms (t # ts) st =
     (if icd_instance t = 0 then destroy_icd_terms ts (loader_icd_destroy st)
      else if dispatch_filled t
      then destroy_icd_terms ts (loader_icd_destroy (st\<lparr>ti_calls := ti_calls st @ [DestroyCall () (scanned_icd t) (icd_instance t)]\<rparr>))
      else None)"

definition altered_version :: "VkInstanceCreateInfo \<Rightarrow> term_instance \<Rightarrow> loader_api_version" where
  "altered_version ci st =
     (case pApplicationInfo ci of
        None \<Rightarrow> app_api_version st
      | Some app \<Rightarrow>
          if apiVersion app = 0 then app_api_version st
          else (let v = loader_make_version (apiVersion app) in
            if v_major v \<noteq> v_major (app_api_version st) \<or> v_minor v \<noteq> v_minor (app_api_version st) then v else app_api_version st))"

definition requests_gpdp2 :: "VkInstanceCreateInfo \<Rightarrow> bool" where
  "requests_gpdp2 ci \<longleftrightarrow> (case pApplicationInfo ci of None \<Rightarrow> False | Some app \<Rightarrow> apiVersion app \<ge> VK_API_VERSION_1_1) \<or> GPDP2 \<in> set (ppEnabledExtensionNames ci)"

text \<open>After the loop: withdraw \<^verbatim>\<open>VK_KHR_get_physical_device_properties2\<close> if no driver has it, and the result.\<close>

definition after_icd_loop :: "create_loop \<Rightarrow> create_loop" where
  "after_icd_loop s =
     (let st = cl_inst s;
          st = (if GPDP2 \<in> enabled_extensions st \<and> \<not> list_ex (\<lambda>t. GPDP2 \<in> enabled_instance_extensions t) (ti_icd_terms st)
                then st\<lparr>enabled_extensions := enabled_extensions st - {GPDP2}\<rparr> else st)
      in if cl_res s = VK_SUCCESS \<and> (ti_icd_terms st = [] \<or> \<not> one_icd_successful s)
         then s\<lparr>cl_inst := st, cl_res := VK_ERROR_INCOMPATIBLE_DRIVER\<rparr> else s\<lparr>cl_inst := st\<rparr>)"

definition terminator_CreateInstance ::
  "wsi_build \<Rightarrow> allocator \<Rightarrow> loader_scanned_icd list \<Rightarrow> VkInstanceCreateInfo \<Rightarrow> term_instance \<Rightarrow> (VkResult \<times> term_instance) option" where
  "terminator_CreateInstance b a icds ci st = do {
     let st = st\<lparr>app_api_version := altered_version ci st, supports_get_dev_prop_2 := supports_get_dev_prop_2 st \<or> requests_gpdp2 ci\<rparr>;
     (leave, s) \<leftarrow> icd_loop b a ci 0 icds \<lparr>cl_res = VK_SUCCESS, one_icd_successful = False,
        filtered_extension_names = Buf (replicate (length (ppEnabledExtensionNames ci) + 1) []), cl_inst = st\<rparr>;
     let s = (if leave then s else after_icd_loop s);
     let st = (cl_inst s)\<lparr>create_terminator_invalid_extension := (cl_res s = VK_ERROR_EXTENSION_NOT_PRESENT)\<rparr>;
     (if cl_res s \<noteq> VK_SUCCESS then do {
        st \<leftarrow> destroy_icd_terms (ti_icd_terms st) st;
        Some (cl_res s, st)
      } else Some (VK_SUCCESS, st\<lparr>enabled_extensions := fill_out_enabled_instance_extensions (ppEnabledExtensionNames ci) (enabled_extensions st)\<rparr>))
   }"

section \<open>What a driver is asked, and what becomes of it\<close>

text \<open>The extensions a driver reports, without those of window systems the loader was not built for.\<close>

definition seen_extensions :: "wsi_build \<Rightarrow> loader_scanned_icd \<Rightarrow> VkExtensionProperties list" where
  "seen_extensions b d = (case EnumerateInstanceExtensionProperties d of None \<Rightarrow> []
     | Some f \<Rightarrow> filter (\<lambda>e. \<not> wsi_unsupported_instance_extension b e)
         (take (min (second_count f) (first_count f)) (second_props f @ replicate (first_count f) zero_extension)))"

definition enumeration_result :: "loader_scanned_icd \<Rightarrow> VkResult" where
  "enumeration_result d = (case EnumerateInstanceExtensionProperties d of None \<Rightarrow> VK_SUCCESS
     | Some f \<Rightarrow> if first_result f \<noteq> VK_SUCCESS then first_result f else if first_count f = 0 then VK_SUCCESS else second_result f)"

abbreviation supported :: "wsi_build \<Rightarrow> loader_scanned_icd \<Rightarrow> string set" where
  "supported b d \<equiv> extensionName ` set (seen_extensions b d)"

definition driver_names :: "wsi_build \<Rightarrow> loader_api_version \<Rightarrow> VkInstanceCreateInfo \<Rightarrow> loader_scanned_icd \<Rightarrow> string list" where
  "driver_names b av ci d = filter (\<lambda>n. n \<in> supported b d) (ppEnabledExtensionNames ci) @
     (if (v_major av = 1 \<and> v_minor av = 0 \<or> VK_API_VERSION_MAJOR (api_version d) = 1 \<and> VK_API_VERSION_MINOR (api_version d) = 0) \<and> GPDP2 \<in> supported b d
      then [GPDP2] else [])"

definition driver_request :: "wsi_build \<Rightarrow> loader_api_version \<Rightarrow> bool \<Rightarrow> VkInstanceCreateInfo \<Rightarrow> loader_scanned_icd \<Rightarrow> VkInstanceCreateInfo" where
  "driver_request b av conf ci d = \<lparr>ci_flags = icd_flags (ci_flags ci) (driver_names b av ci d),
     pApplicationInfo = icd_application_info conf (pApplicationInfo ci) (icd_version_of d), ppEnabledLayerNames = [], ppEnabledExtensionNames = driver_names b av ci d\<rparr>"

datatype verdict = Rejected VkResult | Refused VkResult | Unusable nat | Accepted nat

definition verdict_of :: "wsi_build \<Rightarrow> loader_api_version \<Rightarrow> bool \<Rightarrow> VkInstanceCreateInfo \<Rightarrow> loader_scanned_icd \<Rightarrow> verdict" where
  "verdict_of b av conf ci d =
     (if enumeration_result d \<noteq> VK_SUCCESS then Rejected (enumeration_result d)
      else (case CreateInstance d (driver_request b av conf ci d) of (r, w) \<Rightarrow>
        if r \<noteq> VK_SUCCESS then Refused r else if entries_found d then Accepted (the w) else Unusable (the w)))"

text \<open>Documented behaviour of drivers: a handle is written exactly on success.  The count of extensions is bounded by the memory for them.\<close>

definition documented_icd :: "loader_scanned_icd \<Rightarrow> bool" where
  "documented_icd d \<longleftrightarrow> (\<forall>info r w. CreateInstance d info = (r, w) \<longrightarrow> (if r = VK_SUCCESS then \<exists>x. w = Some x \<and> x \<noteq> 0 else w = None)) \<and>
     (\<forall>f. EnumerateInstanceExtensionProperties d = Some f \<longrightarrow> first_count f \<le> 2 ^ 31)"

section \<open>One driver\<close>

lemma add_extensions_cases:
  assumes ok: "ok_exts l" "gl_items l = []" "gl_count l = 0" and d: "documented_icd d"
  shows "\<exists>r l' h'. loader_add_instance_extensions b a (EnumerateInstanceExtensionProperties d) False l h = Some (r, l', h') \<and> ok_exts l' \<and>
     live h' - blocks (gl_list l') = live h - blocks (gl_list l) \<and>
     (r = VK_ERROR_OUT_OF_HOST_MEMORY \<or> r = enumeration_result d \<and> (r = VK_SUCCESS \<longrightarrow> extensionName ` set (gl_items l') = supported b d))"
proof (cases "EnumerateInstanceExtensionProperties d")
  case None
  then show ?thesis using ok by (simp add: loader_add_instance_extensions_def enumeration_result_def seen_extensions_def)
next
  case (Some f)
  then have "gl_count l + first_count f \<le> 2 ^ 31" using d ok(3) by (simp add: documented_icd_def)
  moreover have seen: "seen_extensions b d = filter (\<lambda>e. \<not> wsi_unsupported_instance_extension b e)
      (take (min (second_count f) (first_count f)) (second_props f @ replicate (first_count f) zero_extension))"
    using Some by (simp add: seen_extensions_def)
  ultimately have "gl_count l + first_count f \<le> 2 ^ 31" by blast
  from add_instance_extensions_contract [OF ok(1) this, of b a False h] obtain r l' h' n where
    run: "loader_add_instance_extensions b a (Some f) False l h = Some (r, l', h')" and l': "ok_exts l'" "live h' - blocks (gl_list l') = live h - blocks (gl_list l)"
    and out: "if first_result f \<noteq> VK_SUCCESS \<or> second_result f \<noteq> VK_SUCCESS \<and> first_count f \<noteq> 0 then l' = l \<and> r \<noteq> VK_SUCCESS
       else gl_items l' = merge_keyed extensionName [] (take n (seen_extensions b d)) \<and> (r = VK_SUCCESS \<and> n = length (seen_extensions b d) \<or> r = VK_ERROR_OUT_OF_HOST_MEMORY)"
    unfolding Let_def ok(2) seen [symmetric] simp_thms by blast
  show ?thesis
  proof (cases "first_result f \<noteq> VK_SUCCESS \<or> second_result f \<noteq> VK_SUCCESS \<and> first_count f \<noteq> 0")
    case True
    then have "r = enumeration_result d" using run Some
      by (auto simp: loader_add_instance_extensions_def enumeration_result_def split: if_splits)
    with run l' out True Some show ?thesis by auto
  next
    case False
    then have "enumeration_result d = VK_SUCCESS" using Some by (auto simp: enumeration_result_def)
    with run l' out False Some show ?thesis by (auto simp: keys_merge_keyed)
  qed
qed

lemma get_extension_property_ok: "ok_exts l \<Longrightarrow> get_extension_property name l = Some (name \<in> extensionName ` set (gl_items l))"
  by (auto simp: get_extension_property_def scan_list [OF ok_exts_wf])

lemma filter_extension_names_ok:
  assumes "ok_exts l" and "n + length names \<le> length xs"
  shows "\<exists>ys. filter_extension_names l names (Buf xs) n = Some (Buf ys, n + length (filter (\<lambda>m. m \<in> extensionName ` set (gl_items l)) names)) \<and>
     length ys = length xs \<and> take (n + length (filter (\<lambda>m. m \<in> extensionName ` set (gl_items l)) names)) ys = take n xs @ filter (\<lambda>m. m \<in> extensionName ` set (gl_items l)) names"
  using assms(2)
proof (induction names arbitrary: n xs)
  case (Cons m names)
  show ?case
  proof (cases "m \<in> extensionName ` set (gl_items l)")
    case True
    have "Suc n + length names \<le> length (xs[n := m])" using Cons.prems by simp
    from Cons.IH [OF this] Cons.prems True show ?thesis
      by (auto simp: get_extension_property_ok [OF assms(1)] take_Suc_update)
  next
    case False
    with Cons.IH [of n xs] Cons.prems show ?thesis by (simp add: get_extension_property_ok [OF assms(1)])
  qed
qed simp

lemma icd_extension_names_ok:
  assumes ok: "ok_exts l" and names: "extensionName ` set (gl_items l) = supported b d"
    and room: "filtered_extension_names s = Buf xs" "length xs = length (ppEnabledExtensionNames ci) + 1"
  shows "\<exists>ys g. icd_extension_names ci d l s = Some (length (driver_names b (app_api_version (cl_inst s)) ci d),
      s\<lparr>filtered_extension_names := Buf ys, cl_inst := (cl_inst s)\<lparr>supports_get_dev_prop_2 := g\<rparr>\<rparr>) \<and>
     length ys = length xs \<and> take (length (driver_names b (app_api_version (cl_inst s)) ci d)) ys = driver_names b (app_api_version (cl_inst s)) ci d"
proof -
  let ?F = "filter (\<lambda>m. m \<in> supported b d) (ppEnabledExtensionNames ci)"
  obtain ys where ys: "filter_extension_names l (ppEnabledExtensionNames ci) (Buf xs) 0 = Some (Buf ys, length ?F)" "length ys = length xs" "take (length ?F) ys = ?F"
    using filter_extension_names_ok [OF ok, of 0 "ppEnabledExtensionNames ci" xs] room(2) unfolding names by auto
  have lt: "length ?F < length ys" unfolding ys(2) room(2) using le_imp_less_Suc [OF length_filter_le [of "\<lambda>m. m \<in> supported b d" "ppEnabledExtensionNames ci"]] by simp
  show ?thesis
  proof (cases "version_is_1_0 (cl_inst s) d \<and> GPDP2 \<in> supported b d")
    case True
    then have dn: "driver_names b (app_api_version (cl_inst s)) ci d = ?F @ [GPDP2]" by (simp add: driver_names_def version_is_1_0_def)
    have "take (Suc (length ?F)) (ys[length ?F := GPDP2]) = ?F @ [GPDP2]" using lt ys(3) by (simp add: take_Suc_update)
    moreover have "icd_extension_names ci d l s = Some (Suc (length ?F), s\<lparr>filtered_extension_names := Buf (ys[length ?F := GPDP2]),
        cl_inst := (cl_inst s)\<lparr>supports_get_dev_prop_2 := True\<rparr>\<rparr>)"
      using True ys(1) room(1) lt names by (simp add: icd_extension_names_def get_extension_property_ok [OF ok])
    ultimately show ?thesis unfolding dn using ys(2) by - (rule exI [of _ "ys[length ?F := GPDP2]"], rule exI [of _ True], simp)
  next
    case False
    then have dn: "driver_names b (app_api_version (cl_inst s)) ci d = ?F" by (auto simp: driver_names_def version_is_1_0_def)
    have "icd_extension_names ci d l s = Some (length ?F, s\<lparr>filtered_extension_names := Buf ys\<rparr>)"
      using False ys(1) room(1) names by (auto simp: icd_extension_names_def get_extension_property_ok [OF ok])
    moreover have "s\<lparr>filtered_extension_names := Buf ys\<rparr> = s\<lparr>filtered_extension_names := Buf ys, cl_inst := (cl_inst s)\<lparr>supports_get_dev_prop_2 := supports_get_dev_prop_2 (cl_inst s)\<rparr>\<rparr>"
      by simp
    ultimately show ?thesis unfolding dn using ys(2,3) by metis
  qed
qed

section \<open>The invariant of the loop\<close>

text \<open>Instances that exist in driver \<open>j\<close> without being in the list.\<close>

definition leaked :: "verdict list \<Rightarrow> nat \<Rightarrow> nat multiset" where
  "leaked V j = (if j < length V then (case V ! j of Unusable x \<Rightarrow> {#x#} | _ \<Rightarrow> {#}) else {#})"

definition listed :: "created_icd_term list \<Rightarrow> nat \<Rightarrow> nat multiset" where
  "listed ts j = mset (map icd_instance (filter (\<lambda>t. scanned_icd t = j \<and> icd_instance t \<noteq> 0) ts))"

text \<open>Every instance of a driver is in the list or leaked, every block is in the list, and every request is the one of its driver.\<close>

definition accounted :: "(nat \<Rightarrow> VkInstanceCreateInfo) \<Rightarrow> int \<Rightarrow> int \<Rightarrow> verdict list \<Rightarrow> term_instance \<Rightarrow> bool" where
  "accounted req n0 c0 V st \<longleftrightarrow> live (ti_heap st) = n0 + int (length (ti_icd_terms st)) \<and> icd_terms_count st = c0 + int (length (ti_icd_terms st)) \<and>
     (\<forall>t\<in>set (ti_icd_terms st). icd_instance t = 0 \<or> dispatch_filled t) \<and>
     (\<forall>j. driver_objects () j (ti_calls st) = Some (leaked V j + listed (ti_icd_terms st) j)) \<and>
     (\<forall>(i, info)\<in>set (ti_requests st). info = req i)"

text \<open>The accepted drivers with their numbers, from number \<open>i\<close>.\<close>

fun accepted :: "nat \<Rightarrow> verdict list \<Rightarrow> (nat \<times> nat) list" where
  "accepted i [] = []"
| "accepted i (Accepted x # V) = (i, x) # accepted (Suc i) V"
| "accepted i (v # V) = accepted (Suc i) V"

fun after_verdict :: "verdict \<Rightarrow> VkResult" where
  "after_verdict (Rejected r) = r"
| "after_verdict v = VK_SUCCESS"

definition loop_ok :: "(nat \<Rightarrow> VkInstanceCreateInfo) \<Rightarrow> int \<Rightarrow> int \<Rightarrow> nat \<Rightarrow> loader_api_version \<Rightarrow> bool \<Rightarrow> verdict list \<Rightarrow> create_loop \<Rightarrow> bool" where
  "loop_ok req n0 c0 m av conf V s \<longleftrightarrow> accounted req n0 c0 V (cl_inst s) \<and>
     map (\<lambda>t. (scanned_icd t, icd_instance t)) (ti_icd_terms (cl_inst s)) = rev (accepted 0 V) \<and>
     one_icd_successful s = (accepted 0 V \<noteq> []) \<and> cl_res s = (if V = [] then VK_SUCCESS else after_verdict (last V)) \<and>
     (\<exists>xs. filtered_extension_names s = Buf xs \<and> length xs = m + 1) \<and>
     app_api_version (cl_inst s) = av \<and> has_device_configurations (cl_inst s) = conf"

lemma accepted_append: "accepted i (V @ W) = accepted i V @ accepted (i + length V) W"
proof (induction V arbitrary: i)
  case (Cons v V)
  then show ?case by (cases v) simp_all
qed simp

lemma accepted_bound: "(k, x) \<in> set (accepted i V) \<Longrightarrow> i \<le> k \<and> k < i + length V"
proof (induction V arbitrary: i)
  case (Cons v V)
  then show ?case by (cases v) fastforce+
qed simp

lemma leaked_snoc: "leaked (V @ [v]) j = (if j = length V then (case v of Unusable x \<Rightarrow> {#x#} | _ \<Rightarrow> {#}) else leaked V j)"
  by (auto simp: leaked_def nth_append)

lemma listed_fresh:
  assumes "map (\<lambda>t. (scanned_icd t, icd_instance t)) ts = rev (accepted 0 V)"
  shows "listed ts (length V) = {#}"
proof -
  have "scanned_icd t < length V" if "t \<in> set ts" for t
  proof -
    have "(scanned_icd t, icd_instance t) \<in> set (map (\<lambda>t. (scanned_icd t, icd_instance t)) ts)" using that by force
    then show ?thesis using accepted_bound unfolding assms by force
  qed
  then show ?thesis by (fastforce simp: listed_def filter_empty_conv)
qed

text \<open>The state with a new entry for driver \<open>i\<close>, and the states after its verdict.\<close>

abbreviation entry :: "nat \<Rightarrow> nat \<Rightarrow> bool \<Rightarrow> string set \<Rightarrow> created_icd_term" where
  "entry i x f es \<equiv> \<lparr>scanned_icd = i, icd_instance = x, dispatch_filled = f, enabled_instance_extensions = es\<rparr>"

lemma listed_entry: "listed (entry i x f es # ts) j = (if j = i \<and> x \<noteq> 0 then {#x#} else {#}) + listed ts j"
  by (simp add: listed_def)

lemma accounted_new:
  assumes "accounted req n0 c0 V st" and "ti_icd_terms st' = entry i 0 False es # ti_icd_terms st" "live (ti_heap st') = live (ti_heap st) + 1"
    "icd_terms_count st' = icd_terms_count st + 1" "ti_calls st' = ti_calls st" "ti_requests st' = ti_requests st"
  shows "accounted req n0 c0 V st'"
  using assms by (auto simp: accounted_def listed_entry)

lemma accounted_dropped:
  assumes "accounted req n0 c0 V st" and "ti_icd_terms st' = ti_icd_terms st" "live (ti_heap st') = live (ti_heap st)"
    "icd_terms_count st' = icd_terms_count st" "\<forall>(i, info)\<in>set (ti_requests st'). info = req i"
    and "\<forall>j. driver_objects () j (ti_calls st') = Some (leaked V' j + listed (ti_icd_terms st) j)"
  shows "accounted req n0 c0 V' st'"
  using assms by (simp add: accounted_def)

lemma create_icd_instance_spec:
  assumes acc: "accounted req n0 c0 V st0" and new: "map (\<lambda>t. (scanned_icd t, icd_instance t)) (ti_icd_terms st0) = rev (accepted 0 V)"
    and st: "ti_icd_terms (cl_inst s) = entry (length V) 0 False es # ti_icd_terms st0" "live (ti_heap (cl_inst s)) = live (ti_heap st0) + 1"
      "icd_terms_count (cl_inst s) = icd_terms_count st0 + 1" "ti_calls (cl_inst s) = ti_calls st0" "ti_requests (cl_inst s) = ti_requests st0"
      "app_api_version (cl_inst s) = av" "has_device_configurations (cl_inst s) = conf"
    and s: "filtered_extension_names s = Buf xs" "length xs = m + 1" "take n xs = driver_names b av ci d" "one_icd_successful s = (accepted 0 V \<noteq> [])" "cl_res s = VK_SUCCESS"
    and d: "documented_icd d" "enumeration_result d = VK_SUCCESS" "req (length V) = driver_request b av conf ci d"
  shows "\<exists>leave s'. create_icd_instance ci (length V) d n s = Some (leave, s') \<and>
     (if leave then accounted req n0 c0 V (cl_inst s') \<and> cl_res s' = VK_ERROR_OUT_OF_HOST_MEMORY
      else loop_ok req n0 c0 m av conf (V @ [verdict_of b av conf ci d]) s')"
proof -
  let ?i = "length V" and ?info = "driver_request b av conf ci d" and ?v = "verdict_of b av conf ci d"
  obtain r w where cr: "CreateInstance d ?info = (r, w)" by fastforce
  have w: "if r = VK_SUCCESS then \<exists>x. w = Some x \<and> x \<noteq> 0 else w = None" using d(1) cr unfolding documented_icd_def by blast
  have info: "\<lparr>ci_flags = icd_flags (ci_flags ci) (take n xs), pApplicationInfo = icd_application_info conf (pApplicationInfo ci) (icd_version_of d),
     ppEnabledLayerNames = [], ppEnabledExtensionNames = take n xs\<rparr> = ?info" using s(3) by (simp add: driver_request_def)
  define st1 where "st1 = (cl_inst s)\<lparr>ti_calls := ti_calls st0 @ [CreateCall () ?i r w], ti_requests := ti_requests st0 @ [(?i, ?info)]\<rparr>"
  define x where "x = (case w of None \<Rightarrow> 0 | Some x \<Rightarrow> x)"
  define ts where "ts = ti_icd_terms st0"
  have run: "create_icd_instance ci ?i d n s =
     (if r = VK_ERROR_OUT_OF_HOST_MEMORY then Some (True, s\<lparr>cl_inst := st1\<lparr>ti_icd_terms := entry ?i x False es # ts\<rparr>, cl_res := VK_ERROR_OUT_OF_HOST_MEMORY\<rparr>)
      else if r \<noteq> VK_SUCCESS \<or> \<not> entries_found d then Some (False, s\<lparr>cl_inst := loader_icd_destroy (st1\<lparr>ti_icd_terms := ts\<rparr>)\<rparr>)
      else Some (False, s\<lparr>cl_inst := st1\<lparr>ti_icd_terms := entry ?i x True es # ts\<rparr>, one_icd_successful := True\<rparr>))"
    using s(1) st info cr unfolding create_icd_instance_def st1_def x_def ts_def by (auto simp: Let_def drop_newest_def split: option.split)
  have obj: "driver_objects () j (ti_calls st1) = Some ((if j = ?i \<and> r = VK_SUCCESS then {#x#} else {#}) + leaked V j + listed ts j)" for j
    using acc w by (auto simp: accounted_def st1_def x_def ts_def)
  have l0: "listed ts ?i = {#}" and lk0: "leaked V ?i = {#}" using listed_fresh [OF new] by (simp_all add: ts_def leaked_def)
  have base: "live (ti_heap st1) = live (ti_heap st0) + 1" "icd_terms_count st1 = icd_terms_count st0 + 1" "app_api_version st1 = av" "has_device_configurations st1 = conf"
    "\<forall>(i, info)\<in>set (ti_requests st1). info = req i" using st d(3) acc by (auto simp: st1_def accounted_def)
  have a0: "live (ti_heap st0) = n0 + int (length ts)" "icd_terms_count st0 = c0 + int (length ts)" "\<forall>t\<in>set ts. icd_instance t = 0 \<or> dispatch_filled t"
    using acc by (simp_all add: accounted_def ts_def)
  consider (oom) "r = VK_ERROR_OUT_OF_HOST_MEMORY" | (refused) "r \<noteq> VK_ERROR_OUT_OF_HOST_MEMORY" "r \<noteq> VK_SUCCESS"
    | (unusable) "r = VK_SUCCESS" "\<not> entries_found d" | (acc) "r = VK_SUCCESS" "entries_found d" by blast
  then show ?thesis
  proof cases
    case oom
    then have "x = 0" using w by (simp add: x_def)
    with run oom obj base a0 show ?thesis by (auto simp: accounted_def listed_entry)
  next
    case refused
    have v: "?v = Refused r" using refused cr d(2) by (simp add: verdict_of_def)
    have "accounted req n0 c0 (V @ [?v]) (loader_icd_destroy (st1\<lparr>ti_icd_terms := ts\<rparr>))"
      using refused v obj base a0 lk0 by (auto simp: accounted_def loader_icd_destroy_def leaked_snoc)
    with run refused v s new base show ?thesis by (auto simp: loop_ok_def accepted_append loader_icd_destroy_def ts_def)
  next
    case unusable
    then obtain y where y: "w = Some y" using w by auto
    have v: "?v = Unusable x" using unusable cr d(2) y by (simp add: verdict_of_def x_def)
    have "accounted req n0 c0 (V @ [?v]) (loader_icd_destroy (st1\<lparr>ti_icd_terms := ts\<rparr>))"
      using unusable v obj base a0 lk0 by (auto simp: accounted_def loader_icd_destroy_def leaked_snoc)
    with run unusable v s new base show ?thesis by (auto simp: loop_ok_def accepted_append loader_icd_destroy_def ts_def)
  next
    case acc
    then obtain y where y: "w = Some y" "y \<noteq> 0" using w by auto
    have v: "?v = Accepted x" and x0: "x \<noteq> 0" using acc cr d(2) y by (simp_all add: verdict_of_def x_def)
    have "accounted req n0 c0 (V @ [?v]) (st1\<lparr>ti_icd_terms := entry ?i x True es # ts\<rparr>)"
      using acc v obj base a0 lk0 x0 by (auto simp: accounted_def leaked_snoc listed_entry)
    with run acc v s new base show ?thesis by (auto simp: loop_ok_def accepted_append ts_def)
  qed
qed

lemma icd_step_spec:
  assumes ok: "loop_ok req n0 c0 (length (ppEnabledExtensionNames ci)) av conf V s"
    and d: "documented_icd d" "req (length V) = driver_request b av conf ci d"
  shows "\<exists>leave s'. icd_step b a ci (length V) d s = Some (leave, s') \<and>
     (if leave then accounted req n0 c0 V (cl_inst s') \<and> cl_res s' = VK_ERROR_OUT_OF_HOST_MEMORY
      else loop_ok req n0 c0 (length (ppEnabledExtensionNames ci)) av conf (V @ [verdict_of b av conf ci d]) s')"
proof -
  let ?i = "length V" and ?st = "cl_inst s" and ?ts = "ti_icd_terms (cl_inst s)"
  obtain xs where acc: "accounted req n0 c0 V ?st" and new: "map (\<lambda>t. (scanned_icd t, icd_instance t)) ?ts = rev (accepted 0 V)"
    and s: "one_icd_successful s = (accepted 0 V \<noteq> [])" "filtered_extension_names s = Buf xs" "length xs = length (ppEnabledExtensionNames ci) + 1"
      "app_api_version ?st = av" "has_device_configurations ?st = conf" using ok by (auto simp: loop_ok_def)
  let ?h = "ti_heap ?st"
  let ?st1 = "?st\<lparr>ti_heap := add_live 1 (tick ?h), icd_terms_count := icd_terms_count ?st + 1, ti_icd_terms := entry ?i 0 False {} # ?ts\<rparr>"
  show ?thesis
  proof (cases "succeeds ?h")
    case False
    then have "icd_step b a ci ?i d s = Some (True, s\<lparr>cl_inst := ?st\<lparr>ti_heap := tick ?h\<rparr>, cl_res := VK_ERROR_OUT_OF_HOST_MEMORY\<rparr>)"
      by (simp add: icd_step_def loader_icd_add_def)
    with acc show ?thesis by (intro exI [of _ True]) (simp add: accounted_def)
  next
    case True
    then have add: "loader_icd_add ?i ?st = (True, ?st1)" by (simp add: loader_icd_add_def)
    let ?h1 = "add_live 1 (tick ?h)"
    have acc1: "accounted req n0 c0 V (?st1\<lparr>ti_heap := h\<rparr>)" if "live h = live ?h + 1" for h
      by (rule accounted_new [OF acc]) (use that in simp_all)
    show ?thesis
    proof (cases "succeeds ?h1")
      case no: False
      then have "icd_step b a ci ?i d s = Some (True, s\<lparr>cl_inst := ?st1\<lparr>ti_heap := tick ?h1\<rparr>, cl_res := VK_ERROR_OUT_OF_HOST_MEMORY\<rparr>)"
        using add init_generic_list_cases [of sizeof_VkExtensionProperties ?h1 a zero_extension empty_generic_list]
        by (auto simp: icd_step_def sizeof_VkExtensionProperties_def Let_def)
      with acc1 [of "tick ?h1"] show ?thesis by (intro exI [of _ True]) simp
    next
      case yes: True
      let ?h2 = "add_live 1 (tick ?h1)"
      let ?l = "empty_generic_list\<lparr>gl_count := 0, gl_capacity := 32 * sizeof_VkExtensionProperties, gl_list := Buf (replicate 32 zero_extension)\<rparr>"
      have init: "loader_init_generic_list a sizeof_VkExtensionProperties zero_extension empty_generic_list ?h1 = (VK_SUCCESS, ?l, ?h2)"
        using yes init_generic_list_cases [of sizeof_VkExtensionProperties ?h1 a zero_extension empty_generic_list] by (auto simp: sizeof_VkExtensionProperties_def)
      have l: "ok_exts ?l" "gl_items ?l = []" "gl_count ?l = 0"
        by (simp_all add: ok_exts_def ok_list_def wf_generic_list_def tight_def gl_items_def sizeof_VkExtensionProperties_def)
      obtain r l' h3 where en: "loader_add_instance_extensions b a (EnumerateInstanceExtensionProperties d) False ?l ?h2 = Some (r, l', h3)" and l': "ok_exts l'"
        and h3: "live h3 - blocks (gl_list l') = live ?h2 - blocks (gl_list ?l)"
        and r: "r = VK_ERROR_OUT_OF_HOST_MEMORY \<or> r = enumeration_result d \<and> (r = VK_SUCCESS \<longrightarrow> extensionName ` set (gl_items l') = supported b d)"
        using add_extensions_cases [OF l d(1), of b a ?h2] by blast
      obtain h4 where del: "loader_destroy_generic_list a l' h3 = Some (empty_generic_list, h4)" and h4: "live h4 = live ?h + 1"
        using destroy_generic_list_releases [OF ok_exts_wf [OF l'], of a h3] h3 by auto
      define s2 where "s2 = s\<lparr>cl_inst := ?st1\<lparr>ti_heap := h3\<rparr>, cl_res := r\<rparr>"
      have step: "icd_step b a ci ?i d s =
         (if r \<noteq> VK_SUCCESS
          then (let s = s2\<lparr>cl_inst := (cl_inst s2)\<lparr>ti_heap := h4\<rparr>\<rparr>
                in if r = VK_ERROR_OUT_OF_HOST_MEMORY then Some (True, s) else Some (False, s\<lparr>cl_inst := drop_newest (cl_inst s)\<rparr>))
          else do {
            (n, s) \<leftarrow> icd_extension_names ci d l' s2;
            names \<leftarrow> (case filtered_extension_names s of Buf xs \<Rightarrow> Some (take n xs) | _ \<Rightarrow> None);
            (_, h) \<leftarrow> loader_destroy_generic_list a l' (ti_heap (cl_inst s));
            let st = set_newest (\<lambda>t. t\<lparr>enabled_instance_extensions :=
               fill_out_enabled_instance_extensions names (if api_version d \<ge> VK_API_VERSION_1_1 then {GPDP2} else {})\<rparr>) (cl_inst s);
            create_icd_instance ci ?i d n (s\<lparr>cl_inst := st\<lparr>ti_heap := h\<rparr>\<rparr>)
          })"
        using add init en del by (simp add: icd_step_def s2_def Let_def)
      consider (oom) "r = VK_ERROR_OUT_OF_HOST_MEMORY" | (rejected) "r \<noteq> VK_ERROR_OUT_OF_HOST_MEMORY" "r \<noteq> VK_SUCCESS" "r = enumeration_result d"
        | (asked) "r = VK_SUCCESS" "enumeration_result d = VK_SUCCESS" "extensionName ` set (gl_items l') = supported b d"
        using r by auto
      then show ?thesis
      proof cases
        case oom
        with step acc1 [OF h4] show ?thesis by (intro exI [of _ True]) (simp add: s2_def Let_def)
      next
        case rejected
        have v: "verdict_of b av conf ci d = Rejected r" using rejected by (simp add: verdict_of_def)
        have "accounted req n0 c0 (V @ [Rejected r]) (drop_newest (?st1\<lparr>ti_heap := h4\<rparr>))"
          using acc h4 by (auto simp: accounted_def drop_newest_def loader_icd_destroy_def leaked_snoc leaked_def nth_append)
        with step rejected s new show ?thesis
          unfolding v by (intro exI [of _ False]) (auto simp: s2_def Let_def loop_ok_def accepted_append drop_newest_def loader_icd_destroy_def)
      next
        case asked
        have s2: "filtered_extension_names s2 = Buf xs" "app_api_version (cl_inst s2) = av" using s by (simp_all add: s2_def)
        let ?N = "driver_names b av ci d"
        obtain ys g where nm: "icd_extension_names ci d l' s2 = Some (length ?N,
            s2\<lparr>filtered_extension_names := Buf ys, cl_inst := (cl_inst s2)\<lparr>supports_get_dev_prop_2 := g\<rparr>\<rparr>)" and ys: "length ys = length xs" "take (length ?N) ys = ?N"
          using icd_extension_names_ok [OF l' asked(3) s2(1) s(3)] unfolding s2(2) by blast
        define es where "es = fill_out_enabled_instance_extensions ?N (if api_version d \<ge> VK_API_VERSION_1_1 then {GPDP2} else {})"
        define s3 where "s3 = s2\<lparr>filtered_extension_names := Buf ys, cl_inst := (cl_inst s2)\<lparr>supports_get_dev_prop_2 := g, ti_icd_terms := entry ?i 0 False es # ?ts, ti_heap := h4\<rparr>\<rparr>"
        have "icd_step b a ci ?i d s = create_icd_instance ci ?i d (length ?N) s3"
          using step asked(1) nm ys(2) del by (simp add: s3_def es_def s2_def)
        moreover have "\<exists>leave s'. create_icd_instance ci ?i d (length ?N) s3 = Some (leave, s') \<and>
           (if leave then accounted req n0 c0 V (cl_inst s') \<and> cl_res s' = VK_ERROR_OUT_OF_HOST_MEMORY
            else loop_ok req n0 c0 (length (ppEnabledExtensionNames ci)) av conf (V @ [verdict_of b av conf ci d]) s')"
          by (rule create_icd_instance_spec [OF acc new, where es = es and xs = ys])
            (use h4 s ys asked d in \<open>simp_all add: s3_def s2_def\<close>)
        ultimately show ?thesis by simp
      qed
    qed
  qed
qed

lemma icd_loop_spec:
  assumes "loop_ok req n0 c0 (length (ppEnabledExtensionNames ci)) av conf V s" and "\<forall>d\<in>set ds. documented_icd d"
    and "\<forall>k<length ds. req (length V + k) = driver_request b av conf ci (ds ! k)"
  shows "\<exists>leave s'. icd_loop b a ci (length V) ds s = Some (leave, s') \<and>
     (if leave then cl_res s' = VK_ERROR_OUT_OF_HOST_MEMORY \<and> (\<exists>k\<le>length ds. accounted req n0 c0 (V @ map (verdict_of b av conf ci) (take k ds)) (cl_inst s'))
      else loop_ok req n0 c0 (length (ppEnabledExtensionNames ci)) av conf (V @ map (verdict_of b av conf ci) ds) s')"
  using assms
proof (induction ds arbitrary: V s)
  case Nil
  then show ?case by (intro exI [of _ False]) simp
next
  case (Cons d ds)
  let ?v = "verdict_of b av conf ci d"
  have d: "documented_icd d" "req (length V) = driver_request b av conf ci d" using Cons.prems(2,3) by auto
  obtain leave s1 where step: "icd_step b a ci (length V) d s = Some (leave, s1)"
    and s1: "if leave then accounted req n0 c0 V (cl_inst s1) \<and> cl_res s1 = VK_ERROR_OUT_OF_HOST_MEMORY
      else loop_ok req n0 c0 (length (ppEnabledExtensionNames ci)) av conf (V @ [?v]) s1" using icd_step_spec [OF Cons.prems(1) d] by blast
  show ?case
  proof (cases leave)
    case True
    then have "icd_loop b a ci (length V) (d # ds) s = Some (True, s1)" using step by simp
    moreover have "accounted req n0 c0 (V @ map (verdict_of b av conf ci) (take 0 (d # ds))) (cl_inst s1)" using s1 True by simp
    ultimately show ?thesis using s1 True by (intro exI [of _ True] exI [of _ s1]) auto
  next
    case False
    with s1 have ok: "loop_ok req n0 c0 (length (ppEnabledExtensionNames ci)) av conf (V @ [?v]) s1" by simp
    have "\<forall>k<length ds. req (length (V @ [?v]) + k) = driver_request b av conf ci (ds ! k)" using Cons.prems(3) by fastforce
    from Cons.IH [OF ok _ this] Cons.prems(2) obtain leave' s' where
      rest: "icd_loop b a ci (length (V @ [?v])) ds s1 = Some (leave', s')" and
      s': "if leave' then cl_res s' = VK_ERROR_OUT_OF_HOST_MEMORY \<and> (\<exists>k\<le>length ds. accounted req n0 c0 ((V @ [?v]) @ map (verdict_of b av conf ci) (take k ds)) (cl_inst s'))
        else loop_ok req n0 c0 (length (ppEnabledExtensionNames ci)) av conf ((V @ [?v]) @ map (verdict_of b av conf ci) ds) s'" by auto
    have run: "icd_loop b a ci (length V) (d # ds) s = Some (leave', s')" using step False rest by simp
    show ?thesis
    proof (cases leave')
      case True
      with s' obtain k where "k \<le> length ds" "accounted req n0 c0 (V @ map (verdict_of b av conf ci) (take (Suc k) (d # ds))) (cl_inst s')" by auto
      with run s' True show ?thesis by (intro exI [of _ leave'] exI [of _ s']) (auto intro!: exI [of _ "Suc k"])
    next
      case no: False
      with run s' show ?thesis by (intro exI [of _ False]) simp
    qed
  qed
qed

lemma destroy_icd_terms_spec:
  assumes "\<forall>j. driver_objects () j (ti_calls st) = Some (M j + listed ts j)" and "\<forall>t\<in>set ts. icd_instance t = 0 \<or> dispatch_filled t"
  shows "\<exists>st'. destroy_icd_terms ts st = Some st' \<and> ti_icd_terms st' = [] \<and> live (ti_heap st') = live (ti_heap st) - int (length ts) \<and>
     icd_terms_count st' = icd_terms_count st - int (length ts) \<and> ti_requests st' = ti_requests st \<and> (\<forall>j. driver_objects () j (ti_calls st') = Some (M j))"
  using assms
proof (induction ts arbitrary: st)
  case Nil
  then show ?case by (simp add: listed_def)
next
  case (Cons t ts)
  let ?st = "loader_icd_destroy (if icd_instance t = 0 then st else st\<lparr>ti_calls := ti_calls st @ [DestroyCall () (scanned_icd t) (icd_instance t)]\<rparr>)"
  have run: "destroy_icd_terms (t # ts) st = destroy_icd_terms ts ?st" using Cons.prems(2) by auto
  have "\<forall>j. driver_objects () j (ti_calls ?st) = Some (M j + listed ts j)"
  proof
    fix j
    have "driver_objects () j (ti_calls st) = Some (M j + listed (t # ts) j)" using Cons.prems(1) by blast
    then show "driver_objects () j (ti_calls ?st) = Some (M j + listed ts j)" by (auto simp: loader_icd_destroy_def listed_def)
  qed
  from Cons.IH [OF this] Cons.prems(2) show ?case unfolding run by (auto simp: loader_icd_destroy_def)
qed

section \<open>Properties\<close>

text \<open>The result of a creation in which memory does not run out.  An error of the last driver's enumeration is the result of the whole.\<close>

definition expected_result :: "verdict list \<Rightarrow> VkResult" where
  "expected_result V = (if V \<noteq> [] \<and> after_verdict (last V) \<noteq> VK_SUCCESS then after_verdict (last V)
     else if accepted 0 V = [] then VK_ERROR_INCOMPATIBLE_DRIVER else VK_SUCCESS)"

abbreviation verdicts :: "wsi_build \<Rightarrow> VkInstanceCreateInfo \<Rightarrow> term_instance \<Rightarrow> loader_scanned_icd list \<Rightarrow> verdict list" where
  "verdicts b ci st icds \<equiv> map (verdict_of b (altered_version ci st) (has_device_configurations st) ci) icds"

lemma after_loop_result:
  "cl_res (after_icd_loop s) = (if cl_res s = VK_SUCCESS \<and> (ti_icd_terms (cl_inst s) = [] \<or> \<not> one_icd_successful s) then VK_ERROR_INCOMPATIBLE_DRIVER else cl_res s)"
  by (simp add: after_icd_loop_def Let_def)

lemma create_instance_spec:
  assumes ok: "\<forall>d\<in>set icds. documented_icd d" and st: "ti_icd_terms st = []" "ti_calls st = []" "ti_requests st = []"
  shows "\<exists>r st'. terminator_CreateInstance b a icds ci st = Some (r, st') \<and>
     (\<forall>(i, info)\<in>set (ti_requests st'). i < length icds \<longrightarrow> info = driver_request b (altered_version ci st) (has_device_configurations st) ci (icds ! i)) \<and>
     (if r = VK_SUCCESS
      then map (\<lambda>t. (scanned_icd t, icd_instance t)) (ti_icd_terms st') = rev (accepted 0 (verdicts b ci st icds)) \<and>
        expected_result (verdicts b ci st icds) = VK_SUCCESS \<and> live (ti_heap st') = live (ti_heap st) + int (length (ti_icd_terms st')) \<and>
        (\<forall>j. driver_objects () j (ti_calls st') = Some (leaked (verdicts b ci st icds) j + listed (ti_icd_terms st') j))
      else ti_icd_terms st' = [] \<and> live (ti_heap st') = live (ti_heap st) \<and>
        (r = VK_ERROR_OUT_OF_HOST_MEMORY \<or> r = expected_result (verdicts b ci st icds)) \<and>
        (\<exists>k\<le>length icds. \<forall>j. driver_objects () j (ti_calls st') = Some (leaked (take k (verdicts b ci st icds)) j)))"
proof -
  let ?av = "altered_version ci st" and ?conf = "has_device_configurations st" and ?m = "length (ppEnabledExtensionNames ci)" and ?V = "verdicts b ci st icds"
  define req where "req i = driver_request b ?av ?conf ci (icds ! i)" for i
  let ?n = "live (ti_heap st)" and ?c = "icd_terms_count st"
  let ?s = "\<lparr>cl_res = VK_SUCCESS, one_icd_successful = False, filtered_extension_names = Buf (replicate (?m + 1) []),
      cl_inst = st\<lparr>app_api_version := ?av, supports_get_dev_prop_2 := supports_get_dev_prop_2 st \<or> requests_gpdp2 ci\<rparr>\<rparr>"
  have pre: "\<forall>k<length icds. req (length ([] :: verdict list) + k) = driver_request b ?av ?conf ci (icds ! k)" by (simp add: req_def)
  have "loop_ok req ?n ?c ?m ?av ?conf [] ?s" using st by (auto simp: loop_ok_def accounted_def leaked_def listed_def)
  from icd_loop_spec [OF this ok pre, of a] obtain leave s where loop: "icd_loop b a ci 0 icds ?s = Some (leave, s)"
    and s: "if leave then cl_res s = VK_ERROR_OUT_OF_HOST_MEMORY \<and> (\<exists>k\<le>length icds. accounted req ?n ?c (take k ?V) (cl_inst s))
      else loop_ok req ?n ?c ?m ?av ?conf ?V s" unfolding append_Nil list.size take_map [symmetric] by blast
  define s1 where "s1 = (if leave then s else after_icd_loop s)"
  have keep: "ti_heap (cl_inst s1) = ti_heap (cl_inst s)" "ti_icd_terms (cl_inst s1) = ti_icd_terms (cl_inst s)" "ti_calls (cl_inst s1) = ti_calls (cl_inst s)"
    "ti_requests (cl_inst s1) = ti_requests (cl_inst s)" by (auto simp: s1_def after_icd_loop_def Let_def)
  obtain k where k: "k \<le> length icds" "accounted req ?n ?c (take k ?V) (cl_inst s)" and kl: "\<not> leave \<longrightarrow> k = length icds"
  proof (cases leave)
    case False
    with s have "accounted req ?n ?c (take (length icds) ?V) (cl_inst s)" by (simp add: loop_ok_def)
    with that show thesis by blast
  qed (use s that in auto)
  let ?st2 = "(cl_inst s1)\<lparr>create_terminator_invalid_extension := (cl_res s1 = VK_ERROR_EXTENSION_NOT_PRESENT)\<rparr>"
  have reqs: "\<forall>(i, info)\<in>set (ti_requests (cl_inst s)). i < length icds \<longrightarrow> info = driver_request b ?av ?conf ci (icds ! i)"
    using k(2) by (auto simp: accounted_def req_def)
  have obj: "\<forall>j. driver_objects () j (ti_calls ?st2) = Some (leaked (take k ?V) j + listed (ti_icd_terms (cl_inst s)) j)"
    and fin: "\<forall>t\<in>set (ti_icd_terms (cl_inst s)). icd_instance t = 0 \<or> dispatch_filled t"
    and lv: "live (ti_heap (cl_inst s)) = ?n + int (length (ti_icd_terms (cl_inst s)))"
    using k(2) keep by (auto simp: accounted_def)
  have res: "if leave then cl_res s1 = VK_ERROR_OUT_OF_HOST_MEMORY else cl_res s1 = expected_result ?V"
  proof (cases leave)
    case False
    with s have ok: "loop_ok req ?n ?c ?m ?av ?conf ?V s" by simp
    then have "ti_icd_terms (cl_inst s) = [] \<longleftrightarrow> accepted 0 ?V = []" by (metis (no_types, lifting) Nil_is_map_conv Nil_is_rev_conv loop_ok_def)
    with ok have "cl_res (after_icd_loop s) = expected_result ?V"
      by (cases "?V = []") (simp_all add: after_loop_result loop_ok_def expected_result_def)
    with False show ?thesis by (simp add: s1_def)
  qed (use s in \<open>simp add: s1_def\<close>)
  show ?thesis
  proof (cases "cl_res s1 = VK_SUCCESS")
    case True
    then have "\<not> leave" using res by auto
    with s kl obj have fin: "map (\<lambda>t. (scanned_icd t, icd_instance t)) (ti_icd_terms (cl_inst s)) = rev (accepted 0 ?V)" "take k ?V = ?V" by (auto simp: loop_ok_def)
    have "terminator_CreateInstance b a icds ci st = Some (VK_SUCCESS, ?st2\<lparr>enabled_extensions := fill_out_enabled_instance_extensions (ppEnabledExtensionNames ci) (enabled_extensions ?st2)\<rparr>)"
      using loop True by (simp add: terminator_CreateInstance_def s1_def [symmetric] Let_def)
    with fin obj lv reqs keep res True \<open>\<not> leave\<close> show ?thesis by simp
  next
    case False
    obtain st' where del: "destroy_icd_terms (ti_icd_terms (cl_inst s)) ?st2 = Some st'" and st': "ti_icd_terms st' = []"
      "live (ti_heap st') = live (ti_heap ?st2) - int (length (ti_icd_terms (cl_inst s)))" "ti_requests st' = ti_requests ?st2"
      "\<forall>j. driver_objects () j (ti_calls st') = Some (leaked (take k ?V) j)"
      using destroy_icd_terms_spec [OF obj fin] by blast
    have "terminator_CreateInstance b a icds ci st = Some (cl_res s1, st')"
      using loop False del keep by (simp add: terminator_CreateInstance_def s1_def [symmetric] Let_def)
    moreover have "cl_res s1 = VK_ERROR_OUT_OF_HOST_MEMORY \<or> cl_res s1 = expected_result ?V" using res by (auto split: if_splits)
    ultimately show ?thesis using False st' lv reqs keep k(1) by auto
  qed
qed

lemma accepted_verdict: "(k, x) \<in> set (accepted i V) \<Longrightarrow> V ! (k - i) = Accepted x"
proof (induction V arbitrary: i)
  case (Cons v V)
  show ?case
  proof (cases "(k, x) \<in> set (accepted (Suc i) V)")
    case True
    with accepted_bound [OF True] Cons.IH [OF True] show ?thesis by (simp add: nth_Cons')
  next
    case False
    with Cons.prems show ?thesis by (cases v) auto
  qed
qed simp

text \<open>C4: Whatever the drivers report, creating their instances has no undefined behaviour.  Every driver is asked for exactly the requested extensions it supports (and the one
  the loader needs for sorting), without layers, with the version rules of \<open>icd_application_info\<close>.  On success the list holds exactly the drivers that created an instance and have their functions, newest
  first, and no block is lost; on failure the list is empty, every block is freed and no driver keeps an instance, except those whose functions were not found (\<open>leaked\<close>).  Unless memory runs out, the result
  is determined by the drivers.\<close>

theorem driver_instances_created:
  assumes "\<forall>d\<in>set icds. documented_icd d" and "ti_icd_terms st = []" "ti_calls st = []" "ti_requests st = []"
  shows "\<exists>r st'. terminator_CreateInstance b a icds ci st = Some (r, st') \<and>
     (\<forall>(i, info)\<in>set (ti_requests st'). i < length icds \<longrightarrow> info = driver_request b (altered_version ci st) (has_device_configurations st) ci (icds ! i)) \<and>
     (if r = VK_SUCCESS
      then map (\<lambda>t. (scanned_icd t, icd_instance t)) (ti_icd_terms st') = rev (accepted 0 (verdicts b ci st icds)) \<and>
        expected_result (verdicts b ci st icds) = VK_SUCCESS \<and> live (ti_heap st') = live (ti_heap st) + int (length (ti_icd_terms st')) \<and>
        (\<forall>j. driver_objects () j (ti_calls st') = Some (leaked (verdicts b ci st icds) j + listed (ti_icd_terms st') j))
      else ti_icd_terms st' = [] \<and> live (ti_heap st') = live (ti_heap st) \<and>
        (r = VK_ERROR_OUT_OF_HOST_MEMORY \<or> r = expected_result (verdicts b ci st icds)) \<and>
        (\<exists>k\<le>length icds. \<forall>j. driver_objects () j (ti_calls st') = Some (leaked (take k (verdicts b ci st icds)) j)))"
  by (rule create_instance_spec [OF assms])

text \<open>When the enumeration of extensions fails in the last driver, the whole creation fails and the instances of all drivers are destroyed: the error stays in \<^verbatim>\<open>res\<close>, although
  the driver is to be skipped (``free it and try the next'').\<close>

theorem last_rejected_driver_fails_all:
  assumes ok: "\<forall>d\<in>set (ds @ [d]). documented_icd d" and st: "ti_icd_terms st = []" "ti_calls st = []" "ti_requests st = []" and d: "enumeration_result d \<noteq> VK_SUCCESS"
  shows "\<exists>r st'. terminator_CreateInstance b a (ds @ [d]) ci st = Some (r, st') \<and> r \<noteq> VK_SUCCESS \<and> ti_icd_terms st' = [] \<and>
     (r = VK_ERROR_OUT_OF_HOST_MEMORY \<or> r = enumeration_result d)"
proof -
  let ?V = "verdicts b ci st (ds @ [d])"
  have "last ?V = Rejected (enumeration_result d)" using d by (simp add: verdict_of_def)
  then have "expected_result ?V = enumeration_result d" using d by (simp add: expected_result_def)
  with create_instance_spec [OF ok st, of b a ci] d show ?thesis by (auto split: if_splits)
qed

text \<open>A driver whose required functions are not found is skipped without destroying the instance it created.\<close>

theorem unusable_driver_keeps_instance:
  assumes ok: "\<forall>d\<in>set icds. documented_icd d" and st: "ti_icd_terms st = []" "ti_calls st = []" "ti_requests st = []"
    and j: "j < length icds" "verdicts b ci st icds ! j = Unusable x" and run: "terminator_CreateInstance b a icds ci st = Some (VK_SUCCESS, st')"
  shows "driver_objects () j (ti_calls st') = Some {#x#} \<and> j \<notin> scanned_icd ` set (ti_icd_terms st')"
proof -
  let ?V = "verdicts b ci st icds"
  have terms: "map (\<lambda>t. (scanned_icd t, icd_instance t)) (ti_icd_terms st') = rev (accepted 0 ?V)"
    and obj: "driver_objects () j (ti_calls st') = Some (leaked ?V j + listed (ti_icd_terms st') j)"
    using create_instance_spec [OF ok st, of b a ci] run by auto
  have none: "scanned_icd t \<noteq> j" if "t \<in> set (ti_icd_terms st')" for t
  proof
    assume "scanned_icd t = j"
    then have "(j, icd_instance t) \<in> set (map (\<lambda>t. (scanned_icd t, icd_instance t)) (ti_icd_terms st'))" using that by force
    then have "(j, icd_instance t) \<in> set (accepted 0 ?V)" unfolding terms by simp
    from accepted_verdict [OF this] j(2) show False by (simp del: nth_map)
  qed
  then have "listed (ti_icd_terms st') j = {#}" by (fastforce simp: listed_def filter_empty_conv)
  moreover have "leaked ?V j = {#x#}" using j by (simp add: leaked_def del: nth_map)
  ultimately show ?thesis using obj none by auto
qed

section \<open>Examples\<close>

definition sample_icd :: "nat \<Rightarrow> VkResult \<Rightarrow> bool \<Rightarrow> loader_scanned_icd" where
  "sample_icd x r found = \<lparr>api_version = VK_API_VERSION_1_0,
     EnumerateInstanceExtensionProperties = Some \<lparr>first_result = r, first_count = 0, second_result = VK_SUCCESS, second_count = 0, second_props = []\<rparr>,
     version_query = None, CreateInstance = (\<lambda>_. (VK_SUCCESS, Some x)), entries_found = found\<rparr>"

definition sample_creation :: VkInstanceCreateInfo where
  "sample_creation = \<lparr>ci_flags = 0, pApplicationInfo = None, ppEnabledLayerNames = [], ppEnabledExtensionNames = [''VK_KHR_surface'']\<rparr>"

definition empty_instance :: term_instance where
  "empty_instance = \<lparr>ti_heap = sample_heap True, app_api_version = \<lparr>v_major = 1, v_minor = 0, v_patch = 0\<rparr>, supports_get_dev_prop_2 = False,
     ti_icd_terms = [], icd_terms_count = 0, enabled_extensions = {}, create_terminator_invalid_extension = False, has_device_configurations = False, ti_calls = [], ti_requests = []\<rparr>"

definition sample_build :: wsi_build where
  "sample_build = \<lparr>use_wayland = True, use_xcb = True, use_xlib = True, use_directfb = False, use_screen_qnx = False\<rparr>"

lemma sample_icd_ok: "x \<noteq> 0 \<Longrightarrow> documented_icd (sample_icd x r found)"
  by (simp add: documented_icd_def sample_icd_def)

lemma sample_verdict:
  "verdict_of b av conf ci (sample_icd x r found) = (if r \<noteq> VK_SUCCESS then Rejected r else if found then Accepted x else Unusable x)"
  by (simp add: verdict_of_def sample_icd_def enumeration_result_def)

lemma empty_instance_simps [simp]: "ti_icd_terms empty_instance = []" "ti_calls empty_instance = []" "ti_requests empty_instance = []"
  by (simp_all add: empty_instance_def)

theorem driver_instances_created_witness:
  "list_all documented_icd [sample_icd 7 VK_SUCCESS True, sample_icd 8 VK_SUCCESS True] \<and>
   ti_icd_terms empty_instance = [] \<and> ti_calls empty_instance = [] \<and> ti_requests empty_instance = [] \<and>
   (\<exists>r st'. terminator_CreateInstance sample_build None [sample_icd 7 VK_SUCCESS True, sample_icd 8 VK_SUCCESS True] sample_creation empty_instance = Some (r, st') \<and>
     (if r = VK_SUCCESS then map (\<lambda>t. (scanned_icd t, icd_instance t)) (ti_icd_terms st') = [(1, 8), (0, 7)] else ti_icd_terms st' = []))"
proof -
  let ?icds = "[sample_icd 7 VK_SUCCESS True, sample_icd 8 VK_SUCCESS True]"
  have ok: "\<forall>d\<in>set ?icds. documented_icd d" by (simp add: sample_icd_ok)
  have v: "rev (accepted 0 (verdicts sample_build sample_creation empty_instance ?icds)) = [(1, 8), (0, 7)]" by (simp add: sample_verdict)
  show ?thesis
  proof (intro conjI empty_instance_simps)
    show "list_all documented_icd ?icds" using ok by (simp only: list_all_iff)
    obtain r st' where "terminator_CreateInstance sample_build None ?icds sample_creation empty_instance = Some (r, st')"
      and "if r = VK_SUCCESS then map (\<lambda>t. (scanned_icd t, icd_instance t)) (ti_icd_terms st') = [(1, 8), (0, 7)] else ti_icd_terms st' = []"
      using driver_instances_created [OF ok empty_instance_simps, of sample_build None sample_creation] unfolding v by (auto split: if_splits)
    then show "\<exists>r st'. terminator_CreateInstance sample_build None ?icds sample_creation empty_instance = Some (r, st') \<and>
     (if r = VK_SUCCESS then map (\<lambda>t. (scanned_icd t, icd_instance t)) (ti_icd_terms st') = [(1, 8), (0, 7)] else ti_icd_terms st' = [])" by blast
  qed
qed

theorem last_rejected_driver_fails_all_witness:
  "list_all documented_icd ([sample_icd 7 VK_SUCCESS True] @ [sample_icd 8 VK_ERROR_INITIALIZATION_FAILED True]) \<and>
   ti_icd_terms empty_instance = [] \<and> ti_calls empty_instance = [] \<and> ti_requests empty_instance = [] \<and>
   enumeration_result (sample_icd 8 VK_ERROR_INITIALIZATION_FAILED True) \<noteq> VK_SUCCESS \<and>
   verdict_of sample_build (altered_version sample_creation empty_instance) False sample_creation (sample_icd 7 VK_SUCCESS True) = Accepted 7 \<and>
   (\<exists>r st'. terminator_CreateInstance sample_build None ([sample_icd 7 VK_SUCCESS True] @ [sample_icd 8 VK_ERROR_INITIALIZATION_FAILED True]) sample_creation empty_instance = Some (r, st') \<and>
     r \<noteq> VK_SUCCESS \<and> ti_icd_terms st' = [])"
proof -
  let ?icds = "[sample_icd 7 VK_SUCCESS True] @ [sample_icd 8 VK_ERROR_INITIALIZATION_FAILED True]"
  have ok: "\<forall>d\<in>set ?icds. documented_icd d" by (simp add: sample_icd_ok)
  have e: "enumeration_result (sample_icd 8 VK_ERROR_INITIALIZATION_FAILED True) \<noteq> VK_SUCCESS" by (simp add: enumeration_result_def sample_icd_def)
  have v: "verdict_of sample_build (altered_version sample_creation empty_instance) False sample_creation (sample_icd 7 VK_SUCCESS True) = Accepted 7" by (simp add: sample_verdict)
  show ?thesis
    using last_rejected_driver_fails_all [OF ok empty_instance_simps e, of sample_build None sample_creation] ok e v empty_instance_simps unfolding list_all_iff by blast
qed

lemma sample_unusable_run:
  "\<exists>st'. terminator_CreateInstance sample_build None [sample_icd 7 VK_SUCCESS False, sample_icd 8 VK_SUCCESS True] sample_creation empty_instance = Some (VK_SUCCESS, st')"
proof -
  have "map_option fst (terminator_CreateInstance sample_build None [sample_icd 7 VK_SUCCESS False, sample_icd 8 VK_SUCCESS True] sample_creation empty_instance) = Some VK_SUCCESS"
    by code_simp
  then show ?thesis by (auto simp: map_option_eq_Some)
qed

theorem unusable_driver_keeps_instance_witness:
  "list_all documented_icd [sample_icd 7 VK_SUCCESS False, sample_icd 8 VK_SUCCESS True] \<and>
   ti_icd_terms empty_instance = [] \<and> ti_calls empty_instance = [] \<and> ti_requests empty_instance = [] \<and>
   verdicts sample_build sample_creation empty_instance [sample_icd 7 VK_SUCCESS False, sample_icd 8 VK_SUCCESS True] ! 0 = Unusable 7 \<and>
   (\<exists>st'. terminator_CreateInstance sample_build None [sample_icd 7 VK_SUCCESS False, sample_icd 8 VK_SUCCESS True] sample_creation empty_instance = Some (VK_SUCCESS, st') \<and>
     driver_objects () 0 (ti_calls st') = Some {#7#} \<and> 0 \<notin> scanned_icd ` set (ti_icd_terms st'))"
proof -
  let ?icds = "[sample_icd 7 VK_SUCCESS False, sample_icd 8 VK_SUCCESS True]"
  have ok: "\<forall>d\<in>set ?icds. documented_icd d" by (simp add: sample_icd_ok)
  have v: "verdicts sample_build sample_creation empty_instance ?icds ! 0 = Unusable 7" by (simp add: sample_verdict)
  have l: "0 < length ?icds" by simp
  obtain st' where run: "terminator_CreateInstance sample_build None ?icds sample_creation empty_instance = Some (VK_SUCCESS, st')" using sample_unusable_run by blast
  show ?thesis
    using unusable_driver_keeps_instance [OF ok empty_instance_simps l v run] ok v run empty_instance_simps unfolding list_all_iff by blast
qed

end
