(* ===== verification/Json.thy ===== *)
theory Json
  imports StringList "HOL-Library.Word"
begin

text \<open>
  The JSON parser of the loader (\<^verbatim>\<open>cJSON.c\<close>), which reads manifests and settings.  A text is a list of bytes, with its terminating zero where the caller has one; every access
  to it is checked against its length, so \<open>None\<close> is an access outside of it, or outside of the memory for a string.  The C tree of linked items is a datatype.  Floating point numbers are
  a parameter: their type, \<^verbatim>\<open>strtod\<close> and the conversion to \<^verbatim>\<open>int\<close>.  The functions that call each other carry a fuel; \<open>parse_fuel\<close> is enough (\<open>parse_value_spec\<close>).
\<close>

unbundle bit_operations_syntax

section \<open>Items\<close>

datatype 'd cJSON = CJSON (ctype: nat) (valuestring: "string option") (valueint: int) (valuedouble: "'d option") (item_name: "string option") (child: "'d cJSON list")

abbreviation (input) cJSON_Invalid :: nat where "cJSON_Invalid \<equiv> 0"
abbreviation (input) cJSON_False :: nat where "cJSON_False \<equiv> 1"
abbreviation (input) cJSON_True :: nat where "cJSON_True \<equiv> 2"
abbreviation (input) cJSON_NULL :: nat where "cJSON_NULL \<equiv> 4"
abbreviation (input) cJSON_Number :: nat where "cJSON_Number \<equiv> 8"
abbreviation (input) cJSON_String :: nat where "cJSON_String \<equiv> 16"
abbreviation (input) cJSON_Array :: nat where "cJSON_Array \<equiv> 32"
abbreviation (input) cJSON_Object :: nat where "cJSON_Object \<equiv> 64"
abbreviation (input) cJSON_Raw :: nat where "cJSON_Raw \<equiv> 128"
abbreviation (input) cJSON_IsReference :: nat where "cJSON_IsReference \<equiv> 256"
abbreviation (input) cJSON_StringIsConst :: nat where "cJSON_StringIsConst \<equiv> 512"

abbreviation (input) CJSON_NESTING_LIMIT :: nat where "CJSON_NESTING_LIMIT \<equiv> 1000"

definition set_type :: "nat \<Rightarrow> 'd cJSON \<Rightarrow> 'd cJSON" where
  "set_type t x = (case x of CJSON _ s i d n cs \<Rightarrow> CJSON t s i d n cs)"

text \<open>The bytes a C string has, from memory that may hold zeros.\<close>

definition c_string :: "string \<Rightarrow> string" where "c_string bs = takeWhile (\<lambda>c. c \<noteq> CHR 0x00) bs"

record 'd floats =
  strtod :: "string \<Rightarrow> 'd \<times> nat"
  ge_INT_MAX :: "'d \<Rightarrow> bool"
  le_INT_MIN :: "'d \<Rightarrow> bool"
  to_int :: "'d \<Rightarrow> int"

record parse_buffer =
  content :: string
  offset :: nat
  depth :: nat
  out_of_memory :: bool
  pb_heap :: heap

definition cJSON_New_Item :: "allocator \<Rightarrow> heap \<Rightarrow> 'd cJSON option \<times> heap" where
  "cJSON_New_Item a h = (if succeeds h then (Some (CJSON cJSON_Invalid None 0 None None []), add_live 1 (tick h)) else (None, tick h))"

text \<open>\<^verbatim>\<open>loader_cJSON_Delete\<close> on a list of siblings.\<close>

fun loader_cJSON_Delete :: "'d cJSON list \<Rightarrow> allocator \<Rightarrow> heap \<Rightarrow> heap" where
  "loader_cJSON_Delete [] a h = h"
| "loader_cJSON_Delete (CJSON t s i d n cs # items) a h =
     (let h = (if t AND cJSON_IsReference = 0 then loader_cJSON_Delete cs a h else h);
          h = (if t AND cJSON_IsReference = 0 then free_str a s h else h);
          h = (if t AND cJSON_StringIsConst = 0 then free_str a n h else h)
      in loader_cJSON_Delete items a (add_live (- 1) h))"

section \<open>Strings\<close>

text \<open>The byte at a distance from the offset, if it can be accessed.\<close>

definition at_index :: "parse_buffer \<Rightarrow> nat \<Rightarrow> char option" where
  "at_index b i = (if offset b + i < length (content b) then Some (content b ! (offset b + i)) else None)"

definition hex_digit :: "char \<Rightarrow> nat option" where
  "hex_digit c = (let n = of_char c :: nat in
     if 48 \<le> n \<and> n \<le> 57 then Some (n - 48) else if 65 \<le> n \<and> n \<le> 70 then Some (10 + n - 65) else if 97 \<le> n \<and> n \<le> 102 then Some (10 + n - 97) else None)"

definition parse_hex4 :: "char \<Rightarrow> char \<Rightarrow> char \<Rightarrow> char \<Rightarrow> nat" where
  "parse_hex4 a b c d =
     (case (hex_digit a, hex_digit b, hex_digit c, hex_digit d) of
        (Some a, Some b, Some c, Some d) \<Rightarrow> push_bit 4 (push_bit 4 (push_bit 4 a + b) + c) + d
      | _ \<Rightarrow> 0)"

text \<open>The continuation bytes, from the last, and what is left of the code point.\<close>

fun utf8_tail :: "nat \<Rightarrow> nat \<Rightarrow> string \<Rightarrow> nat \<times> string" where
  "utf8_tail 0 codepoint out = (codepoint, out)"
| "utf8_tail (Suc n) codepoint out = utf8_tail n (drop_bit 6 codepoint) (char_of ((codepoint OR 0x80) AND 0xBF) # out)"

definition encode_utf8 :: "nat \<Rightarrow> string option" where
  "encode_utf8 codepoint =
     (if codepoint < 0x80 then Some [char_of (codepoint AND 0x7F)]
      else if codepoint < 0x800 then (case utf8_tail 1 codepoint [] of (c, out) \<Rightarrow> Some (char_of ((c OR 0xC0) AND 0xFF) # out))
      else if codepoint < 0x10000 then (case utf8_tail 2 codepoint [] of (c, out) \<Rightarrow> Some (char_of ((c OR 0xE0) AND 0xFF) # out))
      else if codepoint \<le> 0x10FFFF then (case utf8_tail 3 codepoint [] of (c, out) \<Rightarrow> Some (char_of ((c OR 0xF0) AND 0xFF) # out))
      else None)"

text \<open>The input starts with the backslash.  The result has the bytes and the length of the sequence.\<close>

fun utf16_literal_to_utf8 :: "string \<Rightarrow> (string \<times> nat) option" where
  "utf16_literal_to_utf8 (_ # _ # a # b # c # d # input) =
     (let first_code = parse_hex4 a b c d in
      if 0xDC00 \<le> first_code \<and> first_code \<le> 0xDFFF then None
      else if 0xD800 \<le> first_code \<and> first_code \<le> 0xDBFF then
        (case input of
           e # u # a # b # c # d # _ \<Rightarrow>
             if e \<noteq> CHR 0x5C \<or> u \<noteq> CHR ''u'' then None
             else (let second_code = parse_hex4 a b c d in
               if second_code < 0xDC00 \<or> second_code > 0xDFFF then None
               else map_option (\<lambda>out. (out, 12)) (encode_utf8 (0x10000 + (push_bit 10 (first_code AND 0x3FF) OR (second_code AND 0x3FF)))))
         | _ \<Rightarrow> None)
      else map_option (\<lambda>out. (out, 6)) (encode_utf8 first_code))"
| "utf16_literal_to_utf8 _ = None"

text \<open>The first pass: the number of bytes before the closing quote, and how many of them are the first of an escape.\<close>

fun string_end :: "string \<Rightarrow> (nat \<times> nat) option" where
  "string_end [] = None"
| "string_end (c # cs) =
     (if c = CHR 0x22 then Some (0, 0)
      else if c = CHR 0x5C then
        (case cs of [] \<Rightarrow> None
         | _ # cs \<Rightarrow> map_option (\<lambda>(n, skipped). (n + 2, skipped + 1)) (string_end cs))
      else map_option (\<lambda>(n, skipped). (n + 1, skipped)) (string_end cs))"

definition simple_escape :: "char \<Rightarrow> char option" where
  "simple_escape c =
     (if c = CHR ''b'' then Some (CHR 0x08) else if c = CHR ''f'' then Some (CHR 0x0C) else if c = CHR ''n'' then Some (CHR 0x0A)
      else if c = CHR ''r'' then Some (CHR 0x0D) else if c = CHR ''t'' then Some (CHR 0x09)
      else if c = CHR 0x22 \<or> c = CHR 0x5C \<or> c = CHR ''/'' then Some c else None)"

lemma utf16_length: "utf16_literal_to_utf8 cs = Some (out, n) \<Longrightarrow> n = 6 \<or> n = 12"
  by (induction cs rule: utf16_literal_to_utf8.induct) (auto simp: Let_def split: if_splits list.splits)

text \<open>The second pass over the bytes before the closing quote: success, the bytes written, and the number of bytes read.  After a backslash at the end the quote is read.\<close>

function unescape :: "string \<Rightarrow> bool \<times> string \<times> nat" where
  "unescape [] = (True, [], 0)"
| "unescape (c # cs) =
     (if c \<noteq> CHR 0x5C then (case unescape cs of (ok, out, k) \<Rightarrow> (ok, c # out, k + 1))
      else (case (case cs of [] \<Rightarrow> CHR 0x22 | e # _ \<Rightarrow> e) of e \<Rightarrow>
        if e = CHR ''u'' then
          (case utf16_literal_to_utf8 (c # cs) of
             None \<Rightarrow> (False, [], 0)
           | Some (bytes, n) \<Rightarrow> (case unescape (drop n (c # cs)) of (ok, out, k) \<Rightarrow> (ok, bytes @ out, k + n)))
        else (case simple_escape e of
             None \<Rightarrow> (False, [], 0)
           | Some b \<Rightarrow> (case unescape (drop 2 (c # cs)) of (ok, out, k) \<Rightarrow> (ok, b # out, k + 2)))))"
  by pat_completeness auto
termination
  by (relation "measure length") (auto dest!: utf16_length)

definition parse_string :: "allocator \<Rightarrow> 'd cJSON \<Rightarrow> parse_buffer \<Rightarrow> (bool \<times> 'd cJSON \<times> parse_buffer) option" where
  "parse_string a item b = do {
     c \<leftarrow> at_index b 0;
     let start = drop (offset b + 1) (content b);
     (if c \<noteq> CHR 0x22 then Some (False, item, b\<lparr>offset := offset b + 1\<rparr>)
      else (case string_end start of
        None \<Rightarrow> Some (False, item, b\<lparr>offset := offset b + 1\<rparr>)
      | Some (n, skipped_bytes) \<Rightarrow>
          (case loader_calloc a (CHR 0x00) ((n + 1 - skipped_bytes) + 1) (pb_heap b) of
             (Buf cells, h) \<Rightarrow>
               (case unescape (take n start) of (ok, out, k) \<Rightarrow>
                  if length out \<ge> length cells then None
                  else if \<not> ok then Some (False, item, b\<lparr>offset := offset b + 1 + k, pb_heap := add_live (- 1) h\<rparr>)
                  else (case item of CJSON t s i d nm cs \<Rightarrow>
                    Some (True, CJSON cJSON_String (Some (c_string out)) i d nm cs, b\<lparr>offset := offset b + 1 + n + 1, pb_heap := h\<rparr>)))
           | (_, h) \<Rightarrow> Some (False, item, b\<lparr>offset := offset b + 1, out_of_memory := True, pb_heap := h\<rparr>))))
   }"

section \<open>Numbers and white space\<close>

definition number_char :: "char \<Rightarrow> bool" where
  "number_char c \<longleftrightarrow> c \<in> set ''0123456789+-eE.''"

definition parse_number :: "'d floats \<Rightarrow> 'd cJSON \<Rightarrow> parse_buffer \<Rightarrow> bool \<times> 'd cJSON \<times> parse_buffer" where
  "parse_number F item b =
     (let number_c_string = takeWhile number_char (take 63 (drop (offset b) (content b))) in
      case strtod F number_c_string of (number, n) \<Rightarrow>
        if n = 0 then (False, item, b)
        else (case item of CJSON t s i d nm cs \<Rightarrow>
          (True, CJSON cJSON_Number s (if ge_INT_MAX F number then 2147483647 else if le_INT_MIN F number then - 2147483648 else to_int F number) (Some number) nm cs,
           b\<lparr>offset := offset b + n\<rparr>)))"

definition buffer_skip_whitespace :: "parse_buffer \<Rightarrow> parse_buffer" where
  "buffer_skip_whitespace b =
     (if at_index b 0 = None then b
      else (let k = length (takeWhile (\<lambda>c. of_char c \<le> (32 :: nat)) (drop (offset b) (content b)));
                b = b\<lparr>offset := offset b + k\<rparr>
            in if offset b = length (content b) then b\<lparr>offset := offset b - 1\<rparr> else b))"

definition skip_utf8_bom :: "parse_buffer \<Rightarrow> parse_buffer" where
  "skip_utf8_bom b =
     (if at_index b 4 \<noteq> None \<and> take 3 (drop (offset b) (content b)) = [CHR 0xEF, CHR 0xBB, CHR 0xBF] then b\<lparr>offset := offset b + 3\<rparr> else b)"

section \<open>Values\<close>

text \<open>\<^verbatim>\<open>strncmp\<close> with a word, if it can be read.\<close>

definition starts_with :: "parse_buffer \<Rightarrow> string \<Rightarrow> bool" where
  "starts_with b w \<longleftrightarrow> offset b + length w \<le> length (content b) \<and> take (length w) (drop (offset b) (content b)) = w"

definition fail_children :: "allocator \<Rightarrow> 'd cJSON list \<Rightarrow> 'd cJSON \<Rightarrow> parse_buffer \<Rightarrow> (bool \<times> 'd cJSON \<times> parse_buffer) option" where
  "fail_children a items item b = Some (False, item, b\<lparr>pb_heap := loader_cJSON_Delete items a (pb_heap b)\<rparr>)"

definition set_children :: "nat \<Rightarrow> 'd cJSON list \<Rightarrow> 'd cJSON \<Rightarrow> parse_buffer \<Rightarrow> (bool \<times> 'd cJSON \<times> parse_buffer) option" where
  "set_children t items item b =
     (case item of CJSON _ s i d nm _ \<Rightarrow> Some (True, CJSON t s i d nm items, b\<lparr>depth := depth b - 1, offset := offset b + 1\<rparr>))"

text \<open>The loop over the elements of an array, or the members of an object: \<open>step\<close> reads one of them into a new item.\<close>

fun parse_items :: "('d cJSON \<Rightarrow> parse_buffer \<Rightarrow> (bool \<times> 'd cJSON \<times> parse_buffer) option) \<Rightarrow> allocator \<Rightarrow> nat \<Rightarrow> 'd cJSON list \<Rightarrow> parse_buffer \<Rightarrow>
    (bool \<times> 'd cJSON list \<times> parse_buffer) option" where
  "parse_items step a 0 items b = None"
| "parse_items step a (Suc fuel) items b =
     (case cJSON_New_Item a (pb_heap b) of
        (None, h) \<Rightarrow> Some (False, items, b\<lparr>pb_heap := h, out_of_memory := True\<rparr>)
      | (Some new_item, h) \<Rightarrow> do {
          (ok, new_item, b) \<leftarrow> step new_item (b\<lparr>pb_heap := h\<rparr>);
          (if \<not> ok then Some (False, items @ [new_item], b)
           else (let b = buffer_skip_whitespace b in
             if at_index b 0 = Some (CHR '','') then parse_items step a fuel (items @ [new_item]) b else Some (True, items @ [new_item], b)))
        })"

text \<open>One element of an array; \<open>parse\<close> is \<^verbatim>\<open>parse_value\<close>.\<close>

definition parse_element :: "('d cJSON \<Rightarrow> parse_buffer \<Rightarrow> (bool \<times> 'd cJSON \<times> parse_buffer) option) \<Rightarrow> 'd cJSON \<Rightarrow> parse_buffer \<Rightarrow> (bool \<times> 'd cJSON \<times> parse_buffer) option" where
  "parse_element parse new_item b = parse new_item (buffer_skip_whitespace (b\<lparr>offset := offset b + 1\<rparr>))"

definition parse_array :: "('d cJSON \<Rightarrow> parse_buffer \<Rightarrow> (bool \<times> 'd cJSON \<times> parse_buffer) option) \<Rightarrow> allocator \<Rightarrow> nat \<Rightarrow> 'd cJSON \<Rightarrow> parse_buffer \<Rightarrow>
    (bool \<times> 'd cJSON \<times> parse_buffer) option" where
  "parse_array parse a fuel item b =
     (if depth b \<ge> CJSON_NESTING_LIMIT then Some (False, item, b)
      else do {
        c \<leftarrow> at_index b 0;
        let b = b\<lparr>depth := depth b + 1\<rparr>;
        (if c \<noteq> CHR ''['' then fail_children a [] item b
         else (let b = buffer_skip_whitespace (b\<lparr>offset := offset b + 1\<rparr>) in
           if at_index b 0 = Some (CHR '']'') then set_children cJSON_Array [] item b
           else if at_index b 0 = None then fail_children a [] item (b\<lparr>offset := offset b - 1\<rparr>)
           else do {
             (ok, items, b) \<leftarrow> parse_items (parse_element parse) a fuel [] (b\<lparr>offset := offset b - 1\<rparr>);
             (if ok \<and> at_index b 0 = Some (CHR '']'') then set_children cJSON_Array items item b else fail_children a items item b)
           }))
      })"

text \<open>One member of an object: its name, a colon, and its value.\<close>

definition parse_member :: "('d cJSON \<Rightarrow> parse_buffer \<Rightarrow> (bool \<times> 'd cJSON \<times> parse_buffer) option) \<Rightarrow> allocator \<Rightarrow> 'd cJSON \<Rightarrow> parse_buffer \<Rightarrow>
    (bool \<times> 'd cJSON \<times> parse_buffer) option" where
  "parse_member parse a new_item b =
     (if at_index b 1 = None then Some (False, new_item, b)
      else do {
        (ok, new_item, b) \<leftarrow> parse_string a new_item (buffer_skip_whitespace (b\<lparr>offset := offset b + 1\<rparr>));
        (if \<not> ok then Some (False, new_item, b)
         else (let b = buffer_skip_whitespace b;
                   new_item = (case new_item of CJSON t s i d nm cs \<Rightarrow> CJSON t None i d s cs) in
           if at_index b 0 \<noteq> Some (CHR '':'') then Some (False, new_item, b)
           else parse new_item (buffer_skip_whitespace (b\<lparr>offset := offset b + 1\<rparr>))))
      })"

definition parse_object :: "('d cJSON \<Rightarrow> parse_buffer \<Rightarrow> (bool \<times> 'd cJSON \<times> parse_buffer) option) \<Rightarrow> allocator \<Rightarrow> nat \<Rightarrow> 'd cJSON \<Rightarrow> parse_buffer \<Rightarrow>
    (bool \<times> 'd cJSON \<times> parse_buffer) option" where
  "parse_object parse a fuel item b =
     (if depth b \<ge> CJSON_NESTING_LIMIT then Some (False, item, b)
      else (let b = b\<lparr>depth := depth b + 1\<rparr> in
        if at_index b 0 \<noteq> Some (CHR ''{'') then fail_children a [] item b
        else (let b = buffer_skip_whitespace (b\<lparr>offset := offset b + 1\<rparr>) in
          if at_index b 0 = Some (CHR ''}'') then set_children cJSON_Object [] item b
          else if at_index b 0 = None then fail_children a [] item (b\<lparr>offset := offset b - 1\<rparr>)
          else do {
            (ok, items, b) \<leftarrow> parse_items (parse_member parse a) a fuel [] (b\<lparr>offset := offset b - 1\<rparr>);
            (if ok \<and> at_index b 0 = Some (CHR ''}'') then set_children cJSON_Object items item b else fail_children a items item b)
          })))"

primrec parse_value :: "nat \<Rightarrow> 'd floats \<Rightarrow> allocator \<Rightarrow> 'd cJSON \<Rightarrow> parse_buffer \<Rightarrow> (bool \<times> 'd cJSON \<times> parse_buffer) option" where
  "parse_value 0 F a item b = None"
| "parse_value (Suc fuel) F a item b =
     (if starts_with b ''null'' then Some (True, set_type cJSON_NULL item, b\<lparr>offset := offset b + 4\<rparr>)
      else if starts_with b ''false'' then Some (True, set_type cJSON_False item, b\<lparr>offset := offset b + 5\<rparr>)
      else if starts_with b ''true'' then
        (case item of CJSON t s i d nm cs \<Rightarrow> Some (True, CJSON cJSON_True s 1 d nm cs, b\<lparr>offset := offset b + 4\<rparr>))
      else if at_index b 0 = Some (CHR 0x22) then parse_string a item b
      else if (case at_index b 0 of None \<Rightarrow> False | Some c \<Rightarrow> c = CHR ''-'' \<or> c \<in> set ''0123456789'') then Some (parse_number F item b)
      else if at_index b 0 = Some (CHR ''['') then parse_array (parse_value fuel F a) a fuel item b
      else if at_index b 0 = Some (CHR ''{'') then parse_object (parse_value fuel F a) a fuel item b
      else Some (False, item, b))"

definition parse_fuel :: "string \<Rightarrow> nat" where "parse_fuel text = length text + 1"

text \<open>\<^verbatim>\<open>loader_cJSON_ParseWithLengthOpts\<close>: the item, whether memory ran out, the heap, and the place where parsing ended.\<close>

definition loader_cJSON_ParseWithLengthOpts ::
  "'d floats \<Rightarrow> allocator \<Rightarrow> string \<Rightarrow> bool \<Rightarrow> bool \<Rightarrow> heap \<Rightarrow> ('d cJSON option \<times> bool \<times> heap \<times> nat) option" where
  "loader_cJSON_ParseWithLengthOpts F a text require_null_terminated oom h =
     (if text = [] then Some (None, oom, h, 0)
      else (case cJSON_New_Item a h of
        (None, h) \<Rightarrow> Some (None, True, h, 0)
      | (Some item, h) \<Rightarrow> do {
          (ok, item, b) \<leftarrow> parse_value (parse_fuel text) F a item
             (buffer_skip_whitespace (skip_utf8_bom \<lparr>content = text, offset = 0, depth = 0, out_of_memory = oom, pb_heap = h\<rparr>));
          let b' = (if ok \<and> require_null_terminated then buffer_skip_whitespace b else b);
          (if \<not> ok \<or> require_null_terminated \<and> at_index b' 0 \<noteq> Some (CHR 0x00)
           then Some (None, out_of_memory b', loader_cJSON_Delete [item] a (pb_heap b'),
                  if offset b' < length text then offset b' else length text - 1)
           else Some (Some item, out_of_memory b', pb_heap b', offset b'))
        }))"

definition loader_cJSON_ParseWithOpts :: "'d floats \<Rightarrow> allocator \<Rightarrow> string \<Rightarrow> bool \<Rightarrow> bool \<Rightarrow> heap \<Rightarrow> ('d cJSON option \<times> bool \<times> heap \<times> nat) option" where
  "loader_cJSON_ParseWithOpts F a text require_null_terminated oom h = loader_cJSON_ParseWithLengthOpts F a (text @ [CHR 0x00]) require_null_terminated oom h"

definition loader_cJSON_Parse :: "'d floats \<Rightarrow> allocator \<Rightarrow> string \<Rightarrow> bool \<Rightarrow> heap \<Rightarrow> ('d cJSON option \<times> bool \<times> heap \<times> nat) option" where
  "loader_cJSON_Parse F a text oom h = loader_cJSON_ParseWithOpts F a text False oom h"

definition loader_cJSON_ParseWithLength :: "'d floats \<Rightarrow> allocator \<Rightarrow> string \<Rightarrow> bool \<Rightarrow> heap \<Rightarrow> ('d cJSON option \<times> bool \<times> heap \<times> nat) option" where
  "loader_cJSON_ParseWithLength F a text oom h = loader_cJSON_ParseWithLengthOpts F a text False oom h"

section \<open>Strings are written inside their memory\<close>

text \<open>The tokens of the first pass: a byte, or an escape of two.\<close>

fun tokens_of :: "string \<Rightarrow> nat" where
  "tokens_of [] = 0"
| "tokens_of (c # cs) = (if c = CHR 0x5C then (case cs of [] \<Rightarrow> 1 | _ # cs \<Rightarrow> 1 + tokens_of cs) else 1 + tokens_of cs)"

lemma tokens_of_Cons: "tokens_of (c # cs) \<le> 1 + tokens_of cs \<and> tokens_of cs \<le> tokens_of (c # cs)"
proof (induction cs arbitrary: c)
  case (Cons d cs)
  show ?case using Cons.IH [of d] by (auto split: list.splits)
qed simp

lemma tokens_of_drop: "tokens_of (drop n cs) \<le> tokens_of cs"
proof (induction n arbitrary: cs)
  case (Suc n)
  show ?case
  proof (cases cs)
    case (Cons c r)
    then show ?thesis using Suc [of r] tokens_of_Cons [of c r] by simp
  qed simp
qed simp

lemma string_end_tokens: "string_end cs = Some (n, k) \<Longrightarrow> n < length cs \<and> cs ! n = CHR 0x22 \<and> k \<le> n \<and> tokens_of (take n cs) = n - k"
proof (induction cs arbitrary: n k rule: string_end.induct)
  case (2 c cs)
  show ?case
  proof (cases "c = CHR 0x22")
    case True
    with 2 show ?thesis by simp
  next
    case no: False
    show ?thesis
    proof (cases "c = CHR 0x5C")
      case True
      with no 2(3) obtain d r n' k' where cs: "cs = d # r" and r: "string_end r = Some (n', k')" "n = n' + 2" "k = k' + 1" by (auto split: list.splits)
      from 2(1) [OF no True cs r(1)] r True cs show ?thesis by auto
    next
      case False
      with no 2(3) obtain n' k' where r: "string_end cs = Some (n', k')" "n = n' + 1" "k = k'" by auto
      from 2(2) [OF no False r(1)] r False show ?thesis by auto
    qed
  qed
qed simp

lemma hex_digit_escape: "hex_digit c = Some n \<Longrightarrow> c \<noteq> CHR 0x5C"
  by (auto simp: hex_digit_def Let_def split: if_splits)

lemma parse_hex4_valid: "parse_hex4 a b c d \<noteq> 0 \<Longrightarrow> a \<noteq> CHR 0x5C \<and> b \<noteq> CHR 0x5C \<and> c \<noteq> CHR 0x5C \<and> d \<noteq> CHR 0x5C"
  by (auto simp: parse_hex4_def dest: hex_digit_escape split: option.splits)

lemma length_utf8_tail: "length (snd (utf8_tail n cp out)) = n + length out"
  by (induction n cp out rule: utf8_tail.induct) simp_all

lemma encode_utf8_length: "encode_utf8 cp = Some out \<Longrightarrow> length out \<le> 4 \<and> (cp < 0x10000 \<longrightarrow> length out \<le> 3) \<and> (cp = 0 \<longrightarrow> length out = 1)"
  using length_utf8_tail [of 1 cp "[]"] length_utf8_tail [of 2 cp "[]"] length_utf8_tail [of 3 cp "[]"]
  by (auto simp: encode_utf8_def split: if_splits prod.splits)

lemma parse_hex4_bound: "parse_hex4 a b c d < 0x10000"
proof -
  have hex: "hex_digit x = Some n \<Longrightarrow> n < 16" for x n by (auto simp: hex_digit_def Let_def split: if_splits)
  have "push_bit 4 (push_bit 4 (push_bit 4 i + j) + k) + l < 0x10000" if "i < 16" "j < 16" "k < 16" "l < 16" for i j k l :: nat
    using that by (simp add: push_bit_eq_mult)
  then show ?thesis using hex [of a] hex [of b] hex [of c] hex [of d] by (auto simp: parse_hex4_def split: option.splits)
qed

lemma utf16_tokens:
  assumes "utf16_literal_to_utf8 (CHR 0x5C # CHR ''u'' # cs) = Some (out, n)"
  shows "length out + tokens_of (drop n (CHR 0x5C # CHR ''u'' # cs)) \<le> tokens_of (CHR 0x5C # CHR ''u'' # cs)"
proof -
  from assms obtain a b c d r where cs: "cs = a # b # c # d # r"
    by (cases "CHR 0x5C # CHR ''u'' # cs" rule: utf16_literal_to_utf8.cases) simp_all
  let ?f = "parse_hex4 a b c d"
  have T: "tokens_of (CHR 0x5C # CHR ''u'' # cs) = 1 + tokens_of (a # b # c # d # r)" by (simp add: cs)
  have val: "?f \<noteq> 0 \<Longrightarrow> tokens_of (a # b # c # d # r) = 4 + tokens_of r" using parse_hex4_valid [of a b c d] by simp
  have mono: "tokens_of r \<le> tokens_of (a # b # c # d # r)" using tokens_of_drop [of 4 "a # b # c # d # r"] by simp
  show ?thesis
  proof (cases "0xD800 \<le> ?f \<and> ?f \<le> 0xDBFF")
    case True
    then obtain g h k l r2 where r: "r = CHR 0x5C # CHR ''u'' # g # h # k # l # r2" and n: "n = 12"
      and snd: "\<not> (parse_hex4 g h k l < 0xDC00 \<or> parse_hex4 g h k l > 0xDFFF)" and out: "length out \<le> 4"
      using assms cs by (auto simp: Let_def dest!: encode_utf8_length split: if_splits list.splits)
    have "tokens_of (g # h # k # l # r2) = 4 + tokens_of r2" using parse_hex4_valid [of g h k l] snd by simp
    with T val True r n out cs show ?thesis by simp
  next
    case False
    then have n: "n = 6" and out: "encode_utf8 ?f = Some out" using assms cs by (auto simp: Let_def split: if_splits)
    show ?thesis
    proof (cases "?f = 0")
      case True
      then have "length out = 1" using encode_utf8_length [OF out] by simp
      with T mono n cs show ?thesis by simp
    next
      case no: False
      have "length out \<le> 3" using encode_utf8_length [OF out] parse_hex4_bound by blast
      with T val [OF no] n cs show ?thesis by simp
    qed
  qed
qed

lemma unescape_tokens: "unescape cs = (ok, out, k) \<Longrightarrow> length out \<le> tokens_of cs"
proof (induction cs arbitrary: ok out k rule: unescape.induct)
  case (2 c cs)
  show ?case
  proof (cases "c = CHR 0x5C")
    case False
    with 2 show ?thesis by (fastforce split: prod.splits)
  next
    case esc: True
    show ?thesis
    proof (cases cs)
      case Nil
      with esc 2(4) show ?thesis by (auto simp: simple_escape_def)
    next
      case (Cons e r)
      show ?thesis
      proof (cases "e = CHR ''u''")
        case True
        show ?thesis
        proof (cases "utf16_literal_to_utf8 (c # cs)")
          case None
          with 2(4) esc Cons True show ?thesis by auto
        next
          case (Some p)
          obtain bytes n where p: "p = (bytes, n)" by fastforce
          obtain ok' out' k' where rest: "unescape (drop n (c # cs)) = (ok', out', k')" using prod_cases3 by blast
          have out: "out = bytes @ out'" using 2(4) esc Cons True Some p rest by simp
          have "length out' \<le> tokens_of (drop n (c # cs))" using 2(2) [OF _ _ Some p [symmetric] rest] esc True Cons by auto
          moreover have "length bytes + tokens_of (drop n (c # cs)) \<le> tokens_of (c # cs)"
            using utf16_tokens Some p esc True Cons by simp
          ultimately show ?thesis using out by simp
        qed
      next
        case no: False
        show ?thesis
        proof (cases "simple_escape e")
          case None
          with 2(4) esc Cons no show ?thesis by auto
        next
          case (Some x)
          obtain ok' out' k' where rest: "unescape (drop 2 (c # cs)) = (ok', out', k')" using prod_cases3 by blast
          have out: "out = x # out'" using 2(4) esc Cons no Some rest by simp
          have "length out' \<le> tokens_of (drop 2 (c # cs))" using 2(3) [OF _ _ _ rest] Some esc no Cons by auto
          then show ?thesis using out esc Cons by simp
        qed
      qed
    qed
  qed
qed simp

section \<open>Trees and the memory they own\<close>

abbreviation blocks_of :: "'a option \<Rightarrow> int" where "blocks_of s \<equiv> (case s of None \<Rightarrow> 0 | Some _ \<Rightarrow> 1)"

fun owned :: "'d cJSON \<Rightarrow> int" where
  "owned (CJSON t s i d n cs) = 1 + blocks_of s + blocks_of n + sum_list (map owned cs)"

fun height :: "'d cJSON \<Rightarrow> nat" where
  "height (CJSON t s i d n cs) = (if t = cJSON_Array \<or> t = cJSON_Object then 1 + Max (insert 0 (height ` set cs)) else 0)"

text \<open>The types a parsed item can have, and what goes with each.\<close>

fun well_typed :: "'d cJSON \<Rightarrow> bool" where
  "well_typed (CJSON t s i d n cs) \<longleftrightarrow>
     t \<in> {cJSON_False, cJSON_True, cJSON_NULL, cJSON_Number, cJSON_String, cJSON_Array, cJSON_Object} \<and>
     (s \<noteq> None) = (t = cJSON_String) \<and> (d \<noteq> None) = (t = cJSON_Number) \<and> (- 2147483648 \<le> i \<and> i \<le> 2147483647) \<and>
     (cs \<noteq> [] \<longrightarrow> t = cJSON_Array \<or> t = cJSON_Object) \<and>
     (\<forall>c\<in>set cs. well_typed c \<and> (item_name c \<noteq> None) = (t = cJSON_Object))"

fun deletable :: "'d cJSON \<Rightarrow> bool" where
  "deletable (CJSON t s i d n cs) \<longleftrightarrow> t AND cJSON_IsReference = 0 \<and> t AND cJSON_StringIsConst = 0 \<and> (\<forall>c\<in>set cs. deletable c)"

lemma well_typed_deletable: "well_typed x \<Longrightarrow> deletable x"
  by (induction x rule: deletable.induct) auto

lemma delete_releases: "\<forall>x\<in>set items. deletable x \<Longrightarrow> live (loader_cJSON_Delete items a h) = live h - sum_list (map owned items)"
proof (induction items a h rule: loader_cJSON_Delete.induct)
  case (2 t s i d n cs items a h)
  let ?h1 = "loader_cJSON_Delete cs a h"
  have h1: "live ?h1 = live h - sum_list (map owned cs)" using 2 by simp
  have "loader_cJSON_Delete (CJSON t s i d n cs # items) a h = loader_cJSON_Delete items a (add_live (- 1) (free_str a n (free_str a s ?h1)))"
    using 2(3) by (simp add: Let_def)
  moreover have "live (loader_cJSON_Delete items a (add_live (- 1) (free_str a n (free_str a s ?h1)))) =
      live (add_live (- 1) (free_str a n (free_str a s ?h1))) - sum_list (map owned items)" using 2(2,3) by (simp add: Let_def)
  ultimately show ?case using h1 by (simp add: free_str_def split: option.splits)
qed simp

section \<open>The parser is safe and its trees are well-typed\<close>

text \<open>Documented behaviour of the C library: \<^verbatim>\<open>strtod\<close> reads no more than it is given, and a number within the range converts to an \<^verbatim>\<open>int\<close>.\<close>

definition floats_ok :: "'d floats \<Rightarrow> bool" where
  "floats_ok F \<longleftrightarrow> (\<forall>t. snd (strtod F t) \<le> length t) \<and>
     (\<forall>d. \<not> ge_INT_MAX F d \<longrightarrow> \<not> le_INT_MIN F d \<longrightarrow> - 2147483648 \<le> to_int F d \<and> to_int F d \<le> 2147483647)"

text \<open>An item before it is given a value.\<close>

definition blank :: "'d cJSON \<Rightarrow> bool" where
  "blank x \<longleftrightarrow> (\<exists>n. x = CJSON cJSON_Invalid None 0 None n [] \<or> x = CJSON cJSON_String None 0 None n [])"

definition parsed :: "parse_buffer \<Rightarrow> 'd cJSON \<Rightarrow> bool \<Rightarrow> 'd cJSON \<Rightarrow> parse_buffer \<Rightarrow> bool" where
  "parsed b item ok it b' \<longleftrightarrow> content b' = content b \<and>
     (if ok then offset b < offset b' \<and> offset b' \<le> length (content b) \<and> depth b' = depth b \<and> well_typed it \<and> height it + depth b \<le> CJSON_NESTING_LIMIT \<and>
        item_name it = item_name item \<and> live (pb_heap b') - owned it = live (pb_heap b) - owned item
      else it = item \<and> live (pb_heap b') = live (pb_heap b))"

definition value_ok :: "('d cJSON \<Rightarrow> parse_buffer \<Rightarrow> (bool \<times> 'd cJSON \<times> parse_buffer) option) \<Rightarrow> nat \<Rightarrow> bool" where
  "value_ok parse r \<longleftrightarrow> (\<forall>item b. blank item \<longrightarrow> offset b \<le> length (content b) \<longrightarrow> length (content b) - offset b \<le> r \<longrightarrow> depth b \<le> CJSON_NESTING_LIMIT \<longrightarrow>
     (\<exists>ok it b'. parse item b = Some (ok, it, b') \<and> parsed b item ok it b'))"

lemma at_index_Some: "at_index b i = Some c \<longleftrightarrow> offset b + i < length (content b) \<and> content b ! (offset b + i) = c"
  and at_index_None: "at_index b i = None \<longleftrightarrow> length (content b) \<le> offset b + i"
  by (auto simp: at_index_def)

lemma skip_whitespace:
  assumes "offset b \<le> length (content b)"
  shows "\<exists>n. buffer_skip_whitespace b = b\<lparr>offset := n\<rparr> \<and> offset b \<le> n \<and> n \<le> length (content b) \<and> (offset b < length (content b) \<longrightarrow> n < length (content b))"
proof (cases "at_index b 0")
  case None
  then show ?thesis using assms by (intro exI [of _ "offset b"]) (simp add: buffer_skip_whitespace_def)
next
  case (Some c)
  then have lt: "offset b < length (content b)" by (simp add: at_index_Some)
  define k where "k = length (takeWhile (\<lambda>c. of_char c \<le> (32 :: nat)) (drop (offset b) (content b)))"
  have k: "offset b + k \<le> length (content b)" using length_takeWhile_le [of "\<lambda>c. of_char c \<le> (32 :: nat)" "drop (offset b) (content b)"] lt by (simp add: k_def)
  show ?thesis
  proof (cases "offset b + k = length (content b)")
    case True
    then have "buffer_skip_whitespace b = b\<lparr>offset := length (content b) - 1\<rparr>" using Some by (simp add: buffer_skip_whitespace_def Let_def k_def [symmetric])
    then show ?thesis using lt by (intro exI [of _ "length (content b) - 1"]) auto
  next
    case False
    then have "buffer_skip_whitespace b = b\<lparr>offset := offset b + k\<rparr>" using Some by (simp add: buffer_skip_whitespace_def Let_def k_def [symmetric])
    then show ?thesis using False k by (intro exI [of _ "offset b + k"]) simp
  qed
qed

lemma parse_string_spec:
  assumes "blank item" and b: "offset b < length (content b)" "depth b \<le> CJSON_NESTING_LIMIT"
  shows "\<exists>ok it b'. parse_string a item b = Some (ok, it, b') \<and> parsed b item ok it b' \<and> (ok \<longrightarrow> ctype it = cJSON_String \<and> child it = [] \<and> valueint it = 0)"
proof -
  obtain t nm where item: "item = CJSON t None 0 None nm []" using assms(1) by (auto simp: blank_def)
  let ?start = "drop (offset b + 1) (content b)" and ?c = "content b ! offset b"
  have c: "at_index b 0 = Some ?c" using b by (simp add: at_index_Some)
  show ?thesis
  proof (cases "?c \<noteq> CHR 0x22 \<or> string_end ?start = None")
    case True
    then have "parse_string a item b = Some (False, item, b\<lparr>offset := offset b + 1\<rparr>)" using c by (cases "?c = CHR 0x22") (simp_all add: parse_string_def)
    then show ?thesis by (intro exI [of _ False] exI [of _ item]) (simp add: parsed_def)
  next
    case False
    then obtain n k where q: "?c = CHR 0x22" and e: "string_end ?start = Some (n, k)" by auto
    from string_end_tokens [OF e] have n: "n < length ?start" "k \<le> n" and tok: "tokens_of (take n ?start) = n - k" by auto
    obtain ok out k' where u: "unescape (take n ?start) = (ok, out, k')" using prod_cases3 by blast
    have room: "length out < Suc (n + 1 - k)" using unescape_tokens [OF u] tok by simp
    show ?thesis
    proof (cases "succeeds (pb_heap b)")
      case no: False
      then have "parse_string a item b = Some (False, item, b\<lparr>offset := offset b + 1, out_of_memory := True, pb_heap := tick (pb_heap b)\<rparr>)"
        using c q e by (simp add: parse_string_def loader_calloc_def)
      then show ?thesis by (intro exI [of _ False] exI [of _ item]) (simp add: parsed_def)
    next
      case yes: True
      then have p: "parse_string a item b = (if \<not> ok then Some (False, item, b\<lparr>offset := offset b + 1 + k', pb_heap := add_live (- 1) (add_live 1 (tick (pb_heap b)))\<rparr>)
          else Some (True, CJSON cJSON_String (Some (c_string out)) 0 None nm [], b\<lparr>offset := offset b + 1 + n + 1, pb_heap := add_live 1 (tick (pb_heap b))\<rparr>))"
        using c q e u room by (simp add: parse_string_def loader_calloc_def item)
      then show ?thesis
      proof (cases ok)
        case True
        with p have "parse_string a item b =
            Some (True, CJSON cJSON_String (Some (c_string out)) 0 None nm [], b\<lparr>offset := offset b + 1 + n + 1, pb_heap := add_live 1 (tick (pb_heap b))\<rparr>)" by simp
        moreover have "offset b + 1 + n + 1 \<le> length (content b)" using n b by simp
        ultimately show ?thesis using b
          by (intro exI [of _ True] exI [of _ "CJSON cJSON_String (Some (c_string out)) 0 None nm []"]
              exI [of _ "b\<lparr>offset := offset b + 1 + n + 1, pb_heap := add_live 1 (tick (pb_heap b))\<rparr>"]) (simp add: parsed_def item)
      next
        case False
        with p show ?thesis by (intro exI [of _ False] exI [of _ item]) (simp add: parsed_def)
      qed
    qed
  qed
qed

lemma parse_number_spec:
  assumes "blank item" and F: "floats_ok F" and b: "offset b \<le> length (content b)" "depth b \<le> CJSON_NESTING_LIMIT"
  shows "case parse_number F item b of (ok, it, b') \<Rightarrow> parsed b item ok it b'"
proof -
  obtain t nm where item: "item = CJSON t None 0 None nm []" using assms(1) by (auto simp: blank_def)
  let ?t = "takeWhile number_char (take 63 (drop (offset b) (content b)))"
  obtain d n where st: "strtod F ?t = (d, n)" by fastforce
  have "length ?t \<le> length (drop (offset b) (content b))" using length_takeWhile_le [of number_char "take 63 (drop (offset b) (content b))"] by simp
  moreover have "snd (strtod F ?t) \<le> length ?t" using F unfolding floats_ok_def by blast
  ultimately have "n \<le> length (content b) - offset b" using st by simp
  with F st b show ?thesis unfolding parse_number_def by (auto simp: Let_def item parsed_def floats_ok_def)
qed

text \<open>What one round of the loops does to a new item.\<close>

definition item_read :: "bool \<Rightarrow> parse_buffer \<Rightarrow> 'd cJSON \<Rightarrow> bool \<Rightarrow> 'd cJSON \<Rightarrow> parse_buffer \<Rightarrow> bool" where
  "item_read named b item ok it b' \<longleftrightarrow> content b' = content b \<and> live (pb_heap b') - owned it = live (pb_heap b) - owned item \<and>
     (if ok then offset b < offset b' \<and> offset b' \<le> length (content b) \<and> depth b' = depth b \<and> well_typed it \<and> height it + depth b \<le> CJSON_NESTING_LIMIT \<and>
        (item_name it \<noteq> None) = named
      else deletable it)"

definition new_cJSON :: "'d cJSON" where "new_cJSON = CJSON cJSON_Invalid None 0 None None []"

definition step_ok :: "bool \<Rightarrow> ('d cJSON \<Rightarrow> parse_buffer \<Rightarrow> (bool \<times> 'd cJSON \<times> parse_buffer) option) \<Rightarrow> nat \<Rightarrow> bool" where
  "step_ok named step r \<longleftrightarrow> (\<forall>b. offset b < length (content b) \<longrightarrow> length (content b) - offset b \<le> r \<longrightarrow> depth b \<le> CJSON_NESTING_LIMIT \<longrightarrow>
     (\<exists>ok it b'. step new_cJSON b = Some (ok, it, b') \<and> item_read named b new_cJSON ok it b'))"

lemma value_okD:
  assumes "value_ok parse r" "blank item" "offset b \<le> length (content b)" "length (content b) - offset b \<le> r" "depth b \<le> CJSON_NESTING_LIMIT"
  obtains ok it b' where "parse item b = Some (ok, it, b')" "parsed b item ok it b'"
  using assms unfolding value_ok_def by blast

lemma step_okD:
  assumes "step_ok named step r" "offset b < length (content b)" "length (content b) - offset b \<le> r" "depth b \<le> CJSON_NESTING_LIMIT"
  obtains ok it b' where "step new_cJSON b = Some (ok, it, b')" "item_read named b new_cJSON ok it b'"
  using assms unfolding step_ok_def by blast

lemma skip_whitespaceE:
  assumes "offset b \<le> length (content b)"
  obtains n where "buffer_skip_whitespace b = b\<lparr>offset := n\<rparr>" "offset b \<le> n" "n \<le> length (content b)" "offset b < length (content b) \<Longrightarrow> n < length (content b)"
  using skip_whitespace [OF assms] by blast

lemma blank_deletable: "blank x \<Longrightarrow> deletable x"
  by (auto simp: blank_def)

lemma blank_new: "blank new_cJSON"
  by (simp add: blank_def new_cJSON_def)

lemma parsed_item_read:
  assumes "parsed b item ok it b'" "blank item" "(item_name item \<noteq> None) = named"
    and "content b = content b0" "live (pb_heap b) - owned item = live (pb_heap b0) - owned item0" "offset b0 \<le> offset b" "depth b = depth b0"
  shows "item_read named b0 item0 ok it b'"
  using assms blank_deletable [of item] by (cases ok) (simp_all add: parsed_def item_read_def)

lemma element_ok:
  assumes "value_ok parse (r - 1)"
  shows "step_ok False (parse_element parse) r"
  unfolding step_ok_def
proof (intro allI impI)
  fix b :: parse_buffer
  assume b: "offset b < length (content b)" "length (content b) - offset b \<le> r" "depth b \<le> CJSON_NESTING_LIMIT"
  obtain n where n: "buffer_skip_whitespace (b\<lparr>offset := offset b + 1\<rparr>) = b\<lparr>offset := n\<rparr>" "offset b + 1 \<le> n" "n \<le> length (content b)"
    using skip_whitespaceE [of "b\<lparr>offset := offset b + 1\<rparr>"] b by auto
  have "length (content b) - n \<le> r - 1" using b n by arith
  then obtain ok it b' where p: "parse new_cJSON (b\<lparr>offset := n\<rparr>) = Some (ok, it, b')" "parsed (b\<lparr>offset := n\<rparr>) new_cJSON ok it b'"
    using value_okD [OF assms blank_new, of "b\<lparr>offset := n\<rparr>"] n b by auto
  have "item_read False b new_cJSON ok it b'"
    by (rule parsed_item_read [OF p(2) blank_new]) (use n in \<open>simp_all add: new_cJSON_def\<close>)
  then show "\<exists>ok it b'. parse_element parse new_cJSON b = Some (ok, it, b') \<and> item_read False b new_cJSON ok it b'"
    using p(1) n(1) by (auto simp: parse_element_def)
qed

lemma member_ok:
  fixes parse :: "'d cJSON \<Rightarrow> parse_buffer \<Rightarrow> (bool \<times> 'd cJSON \<times> parse_buffer) option"
  assumes "value_ok parse (r - 1)"
  shows "step_ok True (parse_member parse a) r"
  unfolding step_ok_def
proof (intro allI impI)
  fix b :: parse_buffer
  assume b: "offset b < length (content b)" "length (content b) - offset b \<le> r" "depth b \<le> CJSON_NESTING_LIMIT"
  show "\<exists>ok it b'. parse_member parse a new_cJSON b = Some (ok, it, b') \<and> item_read True b new_cJSON ok it b'"
  proof (cases "at_index b 1")
    case None
    then show ?thesis
      by (intro exI [of _ False] exI [of _ new_cJSON] exI [of _ b]) (simp add: parse_member_def item_read_def blank_deletable [OF blank_new])
  next
    case (Some c)
    then have lt: "offset b + 1 < length (content b)" by (simp add: at_index_Some)
    obtain n where n: "buffer_skip_whitespace (b\<lparr>offset := offset b + 1\<rparr>) = b\<lparr>offset := n\<rparr>" "offset b + 1 \<le> n" "n < length (content b)"
      using skip_whitespaceE [of "b\<lparr>offset := offset b + 1\<rparr>"] lt by auto
    obtain ok b1 and it :: "'d cJSON" where p: "parse_string a new_cJSON (b\<lparr>offset := n\<rparr>) = Some (ok, it, b1)" "parsed (b\<lparr>offset := n\<rparr>) new_cJSON ok it b1"
      and it: "ok \<longrightarrow> ctype it = cJSON_String \<and> child it = [] \<and> valueint it = 0"
      using parse_string_spec [OF blank_new, of "b\<lparr>offset := n\<rparr>" a] n b(3) by auto
    show ?thesis
    proof (cases ok)
      case False
      then have "parse_member parse a new_cJSON b = Some (False, it, b1)" using Some n(1) p(1) by (simp add: parse_member_def)
      moreover have "item_read True b new_cJSON False it b1" using p(2) False blank_deletable [OF blank_new] by (simp add: parsed_def item_read_def)
      ultimately show ?thesis by blast
    next
      case True
      with p(2) it obtain str where i: "it = CJSON cJSON_String (Some str) 0 None None []"
        by (cases it) (auto simp: parsed_def new_cJSON_def)
      have b1: "content b1 = content b" "n < offset b1" "offset b1 \<le> length (content b)" "depth b1 = depth b" "live (pb_heap b1) = live (pb_heap b) + 1"
        using p(2) True i by (simp_all add: parsed_def new_cJSON_def)
      obtain m where m: "buffer_skip_whitespace b1 = b1\<lparr>offset := m\<rparr>" "offset b1 \<le> m" "m \<le> length (content b)"
        using skip_whitespaceE [of b1] b1 by auto
      let ?b2 = "b1\<lparr>offset := m\<rparr>" and ?it = "CJSON cJSON_String None 0 None (Some str) []"
      have bl: "blank ?it" by (simp add: blank_def)
      show ?thesis
      proof (cases "at_index ?b2 0 = Some (CHR '':'')")
        case False
        then have "parse_member parse a new_cJSON b = Some (False, ?it, ?b2)" using Some n(1) p(1) True i m(1) by (simp add: parse_member_def)
        moreover have "item_read True b new_cJSON False ?it ?b2" using b1 by (simp add: item_read_def new_cJSON_def)
        ultimately show ?thesis by blast
      next
        case colon: True
        then have "m < length (content b)" using b1(1) by (simp add: at_index_Some)
        then obtain l where l: "buffer_skip_whitespace (b1\<lparr>offset := m + 1\<rparr>) = b1\<lparr>offset := l\<rparr>" "m + 1 \<le> l" "l \<le> length (content b)"
          using skip_whitespaceE [of "b1\<lparr>offset := m + 1\<rparr>"] b1(1) by auto
        have "length (content b) - l \<le> r - 1" using b n m l b1 by arith
        then obtain ok' it' b' where v: "parse ?it (b1\<lparr>offset := l\<rparr>) = Some (ok', it', b')" "parsed (b1\<lparr>offset := l\<rparr>) ?it ok' it' b'"
          using value_okD [OF assms bl, of "b1\<lparr>offset := l\<rparr>"] l b b1 by auto
        have "parse_member parse a new_cJSON b = Some (ok', it', b')" using Some n(1) p(1) True i m(1) colon l(1) v(1) by (simp add: parse_member_def)
        moreover have "item_read True b new_cJSON ok' it' b'"
          by (rule parsed_item_read [OF v(2) bl]) (use n m l b1 in \<open>simp_all add: new_cJSON_def\<close>)
        ultimately show ?thesis by blast
      qed
    qed
  qed
qed

definition items_read :: "bool \<Rightarrow> parse_buffer \<Rightarrow> bool \<Rightarrow> 'd cJSON list \<Rightarrow> parse_buffer \<Rightarrow> bool" where
  "items_read named b ok its b' \<longleftrightarrow> content b' = content b \<and> live (pb_heap b') = live (pb_heap b) + sum_list (map owned its) \<and> (\<forall>x\<in>set its. deletable x) \<and>
     (ok \<longrightarrow> offset b < offset b' \<and> offset b' \<le> length (content b) \<and> depth b' = depth b \<and>
        (\<forall>x\<in>set its. well_typed x \<and> height x + depth b \<le> CJSON_NESTING_LIMIT \<and> (item_name x \<noteq> None) = named))"

lemma parse_items_ok:
  fixes step :: "'d cJSON \<Rightarrow> parse_buffer \<Rightarrow> (bool \<times> 'd cJSON \<times> parse_buffer) option"
  assumes step: "step_ok named step r" and r: "r > 0"
  shows "offset b < length (content b) \<Longrightarrow> length (content b) - offset b \<le> r \<Longrightarrow> length (content b) - offset b \<le> fuel \<Longrightarrow> depth b \<le> CJSON_NESTING_LIMIT \<Longrightarrow>
    \<exists>ok its b'. parse_items step a fuel items b = Some (ok, items @ its, b') \<and> items_read named b ok its b'"
proof (induction fuel arbitrary: items b)
  case (Suc fuel)
  let ?b0 = "b\<lparr>pb_heap := add_live 1 (tick (pb_heap b))\<rparr>"
  show ?case
  proof (cases "succeeds (pb_heap b)")
    case False
    then show ?thesis
      by (intro exI [of _ False] exI [of _ "[]"] exI [of _ "b\<lparr>pb_heap := tick (pb_heap b), out_of_memory := True\<rparr>"]) (simp add: cJSON_New_Item_def items_read_def)
  next
    case yes: True
    then have new: "cJSON_New_Item a (pb_heap b) = (Some (new_cJSON :: 'd cJSON), add_live 1 (tick (pb_heap b)))" by (simp add: cJSON_New_Item_def new_cJSON_def)
    obtain ok it b1 where s: "step new_cJSON ?b0 = Some (ok, it, b1)" "item_read named ?b0 new_cJSON ok it b1"
      using step_okD [OF step, of ?b0] Suc.prems by auto
    have live: "live (pb_heap b1) = live (pb_heap b) + owned it" and con: "content b1 = content b" using s(2) by (simp_all add: item_read_def new_cJSON_def)
    show ?thesis
    proof (cases ok)
      case False
      then have "parse_items step a (Suc fuel) items b = Some (False, items @ [it], b1)" using new s(1) by simp
      moreover have "items_read named b False [it] b1" using s(2) live False by (simp add: items_read_def item_read_def)
      ultimately show ?thesis by blast
    next
      case True
      have b1: "offset b < offset b1" "offset b1 \<le> length (content b)" "depth b1 = depth b"
        and it: "well_typed it" "height it + depth b \<le> CJSON_NESTING_LIMIT" "(item_name it \<noteq> None) = named"
        using s(2) True by (simp_all add: item_read_def)
      obtain m where m: "buffer_skip_whitespace b1 = b1\<lparr>offset := m\<rparr>" "offset b1 \<le> m" "m \<le> length (content b)"
        using skip_whitespaceE [of b1] b1 con by auto
      let ?b2 = "b1\<lparr>offset := m\<rparr>"
      show ?thesis
      proof (cases "at_index ?b2 0 = Some (CHR '','')")
        case False
        then have "parse_items step a (Suc fuel) items b = Some (True, items @ [it], ?b2)" using new s(1) True m(1) by simp
        moreover have "items_read named b True [it] ?b2" using con live it b1 m well_typed_deletable [of it] by (simp add: items_read_def)
        ultimately show ?thesis by blast
      next
        case comma: True
        then have ml: "m < length (content b)" using con by (simp add: at_index_Some)
        have "length (content b) - m \<le> r" "length (content b) - m \<le> fuel" using Suc.prems m b1 by arith+
        then obtain ok' its b' where rest: "parse_items step a fuel (items @ [it]) ?b2 = Some (ok', (items @ [it]) @ its, b')" "items_read named ?b2 ok' its b'"
          using Suc.IH [of ?b2 "items @ [it]"] Suc.prems ml m b1 con by auto
        have "parse_items step a (Suc fuel) items b = Some (ok', items @ (it # its), b')" using new s(1) True m(1) comma rest(1) by simp
        moreover have "items_read named b ok' (it # its) b'"
          using rest(2) con live it b1 m well_typed_deletable [of it] by (cases ok') (simp_all add: items_read_def)
        ultimately show ?thesis by blast
      qed
    qed
  qed
qed simp

lemma height_children:
  assumes "\<forall>x\<in>set its. height x + Suc n \<le> m" "n < m"
  shows "height (CJSON t s i d nm its) + n \<le> m"
proof -
  have "Max (insert 0 (height ` set its)) \<le> m - Suc n" using assms by (subst Max_le_iff) auto
  then have "1 + Max (insert 0 (height ` set its)) + n \<le> m" using assms(2) by arith
  then show ?thesis by (simp del: Max_insert Max_le_iff)
qed

lemma fail_children_ok:
  assumes "content b' = content b" "live (pb_heap b') = live (pb_heap b) + sum_list (map owned its)" "\<forall>x\<in>set its. deletable x"
  shows "\<exists>ok it b''. fail_children a its item b' = Some (ok, it, b'') \<and> parsed b item ok it b''"
  by (intro exI [of _ False] exI [of _ item]) (use assms in \<open>simp add: fail_children_def parsed_def delete_releases\<close>)

lemma set_children_ok:
  assumes item: "blank item" and t: "t = (if named then cJSON_Object else cJSON_Array)"
    and b: "offset b < offset b'" "offset b' < length (content b)" "depth b < CJSON_NESTING_LIMIT" "depth b' = depth b + 1"
    and r: "content b' = content b" "live (pb_heap b') = live (pb_heap b) + sum_list (map owned its)"
      "\<forall>x\<in>set its. well_typed x \<and> height x + Suc (depth b) \<le> CJSON_NESTING_LIMIT \<and> (item_name x \<noteq> None) = named"
  shows "\<exists>ok it b''. set_children t its item b' = Some (ok, it, b'') \<and> parsed b item ok it b''"
proof -
  obtain t0 nm where i: "item = CJSON t0 None 0 None nm []" using item by (auto simp: blank_def)
  let ?it = "CJSON t None 0 None nm its" and ?b = "b'\<lparr>depth := depth b' - 1, offset := offset b' + 1\<rparr>"
  have s: "set_children t its item b' = Some (True, ?it, ?b)" by (simp add: set_children_def i)
  have "well_typed ?it" using r(3) t by simp
  moreover have "height ?it + depth b \<le> CJSON_NESTING_LIMIT" by (rule height_children) (use r(3) b in auto)
  ultimately have "parsed b item True ?it ?b" using b r by (simp add: parsed_def i del: height.simps well_typed.simps)
  with s show ?thesis by blast
qed

text \<open>What arrays and objects do after the opening bracket.\<close>

lemma children_ok:
  fixes step :: "'d cJSON \<Rightarrow> parse_buffer \<Rightarrow> (bool \<times> 'd cJSON \<times> parse_buffer) option"
  assumes step: "step_ok named step r" and item: "blank item" and t: "t = (if named then cJSON_Object else cJSON_Array)"
    and b: "offset b < length (content b)" "length (content b) - offset b \<le> r" "length (content b) - offset b \<le> fuel" "depth b < CJSON_NESTING_LIMIT"
  shows "\<exists>ok it b'. (let b = buffer_skip_whitespace (b\<lparr>depth := depth b + 1, offset := offset b + 1\<rparr>) in
           if at_index b 0 = Some close then set_children t [] item b
           else if at_index b 0 = None then fail_children a [] item (b\<lparr>offset := offset b - 1\<rparr>)
           else do {
             (ok, items, b) \<leftarrow> parse_items step a fuel [] (b\<lparr>offset := offset b - 1\<rparr>);
             (if ok \<and> at_index b 0 = Some close then set_children t items item b else fail_children a items item b)
           }) = Some (ok, it, b') \<and> parsed b item ok it b'"
proof -
  let ?b1 = "b\<lparr>depth := depth b + 1, offset := offset b + 1\<rparr>"
  obtain n where n: "buffer_skip_whitespace ?b1 = b\<lparr>depth := depth b + 1, offset := n\<rparr>" "offset b + 1 \<le> n" "n \<le> length (content b)"
    using skip_whitespaceE [of ?b1] b by auto
  let ?b2 = "b\<lparr>depth := depth b + 1, offset := n\<rparr>" and ?b3 = "b\<lparr>depth := depth b + 1, offset := n - 1\<rparr>"
  consider (close) "at_index ?b2 0 = Some close" | (none) "at_index ?b2 0 = None" | (more) c where "at_index ?b2 0 = Some c" "c \<noteq> close" by force
  then show ?thesis
  proof cases
    case close
    then have "n < length (content b)" by (simp add: at_index_Some)
    then show ?thesis using set_children_ok [OF item t, of b ?b2 "[]"] n b close by (simp add: Let_def)
  next
    case none
    then show ?thesis using fail_children_ok [of ?b3 b "[]" a item] n by (simp add: Let_def)
  next
    case more
    then have lt: "n < length (content b)" by (simp add: at_index_Some)
    have "length (content b) - (n - 1) \<le> r" "length (content b) - (n - 1) \<le> fuel" "r > 0" "n - 1 < length (content b)" using b n lt by arith+
    then obtain ok its b' where p: "parse_items step a fuel [] ?b3 = Some (ok, its, b')" and read: "items_read named ?b3 ok its b'"
      using parse_items_ok [OF step, of ?b3 fuel a "[]"] lt n b by auto
    have r: "content b' = content b" "live (pb_heap b') = live (pb_heap b) + sum_list (map owned its)" "\<forall>x\<in>set its. deletable x"
      using read by (simp_all add: items_read_def)
    show ?thesis
    proof (cases "ok \<and> at_index b' 0 = Some close")
      case True
      then have "offset b' < length (content b)" using r(1) by (simp add: at_index_Some)
      moreover have "offset b < offset b'" using read True n by (auto simp: items_read_def)
      moreover have "depth b' = depth b + 1" "\<forall>x\<in>set its. well_typed x \<and> height x + Suc (depth b) \<le> CJSON_NESTING_LIMIT \<and> (item_name x \<noteq> None) = named"
        using read True n by (simp_all add: items_read_def)
      ultimately have "\<exists>ok it b''. set_children t its item b' = Some (ok, it, b'') \<and> parsed b item ok it b''"
        using set_children_ok [OF item t] b(4) r by blast
      with True p n(1) more show ?thesis by (simp add: Let_def)
    next
      case False
      have "\<exists>ok it b''. fail_children a its item b' = Some (ok, it, b'') \<and> parsed b item ok it b''" by (rule fail_children_ok [OF r])
      with False p n(1) more show ?thesis by (cases ok) (simp_all add: Let_def)
    qed
  qed
qed

lemma parse_array_ok:
  assumes v: "value_ok parse (r - 1)" and item: "blank item"
    and b: "at_index b 0 = Some (CHR ''['')" "length (content b) - offset b \<le> r" "length (content b) - offset b \<le> fuel"
  shows "\<exists>ok it b'. parse_array parse a fuel item b = Some (ok, it, b') \<and> parsed b item ok it b'"
proof (cases "depth b \<ge> CJSON_NESTING_LIMIT")
  case True
  then show ?thesis by (intro exI [of _ False] exI [of _ item] exI [of _ b]) (simp add: parse_array_def parsed_def)
next
  case False
  have "offset b < length (content b)" using b(1) by (simp add: at_index_Some)
  then show ?thesis using children_ok [OF element_ok [OF v] item _ _ b(2,3), of cJSON_Array "CHR '']''" a] b(1) False
    by (simp add: parse_array_def)
qed

lemma parse_object_ok:
  assumes v: "value_ok parse (r - 1)" and item: "blank item"
    and b: "at_index b 0 = Some (CHR ''{'')" "length (content b) - offset b \<le> r" "length (content b) - offset b \<le> fuel"
  shows "\<exists>ok it b'. parse_object parse a fuel item b = Some (ok, it, b') \<and> parsed b item ok it b'"
proof (cases "depth b \<ge> CJSON_NESTING_LIMIT")
  case True
  then show ?thesis by (intro exI [of _ False] exI [of _ item] exI [of _ b]) (simp add: parse_object_def parsed_def)
next
  case False
  have "offset b < length (content b)" "at_index (b\<lparr>depth := depth b + 1\<rparr>) 0 = Some (CHR ''{'')" using b(1) by (simp_all add: at_index_Some)
  then show ?thesis using children_ok [OF member_ok [OF v] item _ _ b(2,3), of cJSON_Object "CHR ''}''" a a] False
    by (simp add: parse_object_def)
qed

lemma literal_ok:
  assumes "blank item" "starts_with b w" "w \<noteq> []" "depth b \<le> CJSON_NESTING_LIMIT" "t \<in> {cJSON_False, cJSON_True, cJSON_NULL}" "v \<in> {0, 1}" "n = length w"
  shows "parsed b item True (CJSON t None v None (item_name item) []) (b\<lparr>offset := offset b + n\<rparr>)"
  using assms by (auto simp: parsed_def blank_def starts_with_def)

lemma parse_value_ok:
  fixes F :: "'d floats"
  shows "floats_ok F \<Longrightarrow> r < fuel \<Longrightarrow> value_ok (parse_value fuel F a) r"
proof (induction fuel arbitrary: r)
  case (Suc fuel)
  have v: "value_ok (parse_value fuel F a) (r - 1)" if "r > 0" using Suc.IH [of "r - 1"] Suc.prems that by simp
  show ?case unfolding value_ok_def
  proof (intro allI impI)
    fix item :: "'d cJSON" and b :: parse_buffer
    assume item: "blank item" and b: "offset b \<le> length (content b)" "length (content b) - offset b \<le> r" "depth b \<le> CJSON_NESTING_LIMIT"
    obtain t nm where i: "item = CJSON t None 0 None nm []" using item by (auto simp: blank_def)
    let ?goal = "\<exists>ok it b'. parse_value (Suc fuel) F a item b = Some (ok, it, b') \<and> parsed b item ok it b'"
    consider (null) "starts_with b ''null''" | (false) "\<not> starts_with b ''null''" "starts_with b ''false''"
      | (true) "\<not> starts_with b ''null''" "\<not> starts_with b ''false''" "starts_with b ''true''"
      | (over) "\<not> starts_with b ''null''" "\<not> starts_with b ''false''" "\<not> starts_with b ''true''" "at_index b 0 = None"
      | (char) c where "\<not> starts_with b ''null''" "\<not> starts_with b ''false''" "\<not> starts_with b ''true''" "at_index b 0 = Some c" by force
    then show ?goal
    proof cases
      case null
      then show ?thesis using literal_ok [OF item null _ b(3), of cJSON_NULL 0 4] i
        by (intro exI [of _ True] exI [of _ "CJSON cJSON_NULL None 0 None nm []"] exI [of _ "b\<lparr>offset := offset b + 4\<rparr>"]) (simp add: set_type_def)
    next
      case false
      then show ?thesis using literal_ok [OF item false(2) _ b(3), of cJSON_False 0 5] i
        by (intro exI [of _ True] exI [of _ "CJSON cJSON_False None 0 None nm []"] exI [of _ "b\<lparr>offset := offset b + 5\<rparr>"]) (simp add: set_type_def)
    next
      case true
      then show ?thesis using literal_ok [OF item true(3) _ b(3), of cJSON_True 1 4] i
        by (intro exI [of _ True] exI [of _ "CJSON cJSON_True None 1 None nm []"] exI [of _ "b\<lparr>offset := offset b + 4\<rparr>"]) simp
    next
      case over
      then show ?thesis by (intro exI [of _ False] exI [of _ item] exI [of _ b]) (simp add: parsed_def)
    next
      case char
      then have lt: "offset b < length (content b)" by (simp add: at_index_Some)
      then have r: "r > 0" and fuel: "length (content b) - offset b \<le> fuel" using b(2) Suc.prems by arith+
      consider "c = CHR 0x22" | "c \<noteq> CHR 0x22" "c = CHR ''-'' \<or> c \<in> set ''0123456789''" | "c = CHR ''[''" | "c = CHR ''{''"
        | "c \<noteq> CHR 0x22" "\<not> (c = CHR ''-'' \<or> c \<in> set ''0123456789'')" "c \<noteq> CHR ''[''" "c \<noteq> CHR ''{''" by blast
      then show ?thesis
      proof cases
        case 1
        then show ?thesis using parse_string_spec [OF item lt b(3), of a] char by auto
      next
        case 2
        then show ?thesis using parse_number_spec [OF item Suc.prems(1) b(1,3)] char by (auto split: prod.splits)
      next
        case 3
        then show ?thesis using parse_array_ok [OF v [OF r] item _ b(2) fuel, of a] char by simp
      next
        case 4
        then show ?thesis using parse_object_ok [OF v [OF r] item _ b(2) fuel, of a] char by simp
      next
        case 5
        then show ?thesis using char by (intro exI [of _ False] exI [of _ item] exI [of _ b]) (auto simp: parsed_def)
      qed
    qed
  qed
qed simp

text \<open>What a caller gets from the parser.\<close>

definition parse_result_ok :: "heap \<Rightarrow> string \<Rightarrow> 'd cJSON option \<Rightarrow> heap \<Rightarrow> nat \<Rightarrow> bool" where
  "parse_result_ok h text res h' e \<longleftrightarrow> e \<le> length text \<and>
     (case res of None \<Rightarrow> live h' = live h
      | Some item \<Rightarrow> well_typed item \<and> height item \<le> CJSON_NESTING_LIMIT \<and> item_name item = None \<and> live h' = live h + owned item)"

lemma skip_utf8_bom_bounds:
  "\<exists>n. skip_utf8_bom b = b\<lparr>offset := n\<rparr> \<and> offset b \<le> n \<and> (offset b < length (content b) \<longrightarrow> n < length (content b))"
  by (auto simp: skip_utf8_bom_def at_index_Some intro: exI [of _ "offset b"])

lemma parse_with_length_opts:
  fixes F :: "'d floats"
  assumes F: "floats_ok F"
  shows "\<exists>res oom' h' e. loader_cJSON_ParseWithLengthOpts F a text nt oom h = Some (res, oom', h', e) \<and> parse_result_ok h text res h' e"
proof (cases "text = [] \<or> \<not> succeeds h")
  case True
  then show ?thesis by (auto simp: loader_cJSON_ParseWithLengthOpts_def cJSON_New_Item_def parse_result_ok_def)
next
  case False
  let ?h = "add_live 1 (tick h)"
  let ?b = "\<lparr>content = text, offset = 0, depth = 0, out_of_memory = oom, pb_heap = ?h\<rparr>"
  have new: "cJSON_New_Item a h = (Some (new_cJSON :: 'd cJSON), ?h)" using False by (simp add: cJSON_New_Item_def new_cJSON_def)
  obtain n where n: "skip_utf8_bom ?b = ?b\<lparr>offset := n\<rparr>" "n < length text" using skip_utf8_bom_bounds [of ?b] False by auto
  obtain m where m: "buffer_skip_whitespace (?b\<lparr>offset := n\<rparr>) = ?b\<lparr>offset := m\<rparr>" "m < length text"
    using skip_whitespaceE [of "?b\<lparr>offset := n\<rparr>"] n(2) by auto
  obtain ok it b' where p: "parse_value (parse_fuel text) F a new_cJSON (?b\<lparr>offset := m\<rparr>) = Some (ok, it, b')" "parsed (?b\<lparr>offset := m\<rparr>) new_cJSON ok it b'"
    using value_okD [OF parse_value_ok [OF F, of "length text" "parse_fuel text" a] blank_new, of "?b\<lparr>offset := m\<rparr>"] m(2) by (auto simp: parse_fuel_def)
  let ?b' = "if ok \<and> nt then buffer_skip_whitespace b' else b'"
  have con: "content b' = text" "ok \<Longrightarrow> offset b' \<le> length text" using p(2) by (auto simp: parsed_def)
  then obtain l where l: "ok \<Longrightarrow> buffer_skip_whitespace b' = b'\<lparr>offset := l\<rparr>" "ok \<Longrightarrow> l \<le> length text"
    using skip_whitespaceE [of b'] by (cases ok) auto
  have b': "content ?b' = text" "pb_heap ?b' = pb_heap b'" "ok \<Longrightarrow> offset ?b' \<le> length text"
    using con l by (cases "ok \<and> nt"; auto)+
  have del: "deletable it" and live: "live (pb_heap b') = live h + owned it"
    using p(2) well_typed_deletable [of it] by (cases ok; simp add: parsed_def new_cJSON_def)+
  have run: "loader_cJSON_ParseWithLengthOpts F a text nt oom h =
      (if \<not> ok \<or> nt \<and> at_index ?b' 0 \<noteq> Some (CHR 0x00)
       then Some (None, out_of_memory ?b', loader_cJSON_Delete [it] a (pb_heap ?b'), if offset ?b' < length text then offset ?b' else length text - 1)
       else Some (Some it, out_of_memory ?b', pb_heap ?b', offset ?b'))"
    using False new n(1) m(1) p(1) unfolding loader_cJSON_ParseWithLengthOpts_def Let_def by simp
  show ?thesis
  proof (cases "\<not> ok \<or> nt \<and> at_index ?b' 0 \<noteq> Some (CHR 0x00)")
    case True
    then have "loader_cJSON_ParseWithLengthOpts F a text nt oom h =
        Some (None, out_of_memory ?b', loader_cJSON_Delete [it] a (pb_heap ?b'), if offset ?b' < length text then offset ?b' else length text - 1)"
      by (simp only: run if_True if_False)
    moreover have "live (loader_cJSON_Delete [it] a (pb_heap ?b')) = live h" using delete_releases [of "[it]"] del live b'(2) by simp
    ultimately show ?thesis by (auto simp: parse_result_ok_def)
  next
    case no: False
    then have "loader_cJSON_ParseWithLengthOpts F a text nt oom h = Some (Some it, out_of_memory ?b', pb_heap ?b', offset ?b')"
      by (simp only: run if_True if_False)
    moreover have "parse_result_ok h text (Some it) (pb_heap ?b') (offset ?b')"
      using no p(2) live b' by (simp add: parse_result_ok_def parsed_def new_cJSON_def)
    ultimately show ?thesis by blast
  qed
qed

section \<open>Properties\<close>

text \<open>Decimal integers in place of \<^verbatim>\<open>double\<close>, for the witnesses.\<close>

definition sample_floats :: "int floats" where
  "sample_floats = \<lparr>strtod = (\<lambda>t. let ds = takeWhile (\<lambda>c. c \<in> set ''0123456789'') t in (foldl (\<lambda>n c. 10 * n + (of_char c - 48)) 0 ds, length ds)),
     ge_INT_MAX = (\<lambda>n. n \<ge> 2147483647), le_INT_MIN = (\<lambda>n. n \<le> - 2147483648), to_int = (\<lambda>n. n)\<rparr>"

lemma sample_floats_ok: "floats_ok sample_floats"
  by (auto simp: floats_ok_def sample_floats_def Let_def length_takeWhile_le)

definition sample_text :: string where "sample_text = ''{'' @ [CHR 0x22] @ ''a'' @ [CHR 0x22] @ '': [12, true]}''"

text \<open>C7: 
  For any text and any outcome of the allocations the parser reads only bytes of the text and writes only inside the memory of its strings, it returns, the place it reports lies in the text,
  and it keeps exactly the memory of the tree it returns: none when it fails, and deleting the tree releases the rest.
\<close>

theorem json_parse_safe:
  assumes "floats_ok F"
  shows "\<exists>res oom' h' e. loader_cJSON_ParseWithLengthOpts F a text require_null_terminated oom h = Some (res, oom', h', e) \<and> e \<le> length text \<and>
     live h' = live h + (case res of None \<Rightarrow> 0 | Some item \<Rightarrow> owned item) \<and>
     (case res of None \<Rightarrow> True | Some item \<Rightarrow> live (loader_cJSON_Delete [item] a h') = live h)"
proof -
  obtain res oom' h' e where p: "loader_cJSON_ParseWithLengthOpts F a text require_null_terminated oom h = Some (res, oom', h', e)" "parse_result_ok h text res h' e"
    using parse_with_length_opts [OF assms] by blast
  then have "live h' = live h + (case res of None \<Rightarrow> 0 | Some item \<Rightarrow> owned item) \<and> (case res of None \<Rightarrow> True | Some item \<Rightarrow> live (loader_cJSON_Delete [item] a h') = live h)"
    using well_typed_deletable delete_releases [of "[the res]" a h'] by (auto simp: parse_result_ok_def split: option.splits)
  with p show ?thesis by (auto simp: parse_result_ok_def)
qed

theorem json_parse_safe_witness:
  "\<exists>res oom' h' e. loader_cJSON_ParseWithLengthOpts sample_floats None sample_text False False (sample_heap True) = Some (res, oom', h', e) \<and> e \<le> length sample_text \<and>
     live h' = live (sample_heap True) + (case res of None \<Rightarrow> 0 | Some item \<Rightarrow> owned item) \<and>
     (case res of None \<Rightarrow> True | Some item \<Rightarrow> live (loader_cJSON_Delete [item] None h') = live (sample_heap True))"
  by (rule json_parse_safe [OF sample_floats_ok])

text \<open>C23: 
  Every tree the parser returns is well-typed: an item is a literal, a number, a string, an array or an object, it has a string exactly when it is a string and a number exactly when it is one, its
  integer fits in 32 bits, only arrays and objects have children, the members of objects are named and nothing else is, and no more than 1000 of them are nested.
\<close>

theorem parsed_tree_well_typed:
  assumes "floats_ok F" and "loader_cJSON_ParseWithLengthOpts F a text require_null_terminated oom h = Some (Some item, oom', h', e)"
  shows "well_typed item \<and> height item \<le> CJSON_NESTING_LIMIT \<and> item_name item = None"
  using parse_with_length_opts [OF assms(1), of a "text" require_null_terminated oom h] assms(2) by (auto simp: parse_result_ok_def)

abbreviation sample_tree :: "int cJSON" where
  "sample_tree \<equiv> CJSON cJSON_Object None 0 None None [CJSON cJSON_Array None 0 None (Some ''a'')
     [CJSON cJSON_Number None 12 (Some 12) None [], CJSON cJSON_True None 1 None None []]]"

lemma sample_parse:
  "\<exists>oom' h' e. loader_cJSON_ParseWithLengthOpts sample_floats None sample_text False False (sample_heap True) = Some (Some sample_tree, oom', h', e)"
proof -
  have "map_option fst (loader_cJSON_ParseWithLengthOpts sample_floats None sample_text False False (sample_heap True)) = Some (Some sample_tree)" by code_simp
  then show ?thesis by auto
qed

theorem parsed_tree_well_typed_witness:
  "\<exists>oom' h' e. loader_cJSON_ParseWithLengthOpts sample_floats None sample_text False False (sample_heap True) = Some (Some sample_tree, oom', h', e) \<and>
     well_typed sample_tree \<and> height sample_tree \<le> CJSON_NESTING_LIMIT \<and> item_name sample_tree = None"
  using sample_parse parsed_tree_well_typed [OF sample_floats_ok] by meson

end
