(* ===== verification/JsonGrammar.thy ===== *)
theory JsonGrammar
  imports Json
begin

text \<open>
  The grammar of JSON texts and what the parser makes of them: every text of the grammar whose arrays and objects are nested no deeper than the limit is read in full, and the tree holds the values the
  grammar gives it.  The grammar is that of RFC 8259, written without the definitions of the parser: its strings are bytes, escapes are those of a table and give the UTF-8 encoding of their code point
  (\<open>utf8\<close>, by arithmetic), and the value of a number is what \<^verbatim>\<open>strtod\<close> makes of its whole text.  Two things of the RFC are not in the grammar of the theorem, because the parser does not accept them: an
  escaped surrogate that is not one of a pair, which means no character, and, with \<open>L = 63\<close>, a number of more than 63 characters; what happens to those is a theorem of its own.
\<close>

unbundle bit_operations_syntax

section \<open>UTF-8\<close>

definition utf8 :: "nat \<Rightarrow> string" where
  "utf8 n = map char_of
     (if n < 0x80 then [n]
      else if n < 0x800 then [0xC0 + n div 64, 0x80 + n mod 64]
      else if n < 0x10000 then [0xE0 + n div 4096, 0x80 + n div 64 mod 64, 0x80 + n mod 64]
      else [0xF0 + n div 262144, 0x80 + n div 4096 mod 64, 0x80 + n div 64 mod 64, 0x80 + n mod 64])"

lemma or_high_bits:
  fixes x y :: nat
  assumes "x < 2 ^ k"
  shows "x OR push_bit k y = x + y * 2 ^ k"
proof -
  have x: "take_bit k x = x" using assms by (simp add: take_bit_nat_eq_self)
  have "take_bit k x AND push_bit k y = 0" by (auto simp: bit_eq_iff bit_simps)
  then show ?thesis using disjunctive_add_eq_or [of x "push_bit k y"] x by (simp add: push_bit_eq_mult)
qed

lemma continuation_byte: "(x OR 0x80) AND 0xBF = (0x80 + x mod 64 :: nat)"
proof -
  have eq: "(0xBF :: nat) = 0x80 OR 0x3F" by simp
  have "x AND 0x3F = take_bit 6 x" by (simp add: take_bit_eq_mask mask_eq_exp_minus_1)
  then have low: "x AND 0x3F = x mod 64" by (simp add: take_bit_eq_mod)
  have "(x OR 0x80) AND 0xBF = (x AND 0x3F) OR 0x80"
    by (rule bit_eqI) (auto simp: eq bit_simps simp del: or_numerals)
  also have "\<dots> = x mod 64 + 1 * 2 ^ 7" unfolding low using or_high_bits [of "x mod 64" 7 1] by (simp add: push_bit_eq_mult)
  finally show ?thesis by simp
qed

lemma lead_byte:
  fixes x :: nat
  shows "x < 32 \<Longrightarrow> (x OR 0xC0) AND 0xFF = 0xC0 + x" "x < 16 \<Longrightarrow> (x OR 0xE0) AND 0xFF = 0xE0 + x" "x < 8 \<Longrightarrow> (x OR 0xF0) AND 0xFF = 0xF0 + x"
proof -
  have m: "y AND 0xFF = y mod 256" for y :: nat using take_bit_eq_mask [of 8 y] by (simp add: mask_eq_exp_minus_1 take_bit_eq_mod)
  show "x < 32 \<Longrightarrow> (x OR 0xC0) AND 0xFF = 0xC0 + x" using or_high_bits [of x 5 6] by (simp add: m push_bit_eq_mult)
  show "x < 16 \<Longrightarrow> (x OR 0xE0) AND 0xFF = 0xE0 + x" using or_high_bits [of x 4 14] by (simp add: m push_bit_eq_mult)
  show "x < 8 \<Longrightarrow> (x OR 0xF0) AND 0xFF = 0xF0 + x" using or_high_bits [of x 3 30] by (simp add: m push_bit_eq_mult)
qed

lemma encode_utf8_correct: "n \<le> 0x10FFFF \<Longrightarrow> encode_utf8 n = Some (utf8 n)"
proof -
  assume n: "n \<le> 0x10FFFF"
  have m: "n AND 0x7F = n mod 128" using take_bit_eq_mask [of 7 n] by (simp add: mask_eq_exp_minus_1 take_bit_eq_mod)
  have d: "n div 64 div 64 = n div 4096" "n div 64 div 64 div 64 = n div 262144" by (simp_all add: div_mult2_eq [symmetric])
  have drop: "drop_bit 6 x = x div 64" for x :: nat by (simp add: drop_bit_eq_div)
  have tails: "utf8_tail (Suc 0) n [] = (n div 64, [char_of (0x80 + n mod 64)])"
    "utf8_tail 2 n [] = (n div 4096, [char_of (0x80 + n div 64 mod 64), char_of (0x80 + n mod 64)])"
    "utf8_tail 3 n [] = (n div 262144, [char_of (0x80 + n div 4096 mod 64), char_of (0x80 + n div 64 mod 64), char_of (0x80 + n mod 64)])"
    by (simp_all only: numeral_2_eq_2 numeral_3_eq_3 utf8_tail.simps drop continuation_byte) (simp_all add: d)
  have "n < 0x800 \<Longrightarrow> n div 64 < 32" "n < 0x10000 \<Longrightarrow> n div 4096 < 16" "n div 262144 < 8" using n by simp_all
  with n show ?thesis
    by (simp add: encode_utf8_def utf8_def m tails lead_byte drop continuation_byte)
qed

section \<open>Strings\<close>

text \<open>The value of a hexadecimal digit, of four of them, and the characters that stand for one after a backslash.\<close>

definition hex_value :: "char \<Rightarrow> nat option" where
  "hex_value = map_of
     [(CHR ''0'', 0), (CHR ''1'', 1), (CHR ''2'', 2), (CHR ''3'', 3), (CHR ''4'', 4), (CHR ''5'', 5), (CHR ''6'', 6), (CHR ''7'', 7), (CHR ''8'', 8), (CHR ''9'', 9),
      (CHR ''a'', 10), (CHR ''b'', 11), (CHR ''c'', 12), (CHR ''d'', 13), (CHR ''e'', 14), (CHR ''f'', 15),
      (CHR ''A'', 10), (CHR ''B'', 11), (CHR ''C'', 12), (CHR ''D'', 13), (CHR ''E'', 14), (CHR ''F'', 15)]"

fun hex4 :: "char \<Rightarrow> char \<Rightarrow> char \<Rightarrow> char \<Rightarrow> nat option" where
  "hex4 a b c d =
     (case (hex_value a, hex_value b, hex_value c, hex_value d) of (Some i, Some j, Some k, Some l) \<Rightarrow> Some (4096 * i + 256 * j + 16 * k + l) | _ \<Rightarrow> None)"

definition escape_of :: "char \<Rightarrow> char option" where
  "escape_of = map_of [(CHR 0x22, CHR 0x22), (CHR 0x5C, CHR 0x5C), (CHR ''/'', CHR ''/''), (CHR ''b'', CHR 0x08), (CHR ''f'', CHR 0x0C), (CHR ''n'', CHR 0x0A), (CHR ''r'', CHR 0x0D), (CHR ''t'', CHR 0x09)]"

lemma escape_of_correct: "simple_escape = escape_of"
  by (rule ext) (simp add: escape_of_def simple_escape_def)

lemma no_hex_digit:
  assumes "c \<notin> set ''0123456789abcdefABCDEF''"
  shows "hex_digit c = None"
proof (rule ccontr)
  assume a: "hex_digit c \<noteq> None"
  let ?n = "of_char c :: nat"
  have "?n \<in> set [48..<58] \<or> ?n \<in> set [65..<71] \<or> ?n \<in> set [97..<103]"
    unfolding set_upt atLeastLessThan_iff using a by (auto simp: hex_digit_def Let_def split: if_splits)
  moreover have "set (map char_of ([48..<58] @ [65..<71] @ [97..<103 :: nat])) = set ''0123456789abcdefABCDEF''"
    by (simp add: upt_rec char_of_def bit_Suc_0_iff insert_commute)
  ultimately have "char_of ?n \<in> set ''0123456789abcdefABCDEF''" by (metis Un_iff image_eqI list.set_map set_append)
  with assms show False by simp
qed

lemma hex_value_correct: "hex_digit = hex_value"
proof
  fix c
  show "hex_digit c = hex_value c"
  proof (cases "c \<in> set ''0123456789abcdefABCDEF''")
    case True
    then consider "c \<in> set ''01234567''" | "c \<in> set ''89abcdef''" | "c \<in> set ''ABCDEF''" by fastforce
    then show ?thesis by cases (auto simp: hex_digit_def hex_value_def)
  next
    case False
    then show ?thesis using no_hex_digit [OF False] by (simp add: hex_value_def)
  qed
qed

text \<open>What stands between the quotes, and the bytes it means.\<close>

inductive json_string :: "string \<Rightarrow> string \<Rightarrow> bool" where
  empty: "json_string [] []"
| plain: "of_char c \<ge> (32 :: nat) \<Longrightarrow> c \<noteq> CHR 0x22 \<Longrightarrow> c \<noteq> CHR 0x5C \<Longrightarrow> json_string t s \<Longrightarrow> json_string (c # t) (c # s)"
| escape: "escape_of e = Some b \<Longrightarrow> json_string t s \<Longrightarrow> json_string (CHR 0x5C # e # t) (b # s)"
| unicode: "hex4 a b c d = Some n \<Longrightarrow> \<not> (0xD800 \<le> n \<and> n \<le> 0xDFFF) \<Longrightarrow> json_string t s \<Longrightarrow>
    json_string (CHR 0x5C # CHR ''u'' # a # b # c # d # t) (utf8 n @ s)"
| surrogates: "hex4 a b c d = Some n \<Longrightarrow> 0xD800 \<le> n \<Longrightarrow> n \<le> 0xDBFF \<Longrightarrow> hex4 e f g h = Some m \<Longrightarrow> 0xDC00 \<le> m \<Longrightarrow> m \<le> 0xDFFF \<Longrightarrow> json_string t s \<Longrightarrow>
    json_string (CHR 0x5C # CHR ''u'' # a # b # c # d # CHR 0x5C # CHR ''u'' # e # f # g # h # t) (utf8 (0x10000 + (n - 0xD800) * 0x400 + (m - 0xDC00)) @ s)"

lemma parse_hex4_correct: "hex4 a b c d = Some n \<Longrightarrow> parse_hex4 a b c d = n"
  by (auto simp: parse_hex4_def push_bit_eq_mult hex_value_correct split: option.splits)

lemma hex4_bound: "hex4 a b c d = Some n \<Longrightarrow> n < 0x10000"
  using parse_hex4_correct parse_hex4_bound by metis

lemma hex_value_plain: "hex_value c = Some n \<Longrightarrow> c \<noteq> CHR 0x5C \<and> c \<noteq> CHR 0x22"
  by (auto simp: hex_value_correct [symmetric] hex_digit_def Let_def split: if_splits)

lemma hex4_plain: "hex4 a b c d = Some n \<Longrightarrow> {a, b, c, d} \<inter> {CHR 0x5C, CHR 0x22} = {}"
  using hex_value_plain [of a] hex_value_plain [of b] hex_value_plain [of c] hex_value_plain [of d] by (auto split: option.splits)

lemma surrogate_bits:
  fixes n m :: nat
  assumes "0xD800 \<le> n" "n \<le> 0xDBFF" "0xDC00 \<le> m" "m \<le> 0xDFFF"
  shows "push_bit 10 (n AND 0x3FF) OR (m AND 0x3FF) = (n - 0xD800) * 0x400 + (m - 0xDC00)"
proof -
  have a: "y AND 0x3FF = y mod 1024" for y :: nat using take_bit_eq_mask [of 10 y] by (simp add: mask_eq_exp_minus_1 take_bit_eq_mod)
  have "(0xD800 + k) mod 1024 = k" "(0xDC00 + k) mod 1024 = k" if "k < 1024" for k :: nat
    using mod_add_left_eq [of 55296 1024 k] mod_add_left_eq [of 56320 1024 k] that by simp_all
  from this(1) [of "n - 0xD800"] this(2) [of "m - 0xDC00"] have mod: "n mod 1024 = n - 0xD800" "m mod 1024 = m - 0xDC00" using assms by simp_all
  show ?thesis using or_high_bits [of "m - 0xDC00" 10 "n - 0xD800"] assms by (simp add: a mod or.commute)
qed

lemma utf16_unicode:
  assumes "hex4 a b c d = Some n" "\<not> (0xD800 \<le> n \<and> n \<le> 0xDFFF)"
  shows "utf16_literal_to_utf8 (CHR 0x5C # CHR ''u'' # a # b # c # d # t) = Some (utf8 n, 6)"
proof -
  have "n < 0xD800 \<or> 0xDFFF < n" using assms(2) by arith
  then show ?thesis using parse_hex4_correct [OF assms(1)] hex4_bound [OF assms(1)] encode_utf8_correct [of n] by (auto simp: Let_def)
qed

lemma utf16_surrogates:
  assumes "hex4 a b c d = Some n" "0xD800 \<le> n" "n \<le> 0xDBFF" "hex4 e f g h = Some m" "0xDC00 \<le> m" "m \<le> 0xDFFF"
  shows "utf16_literal_to_utf8 (CHR 0x5C # CHR ''u'' # a # b # c # d # CHR 0x5C # CHR ''u'' # e # f # g # h # t) =
    Some (utf8 (0x10000 + (n - 0xD800) * 0x400 + (m - 0xDC00)), 12)"
proof -
  let ?cp = "0x10000 + (n - 0xD800) * 0x400 + (m - 0xDC00)"
  have "?cp \<le> 0x10FFFF" using assms by arith
  then have e: "encode_utf8 ?cp = Some (utf8 ?cp)" by (rule encode_utf8_correct)
  have p: "parse_hex4 a b c d = n" "parse_hex4 e f g h = m" using assms parse_hex4_correct by blast+
  have "utf16_literal_to_utf8 (CHR 0x5C # CHR ''u'' # a # b # c # d # CHR 0x5C # CHR ''u'' # e # f # g # h # t) =
      map_option (\<lambda>out. (out, 12)) (encode_utf8 (0x10000 + (push_bit 10 (n AND 0x3FF) OR (m AND 0x3FF))))"
    using assms(2,3,5,6) p by (simp add: Let_def)
  also have "0x10000 + (push_bit 10 (n AND 0x3FF) OR (m AND 0x3FF)) = ?cp" unfolding surrogate_bits [OF assms(2,3,5,6)] by (simp only: add.assoc)
  finally show ?thesis unfolding e by simp
qed

lemma unescape_correct: "json_string t s \<Longrightarrow> unescape t = (True, s, length t)"
proof (induction rule: json_string.induct)
  case (unicode a b c d n t s)
  then show ?case using utf16_unicode [OF unicode(1,2), of t] by (simp del: utf16_literal_to_utf8.simps)
next
  case (surrogates a b c d n e f g h m t s)
  then show ?case using utf16_surrogates [OF surrogates(1-6), of t] by (simp del: utf16_literal_to_utf8.simps)
next
  case (escape e b t s)
  then have "e \<noteq> CHR ''u''" by (auto simp: escape_of_def)
  with escape show ?case by (simp add: escape_of_correct)
qed simp_all

lemma string_end_correct: "json_string t s \<Longrightarrow> \<exists>k. string_end (t @ CHR 0x22 # rest) = Some (length t, k)"
proof (induction rule: json_string.induct)
  case (unicode a b c d n t s)
  then show ?case using hex4_plain [OF unicode(1)] by auto
next
  case (surrogates a b c d n e f g h m t s)
  then show ?case using hex4_plain [OF surrogates(1)] hex4_plain [OF surrogates(4)] by auto
qed auto

section \<open>Texts and values\<close>

datatype 'd json = JNull | JBool bool | JNumber 'd | JString string | JArray "'d json list" | JObject "(string \<times> 'd json) list"

definition json_ws :: "string \<Rightarrow> bool" where "json_ws w \<longleftrightarrow> set w \<subseteq> {CHR 0x20, CHR 0x09, CHR 0x0A, CHR 0x0D}"

text \<open>A number: a sign, digits without a leading zero, a fraction and an exponent.\<close>

definition digits :: "string \<Rightarrow> bool" where "digits s \<longleftrightarrow> s \<noteq> [] \<and> set s \<subseteq> set ''0123456789''"

definition number_text :: "string \<Rightarrow> bool" where
  "number_text t \<longleftrightarrow> (\<exists>m i f e. t = m @ i @ f @ e \<and> (m = [] \<or> m = ''-'') \<and> (i = ''0'' \<or> digits i \<and> hd i \<noteq> CHR ''0'') \<and>
     (f = [] \<or> (\<exists>d. f = CHR ''.'' # d \<and> digits d)) \<and>
     (e = [] \<or> (\<exists>x s d. e = x # s @ d \<and> (x = CHR ''e'' \<or> x = CHR ''E'') \<and> (s = [] \<or> s = ''+'' \<or> s = ''-'') \<and> digits d)))"

definition json_number :: "'d floats \<Rightarrow> string \<Rightarrow> 'd \<Rightarrow> bool" where
  "json_number F t d \<longleftrightarrow> number_text t \<and> strtod F t = (d, length t)"

lemma number_text_chars:
  assumes "number_text t"
  shows "t \<noteq> [] \<and> (hd t = CHR ''-'' \<or> hd t \<in> set ''0123456789'') \<and> list_all number_char t"
proof -
  obtain m i f e where t: "t = m @ i @ f @ e" "m = [] \<or> m = ''-''" and i: "i = ''0'' \<or> digits i \<and> hd i \<noteq> CHR ''0''"
    and f: "f = [] \<or> (\<exists>d. f = CHR ''.'' # d \<and> digits d)"
    and e: "e = [] \<or> (\<exists>x s d. e = x # s @ d \<and> (x = CHR ''e'' \<or> x = CHR ''E'') \<and> (s = [] \<or> s = ''+'' \<or> s = ''-'') \<and> digits d)"
    using assms unfolding number_text_def by blast
  have n: "set ''0123456789'' \<subseteq> Collect number_char" by (simp add: number_char_def)
  have d: "list_all number_char s" if "digits s" for s using that n unfolding digits_def list_all_iff by blast
  have h: "s \<noteq> [] \<and> hd s \<in> set ''0123456789''" if "digits s" for s using that hd_in_set unfolding digits_def by blast
  have ci: "i \<noteq> [] \<and> hd i \<in> set ''0123456789'' \<and> list_all number_char i" using i
  proof
    assume "i = ''0''"
    then show ?thesis by (simp add: number_char_def)
  qed (use d h in blast)
  have cf: "list_all number_char f" using f d by (auto simp: number_char_def)
  have ce: "list_all number_char e" using e d by (auto simp: number_char_def)
  show ?thesis using t ci cf ce by (auto simp: number_char_def)
qed

text \<open>Values whose numbers have at most \<open>L\<close> characters.\<close>

inductive json_value :: "nat \<Rightarrow> 'd floats \<Rightarrow> string \<Rightarrow> 'd json \<Rightarrow> bool"
  and json_elements :: "nat \<Rightarrow> 'd floats \<Rightarrow> string \<Rightarrow> 'd json list \<Rightarrow> bool"
  and json_members :: "nat \<Rightarrow> 'd floats \<Rightarrow> string \<Rightarrow> (string \<times> 'd json) list \<Rightarrow> bool" for L F where
  null: "json_value L F ''null'' JNull"
| bool: "json_value L F (if x then ''true'' else ''false'') (JBool x)"
| number: "json_number F t d \<Longrightarrow> length t \<le> L \<Longrightarrow> json_value L F t (JNumber d)"
| str: "json_string t s \<Longrightarrow> json_value L F (CHR 0x22 # t @ [CHR 0x22]) (JString s)"
| array_empty: "json_ws w \<Longrightarrow> json_value L F (CHR ''['' # w @ [CHR '']'']) (JArray [])"
| array: "json_ws w \<Longrightarrow> json_elements L F t vs \<Longrightarrow> json_value L F (CHR ''['' # w @ t @ [CHR '']'']) (JArray vs)"
| object_empty: "json_ws w \<Longrightarrow> json_value L F (CHR ''{'' # w @ [CHR ''}'']) (JObject [])"
| object: "json_ws w \<Longrightarrow> json_members L F t ms \<Longrightarrow> json_value L F (CHR ''{'' # w @ t @ [CHR ''}'']) (JObject ms)"
| element: "json_value L F t v \<Longrightarrow> json_ws w \<Longrightarrow> json_elements L F (t @ w) [v]"
| elements: "json_value L F t v \<Longrightarrow> json_ws w \<Longrightarrow> json_ws w' \<Longrightarrow> json_elements L F t' vs \<Longrightarrow> json_elements L F (t @ w @ CHR '','' # w' @ t') (v # vs)"
| member: "json_string s k \<Longrightarrow> json_ws w1 \<Longrightarrow> json_ws w2 \<Longrightarrow> json_value L F t v \<Longrightarrow> json_ws w \<Longrightarrow>
    json_members L F ((CHR 0x22 # s @ CHR 0x22 # w1 @ CHR '':'' # w2 @ t) @ w) [(k, v)]"
| members: "json_string s k \<Longrightarrow> json_ws w1 \<Longrightarrow> json_ws w2 \<Longrightarrow> json_value L F t v \<Longrightarrow> json_ws w \<Longrightarrow> json_ws w' \<Longrightarrow> json_members L F t' ms \<Longrightarrow>
    json_members L F ((CHR 0x22 # s @ CHR 0x22 # w1 @ CHR '':'' # w2 @ t) @ w @ CHR '','' # w' @ t') ((k, v) # ms)"

text \<open>The tree of a value, and how deep its arrays and objects are nested.\<close>

definition int_of :: "'d floats \<Rightarrow> 'd \<Rightarrow> int" where
  "int_of F d = (if ge_INT_MAX F d then 2147483647 else if le_INT_MIN F d then - 2147483648 else to_int F d)"

fun tree_of :: "'d floats \<Rightarrow> string option \<Rightarrow> 'd json \<Rightarrow> 'd cJSON" where
  "tree_of F nm JNull = CJSON cJSON_NULL None 0 None nm []"
| "tree_of F nm (JBool x) = (if x then CJSON cJSON_True None 1 None nm [] else CJSON cJSON_False None 0 None nm [])"
| "tree_of F nm (JNumber d) = CJSON cJSON_Number None (int_of F d) (Some d) nm []"
| "tree_of F nm (JString s) = CJSON cJSON_String (Some (c_string s)) 0 None nm []"
| "tree_of F nm (JArray vs) = CJSON cJSON_Array None 0 None nm (map (tree_of F None) vs)"
| "tree_of F nm (JObject ms) = CJSON cJSON_Object None 0 None nm (map (\<lambda>(k, v). tree_of F (Some (c_string k)) v) ms)"

fun nesting :: "'d json \<Rightarrow> nat" where
  "nesting (JArray vs) = 1 + Max (insert 0 (set (map nesting vs)))"
| "nesting (JObject ms) = 1 + Max (insert 0 (set (map (\<lambda>(k, v). nesting v) ms)))"
| "nesting _ = 0"

section \<open>Reading along a text\<close>

definition at :: "parse_buffer \<Rightarrow> string \<Rightarrow> bool" where "at b s \<longleftrightarrow> drop (offset b) (content b) = s"

definition memory :: "parse_buffer \<Rightarrow> bool" where "memory b \<longleftrightarrow> (\<forall>n. outcomes (pb_heap b) n)"

lemma at_updates [simp]:
  "at (b\<lparr>pb_heap := h\<rparr>) s = at b s" "at (b\<lparr>depth := d\<rparr>) s = at b s" "at (b\<lparr>offset := n, pb_heap := h\<rparr>) s = at (b\<lparr>offset := n\<rparr>) s"
  "at (b\<lparr>depth := d, offset := n\<rparr>) s = at (b\<lparr>offset := n\<rparr>) s" "at (b\<lparr>offset := offset b\<rparr>) s = at b s"
  by (simp_all add: at_def)

lemma memory_updates [simp]:
  "memory (b\<lparr>offset := n\<rparr>) = memory b" "memory (b\<lparr>depth := d\<rparr>) = memory b" "memory (b\<lparr>out_of_memory := x\<rparr>) = memory b"
  by (simp_all add: memory_def)

lemma buffer_updates [simp]: "b\<lparr>pb_heap := h, offset := n\<rparr> = b\<lparr>offset := n, pb_heap := h\<rparr>" for b :: parse_buffer
  by simp

lemma at_move:
  assumes "at b (t @ s)" "n = offset b + length t"
  shows "at (b\<lparr>offset := n\<rparr>) s"
proof -
  have "drop (length t) (drop (offset b) (content b)) = s" using assms(1) by (simp add: at_def)
  then show ?thesis using assms(2) by (simp add: at_def add.commute)
qed

lemma at_Cons:
  assumes "at b (c # s)"
  shows "at_index b 0 = Some c" "offset b < length (content b)" "at (b\<lparr>offset := Suc (offset b)\<rparr>) s"
proof -
  show lt: "offset b < length (content b)" using assms unfolding at_def by (metis drop_eq_Nil leI list.distinct(1))
  show "at_index b 0 = Some c" using assms lt by (simp add: at_index_Some at_def nth_via_drop)
  show "at (b\<lparr>offset := Suc (offset b)\<rparr>) s" using at_move [of b "[c]" s] assms by simp
qed

lemma at_Nil: "at b [] \<Longrightarrow> at_index b 0 = None"
  by (simp add: at_def at_index_None)

lemma starts_with_at:
  assumes "at b s" "w \<noteq> []"
  shows "starts_with b w \<longleftrightarrow> take (length w) s = w"
proof
  assume t: "take (length w) s = w"
  have "min (length w) (length (content b) - offset b) = length w" using arg_cong [OF t, of length] assms(1) by (auto simp: at_def)
  moreover have "length w > 0" using assms(2) by simp
  ultimately have "offset b + length w \<le> length (content b)" by arith
  then show "starts_with b w" using t assms(1) by (simp add: starts_with_def at_def)
qed (use assms in \<open>simp add: starts_with_def at_def\<close>)

text \<open>White space up to a character that is none.\<close>

lemma skip_whitespace_at:
  assumes "at b (w @ c # s)" "json_ws w" "of_char c > (32 :: nat)"
  shows "buffer_skip_whitespace b = b\<lparr>offset := offset b + length w\<rparr>"
proof -
  let ?ws = "\<lambda>c :: char. of_char c \<le> (32 :: nat)"
  have d: "drop (offset b) (content b) = w @ c # s" using assms(1) by (simp add: at_def)
  have "\<forall>x\<in>set w. ?ws x" using assms(2) by (auto simp: json_ws_def)
  then have k: "takeWhile ?ws (drop (offset b) (content b)) = w" using assms(3) d by (simp add: takeWhile_append2)
  have "length (content b) - offset b = length w + Suc (length s)" using arg_cong [OF d, of length] by simp
  then have "offset b + length w < length (content b)" by arith
  then show ?thesis using k by (auto simp: buffer_skip_whitespace_def at_index_None)
qed

text \<open>What may come after a value: nothing that would continue a number.\<close>

definition follow :: "string \<Rightarrow> bool" where "follow s \<longleftrightarrow> (case s of [] \<Rightarrow> True | c # _ \<Rightarrow> \<not> number_char c)"

lemma follow_ws: "json_ws w \<Longrightarrow> \<not> number_char c \<Longrightarrow> follow (w @ c # s)"
  by (cases w) (auto simp: follow_def json_ws_def number_char_def)

section \<open>The parser reads the texts of the grammar\<close>

definition value_reads :: "'d floats \<Rightarrow> nat \<Rightarrow> ('d cJSON \<Rightarrow> parse_buffer \<Rightarrow> (bool \<times> 'd cJSON \<times> parse_buffer) option) \<Rightarrow> string \<Rightarrow> 'd json \<Rightarrow> bool" where
  "value_reads F n parse t v \<longleftrightarrow> (\<forall>item b rest. blank item \<longrightarrow> at b (t @ rest) \<longrightarrow> follow rest \<longrightarrow> memory b \<longrightarrow> depth b + n \<le> CJSON_NESTING_LIMIT \<longrightarrow>
     (\<exists>h. outcomes h = outcomes (pb_heap b) \<and> parse item b = Some (True, tree_of F (item_name item) v, b\<lparr>offset := offset b + length t, pb_heap := h\<rparr>)))"

definition step_reads :: "nat \<Rightarrow> ('d cJSON \<Rightarrow> parse_buffer \<Rightarrow> (bool \<times> 'd cJSON \<times> parse_buffer) option) \<Rightarrow> string \<Rightarrow> 'd cJSON \<Rightarrow> bool" where
  "step_reads n step t x \<longleftrightarrow> (\<forall>b c w rest. at b (c # w @ t @ rest) \<longrightarrow> json_ws w \<longrightarrow> follow rest \<longrightarrow> memory b \<longrightarrow> depth b + n \<le> CJSON_NESTING_LIMIT \<longrightarrow>
     (\<exists>h. outcomes h = outcomes (pb_heap b) \<and> step new_cJSON b = Some (True, x, b\<lparr>offset := offset b + 1 + length w + length t, pb_heap := h\<rparr>)))"

definition items_read_as :: "nat \<Rightarrow> ('d cJSON \<Rightarrow> parse_buffer \<Rightarrow> (bool \<times> 'd cJSON \<times> parse_buffer) option) \<Rightarrow> allocator \<Rightarrow> string \<Rightarrow> 'd cJSON list \<Rightarrow> bool" where
  "items_read_as n step a t xs \<longleftrightarrow> (\<forall>items b c w close rest fuel. at b (c # w @ t @ close # rest) \<longrightarrow> json_ws w \<longrightarrow> close \<in> {CHR '']'', CHR ''}''} \<longrightarrow> length t < fuel \<longrightarrow>
     memory b \<longrightarrow> depth b + n \<le> CJSON_NESTING_LIMIT \<longrightarrow>
     (\<exists>h. outcomes h = outcomes (pb_heap b) \<and> parse_items step a fuel items b = Some (True, items @ xs, b\<lparr>offset := offset b + 1 + length w + length t, pb_heap := h\<rparr>)))"

lemma parse_string_reads:
  assumes s: "json_string t s" and b: "at b (CHR 0x22 # t @ CHR 0x22 # rest)" "memory b" and item: "blank item"
  shows "\<exists>h. outcomes h = outcomes (pb_heap b) \<and>
    parse_string a item b = Some (True, CJSON cJSON_String (Some (c_string s)) 0 None (item_name item) [], b\<lparr>offset := offset b + length t + 2, pb_heap := h\<rparr>)"
proof -
  obtain t0 nm where i: "item = CJSON t0 None 0 None nm []" using item by (auto simp: blank_def)
  have start: "drop (Suc (offset b)) (content b) = t @ CHR 0x22 # rest" using at_Cons(3) [OF b(1)] by (simp add: at_def)
  obtain k where e: "string_end (t @ CHR 0x22 # rest) = Some (length t, k)" using string_end_correct [OF s] by blast
  have room: "length s < Suc (length t + 1 - k)"
    using unescape_tokens [OF unescape_correct [OF s]] string_end_tokens [OF e] by simp
  have "succeeds (pb_heap b)" using b(2) by (simp add: memory_def succeeds_def)
  then have "parse_string a item b = Some (True, CJSON cJSON_String (Some (c_string s)) 0 None nm [], b\<lparr>offset := offset b + length t + 2, pb_heap := add_live 1 (tick (pb_heap b))\<rparr>)"
    using at_Cons(1) [OF b(1)] start e unescape_correct [OF s] room by (simp add: parse_string_def loader_calloc_def i)
  then show ?thesis by (intro exI [of _ "add_live 1 (tick (pb_heap b))"]) (simp add: i add_live_def tick_def)
qed

lemma value_first: "json_value L F t v \<Longrightarrow> \<exists>c r. t = c # r \<and> of_char c > (32 :: nat) \<and> c \<noteq> CHR '']'' \<and> c \<noteq> CHR 0xEF"
proof (induction rule: json_value.cases)
  case (number t d)
  then show ?case using number_text_chars [of t] by (cases t) (auto simp: json_number_def)
qed auto

lemma element_reads:
  assumes v: "value_reads F n parse t v" and t: "json_value L F t v"
  shows "step_reads n (parse_element parse) t (tree_of F None v)"
  unfolding step_reads_def
proof (intro allI impI)
  fix b c w rest
  assume b: "at b (c # w @ t @ rest)" "json_ws w" "follow rest" "memory b" "depth b + n \<le> CJSON_NESTING_LIMIT"
  obtain c' r where t': "t = c' # r" "of_char c' > (32 :: nat)" using value_first [OF t] by blast
  let ?b = "b\<lparr>offset := offset b + 1\<rparr>"
  have "buffer_skip_whitespace ?b = ?b\<lparr>offset := offset ?b + length w\<rparr>"
    by (rule skip_whitespace_at [of _ _ c' "r @ rest"]) (use at_Cons(3) [OF b(1)] b(2) t' in simp_all)
  then have skip: "buffer_skip_whitespace ?b = b\<lparr>offset := offset b + 1 + length w\<rparr>" by simp
  have "at (b\<lparr>offset := offset b + 1 + length w\<rparr>) (t @ rest)" by (rule at_move [of _ "c # w"]) (use b(1) in simp_all)
  then obtain h where "outcomes h = outcomes (pb_heap b)"
    "parse new_cJSON (b\<lparr>offset := offset b + 1 + length w\<rparr>) = Some (True, tree_of F None v, b\<lparr>offset := offset b + 1 + length w + length t, pb_heap := h\<rparr>)"
    using v blank_new b(3-5) unfolding value_reads_def by (fastforce simp: new_cJSON_def)
  then show "\<exists>h. outcomes h = outcomes (pb_heap b) \<and> parse_element parse new_cJSON b = Some (True, tree_of F None v, b\<lparr>offset := offset b + 1 + length w + length t, pb_heap := h\<rparr>)"
    using skip by (auto simp: parse_element_def)
qed

lemma value_readsE:
  assumes "value_reads F n parse t v" "blank item" "at b (t @ rest)" "follow rest" "memory b" "depth b + n \<le> CJSON_NESTING_LIMIT"
  obtains h where "outcomes h = outcomes (pb_heap b)" "parse item b = Some (True, tree_of F (item_name item) v, b\<lparr>offset := offset b + length t, pb_heap := h\<rparr>)"
  using assms unfolding value_reads_def by blast

lemma step_readsE:
  assumes "step_reads n step t x" "at b (c # w @ t @ rest)" "json_ws w" "follow rest" "memory b" "depth b + n \<le> CJSON_NESTING_LIMIT"
  obtains h where "outcomes h = outcomes (pb_heap b)" "step new_cJSON b = Some (True, x, b\<lparr>offset := offset b + 1 + length w + length t, pb_heap := h\<rparr>)"
  using assms unfolding step_reads_def by blast

lemma member_reads:
  fixes parse :: "'d cJSON \<Rightarrow> parse_buffer \<Rightarrow> (bool \<times> 'd cJSON \<times> parse_buffer) option"
  assumes v: "value_reads F n parse t v" and t: "json_value L F t v" and s: "json_string s k" and ws: "json_ws w1" "json_ws w2"
  shows "step_reads n (parse_member parse a) (CHR 0x22 # s @ CHR 0x22 # w1 @ CHR '':'' # w2 @ t) (tree_of F (Some (c_string k)) v)"
  unfolding step_reads_def
proof (intro allI impI)
  fix b c w rest
  let ?t = "CHR 0x22 # s @ CHR 0x22 # w1 @ CHR '':'' # w2 @ t"
  assume b: "at b (c # w @ ?t @ rest)" "json_ws w" "follow rest" "memory b" "depth b + n \<le> CJSON_NESTING_LIMIT"
  obtain c' r where t': "t = c' # r" "of_char c' > (32 :: nat)" using value_first [OF t] by blast
  let ?n = "offset b + 1 + length w" and ?it = "CJSON cJSON_String None 0 None (Some (c_string k)) [] :: 'd cJSON"
  let ?m = "?n + length s + 2"
  let ?l = "?m + length w1 + 1"
  have "at_index (b\<lparr>offset := Suc (offset b)\<rparr>) 0 \<noteq> None"
    using at_Cons(3) [OF b(1)] at_Cons(1) [of "b\<lparr>offset := Suc (offset b)\<rparr>"] by (cases w) auto
  then have more: "at_index b 1 \<noteq> None" by (simp add: at_index_None)
  have at0: "at (b\<lparr>offset := ?n\<rparr>) (?t @ rest)" by (rule at_move [of _ "c # w"]) (use b(1) in simp_all)
  have at1: "at (b\<lparr>offset := ?m\<rparr>) (w1 @ CHR '':'' # w2 @ t @ rest)" by (rule at_move [of _ "c # w @ CHR 0x22 # s @ [CHR 0x22]"]) (use b(1) in simp_all)
  have at2: "at (b\<lparr>offset := ?m + length w1\<rparr>) (CHR '':'' # w2 @ t @ rest)"
    by (rule at_move [of _ "c # w @ CHR 0x22 # s @ CHR 0x22 # w1"]) (use b(1) in simp_all)
  have at3: "at (b\<lparr>offset := ?l\<rparr>) (w2 @ c' # r @ rest)"
    by (rule at_move [of _ "c # w @ CHR 0x22 # s @ CHR 0x22 # w1 @ [CHR '':'']"]) (use b(1) t' in simp_all)
  have at4: "at (b\<lparr>offset := ?l + length w2\<rparr>) (t @ rest)"
    by (rule at_move [of _ "c # w @ CHR 0x22 # s @ CHR 0x22 # w1 @ CHR '':'' # w2"]) (use b(1) in simp_all)
  have skip0: "buffer_skip_whitespace (b\<lparr>offset := offset b + 1\<rparr>) = b\<lparr>offset := ?n\<rparr>"
    using skip_whitespace_at [of "b\<lparr>offset := offset b + 1\<rparr>" w "CHR 0x22"] at_Cons(3) [OF b(1)] b(2) by simp
  obtain h1 where h1: "outcomes h1 = outcomes (pb_heap b)" and p1: "parse_string a new_cJSON (b\<lparr>offset := ?n\<rparr>) =
      Some (True, CJSON cJSON_String (Some (c_string k)) 0 None None [] :: 'd cJSON, b\<lparr>offset := ?m, pb_heap := h1\<rparr>)"
    using parse_string_reads [OF s _ _ blank_new, of "b\<lparr>offset := ?n\<rparr>" "w1 @ CHR '':'' # w2 @ t @ rest" a] at0 b(4) by (auto simp: new_cJSON_def)
  have skip1: "buffer_skip_whitespace (b\<lparr>offset := ?m, pb_heap := h1\<rparr>) = b\<lparr>offset := ?m + length w1, pb_heap := h1\<rparr>"
    using skip_whitespace_at [of "b\<lparr>offset := ?m, pb_heap := h1\<rparr>" w1 "CHR '':''"] at1 ws(1) by simp
  have colon: "at_index (b\<lparr>offset := ?m + length w1, pb_heap := h1\<rparr>) 0 = Some (CHR '':'')"
    by (rule at_Cons(1)) (use at2 in simp)
  have skip2: "buffer_skip_whitespace (b\<lparr>offset := ?l, pb_heap := h1\<rparr>) = b\<lparr>offset := ?l + length w2, pb_heap := h1\<rparr>"
    using skip_whitespace_at [of "b\<lparr>offset := ?l, pb_heap := h1\<rparr>" w2 c'] at3 ws(2) t'(2) by simp
  obtain h2 where h2: "outcomes h2 = outcomes h1" and p2: "parse ?it (b\<lparr>offset := ?l + length w2, pb_heap := h1\<rparr>) =
      Some (True, tree_of F (Some (c_string k)) v, b\<lparr>offset := ?l + length w2 + length t, pb_heap := h2\<rparr>)"
    by (rule value_readsE [OF v, of ?it "b\<lparr>offset := ?l + length w2, pb_heap := h1\<rparr>" rest])
      (use at4 b h1 in \<open>simp_all add: blank_def memory_def\<close>)
  have "parse_member parse a new_cJSON b = Some (True, tree_of F (Some (c_string k)) v, b\<lparr>offset := ?n + length ?t, pb_heap := h2\<rparr>)"
    unfolding parse_member_def using more skip0 p1 skip1 colon skip2 p2 by (simp add: algebra_simps)
  then show "\<exists>h. outcomes h = outcomes (pb_heap b) \<and>
      parse_member parse a new_cJSON b = Some (True, tree_of F (Some (c_string k)) v, b\<lparr>offset := ?n + length ?t, pb_heap := h\<rparr>)"
    using h1 h2 by auto
qed

lemma items_one:
  fixes step :: "'d cJSON \<Rightarrow> parse_buffer \<Rightarrow> (bool \<times> 'd cJSON \<times> parse_buffer) option"
  assumes x: "step_reads n step t x" and w': "json_ws w'"
  shows "items_read_as n step a (t @ w') [x]"
  unfolding items_read_as_def
proof (intro allI impI)
  fix items b c w close rest fuel
  assume b: "at b (c # w @ (t @ w') @ close # rest)" "json_ws w" and close: "close \<in> {CHR '']'', CHR ''}''}" and fuel: "length (t @ w') < fuel"
    and m: "memory b" "depth b + n \<le> CJSON_NESTING_LIMIT"
  let ?h0 = "add_live 1 (tick (pb_heap b))" and ?k = "offset b + 1 + length w + length t"
  have new: "cJSON_New_Item a (pb_heap b) = (Some (new_cJSON :: 'd cJSON), ?h0)" using m(1) by (simp add: cJSON_New_Item_def new_cJSON_def memory_def succeeds_def)
  have out0: "outcomes ?h0 = outcomes (pb_heap b)" by (simp add: add_live_def tick_def)
  obtain h where h: "outcomes h = outcomes ?h0" and st: "step new_cJSON (b\<lparr>pb_heap := ?h0\<rparr>) = Some (True, x, b\<lparr>offset := ?k, pb_heap := h\<rparr>)"
    by (rule step_readsE [OF x, of "b\<lparr>pb_heap := ?h0\<rparr>" c w "w' @ close # rest"])
      (use b m close out0 w' follow_ws [of w' close] in \<open>auto simp: memory_def number_char_def\<close>)
  have "at (b\<lparr>offset := ?k\<rparr>) (w' @ close # rest)" by (rule at_move [of _ "c # w @ t"]) (use b(1) in simp_all)
  then have skip: "buffer_skip_whitespace (b\<lparr>offset := ?k, pb_heap := h\<rparr>) = b\<lparr>offset := ?k + length w', pb_heap := h\<rparr>"
    using skip_whitespace_at [of "b\<lparr>offset := ?k, pb_heap := h\<rparr>" w' close] w' close by auto
  have "at (b\<lparr>offset := ?k + length w'\<rparr>) (close # rest)" by (rule at_move [of _ "c # w @ t @ w'"]) (use b(1) in simp_all)
  then have "at_index (b\<lparr>offset := ?k + length w', pb_heap := h\<rparr>) 0 = Some close" using at_Cons(1) [of "b\<lparr>offset := ?k + length w', pb_heap := h\<rparr>"] by simp
  moreover obtain f where "fuel = Suc f" using fuel by (cases fuel) auto
  ultimately have "parse_items step a fuel items b = Some (True, items @ [x], b\<lparr>offset := ?k + length w', pb_heap := h\<rparr>)"
    using new st skip close by auto
  then show "\<exists>h. outcomes h = outcomes (pb_heap b) \<and>
      parse_items step a fuel items b = Some (True, items @ [x], b\<lparr>offset := offset b + 1 + length w + length (t @ w'), pb_heap := h\<rparr>)"
    using h out0 by (auto simp: algebra_simps)
qed

lemma items_readE:
  assumes "items_read_as n step a t xs" "at b (c # w @ t @ close # rest)" "json_ws w" "close \<in> {CHR '']'', CHR ''}''}" "length t < fuel" "memory b" "depth b + n \<le> CJSON_NESTING_LIMIT"
  obtains h where "outcomes h = outcomes (pb_heap b)" "parse_items step a fuel items b = Some (True, items @ xs, b\<lparr>offset := offset b + 1 + length w + length t, pb_heap := h\<rparr>)"
  using assms unfolding items_read_as_def by blast

lemma items_more:
  fixes step :: "'d cJSON \<Rightarrow> parse_buffer \<Rightarrow> (bool \<times> 'd cJSON \<times> parse_buffer) option"
  assumes x: "step_reads n step t x" and w': "json_ws w'" "json_ws w''" and xs: "items_read_as n step a t' xs"
  shows "items_read_as n step a (t @ w' @ CHR '','' # w'' @ t') (x # xs)"
  unfolding items_read_as_def
proof (intro allI impI)
  fix items b c w close rest fuel
  let ?t = "t @ w' @ CHR '','' # w'' @ t'"
  assume b: "at b (c # w @ ?t @ close # rest)" "json_ws w" and close: "close \<in> {CHR '']'', CHR ''}''}" and fuel: "length ?t < fuel"
    and m: "memory b" "depth b + n \<le> CJSON_NESTING_LIMIT"
  let ?h0 = "add_live 1 (tick (pb_heap b))" and ?k = "offset b + 1 + length w + length t"
  let ?r = "CHR '','' # w'' @ t' @ close # rest"
  have new: "cJSON_New_Item a (pb_heap b) = (Some (new_cJSON :: 'd cJSON), ?h0)" using m(1) by (simp add: cJSON_New_Item_def new_cJSON_def memory_def succeeds_def)
  have out0: "outcomes ?h0 = outcomes (pb_heap b)" by (simp add: add_live_def tick_def)
  obtain h where h: "outcomes h = outcomes ?h0" and st: "step new_cJSON (b\<lparr>pb_heap := ?h0\<rparr>) = Some (True, x, b\<lparr>offset := ?k, pb_heap := h\<rparr>)"
    by (rule step_readsE [OF x, of "b\<lparr>pb_heap := ?h0\<rparr>" c w "w' @ ?r"])
      (use b m out0 w' follow_ws [of w' "CHR '',''" "w'' @ t' @ close # rest"] in \<open>auto simp: memory_def number_char_def\<close>)
  have "at (b\<lparr>offset := ?k\<rparr>) (w' @ ?r)" by (rule at_move [of _ "c # w @ t"]) (use b(1) in simp_all)
  then have skip: "buffer_skip_whitespace (b\<lparr>offset := ?k, pb_heap := h\<rparr>) = b\<lparr>offset := ?k + length w', pb_heap := h\<rparr>"
    using skip_whitespace_at [of "b\<lparr>offset := ?k, pb_heap := h\<rparr>" w' "CHR '',''"] w' by auto
  let ?b = "b\<lparr>offset := ?k + length w', pb_heap := h\<rparr>"
  have at: "at ?b ?r" using at_move [of b "c # w @ t @ w'" ?r] b(1) by (simp add: add.assoc)
  obtain f where f: "fuel = Suc f" "length t' < f" using fuel by (cases fuel) auto
  obtain h' where h': "outcomes h' = outcomes h"
    and rest: "parse_items step a f (items @ [x]) ?b = Some (True, (items @ [x]) @ xs, b\<lparr>offset := ?k + length w' + 1 + length w'' + length t', pb_heap := h'\<rparr>)"
    by (rule items_readE [OF xs at w'(2) close f(2), of "items @ [x]"]) (use m h out0 in \<open>simp_all add: memory_def\<close>)
  have "parse_items step a fuel items b = Some (True, items @ x # xs, b\<lparr>offset := ?k + length w' + 1 + length w'' + length t', pb_heap := h'\<rparr>)"
    using f(1) new st skip at_Cons(1) [OF at] rest by simp
  then show "\<exists>h. outcomes h = outcomes (pb_heap b) \<and>
      parse_items step a fuel items b = Some (True, items @ x # xs, b\<lparr>offset := offset b + 1 + length w + length ?t, pb_heap := h\<rparr>)"
    using h h' out0 by (auto simp: algebra_simps)
qed

lemma items_mono: "items_read_as n step a t xs \<Longrightarrow> n \<le> m \<Longrightarrow> items_read_as m step a t xs"
  unfolding items_read_as_def by (meson add_left_mono order_trans)

lemma step_mono: "step_reads n step t x \<Longrightarrow> n \<le> m \<Longrightarrow> step_reads m step t x"
  unfolding step_reads_def by (meson add_left_mono order_trans)

text \<open>The part of arrays and objects after the opening bracket.\<close>

lemma children_reads:
  fixes step :: "'d cJSON \<Rightarrow> parse_buffer \<Rightarrow> (bool \<times> 'd cJSON \<times> parse_buffer) option"
  assumes t: "t = [] \<and> xs = [] \<or> items_read_as n step a t xs \<and> (\<exists>c r. t = c # r \<and> of_char c > (32 :: nat) \<and> c \<noteq> close)"
    and item: "blank item" and close: "close \<in> {CHR '']'', CHR ''}''}" and w: "json_ws w" and fuel: "length t < fuel"
    and b: "at b (opener # w @ t @ close # rest)" "memory b" "depth b + 1 + n \<le> CJSON_NESTING_LIMIT"
  shows "\<exists>h. outcomes h = outcomes (pb_heap b) \<and> (let b = buffer_skip_whitespace (b\<lparr>depth := depth b + 1, offset := offset b + 1\<rparr>) in
           if at_index b 0 = Some close then set_children ty [] item b
           else if at_index b 0 = None then fail_children a [] item (b\<lparr>offset := offset b - 1\<rparr>)
           else do {
             (ok, items, b) \<leftarrow> parse_items step a fuel [] (b\<lparr>offset := offset b - 1\<rparr>);
             (if ok \<and> at_index b 0 = Some close then set_children ty items item b else fail_children a items item b)
           }) = Some (True, CJSON ty None 0 None (item_name item) xs, b\<lparr>offset := offset b + 2 + length w + length t, pb_heap := h\<rparr>)"
proof -
  obtain t0 nm where i: "item = CJSON t0 None 0 None nm []" using item by (auto simp: blank_def)
  let ?b1 = "b\<lparr>depth := depth b + 1, offset := offset b + 1\<rparr>" and ?n = "offset b + 1 + length w"
  obtain c' r where hd: "t @ close # rest = c' # r" "of_char c' > (32 :: nat)" using t close by auto
  have "at ?b1 (w @ c' # r)" using at_Cons(3) [OF b(1)] hd(1) by simp
  then have skip: "buffer_skip_whitespace ?b1 = b\<lparr>depth := depth b + 1, offset := ?n\<rparr>" using skip_whitespace_at [OF _ w hd(2)] by simp
  have at: "at (b\<lparr>depth := depth b + 1, offset := ?n\<rparr>) (t @ close # rest)" using at_move [of b "opener # w"] b(1) by simp
  from t show ?thesis
  proof
    assume e: "t = [] \<and> xs = []"
    then have "at_index (b\<lparr>depth := depth b + 1, offset := ?n\<rparr>) 0 = Some close" using at at_Cons(1) by simp
    with skip e show ?thesis by (intro exI [of _ "pb_heap b"]) (simp add: set_children_def i)
  next
    assume ne: "items_read_as n step a t xs \<and> (\<exists>c r. t = c # r \<and> of_char c > (32 :: nat) \<and> c \<noteq> close)"
    then have c': "c' \<noteq> close" using hd(1) by auto
    have first: "at_index (b\<lparr>depth := depth b + 1, offset := ?n\<rparr>) 0 = Some c'" by (rule at_Cons(1)) (use at hd(1) in simp)
    let ?b2 = "b\<lparr>depth := depth b + 1, offset := ?n - 1\<rparr>"
    obtain d where "at ?b2 (d # t @ close # rest)"
    proof (cases "w = []")
      case True
      then show ?thesis using b(1) that [of opener] by simp
    next
      case False
      then have "opener # w @ t @ close # rest = (opener # butlast w) @ last w # t @ close # rest"
        by (metis append.assoc append_Cons append_Nil append_butlast_last_id)
      then have "at b ((opener # butlast w) @ last w # t @ close # rest)" using b(1) by metis
      then have "at ?b2 (last w # t @ close # rest)" using at_move [of b "opener # butlast w" _ "?n - 1"] False by simp
      then show ?thesis by (rule that)
    qed
    then obtain h where h: "outcomes h = outcomes (pb_heap b)"
      and p: "parse_items step a fuel [] ?b2 = Some (True, xs, b\<lparr>depth := depth b + 1, offset := ?n + length t, pb_heap := h\<rparr>)"
      using items_readE [OF conjunct1 [OF ne], of ?b2 d "[]" close rest fuel "[]"] b close fuel by (auto simp: memory_def json_ws_def)
    have "at_index (b\<lparr>depth := depth b + 1, offset := ?n + length t, pb_heap := h\<rparr>) 0 = Some close"
      by (rule at_Cons(1) [of _ _ rest]) (use at_move [of b "opener # w @ t" "close # rest" "?n + length t"] b(1) in \<open>simp add: at_def add.assoc\<close>)
    with skip first c' p h show ?thesis by (intro exI [of _ h]) (simp add: set_children_def i)
  qed
qed

lemma not_literal:
  assumes "at b (c # s)" "c \<notin> {CHR ''n'', CHR ''t'', CHR ''f''}"
  shows "\<not> starts_with b ''null''" "\<not> starts_with b ''false''" "\<not> starts_with b ''true''"
  using assms(2) by (auto simp: starts_with_at [OF assms(1)])

lemma value_string:
  fixes F :: "'d floats"
  assumes "json_string t s"
  shows "value_reads F n (parse_value (Suc fuel) F a) (CHR 0x22 # t @ [CHR 0x22]) (JString s)"
  unfolding value_reads_def
proof (intro allI impI)
  fix item :: "'d cJSON" and b rest
  assume item: "blank item" and b: "at b ((CHR 0x22 # t @ [CHR 0x22]) @ rest)" "memory b"
  then have at: "at b (CHR 0x22 # t @ CHR 0x22 # rest)" by simp
  show "\<exists>h. outcomes h = outcomes (pb_heap b) \<and> parse_value (Suc fuel) F a item b =
      Some (True, tree_of F (item_name item) (JString s), b\<lparr>offset := offset b + length (CHR 0x22 # t @ [CHR 0x22]), pb_heap := h\<rparr>)"
    using parse_string_reads [OF assms at b(2) item, of a] not_literal [OF at] at_Cons(1) [OF at] by auto
qed

lemma value_number:
  fixes F :: "'d floats"
  assumes t: "json_number F t d" "length t \<le> 63"
  shows "value_reads F n (parse_value (Suc fuel) F a) t (JNumber d)"
  unfolding value_reads_def
proof (intro allI impI)
  fix item :: "'d cJSON" and b rest
  assume item: "blank item" and b: "at b (t @ rest)" "follow rest"
  obtain c s where c: "t = c # s" "c = CHR ''-'' \<or> c \<in> set ''0123456789''" using number_text_chars [of t] t by (cases t) (auto simp: json_number_def)
  have at: "at b (c # s @ rest)" using b(1) c(1) by simp
  have "list_all number_char t" "length t \<le> 63" "strtod F t = (d, length t)" using number_text_chars [of t] t by (simp_all add: json_number_def)
  then have "takeWhile number_char (take 63 (t @ rest)) = t"
    using b(2) by (cases rest) (auto simp: follow_def takeWhile_append list_all_iff take_Cons' split: if_splits)
  then have "parse_number F item b = (True, tree_of F (item_name item) (JNumber d), b\<lparr>offset := offset b + length t\<rparr>)"
    using b(1) t item number_text_chars [of t] by (auto simp: parse_number_def at_def json_number_def int_of_def blank_def)
  moreover have "parse_value (Suc fuel) F a item b = Some (parse_number F item b)"
    using not_literal [OF at] at_Cons(1) [OF at] c(2) by auto
  ultimately show "\<exists>h. outcomes h = outcomes (pb_heap b) \<and> parse_value (Suc fuel) F a item b =
      Some (True, tree_of F (item_name item) (JNumber d), b\<lparr>offset := offset b + length t, pb_heap := h\<rparr>)"
    by (intro exI [of _ "pb_heap b"]) simp
qed

lemma value_literal:
  "value_reads F n (parse_value (Suc fuel) F a) ''null'' JNull"
  "value_reads F n (parse_value (Suc fuel) F a) (if x then ''true'' else ''false'') (JBool x)"
  unfolding value_reads_def by (auto simp: starts_with_at set_type_def blank_def intro!: exI [of _ "pb_heap _"])

lemma value_array:
  fixes F :: "'d floats"
  assumes t: "t = [] \<and> vs = [] \<or> items_read_as n (parse_element (parse_value fuel F a)) a t (map (tree_of F None) vs) \<and>
      (\<exists>c r. t = c # r \<and> of_char c > (32 :: nat) \<and> c \<noteq> CHR '']'')"
    and w: "json_ws w" and fuel: "length t < fuel"
  shows "value_reads F (1 + n) (parse_value (Suc fuel) F a) (CHR ''['' # w @ t @ [CHR '']'']) (JArray vs)"
  unfolding value_reads_def
proof (intro allI impI)
  fix item :: "'d cJSON" and b rest
  let ?t = "CHR ''['' # w @ t @ [CHR '']'']"
  assume item: "blank item" and b: "at b (?t @ rest)" "memory b" "depth b + (1 + n) \<le> CJSON_NESTING_LIMIT"
  then have at: "at b (CHR ''['' # w @ t @ CHR '']'' # rest)" by simp
  have d: "depth b + 1 + n \<le> CJSON_NESTING_LIMIT" using b(3) by simp
  have t': "t = [] \<and> map (tree_of F None) vs = [] \<or> items_read_as n (parse_element (parse_value fuel F a)) a t (map (tree_of F None) vs) \<and>
      (\<exists>c r. t = c # r \<and> of_char c > (32 :: nat) \<and> c \<noteq> CHR '']'')" using t by auto
  have "parse_value (Suc fuel) F a item b = parse_array (parse_value fuel F a) a fuel item b" using not_literal [OF at] at_Cons(1) [OF at] by simp
  then show "\<exists>h. outcomes h = outcomes (pb_heap b) \<and> parse_value (Suc fuel) F a item b =
      Some (True, tree_of F (item_name item) (JArray vs), b\<lparr>offset := offset b + length ?t, pb_heap := h\<rparr>)"
    using children_reads [OF t' item _ w fuel at b(2) d, of cJSON_Array] at_Cons(1) [OF at] d by (simp add: parse_array_def add.assoc)
qed

lemma value_object:
  fixes F :: "'d floats"
  assumes t: "t = [] \<and> ms = [] \<or> items_read_as n (parse_member (parse_value fuel F a) a) a t (map (\<lambda>(k, v). tree_of F (Some (c_string k)) v) ms) \<and>
      (\<exists>c r. t = c # r \<and> of_char c > (32 :: nat) \<and> c \<noteq> CHR ''}'')"
    and w: "json_ws w" and fuel: "length t < fuel"
  shows "value_reads F (1 + n) (parse_value (Suc fuel) F a) (CHR ''{'' # w @ t @ [CHR ''}'']) (JObject ms)"
  unfolding value_reads_def
proof (intro allI impI)
  fix item :: "'d cJSON" and b rest
  let ?t = "CHR ''{'' # w @ t @ [CHR ''}'']" and ?xs = "map (\<lambda>(k, v). tree_of F (Some (c_string k)) v) ms"
  assume item: "blank item" and b: "at b (?t @ rest)" "memory b" "depth b + (1 + n) \<le> CJSON_NESTING_LIMIT"
  then have at: "at b (CHR ''{'' # w @ t @ CHR ''}'' # rest)" by simp
  have d: "depth b + 1 + n \<le> CJSON_NESTING_LIMIT" using b(3) by simp
  have t': "t = [] \<and> ?xs = [] \<or> items_read_as n (parse_member (parse_value fuel F a) a) a t ?xs \<and> (\<exists>c r. t = c # r \<and> of_char c > (32 :: nat) \<and> c \<noteq> CHR ''}'')" using t by auto
  have "parse_value (Suc fuel) F a item b = parse_object (parse_value fuel F a) a fuel item b" using not_literal [OF at] at_Cons(1) [OF at] by simp
  moreover have "at_index (b\<lparr>depth := depth b + 1\<rparr>) 0 = Some (CHR ''{'')" by (rule at_Cons(1)) (use at in simp)
  ultimately show "\<exists>h. outcomes h = outcomes (pb_heap b) \<and> parse_value (Suc fuel) F a item b =
      Some (True, tree_of F (item_name item) (JObject ms), b\<lparr>offset := offset b + length ?t, pb_heap := h\<rparr>)"
    using children_reads [OF t' item _ w fuel at b(2) d, of cJSON_Object] d by (simp add: parse_object_def add.assoc)
qed

lemma elements_first: "json_elements L F t vs \<Longrightarrow> \<exists>c r. t = c # r \<and> of_char c > (32 :: nat) \<and> c \<noteq> CHR '']''"
  by (erule json_elements.cases) (fastforce dest: value_first)+

lemma members_first: "json_members L F t ms \<Longrightarrow> \<exists>c r. t = c # r \<and> of_char c > (32 :: nat) \<and> c \<noteq> CHR ''}''"
  by (erule json_members.cases) auto

lemma grammar_read:
  "json_value 63 F t v \<Longrightarrow> \<forall>fuel. length t < fuel \<longrightarrow> value_reads F (nesting v) (parse_value fuel F a) t v"
  "json_elements 63 F t vs \<Longrightarrow> \<forall>fuel. length t < fuel \<longrightarrow>
     items_read_as (Max (insert 0 (set (map nesting vs)))) (parse_element (parse_value fuel F a)) a t (map (tree_of F None) vs)"
  "json_members 63 F t ms \<Longrightarrow> \<forall>fuel. length t < fuel \<longrightarrow>
     items_read_as (Max (insert 0 (set (map (\<lambda>(k, v). nesting v) ms)))) (parse_member (parse_value fuel F a) a) a t
       (map (\<lambda>(k, v). tree_of F (Some (c_string k)) v) ms)"
proof (induction rule: json_value_json_elements_json_members.inducts)
  case null
  show ?case using value_literal(1) by (metis less_nat_zero_code nesting.simps(3) not0_implies_Suc)
next
  case (bool x)
  show ?case using value_literal(2) [of F 0 _ a x] by (metis less_nat_zero_code nesting.simps(4) not0_implies_Suc)
next
  case (number t d)
  then show ?case using value_number [of F t d] by (metis less_nat_zero_code nesting.simps(5) not0_implies_Suc)
next
  case (str t s)
  then show ?case using value_string [of t s] by (metis less_nat_zero_code nesting.simps(6) not0_implies_Suc)
next
  case (array_empty w)
  show ?case
  proof (intro allI impI)
    fix fuel assume "length (CHR ''['' # w @ [CHR '']'']) < fuel"
    then obtain f where "fuel = Suc f" "length ([] :: string) < f" by (cases fuel) auto
    then show "value_reads F (nesting (JArray [])) (parse_value fuel F a) (CHR ''['' # w @ [CHR '']'']) (JArray [])"
      using value_array [of "[]" "[]" 0 f F a w] array_empty by simp
  qed
next
  case (array w t vs)
  show ?case
  proof (intro allI impI)
    fix fuel assume "length (CHR ''['' # w @ t @ [CHR '']'']) < fuel"
    then obtain f where f: "fuel = Suc f" "length t < f" by (cases fuel) auto
    then have "value_reads F (1 + Max (insert 0 (set (map nesting vs)))) (parse_value (Suc f) F a) (CHR ''['' # w @ t @ [CHR '']'']) (JArray vs)"
      by (intro value_array) (use array elements_first in blast)+
    then show "value_reads F (nesting (JArray vs)) (parse_value fuel F a) (CHR ''['' # w @ t @ [CHR '']'']) (JArray vs)" using f by simp
  qed
next
  case (object_empty w)
  show ?case
  proof (intro allI impI)
    fix fuel assume "length (CHR ''{'' # w @ [CHR ''}'']) < fuel"
    then obtain f where "fuel = Suc f" "length ([] :: string) < f" by (cases fuel) auto
    then show "value_reads F (nesting (JObject [])) (parse_value fuel F a) (CHR ''{'' # w @ [CHR ''}'']) (JObject [])"
      using value_object [of "[]" "[]" 0 f F a w] object_empty by simp
  qed
next
  case (object w t ms)
  show ?case
  proof (intro allI impI)
    fix fuel assume "length (CHR ''{'' # w @ t @ [CHR ''}'']) < fuel"
    then obtain f where f: "fuel = Suc f" "length t < f" by (cases fuel) auto
    then have "value_reads F (1 + Max (insert 0 (set (map (\<lambda>(k, v). nesting v) ms)))) (parse_value (Suc f) F a) (CHR ''{'' # w @ t @ [CHR ''}'']) (JObject ms)"
      by (intro value_object) (use object members_first in blast)+
    then show "value_reads F (nesting (JObject ms)) (parse_value fuel F a) (CHR ''{'' # w @ t @ [CHR ''}'']) (JObject ms)" using f by simp
  qed
next
  case (element t v w)
  then show ?case using items_one [OF element_reads [OF _ element(1)]] by simp
next
  case (elements t v w w' t' vs)
  show ?case
  proof (intro allI impI)
    fix fuel assume fuel: "length (t @ w @ CHR '','' # w' @ t') < fuel"
    let ?n = "Max (insert 0 (set (map nesting (v # vs))))" and ?p = "parse_element (parse_value fuel F a)"
    have v: "value_reads F (nesting v) (parse_value fuel F a) t v" using elements(2) fuel by simp
    have "step_reads ?n ?p t (tree_of F None v)" by (rule step_mono [OF element_reads [OF v elements(1)]]) simp
    moreover have lf: "length t' < fuel" using fuel by simp
    have "items_read_as (Max (insert 0 (set (map nesting vs)))) ?p a t' (map (tree_of F None) vs)" by (rule elements.IH(4) [THEN spec, THEN mp, OF lf])
    then have "items_read_as ?n ?p a t' (map (tree_of F None) vs)" by (rule items_mono) (rule Max_mono; auto)
    ultimately show "items_read_as ?n ?p a (t @ w @ CHR '','' # w' @ t') (map (tree_of F None) (v # vs))"
      using items_more [OF _ elements.hyps(1,2)] by fastforce
  qed
next
  case (member s k w1 w2 t v w)
  then show ?case using items_one [OF member_reads [OF _ member.IH(1) member.hyps(1-3)] member.hyps(4)] by simp
next
  case (members s k w1 w2 t v w w' t' ms)
  show ?case
  proof (intro allI impI)
    let ?m = "CHR 0x22 # s @ CHR 0x22 # w1 @ CHR '':'' # w2 @ t"
    fix fuel assume fuel: "length (?m @ w @ CHR '','' # w' @ t') < fuel"
    let ?n = "Max (insert 0 (set (map (\<lambda>(k, v). nesting v) ((k, v) # ms))))" and ?p = "parse_member (parse_value fuel F a) a"
    have v: "value_reads F (nesting v) (parse_value fuel F a) t v" using members.IH(2) fuel by simp
    have "step_reads ?n ?p ?m (tree_of F (Some (c_string k)) v)" by (rule step_mono [OF member_reads [OF v members.IH(1) members.hyps(1-3)]]) simp
    moreover have lf: "length t' < fuel" using fuel by simp
    have "items_read_as (Max (insert 0 (set (map (\<lambda>(k, v). nesting v) ms)))) ?p a t' (map (\<lambda>(k, v). tree_of F (Some (c_string k)) v) ms)" by (rule members.IH(4) [THEN spec, THEN mp, OF lf])
    then have "items_read_as ?n ?p a t' (map (\<lambda>(k, v). tree_of F (Some (c_string k)) v) ms)" by (rule items_mono) (rule Max_mono; auto)
    ultimately show "items_read_as ?n ?p a (?m @ w @ CHR '','' # w' @ t') (map (\<lambda>(k, v). tree_of F (Some (c_string k)) v) ((k, v) # ms))"
      using items_more [OF _ members.hyps(4,5)] by fastforce
  qed
qed

lemma skip_bom_at:
  assumes t: "json_value L F t v" "json_ws w" and bom: "bom \<in> {[], [CHR 0xEF, CHR 0xBB, CHR 0xBF]}"
    and b: "content b = bom @ w @ t @ s @ [CHR 0x00]" "offset b = 0"
  shows "skip_utf8_bom b = b\<lparr>offset := length bom\<rparr>"
proof -
  obtain c r where c: "t = c # r" "c \<noteq> CHR 0xEF" using value_first [OF t(1)] by blast
  show ?thesis
  proof (cases "bom = []")
    case True
    have "take 3 (content b) \<noteq> [CHR 0xEF, CHR 0xBB, CHR 0xBF]" using b c True t(2) by (cases w) (auto simp: json_ws_def)
    with True b show ?thesis by (simp add: skip_utf8_bom_def)
  next
    case False
    then have "at_index b 4 \<noteq> None" "take 3 (content b) = [CHR 0xEF, CHR 0xBB, CHR 0xBF]" using b c bom by (auto simp: at_index_None)
    with False b bom show ?thesis by (simp add: skip_utf8_bom_def)
  qed
qed

lemma skip_to_terminator:
  assumes b: "drop (offset b) (content b) = w @ [CHR 0x00]" and w: "json_ws w"
  shows "at_index (buffer_skip_whitespace b) 0 = Some (CHR 0x00)" "out_of_memory (buffer_skip_whitespace b) = out_of_memory b" "pb_heap (buffer_skip_whitespace b) = pb_heap b"
proof -
  let ?ws = "\<lambda>c :: char. of_char c \<le> (32 :: nat)"
  have len: "length (content b) - offset b = Suc (length w)" using arg_cong [OF b, of length] by simp
  have "\<forall>x\<in>set (w @ [CHR 0x00]). ?ws x" using w by (auto simp: json_ws_def)
  then have k: "takeWhile ?ws (w @ [CHR 0x00]) = w @ [CHR 0x00]" by (simp add: takeWhile_eq_all_conv)
  have last: "content b ! (offset b + length w) = CHR 0x00" using b nth_drop [of "offset b" "content b" "length w"] len by (simp add: nth_append)
  have "offset b + Suc (length w) = length (content b)" using len by arith
  then have "buffer_skip_whitespace b = b\<lparr>offset := offset b + length w\<rparr>" using k b by (auto simp: buffer_skip_whitespace_def at_index_None)
  then show "at_index (buffer_skip_whitespace b) 0 = Some (CHR 0x00)" "out_of_memory (buffer_skip_whitespace b) = out_of_memory b" "pb_heap (buffer_skip_whitespace b) = pb_heap b"
    using last len by (simp_all add: at_index_Some)
qed

lemma json_document_read:
  fixes F :: "'d floats"
  assumes t: "json_value 63 F t v" and n: "nesting v \<le> CJSON_NESTING_LIMIT" and w: "json_ws w" "json_ws w'" and bom: "bom \<in> {[], [CHR 0xEF, CHR 0xBB, CHR 0xBF]}"
    and mem: "\<forall>k. outcomes h k"
  shows "\<exists>h' e. loader_cJSON_ParseWithOpts F a (bom @ w @ t @ w') nt oom h = Some (Some (tree_of F None v), oom, h', e) \<and> outcomes h' = outcomes h"
proof -
  let ?text = "bom @ w @ t @ w' @ [CHR 0x00]" and ?h = "add_live 1 (tick h)"
  let ?b = "\<lparr>content = ?text, offset = 0, depth = 0, out_of_memory = oom, pb_heap = ?h\<rparr>"
  obtain c r where c: "t = c # r" "of_char c > (32 :: nat)" using value_first [OF t] by blast
  have new: "cJSON_New_Item a h = (Some (new_cJSON :: 'd cJSON), ?h)" using mem by (simp add: cJSON_New_Item_def new_cJSON_def succeeds_def)
  have s1: "skip_utf8_bom ?b = ?b\<lparr>offset := length bom\<rparr>" using skip_bom_at [OF t w(1) bom, of ?b w'] by simp
  have s2: "buffer_skip_whitespace (?b\<lparr>offset := length bom\<rparr>) = ?b\<lparr>offset := length bom + length w\<rparr>"
    using skip_whitespace_at [of "?b\<lparr>offset := length bom\<rparr>" w c "r @ w' @ [CHR 0x00]"] w(1) c by (simp add: at_def)
  have v: "value_reads F (nesting v) (parse_value (parse_fuel ?text) F a) t v" using grammar_read(1) [OF t, of a] by (simp add: parse_fuel_def)
  obtain h' where out: "outcomes h' = outcomes h" and p: "parse_value (parse_fuel ?text) F a new_cJSON (?b\<lparr>offset := length bom + length w\<rparr>) =
      Some (True, tree_of F None v, ?b\<lparr>offset := length bom + length w + length t, pb_heap := h'\<rparr>)"
    by (rule value_readsE [OF v blank_new, of "?b\<lparr>offset := length bom + length w\<rparr>" "w' @ [CHR 0x00]"])
      (use n mem follow_ws [OF w(2), of "CHR 0x00"] in \<open>simp_all add: at_def memory_def new_cJSON_def add_live_def tick_def number_char_def\<close>)
  let ?b' = "?b\<lparr>offset := length bom + length w + length t, pb_heap := h'\<rparr>"
  note stop = skip_to_terminator [of ?b' w', OF _ w(2)]
  have "at_index (buffer_skip_whitespace ?b') 0 = Some (CHR 0x00)" "out_of_memory (buffer_skip_whitespace ?b') = oom" "pb_heap (buffer_skip_whitespace ?b') = h'"
    using stop by simp_all
  then show ?thesis unfolding loader_cJSON_ParseWithOpts_def loader_cJSON_ParseWithLengthOpts_def using new s1 s2 p out by (cases nt) (simp_all add: Let_def)
qed

section \<open>Long numbers\<close>

lemma item_name_new: "item_name new_cJSON = None"
  by (simp add: new_cJSON_def)

text \<open>The copy of a number ends after 63 characters.\<close>

lemma long_number:
  fixes F :: "'d floats"
  assumes t: "number_text t" "63 < length t" and st: "strtod F (take 63 t) = (d, n)" "0 < n" and b: "at b (t @ rest)" and item: "blank item"
  shows "parse_value (Suc fuel) F a item b = Some (True, tree_of F (item_name item) (JNumber d), b\<lparr>offset := offset b + n\<rparr>)"
proof -
  have nt: "t \<noteq> []" "hd t = CHR ''-'' \<or> hd t \<in> set ''0123456789''" "list_all number_char t" using number_text_chars [OF t(1)] by blast+
  obtain c s where c: "t = c # s" using nt(1) by (cases t) auto
  have at: "at b (c # s @ rest)" using b c by simp
  have "\<forall>x \<in> set (take 63 t). number_char x" using nt(3) by (metis in_set_takeD list_all_iff)
  then have "takeWhile number_char (take 63 (t @ rest)) = take 63 t" using t(2) by (simp add: takeWhile_eq_all_conv)
  then have "parse_number F item b = (True, tree_of F (item_name item) (JNumber d), b\<lparr>offset := offset b + n\<rparr>)"
    using b st item by (auto simp: parse_number_def at_def int_of_def blank_def)
  moreover have "parse_value (Suc fuel) F a item b = Some (parse_number F item b)" using not_literal [OF at] at_Cons(1) [OF at] nt(2) c by auto
  ultimately show ?thesis by simp
qed

lemma long_number_alone:
  fixes F :: "'d floats"
  assumes t: "number_text t" "63 < length t" and st: "strtod F (take 63 t) = (d, n)" "0 < n" and mem: "\<forall>k. outcomes h k"
  shows "\<exists>h' e. loader_cJSON_ParseWithOpts F a t False oom h = Some (Some (tree_of F None (JNumber d)), oom, h', e)"
proof -
  let ?b = "\<lparr>content = t @ [CHR 0x00], offset = 0, depth = 0, out_of_memory = oom, pb_heap = add_live 1 (tick h)\<rparr>"
  obtain c s where c: "t = c # s" "number_char c" using number_text_chars [OF t(1)] by (cases t) auto
  then have g: "of_char c > (32 :: nat)" "c \<noteq> CHR 0xEF" by (auto simp: number_char_def)
  have new: "cJSON_New_Item a h = (Some (new_cJSON :: 'd cJSON), add_live 1 (tick h))" using mem by (simp add: cJSON_New_Item_def new_cJSON_def succeeds_def)
  have "skip_utf8_bom ?b = ?b" using c g by (simp add: skip_utf8_bom_def)
  moreover have "buffer_skip_whitespace ?b = ?b" using skip_whitespace_at [of ?b "[]" c] c g by (simp add: at_def json_ws_def)
  moreover have "parse_value (parse_fuel (t @ [CHR 0x00])) F a new_cJSON ?b = Some (True, tree_of F None (JNumber d), ?b\<lparr>offset := n\<rparr>)"
    using long_number [OF t st, of ?b "[CHR 0x00]" new_cJSON] blank_new by (simp add: at_def parse_fuel_def item_name_new del: parse_value.simps tree_of.simps)
  ultimately show ?thesis unfolding loader_cJSON_ParseWithOpts_def loader_cJSON_ParseWithLengthOpts_def using new by simp
qed

lemma long_number_in_array:
  fixes F :: "'d floats"
  assumes t: "number_text t" "63 < length t" and st: "strtod F (take 63 t) = (d, n)" "0 < n" "n \<le> 63" and mem: "\<forall>k. outcomes h k"
  shows "\<exists>h' e. loader_cJSON_ParseWithOpts F a (CHR ''['' # t @ '']'') nt oom h = Some (None, oom, h', e)"
proof -
  let ?text = "CHR ''['' # t @ [CHR '']'', CHR 0x00]" and ?h = "add_live 1 (tick h)"
  let ?b = "\<lparr>content = ?text, offset = 0, depth = 0, out_of_memory = oom, pb_heap = ?h\<rparr>"
  let ?h2 = "add_live 1 (tick ?h)"
  obtain c s where c: "t = c # s" "number_char c" using number_text_chars [OF t(1)] by (cases t) auto
  then have g: "of_char c > (32 :: nat)" "c \<noteq> CHR '']''" by (auto simp: number_char_def)
  have new: "cJSON_New_Item a h = (Some (new_cJSON :: 'd cJSON), ?h)" "cJSON_New_Item a ?h = (Some (new_cJSON :: 'd cJSON), ?h2)"
    using mem by (simp_all add: cJSON_New_Item_def new_cJSON_def succeeds_def add_live_def tick_def)
  have s0: "skip_utf8_bom ?b = ?b" "buffer_skip_whitespace ?b = ?b"
    using skip_whitespace_at [of ?b "[]" "CHR ''[''"] by (simp_all add: skip_utf8_bom_def at_def json_ws_def)
  let ?b1 = "?b\<lparr>depth := 1, offset := 1\<rparr>" and ?b2 = "?b\<lparr>depth := 1, pb_heap := ?h2, offset := 1\<rparr>"
  have s1: "buffer_skip_whitespace ?b1 = ?b1" "buffer_skip_whitespace ?b2 = ?b2"
    using skip_whitespace_at [of ?b1 "[]" c] skip_whitespace_at [of ?b2 "[]" c] c g by (simp_all add: at_def json_ws_def)
  obtain x y where x: "drop n t = x # y" using st(3) t(2) by (cases "drop n t") auto
  then have xn: "number_char x" using number_text_chars [OF t(1)] by (metis in_set_dropD list.set_intros(1) list_all_iff)
  then have gx: "of_char x > (32 :: nat)" "x \<noteq> CHR '',''" "x \<noteq> CHR '']''" by (auto simp: number_char_def)
  let ?b3 = "?b2\<lparr>offset := 1 + n\<rparr>"
  have at3: "at ?b3 (x # y @ [CHR '']'', CHR 0x00])" using x st(3) t(2) by (simp add: at_def)
  have s3: "buffer_skip_whitespace ?b3 = ?b3" using skip_whitespace_at [of ?b3 "[]" x] at3 gx by (simp add: json_ws_def)
  obtain f where f: "parse_fuel ?text = Suc (Suc (Suc f))" by (simp add: parse_fuel_def)
  have v: "parse_value (Suc k) F a new_cJSON ?b2 = Some (True, tree_of F None (JNumber d), ?b3)" for k
    using long_number [OF t st(1,2), of ?b2 "[CHR '']'', CHR 0x00]" new_cJSON] blank_new by (simp add: at_def item_name_new del: parse_value.simps tree_of.simps)
  have items: "parse_items (parse_element (parse_value (Suc (Suc f)) F a)) a (Suc (Suc f)) [] (?b\<lparr>depth := 1\<rparr>) = Some (True, [tree_of F None (JNumber d)], ?b3)"
    using new(2) s1(2) v s3 at_Cons(1) [OF at3] gx by (simp add: parse_element_def del: parse_value.simps tree_of.simps)
  have first: "at_index ?b 0 = Some (CHR ''['')" "at_index ?b1 0 = Some c" using c(1) by (simp_all add: at_index_def)
  have "parse_array (parse_value (Suc (Suc f)) F a) a (Suc (Suc f)) new_cJSON ?b =
      Some (False, new_cJSON, ?b3\<lparr>pb_heap := loader_cJSON_Delete [tree_of F None (JNumber d)] a ?h2\<rparr>)"
    using s1(1) items first at_Cons(1) [OF at3] gx(3) g(2) by (simp add: parse_array_def fail_children_def Let_def del: parse_value.simps tree_of.simps parse_items.simps)
  moreover have "parse_value (parse_fuel ?text) F a new_cJSON ?b = parse_array (parse_value (Suc (Suc f)) F a) a (Suc (Suc f)) new_cJSON ?b"
    using not_literal [of ?b "CHR ''[''"] unfolding f by (simp add: at_def at_index_def)
  ultimately show ?thesis unfolding loader_cJSON_ParseWithOpts_def loader_cJSON_ParseWithLengthOpts_def using new(1) s0 by simp
qed

section \<open>Properties\<close>

text \<open>C5: 
  Every text of the JSON grammar in which no number has more than 63 characters and no escaped surrogate stands alone, with or without a byte order mark and with white space around it, whose arrays and
  objects are nested no deeper than 1000, is parsed when memory suffices, also when the caller asks that nothing follows it, and the tree returned is the tree of its value: literals, numbers as
  \<^verbatim>\<open>strtod\<close> reads their text, the decoded bytes of strings and names (up to a zero), and children in the order of the text.
\<close>

theorem json_documents_parsed:
  assumes "json_value 63 F t v" and "nesting v \<le> CJSON_NESTING_LIMIT" and "json_ws w" and "json_ws w'" and "bom \<in> {[], [CHR 0xEF, CHR 0xBB, CHR 0xBF]}" and "\<forall>k. outcomes h k"
  shows "\<exists>h' e. loader_cJSON_ParseWithOpts F a (bom @ w @ t @ w') require_null_terminated oom h = Some (Some (tree_of F None v), oom, h', e)"
  using json_document_read [OF assms] by blast

definition sample_value :: "int json" where "sample_value = JObject [(''a'', JArray [JNumber 12, JBool True])]"

lemma sample_value_text: "json_value 63 sample_floats sample_text sample_value"
proof -
  have ws: "json_ws []" "json_ws '' ''" by (simp_all add: json_ws_def)
  have n: "json_value 63 sample_floats ''12'' (JNumber 12)" 
  proof (rule number)
    show "json_number sample_floats ''12'' 12"
      unfolding json_number_def number_text_def by (intro conjI exI [of _ "[]"] exI [of _ "''12''"]) (simp_all add: digits_def sample_floats_def)
  qed simp
  have t: "json_value 63 sample_floats ''true'' (JBool True)" using bool [of 63 sample_floats True] by simp
  have e: "json_elements 63 sample_floats ''12, true'' [JNumber 12, JBool True]"
    using elements [OF n ws(1) ws(2) element [OF t ws(1)]] by simp
  have a: "json_value 63 sample_floats ''[12, true]'' (JArray [JNumber 12, JBool True])" using array [OF ws(1) e] by simp
  have k: "json_string ''a'' ''a''" by (rule plain) (simp_all add: empty)
  show ?thesis using object [OF ws(1) member [OF k ws(1) ws(2) a ws(1)]] by (simp add: sample_text_def sample_value_def)
qed

theorem json_documents_parsed_witness:
  "\<exists>h' e. loader_cJSON_ParseWithOpts sample_floats None ([] @ '' '' @ sample_text @ []) True False (sample_heap True) = Some (Some (tree_of sample_floats None sample_value), False, h', e)"
  by (rule json_documents_parsed [OF sample_value_text]) (simp_all add: sample_value_def json_ws_def)

text \<open>C39: C0:
  A number of the JSON grammar with more than 63 characters is cut: when it is the whole text the parser succeeds with the number of its first 63 characters (of those of them that
  \<^verbatim>\<open>strtod\<close> reads), and when it is the only element of an array the valid text is refused.
\<close>

theorem long_number_cut:
  assumes "number_text t" and "63 < length t" and "strtod F (take 63 t) = (d, n)" and "0 < n" and "n \<le> 63" and "\<forall>k. outcomes h k"
  shows "(\<exists>h' e. loader_cJSON_ParseWithOpts F a t False oom h = Some (Some (tree_of F None (JNumber d)), oom, h', e)) \<and>
     (\<exists>h' e. loader_cJSON_ParseWithOpts F a (CHR ''['' # t @ '']'') False oom h = Some (None, oom, h', e))"
  using long_number_alone [OF assms(1-4,6)] long_number_in_array [OF assms] by blast

text \<open>Seventy ones: the number read has sixty-three of them.\<close>

lemma ones_text: "0 < n \<Longrightarrow> number_text (replicate n (CHR ''1''))"
  unfolding number_text_def by (intro exI [of _ "[]"] exI [of _ "replicate n (CHR ''1'')"]) (auto simp: digits_def)

theorem long_number_cut_witness:
  "(\<exists>h' e. loader_cJSON_ParseWithOpts sample_floats None (replicate 70 (CHR ''1'')) False False (sample_heap True) =
      Some (Some (tree_of sample_floats None (JNumber (foldl (\<lambda>n c. 10 * n + (of_char c - 48)) 0 (replicate 63 (CHR ''1''))))), False, h', e)) \<and>
   (\<exists>h' e. loader_cJSON_ParseWithOpts sample_floats None (CHR ''['' # replicate 70 (CHR ''1'') @ '']'') False False (sample_heap True) = Some (None, False, h', e))"
  by (rule long_number_cut [OF ones_text, of _ _ _ 63]) (simp_all add: sample_floats_def takeWhile_replicate)

end
