(* ===== verification/JsonPrint.thy ===== *)
theory JsonPrint
  imports Json
begin

text \<open>
  The printer of \<^verbatim>\<open>cJSON.c\<close>, with the loader's change that strings are neither quoted nor escaped: the loader prints items to copy their strings.  A print buffer holds the cells of its memory;
  \<open>None\<close> is an access outside of them.  What \<^verbatim>\<open>snprintf\<close> makes of a floating point number is a parameter; \<open>junk\<close> is what memory from the application's callbacks holds.
\<close>

unbundle bit_operations_syntax

section \<open>The buffer\<close>

record 'd printf =
  is_special :: "'d \<Rightarrow> bool"
  equals_int :: "'d \<Rightarrow> int \<Rightarrow> bool"
  format_15g :: "'d \<Rightarrow> string"
  format_17g :: "'d \<Rightarrow> string"
  scan_lg :: "string \<Rightarrow> 'd option"
  compare_double :: "'d \<Rightarrow> 'd \<Rightarrow> bool"
  zero_double :: 'd

record printbuffer =
  pr_buffer :: "char buf"
  pr_length :: nat
  pr_offset :: nat
  pr_depth :: nat
  pr_noalloc :: bool
  pr_format :: bool
  pr_oom :: bool
  pr_heap :: heap

abbreviation (input) INT_MAX :: nat where "INT_MAX \<equiv> 2147483647"

text \<open>Whether the pointer returned is not null; it is then \<^verbatim>\<open>buffer + offset\<close>.\<close>

definition ensure :: "allocator \<Rightarrow> char \<Rightarrow> nat \<Rightarrow> printbuffer \<Rightarrow> (bool \<times> printbuffer) option" where
  "ensure a junk needed p =
     (if pr_buffer p = NULL then Some (False, p)
      else if pr_length p > 0 \<and> pr_offset p \<ge> pr_length p then Some (False, p)
      else if needed > INT_MAX then Some (False, p)
      else (let needed = needed + (pr_offset p + 1) in
        if needed \<le> pr_length p then Some (True, p)
        else if pr_noalloc p then Some (False, p)
        else if needed > INT_MAX div 2 \<and> needed > INT_MAX then Some (False, p)
        else (let newsize = (if needed > INT_MAX div 2 then INT_MAX else needed * 2) in do {
          (newbuffer, old, h) \<leftarrow> loader_realloc a (CHR 0x00) junk (pr_buffer p) (pr_length p) newsize (pr_heap p);
          (if newbuffer = NULL then do {
             h \<leftarrow> loader_free a old h;
             Some (False, p\<lparr>pr_oom := True, pr_heap := h, pr_length := 0, pr_buffer := NULL\<rparr>)
           } else Some (True, p\<lparr>pr_heap := h, pr_length := newsize, pr_buffer := newbuffer\<rparr>))
        })))"

text \<open>Bytes written one after the other.\<close>

fun buf_puts :: "char buf \<Rightarrow> nat \<Rightarrow> string \<Rightarrow> char buf option" where
  "buf_puts cells i [] = Some cells"
| "buf_puts cells i (c # cs) = do { cells \<leftarrow> buf_write cells i c; buf_puts cells (Suc i) cs }"

definition put :: "string \<Rightarrow> printbuffer \<Rightarrow> printbuffer option" where
  "put bs p = do { cells \<leftarrow> buf_puts (pr_buffer p) (pr_offset p) bs; Some (p\<lparr>pr_buffer := cells\<rparr>) }"

definition c_strlen :: "string \<Rightarrow> nat option" where
  "c_strlen cells = (if CHR 0x00 \<in> set cells then Some (length (c_string cells)) else None)"

definition update_offset :: "printbuffer \<Rightarrow> printbuffer option" where
  "update_offset p =
     (case pr_buffer p of
        Buf cells \<Rightarrow> do { n \<leftarrow> c_strlen (drop (pr_offset p) cells); Some (p\<lparr>pr_offset := pr_offset p + n\<rparr>) }
      | NULL \<Rightarrow> Some p
      | Freed \<Rightarrow> None)"

text \<open>The rest of a function after a call that may report failure.\<close>

definition on_ok :: "(bool \<times> printbuffer) option \<Rightarrow> (printbuffer \<Rightarrow> (bool \<times> printbuffer) option) \<Rightarrow> (bool \<times> printbuffer) option" where
  "on_ok r f = do { (ok, p) \<leftarrow> r; (if ok then f p else Some (False, p)) }"

section \<open>Values\<close>

fun hex_char :: "nat \<Rightarrow> char" where "hex_char n = (if n < 10 then char_of (48 + n) else char_of (87 + n))"

definition needs_escape :: "char \<Rightarrow> bool" where
  "needs_escape c \<longleftrightarrow> c \<in> {CHR 0x22, CHR 0x5C, CHR 0x08, CHR 0x0C, CHR 0x0A, CHR 0x0D, CHR 0x09}"

fun escape_characters :: "string \<Rightarrow> nat" where
  "escape_characters [] = 0"
| "escape_characters (c # cs) = (if needs_escape c then 1 else if of_char c < (32 :: nat) then 5 else 0) + escape_characters cs"

text \<open>The second loop of \<^verbatim>\<open>print_string_ptr\<close>: \<open>pos\<close> is \<^verbatim>\<open>output_pointer - output\<close>.  \<^verbatim>\<open>snprintf\<close> writes as many bytes as are left, the last of them zero.\<close>

fun copy_string :: "nat \<Rightarrow> nat \<Rightarrow> string \<Rightarrow> nat \<Rightarrow> char buf \<Rightarrow> char buf option" where
  "copy_string start output_length [] pos cells = Some cells"
| "copy_string start output_length (c # cs) pos cells =
     (if of_char c > (31 :: nat) \<or> needs_escape c then do {
        cells \<leftarrow> buf_write cells (start + pos) c;
        copy_string start output_length cs (pos + 1) cells
      } else do {
        let left = output_length - pos;
        cells \<leftarrow> (if left = 0 then Some cells
                  else buf_puts cells (start + pos) (take (left - 1) (''u00'' @ [hex_char (of_char c div 16), hex_char (of_char c mod 16)]) @ [CHR 0x00]));
        copy_string start output_length cs (pos + 5) cells
      })"

definition print_string_ptr :: "allocator \<Rightarrow> char \<Rightarrow> string option \<Rightarrow> printbuffer \<Rightarrow> (bool \<times> printbuffer) option" where
  "print_string_ptr a junk input p =
     (case input of
        None \<Rightarrow> ensure a junk 1 p
      | Some s \<Rightarrow>
          (let output_length = length s + escape_characters s in
           on_ok (ensure a junk (output_length + 1) p) (\<lambda>p.
             if escape_characters s = 0 then do { p \<leftarrow> put (s @ [CHR 0x00]) p; Some (True, p) }
             else do {
               cells \<leftarrow> copy_string (pr_offset p) output_length s 0 (pr_buffer p);
               cells \<leftarrow> buf_write cells (pr_offset p + output_length) (CHR 0x00);
               Some (True, p\<lparr>pr_buffer := cells\<rparr>)
             })))"

text \<open>Text and its terminating zero, after asking for as much memory.\<close>

definition print_literal :: "allocator \<Rightarrow> char \<Rightarrow> string \<Rightarrow> printbuffer \<Rightarrow> (bool \<times> printbuffer) option" where
  "print_literal a junk w p = on_ok (ensure a junk (length w + 1) p) (\<lambda>p. do { p \<leftarrow> put (w @ [CHR 0x00]) p; Some (True, p) })"

fun decimal :: "nat \<Rightarrow> string" where
  "decimal n = (if n < 10 then [char_of (48 + n)] else decimal (n div 10) @ [char_of (48 + n mod 10)])"

definition decimal_int :: "int \<Rightarrow> string" where
  "decimal_int i = (if i < 0 then CHR ''-'' # decimal (nat (- i)) else decimal (nat i))"

definition print_number :: "'d printf \<Rightarrow> allocator \<Rightarrow> char \<Rightarrow> 'd cJSON \<Rightarrow> printbuffer \<Rightarrow> (bool \<times> printbuffer) option" where
  "print_number P a junk item p =
     (let d = (case valuedouble item of None \<Rightarrow> zero_double P | Some d \<Rightarrow> d);
          number_buffer =
            (if is_special P d then ''null''
             else if equals_int P d (valueint item) then decimal_int (valueint item)
             else (case scan_lg P (take 25 (format_15g P d)) of
                None \<Rightarrow> format_17g P d
              | Some test \<Rightarrow> if compare_double P test d then format_15g P d else format_17g P d))
      in if length number_buffer > 25 then Some (False, p)
         else on_ok (ensure a junk (length number_buffer + 1) p) (\<lambda>p. do {
           p \<leftarrow> put (number_buffer @ [CHR 0x00]) p;
           Some (True, p\<lparr>pr_offset := pr_offset p + length number_buffer\<rparr>)
         }))"

text \<open>Bytes put at the offset, which then moves past the first \<open>n\<close> of them.\<close>

definition put_and_move :: "allocator \<Rightarrow> char \<Rightarrow> nat \<Rightarrow> string \<Rightarrow> nat \<Rightarrow> printbuffer \<Rightarrow> (bool \<times> printbuffer) option" where
  "put_and_move a junk needed bs n p = on_ok (ensure a junk needed p) (\<lambda>p. do { p \<leftarrow> put bs p; Some (True, p\<lparr>pr_offset := pr_offset p + n\<rparr>) })"

fun print_value :: "'d printf \<Rightarrow> allocator \<Rightarrow> char \<Rightarrow> 'd cJSON \<Rightarrow> printbuffer \<Rightarrow> (bool \<times> printbuffer) option"
  and print_elements :: "'d printf \<Rightarrow> allocator \<Rightarrow> char \<Rightarrow> 'd cJSON list \<Rightarrow> printbuffer \<Rightarrow> (bool \<times> printbuffer) option"
  and print_members :: "'d printf \<Rightarrow> allocator \<Rightarrow> char \<Rightarrow> 'd cJSON list \<Rightarrow> printbuffer \<Rightarrow> (bool \<times> printbuffer) option" where
  "print_value P a junk (CJSON t s i d n cs) p =
     (if t AND 0xFF = cJSON_NULL then print_literal a junk ''null'' p
      else if t AND 0xFF = cJSON_False then print_literal a junk ''false'' p
      else if t AND 0xFF = cJSON_True then print_literal a junk ''true'' p
      else if t AND 0xFF = cJSON_Number then print_number P a junk (CJSON t s i d n cs) p
      else if t AND 0xFF = cJSON_Raw then (case s of None \<Rightarrow> Some (False, p) | Some r \<Rightarrow> print_literal a junk r p)
      else if t AND 0xFF = cJSON_String then print_string_ptr a junk s p
      else if t AND 0xFF = cJSON_Array then
        on_ok (put_and_move a junk 1 ''['' 1 p) (\<lambda>p.
        on_ok (print_elements P a junk cs (p\<lparr>pr_depth := pr_depth p + 1\<rparr>)) (\<lambda>p.
        on_ok (put_and_move a junk 2 ('']'' @ [CHR 0x00]) 0 p) (\<lambda>p. Some (True, p\<lparr>pr_depth := pr_depth p - 1\<rparr>))))
      else if t AND 0xFF = cJSON_Object then
        (let bs = (if pr_format p then ''{'' @ [CHR 0x0A] else ''{'') in
         on_ok (put_and_move a junk (length bs + 1) bs (length bs) p) (\<lambda>p.
         on_ok (print_members P a junk cs (p\<lparr>pr_depth := pr_depth p + 1\<rparr>)) (\<lambda>p.
         on_ok (put_and_move a junk (if pr_format p then pr_depth p + 1 else 2)
           ((if pr_format p then replicate (pr_depth p - 1) (CHR 0x09) else []) @ ''}'' @ [CHR 0x00]) 0 p) (\<lambda>p. Some (True, p\<lparr>pr_depth := pr_depth p - 1\<rparr>)))))
      else Some (False, p))"
| "print_elements P a junk [] p = Some (True, p)"
| "print_elements P a junk (x # xs) p =
     on_ok (print_value P a junk x p) (\<lambda>p. do {
       p \<leftarrow> update_offset p;
       (if xs = [] then Some (True, p)
        else (let bs = (if pr_format p then '', '' else '','') in
          on_ok (put_and_move a junk (length bs + 1) (bs @ [CHR 0x00]) (length bs) p) (\<lambda>p. print_elements P a junk xs p)))
     })"
| "print_members P a junk [] p = Some (True, p)"
| "print_members P a junk (x # xs) p =
     on_ok (if pr_format p then put_and_move a junk (pr_depth p) (replicate (pr_depth p) (CHR 0x09)) (pr_depth p) p else Some (True, p)) (\<lambda>p.
     on_ok (print_string_ptr a junk (item_name x) p) (\<lambda>p. do {
       p \<leftarrow> update_offset p;
       let colon = (if pr_format p then '':'' @ [CHR 0x09] else '':'');
       on_ok (put_and_move a junk (length colon) colon (length colon) p) (\<lambda>p.
       on_ok (print_value P a junk x p) (\<lambda>p. do {
         p \<leftarrow> update_offset p;
         let comma = (if xs = [] then [] else '','') @ (if pr_format p then [CHR 0x0A] else []);
         on_ok (put_and_move a junk (length comma + 1) (comma @ [CHR 0x00]) (length comma) p) (\<lambda>p. print_members P a junk xs p)
       }))
     }))"

text \<open>\<^verbatim>\<open>print\<close>: the bytes of the memory returned, whether memory ran out, and the heap.\<close>

definition cJSON_print :: "'d printf \<Rightarrow> allocator \<Rightarrow> char \<Rightarrow> 'd cJSON \<Rightarrow> bool \<Rightarrow> bool \<Rightarrow> heap \<Rightarrow> (string option \<times> bool \<times> heap) option" where
  "cJSON_print P a junk item format oom h =
     (case loader_calloc a (CHR 0x00) 256 h of
        (NULL, h) \<Rightarrow> Some (None, True, h)
      | (cells, h) \<Rightarrow> do {
          (ok, p) \<leftarrow> print_value P a junk item
            \<lparr>pr_buffer = cells, pr_length = 256, pr_offset = 0, pr_depth = 0, pr_noalloc = False, pr_format = format, pr_oom = oom, pr_heap = h\<rparr>;
          (if \<not> ok then do { h \<leftarrow> loader_free a (pr_buffer p) (pr_heap p); Some (None, pr_oom p, h) }
           else do {
             p \<leftarrow> update_offset p;
             (printed, old, h) \<leftarrow> loader_realloc a (CHR 0x00) junk (pr_buffer p) (pr_length p) (pr_offset p + 1) (pr_heap p);
             (case printed of
                Buf cells \<Rightarrow> Some (Some cells, pr_oom p, h)
              | _ \<Rightarrow> do { h \<leftarrow> loader_free a old h; Some (None, True, h) })
           })
        })"

definition loader_cJSON_Print :: "'d printf \<Rightarrow> allocator \<Rightarrow> char \<Rightarrow> 'd cJSON \<Rightarrow> bool \<Rightarrow> heap \<Rightarrow> (string option \<times> bool \<times> heap) option" where
  "loader_cJSON_Print P a junk item oom h = cJSON_print P a junk item True oom h"

definition loader_cJSON_PrintUnformatted :: "'d printf \<Rightarrow> allocator \<Rightarrow> char \<Rightarrow> 'd cJSON \<Rightarrow> bool \<Rightarrow> heap \<Rightarrow> (string option \<times> bool \<times> heap) option" where
  "loader_cJSON_PrintUnformatted P a junk item oom h = cJSON_print P a junk item False oom h"

text \<open>Printing into the \<open>len\<close> bytes of the caller.\<close>

definition loader_cJSON_PrintPreallocated :: "'d printf \<Rightarrow> allocator \<Rightarrow> char \<Rightarrow> 'd cJSON \<Rightarrow> string \<Rightarrow> bool \<Rightarrow> heap \<Rightarrow> (bool \<times> string \<times> heap) option" where
  "loader_cJSON_PrintPreallocated P a junk item buffer format h = do {
     (ok, p) \<leftarrow> print_value P a junk item
       \<lparr>pr_buffer = Buf buffer, pr_length = length buffer, pr_offset = 0, pr_depth = 0, pr_noalloc = True, pr_format = format, pr_oom = False, pr_heap = h\<rparr>;
     (case pr_buffer p of Buf cells \<Rightarrow> Some (ok, cells, pr_heap p) | _ \<Rightarrow> None)
   }"

section \<open>The printer stays inside its memory\<close>

definition usable :: "printbuffer \<Rightarrow> bool" where
  "usable p \<longleftrightarrow> (\<exists>cells. pr_buffer p = Buf cells \<and> length cells = pr_length p \<and> pr_offset p < pr_length p)"

text \<open>A zero at the offset or after it.\<close>

definition terminated :: "printbuffer \<Rightarrow> bool" where
  "terminated p \<longleftrightarrow> (\<exists>cells. pr_buffer p = Buf cells \<and> CHR 0x00 \<in> set (drop (pr_offset p) cells))"

text \<open>The same buffer later: its memory is accounted for.\<close>

definition later :: "printbuffer \<Rightarrow> printbuffer \<Rightarrow> bool" where
  "later p p' \<longleftrightarrow> pr_noalloc p' = pr_noalloc p \<and> pr_format p' = pr_format p \<and> pr_buffer p' \<noteq> Freed \<and>
     live (pr_heap p') - blocks (pr_buffer p') = live (pr_heap p) - blocks (pr_buffer p)"

definition prints :: "printbuffer \<Rightarrow> nat \<Rightarrow> (printbuffer \<Rightarrow> bool) \<Rightarrow> (bool \<times> printbuffer) option \<Rightarrow> bool" where
  "prints p d T r \<longleftrightarrow> (\<exists>ok p'. r = Some (ok, p') \<and> later p p' \<and> (ok \<longrightarrow> usable p' \<and> pr_depth p' = d \<and> T p'))"

lemma prints_fail: "later p p' \<Longrightarrow> prints p d T (Some (False, p'))"
  unfolding prints_def by blast

lemma prints_ok: "later p p' \<Longrightarrow> usable p' \<Longrightarrow> pr_depth p' = d \<Longrightarrow> T p' \<Longrightarrow> prints p d T (Some (True, p'))"
  unfolding prints_def by blast

lemma later_refl: "usable p \<Longrightarrow> later p p"
  by (auto simp: later_def usable_def)

lemma later_trans: "later p q \<Longrightarrow> later q r \<Longrightarrow> later p r"
  by (simp add: later_def)

lemma prints_on_ok:
  assumes "prints p d T r" and "\<And>q. usable q \<Longrightarrow> later p q \<Longrightarrow> pr_depth q = d \<Longrightarrow> T q \<Longrightarrow> prints q d' T' (f q)"
  shows "prints p d' T' (on_ok r f)"
proof -
  obtain ok q where r: "r = Some (ok, q)" "later p q" and q: "ok \<Longrightarrow> usable q \<and> pr_depth q = d \<and> T q" using assms(1) by (auto simp: prints_def)
  show ?thesis
  proof (cases ok)
    case True
    with q assms(2) r(2) have "prints q d' T' (f q)" by blast
    with r True show ?thesis using later_trans [OF r(2)] by (auto simp: prints_def on_ok_def)
  next
    case False
    with r show ?thesis by (auto simp: prints_def on_ok_def)
  qed
qed

lemma ensure_prints:
  assumes "usable p"
  shows "prints p (pr_depth p) (\<lambda>q. pr_offset q = pr_offset p \<and> pr_offset q + needed + 1 \<le> pr_length q) (ensure a junk needed p)"
proof -
  obtain cells where c: "pr_buffer p = Buf cells" "length cells = pr_length p" "pr_offset p < pr_length p" using assms by (auto simp: usable_def)
  let ?n = "needed + (pr_offset p + 1)"
  consider (over) "needed > INT_MAX \<or> ?n > pr_length p \<and> (pr_noalloc p \<or> ?n > INT_MAX div 2 \<and> ?n > INT_MAX)" | (fits) "needed \<le> INT_MAX" "?n \<le> pr_length p"
    | (grow) "needed \<le> INT_MAX" "?n > pr_length p" "\<not> pr_noalloc p" "\<not> (?n > INT_MAX div 2 \<and> ?n > INT_MAX)" by linarith
  then show ?thesis
  proof cases
    case over
    then have "ensure a junk needed p = Some (False, p)" using c by (auto simp: ensure_def Let_def)
    then show ?thesis using prints_fail [OF later_refl [OF assms]] by simp
  next
    case fits
    then have "ensure a junk needed p = Some (True, p)" using c by (simp add: ensure_def Let_def)
    then show ?thesis using prints_ok [OF later_refl [OF assms] assms refl] fits by simp
  next
    case grow
    define sz where "sz = (if ?n > INT_MAX div 2 then INT_MAX else ?n * 2)"
    have sz: "?n \<le> sz" "sz > pr_length p" using grow by (auto simp: sz_def)
    have e: "ensure a junk needed p = do {
        (newbuffer, old, h) \<leftarrow> loader_realloc a (CHR 0x00) junk (Buf cells) (pr_length p) sz (pr_heap p);
        (if newbuffer = NULL then do { h \<leftarrow> loader_free a old h; Some (False, p\<lparr>pr_oom := True, pr_heap := h, pr_length := 0, pr_buffer := NULL\<rparr>) }
         else Some (True, p\<lparr>pr_heap := h, pr_length := sz, pr_buffer := newbuffer\<rparr>)) }"
      using grow c by (auto simp: ensure_def Let_def sz_def)
    show ?thesis
    proof (cases "succeeds (pr_heap p)")
      case False
      then have "loader_realloc a (CHR 0x00) junk (Buf cells) (pr_length p) sz (pr_heap p) = Some (NULL, Buf cells, tick (pr_heap p))" using c sz by simp
      then have "ensure a junk needed p = Some (False, p\<lparr>pr_oom := True, pr_heap := add_live (- 1) (tick (pr_heap p)), pr_length := 0, pr_buffer := NULL\<rparr>)" using e by simp
      then show ?thesis using prints_fail c by (auto simp: later_def)
    next
      case True
      then obtain x where "loader_realloc a (CHR 0x00) junk (Buf cells) (pr_length p) sz (pr_heap p) = Some (Buf (resized x sz cells), Freed, tick (pr_heap p))"
        using c sz by (cases "case a of None \<Rightarrow> False | Some cb \<Rightarrow> pfnReallocation cb") auto
      then have "ensure a junk needed p = Some (True, p\<lparr>pr_heap := tick (pr_heap p), pr_length := sz, pr_buffer := Buf (resized x sz cells)\<rparr>)" using e by simp
      then show ?thesis using c sz by (auto simp: later_def usable_def intro!: prints_ok)
    qed
  qed
qed

lemma buf_puts_cells: "i + length bs \<le> length xs \<Longrightarrow> buf_puts (Buf xs) i bs = Some (Buf (take i xs @ bs @ drop (i + length bs) xs))"
proof (induction bs arbitrary: i xs)
  case (Cons c bs)
  then have "buf_puts (Buf (xs[i := c])) (Suc i) bs = Some (Buf (take (Suc i) (xs[i := c]) @ bs @ drop (Suc i + length bs) (xs[i := c])))" by simp
  moreover have "take (Suc i) (xs[i := c]) = take i xs @ [c]" using Cons.prems by (simp add: take_Suc_conv_app_nth)
  ultimately show ?case using Cons.prems by simp
qed simp

lemma put_cells:
  assumes "pr_buffer p = Buf xs" "pr_offset p + length bs \<le> length xs"
  shows "put bs p = Some (p\<lparr>pr_buffer := Buf (take (pr_offset p) xs @ bs @ drop (pr_offset p + length bs) xs)\<rparr>)"
  using assms buf_puts_cells [OF assms(2)] by (simp add: put_def)

lemma put_and_move_prints:
  assumes "usable p" "n \<le> needed" "length bs \<le> needed + 1" "n \<le> length bs" and T: "T = (\<lambda>_. True) \<or> T = terminated \<and> CHR 0x00 \<in> set (drop n bs)"
  shows "prints p (pr_depth p) T (put_and_move a junk needed bs n p)"
  unfolding put_and_move_def
proof (rule prints_on_ok [OF ensure_prints [OF assms(1)]])
  fix q assume q: "usable q" "pr_depth q = pr_depth p" "pr_offset q = pr_offset p \<and> pr_offset q + needed + 1 \<le> pr_length q"
  obtain xs where xs: "pr_buffer q = Buf xs" "length xs = pr_length q" using q(1) by (auto simp: usable_def)
  let ?ys = "take (pr_offset q) xs @ bs @ drop (pr_offset q + length bs) xs"
  let ?q = "q\<lparr>pr_buffer := Buf ?ys, pr_offset := pr_offset q + n\<rparr>"
  have p: "put bs q = Some (q\<lparr>pr_buffer := Buf ?ys\<rparr>)" using put_cells [OF xs(1)] q(3) assms(3) xs(2) by simp
  have "usable ?q" using q(3) assms(2,3) xs by (auto simp: usable_def)
  moreover have "drop (pr_offset q + n) ?ys = drop n bs @ drop (pr_offset q + length bs) xs" using q(3) xs assms(4) by simp
  then have "T ?q" using T by (auto simp: terminated_def)
  ultimately have "prints q (pr_depth p) T (Some (True, ?q))" using q xs by (intro prints_ok) (auto simp: later_def)
  then show "prints q (pr_depth p) T (do { p \<leftarrow> put bs q; Some (True, p\<lparr>pr_offset := pr_offset p + n\<rparr>) })" using p by simp
qed

lemma literal_prints: "usable p \<Longrightarrow> prints p (pr_depth p) terminated (print_literal a junk w p)"
  using put_and_move_prints [of p 0 "length w + 1" "w @ [CHR 0x00]" terminated a junk] by (simp add: print_literal_def put_and_move_def)

lemma number_prints: "usable p \<Longrightarrow> prints p (pr_depth p) terminated (print_number P a junk item p)"
  using put_and_move_prints [of p "length w" "length w + 1" "w @ [CHR 0x00]" terminated a junk for w]
  by (auto simp: print_number_def put_and_move_def Let_def intro: prints_fail later_refl)

text \<open>What is written for a string: every character as it is, but for the control characters without an escape of their own, which become \<^verbatim>\<open>u00xx\<close>, without a backslash.\<close>

abbreviation control :: "char \<Rightarrow> bool" where
  "control c \<equiv> \<not> (of_char c > (31 :: nat) \<or> needs_escape c)"

definition escaped :: "string \<Rightarrow> string" where
  "escaped s = concat (map (\<lambda>c. if control c then ''u00'' @ [''0123456789abcdef'' ! (of_char c div 16), ''0123456789abcdef'' ! (of_char c mod 16)] else [c]) s)"

definition ends_in_control :: "string \<Rightarrow> bool" where
  "ends_in_control s \<longleftrightarrow> (case rev s of [] \<Rightarrow> False | c # _ \<Rightarrow> control c)"

lemma hex_char_nth: "n < 16 \<Longrightarrow> hex_char n = ''0123456789abcdef'' ! n"
proof -
  have "\<forall>n \<in> set [0..<16]. hex_char n = ''0123456789abcdef'' ! n" by code_simp
  then show "n < 16 \<Longrightarrow> hex_char n = ''0123456789abcdef'' ! n" by simp
qed

lemma high_digit: "of_char (c :: char) div 16 < (16 :: nat)"
  by (rule less_mult_imp_div_less) (use nat_of_char_less_256 [of c] in simp)

lemma hex_chars: "hex_char (of_char (c :: char) div 16) = ''0123456789abcdef'' ! (of_char c div 16)" "hex_char (of_char c mod 16) = ''0123456789abcdef'' ! (of_char c mod 16)"
  using hex_char_nth high_digit by (simp_all del: hex_char.simps)

lemma escaped_Cons:
  "escaped (c # s) = (if control c then ''u00'' @ [hex_char (of_char c div 16), hex_char (of_char c mod 16)] else [c]) @ escaped s"
  by (simp add: escaped_def hex_chars del: hex_char.simps)

lemma escaped_Nil [simp]: "escaped [] = []"
  by (simp add: escaped_def)

lemma ends_in_control_Nil [simp]: "\<not> ends_in_control []"
  by (simp add: ends_in_control_def)

lemma ends_in_control_Cons: "ends_in_control (c # s) = (if s = [] then control c else ends_in_control s)"
  by (cases s rule: rev_cases) (simp_all add: ends_in_control_def)

lemma length_escaped: "length (escaped s) + (if ends_in_control s then 1 else 0) \<le> length s + escape_characters s"
  by (induction s) (auto simp: escaped_Cons ends_in_control_Cons simp del: hex_char.simps)

definition after_copy :: "string \<Rightarrow> nat \<Rightarrow> string \<Rightarrow> string" where
  "after_copy s i xs = take i xs @ escaped s @ (if ends_in_control s then CHR 0x00 # drop (i + length (escaped s) + 1) xs else drop (i + length (escaped s)) xs)"

lemma length_after_copy: "i + length s + escape_characters s \<le> length xs \<Longrightarrow> length (after_copy s i xs) = length xs"
  using length_escaped [of s] by (auto simp: after_copy_def)

lemma skip_digits:
  fixes xs :: string
  assumes "i \<le> length xs" and "start + pos = i"
  shows "drop (start + (pos + 5)) (take i xs @ (''u00'' @ [x, y, CHR 0x00]) @ drop (i + length (''u00'' @ [x, y, CHR 0x00])) xs) = CHR 0x00 # drop (i + 6) xs"
    and "k \<ge> 1 \<Longrightarrow> drop (start + (pos + 5) + k) (take i xs @ (''u00'' @ [x, y, CHR 0x00]) @ drop (i + length (''u00'' @ [x, y, CHR 0x00])) xs) = drop (i + 5 + k) xs"
proof -
  let ?bs = "''u00'' @ [x, y, CHR 0x00]" and ?d = "drop (i + 6) xs"
  have j: "start + (pos + 5) = i + 5" "start + (pos + 5) + k = i + (5 + k)" using assms(2) by simp_all
  have split: "drop (i + m) (take i xs @ ys) = drop m ys" for m ys using assms(1) by simp
  have six: "length ?bs = 6" by simp
  have tl: "drop (5 + k) (?bs @ ?d) = drop (5 + k - 6) ?d" if "k \<ge> 1" using that by (subst drop_append) simp
  show "drop (start + (pos + 5)) (take i xs @ ?bs @ drop (i + length ?bs) xs) = CHR 0x00 # drop (i + 6) xs" unfolding j(1) six split by simp
  show "k \<ge> 1 \<Longrightarrow> drop (start + (pos + 5) + k) (take i xs @ ?bs @ drop (i + length ?bs) xs) = drop (i + 5 + k) xs" unfolding j(2) six split using tl by (simp add: ac_simps)
qed

lemma shifted_copy:
  assumes "take j zs = take i xs @ w" "drop (j + length (escaped s)) zs = drop (i + 5 + length (escaped s)) xs" "drop (j + (length (escaped s) + 1)) zs = drop (i + 5 + (length (escaped s) + 1)) xs"
    "length w = 5" "escaped (c # s) = w @ escaped s" "ends_in_control (c # s) = ends_in_control s"
  shows "after_copy s j zs = after_copy (c # s) i xs"
  using assms by (simp add: after_copy_def add.assoc)

lemma copy_string_cells:
  "start + output_length < length xs \<Longrightarrow> pos + length s + escape_characters s \<le> output_length \<Longrightarrow>
   copy_string start output_length s pos (Buf xs) = Some (Buf (after_copy s (start + pos) xs))"
proof (induction s arbitrary: pos xs)
  case (Cons c s)
  show ?case
  proof (cases "control c")
    case False
    let ?xs = "xs[start + pos := c]"
    have "copy_string start output_length s (pos + 1) (Buf ?xs) = Some (Buf (after_copy s (start + (pos + 1)) ?xs))"
      using Cons.IH [of ?xs "pos + 1"] Cons.prems False by auto
    moreover have "take (start + (pos + 1)) ?xs = take (start + pos) xs @ [c]" using Cons.prems by (simp add: take_Suc_conv_app_nth)
    then have "after_copy s (start + (pos + 1)) ?xs = after_copy (c # s) (start + pos) xs"
      using False by (auto simp: after_copy_def escaped_Cons ends_in_control_Cons)
    ultimately show ?thesis using Cons.prems False by auto
  next
    case True
    let ?bs = "''u00'' @ [hex_char (of_char c div 16), hex_char (of_char c mod 16), CHR 0x00]" and ?left = "output_length - pos"
    let ?xs = "take (start + pos) xs @ ?bs @ drop (start + pos + length ?bs) xs"
    have left: "?left \<ge> 6" using Cons.prems True by auto
    then have bs: "take (?left - 1) (''u00'' @ [hex_char (of_char c div 16), hex_char (of_char c mod 16)]) @ [CHR 0x00] = ?bs" by simp
    have w: "buf_puts (Buf xs) (start + pos) ?bs = Some (Buf ?xs)" by (rule buf_puts_cells) (use Cons.prems left in simp)
    have len: "length ?xs = length xs" using Cons.prems left by simp
    have IH: "copy_string start output_length s (pos + 5) (Buf ?xs) = Some (Buf (after_copy s (start + (pos + 5)) ?xs))"
      using Cons.IH [of ?xs "pos + 5"] Cons.prems True len by auto
    have sp: "start + pos \<le> length xs" using Cons.prems by simp
    have t: "take (start + (pos + 5)) ?xs = take (start + pos) xs @ ''u00'' @ [hex_char (of_char c div 16), hex_char (of_char c mod 16)]"
      using sp by (simp add: del: hex_char.simps)
    have d: "drop (start + (pos + 5)) ?xs = CHR 0x00 # drop (start + pos + 6) xs" "k \<ge> 1 \<Longrightarrow> drop (start + (pos + 5) + k) ?xs = drop (start + pos + 5 + k) xs" for k
      by (rule skip_digits [OF sp refl])+
    have "after_copy s (start + (pos + 5)) ?xs = after_copy (c # s) (start + pos) xs"
    proof (cases "s = []")
      case True
      have "start + pos + 6 = start + pos + length (escaped [c]) + 1" using \<open>control c\<close> by (simp add: escaped_Cons del: hex_char.simps)
      then have e: "CHR 0x00 # drop (start + pos + 6) xs = CHR 0x00 # drop (start + pos + length (escaped [c]) + 1) xs" by (simp only:)
      have "after_copy s (start + (pos + 5)) ?xs = take (start + (pos + 5)) ?xs @ drop (start + (pos + 5)) ?xs" using True by (simp add: after_copy_def del: append_take_drop_id append.simps hex_char.simps)
      also have "\<dots> = after_copy (c # s) (start + pos) xs" unfolding t d(1) e using True \<open>control c\<close> by (simp add: after_copy_def escaped_Cons ends_in_control_Cons del: hex_char.simps)
      finally show ?thesis .
    next
      case False
      have "escaped s \<noteq> []" using False by (cases s) (auto simp: escaped_Cons)
      then have "length (escaped s) \<ge> 1" by (cases "escaped s") auto
      then have "drop (start + (pos + 5) + length (escaped s)) ?xs = drop (start + pos + 5 + length (escaped s)) xs"
        "drop (start + (pos + 5) + (length (escaped s) + 1)) ?xs = drop (start + pos + 5 + (length (escaped s) + 1)) xs" by (intro d(2); arith)+
      then show ?thesis using t False \<open>control c\<close> ends_in_control_Cons [of c s] escaped_Cons [of c s] by (intro shifted_copy) simp_all
    qed
    moreover have "\<not> output_length \<le> pos" using left by arith
    then have "copy_string start output_length (c # s) pos (Buf xs) = buf_puts (Buf xs) (start + pos) ?bs \<bind> copy_string start output_length s (pos + 5)"
      unfolding bs [symmetric] using True by (simp del: buf_puts.simps hex_char.simps append.simps)
    ultimately show ?thesis using IH w by (simp only: bind.bind_lunit)
  qed
qed (simp add: after_copy_def)

lemma string_prints:
  assumes "usable p"
  shows "prints p (pr_depth p) terminated (print_string_ptr a junk (Some s) p)"
proof -
  let ?n = "length s + escape_characters s"
  show ?thesis unfolding print_string_ptr_def option.case Let_def
  proof (rule prints_on_ok [OF ensure_prints [OF assms]])
    fix q assume q: "usable q" "pr_depth q = pr_depth p" "pr_offset q = pr_offset p \<and> pr_offset q + (?n + 1) + 1 \<le> pr_length q"
    obtain xs where xs: "pr_buffer q = Buf xs" "length xs = pr_length q" using q(1) by (auto simp: usable_def)
    let ?done = "\<lambda>ys. q\<lparr>pr_buffer := Buf ys\<rparr>"
    have fin: "prints q (pr_depth p) terminated (Some (True, ?done ys))" if "length ys = length xs" "ys ! (pr_offset q + k) = CHR 0x00" "k \<le> ?n" for ys k
    proof -
      have "drop (pr_offset q) ys ! k = CHR 0x00" "k < length (drop (pr_offset q) ys)" using that q(3) xs by auto
      then have "CHR 0x00 \<in> set (drop (pr_offset q) ys)" by (metis nth_mem)
      then show ?thesis using q xs that(1) by (intro prints_ok) (auto simp: later_def usable_def terminated_def)
    qed
    show "prints q (pr_depth p) terminated (if escape_characters s = 0 then do { p \<leftarrow> put (s @ [CHR 0x00]) q; Some (True, p) }
       else do { cells \<leftarrow> copy_string (pr_offset q) ?n s 0 (pr_buffer q); cells \<leftarrow> buf_write cells (pr_offset q + ?n) (CHR 0x00); Some (True, q\<lparr>pr_buffer := cells\<rparr>) })"
    proof (cases "escape_characters s = 0")
      case True
      let ?ys = "take (pr_offset q) xs @ (s @ [CHR 0x00]) @ drop (pr_offset q + length (s @ [CHR 0x00])) xs"
      have "put (s @ [CHR 0x00]) q = Some (?done ?ys)" by (rule put_cells [OF xs(1)]) (use q(3) xs True in simp)
      moreover have "prints q (pr_depth p) terminated (Some (True, ?done ?ys))" by (rule fin [of _ "length s"]) (use q(3) xs True in \<open>auto simp: nth_append\<close>)
      ultimately show ?thesis using True by simp
    next
      case False
      obtain ys where ys: "copy_string (pr_offset q) ?n s 0 (Buf xs) = Some (Buf ys)" "length ys = length xs"
        using copy_string_cells [of "pr_offset q" ?n xs 0 s] length_after_copy [of "pr_offset q" s xs] q(3) xs by auto
      have lt: "pr_offset q + ?n < length ys" using q(3) xs ys by simp
      then have "prints q (pr_depth p) terminated (Some (True, ?done (ys[pr_offset q + ?n := CHR 0x00])))" using ys(2) by (intro fin [of _ ?n]) auto
      with False ys(1) xs(1) lt show ?thesis by simp
    qed
  qed
qed

lemma c_string_shorter: "CHR 0x00 \<in> set xs \<Longrightarrow> length (c_string xs) < length xs"
  by (induction xs) (auto simp: c_string_def)

lemma update_offset_prints:
  assumes "usable p" "terminated p" and "\<And>q. usable q \<Longrightarrow> later p q \<Longrightarrow> pr_depth q = pr_depth p \<Longrightarrow> prints q d T (f q)"
  shows "prints p d T (update_offset p \<bind> f)"
proof -
  obtain xs where xs: "pr_buffer p = Buf xs" "CHR 0x00 \<in> set (drop (pr_offset p) xs)" "length xs = pr_length p" "pr_offset p < pr_length p"
    using assms(1,2) by (auto simp: usable_def terminated_def)
  let ?q = "p\<lparr>pr_offset := pr_offset p + length (c_string (drop (pr_offset p) xs))\<rparr>"
  have u: "update_offset p = Some ?q" using xs by (simp add: update_offset_def c_strlen_def)
  have "length (c_string (drop (pr_offset p) xs)) < length (drop (pr_offset p) xs)"
    by (rule c_string_shorter [OF xs(2)])
  then have "usable ?q" using xs by (auto simp: usable_def)
  moreover have l: "later p ?q" using xs by (simp add: later_def)
  ultimately have "prints ?q d T (f ?q)" using assms(3) by simp
  then show ?thesis using u l later_trans [OF l] by (auto simp: prints_def)
qed

abbreviation anything :: "printbuffer \<Rightarrow> bool" where "anything \<equiv> \<lambda>_. True"

lemma prints_weaken: "prints p d terminated r \<Longrightarrow> prints p d anything r"
  unfolding prints_def by blast

lemma prints_depth: "usable p \<Longrightarrow> prints (p\<lparr>pr_depth := n\<rparr>) d T r \<Longrightarrow> prints p d T r"
  unfolding prints_def later_def by simp

lemma usable_depth [simp]: "usable (p\<lparr>pr_depth := n\<rparr>) = usable p" "terminated (p\<lparr>pr_depth := n\<rparr>) = terminated p" "later p (p\<lparr>pr_depth := n\<rparr>) = later p p"
  by (simp_all add: usable_def terminated_def later_def)

text \<open>An array, or an object, around its children.\<close>

lemma bracket_prints:
  assumes p: "usable p" and bs: "n \<le> needed" "length bs \<le> needed + 1" "n \<le> length bs"
    and children: "\<And>q. usable q \<Longrightarrow> prints (q\<lparr>pr_depth := pr_depth q + 1\<rparr>) (pr_depth q + 1) anything (f (q\<lparr>pr_depth := pr_depth q + 1\<rparr>))"
    and close: "\<And>q. length (g q) \<le> m q + 1 \<and> CHR 0x00 \<in> set (g q)"
  shows "prints p (pr_depth p) terminated
    (on_ok (put_and_move a junk needed bs n p) (\<lambda>p. on_ok (f (p\<lparr>pr_depth := pr_depth p + 1\<rparr>)) (\<lambda>p. on_ok (put_and_move a junk (m p) (g p) 0 p) (\<lambda>p. Some (True, p\<lparr>pr_depth := pr_depth p - 1\<rparr>)))))"
proof (rule prints_on_ok [OF put_and_move_prints [OF p bs, of anything]])
  fix q assume q: "usable q" "pr_depth q = pr_depth p"
  let ?q = "q\<lparr>pr_depth := pr_depth q + 1\<rparr>"
  have "prints ?q (pr_depth p) terminated (on_ok (f ?q) (\<lambda>p. on_ok (put_and_move a junk (m p) (g p) 0 p) (\<lambda>p. Some (True, p\<lparr>pr_depth := pr_depth p - 1\<rparr>))))"
  proof (rule prints_on_ok [OF children])
    fix r assume r: "usable r" "pr_depth r = pr_depth q + 1"
    show "prints r (pr_depth p) terminated (on_ok (put_and_move a junk (m r) (g r) 0 r) (\<lambda>p. Some (True, p\<lparr>pr_depth := pr_depth p - 1\<rparr>)))"
    proof (rule prints_on_ok [OF put_and_move_prints [OF r(1), of _ _ _ terminated]])
      fix u assume u: "usable u" "pr_depth u = pr_depth r" "terminated u"
      show "prints u (pr_depth p) terminated (Some (True, u\<lparr>pr_depth := pr_depth u - 1\<rparr>))"
        by (rule prints_ok) (use u r q later_refl [OF u(1)] in simp_all)
    qed (use close in auto)
  qed (use q in simp)
  then show "prints q (pr_depth p) terminated (on_ok (f ?q) (\<lambda>p. on_ok (put_and_move a junk (m p) (g p) 0 p) (\<lambda>p. Some (True, p\<lparr>pr_depth := pr_depth p - 1\<rparr>))))"
    by (rule prints_depth [OF q(1)])
qed simp

text \<open>A separator after something that was printed.\<close>

lemma separator_prints:
  assumes q: "usable q" "terminated q" "pr_depth q = d" and sep: "\<And>p. k p \<le> m p \<and> length (b p) \<le> m p + 1 \<and> k p \<le> length (b p)"
    and g: "\<And>r. usable r \<Longrightarrow> pr_depth r = d \<Longrightarrow> prints r d T (g r)"
  shows "prints q d T (update_offset q \<bind> (\<lambda>p. on_ok (put_and_move a junk (m p) (b p) (k p) p) g))"
proof (rule update_offset_prints [OF q(1,2)])
  fix p assume p: "usable p" "pr_depth p = pr_depth q"
  show "prints p d T (on_ok (put_and_move a junk (m p) (b p) (k p) p) g)"
    by (rule prints_on_ok [OF put_and_move_prints [OF p(1), of _ _ _ anything]]) (use sep [of p] g p q in auto)
qed

lemma print_prints:
  "well_typed x \<Longrightarrow> usable p \<Longrightarrow> prints p (pr_depth p) terminated (print_value P a junk x p)"
  "\<forall>x\<in>set xs. well_typed x \<Longrightarrow> usable p \<Longrightarrow> prints p (pr_depth p) anything (print_elements P a junk xs p)"
  "\<forall>x\<in>set xs. well_typed x \<and> item_name x \<noteq> None \<Longrightarrow> usable p \<Longrightarrow> prints p (pr_depth p) anything (print_members P a junk xs p)"
proof (induction P a junk x p and P a junk xs p and P a junk xs p rule: print_value_print_elements_print_members.induct)
  case (1 P a junk t s i d n cs p)
  have "t \<in> {cJSON_False, cJSON_True, cJSON_NULL, cJSON_Number, cJSON_String, cJSON_Array, cJSON_Object}" using 1(3) by simp
  then consider "t = cJSON_False" | "t = cJSON_True" | "t = cJSON_NULL" | "t = cJSON_Number" | "t = cJSON_String" | "t = cJSON_Array" | "t = cJSON_Object" by blast
  then show ?case
  proof cases
    case 5
    then show ?thesis using string_prints [OF 1(4)] 1(3) by auto
  next
    case 6
    have "prints (q\<lparr>pr_depth := pr_depth q + 1\<rparr>) (pr_depth q + 1) anything (print_elements P a junk cs (q\<lparr>pr_depth := pr_depth q + 1\<rparr>))" if "usable q" for q
      using 1 6 that by simp
    with bracket_prints [OF 1(4), of 1 1 "''[''" "print_elements P a junk cs" "\<lambda>_. '']'' @ [CHR 0x00]" "\<lambda>_. 2" a junk] 6 show ?thesis by simp
  next
    case 7
    have "prints (q\<lparr>pr_depth := pr_depth q + 1\<rparr>) (pr_depth q + 1) anything (print_members P a junk cs (q\<lparr>pr_depth := pr_depth q + 1\<rparr>))" if "usable q" for q
      using 1 7 that by simp
    with bracket_prints [OF 1(4), of "length bs" "length bs + 1" bs "print_members P a junk cs"
        "\<lambda>p. (if pr_format p then replicate (pr_depth p - 1) (CHR 0x09) else []) @ ''}'' @ [CHR 0x00]" "\<lambda>p. if pr_format p then pr_depth p + 1 else 2" a junk for bs]
      7 show ?thesis by (simp add: Let_def)
  qed (use literal_prints [OF 1(4)] number_prints [OF 1(4)] in simp_all)
next
  case (2 P a junk p)
  then show ?case using prints_ok later_refl by simp
next
  case (3 P a junk x xs p)
  have v: "prints p (pr_depth p) terminated (print_value P a junk x p)" using 3(1,3,4) by simp
  show ?case
  proof (cases "xs = []")
    case True
    have "prints p (pr_depth p) anything (on_ok (print_value P a junk x p) (\<lambda>p. update_offset p \<bind> (\<lambda>p. Some (True, p))))"
      by (rule prints_on_ok [OF v], rule update_offset_prints) (auto intro: prints_ok later_refl)
    then show ?thesis using True by simp
  next
    case False
    let ?bs = "\<lambda>p. if pr_format p then '', '' else '',''"
    have ih: "prints r (pr_depth p) anything (print_elements P a junk xs r)" if "usable r" "pr_depth r = pr_depth p" for r
      using 3(2) [of "p\<lparr>pr_buffer := NULL\<rparr>" "p\<lparr>pr_buffer := NULL\<rparr>", OF _ False refl, of r] 3(3) that by (simp add: update_offset_def)
    have "prints p (pr_depth p) anything (on_ok (print_value P a junk x p) (\<lambda>p. update_offset p \<bind>
        (\<lambda>p. on_ok (put_and_move a junk (length (?bs p) + 1) (?bs p @ [CHR 0x00]) (length (?bs p)) p) (print_elements P a junk xs))))"
      by (rule prints_on_ok [OF v], rule separator_prints) (use ih in auto)
    then show ?thesis using False by (simp add: Let_def)
  qed
next
  case (4 P a junk p)
  then show ?case using prints_ok later_refl by simp
next
  case (5 P a junk x xs p)
  obtain nm where nm: "item_name x = Some nm" using 5(3) by auto
  have tabs: "prints p (pr_depth p) anything (if pr_format p then put_and_move a junk (pr_depth p) (replicate (pr_depth p) (CHR 0x09)) (pr_depth p) p else Some (True, p))"
    using put_and_move_prints [OF 5(4), of "pr_depth p" "pr_depth p" "replicate (pr_depth p) (CHR 0x09)" anything] prints_ok [OF later_refl [OF 5(4)] 5(4)] by simp
  let ?colon = "\<lambda>p. if pr_format p then '':'' @ [CHR 0x09] else '':''" and ?comma = "\<lambda>p. (if xs = [] then [] else '','') @ (if pr_format p then [CHR 0x0A] else [])"
  let ?last = "\<lambda>p. update_offset p \<bind> (\<lambda>p. on_ok (put_and_move a junk (length (?comma p) + 1) (?comma p @ [CHR 0x00]) (length (?comma p)) p) (print_members P a junk xs))"
  let ?p0 = "p\<lparr>pr_buffer := NULL\<rparr>"
  have u: "update_offset ?p0 = Some ?p0" by (simp add: update_offset_def)
  have ih: "prints r (pr_depth p) anything (print_members P a junk xs r)" if "usable r" "pr_depth r = pr_depth p" for r
    using 5(2) [OF u refl u refl, of r] 5(3) that by simp
  have fin: "prints r (pr_depth p) anything (on_ok (print_value P a junk x r) ?last)" if r: "usable r" "pr_depth r = pr_depth p" for r
  proof -
    have v: "prints r (pr_depth p) terminated (print_value P a junk x r)" using 5(1) [OF u refl, of r] 5(3) r by simp
    show ?thesis by (rule prints_on_ok [OF v], rule separator_prints) (use ih r in auto)
  qed
  have "prints p (pr_depth p) anything (on_ok
      (if pr_format p then put_and_move a junk (pr_depth p) (replicate (pr_depth p) (CHR 0x09)) (pr_depth p) p else Some (True, p))
      (\<lambda>p. on_ok (print_string_ptr a junk (item_name x) p) (\<lambda>p. update_offset p \<bind>
        (\<lambda>p. on_ok (put_and_move a junk (length (?colon p)) (?colon p) (length (?colon p)) p) (\<lambda>p. on_ok (print_value P a junk x p) ?last)))))"
  proof (rule prints_on_ok [OF tabs])
    fix q assume q: "usable q" "pr_depth q = pr_depth p"
    have name: "prints q (pr_depth p) terminated (print_string_ptr a junk (item_name x) q)" using string_prints [OF q(1), of a junk nm] nm q(2) by simp
    show "prints q (pr_depth p) anything (on_ok (print_string_ptr a junk (item_name x) q) (\<lambda>p. update_offset p \<bind>
        (\<lambda>p. on_ok (put_and_move a junk (length (?colon p)) (?colon p) (length (?colon p)) p) (\<lambda>p. on_ok (print_value P a junk x p) ?last))))"
      by (rule prints_on_ok [OF name], rule separator_prints) (use fin in auto)
  qed
  then show ?case by (simp add: Let_def)
qed

lemma print_safe:
  assumes x: "well_typed item"
  shows "\<exists>r oom' h'. cJSON_print P a junk item format oom h = Some (r, oom', h') \<and>
     (case r of None \<Rightarrow> live h' = live h | Some bs \<Rightarrow> CHR 0x00 \<in> set bs \<and> live h' = live h + 1)"
proof (cases "succeeds h")
  case False
  then have "cJSON_print P a junk item format oom h = Some (None, True, tick h)" by (simp add: cJSON_print_def loader_calloc_def)
  then show ?thesis by (intro exI [of _ None] exI [of _ True]) simp
next
  case True
  let ?p = "\<lparr>pr_buffer = Buf (replicate 256 (CHR 0x00)), pr_length = 256, pr_offset = 0, pr_depth = 0, pr_noalloc = False, pr_format = format, pr_oom = oom, pr_heap = add_live 1 (tick h)\<rparr>"
  have "usable ?p" by (simp add: usable_def)
  from print_prints(1) [OF x this, of P a junk] obtain ok p where p: "print_value P a junk item ?p = Some (ok, p)" "later ?p p" "ok \<Longrightarrow> usable p \<and> terminated p"
    by (auto simp: prints_def)
  have run: "cJSON_print P a junk item format oom h =
      (if \<not> ok then do { h \<leftarrow> loader_free a (pr_buffer p) (pr_heap p); Some (None, pr_oom p, h) }
       else do {
         p \<leftarrow> update_offset p;
         (printed, old, h) \<leftarrow> loader_realloc a (CHR 0x00) junk (pr_buffer p) (pr_length p) (pr_offset p + 1) (pr_heap p);
         (case printed of Buf cells \<Rightarrow> Some (Some cells, pr_oom p, h) | _ \<Rightarrow> do { h \<leftarrow> loader_free a old h; Some (None, True, h) })
       })" using True p(1) by (simp add: cJSON_print_def loader_calloc_def)
  show ?thesis
  proof (cases ok)
    case False
    then show ?thesis using run p(2) by (cases "pr_buffer p") (auto simp: later_def)
  next
    case ok: True
    then obtain xs where xs: "pr_buffer p = Buf xs" "CHR 0x00 \<in> set (drop (pr_offset p) xs)" "length xs = pr_length p" "pr_offset p < pr_length p"
      using p(3) by (auto simp: usable_def terminated_def)
    let ?n = "length (c_string (drop (pr_offset p) xs))"
    let ?off = "pr_offset p + ?n"
    have u: "update_offset p = Some (p\<lparr>pr_offset := ?off\<rparr>)" using xs by (simp add: update_offset_def c_strlen_def)
    have n: "?n < length (drop (pr_offset p) xs)" by (rule c_string_shorter [OF xs(2)])
    then have off: "?off < length xs" by simp
    have "drop (pr_offset p) xs ! ?n = CHR 0x00" using nth_length_takeWhile [of "\<lambda>c. c \<noteq> CHR 0x00" "drop (pr_offset p) xs"] n by (simp add: c_string_def)
    then have nul: "xs ! ?off = CHR 0x00" using xs by simp
    have live: "live (pr_heap p) = live h + 1" using p(2) xs(1) by (simp add: later_def)
    show ?thesis
    proof (cases "succeeds (pr_heap p)")
      case False
      then have "cJSON_print P a junk item format oom h = Some (None, True, add_live (- 1) (tick (pr_heap p)))" using run ok u xs by simp
      then show ?thesis using live by (intro exI [of _ None] exI [of _ True]) simp
    next
      case yes: True
      have r: "resized c (?off + 1) xs = take (?off + 1) xs" for c using off by (simp add: resized_def)
      have "CHR 0x00 \<in> set (take (?off + 1) xs)" using off nul by (simp add: take_Suc_conv_app_nth)
      then show ?thesis using run ok u xs live yes r by (cases "case a of None \<Rightarrow> False | Some cb \<Rightarrow> pfnReallocation cb") simp_all
    qed
  qed
qed

section \<open>What printing a string gives\<close>

abbreviation printable :: "string \<Rightarrow> bool" where
  "printable s \<equiv> CHR 0x00 \<notin> set s \<and> list_all (\<lambda>c. of_char c \<ge> (32 :: nat) \<or> needs_escape c) s"

abbreviation by_callback :: "allocator \<Rightarrow> bool" where
  "by_callback a \<equiv> (case a of None \<Rightarrow> False | Some cb \<Rightarrow> pfnReallocation cb)"

lemma c_string_append: "CHR 0x00 \<notin> set u \<Longrightarrow> c_string (u @ CHR 0x00 # v) = u"
  unfolding c_string_def by (induction u) auto

lemma c_string_at:
  assumes "take n xs = u" "n < length xs" "xs ! n = CHR 0x00" "CHR 0x00 \<notin> set u"
  shows "c_string xs = u"
proof -
  have "xs = u @ CHR 0x00 # drop (Suc n) xs" using assms id_take_nth_drop [OF assms(2)] by simp
  then show ?thesis using c_string_append [OF assms(4)] by metis
qed

text \<open>The memory of \<^verbatim>\<open>print\<close> once there is room for a string: zeros, and behind the first 256 bytes what a reallocation left.\<close>

definition print_memory :: "allocator \<Rightarrow> char \<Rightarrow> nat \<Rightarrow> string" where
  "print_memory a junk n = (if n + 2 \<le> 256 then replicate 256 (CHR 0x00) else resized (if by_callback a then junk else CHR 0x00) ((n + 2) * 2) (replicate 256 (CHR 0x00)))"

abbreviation print_start :: "bool \<Rightarrow> heap \<Rightarrow> printbuffer" where
  "print_start oom h \<equiv> \<lparr>pr_buffer = Buf (replicate 256 (CHR 0x00)), pr_length = 256, pr_offset = 0, pr_depth = 0, pr_noalloc = False, pr_format = True, pr_oom = oom, pr_heap = h\<rparr>"

lemma length_print_memory: "n + 1 < length (print_memory a junk n)"
  by (simp add: print_memory_def)

lemma ensure_start:
  assumes "n + 2 \<le> INT_MAX div 2"
  shows "ensure a junk (n + 1) (print_start oom h) =
    (if n + 2 \<le> 256 then Some (True, print_start oom h)
     else if succeeds h then Some (True, (print_start oom h)\<lparr>pr_buffer := Buf (print_memory a junk n), pr_length := length (print_memory a junk n), pr_heap := tick h\<rparr>)
     else Some (False, (print_start True (add_live (- 1) (tick h)))\<lparr>pr_length := 0, pr_buffer := NULL\<rparr>))"
  using assms by (auto simp: ensure_def print_memory_def Let_def)

lemma escaped_plain: "list_all (\<lambda>c. \<not> control c) s \<Longrightarrow> escaped s = s \<and> \<not> ends_in_control s"
  by (induction s) (auto simp: escaped_Cons ends_in_control_Cons simp del: hex_char.simps)

lemma printable_plain: "printable s \<Longrightarrow> list_all (\<lambda>c. \<not> control c) s"
  by (auto simp: list_all_iff)

lemma no_escapes_plain: "escape_characters s = 0 \<Longrightarrow> list_all (\<lambda>c. \<not> control c) s"
  by (induction s) (auto split: if_splits)

lemma print_string_cells:
  assumes n: "n = length s + escape_characters s" and e: "ensure a junk (n + 1) p = Some (True, q)" "pr_buffer q = Buf m" "pr_offset q = 0" and len: "n + 1 < length m"
  shows "print_string_ptr a junk (Some s) p = Some (True, q\<lparr>pr_buffer := Buf ((after_copy s 0 m)[n := CHR 0x00])\<rparr>)"
proof (cases "escape_characters s = 0")
  case True
  then have "put (s @ [CHR 0x00]) q = Some (q\<lparr>pr_buffer := Buf (s @ [CHR 0x00] @ drop (length s + 1) m)\<rparr>)"
    using put_cells [of q m "s @ [CHR 0x00]"] len n e by simp
  moreover have "(after_copy s 0 m)[n := CHR 0x00] = s @ [CHR 0x00] @ drop (length s + 1) m"
    using escaped_plain [OF no_escapes_plain [OF True]] n True len by (simp add: after_copy_def list_update_append Cons_nth_drop_Suc [symmetric])
  ultimately show ?thesis using e(1) True n by (simp add: print_string_ptr_def on_ok_def)
next
  case False
  have "copy_string 0 n s 0 (Buf m) = Some (Buf (after_copy s 0 m))" using copy_string_cells [of 0 n m 0 s] n len by simp
  moreover have "n < length (after_copy s 0 m)" using length_after_copy [of 0 s m] len n by simp
  ultimately show ?thesis using e False n len by (simp add: print_string_ptr_def on_ok_def Let_def)
qed

lemma print_string_memory:
  assumes s: "printable s" and "n = length s + escape_characters s" "ensure a junk (n + 1) p = Some (True, q)" "pr_buffer q = Buf m" "pr_offset q = 0" "n + 1 < length m"
  shows "print_string_ptr a junk (Some s) p = Some (True, q\<lparr>pr_buffer := Buf ((s @ drop (length s) m)[n := CHR 0x00])\<rparr>)"
  using print_string_cells [OF assms(2-6)] escaped_plain [OF printable_plain [OF s]] by (simp add: after_copy_def)

text \<open>The end of \<^verbatim>\<open>print\<close>: the memory is cut to the string.\<close>

lemma print_finish:
  assumes p: "print_value P a junk item (print_start oom (add_live 1 (tick h))) = Some (True, q)" and h: "succeeds h"
    and q: "pr_buffer q = Buf ys" "pr_length q = length ys" "pr_offset q = 0" "pr_oom q = oom" "live (pr_heap q) = live h + 1" "CHR 0x00 \<in> set ys"
  shows "\<exists>r oom' h'. loader_cJSON_Print P a junk item oom h = Some (r, oom', h') \<and> outcomes h' = outcomes (pr_heap q) \<and>
    (case r of None \<Rightarrow> \<not> succeeds (pr_heap q) \<and> oom' \<and> live h' = live h | Some bs \<Rightarrow> oom' = oom \<and> live h' = live h + 1 \<and> c_string bs = c_string ys)"
proof -
  define c where "c = c_string ys"
  have k: "length c < length ys" unfolding c_def by (rule c_string_shorter [OF q(6)])
  have "take (length c) ys = c" unfolding c_def c_string_def by (rule takeWhile_eq_take [symmetric])
  moreover have "ys ! length c = CHR 0x00" using nth_length_takeWhile [of "\<lambda>c. c \<noteq> CHR 0x00" ys] k by (simp add: c_def c_string_def)
  ultimately have "take (length c + 1) ys = c @ [CHR 0x00]" using k by (simp add: take_Suc_conv_app_nth)
  moreover have "CHR 0x00 \<notin> set c" by (auto simp: c_def c_string_def dest: set_takeWhileD)
  ultimately have cs: "c_string (take (length c + 1) ys) = c" using c_string_append [of c "[]"] by simp
  have cut: "resized x (length c + 1) ys = take (length c + 1) ys" for x using k by (simp add: resized_def)
  have ys: "ys \<noteq> []" using q(6) by auto
  have run: "loader_cJSON_Print P a junk item oom h = (case loader_realloc a (CHR 0x00) junk (Buf ys) (length ys) (length c + 1) (pr_heap q) of
      None \<Rightarrow> None | Some (printed, old, h) \<Rightarrow> (case printed of Buf cells \<Rightarrow> Some (Some cells, oom, h) | _ \<Rightarrow> do { h \<leftarrow> loader_free a old h; Some (None, True, h) }))"
    using p h q unfolding loader_cJSON_Print_def cJSON_print_def loader_calloc_def
    by (simp add: update_offset_def c_strlen_def c_def [symmetric] del: loader_realloc.simps split: option.split buf.split)
  show ?thesis
  proof (cases "succeeds (pr_heap q)")
    case True
    then have "loader_cJSON_Print P a junk item oom h = Some (Some (take (length c + 1) ys), oom, tick (pr_heap q))" using run ys cut by simp
    then show ?thesis using cs q(5) c_def by auto
  next
    case False
    then have "loader_cJSON_Print P a junk item oom h = Some (None, True, add_live (- 1) (tick (pr_heap q)))" using run ys by simp
    then show ?thesis using False q(5) by (intro exI [of _ None] exI [of _ True] exI [of _ "add_live (- 1) (tick (pr_heap q))"]) simp
  qed
qed

lemma print_string_outcome:
  assumes t: "ctype item AND 0xFF = cJSON_String" "valuestring item = Some s" and n: "n = length s + escape_characters s" "n + 2 \<le> INT_MAX div 2"
  shows "\<exists>r oom' h'. loader_cJSON_Print P a junk item oom h = Some (r, oom', h') \<and> outcomes h' = outcomes h \<and>
    (case r of None \<Rightarrow> (\<exists>k. \<not> outcomes h k) \<and> oom' \<and> live h' = live h
     | Some bs \<Rightarrow> oom' = oom \<and> live h' = live h + 1 \<and> c_string bs = c_string ((after_copy s 0 (print_memory a junk n))[n := CHR 0x00]))"
proof -
  let ?h = "add_live 1 (tick h)" and ?m = "print_memory a junk n"
  have v: "print_value P a junk item p = print_string_ptr a junk (Some s) p" for p using t by (cases item) simp
  have fail: ?thesis if "loader_cJSON_Print P a junk item oom h = Some (None, True, h')" "\<not> outcomes h k" "outcomes h' = outcomes h" "live h' = live h" for h' k
    using that by (intro exI [of _ None] exI [of _ True] exI [of _ h']) auto
  show ?thesis
  proof (cases "succeeds h \<and> (n + 2 \<le> 256 \<or> succeeds ?h)")
    case True
    define q where "q = (if n + 2 \<le> 256 then print_start oom ?h else (print_start oom ?h)\<lparr>pr_buffer := Buf ?m, pr_length := length ?m, pr_heap := tick ?h\<rparr>)"
    have e: "ensure a junk (n + 1) (print_start oom ?h) = Some (True, q)" using True ensure_start [OF n(2), of a junk oom ?h] by (auto simp: q_def)
    have q: "pr_buffer q = Buf ?m" "pr_offset q = 0" "pr_length q = length ?m" "pr_oom q = oom" "live (pr_heap q) = live h + 1" "outcomes (pr_heap q) = outcomes h"
      by (auto simp: q_def print_memory_def)
    define ys where "ys = (after_copy s 0 ?m)[n := CHR 0x00]"
    have "n < length (after_copy s 0 ?m)" "length (after_copy s 0 ?m) = length ?m" using length_after_copy [of 0 s ?m] length_print_memory [of n a junk] n(1) by simp_all
    then have len: "n < length ys" "length ys = length ?m" and nul: "CHR 0x00 \<in> set ys"
      unfolding ys_def by (simp_all, metis length_list_update nth_list_update_eq nth_mem)
    have "print_value P a junk item (print_start oom ?h) = Some (True, q\<lparr>pr_buffer := Buf ys\<rparr>)"
      unfolding v ys_def by (rule print_string_cells [OF n(1) e q(1,2) length_print_memory])
    from print_finish [OF this conjunct1 [OF True], of ys] have "\<exists>r oom' h'. loader_cJSON_Print P a junk item oom h = Some (r, oom', h') \<and> outcomes h' = outcomes (pr_heap (q\<lparr>pr_buffer := Buf ys\<rparr>)) \<and>
        (case r of None \<Rightarrow> \<not> succeeds (pr_heap (q\<lparr>pr_buffer := Buf ys\<rparr>)) \<and> oom' \<and> live h' = live h | Some bs \<Rightarrow> oom' = oom \<and> live h' = live h + 1 \<and> c_string bs = c_string ys)"
      using q len nul by simp
    then obtain r oom' h' where
      r: "loader_cJSON_Print P a junk item oom h = Some (r, oom', h')" "outcomes h' = outcomes h"
        "case r of None \<Rightarrow> \<not> succeeds (pr_heap (q\<lparr>pr_buffer := Buf ys\<rparr>)) \<and> oom' \<and> live h' = live h | Some bs \<Rightarrow> oom' = oom \<and> live h' = live h + 1 \<and> c_string bs = c_string ys"
      using q(6) by auto
    show ?thesis
    proof (cases r)
      case None
      then show ?thesis using r q(6) fail [of h' "clock (pr_heap q)"] by (simp add: succeeds_def)
    next
      case (Some bs)
      then show ?thesis using r by (auto simp: ys_def)
    qed
  next
    case no: False
    show ?thesis
    proof (cases "succeeds h")
      case False
      then have "loader_cJSON_Print P a junk item oom h = Some (None, True, tick h)" by (simp add: loader_cJSON_Print_def cJSON_print_def loader_calloc_def)
      from fail [OF this, of "clock h"] False show ?thesis by (simp add: succeeds_def)
    next
      case True
      with no have big: "\<not> n + 2 \<le> 256" "\<not> succeeds ?h" by auto
      then have "ensure a junk (n + 1) (print_start oom ?h) = Some (False, (print_start True (add_live (- 1) (tick ?h)))\<lparr>pr_length := 0, pr_buffer := NULL\<rparr>)"
        using ensure_start [OF n(2), of a junk oom ?h] by simp
      then have "loader_cJSON_Print P a junk item oom h = Some (None, True, add_live (- 1) (tick ?h))"
        using True n(1) by (simp add: loader_cJSON_Print_def cJSON_print_def loader_calloc_def v print_string_ptr_def on_ok_def)
      from fail [OF this, of "clock ?h"] big(2) show ?thesis by (simp add: succeeds_def)
    qed
  qed
qed

lemma print_memory_nth: "i < length (print_memory a junk n) \<Longrightarrow> print_memory a junk n ! i = (if i < 256 \<or> \<not> by_callback a then CHR 0x00 else junk)"
  by (auto simp: print_memory_def resized_def nth_append)

text \<open>The string that comes out of \<^verbatim>\<open>loader_cJSON_Print\<close>.  The terminating zero is put where the string would end with a backslash for every escape; what lies before it is zero, but in memory
  from a reallocation callback.\<close>

definition copied :: "allocator \<Rightarrow> char \<Rightarrow> string \<Rightarrow> string" where
  "copied a junk s = escaped s @
     (if by_callback a \<and> junk \<noteq> CHR 0x00 \<and> 256 \<le> length (escaped s) \<and> \<not> ends_in_control s
      then replicate (length s + escape_characters s - length (escaped s)) junk else [])"

lemma escaped_no_zero: "CHR 0x00 \<notin> set s \<Longrightarrow> CHR 0x00 \<notin> set (escaped s)"
proof (induction s)
  case (Cons c s)
  have "CHR 0x00 \<notin> set ''0123456789abcdef''" by simp
  moreover have "\<forall>i < 16. ''0123456789abcdef'' ! i \<in> set ''0123456789abcdef''" using nth_mem [of _ "''0123456789abcdef''"] by simp
  ultimately have "hex_char (of_char c div 16) \<noteq> CHR 0x00" "hex_char (of_char c mod 16) \<noteq> CHR 0x00"
    unfolding hex_chars using high_digit [of c] by (metis, metis mod_less_divisor zero_less_numeral)
  then show ?case using Cons by (simp add: escaped_Cons del: hex_char.simps)
qed simp

lemma print_copied:
  assumes s: "CHR 0x00 \<notin> set s" and n: "n = length s + escape_characters s"
  shows "c_string ((after_copy s 0 (print_memory a junk n))[n := CHR 0x00]) = copied a junk s"
proof -
  let ?m = "print_memory a junk n" and ?l = "length (escaped s)"
  let ?ys = "(after_copy s 0 ?m)[n := CHR 0x00]"
  have len: "n + 1 < length ?m" by (rule length_print_memory)
  have l: "?l + (if ends_in_control s then 1 else 0) \<le> n" using length_escaped [of s] n by simp
  have ys: "length ?ys = length ?m" using length_after_copy [of 0 s ?m] len n by simp
  have tk: "take ?l ?ys = escaped s" using l by (simp add: after_copy_def)
  have nth: "?ys ! i = (if i = n then CHR 0x00 else if i = ?l \<and> ends_in_control s then CHR 0x00 else ?m ! i)" if "?l \<le> i" "i < length ?m" for i
  proof -
    let ?t = "if ends_in_control s then CHR 0x00 # drop (?l + 1) ?m else drop ?l ?m"
    have "after_copy s 0 ?m ! i = ?t ! (i - ?l)" using that(1) by (simp add: after_copy_def nth_append)
    moreover have "?t ! (i - ?l) = (if i = ?l \<and> ends_in_control s then CHR 0x00 else ?m ! i)"
      using that by (cases "i = ?l") (simp_all add: nth_Cons')
    moreover have "i < length (after_copy s 0 ?m)" using ys that(2) by simp
    ultimately show ?thesis by (simp add: nth_list_update)
  qed
  show ?thesis
  proof (cases "by_callback a \<and> junk \<noteq> CHR 0x00 \<and> 256 \<le> ?l \<and> \<not> ends_in_control s")
    case False
    have "?ys ! ?l = CHR 0x00" using nth [of ?l] l len False print_memory_nth [of ?l a junk n] by auto
    then have "c_string ?ys = escaped s" by (intro c_string_at [of ?l]) (use tk l len ys escaped_no_zero [OF s] in auto)
    then show ?thesis using False by (auto simp: copied_def)
  next
    case True
    have "take n ?ys = escaped s @ replicate (n - ?l) junk"
    proof (rule nth_equalityI)
      show "length (take n ?ys) = length (escaped s @ replicate (n - ?l) junk)" using ys len l by simp
      fix i assume i: "i < length (take n ?ys)"
      show "take n ?ys ! i = (escaped s @ replicate (n - ?l) junk) ! i"
      proof (cases "i < ?l")
        case i: True
        then have "?ys ! i = escaped s ! i" using tk by (metis nth_take)
        then show ?thesis using i l by (simp add: nth_append)
      next
        case i': False
        then show ?thesis using i nth [of i] True len ys print_memory_nth [of i a junk n] by (auto simp: nth_append)
      qed
    qed
    then have "c_string ?ys = escaped s @ replicate (n - ?l) junk"
      by (rule c_string_at) (use len ys nth [of n] l True escaped_no_zero [OF s] in auto)
    then show ?thesis using True n by (simp add: copied_def)
  qed
qed

text \<open>A string without such control characters comes out as it is, unless it has 256 bytes or more, escapes, and memory from a reallocation callback.\<close>

lemma copied_plain:
  assumes "printable s" "escape_characters s = 0 \<or> length s < 256 \<or> \<not> by_callback a"
  shows "copied a junk s = s"
  using escaped_plain [OF printable_plain [OF assms(1)]] assms(2) by (auto simp: copied_def)

lemma copied_garbage: "printable s \<Longrightarrow> by_callback a \<Longrightarrow> 256 \<le> length s \<Longrightarrow> junk \<noteq> CHR 0x00 \<Longrightarrow> copied a junk s = s @ replicate (escape_characters s) junk"
  using escaped_plain [OF printable_plain] by (simp add: copied_def)

lemma print_string_copied:
  assumes "ctype item AND 0xFF = cJSON_String" "valuestring item = Some s" "CHR 0x00 \<notin> set s" "length s + escape_characters s + 2 \<le> INT_MAX div 2"
  shows "\<exists>r oom' h'. loader_cJSON_Print P a junk item oom h = Some (r, oom', h') \<and> outcomes h' = outcomes h \<and>
    (case r of None \<Rightarrow> (\<exists>k. \<not> outcomes h k) \<and> oom' \<and> live h' = live h | Some bs \<Rightarrow> oom' = oom \<and> live h' = live h + 1 \<and> c_string bs = copied a junk s)"
  using print_string_outcome [OF assms(1,2) refl assms(4)] unfolding print_copied [OF assms(3) refl] .

section \<open>Properties\<close>

text \<open>C24: 
  Printing any tree that parsing can give, formatted or not, and whatever the allocator answers: the printer writes and reads only inside its memory, it returns a terminated string or a null pointer,
  and it keeps exactly the memory of that string.
\<close>

theorem json_print_safe:
  assumes "well_typed item"
  shows "\<exists>r oom' h'. cJSON_print P a junk item format oom h = Some (r, oom', h') \<and>
     (case r of None \<Rightarrow> live h' = live h | Some bs \<Rightarrow> CHR 0x00 \<in> set bs \<and> live h' = live h + 1)"
  by (rule print_safe [OF assms])

definition sample_printf :: "int printf" where
  "sample_printf = \<lparr>is_special = (\<lambda>_. False), equals_int = (=), format_15g = decimal_int, format_17g = decimal_int, scan_lg = (\<lambda>_. None), compare_double = (=), zero_double = 0\<rparr>"

theorem json_print_safe_witness:
  "\<exists>r oom' h'. cJSON_print sample_printf None (CHR ''x'') sample_tree True False (sample_heap True) = Some (r, oom', h') \<and>
     (case r of None \<Rightarrow> live h' = live (sample_heap True) | Some bs \<Rightarrow> CHR 0x00 \<in> set bs \<and> live h' = live (sample_heap True) + 1)"
  by (rule json_print_safe) simp

text \<open>C40: 
  The escapes that are counted and not written: a string of 256 bytes or more with a backslash or a quote in it, printed with the application's reallocation callback, comes out with one byte of whatever
  the callback's memory held for each of them behind it.  With no callback, or for a shorter string, it comes out as it is (\<open>copied_plain\<close>).
\<close>

theorem printed_string_has_garbage:
  assumes "printable s" and "ctype item AND 0xFF = cJSON_String" and "valuestring item = Some s" and "256 \<le> length s" and "length s + escape_characters s + 2 \<le> INT_MAX div 2"
    and "by_callback a" and "junk \<noteq> CHR 0x00" and "\<forall>k. outcomes h k"
  shows "\<exists>bs h'. loader_cJSON_Print P a junk item oom h = Some (Some bs, oom, h') \<and> c_string bs = s @ replicate (escape_characters s) junk"
  using print_string_copied [OF assms(2,3) conjunct1 [OF assms(1)] assms(5), of P a junk oom h] copied_garbage [OF assms(1,6,4,7)] assms(8)
  by (auto split: option.splits)

theorem printed_string_has_garbage_witness:
  "\<exists>bs h'. loader_cJSON_Print sample_printf (Some \<lparr>pfnAllocation = True, pfnReallocation = True, pfnFree = True\<rparr>) (CHR ''x'')
     (CJSON cJSON_String (Some (CHR 0x5C # replicate 255 (CHR ''a''))) 0 None None []) False (sample_heap True) = Some (Some bs, False, h') \<and>
     c_string bs = (CHR 0x5C # replicate 255 (CHR ''a'')) @ replicate (escape_characters (CHR 0x5C # replicate 255 (CHR ''a''))) (CHR ''x'')"
proof -
  have e: "escape_characters (replicate k (CHR ''a'')) = 0" for k by (induction k) (simp_all add: needs_escape_def)
  show ?thesis by (rule printed_string_has_garbage) (simp_all add: e needs_escape_def list_all_iff)
qed

end
