(* ===== verification/JsonAccess.thy ===== *)
theory JsonAccess
  imports JsonGrammar JsonPrint
begin

text \<open>
  The queries of \<^verbatim>\<open>cJSON.c\<close> and the functions of \<^verbatim>\<open>loader_json.c\<close> through which the loader reads manifests: a file is read and parsed, members are found by name, and their strings copied by printing them.
  The file system is a parameter.  A null pointer is \<open>None\<close>.
\<close>

unbundle bit_operations_syntax

section \<open>Queries\<close>

definition has_type :: "nat \<Rightarrow> 'd cJSON option \<Rightarrow> bool" where
  "has_type t item = (case item of None \<Rightarrow> False | Some x \<Rightarrow> ctype x AND 0xFF = t)"

definition loader_cJSON_IsInvalid :: "'d cJSON option \<Rightarrow> bool" where "loader_cJSON_IsInvalid item = has_type cJSON_Invalid item"
definition loader_cJSON_IsFalse :: "'d cJSON option \<Rightarrow> bool" where "loader_cJSON_IsFalse item = has_type cJSON_False item"
definition loader_cJSON_IsTrue :: "'d cJSON option \<Rightarrow> bool" where "loader_cJSON_IsTrue item = has_type cJSON_True item"
definition loader_cJSON_IsBool :: "'d cJSON option \<Rightarrow> bool" where
  "loader_cJSON_IsBool item = (case item of None \<Rightarrow> False | Some x \<Rightarrow> ctype x AND (cJSON_True OR cJSON_False) \<noteq> 0)"
definition loader_cJSON_IsNull :: "'d cJSON option \<Rightarrow> bool" where "loader_cJSON_IsNull item = has_type cJSON_NULL item"
definition loader_cJSON_IsNumber :: "'d cJSON option \<Rightarrow> bool" where "loader_cJSON_IsNumber item = has_type cJSON_Number item"
definition loader_cJSON_IsString :: "'d cJSON option \<Rightarrow> bool" where "loader_cJSON_IsString item = has_type cJSON_String item"
definition loader_cJSON_IsArray :: "'d cJSON option \<Rightarrow> bool" where "loader_cJSON_IsArray item = has_type cJSON_Array item"
definition cJSON_IsObject :: "'d cJSON option \<Rightarrow> bool" where "cJSON_IsObject item = has_type cJSON_Object item"
definition loader_cJSON_IsRaw :: "'d cJSON option \<Rightarrow> bool" where "loader_cJSON_IsRaw item = has_type cJSON_Raw item"

definition loader_cJSON_GetStringValue :: "'d cJSON option \<Rightarrow> string option" where
  "loader_cJSON_GetStringValue item = (if \<not> loader_cJSON_IsString item then None else Option.bind item valuestring)"

text \<open>\<open>nan\<close> is the number that is none; the number of an item with none is the zero it was allocated with.\<close>

definition loader_cJSON_GetNumberValue :: "'d \<Rightarrow> 'd \<Rightarrow> 'd cJSON option \<Rightarrow> 'd" where
  "loader_cJSON_GetNumberValue nan zero item =
     (if \<not> loader_cJSON_IsNumber item then nan else (case Option.bind item valuedouble of None \<Rightarrow> zero | Some d \<Rightarrow> d))"

definition c_tolower :: "char \<Rightarrow> int" where
  "c_tolower c = (let n = of_char c :: int in if 65 \<le> n \<and> n \<le> 90 then n + 32 else n)"

fun compare_lower :: "string \<Rightarrow> string \<Rightarrow> int" where
  "compare_lower [] [] = 0"
| "compare_lower [] (d # ds) = - c_tolower d"
| "compare_lower (c # cs) [] = c_tolower c"
| "compare_lower (c # cs) (d # ds) = (if c_tolower c = c_tolower d then compare_lower cs ds else c_tolower c - c_tolower d)"

definition case_insensitive_strcmp :: "string option \<Rightarrow> string option \<Rightarrow> int" where
  "case_insensitive_strcmp string1 string2 =
     (case (string1, string2) of (Some s1, Some s2) \<Rightarrow> compare_lower s1 s2 | _ \<Rightarrow> 1)"

fun find_case_sensitive :: "string \<Rightarrow> 'd cJSON list \<Rightarrow> 'd cJSON option" where
  "find_case_sensitive nm [] = None"
| "find_case_sensitive nm (x # xs) =
     (case item_name x of None \<Rightarrow> None | Some s \<Rightarrow> if nm \<noteq> s then find_case_sensitive nm xs else Some x)"

fun find_case_insensitive :: "string \<Rightarrow> 'd cJSON list \<Rightarrow> 'd cJSON option" where
  "find_case_insensitive nm [] = None"
| "find_case_insensitive nm (x # xs) =
     (if case_insensitive_strcmp (Some nm) (item_name x) \<noteq> 0 then find_case_insensitive nm xs
      else if item_name x = None then None else Some x)"

definition get_object_item :: "'d cJSON option \<Rightarrow> string option \<Rightarrow> bool \<Rightarrow> 'd cJSON option" where
  "get_object_item object nm case_sensitive =
     (case (object, nm) of
        (Some x, Some s) \<Rightarrow> if case_sensitive then find_case_sensitive s (child x) else find_case_insensitive s (child x)
      | _ \<Rightarrow> None)"

definition loader_cJSON_GetObjectItem :: "'d cJSON option \<Rightarrow> string option \<Rightarrow> 'd cJSON option" where
  "loader_cJSON_GetObjectItem object nm = get_object_item object nm False"

definition loader_cJSON_GetObjectItemCaseSensitive :: "'d cJSON option \<Rightarrow> string option \<Rightarrow> 'd cJSON option" where
  "loader_cJSON_GetObjectItemCaseSensitive object nm = get_object_item object nm True"

definition loader_cJSON_HasObjectItem :: "'d cJSON option \<Rightarrow> string option \<Rightarrow> bool" where
  "loader_cJSON_HasObjectItem object nm \<longleftrightarrow> loader_cJSON_GetObjectItem object nm \<noteq> None"

text \<open>The number of children as an \<^verbatim>\<open>int\<close>.\<close>

definition loader_cJSON_GetArraySize :: "'d cJSON option \<Rightarrow> int" where
  "loader_cJSON_GetArraySize array =
     (case array of None \<Rightarrow> 0 | Some x \<Rightarrow> (int (length (child x)) + 2 ^ 31) mod 2 ^ 32 - 2 ^ 31)"

fun get_array_item :: "'d cJSON list \<Rightarrow> nat \<Rightarrow> 'd cJSON option" where
  "get_array_item [] index = None"
| "get_array_item (x # xs) 0 = Some x"
| "get_array_item (x # xs) (Suc index) = get_array_item xs index"

definition loader_cJSON_GetArrayItem :: "'d cJSON option \<Rightarrow> int \<Rightarrow> 'd cJSON option" where
  "loader_cJSON_GetArrayItem array index =
     (if index < 0 then None else (case array of None \<Rightarrow> None | Some x \<Rightarrow> get_array_item (child x) (nat index)))"

section \<open>Files\<close>

text \<open>A file that can be opened: its size, if \<^verbatim>\<open>fstat\<close> succeeds, and the bytes \<^verbatim>\<open>fread\<close> gives.\<close>

record unix_file =
  st_size :: "nat option"
  fread_bytes :: string

definition loader_read_entire_file :: "(string \<Rightarrow> unix_file option) \<Rightarrow> allocator \<Rightarrow> string \<Rightarrow> heap \<Rightarrow> VkResult \<times> string option \<times> heap" where
  "loader_read_entire_file fopen a filename h =
     (case fopen filename of
        None \<Rightarrow> (VK_ERROR_INITIALIZATION_FAILED, None, h)
      | Some f \<Rightarrow> (case st_size f of
          None \<Rightarrow> (VK_ERROR_INITIALIZATION_FAILED, None, h)
        | Some n \<Rightarrow>
            (case loader_calloc a (CHR 0x00) (n + 1) h of
               (Buf cells, h) \<Rightarrow>
                 if n \<noteq> length (fread_bytes f) then (VK_ERROR_INITIALIZATION_FAILED, Some (take n (fread_bytes f) @ drop (length (fread_bytes f)) cells), h)
                 else (VK_SUCCESS, Some (fread_bytes f @ [CHR 0x00]), h)
             | (_, h) \<Rightarrow> (VK_ERROR_OUT_OF_HOST_MEMORY, None, h))))"

definition loader_get_json :: "'d floats \<Rightarrow> (string \<Rightarrow> unix_file option) \<Rightarrow> allocator \<Rightarrow> string \<Rightarrow> heap \<Rightarrow> (VkResult \<times> 'd cJSON option \<times> heap) option" where
  "loader_get_json F fopen a filename h =
     (case loader_read_entire_file fopen a filename h of (res, json_buf, h) \<Rightarrow>
        if res \<noteq> VK_SUCCESS then Some (res, None, free_str a json_buf h)
        else do {
          buf \<leftarrow> json_buf;
          (json, out_of_memory, h, _) \<leftarrow> loader_cJSON_ParseWithLength F a buf False h;
          let res = (if out_of_memory then VK_ERROR_OUT_OF_HOST_MEMORY else VK_SUCCESS);
          let h = free_str a json_buf h;
          (case json of
             Some item \<Rightarrow> if res \<noteq> VK_SUCCESS then Some (res, None, loader_cJSON_Delete [item] a h) else Some (res, Some item, h)
           | None \<Rightarrow> Some (res, None, h))
        })"

section \<open>Strings of manifests\<close>

text \<open>Copying into the bytes of the caller.  The flag for out of memory is never set, and the constant passed for the format is not false.\<close>

definition loader_parse_json_string_to_existing_str ::
  "'d printf \<Rightarrow> allocator \<Rightarrow> char \<Rightarrow> 'd cJSON option \<Rightarrow> string option \<Rightarrow> string \<Rightarrow> heap \<Rightarrow> (VkResult \<times> string \<times> heap) option" where
  "loader_parse_json_string_to_existing_str P a junk object key out_string h =
     (if key = None then Some (VK_ERROR_INITIALIZATION_FAILED, out_string, h)
      else (case loader_cJSON_GetObjectItem object key of
        None \<Rightarrow> Some (VK_ERROR_INITIALIZATION_FAILED, out_string, h)
      | Some item \<Rightarrow>
          if ctype item \<noteq> cJSON_String \<or> valuestring item = None then Some (VK_ERROR_INITIALIZATION_FAILED, out_string, h)
          else do {
            (success, out_string, h) \<leftarrow> loader_cJSON_PrintPreallocated P a junk item out_string True h;
            (if \<not> success then Some (VK_ERROR_INITIALIZATION_FAILED, out_string, h) else Some (VK_SUCCESS, out_string, h))
          }))"

text \<open>\<open>out\<close> is whether the caller gave a pointer for the string.\<close>

definition loader_parse_json_string ::
  "'d printf \<Rightarrow> allocator \<Rightarrow> char \<Rightarrow> 'd cJSON option \<Rightarrow> string option \<Rightarrow> bool \<Rightarrow> heap \<Rightarrow> (VkResult \<times> string option \<times> heap) option" where
  "loader_parse_json_string P a junk object key out h =
     (if key = None then Some (VK_ERROR_INITIALIZATION_FAILED, None, h)
      else (case loader_cJSON_GetObjectItem object key of
        None \<Rightarrow> Some (VK_ERROR_INITIALIZATION_FAILED, None, h)
      | Some item \<Rightarrow>
          if valuestring item = None then Some (VK_ERROR_INITIALIZATION_FAILED, None, h)
          else do {
            (str, out_of_memory, h) \<leftarrow> loader_cJSON_Print P a junk item False h;
            (if out_of_memory \<or> str = None then Some (VK_ERROR_OUT_OF_HOST_MEMORY, None, h)
             else Some (VK_SUCCESS, if out then map_option c_string str else None, h))
          }))"

text \<open>The loop over the elements; a string too long to print, which would be added as a null pointer, is outside of the model.\<close>

fun append_elements :: "'d printf \<Rightarrow> allocator \<Rightarrow> char \<Rightarrow> 'd cJSON list \<Rightarrow> loader_string_list \<Rightarrow> heap \<Rightarrow> (VkResult \<times> loader_string_list \<times> heap) option" where
  "append_elements P a junk [] sl h = Some (VK_SUCCESS, sl, h)"
| "append_elements P a junk (element # elements) sl h =
     (if ctype element \<noteq> cJSON_String then Some (VK_ERROR_INITIALIZATION_FAILED, sl, h)
      else do {
        (out_data, out_of_memory, h) \<leftarrow> loader_cJSON_Print P a junk element False h;
        (if out_of_memory then Some (VK_ERROR_OUT_OF_HOST_MEMORY, sl, h)
         else do {
           str \<leftarrow> out_data;
           (res, sl, h) \<leftarrow> append_str_to_string_list a sl (c_string str) h;
           (if res = VK_ERROR_OUT_OF_HOST_MEMORY then Some (res, sl, h) else append_elements P a junk elements sl h)
         })
      })"

definition loader_parse_json_array_of_strings ::
  "'d printf \<Rightarrow> allocator \<Rightarrow> char \<Rightarrow> 'd cJSON option \<Rightarrow> string option \<Rightarrow> loader_string_list \<Rightarrow> heap \<Rightarrow> (VkResult \<times> loader_string_list \<times> heap) option" where
  "loader_parse_json_array_of_strings P a junk object key string_list h =
     (if key = None then Some (VK_ERROR_INITIALIZATION_FAILED, string_list, h)
      else (case loader_cJSON_GetObjectItem object key of
        None \<Rightarrow> Some (VK_ERROR_INITIALIZATION_FAILED, string_list, h)
      | Some item \<Rightarrow>
          (let cnt = nat (loader_cJSON_GetArraySize (Some item) mod 2 ^ 32) in
           if cnt = 0 then Some (VK_SUCCESS, string_list, h)
           else do {
             (res, sl, h) \<leftarrow> (case create_string_list a cnt string_list h of (res, sl, h) \<Rightarrow>
                if res = VK_ERROR_OUT_OF_HOST_MEMORY then Some (res, sl, h) else append_elements P a junk (child item) sl h);
             (if res = VK_ERROR_OUT_OF_HOST_MEMORY \<and> sl_list sl \<noteq> NULL then do {
                (sl, h) \<leftarrow> free_string_list a sl h;
                Some (res, sl, h)
              } else Some (res, sl, h))
           })))"

section \<open>Copying strings\<close>

text \<open>A C string that is not too long to be printed: \<^verbatim>\<open>ensure\<close> refuses lengths above half of \<^verbatim>\<open>INT_MAX\<close>.\<close>

definition print_fits :: "string \<Rightarrow> bool" where
  "print_fits s \<longleftrightarrow> CHR 0x00 \<notin> set s \<and> length s + escape_characters s + 2 \<le> INT_MAX div 2"

text \<open>A string that comes out of \<^verbatim>\<open>loader_cJSON_Print\<close> as it is: no control characters but those with an escape of one letter, and no memory of a reallocation callback behind it.\<close>

definition plain_copy :: "allocator \<Rightarrow> string \<Rightarrow> bool" where
  "plain_copy a s \<longleftrightarrow> printable s \<and> (escape_characters s = 0 \<or> length s < 256 \<or> \<not> by_callback a)"

lemma copied_plain_copy: "list_all (plain_copy a) ss \<Longrightarrow> map (copied a junk) ss = ss"
  by (rule map_idI) (auto simp: list_all_iff plain_copy_def intro!: copied_plain)

lemma print_copy:
  assumes "print_fits s" "ctype item AND 0xFF = cJSON_String" "valuestring item = Some s"
  shows "\<exists>r oom' h'. loader_cJSON_Print P a junk item oom h = Some (r, oom', h') \<and> outcomes h' = outcomes h \<and>
    (case r of None \<Rightarrow> (\<exists>k. \<not> outcomes h k) \<and> oom' \<and> live h' = live h | Some bs \<Rightarrow> oom' = oom \<and> live h' = live h + 1 \<and> c_string bs = copied a junk s)"
  using print_string_copied [OF assms(2,3)] assms(1) by (simp add: print_fits_def)

lemma append_in_room:
  assumes "wf_string_list sl" "sl_count sl < sl_allocated_count sl" "sl_count sl < 2 ^ 31"
  shows "\<exists>sl'. append_str_to_string_list a sl str h = Some (VK_SUCCESS, sl', h) \<and> wf_string_list sl' \<and> sl_strings sl' = sl_strings sl @ [str] \<and>
    sl_count sl' = sl_count sl + 1 \<and> sl_allocated_count sl' = sl_allocated_count sl \<and> sl_owned sl' = sl_owned sl + 1"
proof -
  obtain xs where xs: "sl_list sl = Buf xs" "length xs = sl_allocated_count sl" "list_all (\<lambda>c. c \<noteq> None) (take (sl_count sl) xs)"
    using assms(1,2) by (auto simp: wf_string_list_def split: buf.splits)
  let ?sl = "sl\<lparr>sl_list := Buf (xs[sl_count sl := Some str]), sl_count := sl_count sl + 1\<rparr>"
  have "append_str_to_string_list a sl str h = Some (VK_SUCCESS, ?sl, h)"
    using assms xs by (simp add: append_str_to_string_list_def increase_str_capacity_by_at_least_one_def)
  moreover have "wf_string_list ?sl" using xs assms by (auto simp: wf_string_list_def take_Suc_update)
  moreover have "sl_strings ?sl = sl_strings sl @ [str]" using xs assms by (simp add: sl_strings_def take_Suc_update)
  ultimately show ?thesis using xs by (auto simp: sl_owned_def)
qed

lemma append_elements_ok:
  "\<forall>x\<in>set xs. ctype x = cJSON_String \<and> (\<exists>s. valuestring x = Some s \<and> print_fits s) \<Longrightarrow> wf_string_list sl \<Longrightarrow>
   sl_count sl + length xs \<le> sl_allocated_count sl \<Longrightarrow> sl_count sl + length xs \<le> 2 ^ 31 \<Longrightarrow>
   \<exists>r sl' h'. append_elements P a junk xs sl h = Some (r, sl', h') \<and> wf_string_list sl' \<and> live h' - sl_owned sl' = live h - sl_owned sl \<and>
     (r = VK_SUCCESS \<and> sl_strings sl' = sl_strings sl @ map (copied a junk \<circ> the \<circ> valuestring) xs \<or> r = VK_ERROR_OUT_OF_HOST_MEMORY \<and> (\<exists>k. \<not> outcomes h k))"
proof (induction xs arbitrary: sl h)
  case (Cons x xs)
  obtain s where x: "ctype x = cJSON_String" "valuestring x = Some s" "print_fits s" using Cons.prems(1) by auto
  obtain r oom' h1 where p: "loader_cJSON_Print P a junk x False h = Some (r, oom', h1)" "outcomes h1 = outcomes h"
    "case r of None \<Rightarrow> (\<exists>k. \<not> outcomes h k) \<and> oom' \<and> live h1 = live h | Some bs \<Rightarrow> oom' = False \<and> live h1 = live h + 1 \<and> c_string bs = copied a junk s"
    using print_copy [OF x(3) _ x(2), of P a junk False h] x(1) by auto
  show ?case
  proof (cases r)
    case None
    with p x(1) have "append_elements P a junk (x # xs) sl h = Some (VK_ERROR_OUT_OF_HOST_MEMORY, sl, h1)" by simp
    with None p(3) Cons.prems(2) show ?thesis by simp
  next
    case (Some bs)
    obtain sl1 where sl1: "append_str_to_string_list a sl (copied a junk s) h1 = Some (VK_SUCCESS, sl1, h1)" "wf_string_list sl1" "sl_strings sl1 = sl_strings sl @ [copied a junk s]"
      "sl_count sl1 = sl_count sl + 1" "sl_allocated_count sl1 = sl_allocated_count sl" "sl_owned sl1 = sl_owned sl + 1"
      using append_in_room [OF Cons.prems(2), of a "copied a junk s" h1] Cons.prems(3,4) by auto
    have step: "append_elements P a junk (x # xs) sl h = append_elements P a junk xs sl1 h1" using Some p x(1) sl1(1) by simp
    obtain r' sl' h' where rest: "append_elements P a junk xs sl1 h1 = Some (r', sl', h')" "wf_string_list sl'" "live h' - sl_owned sl' = live h1 - sl_owned sl1"
      "r' = VK_SUCCESS \<and> sl_strings sl' = sl_strings sl1 @ map (copied a junk \<circ> the \<circ> valuestring) xs \<or> r' = VK_ERROR_OUT_OF_HOST_MEMORY \<and> (\<exists>k. \<not> outcomes h1 k)"
      using Cons.IH [of sl1 h1] Cons.prems sl1 by auto
    then show ?thesis using step Some p sl1 x(2) by auto
  qed
qed simp

lemma array_of_strings:
  assumes item: "loader_cJSON_GetObjectItem object (Some key) = Some item" and len: "0 < length (child item)" "length (child item) < 2 ^ 31"
    and xs: "\<forall>x\<in>set (child item). ctype x = cJSON_String \<and> (\<exists>s. valuestring x = Some s \<and> print_fits s)"
  shows "\<exists>r sl' h'. loader_parse_json_array_of_strings P a junk object (Some key) sl h = Some (r, sl', h') \<and>
    (r = VK_SUCCESS \<and> wf_string_list sl' \<and> sl_strings sl' = map (copied a junk \<circ> the \<circ> valuestring) (child item) \<and> live h' = live h + sl_owned sl' \<or>
     r = VK_ERROR_OUT_OF_HOST_MEMORY \<and> sl_list sl' = NULL \<and> live h' = live h \<and> (\<exists>k. \<not> outcomes h k))"
proof -
  let ?n = "length (child item)"
  have n: "nat (loader_cJSON_GetArraySize (Some item) mod 2 ^ 32) = ?n" using len by (simp add: loader_cJSON_GetArraySize_def)
  show ?thesis
  proof (cases "succeeds h")
    case False
    then have "loader_parse_json_array_of_strings P a junk object (Some key) sl h = Some (VK_ERROR_OUT_OF_HOST_MEMORY, sl\<lparr>sl_list := NULL\<rparr>, tick h)"
      using item n len(1) by (simp add: loader_parse_json_array_of_strings_def create_string_list_def loader_calloc_def Let_def)
    then show ?thesis using False by (auto simp: succeeds_def)
  next
    case True
    let ?sl = "sl\<lparr>sl_list := Buf (replicate ?n None), sl_allocated_count := ?n, sl_count := 0\<rparr>" and ?h = "add_live 1 (tick h)"
    have c: "create_string_list a ?n sl h = (VK_SUCCESS, ?sl, ?h)" using True by (simp add: create_string_list_def loader_calloc_def)
    have "wf_string_list ?sl" using len by (simp add: wf_string_list_def)
    from append_elements_ok [OF xs this, of P a junk ?h] len obtain r sl' h' where
      r: "append_elements P a junk (child item) ?sl ?h = Some (r, sl', h')" "wf_string_list sl'" "live h' - sl_owned sl' = live h"
        "r = VK_SUCCESS \<and> sl_strings sl' = map (copied a junk \<circ> the \<circ> valuestring) (child item) \<or> r = VK_ERROR_OUT_OF_HOST_MEMORY \<and> (\<exists>k. \<not> outcomes h k)"
      by (auto simp: sl_owned_def sl_strings_def)
    have run: "loader_parse_json_array_of_strings P a junk object (Some key) sl h =
        (if r = VK_ERROR_OUT_OF_HOST_MEMORY \<and> sl_list sl' \<noteq> NULL then do { (sl, h) \<leftarrow> free_string_list a sl' h'; Some (r, sl, h) } else Some (r, sl', h'))"
      using item n len(1) c r(1) by (simp add: loader_parse_json_array_of_strings_def Let_def)
    from r(4) show ?thesis
    proof
      assume "r = VK_SUCCESS \<and> sl_strings sl' = map (copied a junk \<circ> the \<circ> valuestring) (child item)"
      with run r(2,3) show ?thesis by auto
    next
      assume oom: "r = VK_ERROR_OUT_OF_HOST_MEMORY \<and> (\<exists>k. \<not> outcomes h k)"
      obtain h2 where f: "free_string_list a sl' h' = Some (empty_string_list, h2)" "live h2 = live h' - sl_owned sl'"
        using free_string_list_releases [OF r(2)] by blast
      show ?thesis
      proof (cases "sl_list sl' = NULL")
        case True
        then have "sl_owned sl' = 0" by (simp add: sl_owned_def sl_strings_def)
        with True run oom r(3) show ?thesis by auto
      next
        case False
        with run oom r(3) f show ?thesis by (auto simp: empty_string_list_def)
      qed
    qed
  qed
qed

lemma print_preallocated:
  assumes s: "printable s" and t: "ctype item = cJSON_String" "valuestring item = Some s" and n: "n = length s + escape_characters s" "n < INT_MAX"
  shows "loader_cJSON_PrintPreallocated P a junk item out fmt h =
    Some (if n + 2 \<le> length out then (True, (s @ drop (length s) out)[n := CHR 0x00], h) else (False, out, h))"
proof -
  let ?p = "\<lparr>pr_buffer = Buf out, pr_length = length out, pr_offset = 0, pr_depth = 0, pr_noalloc = True, pr_format = fmt, pr_oom = False, pr_heap = h\<rparr>"
  have v: "print_value P a junk item ?p = print_string_ptr a junk (Some s) ?p" using t by (cases item) simp
  have e: "ensure a junk (n + 1) ?p = Some (n + 2 \<le> length out, ?p)" using n(2) by (auto simp: ensure_def Let_def)
  show ?thesis
  proof (cases "n + 2 \<le> length out")
    case True
    then have "print_string_ptr a junk (Some s) ?p = Some (True, ?p\<lparr>pr_buffer := Buf ((s @ drop (length s) out)[n := CHR 0x00])\<rparr>)"
      by (intro print_string_memory [OF s n(1)]) (use e in simp_all)
    then show ?thesis using True v by (simp add: loader_cJSON_PrintPreallocated_def)
  next
    case False
    then have "print_string_ptr a junk (Some s) ?p = Some (False, ?p)" using e n(1) by (simp add: print_string_ptr_def on_ok_def)
    then show ?thesis using False v by (simp add: loader_cJSON_PrintPreallocated_def)
  qed
qed

section \<open>Reading files\<close>

text \<open>Reading a manifest has no undefined behaviour and no leak: the buffer of the text is released on every path, and a tree is returned only with \<open>VK_SUCCESS\<close>.\<close>

lemma get_json:
  assumes F: "floats_ok F"
  shows "\<exists>res json h'. loader_get_json F fopen a filename h = Some (res, json, h') \<and>
    (case json of None \<Rightarrow> live h' = live h | Some item \<Rightarrow> res = VK_SUCCESS \<and> well_typed item \<and> live h' = live h + owned item)"
proof -
  obtain res buf h1 where rd: "loader_read_entire_file fopen a filename h = (res, buf, h1)" using prod_cases3 by blast
  have b: "live h1 = live h + blocks_of buf" "res = VK_SUCCESS \<Longrightarrow> buf \<noteq> None"
    using rd by (auto simp: loader_read_entire_file_def loader_calloc_def split: option.splits if_splits)
  show ?thesis
  proof (cases "res = VK_SUCCESS")
    case False
    then show ?thesis using rd b(1) by (auto simp: loader_get_json_def split: option.splits)
  next
    case True
    then obtain bs where bs: "buf = Some bs" using b(2) by auto
    obtain r oom' h2 e where p: "loader_cJSON_ParseWithLengthOpts F a bs False False h1 = Some (r, oom', h2, e)" "parse_result_ok h1 bs r h2 e"
      using parse_with_length_opts [OF F] by blast
    have run: "loader_get_json F fopen a filename h = (case r of
        Some item \<Rightarrow> if oom' then Some (VK_ERROR_OUT_OF_HOST_MEMORY, None, loader_cJSON_Delete [item] a (free_str a buf h2)) else Some (VK_SUCCESS, Some item, free_str a buf h2)
      | None \<Rightarrow> Some (if oom' then VK_ERROR_OUT_OF_HOST_MEMORY else VK_SUCCESS, None, free_str a buf h2))"
      using rd True bs p(1) by (auto simp: loader_get_json_def loader_cJSON_ParseWithLength_def split: option.splits)
    show ?thesis
    proof (cases r)
      case None
      then show ?thesis using run p(2) b(1) bs by (simp add: parse_result_ok_def)
    next
      case (Some item)
      then have "well_typed item" "live h2 = live h1 + owned item" using p(2) by (simp_all add: parse_result_ok_def)
      then show ?thesis using Some run b(1) bs well_typed_deletable [of item] delete_releases [of "[item]"] by (cases oom') simp_all
    qed
  qed
qed

text \<open>Names that differ in the case of letters only.\<close>

definition same_name :: "string \<Rightarrow> string \<Rightarrow> bool" where "same_name s t \<longleftrightarrow> map c_tolower s = map c_tolower t"

lemma tolower_zero: "c_tolower c = 0 \<longleftrightarrow> c = CHR 0x00"
proof -
  have "c_tolower c = 0 \<longleftrightarrow> (of_char c :: int) = of_char (CHR 0x00)" by (auto simp: c_tolower_def Let_def)
  also have "\<dots> \<longleftrightarrow> c = CHR 0x00" by (rule of_char_eq_iff)
  finally show ?thesis .
qed

lemma compare_lower_zero: "CHR 0x00 \<notin> set s \<Longrightarrow> CHR 0x00 \<notin> set t \<Longrightarrow> compare_lower s t = 0 \<longleftrightarrow> same_name s t"
  by (induction s t rule: compare_lower.induct) (auto simp: same_name_def tolower_zero)

lemma item_name_tree_of [simp]: "item_name (tree_of F nm v) = nm"
  by (cases v) simp_all

lemma c_string_no_zero: "CHR 0x00 \<notin> set (c_string s)"
  by (auto simp: c_string_def dest: set_takeWhileD)

lemma find_member:
  assumes "CHR 0x00 \<notin> set key"
  shows "find_case_insensitive key (map (\<lambda>(k, v). tree_of F (Some (c_string k)) v) ms) =
    map_option (\<lambda>(k, v). tree_of F (Some (c_string k)) v) (List.find (\<lambda>(k, v). same_name key (c_string k)) ms)"
  using assms by (induction ms) (auto simp: case_insensitive_strcmp_def compare_lower_zero c_string_no_zero)

lemma get_json_document:
  assumes doc: "json_value 63 F t v" "nesting v \<le> CJSON_NESTING_LIMIT" "json_ws w" "json_ws w'" "bom \<in> {[], [CHR 0xEF, CHR 0xBB, CHR 0xBF]}" and mem: "\<forall>k. outcomes h k"
    and opened: "fopen filename = Some \<lparr>st_size = Some (length (bom @ w @ t @ w')), fread_bytes = bom @ w @ t @ w'\<rparr>"
  shows "\<exists>h'. loader_get_json F fopen a filename h = Some (VK_SUCCESS, Some (tree_of F None v), h') \<and> outcomes h' = outcomes h"
proof -
  let ?h = "add_live 1 (tick h)"
  have rd: "loader_read_entire_file fopen a filename h = (VK_SUCCESS, Some ((bom @ w @ t @ w') @ [CHR 0x00]), ?h)"
    using opened mem by (simp add: loader_read_entire_file_def loader_calloc_def succeeds_def)
  have "\<forall>k. outcomes ?h k" using mem by simp
  from json_document_read [OF doc this, of a False False] obtain h' e where
    "loader_cJSON_ParseWithLength F a ((bom @ w @ t @ w') @ [CHR 0x00]) False ?h = Some (Some (tree_of F None v), False, h', e)" "outcomes h' = outcomes ?h"
    by (auto simp: loader_cJSON_ParseWithOpts_def loader_cJSON_ParseWithLength_def)
  then show ?thesis using rd by (auto simp: loader_get_json_def free_str_def)
qed

lemma existing_string:
  assumes item: "loader_cJSON_GetObjectItem object (Some key) = Some item" "ctype item = cJSON_String" "valuestring item = Some s"
    and s: "printable s" "length s + escape_characters s < INT_MAX" and zero: "escape_characters s = 0 \<or> out ! length s = CHR 0x00"
  shows "\<exists>out'. loader_parse_json_string_to_existing_str P a junk object (Some key) out h =
      Some (if length s + escape_characters s + 2 \<le> length out then (VK_SUCCESS, out', h) else (VK_ERROR_INITIALIZATION_FAILED, out, h)) \<and>
    length out' = length out \<and> (length s + escape_characters s + 2 \<le> length out \<longrightarrow> c_string out' = s)"
proof (cases "length s + escape_characters s + 2 \<le> length out")
  case True
  let ?out = "(s @ drop (length s) out)[length s + escape_characters s := CHR 0x00]"
  have "loader_parse_json_string_to_existing_str P a junk object (Some key) out h = Some (VK_SUCCESS, ?out, h)"
    using print_preallocated [OF s(1) item(2,3) refl s(2), of P a junk out True h] item True by (simp add: loader_parse_json_string_to_existing_str_def)
  moreover have "length ?out = length out" using True by simp
  moreover have "c_string ?out = s"
  proof (rule c_string_at)
    show "?out ! length s = CHR 0x00" using zero True by (cases "escape_characters s = 0") (auto simp: nth_append)
  qed (use True s(1) in simp_all)
  ultimately show ?thesis using True by auto
next
  case False
  then have "loader_parse_json_string_to_existing_str P a junk object (Some key) out h = Some (VK_ERROR_INITIALIZATION_FAILED, out, h)"
    using print_preallocated [OF s(1) item(2,3) refl s(2), of P a junk out True h] item by (simp add: loader_parse_json_string_to_existing_str_def)
  then show ?thesis using False by (intro exI [of _ out]) simp
qed

section \<open>Properties\<close>

text \<open>C6: 
  The strings of a manifest: when a file holds an object of the JSON grammar (nested at most 1000 deep, no number of more than 63 characters, no escaped surrogate alone) and its first member with the
  name asked for, in any case of letters, is an array of strings, none of them too long to be printed, then with enough memory \<^verbatim>\<open>loader_get_json\<close> and
  \<^verbatim>\<open>loader_parse_json_array_of_strings\<close> succeed.  The list holds the decoded strings (each up to a zero) in the order of the text, printed: control characters without an escape of one letter become
  \<^verbatim>\<open>u00xx\<close>, and a string of 256 bytes or more gets a byte of unset memory behind it for every escape when the memory comes from a reallocation callback.  When no string is of these kinds, the list
  holds the decoded strings themselves.
\<close>

theorem manifest_strings_read:
  assumes "json_value 63 F t (JObject ms)" and "nesting (JObject ms) \<le> CJSON_NESTING_LIMIT" and "json_ws w" and "json_ws w'" and "bom \<in> {[], [CHR 0xEF, CHR 0xBB, CHR 0xBF]}"
    and "fopen filename = Some \<lparr>st_size = Some (length (bom @ w @ t @ w')), fread_bytes = bom @ w @ t @ w'\<rparr>" and "\<forall>k. outcomes h k"
    and "CHR 0x00 \<notin> set key" and "List.find (\<lambda>(k, v). same_name key (c_string k)) ms = Some (k, JArray (map JString ss))"
    and "ss \<noteq> []" and "length ss < 2 ^ 31" and "\<forall>s\<in>set ss. print_fits (c_string s)"
  shows "\<exists>json h1 sl' h2. loader_get_json F fopen a filename h = Some (VK_SUCCESS, Some json, h1) \<and>
    loader_parse_json_array_of_strings P a junk (Some json) (Some key) sl h1 = Some (VK_SUCCESS, sl', h2) \<and>
    sl_strings sl' = map (copied a junk \<circ> c_string) ss \<and> (list_all (plain_copy a \<circ> c_string) ss \<longrightarrow> sl_strings sl' = map c_string ss)"
proof -
  let ?json = "tree_of F None (JObject ms)" and ?item = "tree_of F (Some (c_string k)) (JArray (map JString ss))"
  obtain h1 where h1: "loader_get_json F fopen a filename h = Some (VK_SUCCESS, Some ?json, h1)" "outcomes h1 = outcomes h"
    using get_json_document [where fopen = fopen and filename = filename, OF assms(1-5) assms(7) assms(6), of a] by blast
  have item: "loader_cJSON_GetObjectItem (Some ?json) (Some key) = Some ?item"
    using find_member [OF assms(8), of F ms] assms(9) by (simp add: loader_cJSON_GetObjectItem_def get_object_item_def)
  have "\<exists>sl' h2. loader_parse_json_array_of_strings P a junk (Some ?json) (Some key) sl h1 = Some (VK_SUCCESS, sl', h2) \<and> sl_strings sl' = map (copied a junk \<circ> c_string) ss"
    using array_of_strings [OF item, of P a junk sl h1] assms(7,10-12) h1(2) by (auto simp: comp_def)
  with h1(1) copied_plain_copy [of a "map c_string ss" junk] show ?thesis by (fastforce simp: list_all_iff comp_def)
qed

definition sample_manifest :: string where
  "sample_manifest = ''{'' @ [CHR 0x22] @ ''Names'' @ [CHR 0x22] @ '': ['' @ [CHR 0x22] @ ''ab'' @ [CHR 0x22] @ '']}''"

lemma json_string_plain: "list_all (\<lambda>c. of_char c \<ge> (32 :: nat) \<and> c \<noteq> CHR 0x22 \<and> c \<noteq> CHR 0x5C) s \<Longrightarrow> json_string s s"
  by (induction s) (auto intro: json_string.intros)

lemma sample_manifest_text: "json_value 63 sample_floats sample_manifest (JObject [(''Names'', JArray (map JString [''ab'']))])"
proof -
  have ws: "json_ws []" "json_ws '' ''" by (simp_all add: json_ws_def)
  have s: "json_string ''Names'' ''Names''" "json_string ''ab'' ''ab''" by (rule json_string_plain; simp)+
  have "json_elements 63 sample_floats (CHR 0x22 # ''ab'' @ [CHR 0x22]) [JString ''ab'']" using element [OF str [OF s(2)] ws(1)] by simp
  from object [OF ws(1) member [OF s(1) ws(1) ws(2) array [OF ws(1) this] ws(1)]] show ?thesis by (simp add: sample_manifest_def)
qed

theorem manifest_strings_read_witness:
  "\<exists>json h1 sl' h2. loader_get_json sample_floats (\<lambda>_. Some \<lparr>st_size = Some (length ([] @ [] @ sample_manifest @ [])), fread_bytes = [] @ [] @ sample_manifest @ []\<rparr>) None ''a.json'' (sample_heap True) =
      Some (VK_SUCCESS, Some json, h1) \<and>
    loader_parse_json_array_of_strings sample_printf None (CHR ''x'') (Some json) (Some ''names'') empty_string_list h1 = Some (VK_SUCCESS, sl', h2) \<and> sl_strings sl' = [''ab'']"
  using manifest_strings_read [OF sample_manifest_text, where k = "''Names''" and w = "[]" and w' = "[]" and bom = "[]" and h = "sample_heap True" and a = None and key = "''names''"
      and ss = "[''ab'']" and filename = "''a.json''" and P = sample_printf and junk = "CHR ''x''" and sl = empty_string_list
      and fopen = "\<lambda>_. Some \<lparr>st_size = Some (length ([] @ [] @ sample_manifest @ [])), fread_bytes = [] @ [] @ sample_manifest @ []\<rparr>"]
  by (simp add: json_ws_def same_name_def c_tolower_def c_string_def print_fits_def plain_copy_def needs_escape_def) blast

text \<open>C32: 
  An array of strings (C strings, none of them too long to be printed) is read in full or not at all: with \<open>VK_SUCCESS\<close> the list is well-formed, holds a string for every element, in order, and owns all
  the memory that was taken; when memory runs out the list is released, and nothing stays allocated.  The strings of the list are those of the elements as they are printed, which is as they are when
  they have no control characters but those with an escape of one letter, and have no escapes, or fewer than 256 bytes, or memory that does not come from a reallocation callback.
\<close>

theorem json_array_of_strings:
  assumes "loader_cJSON_GetObjectItem object (Some key) = Some item" and "0 < length (child item)" and "length (child item) < 2 ^ 31"
    and "\<forall>x\<in>set (child item). ctype x = cJSON_String \<and> (\<exists>s. valuestring x = Some s \<and> print_fits s)"
  shows "\<exists>r sl' h'. loader_parse_json_array_of_strings P a junk object (Some key) sl h = Some (r, sl', h') \<and>
    (r = VK_SUCCESS \<and> wf_string_list sl' \<and> sl_strings sl' = map (copied a junk \<circ> the \<circ> valuestring) (child item) \<and>
       (list_all (plain_copy a \<circ> the \<circ> valuestring) (child item) \<longrightarrow> sl_strings sl' = map (the \<circ> valuestring) (child item)) \<and> live h' = live h + sl_owned sl' \<or>
     r = VK_ERROR_OUT_OF_HOST_MEMORY \<and> sl_list sl' = NULL \<and> live h' = live h \<and> (\<exists>k. \<not> outcomes h k))"
  using array_of_strings [OF assms, of P a junk sl h] copied_plain_copy [of a "map (the \<circ> valuestring) (child item)" junk] by (fastforce simp: list_all_iff comp_def)

abbreviation sample_names :: "int cJSON" where
  "sample_names \<equiv> CJSON cJSON_Object None 0 None None [CJSON cJSON_Array None 0 None (Some ''names'') [CJSON cJSON_String (Some ''ab'') 0 None None []]]"

theorem json_array_of_strings_witness:
  "\<exists>r sl' h'. loader_parse_json_array_of_strings sample_printf None (CHR ''x'') (Some sample_names) (Some ''names'') empty_string_list (sample_heap False) = Some (r, sl', h') \<and>
    (r = VK_SUCCESS \<and> wf_string_list sl' \<and> sl_strings sl' = [''ab''] \<and> live h' = live (sample_heap False) + sl_owned sl' \<or>
     r = VK_ERROR_OUT_OF_HOST_MEMORY \<and> sl_list sl' = NULL \<and> live h' = live (sample_heap False) \<and> (\<exists>k. \<not> outcomes (sample_heap False) k))"
  using json_array_of_strings [of "Some sample_names" "''names''" "CJSON cJSON_Array None 0 None (Some ''names'') [CJSON cJSON_String (Some ''ab'') 0 None None []]" sample_printf None "CHR ''x''" empty_string_list "sample_heap False"]
  by (simp add: loader_cJSON_GetObjectItem_def get_object_item_def case_insensitive_strcmp_def print_fits_def plain_copy_def needs_escape_def) blast


abbreviation sample_named :: "int cJSON" where
  "sample_named \<equiv> CJSON cJSON_Object None 0 None None [CJSON cJSON_String (Some (replicate 255 (CHR ''a''))) 0 None (Some ''name'') []]"


end
