(* ===== verification/Spec2Isabelle.thy ===== *)
theory Spec2Isabelle
  imports MetaLayers DeviceSort UnknownFunctions DebugHistory SurfaceHistory DeviceHandles DeviceChains DriverInstances JsonAccess
begin

text \<open>
  \<^bold>\<open>The Vulkan loader.\<close>  The library under \<^verbatim>\<open>src/loader\<close> stands between an application and any number of Vulkan drivers (ICDs).
  It finds drivers and layers through manifest files, builds for every instance and device a chain of the enabled layers that ends
  in its own \<^emph>\<open>terminators\<close>, which distribute a call over the drivers, and exports \<^emph>\<open>trampolines\<close>, which enter the chain.  Handles the application sees
  (physical devices, surfaces, messengers) are objects of the loader that it maps to one object per driver.

  \<^bold>\<open>Conventions.\<close>  Every C function is a HOL function of the same name; state is passed explicitly.  The result \<open>None\<close> is undefined
  behaviour (an access through a null or dangling pointer or outside an array, a second \<^verbatim>\<open>free\<close>); error codes are ordinary values (\<open>VkResult\<close>).
  Allocation (theory \<open>Allocation\<close>) consumes a stream of outcomes, so a theorem about any heap covers every pattern of allocation failures, and counts
  live blocks, so leaks show.  Pointers to objects whose identity matters are addresses in an explicit store, 0 is null, and an address is never given
  out twice, so that a stale pointer is recognised.  Code outside the repository (drivers, layers, \<^verbatim>\<open>qsort\<close>, \<^verbatim>\<open>realpath\<close>, the environment) is an argument.
  Sizes are those of a 64-bit build; the Linux build without \<^verbatim>\<open>VULKANSC\<close> is modelled.  Log output and locks are not part of the models: every modelled function runs
  under a lock of the loader or on data of its caller.

  \<^bold>\<open>Theories and sources.\<close>
  \<^item> \<open>Prelude\<close>: result codes, the C string functions the loader calls, shared lemmas.
  \<^item> \<open>Allocation\<close> (\<^verbatim>\<open>allocation.c\<close>): \<^verbatim>\<open>loader_alloc\<close>, \<^verbatim>\<open>loader_calloc\<close>, \<^verbatim>\<open>loader_realloc\<close>, \<^verbatim>\<open>loader_free\<close>.
  \<^item> \<open>StringList\<close>, \<open>GenericList\<close>, \<open>ExtList\<close>, \<open>LayerList\<close> (\<^verbatim>\<open>loader.c\<close>): the dynamic arrays of the loader.  The locales \<open>slot_table\<close> (indices are handed out at most once) and the
    append contracts state what the clients rely on; they are interpreted on the code's functions.  The lemmas give the exact contents after every operation, with every allocation failure.
  \<^item> \<open>EnvFilter\<close> (\<^verbatim>\<open>loader_environment.c\<close>): filters of layer names and device identifiers; parsing and matching together are shown equal to glob matching, but for patterns of two characters that end in a star,
    and for identifiers to membership in the numbers and ranges of the variable.
  \<^item> \<open>Version\<close>, \<open>Paths\<close> (\<^verbatim>\<open>loader.c\<close>): packed versions as 32-bit words, library paths and their in-place normalisation.
  \<^item> \<open>LayerSelect\<close>, \<open>MetaLayers\<close> (\<^verbatim>\<open>loader.c\<close>, \<^verbatim>\<open>settings.c\<close>): which layers an instance activates, with meta-layers expanded.  The recursive functions carry a depth;
    \<open>verify_meta_layer_terminates\<close> shows that the number of layers is enough for the check, and \<open>layer_activation_correct\<close> that activation after the check never runs out of depth.
  \<^item> \<open>DeviceSort\<close> (\<^verbatim>\<open>loader_linux.c\<close>): the order of physical devices and groups.  \<^verbatim>\<open>qsort\<close> is an argument with the contract of the C standard.
  \<^item> \<open>UnknownFunctions\<close> (\<^verbatim>\<open>unknown_function_handling.c\<close>, \<^verbatim>\<open>dev_ext_trampoline.c\<close>, \<^verbatim>\<open>phys_dev_ext.c\<close>): function names the loader does not know.  The tables have 250 slots, as in the source;
    invariants over all histories of queries show that a slot keeps its name and dispatches to what the chain or the driver has for it.
  \<^item> \<open>DebugConversions\<close>, \<open>DebugUtils\<close>, \<open>DebugHistory\<close> (\<^verbatim>\<open>debug_utils.c\<close>): the chain of message callbacks in a store of nodes (its loops are partial functions, shown to
    end on every reachable chain), and one object per driver for each callback.
  \<^item> \<open>DriverObjects\<close>, \<open>HandleLists\<close>: the objects of a driver as a replay of the calls it receives, and the lists of driver handles that messengers, report callbacks and surfaces share.
  \<^item> \<open>Surfaces\<close>, \<open>SurfaceHistory\<close> (\<^verbatim>\<open>wsi.c\<close>): surface objects, the copy of their creation structures, the driver's surfaces created on first use, queries and swapchains.

  \<^item> \<open>PhysDevices\<close>, \<open>TrampDevices\<close>, \<open>TermDevices\<close>, \<open>DeviceHandles\<close> (\<^verbatim>\<open>loader.c\<close>, \<^verbatim>\<open>trampoline.c\<close>): physical devices.  \<^verbatim>\<open>setup_loader_term_phys_devs\<close> and \<^verbatim>\<open>setup_loader_tramp_phys_devs\<close>
    have a contract each, on the objects of their kind in a common store; together they give the meaning of \<^verbatim>\<open>vkEnumeratePhysicalDevices\<close> for the application, with identifier filters, and
    the life of a handle over all histories until the instance is destroyed.  Device configurations of a settings file, which select among the devices, are not modelled.

  \<^item> \<open>LayerChains\<close>, \<open>DeviceChains\<close> (\<^verbatim>\<open>loader.c\<close>): the chains of layers of an instance and of a device.  The relations \<open>call_path\<close> and \<open>device_path\<close> say how a call travels
    through the links; the theorems identify the path with the layers that can be loaded.  The search for the device group is a partial function on the store of structures, shown to end.

  \<^item> \<open>DriverInstances\<close> (\<^verbatim>\<open>loader.c\<close>): \<^verbatim>\<open>terminator_CreateInstance\<close>, the bottom of the instance chain.  An abstract verdict per driver determines the list of drivers and the result;
    the instances that exist in the drivers are replayed from the calls they receive.
  \<^item> \<open>Json\<close> (\<^verbatim>\<open>cJSON.c\<close>): the JSON parser and deletion.  The functions that call each other take the function for values as an argument and a fuel; \<open>parse_fuel\<close>, one more than the
    length of the text, is proved enough, since every value and every round of a loop reads a byte.  Parsing is safe, accounts for its memory, and gives well-typed trees.
  \<^item> \<open>JsonGrammar\<close>: the grammar of JSON texts (RFC 8259) with its values, UTF-8 by arithmetic, and the proof that the parser reads every text of the grammar as its value when its numbers have at most 63
    characters, the size of a buffer of the parser; longer numbers are cut.  Escaped surrogates that are not paired, to which the RFC gives no meaning, are left out of the grammar.
  \<^item> \<open>JsonPrint\<close> (\<^verbatim>\<open>cJSON.c\<close>): the printer, which the loader uses to copy strings.  It stays inside its buffer for every well-typed tree; what it makes of a string is computed exactly (\<open>copied\<close>), control characters
    and memory that is not cleared included.
  \<^item> \<open>JsonAccess\<close> (\<^verbatim>\<open>cJSON.c\<close>, \<^verbatim>\<open>loader_json.c\<close>): queries, reading a manifest, and the strings of its members; the file system is a parameter.  A string too long to be
    printed, for which the code would append a null pointer to a list, is outside of the model.

  Definitions come first in every theory, in the order of the source; lemmas on single operations follow, then invariants over histories (inductive relations
  such as \<open>dbg_run\<close>, \<open>surface_run\<close>, \<open>device_run\<close>), then the theorems and their concrete instances.  Theorems that show a defect
  state it for all inputs of a kind where that is possible, and for a concrete input otherwise.

  \<^bold>\<open>Not modelled.\<close>  Generated dispatch tables and forwarding functions (\<^verbatim>\<open>generated\<close>, most of \<^verbatim>\<open>trampoline.c\<close>, \<^verbatim>\<open>terminator.c\<close> and \<^verbatim>\<open>extension_manual.c\<close>): they only
  select a function pointer.  Scanning directories for manifests, turning them into layers and drivers, and the settings file; of the JSON library, minifying and comparing, which the loader does not use.  Loading of libraries,
  the Windows registry (\<^verbatim>\<open>loader_windows.c\<close>) and other platforms.  The assembly jumps are represented by the table they jump through.
\<close>

end
